(* ===== verification/Prelude.thy ===== *)
theory Prelude
  imports Main "HOL-Library.Word" "HOL-Library.List_Lexorder" "HOL-Library.Sublist"
begin

text \<open>
  What the components of the trunkdb model share: bytes, the result type of fallible code,
  little- and big-endian integers, slices of a byte buffer, and the generic lemmas about
  them.

  A Rust function that returns \<open>io::Result\<close> or may panic becomes a function into
  \<open>'a res\<close>: \<open>Inr\<close> is the value, \<open>Inl (Io kind)\<close> an \<open>io::Error\<close> of that kind (its
  message is left out), \<open>Inl Panic\<close> a panic (a failed \<open>assert!\<close>, an \<open>expect\<close>, a slice out
  of range). Byte strings are \<open>byte list\<close>; \<open>[u8]\<close>'s \<open>Ord\<close> is the lexicographic order of
  \<open>HOL-Library.List_Lexorder\<close>. Unsigned sizes are \<open>nat\<close>; a cast to a narrower unsigned type
  on its way into a buffer is the truncation \<open>le_bytes\<close> does.
\<close>

named_theorems res_simps \<open>equations that run a fallible computation\<close>
named_theorems buf_simps \<open>equations about slices of and writes into a byte buffer\<close>
named_theorems len_simps \<open>lengths of encodings\<close>

subsection \<open>Bytes and results\<close>

type_synonym byte = "8 word"
type_synonym bytes = "byte list"

datatype io_kind = InvalidData | InvalidInput | NotFound | WouldBlock | UnexpectedEof | OtherError

datatype error = Io io_kind | Panic

type_synonym 'a res = "error + 'a"

abbreviation corrupt :: "'a res" where
  "corrupt \<equiv> Inl (Io InvalidData)"

definition bindR :: "'a res \<Rightarrow> ('a \<Rightarrow> 'b res) \<Rightarrow> 'b res" where
  "bindR m f = (case m of Inl e \<Rightarrow> Inl e | Inr x \<Rightarrow> f x)"

lemma bindR_Inr [simp, res_simps]: "bindR (Inr x) f = f x"
  and bindR_Inl [simp, res_simps]: "bindR (Inl e) f = Inl e"
  by (simp_all add: bindR_def)

lemma bindR_cong [fundef_cong]:
  "m = m' \<Longrightarrow> (\<And>x. m' = Inr x \<Longrightarrow> f x = f' x) \<Longrightarrow> bindR m f = bindR m' f'"
  by (cases m') (simp_all add: bindR_def)

lemma bindR_eq_Inr: "bindR m f = Inr y \<longleftrightarrow> (\<exists>x. m = Inr x \<and> f x = Inr y)"
  by (cases m) simp_all

lemma bindR_eq_Inl: "bindR m f = Inl e \<longleftrightarrow> m = Inl e \<or> (\<exists>x. m = Inr x \<and> f x = Inl e)"
  by (cases m) simp_all

lemma bindR_assoc: "bindR (bindR m f) g = bindR m (\<lambda>x. bindR (f x) g)"
  by (cases m) simp_all

text \<open>Whether a fallible computation returned a value.\<close>

definition ok :: "'a res \<Rightarrow> bool" where
  "ok m = (case m of Inl _ \<Rightarrow> False | Inr _ \<Rightarrow> True)"

lemma ok_Inr [simp]: "ok (Inr x)" and ok_Inl [simp]: "\<not> ok (Inl e)"
  by (simp_all add: ok_def)

lemma ok_iff: "ok m \<longleftrightarrow> (\<exists>x. m = Inr x)"
  by (cases m) simp_all

text \<open>An ASCII literal of the source as bytes.\<close>

definition ascii :: "string \<Rightarrow> bytes" where
  "ascii s = map (\<lambda>c. of_nat (of_char c)) s"

lemma length_ascii [simp]: "length (ascii s) = length s"
  by (simp add: ascii_def)

subsection \<open>Little-endian and big-endian integers\<close>

text \<open>
  \<open>le_bytes k n\<close> are the \<open>k\<close> bytes \<open>to_le_bytes\<close> gives for an unsigned \<open>n\<close> cast to \<open>8 * k\<close>
  bits; \<open>le_nat\<close> is \<open>from_le_bytes\<close>. Big-endian is the reverse.
\<close>

fun le_bytes :: "nat \<Rightarrow> nat \<Rightarrow> bytes" where
  "le_bytes 0 n = []"
| "le_bytes (Suc k) n = of_nat (n mod 256) # le_bytes k (n div 256)"

fun le_nat :: "bytes \<Rightarrow> nat" where
  "le_nat [] = 0"
| "le_nat (b # bs) = unat b + 256 * le_nat bs"

definition be_bytes :: "nat \<Rightarrow> nat \<Rightarrow> bytes" where
  "be_bytes k n = rev (le_bytes k n)"

definition be_nat :: "bytes \<Rightarrow> nat" where
  "be_nat bs = le_nat (rev bs)"

lemma length_le_bytes [simp, len_simps]: "length (le_bytes k n) = k"
  by (induction k arbitrary: n) simp_all

lemma length_be_bytes [simp, len_simps]: "length (be_bytes k n) = k"
  by (simp add: be_bytes_def)

lemma unat_byte_lt [simp]: "unat (b :: byte) < 256"
  using unsigned_less [of b] by simp

lemma unat_of_nat_byte [simp]: "n < 256 \<Longrightarrow> unat (of_nat n :: byte) = n"
  by (simp add: unat_of_nat)

lemma le_nat_lt: "le_nat bs < 256 ^ length bs"
proof (induction bs)
  case (Cons b bs)
  have "unat b + 256 * le_nat bs < 256 * (le_nat bs + 1)" by simp
  also have "\<dots> \<le> 256 * 256 ^ length bs" using Cons.IH by (simp add: Suc_leI)
  finally show ?case by simp
qed simp

lemma le_nat_le_bytes: "le_nat (le_bytes k n) = n mod 256 ^ k"
proof (induction k arbitrary: n)
  case (Suc k)
  have "le_nat (le_bytes (Suc k) n) = n mod 256 + 256 * (n div 256 mod 256 ^ k)"
    by (simp add: Suc.IH)
  also have "\<dots> = n mod (256 * 256 ^ k)"
    by (simp add: mod_mult2_eq)
  finally show ?case by simp
qed simp

lemma le_nat_le_bytes_id [simp]: "n < 256 ^ k \<Longrightarrow> le_nat (le_bytes k n) = n"
  by (simp add: le_nat_le_bytes)

lemma le_bytes_le_nat [simp]: "le_bytes (length bs) (le_nat bs) = bs"
  by (induction bs) simp_all

lemma le_bytes_le_nat': "length bs = k \<Longrightarrow> le_bytes k (le_nat bs) = bs"
  by auto

lemma be_nat_be_bytes: "be_nat (be_bytes k n) = n mod 256 ^ k"
  by (simp add: be_nat_def be_bytes_def le_nat_le_bytes)

lemma be_bytes_be_nat: "length bs = k \<Longrightarrow> be_bytes k (be_nat bs) = bs"
  by (simp add: be_bytes_def be_nat_def le_bytes_le_nat')

lemma be_bytes_Suc: "be_bytes (Suc k) n = be_bytes k (n div 256) @ [of_nat (n mod 256)]"
  by (simp add: be_bytes_def)

subsection \<open>Loops over a buffer\<close>

text \<open>A loop that only appends to its buffer.\<close>

lemma fold_appending:
  "(\<And>x b. x \<in> set xs \<Longrightarrow> f x b = b @ g x) \<Longrightarrow> fold f xs b = b @ concat (map g xs)"
  by (induction xs arbitrary: b) simp_all

fun mapR :: "('a \<Rightarrow> 'b res) \<Rightarrow> 'a list \<Rightarrow> 'b list res" where
  "mapR f [] = Inr []"
| "mapR f (x # xs) = bindR (f x) (\<lambda>y. bindR (mapR f xs) (\<lambda>ys. Inr (y # ys)))"

fun foldR :: "('a \<Rightarrow> 's \<Rightarrow> 's res) \<Rightarrow> 'a list \<Rightarrow> 's \<Rightarrow> 's res" where
  "foldR f [] s = Inr s"
| "foldR f (x # xs) s = bindR (f x s) (foldR f xs)"

lemma mapR_Inr: "(\<And>x. x \<in> set xs \<Longrightarrow> f x = Inr (g x)) \<Longrightarrow> mapR f xs = Inr (map g xs)"
  by (induction xs) simp_all

lemma foldR_append: "foldR f (xs @ ys) s = bindR (foldR f xs s) (foldR f ys)"
proof (induction xs arbitrary: s)
  case (Cons x xs)
  then show ?case by (cases "f x s") simp_all
qed simp

subsection \<open>Slices of a buffer, and writes into it\<close>

text \<open>
  \<open>slice b i n\<close> is \<open>b[i..i + n]\<close> and \<open>put b i xs\<close> the buffer after
  \<open>b[i..i + xs.len()].copy_from_slice(xs)\<close>; both panic out of range, which \<open>slice_at\<close> and
  \<open>put_at\<close> write out.
\<close>

definition slice :: "'a list \<Rightarrow> nat \<Rightarrow> nat \<Rightarrow> 'a list" where
  "slice b i n = take n (drop i b)"

definition put :: "'a list \<Rightarrow> nat \<Rightarrow> 'a list \<Rightarrow> 'a list" where
  "put b i xs = take i b @ xs @ drop (i + length xs) b"

definition slice_at :: "'a list \<Rightarrow> nat \<Rightarrow> nat \<Rightarrow> 'a list res" where
  "slice_at b i n = (if i + n \<le> length b then Inr (slice b i n) else Inl Panic)"

definition put_at :: "'a list \<Rightarrow> nat \<Rightarrow> 'a list \<Rightarrow> 'a list res" where
  "put_at b i xs = (if i + length xs \<le> length b then Inr (put b i xs) else Inl Panic)"

lemma slice_at_Inr [simp]: "i + n \<le> length b \<Longrightarrow> slice_at b i n = Inr (slice b i n)"
  by (simp add: slice_at_def)

lemma put_at_Inr [simp]: "i + length xs \<le> length b \<Longrightarrow> put_at b i xs = Inr (put b i xs)"
  by (simp add: put_at_def)

lemma length_slice [simp, len_simps]: "i + n \<le> length b \<Longrightarrow> length (slice b i n) = n"
  by (simp add: slice_def)

lemma length_put [simp, len_simps]: "i + length xs \<le> length b \<Longrightarrow> length (put b i xs) = length b"
  by (simp add: put_def)

lemma slice_0 [simp]: "slice b i 0 = []"
  by (simp add: slice_def)

lemma slice_put_same [simp, buf_simps]:
  "i + length xs \<le> length b \<Longrightarrow> n = length xs \<Longrightarrow> slice (put b i xs) i n = xs"
  by (simp add: slice_def put_def)

lemma nth_put: "i + length xs \<le> length b \<Longrightarrow> k < length b \<Longrightarrow>
    put b i xs ! k = (if i \<le> k \<and> k < i + length xs then xs ! (k - i) else b ! k)"
  by (auto simp: put_def nth_append min_def)

lemma nth_slice: "i + n \<le> length b \<Longrightarrow> k < n \<Longrightarrow> slice b i n ! k = b ! (i + k)"
  by (simp add: slice_def)

lemma slice_put_before [buf_simps]:
  "i + length xs \<le> length b \<Longrightarrow> j + n \<le> i \<Longrightarrow> slice (put b i xs) j n = slice b j n"
  by (rule nth_equalityI) (simp_all add: nth_slice nth_put)

lemma slice_put_after [buf_simps]:
  "i + length xs \<le> length b \<Longrightarrow> i + length xs \<le> j \<Longrightarrow> slice (put b i xs) j n = slice b j n"
  by (simp add: slice_def put_def min_def)

lemma slice_put_inside:
  "i + length xs \<le> length b \<Longrightarrow> i \<le> j \<Longrightarrow> j + n \<le> i + length xs \<Longrightarrow>
   slice (put b i xs) j n = slice xs (j - i) n"
  by (rule nth_equalityI) (simp_all add: nth_slice nth_put)

lemma slice_slice: "j + m \<le> n \<Longrightarrow> i + n \<le> length b \<Longrightarrow> slice (slice b i n) j m = slice b (i + j) m"
  by (rule nth_equalityI) (simp_all add: nth_slice add.assoc)

lemma put_put_adjacent:
  "i + length xs + length ys \<le> length b \<Longrightarrow> j = i + length xs \<Longrightarrow>
   put (put b i xs) j ys = put b i (xs @ ys)"
  by (rule nth_equalityI) (auto simp: nth_put nth_append)

lemma slice_append_2:
  "length xs = n \<Longrightarrow> slice (xs @ ys) 0 n = xs"
  "length xs = n \<Longrightarrow> length ys = m \<Longrightarrow> slice (xs @ ys) n m = ys"
  by (simp_all add: slice_def)

text \<open>The unsigned integer of \<open>k\<close> little-endian bytes at an offset.\<close>

definition u_at :: "nat \<Rightarrow> bytes \<Rightarrow> nat \<Rightarrow> nat" where
  "u_at k b i = le_nat (slice b i k)"

lemma u_at_put_same [buf_simps]:
  "i + k \<le> length b \<Longrightarrow> n < 256 ^ k \<Longrightarrow> u_at k (put b i (le_bytes k n)) i = n"
  by (simp add: u_at_def)

lemma u_at_put_before [buf_simps]:
  "i + length xs \<le> length b \<Longrightarrow> j + k \<le> i \<Longrightarrow> u_at k (put b i xs) j = u_at k b j"
  by (simp add: u_at_def slice_put_before)

lemma u_at_put_after [buf_simps]:
  "i + length xs \<le> length b \<Longrightarrow> i + length xs \<le> j \<Longrightarrow> u_at k (put b i xs) j = u_at k b j"
  by (simp add: u_at_def slice_put_after)

lemma u_at_lt: "u_at k b i < 256 ^ k"
proof -
  have "u_at k b i < 256 ^ length (slice b i k)" by (simp add: u_at_def le_nat_lt)
  also have "\<dots> \<le> 256 ^ k" by (rule power_increasing) (simp_all add: slice_def)
  finally show ?thesis .
qed

end
