(* ===== verification/Crc32c.thy ===== *)
theory Crc32c
  imports Prelude
begin

text \<open>
  CRC-32C as \<open>src/src/crc32.rs\<close> computes it: the eight lookup tables, the table-driven
  \<open>update_table\<close> that takes eight bytes a step, the two hardware paths, and \<open>Crc32\<close>'s
  \<open>new\<close>/\<open>update\<close>/\<open>finish\<close>. The reference is the bit-at-a-time definition the source states in
  its tests. The lemmas show that every path computes the reference, that pieces sum as the
  whole does, and that a change confined to one byte always changes the checksum.
\<close>

unbundle bit_operations_syntax

type_synonym u32 = "32 word"

subsection \<open>The tables\<close>

definition POLYNOMIAL :: u32 where
  "POLYNOMIAL = 0x82F63B78"

definition crc_bit :: "u32 \<Rightarrow> u32" where
  "crc_bit crc = drop_bit 1 crc XOR (POLYNOMIAL AND (- (crc AND 1)))"

fun table :: "nat \<Rightarrow> nat \<Rightarrow> u32" where
  "table 0 byte = (crc_bit ^^ 8) (of_nat byte)"
| "table (Suc k) byte =
     (let previous = table k byte
      in drop_bit 8 previous XOR table 0 (unat (previous AND 0xFF)))"

definition tables :: "u32 list list" where
  "tables = map (\<lambda>k. map (table k) [0..<256]) [0..<8]"

subsection \<open>Updating a checksum\<close>

definition table_byte :: "u32 \<Rightarrow> byte \<Rightarrow> u32" where
  "table_byte crc byte = drop_bit 8 crc XOR tables ! 0 ! unat ((crc XOR ucast byte) AND 0xFF)"

definition from_le_u32 :: "bytes \<Rightarrow> u32" where
  "from_le_u32 bs = of_nat (le_nat bs)"

definition table_chunk :: "u32 \<Rightarrow> bytes \<Rightarrow> u32" where
  "table_chunk crc chunk =
     (let low = from_le_u32 (take 4 chunk) XOR crc;
          high = from_le_u32 (take 4 (drop 4 chunk));
          t = (\<lambda>k w. tables ! k ! unat (w AND (0xFF :: u32)))
      in t 7 low XOR t 6 (drop_bit 8 low) XOR t 5 (drop_bit 16 low)
         XOR tables ! 4 ! unat (drop_bit 24 low)
         XOR t 3 high XOR t 2 (drop_bit 8 high) XOR t 1 (drop_bit 16 high)
         XOR tables ! 0 ! unat (drop_bit 24 high))"

function update_table :: "u32 \<Rightarrow> bytes \<Rightarrow> u32" where
  "update_table crc bs =
     (if 8 \<le> length bs then update_table (table_chunk crc (take 8 bs)) (drop 8 bs)
      else foldl table_byte crc bs)"
  by pat_completeness auto
termination
  by (relation "measure (\<lambda>(crc, bs). length bs)") auto

declare update_table.simps [simp del]

text \<open>
  The CRC instructions of x86-64 and ARM64 take one byte, or the eight bytes of a
  little-endian \<open>u64\<close>, into the same checksum, bit by bit.
\<close>

definition crc_byte :: "u32 \<Rightarrow> byte \<Rightarrow> u32" where
  "crc_byte crc byte = (crc_bit ^^ 8) (crc XOR ucast byte)"

definition crc32_u64 :: "u32 \<Rightarrow> nat \<Rightarrow> u32" where
  "crc32_u64 crc v = foldl crc_byte crc (le_bytes 8 v)"

function update_hw :: "u32 \<Rightarrow> bytes \<Rightarrow> u32" where
  "update_hw crc bs =
     (if 8 \<le> length bs then update_hw (crc32_u64 crc (le_nat (take 8 bs))) (drop 8 bs)
      else foldl crc_byte crc bs)"
  by pat_completeness auto
termination
  by (relation "measure (\<lambda>(crc, bs). length bs)") auto

declare update_hw.simps [simp del]

definition update :: "bool \<Rightarrow> u32 \<Rightarrow> bytes \<Rightarrow> u32" where
  "update hw crc bs = (if hw then update_hw crc bs else update_table crc bs)"

definition crc32_new :: u32 where
  "crc32_new = NOT 0"

definition crc32_finish :: "u32 \<Rightarrow> u32" where
  "crc32_finish crc = NOT crc"

definition crc32 :: "bool \<Rightarrow> bytes \<Rightarrow> u32" where
  "crc32 hw bs = crc32_finish (update hw crc32_new bs)"

text \<open>The definition, one bit at a time.\<close>

definition bitwise :: "bytes \<Rightarrow> u32" where
  "bitwise bs = NOT (foldl crc_byte (NOT 0) bs)"

subsection \<open>One step is linear\<close>

lemma crc_bit_alt: "crc_bit c = drop_bit 1 c XOR (if bit c 0 then POLYNOMIAL else 0)"
proof -
  have "c AND 1 = of_bool (bit c 0)"
    by (simp add: and_one_eq bit_0 mod_2_eq_odd)
  then show ?thesis by (simp add: crc_bit_def)
qed

lemma crc_bit_xor: "crc_bit (x XOR y) = crc_bit x XOR crc_bit y"
  by (cases "bit x 0"; cases "bit y 0")
    (simp_all add: crc_bit_alt bit_xor_iff drop_bit_xor xor.assoc xor.left_commute xor.commute)

lemma crc_bits_xor: "(crc_bit ^^ n) (x XOR y) = (crc_bit ^^ n) x XOR (crc_bit ^^ n) y"
  by (induction n) (simp_all add: crc_bit_xor)

lemma crc_bits_0 [simp]: "(crc_bit ^^ n) 0 = 0"
  by (induction n) (simp_all add: crc_bit_alt)

lemma crc_bits_low_zero:
  "(\<And>i. i < n \<Longrightarrow> \<not> bit x i) \<Longrightarrow> (crc_bit ^^ n) x = drop_bit n x"
proof (induction n arbitrary: x)
  case (Suc n)
  from Suc.prems [of 0] have "crc_bit x = drop_bit 1 x"
    by (simp add: crc_bit_alt)
  moreover have "(crc_bit ^^ n) (drop_bit 1 x) = drop_bit n (drop_bit 1 x)"
    by (rule Suc.IH) (use Suc.prems in \<open>auto simp: bit_drop_bit_eq\<close>)
  ultimately show ?case
    by (simp add: funpow_swap1)
qed simp

text \<open>Eight steps, a byte's worth, as one linear map.\<close>

definition crc8 :: "u32 \<Rightarrow> u32" where
  "crc8 w = (crc_bit ^^ 8) w"

lemma crc8_xor: "crc8 (x XOR y) = crc8 x XOR crc8 y"
  by (simp only: crc8_def crc_bits_xor)

lemma crc8s_xor: "(crc8 ^^ n) (x XOR y) = (crc8 ^^ n) x XOR (crc8 ^^ n) y"
  by (induction n) (simp_all add: crc8_xor)

lemma crc8s_0 [simp]: "(crc8 ^^ n) 0 = 0"
  by (induction n) (simp_all only: crc8_def crc_bits_0 funpow.simps o_apply id_apply)

lemma split_low_byte: "(w :: u32) = push_bit 8 (drop_bit 8 w) XOR (w AND 0xFF)"
proof (rule bit_eqI)
  fix n assume "possible_bit TYPE(u32) n"
  then have n: "n < 32" by simp
  have "w AND 0xFF = take_bit 8 w"
    by (simp add: take_bit_eq_mask mask_eq_exp_minus_1)
  then show "bit w n \<longleftrightarrow> bit (push_bit 8 (drop_bit 8 w) XOR (w AND 0xFF)) n"
    using n by (auto simp: bit_xor_iff bit_push_bit_iff bit_drop_bit_eq bit_take_bit_iff)
qed

lemma crc8_push: "crc8 (push_bit 8 (y :: u32)) = drop_bit 8 (push_bit 8 y)"
  unfolding crc8_def by (rule crc_bits_low_zero) (simp add: bit_push_bit_iff)

lemma drop_push_drop8: "drop_bit 8 (push_bit 8 (drop_bit 8 (w :: u32))) = drop_bit 8 w"
  by (rule bit_eqI) (auto simp: bit_push_bit_iff bit_drop_bit_eq dest: bit_imp_le_length)

lemma crc8_split: "crc8 w = drop_bit 8 w XOR crc8 (w AND 0xFF)"
proof -
  have "crc8 w = crc8 (push_bit 8 (drop_bit 8 w) XOR (w AND 0xFF))"
    by (simp only: split_low_byte [of w, symmetric])
  then show ?thesis
    by (simp only: crc8_xor crc8_push drop_push_drop8)
qed

lemma unat_and_255: "unat ((w :: u32) AND 0xFF) < 256"
proof -
  have "unat (w AND 0xFF) \<le> unat (0xFF :: u32)"
    by (rule word_and_le1 [THEN word_le_nat_alt [THEN iffD1]])
  then show ?thesis by simp
qed

lemma table_funpow: "table k b = (crc8 ^^ Suc k) (of_nat b)"
proof (induction k)
  case (Suc k)
  have "of_nat (unat (table k b AND 0xFF)) = table k b AND 0xFF" by simp
  then have "table (Suc k) b = crc8 (table k b)"
    by (simp only: table.simps Let_def crc8_def [symmetric] crc8_split [symmetric])
  then show ?case by (simp add: Suc.IH)
qed (simp add: crc8_def)

lemma tables_nth: "k < 8 \<Longrightarrow> b < 256 \<Longrightarrow> tables ! k ! b = (crc8 ^^ Suc k) (of_nat b)"
  by (simp add: tables_def table_funpow)

lemma tables_low: "k < 8 \<Longrightarrow> tables ! k ! unat (w AND 0xFF) = (crc8 ^^ Suc k) (w AND 0xFF)"
  by (simp add: tables_nth unat_and_255)

lemma crc8s_split: "(crc8 ^^ Suc n) w = (crc8 ^^ Suc n) (w AND 0xFF) XOR (crc8 ^^ n) (drop_bit 8 w)"
proof -
  have "(crc8 ^^ Suc n) w = (crc8 ^^ n) (crc8 w)"
    by (simp add: funpow_swap1)
  also have "\<dots> = (crc8 ^^ n) (crc8 (w AND 0xFF) XOR drop_bit 8 w)"
    by (subst crc8_split) (simp only: xor.commute)
  finally show ?thesis
    by (simp add: crc8s_xor funpow_swap1)
qed


subsection \<open>The table-driven update\<close>

lemma crc_byte_eq: "crc_byte crc b = crc8 (crc XOR ucast b)"
  by (simp only: crc_byte_def crc8_def)

lemma table_byte_eq: "table_byte crc b = crc_byte crc b"
proof -
  have "drop_bit 8 (ucast b :: u32) = 0"
    by (rule bit_eqI) (auto simp: bit_drop_bit_eq bit_ucast_iff dest: bit_imp_le_length)
  then have "crc8 (crc XOR ucast b) = drop_bit 8 crc XOR crc8 ((crc XOR ucast b) AND 0xFF)"
    by (subst crc8_split) (simp add: drop_bit_xor)
  then show ?thesis
    by (simp add: table_byte_def crc_byte_eq tables_low)
qed

lemma from_le_u32_Cons:
  "length bs \<le> 3 \<Longrightarrow> from_le_u32 (b # bs) = ucast b XOR push_bit 8 (from_le_u32 bs)"
proof -
  have "from_le_u32 (b # bs) = ucast b + push_bit 8 (from_le_u32 bs)"
    by (simp add: from_le_u32_def push_bit_eq_mult)
  also have "\<dots> = ucast b XOR push_bit 8 (from_le_u32 bs)"
    by (rule disjunctive_add_eq_xor) (auto simp: bit_eq_iff bit_and_iff bit_push_bit_iff bit_ucast_iff dest: bit_imp_le_length)
  finally show ?thesis .
qed

lemma from_le_u32_high: "length bs \<le> 3 \<Longrightarrow> drop_bit 8 (push_bit 8 (from_le_u32 bs)) = from_le_u32 bs"
proof -
  assume "length bs \<le> 3"
  then have "(256 :: nat) ^ length bs \<le> 256 ^ 3" by (intro power_increasing) auto
  then have "le_nat bs < 2 ^ 24" using le_nat_lt [of bs] by simp
  then have "from_le_u32 bs = take_bit 24 (from_le_u32 bs)"
    by (simp add: from_le_u32_def take_bit_of_nat take_bit_nat_eq_self)
  then have "n < 24" if "bit (from_le_u32 bs) n" for n
    using that by (metis bit_take_bit_iff)
  then show ?thesis
    by (intro bit_eqI) (auto simp: bit_push_bit_iff bit_drop_bit_eq)
qed

lemma foldl_crc_byte_le:
  "length bs \<le> 4 \<Longrightarrow> foldl crc_byte crc bs = (crc8 ^^ length bs) (crc XOR from_le_u32 bs)"
proof (induction bs arbitrary: crc)
  case Nil
  then show ?case by (simp add: from_le_u32_def)
next
  case (Cons b bs)
  then have len: "length bs \<le> 3" by simp
  have "foldl crc_byte crc (b # bs) = (crc8 ^^ length bs) (crc8 (crc XOR ucast b) XOR from_le_u32 bs)"
    using Cons.IH [of "crc_byte crc b"] len by (simp add: crc_byte_eq [of crc b])
  also have "from_le_u32 bs = crc8 (push_bit 8 (from_le_u32 bs))"
    using from_le_u32_high [OF len] by (simp add: crc8_push)
  also have "crc8 (crc XOR ucast b) XOR crc8 (push_bit 8 (from_le_u32 bs))
      = crc8 (crc XOR from_le_u32 (b # bs))"
    by (simp add: from_le_u32_Cons [OF len] crc8_xor xor.assoc)
  finally show ?case by (simp add: funpow_swap1)
qed

lemma drop_bit_24_small: "unat (drop_bit 24 (w :: u32)) < 256"
proof -
  have "drop_bit 24 w = drop_bit 24 w AND 0xFF"
  proof (rule bit_eqI)
    fix n assume "possible_bit TYPE(u32) n"
    have "drop_bit 24 w AND 0xFF = take_bit 8 (drop_bit 24 w)"
      by (simp add: take_bit_eq_mask mask_eq_exp_minus_1)
    then show "bit (drop_bit 24 w) n \<longleftrightarrow> bit (drop_bit 24 w AND 0xFF) n"
      by (auto simp: bit_take_bit_iff bit_drop_bit_eq dest: bit_imp_le_length)
  qed
  then show ?thesis using unat_and_255 [of "drop_bit 24 w"] by simp
qed

lemma crc8s_bytes:
  "(crc8 ^^ Suc (Suc (Suc (Suc n)))) w =
     (crc8 ^^ Suc (Suc (Suc (Suc n)))) (w AND 0xFF)
     XOR (crc8 ^^ Suc (Suc (Suc n))) (drop_bit 8 w AND 0xFF)
     XOR (crc8 ^^ Suc (Suc n)) (drop_bit 16 w AND 0xFF) XOR (crc8 ^^ Suc n) (drop_bit 24 w)"
proof -
  have "drop_bit 8 (drop_bit 8 w) = drop_bit 16 w" "drop_bit 8 (drop_bit 16 w) = drop_bit 24 w"
    by simp_all
  then show ?thesis
    using crc8s_split [of "Suc (Suc (Suc n))" w] crc8s_split [of "Suc (Suc n)" "drop_bit 8 w"]
      crc8s_split [of "Suc n" "drop_bit 16 w"]
    by (simp only: xor.assoc)
qed

lemma table_chunk_eq:
  assumes "length chunk = 8"
  shows "table_chunk crc chunk = foldl crc_byte crc chunk"
proof -
  let ?lo = "take 4 chunk" and ?hi = "take 4 (drop 4 chunk)"
  let ?low = "from_le_u32 ?lo XOR crc" and ?high = "from_le_u32 ?hi"
  have split: "chunk = ?lo @ ?hi" using assms by simp
  have len: "length ?lo = 4" "length ?hi = 4" using assms by simp_all
  have nums: "Suc (Suc (Suc (Suc 0))) = 4" "Suc (Suc (Suc 0)) = 3" by simp_all
  have "foldl crc_byte crc chunk = (crc8 ^^ 4) ((crc8 ^^ 4) ?low XOR ?high)"
    by (subst split) (simp only: foldl_append foldl_crc_byte_le len le_refl xor.commute)
  also have "\<dots> = (crc8 ^^ Suc (Suc (Suc (Suc 4)))) ?low XOR (crc8 ^^ Suc (Suc (Suc (Suc 0)))) ?high"
    by (simp add: crc8s_xor numeral_eq_Suc del: funpow.simps(2))
      (simp flip: funpow_add [THEN fun_cong, simplified o_apply])
  also have "\<dots> = table_chunk crc chunk"
    by (simp only: crc8s_bytes [of 4 ?low] crc8s_bytes [of 0 ?high])
      (simp add: table_chunk_def Let_def tables_low tables_nth drop_bit_24_small xor.assoc nums
        del: funpow.simps(2))
  finally show ?thesis by simp
qed

lemma update_table_eq: "update_table crc bs = foldl crc_byte crc bs"
proof (induction crc bs rule: update_table.induct)
  case (1 crc bs)
  show ?case
  proof (cases "8 \<le> length bs")
    case True
    have "foldl crc_byte crc bs = foldl crc_byte (foldl crc_byte crc (take 8 bs)) (drop 8 bs)"
      by (simp only: foldl_append [symmetric] append_take_drop_id)
    with True 1 show ?thesis
      by (simp add: update_table.simps [of crc bs] table_chunk_eq)
  next
    case False
    then show ?thesis
      by (simp add: update_table.simps [of crc bs] table_byte_eq [abs_def])
  qed
qed


subsection \<open>The hardware update\<close>

lemma update_hw_eq: "update_hw crc bs = foldl crc_byte crc bs"
proof (induction crc bs rule: update_hw.induct)
  case (1 crc bs)
  show ?case
  proof (cases "8 \<le> length bs")
    case True
    then have "le_bytes 8 (le_nat (take 8 bs)) = take 8 bs"
      by (intro le_bytes_le_nat') simp
    moreover have "foldl crc_byte crc bs = foldl crc_byte (foldl crc_byte crc (take 8 bs)) (drop 8 bs)"
      by (simp only: foldl_append [symmetric] append_take_drop_id)
    ultimately show ?thesis
      using True 1 by (simp add: update_hw.simps [of crc bs] crc32_u64_def)
  next
    case False
    then show ?thesis by (simp add: update_hw.simps [of crc bs])
  qed
qed

lemma update_eq: "update hw crc bs = foldl crc_byte crc bs"
  by (simp add: update_def update_hw_eq update_table_eq)

text \<open>
  C1. Every way \<open>crc32.rs\<close> computes a checksum, the tables taken eight bytes a step and the
  CPU's instructions, gives the checksum of the bit-at-a-time definition.
\<close>

theorem crc32_eq_bitwise: "crc32 hw bs = bitwise bs"
  by (simp add: crc32_def crc32_finish_def crc32_new_def bitwise_def update_eq)

lemma update_append: "update hw crc (xs @ ys) = update hw' (update hw crc xs) ys"
  by (simp add: update_eq)

subsection \<open>What the checksum detects\<close>

lemma xor_eq_0_iff: "(x :: u32) XOR y = 0 \<longleftrightarrow> x = y"
  by (auto simp: bit_eq_iff bit_xor_iff)

lemma xor_right_cancel: "(x :: u32) XOR z = y XOR z \<longleftrightarrow> x = y"
  by (auto simp: bit_eq_iff bit_xor_iff)

lemma xor_left_cancel: "(z :: u32) XOR x = z XOR y \<longleftrightarrow> x = y"
  by (auto simp: bit_eq_iff bit_xor_iff)

lemma ucast_byte_inj: "(ucast (b :: byte) :: u32) = ucast b' \<longleftrightarrow> b = b'"
proof
  assume "(ucast b :: u32) = ucast b'"
  then have "unat (ucast b :: u32) = unat (ucast b' :: u32)" by simp
  moreover have "unat (ucast (x :: byte) :: u32) = unat x" for x
  proof -
    have "unat x < 2 ^ 32" by (rule less_trans [OF unat_byte_lt]) simp
    then show ?thesis by (simp add: unsigned_ucast_eq take_bit_nat_eq_self)
  qed
  ultimately show "b = b'" by (simp add: unsigned_word_eqI)
qed simp

lemma crc_bit_eq_0: "crc_bit z = 0 \<longleftrightarrow> z = 0"
proof
  assume z: "crc_bit z = 0"
  have "\<not> bit z 0"
  proof
    assume "bit z 0"
    with z have "drop_bit 1 z = POLYNOMIAL"
      by (simp add: crc_bit_alt xor_eq_0_iff)
    moreover have "\<not> bit (drop_bit 1 z) 31"
      by (auto simp: bit_drop_bit_eq dest: bit_imp_le_length)
    moreover have "bit POLYNOMIAL 31"
      by (simp add: POLYNOMIAL_def)
    ultimately show False by simp
  qed
  with z have "drop_bit 1 z = 0" by (simp add: crc_bit_alt)
  then have "\<not> bit (drop_bit 1 z) n" for n by simp
  then have "\<not> bit z (Suc n)" for n by (simp add: bit_drop_bit_eq)
  with \<open>\<not> bit z 0\<close> have "\<not> bit z n" for n
    by (cases n) simp_all
  then show "z = 0"
    by (intro bit_eqI) simp
qed (simp add: crc_bit_alt)

lemma crc_bits_eq_0: "(crc_bit ^^ n) z = 0 \<longleftrightarrow> z = 0"
  by (induction n) (simp_all add: crc_bit_eq_0)

lemma crc_byte_inj: "crc_byte c b = crc_byte c' b' \<longleftrightarrow> c XOR ucast b = c' XOR ucast b'"
proof -
  have "crc_byte c b = crc_byte c' b' \<longleftrightarrow> crc8 ((c XOR ucast b) XOR (c' XOR ucast b')) = 0"
    by (simp only: crc_byte_eq crc8_xor xor_eq_0_iff)
  then show ?thesis
    by (simp only: crc8_def crc_bits_eq_0 xor_eq_0_iff)
qed

lemma foldl_crc_byte_inj: "foldl crc_byte c bs = foldl crc_byte c' bs \<longleftrightarrow> c = c'"
  by (induction bs arbitrary: c c') (simp_all add: crc_byte_inj xor_right_cancel)

text \<open>
  A change confined to one byte is always found: two byte strings that agree but for one
  byte have different checksums, whichever way each was computed.
\<close>

theorem crc32_one_byte:
  assumes "b \<noteq> b'"
  shows "crc32 hw (xs @ b # ys) \<noteq> crc32 hw' (xs @ b' # ys)"
  using assms
  by (simp add: crc32_def crc32_finish_def update_eq foldl_crc_byte_inj crc_byte_inj
      xor_left_cancel ucast_byte_inj)

theorem crc32_one_byte_witness: "crc32 True [1, 2, 3] \<noteq> crc32 False [1, 7, 3]"
  using crc32_one_byte [of 2 7 True "[1]" "[3]" False] by simp

end
