(* ===== verification/Decode.thy ===== *)
theory Decode
  imports Prelude
begin

text \<open>
  Reading bytes that came from the file or the WAL (\<open>src/src/decode.rs\<close>): each \<open>take\<close> gives
  the value and the bytes after it, or an \<open>InvalidData\<close> error that moves nothing. Also
  \<open>std::str::from_utf8\<close>'s check, which \<open>document.rs\<close> runs on every string it reads.
\<close>

definition take_bytes :: "bytes \<Rightarrow> nat \<Rightarrow> (bytes \<times> bytes) res" where
  "take_bytes bs n = (if length bs < n then corrupt else Inr (take n bs, drop n bs))"

definition take_array :: "nat \<Rightarrow> bytes \<Rightarrow> (bytes \<times> bytes) res" where
  "take_array n bs = take_bytes bs n"

definition take_u8 :: "bytes \<Rightarrow> (byte \<times> bytes) res" where
  "take_u8 bs = bindR (take_array 1 bs) (\<lambda>(a, rest). Inr (hd a, rest))"

definition take_u32 :: "bytes \<Rightarrow> (nat \<times> bytes) res" where
  "take_u32 bs = bindR (take_array 4 bs) (\<lambda>(a, rest). Inr (le_nat a, rest))"

definition take_u64 :: "bytes \<Rightarrow> (nat \<times> bytes) res" where
  "take_u64 bs = bindR (take_array 8 bs) (\<lambda>(a, rest). Inr (le_nat a, rest))"

lemma take_bytes_append [simp]: "length xs = n \<Longrightarrow> take_bytes (xs @ rest) n = Inr (xs, rest)"
  by (simp add: take_bytes_def)

lemma take_array_append [simp]: "length xs = n \<Longrightarrow> take_array n (xs @ rest) = Inr (xs, rest)"
  by (simp add: take_array_def)

lemma take_u8_Cons [simp]: "take_u8 (b # rest) = Inr (b, rest)"
  by (simp add: take_u8_def take_array_def take_bytes_def)

lemma take_u8_Nil [simp]: "take_u8 [] = corrupt"
  by (simp add: take_u8_def take_array_def take_bytes_def)

lemma take_u32_le [simp]: "n < 2 ^ 32 \<Longrightarrow> take_u32 (le_bytes 4 n @ rest) = Inr (n, rest)"
  by (simp add: take_u32_def)

lemma take_bytes_Inr:
  "take_bytes bs n = Inr (x, rest) \<longleftrightarrow> bs = x @ rest \<and> length x = n"
  by (auto simp: take_bytes_def split: if_splits)

lemma take_array_Inr: "take_array n bs = Inr (x, rest) \<longleftrightarrow> bs = x @ rest \<and> length x = n"
  by (simp add: take_array_def take_bytes_Inr)

lemma take_u8_Inr: "take_u8 bs = Inr (b, rest) \<longleftrightarrow> bs = b # rest"
  by (cases bs) auto

lemma take_u32_Inr:
  "take_u32 bs = Inr (n, rest) \<longleftrightarrow> n < 2 ^ 32 \<and> bs = le_bytes 4 n @ rest"
proof
  assume "take_u32 bs = Inr (n, rest)"
  then obtain a where a: "bs = a @ rest" "length a = 4" "n = le_nat a"
    by (auto simp: take_u32_def bindR_eq_Inr take_array_Inr)
  then show "n < 2 ^ 32 \<and> bs = le_bytes 4 n @ rest"
    using le_nat_lt [of a] by (simp add: le_bytes_le_nat')
qed auto

text \<open>
  Well-formed UTF-8 (the Unicode standard's table of well-formed byte sequences), what
  \<open>from_utf8\<close> accepts and every \<open>str\<close> holds.
\<close>

definition in_range :: "nat \<Rightarrow> nat \<Rightarrow> byte \<Rightarrow> bool" where
  "in_range lo hi b \<longleftrightarrow> lo \<le> unat b \<and> unat b \<le> hi"

abbreviation cont :: "byte \<Rightarrow> bool" where
  "cont \<equiv> in_range 0x80 0xBF"

fun utf8_ok :: "bytes \<Rightarrow> bool" where
  "utf8_ok [] = True"
| "utf8_ok (a # bs) =
     (if in_range 0 0x7F a then utf8_ok bs
      else case bs of
        [] \<Rightarrow> False
      | b # bs1 \<Rightarrow>
          if in_range 0xC2 0xDF a then cont b \<and> utf8_ok bs1
          else case bs1 of
            [] \<Rightarrow> False
          | c # bs2 \<Rightarrow>
              if in_range 0xE0 0xE0 a then in_range 0xA0 0xBF b \<and> cont c \<and> utf8_ok bs2
              else if in_range 0xED 0xED a then in_range 0x80 0x9F b \<and> cont c \<and> utf8_ok bs2
              else if in_range 0xE1 0xEF a then cont b \<and> cont c \<and> utf8_ok bs2
              else case bs2 of
                [] \<Rightarrow> False
              | d # bs3 \<Rightarrow>
                  if in_range 0xF0 0xF0 a then in_range 0x90 0xBF b \<and> cont c \<and> cont d \<and> utf8_ok bs3
                  else if in_range 0xF4 0xF4 a then in_range 0x80 0x8F b \<and> cont c \<and> cont d \<and> utf8_ok bs3
                  else in_range 0xF1 0xF3 a \<and> cont b \<and> cont c \<and> cont d \<and> utf8_ok bs3)"

declare utf8_ok.simps(2) [simp del]

end
