(* ===== verification/Document.thy ===== *)
theory Document
  imports Decode
begin

text \<open>
  The value type and its byte encoding (\<open>src/src/document.rs\<close>, \<open>src/src/map.rs\<close>, the fields of
  \<open>src/src/datetime.rs\<close>). \<open>document\<close> has the source's constructors: an \<open>i64\<close> is a \<open>64 word\<close>,
  an \<open>f64\<close> its 64 bits, a \<open>String\<close> its UTF-8 bytes, an object the list of its fields in order
  (\<open>Integer\<close> is the source's \<open>Int\<close>, a word Isabelle reserves).

  The map inside an object is the third-party \<open>IndexMap\<close>. Its operations are a parameter, the
  record \<open>im_ops\<close>, which every definition that uses one takes; the locale \<open>index_map\<close> states
  the documented behaviour the code relies on, and is interpreted on \<open>alist_ops\<close>.

  The lemmas: what \<open>encode_document\<close> writes, \<open>decode_document\<close> reads back; \<open>skip_value\<close>
  accepts and passes over exactly what \<open>decode_value\<close> does; \<open>decode_fields\<close> reads the named
  fields as a whole read would have them; a stored document read with its id is the document.
\<close>

subsection \<open>Values\<close>

type_synonym i64 = "64 word"
type_synonym f64 = "64 word"
type_synonym docid = bytes

record datetime =
  secs :: i64
  nanos :: "32 word"

definition NANOS_PER_SECOND :: "32 word" where
  "NANOS_PER_SECOND = 1000000000"

definition from_unix :: "i64 \<Rightarrow> 32 word \<Rightarrow> datetime option" where
  "from_unix s n = (if n < NANOS_PER_SECOND then Some \<lparr>secs = s, nanos = n\<rparr> else None)"

datatype document =
    Null
  | Bool bool
  | Integer i64
  | Float f64
  | String bytes
  | Binary bytes
  | Array "document list"
  | Object "(bytes \<times> document) list"
  | Id docid
  | DateTime datetime

type_synonym fields = "(bytes \<times> document) list"

record im_ops =
  im_insert :: "fields \<Rightarrow> bytes \<Rightarrow> document \<Rightarrow> fields"
  im_shift_insert :: "fields \<Rightarrow> nat \<Rightarrow> bytes \<Rightarrow> document \<Rightarrow> fields"
  im_shift_remove :: "fields \<Rightarrow> bytes \<Rightarrow> fields"
  im_get :: "fields \<Rightarrow> bytes \<Rightarrow> document option"

abbreviation keys :: "fields \<Rightarrow> bytes list" where
  "keys m \<equiv> map fst m"

locale index_map =
  fixes im :: im_ops
  assumes insert_new: "k \<notin> set (keys m) \<Longrightarrow> im_insert im m k v = m @ [(k, v)]"
    and insert_old: "distinct (keys (xs @ (k, u) # ys)) \<Longrightarrow>
      im_insert im (xs @ (k, u) # ys) k v = xs @ (k, v) # ys"
    and shift_insert_0: "distinct (keys m) \<Longrightarrow>
      im_shift_insert im m 0 k v = (k, v) # filter (\<lambda>f. fst f \<noteq> k) m"
    and shift_remove: "distinct (keys m) \<Longrightarrow>
      im_shift_remove im m k = filter (\<lambda>f. fst f \<noteq> k) m"
    and get_field: "distinct (keys m) \<Longrightarrow> im_get im m k = map_of m k"

subsection \<open>The type's invariant, and how deep a document may nest\<close>

definition ID_FIELD :: bytes where
  "ID_FIELD = ascii ''_id''"

definition TAGS :: "bytes list" where
  "TAGS = [ascii ''$id'', ascii ''$binary'', ascii ''$float'', ascii ''$date'',
           ascii ''$object'', ascii ''$value'']"

definition is_tag :: "bytes \<Rightarrow> bool" where
  "is_tag key \<longleftrightarrow> key \<in> set TAGS"

definition MAX_NESTING :: nat where
  "MAX_NESTING = 64"

definition object_cost :: "fields \<Rightarrow> nat" where
  "object_cost m =
     (case filter (\<lambda>k. k \<noteq> ID_FIELD) (keys m) of
        [key] \<Rightarrow> if is_tag key then 2 else 1
      | _ \<Rightarrow> 1)"

fun within :: "document \<Rightarrow> nat \<Rightarrow> bool" where
  "within (Array items) levels \<longleftrightarrow> levels \<ge> 1 \<and> (\<forall>item \<in> set items. within item (levels - 1))"
| "within (Object m) levels \<longleftrightarrow>
     levels \<ge> object_cost m \<and> (\<forall>(_, v) \<in> set m. within v (levels - object_cost m))"
| "within _ levels \<longleftrightarrow> True"

definition nests_too_deep :: "document \<Rightarrow> bool" where
  "nests_too_deep doc \<longleftrightarrow> \<not> within doc MAX_NESTING"

text \<open>
  What Rust's types guarantee of every \<open>Document\<close>: strings and keys are UTF-8, ids have 16
  bytes, a date-time's nanoseconds are below a second, a map's keys are distinct.
\<close>

fun wf_doc :: "document \<Rightarrow> bool" where
  "wf_doc (String s) \<longleftrightarrow> utf8_ok s"
| "wf_doc (Array items) \<longleftrightarrow> (\<forall>item \<in> set items. wf_doc item)"
| "wf_doc (Object m) \<longleftrightarrow> distinct (keys m) \<and> (\<forall>(k, v) \<in> set m. utf8_ok k \<and> wf_doc v)"
| "wf_doc (Id i) \<longleftrightarrow> length i = 16"
| "wf_doc (DateTime t) \<longleftrightarrow> nanos t < NANOS_PER_SECOND"
| "wf_doc _ \<longleftrightarrow> True"

subsection \<open>Encoding\<close>

definition TAG_NULL :: byte where "TAG_NULL = 0"
definition TAG_BOOL :: byte where "TAG_BOOL = 1"
definition TAG_INT :: byte where "TAG_INT = 2"
definition TAG_FLOAT :: byte where "TAG_FLOAT = 3"
definition TAG_STRING :: byte where "TAG_STRING = 4"
definition TAG_BINARY :: byte where "TAG_BINARY = 5"
definition TAG_ARRAY :: byte where "TAG_ARRAY = 6"
definition TAG_OBJECT :: byte where "TAG_OBJECT = 7"
definition TAG_ID :: byte where "TAG_ID = 8"
definition TAG_DATETIME :: byte where "TAG_DATETIME = 9"

lemmas tag_defs = TAG_NULL_def TAG_BOOL_def TAG_INT_def TAG_FLOAT_def TAG_STRING_def
  TAG_BINARY_def TAG_ARRAY_def TAG_OBJECT_def TAG_ID_def TAG_DATETIME_def

definition write_len_prefixed :: "bytes \<Rightarrow> bytes \<Rightarrow> bytes" where
  "write_len_prefixed bs buffer = buffer @ le_bytes 4 (length bs) @ bs"

fun write_document :: "document \<Rightarrow> bytes \<Rightarrow> bytes" where
  "write_document Null buffer = buffer @ [TAG_NULL]"
| "write_document (Bool v) buffer = buffer @ [TAG_BOOL] @ [of_bool v]"
| "write_document (Integer v) buffer = buffer @ [TAG_INT] @ le_bytes 8 (unat v)"
| "write_document (Float v) buffer = buffer @ [TAG_FLOAT] @ le_bytes 8 (unat v)"
| "write_document (String v) buffer = write_len_prefixed v (buffer @ [TAG_STRING])"
| "write_document (Binary v) buffer = write_len_prefixed v (buffer @ [TAG_BINARY])"
| "write_document (Array items) buffer =
     fold write_document items (buffer @ [TAG_ARRAY] @ le_bytes 4 (length items))"
| "write_document (Object entries) buffer =
     fold (\<lambda>(key, v) buf. write_document v (write_len_prefixed key buf)) entries
       (buffer @ [TAG_OBJECT] @ le_bytes 4 (length entries))"
| "write_document (Id i) buffer = buffer @ [TAG_ID] @ i"
| "write_document (DateTime t) buffer =
     buffer @ [TAG_DATETIME] @ le_bytes 8 (unat (secs t)) @ le_bytes 4 (unat (nanos t))"

definition encode_document :: "document \<Rightarrow> bytes" where
  "encode_document doc = write_document doc []"

definition encodes_object :: "bytes \<Rightarrow> bool" where
  "encodes_object encoded = (case encoded of [] \<Rightarrow> False | b # _ \<Rightarrow> b = TAG_OBJECT)"

fun encode_stored :: "document \<Rightarrow> bytes" where
  "encode_stored (Object entries) =
     (let fields = filter (\<lambda>(key, _). key \<noteq> ID_FIELD) entries
      in fold (\<lambda>(key, v) buf. write_document v (write_len_prefixed key buf)) fields
           ([TAG_OBJECT] @ le_bytes 4 (length fields)))"
| "encode_stored doc = encode_document doc"

definition with_id :: "im_ops \<Rightarrow> document \<Rightarrow> docid \<Rightarrow> document" where
  "with_id im doc i =
     (case doc of Object m \<Rightarrow> Object (im_shift_insert im m 0 ID_FIELD (Id i)) | other \<Rightarrow> other)"

subsection \<open>Decoding\<close>

definition take_len_prefixed :: "bytes \<Rightarrow> (bytes \<times> bytes) res" where
  "take_len_prefixed bs = bindR (take_u32 bs) (\<lambda>(len, bs). take_bytes bs len)"

definition take_str :: "bytes \<Rightarrow> (bytes \<times> bytes) res" where
  "take_str bs = bindR (take_len_prefixed bs)
     (\<lambda>(raw, bs). if utf8_ok raw then Inr (raw, bs) else corrupt)"

definition take_datetime :: "bytes \<Rightarrow> (datetime \<times> bytes) res" where
  "take_datetime bs =
     bindR (take_array 8 bs) (\<lambda>(s, bs).
     bindR (take_array 4 bs) (\<lambda>(n, bs).
       case from_unix (of_nat (le_nat s)) (of_nat (le_nat n)) of
         Some t \<Rightarrow> Inr (t, bs)
       | None \<Rightarrow> corrupt))"

text \<open>The two counted loops of \<open>decode_value\<close>, over the reader of one element.\<close>

fun decode_items :: "nat \<Rightarrow> (bytes \<Rightarrow> (document \<times> bytes) res) \<Rightarrow> document list \<Rightarrow> bytes
    \<Rightarrow> (document list \<times> bytes) res" where
  "decode_items 0 dv items bs = Inr (items, bs)"
| "decode_items (Suc n) dv items bs =
     bindR (dv bs) (\<lambda>(v, bs). decode_items n dv (items @ [v]) bs)"

fun decode_entries :: "im_ops \<Rightarrow> nat \<Rightarrow> (bytes \<Rightarrow> (document \<times> bytes) res) \<Rightarrow> fields \<Rightarrow> bytes
    \<Rightarrow> (fields \<times> bytes) res" where
  "decode_entries im 0 dv entries bs = Inr (entries, bs)"
| "decode_entries im (Suc n) dv entries bs =
     bindR (take_str bs) (\<lambda>(key, bs).
     bindR (dv bs) (\<lambda>(v, bs). decode_entries im n dv (im_insert im entries key v) bs))"

fun decode_value :: "im_ops \<Rightarrow> nat \<Rightarrow> bytes \<Rightarrow> (document \<times> bytes) res" where
  "decode_value im levels bs =
     bindR (take_u8 bs) (\<lambda>(tag, bs).
       if tag = TAG_NULL then Inr (Null, bs)
       else if tag = TAG_BOOL then bindR (take_u8 bs) (\<lambda>(b, bs). Inr (Bool (b \<noteq> 0), bs))
       else if tag = TAG_INT then
         bindR (take_array 8 bs) (\<lambda>(a, bs). Inr (Integer (of_nat (le_nat a)), bs))
       else if tag = TAG_FLOAT then
         bindR (take_array 8 bs) (\<lambda>(a, bs). Inr (Float (of_nat (le_nat a)), bs))
       else if tag = TAG_STRING then bindR (take_str bs) (\<lambda>(s, bs). Inr (String s, bs))
       else if tag = TAG_BINARY then
         bindR (take_len_prefixed bs) (\<lambda>(b, bs). Inr (Binary b, bs))
       else if (tag = TAG_ARRAY \<or> tag = TAG_OBJECT) \<and> levels = 0 then corrupt
       else if tag = TAG_ARRAY then
         bindR (take_u32 bs) (\<lambda>(count, bs).
         bindR (decode_items count (decode_value im (levels - 1)) [] bs)
           (\<lambda>(items, bs). Inr (Array items, bs)))
       else if tag = TAG_OBJECT then
         bindR (take_u32 bs) (\<lambda>(count, bs).
         bindR (decode_entries im count (decode_value im (levels - 1)) [] bs)
           (\<lambda>(entries, bs). Inr (Object entries, bs)))
       else if tag = TAG_ID then bindR (take_array 16 bs) (\<lambda>(i, bs). Inr (Id i, bs))
       else if tag = TAG_DATETIME then
         bindR (take_datetime bs) (\<lambda>(t, bs). Inr (DateTime t, bs))
       else corrupt)"

declare decode_value.simps [simp del]

definition decode_document :: "im_ops \<Rightarrow> bytes \<Rightarrow> (document \<times> bytes) res" where
  "decode_document im bs = decode_value im MAX_NESTING bs"

fun skip_items :: "nat \<Rightarrow> (bytes \<Rightarrow> bytes res) \<Rightarrow> bytes \<Rightarrow> bytes res" where
  "skip_items 0 sv bs = Inr bs"
| "skip_items (Suc n) sv bs = bindR (sv bs) (skip_items n sv)"

fun skip_entries :: "nat \<Rightarrow> (bytes \<Rightarrow> bytes res) \<Rightarrow> bytes \<Rightarrow> bytes res" where
  "skip_entries 0 sv bs = Inr bs"
| "skip_entries (Suc n) sv bs =
     bindR (take_str bs) (\<lambda>(_, bs). bindR (sv bs) (skip_entries n sv))"

fun skip_value :: "nat \<Rightarrow> bytes \<Rightarrow> bytes res" where
  "skip_value levels bs =
     bindR (take_u8 bs) (\<lambda>(tag, bs).
       if tag = TAG_NULL then Inr bs
       else if tag = TAG_BOOL then bindR (take_u8 bs) (\<lambda>(_, bs). Inr bs)
       else if tag = TAG_INT then bindR (take_array 8 bs) (\<lambda>(_, bs). Inr bs)
       else if tag = TAG_FLOAT then bindR (take_array 8 bs) (\<lambda>(_, bs). Inr bs)
       else if tag = TAG_STRING then bindR (take_str bs) (\<lambda>(_, bs). Inr bs)
       else if tag = TAG_BINARY then bindR (take_len_prefixed bs) (\<lambda>(_, bs). Inr bs)
       else if (tag = TAG_ARRAY \<or> tag = TAG_OBJECT) \<and> levels = 0 then corrupt
       else if tag = TAG_ARRAY then
         bindR (take_u32 bs) (\<lambda>(count, bs). skip_items count (skip_value (levels - 1)) bs)
       else if tag = TAG_OBJECT then
         bindR (take_u32 bs) (\<lambda>(count, bs). skip_entries count (skip_value (levels - 1)) bs)
       else if tag = TAG_ID then bindR (take_array 16 bs) (\<lambda>(_, bs). Inr bs)
       else if tag = TAG_DATETIME then bindR (take_datetime bs) (\<lambda>(_, bs). Inr bs)
       else corrupt)"

declare skip_value.simps [simp del]

text \<open>\<open>decode_fields\<close>'s loop, and \<open>decode_fields\<close>.\<close>

fun fields_loop :: "im_ops \<Rightarrow> bytes list \<Rightarrow> nat \<Rightarrow> nat \<Rightarrow> fields \<Rightarrow> bytes \<Rightarrow> fields res" where
  "fields_loop im names levels 0 entries bs = Inr entries"
| "fields_loop im names levels (Suc n) entries bs =
     bindR (take_str bs) (\<lambda>(key, bs).
       if key \<noteq> ID_FIELD \<and> key \<in> set names then
         bindR (decode_value im levels bs)
           (\<lambda>(v, bs). fields_loop im names levels n (im_insert im entries key v) bs)
       else bindR (skip_value levels bs) (fields_loop im names levels n entries))"

definition decode_fields :: "im_ops \<Rightarrow> bytes \<Rightarrow> docid \<Rightarrow> bytes list \<Rightarrow> document res" where
  "decode_fields im encoded i names =
     (if \<not> encodes_object encoded then
        bindR (decode_document im encoded) (\<lambda>(doc, _). Inr (with_id im doc i))
      else
        let entries = (if ID_FIELD \<in> set names then im_insert im [] ID_FIELD (Id i) else [])
        in if \<forall>name \<in> set names. name = ID_FIELD then Inr (Object entries)
           else bindR (take_u32 (drop 1 encoded)) (\<lambda>(count, bs).
                bindR (fields_loop im names (MAX_NESTING - 1) count entries bs)
                  (\<lambda>entries. Inr (Object entries))))"

subsection \<open>The encoding as one string of bytes\<close>

definition encode_str :: "bytes \<Rightarrow> bytes" where
  "encode_str bs = le_bytes 4 (length bs) @ bs"

definition encode_entry :: "bytes \<times> document \<Rightarrow> bytes" where
  "encode_entry f = encode_str (fst f) @ encode_document (snd f)"

lemma write_len_prefixed_eq: "write_len_prefixed bs buffer = buffer @ encode_str bs"
  by (simp add: write_len_prefixed_def encode_str_def)

lemma write_document_append: "write_document doc buffer = buffer @ encode_document doc"
proof (induction doc arbitrary: buffer)
  case (Array items)
  then have "fold write_document items buf = buf @ concat (map encode_document items)" for buf
    by (intro fold_appending) simp
  then show ?case by (simp add: encode_document_def)
next
  case (Object entries)
  have "fold (\<lambda>(key, v) buf. write_document v (write_len_prefixed key buf)) entries buf
      = buf @ concat (map encode_entry entries)" for buf
  proof (rule fold_appending)
    fix x buf assume "x \<in> set entries"
    then show "(case x of (key, v) \<Rightarrow> \<lambda>buf. write_document v (write_len_prefixed key buf)) buf
        = buf @ encode_entry x"
      using Object [of x "snd x"]
      by (auto simp: encode_entry_def write_len_prefixed_eq snds.simps split: prod.splits)
  qed
  then show ?case by (simp add: encode_document_def)
qed (simp_all add: encode_document_def write_len_prefixed_eq)

lemma write_entries_append:
  "fold (\<lambda>(key, v) buf. write_document v (write_len_prefixed key buf)) entries buf
     = buf @ concat (map encode_entry entries)"
  by (rule fold_appending)
    (auto simp: encode_entry_def write_len_prefixed_eq write_document_append)

lemma encode_document_simps:
  "encode_document Null = [TAG_NULL]"
  "encode_document (Bool b) = TAG_BOOL # [of_bool b]"
  "encode_document (Integer i) = TAG_INT # le_bytes 8 (unat i)"
  "encode_document (Float f) = TAG_FLOAT # le_bytes 8 (unat f)"
  "encode_document (String s) = TAG_STRING # encode_str s"
  "encode_document (Binary s) = TAG_BINARY # encode_str s"
  "encode_document (Array items) =
     TAG_ARRAY # le_bytes 4 (length items) @ concat (map encode_document items)"
  "encode_document (Object entries) =
     TAG_OBJECT # le_bytes 4 (length entries) @ concat (map encode_entry entries)"
  "encode_document (Id oid) = TAG_ID # oid"
  "encode_document (DateTime t) =
     TAG_DATETIME # le_bytes 8 (unat (secs t)) @ le_bytes 4 (unat (nanos t))"
proof -
  show "encode_document (Array items) =
     TAG_ARRAY # le_bytes 4 (length items) @ concat (map encode_document items)"
    by (simp add: encode_document_def [of "Array items"] fold_appending [OF write_document_append])
  show "encode_document (Object entries) =
     TAG_OBJECT # le_bytes 4 (length entries) @ concat (map encode_entry entries)"
    by (simp add: encode_document_def [of "Object entries"] write_entries_append)
qed (simp_all add: encode_document_def write_len_prefixed_eq)

text \<open>
  Every inner length is at most the whole encoding's, so a document whose encoding fits a
  \<open>u32\<close> has no length or count the casts to \<open>u32\<close> would truncate.
\<close>

lemma encode_document_nonempty: "0 < length (encode_document doc)"
  by (cases doc) (simp_all add: encode_document_simps)

lemma length_concat_ge:
  "x \<in> set xs \<Longrightarrow> length (f x) \<le> length (concat (map f xs))"
  by (induction xs) auto

lemma length_concat_count:
  "(\<And>x. x \<in> set xs \<Longrightarrow> 0 < length (f x)) \<Longrightarrow> length xs \<le> length (concat (map f xs))"
proof (induction xs)
  case (Cons x xs)
  then have "0 < length (f x)" and "length xs \<le> length (concat (map f xs))" by simp_all
  then show ?case
    by (simp only: list.map concat.simps length_append list.size)
qed simp

subsection \<open>Skipping a value and decoding it\<close>

abbreviation rest_of :: "('a \<times> bytes) res \<Rightarrow> bytes res" where
  "rest_of r \<equiv> bindR r (\<lambda>(_, bs). Inr bs)"

lemma rest_of_bind: "rest_of (bindR m f) = bindR m (\<lambda>x. rest_of (f x))"
  by (rule bindR_assoc)

lemma skip_items_eq:
  assumes "\<And>bs. sv bs = rest_of (dv bs)"
  shows "skip_items n sv bs = rest_of (decode_items n dv items bs)"
proof (induction n arbitrary: items bs)
  case (Suc n)
  show ?case using assms [of bs] Suc.IH by (cases "dv bs") auto
qed simp

lemma skip_entries_eq:
  assumes "\<And>bs. sv bs = rest_of (dv bs)"
  shows "skip_entries n sv bs = rest_of (decode_entries im n dv entries bs)"
proof (induction n arbitrary: entries bs)
  case (Suc n)
  have "bindR (sv bs') (skip_entries n sv) =
      rest_of (bindR (dv bs') (\<lambda>(v, bs). decode_entries im n dv (im_insert im entries k v) bs))"
    for bs' k
    using assms [of bs'] Suc.IH by (cases "dv bs'") auto
  then show ?case by (cases "take_str bs") auto
qed simp

lemma skip_value_rest:
  "skip_value levels bs = bindR (decode_value im levels bs) (\<lambda>(_, rest). Inr rest)"
proof (induction levels arbitrary: bs)
  case 0
  show ?case
    by (subst skip_value.simps, subst decode_value.simps)
      (auto simp: bindR_assoc case_prod_unfold if_distrib [of "\<lambda>r. bindR r _"]
        intro!: bindR_cong)
next
  case (Suc levels)
  note items = skip_items_eq [OF Suc.IH, symmetric]
  note entries = skip_entries_eq [OF Suc.IH, symmetric]
  show ?case
    by (subst skip_value.simps, subst decode_value.simps)
      (auto simp: bindR_assoc case_prod_unfold if_distrib [of "\<lambda>r. bindR r _"]
        items [unfolded case_prod_unfold] entries [unfolded case_prod_unfold]
        intro!: bindR_cong)
qed

text \<open>
  C2. \<open>skip_value\<close> moves past a value without building it, and checks what \<open>decode_value\<close>
  checks: it fails, with the same error, exactly when \<open>decode_value\<close> does, and else leaves the
  same bytes behind, for any bytes and whatever the map inside objects does.
\<close>

theorem skip_value_eq_decode_value:
  "skip_value levels bs = bindR (decode_value im levels bs) (\<lambda>(_, rest). Inr rest)"
  by (rule skip_value_rest)

subsection \<open>What is encoded decodes\<close>

lemma take_str_encode:
  "utf8_ok s \<Longrightarrow> length s < 2 ^ 32 \<Longrightarrow> take_str (encode_str s @ rest) = Inr (s, rest)"
  by (simp add: take_str_def take_len_prefixed_def encode_str_def)

lemma take_len_prefixed_encode:
  "length s < 2 ^ 32 \<Longrightarrow> take_len_prefixed (encode_str s @ rest) = Inr (s, rest)"
  by (simp add: take_len_prefixed_def encode_str_def)

lemma word_le_bytes_64 [simp]: "of_nat (le_nat (le_bytes 8 (unat (w :: 64 word)))) = w"
  using unsigned_less [of w, where ?'a = nat] by (simp add: le_nat_le_bytes)

lemma word_le_bytes_32 [simp]: "of_nat (le_nat (le_bytes 4 (unat (w :: 32 word)))) = w"
  using unsigned_less [of w, where ?'a = nat] by (simp add: le_nat_le_bytes)

lemma take_datetime_encode:
  "nanos t < NANOS_PER_SECOND \<Longrightarrow>
   take_datetime (le_bytes 8 (unat (secs t)) @ le_bytes 4 (unat (nanos t)) @ rest) = Inr (t, rest)"
  by (simp add: take_datetime_def from_unix_def)

lemma length_encode_str_le: "length s \<le> length (encode_str s)"
  by (simp add: encode_str_def)

lemma encode_entry_nonempty: "0 < length (encode_entry f)"
  using encode_document_nonempty [of "snd f"] by (simp add: encode_entry_def)

lemma decode_items_encode:
  assumes "\<And>d rest. d \<in> set ds \<Longrightarrow> dv (encode_document d @ rest) = Inr (d, rest)"
  shows "decode_items (length ds) dv items (concat (map encode_document ds) @ rest)
    = Inr (items @ ds, rest)"
  using assms by (induction ds arbitrary: items) simp_all

lemma object_cost_pos: "1 \<le> object_cost m"
  by (auto simp: object_cost_def split: list.splits)

lemma within_mono: "within d n \<Longrightarrow> n \<le> k \<Longrightarrow> within d k"
proof (induction d arbitrary: n k)
  case (Array items)
  then show ?case by (simp add: ) (meson diff_le_mono)
next
  case (Object m)
  have "within v (k - object_cost m)" if "(x, v) \<in> set m" for x v
    using Object that by (fastforce intro: diff_le_mono simp: snds.simps)
  then show ?case using Object.prems by auto
qed simp_all

context index_map
begin

lemma decode_entries_encode:
  assumes "\<And>k v rest. (k, v) \<in> set fs \<Longrightarrow> dv (encode_document v @ rest) = Inr (v, rest)"
    and "\<And>k v. (k, v) \<in> set fs \<Longrightarrow> utf8_ok k \<and> length k < 2 ^ 32"
    and "distinct (keys (entries @ fs))"
  shows "decode_entries im (length fs) dv entries (concat (map encode_entry fs) @ rest)
    = Inr (entries @ fs, rest)"
  using assms
proof (induction fs arbitrary: entries)
  case (Cons f fs)
  obtain k v where f: "f = (k, v)" by (cases f)
  then have ins: "im_insert im entries k v = entries @ [(k, v)]"
    using Cons.prems(3) by (intro insert_new) auto
  have dv: "dv (encode_document v @ r) = Inr (v, r)" for r using Cons.prems(1) [of k v] f by simp
  have str: "take_str (encode_str k @ r) = Inr (k, r)" for r
    using Cons.prems(2) [of k v] f by (simp add: take_str_encode)
  have "decode_entries im (length fs) dv (entries @ [(k, v)]) (concat (map encode_entry fs) @ rest)
      = Inr ((entries @ [(k, v)]) @ fs, rest)"
  proof (rule Cons.IH)
    show "distinct (keys ((entries @ [(k, v)]) @ fs))" using Cons.prems(3) f by auto
  qed (use Cons.prems(1,2) f in \<open>meson list.set_intros(2)\<close>)+
  then show ?case by (simp add: f ins encode_entry_def [of "(k, v)"] str dv)
qed simp

lemma decode_value_encode:
  "\<lbrakk> wf_doc d; within d levels; length (encode_document d) < 2 ^ 32 \<rbrakk> \<Longrightarrow>
   decode_value im levels (encode_document d @ rest) = Inr (d, rest)"
proof (induction d arbitrary: levels rest)
  case (Array items)
  let ?body = "concat (map encode_document items)"
  have len: "length items < 2 ^ 32"
    using Array.prems(3) length_concat_count [of items encode_document] encode_document_nonempty
    by (simp add: encode_document_simps)
  have "decode_value im (levels - 1) (encode_document d @ r) = Inr (d, r)" if "d \<in> set items" for d r
    using Array that length_concat_ge [OF that, of encode_document]
    by (auto simp: encode_document_simps)
  then have "decode_items (length items) (decode_value im (levels - 1)) [] (?body @ rest)
      = Inr (items, rest)"
    using decode_items_encode [of items "decode_value im (levels - 1)" "[]"] by simp
  then show ?case
    using len Array.prems(2) by (subst decode_value.simps) (simp add: encode_document_simps tag_defs)
next
  case (Object m)
  let ?body = "concat (map encode_entry m)"
  have len: "length m < 2 ^ 32"
    using Object.prems(3) length_concat_count [of m encode_entry] encode_entry_nonempty
    by (simp add: encode_document_simps)
  have sub: "length (encode_entry (k, v)) < 2 ^ 32" if "(k, v) \<in> set m" for k v
    using Object.prems(3) length_concat_ge [OF that, of encode_entry]
    by (simp add: encode_document_simps)
  have "within v (levels - 1)" if "(k, v) \<in> set m" for k v
  proof (rule within_mono)
    show "within v (levels - object_cost m)" using Object.prems(2) that by auto
  qed (use object_cost_pos [of m] in simp)
  then have "decode_value im (levels - 1) (encode_document v @ r) = Inr (v, r)"
    if "(k, v) \<in> set m" for k v r
    using Object.IH [of "(k, v)" v] Object.prems(1) that sub [OF that]
    by (auto simp: encode_entry_def snds.simps)
  moreover have "utf8_ok k \<and> length k < 2 ^ 32" if "(k, v) \<in> set m" for k v
    using Object.prems(1) that sub [OF that] length_encode_str_le [of k]
    by (auto simp: encode_entry_def)
  ultimately have "decode_entries im (length m) (decode_value im (levels - 1)) [] (?body @ rest)
      = Inr (m, rest)"
    using decode_entries_encode [of m "decode_value im (levels - 1)" "[]"] Object.prems(1) by auto
  moreover have "levels \<noteq> 0" using Object.prems(2) object_cost_pos [of m] by auto
  ultimately show ?case
    using len by (subst decode_value.simps) (simp add: encode_document_simps tag_defs)
next
  case (String s)
  then show ?case using length_encode_str_le [of s]
    by (subst decode_value.simps) (simp add: encode_document_simps tag_defs take_str_encode)
next
  case (Binary s)
  then show ?case using length_encode_str_le [of s]
    by (subst decode_value.simps)
      (simp add: encode_document_simps tag_defs take_len_prefixed_encode)
qed (subst decode_value.simps;
     simp add: encode_document_simps tag_defs take_datetime_encode)+

end

subsection \<open>An insertion-ordered association list\<close>

text \<open>A map with \<open>IndexMap\<close>'s documented behaviour, for the witnesses.\<close>

fun alist_insert :: "fields \<Rightarrow> bytes \<Rightarrow> document \<Rightarrow> fields" where
  "alist_insert [] k v = [(k, v)]"
| "alist_insert ((k', u) # m) k v = (if k' = k then (k, v) # m else (k', u) # alist_insert m k v)"

definition alist_ops :: im_ops where
  "alist_ops = \<lparr>
     im_insert = alist_insert,
     im_shift_insert = (\<lambda>m i k v.
       let m' = filter (\<lambda>f. fst f \<noteq> k) m in take i m' @ (k, v) # drop i m'),
     im_shift_remove = (\<lambda>m k. filter (\<lambda>f. fst f \<noteq> k) m),
     im_get = map_of \<rparr>"

lemma alist_insert_new: "k \<notin> set (keys m) \<Longrightarrow> alist_insert m k v = m @ [(k, v)]"
  by (induction m k v rule: alist_insert.induct) auto

lemma alist_insert_old:
  "distinct (keys (xs @ (k, u) # ys)) \<Longrightarrow> alist_insert (xs @ (k, u) # ys) k v = xs @ (k, v) # ys"
  by (induction xs) auto

interpretation alist: index_map alist_ops
  by unfold_locales (simp_all add: alist_ops_def alist_insert_new alist_insert_old)

text \<open>
  C3. A document that nests no deeper than the limit and whose encoding fits a \<open>u32\<close> is read
  back as it was written, and the bytes after it are left.
\<close>

theorem decode_encode_document:
  assumes "index_map im" and "wf_doc d" and "\<not> nests_too_deep d"
    and "length (encode_document d) < 2 ^ 32"
  shows "decode_document im (encode_document d @ rest) = Inr (d, rest)"
  using index_map.decode_value_encode [OF assms(1,2) _ assms(4)] assms(3)
  by (simp add: decode_document_def nests_too_deep_def)

theorem decode_encode_document_witness:
  "decode_document alist_ops (encode_document (Object [(ascii ''a'', Array [Integer 5, Null])]) @ [1])
     = Inr (Object [(ascii ''a'', Array [Integer 5, Null])], [1])"
  by (rule decode_encode_document)
    (simp_all add: alist.index_map_axioms nests_too_deep_def MAX_NESTING_def object_cost_def
      ID_FIELD_def is_tag_def TAGS_def ascii_def in_range_def utf8_ok.simps(2)
      encode_document_simps encode_entry_def encode_str_def)

subsection \<open>Stored documents and reading some of their fields\<close>

abbreviation without_id :: "fields \<Rightarrow> fields" where
  "without_id m \<equiv> filter (\<lambda>f. fst f \<noteq> ID_FIELD) m"

lemma filter_case_fst: "filter (\<lambda>(key, _). key \<noteq> x) m = filter (\<lambda>f. fst f \<noteq> x) m"
  by (simp add: case_prod_unfold)

lemma encode_stored_object: "encode_stored (Object m) = encode_document (Object (without_id m))"
  by (simp add: filter_case_fst Let_def write_entries_append encode_document_simps)

lemma keys_filter: "keys (filter (\<lambda>f. fst f \<noteq> x) m) = filter (\<lambda>k. k \<noteq> x) (keys m)"
  by (induction m) simp_all

lemma object_cost_without_id: "object_cost (without_id m) = object_cost m"
  by (simp add: object_cost_def keys_filter)

lemma wf_without_id: "wf_doc (Object m) \<Longrightarrow> wf_doc (Object (without_id m))"
  by (auto simp: keys_filter)

lemma within_without_id: "within (Object m) levels \<Longrightarrow> within (Object (without_id m)) levels"
  by (auto simp: object_cost_without_id)

context index_map
begin

lemma decode_stored:
  assumes "wf_doc (Object m)" and "within (Object m) MAX_NESTING"
    and "length (encode_stored (Object m)) < 2 ^ 32"
  shows "decode_document im (encode_stored (Object m)) = Inr (Object (without_id m), [])"
  using decode_value_encode [OF wf_without_id within_without_id, of m MAX_NESTING "[]"] assms
  by (simp add: encode_stored_object decode_document_def del: encode_stored.simps wf_doc.simps)

lemma fields_loop_encode:
  assumes "\<And>k v rest. (k, v) \<in> set fs \<Longrightarrow> decode_value im levels (encode_document v @ rest) = Inr (v, rest)"
    and "\<And>k v. (k, v) \<in> set fs \<Longrightarrow> utf8_ok k \<and> length k < 2 ^ 32"
    and "distinct (keys (entries @ without_id fs))"
  shows "fields_loop im names levels (length fs) entries (concat (map encode_entry fs))
    = Inr (entries @ filter (\<lambda>f. fst f \<noteq> ID_FIELD \<and> fst f \<in> set names) fs)"
  using assms
proof (induction fs arbitrary: entries)
  case (Cons f fs)
  obtain k v where f: "f = (k, v)" by (cases f)
  have dv: "decode_value im levels (encode_document v @ r) = Inr (v, r)" for r
    using Cons.prems(1) [of k v] f by simp
  then have sv: "skip_value levels (encode_document v @ r) = Inr r" for r
    by (simp add: skip_value_rest [of _ _ im])
  have str: "take_str (encode_str k @ r) = Inr (k, r)" for r
    using Cons.prems(2) [of k v] f by (simp add: take_str_encode)
  have ins: "k \<noteq> ID_FIELD \<Longrightarrow> im_insert im entries k v = entries @ [(k, v)]"
    using Cons.prems(3) f by (intro insert_new) auto
  have IH: "distinct (keys (es @ without_id fs)) \<Longrightarrow>
    fields_loop im names levels (length fs) es (concat (map encode_entry fs))
      = Inr (es @ filter (\<lambda>f. fst f \<noteq> ID_FIELD \<and> fst f \<in> set names) fs)" for es
    using Cons.prems(1,2) by (intro Cons.IH) (meson list.set_intros(2))+
  have d1: "distinct (keys (entries @ without_id fs))"
    using Cons.prems(3) f by (auto split: if_splits)
  have d2: "k \<noteq> ID_FIELD \<Longrightarrow> distinct (keys ((entries @ [(k, v)]) @ without_id fs))"
    using Cons.prems(3) f by auto
  show ?case
    using IH [OF d1] IH [OF d2] by (auto simp: f ins encode_entry_def [of "(k, v)"] str dv sv)
qed simp

lemma decode_fields_stored:
  assumes "wf_doc (Object m)" and "within (Object m) MAX_NESTING"
    and "length (encode_stored (Object m)) < 2 ^ 32"
  shows "decode_fields im (encode_stored (Object m)) i names =
    Inr (Object ((if ID_FIELD \<in> set names then [(ID_FIELD, Id i)] else [])
      @ filter (\<lambda>f. fst f \<in> set names) (without_id m)))"
proof -
  let ?fs = "without_id m" and ?start = "if ID_FIELD \<in> set names then [(ID_FIELD, Id i)] else []"
  note small = assms(3) [unfolded encode_stored_object encode_document_simps]
  have entry: "length (encode_entry (k, v)) < 2 ^ 32" if "(k, v) \<in> set ?fs" for k v
    using small length_concat_ge [OF that, of encode_entry] by simp
  have cnt: "length ?fs < 2 ^ 32"
    using small length_concat_count [of ?fs encode_entry] encode_entry_nonempty by simp
  have dv: "decode_value im (MAX_NESTING - 1) (encode_document v @ r) = Inr (v, r)"
    if kv: "(k, v) \<in> set ?fs" for k v r
  proof (rule decode_value_encode)
    have "within v (MAX_NESTING - object_cost m)" using assms(2) kv by auto
    then show "within v (MAX_NESTING - 1)"
      by (rule within_mono) (use object_cost_pos [of m] in simp)
  qed (use assms(1) kv entry [OF kv] in \<open>auto simp: encode_entry_def\<close>)
  have str: "utf8_ok k \<and> length k < 2 ^ 32" if kv: "(k, v) \<in> set ?fs" for k v
    using assms(1) kv entry [OF kv] by (auto simp: encode_entry_def encode_str_def)
  have dist: "distinct (keys (?start @ without_id ?fs))"
    using assms(1) by (auto simp: keys_filter)
  have same: "filter (\<lambda>f. fst f \<noteq> ID_FIELD \<and> fst f \<in> set names) ?fs
      = filter (\<lambda>f. fst f \<in> set names) ?fs"
    by (rule filter_cong [OF refl]) auto
  from fields_loop_encode [where names = names, OF dv str dist]
  have loop: "fields_loop im names (MAX_NESTING - 1) (length ?fs) ?start (concat (map encode_entry ?fs))
      = Inr (?start @ filter (\<lambda>f. fst f \<in> set names) ?fs)"
    unfolding same .
  have start: "im_insert im [] ID_FIELD (Id i) = [(ID_FIELD, Id i)]" by (simp add: insert_new)
  have none: "filter (\<lambda>f. fst f \<in> set names) ?fs = []" if "\<forall>n \<in> set names. n = ID_FIELD"
    using that by (auto simp: filter_empty_conv)
  have run: "decode_fields im (encode_stored (Object m)) i names =
    (if \<forall>n \<in> set names. n = ID_FIELD then Inr (Object ?start)
     else bindR (fields_loop im names (MAX_NESTING - 1) (length ?fs) ?start
       (concat (map encode_entry ?fs))) (\<lambda>entries. Inr (Object entries)))"
    unfolding encode_stored_object
    using cnt by (simp add: decode_fields_def encodes_object_def encode_document_simps start Let_def)
  show ?thesis
    unfolding run loop using none by simp
qed

end


text \<open>
  The stored form of an object leaves its \<open>_id\<close> out; read back and given its id, it is the
  object again, with the id as its first field.
\<close>

theorem stored_document_roundtrip:
  assumes "index_map im" and "wf_doc (Object m)" and "\<not> nests_too_deep (Object m)"
    and "length (encode_stored (Object m)) < 2 ^ 32"
  shows "bindR (decode_document im (encode_stored (Object m))) (\<lambda>(d, _). Inr (with_id im d i))
    = Inr (Object ((ID_FIELD, Id i) # filter (\<lambda>f. fst f \<noteq> ID_FIELD) m))"
  using index_map.decode_stored [OF assms(1,2) _ assms(4)] assms(2,3)
    index_map.shift_insert_0 [OF assms(1), of "without_id m"]
  by (simp add: nests_too_deep_def with_id_def keys_filter del: encode_stored.simps)

theorem stored_document_roundtrip_witness:
  "bindR (decode_document alist_ops (encode_stored (Object [(ascii ''a'', Null), (ID_FIELD, Null)])))
     (\<lambda>(d, _). Inr (with_id alist_ops d []))
   = Inr (Object ((ID_FIELD, Id []) #
       filter (\<lambda>f. fst f \<noteq> ID_FIELD) [(ascii ''a'', Null), (ID_FIELD, Null)]))"
  by (rule stored_document_roundtrip)
    (simp_all add: alist.index_map_axioms nests_too_deep_def MAX_NESTING_def object_cost_def
      ID_FIELD_def is_tag_def TAGS_def ascii_def in_range_def utf8_ok.simps(2)
      encode_document_simps write_entries_append encode_entry_def encode_str_def)

text \<open>
  C4. Reading only some fields of a stored object gives those fields with the values and in the
  order a whole read would, and the id first when it is asked for.
\<close>

theorem decode_fields_of_stored:
  assumes "index_map im" and "wf_doc (Object m)" and "\<not> nests_too_deep (Object m)"
    and "length (encode_stored (Object m)) < 2 ^ 32"
  shows "decode_fields im (encode_stored (Object m)) i names =
    Inr (Object (filter (\<lambda>f. fst f \<in> set names)
      ((ID_FIELD, Id i) # filter (\<lambda>f. fst f \<noteq> ID_FIELD) m)))"
  using index_map.decode_fields_stored [OF assms(1,2) _ assms(4), of i names] assms(3)
  by (simp add: nests_too_deep_def del: encode_stored.simps)

theorem decode_fields_of_stored_witness:
  "decode_fields alist_ops (encode_stored (Object [(ascii ''a'', Null), (ascii ''b'', Bool True)])) []
     [ascii ''b'']
   = Inr (Object (filter (\<lambda>f. fst f \<in> set [ascii ''b''])
       ((ID_FIELD, Id []) #
         filter (\<lambda>f. fst f \<noteq> ID_FIELD) [(ascii ''a'', Null), (ascii ''b'', Bool True)])))"
  by (rule decode_fields_of_stored)
    (simp_all add: alist.index_map_axioms nests_too_deep_def MAX_NESTING_def object_cost_def
      ID_FIELD_def is_tag_def TAGS_def ascii_def in_range_def utf8_ok.simps(2)
      encode_document_simps write_entries_append encode_entry_def encode_str_def)

end
