(* ===== verification/Slotted.thy ===== *)
theory Slotted
  imports Prelude "HOL-Library.Multiset"
begin

text \<open>
  Pages and the slotted page (\<open>src/src/storage/page.rs\<close>, \<open>slotted.rs\<close>, the page types of
  \<open>storage/mod.rs\<close>): a slot directory growing up from a 13-byte header, cells packed down from
  the page's end. The operations work on the page's bytes, as the code does; \<open>u16\<close> and
  \<open>usize\<close> values are \<open>nat\<close>, truncated where they are written as two bytes. A slice out of
  range, a failed assertion and an arithmetic overflow are \<open>Inl Panic\<close>.

  \<open>cells\<close> abstracts a page to the list of its slots' cells (\<open>None\<close> a tombstone), and
  \<open>page_inv\<close> is the invariant: a layout \<open>check_layout\<close> accepts but for the type, and cells
  that share no bytes. The lemmas show that every operation keeps the invariant and is, on
  \<open>cells\<close>, an operation on lists; and that the \<open>valid\<close> flag, by which \<open>into_page\<close> spares the
  next reader the check, only ever marks pages \<open>check_layout\<close> accepts.
\<close>

subsection \<open>Pages\<close>

datatype page_type = PHeader | PFree | PCatalog | PData | PIndexLeaf | PIndexBranch | POverflow

fun type_byte :: "page_type \<Rightarrow> byte" where
  "type_byte PHeader = 0"
| "type_byte PFree = 1"
| "type_byte PCatalog = 2"
| "type_byte PData = 3"
| "type_byte PIndexLeaf = 4"
| "type_byte PIndexBranch = 5"
| "type_byte POverflow = 6"

definition from_u8 :: "byte \<Rightarrow> page_type res" where
  "from_u8 v =
     (if v = 0 then Inr PHeader
      else if v = 1 then Inr PFree
      else if v = 2 then Inr PCatalog
      else if v = 3 then Inr PData
      else if v = 4 then Inr PIndexLeaf
      else if v = 5 then Inr PIndexBranch
      else if v = 6 then Inr POverflow
      else corrupt)"

definition is_slotted :: "page_type \<Rightarrow> bool" where
  "is_slotted t = (case t of PCatalog \<Rightarrow> True | PData \<Rightarrow> True | PIndexBranch \<Rightarrow> True
     | PIndexLeaf \<Rightarrow> True | _ \<Rightarrow> False)"

definition PAGE_SIZE :: nat where "PAGE_SIZE = 8192"
definition HEADER_PAGE :: nat where "HEADER_PAGE = 0"
definition CHECKSUM_LEN :: nat where "CHECKSUM_LEN = 4"
definition USABLE_PAGE_SIZE :: nat where "USABLE_PAGE_SIZE = PAGE_SIZE - CHECKSUM_LEN"

definition MIN_INDEX_ENTRY_LEN :: nat where "MIN_INDEX_ENTRY_LEN = 10"
definition MIN_BRANCH_ENTRY_LEN :: nat where "MIN_BRANCH_ENTRY_LEN = 8"

record page =
  page_bytes :: bytes
  layout_checked :: bool

definition page_from :: "bytes \<Rightarrow> page" where
  "page_from bs = \<lparr>page_bytes = bs, layout_checked = False\<rparr>"

definition known_checked :: "page \<Rightarrow> page" where
  "known_checked p = p\<lparr>layout_checked := True\<rparr>"

subsection \<open>The slotted page\<close>

definition HEADER_LEN :: nat where "HEADER_LEN = 13"
definition SLOT_LEN :: nat where "SLOT_LEN = 4"

definition min_cell :: "byte \<Rightarrow> nat" where
  "min_cell t = (if t = type_byte PIndexLeaf then MIN_INDEX_ENTRY_LEN
     else if t = type_byte PIndexBranch then MIN_BRANCH_ENTRY_LEN else 0)"

record slotted =
  buf :: page
  valid :: bool

abbreviation raw :: "slotted \<Rightarrow> bytes" where
  "raw sp \<equiv> page_bytes (buf sp)"

definition slotted_new :: "page_type \<Rightarrow> slotted" where
  "slotted_new t =
     (let b = put (put (replicate USABLE_PAGE_SIZE 0) 0 [type_byte t]) 11 (le_bytes 2 USABLE_PAGE_SIZE)
      in \<lparr>buf = page_from b, valid = is_slotted t\<rparr>)"

definition slot_offset :: "nat \<Rightarrow> nat" where
  "slot_offset index = HEADER_LEN + index * SLOT_LEN"

text \<open>The two loops of \<open>check_layout\<close> over the slots, then \<open>check_layout\<close>.\<close>

definition check_slot :: "bytes \<Rightarrow> nat \<Rightarrow> nat \<Rightarrow> bool" where
  "check_slot b data_start slot =
     (let at = slot_offset slot; offset = u_at 2 b at; length = u_at 2 b (at + 2)
      in length = 0 \<or> \<not> (offset < data_start \<or> offset + length > USABLE_PAGE_SIZE))"

definition check_entry :: "bytes \<Rightarrow> nat \<Rightarrow> bool" where
  "check_entry b slot =
     (let length = u_at 2 b (slot_offset slot + 2)
      in \<not> (length \<noteq> 0 \<and> length < min_cell (b ! 0)))"

definition check_layout :: "bytes \<Rightarrow> unit res" where
  "check_layout b =
     (if length b \<noteq> USABLE_PAGE_SIZE then corrupt
      else bindR (from_u8 (b ! 0)) (\<lambda>t.
        if \<not> is_slotted t then corrupt
        else let slot_count = u_at 2 b 9; data_start = u_at 2 b 11
          in if data_start > USABLE_PAGE_SIZE then corrupt
             else if data_start < HEADER_LEN + slot_count * SLOT_LEN then corrupt
             else if \<not> (\<forall>slot \<in> set [0..<slot_count]. check_slot b data_start slot) then corrupt
             else if \<not> (\<forall>slot \<in> set [0..<slot_count]. check_entry b slot) then corrupt
             else Inr ()))"

definition page_checked :: "page \<Rightarrow> page" where
  "page_checked p = (if layout_checked p then p
     else p\<lparr>layout_checked := ok (check_layout (page_bytes p))\<rparr>)"

definition from_bytes :: "page \<Rightarrow> slotted res" where
  "from_bytes p =
     bindR (if layout_checked p then Inr () else check_layout (page_bytes p))
       (\<lambda>_. Inr \<lparr>buf = p, valid = True\<rparr>)"

definition into_page :: "slotted \<Rightarrow> page" where
  "into_page sp = (if valid sp then known_checked (buf sp) else buf sp)"

text \<open>A write through \<open>bytes_mut\<close>, which makes the page count as unchecked.\<close>

definition write_at :: "slotted \<Rightarrow> nat \<Rightarrow> bytes \<Rightarrow> slotted res" where
  "write_at sp at xs = bindR (put_at (raw sp) at xs) (\<lambda>b. Inr (sp\<lparr>buf := page_from b\<rparr>))"

text \<open>\<open>bytes_mut().copy_within(from..to, dest)\<close>.\<close>

definition copy_within :: "slotted \<Rightarrow> nat \<Rightarrow> nat \<Rightarrow> nat \<Rightarrow> slotted res" where
  "copy_within sp from to dest =
     (if from \<le> to then bindR (slice_at (raw sp) from (to - from)) (write_at sp dest)
      else Inl Panic)"

text \<open>\<open>bytes_mut()[from..to].fill(0)\<close>.\<close>

definition fill_zero :: "slotted \<Rightarrow> nat \<Rightarrow> nat \<Rightarrow> slotted res" where
  "fill_zero sp from to =
     (if from \<le> to then write_at sp from (replicate (to - from) 0) else Inl Panic)"

definition next_page :: "slotted \<Rightarrow> nat" where
  "next_page sp = u_at 8 (raw sp) 1"

definition set_next_page :: "slotted \<Rightarrow> nat \<Rightarrow> slotted res" where
  "set_next_page sp pid = write_at sp 1 (le_bytes 8 pid)"

definition slot_count :: "slotted \<Rightarrow> nat" where
  "slot_count sp = u_at 2 (raw sp) 9"

definition set_slot_count :: "slotted \<Rightarrow> nat \<Rightarrow> slotted res" where
  "set_slot_count sp n = write_at sp 9 (le_bytes 2 n)"

definition data_start :: "slotted \<Rightarrow> nat" where
  "data_start sp = u_at 2 (raw sp) 11"

definition set_data_start :: "slotted \<Rightarrow> nat \<Rightarrow> slotted res" where
  "set_data_start sp v = write_at sp 11 (le_bytes 2 v)"

definition read_slot :: "slotted \<Rightarrow> nat \<Rightarrow> (nat \<times> nat) res" where
  "read_slot sp index =
     (let at = slot_offset index in
      bindR (slice_at (raw sp) at 2) (\<lambda>o2.
      bindR (slice_at (raw sp) (at + 2) 2) (\<lambda>l2. Inr (le_nat o2, le_nat l2))))"

definition write_slot :: "slotted \<Rightarrow> nat \<Rightarrow> nat \<Rightarrow> nat \<Rightarrow> slotted res" where
  "write_slot sp index offset len =
     (let sp = (if len \<noteq> 0 \<and> len < min_cell (raw sp ! 0) then sp\<lparr>valid := False\<rparr> else sp);
          at = slot_offset index in
      bindR (write_at sp at (le_bytes 2 offset)) (\<lambda>sp. write_at sp (at + 2) (le_bytes 2 len)))"

definition free_space :: "slotted \<Rightarrow> nat" where
  "free_space sp = data_start sp - (HEADER_LEN + slot_count sp * SLOT_LEN)"

definition space_needed :: "nat \<Rightarrow> nat" where
  "space_needed data_len = SLOT_LEN + data_len"

definition has_room_for :: "slotted \<Rightarrow> nat \<Rightarrow> bool" where
  "has_room_for sp data_len \<longleftrightarrow> free_space sp \<ge> SLOT_LEN + data_len"

definition place_cell :: "slotted \<Rightarrow> nat \<Rightarrow> bytes \<Rightarrow> slotted res" where
  "place_cell sp slot data =
     (if data_start sp < length data then Inl Panic
      else let new_data_start = data_start sp - length data in
        bindR (write_at sp new_data_start data) (\<lambda>sp.
        bindR (set_data_start sp new_data_start) (\<lambda>sp.
        write_slot sp slot new_data_start (length data))))"

definition get_cell :: "slotted \<Rightarrow> nat \<Rightarrow> bytes option res" where
  "get_cell sp slot =
     (if slot \<ge> slot_count sp then Inr None
      else bindR (read_slot sp slot) (\<lambda>(offset, length).
        if length = 0 then Inr None
        else bindR (slice_at (raw sp) offset length) (\<lambda>cell. Inr (Some cell))))"

definition iter_cells :: "slotted \<Rightarrow> (nat \<times> bytes) list res" where
  "iter_cells sp =
     bindR (mapR (\<lambda>slot. bindR (get_cell sp slot) (\<lambda>c. Inr (slot, c))) [0..<slot_count sp])
       (\<lambda>cs. Inr (List.map_filter (\<lambda>(slot, c). map_option (Pair slot) c) cs))"

definition is_empty :: "slotted \<Rightarrow> bool res" where
  "is_empty sp = bindR (iter_cells sp) (\<lambda>cs. Inr (cs = []))"

definition live_cells :: "slotted \<Rightarrow> nat res" where
  "live_cells sp =
     bindR (mapR (read_slot sp) [0..<slot_count sp])
       (\<lambda>slots. Inr (length (filter (\<lambda>(_, length). length \<noteq> 0) slots)))"

definition reclaimable_space :: "slotted \<Rightarrow> nat res" where
  "reclaimable_space sp =
     bindR (iter_cells sp) (\<lambda>cs.
       let live = sum_list (map (\<lambda>(_, cell). length cell) cs);
           used = HEADER_LEN + slot_count sp * SLOT_LEN + live
       in if used \<le> USABLE_PAGE_SIZE then Inr (USABLE_PAGE_SIZE - used) else Inl Panic)"

definition fits :: "slotted \<Rightarrow> nat \<Rightarrow> bool res" where
  "fits sp data_len =
     (if has_room_for sp data_len then Inr True
      else bindR (reclaimable_space sp) (\<lambda>r. Inr (r \<ge> SLOT_LEN + data_len)))"

subsection \<open>Compaction\<close>

text \<open>\<open>windows(2).all(...)\<close>: each cell, sorted by falling offset, ends before the one above.\<close>

fun apart :: "(nat \<times> nat \<times> nat) list \<Rightarrow> bool" where
  "apart ((o1, l1, s1) # (o2, l2, s2) # rest) \<longleftrightarrow> o2 + l2 \<le> o1 \<and> apart ((o2, l2, s2) # rest)"
| "apart _ \<longleftrightarrow> True"

text \<open>The loop that moves each cell up against the one above; \<open>end\<close> is where that one starts.\<close>

fun move_up :: "(nat \<times> nat \<times> nat) list \<Rightarrow> slotted \<Rightarrow> nat \<Rightarrow> (slotted \<times> nat) res" where
  "move_up [] sp e = Inr (sp, e)"
| "move_up ((offset, len, slot) # live) sp e =
     (if e < len then Inl Panic
      else let to = e - len in
        bindR (copy_within sp offset (offset + len) to) (\<lambda>sp.
        bindR (write_slot sp slot to len) (\<lambda>sp. move_up live sp to)))"

definition live_slots :: "slotted \<Rightarrow> (nat \<times> nat \<times> nat) list res" where
  "live_slots sp =
     bindR (mapR (\<lambda>slot. bindR (read_slot sp slot) (\<lambda>(offset, length). Inr (offset, length, slot)))
              [0..<slot_count sp])
       (\<lambda>slots. Inr (filter (\<lambda>(_, length, _). length \<noteq> 0) slots))"

text \<open>
  \<open>sort_unstable_by_key\<close> leaves the order of equal offsets open; the model takes the stable
  one. Two live cells at one offset share bytes, so on a page that keeps \<open>page_inv\<close> there is
  one order only.
\<close>

definition compact_keeping :: "slotted \<Rightarrow> nat \<Rightarrow> slotted res" where
  "compact_keeping sp min_slots =
     bindR (live_slots sp) (\<lambda>live.
     let count = max (fold (\<lambda>(_, _, slot) m. max m (slot + 1)) live 0) min_slots;
         live = sort_key (\<lambda>(offset, _, _). - int offset) live
     in bindR (set_slot_count sp count) (\<lambda>sp.
        bindR
          (if apart live then
             bindR (move_up live sp USABLE_PAGE_SIZE) (\<lambda>(sp, e). set_data_start sp e)
           else
             bindR (mapR (\<lambda>(_, _, slot). bindR (get_cell sp slot) (\<lambda>c.
                 case c of None \<Rightarrow> Inl Panic | Some cell \<Rightarrow> Inr (slot, cell))) live) (\<lambda>cells.
             bindR (set_data_start sp USABLE_PAGE_SIZE) (\<lambda>sp.
             foldR (\<lambda>(slot, cell) sp. place_cell sp slot cell) cells sp)))
          (\<lambda>sp. fill_zero sp (HEADER_LEN + count * SLOT_LEN) (data_start sp))))"

definition compact :: "slotted \<Rightarrow> slotted res" where
  "compact sp = compact_keeping sp 0"

subsection \<open>Changing cells\<close>

definition insert_cell :: "slotted \<Rightarrow> bytes \<Rightarrow> (slotted \<times> nat option) res" where
  "insert_cell sp data =
     (if free_space sp < SLOT_LEN + length data then Inr (sp, None)
      else let slot = slot_count sp in
        bindR (set_slot_count sp (slot + 1)) (\<lambda>sp.
        bindR (place_cell sp slot data) (\<lambda>sp. Inr (sp, Some slot))))"

definition insert_cell_at :: "slotted \<Rightarrow> nat \<Rightarrow> bytes \<Rightarrow> (slotted \<times> bool) res" where
  "insert_cell_at sp slot data =
     (if \<not> slot \<le> slot_count sp then Inl Panic
      else bindR (fits sp (length data)) (\<lambda>f.
        if \<not> f then Inr (sp, False)
        else bindR (if \<not> has_room_for sp (length data) then compact_keeping sp (slot_count sp)
                    else Inr sp) (\<lambda>sp.
          let count = slot_count sp; from = slot_offset slot in
          bindR (copy_within sp from (slot_offset count) (from + SLOT_LEN)) (\<lambda>sp.
          bindR (set_slot_count sp (count + 1)) (\<lambda>sp.
          bindR (place_cell sp slot data) (\<lambda>sp. Inr (sp, True)))))))"

definition remove_cell_at :: "slotted \<Rightarrow> nat \<Rightarrow> slotted res" where
  "remove_cell_at sp slot =
     (let count = slot_count sp in
      if \<not> slot < count then Inl Panic
      else bindR (read_slot sp slot) (\<lambda>(offset, length).
        bindR (if offset + length < 65536 then fill_zero sp offset (offset + length)
               else Inl Panic) (\<lambda>sp.
        let from = slot_offset (slot + 1) in
        bindR (copy_within sp from (slot_offset count) (from - SLOT_LEN)) (\<lambda>sp.
        bindR (fill_zero sp (slot_offset (count - 1)) (slot_offset count)) (\<lambda>sp.
        set_slot_count sp (count - 1))))))"

definition delete_cell :: "slotted \<Rightarrow> nat \<Rightarrow> slotted res" where
  "delete_cell sp slot = write_slot sp slot 0 0"

definition lengths :: "slotted \<Rightarrow> nat list res" where
  "lengths sp = mapR (\<lambda>s. bindR (read_slot sp s) (\<lambda>(_, length). Inr length)) [0..<slot_count sp]"

definition fits_reusing_slot :: "slotted \<Rightarrow> nat \<Rightarrow> bool res" where
  "fits_reusing_slot sp data_len =
     bindR (lengths sp) (\<lambda>ls.
       if 0 \<in> set ls then bindR (reclaimable_space sp) (\<lambda>r. Inr (r \<ge> data_len))
       else fits sp data_len)"

fun find_zero :: "nat list \<Rightarrow> nat \<Rightarrow> nat option" where
  "find_zero [] i = None"
| "find_zero (l # ls) i = (if l = 0 then Some i else find_zero ls (i + 1))"

definition insert_cell_reusing_slot :: "slotted \<Rightarrow> bytes \<Rightarrow> (slotted \<times> nat option) res" where
  "insert_cell_reusing_slot sp data =
     bindR (lengths sp) (\<lambda>ls.
       case find_zero ls 0 of
         None \<Rightarrow>
           bindR (if has_room_for sp (length data) then Inr False
                  else bindR (reclaimable_space sp) (\<lambda>r. Inr (r \<ge> SLOT_LEN + length data))) (\<lambda>c.
           bindR (if c then compact sp else Inr sp) (\<lambda>sp. insert_cell sp data))
       | Some slot \<Rightarrow>
           bindR (reclaimable_space sp) (\<lambda>r.
           if r < length data then Inr (sp, None)
           else bindR (if free_space sp < length data then compact_keeping sp (slot + 1) else Inr sp)
             (\<lambda>sp. bindR (place_cell sp slot data) (\<lambda>sp. Inr (sp, Some slot)))))"

definition shift_slot :: "nat \<Rightarrow> nat \<Rightarrow> nat \<Rightarrow> nat \<Rightarrow> slotted \<Rightarrow> slotted res" where
  "shift_slot start offset grown other sp =
     bindR (read_slot sp other) (\<lambda>(at, length).
       if length \<noteq> 0 \<and> start \<le> at \<and> at < offset
       then (if at < grown then Inl Panic else write_slot sp other (at - grown) length)
       else Inr sp)"

definition grow_cell :: "slotted \<Rightarrow> nat \<Rightarrow> nat \<Rightarrow> bytes \<Rightarrow> nat \<Rightarrow> slotted res" where
  "grow_cell sp slot offset data grown =
     (let start = data_start sp in
      if start < grown then Inl Panic
      else bindR (copy_within sp start offset (start - grown)) (\<lambda>sp.
        bindR (foldR (shift_slot start offset grown) [0..<slot_count sp] sp) (\<lambda>sp.
        if offset < grown then Inl Panic
        else let to = offset - grown in
          bindR (write_at sp to data) (\<lambda>sp.
          bindR (set_data_start sp (start - grown)) (\<lambda>sp.
          write_slot sp slot to (length data))))))"

definition update_cell :: "slotted \<Rightarrow> nat \<Rightarrow> bytes \<Rightarrow> (slotted \<times> bool) res" where
  "update_cell sp slot data =
     bindR (read_slot sp slot) (\<lambda>(offset, len).
       if \<not> (slot < slot_count sp \<and> len \<noteq> 0) then Inl Panic
       else if length data \<le> len then
         bindR (write_at sp offset data) (\<lambda>sp.
         bindR (write_slot sp slot offset (length data)) (\<lambda>sp. Inr (sp, True)))
       else let grown = length data - len in
         if free_space sp \<ge> grown then
           bindR (grow_cell sp slot offset data grown) (\<lambda>sp. Inr (sp, True))
         else bindR (reclaimable_space sp) (\<lambda>r.
           if r + len < length data then Inr (sp, False)
           else bindR (delete_cell sp slot) (\<lambda>sp.
             bindR (if free_space sp < length data then compact_keeping sp (slot + 1) else Inr sp)
               (\<lambda>sp. bindR (place_cell sp slot data) (\<lambda>sp. Inr (sp, True))))))"

text \<open>\<open>overlapping_cells\<close>: the first neighbours, sorted by offset, that share bytes.\<close>

fun first_overlap :: "(nat \<times> nat \<times> nat) list \<Rightarrow> (nat \<times> nat) option" where
  "first_overlap ((offset, len, slot) # (nxt, len', other) # rest) =
     (if offset + len > nxt then Some (min slot other, max slot other)
      else first_overlap ((nxt, len', other) # rest))"
| "first_overlap _ = None"

definition overlapping_cells :: "slotted \<Rightarrow> (nat \<times> nat) option res" where
  "overlapping_cells sp =
     bindR (live_slots sp) (\<lambda>live.
       Inr (first_overlap (sort_key (\<lambda>(offset, len, slot). [offset, len, slot]) live)))"

subsection \<open>Reading a page's header, directory and cells\<close>

lemmas page_consts = USABLE_PAGE_SIZE_def PAGE_SIZE_def CHECKSUM_LEN_def HEADER_LEN_def SLOT_LEN_def

definition hdr :: "bytes \<Rightarrow> bytes" where "hdr b = slice b 0 9"
definition cnt :: "bytes \<Rightarrow> nat" where "cnt b = u_at 2 b 9"
definition ds :: "bytes \<Rightarrow> nat" where "ds b = u_at 2 b 11"
definition off :: "bytes \<Rightarrow> nat \<Rightarrow> nat" where "off b i = u_at 2 b (slot_offset i)"
definition len :: "bytes \<Rightarrow> nat \<Rightarrow> nat" where "len b i = u_at 2 b (slot_offset i + 2)"

definition cell :: "bytes \<Rightarrow> nat \<Rightarrow> bytes option" where
  "cell b i = (if len b i = 0 then None else Some (slice b (off b i) (len b i)))"

definition cells :: "bytes \<Rightarrow> bytes option list" where
  "cells b = map (cell b) [0..<cnt b]"

text \<open>A cell of no bytes is a tombstone.\<close>

definition cell_of :: "bytes \<Rightarrow> bytes option" where
  "cell_of data = (if data = [] then None else Some data)"

definition wslot :: "bytes \<Rightarrow> nat \<Rightarrow> nat \<Rightarrow> nat \<Rightarrow> bytes" where
  "wslot b i p l = put b (slot_offset i) (le_bytes 2 p @ le_bytes 2 l)"

definition wcnt :: "bytes \<Rightarrow> nat \<Rightarrow> bytes" where "wcnt b n = put b 9 (le_bytes 2 n)"
definition wds :: "bytes \<Rightarrow> nat \<Rightarrow> bytes" where "wds b v = put b 11 (le_bytes 2 v)"

lemma slot_offset_eq: "slot_offset i = 13 + 4 * i"
  by (simp add: slot_offset_def page_consts)

lemma u16_lt: "cnt b < 65536" "ds b < 65536" "off b i < 65536" "len b i < 65536"
  using u_at_lt [of 2] by (auto simp: cnt_def ds_def off_def len_def)

lemmas field_defs = hdr_def cnt_def ds_def off_def len_def wslot_def wcnt_def wds_def slot_offset_eq

lemma u16_put_slot:
  assumes "i + 4 \<le> length b"
  shows "p < 65536 \<Longrightarrow> u_at 2 (put b i (le_bytes 2 p @ le_bytes 2 l)) i = p"
    and "l < 65536 \<Longrightarrow> u_at 2 (put b i (le_bytes 2 p @ le_bytes 2 l)) (i + 2) = l"
  using assms by (simp_all add: u_at_def slice_put_inside slice_append_2)

lemma wslot_fields [buf_simps]:
  assumes "slot_offset i + 4 \<le> length b"
  shows "length (wslot b i p l) = length b" "hdr (wslot b i p l) = hdr b"
    "cnt (wslot b i p l) = cnt b" "ds (wslot b i p l) = ds b"
    "p < 65536 \<Longrightarrow> off (wslot b i p l) j = (if j = i then p else off b j)"
    "l < 65536 \<Longrightarrow> len (wslot b i p l) j = (if j = i then l else len b j)"
    "slot_offset i + 4 \<le> k \<Longrightarrow> slice (wslot b i p l) k n = slice b k n"
proof -
  show "off (wslot b i p l) j = (if j = i then p else off b j)" if "p < 65536"
    using assms that by (cases i j rule: linorder_cases) (auto simp: field_defs u16_put_slot buf_simps)
  show "len (wslot b i p l) j = (if j = i then l else len b j)" if "l < 65536"
    using assms that u16_put_slot(2) [of "slot_offset i" b l p]
    by (cases i j rule: linorder_cases) (auto simp: field_defs buf_simps)
qed (use assms in \<open>simp_all add: field_defs buf_simps\<close>)

lemma wcnt_fields [buf_simps]:
  assumes "13 \<le> length b" and "n < 65536"
  shows "length (wcnt b n) = length b" "hdr (wcnt b n) = hdr b" "cnt (wcnt b n) = n"
    "ds (wcnt b n) = ds b" "off (wcnt b n) j = off b j" "len (wcnt b n) j = len b j"
    "13 \<le> k \<Longrightarrow> slice (wcnt b n) k m = slice b k m"
  using assms by (simp_all add: field_defs buf_simps)

lemma wds_fields [buf_simps]:
  assumes "13 \<le> length b" and "n < 65536"
  shows "length (wds b n) = length b" "hdr (wds b n) = hdr b" "cnt (wds b n) = cnt b"
    "ds (wds b n) = n" "off (wds b n) j = off b j" "len (wds b n) j = len b j"
    "13 \<le> k \<Longrightarrow> slice (wds b n) k m = slice b k m"
  using assms by (simp_all add: field_defs buf_simps)

text \<open>A write above the directory leaves the header and the slots before it alone.\<close>

lemma put_fields [buf_simps]:
  assumes "i + length xs \<le> length b" and "13 \<le> i"
  shows "hdr (put b i xs) = hdr b" "cnt (put b i xs) = cnt b" "ds (put b i xs) = ds b"
    "slot_offset j + 4 \<le> i \<Longrightarrow> off (put b i xs) j = off b j"
    "slot_offset j + 4 \<le> i \<Longrightarrow> len (put b i xs) j = len b j"
  using assms by (simp_all add: field_defs buf_simps)

lemma hdr_nth0: "hdr b = hdr b' \<Longrightarrow> 9 \<le> length b \<Longrightarrow> 9 \<le> length b' \<Longrightarrow> b ! 0 = b' ! 0"
  using nth_slice [of 0 9 b 0] nth_slice [of 0 9 b' 0] by (simp add: hdr_def)

subsection \<open>The primitive operations in terms of the fields\<close>

lemma accessors:
  "slot_count sp = cnt (raw sp)" "data_start sp = ds (raw sp)"
  "free_space sp = ds (raw sp) - slot_offset (cnt (raw sp))"
  by (simp_all add: slot_count_def data_start_def free_space_def cnt_def ds_def slot_offset_def)

abbreviation with_raw :: "slotted \<Rightarrow> bytes \<Rightarrow> slotted" where
  "with_raw sp b \<equiv> sp\<lparr>buf := page_from b\<rparr>"

lemma raw_with_raw [simp]: "page_bytes (page_from b) = b"
  by (simp add: page_from_def)

lemma write_at_Inr [simp]:
  "at + length xs \<le> length (raw sp) \<Longrightarrow> write_at sp at xs = Inr (with_raw sp (put (raw sp) at xs))"
  by (simp add: write_at_def)

lemma copy_within_Inr [simp]:
  "from \<le> to \<Longrightarrow> to \<le> length (raw sp) \<Longrightarrow> dest + (to - from) \<le> length (raw sp) \<Longrightarrow>
   copy_within sp from to dest = Inr (with_raw sp (put (raw sp) dest (slice (raw sp) from (to - from))))"
  by (simp add: copy_within_def)

lemma fill_zero_Inr [simp]:
  "from \<le> to \<Longrightarrow> to \<le> length (raw sp) \<Longrightarrow>
   fill_zero sp from to = Inr (with_raw sp (put (raw sp) from (replicate (to - from) 0)))"
  by (simp add: fill_zero_def)

lemma set_slot_count_Inr [simp]:
  "13 \<le> length (raw sp) \<Longrightarrow> set_slot_count sp n = Inr (with_raw sp (wcnt (raw sp) n))"
  by (simp add: set_slot_count_def wcnt_def)

lemma set_data_start_Inr [simp]:
  "13 \<le> length (raw sp) \<Longrightarrow> set_data_start sp n = Inr (with_raw sp (wds (raw sp) n))"
  by (simp add: set_data_start_def wds_def)

lemma read_slot_Inr [simp]:
  "slot_offset i + 4 \<le> length (raw sp) \<Longrightarrow> read_slot sp i = Inr (off (raw sp) i, len (raw sp) i)"
  by (simp add: read_slot_def Let_def off_def len_def u_at_def)

definition long_enough :: "slotted \<Rightarrow> nat \<Rightarrow> bool" where
  "long_enough sp l \<longleftrightarrow> l = 0 \<or> min_cell (raw sp ! 0) \<le> l"

lemma write_slot_Inr [simp]:
  assumes "slot_offset i + 4 \<le> length (raw sp)"
  shows "write_slot sp i p l =
    Inr ((with_raw sp (wslot (raw sp) i p l))\<lparr>valid := valid sp \<and> long_enough sp l\<rparr>)"
proof -
  have "put (put (raw sp) (slot_offset i) (le_bytes 2 p)) (slot_offset i + 2) (le_bytes 2 l)
      = wslot (raw sp) i p l"
    using assms by (simp add: wslot_def put_put_adjacent)
  moreover have "sp\<lparr>buf := page_from b, valid := valid sp\<rparr> = sp\<lparr>buf := page_from b\<rparr>" for b
    by simp
  ultimately show ?thesis
    using assms by (auto simp: write_slot_def Let_def long_enough_def)
qed

lemma write_slot_keep:
  assumes "slot_offset i + 4 \<le> length (raw sp)" and "valid sp \<Longrightarrow> long_enough sp l"
  shows "write_slot sp i p l = Inr (with_raw sp (wslot (raw sp) i p l))"
proof -
  have "(valid sp \<and> long_enough sp l) = valid sp" using assms(2) by blast
  then show ?thesis using assms(1) by simp
qed

subsection \<open>The invariant\<close>

definition in_page :: "bytes \<Rightarrow> nat \<Rightarrow> bool" where
  "in_page b i \<longleftrightarrow> len b i = 0 \<or> ds b \<le> off b i \<and> off b i + len b i \<le> USABLE_PAGE_SIZE"

definition disj :: "bytes \<Rightarrow> nat \<Rightarrow> nat \<Rightarrow> bool" where
  "disj b i j \<longleftrightarrow> len b i = 0 \<or> len b j = 0
     \<or> off b i + len b i \<le> off b j \<or> off b j + len b j \<le> off b i"

text \<open>
  The layout is right, and right for the slots in \<open>S\<close>; while a slot is being added it is not
  among them. \<open>page_inv\<close> is the case of all slots.
\<close>

definition lay :: "bytes \<Rightarrow> nat set \<Rightarrow> bool" where
  "lay b S \<longleftrightarrow> length b = USABLE_PAGE_SIZE \<and> ds b \<le> USABLE_PAGE_SIZE
     \<and> slot_offset (cnt b) \<le> ds b \<and> S \<subseteq> {..<cnt b}
     \<and> (\<forall>i \<in> S. in_page b i) \<and> (\<forall>i \<in> S. \<forall>j \<in> S. i \<noteq> j \<longrightarrow> disj b i j)"

definition slotted_type :: "bytes \<Rightarrow> bool" where
  "slotted_type b \<longleftrightarrow> (case from_u8 (b ! 0) of Inl _ \<Rightarrow> False | Inr t \<Rightarrow> is_slotted t)"

definition page_ok :: "slotted \<Rightarrow> nat set \<Rightarrow> bool" where
  "page_ok sp S \<longleftrightarrow> lay (raw sp) S
     \<and> (valid sp \<longrightarrow> slotted_type (raw sp) \<and> (\<forall>i \<in> S. long_enough sp (len (raw sp) i)))"

definition page_inv :: "slotted \<Rightarrow> bool" where
  "page_inv sp \<longleftrightarrow> page_ok sp {..<cnt (raw sp)}"

lemma layD:
  assumes "lay b S"
  shows "length b = 8188" "ds b \<le> 8188" "13 + 4 * cnt b \<le> ds b"
    "i \<in> S \<Longrightarrow> i < cnt b" "i \<in> S \<Longrightarrow> slot_offset i + 4 \<le> ds b"
    "i \<in> S \<Longrightarrow> len b i \<noteq> 0 \<Longrightarrow> ds b \<le> off b i \<and> off b i + len b i \<le> 8188"
    "i \<in> S \<Longrightarrow> j \<in> S \<Longrightarrow> i \<noteq> j \<Longrightarrow> disj b i j"
  using assms unfolding lay_def in_page_def by (auto simp: page_consts slot_offset_eq)

lemma disj_sym: "disj b i j \<longleftrightarrow> disj b j i"
  by (auto simp: disj_def)

lemma layI:
  assumes "length b = 8188" and "ds b \<le> 8188" and "slot_offset (cnt b) \<le> ds b"
    and "\<And>i. i \<in> S \<Longrightarrow> i < cnt b" and "\<And>i. i \<in> S \<Longrightarrow> in_page b i"
    and "\<And>i j. i \<in> S \<Longrightarrow> j \<in> S \<Longrightarrow> i < j \<Longrightarrow> disj b i j"
  shows "lay b S"
proof -
  have "disj b i j" if "i \<in> S" "j \<in> S" "i \<noteq> j" for i j
    using assms(6) [of i j] assms(6) [of j i] that disj_sym [of b i j] by (cases "i < j") auto
  then show ?thesis
    using assms(1-5) by (auto simp: lay_def page_consts)
qed

lemma slotted_type_hdr:
  "hdr b = hdr b' \<Longrightarrow> 9 \<le> length b \<Longrightarrow> 9 \<le> length b' \<Longrightarrow> slotted_type b = slotted_type b'"
  using hdr_nth0 [of b b'] by (simp add: slotted_type_def)

lemma long_enough_hdr:
  "hdr (raw sp) = hdr (raw sp') \<Longrightarrow> 9 \<le> length (raw sp) \<Longrightarrow> 9 \<le> length (raw sp') \<Longrightarrow>
   long_enough sp l = long_enough sp' l"
  using hdr_nth0 [of "raw sp" "raw sp'"] by (simp add: long_enough_def)

lemma page_ok_subset: "page_ok sp S \<Longrightarrow> T \<subseteq> S \<Longrightarrow> page_ok sp T"
  unfolding page_ok_def lay_def by (intro conjI) (blast+)?

text \<open>
  \<open>moved sp sp' S T f\<close>: from \<open>sp\<close>, right for \<open>S\<close>, an operation gave \<open>sp'\<close>, right for \<open>T\<close>; the
  type and the next page are kept, and slot \<open>i\<close> of \<open>T\<close> holds \<open>f i\<close>.
\<close>

definition became :: "slotted \<Rightarrow> slotted \<Rightarrow> nat set \<Rightarrow> (nat \<Rightarrow> bytes option) \<Rightarrow> bool" where
  "became sp sp' T f \<longleftrightarrow> page_ok sp' T \<and> hdr (raw sp') = hdr (raw sp)
     \<and> (\<forall>i \<in> T. cell (raw sp') i = f i)"

lemma becameD:
  assumes "became sp sp' T f"
  shows "page_ok sp' T" "hdr (raw sp') = hdr (raw sp)" "i \<in> T \<Longrightarrow> cell (raw sp') i = f i"
  using assms by (simp_all add: became_def)

lemma became_trans:
  "became sp sp' T f \<Longrightarrow> became sp' sp'' U g \<Longrightarrow> (\<And>i. i \<in> U \<Longrightarrow> g i = h i) \<Longrightarrow> became sp sp'' U h"
  by (simp add: became_def)

text \<open>What a page becomes when its fields are known and each slot keeps or gets a length that
  leaves the \<open>valid\<close> flag right.\<close>

lemma becameI:
  assumes "page_ok sp S" and "lay (raw sp') T" and "hdr (raw sp') = hdr (raw sp)"
    and "\<And>i. i \<in> T \<Longrightarrow> cell (raw sp') i = f i"
    and "\<And>i. valid sp' \<Longrightarrow> i \<in> T \<Longrightarrow> long_enough sp (len (raw sp') i)"
    and "valid sp' \<Longrightarrow> valid sp"
  shows "became sp sp' T f"
proof -
  have l: "length (raw sp) = 8188" "length (raw sp') = 8188"
    using assms(1,2) by (auto simp: page_ok_def dest: layD(1))
  then have "slotted_type (raw sp') = slotted_type (raw sp)" "long_enough sp' = long_enough sp"
    using slotted_type_hdr [OF assms(3)] long_enough_hdr [OF assms(3)] by (auto intro!: ext)
  then show ?thesis
    using assms by (simp add: became_def page_ok_def)
qed

subsection \<open>Placing a cell\<close>

text \<open>The layout after a cell went in below all others: for any buffer with these fields.\<close>

lemma lay_insert:
  assumes lay: "lay b S" and "length b' = 8188" and "cnt b' = cnt b" and "slot < cnt b"
    and d: "ds b' \<le> ds b" "slot_offset (cnt b) \<le> ds b'" "off b' slot = ds b'"
    and l: "ds b' + len b' slot = ds b"
    and same: "\<And>i. i \<in> S \<Longrightarrow> off b' i = off b i \<and> len b' i = len b i" and "slot \<notin> S"
  shows "lay b' (insert slot S)"
proof (rule layI)
  note L = layD [OF lay]
  have above: "len b i = 0 \<or> off b' slot + len b' slot \<le> off b i" if "i \<in> S" for i
    using L(6) [OF that] l d(3) by auto
  show "in_page b' i" if "i \<in> insert slot S" for i
    using that same L(2) L(6) [of i] d l by (auto simp: in_page_def page_consts)
  show "disj b' i j" if ij: "i \<in> insert slot S" "j \<in> insert slot S" "i < j" for i j
  proof -
    consider "i = slot" "j \<in> S" | "j = slot" "i \<in> S" | "i \<in> S" "j \<in> S" using ij by auto
    then show ?thesis
    proof cases
      case 1 then show ?thesis using above [of j] same [of j] by (auto simp: disj_def)
    next
      case 2 then show ?thesis using above [of i] same [of i] by (auto simp: disj_def)
    next
      case 3 then show ?thesis using L(7) [of i j] same [of i] same [of j] ij by (simp add: disj_def)
    qed
  qed
  show "ds b' \<le> 8188" using L(2) d by simp
  show "slot_offset (cnt b') \<le> ds b'" using assms by simp
  show "i < cnt b'" if "i \<in> insert slot S" for i using that L(4) assms by auto
qed (fact assms)

lemma place_cell_ok:
  assumes ok: "page_ok sp S" and slot: "slot < cnt (raw sp)" "slot \<notin> S"
    and room: "slot_offset (cnt (raw sp)) + length data \<le> ds (raw sp)"
  shows "\<exists>sp'. place_cell sp slot data = Inr sp'
    \<and> became sp sp' (insert slot S) (\<lambda>i. if i = slot then cell_of data else cell (raw sp) i)
    \<and> cnt (raw sp') = cnt (raw sp) \<and> ds (raw sp') = ds (raw sp) - length data"
proof -
  define b where "b = raw sp"
  define d where "d = ds b - length data"
  define b1 where "b1 = put b d data"
  define b2 where "b2 = wds b1 d"
  define b3 where "b3 = wslot b2 slot d (length data)"
  define sp' where "sp' = (with_raw sp b3)\<lparr>valid := valid sp \<and> long_enough (with_raw sp b2) (length data)\<rparr>"
  have lay: "lay b S" using ok by (simp add: page_ok_def b_def)
  note L = layD [OF lay]
  have room': "13 + 4 * cnt b + length data \<le> ds b" using room by (simp add: slot_offset_eq b_def)
  have d: "d + length data = ds b" "13 + 4 * cnt b \<le> d" using room' by (simp_all add: d_def)
  have small: "length data < 65536" "d < 65536" using u16_lt(2) [of b] d by linarith+
  have so: "slot_offset slot + 4 \<le> d" using slot(1) d by (simp add: slot_offset_eq b_def)
  have bnd: "d + length data \<le> length b" "13 \<le> d" using L(1-2) d by linarith+
  have l1: "length b1 = 8188" "hdr b1 = hdr b" "cnt b1 = cnt b"
    using bnd L(1) by (simp_all add: b1_def buf_simps)
  have l2: "length b2 = 8188" "hdr b2 = hdr b" "cnt b2 = cnt b" "ds b2 = d"
    using l1 small by (simp_all add: b2_def buf_simps)
  have so2: "slot_offset slot + 4 \<le> length b2" using so bnd L(1) l2 by simp
  have f: "length b3 = 8188" "hdr b3 = hdr b" "cnt b3 = cnt b" "ds b3 = d"
    "off b3 slot = d" "len b3 slot = length data"
    using so2 l2 small by (simp_all add: b3_def buf_simps)
  have run: "place_cell sp slot data = Inr sp'"
    using bnd L(1) l1 so2 d(1)
    by (simp add: place_cell_def accessors Let_def b_def [symmetric] d_def [symmetric]
        b1_def [symmetric] b2_def [symmetric] b3_def [symmetric] sp'_def)
  have g: "off b3 i = off b i \<and> len b3 i = len b i" if "i \<in> S" for i
  proof -
    have "i \<noteq> slot" "slot_offset i + 4 \<le> d"
      using that slot L(4) [OF that] d by (auto simp: slot_offset_eq)
    then have "off b2 i = off b i \<and> len b2 i = len b i"
      using bnd l1 small by (simp add: b2_def buf_simps) (simp add: b1_def buf_simps)
    then show ?thesis using so2 small \<open>i \<noteq> slot\<close> by (simp add: b3_def buf_simps)
  qed
  have sl: "slice b3 k n = slice b1 k n" if "d \<le> k" for k n
    using so2 so l1 small bnd that by (simp add: b3_def buf_simps) (simp add: b2_def buf_simps)
  have keep: "slice b3 k n = slice b k n" if "ds b \<le> k" for k n
    using sl [of k n] that bnd d by (simp add: b1_def buf_simps)
  have new: "slice b3 d (length data) = data"
    using sl [of d "length data"] bnd by (simp add: b1_def buf_simps)
  have "became sp sp' (insert slot S) (\<lambda>i. if i = slot then cell_of data else cell (raw sp) i)"
  proof (rule becameI [OF ok])
    show "cell (raw sp') i = (if i = slot then cell_of data else cell (raw sp) i)"
      if "i \<in> insert slot S" for i
      using that f(5,6) g [of i] new L(6) [of i]
      by (auto simp: cell_def cell_of_def keep sp'_def b_def [symmetric])
    show "long_enough sp (len (raw sp') i)" if v: "valid sp'" and i: "i \<in> insert slot S" for i
    proof (cases "i = slot")
      case True
      have "long_enough (with_raw sp b2) = long_enough sp"
        using l2 L(1) by (intro ext long_enough_hdr) (simp_all add: b_def)
      then show ?thesis using True v f(6) by (simp add: sp'_def)
    next
      case False
      then show ?thesis using v i ok g [of i] by (simp add: page_ok_def sp'_def b_def)
    qed
    show "lay (raw sp') (insert slot S)"
      using lay_insert [OF lay, of b3 slot] f d so slot g by (simp add: sp'_def slot_offset_eq b_def)
  qed (use f in \<open>simp_all add: sp'_def b_def\<close>)
  then show ?thesis using run f by (auto simp: sp'_def b_def d_def)
qed

subsection \<open>Reading under the invariant\<close>

lemma page_inv_lay: "page_inv sp \<Longrightarrow> lay (raw sp) {..<cnt (raw sp)}"
  by (simp add: page_inv_def page_ok_def)

lemmas page_invD = layD [OF page_inv_lay]

lemma lay_slot_bound: "lay b S \<Longrightarrow> i < cnt b \<Longrightarrow> slot_offset i + 4 \<le> length b"
  using layD(1-3) [of b S] by (simp add: slot_offset_eq)

lemma length_cells [simp]: "length (cells b) = cnt b"
  by (simp add: cells_def)

lemma nth_cells [simp]: "i < cnt b \<Longrightarrow> cells b ! i = cell b i"
  by (simp add: cells_def)

lemma cells_eqI:
  "cnt b = length cs \<Longrightarrow> (\<And>i. i < length cs \<Longrightarrow> cell b i = cs ! i) \<Longrightarrow> cells b = cs"
  by (rule nth_equalityI) simp_all

lemma get_cell_inv:
  assumes "page_inv sp"
  shows "get_cell sp i = Inr (if i < cnt (raw sp) then cell (raw sp) i else None)"
proof (cases "i < cnt (raw sp)")
  case True
  have "len (raw sp) i \<noteq> 0 \<Longrightarrow> off (raw sp) i + len (raw sp) i \<le> length (raw sp)"
    using True page_invD(6) [OF assms, of i] page_invD(1) [OF assms] by simp
  then show ?thesis
    using True lay_slot_bound [OF page_inv_lay [OF assms], of i]
    by (simp add: get_cell_def accessors cell_def)
qed (simp add: get_cell_def accessors)

definition clen :: "bytes option \<Rightarrow> nat" where
  "clen c = (case c of None \<Rightarrow> 0 | Some d \<Rightarrow> length d)"

definition live_bytes :: "bytes option list \<Rightarrow> nat" where
  "live_bytes cs = sum_list (map clen cs)"

lemma clen_cell: "page_inv sp \<Longrightarrow> i < cnt (raw sp) \<Longrightarrow> clen (cell (raw sp) i) = len (raw sp) i"
  using page_invD(1) [of sp] page_invD(6) [of sp i] by (auto simp: clen_def cell_def)

lemma map_filter_clen:
  "sum_list (map (\<lambda>(_, c). length c) (List.map_filter (\<lambda>(s, c). map_option (Pair s) c) cs))
     = sum_list (map (\<lambda>(_, c). clen c) cs)"
  by (induction cs) (auto simp: map_filter_simps clen_def split: option.splits)

lemma live_bytes_sum: "page_inv sp \<Longrightarrow> live_bytes (cells (raw sp)) = (\<Sum>i<cnt (raw sp). len (raw sp) i)"
  by (simp add: live_bytes_def cells_def o_def interv_sum_list_conv_sum_set_nat atLeast0LessThan clen_cell)

text \<open>Cells that share no bytes and lie above \<open>data_start\<close> fit above it together.\<close>

lemma live_bytes_le:
  assumes "page_inv sp" shows "live_bytes (cells (raw sp)) + ds (raw sp) \<le> 8188"
proof -
  let ?b = "raw sp" let ?A = "\<lambda>i. {off ?b i..<off ?b i + len ?b i}"
  have "?A i \<inter> ?A j = {}" if "i < cnt ?b" "j < cnt ?b" "i \<noteq> j" for i j
    using page_invD(7) [OF assms, of i j] that by (auto simp: disj_def)
  then have "(\<Sum>i<cnt ?b. card (?A i)) = card (\<Union>i<cnt ?b. ?A i)"
    by (subst card_UN_disjoint) auto
  also have "\<dots> \<le> card {ds ?b..<8188}"
  proof (rule card_mono)
    show "(\<Union>i<cnt ?b. ?A i) \<subseteq> {ds ?b..<8188}"
    proof (rule UN_least)
      fix i assume "i \<in> {..<cnt ?b}"
      then show "?A i \<subseteq> {ds ?b..<8188}"
        using page_invD(6) [OF assms, of i] by (cases "len ?b i = 0") auto
    qed
  qed simp
  finally show ?thesis using page_invD(2) [OF assms] by (simp add: live_bytes_sum [OF assms])
qed

definition reclaimable :: "bytes \<Rightarrow> nat" where
  "reclaimable b = 8188 - (13 + 4 * cnt b + live_bytes (cells b))"

lemma reclaimable_space_inv:
  assumes "page_inv sp"
  shows "reclaimable_space sp = Inr (reclaimable (raw sp))"
    and "13 + 4 * cnt (raw sp) + live_bytes (cells (raw sp)) \<le> 8188"
proof -
  show le: "13 + 4 * cnt (raw sp) + live_bytes (cells (raw sp)) \<le> 8188"
    using live_bytes_le [OF assms] page_invD(3) [OF assms] by linarith
  have "mapR (\<lambda>slot. bindR (get_cell sp slot) (\<lambda>c. Inr (slot, c))) [0..<cnt (raw sp)]
      = Inr (map (\<lambda>slot. (slot, cell (raw sp) slot)) [0..<cnt (raw sp)])"
    by (rule mapR_Inr) (simp add: get_cell_inv [OF assms])
  then show "reclaimable_space sp = Inr (reclaimable (raw sp))"
    using le
    by (simp add: reclaimable_space_def iter_cells_def accessors map_filter_clen page_consts
        reclaimable_def live_bytes_def cells_def o_def Let_def)
qed

lemma fits_inv:
  "page_inv sp \<Longrightarrow> fits sp n =
     Inr (4 + n \<le> ds (raw sp) - slot_offset (cnt (raw sp)) \<or> 4 + n \<le> reclaimable (raw sp))"
  by (simp add: fits_def has_room_for_def accessors reclaimable_space_inv SLOT_LEN_def)

text \<open>What is free now would be free after a compaction.\<close>

lemma free_le_reclaimable:
  "page_inv sp \<Longrightarrow> ds (raw sp) - slot_offset (cnt (raw sp)) \<le> reclaimable (raw sp)"
  using live_bytes_le [of sp] by (simp add: reclaimable_def slot_offset_eq)

subsection \<open>Appending a cell\<close>

lemma wcnt_became:
  assumes "page_ok sp S" and "slot_offset n \<le> ds (raw sp)" and "S \<subseteq> {..<n}"
  shows "became sp (with_raw sp (wcnt (raw sp) n)) S (cell (raw sp))"
proof (rule becameI [OF assms(1)])
  have lay: "lay (raw sp) S" using assms(1) by (simp add: page_ok_def)
  note L = layD [OF lay]
  have n: "n < 65536" using assms(2) L(2) by (simp add: slot_offset_eq)
  note f = wcnt_fields [of "raw sp" n]
  show "lay (raw (with_raw sp (wcnt (raw sp) n))) S"
    using lay assms(2,3) L(1) n by (auto simp: lay_def in_page_def disj_def f)
  show "cell (raw (with_raw sp (wcnt (raw sp) n))) i = cell (raw sp) i" if "i \<in> S" for i
    using L(1,3) L(6) [OF that] n by (auto simp: cell_def f)
  show "long_enough sp (len (raw (with_raw sp (wcnt (raw sp) n))) i)"
    if "valid (with_raw sp (wcnt (raw sp) n))" "i \<in> S" for i
    using assms(1) that L(1) n by (simp add: page_ok_def f)
  show "hdr (raw (with_raw sp (wcnt (raw sp) n))) = hdr (raw sp)"
    using L(1) n by (simp add: f)
qed simp

lemma became_page_inv: "became sp sp' {..<cnt (raw sp')} f \<Longrightarrow> page_inv sp'"
  by (simp add: became_def page_inv_def)

lemma insert_cell_ok:
  assumes inv: "page_inv sp" and room: "slot_offset (cnt (raw sp)) + 4 + length data \<le> ds (raw sp)"
  shows "\<exists>sp'. insert_cell sp data = Inr (sp', Some (cnt (raw sp)))
    \<and> page_inv sp' \<and> hdr (raw sp') = hdr (raw sp)
    \<and> cells (raw sp') = cells (raw sp) @ [cell_of data]"
proof -
  let ?n = "cnt (raw sp)" and ?sp = "with_raw sp (wcnt (raw sp) (cnt (raw sp) + 1))"
  have n: "?n + 1 < 65536" using page_invD(2,3) [OF inv] by linarith
  have f: "cnt (raw ?sp) = ?n + 1" "ds (raw ?sp) = ds (raw sp)"
    using n page_invD(1) [OF inv] wcnt_fields [of "raw sp" "?n + 1"] by simp_all
  have b: "became sp ?sp {..<?n} (cell (raw sp))"
    using inv room by (intro wcnt_became) (auto simp: page_inv_def slot_offset_eq)
  then obtain sp' where sp': "place_cell ?sp ?n data = Inr sp'"
    "became ?sp sp' (insert ?n {..<?n}) (\<lambda>i. if i = ?n then cell_of data else cell (raw ?sp) i)"
    "cnt (raw sp') = ?n + 1"
    using place_cell_ok [of ?sp "{..<?n}" ?n data] room f
    by (auto simp: became_def slot_offset_eq)
  have "became sp sp' {..<?n + 1} (\<lambda>i. if i = ?n then cell_of data else cell (raw sp) i)"
    using b sp'(2) by (intro became_trans [OF b]) (auto simp: became_def lessThan_Suc)
  then have "page_inv sp'" "hdr (raw sp') = hdr (raw sp)" "cells (raw sp') = cells (raw sp) @ [cell_of data]"
    using sp'(3) by (auto simp: became_def page_inv_def nth_append intro!: cells_eqI)
  moreover have "insert_cell sp data = Inr (sp', Some ?n)"
    using sp'(1) room page_invD(1) [OF inv]
    by (simp add: insert_cell_def accessors SLOT_LEN_def Let_def)
  ultimately show ?thesis by blast
qed

subsection \<open>Compacting a page\<close>

lemma apart_all: "apart ((o1, l1, s1) # rest) \<Longrightarrow> (o2, l2, s2) \<in> set rest \<Longrightarrow> o2 + l2 \<le> o1"
proof (induction rest arbitrary: o1 l1 s1)
  case (Cons x rest)
  obtain o' l' s' where x: "x = (o', l', s')" by (cases x) auto
  then have "o' + l' \<le> o1" "apart ((o', l', s') # rest)" using Cons.prems(1) by simp_all
  then show ?case
    using Cons.IH [of o' l' s'] Cons.prems(2) x by (auto intro: order_trans)
qed simp

lemma apart_tl: "apart (x # rest) \<Longrightarrow> apart rest"
  by (cases x; cases rest) auto

text \<open>
  \<open>can_move b N lo live e\<close>: the live cells, highest first, lie apart between \<open>lo\<close> (above the
  directory of \<open>N\<close> slots) and \<open>e\<close>, and their slots say where.
\<close>

definition can_move :: "bytes \<Rightarrow> nat \<Rightarrow> nat \<Rightarrow> (nat \<times> nat \<times> nat) list \<Rightarrow> nat \<Rightarrow> bool" where
  "can_move b N lo live e \<longleftrightarrow> length b = 8188 \<and> 13 + 4 * N \<le> lo \<and> lo \<le> e \<and> e \<le> 8188
     \<and> apart live \<and> distinct (map (\<lambda>(_, _, s). s) live)
     \<and> (\<forall>(p, l, s) \<in> set live. s < N \<and> off b s = p \<and> len b s = l \<and> l \<noteq> 0 \<and> lo \<le> p \<and> p + l \<le> e)"

definition moved_to :: "bytes \<Rightarrow> bytes \<Rightarrow> nat \<Rightarrow> nat \<Rightarrow> (nat \<times> nat \<times> nat) list \<Rightarrow> bool" where
  "moved_to b b' lo e live \<longleftrightarrow>
     (\<forall>(p, l, s) \<in> set live. len b' s = l \<and> lo \<le> off b' s \<and> off b' s + l \<le> e
        \<and> slice b' (off b' s) l = slice b p l)
     \<and> (\<forall>(p, l, s) \<in> set live. \<forall>(p', l', s') \<in> set live. s \<noteq> s' \<longrightarrow> disj b' s s')"

lemma move_up_step:
  assumes can: "can_move b N lo ((p, l, s) # live) e"
  defines "b2 \<equiv> wslot (put b (e - l) (slice b p l)) s (e - l) l"
  shows "length b2 = 8188" "hdr b2 = hdr b" "cnt b2 = cnt b" "ds b2 = ds b"
    "off b2 s = e - l" "len b2 s = l" "l \<le> e" "slice b2 (e - l) l = slice b p l"
    "i < N \<Longrightarrow> i \<noteq> s \<Longrightarrow> off b2 i = off b i \<and> len b2 i = len b i"
    "e \<le> k \<Longrightarrow> slice b2 k n = slice b k n"
    "13 + 4 * N \<le> k \<Longrightarrow> k + n \<le> p \<Longrightarrow> slice b2 k n = slice b k n"
    "can_move b2 N lo live (e - l)" "p \<le> e - l" "p + l \<le> 8188" "slot_offset s + 4 \<le> 8188"
proof -
  have c: "length b = 8188" "13 + 4 * N \<le> lo" "lo \<le> p" "e \<le> 8188" "p + l \<le> e" "s < N" "lo \<le> e"
    using can by (auto simp: can_move_def)
  let ?b1 = "put b (e - l) (slice b p l)"
  have e: "e - l + l = e" using c by simp
  have l1: "length (slice b p l) = l" "length ?b1 = 8188" using c by simp_all
  have so: "slot_offset s + 4 \<le> 13 + 4 * N" using c by (simp add: slot_offset_eq)
  have so1: "slot_offset s + 4 \<le> length ?b1" using so c l1 by simp
  have small: "e - l < 65536" "l < 65536" using c by simp_all
  have low: "13 + 4 * N \<le> e - l" using c by simp
  note w = wslot_fields [OF so1]
  note q = put_fields [of "e - l" "slice b p l" b]
  show "length b2 = 8188" "off b2 s = e - l" "len b2 s = l"
    unfolding b2_def using l1 small by (simp_all add: w)
  show "l \<le> e" "p \<le> e - l" "p + l \<le> 8188" "slot_offset s + 4 \<le> 8188"
    using c so by linarith+
  show "hdr b2 = hdr b" "cnt b2 = cnt b" "ds b2 = ds b"
    unfolding b2_def using q l1 c low by (simp_all add: w)
  show "slice b2 (e - l) l = slice b p l"
    unfolding b2_def using so low l1 c by (simp add: w(7))
  show keep: "off b2 i = off b i \<and> len b2 i = len b i" if "i < N" "i \<noteq> s" for i
  proof -
    have "slot_offset i + 4 \<le> e - l" using that low by (simp add: slot_offset_eq)
    then show ?thesis unfolding b2_def using small that q l1 c low by (simp add: w(5,6))
  qed
  show "slice b2 k n = slice b k n" if "e \<le> k" for k n
    unfolding b2_def using so that l1 c by (simp add: w(7) slice_put_after)
  show "slice b2 k n = slice b k n" if "13 + 4 * N \<le> k" "k + n \<le> p" for k n
    unfolding b2_def using so that l1 c by (simp add: w(7) slice_put_before)
  have "length b2 = 8188" unfolding b2_def using l1 by (simp add: w)
  moreover have "apart live" using can apart_tl by (auto simp: can_move_def)
  moreover have "s' < N \<and> off b2 s' = p' \<and> len b2 s' = l' \<and> l' \<noteq> 0 \<and> lo \<le> p' \<and> p' + l' \<le> e - l"
    if m: "(p', l', s') \<in> set live" for p' l' s'
  proof -
    have m': "s' < N" "off b s' = p'" "len b s' = l'" "l' \<noteq> 0" "lo \<le> p'"
      using can m by (auto simp: can_move_def)
    have "s' \<noteq> s" using can m by (force simp: can_move_def)
    moreover have "p' + l' \<le> p"
      using apart_all [of p l s live p' l' s'] can m by (simp add: can_move_def)
    ultimately show ?thesis using m' keep [of s'] c by simp
  qed
  ultimately show "can_move b2 N lo live (e - l)"
    using can c by (auto simp: can_move_def)
qed

lemma move_up_ok:
  assumes "can_move (raw sp) N lo live e"
    and "\<And>p l s. (p, l, s) \<in> set live \<Longrightarrow> valid sp \<Longrightarrow> long_enough sp l"
  shows "\<exists>sp' e'. move_up live sp e = Inr (sp', e') \<and> e' + sum_list (map (\<lambda>(_, l, _). l) live) = e
    \<and> lo \<le> e' \<and> length (raw sp') = 8188 \<and> hdr (raw sp') = hdr (raw sp)
    \<and> cnt (raw sp') = cnt (raw sp) \<and> ds (raw sp') = ds (raw sp) \<and> valid sp' = valid sp
    \<and> (\<forall>i<N. i \<notin> (\<lambda>(_, _, s). s) ` set live \<longrightarrow>
         off (raw sp') i = off (raw sp) i \<and> len (raw sp') i = len (raw sp) i)
    \<and> moved_to (raw sp) (raw sp') e' e live
    \<and> (\<forall>k n. e \<le> k \<longrightarrow> slice (raw sp') k n = slice (raw sp) k n)"
  using assms
proof (induction live arbitrary: sp e)
  case Nil
  then show ?case by (auto simp: can_move_def moved_to_def)
next
  case (Cons x live)
  obtain p l s where x: "x = (p, l, s)" by (cases x) auto
  note can = Cons.prems(1) [unfolded x]
  define b2 where "b2 = wslot (put (raw sp) (e - l) (slice (raw sp) p l)) s (e - l) l"
  note st = move_up_step [OF can, folded b2_def]
  have len: "length (raw sp) = 8188" using can by (simp add: can_move_def)
  define sp1 where "sp1 = with_raw sp (put (raw sp) (e - l) (slice (raw sp) p l))"
  define sp2 where "sp2 = with_raw sp b2"
  have e: "e \<le> 8188" using can by (simp add: can_move_def)
  have l1: "length (raw sp1) = 8188" "hdr (raw sp1) = hdr (raw sp)"
    using len st(7,13,14) e can by (simp_all add: sp1_def put_fields can_move_def)
  have "long_enough sp1 l = long_enough sp l"
    using l1 len by (intro long_enough_hdr) simp_all
  then have "write_slot sp1 s (e - l) l = Inr sp2"
    using Cons.prems(2) [of p l s] x l1 st(15)
    by (subst write_slot_keep) (simp_all add: sp1_def sp2_def b2_def)
  moreover have "copy_within sp p (p + l) (e - l) = Inr sp1"
    using st(7,14) len e by (simp add: sp1_def)
  ultimately have run: "move_up (x # live) sp e = move_up live sp2 (e - l)"
    using st(7) by (simp add: x Let_def)
  have raw2: "raw sp2 = b2" "valid sp2 = valid sp" by (simp_all add: sp2_def)
  have long: "long_enough sp2 = long_enough sp"
    using st(1,2) len raw2 by (intro ext long_enough_hdr) simp_all
  have "can_move (raw sp2) N lo live (e - l)" using st(12) raw2 by simp
  moreover have "long_enough sp2 l'" if "(p', l', s') \<in> set live" "valid sp2" for p' l' s'
    using Cons.prems(2) [of p' l' s'] that raw2 long by simp
  ultimately obtain sp' e' where IH: "move_up live sp2 (e - l) = Inr (sp', e')"
    "e' + sum_list (map (\<lambda>(_, l, _). l) live) = e - l" "lo \<le> e'" "length (raw sp') = 8188"
    "hdr (raw sp') = hdr b2" "cnt (raw sp') = cnt b2" "ds (raw sp') = ds b2" "valid sp' = valid sp"
    "\<And>i. i < N \<Longrightarrow> i \<notin> (\<lambda>(_, _, s). s) ` set live \<Longrightarrow>
         off (raw sp') i = off b2 i \<and> len (raw sp') i = len b2 i"
    "moved_to b2 (raw sp') e' (e - l) live"
    "\<And>k n. e - l \<le> k \<Longrightarrow> slice (raw sp') k n = slice b2 k n"
    using Cons.IH [of sp2 "e - l"] raw2 by auto
  have s: "s < N" "s \<notin> (\<lambda>(_, _, s). s) ` set live" using can by (auto simp: can_move_def)
  have at: "off (raw sp') s = e - l" "len (raw sp') s = l" using IH(9) [OF s] st(5,6) by simp_all
  have e': "e' \<le> e - l" using IH(2) by linarith
  have new: "slice (raw sp') (e - l) l = slice (raw sp) p l"
    using IH(11) [of "e - l" l] st(8) by simp
  have low: "len (raw sp') s' = l' \<and> e' \<le> off (raw sp') s' \<and> off (raw sp') s' + l' \<le> e - l
      \<and> slice (raw sp') (off (raw sp') s') l' = slice (raw sp) p' l'"
    if m: "(p', l', s') \<in> set live" for p' l' s'
  proof -
    have "slice b2 p' l' = slice (raw sp) p' l'"
      using apart_all [of p l s live p' l' s'] can m st(11) [of p' l'] by (auto simp: can_move_def)
    then show ?thesis using IH(10) m by (auto simp: moved_to_def)
  qed
  have "disj (raw sp') s1 s2"
    if ss: "(p1, l1, s1) \<in> set (x # live)" "(p2, l2, s2) \<in> set (x # live)" "s1 \<noteq> s2" for p1 l1 s1 p2 l2 s2
  proof -
    consider "s1 = s" "(p2, l2, s2) \<in> set live" | "s2 = s" "(p1, l1, s1) \<in> set live"
      | "(p1, l1, s1) \<in> set live" "(p2, l2, s2) \<in> set live"
      using ss x by auto
    then show ?thesis
    proof cases
      case 1 then show ?thesis using low [of p2 l2 s2] at by (simp add: disj_def)
    next
      case 2 then show ?thesis using low [of p1 l1 s1] at by (simp add: disj_def)
    next
      case 3
      then have "\<forall>(p', l', s') \<in> set live. s1 \<noteq> s' \<longrightarrow> disj (raw sp') s1 s'"
        using IH(10) by (auto simp: moved_to_def)
      then show ?thesis using 3 ss(3) by auto
    qed
  qed
  moreover have "len (raw sp') s1 = l1 \<and> e' \<le> off (raw sp') s1 \<and> off (raw sp') s1 + l1 \<le> e
      \<and> slice (raw sp') (off (raw sp') s1) l1 = slice (raw sp) p1 l1"
    if "(p1, l1, s1) \<in> set (x # live)" for p1 l1 s1
    using that low [of p1 l1 s1] at new e' st(7) x by auto
  ultimately have "moved_to (raw sp) (raw sp') e' e (x # live)"
    unfolding moved_to_def by (intro conjI ballI; clarify; blast)
  then show ?case
    using run IH st e' s
    by (intro exI [of _ sp'] exI [of _ e']) (auto simp: x)
qed

text \<open>The live slots of a page, as \<open>compact_keeping\<close> collects and sorts them.\<close>

definition lives :: "bytes \<Rightarrow> (nat \<times> nat \<times> nat) list" where
  "lives b = filter (\<lambda>(_, l, _). l \<noteq> 0) (map (\<lambda>i. (off b i, len b i, i)) [0..<cnt b])"

abbreviation by_offset :: "(nat \<times> nat \<times> nat) list \<Rightarrow> (nat \<times> nat \<times> nat) list" where
  "by_offset xs \<equiv> sort_key (\<lambda>(p, _, _). - int p) xs"

lemma set_lives: "(p, l, i) \<in> set (lives b) \<longleftrightarrow> i < cnt b \<and> p = off b i \<and> l = len b i \<and> len b i \<noteq> 0"
  by (auto simp: lives_def)

lemma live_slots_inv: "page_inv sp \<Longrightarrow> live_slots sp = Inr (lives (raw sp))"
proof -
  assume inv: "page_inv sp"
  have "mapR (\<lambda>slot. bindR (read_slot sp slot) (\<lambda>(p, l). Inr (p, l, slot))) [0..<cnt (raw sp)]
      = Inr (map (\<lambda>i. (off (raw sp) i, len (raw sp) i, i)) [0..<cnt (raw sp)])"
    using lay_slot_bound [OF page_inv_lay [OF inv]] by (intro mapR_Inr) simp
  then show ?thesis by (simp add: live_slots_def accessors lives_def)
qed

lemma distinct_lives: "distinct (map (\<lambda>(_, _, s). s) (lives b))"
proof -
  have "map (\<lambda>(_, _, s). s) (filter (\<lambda>(_, l, _). l \<noteq> 0) (map (\<lambda>i. (f i, g i, i)) is))
      = filter (\<lambda>i. g i \<noteq> 0) is" for f g :: "nat \<Rightarrow> nat" and "is"
    by (induction "is") auto
  then show ?thesis by (simp add: lives_def)
qed

lemma distinct_by_offset: "distinct (map (\<lambda>(_, _, s). s) (by_offset (lives b)))"
proof -
  have "mset (map (\<lambda>(_, _, s). s) (by_offset (lives b))) = mset (map (\<lambda>(_, _, s). s) (lives b))"
    by simp
  then show ?thesis using mset_eq_imp_distinct_iff distinct_lives by blast
qed

lemma sum_by_offset:
  "sum_list (map (\<lambda>(_, l, _). l) (by_offset xs)) = sum_list (map (\<lambda>(_, l, _). l) xs)"
proof -
  have "sum_mset (mset (map (\<lambda>(_, l, _). l) (by_offset xs))) = sum_mset (mset (map (\<lambda>(_, l, _). l) xs))"
    by simp
  then show ?thesis by (simp only: sum_mset_sum_list)
qed

lemma sum_lives: "sum_list (map (\<lambda>(_, l, _). l) (lives b)) = (\<Sum>i<cnt b. len b i)"
proof -
  have "sum_list (map (\<lambda>(_, l, _). l) (filter (\<lambda>(_, l, _). l \<noteq> 0) (map (\<lambda>i. (f i, g i, i)) is)))
      = sum_list (map g is)" for f g :: "nat \<Rightarrow> nat" and "is"
    by (induction "is") auto
  then show ?thesis
    by (simp add: lives_def interv_sum_list_conv_sum_set_nat atLeast0LessThan)
qed

lemma apart_sorted:
  assumes "sorted (map (\<lambda>(p, _, _). - int p) xs)" and "distinct (map (\<lambda>(_, _, s). s) xs)"
    and "\<And>p l s p' l' s'. (p, l, s) \<in> set xs \<Longrightarrow> (p', l', s') \<in> set xs \<Longrightarrow> s \<noteq> s' \<Longrightarrow>
      l \<noteq> 0 \<and> l' \<noteq> 0 \<and> (p + l \<le> p' \<or> p' + l' \<le> p)"
  shows "apart xs"
  using assms
proof (induction xs rule: apart.induct)
  case (1 o1 l1 s1 o2 l2 s2 rest)
  have "o2 \<le> o1" "s1 \<noteq> s2" using "1.prems"(1,2) by auto
  then have "o2 + l2 \<le> o1" using "1.prems"(3) [of o1 l1 s1 o2 l2 s2] by auto
  moreover have "apart ((o2, l2, s2) # rest)"
  proof (rule "1.IH")
    show "l \<noteq> 0 \<and> l' \<noteq> 0 \<and> (p + l \<le> p' \<or> p' + l' \<le> p)"
      if "(p, l, s) \<in> set ((o2, l2, s2) # rest)" "(p', l', s') \<in> set ((o2, l2, s2) # rest)" "s \<noteq> s'"
      for p l s p' l' s'
      by (rule "1.prems"(3) [of p l s p' l' s']) (use that in auto)
  qed (use "1.prems"(1,2) in auto)
  ultimately show ?case by simp
qed simp_all

lemma apart_lives:
  assumes "page_inv sp" shows "apart (by_offset (lives (raw sp)))"
proof (rule apart_sorted)
  show "distinct (map (\<lambda>(_, _, s). s) (by_offset (lives (raw sp))))"
    by (rule distinct_by_offset)
  show "l \<noteq> 0 \<and> l' \<noteq> 0 \<and> (p + l \<le> p' \<or> p' + l' \<le> p)"
    if "(p, l, s) \<in> set (by_offset (lives (raw sp)))" "(p', l', s') \<in> set (by_offset (lives (raw sp)))"
      "s \<noteq> s'" for p l s p' l' s'
    using that page_invD(7) [OF assms, of s s'] by (auto simp: set_lives disj_def)
qed simp

lemma can_move_lives:
  assumes inv: "page_inv sp" and N: "N \<le> cnt (raw sp)" "\<And>p l s. (p, l, s) \<in> set (lives (raw sp)) \<Longrightarrow> s < N"
  shows "can_move (wcnt (raw sp) N) N (ds (raw sp)) (by_offset (lives (raw sp))) 8188"
proof -
  have "N < 65536" using N(1) page_invD(2,3) [OF inv] by linarith
  note f = wcnt_fields [OF _ this, of "raw sp"] and D = page_invD [OF inv]
  have "distinct (map (\<lambda>(_, _, s). s) (by_offset (lives (raw sp))))"
    by (rule distinct_by_offset)
  moreover have "s < N \<and> p = off (raw sp) s \<and> l = len (raw sp) s \<and> l \<noteq> 0 \<and> ds (raw sp) \<le> p \<and> p + l \<le> 8188"
    if m: "(p, l, s) \<in> set (lives (raw sp))" for p l s
    using N(2) [OF m] D(6) [of s] m by (auto simp: set_lives)
  ultimately show ?thesis
    using apart_lives [OF inv] D(1-3) N(1)
    by (auto simp: can_move_def f)
qed

text \<open>What \<open>compact_keeping\<close> leaves, when its directory keeps \<open>N\<close> slots.\<close>

definition kept_slots :: "bytes \<Rightarrow> nat \<Rightarrow> nat" where
  "kept_slots b m = max (fold (\<lambda>(_, _, slot) m. max m (slot + 1)) (lives b) 0) m"

lemma fold_max_ge: "m \<le> fold (\<lambda>(_, _, slot) m. max m (slot + 1)) xs (m :: nat)"
proof (induction xs arbitrary: m)
  case (Cons x xs)
  obtain p l s where x: "x = (p, l, s)" by (cases x) auto
  have "m \<le> max m (s + 1)" by simp
  also have "\<dots> \<le> fold (\<lambda>(_, _, slot) m. max m (slot + 1)) xs (max m (s + 1))" by (rule Cons.IH)
  finally show ?case by (simp add: x)
qed simp

lemma fold_max_gt:
  "(p, l, s) \<in> set xs \<Longrightarrow> s < fold (\<lambda>(_, _, slot) m. max m (slot + 1)) xs (m :: nat)"
proof (induction xs arbitrary: m)
  case (Cons x xs)
  show ?case
  proof (cases "x = (p, l, s)")
    case True
    have "s < max m (s + 1)" by simp
    also have "\<dots> \<le> fold (\<lambda>(_, _, slot) m. max m (slot + 1)) xs (max m (s + 1))" by (rule fold_max_ge)
    finally show ?thesis by (simp add: True)
  qed (use Cons in auto)
qed simp

lemma fold_max_le:
  "m \<le> n \<Longrightarrow> (\<And>p l s. (p, l, s) \<in> set xs \<Longrightarrow> s < n) \<Longrightarrow>
   fold (\<lambda>(_, _, slot) m. max m (slot + 1)) xs (m :: nat) \<le> n"
proof (induction xs arbitrary: m)
  case (Cons x xs)
  obtain p l s where x: "x = (p, l, s)" by (cases x) auto
  have "fold (\<lambda>(_, _, slot) m. max m (slot + 1)) xs (max m (s + 1)) \<le> n"
    using Cons.prems(1) Cons.prems(2) [of p l s] x
    by (intro Cons.IH) (auto intro: Cons.prems(2))
  then show ?case by (simp add: x)
qed simp

lemma kept_slots:
  "(p, l, s) \<in> set (lives b) \<Longrightarrow> s < kept_slots b m"
  "m \<le> cnt b \<Longrightarrow> kept_slots b m \<le> cnt b" "m \<le> kept_slots b m"
proof -
  show "s < kept_slots b m" if "(p, l, s) \<in> set (lives b)"
    using fold_max_gt [OF that, of 0] unfolding kept_slots_def by linarith
  show "kept_slots b m \<le> cnt b" if "m \<le> cnt b"
    using that fold_max_le [of 0 "cnt b" "lives b"] by (simp add: kept_slots_def set_lives)
  show "m \<le> kept_slots b m" by (simp add: kept_slots_def)
qed

lemma compact_fields:
  assumes inv: "page_inv sp" and m: "m \<le> cnt (raw sp)"
  defines "N \<equiv> kept_slots (raw sp) m"
  shows "\<exists>sp'. compact_keeping sp m = Inr sp' \<and> length (raw sp') = 8188 \<and> hdr (raw sp') = hdr (raw sp)
    \<and> cnt (raw sp') = N \<and> ds (raw sp') + live_bytes (cells (raw sp)) = 8188 \<and> ds (raw sp) \<le> ds (raw sp')
    \<and> valid sp' = valid sp
    \<and> (\<forall>i<N. len (raw sp) i = 0 \<longrightarrow> len (raw sp') i = 0)
    \<and> moved_to (raw sp) (raw sp') (ds (raw sp')) 8188 (lives (raw sp))"
proof -
  let ?L = "by_offset (lives (raw sp))" and ?sp1 = "with_raw sp (wcnt (raw sp) N)"
  note D = page_invD [OF inv]
  have N: "N \<le> cnt (raw sp)" "\<And>p l s. (p, l, s) \<in> set (lives (raw sp)) \<Longrightarrow> s < N"
    using m kept_slots by (auto simp: N_def)
  have small: "N < 65536" "13 + 4 * N \<le> ds (raw sp)" using N(1) D(2,3) by linarith+
  note f = wcnt_fields [OF _ small(1), of "raw sp"]
  have long: "long_enough ?sp1 = long_enough sp"
    using D(1) f by (intro ext long_enough_hdr) simp_all
  have "\<exists>sp' e'. move_up ?L ?sp1 8188 = Inr (sp', e') \<and> e' + sum_list (map (\<lambda>(_, l, _). l) ?L) = 8188
    \<and> ds (raw sp) \<le> e' \<and> length (raw sp') = 8188 \<and> hdr (raw sp') = hdr (raw ?sp1)
    \<and> cnt (raw sp') = cnt (raw ?sp1) \<and> ds (raw sp') = ds (raw ?sp1) \<and> valid sp' = valid ?sp1
    \<and> (\<forall>i<N. i \<notin> (\<lambda>(_, _, s). s) ` set ?L \<longrightarrow>
         off (raw sp') i = off (raw ?sp1) i \<and> len (raw sp') i = len (raw ?sp1) i)
    \<and> moved_to (raw ?sp1) (raw sp') e' 8188 ?L
    \<and> (\<forall>k n. 8188 \<le> k \<longrightarrow> slice (raw sp') k n = slice (raw ?sp1) k n)"
  proof (rule move_up_ok)
    show "can_move (raw ?sp1) N (ds (raw sp)) ?L 8188"
      using can_move_lives [OF inv N] by simp
    show "long_enough ?sp1 l" if "(p, l, s) \<in> set ?L" "valid ?sp1" for p l s
      using that inv long by (auto simp: page_inv_def page_ok_def set_lives)
  qed
  then obtain sp2 e where 2: "move_up ?L ?sp1 8188 = Inr (sp2, e)"
    "e + live_bytes (cells (raw sp)) = 8188" "ds (raw sp) \<le> e" "length (raw sp2) = 8188"
    "hdr (raw sp2) = hdr (raw sp)" "cnt (raw sp2) = N" "valid sp2 = valid sp"
    "\<And>i. i < N \<Longrightarrow> len (raw sp) i = 0 \<Longrightarrow> len (raw sp2) i = 0"
    "moved_to (raw ?sp1) (raw sp2) e 8188 ?L"
  proof (elim exE conjE)
    fix sp' e'
    assume keep: "\<forall>i<N. i \<notin> (\<lambda>(_, _, s). s) ` set ?L \<longrightarrow>
         off (raw sp') i = off (raw ?sp1) i \<and> len (raw sp') i = len (raw ?sp1) i"
    have "len (raw sp') i = 0" if "i < N" "len (raw sp) i = 0" for i
      using keep that f(6) D(1) by (force simp: set_lives)
    moreover assume "move_up ?L ?sp1 8188 = Inr (sp', e')" "ds (raw sp) \<le> e'" "length (raw sp') = 8188"
      "e' + sum_list (map (\<lambda>(_, l, _). l) ?L) = 8188" "hdr (raw sp') = hdr (raw ?sp1)"
      "cnt (raw sp') = cnt (raw ?sp1)" "valid sp' = valid ?sp1" "moved_to (raw ?sp1) (raw sp') e' 8188 ?L"
    ultimately show thesis
      using D(1) f by (intro that [of sp' e']) (simp_all add: sum_by_offset sum_lives live_bytes_sum [OF inv])
  qed
  have e: "e < 65536" "13 + 4 * N \<le> e" "e \<le> 8188" using 2(2,3) small(2) by linarith+
  define b3 where "b3 = wds (raw sp2) e"
  define b4 where "b4 = put b3 (13 + 4 * N) (replicate (e - (13 + 4 * N)) 0)"
  have f3: "length b3 = 8188" "hdr b3 = hdr (raw sp)" "cnt b3 = N" "ds b3 = e"
    "off b3 i = off (raw sp2) i" "len b3 i = len (raw sp2) i" for i
    using 2(4-6) e(1) by (simp_all add: b3_def wds_fields)
  have f4: "length b4 = 8188" "hdr b4 = hdr (raw sp)" "cnt b4 = N" "ds b4 = e"
    using f3 e by (simp_all add: b4_def put_fields)
  have g4: "off b4 i = off (raw sp2) i \<and> len b4 i = len (raw sp2) i" if "i < N" for i
    using f3 e that by (simp add: b4_def put_fields slot_offset_eq)
  have sl: "slice b4 k n = slice (raw sp2) k n" if "e \<le> k" for k n
    using f3(1) 2(4) e that by (simp add: b4_def slice_put_after) (simp add: b3_def wds_fields)
  have N': "max (fold (\<lambda>(_, _, slot) m. max m (Suc slot)) (lives (raw sp)) 0) m = N"
    by (simp add: N_def kept_slots_def)
  have run: "compact_keeping sp m = Inr (with_raw sp2 b4)"
    using D(1) f(1) 2(1,4) f3(1,4) e(2,3) apart_lives [OF inv]
    by (simp add: compact_keeping_def live_slots_inv [OF inv] Let_def page_consts accessors
        N' b3_def [symmetric] b4_def mult.commute)
  have sl1: "slice (raw ?sp1) k n = slice (raw sp) k n" if "13 \<le> k" for k n
    using f(7) D(1) that by simp
  have "moved_to (raw sp) b4 e 8188 (lives (raw sp))"
    unfolding moved_to_def
  proof (intro conjI ballI; clarify)
    fix p l s assume m: "(p, l, s) \<in> set (lives (raw sp))"
    then have "len (raw sp2) s = l \<and> e \<le> off (raw sp2) s \<and> off (raw sp2) s + l \<le> 8188
        \<and> slice (raw sp2) (off (raw sp2) s) l = slice (raw ?sp1) p l"
      using 2(9) by (auto simp: moved_to_def)
    moreover have "13 \<le> p" using m D(6) [of s] D(3) by (auto simp: set_lives)
    ultimately show "len b4 s = l \<and> e \<le> off b4 s \<and> off b4 s + l \<le> 8188
        \<and> slice b4 (off b4 s) l = slice (raw sp) p l"
      using g4 [OF N(2) [OF m]] sl sl1 by simp
    fix p' l' s' assume m': "(p', l', s') \<in> set (lives (raw sp))" and "s \<noteq> s'"
    have "\<forall>(p', l', s') \<in> set ?L. s \<noteq> s' \<longrightarrow> disj (raw sp2) s s'"
      using 2(9) m by (auto simp: moved_to_def)
    then have "disj (raw sp2) s s'" using m' \<open>s \<noteq> s'\<close> by auto
    then show "disj b4 s s'" using g4 [OF N(2) [OF m]] g4 [OF N(2) [OF m']] by (simp add: disj_def)
  qed
  then show ?thesis
    using run f4 2(2,3,7,8) g4 by (intro exI [of _ "with_raw sp2 b4"]) simp
qed

lemma compact_keeping_ok:
  assumes inv: "page_inv sp" and m: "m \<le> cnt (raw sp)"
  shows "\<exists>sp'. compact_keeping sp m = Inr sp' \<and> page_inv sp' \<and> hdr (raw sp') = hdr (raw sp)
    \<and> cells (raw sp') = take (kept_slots (raw sp) m) (cells (raw sp))
    \<and> ds (raw sp') + live_bytes (cells (raw sp)) = 8188"
proof -
  let ?N = "kept_slots (raw sp) m"
  obtain sp' where run: "compact_keeping sp m = Inr sp'" and
    f: "length (raw sp') = 8188" "hdr (raw sp') = hdr (raw sp)" "cnt (raw sp') = ?N"
    "ds (raw sp') + live_bytes (cells (raw sp)) = 8188" "ds (raw sp) \<le> ds (raw sp')"
    "valid sp' = valid sp" "\<And>i. i < ?N \<Longrightarrow> len (raw sp) i = 0 \<Longrightarrow> len (raw sp') i = 0"
    "moved_to (raw sp) (raw sp') (ds (raw sp')) 8188 (lives (raw sp))"
    using compact_fields [OF assms] by auto
  note D = page_invD [OF inv]
  have N: "?N \<le> cnt (raw sp)" using kept_slots(2) m by blast
  have at: "len (raw sp') i = len (raw sp) i \<and> ds (raw sp') \<le> off (raw sp') i
      \<and> off (raw sp') i + len (raw sp) i \<le> 8188
      \<and> slice (raw sp') (off (raw sp') i) (len (raw sp) i) = slice (raw sp) (off (raw sp) i) (len (raw sp) i)"
    if "i < cnt (raw sp)" "len (raw sp) i \<noteq> 0" for i
  proof -
    have "(off (raw sp) i, len (raw sp) i, i) \<in> set (lives (raw sp))" using that by (simp add: set_lives)
    then show ?thesis using f(8) unfolding moved_to_def by auto
  qed
  have lens: "len (raw sp') i = len (raw sp) i" if "i < ?N" for i
    using at [of i] f(7) [of i] that N by (cases "len (raw sp) i = 0") auto
  have dj: "disj (raw sp') i j" if "i < ?N" "j < ?N" "i \<noteq> j" for i j
  proof (cases "len (raw sp) i = 0 \<or> len (raw sp) j = 0")
    case False
    then have "(off (raw sp) i, len (raw sp) i, i) \<in> set (lives (raw sp))"
      "(off (raw sp) j, len (raw sp) j, j) \<in> set (lives (raw sp))" using that N by (auto simp: set_lives)
    then show ?thesis using f(8) that(3) unfolding moved_to_def by fastforce
  qed (use lens that in \<open>auto simp: disj_def\<close>)
  have lay: "lay (raw sp') {..<?N}"
  proof (rule layI)
    show "in_page (raw sp') i" if "i \<in> {..<?N}" for i
      using at [of i] lens [of i] that N by (auto simp: in_page_def page_consts)
    show "disj (raw sp') i j" if "i \<in> {..<?N}" "j \<in> {..<?N}" "i < j" for i j
      using dj that by auto
    show "slot_offset (cnt (raw sp')) \<le> ds (raw sp')"
      using f(3,5) N D(3) by (simp add: slot_offset_eq)
  qed (use f in auto)
  have "became sp sp' {..<?N} (cell (raw sp))"
  proof (rule becameI [OF inv [unfolded page_inv_def] lay f(2)])
    show "cell (raw sp') i = cell (raw sp) i" if "i \<in> {..<?N}" for i
      using at [of i] lens [of i] that N by (auto simp: cell_def)
    show "long_enough sp (len (raw sp') i)" if "valid sp'" "i \<in> {..<?N}" for i
      using lens [of i] that N inv f(6) by (auto simp: page_inv_def page_ok_def)
  qed (use f(6) in simp)
  then show ?thesis
    using run f(2-4) N by (auto simp: became_def page_inv_def intro!: cells_eqI)
qed

subsection \<open>Moving the directory: inserting at a slot and removing one\<close>

lemma became_relabel:
  assumes ok: "page_ok sp S" and v: "valid sp' = valid sp"
    and f: "length (raw sp') = 8188" "hdr (raw sp') = hdr (raw sp)" "ds (raw sp') = ds (raw sp)"
      "slot_offset (cnt (raw sp')) \<le> ds (raw sp)" "T \<subseteq> {..<cnt (raw sp')}"
    and h: "inj_on h T" "h ` T \<subseteq> S"
    and same: "\<And>i. i \<in> T \<Longrightarrow> off (raw sp') i = off (raw sp) (h i) \<and> len (raw sp') i = len (raw sp) (h i)"
    and data: "\<And>i. i \<in> T \<Longrightarrow> len (raw sp) (h i) \<noteq> 0 \<Longrightarrow>
      slice (raw sp') (off (raw sp) (h i)) (len (raw sp) (h i))
        = slice (raw sp) (off (raw sp) (h i)) (len (raw sp) (h i))"
  shows "became sp sp' T (\<lambda>i. cell (raw sp) (h i))"
proof (rule becameI [OF ok _ f(2)])
  have lay: "lay (raw sp) S" using ok by (simp add: page_ok_def)
  show "lay (raw sp') T"
  proof (rule layI)
    show "in_page (raw sp') i" if i: "i \<in> T" for i
    proof -
      have "h i \<in> S" using h(2) i by auto
      then show ?thesis using same [OF i] layD(6) [OF lay, of "h i"] f(3)
        by (auto simp: in_page_def page_consts)
    qed
    show "disj (raw sp') i j" if "i \<in> T" "j \<in> T" "i < j" for i j
    proof -
      have "h i \<noteq> h j" "h i \<in> S" "h j \<in> S" using h that by (auto dest: inj_onD)
      then show ?thesis
        using same [OF that(1)] same [OF that(2)] layD(7) [OF lay, of "h i" "h j"]
        by (simp add: disj_def)
    qed
  qed (use f layD(2) [OF lay] in auto)
  show "cell (raw sp') i = cell (raw sp) (h i)" if "i \<in> T" for i
    using same [OF that] data [OF that] by (auto simp: cell_def)
  show "long_enough sp (len (raw sp') i)" if "valid sp'" "i \<in> T" for i
    using same [of i] that v ok h(2) by (auto simp: page_ok_def)
qed (use v in simp)

lemma slice_put_moved:
  assumes "q + k \<le> n" "dest + n \<le> length b" "from + n \<le> length b"
  shows "slice (put b dest (slice b from n)) (dest + q) k = slice b (from + q) k"
  using assms by (simp add: slice_put_inside slice_slice)

lemma u_at_put_moved:
  assumes "q + k \<le> n" "dest + n \<le> length b" "from + n \<le> length b"
  shows "u_at k (put b dest (slice b from n)) (dest + q) = u_at k b (from + q)"
  unfolding u_at_def by (simp only: slice_put_moved [OF assms])

lemma directory_up:
  assumes "slot \<le> n" and "slot_offset n + 4 \<le> length b"
  defines "b' \<equiv> put b (slot_offset slot + 4) (slice b (slot_offset slot) (slot_offset n - slot_offset slot))"
  shows "length b' = length b" "hdr b' = hdr b" "cnt b' = cnt b" "ds b' = ds b"
    "i < slot \<Longrightarrow> off b' i = off b i \<and> len b' i = len b i"
    "slot \<le> i \<Longrightarrow> i < n \<Longrightarrow> off b' (Suc i) = off b i \<and> len b' (Suc i) = len b i"
    "slot_offset n + 4 \<le> k \<Longrightarrow> slice b' k m = slice b k m"
proof -
  have l: "length (slice b (slot_offset slot) (slot_offset n - slot_offset slot)) = 4 * (n - slot)"
    using assms(1,2) by (simp add: slot_offset_eq)
  show "length b' = length b" "hdr b' = hdr b" "cnt b' = cnt b" "ds b' = ds b"
    unfolding b'_def using assms(1,2) l by (simp_all add: slot_offset_eq put_fields)
  show "off b' i = off b i \<and> len b' i = len b i" if "i < slot"
    unfolding b'_def using assms(1,2) l that
    by (simp add: slot_offset_eq off_def len_def u_at_put_before)
  show "off b' (Suc i) = off b i \<and> len b' (Suc i) = len b i" if "slot \<le> i" "i < n"
  proof -
    have "u_at 2 b' (slot_offset slot + 4 + q) = u_at 2 b (slot_offset slot + q)"
      if "q + 2 \<le> 4 * (n - slot)" for q
      unfolding b'_def using assms(1,2) that by (intro u_at_put_moved) (simp_all add: slot_offset_eq)
    from this [of "4 * (i - slot)"] this [of "4 * (i - slot) + 2"] show ?thesis
      using that assms(1) by (simp add: off_def len_def slot_offset_eq algebra_simps)
  qed
  show "slice b' k m = slice b k m" if "slot_offset n + 4 \<le> k"
    unfolding b'_def using assms(1,2) l that by (intro slice_put_after) (simp_all add: slot_offset_eq)
qed

lemma kept_slots_all: "kept_slots b (cnt b) = cnt b"
  using kept_slots(2,3) [of "cnt b" b] by (simp add: le_antisym)

lemma make_room:
  assumes inv: "page_inv sp" and fit: "n \<le> reclaimable (raw sp)" and m: "m \<le> cnt (raw sp)"
  shows "\<exists>sp'. (if c then compact_keeping sp m else Inr sp) = Inr sp' \<and> page_inv sp'
    \<and> hdr (raw sp') = hdr (raw sp)
    \<and> cells (raw sp') = (if c then take (kept_slots (raw sp) m) (cells (raw sp)) else cells (raw sp))
    \<and> (c \<or> slot_offset (cnt (raw sp)) + n \<le> ds (raw sp) \<longrightarrow> slot_offset (cnt (raw sp')) + n \<le> ds (raw sp'))"
proof (cases c)
  case True
  obtain sp' where s: "compact_keeping sp m = Inr sp'" "page_inv sp'" "hdr (raw sp') = hdr (raw sp)"
    "cells (raw sp') = take (kept_slots (raw sp) m) (cells (raw sp))"
    "ds (raw sp') + live_bytes (cells (raw sp)) = 8188"
    using compact_keeping_ok [OF inv m] by blast
  have "cnt (raw sp') \<le> cnt (raw sp)"
    using arg_cong [OF s(4), of length] kept_slots(2) [OF m] by simp
  then have "slot_offset (cnt (raw sp')) + n \<le> ds (raw sp')"
    using fit s(5) reclaimable_space_inv(2) [OF inv] by (simp add: reclaimable_def slot_offset_eq)
  then show ?thesis using s True by auto
qed (use inv in auto)

lemma insert_cell_at_ok:
  assumes inv: "page_inv sp" and slot: "slot \<le> cnt (raw sp)"
    and fit: "4 + length data \<le> reclaimable (raw sp)"
  shows "\<exists>sp'. insert_cell_at sp slot data = Inr (sp', True) \<and> page_inv sp'
    \<and> hdr (raw sp') = hdr (raw sp)
    \<and> cells (raw sp') = take slot (cells (raw sp)) @ [cell_of data] @ drop slot (cells (raw sp))"
proof -
  let ?c = "\<not> has_room_for sp (length data)"
  obtain s1 where s1: "(if ?c then compact_keeping sp (cnt (raw sp)) else Inr sp) = Inr s1"
    "page_inv s1" "hdr (raw s1) = hdr (raw sp)" "cells (raw s1) = cells (raw sp)"
    and room: "slot_offset (cnt (raw s1)) + (4 + length data) \<le> ds (raw s1)"
  proof -
    have "slot_offset (cnt (raw sp)) + (4 + length data) \<le> ds (raw sp)" if "\<not> ?c"
      using that by (simp add: has_room_for_def accessors SLOT_LEN_def)
    then show thesis
      using that make_room [OF inv fit, of "cnt (raw sp)" ?c] kept_slots_all [of "raw sp"]
      by (auto split: if_splits)
  qed
  define n where "n = cnt (raw s1)"
  have n: "cnt (raw sp) = n" using arg_cong [OF s1(4), of length] by (simp add: n_def)
  note D = page_invD [OF s1(2), folded n_def]
  have dir: "slot_offset n + 4 \<le> length (raw s1)" using room D(1,2) by (simp add: n_def)
  have slot': "slot \<le> n" using slot n by simp
  define b1 where "b1 = put (raw s1) (slot_offset slot + 4)
    (slice (raw s1) (slot_offset slot) (slot_offset n - slot_offset slot))"
  note u = directory_up [OF slot' dir, folded b1_def]
  define s2 where "s2 = with_raw s1 (wcnt b1 (n + 1))"
  have small: "n + 1 < 65536" using D(2,3) by linarith
  have w: "length (raw s2) = 8188" "hdr (raw s2) = hdr (raw s1)" "cnt (raw s2) = n + 1"
    "ds (raw s2) = ds (raw s1)" "off (raw s2) i = off b1 i" "len (raw s2) i = len b1 i" for i
    using wcnt_fields [OF _ small, of b1] u(1-4) D(1) by (simp_all add: s2_def)
  define h where "h i = (if i < slot then i else i - 1)" for i
  have "became s1 s2 ({..<n + 1} - {slot}) (\<lambda>i. cell (raw s1) (h i))"
  proof (rule became_relabel [OF s1(2) [unfolded page_inv_def]])
    show "inj_on h ({..<n + 1} - {slot})" by (auto simp: inj_on_def h_def split: if_splits)
    show "h ` ({..<n + 1} - {slot}) \<subseteq> {..<cnt (raw s1)}" using slot' by (auto simp: h_def n_def)
    show "off (raw s2) i = off (raw s1) (h i) \<and> len (raw s2) i = len (raw s1) (h i)"
      if "i \<in> {..<n + 1} - {slot}" for i
      using that u(5) [of i] u(6) [of "i - 1"] w by (cases "i < slot") (auto simp: h_def)
    show "slice (raw s2) (off (raw s1) (h i)) (len (raw s1) (h i))
        = slice (raw s1) (off (raw s1) (h i)) (len (raw s1) (h i))"
      if "i \<in> {..<n + 1} - {slot}" "len (raw s1) (h i) \<noteq> 0" for i
    proof -
      have "h i < n" using that slot' by (auto simp: h_def)
      then have a: "ds (raw s1) \<le> off (raw s1) (h i)" using D(6) [of "h i"] that(2) by simp
      then have "13 \<le> off (raw s1) (h i)" using D(3) by simp
      then show ?thesis
        using a room u(1) u(7) [of "off (raw s1) (h i)"] wcnt_fields(7) [OF _ small, of b1] D(1)
        by (simp add: s2_def n_def)
    qed
  qed (use w room in \<open>simp_all add: s2_def n_def slot_offset_eq\<close>)
  note b = this
  obtain sp' where sp': "place_cell s2 slot data = Inr sp'" "cnt (raw sp') = n + 1"
    "became s2 sp' (insert slot ({..<n + 1} - {slot})) (\<lambda>i. if i = slot then cell_of data else cell (raw s2) i)"
    using place_cell_ok [OF becameD(1) [OF b], of slot data] w slot' room
    by (auto simp: n_def slot_offset_eq)
  have "insert slot ({..<n + 1} - {slot}) = {..<n + 1}" using slot' by auto
  then have fin: "became s1 sp' {..<n + 1} (\<lambda>i. if i = slot then cell_of data else cell (raw s1) (h i))"
    using sp'(3) becameD(3) [OF b] by (intro became_trans [OF b]) (auto simp: became_def)
  have c1: "copy_within s1 (slot_offset slot) (slot_offset n) (slot_offset slot + 4) = Inr (with_raw s1 b1)"
    using slot' dir by (subst copy_within_Inr) (simp_all add: b1_def slot_offset_eq)
  have c2: "set_slot_count (with_raw s1 b1) (n + 1) = Inr s2"
    using u(1) D(1) by (simp add: s2_def)
  have "insert_cell_at sp slot data = Inr (sp', True)"
    using slot n s1(1) sp'(1) c1 c2 fits_inv [OF inv, of "length data"] fit
    by (cases "has_room_for sp (length data)")
      (auto simp: insert_cell_at_def accessors Let_def SLOT_LEN_def n_def)
  moreover have "cells (raw sp') = take slot (cells (raw sp)) @ [cell_of data] @ drop slot (cells (raw sp))"
  proof (rule cells_eqI)
    fix i assume "i < length (take slot (cells (raw sp)) @ [cell_of data] @ drop slot (cells (raw sp)))"
    then have i: "i < n + 1" using n slot' by simp
    then show "cell (raw sp') i = (take slot (cells (raw sp)) @ [cell_of data] @ drop slot (cells (raw sp))) ! i"
      using becameD(3) [OF fin, of i] slot' n
      by (auto simp: s1(4) [symmetric] n_def [symmetric] nth_append nth_Cons' h_def)
  qed (use sp'(2) n slot' in simp)
  ultimately show ?thesis
    using fin s1(3) sp'(2) by (auto simp: became_def page_inv_def)
qed

lemma directory_down:
  assumes "slot < n" and "slot_offset n \<le> length b"
  defines "b1 \<equiv> put b (slot_offset slot) (slice b (slot_offset (slot + 1)) (slot_offset n - slot_offset (slot + 1)))"
  defines "b' \<equiv> put b1 (slot_offset (n - 1)) (replicate 4 0)"
  shows "length b1 = length b" "length b' = length b" "hdr b' = hdr b" "cnt b' = cnt b" "ds b' = ds b"
    "i < slot \<Longrightarrow> off b' i = off b i \<and> len b' i = len b i"
    "slot \<le> i \<Longrightarrow> i < n - 1 \<Longrightarrow> off b' i = off b (Suc i) \<and> len b' i = len b (Suc i)"
    "slot_offset n \<le> k \<Longrightarrow> slice b' k m = slice b k m"
proof -
  have l: "length (slice b (slot_offset (slot + 1)) (slot_offset n - slot_offset (slot + 1))) = 4 * (n - slot - 1)"
    using assms(1,2) by (simp add: slot_offset_eq)
  show l1: "length b1 = length b"
    unfolding b1_def using assms(1,2) l by (simp add: slot_offset_eq)
  have z: "slot_offset (n - 1) + 4 = slot_offset n" using assms(1) by (simp add: slot_offset_eq)
  show "length b' = length b" "hdr b' = hdr b" "cnt b' = cnt b" "ds b' = ds b"
    unfolding b'_def using assms(1,2) l1 z
    by (simp_all add: slot_offset_eq put_fields) (simp_all add: b1_def l put_fields slot_offset_eq)
  have last: "u_at 2 b' k = u_at 2 b1 k" if "k + 2 \<le> slot_offset (n - 1)" for k
    unfolding b'_def using assms(2) l1 z that by (simp add: u_at_put_before)
  show "off b' i = off b i \<and> len b' i = len b i" if "i < slot"
  proof -
    have "u_at 2 b1 k = u_at 2 b k" if "k + 2 \<le> slot_offset slot" for k
      unfolding b1_def using assms(1,2) l that by (simp add: u_at_put_before slot_offset_eq)
    then show ?thesis using last that assms(1) by (simp add: off_def len_def slot_offset_eq)
  qed
  show "off b' i = off b (Suc i) \<and> len b' i = len b (Suc i)" if "slot \<le> i" "i < n - 1"
  proof -
    have "u_at 2 b1 (slot_offset slot + q) = u_at 2 b (slot_offset (slot + 1) + q)"
      if "q + 2 \<le> 4 * (n - slot - 1)" for q
      unfolding b1_def using assms(1,2) that by (intro u_at_put_moved) (simp_all add: slot_offset_eq)
    from this [of "4 * (i - slot)"] this [of "4 * (i - slot) + 2"] show ?thesis
      using that assms(1) last [of "slot_offset i"] last [of "slot_offset i + 2"]
      by (simp add: off_def len_def slot_offset_eq algebra_simps)
  qed
  show "slice b' k m = slice b k m" if "slot_offset n \<le> k"
    unfolding b'_def using assms(1,2) l1 z that
    by (simp add: slice_put_after) (simp add: b1_def l slice_put_after slot_offset_eq)
qed

lemma remove_cell_at_ok:
  assumes inv: "page_inv sp" and slot: "slot < cnt (raw sp)" and live: "cells (raw sp) ! slot \<noteq> None"
  shows "\<exists>sp'. remove_cell_at sp slot = Inr sp' \<and> page_inv sp' \<and> hdr (raw sp') = hdr (raw sp)
    \<and> cells (raw sp') = take slot (cells (raw sp)) @ drop (Suc slot) (cells (raw sp))"
proof -
  define b n where "b = raw sp" and "n = cnt b"
  note D = page_invD [OF inv, folded b_def, folded n_def]
  have s: "slot < n" "len b slot \<noteq> 0"
    using slot live by (auto simp: n_def b_def cell_def split: if_splits)
  have c: "ds b \<le> off b slot" "off b slot + len b slot \<le> 8188" using D(6) [of slot] s by auto
  define b0 where "b0 = put b (off b slot) (replicate (len b slot) 0)"
  have f0: "length b0 = 8188" "hdr b0 = hdr b" "cnt b0 = n" "ds b0 = ds b"
    "i < n \<Longrightarrow> off b0 i = off b i \<and> len b0 i = len b i" for i
    using c D(1,3) by (simp_all add: b0_def put_fields slot_offset_eq n_def)
  have keep0: "slice b0 (off b i) (len b i) = slice b (off b i) (len b i)" if "i < n" "i \<noteq> slot" for i
    using D(7) [of i slot] that s c D(1) unfolding b0_def disj_def
    by (auto simp: slice_put_before slice_put_after)
  have dir: "slot_offset n \<le> length b0" using f0(1) D(2,3) by (simp add: slot_offset_eq)
  define b1 where "b1 = put b0 (slot_offset slot)
    (slice b0 (slot_offset (slot + 1)) (slot_offset n - slot_offset (slot + 1)))"
  define b2 where "b2 = put b1 (slot_offset (n - 1)) (replicate 4 0)"
  note d = directory_down [OF s(1) dir, folded b1_def, folded b2_def]
  define sp' where "sp' = with_raw sp (wcnt b2 (n - 1))"
  have small: "n - 1 < 65536" using D(2,3) by linarith
  have w: "length (raw sp') = 8188" "hdr (raw sp') = hdr b" "cnt (raw sp') = n - 1" "ds (raw sp') = ds b"
    "off (raw sp') i = off b2 i" "len (raw sp') i = len b2 i" for i
    using wcnt_fields [OF _ small, of b2] d(2-5) f0 by (simp_all add: sp'_def)
  define h where "h i = (if i < slot then i else Suc i)" for i
  have hs: "h i < n" "h i \<noteq> slot" if "i < n - 1" for i using that s(1) by (auto simp: h_def)
  have b: "became sp sp' {..<n - 1} (\<lambda>i. cell (raw sp) (h i))"
  proof (rule became_relabel [OF inv [unfolded page_inv_def]])
    show "inj_on h {..<n - 1}" by (auto simp: inj_on_def h_def split: if_splits)
    show "h ` {..<n - 1} \<subseteq> {..<cnt (raw sp)}" using hs by (auto simp: n_def b_def)
    show "off (raw sp') i = off (raw sp) (h i) \<and> len (raw sp') i = len (raw sp) (h i)"
      if "i \<in> {..<n - 1}" for i
      using that d(6,7) [of i] w f0(5) [of "h i"] hs [of i] by (cases "i < slot") (auto simp: h_def b_def)
    show "slice (raw sp') (off (raw sp) (h i)) (len (raw sp) (h i))
        = slice (raw sp) (off (raw sp) (h i)) (len (raw sp) (h i))"
      if "i \<in> {..<n - 1}" "len (raw sp) (h i) \<noteq> 0" for i
    proof -
      have a: "ds b \<le> off b (h i)" using D(6) [of "h i"] hs [of i] that by (simp add: b_def)
      then have "slot_offset n \<le> off b (h i)" "13 \<le> off b (h i)" using D(3) by (simp_all add: slot_offset_eq)
      then show ?thesis
        using keep0 [of "h i"] hs [of i] that d(8) [of "off b (h i)"] d(2) f0(1)
          wcnt_fields(7) [OF _ small, of b2]
        by (simp add: sp'_def b_def)
    qed
  qed (use w D(3) in \<open>simp_all add: sp'_def b_def [symmetric] slot_offset_eq\<close>)
  have c0: "fill_zero sp (off b slot) (off b slot + len b slot) = Inr (with_raw sp b0)"
    using c D(1) by (simp add: b0_def b_def)
  have c1: "copy_within (with_raw sp b0) (slot_offset (slot + 1)) (slot_offset n) (slot_offset slot)
      = Inr (with_raw sp b1)"
    using s dir by (subst copy_within_Inr) (simp_all add: b1_def slot_offset_eq)
  have c2: "fill_zero (with_raw sp b1) (slot_offset (n - 1)) (slot_offset n) = Inr (with_raw sp b2)"
    using s d(1) dir by (subst fill_zero_Inr) (simp_all add: b2_def slot_offset_eq numeral_eq_Suc)
  have c3: "set_slot_count (with_raw sp b2) (n - 1) = Inr sp'"
    using d(2) f0(1) by (simp add: sp'_def)
  have "remove_cell_at sp slot = Inr sp'"
    using s c D(1) c0 c1 c2 c3 lay_slot_bound [OF page_inv_lay [OF inv] slot]
    by (simp add: remove_cell_at_def accessors Let_def SLOT_LEN_def b_def [symmetric] n_def [symmetric])
       (simp add: slot_offset_eq)
  moreover have "cells (raw sp') = take slot (cells (raw sp)) @ drop (Suc slot) (cells (raw sp))"
  proof (rule cells_eqI)
    fix i assume "i < length (take slot (cells (raw sp)) @ drop (Suc slot) (cells (raw sp)))"
    then have "i < n - 1" using s(1) by (simp add: n_def b_def)
    then show "cell (raw sp') i = (take slot (cells (raw sp)) @ drop (Suc slot) (cells (raw sp))) ! i"
      using becameD(3) [OF b, of i] s(1) by (auto simp: h_def nth_append n_def b_def)
  qed (use w(3) s(1) in \<open>simp add: n_def b_def\<close>)
  ultimately show ?thesis
    using b w(3) by (auto simp: became_def page_inv_def)
qed

subsection \<open>Deleting and replacing a cell\<close>

lemma cells_update:
  assumes "became sp sp' {..<cnt (raw sp)} (\<lambda>i. if i = slot then c else cell (raw sp) i)"
    and "cnt (raw sp') = cnt (raw sp)" and "slot < cnt (raw sp)"
  shows "page_inv sp' \<and> hdr (raw sp') = hdr (raw sp) \<and> cells (raw sp') = (cells (raw sp))[slot := c]"
  using assms by (auto simp: became_def page_inv_def nth_list_update intro!: cells_eqI)

text \<open>A slot that is given a shorter cell at its own offset, or none.\<close>

lemma rewrite_slot:
  assumes inv: "page_inv sp" and slot: "slot < cnt (raw sp)"
    and b: "length b = 8188" "hdr b = hdr (raw sp)" "cnt b = cnt (raw sp)" "ds b = ds (raw sp)"
      "\<And>i. i < cnt (raw sp) \<Longrightarrow> off b i = off (raw sp) i \<and> len b i = len (raw sp) i"
      "\<And>i. i < cnt (raw sp) \<Longrightarrow> i \<noteq> slot \<Longrightarrow> len (raw sp) i \<noteq> 0 \<Longrightarrow>
        slice b (off (raw sp) i) (len (raw sp) i) = slice (raw sp) (off (raw sp) i) (len (raw sp) i)"
    and l: "l \<le> len (raw sp) slot" "l = 0 \<or> p = off (raw sp) slot" "p < 65536"
  shows "\<exists>sp'. write_slot (with_raw sp b) slot p l = Inr sp'
    \<and> became sp sp' {..<cnt (raw sp)} (\<lambda>i. if i = slot then (if l = 0 then None else Some (slice b p l)) else cell (raw sp) i)
    \<and> cnt (raw sp') = cnt (raw sp) \<and> ds (raw sp') = ds (raw sp)"
proof -
  note D = page_invD [OF inv]
  have so: "slot_offset slot + 4 \<le> ds (raw sp)" "slot_offset slot + 4 \<le> length b"
    using D(1-3) slot b(1) by (simp_all add: slot_offset_eq)
  have l': "l < 65536" using l(1) u16_lt(4) [of "raw sp" slot] by simp
  let ?b = "wslot b slot p l"
  let ?sp = "(with_raw sp ?b)\<lparr>valid := valid sp \<and> long_enough (with_raw sp b) l\<rparr>"
  note w = wslot_fields [OF so(2)]
  have f: "length ?b = 8188" "hdr ?b = hdr (raw sp)" "cnt ?b = cnt (raw sp)" "ds ?b = ds (raw sp)"
    "off ?b slot = p" "len ?b slot = l"
    using b l(3) l' by (simp_all add: w)
  have g: "off ?b i = off (raw sp) i \<and> len ?b i = len (raw sp) i" if "i < cnt (raw sp)" "i \<noteq> slot" for i
    using b(5) that l(3) l' by (simp add: w)
  have sl: "slice ?b k n = slice b k n" if "ds (raw sp) \<le> k" for k n
    using that so by (simp add: w(7))
  have lay: "lay ?b {..<cnt (raw sp)}"
  proof (rule layI)
    show "in_page ?b i" if "i \<in> {..<cnt (raw sp)}" for i
      using that g [of i] f D(6) [of i] l by (cases "i = slot") (auto simp: in_page_def page_consts)
    show "disj ?b i j" if ij: "i \<in> {..<cnt (raw sp)}" "j \<in> {..<cnt (raw sp)}" "i < j" for i j
    proof -
      consider "i = slot" "j \<noteq> slot" | "j = slot" "i \<noteq> slot" | "i \<noteq> slot" "j \<noteq> slot" using ij by auto
      then show ?thesis
        using D(7) [of i j] ij
        by cases (use g [of i] g [of j] f l in \<open>auto simp: disj_def\<close>)
    qed
  qed (use f D in \<open>auto simp: slot_offset_eq\<close>)
  have "became sp ?sp {..<cnt (raw sp)} (\<lambda>i. if i = slot then (if l = 0 then None else Some (slice b p l)) else cell (raw sp) i)"
  proof (rule becameI [OF inv [unfolded page_inv_def]])
    show "cell (raw ?sp) i = (if i = slot then (if l = 0 then None else Some (slice b p l)) else cell (raw sp) i)"
      if i: "i \<in> {..<cnt (raw sp)}" for i
    proof (cases "i = slot")
      case True
      then show ?thesis using f l D(6) [of slot] slot sl [of p] by (auto simp: cell_def)
    next
      case False
      then show ?thesis using i g [of i] D(6) [of i] b(6) [of i] sl by (auto simp: cell_def)
    qed
    show "long_enough sp (len (raw ?sp) i)" if v: "valid ?sp" and i: "i \<in> {..<cnt (raw sp)}" for i
    proof (cases "i = slot")
      case True
      have "long_enough (with_raw sp b) = long_enough sp"
        using b D(1) by (intro ext long_enough_hdr) simp_all
      then show ?thesis using True v f(6) by simp
    qed (use v i g [of i] inv in \<open>simp add: page_inv_def page_ok_def\<close>)
  qed (use lay f in simp_all)
  moreover have "write_slot (with_raw sp b) slot p l = Inr ?sp" using so(2) by simp
  ultimately show ?thesis using f by (intro exI [of _ ?sp]) simp
qed

lemma delete_cell_ok:
  assumes inv: "page_inv sp" and slot: "slot < cnt (raw sp)"
  shows "\<exists>sp'. delete_cell sp slot = Inr sp' \<and> page_inv sp' \<and> hdr (raw sp') = hdr (raw sp)
    \<and> cells (raw sp') = (cells (raw sp))[slot := None] \<and> ds (raw sp') = ds (raw sp)"
proof -
  have ex: "\<exists>sp'. write_slot (with_raw sp (raw sp)) slot 0 0 = Inr sp'
    \<and> became sp sp' {..<cnt (raw sp)} (\<lambda>i. if i = slot then (if 0 = (0 :: nat) then None else Some (slice (raw sp) 0 0)) else cell (raw sp) i)
    \<and> cnt (raw sp') = cnt (raw sp) \<and> ds (raw sp') = ds (raw sp)"
    using page_invD(1) [OF inv] by (intro rewrite_slot [OF inv slot]) simp_all
  have none: "(if 0 = (0 :: nat) then None else Some (slice (raw sp) 0 0)) = None" by simp
  obtain sp' where sp': "write_slot (with_raw sp (raw sp)) slot 0 0 = Inr sp'"
    "became sp sp' {..<cnt (raw sp)} (\<lambda>i. if i = slot then None else cell (raw sp) i)"
    "cnt (raw sp') = cnt (raw sp)" "ds (raw sp') = ds (raw sp)"
    using ex unfolding none by blast
  have "write_slot (with_raw sp (raw sp)) slot 0 0 = write_slot sp slot 0 0"
    using lay_slot_bound [OF page_inv_lay [OF inv] slot] by (simp add: long_enough_def)
  then have "delete_cell sp slot = Inr sp'" using sp'(1) by (simp only: delete_cell_def)
  then show ?thesis using sp'(4) cells_update [OF sp'(2,3) slot] by blast
qed

lemma update_in_place:
  assumes inv: "page_inv sp" and slot: "slot < cnt (raw sp)" and l: "length data \<le> len (raw sp) slot"
    "len (raw sp) slot \<noteq> 0"
  shows "\<exists>sp'. update_cell sp slot data = Inr (sp', True) \<and> page_inv sp' \<and> hdr (raw sp') = hdr (raw sp)
    \<and> cells (raw sp') = (cells (raw sp))[slot := cell_of data]"
proof -
  note D = page_invD [OF inv]
  let ?p = "off (raw sp) slot" and ?b = "put (raw sp) (off (raw sp) slot) data"
  have c: "ds (raw sp) \<le> ?p" "?p + len (raw sp) slot \<le> 8188" using D(6) [of slot] slot l by auto
  have pl: "?p + length data \<le> length (raw sp)" "13 \<le> ?p" using c l D(1,3) by simp_all
  note q = put_fields [OF pl]
  have ex: "\<exists>sp'. write_slot (with_raw sp ?b) slot ?p (length data) = Inr sp'
    \<and> became sp sp' {..<cnt (raw sp)} (\<lambda>i. if i = slot then (if length data = 0 then None else Some (slice ?b ?p (length data))) else cell (raw sp) i)
    \<and> cnt (raw sp') = cnt (raw sp) \<and> ds (raw sp') = ds (raw sp)"
  proof (rule rewrite_slot [OF inv slot])
    show "slice ?b (off (raw sp) i) (len (raw sp) i) = slice (raw sp) (off (raw sp) i) (len (raw sp) i)"
      if "i < cnt (raw sp)" "i \<noteq> slot" "len (raw sp) i \<noteq> 0" for i
      using D(7) [of i slot] that slot l pl
      by (auto simp: disj_def slice_put_before slice_put_after)
    show "off ?b i = off (raw sp) i \<and> len ?b i = len (raw sp) i" if "i < cnt (raw sp)" for i
      using q(4,5) [of i] that c D(3) by (simp add: slot_offset_eq)
  qed (use pl q D(1) l u16_lt(3) in auto)
  have new: "(if length data = 0 then None else Some (slice ?b ?p (length data))) = cell_of data"
    using pl(1) by (simp add: cell_of_def)
  obtain sp' where sp': "write_slot (with_raw sp ?b) slot ?p (length data) = Inr sp'"
    "became sp sp' {..<cnt (raw sp)} (\<lambda>i. if i = slot then cell_of data else cell (raw sp) i)"
    "cnt (raw sp') = cnt (raw sp)"
    using ex unfolding new by blast
  have "update_cell sp slot data = Inr (sp', True)"
    using sp'(1) pl slot l lay_slot_bound [OF page_inv_lay [OF inv] slot]
    by (simp add: update_cell_def accessors del: write_slot_Inr)
  then show ?thesis using cells_update [OF sp'(2,3) slot] by auto
qed

text \<open>The loop of \<open>grow_cell\<close>: the slots of the cells below move down by \<open>grown\<close>.\<close>

lemma shift_slot_ok:
  assumes "length (raw sp) = 8188" and "i < n" and "13 + 4 * n \<le> 8188" and "grown \<le> start"
    and "valid sp \<Longrightarrow> long_enough sp (len (raw sp) i)"
  shows "\<exists>sp'. shift_slot start offset grown i sp = Inr sp' \<and> valid sp' = valid sp
    \<and> length (raw sp') = 8188 \<and> hdr (raw sp') = hdr (raw sp) \<and> cnt (raw sp') = cnt (raw sp)
    \<and> ds (raw sp') = ds (raw sp) \<and> (\<forall>j. len (raw sp') j = len (raw sp) j)
    \<and> (\<forall>j. off (raw sp') j = (if j = i \<and> len (raw sp) j \<noteq> 0 \<and> start \<le> off (raw sp) j \<and> off (raw sp) j < offset
         then off (raw sp) j - grown else off (raw sp) j))
    \<and> (\<forall>k m. 13 + 4 * n \<le> k \<longrightarrow> slice (raw sp') k m = slice (raw sp) k m)"
proof -
  have so: "slot_offset i + 4 \<le> length (raw sp)" "slot_offset i + 4 \<le> 13 + 4 * n"
    using assms(1-3) by (simp_all add: slot_offset_eq)
  have p: "off (raw sp) i - grown < 65536" using u16_lt(3) [of "raw sp" i] by simp
  let ?sp = "with_raw sp (wslot (raw sp) i (off (raw sp) i - grown) (len (raw sp) i))"
  show ?thesis
  proof (cases "len (raw sp) i \<noteq> 0 \<and> start \<le> off (raw sp) i \<and> off (raw sp) i < offset")
    case True
    then have "shift_slot start offset grown i sp = Inr ?sp"
      using so(1) assms(4,5) by (simp add: shift_slot_def write_slot_keep del: write_slot_Inr)
    then show ?thesis
      using True so assms(1) p u16_lt(4) [of "raw sp" i]
      by (intro exI [of _ ?sp]) (auto simp: wslot_fields [OF so(1)])
  next
    case False
    then have "shift_slot start offset grown i sp = Inr sp"
      using so(1) by (auto simp: shift_slot_def)
    then show ?thesis using False assms(1) by auto
  qed
qed

lemma shift_slots:
  assumes "length (raw sp) = 8188" and "\<And>i. i \<in> set is \<Longrightarrow> i < n" and "distinct is"
    and "13 + 4 * n \<le> 8188" and "grown \<le> start"
    and "\<And>i. i \<in> set is \<Longrightarrow> valid sp \<Longrightarrow> long_enough sp (len (raw sp) i)"
  shows "\<exists>sp'. foldR (shift_slot start offset grown) is sp = Inr sp' \<and> valid sp' = valid sp
    \<and> length (raw sp') = 8188 \<and> hdr (raw sp') = hdr (raw sp) \<and> cnt (raw sp') = cnt (raw sp)
    \<and> ds (raw sp') = ds (raw sp) \<and> (\<forall>j. len (raw sp') j = len (raw sp) j)
    \<and> (\<forall>j. off (raw sp') j = (if j \<in> set is \<and> len (raw sp) j \<noteq> 0 \<and> start \<le> off (raw sp) j \<and> off (raw sp) j < offset
         then off (raw sp) j - grown else off (raw sp) j))
    \<and> (\<forall>k m. 13 + 4 * n \<le> k \<longrightarrow> slice (raw sp') k m = slice (raw sp) k m)"
  using assms
proof (induction "is" arbitrary: sp)
  case (Cons i "is")
  obtain s1 where 1: "shift_slot start offset grown i sp = Inr s1" "valid s1 = valid sp"
    "length (raw s1) = 8188" "hdr (raw s1) = hdr (raw sp)" "cnt (raw s1) = cnt (raw sp)"
    "ds (raw s1) = ds (raw sp)" "\<And>j. len (raw s1) j = len (raw sp) j"
    "\<And>j. off (raw s1) j = (if j = i \<and> len (raw sp) j \<noteq> 0 \<and> start \<le> off (raw sp) j \<and> off (raw sp) j < offset
         then off (raw sp) j - grown else off (raw sp) j)"
    "\<And>k m. 13 + 4 * n \<le> k \<Longrightarrow> slice (raw s1) k m = slice (raw sp) k m"
    using shift_slot_ok [of sp i n grown start offset] Cons.prems by auto
  have long: "long_enough s1 = long_enough sp"
    using 1(3,4) Cons.prems(1) by (intro ext long_enough_hdr) simp_all
  obtain s2 where 2: "foldR (shift_slot start offset grown) is s1 = Inr s2" "valid s2 = valid s1"
    "length (raw s2) = 8188" "hdr (raw s2) = hdr (raw s1)" "cnt (raw s2) = cnt (raw s1)"
    "ds (raw s2) = ds (raw s1)" "\<And>j. len (raw s2) j = len (raw s1) j"
    "\<And>j. off (raw s2) j = (if j \<in> set is \<and> len (raw s1) j \<noteq> 0 \<and> start \<le> off (raw s1) j \<and> off (raw s1) j < offset
         then off (raw s1) j - grown else off (raw s1) j)"
    "\<And>k m. 13 + 4 * n \<le> k \<Longrightarrow> slice (raw s2) k m = slice (raw s1) k m"
    using Cons.IH [of s1] Cons.prems 1(2,3,7) long by auto
  have "i \<notin> set is" using Cons.prems(3) by simp
  then have "off (raw s2) j = (if j \<in> set (i # is) \<and> len (raw sp) j \<noteq> 0 \<and> start \<le> off (raw sp) j
      \<and> off (raw sp) j < offset then off (raw sp) j - grown else off (raw sp) j)" for j
    using 2(8) [of j] 1(7,8) [of j] by auto
  then show ?case
    using 1 2 by (intro exI [of _ s2]) simp
qed auto

lemma lay_grow:
  assumes lay: "lay b {..<cnt b}" and slot: "slot < cnt b" "len b slot \<noteq> 0"
    and b': "length b' = 8188" "cnt b' = cnt b" "ds b' + g = ds b" "slot_offset (cnt b) \<le> ds b'"
    and new: "off b' slot + g = off b slot" "len b' slot = len b slot + g"
    and old: "\<And>i. i < cnt b \<Longrightarrow> i \<noteq> slot \<Longrightarrow> len b' i = len b i
      \<and> (len b i \<noteq> 0 \<longrightarrow> (if off b i < off b slot then off b' i + g = off b i else off b' i = off b i))"
  shows "lay b' {..<cnt b}"
proof (rule layI)
  note L = layD [OF lay]
  have s: "ds b \<le> off b slot" "off b slot + len b slot \<le> 8188" using L(6) [of slot] slot by auto
  have apart: "off b i + len b i \<le> off b slot \<or> off b slot + len b slot \<le> off b i"
    if "i < cnt b" "i \<noteq> slot" "len b i \<noteq> 0" for i
    using L(7) [of i slot] that slot by (auto simp: disj_def)
  show "in_page b' i" if "i \<in> {..<cnt b}" for i
  proof (cases "i = slot")
    case True
    then show ?thesis using s new b'(3) by (simp add: in_page_def page_consts)
  next
    case False
    then show ?thesis using that old [of i] L(6) [of i] b'(3)
      by (auto simp: in_page_def page_consts split: if_splits)
  qed
  have one: "disj b' i slot" if "i < cnt b" "i \<noteq> slot" for i
    using old [OF that] apart [OF that] new slot(2) by (auto simp: disj_def split: if_splits)
  show "disj b' i j" if ij: "i \<in> {..<cnt b}" "j \<in> {..<cnt b}" "i < j" for i j
  proof (cases "i = slot \<or> j = slot")
    case True
    then show ?thesis using one [of i] one [of j] ij disj_sym [of b' i j] by auto
  next
    case False
    then show ?thesis
      using old [of i] old [of j] L(7) [of i j] apart [of i] apart [of j] ij slot(2)
      by (auto simp: disj_def split: if_splits)
  qed
  show "ds b' \<le> 8188" using L(2) b'(3) by simp
qed (use b' in auto)

lemma grow_cell_ok:
  assumes inv: "page_inv sp" and slot: "slot < cnt (raw sp)" "len (raw sp) slot \<noteq> 0"
    and g: "length data = len (raw sp) slot + g" "slot_offset (cnt (raw sp)) + g \<le> ds (raw sp)"
  shows "\<exists>sp'. grow_cell sp slot (off (raw sp) slot) data g = Inr sp'
    \<and> became sp sp' {..<cnt (raw sp)} (\<lambda>i. if i = slot then cell_of data else cell (raw sp) i)
    \<and> cnt (raw sp') = cnt (raw sp)"
proof -
  define b n st p where "b = raw sp" and "n = cnt b" and "st = ds b" and "p = off b slot"
  note D = page_invD [OF inv, folded b_def, folded n_def st_def]
  have s: "slot < n" "len b slot \<noteq> 0" using slot by (simp_all add: n_def b_def)
  have p: "st \<le> p" "p + len b slot \<le> 8188" using D(6) [of slot] s by (auto simp: p_def)
  have gs: "13 + 4 * n + g \<le> st" using g(2) by (simp add: b_def n_def st_def slot_offset_eq)
  have so: "slot_offset i + 4 \<le> 13 + 4 * n" if "i < n" for i using that by (simp add: slot_offset_eq)
  define b1 where "b1 = put b (st - g) (slice b st (p - st))"
  have l1: "length (slice b st (p - st)) = p - st" "length b1 = 8188" using p D(1) by (simp_all add: b1_def)
  have f1: "hdr b1 = hdr b" "cnt b1 = n" "ds b1 = st"
    using p D(1) gs l1 by (simp_all add: b1_def put_fields n_def st_def)
  have g1: "off b1 i = off b i \<and> len b1 i = len b i" if "i < n" for i
    using so [OF that] p D(1) gs l1 by (simp add: b1_def put_fields)
  have long: "long_enough (with_raw sp b1) = long_enough sp"
    using l1 f1 D(1) by (intro ext long_enough_hdr) (simp_all add: b_def)
  have vl: "long_enough sp (len b i)" if "valid sp" "i < n" for i
    using inv that by (simp add: page_inv_def page_ok_def b_def n_def)
  obtain s2 where 2: "foldR (shift_slot st p g) [0..<n] (with_raw sp b1) = Inr s2" "valid s2 = valid sp"
    "length (raw s2) = 8188" "hdr (raw s2) = hdr b" "cnt (raw s2) = n" "ds (raw s2) = st"
    "\<And>j. len (raw s2) j = len b1 j"
    "\<And>j. off (raw s2) j = (if j < n \<and> len b1 j \<noteq> 0 \<and> st \<le> off b1 j \<and> off b1 j < p
       then off b1 j - g else off b1 j)"
    "\<And>k m. 13 + 4 * n \<le> k \<Longrightarrow> slice (raw s2) k m = slice b1 k m"
  proof -
    have r: "raw (with_raw sp b1) = b1" by simp
    have "13 + 4 * n \<le> 8188" "g \<le> st" using gs D(2) by linarith+
    then show thesis
      using that shift_slots [of "with_raw sp b1" "[0..<n]" n g st p, unfolded r] l1(2) f1 long vl g1
      by force
  qed
  define b3 where "b3 = put (raw s2) (p - g) data"
  have pg: "g \<le> p" "13 + 4 * n \<le> p - g" "p - g + length data \<le> length (raw s2)"
    using gs p 2(3) g(1) by (simp_all add: b_def)
  have f3: "length b3 = 8188" "hdr b3 = hdr b" "cnt b3 = n" "ds b3 = st"
    using pg 2 by (simp_all add: b3_def put_fields)
  have g3: "off b3 i = off (raw s2) i \<and> len b3 i = len b i" if "i < n" for i
    using so [OF that] pg 2(7) g1 [OF that] by (simp add: b3_def put_fields)
  define b4 where "b4 = wds b3 (st - g)"
  have stg: "st - g < 65536" "p - g < 65536" "length data < 65536"
    using D(2) gs pg 2(3) by linarith+
  have f4: "length b4 = 8188" "hdr b4 = hdr b" "cnt b4 = n" "ds b4 = st - g"
    "off b4 i = off b3 i" "len b4 i = len b3 i" for i
    using f3 stg by (simp_all add: b4_def wds_fields)
  define b5 where "b5 = wslot b4 slot (p - g) (length data)"
  have so4: "slot_offset slot + 4 \<le> length b4" using so [OF s(1)] f4(1) D(2) gs by simp
  note w = wslot_fields [OF so4]
  have f5: "length b5 = 8188" "hdr b5 = hdr b" "cnt b5 = n" "ds b5 = st - g"
    "off b5 slot = p - g" "len b5 slot = length data"
    using f4 stg by (simp_all add: b5_def w)
  have g5: "off b5 i = off (raw s2) i" "len b5 i = len b i" if "i < n" "i \<noteq> slot" for i
    using that f4(5,6) g3 stg by (simp_all add: b5_def w)
  have sl5: "slice b5 k m = slice b3 k m" if "13 + 4 * n \<le> k" for k m
    using that so [OF s(1)] f3(1) stg by (simp add: b5_def w(7)) (simp add: b4_def wds_fields)
  define sp' where "sp' = (with_raw s2 b5)\<lparr>valid := valid s2 \<and> long_enough (with_raw s2 b4) (length data)\<rparr>"
  have run: "grow_cell sp slot p data g = Inr sp'"
  proof -
    have "copy_within sp st p (st - g) = Inr (with_raw sp b1)"
      using p D(1) gs by (subst copy_within_Inr) (simp_all add: b1_def b_def)
    moreover have "write_at s2 (p - g) data = Inr (with_raw s2 b3)" using pg by (simp add: b3_def)
    moreover have "set_data_start (with_raw s2 b3) (st - g) = Inr (with_raw s2 b4)"
      using f3(1) by (simp add: b4_def)
    moreover have "write_slot (with_raw s2 b4) slot (p - g) (length data) = Inr sp'"
      using so4 by (simp add: b5_def sp'_def)
    moreover have "data_start sp = st" "slot_count (with_raw sp b1) = n"
      using f1 by (simp_all add: accessors st_def b_def)
    moreover have "g \<le> st" using gs by simp
    ultimately show ?thesis using 2(1) pg(1) by (simp add: grow_cell_def Let_def)
  qed
  have low: "off (raw s2) i = (if off b i < p then off b i - g else off b i)" "st \<le> off b i"
    "off b i + len b i \<le> p \<or> p + len b slot \<le> off b i" if "i < n" "i \<noteq> slot" "len b i \<noteq> 0" for i
    using 2(8) [of i] g1 [OF that(1)] that D(6) [of i] D(7) [of i slot] s p_def by (auto simp: disj_def)
  have old: "slice b5 (off b5 i) (len b i) = slice b (off b i) (len b i)"
    if i: "i < n" "i \<noteq> slot" "len b i \<noteq> 0" for i
  proof (cases "off b i < p")
    case True
    then have a: "off b5 i = off b i - g" "off b i + len b i \<le> p" "st \<le> off b i"
      using low [OF i] g5 [OF i(1,2)] i(3) by auto
    have e: "off b i - g = (st - g) + (off b i - st)" "13 + 4 * n \<le> off b i - g" using a gs by linarith+
    have "slice b3 (off b i - g) (len b i) = slice b1 (off b i - g) (len b i)"
      using a pg 2(9) [OF e(2)] gs by (simp add: b3_def slice_put_before)
    also have "\<dots> = slice b (st + (off b i - st)) (len b i)"
      unfolding b1_def e(1) by (rule slice_put_moved) (use a p D(1) gs in linarith)+
    also have "st + (off b i - st) = off b i" using a(3) by simp
    finally show ?thesis using a sl5 [OF e(2)] by simp
  next
    case False
    then have a: "off b5 i = off b i" "p + len b slot \<le> off b i"
      using low [OF i] g5 [OF i(1,2)] i(3) by auto
    have e: "13 + 4 * n \<le> off b i" "p \<le> off b i" "p - g + length data \<le> off b i"
      using a gs p g(1) pg by (simp_all add: b_def)
    have "slice b3 (off b i) (len b i) = slice b1 (off b i) (len b i)"
      using e pg 2(9) [OF e(1)] by (simp add: b3_def slice_put_after)
    also have "\<dots> = slice b (off b i) (len b i)"
      using e l1 p D(1) gs by (simp add: b1_def slice_put_after)
    finally show ?thesis using a sl5 [OF e(1)] by simp
  qed
  have new: "slice b5 (p - g) (length data) = data"
    using sl5 [OF pg(2)] pg(3) by (simp add: b3_def)
  have lay: "lay b5 {..<n}"
    unfolding n_def
  proof (rule lay_grow [where b = b and slot = slot and g = g])
    show "lay b {..<cnt b}" using page_inv_lay [OF inv] by (simp add: b_def)
    show "len b5 i = len b i \<and> (len b i \<noteq> 0 \<longrightarrow> (if off b i < off b slot then off b5 i + g = off b i else off b5 i = off b i))"
      if "i < cnt b" "i \<noteq> slot" for i
      using low [of i] g5 [of i] that gs by (auto simp: n_def p_def)
  qed (use s f5 gs pg(1) g(1) in \<open>auto simp: n_def st_def p_def b_def slot_offset_eq\<close>)
  have "became sp sp' {..<n} (\<lambda>i. if i = slot then cell_of data else cell (raw sp) i)"
  proof (rule becameI [OF inv [unfolded page_inv_def]])
    show "cell (raw sp') i = (if i = slot then cell_of data else cell (raw sp) i)" if "i \<in> {..<n}" for i
      using that f5(5,6) new old [of i] g5 [of i] g(1) s(2)
      by (auto simp: cell_def cell_of_def sp'_def b_def)
    show "long_enough sp (len (raw sp') i)" if v: "valid sp'" and i: "i \<in> {..<n}" for i
    proof (cases "i = slot")
      case True
      have "long_enough (with_raw s2 b4) = long_enough sp"
        using f4 D(1) by (intro ext long_enough_hdr) (simp_all add: b_def)
      then show ?thesis using True v f5(6) by (simp add: sp'_def)
    qed (use v i g5 [of i] vl [of i] 2(2) in \<open>simp add: sp'_def\<close>)
  qed (use lay f5 2(2) in \<open>simp_all add: sp'_def b_def\<close>)
  then show ?thesis using run f5(3) by (auto simp: sp'_def n_def p_def b_def)
qed

subsection \<open>A page as a map from slots to cells\<close>

text \<open>
  The view of those who address cells by slot: compaction may drop tombstones at the
  directory's end, which this view does not see.
\<close>

definition cell_map :: "bytes option list \<Rightarrow> nat \<Rightarrow> bytes option" where
  "cell_map cs i = (if i < length cs then cs ! i else None)"

lemma cell_map_update: "slot < length cs \<Longrightarrow> cell_map (cs[slot := c]) = (cell_map cs)(slot := c)"
  by (auto simp: cell_map_def fun_eq_iff nth_list_update)

lemma cell_map_append: "cell_map (cs @ [c]) = (cell_map cs)(length cs := c)"
  by (auto simp: cell_map_def fun_eq_iff nth_append)

lemma cell_map_get: "page_inv sp \<Longrightarrow> get_cell sp i = Inr (cell_map (cells (raw sp)) i)"
  by (simp add: get_cell_inv cell_map_def)

lemma cell_map_kept:
  assumes "m \<le> cnt b" shows "cell_map (take (kept_slots b m) (cells b)) = cell_map (cells b)"
proof
  fix i
  have "cell b i = None" if "i < cnt b" "\<not> i < kept_slots b m"
    using kept_slots(1) [of "off b i" "len b i" i b m] that by (auto simp: set_lives cell_def)
  then show "cell_map (take (kept_slots b m) (cells b)) i = cell_map (cells b) i"
    using kept_slots(2) [OF assms] by (auto simp: cell_map_def)
qed

lemma place_in_slot:
  assumes inv: "page_inv sp" and slot: "slot < cnt (raw sp)" "cells (raw sp) ! slot = None"
    and room: "slot_offset (cnt (raw sp)) + length data \<le> ds (raw sp)"
  shows "\<exists>sp'. place_cell sp slot data = Inr sp' \<and> page_inv sp' \<and> hdr (raw sp') = hdr (raw sp)
    \<and> cells (raw sp') = (cells (raw sp))[slot := cell_of data]"
proof -
  have "page_ok sp ({..<cnt (raw sp)} - {slot})"
    using inv unfolding page_inv_def by (rule page_ok_subset) auto
  then obtain sp' where sp': "place_cell sp slot data = Inr sp'" "cnt (raw sp') = cnt (raw sp)"
    "became sp sp' (insert slot ({..<cnt (raw sp)} - {slot}))
       (\<lambda>i. if i = slot then cell_of data else cell (raw sp) i)"
    using place_cell_ok [of sp "{..<cnt (raw sp)} - {slot}" slot data] slot(1) room by auto
  have "insert slot ({..<cnt (raw sp)} - {slot}) = {..<cnt (raw sp)}" using slot(1) by auto
  then show ?thesis using sp' cells_update [of sp sp' slot "cell_of data"] slot(1) by auto
qed

lemma live_bytes_update:
  "slot < length cs \<Longrightarrow> live_bytes (cs[slot := None]) + clen (cs ! slot) = live_bytes cs"
  unfolding live_bytes_def
  by (induction cs arbitrary: slot) (auto simp: clen_def split: nat.splits)

lemma update_by_compaction:
  assumes inv: "page_inv sp" and slot: "slot < cnt (raw sp)" "len (raw sp) slot \<noteq> 0"
    and fit: "length data \<le> reclaimable (raw sp) + len (raw sp) slot"
  shows "\<exists>sp'. bindR (delete_cell sp slot) (\<lambda>sp.
        bindR (if free_space sp < length data then compact_keeping sp (slot + 1) else Inr sp)
          (\<lambda>sp. bindR (place_cell sp slot data) (\<lambda>sp. Inr (sp, True)))) = Inr (sp', True)
    \<and> page_inv sp' \<and> hdr (raw sp') = hdr (raw sp)
    \<and> cell_map (cells (raw sp')) = (cell_map (cells (raw sp)))(slot := cell_of data)"
proof -
  obtain s1 where 1: "delete_cell sp slot = Inr s1" "page_inv s1" "hdr (raw s1) = hdr (raw sp)"
    "cells (raw s1) = (cells (raw sp))[slot := None]"
    using delete_cell_ok [OF inv slot(1)] by blast
  have n: "cnt (raw s1) = cnt (raw sp)" using arg_cong [OF 1(4), of length] by simp
  have "live_bytes (cells (raw s1)) + len (raw sp) slot = live_bytes (cells (raw sp))"
    using live_bytes_update [of slot "cells (raw sp)"] slot(1) clen_cell [OF inv slot(1)] 1(4) by simp
  then have fit1: "length data \<le> reclaimable (raw s1)"
    using fit reclaimable_space_inv(2) [OF inv] n by (simp add: reclaimable_def)
  let ?c = "free_space s1 < length data"
  have roomy: "\<not> ?c \<Longrightarrow> slot_offset (cnt (raw s1)) + length data \<le> ds (raw s1)"
    using page_invD(3) [OF 1(2)] by (simp add: accessors slot_offset_eq)
  obtain s2 where 2: "(if ?c then compact_keeping s1 (slot + 1) else Inr s1) = Inr s2" "page_inv s2"
    "hdr (raw s2) = hdr (raw sp)"
    "cells (raw s2) = (if ?c then take (kept_slots (raw s1) (slot + 1)) (cells (raw s1)) else cells (raw s1))"
    "slot_offset (cnt (raw s2)) + length data \<le> ds (raw s2)"
    using make_room [OF 1(2) fit1, of "slot + 1" ?c] slot(1) n 1(3) roomy by auto
  have map2: "cell_map (cells (raw s2)) = cell_map (cells (raw s1))"
    using 2(4) cell_map_kept [of "slot + 1" "raw s1"] slot(1) n by auto
  have s2: "slot < cnt (raw s2)"
    using arg_cong [OF 2(4), of length] kept_slots(3) [of "slot + 1" "raw s1"] slot(1) n
    by (auto split: if_splits)
  moreover have "cells (raw s2) ! slot = None"
    using fun_cong [OF map2, of slot] s2 slot(1) 1(4) by (simp add: cell_map_def)
  ultimately obtain sp' where 3: "place_cell s2 slot data = Inr sp'" "page_inv sp'"
    "hdr (raw sp') = hdr (raw s2)" "cells (raw sp') = (cells (raw s2))[slot := cell_of data]"
    using place_in_slot [OF 2(2) _ _ 2(5)] by blast
  have "cell_map (cells (raw sp')) = (cell_map (cells (raw sp)))(slot := cell_of data)"
    using 3(4) map2 s2 1(4) slot(1) by (simp add: cell_map_update)
  then show ?thesis using 1(1) 2(1,3) 3 by auto
qed

lemma update_cell_ok:
  assumes inv: "page_inv sp" and slot: "slot < cnt (raw sp)" "len (raw sp) slot \<noteq> 0"
  shows "\<exists>sp' done. update_cell sp slot data = Inr (sp', done) \<and> page_inv sp'
    \<and> hdr (raw sp') = hdr (raw sp)
    \<and> done = (length data \<le> reclaimable (raw sp) + len (raw sp) slot)
    \<and> (if done then cell_map (cells (raw sp')) = (cell_map (cells (raw sp)))(slot := cell_of data)
       else sp' = sp)"
proof -
  let ?l = "len (raw sp) slot"
  have upd: "cell_map ((cells (raw sp))[slot := cell_of data]) = (cell_map (cells (raw sp)))(slot := cell_of data)"
    using slot(1) by (simp add: cell_map_update)
  have rd: "read_slot sp slot = Inr (off (raw sp) slot, ?l)"
    using lay_slot_bound [OF page_inv_lay [OF inv] slot(1)] by simp
  have free: "free_space sp \<le> reclaimable (raw sp)"
    using free_le_reclaimable [OF inv] by (simp add: accessors)
  consider "length data \<le> ?l" | "?l < length data" "length data - ?l \<le> free_space sp"
    | "free_space sp < length data - ?l" "length data \<le> reclaimable (raw sp) + ?l"
    | "reclaimable (raw sp) + ?l < length data"
    by linarith
  then show ?thesis
  proof cases
    case 1
    obtain sp' where "update_cell sp slot data = Inr (sp', True)" "page_inv sp'"
      "hdr (raw sp') = hdr (raw sp)" "cells (raw sp') = (cells (raw sp))[slot := cell_of data]"
      using update_in_place [OF inv slot(1) 1 slot(2)] by blast
    then show ?thesis using upd 1 by (intro exI [of _ sp'] exI [of _ True]) simp
  next
    case 2
    have "length data = ?l + (length data - ?l)"
      "slot_offset (cnt (raw sp)) + (length data - ?l) \<le> ds (raw sp)"
      using 2 page_invD(3) [OF inv] by (simp_all add: accessors slot_offset_eq)
    from grow_cell_ok [OF inv slot this] obtain sp' where
      sp': "grow_cell sp slot (off (raw sp) slot) data (length data - ?l) = Inr sp'"
      "page_inv sp'" "hdr (raw sp') = hdr (raw sp)" "cells (raw sp') = (cells (raw sp))[slot := cell_of data]"
      using cells_update [OF _ _ slot(1)] by blast
    then have "update_cell sp slot data = Inr (sp', True)"
      using rd slot 2 by (simp add: update_cell_def Let_def accessors(1))
    then show ?thesis using sp' upd 2 free by (intro exI [of _ sp'] exI [of _ True]) simp
  next
    case 3
    obtain sp' where sp': "bindR (delete_cell sp slot) (\<lambda>sp.
        bindR (if free_space sp < length data then compact_keeping sp (slot + 1) else Inr sp)
          (\<lambda>sp. bindR (place_cell sp slot data) (\<lambda>sp. Inr (sp, True)))) = Inr (sp', True)"
      "page_inv sp'" "hdr (raw sp') = hdr (raw sp)"
      "cell_map (cells (raw sp')) = (cell_map (cells (raw sp)))(slot := cell_of data)"
      using update_by_compaction [OF inv slot 3(2)] by blast
    then have "update_cell sp slot data = Inr (sp', True)"
      using rd slot 3 reclaimable_space_inv(1) [OF inv]
      by (simp add: update_cell_def Let_def accessors(1))
    then show ?thesis using sp' 3 by (intro exI [of _ sp'] exI [of _ True]) simp
  next
    case 4
    then have "\<not> length data \<le> ?l" "\<not> length data - ?l \<le> free_space sp" using free by linarith+
    then have "update_cell sp slot data = Inr (sp, False)"
      using 4 rd slot reclaimable_space_inv(1) [OF inv]
      by (simp add: update_cell_def Let_def accessors(1))
    then show ?thesis using inv 4 by (intro exI [of _ sp] exI [of _ False]) simp
  qed
qed

lemma find_zero:
  "find_zero ls k = Some s \<Longrightarrow> k \<le> s \<and> s - k < length ls \<and> ls ! (s - k) = 0"
  "find_zero ls k = None \<longleftrightarrow> 0 \<notin> set ls"
proof (induction ls k rule: find_zero.induct)
  case (2 l ls i)
  { case 1 then show ?case using "2.IH"(1) by (cases "l = 0") (auto simp: Suc_diff_le nth_Cons') }
  { case 2 then show ?case using "2.IH"(2) by auto }
qed auto

lemma lengths_inv: "page_inv sp \<Longrightarrow> lengths sp = Inr (map (len (raw sp)) [0..<cnt (raw sp)])"
  unfolding lengths_def accessors using lay_slot_bound [OF page_inv_lay, of sp]
  by (intro mapR_Inr) simp

lemma reuse_free_slot:
  assumes inv: "page_inv sp" and slot: "slot < cnt (raw sp)" "len (raw sp) slot = 0"
    and fit: "length data \<le> reclaimable (raw sp)"
  shows "\<exists>sp'. bindR (if free_space sp < length data then compact_keeping sp (slot + 1) else Inr sp)
      (\<lambda>sp. bindR (place_cell sp slot data) (\<lambda>sp. Inr (sp, Some slot))) = Inr (sp', Some slot)
    \<and> page_inv sp' \<and> hdr (raw sp') = hdr (raw sp)
    \<and> cell_map (cells (raw sp')) = (cell_map (cells (raw sp)))(slot := cell_of data)"
proof -
  let ?c = "free_space sp < length data"
  have roomy: "\<not> ?c \<Longrightarrow> slot_offset (cnt (raw sp)) + length data \<le> ds (raw sp)"
    using page_invD(3) [OF inv] by (simp add: accessors slot_offset_eq)
  obtain s2 where 2: "(if ?c then compact_keeping sp (slot + 1) else Inr sp) = Inr s2" "page_inv s2"
    "hdr (raw s2) = hdr (raw sp)"
    "cells (raw s2) = (if ?c then take (kept_slots (raw sp) (slot + 1)) (cells (raw sp)) else cells (raw sp))"
    "slot_offset (cnt (raw s2)) + length data \<le> ds (raw s2)"
    using make_room [OF inv fit, of "slot + 1" ?c] slot(1) roomy by auto
  have map2: "cell_map (cells (raw s2)) = cell_map (cells (raw sp))"
    using 2(4) cell_map_kept [of "slot + 1" "raw sp"] slot(1) by auto
  have s2: "slot < cnt (raw s2)"
    using arg_cong [OF 2(4), of length] kept_slots(3) [of "slot + 1" "raw sp"] slot(1)
    by (auto split: if_splits)
  moreover have "cells (raw s2) ! slot = None"
    using fun_cong [OF map2, of slot] s2 slot by (simp add: cell_map_def cell_def)
  ultimately obtain sp' where 3: "place_cell s2 slot data = Inr sp'" "page_inv sp'"
    "hdr (raw sp') = hdr (raw s2)" "cells (raw sp') = (cells (raw s2))[slot := cell_of data]"
    using place_in_slot [OF 2(2) _ _ 2(5)] by blast
  have "cell_map (cells (raw sp')) = (cell_map (cells (raw sp)))(slot := cell_of data)"
    using 3(4) map2 s2 by (simp add: cell_map_update)
  then show ?thesis using 2(1,3) 3 by auto
qed

lemma append_cell:
  assumes inv: "page_inv sp" and fit: "4 + length data \<le> reclaimable (raw sp)"
    and live: "0 \<notin> set (map (len (raw sp)) [0..<cnt (raw sp)])"
    and c: "c \<longleftrightarrow> \<not> has_room_for sp (length data)"
  shows "\<exists>sp'. bindR (if c then compact sp else Inr sp) (\<lambda>sp. insert_cell sp data)
      = Inr (sp', Some (cnt (raw sp))) \<and> page_inv sp' \<and> hdr (raw sp') = hdr (raw sp)
    \<and> cell_map (cells (raw sp')) = (cell_map (cells (raw sp)))(cnt (raw sp) := cell_of data)
    \<and> cells (raw sp') = cells (raw sp) @ [cell_of data]"
proof -
  have roomy: "\<not> c \<Longrightarrow> slot_offset (cnt (raw sp)) + (4 + length data) \<le> ds (raw sp)"
    using c by (simp add: accessors has_room_for_def SLOT_LEN_def)
  have "kept_slots (raw sp) 0 = cnt (raw sp)"
  proof (rule antisym)
    show "kept_slots (raw sp) 0 \<le> cnt (raw sp)" by (rule kept_slots(2)) simp
    show "cnt (raw sp) \<le> kept_slots (raw sp) 0"
    proof (rule ccontr)
      assume "\<not> cnt (raw sp) \<le> kept_slots (raw sp) 0"
      then have k: "kept_slots (raw sp) 0 < cnt (raw sp)" by simp
      then have "len (raw sp) (kept_slots (raw sp) 0) \<noteq> 0" using live by (metis atLeast0LessThan image_eqI lessThan_iff list.set_map set_upt)
      with k have "(off (raw sp) (kept_slots (raw sp) 0), len (raw sp) (kept_slots (raw sp) 0),
          kept_slots (raw sp) 0) \<in> set (lives (raw sp))" unfolding set_lives by blast
      then show False using kept_slots(1) by blast
    qed
  qed
  then obtain s2 where 2: "(if c then compact_keeping sp 0 else Inr sp) = Inr s2" "page_inv s2"
    "hdr (raw s2) = hdr (raw sp)" "cells (raw s2) = cells (raw sp)"
    "slot_offset (cnt (raw s2)) + (4 + length data) \<le> ds (raw s2)"
    using make_room [OF inv fit, of 0 c] roomy by auto
  have n: "cnt (raw s2) = cnt (raw sp)" using arg_cong [OF 2(4), of length] by simp
  obtain sp' where 3: "insert_cell s2 data = Inr (sp', Some (cnt (raw s2)))" "page_inv sp'"
    "hdr (raw sp') = hdr (raw s2)" "cells (raw sp') = cells (raw s2) @ [cell_of data]"
    using insert_cell_ok [OF 2(2)] 2(5) by (metis add.assoc)
  have "bindR (if c then compact sp else Inr sp) (\<lambda>sp. insert_cell sp data)
      = Inr (sp', Some (cnt (raw sp)))"
    unfolding compact_def 2(1) bindR_Inr 3(1) n by (rule refl)
  moreover have "cell_map (cells (raw sp')) = (cell_map (cells (raw sp)))(cnt (raw sp) := cell_of data)"
    unfolding 3(4) 2(4) cell_map_append by simp
  ultimately show ?thesis using 3(2-4) 2(3,4) by auto
qed

lemma insert_reusing_ok:
  assumes inv: "page_inv sp"
  shows "\<exists>sp' r. insert_cell_reusing_slot sp data = Inr (sp', r) \<and> page_inv sp'
    \<and> hdr (raw sp') = hdr (raw sp)
    \<and> (case r of
         Some slot \<Rightarrow> cell_map (cells (raw sp)) slot = None
           \<and> cell_map (cells (raw sp')) = (cell_map (cells (raw sp)))(slot := cell_of data)
       | None \<Rightarrow> sp' = sp)
    \<and> fits_reusing_slot sp (length data) = Inr (r \<noteq> None)"
proof -
  let ?ls = "map (len (raw sp)) [0..<cnt (raw sp)]"
  note rec = reclaimable_space_inv(1) [OF inv]
  have room: "has_room_for sp (length data) \<Longrightarrow> 4 + length data \<le> reclaimable (raw sp)"
    using free_le_reclaimable [OF inv] by (simp add: has_room_for_def accessors SLOT_LEN_def)
  show ?thesis
  proof (cases "find_zero ?ls 0")
    case None
    then have live: "0 \<notin> set ?ls" using find_zero(2) by blast
    have f: "fits_reusing_slot sp (length data) = Inr (4 + length data \<le> reclaimable (raw sp))"
      using live rec room
      by (simp add: fits_reusing_slot_def lengths_inv [OF inv] fits_def SLOT_LEN_def)
    show ?thesis
    proof (cases "4 + length data \<le> reclaimable (raw sp)")
      case True
      obtain sp' where sp': "bindR (if \<not> has_room_for sp (length data) then compact sp else Inr sp)
          (\<lambda>sp. insert_cell sp data) = Inr (sp', Some (cnt (raw sp)))"
        "page_inv sp'" "hdr (raw sp') = hdr (raw sp)"
        "cell_map (cells (raw sp')) = (cell_map (cells (raw sp)))(cnt (raw sp) := cell_of data)"
        using append_cell [OF inv True live refl] by blast
      then have "insert_cell_reusing_slot sp data = Inr (sp', Some (cnt (raw sp)))"
        using None rec True
        by (cases "has_room_for sp (length data)")
          (simp_all add: insert_cell_reusing_slot_def lengths_inv [OF inv] SLOT_LEN_def)
      then show ?thesis
        using sp' f True by (intro exI [of _ sp'] exI [of _ "Some (cnt (raw sp))"]) (simp add: cell_map_def)
    next
      case False
      then have "\<not> has_room_for sp (length data)" using room by blast
      then have "insert_cell_reusing_slot sp data = Inr (sp, None)"
        using None rec False
        by (simp add: insert_cell_reusing_slot_def lengths_inv [OF inv] SLOT_LEN_def insert_cell_def
            has_room_for_def)
      then show ?thesis using inv f False by (intro exI [of _ sp] exI [of _ None]) simp
    qed
  next
    case (Some slot)
    then have slot: "slot < cnt (raw sp)" "len (raw sp) slot = 0" "0 \<in> set ?ls"
      using find_zero(1) [OF Some] find_zero(2) [of ?ls 0] by auto
    have f: "fits_reusing_slot sp (length data) = Inr (length data \<le> reclaimable (raw sp))"
      using slot(3) rec by (simp add: fits_reusing_slot_def lengths_inv [OF inv])
    show ?thesis
    proof (cases "length data \<le> reclaimable (raw sp)")
      case True
      obtain sp' where sp': "bindR (if free_space sp < length data then compact_keeping sp (slot + 1) else Inr sp)
          (\<lambda>sp. bindR (place_cell sp slot data) (\<lambda>sp. Inr (sp, Some slot))) = Inr (sp', Some slot)"
        "page_inv sp'" "hdr (raw sp') = hdr (raw sp)"
        "cell_map (cells (raw sp')) = (cell_map (cells (raw sp)))(slot := cell_of data)"
        using reuse_free_slot [OF inv slot(1,2) True] by blast
      then have "insert_cell_reusing_slot sp data = Inr (sp', Some slot)"
        using Some rec True by (simp add: insert_cell_reusing_slot_def lengths_inv [OF inv])
      then show ?thesis
        using sp' f True slot
        by (intro exI [of _ sp'] exI [of _ "Some slot"]) (simp add: cell_map_def cell_def)
    next
      case False
      then have "insert_cell_reusing_slot sp data = Inr (sp, None)"
        using Some rec by (simp add: insert_cell_reusing_slot_def lengths_inv [OF inv])
      then show ?thesis using inv f False by (intro exI [of _ sp] exI [of _ None]) simp
    qed
  qed
qed

subsection \<open>The checks: \<open>check_layout\<close> and \<open>overlapping_cells\<close>\<close>

lemma check_layout_iff:
  "check_layout b = Inr () \<longleftrightarrow> length b = 8188 \<and> slotted_type b \<and> ds b \<le> 8188
     \<and> slot_offset (cnt b) \<le> ds b \<and> (\<forall>i<cnt b. in_page b i)
     \<and> (\<forall>i<cnt b. len b i = 0 \<or> min_cell (b ! 0) \<le> len b i)"
proof -
  have slots: "(\<forall>slot \<in> {0..<cnt b}. check_slot b (ds b) slot) \<longleftrightarrow> (\<forall>i<cnt b. in_page b i)"
  proof -
    have "check_slot b (ds b) i \<longleftrightarrow> in_page b i" for i
      by (simp add: check_slot_def in_page_def Let_def off_def len_def not_less)
    then show ?thesis by (simp add: atLeast0LessThan Ball_def)
  qed
  have entries: "(\<forall>slot \<in> {0..<cnt b}. check_entry b slot)
      \<longleftrightarrow> (\<forall>i<cnt b. len b i = 0 \<or> min_cell (b ! 0) \<le> len b i)"
  proof -
    have "check_entry b i \<longleftrightarrow> len b i = 0 \<or> min_cell (b ! 0) \<le> len b i" for i
      by (simp add: check_entry_def Let_def len_def not_less)
    then show ?thesis by (simp add: atLeast0LessThan Ball_def)
  qed
  show ?thesis
    by (simp add: check_layout_def slotted_type_def cnt_def [symmetric] ds_def [symmetric] slots entries
        Let_def slot_offset_def [symmetric] not_less page_consts split: sum.splits)
       (auto simp: slot_offset_eq; meson not_le)
qed

lemma first_overlap_None:
  assumes "sorted (map fst xs)" and "\<And>p l s. (p, l, s) \<in> set xs \<Longrightarrow> l \<noteq> 0"
  shows "first_overlap xs = None \<longleftrightarrow> sorted_wrt (\<lambda>x y. fst x + fst (snd x) \<le> fst y) xs"
  using assms
proof (induction xs rule: first_overlap.induct)
  case (1 p l s p' l' s' rest)
  have IH: "first_overlap ((p', l', s') # rest) = None
      \<longleftrightarrow> sorted_wrt (\<lambda>x y. fst x + fst (snd x) \<le> fst y) ((p', l', s') # rest)"
    if "\<not> p + l > p'"
    by (rule "1.IH" [OF that]) (use "1.prems" in auto)
  have "\<forall>x \<in> set rest. p' \<le> fst x" using "1.prems"(1) by simp
  then show ?case using IH by (auto intro: order_trans)
qed auto

lemma in_order_iff_disj:
  fixes xs :: "(nat \<times> nat \<times> nat) list"
  assumes mem: "\<And>p l i. (p, l, i) \<in> set xs \<longleftrightarrow> i < cnt b \<and> p = off b i \<and> l = len b i \<and> len b i \<noteq> 0"
    and so: "sorted (map fst xs)" and dist: "distinct (map (\<lambda>(_, _, s). s) xs)"
  shows "sorted_wrt (\<lambda>x y. fst x + fst (snd x) \<le> fst y) xs
    \<longleftrightarrow> (\<forall>i<cnt b. \<forall>j<cnt b. i \<noteq> j \<longrightarrow> disj b i j)"
proof
  assume L: "sorted_wrt (\<lambda>x y. fst x + fst (snd x) \<le> fst y) xs"
  show "\<forall>i<cnt b. \<forall>j<cnt b. i \<noteq> j \<longrightarrow> disj b i j"
  proof (intro allI impI)
    fix i j assume ij: "i < cnt b" "j < cnt b" "i \<noteq> j"
    show "disj b i j"
    proof (cases "len b i = 0 \<or> len b j = 0")
      case False
      then have "(off b i, len b i, i) \<in> set xs" "(off b j, len b j, j) \<in> set xs"
        using ij mem by auto
      then obtain a c where a: "a < length xs" "xs ! a = (off b i, len b i, i)"
        and c: "c < length xs" "xs ! c = (off b j, len b j, j)" by (metis in_set_conv_nth)
      have "a \<noteq> c" using a c ij by auto
      then show ?thesis
        using sorted_wrt_nth_less [OF L, of a c] sorted_wrt_nth_less [OF L, of c a] a c
        by (cases "a < c") (auto simp: disj_def)
    qed (auto simp: disj_def)
  qed
next
  assume R: "\<forall>i<cnt b. \<forall>j<cnt b. i \<noteq> j \<longrightarrow> disj b i j"
  show "sorted_wrt (\<lambda>x y. fst x + fst (snd x) \<le> fst y) xs"
    unfolding sorted_wrt_iff_nth_less
  proof (intro allI impI)
    fix a c assume ac: "a < c" "c < length xs"
    obtain p l i where x: "xs ! a = (p, l, i)" by (cases "xs ! a") auto
    obtain p' l' j where y: "xs ! c = (p', l', j)" by (cases "xs ! c") auto
    have m: "(p, l, i) \<in> set xs" "(p', l', j) \<in> set xs"
      using nth_mem [of a xs] nth_mem [of c xs] ac x y by simp_all
    have "map (\<lambda>(_, _, s). s) xs ! a \<noteq> map (\<lambda>(_, _, s). s) xs ! c"
      using nth_eq_iff_index_eq [OF dist, of a c] ac by simp
    then have "disj b i j" using ac x y R m mem by simp
    moreover have "p \<le> p'" using ac x y sorted_nth_mono [OF so, of a c] by simp
    ultimately show "fst (xs ! a) + fst (snd (xs ! a)) \<le> fst (xs ! c)"
      using m x y mem [of p l i] mem [of p' l' j] by (auto simp: disj_def)
  qed
qed

lemma overlapping_cells_None:
  assumes "length (raw sp) = 8188" and "slot_offset (cnt (raw sp)) \<le> 8188"
  shows "overlapping_cells sp = Inr None
    \<longleftrightarrow> (\<forall>i<cnt (raw sp). \<forall>j<cnt (raw sp). i \<noteq> j \<longrightarrow> disj (raw sp) i j)"
proof -
  let ?b = "raw sp"
  let ?key = "\<lambda>(offset, len, slot). [offset, len, slot]"
  let ?xs = "sort_key ?key (lives ?b)"
  have "mapR (\<lambda>slot. bindR (read_slot sp slot) (\<lambda>(p, l). Inr (p, l, slot))) [0..<cnt ?b]
      = Inr (map (\<lambda>i. (off ?b i, len ?b i, i)) [0..<cnt ?b])"
    using assms by (intro mapR_Inr) (simp add: slot_offset_eq)
  then have run: "overlapping_cells sp = Inr (first_overlap ?xs)"
    by (simp add: overlapping_cells_def live_slots_def accessors lives_def)
  have "sorted (map ?key ?xs)" by simp
  then have "sorted_wrt (\<lambda>x y. fst x \<le> fst y) ?xs"
    unfolding sorted_map by (rule sorted_wrt_mono_rel [rotated]) auto
  then have so: "sorted (map fst ?xs)" by (simp add: sorted_map)
  have "mset (map (\<lambda>(_, _, s). s) ?xs) = mset (map (\<lambda>(_, _, s). s) (lives ?b))" by simp
  then have dist: "distinct (map (\<lambda>(_, _, s). s) ?xs)"
    using distinct_lives [of ?b] mset_eq_imp_distinct_iff by blast
  have "first_overlap ?xs = None \<longleftrightarrow> sorted_wrt (\<lambda>x y. fst x + fst (snd x) \<le> fst y) ?xs"
    using so by (rule first_overlap_None) (simp add: set_lives)
  also have "\<dots> \<longleftrightarrow> (\<forall>i<cnt ?b. \<forall>j<cnt ?b. i \<noteq> j \<longrightarrow> disj ?b i j)"
    by (rule in_order_iff_disj [OF _ so dist]) (simp add: set_lives)
  finally show ?thesis by (simp add: run)
qed

lemma page_inv_iff_checks:
  "page_inv \<lparr>buf = p, valid = True\<rparr> \<longleftrightarrow>
     check_layout (page_bytes p) = Inr () \<and> overlapping_cells \<lparr>buf = p, valid = True\<rparr> = Inr None"
proof -
  let ?sp = "\<lparr>buf = p, valid = True\<rparr>"
  have le: "long_enough ?sp l \<longleftrightarrow> l = 0 \<or> min_cell (page_bytes p ! 0) \<le> l" for l
    by (simp add: long_enough_def)
  show ?thesis
    using overlapping_cells_None [of ?sp]
    by (auto simp: page_inv_def page_ok_def lay_def check_layout_iff le page_consts)
qed

lemma valid_checks: "page_inv sp \<Longrightarrow> valid sp \<Longrightarrow> check_layout (raw sp) = Inr ()"
  using page_inv_iff_checks [of "buf sp"] by (cases sp) simp

lemma slotted_new_inv: "is_slotted t \<Longrightarrow> page_inv (slotted_new t) \<and> cells (raw (slotted_new t)) = []"
proof -
  assume t: "is_slotted t"
  let ?z = "put (replicate USABLE_PAGE_SIZE 0) 0 [type_byte t]"
  let ?b = "put ?z 11 (le_bytes 2 USABLE_PAGE_SIZE)"
  have l: "length ?z = 8188" "length ?b = 8188" by (simp_all add: page_consts)
  have "slice (replicate 8188 (0 :: byte)) 9 2 = [0, 0]"
    by (simp add: slice_def numeral_eq_Suc)
  then have "u_at 2 (replicate 8188 (0 :: byte)) 9 = 0" by (simp add: u_at_def)
  then have c: "cnt ?b = 0"
    using l by (simp add: cnt_def u_at_put_before u_at_put_after page_consts)
  have d: "ds ?b = 8188" using l by (simp add: ds_def u_at_put_same page_consts)
  have "?b ! 0 = type_byte t" using l by (simp add: nth_put page_consts)
  then have "slotted_type ?b" using t by (cases t) (simp_all add: slotted_type_def from_u8_def)
  then show ?thesis
    using l c d by (simp add: page_inv_def page_ok_def lay_def slotted_new_def Let_def slot_offset_eq
        page_consts cells_def)
qed

subsection \<open>What each operation does to a page that keeps the invariant\<close>

lemma next_page_hdr: "hdr (raw sp') = hdr (raw sp) \<Longrightarrow> page_inv sp \<Longrightarrow> page_inv sp' \<Longrightarrow> next_page sp' = next_page sp"
proof -
  assume h: "hdr (raw sp') = hdr (raw sp)" and i: "page_inv sp" "page_inv sp'"
  have "slice b 1 8 = slice (hdr b) 1 8" if "length b = 8188" for b
    using that by (simp add: hdr_def slice_slice)
  then show ?thesis using h page_invD(1) [OF i(1)] page_invD(1) [OF i(2)] by (simp add: next_page_def u_at_def)
qed

text \<open>
  C5. A page passes \<open>check_layout\<close> and has no \<open>overlapping_cells\<close> exactly when it keeps the
  invariant every operation relies on: the directory below the cells, every cell inside the
  page, long enough for its kind, and no two sharing a byte.
\<close>

theorem checks_decide_page_inv:
  "page_inv \<lparr>buf = p, valid = True\<rparr> \<longleftrightarrow>
     check_layout (page_bytes p) = Inr () \<and> overlapping_cells \<lparr>buf = p, valid = True\<rparr> = Inr None"
  by (rule page_inv_iff_checks)

text \<open>
  C6. \<open>insert_cell_at\<close> puts the cell between the slots below and from its slot on, keeping the
  type, the next page and the invariant, exactly when \<open>fits\<close> says so, compacting the page if it
  has to; otherwise the page is untouched. It never panics for a slot up to the count.
\<close>

theorem insert_cell_at_refines:
  assumes "page_inv sp" and "slot \<le> slot_count sp"
  shows "\<exists>sp' fit. insert_cell_at sp slot data = Inr (sp', fit) \<and> fits sp (length data) = Inr fit
    \<and> page_inv sp' \<and> next_page sp' = next_page sp
    \<and> (if fit then cells (raw sp') = take slot (cells (raw sp)) @ [cell_of data] @ drop slot (cells (raw sp))
       else sp' = sp)"
proof (cases "4 + length data \<le> reclaimable (raw sp)")
  case True
  then have "fits sp (length data) = Inr True" using fits_inv [OF assms(1)] by simp
  moreover obtain sp' where "insert_cell_at sp slot data = Inr (sp', True)" "page_inv sp'"
    "hdr (raw sp') = hdr (raw sp)"
    "cells (raw sp') = take slot (cells (raw sp)) @ [cell_of data] @ drop slot (cells (raw sp))"
    using insert_cell_at_ok [OF assms(1) _ True] assms(2) by (auto simp: accessors)
  ultimately show ?thesis using next_page_hdr assms(1) by (metis (full_types))
next
  case False
  then have "fits sp (length data) = Inr False"
    using fits_inv [OF assms(1), of "length data"] free_le_reclaimable [OF assms(1)] by simp
  then have "insert_cell_at sp slot data = Inr (sp, False)"
    using assms(2) by (simp add: insert_cell_at_def)
  then show ?thesis using \<open>fits sp (length data) = Inr False\<close> assms(1) by auto
qed

theorem insert_cell_at_refines_witness:
  "\<exists>sp' fit. insert_cell_at (slotted_new PData) 0 [1] = Inr (sp', fit)
    \<and> fits (slotted_new PData) (length [1 :: byte]) = Inr fit
    \<and> page_inv sp' \<and> next_page sp' = next_page (slotted_new PData)
    \<and> (if fit then cells (raw sp') = take 0 (cells (raw (slotted_new PData))) @ [cell_of [1]]
         @ drop 0 (cells (raw (slotted_new PData)))
       else sp' = slotted_new PData)"
  by (rule insert_cell_at_refines) (simp_all add: slotted_new_inv is_slotted_def)

text \<open>
  \<open>remove_cell_at\<close> takes a live cell's slot out and moves the slots after it down by one; it
  does not panic, and keeps the invariant, the type and the next page.
\<close>

theorem remove_cell_at_refines:
  assumes "page_inv sp" and "get_cell sp slot = Inr (Some c)"
  shows "\<exists>sp'. remove_cell_at sp slot = Inr sp' \<and> page_inv sp' \<and> next_page sp' = next_page sp
    \<and> cells (raw sp') = take slot (cells (raw sp)) @ drop (Suc slot) (cells (raw sp))"
proof -
  have "slot < cnt (raw sp)" "cells (raw sp) ! slot \<noteq> None"
    using assms(2) by (auto simp: get_cell_inv [OF assms(1)] split: if_splits)
  then show ?thesis using remove_cell_at_ok [OF assms(1)] next_page_hdr [OF _ assms(1)] by metis
qed

lemma slotted_with_cell:
  "\<exists>sp. page_inv sp \<and> cells (raw sp) = [Some [7]] \<and> reclaimable (raw sp) = 8170"
proof -
  have n: "page_inv (slotted_new PData)" "cells (raw (slotted_new PData)) = []"
    using slotted_new_inv [of PData] by (simp_all add: is_slotted_def)
  have c: "cnt (raw (slotted_new PData)) = 0" using arg_cong [OF n(2), of length] by simp
  then have "4 + length [7 :: byte] \<le> reclaimable (raw (slotted_new PData))"
    by (simp add: reclaimable_def n(2) live_bytes_def)
  then obtain sp where sp: "page_inv sp" "cells (raw sp) = [Some [7]]"
    using insert_cell_at_ok [OF n(1), of 0 "[7]"] n(2) c by (auto simp: cell_of_def)
  have "cnt (raw sp) = 1" using arg_cong [OF sp(2), of length] by simp
  then have "reclaimable (raw sp) = 8170" using sp(2) by (simp add: reclaimable_def live_bytes_def clen_def)
  then show ?thesis using sp by blast
qed

theorem remove_cell_at_refines_witness:
  "\<exists>sp sp'. get_cell sp 0 = Inr (Some [7]) \<and> remove_cell_at sp 0 = Inr sp' \<and> page_inv sp'
     \<and> cells (raw sp') = []"
proof -
  obtain sp where sp: "page_inv sp" "cells (raw sp) = [Some [7]]" using slotted_with_cell by blast
  then have "get_cell sp 0 = Inr (Some [7])" by (simp add: cell_map_get cell_map_def)
  then show ?thesis using remove_cell_at_refines [OF sp(1), of 0 "[7]"] sp(2) by auto
qed

text \<open>
  C7. \<open>update_cell\<close> gives a live slot its new bytes, in place, by moving the cells below down or
  by compacting, whenever the page's free and dead bytes and the cell's own suffice, and then
  changes no other slot; otherwise it changes nothing.
\<close>

theorem update_cell_refines:
  assumes "page_inv sp" and "get_cell sp slot = Inr (Some old)"
  shows "\<exists>sp' done. update_cell sp slot data = Inr (sp', done) \<and> page_inv sp'
    \<and> next_page sp' = next_page sp
    \<and> (\<exists>r. reclaimable_space sp = Inr r \<and> done = (length data \<le> r + length old))
    \<and> (if done then \<forall>i. get_cell sp' i = (if i = slot then Inr (cell_of data) else get_cell sp i)
       else sp' = sp)"
proof -
  have s: "slot < cnt (raw sp)" "cell (raw sp) slot = Some old"
    using assms(2) by (auto simp: get_cell_inv [OF assms(1)] split: if_splits)
  then have l: "len (raw sp) slot \<noteq> 0" "len (raw sp) slot = length old"
    using clen_cell [OF assms(1) s(1)] by (auto simp: cell_def clen_def split: if_splits)
  obtain sp' where u: "update_cell sp slot data = Inr (sp', length data \<le> reclaimable (raw sp) + length old)"
    "page_inv sp'" "hdr (raw sp') = hdr (raw sp)"
    "if length data \<le> reclaimable (raw sp) + length old
     then cell_map (cells (raw sp')) = (cell_map (cells (raw sp)))(slot := cell_of data) else sp' = sp"
    using update_cell_ok [OF assms(1) s(1) l(1), of data] l(2) by auto
  show ?thesis
    using u(1,2,4) next_page_hdr [OF u(3) assms(1) u(2)] reclaimable_space_inv(1) [OF assms(1)]
    by (auto simp: cell_map_get [OF assms(1)] cell_map_get [OF u(2)])
qed

theorem update_cell_refines_witness:
  "\<exists>sp sp'. get_cell sp 0 = Inr (Some [7]) \<and> update_cell sp 0 [8, 9] = Inr (sp', True)
     \<and> get_cell sp' 0 = Inr (Some [8, 9])"
proof -
  obtain sp where sp: "page_inv sp" "cells (raw sp) = [Some [7]]" "reclaimable (raw sp) = 8170"
    using slotted_with_cell by blast
  then have "get_cell sp 0 = Inr (Some [7])" by (simp add: cell_map_get cell_map_def)
  then show ?thesis
    using update_cell_refines [OF sp(1), of 0 "[7]" "[8, 9]"] reclaimable_space_inv(1) [OF sp(1)] sp(3)
    by (auto simp: cell_of_def split: if_splits)
qed

text \<open>
  \<open>insert_cell_reusing_slot\<close> gives a new cell a slot that held none, and changes no other;
  it returns none, leaving the page as it was, exactly when \<open>fits_reusing_slot\<close> says the cell
  does not fit.
\<close>

theorem insert_cell_reusing_slot_refines:
  assumes "page_inv sp"
  shows "\<exists>sp' r. insert_cell_reusing_slot sp data = Inr (sp', r) \<and> page_inv sp'
    \<and> next_page sp' = next_page sp
    \<and> fits_reusing_slot sp (length data) = Inr (r \<noteq> None)
    \<and> (case r of
         Some slot \<Rightarrow> get_cell sp slot = Inr None
           \<and> (\<forall>i. get_cell sp' i = (if i = slot then Inr (cell_of data) else get_cell sp i))
       | None \<Rightarrow> sp' = sp)"
proof -
  obtain sp' r where u: "insert_cell_reusing_slot sp data = Inr (sp', r)" "page_inv sp'"
    "hdr (raw sp') = hdr (raw sp)" "fits_reusing_slot sp (length data) = Inr (r \<noteq> None)"
    "case r of
         Some slot \<Rightarrow> cell_map (cells (raw sp)) slot = None
           \<and> cell_map (cells (raw sp')) = (cell_map (cells (raw sp)))(slot := cell_of data)
       | None \<Rightarrow> sp' = sp"
    using insert_reusing_ok [OF assms, of data] by blast
  show ?thesis
    using u(1,2,4,5) next_page_hdr [OF u(3) assms u(2)]
    by (intro exI [of _ sp'] exI [of _ r])
      (auto simp: cell_map_get [OF assms] cell_map_get [OF u(2)] split: option.splits)
qed

theorem insert_cell_reusing_slot_refines_witness:
  "\<exists>sp' r. insert_cell_reusing_slot (slotted_new PData) [1] = Inr (sp', r) \<and> page_inv sp'
    \<and> next_page sp' = next_page (slotted_new PData)
    \<and> fits_reusing_slot (slotted_new PData) (length [1 :: byte]) = Inr (r \<noteq> None)
    \<and> (case r of
         Some slot \<Rightarrow> get_cell (slotted_new PData) slot = Inr None
           \<and> (\<forall>i. get_cell sp' i = (if i = slot then Inr (cell_of [1]) else get_cell (slotted_new PData) i))
       | None \<Rightarrow> sp' = slotted_new PData)"
  by (rule insert_cell_reusing_slot_refines) (simp add: slotted_new_inv is_slotted_def)

text \<open>
  \<open>compact\<close> moves no cell to another slot and loses none, and turns every dead byte into
  free space.
\<close>

theorem compact_keeps_cells:
  assumes "page_inv sp"
  shows "\<exists>sp'. compact sp = Inr sp' \<and> page_inv sp' \<and> next_page sp' = next_page sp
    \<and> (\<forall>i. get_cell sp' i = get_cell sp i)
    \<and> reclaimable_space sp' = Inr (free_space sp')"
proof -
  obtain sp' where u: "compact sp = Inr sp'" "page_inv sp'" "hdr (raw sp') = hdr (raw sp)"
    "cells (raw sp') = take (kept_slots (raw sp) 0) (cells (raw sp))"
    "ds (raw sp') + live_bytes (cells (raw sp)) = 8188"
    using compact_keeping_ok [OF assms, of 0] by (auto simp: compact_def)
  have m: "cell_map (cells (raw sp')) = cell_map (cells (raw sp))"
    unfolding u(4) by (rule cell_map_kept) simp
  have n: "cnt (raw sp') = kept_slots (raw sp) 0"
    using arg_cong [OF u(4), of length] kept_slots(2) [of 0 "raw sp"] by simp
  have "cell (raw sp) i = None" if "kept_slots (raw sp) 0 \<le> i" "i < cnt (raw sp)" for i
    using fun_cong [OF m, of i] that n by (simp add: cell_map_def)
  then have "drop (kept_slots (raw sp) 0) (cells (raw sp))
      = replicate (cnt (raw sp) - kept_slots (raw sp) 0) None"
    by (intro nth_equalityI) simp_all
  then have "live_bytes (drop (kept_slots (raw sp) 0) (cells (raw sp))) = 0"
    by (simp add: live_bytes_def clen_def sum_list_replicate)
  then have "live_bytes (cells (raw sp')) = live_bytes (cells (raw sp))"
    using u(4) by (metis (no_types, lifting) add.right_neutral append_take_drop_id live_bytes_def map_append sum_list_append)
  then have "reclaimable (raw sp') = free_space sp'"
    using u(5) page_invD(3) [OF u(2)] by (simp add: reclaimable_def accessors slot_offset_eq)
  then show ?thesis
    using u(1,2) m next_page_hdr [OF u(3) assms u(2)] reclaimable_space_inv(1) [OF u(2)]
    by (auto simp: cell_map_get [OF assms] cell_map_get [OF u(2)])
qed

theorem compact_keeps_cells_witness:
  "\<exists>sp'. compact (slotted_new PData) = Inr sp' \<and> page_inv sp'
    \<and> next_page sp' = next_page (slotted_new PData)
    \<and> (\<forall>i. get_cell sp' i = get_cell (slotted_new PData) i)
    \<and> reclaimable_space sp' = Inr (free_space sp')"
  by (rule compact_keeps_cells) (simp add: slotted_new_inv is_slotted_def)

end
