(* ===== verification/Values.thy ===== *)
theory Values
  imports Document
begin

text \<open>
  Comparing values (\<open>src/src/query.rs\<close>: \<open>compare\<close>, \<open>int_vs_float\<close>, \<open>sort_order\<close> and what they
  use). An \<open>f64\<close> is its 64 bits; \<open>fval\<close> is its value times \<open>2 ^ 1074\<close>, an integer for every
  finite float, and past every finite one for the infinities, so that comparing floats is
  comparing integers. \<open>as_f64\<close> is Rust's \<open>i64 as f64\<close>, rounding to the nearest float, ties to
  even. \<open>trunc\<close>, whose result Rust gives as a float, is given as the integer it equals.

  The lemmas: comparing an \<open>Int\<close> with a \<open>Float\<close> is exact; \<open>sort_order\<close> is a total preorder; the
  rounding is monotonic, and exact up to \<open>2 ^ 53\<close>.
\<close>

subsection \<open>Orderings\<close>

datatype ordering = Less | Equal | Greater

fun reverse :: "ordering \<Rightarrow> ordering" where
  "reverse Less = Greater"
| "reverse Equal = Equal"
| "reverse Greater = Less"

definition cmp :: "'a::linorder \<Rightarrow> 'a \<Rightarrow> ordering" where
  "cmp x y = (if x < y then Less else if x = y then Equal else Greater)"

definition then_with :: "ordering \<Rightarrow> ordering \<Rightarrow> ordering" where
  "then_with o1 o2 = (if o1 = Equal then o2 else o1)"

lemma cmp_simps [simp]:
  "cmp x y = Less \<longleftrightarrow> x < y" "cmp x y = Equal \<longleftrightarrow> x = y" "cmp x y = Greater \<longleftrightarrow> y < x"
  "cmp x x = Equal"
  by (auto simp: cmp_def)

lemma reverse_cmp [simp]: "reverse (cmp x y) = cmp y x"
  by (auto simp: cmp_def)

lemma reverse_reverse [simp]: "reverse (reverse c) = c"
  by (cases c) simp_all

lemma reverse_iff [simp]:
  "reverse c = Less \<longleftrightarrow> c = Greater" "reverse c = Equal \<longleftrightarrow> c = Equal" "reverse c = Greater \<longleftrightarrow> c = Less"
  by (cases c; simp)+

lemma then_with_simps [simp]: "then_with Equal c = c" "then_with Less c = Less" "then_with Greater c = Greater"
  by (simp_all add: then_with_def)

lemma then_with_Equal [simp]: "then_with c Equal = c"
  by (simp add: then_with_def)

subsection \<open>Floats\<close>

definition f_sign :: "f64 \<Rightarrow> bool" where
  "f_sign f \<longleftrightarrow> 2 ^ 63 \<le> unat f"

definition f_low :: "f64 \<Rightarrow> nat" where
  "f_low f = unat f mod 2 ^ 63"

text \<open>Of a float's low 63 bits, exponent above fraction.\<close>

definition mag :: "nat \<Rightarrow> nat" where
  "mag m = (let e = m div 2 ^ 52; f = m mod 2 ^ 52 in if e = 0 then f else (2 ^ 52 + f) * 2 ^ (e - 1))"

definition fval :: "f64 \<Rightarrow> int" where
  "fval f = (if f_sign f then - int (mag (f_low f)) else int (mag (f_low f)))"

definition is_nan :: "f64 \<Rightarrow> bool" where
  "is_nan f \<longleftrightarrow> 2047 * 2 ^ 52 < f_low f"

definition SCALE :: int where
  "SCALE = 2 ^ 1074"

definition f_partial_cmp :: "f64 \<Rightarrow> f64 \<Rightarrow> ordering option" where
  "f_partial_cmp x y = (if is_nan x \<or> is_nan y then None else Some (cmp (fval x) (fval y)))"

text \<open>\<open>i64 as f64\<close>: \<open>round_mag a\<close> are the low 63 bits of the float nearest to \<open>a \<noteq> 0\<close>.\<close>

fun log2 :: "nat \<Rightarrow> nat" where
  "log2 a = (if a < 2 then 0 else Suc (log2 (a div 2)))"

declare log2.simps [simp del]

definition half_even :: "nat \<Rightarrow> nat \<Rightarrow> nat" where
  "half_even a s =
     (let q = a div 2 ^ s; r = a mod 2 ^ s
      in if 2 * r > 2 ^ s \<or> (2 * r = 2 ^ s \<and> odd q) then q + 1 else q)"

definition round_mag :: "nat \<Rightarrow> nat" where
  "round_mag a =
     (let k = log2 a
      in (k + 1022) * 2 ^ 52 + (if k \<le> 52 then a * 2 ^ (52 - k) else half_even a (k - 52)))"

definition as_f64 :: "i64 \<Rightarrow> f64" where
  "as_f64 i =
     (if sint i = 0 then 0
      else of_nat (round_mag (nat \<bar>sint i\<bar>) + (if sint i < 0 then 2 ^ 63 else 0)))"

text \<open>\<open>f.trunc()\<close>, as the integer it equals: towards zero.\<close>

definition f_trunc :: "f64 \<Rightarrow> int" where
  "f_trunc f = (if fval f < 0 then - ((- fval f) div SCALE) else fval f div SCALE)"

text \<open>\<open>as i64\<close> of a whole float, which saturates.\<close>

definition as_i64 :: "int \<Rightarrow> int" where
  "as_i64 z = max (- (2 ^ 63)) (min (2 ^ 63 - 1) z)"

definition TWO_POW_63 :: int where
  "TWO_POW_63 = 2 ^ 63"

definition int_vs_float :: "i64 \<Rightarrow> f64 \<Rightarrow> ordering option" where
  "int_vs_float i f =
     (if is_nan f then None
      else if fval f \<ge> TWO_POW_63 * SCALE then Some Less
      else if fval f < - TWO_POW_63 * SCALE then Some Greater
      else let whole = f_trunc f
        in Some (then_with (cmp (sint i) (as_i64 whole)) (cmp (whole * SCALE) (fval f))))"

subsection \<open>Comparing and sorting documents\<close>

definition cmp_datetime :: "datetime \<Rightarrow> datetime \<Rightarrow> ordering" where
  "cmp_datetime x y = then_with (cmp (sint (secs x)) (sint (secs y))) (cmp (nanos x) (nanos y))"

definition compare :: "document \<Rightarrow> document \<Rightarrow> ordering option" where
  "compare a b =
     (case (a, b) of
        (Null, Null) \<Rightarrow> Some Equal
      | (Integer x, Integer y) \<Rightarrow> Some (cmp (sint x) (sint y))
      | (Float x, Float y) \<Rightarrow> f_partial_cmp x y
      | (Integer x, Float y) \<Rightarrow> int_vs_float x y
      | (Float x, Integer y) \<Rightarrow> map_option reverse (int_vs_float y x)
      | (String x, String y) \<Rightarrow> Some (cmp x y)
      | (Bool x, Bool y) \<Rightarrow> Some (cmp x y)
      | (Id x, Id y) \<Rightarrow> Some (cmp x y)
      | (DateTime x, DateTime y) \<Rightarrow> Some (cmp_datetime x y)
      | (Binary x, Binary y) \<Rightarrow> Some (cmp x y)
      | _ \<Rightarrow> None)"

definition equal_docs :: "document \<Rightarrow> document \<Rightarrow> bool" where
  "equal_docs a b \<longleftrightarrow> compare a b = Some Equal"

definition UNORDERED :: nat where
  "UNORDERED = 7"

fun sort_rank :: "document \<Rightarrow> nat" where
  "sort_rank Null = 0"
| "sort_rank (Bool _) = 1"
| "sort_rank (Float f) = (if is_nan f then UNORDERED else 2)"
| "sort_rank (Integer _) = 2"
| "sort_rank (String _) = 3"
| "sort_rank (Id _) = 4"
| "sort_rank (DateTime _) = 5"
| "sort_rank (Binary _) = 6"
| "sort_rank _ = UNORDERED"

definition is_unordered :: "document \<Rightarrow> bool" where
  "is_unordered v \<longleftrightarrow> sort_rank v = UNORDERED"

datatype sort_dir = Asc | Desc

definition sort_order :: "document \<Rightarrow> document \<Rightarrow> sort_dir \<Rightarrow> ordering res" where
  "sort_order a b order =
     (let rank_a = sort_rank a; rank_b = sort_rank b in
      if rank_a = UNORDERED \<or> rank_b = UNORDERED then Inr (cmp rank_a rank_b)
      else bindR
        (if cmp rank_a rank_b = Equal
         then (case compare a b of Some c \<Rightarrow> Inr c | None \<Rightarrow> Inl Panic)
         else Inr (cmp rank_a rank_b))
        (\<lambda>c. Inr (case order of Asc \<Rightarrow> c | Desc \<Rightarrow> reverse c)))"

text \<open>\<open>compare_values\<close>: by the first sort key that tells the values apart.\<close>

fun compare_values :: "sort_dir list \<Rightarrow> document list \<Rightarrow> document list \<Rightarrow> ordering res" where
  "compare_values (d # ds) (a # as) (b # bs) =
     bindR (sort_order a b d) (\<lambda>c. if c \<noteq> Equal then Inr c else compare_values ds as bs)"
| "compare_values _ _ _ = Inr Equal"

subsection \<open>Matching one value\<close>

datatype op = Eq | Ne | Lt | Lte | Gt | Gte | Contains | StartsWith

definition is_whole :: "document \<Rightarrow> bool" where
  "is_whole v = (case v of Array _ \<Rightarrow> True | Object _ \<Rightarrow> True | _ \<Rightarrow> False)"

lemma size_item: "d \<in> set ds \<Longrightarrow> size d < size (Array ds)"
  by (simp add: less_Suc_eq_le size_list_estimation')

lemma size_field: "(k, v) \<in> set m \<Longrightarrow> size v < size (Object m)"
  using size_list_estimation' [of "(k, v)" m "size v" "size_prod (\<lambda>_. 0) size"] by simp

function (sequential) equal_values :: "im_ops \<Rightarrow> document \<Rightarrow> document \<Rightarrow> bool" where
  "equal_values im (Array x) (Array y) \<longleftrightarrow>
     length x = length y \<and> (\<forall>(x, y) \<in> set (zip x y). equal_values im x y)"
| "equal_values im (Object x) (Object y) \<longleftrightarrow>
     length x = length y \<and>
     (\<forall>(key, v) \<in> set x. case im_get im y key of None \<Rightarrow> False | Some other \<Rightarrow> equal_values im v other)"
| "equal_values im (Binary x) (Binary y) \<longleftrightarrow> x = y"
| "equal_values im a b \<longleftrightarrow> equal_docs a b"
  by pat_completeness auto

termination
  by (relation "measure (\<lambda>(_, a, _). size a)")
    (auto dest!: set_zip_leftD dest: size_item size_field)

definition starts_with :: "bytes \<Rightarrow> bytes \<Rightarrow> bool" where
  "starts_with s p \<longleftrightarrow> take (length p) s = p"

fun contains_str :: "bytes \<Rightarrow> bytes \<Rightarrow> bool" where
  "contains_str [] needle \<longleftrightarrow> needle = []"
| "contains_str (b # hay) needle \<longleftrightarrow> starts_with (b # hay) needle \<or> contains_str hay needle"

text \<open>Folding case: \<open>to_lowercase\<close>, a parameter, and \<open>ss\<close> for a sharp s (bytes C3 9F).\<close>

fun replace_sharp_s :: "bytes \<Rightarrow> bytes" where
  "replace_sharp_s (a # b # s) =
     (if a = 0xC3 \<and> b = 0x9F then ascii ''ss'' @ replace_sharp_s s else a # replace_sharp_s (b # s))"
| "replace_sharp_s s = s"

definition fold_case :: "(bytes \<Rightarrow> bytes) \<Rightarrow> bytes \<Rightarrow> bytes" where
  "fold_case to_lowercase s = replace_sharp_s (to_lowercase s)"

fun holds :: "op \<Rightarrow> ordering option \<Rightarrow> bool" where
  "holds Eq (Some Equal) \<longleftrightarrow> True"
| "holds Ne c \<longleftrightarrow> c \<noteq> Some Equal"
| "holds Lt (Some Less) \<longleftrightarrow> True"
| "holds Lte (Some c) \<longleftrightarrow> c \<noteq> Greater"
| "holds Gt (Some Greater) \<longleftrightarrow> True"
| "holds Gte (Some c) \<longleftrightarrow> c \<noteq> Less"
| "holds _ _ \<longleftrightarrow> False"

definition value_matches :: "im_ops \<Rightarrow> (bytes \<Rightarrow> bytes) \<Rightarrow> op \<Rightarrow> document \<Rightarrow> document \<Rightarrow> bool" where
  "value_matches im lower op field_value value =
     (if op = StartsWith then
        (case (field_value, value) of
           (String text, String pre) \<Rightarrow> starts_with text pre
         | (Binary bytes, Binary pre) \<Rightarrow> starts_with bytes pre
         | _ \<Rightarrow> False)
      else if op = Contains then
        (case (field_value, value) of
           (String haystack, String needle) \<Rightarrow>
             contains_str (fold_case lower haystack) (fold_case lower needle)
         | _ \<Rightarrow> False)
      else if is_whole field_value \<or> is_whole value then
        (case op of
           Eq \<Rightarrow> equal_values im field_value value
         | Ne \<Rightarrow> \<not> equal_values im field_value value
         | _ \<Rightarrow> False)
      else holds op (compare field_value value))"

definition any_matches :: "im_ops \<Rightarrow> (bytes \<Rightarrow> bytes) \<Rightarrow> op \<Rightarrow> document \<Rightarrow> document list \<Rightarrow> bool" where
  "any_matches im lower op value values =
     (if op = Ne then \<not> (\<exists>v \<in> set values. value_matches im lower Eq v value)
      else \<exists>v \<in> set values. value_matches im lower op v value)"

subsection \<open>The magnitude of a float grows with its bits\<close>

lemma mag_parts: "f < 2 ^ 52 \<Longrightarrow> mag (e * 2 ^ 52 + f) = (if e = 0 then f else (2 ^ 52 + f) * 2 ^ (e - 1))"
  by (simp add: mag_def Let_def)

lemma mag_Suc: "mag m < mag (Suc m)"
proof -
  define e f where "e = m div 2 ^ 52" and "f = m mod 2 ^ 52"
  have f: "f < 2 ^ 52" and m: "m = e * 2 ^ 52 + f" by (simp_all add: e_def f_def)
  note parts = mag_parts [OF f, of e]
  show ?thesis
  proof (cases "Suc f < 2 ^ 52")
    case True
    have "Suc m = e * 2 ^ 52 + Suc f" unfolding m by simp
    then show ?thesis unfolding m using parts mag_parts [OF True, of e] by simp
  next
    case False
    then have l: "Suc f = 2 ^ 52" using f by simp
    then have "Suc m = Suc e * 2 ^ 52 + 0" unfolding m by simp
    then have s: "mag (Suc m) = 2 ^ 52 * 2 ^ e" using mag_parts [of 0 "Suc e"] by simp
    have "(2 ^ 52 + f) * 2 ^ (e - 1) < 2 ^ 52 * 2 ^ e" if "e \<noteq> 0"
    proof -
      have "(2 :: nat) ^ e = 2 * 2 ^ (e - 1)" using that by (cases e) simp_all
      then show ?thesis using l by simp
    qed
    moreover have "mag m = (if e = 0 then f else (2 ^ 52 + f) * 2 ^ (e - 1))" using parts m by simp
    ultimately show ?thesis unfolding s using f by simp
  qed
qed

lemma mag_strict_mono: "mag m < mag n \<longleftrightarrow> m < n"
  using lift_Suc_mono_less_iff [of mag, OF mag_Suc] by blast

lemma mag_inj: "mag m = mag n \<longleftrightarrow> m = n"
  using mag_strict_mono [of m n] mag_strict_mono [of n m] by (auto simp: linorder_neq_iff)

lemma mag_0 [simp]: "mag 0 = 0" by (simp add: mag_def)

lemma mag_pos: "0 < m \<Longrightarrow> 0 < mag m"
  using mag_strict_mono [of 0 m] by simp

lemma mag_split:
  assumes "q \<le> 2 ^ 53" and "2 ^ 52 \<le> q"
  shows "mag (k * 2 ^ 52 + q) = q * 2 ^ k"
proof (cases "q = 2 ^ 53")
  case True
  then have "k * 2 ^ 52 + q = (k + 2) * 2 ^ 52" by simp
  then have "(k * 2 ^ 52 + q) div 2 ^ 52 = k + 2" "(k * 2 ^ 52 + q) mod 2 ^ 52 = 0" by simp_all
  then show ?thesis using True by (simp add: mag_def Let_def)
next
  case False
  define f where "f = q - 2 ^ 52"
  have "f < 2 ^ 52" "k * 2 ^ 52 + q = (k + 1) * 2 ^ 52 + f" using assms False by (simp_all add: f_def)
  then have "(k * 2 ^ 52 + q) div 2 ^ 52 = k + 1" "(k * 2 ^ 52 + q) mod 2 ^ 52 = f"
    by (simp_all add: div_nat_eqI)
  then show ?thesis using assms by (simp add: mag_def Let_def f_def)
qed

subsection \<open>Rounding an integer to a float\<close>

lemma log2_bounds: "0 < a \<Longrightarrow> 2 ^ log2 a \<le> a \<and> a < 2 ^ Suc (log2 a)"
proof (induction a rule: log2.induct)
  case (1 a)
  show ?case
  proof (cases "a < 2")
    case True then show ?thesis using 1(2) by (subst (1 2) log2.simps) simp
  next
    case False
    then have "2 ^ log2 (a div 2) \<le> a div 2 \<and> a div 2 < 2 ^ Suc (log2 (a div 2))" using 1 by simp
    then show ?thesis using False by (subst (1 2) log2.simps) auto
  qed
qed

lemma log2_mono:
  assumes "0 < a" "a \<le> b" shows "log2 a \<le> log2 b"
proof -
  have "(2 :: nat) ^ log2 a < 2 ^ Suc (log2 b)"
    using log2_bounds [of a] log2_bounds [of b] assms by linarith
  then show ?thesis by (simp add: power_strict_increasing_iff del: power_Suc)
qed

lemma half_even_mono:
  assumes "a \<le> b" shows "half_even a s \<le> half_even b s"
proof -
  let ?n = "(2 :: nat) ^ s"
  have q: "a div ?n \<le> b div ?n" using assms by (rule div_le_mono)
  show ?thesis
  proof (cases "a div ?n = b div ?n")
    case True
    then have "a mod ?n \<le> b mod ?n"
      using assms div_mult_mod_eq [of a ?n] div_mult_mod_eq [of b ?n] by simp
    then show ?thesis using True by (auto simp: half_even_def Let_def)
  next
    case False
    then show ?thesis using q by (auto simp: half_even_def Let_def)
  qed
qed

lemma half_even_bounds: "2 ^ k \<le> a \<Longrightarrow> a < 2 ^ Suc k \<Longrightarrow> s \<le> k \<Longrightarrow>
  2 ^ (k - s) \<le> half_even a s \<and> half_even a s \<le> 2 ^ Suc (k - s)"
proof -
  assume a: "2 ^ k \<le> a" "a < 2 ^ Suc k" "s \<le> k"
  have "(2 :: nat) ^ k = 2 ^ (k - s) * 2 ^ s" using a(3) by (simp flip: power_add)
  then have "2 ^ (k - s) \<le> a div 2 ^ s" "a div 2 ^ s < 2 ^ Suc (k - s)"
    using a by (simp_all add: less_eq_div_iff_mult_less_eq div_less_iff_less_mult)
  then show ?thesis by (auto simp: half_even_def Let_def)
qed

text \<open>The significand \<open>as_f64\<close> gives a number of \<open>k + 1\<close> bits, of 53 bits, or \<open>2 ^ 53\<close>.\<close>

definition significand :: "nat \<Rightarrow> nat" where
  "significand a = (let k = log2 a in if k \<le> 52 then a * 2 ^ (52 - k) else half_even a (k - 52))"

lemma significand_bounds:
  assumes "0 < a" shows "2 ^ 52 \<le> significand a" "significand a \<le> 2 ^ 53"
proof -
  note l = log2_bounds [OF assms]
  have "2 ^ 52 \<le> significand a \<and> significand a \<le> 2 ^ 53"
  proof (cases "log2 a \<le> 52")
    case True
    then have sig: "significand a = a * 2 ^ (52 - log2 a)" by (simp add: significand_def Let_def)
    have e: "2 ^ log2 a * 2 ^ (52 - log2 a) = (2 :: nat) ^ 52" using True by (simp flip: power_add)
    then have e2: "(2 * 2 ^ log2 a) * 2 ^ (52 - log2 a) = (2 :: nat) ^ 53" by simp
    have "2 ^ log2 a * 2 ^ (52 - log2 a) \<le> significand a" unfolding sig using l by simp
    moreover have "significand a \<le> (2 * 2 ^ log2 a) * 2 ^ (52 - log2 a)"
      unfolding sig using l by (intro mult_right_mono) simp_all
    ultimately show ?thesis unfolding e e2 by blast
  next
    case False
    then show ?thesis
      using half_even_bounds [of "log2 a" a "log2 a - 52"] l by (simp add: significand_def Let_def)
  qed
  then show "2 ^ 52 \<le> significand a" "significand a \<le> 2 ^ 53" by simp_all
qed

lemma mag_round:
  assumes "0 < a" shows "mag (round_mag a) = significand a * 2 ^ (log2 a + 1022)"
  using mag_split [OF significand_bounds(2,1) [OF assms], of "log2 a + 1022"]
  by (simp add: round_mag_def significand_def Let_def)

lemma mag_round_exact:
  assumes "0 < a" "a \<le> 2 ^ 53" shows "mag (round_mag a) = a * 2 ^ 1074"
proof (cases "log2 a \<le> 52")
  case True
  have "a * 2 ^ (52 - log2 a) * 2 ^ (log2 a + 1022) = a * 2 ^ ((52 - log2 a) + (log2 a + 1022))"
    by (simp only: power_add mult.assoc)
  moreover have "(52 - log2 a) + (log2 a + 1022) = 1074" using True by simp
  ultimately show ?thesis
    using True by (simp only: mag_round [OF assms(1)] significand_def Let_def if_True)
next
  case False
  have "2 ^ log2 a \<le> a" using log2_bounds assms(1) by blast
  moreover have "(2 :: nat) ^ 53 \<le> 2 ^ log2 a" using False by (intro power_increasing) simp_all
  ultimately have a: "a = 2 ^ 53" using assms(2) by linarith
  have "(2 :: nat) ^ log2 a < 2 ^ 54" using \<open>2 ^ log2 a \<le> a\<close> a by simp
  then have "log2 a < 54" by (rule power_less_imp_less_exp [rotated]) simp
  then have lg: "log2 a = 53" using False by simp
  then have sig: "significand a = 2 ^ 52" using a by (simp add: significand_def half_even_def Let_def)
  have "(2 :: nat) ^ 52 * 2 ^ (53 + 1022) = 2 ^ 53 * 2 ^ 1074" by (simp flip: power_add)
  then show ?thesis unfolding mag_round [OF assms(1)] sig lg using a by simp
qed

lemma mag_round_mono:
  assumes "0 < a" "a \<le> b" shows "mag (round_mag a) \<le> mag (round_mag b)"
proof (cases "log2 a = log2 b")
  case True
  then have "significand a \<le> significand b"
    using assms(2) half_even_mono [OF assms(2)] by (simp add: significand_def Let_def)
  then show ?thesis using assms True by (simp add: mag_round)
next
  case False
  then have l: "log2 a < log2 b" using log2_mono [OF assms] by simp
  have b: "0 < b" using assms by simp
  have "significand a * 2 ^ (log2 a + 1022) \<le> 2 ^ 53 * 2 ^ (log2 a + 1022)"
    using significand_bounds(2) [OF assms(1)] by (rule mult_right_mono) simp
  also have "\<dots> = 2 ^ 52 * 2 ^ (log2 a + 1 + 1022)" by (simp add: power_add)
  also have "\<dots> \<le> significand b * 2 ^ (log2 b + 1022)"
    using significand_bounds(1) [OF b] l by (intro mult_mono power_increasing) simp_all
  finally show ?thesis using assms b by (simp add: mag_round)
qed

text \<open>No float lies strictly between a number and the float it rounds to.\<close>

lemma round_mag_nearest:
  assumes "0 < a"
  shows "a * 2 ^ 1074 \<le> mag m \<Longrightarrow> mag (round_mag a) \<le> mag m"
    and "mag m \<le> a * 2 ^ 1074 \<Longrightarrow> mag m \<le> mag (round_mag a)"
proof -
  have "(a * 2 ^ 1074 \<le> mag m \<longrightarrow> mag (round_mag a) \<le> mag m)
      \<and> (mag m \<le> a * 2 ^ 1074 \<longrightarrow> mag m \<le> mag (round_mag a))"
  proof (cases "log2 a \<le> 52")
    case True
    have "a < 2 ^ Suc (log2 a)" using log2_bounds [OF assms] by simp
    also have "\<dots> \<le> 2 ^ 53" using True by (intro power_increasing) simp_all
    finally show ?thesis using mag_round_exact [OF assms] by simp
  next
    case False
    define k s q where "k = log2 a" and "s = k - 52" and "q = a div 2 ^ s"
    define M where "M = (k + 1022) * 2 ^ 52 + q"
    have k: "2 ^ k \<le> a" "a < 2 ^ Suc k" using log2_bounds [OF assms] by (simp_all add: k_def)
    have s: "s \<le> k" "k - s = 52" "k + 1022 = s + 1074" using False by (simp_all add: s_def k_def)
    have "(2 :: nat) ^ k = 2 ^ 52 * 2 ^ s" using s(1,2) by (metis le_add_diff_inverse2 power_add)
    then have q: "2 ^ 52 \<le> q" "q < 2 ^ 53"
      using k by (simp_all add: q_def less_eq_div_iff_mult_less_eq div_less_iff_less_mult)
    have m0: "mag M = q * 2 ^ s * 2 ^ 1074" and m1: "mag (M + 1) = (q + 1) * 2 ^ s * 2 ^ 1074"
      using mag_split [of q "k + 1022"] mag_split [of "q + 1" "k + 1022"] q
      by (simp_all only: M_def s(3) power_add mult.assoc add.assoc)
    have r: "round_mag a = M \<or> round_mag a = M + 1" "a mod 2 ^ s = 0 \<Longrightarrow> round_mag a = M"
      using False by (simp_all add: round_mag_def Let_def M_def q_def s_def k_def half_even_def)
    have lo: "q * 2 ^ s \<le> a" and hi: "a < (q + 1) * 2 ^ s" and ex: "q * 2 ^ s = a \<Longrightarrow> a mod 2 ^ s = 0"
    proof -
      have a: "q * 2 ^ s + a mod 2 ^ s = a" unfolding q_def by (rule div_mult_mod_eq)
      have "a mod 2 ^ s < 2 ^ s" by simp
      then show "q * 2 ^ s \<le> a" "a < (q + 1) * 2 ^ s" "q * 2 ^ s = a \<Longrightarrow> a mod 2 ^ s = 0"
        using a unfolding distrib_right by linarith+
    qed
    have "mag (round_mag a) \<le> mag m" if "a * 2 ^ 1074 \<le> mag m"
    proof (cases "q * 2 ^ s = a")
      case True
      then show ?thesis using r(2) ex m0 that by simp
    next
      case False
      then have "q * 2 ^ s * 2 ^ 1074 < a * 2 ^ 1074" using lo by (intro mult_strict_right_mono) simp_all
      then have "mag M < mag m" using m0 that by simp
      then have "M + 1 \<le> m" by (simp add: mag_strict_mono)
      then have "round_mag a \<le> m" using r(1) by auto
      then show ?thesis using mag_strict_mono [of m "round_mag a"] by (simp add: not_less [symmetric])
    qed
    moreover have "mag m \<le> mag (round_mag a)" if "mag m \<le> a * 2 ^ 1074"
    proof -
      have "a * 2 ^ 1074 < (q + 1) * 2 ^ s * 2 ^ 1074" using hi by (intro mult_strict_right_mono) simp_all
      then have "mag m < mag (M + 1)" using m1 that by simp
      then have "m \<le> round_mag a" using r(1) by (auto simp: mag_strict_mono)
      then show ?thesis using mag_strict_mono [of "round_mag a" m] by (simp add: not_less [symmetric])
    qed
    ultimately show ?thesis by blast
  qed
  then show "a * 2 ^ 1074 \<le> mag m \<Longrightarrow> mag (round_mag a) \<le> mag m"
    and "mag m \<le> a * 2 ^ 1074 \<Longrightarrow> mag m \<le> mag (round_mag a)" by blast+
qed

lemma round_mag_lt:
  assumes "0 < a" "a \<le> 2 ^ 63" shows "round_mag a < 2047 * 2 ^ 52"
proof -
  have "(2 :: nat) ^ log2 a < 2 ^ 64" using log2_bounds [OF assms(1)] assms(2) by simp
  then have "log2 a < 64" by (rule power_less_imp_less_exp [rotated]) simp
  then have "(log2 a + 1022) * 2 ^ 52 \<le> (63 + 1022) * 2 ^ 52" by (intro mult_right_mono) simp_all
  moreover have "round_mag a = (log2 a + 1022) * 2 ^ 52 + significand a"
    by (simp add: round_mag_def significand_def Let_def)
  ultimately show ?thesis using significand_bounds(2) [OF assms(1)] by simp
qed

lemma sint_range: "- (2 ^ 63) \<le> sint (i :: i64)" "sint (i :: i64) < 2 ^ 63"
  using sint_greater_eq [of i] sint_less [of i] by simp_all

lemma as_f64_parts:
  fixes i :: i64
  assumes "sint i \<noteq> 0"
  shows "f_low (as_f64 i) = round_mag (nat \<bar>sint i\<bar>)" "f_sign (as_f64 i) \<longleftrightarrow> sint i < 0"
proof -
  define r where "r = round_mag (nat \<bar>sint i\<bar>)"
  define n where "n = r + (if sint i < 0 then 2 ^ 63 else 0)"
  have r: "r < 2047 * 2 ^ 52"
    unfolding r_def using sint_range [of i] assms by (intro round_mag_lt) simp_all
  have "as_f64 i = of_nat n" using assms by (simp only: as_f64_def n_def r_def if_False)
  moreover have "n < 2 ^ 64" using r by (simp add: n_def)
  ultimately have "unat (as_f64 i) = n" by (simp add: unat_of_nat)
  then show "f_low (as_f64 i) = round_mag (nat \<bar>sint i\<bar>)" "f_sign (as_f64 i) \<longleftrightarrow> sint i < 0"
    using r by (simp_all add: f_low_def f_sign_def n_def r_def [symmetric])
qed

lemma fval_0 [simp]: "fval 0 = 0"
  by (simp add: fval_def f_low_def)

lemma fval_as_f64:
  "fval (as_f64 i) = (if sint i < 0 then - int (mag (round_mag (nat (- sint i))))
     else if sint i = 0 then 0 else int (mag (round_mag (nat (sint i)))))"
proof (cases "sint i = 0")
  case False
  then show ?thesis using as_f64_parts [OF False] by (simp add: fval_def)
qed (simp add: as_f64_def)

lemma as_f64_not_nan [simp]: "\<not> is_nan (as_f64 i)"
proof (cases "sint i = 0")
  case False
  have "round_mag (nat \<bar>sint i\<bar>) < 2047 * 2 ^ 52"
    using sint_range [of i] False by (intro round_mag_lt) simp_all
  then show ?thesis using as_f64_parts(1) [OF False] by (simp add: is_nan_def)
qed (simp add: as_f64_def is_nan_def f_low_def)

lemma as_f64_mono: "sint i \<le> sint j \<Longrightarrow> fval (as_f64 i) \<le> fval (as_f64 j)"
  using mag_round_mono [of "nat (sint i)" "nat (sint j)"] mag_round_mono [of "nat (- sint j)" "nat (- sint i)"]
  by (auto simp: fval_as_f64)

lemma as_f64_exact: "\<bar>sint i\<bar> \<le> 2 ^ 53 \<Longrightarrow> fval (as_f64 i) = sint i * SCALE"
proof -
  assume i: "\<bar>sint i\<bar> \<le> 2 ^ 53"
  have "int (mag (round_mag (nat z))) = z * SCALE" if "0 < z" "z \<le> 2 ^ 53" for z
  proof -
    have "mag (round_mag (nat z)) = nat z * 2 ^ 1074" using that by (intro mag_round_exact) simp_all
    then show ?thesis using that by (simp add: SCALE_def)
  qed
  from this [of "sint i"] this [of "- sint i"] i show ?thesis by (auto simp: fval_as_f64)
qed

lemma as_f64_nearest:
  "sint i * SCALE \<le> fval g \<Longrightarrow> fval (as_f64 i) \<le> fval g"
  "fval g \<le> sint i * SCALE \<Longrightarrow> fval g \<le> fval (as_f64 i)"
proof -
  have up: "int (nat z * 2 ^ 1074) = z * SCALE" if "0 < z" for z using that by (simp add: SCALE_def)
  have S: "0 < SCALE" by (simp add: SCALE_def)
  consider "sint i = 0" | "0 < sint i" | "sint i < 0" by linarith
  then have "(sint i * SCALE \<le> fval g \<longrightarrow> fval (as_f64 i) \<le> fval g)
      \<and> (fval g \<le> sint i * SCALE \<longrightarrow> fval g \<le> fval (as_f64 i))"
  proof cases
    case 2
    let ?a = "nat (sint i)"
    have v: "fval (as_f64 i) = int (mag (round_mag ?a))" using 2 by (simp add: fval_as_f64)
    have pos: "0 < sint i * SCALE" using 2 S by simp
    show ?thesis
    proof (cases "f_sign g")
      case True
      then show ?thesis using pos by (simp add: fval_def [of g] v)
    next
      case False
      have "(?a * 2 ^ 1074 \<le> mag (f_low g)) = (sint i * SCALE \<le> int (mag (f_low g)))"
        "(mag (f_low g) \<le> ?a * 2 ^ 1074) = (int (mag (f_low g)) \<le> sint i * SCALE)"
        using up [OF 2] by linarith+
      then show ?thesis
        using False round_mag_nearest [of ?a "f_low g"] 2 by (simp add: fval_def [of g] v)
    qed
  next
    case 3
    let ?a = "nat (- sint i)"
    have v: "fval (as_f64 i) = - int (mag (round_mag ?a))" using 3 by (simp add: fval_as_f64)
    have neg: "sint i * SCALE < 0" using 3 S by (simp add: mult_neg_pos)
    show ?thesis
    proof (cases "f_sign g")
      case False
      then show ?thesis using neg by (simp add: fval_def [of g] v)
    next
      case True
      have "(?a * 2 ^ 1074 \<le> mag (f_low g)) = (- (sint i * SCALE) \<le> int (mag (f_low g)))"
        "(mag (f_low g) \<le> ?a * 2 ^ 1074) = (int (mag (f_low g)) \<le> - (sint i * SCALE))"
        using up [of "- sint i"] 3 unfolding mult_minus_left [symmetric] by linarith+
      then show ?thesis
        using True round_mag_nearest [of ?a "f_low g"] 3 by (auto simp: fval_def [of g] v)
    qed
  qed (simp add: fval_as_f64)
  then show "sint i * SCALE \<le> fval g \<Longrightarrow> fval (as_f64 i) \<le> fval g"
    "fval g \<le> sint i * SCALE \<Longrightarrow> fval g \<le> fval (as_f64 i)" by blast+
qed

subsection \<open>Comparing numbers is exact\<close>

lemma SCALE_pos: "0 < SCALE" by (simp add: SCALE_def)

lemma int_vs_float_exact:
  "int_vs_float i f = (if is_nan f then None else Some (cmp (sint i * SCALE) (fval f)))"
proof -
  define S where "S = SCALE"
  have S: "0 < S" by (simp add: S_def SCALE_def)
  define v t where "v = fval f" and "t = f_trunc f"
  note r = sint_range [of i]
  have t: "t = (if v < 0 then - ((- v) div S) else v div S)" by (simp add: t_def f_trunc_def v_def S_def)
  consider "v \<ge> 2 ^ 63 * S" | "v < - (2 ^ 63) * S" | "- (2 ^ 63) * S \<le> v" "v < 2 ^ 63 * S" by linarith
  then have "(if v \<ge> 2 ^ 63 * S then Less else if v < - (2 ^ 63) * S then Greater
      else then_with (cmp (sint i) (as_i64 t)) (cmp (t * S) v)) = cmp (sint i * S) v"
  proof cases
    case 1
    have "sint i * S < 2 ^ 63 * S" using r(2) S by (rule mult_strict_right_mono)
    then show ?thesis using 1 by (simp add: cmp_def)
  next
    case 2
    have "- (2 ^ 63) * S \<le> sint i * S" using r(1) S by (intro mult_right_mono) simp_all
    then show ?thesis using 2 S by (simp add: cmp_def)
  next
    case 3
    have d: "x div S * S \<le> x" "x < (x div S + 1) * S" for x
      using pos_mod_sign [OF S, of x] pos_mod_bound [OF S, of x]
      by (simp_all add: minus_mod_eq_div_mult [symmetric] distrib_right)
    have tr: "(t - 1) * S < v" "v < (t + 1) * S"
      using d [of v] d [of "- v"] S by (auto simp: t algebra_simps)
    have "- (2 ^ 63) * S < (t + 1) * S" "(t - 1) * S < 2 ^ 63 * S" using 3 tr by linarith+
    then have "- (2 ^ 63) < t + 1" "t - 1 < 2 ^ 63" using S mult_less_cancel_right_pos by blast+
    moreover have "t \<noteq> 2 ^ 63"
    proof
      assume e: "t = 2 ^ 63"
      have "0 \<le> (- v) div S" if "v < 0" using that S by (intro div_int_pos_iff [THEN iffD2]) simp
      then have "v div S = 2 ^ 63" using e t by (cases "v < 0") simp_all
      then show False using d(1) [of v] 3 by simp
    qed
    ultimately have as: "as_i64 t = t" by (simp add: as_i64_def)
    consider "sint i < t" | "sint i = t" | "t < sint i" by linarith
    then show ?thesis
    proof cases
      case 1
      then have "sint i * S \<le> (t - 1) * S" using S by (intro mult_right_mono) simp_all
      then have "sint i * S < v" using tr by simp
      then show ?thesis using 1 3 as by (simp add: cmp_def)
    next
      case 2
      then show ?thesis using 3 as by simp
    next
      case g: 3
      then have "(t + 1) * S \<le> sint i * S" using S by (intro mult_right_mono) simp_all
      then have "v < sint i * S" using tr by simp
      then show ?thesis using g 3 as by (simp add: cmp_def)
    qed
  qed
  note E = this [unfolded v_def t_def S_def]
  show ?thesis
    unfolding int_vs_float_def Let_def TWO_POW_63_def E [symmetric] by (simp only: split: if_split) simp
qed

text \<open>The number a value stands for, scaled, where it is one.\<close>

fun number :: "document \<Rightarrow> int option" where
  "number (Integer i) = Some (sint i * SCALE)"
| "number (Float f) = (if is_nan f then None else Some (fval f))"
| "number _ = None"

lemma compare_numbers:
  "number a = Some x \<Longrightarrow> number b = Some y \<Longrightarrow> compare a b = Some (cmp x y)"
proof -
  have "cmp (i * SCALE) (j * SCALE) = cmp i j" for i j :: int
    using SCALE_pos by (simp add: cmp_def)
  then show "number a = Some x \<Longrightarrow> number b = Some y \<Longrightarrow> compare a b = Some (cmp x y)"
    by (cases a; cases b) (auto simp: compare_def int_vs_float_exact f_partial_cmp_def split: if_splits)
qed

text \<open>
  A key that orders the values of one kind as \<open>compare\<close> does: the rank, a number, and bytes.
\<close>

fun sort_bytes :: "document \<Rightarrow> bytes" where
  "sort_bytes (String s) = s"
| "sort_bytes (Binary s) = s"
| "sort_bytes (Id s) = s"
| "sort_bytes _ = []"

fun sort_num :: "document \<Rightarrow> int \<times> nat" where
  "sort_num (Bool b) = (of_bool b, 0)"
| "sort_num (Integer i) = (sint i * SCALE, 0)"
| "sort_num (Float f) = (fval f, 0)"
| "sort_num (DateTime t) = (sint (secs t), unat (nanos t))"
| "sort_num _ = (0, 0)"

definition sort_key3 :: "document \<Rightarrow> int list \<times> bytes" where
  "sort_key3 v = ([fst (sort_num v), int (snd (sort_num v))], sort_bytes v)"

definition key_cmp :: "document \<Rightarrow> document \<Rightarrow> ordering" where
  "key_cmp a b = then_with (cmp (fst (sort_key3 a)) (fst (sort_key3 b))) (cmp (snd (sort_key3 a)) (snd (sort_key3 b)))"

lemma cmp_list2: "cmp [a, b] [c, d] = then_with (cmp a c) (cmp b d)" for a b c d :: int
  by (auto simp: cmp_def then_with_def)

lemma cmp_nanos: "cmp (x :: 32 word) y = cmp (int (unat x)) (int (unat y))"
  by (auto simp: cmp_def word_less_def word_uint_eq_iff)

lemma cmp_bool: "cmp (x :: bool) y = cmp (of_bool x :: int) (of_bool y)"
  by (auto simp: cmp_def)

lemma compare_same_rank:
  assumes "sort_rank a = sort_rank b" and "sort_rank a \<noteq> UNORDERED"
  shows "compare a b = Some (key_cmp a b)"
proof (cases "number a")
  case (Some x)
  then obtain y where y: "number b = Some y"
    using assms by (cases a; cases b) (auto simp: UNORDERED_def split: if_splits)
  have "key_cmp a b = cmp x y"
    using Some y by (cases a; cases b) (auto simp: key_cmp_def sort_key3_def cmp_list2 split: if_splits)
  then show ?thesis using compare_numbers [OF Some y] by simp
next
  case None
  then show ?thesis
    using assms
    by (cases a; cases b)
      (auto simp: compare_def UNORDERED_def key_cmp_def sort_key3_def cmp_list2 cmp_datetime_def cmp_nanos
        cmp_bool split: if_splits)
qed

definition total_cmp :: "document \<Rightarrow> document \<Rightarrow> ordering" where
  "total_cmp a b = then_with (cmp (sort_rank a) (sort_rank b)) (key_cmp a b)"

lemma sort_order_eq:
  "sort_order a b d = Inr
     (if sort_rank a = UNORDERED \<or> sort_rank b = UNORDERED then cmp (sort_rank a) (sort_rank b)
      else case d of Asc \<Rightarrow> total_cmp a b | Desc \<Rightarrow> total_cmp b a)"
proof -
  have rev: "reverse (key_cmp a b) = key_cmp b a" for a b
    by (auto simp: key_cmp_def then_with_def)
  show ?thesis
    using compare_same_rank [of a b]
    by (cases d) (auto simp: sort_order_def Let_def total_cmp_def then_with_def rev)
qed

lemma key_cmp_le:
  "key_cmp a b \<noteq> Greater \<longleftrightarrow> fst (sort_key3 a) < fst (sort_key3 b)
     \<or> fst (sort_key3 a) = fst (sort_key3 b) \<and> snd (sort_key3 a) \<le> snd (sort_key3 b)"
  by (auto simp: key_cmp_def then_with_def cmp_def not_less_iff_gr_or_eq)

lemma key_cmp_trans: "key_cmp a b \<noteq> Greater \<Longrightarrow> key_cmp b c \<noteq> Greater \<Longrightarrow> key_cmp a c \<noteq> Greater"
  unfolding key_cmp_le by (auto intro: less_trans order_trans)

lemma total_cmp_le: "total_cmp a b \<noteq> Greater \<longleftrightarrow> sort_rank a < sort_rank b
    \<or> sort_rank a = sort_rank b \<and> key_cmp a b \<noteq> Greater"
  by (auto simp: total_cmp_def then_with_def cmp_def)

lemma total_cmp_trans:
  "total_cmp a b \<noteq> Greater \<Longrightarrow> total_cmp b c \<noteq> Greater \<Longrightarrow> total_cmp a c \<noteq> Greater"
  unfolding total_cmp_le using key_cmp_trans by auto

lemma total_cmp_reverse: "total_cmp b a = reverse (total_cmp a b)"
  by (auto simp: total_cmp_def key_cmp_def then_with_def)

lemma sort_rank_le: "sort_rank a \<le> UNORDERED"
  by (cases a) (auto simp: UNORDERED_def)

lemma sort_order_cases:
  "sort_order a b d \<noteq> Inr Greater \<longleftrightarrow>
     sort_rank b = UNORDERED \<or> sort_rank a \<noteq> UNORDERED
       \<and> (case d of Asc \<Rightarrow> total_cmp a b | Desc \<Rightarrow> total_cmp b a) \<noteq> Greater"
  using sort_rank_le [of a] sort_rank_le [of b]
  by (auto simp: sort_order_eq not_less cmp_def split: sort_dir.splits)

text \<open>The order by several keys, of values there are for each.\<close>

lemma sort_order_reverse: "\<exists>o1. sort_order a b d = Inr o1 \<and> sort_order b a d = Inr (reverse o1)"
  using total_cmp_reverse [of a b] by (cases d) (auto simp: sort_order_eq)

lemma sort_order_refl: "sort_order a a d = Inr Equal"
  using sort_order_reverse [of a a d] by (auto, metis ordering.exhaust reverse.simps(1,3) ordering.distinct(3))

lemma sort_order_trans:
  "sort_order a b d \<noteq> Inr Greater \<Longrightarrow> sort_order b c d \<noteq> Inr Greater \<Longrightarrow> sort_order a c d \<noteq> Inr Greater"
  using total_cmp_trans unfolding sort_order_cases by (cases d) auto

lemma compare_values_reverse: "\<exists>o1. compare_values ds as bs = Inr o1 \<and> compare_values ds bs as = Inr (reverse o1)"
proof (induction ds as bs rule: compare_values.induct)
  case (1 d ds a as b bs)
  obtain o1 where "sort_order a b d = Inr o1" "sort_order b a d = Inr (reverse o1)" using sort_order_reverse by blast
  then show ?case using "1.IH" by (cases o1) auto
qed auto

lemma compare_values_trans:
  "length as = length ds \<Longrightarrow> length bs = length ds \<Longrightarrow> length cs = length ds \<Longrightarrow>
    compare_values ds as bs \<noteq> Inr Greater \<Longrightarrow> compare_values ds bs cs \<noteq> Inr Greater \<Longrightarrow>
    compare_values ds as cs \<noteq> Inr Greater"
proof (induction ds arbitrary: as bs cs)
  case (Cons d ds)
  obtain a as' b bs' c cs' where l: "as = a # as'" "bs = b # bs'" "cs = c # cs'"
    using Cons.prems(1-3) by (metis Suc_length_conv)
  obtain p where p: "sort_order a b d = Inr p" "sort_order b a d = Inr (reverse p)" using sort_order_reverse by blast
  obtain q where q: "sort_order b c d = Inr q" "sort_order c b d = Inr (reverse q)" using sort_order_reverse by blast
  obtain r where r: "sort_order a c d = Inr r" "sort_order c a d = Inr (reverse r)" using sort_order_reverse by blast
  have pq: "p \<noteq> Greater" "q \<noteq> Greater" using Cons.prems(4,5) l p q by (cases p; cases q; auto)+
  then have "r \<noteq> Greater" using sort_order_trans [of a b d c] p q r by auto
  moreover have "p = Equal \<and> q = Equal" if "r = Equal"
    using sort_order_trans [of c a d b] sort_order_trans [of b c d a] that p q r pq
    by (cases p; cases q) auto
  ultimately show ?case using Cons.IH [of as' bs' cs'] Cons.prems l p q r by (cases r; cases p; cases q) auto
qed simp

text \<open>What the order is: by \<open>compare\<close> within a kind, by kind otherwise, and what nothing orders last.\<close>

lemma sort_rank_unordered: "sort_rank a \<le> UNORDERED"
  by (cases a) (simp_all add: UNORDERED_def)

lemma compare_same_kind: "compare a b = Some r \<Longrightarrow> sort_rank a = sort_rank b \<and> sort_rank a \<noteq> UNORDERED"
  by (cases a; cases b) (auto simp: compare_def UNORDERED_def f_partial_cmp_def int_vs_float_def split: if_splits)

lemma sort_order_values:
  "(\<forall>r. compare a b = Some r \<longrightarrow> sort_order a b d = Inr (case d of Asc \<Rightarrow> r | Desc \<Rightarrow> reverse r))
    \<and> (sort_rank a < sort_rank b \<and> \<not> is_unordered b \<longrightarrow> sort_order a b d = Inr (case d of Asc \<Rightarrow> Less | Desc \<Rightarrow> Greater))
    \<and> (is_unordered b \<longrightarrow> sort_order a b d = Inr (if is_unordered a then Equal else Less))"
  using compare_same_kind [of a b] sort_rank_unordered [of a] sort_rank_unordered [of b]
  by (auto simp: sort_order_def is_unordered_def cmp_def Let_def split: sort_dir.splits)

lemma compare_values_first:
  assumes "n < length ds" "length as = length ds" "length bs = length ds"
    "\<And>k. k < n \<Longrightarrow> sort_order (as ! k) (bs ! k) (ds ! k) = Inr Equal"
    "sort_order (as ! n) (bs ! n) (ds ! n) \<noteq> Inr Equal"
  shows "compare_values ds as bs = sort_order (as ! n) (bs ! n) (ds ! n)"
  using assms
proof (induction n arbitrary: ds as bs)
  case 0
  obtain d ds' a as' b bs' where l: "ds = d # ds'" "as = a # as'" "bs = b # bs'"
    using "0.prems"(1-3) by (cases ds; cases as; cases bs) auto
  obtain r where "sort_order a b d = Inr r" using sort_order_reverse by blast
  then show ?case using "0.prems"(5) l by simp
next
  case (Suc n)
  obtain d ds' a as' b bs' where l: "ds = d # ds'" "as = a # as'" "bs = b # bs'"
    using Suc.prems(1-3) by (cases ds; cases as; cases bs) auto
  have "sort_order a b d = Inr Equal" using Suc.prems(4) [of 0] l by simp
  moreover have "compare_values ds' as' bs' = sort_order (as' ! n) (bs' ! n) (ds' ! n)"
    using Suc.prems(1-3,5) Suc.prems(4) [of "Suc _"] l by (intro Suc.IH) auto
  ultimately show ?case using l by simp
qed

text \<open>
  C8. \<open>sort_order\<close> is a total preorder in either direction, so every sort is well defined: on any
  two values it answers, and the other way round when its arguments are swapped; a value is equal to
  itself; and it is transitive, NaN, arrays, objects, and \<open>Int\<close>s beyond \<open>2 ^ 53\<close> beside \<open>Float\<close>s
  included. It is \<open>compare\<close>'s order where that has one, the order of the kinds otherwise, either
  turned round for \<open>Desc\<close>, with what nothing orders last in both. The order by several sort keys is
  the first's that tells the values apart, and a total preorder of the lists of their values.
\<close>

theorem sort_order_total_preorder:
  "(\<exists>o1. sort_order a b d = Inr o1 \<and> sort_order b a d = Inr (reverse o1))
    \<and> sort_order a a d = Inr Equal
    \<and> (sort_order a b d \<noteq> Inr Greater \<and> sort_order b c d \<noteq> Inr Greater \<longrightarrow> sort_order a c d \<noteq> Inr Greater)
    \<and> (\<forall>r. compare a b = Some r \<longrightarrow> sort_order a b d = Inr (case d of Asc \<Rightarrow> r | Desc \<Rightarrow> reverse r))
    \<and> (sort_rank a < sort_rank b \<and> \<not> is_unordered b \<longrightarrow> sort_order a b d = Inr (case d of Asc \<Rightarrow> Less | Desc \<Rightarrow> Greater))
    \<and> (is_unordered b \<longrightarrow> sort_order a b d = Inr (if is_unordered a then Equal else Less))
    \<and> (\<forall>n. n < length ds \<and> length as = length ds \<and> length bs = length ds
        \<and> (\<forall>k < n. sort_order (as ! k) (bs ! k) (ds ! k) = Inr Equal) \<and> sort_order (as ! n) (bs ! n) (ds ! n) \<noteq> Inr Equal
        \<longrightarrow> compare_values ds as bs = sort_order (as ! n) (bs ! n) (ds ! n))
    \<and> (\<exists>o1. compare_values ds as bs = Inr o1 \<and> compare_values ds bs as = Inr (reverse o1))
    \<and> compare_values ds as as = Inr Equal
    \<and> (length as = length ds \<and> length bs = length ds \<and> length cs = length ds
        \<and> compare_values ds as bs \<noteq> Inr Greater \<and> compare_values ds bs cs \<noteq> Inr Greater
        \<longrightarrow> compare_values ds as cs \<noteq> Inr Greater)"
proof -
  have "compare_values ds as as = Inr Equal"
    using compare_values_reverse [of ds as as] by (auto, metis ordering.exhaust reverse.simps(1,3) ordering.distinct(3))
  then show ?thesis
    using sort_order_reverse [of a b d] sort_order_refl [of a d] sort_order_trans [of a b d c] sort_order_values [of a b d]
      compare_values_first [of _ ds as bs] compare_values_reverse [of ds as bs] compare_values_trans [of as ds bs cs]
    by blast
qed

theorem sort_order_total_preorder_witness:
  "sort_order (Integer 1) (Array []) Asc \<noteq> Inr Greater
    \<and> compare_values [Asc, Desc] [Null, Integer 2] [Null, Integer 0] \<noteq> Inr Greater"
proof
  show "sort_order (Integer 1) (Array []) Asc \<noteq> Inr Greater"
    using sort_order_total_preorder [of "Integer 1" "Integer 2" Asc "Array []" "[]" "[]" "[]" "[]"]
    by (simp add: compare_def sort_order_def UNORDERED_def cmp_def)
  show "compare_values [Asc, Desc] [Null, Integer 2] [Null, Integer 0] \<noteq> Inr Greater"
    using sort_order_total_preorder [of Null Null Asc Null "[Asc, Desc]" "[Null, Integer 2]" "[Null, Integer 1]" "[Null, Integer 0]"]
    by (simp add: compare_def sort_order_def UNORDERED_def cmp_def)
qed

text \<open>
  C9. \<open>compare\<close> compares numbers by their exact values, an \<open>Int\<close> with a \<open>Float\<close> too: \<open>f_trunc\<close>,
  the cast back to \<open>i64\<close> and the comparison of the fractional part never round the answer.
\<close>

theorem compare_int_float_exact:
  "compare (Integer i) (Float f) =
     (if is_nan f then None else Some (cmp (sint i * SCALE) (fval f)))
   \<and> compare (Float f) (Integer i) =
     (if is_nan f then None else Some (cmp (fval f) (sint i * SCALE)))"
  by (simp add: compare_def int_vs_float_exact)

end
