(* ===== verification/Key.thy ===== *)
theory Key
  imports Values
begin

text \<open>
  Index keys (\<open>src/src/index/key.rs\<close>): a field's value as bytes whose lexicographic order is
  the order of the values, the ranges of keys a condition can match, and taking a key apart
  again. \<open>nf\<close> (the code's \<open>fields\<close>) is how many values share a key, and with it the room each string gets.

  The lemmas: encodings order values of one kind as \<open>compare\<close> does (not strictly), no encoding
  is a proper prefix of another, keys stay within \<open>MAX_KEY_LEN\<close>, every document a condition
  matches lies in the condition's range, a compound key splits into its values again, and what
  an entry's bytes decide is what the documents would have decided.
\<close>

subsection \<open>Encoding values\<close>

definition MAX_KEY_LEN :: nat where "MAX_KEY_LEN = 1024"

definition KTAG_NULL :: byte where "KTAG_NULL = 0"
definition KTAG_BOOL :: byte where "KTAG_BOOL = 1"
definition KTAG_NUMBER :: byte where "KTAG_NUMBER = 2"
definition KTAG_STRING :: byte where "KTAG_STRING = 3"
definition KTAG_ID :: byte where "KTAG_ID = 4"
definition KTAG_DATETIME :: byte where "KTAG_DATETIME = 5"
definition KTAG_BINARY :: byte where "KTAG_BINARY = 6"
definition KTAG_OTHER :: byte where "KTAG_OTHER = 0xFF"

lemmas ktag_defs = KTAG_NULL_def KTAG_BOOL_def KTAG_NUMBER_def KTAG_STRING_def KTAG_ID_def
  KTAG_DATETIME_def KTAG_BINARY_def KTAG_OTHER_def

definition MAX_COMPOUND_FIELDS :: nat where "MAX_COMPOUND_FIELDS = 8"

definition string_budget :: "nat \<Rightarrow> nat" where
  "string_budget n = (MAX_KEY_LEN - 16) div n - 3"

definition primary :: "docid \<Rightarrow> bytes" where
  "primary i = i"

text \<open>\<open>encode_escaped\<close>'s loop: \<open>used\<close> bytes of the budget are gone.\<close>

fun escape_loop :: "nat \<Rightarrow> nat \<Rightarrow> bytes \<Rightarrow> bytes \<Rightarrow> bytes" where
  "escape_loop budget used [] out = out"
| "escape_loop budget used (b # bs) out =
     (let width = (if b = 0 then 2 else 1) in
      if used + width > budget then out
      else escape_loop budget (used + width) bs (out @ [b] @ (if b = 0 then [0xFF] else [])))"

definition encode_escaped :: "byte \<Rightarrow> bytes \<Rightarrow> nat \<Rightarrow> bytes" where
  "encode_escaped tag bs budget = escape_loop budget 0 bs [tag] @ [0, 0]"

unbundle bit_operations_syntax

definition sortable :: "f64 \<Rightarrow> 64 word" where
  "sortable bits = (if drop_bit 63 bits = 1 then NOT bits else bits OR push_bit 63 1)"

definition encode_number :: "f64 \<Rightarrow> bytes option" where
  "encode_number f =
     (if is_nan f then None
      else let f = (if fval f = 0 then 0 else f)
        in Some (KTAG_NUMBER # be_bytes 8 (unat (sortable f))))"

definition encode_datetime :: "datetime \<Rightarrow> bytes" where
  "encode_datetime t = be_bytes 8 (unat (secs t XOR push_bit 63 1)) @ be_bytes 4 (unat (nanos t))"

definition encode_value_in :: "document \<Rightarrow> nat \<Rightarrow> bytes option" where
  "encode_value_in v nf =
     (case v of
        Null \<Rightarrow> Some [KTAG_NULL]
      | Bool b \<Rightarrow> Some [KTAG_BOOL, of_bool b]
      | Integer n \<Rightarrow> encode_number (as_f64 n)
      | Float f \<Rightarrow> encode_number f
      | String s \<Rightarrow> Some (encode_escaped KTAG_STRING s (string_budget nf))
      | Binary bs \<Rightarrow> Some (encode_escaped KTAG_BINARY bs (string_budget nf))
      | Id i \<Rightarrow> Some ([KTAG_ID] @ i)
      | DateTime t \<Rightarrow>
          Some ([KTAG_DATETIME] @ encode_datetime t)
      | _ \<Rightarrow> None)"

definition encode_value :: "document \<Rightarrow> bytes option" where
  "encode_value v = encode_value_in v 1"

definition encode_for :: "document \<Rightarrow> nat \<Rightarrow> bytes option" where
  "encode_for v nf = encode_value_in v nf"

definition encode_values :: "document list \<Rightarrow> bytes" where
  "encode_values vs =
     fold (\<lambda>v out. out @ (case encode_value_in v (length vs) of Some e \<Rightarrow> e | None \<Rightarrow> [KTAG_OTHER])) vs []"

definition compound :: "document list \<Rightarrow> docid \<Rightarrow> bytes" where
  "compound vs i = encode_values vs @ i"

definition secondary :: "document \<Rightarrow> docid \<Rightarrow> bytes option" where
  "secondary v i = map_option (\<lambda>key. key @ i) (encode_value v)"

subsection \<open>Taking keys apart\<close>

definition doc_id :: "bytes \<Rightarrow> docid" where
  "doc_id key = (let tl = drop (length key - 16) key in replicate (16 - length tl) 0 @ tl)"

definition value_part :: "bytes \<Rightarrow> bytes" where
  "value_part key = take (length key - 16) key"

text \<open>\<open>encode_number\<close> backwards.\<close>

definition unsortable :: "64 word \<Rightarrow> f64" where
  "unsortable s = (if drop_bit 63 s = 1 then s AND NOT (push_bit 63 1) else NOT s)"

definition part_is_exact :: "bytes \<Rightarrow> nat \<Rightarrow> bool" where
  "part_is_exact part nf =
     (case part of
        [] \<Rightarrow> False
      | tag # _ \<Rightarrow>
          if tag = KTAG_NUMBER then
            (if length part < 9 then False
             else let f = unsortable (of_nat (be_nat (slice part 1 8)))
               in \<not> is_nan f \<and> int (mag (f_low f)) < 2 ^ 53 * SCALE)
          else if tag = KTAG_STRING \<or> tag = KTAG_BINARY then
            3 \<le> length part \<and> length part - 3 < string_budget nf - 1
          else if tag = KTAG_OTHER then False
          else True)"

fun unescape :: "bytes \<Rightarrow> bytes option" where
  "unescape [] = Some []"
| "unescape (b # bs) =
     (if b = 0 then
        (case bs of
           c # cs \<Rightarrow> if c = 0xFF then map_option ((#) 0) (unescape cs) else None
         | [] \<Rightarrow> None)
      else map_option ((#) b) (unescape bs))"

definition strip_terminator :: "bytes \<Rightarrow> bytes option" where
  "strip_terminator bs =
     (if 2 \<le> length bs \<and> drop (length bs - 2) bs = [0, 0] then Some (take (length bs - 2) bs) else None)"

definition decode_part :: "bytes \<Rightarrow> nat \<Rightarrow> document option" where
  "decode_part part nf =
     (if \<not> part_is_exact part nf then None
      else case part of
        [] \<Rightarrow> None
      | tag # rest \<Rightarrow>
          if tag = KTAG_NULL \<and> rest = [] then Some Null
          else if tag = KTAG_BOOL \<and> rest = [0] then Some (Bool False)
          else if tag = KTAG_BOOL \<and> rest = [1] then Some (Bool True)
          else if tag = KTAG_NUMBER then
            (if length rest = 8 then Some (Float (unsortable (of_nat (be_nat rest)))) else None)
          else if tag = KTAG_STRING then
            (case strip_terminator rest of
               None \<Rightarrow> None
             | Some escaped \<Rightarrow>
                 if 0 \<notin> set escaped then (if utf8_ok escaped then Some (String escaped) else None)
                 else (case unescape escaped of
                     None \<Rightarrow> None
                   | Some text \<Rightarrow> if utf8_ok text then Some (String text) else None))
          else if tag = KTAG_BINARY then
            (case strip_terminator rest of None \<Rightarrow> None | Some escaped \<Rightarrow> map_option Binary (unescape escaped))
          else if tag = KTAG_ID then (if length rest = 16 then Some (Id rest) else None)
          else if tag = KTAG_DATETIME \<and> length rest = 12 then
            map_option DateTime
              (from_unix (of_nat (be_nat (take 8 rest)) XOR push_bit 63 1) (of_nat (be_nat (drop 8 rest))))
          else None)"

definition is_other :: "bytes \<Rightarrow> bool" where
  "is_other part \<longleftrightarrow> part \<noteq> [] \<and> hd part = KTAG_OTHER"

definition is_string_part :: "bytes \<Rightarrow> bool" where
  "is_string_part part \<longleftrightarrow> part \<noteq> [] \<and> hd part = KTAG_STRING"

definition compare_part :: "bytes \<Rightarrow> bytes option \<Rightarrow> nat \<Rightarrow> ordering option option" where
  "compare_part part encoded nf =
     (case part of
        [] \<Rightarrow> None
      | tag # _ \<Rightarrow>
          (case encoded of
             None \<Rightarrow> Some None
           | Some enc \<Rightarrow>
               if tag = KTAG_OTHER \<or> \<not> (enc \<noteq> [] \<and> hd enc = tag) then Some None
               else if part = enc then (if part_is_exact part nf then Some (Some Equal) else None)
               else Some (Some (cmp part enc))))"

text \<open>\<open>string_len\<close>'s loop, on the bytes from \<open>at\<close> on.\<close>

fun string_len_from :: "bytes \<Rightarrow> nat \<Rightarrow> nat option" where
  "string_len_from (a # b # rest) at =
     (if a = 0 then (if b = 0 then Some (at + 2) else string_len_from rest (at + 2))
      else string_len_from (b # rest) (at + 1))"
| "string_len_from _ at = None"

definition string_len :: "bytes \<Rightarrow> nat option" where
  "string_len encoded = string_len_from (drop 1 encoded) 1"

definition part_len :: "bytes \<Rightarrow> nat" where
  "part_len rest =
     (let tag = hd rest in
      if tag = KTAG_NULL \<or> tag = KTAG_OTHER then 1
      else if tag = KTAG_BOOL then 2
      else if tag = KTAG_NUMBER then 9
      else if tag = KTAG_ID then 17
      else if tag = KTAG_DATETIME then 13
      else (case string_len rest of Some l \<Rightarrow> l | None \<Rightarrow> length rest))"

lemma string_len_from_gt: "string_len_from bs at = Some l \<Longrightarrow> at < l"
  by (induction bs at rule: string_len_from.induct) (auto split: if_splits)

lemma part_len_pos: "rest \<noteq> [] \<Longrightarrow> 0 < part_len rest"
  by (auto simp: part_len_def Let_def string_len_def dest: string_len_from_gt split: option.splits)

function parts :: "bytes \<Rightarrow> bytes list" where
  "parts rest =
     (if rest = [] then []
      else let n = min (part_len rest) (length rest) in take n rest # parts (drop n rest))"
  by pat_completeness auto

termination
  by (relation "measure length") (auto simp: part_len_pos)

declare parts.simps [simp del]

subsection \<open>Ranges of keys\<close>

record key_range =
  range_start :: bytes
  range_end :: "bytes option"

definition range_everything :: key_range where
  "range_everything = \<lparr>range_start = [], range_end = None\<rparr>"

fun prefix_end_rev :: "bytes \<Rightarrow> bytes option" where
  "prefix_end_rev [] = None"
| "prefix_end_rev (lst # before) =
     (if lst < 0xFF then Some (rev before @ [lst + 1]) else prefix_end_rev before)"

definition prefix_end :: "bytes \<Rightarrow> bytes option" where
  "prefix_end pre = prefix_end_rev (rev pre)"

definition prefixed :: "bytes \<Rightarrow> key_range" where
  "prefixed pre = \<lparr>range_start = pre, range_end = prefix_end pre\<rparr>"

definition intersect :: "key_range \<Rightarrow> key_range \<Rightarrow> key_range" where
  "intersect r other =
     \<lparr>range_start = max (range_start r) (range_start other),
      range_end = (case (range_end r, range_end other) of
          (Some a, Some b) \<Rightarrow> Some (min a b)
        | (None, b) \<Rightarrow> b
        | (a, None) \<Rightarrow> a)\<rparr>"

definition range_contains :: "key_range \<Rightarrow> bytes \<Rightarrow> bool" where
  "range_contains r key \<longleftrightarrow> key \<ge> range_start r
     \<and> (case range_end r of None \<Rightarrow> True | Some e \<Rightarrow> key < e)"

definition under :: "key_range \<Rightarrow> bytes \<Rightarrow> key_range" where
  "under r pre =
     \<lparr>range_start = pre @ range_start r,
      range_end = (case range_end r of Some e \<Rightarrow> Some (pre @ e) | None \<Rightarrow> prefix_end pre)\<rparr>"

definition primary_range :: "op \<Rightarrow> docid \<Rightarrow> key_range option" where
  "primary_range op i =
     (let at = primary i; after = at @ [0] in
      case op of
        Eq \<Rightarrow> Some \<lparr>range_start = at, range_end = Some after\<rparr>
      | Gt \<Rightarrow> Some \<lparr>range_start = after, range_end = None\<rparr>
      | Gte \<Rightarrow> Some \<lparr>range_start = at, range_end = None\<rparr>
      | Lt \<Rightarrow> Some \<lparr>range_start = [], range_end = Some at\<rparr>
      | Lte \<Rightarrow> Some \<lparr>range_start = [], range_end = Some after\<rparr>
      | _ \<Rightarrow> None)"

definition range_for_in :: "op \<Rightarrow> document \<Rightarrow> nat \<Rightarrow> key_range option" where
  "range_for_in op v nf =
     (case encode_value_in v nf of
        None \<Rightarrow> None
      | Some encoded \<Rightarrow>
          let same_type = prefixed (take 1 encoded); this_value = prefixed encoded in
          (case op of
             Eq \<Rightarrow> Some this_value
           | Gt \<Rightarrow> Some \<lparr>range_start = encoded, range_end = range_end same_type\<rparr>
           | Gte \<Rightarrow> Some \<lparr>range_start = encoded, range_end = range_end same_type\<rparr>
           | Lt \<Rightarrow> Some \<lparr>range_start = range_start same_type, range_end = range_end this_value\<rparr>
           | Lte \<Rightarrow> Some \<lparr>range_start = range_start same_type, range_end = range_end this_value\<rparr>
           | StartsWith \<Rightarrow>
               (case v of
                  String _ \<Rightarrow> Some (prefixed (take (length encoded - 2) encoded))
                | Binary _ \<Rightarrow> Some (prefixed (take (length encoded - 2) encoded))
                | _ \<Rightarrow> None)
           | _ \<Rightarrow> None))"

definition range_for :: "op \<Rightarrow> document \<Rightarrow> key_range option" where
  "range_for op v = range_for_in op v 1"

text \<open>\<open>part_starts_with\<close>'s loop: whether the prefix's escaped bytes come next.\<close>

fun body_starts :: "bytes \<Rightarrow> bytes \<Rightarrow> bool" where
  "body_starts body [] \<longleftrightarrow> True"
| "body_starts body (b # pre) \<longleftrightarrow>
     (if b = 0 then (case body of a # c # rest \<Rightarrow> a = 0 \<and> c = 0xFF \<and> body_starts rest pre | _ \<Rightarrow> False)
      else (case body of a # rest \<Rightarrow> a = b \<and> body_starts rest pre | [] \<Rightarrow> False))"

definition part_starts_with :: "bytes \<Rightarrow> document \<Rightarrow> nat \<Rightarrow> bool option" where
  "part_starts_with part pre nf =
     (let answer = (\<lambda>tag p.
        if \<not> (part \<noteq> [] \<and> hd part = tag) then Some False
        else if body_starts (tl part) p then Some True
        else if part_is_exact part nf then Some False else None)
      in case pre of
        String text \<Rightarrow> answer KTAG_STRING text
      | Binary bs \<Rightarrow> answer KTAG_BINARY bs
      | _ \<Rightarrow> Some False)"

subsection \<open>Byte order\<close>

lemma append_less_same_length:
  "length xs = length ys \<Longrightarrow> xs @ us < ys @ vs \<longleftrightarrow> xs < ys \<or> xs = ys \<and> us < (vs :: 'a::linorder list)"
  by (induction xs ys rule: list_induct2) auto

lemma nat_less_div_mod: "m < (n :: nat) \<longleftrightarrow> m div k < n div k \<or> m div k = n div k \<and> m mod k < n mod k"
proof (cases "m div k = n div k")
  case True
  then have m: "m = n div k * k + m mod k" by (metis div_mult_mod_eq)
  have n: "n = n div k * k + n mod k" by simp
  have "m < n \<longleftrightarrow> m mod k < n mod k" using m n by linarith
  then show ?thesis using True by simp
next
  case False
  then show ?thesis using div_le_mono [of m n k] div_le_mono [of n m k] by (cases "m < n") auto
qed

lemma be_bytes_less: "m < 256 ^ k \<Longrightarrow> n < 256 ^ k \<Longrightarrow> be_bytes k m < be_bytes k n \<longleftrightarrow> m < n"
proof (induction k arbitrary: m n)
  case 0 then show ?case by (simp add: be_bytes_def)
next
  case (Suc k)
  have d: "m div 256 < 256 ^ k" "n div 256 < 256 ^ k"
    using Suc.prems by (simp_all add: div_less_iff_less_mult mult.commute)
  have eq: "be_bytes k (m div 256) = be_bytes k (n div 256) \<longleftrightarrow> m div 256 = n div 256"
    using d be_nat_be_bytes [of k] by (metis mod_less)
  have b: "(of_nat (m mod 256) :: byte) < of_nat (n mod 256) \<longleftrightarrow> m mod 256 < n mod 256"
    by (simp add: word_less_nat_alt)
  show ?case
    using Suc.IH [OF d] eq b nat_less_div_mod [of m n 256]
    by (simp add: be_bytes_Suc append_less_same_length)
qed

lemma be_bytes_inj: "m < 256 ^ k \<Longrightarrow> n < 256 ^ k \<Longrightarrow> be_bytes k m = be_bytes k n \<longleftrightarrow> m = n"
  using be_nat_be_bytes [of k] by (metis mod_less)

lemma be_bytes_word64:
  fixes x y :: "64 word"
  shows "be_bytes 8 (unat x) < be_bytes 8 (unat y) \<longleftrightarrow> x < y"
    "be_bytes 8 (unat x) = be_bytes 8 (unat y) \<longleftrightarrow> x = y"
  using be_bytes_less [of "unat x" 8 "unat y"] be_bytes_inj [of "unat x" 8 "unat y"]
    unsigned_less [of x, where ?'a = nat] unsigned_less [of y, where ?'a = nat]
  by (simp_all add: word_less_nat_alt word_unat_eq_iff)

lemma be_bytes_word32:
  fixes x y :: "32 word"
  shows "be_bytes 4 (unat x) < be_bytes 4 (unat y) \<longleftrightarrow> x < y"
    "be_bytes 4 (unat x) = be_bytes 4 (unat y) \<longleftrightarrow> x = y"
  using be_bytes_less [of "unat x" 4 "unat y"] be_bytes_inj [of "unat x" 4 "unat y"]
    unsigned_less [of x, where ?'a = nat] unsigned_less [of y, where ?'a = nat]
  by (simp_all add: word_less_nat_alt word_unat_eq_iff)

subsection \<open>The sign bit\<close>

lemma unat_lt_64: "unat (w :: 64 word) < 2 ^ 64"
  using unsigned_less [of w, where ?'a = nat] by simp

lemma f_low_lt: "f_low f < 2 ^ 63"
  by (simp add: f_low_def)

lemma unat_split: "unat f = (if f_sign f then 2 ^ 63 else 0) + f_low f"
  using unat_lt_64 [of f] by (auto simp: f_sign_def f_low_def mod_if)

lemma top_bit: "drop_bit 63 (f :: 64 word) = 1 \<longleftrightarrow> f_sign f"
proof -
  have "unat (drop_bit 63 f) = unat f div 2 ^ 63"
    by (subst unat_drop_bit_eq) (rule drop_bit_eq_div)
  moreover have "drop_bit 63 f = 1 \<longleftrightarrow> unat (drop_bit 63 f) = 1"
    by (simp only: word_unat_eq_iff unsigned_1)
  ultimately show ?thesis using unat_lt_64 [of f] by (auto simp: f_sign_def)
qed

lemma bit_top: "bit (f :: 64 word) 63 \<longleftrightarrow> f_sign f"
proof -
  have "bit f 63 \<longleftrightarrow> bit (unat f) 63" by (simp add: bit_unsigned_iff)
  then have "bit f 63 \<longleftrightarrow> odd (unat f div 2 ^ 63)" by (simp only: bit_iff_odd)
  moreover have "unat f div 2 ^ 63 = (if f_sign f then 1 else 0)"
    using unat_lt_64 [of f] by (auto simp: f_sign_def intro!: div_nat_eqI)
  ultimately show ?thesis by simp
qed

lemma unat_not: "unat (NOT (f :: 64 word)) = 2 ^ 64 - 1 - unat f"
proof -
  have "of_nat (2 ^ 64 - 1 - unat f) = (2 ^ 64 - 1 - f :: 64 word)"
    using unat_lt_64 [of f] by (simp only: of_nat_diff) simp
  also have "\<dots> = NOT f" by (simp add: not_eq_complement)
  finally show ?thesis
    using unat_of_nat [where ?'a = 64, of "2 ^ 64 - 1 - unat f"] by simp
qed

lemma bit_top_iff: "n < 64 \<Longrightarrow> bit (push_bit 63 (1 :: 64 word)) n \<longleftrightarrow> n = 63"
  by (auto simp: bit_simps simp del: push_bit_of_1)

lemma set_top:
  fixes f :: "64 word"
  assumes "\<not> f_sign f"
  shows "f OR push_bit 63 1 = f + 2 ^ 63" "f XOR push_bit 63 1 = f + 2 ^ 63" "unat (f + 2 ^ 63) = unat f + 2 ^ 63"
proof -
  have "f AND push_bit 63 1 = 0"
    using assms bit_top [of f]
    by (intro bit_word_eqI) (auto simp: bit_and_iff bit_top_iff simp del: push_bit_of_1)
  then show "f OR push_bit 63 1 = f + 2 ^ 63" "f XOR push_bit 63 1 = f + 2 ^ 63"
    using disjunctive_add_eq_or [of f "push_bit 63 1"] disjunctive_add_eq_xor [of f "push_bit 63 1"]
    by (simp_all only: push_bit_of_1)
  have "unat f + unat (2 ^ 63 :: 64 word) < 2 ^ 64" using assms by (simp add: f_sign_def)
  then show "unat (f + 2 ^ 63) = unat f + 2 ^ 63" by (simp add: unat_word_ariths)
qed

lemma clear_top:
  fixes f :: "64 word"
  assumes "f_sign f"
  shows "f AND NOT (push_bit 63 1) = f - 2 ^ 63" "f XOR push_bit 63 1 = f - 2 ^ 63" "unat (f - 2 ^ 63) = unat f - 2 ^ 63"
proof -
  have "NOT f AND push_bit 63 1 = 0"
    using assms bit_top [of f]
    by (intro bit_word_eqI) (auto simp: bit_and_iff bit_not_iff bit_top_iff simp del: push_bit_of_1)
  then show "f AND NOT (push_bit 63 1) = f - 2 ^ 63" "f XOR push_bit 63 1 = f - 2 ^ 63"
    using disjunctive_diff_eq_and_not [of f "push_bit 63 1"] disjunctive_and_not_eq_xor [of f "push_bit 63 1"]
    by (simp_all only: push_bit_of_1)
  have "(2 ^ 63 :: 64 word) \<le> f" using assms by (simp add: f_sign_def word_le_nat_alt)
  then show "unat (f - 2 ^ 63) = unat f - 2 ^ 63" by (simp add: unat_sub)
qed

lemma unat_sortable: "unat (sortable f) = (if f_sign f then 2 ^ 63 - 1 - f_low f else 2 ^ 63 + f_low f)"
proof (cases "f_sign f")
  case True
  then show ?thesis using unat_split [of f] by (simp add: sortable_def top_bit unat_not)
next
  case False
  then show ?thesis
    using unat_split [of f] set_top [OF False] unfolding sortable_def top_bit by simp
qed

lemma unsortable_sortable [simp]: "unsortable (sortable f) = f"
proof (cases "f_sign f")
  case True
  then have "\<not> f_sign (sortable f)" using unat_sortable [of f] by (simp add: f_sign_def [of "sortable f"])
  then show ?thesis using True by (simp add: unsortable_def top_bit) (simp add: sortable_def top_bit)
next
  case False
  then have s: "f_sign (sortable f)" using unat_sortable [of f] by (simp add: f_sign_def [of "sortable f"])
  then have u: "unsortable (sortable f) = sortable f - 2 ^ 63"
    using clear_top(1) [OF s] by (simp only: unsortable_def top_bit if_True)
  have "sortable f = f + 2 ^ 63" using set_top(1) [OF False] False by (simp only: sortable_def top_bit if_False)
  then have "sortable f - 2 ^ 63 = f" by simp
  then show ?thesis using u by (simp only:)
qed

lemma sortable_less:
  assumes "\<not> (fval f = 0 \<and> f \<noteq> 0)" "\<not> (fval g = 0 \<and> g \<noteq> 0)"
  shows "sortable f < sortable g \<longleftrightarrow> fval f < fval g"
proof -
  have z: "f_low h = 0 \<longrightarrow> \<not> f_sign h" if "\<not> (fval h = 0 \<and> h \<noteq> 0)" for h
    using that unat_split [of h] by (auto simp: fval_def)
  show ?thesis
    using z [OF assms(1)] z [OF assms(2)] f_low_lt [of f] f_low_lt [of g]
      mag_strict_mono [of "f_low f" "f_low g"] mag_strict_mono [of "f_low g" "f_low f"]
      mag_pos [of "f_low f"] mag_pos [of "f_low g"]
    by (auto simp: word_less_nat_alt unat_sortable fval_def)
qed

lemma sint_flip: "int (unat (x XOR push_bit 63 1)) = sint (x :: 64 word) + 2 ^ 63"
proof -
  have s: "sint x = int (unat x) - (if f_sign x then 2 ^ 64 else 0)"
  proof -
    have "sint x = take_bit 64 (uint x) - 2 ^ 64 * of_bool (bit (uint x) 63)"
      unfolding sint_uint by (simp add: signed_take_bit_eq_take_bit_minus)
    moreover have "take_bit 64 (uint x) = uint x" 
      using unsigned_less [of x, where ?'a = int] by (simp add: take_bit_int_eq_self_iff)
    moreover have "bit (uint x) 63 \<longleftrightarrow> f_sign x" using bit_top [of x] by (simp add: bit_unsigned_iff)
    ultimately show ?thesis by simp
  qed
  show ?thesis
  proof (cases "f_sign x")
    case True
    then show ?thesis using clear_top(2,3) [OF True] s True by (simp add: f_sign_def)
  next
    case False
    then show ?thesis using set_top(2,3) [OF False] s False by simp
  qed
qed

subsection \<open>Escaped strings\<close>

text \<open>What \<open>encode_escaped\<close> writes between the tag and the terminator, with \<open>k\<close> bytes left.\<close>

fun esc :: "nat \<Rightarrow> bytes \<Rightarrow> bytes" where
  "esc k [] = []"
| "esc k (b # bs) =
     (if b = 0 then (if k < 2 then [] else 0 # 0xFF # esc (k - 2) bs)
      else (if k < 1 then [] else b # esc (k - 1) bs))"

lemma escape_loop_esc: "used \<le> budget \<Longrightarrow> escape_loop budget used bs out = out @ esc (budget - used) bs"
proof (induction bs arbitrary: used out)
  case (Cons b bs)
  then show ?case by (cases "b = 0") (auto simp: Let_def)
qed simp

lemma encode_escaped_esc: "encode_escaped tag bs budget = tag # esc budget bs @ [0, 0]"
  by (simp add: encode_escaped_def escape_loop_esc)

lemma length_esc: "length (esc k bs) \<le> k"
  by (induction k bs rule: esc.induct) (auto split: if_splits)

lemma byte_pos: "b \<noteq> 0 \<longleftrightarrow> (0 :: byte) < b"
  by (simp add: word_neq_0_conv)

lemma esc_mono: "x \<le> y \<Longrightarrow> esc k x @ [0, 0] \<le> esc k y @ [0, 0 :: byte]"
proof (induction k x arbitrary: y rule: esc.induct)
  case (1 k)
  then show ?case by (cases y) (auto simp: byte_pos)
next
  case (2 k b bs)
  then obtain c cs where y: "y = c # cs" by (cases y) auto
  have c: "b < c \<or> b = c \<and> bs \<le> cs" using 2(3) by (simp add: y)
  then show ?case
  proof
    assume "b < c"
    then have "c \<noteq> 0" by auto
    then show ?thesis using \<open>b < c\<close> by (auto simp: y byte_pos)
  next
    assume "b = c \<and> bs \<le> cs"
    then show ?thesis using 2(1,2) by (auto simp: y)
  qed
qed

lemma encode_escaped_mono: "x \<le> y \<Longrightarrow> encode_escaped tag x k \<le> encode_escaped tag y k"
  using esc_mono [of x y k] by (simp add: encode_escaped_esc)

text \<open>The terminator cannot occur inside the escaped bytes: none is a proper prefix of another.\<close>

lemma esc_prefix_free: "esc k x @ [0, 0] @ u = esc k y @ [0, 0] @ v \<Longrightarrow> esc k x = esc k y \<and> u = v"
proof (induction k x arbitrary: y rule: esc.induct)
  case (1 k)
  then show ?case by (cases y) (auto split: if_splits)
next
  case (2 k b bs)
  then show ?case by (cases y) (auto split: if_splits)
qed

definition width :: "bytes \<Rightarrow> nat" where
  "width bs = sum_list (map (\<lambda>b. if b = 0 then 2 else 1) bs)"

lemma width_Cons [simp]: "width [] = 0" "width (b # bs) = (if b = 0 then 2 else 1) + width bs"
  by (simp_all add: width_def)

lemma esc_whole: "length (esc k bs) + 1 < k \<Longrightarrow> width bs \<le> k"
proof (induction k bs rule: esc.induct)
  case (2 k b bs)
  show ?case
  proof (cases "b = 0")
    case True
    then have "length (esc (k - 2) bs) + 1 < k - 2" "\<not> k < 2" using "2.prems" by (auto split: if_splits)
    then show ?thesis using "2.IH"(1) True by simp
  next
    case False
    then have "length (esc (k - 1) bs) + 1 < k - 1" "\<not> k < 1" using "2.prems" by (auto split: if_splits)
    then show ?thesis using "2.IH"(2) False by simp
  qed
qed simp

lemma unescape_esc: "width bs \<le> k \<Longrightarrow> unescape (esc k bs) = Some bs"
  by (induction k bs rule: esc.induct) (auto split: if_splits)

lemma esc_no_zero: "0 \<notin> set (esc k bs) \<Longrightarrow> width bs \<le> k \<Longrightarrow> esc k bs = bs"
  by (induction k bs rule: esc.induct) (auto split: if_splits)

lemma esc_append: "\<exists>r. esc k (p @ t) = esc k p @ r"
  by (induction k p rule: esc.induct) auto

lemma esc_prefix_exact: "width p \<le> k \<Longrightarrow> esc k (p @ t) = esc k p @ esc (k - width p) t"
  by (induction k p rule: esc.induct) (auto split: if_splits)

lemma string_len_from_esc: "string_len_from (esc k bs @ [0, 0] @ rest) at = Some (at + length (esc k bs) + 2)"
proof (induction k bs arbitrary: at rule: esc.induct)
  case (2 k b bs)
  have ne: "esc k' bs @ [0, 0] @ rest \<noteq> []" for k' by simp
  show ?case
  proof (cases "b = 0")
    case True
    then show ?thesis using "2.IH"(1) by auto
  next
    case False
    then obtain c cs where c: "esc (k - 1) bs @ [0, 0] @ rest = c # cs" using ne by (meson list.exhaust)
    then show ?thesis using False "2.IH"(2) [of "at + 1"] by auto
  qed
qed simp

subsection \<open>Encodings of documents\<close>

lemma encode_number_eq:
  "\<not> is_nan f \<Longrightarrow> encode_number f = Some (KTAG_NUMBER # be_bytes 8 (unat (sortable (if fval f = 0 then 0 else f))))"
  by (simp add: encode_number_def Let_def)

lemma encode_number_order:
  assumes "encode_number f = Some x" "encode_number g = Some y"
  shows "x < y \<longleftrightarrow> fval f < fval g" "x = y \<longleftrightarrow> fval f = fval g"
proof -
  let ?f = "if fval f = 0 then 0 else f" and ?g = "if fval g = 0 then 0 else g"
  have n: "\<not> is_nan f" "\<not> is_nan g" using assms by (auto simp: encode_number_def split: if_splits)
  have xy: "x = KTAG_NUMBER # be_bytes 8 (unat (sortable ?f))" "y = KTAG_NUMBER # be_bytes 8 (unat (sortable ?g))"
    using assms encode_number_eq [OF n(1)] encode_number_eq [OF n(2)] by simp_all
  have v: "fval ?f = fval f" "fval ?g = fval g" by simp_all
  have l: "x < y \<longleftrightarrow> sortable ?f < sortable ?g" "y < x \<longleftrightarrow> sortable ?g < sortable ?f"
    unfolding xy by (simp_all add: be_bytes_word64)
  have s: "sortable ?f < sortable ?g \<longleftrightarrow> fval f < fval g" "sortable ?g < sortable ?f \<longleftrightarrow> fval g < fval f"
    using sortable_less [of ?f ?g] sortable_less [of ?g ?f] v by auto
  show "x < y \<longleftrightarrow> fval f < fval g" using l s by simp
  then show "x = y \<longleftrightarrow> fval f = fval g" using l s by (metis less_irrefl linorder_neqE)
qed

lemma number_encoding:
  assumes "encode_value_in v nf = Some e" and "number v = Some x"
  shows "\<exists>f. encode_number f = Some e \<and> \<not> is_nan f
    \<and> ((\<exists>i. v = Integer i \<and> f = as_f64 i) \<or> v = Float f)"
  using assms by (cases v) (auto simp: encode_value_in_def encode_number_def split: if_splits)

lemma encode_datetime_order:
  shows "encode_datetime s < encode_datetime t \<longleftrightarrow> cmp_datetime s t = Less" "encode_datetime s = encode_datetime t \<longleftrightarrow> cmp_datetime s t = Equal"
proof -
  let ?f = "\<lambda>x. secs x XOR push_bit 63 1"
  have l: "?f s < ?f t \<longleftrightarrow> sint (secs s) < sint (secs t)"
    using sint_flip [of "secs s"] sint_flip [of "secs t"] by (simp only: word_less_nat_alt) linarith
  have e: "?f s = ?f t \<longleftrightarrow> sint (secs s) = sint (secs t)"
    using sint_flip [of "secs s"] sint_flip [of "secs t"] by (simp only: word_unat_eq_iff) linarith
  have eq: "encode_datetime s = encode_datetime t \<longleftrightarrow> ?f s = ?f t \<and> nanos s = nanos t"
    unfolding encode_datetime_def by (subst append_eq_append_conv) (simp_all only: length_be_bytes be_bytes_word64 be_bytes_word32 simp_thms)
  have less: "encode_datetime s < encode_datetime t \<longleftrightarrow> ?f s < ?f t \<or> ?f s = ?f t \<and> nanos s < nanos t"
    unfolding encode_datetime_def by (simp only: append_less_same_length length_be_bytes be_bytes_word64 be_bytes_word32)
  show "encode_datetime s < encode_datetime t \<longleftrightarrow> cmp_datetime s t = Less" "encode_datetime s = encode_datetime t \<longleftrightarrow> cmp_datetime s t = Equal"
    unfolding eq less l e cmp_datetime_def then_with_def by auto
qed

lemma encode_kind:
  assumes "encode_value_in v nf = Some e"
  shows "sort_rank v \<noteq> UNORDERED \<and> e \<noteq> [] \<and> hd e = of_nat (sort_rank v)"
  using assms
  by (cases v) (auto simp: encode_value_in_def encode_number_def encode_escaped_esc ktag_defs UNORDERED_def
      Let_def split: if_splits)

lemma rank_lt: "sort_rank v \<le> 7"
  using sort_rank_le [of v] by (simp add: UNORDERED_def)

lemma encode_same_kind:
  assumes "encode_value_in a nf = Some x" "encode_value_in b nf = Some y"
  shows "hd x = hd y \<longleftrightarrow> sort_rank a = sort_rank b"
proof -
  have "hd x = of_nat (sort_rank a)" "hd y = of_nat (sort_rank b)" using assms encode_kind by auto
  moreover have "(of_nat (sort_rank a) :: byte) = of_nat (sort_rank b) \<longleftrightarrow> sort_rank a = sort_rank b"
    using rank_lt [of a] rank_lt [of b] by (simp add: word_unat_eq_iff)
  ultimately show ?thesis by simp
qed

lemma encode_value_mono:
  assumes "encode_value_in a nf = Some x" "encode_value_in b nf = Some y" "compare a b = Some c"
  shows "(c = Less \<longrightarrow> x \<le> y) \<and> (c = Equal \<longrightarrow> x = y)"
proof (cases "number a")
  case (Some p)
  then obtain q where q: "number b = Some q"
    using assms(3) by (cases a; cases b) (auto simp: compare_def int_vs_float_exact f_partial_cmp_def split: if_splits)
  have c: "c = cmp p q" using compare_numbers [OF Some q] assms(3) by simp
  obtain f g where f: "encode_number f = Some x" "(\<exists>i. a = Integer i \<and> f = as_f64 i) \<or> a = Float f"
    and g: "encode_number g = Some y" "(\<exists>i. b = Integer i \<and> g = as_f64 i) \<or> b = Float g"
    using number_encoding [OF assms(1) Some] number_encoding [OF assms(2) q] by blast
  have "fval f \<le> fval g" if "p \<le> q"
    using that f(2) g(2) Some q as_f64_mono as_f64_nearest
    by (auto split: if_splits simp: mult_le_cancel_right_pos [OF SCALE_pos])
  moreover have "fval g \<le> fval f" if "q \<le> p"
    using that f(2) g(2) Some q as_f64_mono as_f64_nearest
    by (auto split: if_splits simp: mult_le_cancel_right_pos [OF SCALE_pos])
  ultimately show ?thesis
    using encode_number_order [OF f(1) g(1)] c by (auto simp: le_less)
next
  case None
  show ?thesis
    using assms None encode_datetime_order(1) [THEN iffD2, THEN less_imp_le]
      encode_datetime_order(2) [THEN iffD2]
    by (cases a; cases b)
      (auto simp: compare_def encode_value_in_def int_vs_float_exact f_partial_cmp_def
        intro: encode_escaped_mono split: if_splits)
qed

text \<open>Byte order within a kind, strict, is the order of the values.\<close>

lemma compare_antisym: "compare b a = map_option reverse (compare a b)"
proof -
  have dt: "reverse (cmp_datetime x y) = cmp_datetime y x" for x y
    by (auto simp: cmp_datetime_def then_with_def)
  show ?thesis
    by (cases a; cases b) (simp_all add: compare_def int_vs_float_exact f_partial_cmp_def dt)
qed

lemma compare_some:
  assumes "encode_value_in a nf = Some x" "encode_value_in b nf = Some y"
  shows "(\<exists>c. compare a b = Some c) \<longleftrightarrow> hd x = hd y"
proof -
  have "sort_rank a \<noteq> UNORDERED" using encode_kind assms(1) by blast
  then have "sort_rank a = sort_rank b \<Longrightarrow> \<exists>c. compare a b = Some c"
    using compare_same_rank by blast
  moreover have "sort_rank a = sort_rank b" if "compare a b = Some c" for c
    using that by (cases a; cases b)
      (auto simp: compare_def int_vs_float_exact f_partial_cmp_def split: if_splits)
  ultimately show ?thesis using encode_same_kind [OF assms] by blast
qed

lemma encode_value_strict:
  assumes "encode_value_in a nf = Some x" "encode_value_in b nf = Some y" "hd x = hd y"
  shows "x < y \<Longrightarrow> compare a b = Some Less" and "y < x \<Longrightarrow> compare a b = Some Greater"
proof -
  obtain c where c: "compare a b = Some c" using compare_some [OF assms(1,2)] assms(3) by blast
  then have c': "compare b a = Some (reverse c)" using compare_antisym [where a = a and b = b] by simp
  note m = encode_value_mono [OF assms(1,2) c] encode_value_mono [OF assms(2,1) c']
  show "x < y \<Longrightarrow> compare a b = Some Less" "y < x \<Longrightarrow> compare a b = Some Greater"
    using m c by (metis less_irrefl not_le ordering.exhaust reverse.simps(3))+
qed

text \<open>No encoding is a proper prefix of another, whatever follows.\<close>

lemma encode_value_prefix_free:
  assumes "encode_value_in a nf = Some x" "encode_value_in b nf = Some y" "wf_doc a" "wf_doc b"
    and "x @ u = y @ v"
  shows "x = y"
proof -
  have ne: "x \<noteq> []" "y \<noteq> []" "hd x = of_nat (sort_rank a)" "hd y = of_nat (sort_rank b)"
    using encode_kind assms(1,2) by blast+
  have "hd x = hd y" using assms(5) ne by (metis hd_append2)
  then have r: "sort_rank a = sort_rank b" using encode_same_kind [OF assms(1,2)] by simp
  have num: "length x = 9" if "sort_rank a = 2" "encode_value_in a nf = Some x" for a x
    using that by (cases a) (auto simp: encode_value_in_def encode_number_def Let_def split: if_splits)
  have same: "length x = length y \<Longrightarrow> x = y" using assms(5) by simp
  show ?thesis
  proof (cases "sort_rank a = 2")
    case True
    then show ?thesis using num [OF True assms(1)] num [OF _ assms(2)] r same by simp
  next
    case False
    have esc: "tag # esc k p @ [0, 0] = tag # esc k q @ [0, 0]"
      if "(tag # esc k p @ [0, 0]) @ u = (tag # esc k q @ [0, 0]) @ v" for tag k p q
      using that esc_prefix_free [of k p u q v] by simp
    show ?thesis
    proof (cases "\<exists>p. a = String p \<or> a = Binary p")
      case True
      then show ?thesis
        using assms(1,2,5) r esc
        by (cases b) (auto simp: encode_value_in_def encode_escaped_esc UNORDERED_def split: if_splits)
    next
      case no: False
      have "length x = length y"
        using assms(1-4) r False no
        by (cases a; cases b) (auto simp: encode_value_in_def encode_number_def UNORDERED_def encode_datetime_def split: if_splits)
      then show ?thesis by (rule same)
    qed
  qed
qed

subsection \<open>Ranges\<close>

lemma byte_less_Suc: "(b :: byte) < 0xFF \<Longrightarrow> b < b + 1"
  by (simp add: word_less_nat_alt unat_word_ariths)

lemma append_less_cancel [simp]: "xs @ us < xs @ vs \<longleftrightarrow> us < (vs :: 'a::linorder list)"
  by (induction xs) auto

lemma prefix_end_rev_less: "prefix_end_rev r = Some e \<Longrightarrow> rev r @ s < e"
proof (induction r arbitrary: s rule: prefix_end_rev.induct)
  case (2 lst before)
  then show ?case using byte_less_Suc [of lst] by (cases "lst < 0xFF") auto
qed simp

lemma prefixed_contains: "range_contains (prefixed p) (p @ s)"
proof -
  have "p \<le> p @ s" by (induction p) auto
  then show ?thesis
    using prefix_end_rev_less [of "rev p"]
    by (auto simp: range_contains_def prefixed_def prefix_end_def split: option.splits)
qed

lemma less_not_prefix: "x < y \<Longrightarrow> \<not> prefix x y \<Longrightarrow> x @ s < y @ (t :: 'a::linorder list)"
proof (induction x y rule: list_induct2')
  case (4 a x b y)
  then show ?case by auto
qed auto

lemma encodable_iff: "(\<exists>e. encode_value_in v nf = Some e) \<longleftrightarrow> sort_rank v \<noteq> UNORDERED"
  by (cases v) (auto simp: encode_value_in_def encode_number_def UNORDERED_def Let_def)

lemma compare_ranks: "compare a b = Some c \<Longrightarrow> sort_rank a = sort_rank b \<and> sort_rank a \<noteq> UNORDERED"
  by (cases a; cases b)
    (auto simp: compare_def int_vs_float_exact f_partial_cmp_def UNORDERED_def split: if_splits)

lemma hd_contains:
  assumes "hd x = hd y" "x \<noteq> []" "y \<noteq> []"
  shows "[hd y] \<le> x @ s" "\<And>e. prefix_end (take 1 y) = Some e \<Longrightarrow> x @ s < e"
proof -
  have x: "x = [hd y] @ tl x" using assms by (metis append_Cons append_Nil list.collapse)
  have t: "take 1 y = [hd y]" using assms(3) by (cases y) simp_all
  show "[hd y] \<le> x @ s" by (subst x) simp
  show "x @ s < e" if "prefix_end (take 1 y) = Some e" for e
    using prefixed_contains [of "[hd y]" "tl x @ s"] that unfolding t
    by (subst x) (simp add: range_contains_def prefixed_def)
qed

lemma range_compare:
  assumes enc: "encode_value_in v nf = Some x" "encode_value_in w nf = Some y" and wf: "wf_doc v" "wf_doc w"
    and c: "compare v w = Some c"
  shows "c \<noteq> Greater \<Longrightarrow> range_contains \<lparr>range_start = range_start (prefixed (take 1 y)), range_end = range_end (prefixed y)\<rparr> (x @ s)"
    and "c \<noteq> Less \<Longrightarrow> range_contains \<lparr>range_start = y, range_end = range_end (prefixed (take 1 y))\<rparr> (x @ s)"
    and "c = Equal \<Longrightarrow> range_contains (prefixed y) (x @ s)"
proof -
  have hd: "hd x = hd y" "x \<noteq> []" "y \<noteq> []" using compare_some [OF enc] c encode_kind enc by blast+
  have t: "take 1 y = [hd y]" using hd(3) by (cases y) simp_all
  note H = hd_contains(1) [OF hd, of s] hd_contains(2) [OF hd, where s = s]
  have c': "compare w v = Some (reverse c)" using c compare_antisym [where a = v and b = w] by simp
  have m: "c = Less \<Longrightarrow> x \<le> y" "c = Equal \<Longrightarrow> x = y" "c = Greater \<Longrightarrow> y \<le> x"
    using encode_value_mono [OF enc c] encode_value_mono [OF enc(2,1) c'] by auto
  have le: "x @ s < e" if "x \<le> y" "prefix_end y = Some e" for e
  proof (cases "x = y")
    case True
    then show ?thesis using prefixed_contains [of y s] that(2) by (simp add: range_contains_def prefixed_def)
  next
    case False
    have "\<not> prefix x y"
      using encode_value_prefix_free [OF enc wf, of _ "[]"] False by (auto simp: prefix_def)
    then have "x @ s < y @ []" using that(1) False by (intro less_not_prefix) auto
    also have "y < e" using prefixed_contains [of y "[]"] that(2) by (simp add: range_contains_def prefixed_def)
    finally show ?thesis by simp
  qed
  show "range_contains \<lparr>range_start = range_start (prefixed (take 1 y)), range_end = range_end (prefixed y)\<rparr> (x @ s)"
    if "c \<noteq> Greater"
    using that m H(1) le by (cases c) (auto simp: range_contains_def prefixed_def t simp del: One_nat_def split: option.splits)
  have ge: "y \<le> x @ s" if "y \<le> x"
  proof -
    have "x \<le> x @ s" by (induction x) auto
    then show ?thesis using that by (rule order_trans [rotated])
  qed
  show "range_contains \<lparr>range_start = y, range_end = range_end (prefixed (take 1 y))\<rparr> (x @ s)"
    if "c \<noteq> Less"
    using that m H(2) ge by (cases c) (auto simp: range_contains_def prefixed_def split: option.splits)
  show "range_contains (prefixed y) (x @ s)" if "c = Equal"
    using that m(2) prefixed_contains by simp
qed

lemma encode_escaped_starts:
  assumes "starts_with text p"
  shows "\<exists>r. encode_escaped tag text k = take (length (encode_escaped tag p k) - 2) (encode_escaped tag p k) @ r"
proof -
  obtain t where t: "text = p @ t" using assms by (metis append_take_drop_id starts_with_def)
  obtain r where "esc k (p @ t) = esc k p @ r" using esc_append by blast
  then show ?thesis by (simp add: encode_escaped_esc t)
qed

lemma matches_compare:
  assumes "value_matches im lower op v w" and "op \<in> {Eq, Lt, Lte, Gt, Gte}" and "\<not> is_whole w"
  shows "holds op (compare v w)"
proof (cases "is_whole v")
  case True
  then have "op = Eq \<and> equal_values im v w" using assms by (cases op) (auto simp: value_matches_def)
  then show ?thesis
    using True assms(3) by (cases v; cases w) (auto simp: is_whole_def equal_docs_def compare_def)
next
  case False
  then show ?thesis using assms by (auto simp: value_matches_def)
qed

lemma range_for_in_matches:
  assumes m: "value_matches im lower op v w" and r: "range_for_in op w nf = Some r"
    and wf: "wf_doc v" "wf_doc w"
  shows "\<exists>e. encode_value_in v nf = Some e \<and> range_contains r (e @ s)"
proof -
  obtain y where y: "encode_value_in w nf = Some y" using r by (auto simp: range_for_in_def split: option.splits)
  then have w: "\<not> is_whole w" by (cases w) (auto simp: encode_value_in_def is_whole_def)
  show ?thesis
  proof (cases "op = StartsWith")
    case True
    then show ?thesis
      using m r encode_escaped_starts prefixed_contains
      by (cases v; cases w)
        (auto simp: value_matches_def range_for_in_def encode_value_in_def Let_def,
          metis append.assoc, metis append.assoc)
  next
    case False
    then have op: "op \<in> {Eq, Lt, Lte, Gt, Gte}" using r y by (cases op) (auto simp: range_for_in_def)
    have h: "holds op (compare v w)" using matches_compare [OF m op w] .
    then obtain c where c: "compare v w = Some c" using op by (cases "compare v w") auto
    then obtain x where x: "encode_value_in v nf = Some x" using compare_ranks encodable_iff by blast
    note R = range_compare [OF x y wf c, of s]
    show ?thesis
      using op h r y c R x by (cases op; cases c) (auto simp: range_for_in_def Let_def)
  qed
qed

subsection \<open>The room a key takes\<close>

lemma encode_value_length:
  assumes "encode_value_in v nf = Some e" "wf_doc v" "1 \<le> nf" "nf \<le> MAX_COMPOUND_FIELDS"
  shows "length e \<le> (MAX_KEY_LEN - 16) div nf"
proof -
  have d: "126 \<le> 1008 div nf" using div_le_mono2 [of nf 8 1008] assms(3,4) by (simp add: MAX_COMPOUND_FIELDS_def)
  have b: "string_budget nf + 3 = 1008 div nf" using d by (simp add: string_budget_def MAX_KEY_LEN_def)
  have num: "length x = 9" if "encode_number f = Some x" for f x
    using that by (auto simp: encode_number_def Let_def split: if_splits)
  have "length e \<le> 126 \<or> length e \<le> string_budget nf + 3"
    using assms(1,2) length_esc [of "string_budget nf"]
    by (cases v) (auto simp: encode_value_in_def encode_escaped_esc encode_datetime_def dest!: num)
  then show ?thesis using d b by (auto simp: MAX_KEY_LEN_def)
qed

definition part_of :: "nat \<Rightarrow> document \<Rightarrow> bytes" where
  "part_of nf v = (case encode_value_in v nf of Some e \<Rightarrow> e | None \<Rightarrow> [KTAG_OTHER])"

lemma encode_values_parts: "encode_values vs = concat (map (part_of (length vs)) vs)"
  unfolding encode_values_def by (subst fold_appending) (auto simp: part_of_def)

lemma length_concat_le: "(\<And>x. x \<in> set xs \<Longrightarrow> length (f x) \<le> k) \<Longrightarrow> length (concat (map f xs)) \<le> length xs * k"
proof (induction xs)
  case (Cons x xs)
  then have "length (f x) \<le> k" "length (concat (map f xs)) \<le> length xs * k" by simp_all
  then show ?case by simp
qed simp

lemma compound_length:
  assumes "1 \<le> length vs" "length vs \<le> MAX_COMPOUND_FIELDS" "\<And>v. v \<in> set vs \<Longrightarrow> wf_doc v" "length i = 16"
  shows "length (compound vs i) \<le> MAX_KEY_LEN"
proof -
  let ?n = "length vs" and ?k = "(MAX_KEY_LEN - 16) div length vs"
  have n0: "0 < ?n" using assms(1) by linarith
  have n8: "?n \<le> 8" using assms(2) by (simp add: MAX_COMPOUND_FIELDS_def)
  from div_le_mono2 [OF n0 n8, of 1008] have "126 \<le> 1008 div ?n" by simp
  then have "length (part_of ?n v) \<le> ?k" if "v \<in> set vs" for v
    using that encode_value_length [of v ?n] assms by (auto simp: part_of_def MAX_KEY_LEN_def split: option.splits)
  then have "length (encode_values vs) \<le> ?n * ?k"
    unfolding encode_values_parts by (rule length_concat_le)
  also have "\<dots> \<le> MAX_KEY_LEN - 16" by simp
  finally show ?thesis using assms(4) by (simp add: compound_def MAX_KEY_LEN_def)
qed

subsection \<open>Splitting a compound key\<close>

lemma part_len_part_of: "wf_doc v \<Longrightarrow> part_len (part_of nf v @ rest) = length (part_of nf v)"
proof -
  assume wf: "wf_doc v"
  have esc: "part_len ((tag # esc k p @ [0, 0]) @ rest) = length (tag # esc k p @ [0, 0])"
    if "tag = KTAG_STRING \<or> tag = KTAG_BINARY" for tag k p
    using that string_len_from_esc [of k p rest 1]
    by (auto simp: part_len_def string_len_def ktag_defs Let_def)
  have num: "part_len (x @ rest) = length x" if "encode_number f = Some x" for f x
    using that by (auto simp: encode_number_def part_len_def ktag_defs Let_def split: if_splits)
  show ?thesis
  proof (cases "encode_value_in v nf")
    case None
    then show ?thesis by (simp add: part_of_def part_len_def ktag_defs)
  next
    case (Some e)
    have "part_len (e @ rest) = length e"
      using Some wf
      by (cases v) (auto simp: encode_value_in_def encode_escaped_esc esc [simplified] encode_datetime_def
          dest!: num, auto simp: part_len_def ktag_defs Let_def)
    then show ?thesis using Some by (simp add: part_of_def)
  qed
qed

lemma part_of_nonempty: "part_of nf v \<noteq> []"
  using encode_kind [of v nf] by (auto simp: part_of_def split: option.splits)

lemma parts_concat: "(\<And>v. v \<in> set vs \<Longrightarrow> wf_doc v) \<Longrightarrow> parts (concat (map (part_of nf) vs)) = map (part_of nf) vs"
proof (induction vs)
  case Nil then show ?case by (simp add: parts.simps)
next
  case (Cons v vs)
  then have "part_len (part_of nf v @ concat (map (part_of nf) vs)) = length (part_of nf v)"
    by (intro part_len_part_of) simp
  then show ?case using Cons part_of_nonempty [of nf v] by (subst parts.simps) (simp add: Let_def)
qed

subsection \<open>What a part tells of its value\<close>

lemma exact_int:
  assumes "\<bar>fval (as_f64 i)\<bar> < 2 ^ 53 * SCALE"
  shows "fval (as_f64 i) = sint i * SCALE"
proof (rule ccontr)
  assume "fval (as_f64 i) \<noteq> sint i * SCALE"
  then have big: "2 ^ 53 < \<bar>sint i\<bar>" using as_f64_exact [of i] by (meson not_le)
  define a where "a = nat \<bar>sint i\<bar>"
  have a: "2 ^ 53 < a" "0 < a" using big by (simp_all add: a_def)
  have e: "mag (round_mag (2 ^ 53)) = 2 ^ 53 * 2 ^ 1074" by (rule mag_round_exact) simp_all
  have "mag (round_mag (2 ^ 53)) \<le> a * 2 ^ 1074" unfolding e using a(1) by (intro mult_right_mono) simp_all
  then have "2 ^ 53 * 2 ^ 1074 \<le> mag (round_mag a)"
    using round_mag_nearest(2) [OF a(2), of "round_mag (2 ^ 53)"] unfolding e by blast
  then have "int (2 ^ 53 * 2 ^ 1074) \<le> int (mag (round_mag a))" by (simp only: of_nat_le_iff)
  moreover have "\<bar>fval (as_f64 i)\<bar> = int (mag (round_mag a))"
    using big by (auto simp: fval_as_f64 a_def)
  ultimately show False using assms by (simp add: SCALE_def)
qed

lemma exact_number:
  assumes "encode_value_in v nf = Some p" "number v = Some x" "part_is_exact p nf"
  shows "\<exists>f. p = KTAG_NUMBER # be_bytes 8 (unat (sortable f)) \<and> \<not> is_nan f \<and> fval f = x"
proof -
  obtain g where g: "encode_number g = Some p" "\<not> is_nan g"
    "(\<exists>i. v = Integer i \<and> g = as_f64 i) \<or> v = Float g"
    using number_encoding [OF assms(1,2)] by blast
  let ?f = "if fval g = 0 then 0 else g"
  have p: "p = KTAG_NUMBER # be_bytes 8 (unat (sortable ?f))" using encode_number_eq [OF g(2)] g(1) by simp
  have "of_nat (be_nat (slice p 1 8)) = sortable ?f"
  proof -
    have "slice p 1 8 = be_bytes 8 (unat (sortable ?f))" by (simp only: p slice_def) simp
    then show ?thesis using unat_lt_64 [of "sortable ?f"] by (simp add: be_nat_be_bytes)
  qed
  then have "int (mag (f_low ?f)) < 2 ^ 53 * SCALE"
    using assms(3) p by (simp add: part_is_exact_def Let_def)
  then have small: "\<bar>fval g\<bar> < 2 ^ 53 * SCALE" by (simp add: fval_def split: if_splits)
  have "fval g = x" using g(3) assms(2) exact_int small by (auto split: if_splits)
  moreover have "\<not> is_nan ?f" using g(2) by (simp add: is_nan_def f_low_def)
  ultimately show ?thesis using p by (intro exI [of _ ?f]) simp
qed

lemma be_nat_word: "of_nat (be_nat (be_bytes 8 (unat x))) = (x :: 64 word)"
  "of_nat (be_nat (be_bytes 4 (unat y))) = (y :: 32 word)"
  using unat_lt_64 [of x] unsigned_less [of y, where ?'a = nat] by (simp_all add: be_nat_be_bytes)

lemma strip_terminator_eq [simp]: "strip_terminator (bs @ [0, 0]) = Some bs"
  by (simp add: strip_terminator_def)

lemma exact_escaped:
  assumes "part_is_exact (tag # esc (string_budget nf) bs @ [0, 0]) nf" "tag = KTAG_STRING \<or> tag = KTAG_BINARY"
  shows "unescape (esc (string_budget nf) bs) = Some bs"
    "0 \<notin> set (esc (string_budget nf) bs) \<Longrightarrow> esc (string_budget nf) bs = bs"
proof -
  have "length (esc (string_budget nf) bs) + 1 < string_budget nf"
    using assms by (auto simp: part_is_exact_def ktag_defs)
  then have w: "width bs \<le> string_budget nf" by (rule esc_whole)
  then show "unescape (esc (string_budget nf) bs) = Some bs" by (rule unescape_esc)
  show "esc (string_budget nf) bs = bs" if "0 \<notin> set (esc (string_budget nf) bs)"
    using that w by (rule esc_no_zero)
qed

lemma decode_part_exact:
  assumes enc: "encode_value_in v nf = Some p" and ex: "part_is_exact p nf" and wf: "wf_doc v"
  shows "\<exists>d. decode_part p nf = Some d \<and> compare v d = Some Equal"
proof (cases "number v")
  case (Some x)
  obtain f where f: "p = KTAG_NUMBER # be_bytes 8 (unat (sortable f))" "\<not> is_nan f" "fval f = x"
    using exact_number [OF enc Some ex] by blast
  then have "decode_part p nf = Some (Float f)"
    using ex by (simp add: decode_part_def ktag_defs be_nat_word)
  moreover have "compare v (Float f) = Some Equal" using compare_numbers [OF Some, of "Float f"] f by simp
  ultimately show ?thesis by blast
next
  case None
  then show ?thesis
  proof (cases v)
    case (DateTime t)
    then have p: "p = KTAG_DATETIME # be_bytes 8 (unat (secs t XOR push_bit 63 1)) @ be_bytes 4 (unat (nanos t))"
      using enc by (simp add: encode_value_in_def encode_datetime_def)
    have "(secs t XOR push_bit 63 1) XOR push_bit 63 1 = secs t" by (simp only: xor.assoc xor_self_eq xor.right_neutral)
    then have "decode_part p nf = Some (DateTime t)"
      using ex DateTime wf p by (simp add: decode_part_def ktag_defs be_nat_word from_unix_def del: push_bit_of_1)
    then show ?thesis using DateTime by (simp add: compare_def cmp_datetime_def)
  next
    case (String s)
    then have p: "p = KTAG_STRING # esc (string_budget nf) s @ [0, 0]"
      using enc by (simp add: encode_value_in_def encode_escaped_esc)
    have "decode_part p nf = Some (String s)"
    proof (cases "0 \<in> set (esc (string_budget nf) s)")
      case True
      then show ?thesis
        using ex exact_escaped(1) [of KTAG_STRING nf s] String wf p by (simp add: decode_part_def ktag_defs)
    next
      case False
      then have "esc (string_budget nf) s = s" using exact_escaped(2) [of KTAG_STRING nf s] ex p by simp
      then show ?thesis using False ex String wf p by (simp add: decode_part_def ktag_defs)
    qed
    then show ?thesis using String by (simp add: compare_def)
  next
    case (Binary s)
    then have p: "p = KTAG_BINARY # esc (string_budget nf) s @ [0, 0]"
      using enc by (simp add: encode_value_in_def encode_escaped_esc)
    have "decode_part p nf = Some (Binary s)"
      using ex exact_escaped [of KTAG_BINARY nf s] p by (auto simp: decode_part_def ktag_defs)
    then show ?thesis using Binary by (simp add: compare_def)
  qed (use enc ex wf in \<open>auto simp: encode_value_in_def encode_number_def decode_part_def compare_def ktag_defs split: if_splits\<close>)
qed

lemma then_with_Equal_iff: "then_with c d = Equal \<longleftrightarrow> c = Equal \<and> d = Equal"
  by (cases c) simp_all

lemma compare_equal_trans:
  assumes "compare a d = Some Equal" "compare b d = Some Equal"
  shows "compare a b = Some Equal"
proof -
  have r: "sort_rank a = sort_rank d" "sort_rank b = sort_rank d" "sort_rank d \<noteq> UNORDERED"
    using compare_ranks assms by metis+
  then show ?thesis using assms compare_same_rank [of a d] compare_same_rank [of b d] compare_same_rank [of a b]
    by (auto simp: key_cmp_def then_with_Equal_iff)
qed

lemma exact_equal:
  assumes "encode_value_in v nf = Some p" "encode_value_in w nf = Some p" "part_is_exact p nf" "wf_doc v" "wf_doc w"
  shows "compare v w = Some Equal"
proof -
  obtain d where d: "decode_part p nf = Some d" "compare v d = Some Equal"
    using decode_part_exact [OF assms(1,3,4)] by blast
  then have "compare w d = Some Equal" using decode_part_exact [OF assms(2,3,5)] by (metis option.inject)
  with d(2) show ?thesis by (rule compare_equal_trans)
qed

lemma encode_None_compare: "encode_value_in w nf = None \<Longrightarrow> compare v w = None"
  using encodable_iff [of w nf] compare_ranks [of v w] by (cases "compare v w") auto

lemma compare_part_of:
  assumes wf: "wf_doc v" "wf_doc w" and c: "compare_part (part_of nf v) (encode_for w nf) nf = Some c"
  shows "c = compare v w"
proof (cases "encode_value_in v nf")
  case None
  then have "c = None" using c by (auto simp: part_of_def compare_part_def split: option.splits)
  moreover have "compare v w = None" using encode_None_compare [OF None, of w] compare_antisym [of v w] by simp
  ultimately show ?thesis by simp
next
  case (Some p)
  note v = this
  have pne: "p \<noteq> []" "hd p \<noteq> KTAG_OTHER"
    using encode_kind [OF v] rank_lt [of v] by (auto simp: KTAG_OTHER_def word_unat_eq_iff)
  show ?thesis
  proof (cases "encode_value_in w nf")
    case None
    then show ?thesis using c v pne encode_None_compare [OF None, of v]
      by (cases p) (auto simp: part_of_def compare_part_def encode_for_def)
  next
    case (Some e)
    have e: "e \<noteq> []" using encode_kind [OF Some] by blast
    have d: "c = (if hd p \<noteq> hd e then None else if p = e then Some Equal else Some (cmp p e))"
      and ex: "p = e \<Longrightarrow> part_is_exact p nf"
      using c v Some pne e by (cases p; auto simp: part_of_def compare_part_def encode_for_def split: if_splits)+
    consider "hd p \<noteq> hd e" | "p = e" | "hd p = hd e" "p < e" | "hd p = hd e" "e < p" by force
    then show ?thesis
    proof cases
      case 1
      then show ?thesis using d compare_some [OF v Some] by auto
    next
      case 2
      then show ?thesis using d exact_equal [OF v _ ex wf] Some by simp
    next
      case 3
      then show ?thesis using d encode_value_strict(1) [OF v Some] by auto
    next
      case 4
      then show ?thesis using d encode_value_strict(2) [OF v Some] by auto
    qed
  qed
qed

lemma starts_with_Cons [simp]:
  "starts_with s []" "\<not> starts_with [] (b # q)" "starts_with (a # s) (b # q) \<longleftrightarrow> a = b \<and> starts_with s q"
  by (auto simp: starts_with_def)

lemma body_starts_sound: "body_starts (esc k s @ [0, 0]) q \<Longrightarrow> starts_with s q"
proof (induction k s arbitrary: q rule: esc.induct)
  case (1 k)
  then show ?case by (cases q) (auto split: if_splits)
next
  case (2 k b bs)
  show ?case
  proof (cases q)
    case (Cons c q')
    then show ?thesis using "2.prems" "2.IH"(1) [of q'] "2.IH"(2) [of q']
      by (cases "b = 0"; cases "c = 0"; cases "k < 2"; cases "k < 1") (auto split: list.splits)
  qed simp
qed

lemma body_starts_complete: "width s \<le> k \<Longrightarrow> starts_with s q \<Longrightarrow> body_starts (esc k s @ [0, 0]) q"
proof (induction k s arbitrary: q rule: esc.induct)
  case (1 k)
  then show ?case by (cases q) auto
next
  case (2 k b bs)
  show ?case
  proof (cases q)
    case (Cons c q')
    then show ?thesis using "2.prems" "2.IH"(1) [of q'] "2.IH"(2) [of q'] by (cases "b = 0") auto
  qed simp
qed

lemma part_starts_with_part_of:
  assumes ans: "part_starts_with (part_of nf v) pre nf = Some b"
  shows "b \<longleftrightarrow> value_matches im lower StartsWith v pre"
proof -
  have tags: "hd (part_of nf v) = KTAG_STRING \<longleftrightarrow> (\<exists>s. v = String s)"
    "hd (part_of nf v) = KTAG_BINARY \<longleftrightarrow> (\<exists>s. v = Binary s)"
    by (cases v; auto simp: part_of_def encode_value_in_def encode_number_def encode_escaped_esc ktag_defs Let_def)+
  have esc: "b \<longleftrightarrow> starts_with s q"
    if "part_starts_with (part_of nf v) pre nf =
        (if body_starts (esc (string_budget nf) s @ [0, 0]) q then Some True
         else if part_is_exact (tag # esc (string_budget nf) s @ [0, 0]) nf then Some False else None)"
      "tag = KTAG_STRING \<or> tag = KTAG_BINARY" for tag s q
  proof -
    have "width s \<le> string_budget nf" if "part_is_exact (tag # esc (string_budget nf) s @ [0, 0]) nf"
      using that \<open>tag = KTAG_STRING \<or> tag = KTAG_BINARY\<close> esc_whole [of "string_budget nf" s]
      by (auto simp: part_is_exact_def ktag_defs)
    then show ?thesis using that ans body_starts_sound [of "string_budget nf" s q] body_starts_complete [of s "string_budget nf" q] by (auto split: if_splits)
  qed
  consider (str) s q where "v = String s" "pre = String q" | (bin) s q where "v = Binary s" "pre = Binary q"
    | (none) "\<not> value_matches im lower StartsWith v pre" "part_starts_with (part_of nf v) pre nf = Some False"
    using tags part_of_nonempty [of nf v]
    by (cases pre; cases v) (auto simp: part_starts_with_def value_matches_def)
  then show ?thesis
  proof cases
    case str
    then show ?thesis using esc [of s q KTAG_STRING]
      by (simp add: part_of_def encode_value_in_def encode_escaped_esc part_starts_with_def value_matches_def)
  next
    case bin
    then show ?thesis using esc [of s q KTAG_BINARY]
      by (simp add: part_of_def encode_value_in_def encode_escaped_esc part_starts_with_def value_matches_def)
  next
    case none
    then show ?thesis using ans by simp
  qed
qed

subsection \<open>What the index relies on\<close>

lemma encode_value_rank_less:
  assumes "encode_value_in a nf = Some x" "encode_value_in b nf = Some y" "hd x \<noteq> hd y" "x < y"
  shows "sort_rank a < sort_rank b"
proof -
  have "x \<noteq> []" "hd x = of_nat (sort_rank a)" "y \<noteq> []" "hd y = of_nat (sort_rank b)"
    using encode_kind assms(1,2) by blast+
  then have "(of_nat (sort_rank a) :: byte) < of_nat (sort_rank b)"
    using assms(3,4) by (cases x; cases y) auto
  then show ?thesis using rank_lt [of a] rank_lt [of b] by (simp add: word_less_nat_alt)
qed

text \<open>
  C10. An index walked in the order of its keys gives values in sort order: of two values that
  can be keys, the one with the smaller key sorts strictly first, whatever their kinds, and two
  values with the same key sort as equal unless the key was cut or the number rounded.
\<close>

theorem key_order_is_sort_order:
  assumes "encode_value_in a nf = Some x" and "encode_value_in b nf = Some y" and "wf_doc a" and "wf_doc b"
  shows "(x < y \<longrightarrow> sort_order a b Asc = Inr Less)
    \<and> (x = y \<and> part_is_exact x nf \<longrightarrow> sort_order a b Asc = Inr Equal)"
proof -
  have un: "sort_rank a \<noteq> UNORDERED" "sort_rank b \<noteq> UNORDERED" using encode_kind assms(1,2) by blast+
  have same: "sort_order a b Asc = Inr c" if "compare a b = Some c" for c
    using compare_ranks [OF that] that compare_same_rank [of a b] by (simp add: sort_order_eq total_cmp_def)
  have "sort_order a b Asc = Inr Less" if "x < y"
  proof (cases "hd x = hd y")
    case True
    then show ?thesis using encode_value_strict(1) [OF assms(1,2)] that same by blast
  next
    case False
    then show ?thesis using encode_value_rank_less [OF assms(1,2)] that un
      by (simp add: sort_order_eq total_cmp_def cmp_def)
  qed
  moreover have "sort_order a b Asc = Inr Equal" if "x = y" "part_is_exact x nf"
    using exact_equal [OF assms(1) _ that(2) assms(3,4)] assms(2) that(1) same by blast
  ultimately show ?thesis by blast
qed

theorem key_order_is_sort_order_witness:
  "sort_order (String [65]) (String [66]) Asc = Inr Less \<and> sort_order Null Null Asc = Inr Equal"
proof
  have "encode_value_in (String [b]) 1 = Some [KTAG_STRING, b, 0, 0]" if "b \<noteq> 0" for b
    using that by (simp add: encode_value_in_def encode_escaped_def string_budget_def MAX_KEY_LEN_def)
  then show "sort_order (String [65]) (String [66]) Asc = Inr Less"
    using key_order_is_sort_order [of "String [65]" 1 "[KTAG_STRING, 65, 0, 0]" "String [66]" "[KTAG_STRING, 66, 0, 0]"]
    by (simp add: in_range_def utf8_ok.simps)
  show "sort_order Null Null Asc = Inr Equal"
    using key_order_is_sort_order [of Null 1 "[KTAG_NULL]" Null "[KTAG_NULL]"]
    by (simp add: encode_value_in_def part_is_exact_def ktag_defs)
qed

text \<open>
  C11. Every document a condition matches lies in the condition's range: whatever follows the
  value in the key (the further values of a compound key, the document's id), the key of a
  value that \<open>op\<close> matches is within \<open>range_for_in\<close>'s bounds. Nothing an index scan skips
  could have matched.
\<close>

theorem range_for_in_sound:
  assumes "value_matches im lower op v w" and "range_for_in op w nf = Some r" and "wf_doc v" and "wf_doc w"
  shows "\<exists>e. encode_value_in v nf = Some e \<and> range_contains r (e @ rest)"
  using assms by (rule range_for_in_matches)

theorem range_for_in_sound_witness:
  "\<exists>e. encode_value_in (Bool True) 2 = Some e \<and> range_contains (prefixed [KTAG_BOOL, 1]) (e @ [7, 7])"
  by (rule range_for_in_sound [where im = alist_ops and lower = "\<lambda>s. s" and op = Eq and w = "Bool True"])
    (simp_all add: value_matches_def is_whole_def compare_def range_for_in_def encode_value_in_def)

text \<open>
  A key never exceeds \<open>MAX_KEY_LEN\<close>, so it always fits a page of the tree: the strings of up
  to eight values share the room, whatever their lengths and however many zero bytes they hold.
\<close>

theorem compound_key_bounded:
  assumes "vs \<noteq> []" and "length vs \<le> MAX_COMPOUND_FIELDS" and "list_all wf_doc vs" and "length i = 16"
  shows "length (compound vs i) \<le> MAX_KEY_LEN"
  using assms by (intro compound_length) (auto simp: list_all_iff Suc_leI)

theorem compound_key_bounded_witness:
  "length (compound [String (replicate 5000 65), Null] (replicate 16 0)) \<le> MAX_KEY_LEN"
proof -
  have "utf8_ok (replicate n 65)" for n by (induction n) (simp_all add: in_range_def utf8_ok.simps)
  then show ?thesis by (intro compound_key_bounded) (simp_all add: MAX_COMPOUND_FIELDS_def)
qed

text \<open>
  C12. A compound key comes apart into what it was made of: its last sixteen bytes are the
  document's id, and \<open>parts\<close> splits the rest into the encodings of the values, in order, a value
  no key holds as \<open>TAG_OTHER\<close>.
\<close>

theorem compound_key_splits:
  assumes "list_all wf_doc vs" and "length i = 16"
  shows "doc_id (compound vs i) = i \<and> value_part (compound vs i) = encode_values vs
    \<and> parts (encode_values vs)
      = map (\<lambda>v. case encode_value_in v (length vs) of Some e \<Rightarrow> e | None \<Rightarrow> [KTAG_OTHER]) vs"
proof -
  have "parts (encode_values vs) = map (part_of (length vs)) vs"
    unfolding encode_values_parts using assms(1) by (intro parts_concat) (auto simp: list_all_iff)
  then show ?thesis
    using assms(2) by (simp add: doc_id_def value_part_def compound_def part_of_def Let_def)
qed

theorem compound_key_splits_witness:
  "doc_id (compound [Null, Array []] (replicate 16 7)) = replicate 16 7
    \<and> value_part (compound [Null, Array []] (replicate 16 7)) = encode_values [Null, Array []]
    \<and> parts (encode_values [Null, Array []])
      = map (\<lambda>v. case encode_value_in v (length [Null, Array []]) of Some e \<Rightarrow> e | None \<Rightarrow> [KTAG_OTHER]) [Null, Array []]"
  by (rule compound_key_splits) simp_all

text \<open>
  C13. What a key's bytes decide is what the document would have: of the part of a key that
  stands for \<open>v\<close>, an answer of \<open>compare_part\<close> is \<open>compare v w\<close>, an answer of \<open>part_starts_with\<close> is
  whether \<open>v\<close> starts with \<open>w\<close>, and an exact part decodes to a value equal to \<open>v\<close>.
\<close>

theorem key_parts_decide:
  assumes "encode_value_in v nf = Some p" and "wf_doc v" and "wf_doc w"
  shows "compare_part p (encode_for w nf) nf \<in> {None, Some (compare v w)}
    \<and> part_starts_with p w nf \<in> {None, Some (value_matches im lower StartsWith v w)}
    \<and> (part_is_exact p nf \<longrightarrow> (\<exists>d. decode_part p nf = Some d \<and> compare v d = Some Equal))"
proof -
  have p: "part_of nf v = p" using assms(1) by (simp add: part_of_def)
  have "compare_part p (encode_for w nf) nf \<in> {None, Some (compare v w)}"
    using compare_part_of [OF assms(2,3), of nf] p by (cases "compare_part p (encode_for w nf) nf") auto
  moreover have "part_starts_with p w nf \<in> {None, Some (value_matches im lower StartsWith v w)}"
    using part_starts_with_part_of [of nf v w _ im lower] p by (cases "part_starts_with p w nf") auto
  ultimately show ?thesis using decode_part_exact [OF assms(1) _ assms(2)] by blast
qed

theorem key_parts_decide_witness:
  "compare_part [KTAG_BOOL, 1] (encode_for (Bool False) 1) 1 \<in> {None, Some (compare (Bool True) (Bool False))}
    \<and> part_starts_with [KTAG_BOOL, 1] (Bool False) 1
        \<in> {None, Some (value_matches alist_ops (\<lambda>s. s) StartsWith (Bool True) (Bool False))}
    \<and> (\<exists>d. decode_part [KTAG_BOOL, 1] 1 = Some d \<and> compare (Bool True) d = Some Equal)"
  using key_parts_decide [of "Bool True" 1 "[KTAG_BOOL, 1]" "Bool False" alist_ops "\<lambda>s. s"]
  by (simp add: encode_value_in_def part_is_exact_def ktag_defs)

end
