(* ===== verification/Wal.thy ===== *)
theory Wal
  imports Crc32c Slotted
begin

text \<open>
  The write-ahead log (\<open>src/src/durability/wal.rs\<close>): batches of page images as length-prefixed,
  checksummed records, a batch of more than \<open>record_pages\<close> pages as several, and the scan that
  finds what is pending after a crash.

  The file is its bytes. What the operating system may do is the argument \<open>os\<close>: which writes,
  flushes, seeks and truncations fail, and how many bytes a failed write leaves behind. An
  operation that fails leaves a changed log too, so operations return the log with the result.

  The lemmas: what \<open>log\<close> writes is read back exactly; the remains of a batch whose log was cut
  short are never taken for one; and over every sequence of logs, failures, undos and
  checkpoints the file holds the committed batches and nothing that recovery would mistake.
\<close>

subsection \<open>Records\<close>

type_synonym page_image = "nat \<times> bytes"

definition WAL_MAGIC :: bytes where "WAL_MAGIC = ascii ''TRUNKWAL''"
definition WAL_VERSION :: nat where "WAL_VERSION = 3"
definition WAL_VERSION_WITHOUT_FLAGS :: nat where "WAL_VERSION_WITHOUT_FLAGS = 2"
definition WAL_HEADER_LEN :: nat where "WAL_HEADER_LEN = 12"
definition PAGE_ENTRY_LEN :: nat where "PAGE_ENTRY_LEN = 8 + USABLE_PAGE_SIZE"
definition MORE :: nat where "MORE = 1"
definition RECORD_PAGES :: nat where "RECORD_PAGES = 32 * 2 ^ 20 div PAGE_SIZE"

definition encode_header :: bytes where
  "encode_header = put (put (replicate WAL_HEADER_LEN 0) 0 WAL_MAGIC) 8 (le_bytes 4 WAL_VERSION)"

definition push_entry :: "page_image \<Rightarrow> bytes \<Rightarrow> bytes res" where
  "push_entry = (\<lambda>(i, pg) rec.
     if length pg \<noteq> USABLE_PAGE_SIZE then Inl Panic else Inr (rec @ le_bytes 8 i @ pg))"

definition encode_record_into :: "bool \<Rightarrow> bytes \<Rightarrow> page_image list \<Rightarrow> bool \<Rightarrow> bytes res" where
  "encode_record_into hw rec pages mre =
     (let body_len = 8 + length pages * PAGE_ENTRY_LEN in
      if 2 ^ 32 \<le> body_len then Inl Panic
      else let start = length rec;
          rec = rec @ le_bytes 4 body_len @ replicate 4 0 @ le_bytes 4 (length pages)
            @ le_bytes 4 (if mre then MORE else 0)
        in bindR (foldR push_entry pages rec) (\<lambda>rec.
             put_at rec (start + 4) (le_bytes 4 (unat (crc32 hw (drop (start + 8) rec))))))"

text \<open>\<open>slice::chunks\<close>, for a positive size.\<close>

function chunks :: "nat \<Rightarrow> 'a list \<Rightarrow> 'a list list" where
  "chunks n xs = (if xs = [] \<or> n = 0 then [] else take n xs # chunks n (drop n xs))"
  by pat_completeness auto

termination
  by (relation "measure (length \<circ> snd)") auto

declare chunks.simps [simp del]

definition encode_batch :: "bool \<Rightarrow> page_image list \<Rightarrow> nat \<Rightarrow> bytes res" where
  "encode_batch hw pages record_pages =
     (if record_pages = 0 then Inl Panic
      else let records = chunks record_pages pages; lst = length records - 1
        in foldR (\<lambda>(i, rec) batch. encode_record_into hw batch rec (i < lst)) (enumerate 0 records) [])"

subsection \<open>Reading records\<close>

record records =
  input :: bytes
  version :: nat
  left :: nat
  offset :: nat
  body :: bytes

record wal_record =
  goes_on :: bool
  entries :: bytes

definition read_u32 :: "bytes \<Rightarrow> nat" where
  "read_u32 bs = le_nat (take 4 bs)"

definition record_images :: "wal_record \<Rightarrow> page_image list" where
  "record_images rec =
     map (\<lambda>e. (le_nat (take 8 e), drop 8 e))
       (filter (\<lambda>e. length e = PAGE_ENTRY_LEN) (chunks PAGE_ENTRY_LEN (entries rec)))"

definition read_exact :: "bytes \<Rightarrow> nat \<Rightarrow> (bytes \<times> bytes) res" where
  "read_exact inp n = (if length inp < n then Inl (Io UnexpectedEof) else Inr (take n inp, drop n inp))"

definition records_new :: "bytes \<Rightarrow> nat \<Rightarrow> records option res" where
  "records_new inp nbytes =
     (if nbytes < WAL_HEADER_LEN then Inr None
      else bindR (read_exact inp WAL_HEADER_LEN) (\<lambda>(header, inp).
        if take 8 header \<noteq> WAL_MAGIC then corrupt
        else let version = read_u32 (drop 8 header) in
          if version \<noteq> WAL_VERSION \<and> version \<noteq> WAL_VERSION_WITHOUT_FLAGS then corrupt
          else Inr (Some \<lparr>input = inp, version = version, left = nbytes - WAL_HEADER_LEN,
                 offset = WAL_HEADER_LEN, body = []\<rparr>)))"

definition decode_body :: "records \<Rightarrow> (records \<times> wal_record option) res" where
  "decode_body r =
     (let flags_len = (if version r = WAL_VERSION then 4 else 0) in
      if length (body r) < 4 + flags_len then corrupt
      else let npages = read_u32 (body r);
          flags = (if flags_len = 0 then 0 else read_u32 (drop 4 (body r)))
        in if flags div 2 \<noteq> 0 then corrupt
           else let entries = drop (4 + flags_len) (body r) in
             if 2 ^ 64 \<le> npages * PAGE_ENTRY_LEN \<or> length entries \<noteq> npages * PAGE_ENTRY_LEN then corrupt
             else Inr (r, Some \<lparr>goes_on = (flags mod 2 = 1), entries = entries\<rparr>))"

definition records_next :: "bool \<Rightarrow> records \<Rightarrow> (records \<times> wal_record option) res" where
  "records_next hw r =
     (if left r < 8 then Inr (r, None)
      else bindR (read_exact (input r) 8) (\<lambda>(prefix, inp).
        let body_len = read_u32 prefix; checksum = read_u32 (drop 4 prefix);
            r = r\<lparr>input := inp, left := left r - 8\<rparr>
        in if left r < body_len then Inr (r, None)
           else bindR (read_exact (input r) body_len) (\<lambda>(bd, inp).
             let r = r\<lparr>input := inp, body := bd, left := left r - body_len\<rparr> in
             if unat (crc32 hw bd) \<noteq> checksum then (if left r = 0 then Inr (r, None) else corrupt)
             else decode_body (r\<lparr>offset := offset r + (8 + body_len)\<rparr>))))"

subsection \<open>What is pending\<close>

record pending =
  pending_file :: "bytes option"
  pending_end :: nat
  ids :: "nat list"
  headers :: "(nat \<times> bytes) list"

definition nothing :: pending where
  "nothing = \<lparr>pending_file = None, pending_end = 0, ids = [], headers = []\<rparr>"

definition see_image :: "page_image \<Rightarrow> nat list \<times> (nat \<times> bytes) list \<Rightarrow> nat list \<times> (nat \<times> bytes) list" where
  "see_image = (\<lambda>(i, pg) (ids, headers).
     (ids @ [i], if i = HEADER_PAGE then headers @ [(length ids, pg)] else headers))"

lemma decode_body_left: "decode_body r = Inr (r', rec) \<Longrightarrow> r' = r"
  by (auto simp: decode_body_def Let_def split: if_splits)

lemma records_next_left: "records_next hw r = Inr (r', Some rec) \<Longrightarrow> left r' < left r"
  by (auto simp: records_next_def bindR_eq_Inr read_exact_def Let_def split: if_splits dest!: decode_body_left)

text \<open>\<open>scan\<close>'s loop, with \<open>ids\<close>, \<open>headers\<close>, \<open>whole\<close> and \<open>end\<close> as they are.\<close>

function scan_loop :: "bool \<Rightarrow> records \<Rightarrow> nat list \<Rightarrow> (nat \<times> bytes) list \<Rightarrow> nat \<Rightarrow> nat
    \<Rightarrow> (nat list \<times> (nat \<times> bytes) list \<times> nat \<times> nat) res" where
  "scan_loop hw r is hs whole en =
     (case records_next hw r of
        Inl e \<Rightarrow> Inl e
      | Inr (r', None) \<Rightarrow> Inr (is, hs, whole, en)
      | Inr (r', Some rec) \<Rightarrow>
          let (is, hs) = fold see_image (record_images rec) (is, hs) in
          if \<not> goes_on rec then scan_loop hw r' is hs (length is) (offset r')
          else scan_loop hw r' is hs whole en)"
  by pat_completeness auto

termination
  by (relation "measure (\<lambda>(_, r, _). left r)") (auto dest: records_next_left)

declare scan_loop.simps [simp del]

definition scan :: "bool \<Rightarrow> bytes \<Rightarrow> (pending \<times> nat option) res" where
  "scan hw file =
     bindR (records_new file (length file)) (\<lambda>opened.
       case opened of
         None \<Rightarrow> Inr (nothing, None)
       | Some r \<Rightarrow>
           bindR (scan_loop hw r [] [] 0 (offset r)) (\<lambda>(is, hs, whole, en).
             Inr (\<lparr>pending_file = Some file, pending_end = en, ids = take whole is,
                   headers = filter (\<lambda>(at, _). at < whole) hs\<rparr>, Some (version r))))"

definition pending_is_empty :: "pending \<Rightarrow> bool" where
  "pending_is_empty p = (ids p = [])"

definition pending_count :: "pending \<Rightarrow> nat" where
  "pending_count p = length (ids p)"

text \<open>\<open>outline\<close>'s loop from the place \<open>at\<close> on: each page with its header image, if it has one.\<close>

fun outline_loop :: "(nat \<Rightarrow> bytes option \<Rightarrow> 's \<Rightarrow> 's res) \<Rightarrow> nat \<Rightarrow> nat list \<Rightarrow> (nat \<times> bytes) list \<Rightarrow> 's \<Rightarrow> 's res" where
  "outline_loop see at [] hs s = Inr s"
| "outline_loop see at (i # is) hs s =
     (case hs of
        (place, img) # hs' \<Rightarrow>
          if place = at then bindR (see i (Some img) s) (outline_loop see (at + 1) is hs')
          else bindR (see i None s) (outline_loop see (at + 1) is hs)
      | [] \<Rightarrow> bindR (see i None s) (outline_loop see (at + 1) is []))"

definition outline :: "(nat \<Rightarrow> bytes option \<Rightarrow> 's \<Rightarrow> 's res) \<Rightarrow> pending \<Rightarrow> 's \<Rightarrow> 's res" where
  "outline see p s = outline_loop see 0 (ids p) (headers p) s"

function pages_loop :: "bool \<Rightarrow> (page_image \<Rightarrow> 's \<Rightarrow> 's res) \<Rightarrow> records \<Rightarrow> nat \<Rightarrow> 's \<Rightarrow> (nat \<times> 's) res" where
  "pages_loop hw take_page r taken s =
     (case records_next hw r of
        Inl e \<Rightarrow> Inl e
      | Inr (r', None) \<Rightarrow> Inr (taken, s)
      | Inr (r', Some rec) \<Rightarrow>
          bindR (foldR take_page (record_images rec) s) (\<lambda>s.
            pages_loop hw take_page r' (taken + length (record_images rec)) s))"
  by pat_completeness auto

termination
  by (relation "measure (\<lambda>(_, _, r, _). left r)") (auto dest: records_next_left)

declare pages_loop.simps [simp del]

definition pending_pages :: "bool \<Rightarrow> (page_image \<Rightarrow> 's \<Rightarrow> 's res) \<Rightarrow> pending \<Rightarrow> 's \<Rightarrow> 's res" where
  "pending_pages hw take_page p s =
     (case pending_file p of
        None \<Rightarrow> Inr s
      | Some file \<Rightarrow>
          bindR (records_new file (pending_end p)) (\<lambda>opened.
            bindR (case opened of None \<Rightarrow> Inr (0, s) | Some r \<Rightarrow> pages_loop hw take_page r 0 s) (\<lambda>(taken, s).
              if taken \<noteq> length (ids p) then corrupt else Inr s)))"

subsection \<open>The log\<close>

record wal =
  wal_file :: bytes
  wal_len :: nat
  record_pages :: nat
  appendable :: bool

text \<open>
  The faults of the operating system during one operation: \<open>write_fails i = Some k\<close> if the
  \<open>i\<close>th write fails after \<open>k\<close> bytes, and which of the flushes, the truncation and the seek fail.
\<close>

record os =
  write_fails :: "nat \<Rightarrow> nat option"
  sync_fails :: "nat \<Rightarrow> bool"
  set_len_fails :: bool
  seek_fails :: bool

definition no_faults :: os where
  "no_faults = \<lparr>write_fails = \<lambda>_. None, sync_fails = \<lambda>_. False, set_len_fails = False, seek_fails = False\<rparr>"

definition write_all :: "os \<Rightarrow> nat \<Rightarrow> wal \<Rightarrow> bytes \<Rightarrow> wal \<times> unit res" where
  "write_all os i w bs =
     (case write_fails os i of
        None \<Rightarrow> (w\<lparr>wal_file := wal_file w @ bs\<rparr>, Inr ())
      | Some k \<Rightarrow> (w\<lparr>wal_file := wal_file w @ take k bs\<rparr>, Inl (Io OtherError)))"

fun take_chunk :: "nat \<Rightarrow> page_image res list \<Rightarrow> (page_image list \<times> page_image res list) res" where
  "take_chunk 0 pages = Inr ([], pages)"
| "take_chunk (Suc n) [] = Inl (Io OtherError)"
| "take_chunk (Suc n) (page # pages) =
     bindR page (\<lambda>page. bindR (take_chunk n pages) (\<lambda>(chunk, pages). Inr (page # chunk, pages)))"

text \<open>\<open>log_each\<close>'s loop: \<open>rec\<close> is the buffer and \<open>nbytes\<close> what is written so far.\<close>

fun log_loop :: "os \<Rightarrow> bool \<Rightarrow> nat \<Rightarrow> nat \<Rightarrow> nat list \<Rightarrow> wal \<Rightarrow> page_image res list \<Rightarrow> bytes \<Rightarrow> nat
    \<Rightarrow> wal \<times> (page_image res list \<times> nat) res" where
  "log_loop os hw npages records [] w pages rec nbytes = (w, Inr (pages, nbytes))"
| "log_loop os hw npages records (i # is) w pages rec nbytes =
     (case take_chunk (min (npages - i * record_pages w) (record_pages w)) pages of
        Inl e \<Rightarrow> (w, Inl e)
      | Inr (chunk, pages) \<Rightarrow>
          (case encode_record_into hw rec chunk (i < records - 1) of
             Inl e \<Rightarrow> (w, Inl e)
           | Inr rec \<Rightarrow>
               (case write_all os i w rec of
                  (w, Inl e) \<Rightarrow> (w, Inl e)
                | (w, Inr _) \<Rightarrow>
                    if i < records - 1 \<and> sync_fails os i then (w, Inl (Io OtherError))
                    else log_loop os hw npages records is w pages [] (nbytes + length rec))))"

definition div_ceil :: "nat \<Rightarrow> nat \<Rightarrow> nat" where
  "div_ceil a b = (a + b - 1) div b"

definition log_each :: "os \<Rightarrow> bool \<Rightarrow> nat \<Rightarrow> page_image res list \<Rightarrow> wal \<Rightarrow> wal \<times> unit res" where
  "log_each os hw npages pages w =
     (if npages = 0 then (w, Inr ())
      else if seek_fails os then (w, Inl (Io OtherError))
      else let en = length (wal_file w) in
        if en \<noteq> 0 \<and> \<not> appendable w then (w, Inl (Io OtherError))
        else if record_pages w = 0 then (w\<lparr>wal_len := min (wal_len w) en\<rparr>, Inl Panic)
        else let w = w\<lparr>wal_len := min (wal_len w) en\<rparr>; records = div_ceil npages (record_pages w) in
          (case log_loop os hw npages records [0..<records] w pages (if en = 0 then encode_header else []) 0 of
             (w, Inl e) \<Rightarrow> (w, Inl e)
           | (w, Inr (pages, nbytes)) \<Rightarrow>
               if pages \<noteq> [] then (w, Inl (Io OtherError))
               else if sync_fails os (records - 1) then (w, Inl (Io OtherError))
               else (w\<lparr>wal_len := en + nbytes, appendable := True\<rparr>, Inr ())))"

definition log :: "os \<Rightarrow> bool \<Rightarrow> page_image list \<Rightarrow> wal \<Rightarrow> wal \<times> unit res" where
  "log os hw pages w = log_each os hw (length pages) (map Inr pages) w"

text \<open>\<open>File::set_len\<close>: cut, or grown with zeros.\<close>

definition set_len :: "nat \<Rightarrow> bytes \<Rightarrow> bytes" where
  "set_len n file = take n file @ replicate (n - length file) 0"

definition undo_failed_log :: "os \<Rightarrow> wal \<Rightarrow> wal \<times> unit res" where
  "undo_failed_log os w =
     (if set_len_fails os then (w, Inl (Io OtherError))
      else let w = w\<lparr>wal_file := set_len (wal_len w) (wal_file w)\<rparr> in
        if seek_fails os \<or> sync_fails os 0 then (w, Inl (Io OtherError)) else (w, Inr ()))"

definition checkpoint :: "os \<Rightarrow> wal \<Rightarrow> wal \<times> unit res" where
  "checkpoint os w =
     (if set_len_fails os then (w, Inl (Io OtherError))
      else let w = w\<lparr>wal_file := set_len 0 (wal_file w), wal_len := 0, appendable := True\<rparr> in
        if seek_fails os \<or> sync_fails os 0 then (w, Inl (Io OtherError)) else (w, Inr ()))"

definition wal_open :: "bool \<Rightarrow> bytes \<Rightarrow> (wal \<times> pending) res" where
  "wal_open hw file =
     bindR (scan hw file) (\<lambda>(pending, version).
       Inr (\<lparr>wal_file = file, wal_len = length file, record_pages = RECORD_PAGES,
             appendable = (length file = 0 \<or> version = Some WAL_VERSION)\<rparr>, pending))"

definition read_pending :: "bool \<Rightarrow> bytes option \<Rightarrow> pending res" where
  "read_pending hw file =
     (case file of
        None \<Rightarrow> Inr nothing
      | Some file \<Rightarrow> bindR (scan hw file) (\<lambda>(pending, _). Inr pending))"

subsection \<open>What a record looks like\<close>

lemma crc32_hw: "crc32 hw bs = crc32 hw' bs"
  by (simp add: crc32_def update_eq)

definition enc_entry :: "page_image \<Rightarrow> bytes" where
  "enc_entry e = le_bytes 8 (fst e) @ snd e"

definition enc_body :: "page_image list \<Rightarrow> bool \<Rightarrow> bytes" where
  "enc_body pages mre = le_bytes 4 (length pages) @ le_bytes 4 (if mre then MORE else 0) @ concat (map enc_entry pages)"

definition enc_record :: "page_image list \<times> bool \<Rightarrow> bytes" where
  "enc_record r = le_bytes 4 (length (enc_body (fst r) (snd r)))
     @ le_bytes 4 (unat (crc32 False (enc_body (fst r) (snd r)))) @ enc_body (fst r) (snd r)"

definition image_ok :: "page_image \<Rightarrow> bool" where
  "image_ok e \<longleftrightarrow> fst e < 2 ^ 64 \<and> length (snd e) = USABLE_PAGE_SIZE"

definition record_ok :: "page_image list \<times> bool \<Rightarrow> bool" where
  "record_ok r \<longleftrightarrow> list_all image_ok (fst r) \<and> 8 + length (fst r) * PAGE_ENTRY_LEN < 2 ^ 32"

lemma length_enc_entry: "image_ok e \<Longrightarrow> length (enc_entry e) = PAGE_ENTRY_LEN"
  by (simp add: enc_entry_def image_ok_def PAGE_ENTRY_LEN_def)

lemma length_enc_entries: "list_all image_ok pages \<Longrightarrow> length (concat (map enc_entry pages)) = length pages * PAGE_ENTRY_LEN"
  by (induction pages) (simp_all add: length_enc_entry)

lemma length_enc_body: "list_all image_ok pages \<Longrightarrow> length (enc_body pages mre) = 8 + length pages * PAGE_ENTRY_LEN"
  by (simp add: enc_body_def length_enc_entries)

lemma length_enc_record [simp]: "length (enc_record r) = 8 + length (enc_body (fst r) (snd r))"
  by (simp add: enc_record_def)

lemma foldR_push_entry:
  "list_all image_ok pages \<Longrightarrow> foldR push_entry pages rec = Inr (rec @ concat (map enc_entry pages))"
  by (induction pages arbitrary: rec) (auto simp: push_entry_def enc_entry_def image_ok_def)

lemma put_middle: "length xs = length ys \<Longrightarrow> put (a @ xs @ b) (length a) ys = a @ ys @ b"
  by (simp add: put_def)

lemma encode_record_into_eq:
  assumes "record_ok (pages, mre)"
  shows "encode_record_into hw rec pages mre = Inr (rec @ enc_record (pages, mre))"
proof -
  have ok: "list_all image_ok pages" "8 + length pages * PAGE_ENTRY_LEN < 2 ^ 32"
    using assms by (simp_all add: record_ok_def)
  let ?l = "le_bytes 4 (8 + length pages * PAGE_ENTRY_LEN)"
  let ?r = "(rec @ ?l) @ replicate 4 0 @ enc_body pages mre"
  have put: "put_at ?r (length rec + 4) (le_bytes 4 x) = Inr ((rec @ ?l) @ le_bytes 4 x @ enc_body pages mre)" for x
    using put_middle [of "replicate 4 0" "le_bytes 4 x" "rec @ ?l" "enc_body pages mre"] by (simp add: put_at_def)
  have "drop (length rec + 8) ?r = enc_body pages mre" by simp
  moreover have "foldR push_entry pages (rec @ ?l @ replicate 4 0 @ le_bytes 4 (length pages) @ le_bytes 4 (if mre then MORE else 0)) = Inr ?r"
    using foldR_push_entry [OF ok(1)] by (simp add: enc_body_def)
  ultimately show ?thesis
    using ok put crc32_hw [of hw _ False]
    by (simp add: encode_record_into_def Let_def enc_record_def length_enc_body not_le)
qed

text \<open>The chunks of an entry sequence are its entries.\<close>

lemma chunks_concat:
  "0 < n \<Longrightarrow> (\<And>x. x \<in> set xs \<Longrightarrow> length (f x) = n) \<Longrightarrow> chunks n (concat (map f xs)) = map f xs"
proof (induction xs)
  case Nil then show ?case by (simp add: chunks.simps)
next
  case (Cons x xs)
  then have "length (f x) = n" by simp
  then show ?case using Cons by (subst chunks.simps) auto
qed

lemma record_images_enc:
  assumes "list_all image_ok pages"
  shows "record_images \<lparr>goes_on = g, entries = concat (map enc_entry pages)\<rparr> = pages"
proof -
  have len: "length (enc_entry e) = PAGE_ENTRY_LEN" if "e \<in> set pages" for e
    using that assms length_enc_entry by (auto simp: list_all_iff)
  have "chunks PAGE_ENTRY_LEN (concat (map enc_entry pages)) = map enc_entry pages"
    using len by (intro chunks_concat) (simp_all add: PAGE_ENTRY_LEN_def)
  moreover have "filter (\<lambda>e. length e = PAGE_ENTRY_LEN) (map enc_entry pages) = map enc_entry pages"
    using len by (simp add: filter_id_conv)
  moreover have "map ((\<lambda>e. (le_nat (take 8 e), drop 8 e)) \<circ> enc_entry) pages = pages"
    using assms by (induction pages) (auto simp: enc_entry_def image_ok_def)
  ultimately show ?thesis by (simp add: record_images_def)
qed

subsection \<open>Reading records back\<close>

lemma read_exact_append [simp]: "length xs = n \<Longrightarrow> read_exact (xs @ ys) n = Inr (xs, ys)"
  by (auto simp: read_exact_def)

lemma length_body_lt: "record_ok rc \<Longrightarrow> length (enc_body (fst rc) (snd rc)) < 2 ^ 32"
  by (auto simp: record_ok_def length_enc_body)

lemma unat_lt_32: "unat (w :: 32 word) < 2 ^ 32"
  using unsigned_less [of w, where ?'a = nat] by simp

lemma decode_body_enc:
  assumes "record_ok rc" "version r = WAL_VERSION" "body r = enc_body (fst rc) (snd rc)"
  shows "decode_body r = Inr (r, Some \<lparr>goes_on = snd rc, entries = concat (map enc_entry (fst rc))\<rparr>)"
proof -
  have ok: "list_all image_ok (fst rc)" "8 + length (fst rc) * PAGE_ENTRY_LEN < 2 ^ 32"
    using assms(1) by (simp_all add: record_ok_def)
  have len: "length (body r) = 8 + length (fst rc) * PAGE_ENTRY_LEN"
    using assms(3) length_enc_body [OF ok(1)] by simp
  have "length (fst rc) < 2 ^ 32" using ok(2) by (simp add: PAGE_ENTRY_LEN_def USABLE_PAGE_SIZE_def PAGE_SIZE_def CHECKSUM_LEN_def)
  then have "read_u32 (body r) = length (fst rc)" by (simp add: assms(3) enc_body_def read_u32_def)
  moreover have "read_u32 (drop 4 (body r)) = (if snd rc then MORE else 0)"
    by (simp add: assms(3) enc_body_def read_u32_def MORE_def)
  moreover have "drop 8 (body r) = concat (map enc_entry (fst rc))" by (simp add: assms(3) enc_body_def)
  ultimately show ?thesis
    using assms(2) len ok length_enc_entries [OF ok(1)] by (simp add: decode_body_def Let_def MORE_def not_le)
qed

lemma next_record:
  assumes "record_ok rc" "version r = WAL_VERSION" "input r = enc_record rc @ rest"
    "left r = length (enc_record rc) + l"
  shows "records_next hw r = Inr
      (r\<lparr>input := rest, left := l, body := enc_body (fst rc) (snd rc), offset := offset r + length (enc_record rc)\<rparr>,
       Some \<lparr>goes_on = snd rc, entries = concat (map enc_entry (fst rc))\<rparr>)"
proof -
  let ?b = "enc_body (fst rc) (snd rc)"
  let ?c = "unat (crc32 False ?b)"
  have len: "length ?b < 2 ^ 32" by (rule length_body_lt) (rule assms(1))
  have c: "?c < 2 ^ 32" by (rule unat_lt_32)
  have rd: "read_exact (input r) 8 = Inr (le_bytes 4 (length ?b) @ le_bytes 4 ?c, ?b @ rest)"
    unfolding assms(3) enc_record_def
    using read_exact_append [of "le_bytes 4 (length ?b) @ le_bytes 4 ?c" 8 "?b @ rest"] by simp
  show ?thesis
    using assms(2,4) len c crc32_hw [of hw ?b False] decode_body_enc [OF assms(1)]
    by (simp add: records_next_def rd read_u32_def Let_def)
qed

lemma next_end: "left r = 0 \<Longrightarrow> records_next hw r = Inr (r, None)"
  by (simp add: records_next_def)

text \<open>
  What is left of a record whose write was cut short by a crash: fewer bytes of it, or as many,
  of which those after the prefix fail the checksum.
\<close>

definition torn :: "bytes \<Rightarrow> bytes \<Rightarrow> bool" where
  "torn rec t \<longleftrightarrow> strict_prefix t rec
     \<or> length t = length rec \<and> take 8 t = take 8 rec \<and> unat (crc32 False (drop 8 t)) \<noteq> read_u32 (drop 4 rec)"

lemma next_torn:
  assumes "record_ok rc" "torn (enc_record rc) t" "input r = t @ rest" "left r = length t"
  shows "\<exists>r'. records_next hw r = Inr (r', None)"
proof (cases "length t < 8")
  case True
  then show ?thesis using assms(4) by (simp add: records_next_def)
next
  case False
  let ?b = "enc_body (fst rc) (snd rc)"
  let ?p = "le_bytes 4 (length ?b) @ le_bytes 4 (unat (crc32 False ?b))"
  have enc: "enc_record rc = ?p @ ?b" by (simp add: enc_record_def)
  have t8: "take 8 t = ?p"
  proof -
    have "take 8 t = take 8 (enc_record rc)"
      using assms(2) False by (auto simp: torn_def strict_prefix_def prefix_def)
    then show ?thesis by (simp add: enc)
  qed
  have t: "t = ?p @ drop 8 t" by (metis append_take_drop_id t8)
  have rd: "read_exact (input r) 8 = Inr (?p, drop 8 t @ rest)"
  proof -
    have "t @ rest = ?p @ (drop 8 t @ rest)" using t by (metis append.assoc)
    then show ?thesis unfolding assms(3) by (simp only: read_exact_append [of ?p 8] length_append length_le_bytes)
  qed
  have len: "length ?b < 2 ^ 32" by (rule length_body_lt) (rule assms(1))
  have c: "unat (crc32 False ?b) < 2 ^ 32" by (rule unat_lt_32)
  have lt: "length (drop 8 t) + 8 = length t" using False by simp
  consider "length (drop 8 t) < length ?b"
    | "length (drop 8 t) = length ?b" "unat (crc32 False (drop 8 t)) \<noteq> unat (crc32 False ?b)"
  proof (cases "strict_prefix t (enc_record rc)")
    case True
    then have "length t < 8 + length ?b" using prefix_length_less [of t "enc_record rc"] by simp
    then show ?thesis using that(1) lt by linarith
  next
    case False
    then have "length t = 8 + length ?b" "unat (crc32 False (drop 8 t)) \<noteq> read_u32 (drop 4 (enc_record rc))"
      using assms(2) by (simp_all add: torn_def)
    moreover have "read_u32 (drop 4 (enc_record rc)) = unat (crc32 False ?b)"
      using c by (simp add: enc read_u32_def)
    ultimately show ?thesis using that(2) lt by simp
  qed
  then show ?thesis
  proof cases
    case 1
    then show ?thesis using assms(4) lt len by (simp add: records_next_def rd read_u32_def Let_def)
  next
    case 2
    then show ?thesis using assms(4) lt len c crc32_hw [of hw "drop 8 t" False] False
      by (simp add: records_next_def rd read_u32_def Let_def)
  qed
qed

subsection \<open>Scanning a log\<close>

definition header_places :: "nat \<Rightarrow> page_image list \<Rightarrow> (nat \<times> bytes) list" where
  "header_places at pages =
     map (\<lambda>(i, pg). (at + i, snd pg)) (filter (\<lambda>(i, pg). fst pg = HEADER_PAGE) (enumerate 0 pages))"

lemma header_places_Nil [simp]: "header_places at [] = []"
  by (simp add: header_places_def)

lemma header_places_snoc:
  "header_places at (pages @ [pg])
     = header_places at pages @ (if fst pg = HEADER_PAGE then [(at + length pages, snd pg)] else [])"
  by (simp add: header_places_def enumerate_append_eq)

lemma fold_see_image:
  "fold see_image pages (is, hs) = (is @ map fst pages, hs @ header_places (length is) pages)"
  by (induction pages rule: rev_induct) (auto simp: see_image_def header_places_snoc)

lemma header_places_append:
  "header_places at (xs @ ys) = header_places at xs @ header_places (at + length xs) ys"
proof (induction ys rule: rev_induct)
  case (snoc y ys)
  then show ?case by (simp add: header_places_snoc flip: append_assoc)
qed simp

lemma header_places_lt: "(p, h) \<in> set (header_places at pages) \<Longrightarrow> at \<le> p \<and> p < at + length pages"
  by (auto simp: header_places_def in_set_enumerate_eq)

text \<open>One record moves the scan on; \<open>st\<close> is what \<open>scan_loop\<close> holds, with the offset last.\<close>

definition log_bytes :: "(page_image list \<times> bool) list \<Rightarrow> bytes" where
  "log_bytes rs = concat (map enc_record rs)"

definition at_bytes :: "records \<Rightarrow> bytes \<Rightarrow> nat \<Rightarrow> nat \<Rightarrow> bool" where
  "at_bytes r inp l pos \<longleftrightarrow> version r = WAL_VERSION \<and> input r = inp \<and> left r = l \<and> offset r = pos"

lemma scan_record:
  assumes "record_ok rc" "at_bytes r (enc_record rc @ rest) (length (enc_record rc) + l) pos"
  shows "\<exists>r'. at_bytes r' rest l (pos + length (enc_record rc))
    \<and> scan_loop hw r is hs whole en =
       (let is' = is @ map fst (fst rc); hs' = hs @ header_places (length is) (fst rc) in
        if snd rc then scan_loop hw r' is' hs' whole en
        else scan_loop hw r' is' hs' (length is') (pos + length (enc_record rc)))"
proof -
  define r' where "r' = r\<lparr>input := rest, left := l, body := enc_body (fst rc) (snd rc),
    offset := offset r + length (enc_record rc)\<rparr>"
  have "records_next hw r = Inr (r', Some \<lparr>goes_on = snd rc, entries = concat (map enc_entry (fst rc))\<rparr>)"
    unfolding r'_def using assms by (intro next_record) (simp_all add: at_bytes_def)
  moreover have "record_images \<lparr>goes_on = g, entries = concat (map enc_entry (fst rc))\<rparr> = fst rc" for g
    using assms(1) by (intro record_images_enc) (simp add: record_ok_def)
  ultimately show ?thesis
    using assms(2)
    by (intro exI [of _ r']) (subst scan_loop.simps, simp add: fold_see_image Let_def at_bytes_def r'_def)
qed

text \<open>Records that all say more follow leave \<open>whole\<close> and \<open>end\<close> alone; a whole batch moves both to its end.\<close>

lemma scan_more:
  assumes "list_all record_ok rs" "list_all snd rs" "at_bytes r (log_bytes rs @ rest) (length (log_bytes rs) + l) pos"
  shows "\<exists>r'. at_bytes r' rest l (pos + length (log_bytes rs))
    \<and> scan_loop hw r is hs whole en =
       scan_loop hw r' (is @ map fst (concat (map fst rs))) (hs @ header_places (length is) (concat (map fst rs))) whole en"
  using assms
proof (induction rs arbitrary: r pos "is" hs)
  case Nil
  then show ?case by (auto simp: log_bytes_def)
next
  case (Cons rc rs)
  from Cons.prems obtain r1 where r1: "at_bytes r1 (log_bytes rs @ rest) (length (log_bytes rs) + l) (pos + length (enc_record rc))"
    "scan_loop hw r is hs whole en = scan_loop hw r1 (is @ map fst (fst rc)) (hs @ header_places (length is) (fst rc)) whole en"
    using scan_record [of rc r "log_bytes rs @ rest" "length (log_bytes rs) + l" pos hw "is" hs whole en]
    by (auto simp: log_bytes_def add.assoc)
  from Cons.IH [OF _ _ r1(1), of "is @ map fst (fst rc)" "hs @ header_places (length is) (fst rc)"] Cons.prems r1(2)
  show ?case by (auto simp: log_bytes_def add.assoc header_places_append)
qed

definition whole_batch :: "(page_image list \<times> bool) list \<Rightarrow> bool" where
  "whole_batch rs \<longleftrightarrow> rs \<noteq> [] \<and> list_all record_ok rs \<and> list_all snd (butlast rs) \<and> \<not> snd (last rs)"

definition batch_pages :: "(page_image list \<times> bool) list \<Rightarrow> page_image list" where
  "batch_pages rs = concat (map fst rs)"

lemma scan_batch:
  assumes "whole_batch rs" "at_bytes r (log_bytes rs @ rest) (length (log_bytes rs) + l) pos"
  shows "\<exists>r'. at_bytes r' rest l (pos + length (log_bytes rs))
    \<and> scan_loop hw r is hs whole en =
       scan_loop hw r' (is @ map fst (batch_pages rs)) (hs @ header_places (length is) (batch_pages rs))
         (length is + length (batch_pages rs)) (pos + length (log_bytes rs))"
proof -
  define ms rc where "ms = butlast rs" and "rc = last rs"
  have rs: "rs = ms @ [rc]" using assms(1) by (simp add: ms_def rc_def whole_batch_def)
  have ok: "list_all record_ok ms" "list_all snd ms" "record_ok rc" "\<not> snd rc"
    using assms(1) unfolding rs by (simp_all add: whole_batch_def)
  let ?ms = "concat (map fst ms)"
  have lb: "log_bytes rs = log_bytes ms @ enc_record rc" by (simp add: rs log_bytes_def)
  have at: "at_bytes r (log_bytes ms @ enc_record rc @ rest) (length (log_bytes ms) + (length (enc_record rc) + l)) pos"
    using assms(2) by (simp add: lb add.assoc)
  from scan_more [OF ok(1,2) at, of hw "is" hs whole en] obtain r1 where r1:
    "at_bytes r1 (enc_record rc @ rest) (length (enc_record rc) + l) (pos + length (log_bytes ms))"
    "scan_loop hw r is hs whole en = scan_loop hw r1 (is @ map fst ?ms) (hs @ header_places (length is) ?ms) whole en"
    by blast
  from scan_record [OF ok(3) r1(1), of hw "is @ map fst ?ms" "hs @ header_places (length is) ?ms" whole en] r1(2) ok(4)
  show ?thesis unfolding lb by (auto simp: batch_pages_def rs header_places_append add.assoc)
qed

lemma scan_batches:
  assumes "list_all whole_batch bs"
    "at_bytes r (concat (map log_bytes bs) @ rest) (length (concat (map log_bytes bs)) + l) pos"
    "whole = length is" "en = pos"
  shows "\<exists>r'. at_bytes r' rest l (pos + length (concat (map log_bytes bs)))
    \<and> scan_loop hw r is hs whole en =
       scan_loop hw r' (is @ map fst (concat (map batch_pages bs))) (hs @ header_places (length is) (concat (map batch_pages bs)))
         (length is + length (concat (map batch_pages bs))) (pos + length (concat (map log_bytes bs)))"
  using assms
proof (induction bs arbitrary: r pos "is" hs whole en)
  case Nil
  then show ?case by auto
next
  case (Cons b bs)
  from Cons.prems obtain r1 where r1:
    "at_bytes r1 (concat (map log_bytes bs) @ rest) (length (concat (map log_bytes bs)) + l) (pos + length (log_bytes b))"
    "scan_loop hw r is hs whole en = scan_loop hw r1 (is @ map fst (batch_pages b))
       (hs @ header_places (length is) (batch_pages b)) (length is + length (batch_pages b)) (pos + length (log_bytes b))"
    using scan_batch [of b r "concat (map log_bytes bs) @ rest" "length (concat (map log_bytes bs)) + l" pos hw "is" hs whole en]
    by (auto simp: add.assoc)
  from Cons.IH [OF _ r1(1), of "length is + length (batch_pages b)" "is @ map fst (batch_pages b)" _ "hs @ header_places (length is) (batch_pages b)"] Cons.prems r1(2)
  show ?case by (auto simp: add.assoc header_places_append)
qed

text \<open>What a crash may leave of a batch: its first records whole, and a torn one.\<close>

definition torn_batch :: "(page_image list \<times> bool) list \<Rightarrow> bytes \<Rightarrow> bool" where
  "torn_batch rs t \<longleftrightarrow> (\<exists>k < length rs. \<exists>u. t = log_bytes (take k rs) @ u \<and> torn (enc_record (rs ! k)) u)"

lemma scan_torn_batch:
  assumes "whole_batch rs" "torn_batch rs t" "at_bytes r t (length t) pos"
  shows "\<exists>ps. scan_loop hw r is hs whole en = Inr (is @ map fst ps, hs @ header_places (length is) ps, whole, en)"
proof -
  obtain k u where k: "k < length rs" "t = log_bytes (take k rs) @ u" "torn (enc_record (rs ! k)) u"
    using assms(2) by (auto simp: torn_batch_def)
  have ok: "list_all record_ok (take k rs)" "list_all snd (take k rs)" "record_ok (rs ! k)"
  proof -
    have "take k rs = take k (butlast rs)" using k(1) by (simp add: take_butlast)
    then show "list_all snd (take k rs)"
      using assms(1) by (auto simp: whole_batch_def list_all_iff dest: in_set_takeD)
    show "list_all record_ok (take k rs)" "record_ok (rs ! k)"
      using assms(1) k(1) by (auto simp: whole_batch_def list_all_iff dest: in_set_takeD)
  qed
  have at: "at_bytes r (log_bytes (take k rs) @ u) (length (log_bytes (take k rs)) + length u) pos"
    using assms(3) k(2) by simp
  from scan_more [OF ok(1,2) at, of hw "is" hs whole en] obtain r1 where r1: "at_bytes r1 u (length u) (pos + length (log_bytes (take k rs)))"
    "scan_loop hw r is hs whole en = scan_loop hw r1 (is @ map fst (concat (map fst (take k rs))))
       (hs @ header_places (length is) (concat (map fst (take k rs)))) whole en"
    by blast
  obtain r2 where "records_next hw r1 = Inr (r2, None)"
    using next_torn [OF ok(3) k(3), of r1 "[]" hw] r1(1) by (auto simp: at_bytes_def)
  then show ?thesis using r1(2) by (subst (asm) (2) scan_loop.simps) auto
qed

lemma scan_done: "at_bytes r [] 0 pos \<Longrightarrow> scan_loop hw r is hs whole en = Inr (is, hs, whole, en)"
  by (subst scan_loop.simps) (simp add: next_end at_bytes_def)

subsection \<open>Handing the pages out again\<close>

lemma pages_loop_records:
  assumes "list_all record_ok rs" "at_bytes r (log_bytes rs @ rest) (length (log_bytes rs)) pos"
  shows "pages_loop hw take_page r taken s =
    bindR (foldR take_page (concat (map fst rs)) s) (\<lambda>s. Inr (taken + length (concat (map fst rs)), s))"
  using assms
proof (induction rs arbitrary: r pos taken s)
  case Nil
  then have "left r = 0" by (simp add: at_bytes_def log_bytes_def)
  then show ?case by (subst pages_loop.simps) (simp add: next_end)
next
  case (Cons rc rs)
  define r' where "r' = r\<lparr>input := log_bytes rs @ rest, left := length (log_bytes rs), body := enc_body (fst rc) (snd rc),
    offset := offset r + length (enc_record rc)\<rparr>"
  have nxt: "records_next hw r = Inr (r', Some \<lparr>goes_on = snd rc, entries = concat (map enc_entry (fst rc))\<rparr>)"
    unfolding r'_def using Cons.prems by (intro next_record) (simp_all add: at_bytes_def log_bytes_def)
  have im: "record_images \<lparr>goes_on = g, entries = concat (map enc_entry (fst rc))\<rparr> = fst rc" for g
    using Cons.prems(1) by (intro record_images_enc) (simp add: record_ok_def)
  have "at_bytes r' (log_bytes rs @ rest) (length (log_bytes rs)) (pos + length (enc_record rc))"
    using Cons.prems(2) by (simp add: at_bytes_def r'_def)
  then have IH: "pages_loop hw take_page r' taken' =
      (\<lambda>s'. bindR (foldR take_page (concat (map fst rs)) s') (\<lambda>s. Inr (taken' + length (concat (map fst rs)), s)))" for taken'
    using Cons.IH Cons.prems(1) by (intro ext) simp
  show ?case
    by (subst pages_loop.simps) (simp add: nxt im IH foldR_append bindR_assoc add.assoc)
qed

lemma outline_header_places:
  "outline_loop see at (map fst pages) (header_places at pages) s =
     foldR (\<lambda>(i, pg) s. see i (if i = HEADER_PAGE then Some pg else None) s) pages s"
proof (induction pages arbitrary: at s)
  case (Cons page pages)
  obtain i pg where page: "page = (i, pg)" by (cases page)
  have cons: "header_places at (page # pages) =
      (if i = HEADER_PAGE then [(at, pg)] else []) @ header_places (at + 1) pages"
    using header_places_append [of at "[page]" pages] header_places_snoc [of at "[]" page] page by simp
  have late: "(p, h) \<in> set (header_places (at + 1) pages) \<Longrightarrow> p \<noteq> at" for p h
    using header_places_lt [of p h "at + 1" pages] by simp
  let ?rest = "outline_loop see (at + 1) (map fst pages) (header_places (at + 1) pages)"
  have eq: "?rest = foldR (\<lambda>(i, pg) s. see i (if i = HEADER_PAGE then Some pg else None) s) pages"
    using Cons.IH by (intro ext)
  have "outline_loop see at (i # map fst pages) (header_places at (page # pages)) s
      = bindR (see i (if i = HEADER_PAGE then Some pg else None) s) ?rest"
  proof (cases "header_places (at + 1) pages")
    case (Cons p ps)
    then have "fst p \<noteq> at" using late [of "fst p" "snd p"] by simp
    then show ?thesis unfolding cons using Cons by (cases p) auto
  qed (simp add: cons)
  then show ?case using eq page by simp
qed simp

subsection \<open>What \<open>log\<close> writes\<close>

lemma chunks_nth: "0 < n \<Longrightarrow> i < length (chunks n xs) \<Longrightarrow> chunks n xs ! i = take n (drop (i * n) xs)"
proof (induction n xs arbitrary: i rule: chunks.induct)
  case (1 n xs)
  show ?case
  proof (cases "xs = []")
    case True then show ?thesis using "1.prems" by (simp add: chunks.simps)
  next
    case False
    then have c: "chunks n xs = take n xs # chunks n (drop n xs)" using "1.prems" by (subst chunks.simps) simp
    show ?thesis using 1 False c by (cases i) (simp_all add: add.commute)
  qed
qed

lemma div_ceil_step:
  assumes "0 < n" "0 < m"
  shows "div_ceil m n = Suc (div_ceil (m - n) n)"
proof (cases "n \<le> m")
  case True
  then have "m + n - 1 = (m - n + n - 1) + n" using assms by linarith
  then show ?thesis using assms unfolding div_ceil_def by (metis div_add_self2 Suc_eq_plus1 not_less0)
next
  case False
  then have "m + n - 1 = (m - 1) + n" "m - 1 < n" using assms by linarith+
  then have "(m + n - 1) div n = Suc ((m - 1) div n)" using assms by (metis div_add_self2 Suc_eq_plus1 not_less0)
  then show ?thesis using False assms \<open>m - 1 < n\<close> by (simp add: div_ceil_def)
qed

lemma length_chunks: "0 < n \<Longrightarrow> length (chunks n xs) = div_ceil (length xs) n"
proof (induction n xs rule: chunks.induct)
  case (1 n xs)
  show ?case
  proof (cases "xs = []")
    case True then show ?thesis using "1.prems" by (simp add: chunks.simps div_ceil_def)
  next
    case False
    then have "chunks n xs = take n xs # chunks n (drop n xs)" using "1.prems" by (subst chunks.simps) simp
    then show ?thesis using 1 False div_ceil_step [of n "length xs"] by simp
  qed
qed

lemma concat_chunks: "0 < n \<Longrightarrow> concat (chunks n xs) = xs"
proof (induction n xs rule: chunks.induct)
  case (1 n xs)
  then show ?case by (subst chunks.simps) auto
qed

definition batch_records :: "nat \<Rightarrow> page_image list \<Rightarrow> (page_image list \<times> bool) list" where
  "batch_records n pages = map (\<lambda>i. (chunks n pages ! i, i < length (chunks n pages) - 1)) [0..<length (chunks n pages)]"

definition batch_ok :: "nat \<Rightarrow> page_image list \<Rightarrow> bool" where
  "batch_ok n pages \<longleftrightarrow> pages \<noteq> [] \<and> 0 < n \<and> list_all image_ok pages \<and> 8 + n * PAGE_ENTRY_LEN < 2 ^ 32"

lemma batch_pages_records: "0 < n \<Longrightarrow> batch_pages (batch_records n pages) = pages"
  by (simp add: batch_pages_def batch_records_def comp_def map_nth concat_chunks)

lemma length_batch_records: "0 < n \<Longrightarrow> length (batch_records n pages) = div_ceil (length pages) n"
  by (simp add: batch_records_def length_chunks)

lemma record_ok_chunk:
  assumes "batch_ok n pages" "i < length (chunks n pages)"
  shows "record_ok (chunks n pages ! i, m)"
proof -
  have c: "chunks n pages ! i = take n (drop (i * n) pages)" using assms by (intro chunks_nth) (simp_all add: batch_ok_def)
  then have "length (chunks n pages ! i) * PAGE_ENTRY_LEN \<le> n * PAGE_ENTRY_LEN" by (intro mult_le_mono1) simp
  then have "8 + length (chunks n pages ! i) * PAGE_ENTRY_LEN < 2 ^ 32" using assms(1) unfolding batch_ok_def by linarith
  moreover have "list_all image_ok (chunks n pages ! i)"
    using assms(1) unfolding c batch_ok_def list_all_iff by (blast dest: in_set_takeD in_set_dropD)
  ultimately show ?thesis by (simp add: record_ok_def)
qed

lemma chunks_nonempty: "batch_ok n pages \<Longrightarrow> chunks n pages \<noteq> []"
  by (subst chunks.simps) (simp add: batch_ok_def)

lemma whole_batch_records:
  assumes "batch_ok n pages"
  shows "whole_batch (batch_records n pages)"
proof -
  obtain k where k: "length (chunks n pages) = Suc k" using chunks_nonempty [OF assms] by (cases "chunks n pages") auto
  have r: "batch_records n pages = map (\<lambda>i. (chunks n pages ! i, i < k)) [0..<k] @ [(chunks n pages ! k, False)]"
    by (simp add: batch_records_def k)
  show ?thesis
    unfolding whole_batch_def r using record_ok_chunk [OF assms] k by (auto simp: list_all_iff)
qed

lemma take_chunk_Inr: "take_chunk (min k (length pages)) (map Inr pages) = Inr (take k pages, map Inr (drop k pages))"
proof (induction pages arbitrary: k)
  case (Cons page pages)
  then show ?case by (cases k) simp_all
qed simp

lemma encode_batch_eq:
  assumes "batch_ok n pages"
  shows "encode_batch hw pages n = Inr (log_bytes (batch_records n pages))"
proof -
  let ?cs = "chunks n pages"
  have "foldR (\<lambda>(i, rec) batch. encode_record_into hw batch rec (i < l)) (map (\<lambda>i. (i, ?cs ! i)) is) b
      = Inr (b @ log_bytes (map (\<lambda>i. (?cs ! i, i < l)) is))" if "set is \<subseteq> {..<length ?cs}" for "is" b l
    using that
  proof (induction "is" arbitrary: b)
    case (Cons i "is")
    then have "encode_record_into hw b (?cs ! i) (i < l) = Inr (b @ enc_record (?cs ! i, i < l))"
      by (intro encode_record_into_eq record_ok_chunk [OF assms]) simp
    then show ?case using Cons by (simp add: log_bytes_def)
  qed (simp add: log_bytes_def)
  moreover have "enumerate 0 ?cs = map (\<lambda>i. (i, ?cs ! i)) [0..<length ?cs]"
    by (rule nth_equalityI) (simp_all add: nth_enumerate_eq)
  ultimately show ?thesis
    using assms by (simp add: encode_batch_def batch_ok_def Let_def batch_records_def atLeast0LessThan)
qed

text \<open>
  \<open>log_loop\<close> from its \<open>i\<close>th record on: all that was due is written, or an error left a prefix of it.
\<close>

lemma log_loop_writes:
  assumes "batch_ok n pages" "record_pages w = n" "R = batch_records n pages" "i \<le> length R" "i = length R \<longrightarrow> prior = []"
    "log_loop os hw (length pages) (length R) [i..<length R] w (map Inr (drop (i * n) pages)) prior written = (w', res)"
  shows "\<exists>t. prefix t (prior @ log_bytes (drop i R)) \<and> w' = w\<lparr>wal_file := wal_file w @ t\<rparr>
    \<and> (res = Inl (Io OtherError)
       \<or> res = Inr ([], written + length t) \<and> t = prior @ log_bytes (drop i R))"
  using assms(2,4,5,6)
proof (induction "length R - i" arbitrary: i w prior written)
  case 0
  then have i: "i = length R" by simp
  have "length pages \<le> length R * n"
  proof -
    have "pages = concat (chunks n pages)" using assms(1) concat_chunks by (metis batch_ok_def)
    moreover have "length (concat cs) \<le> length cs * n" if "\<And>c. c \<in> set cs \<Longrightarrow> length c \<le> n" for cs :: "page_image list list"
      using that by (induction cs) fastforce+
    moreover have "length c \<le> n" if "c \<in> set (chunks n pages)" for c
      using that chunks_nth [of n _ pages] assms(1) by (auto simp: in_set_conv_nth batch_ok_def)
    ultimately have "length pages \<le> length (chunks n pages) * n" by metis
    then show ?thesis using assms(1,3) by (simp add: batch_records_def)
  qed
  then show ?case using 0 i by (auto simp: log_bytes_def)
next
  case (Suc k)
  then have i: "i < length R" by simp
  let ?c = "take n (drop (i * n) pages)"
  have li: "i < length (chunks n pages)" using i assms(3) by (simp add: batch_records_def)
  have Ri: "R ! i = (?c, i < length R - 1)"
    using li assms(1,3) by (simp add: batch_records_def chunks_nth batch_ok_def)
  have ok: "record_ok (?c, i < length R - 1)"
    using record_ok_chunk [OF assms(1) li] chunks_nth [of n i pages] li assms(1) by (simp add: batch_ok_def)
  have ch: "take_chunk (min (length pages - i * record_pages w) (record_pages w)) (map Inr (drop (i * n) pages))
      = Inr (?c, map Inr (drop (Suc i * n) pages))"
    using take_chunk_Inr [of n "drop (i * n) pages"] Suc.prems(1) by (simp add: min.commute add.commute)
  have R: "log_bytes (drop i R) = enc_record (R ! i) @ log_bytes (drop (Suc i) R)"
    using i by (simp add: log_bytes_def Cons_nth_drop_Suc [symmetric])
  let ?rec = "prior @ enc_record (R ! i)"
  have run: "log_loop os hw (length pages) (length R) [i..<length R] w (map Inr (drop (i * n) pages)) prior written =
      (case write_all os i w ?rec of
         (w, Inl e) \<Rightarrow> (w, Inl e)
       | (w, Inr _) \<Rightarrow>
           if i < length R - 1 \<and> sync_fails os i then (w, Inl (Io OtherError))
           else log_loop os hw (length pages) (length R) [Suc i..<length R] w (map Inr (drop (Suc i * n) pages)) []
                  (written + length ?rec))"
    using i by (simp only: upt_conv_Cons log_loop.simps ch sum.case prod.case encode_record_into_eq [OF ok] Ri)
  show ?case
  proof (cases "write_fails os i")
    case (Some k)
    then have "w' = w\<lparr>wal_file := wal_file w @ take k ?rec\<rparr>" "res = Inl (Io OtherError)"
      using Suc.prems(4) run by (auto simp: write_all_def)
    moreover have "prefix (take k ?rec) (prior @ log_bytes (drop i R))"
      unfolding R append_assoc [symmetric] by (rule prefix_prefix) (rule take_is_prefix)
    ultimately show ?thesis by blast
  next
    case None
    let ?w = "w\<lparr>wal_file := wal_file w @ ?rec\<rparr>"
    have wr: "write_all os i w ?rec = (?w, Inr ())" using None by (simp add: write_all_def)
    show ?thesis
    proof (cases "i < length R - 1 \<and> sync_fails os i")
      case True
      then have "w' = ?w" "res = Inl (Io OtherError)" using Suc.prems(4) run wr by auto
      moreover have "prefix ?rec (prior @ log_bytes (drop i R))" by (simp add: R)
      ultimately show ?thesis by blast
    next
      case False
      then have "log_loop os hw (length pages) (length R) [Suc i..<length R] ?w (map Inr (drop (Suc i * n) pages)) []
          (written + length ?rec) = (w', res)"
        using Suc.prems(4) by (simp only: run wr prod.case sum.case if_not_P [OF False] if_False)
      moreover have "k = length R - Suc i" using Suc.hyps(2) by linarith
      ultimately obtain t where
        "prefix t (log_bytes (drop (Suc i) R))" "w' = ?w\<lparr>wal_file := wal_file ?w @ t\<rparr>"
        "res = Inl (Io OtherError) \<or> res = Inr ([], written + length ?rec + length t) \<and> t = log_bytes (drop (Suc i) R)"
        using Suc.hyps(1) [of "Suc i" ?w "[]" "written + length ?rec"] Suc.prems(1) i by auto
      then show ?thesis by (intro exI [of _ "?rec @ t"]) (auto simp: R)
    qed
  qed
qed

subsection \<open>Recovery\<close>

text \<open>What \<open>Database::open\<close> gets to write back: the pending pages, in order.\<close>

definition recovered :: "bool \<Rightarrow> bytes \<Rightarrow> page_image list res" where
  "recovered hw file =
     bindR (scan hw file) (\<lambda>(p, _). pending_pages hw (\<lambda>img acc. Inr (acc @ [img])) p [])"

definition wal_bytes :: "nat \<Rightarrow> page_image list list \<Rightarrow> bytes" where
  "wal_bytes n bs = (if bs = [] then [] else encode_header @ concat (map (\<lambda>b. log_bytes (batch_records n b)) bs))"

text \<open>What a crash while \<open>pages\<close> were logged may leave behind the committed bytes.\<close>

definition torn_log :: "bool \<Rightarrow> nat \<Rightarrow> page_image list \<Rightarrow> bytes \<Rightarrow> bool" where
  "torn_log first n pages t \<longleftrightarrow>
     (if first then strict_prefix t encode_header \<or> (\<exists>u. t = encode_header @ u \<and> torn_batch (batch_records n pages) u)
      else torn_batch (batch_records n pages) t)"

lemma strict_prefix_torn_batch: "strict_prefix t (log_bytes rs) \<Longrightarrow> torn_batch rs t"
proof (induction rs arbitrary: t)
  case (Cons rc rs)
  have lb: "log_bytes (rc # rs) = enc_record rc @ log_bytes rs" by (simp add: log_bytes_def)
  show ?case
  proof (cases "strict_prefix t (enc_record rc)")
    case True
    then show ?thesis unfolding torn_batch_def by (intro exI [of _ 0]) (simp add: log_bytes_def torn_def)
  next
    case False
    have "prefix t (enc_record rc @ log_bytes rs)" using Cons.prems lb by (simp add: strict_prefix_def)
    then obtain t' where t0: "t = enc_record rc @ t'" "prefix t' (log_bytes rs)"
      using False by (force simp: prefix_append strict_prefix_def)
    then have t': "t = enc_record rc @ t'" "strict_prefix t' (log_bytes rs)"
      using Cons.prems lb by (auto simp: strict_prefix_def)
    then obtain k u where k: "k < length rs" "t' = log_bytes (take k rs) @ u" "torn (enc_record (rs ! k)) u"
      using Cons.IH unfolding torn_batch_def by blast
    then show ?thesis unfolding torn_batch_def using t'(1)
      by (intro exI [of _ "Suc k"]) (simp add: log_bytes_def)
  qed
qed (simp add: log_bytes_def)

lemma encode_header_eq: "encode_header = WAL_MAGIC @ le_bytes 4 WAL_VERSION"
  by (simp add: encode_header_def put_def WAL_HEADER_LEN_def WAL_MAGIC_def)

lemma length_encode_header [simp]: "length encode_header = 12"
  by (simp add: encode_header_eq WAL_MAGIC_def)

lemma records_new_header:
  assumes "12 \<le> m"
  shows "\<exists>r. records_new (encode_header @ bs) m = Inr (Some r) \<and> at_bytes r bs (m - 12) 12"
  using assms read_exact_append [of encode_header 12 bs]
  by (simp add: records_new_def WAL_HEADER_LEN_def at_bytes_def Let_def)
    (simp add: encode_header_eq WAL_MAGIC_def WAL_VERSION_def read_u32_def)

lemma filter_header_places:
  "filter (\<lambda>(at, _). at < length xs) (header_places 0 (xs @ ys)) = header_places 0 xs"
proof -
  have "filter (\<lambda>(at, _). at < length xs) (header_places 0 xs) = header_places 0 xs"
    using header_places_lt [of _ _ 0 xs] by (auto simp: filter_id_conv)
  moreover have "filter (\<lambda>(at, _). at < length xs) (header_places (length xs) ys) = []"
    using header_places_lt [of _ _ "length xs" ys] by (fastforce simp: filter_empty_conv)
  ultimately show ?thesis by (simp add: header_places_append)
qed

text \<open>What \<open>scan\<close> finds in whole batches followed by nothing or by a torn one.\<close>

lemma scan_committed:
  fixes bs :: "(page_image list \<times> bool) list list"
  assumes "list_all whole_batch bs" "t = [] \<or> (\<exists>rs. whole_batch rs \<and> torn_batch rs t)"
  defines "pages \<equiv> concat (map batch_pages bs)" and "all_bytes \<equiv> concat (map log_bytes bs)"
  shows "scan hw (encode_header @ all_bytes @ t) = Inr
     (\<lparr>pending_file = Some (encode_header @ all_bytes @ t), pending_end = 12 + length all_bytes,
       ids = map fst pages, headers = header_places 0 pages\<rparr>, Some WAL_VERSION)"
proof -
  let ?file = "encode_header @ all_bytes @ t"
  obtain r where r: "records_new ?file (length ?file) = Inr (Some r)" "at_bytes r (all_bytes @ t) (length all_bytes + length t) 12"
    using records_new_header [of "length ?file" "all_bytes @ t"] by auto
  from scan_batches [OF assms(1), of r t "length t" 12 0 "[]" 12 hw "[]"] r(2) obtain r1 where
    r1: "at_bytes r1 t (length t) (12 + length all_bytes)"
      "scan_loop hw r [] [] 0 12 = scan_loop hw r1 (map fst pages) (header_places 0 pages) (length pages) (12 + length all_bytes)"
    unfolding all_bytes_def pages_def by auto
  have "\<exists>ps. scan_loop hw r1 (map fst pages) (header_places 0 pages) (length pages) (12 + length all_bytes)
      = Inr (map fst pages @ map fst ps, header_places 0 pages @ header_places (length pages) ps, length pages, 12 + length all_bytes)"
    using assms(2)
  proof
    assume "t = []"
    then show ?thesis using scan_done r1(1) by (intro exI [of _ "[]"]) simp
  next
    assume "\<exists>rs. whole_batch rs \<and> torn_batch rs t"
    then show ?thesis using scan_torn_batch r1(1) by (metis length_map)
  qed
  moreover have "version r = WAL_VERSION" "offset r = 12" using r(2) by (simp_all add: at_bytes_def)
  ultimately show ?thesis
    using r(1) r1(2) filter_header_places [of pages] by (auto simp: scan_def header_places_append)
qed

lemma recovered_committed:
  assumes "list_all whole_batch bs" "t = [] \<or> (\<exists>rs. whole_batch rs \<and> torn_batch rs t)"
  shows "recovered hw (encode_header @ concat (map log_bytes bs) @ t) = Inr (concat (map batch_pages bs))"
proof -
  let ?all = "concat (map log_bytes bs)" and ?pages = "concat (map batch_pages bs)"
  have all: "?all = log_bytes (concat bs)" by (induction bs) (simp_all add: log_bytes_def)
  have pages: "?pages = concat (map fst (concat bs))" by (induction bs) (simp_all add: batch_pages_def)
  have ok: "list_all record_ok (concat bs)" using assms(1) by (induction bs) (auto simp: whole_batch_def)
  obtain r where r: "records_new (encode_header @ ?all @ t) (12 + length ?all) = Inr (Some r)"
    "at_bytes r (log_bytes (concat bs) @ t) (length (log_bytes (concat bs))) 12"
    using records_new_header [of "12 + length ?all" "?all @ t"] by (auto simp: all)
  have "foldR (\<lambda>img acc. Inr (acc @ [img])) xs acc = Inr (acc @ xs)" for xs acc :: "page_image list"
    by (induction xs arbitrary: acc) simp_all
  then have "pages_loop hw (\<lambda>img acc. Inr (acc @ [img])) r 0 [] = Inr (length ?pages, ?pages)"
    using pages_loop_records [OF ok r(2), of hw "\<lambda>img acc. Inr (acc @ [img])" 0 "[]"] by (simp add: pages)
  then show ?thesis
    using scan_committed [OF assms, of hw] r(1) by (simp add: recovered_def pending_pages_def)
qed

lemma recovered_short: "length file < 12 \<Longrightarrow> recovered hw file = Inr []"
  by (simp add: recovered_def scan_def records_new_def WAL_HEADER_LEN_def nothing_def pending_pages_def)

lemma recovered_wal_bytes:
  assumes "list_all (batch_ok n) bs" "t = [] \<or> batch_ok n pages \<and> torn_log (bs = []) n pages t"
  shows "recovered hw (wal_bytes n bs @ t) = Inr (concat bs)"
proof -
  let ?rs = "map (batch_records n) bs"
  have w: "list_all whole_batch ?rs" using assms(1) whole_batch_records by (simp add: list_all_iff)
  have p: "concat (map batch_pages ?rs) = concat bs"
    using assms(1) by (induction bs) (simp_all add: batch_pages_records batch_ok_def)
  have torn: "u = [] \<or> (\<exists>rs. whole_batch rs \<and> torn_batch rs u)"
    if "u = [] \<or> batch_ok n pages \<and> torn_batch (batch_records n pages) u" for u
    using that whole_batch_records by blast
  show ?thesis
  proof (cases "bs = []")
    case False
    then have "t = [] \<or> (\<exists>rs. whole_batch rs \<and> torn_batch rs t)" using assms(2) torn by (auto simp: torn_log_def)
    from recovered_committed [OF w this, of hw] show ?thesis
      using False p by (simp add: wal_bytes_def comp_def)
  next
    case True
    show ?thesis
    proof (cases "length t < 12")
      case False
      then obtain u where "t = encode_header @ u" "batch_ok n pages" "torn_batch (batch_records n pages) u"
        using assms(2) True prefix_length_less [of t encode_header] by (auto simp: torn_log_def)
      then show ?thesis using recovered_committed [of "[]" u hw] torn True by (simp add: wal_bytes_def)
    qed (simp add: True wal_bytes_def recovered_short)
  qed
qed

lemma prefix_of_batch:
  assumes "list_all (batch_ok n) bs" "batch_ok n pages"
    "prefix t ((if bs = [] then encode_header else []) @ log_bytes (batch_records n pages))"
  shows "recovered hw (wal_bytes n bs @ t) \<in> {Inr (concat bs), Inr (concat bs @ pages)}"
proof (cases "t = (if bs = [] then encode_header else []) @ log_bytes (batch_records n pages)")
  case True
  then have "wal_bytes n bs @ t = wal_bytes n (bs @ [pages])" by (simp add: wal_bytes_def)
  then show ?thesis using recovered_wal_bytes [of n "bs @ [pages]" "[]" pages hw] assms(1,2) by simp
next
  case False
  then have s: "strict_prefix t ((if bs = [] then encode_header else []) @ log_bytes (batch_records n pages))"
    using assms(3) by (simp add: strict_prefix_def)
  have "torn_log (bs = []) n pages t"
  proof (cases "bs = []")
    case True
    show ?thesis
    proof (cases "strict_prefix t encode_header")
      case F: False
      then obtain u where "t = encode_header @ u" "prefix u (log_bytes (batch_records n pages))"
        using s True by (force simp: prefix_append strict_prefix_def)
      then show ?thesis using s True strict_prefix_torn_batch [of u] by (auto simp: torn_log_def strict_prefix_def)
    qed (simp add: torn_log_def True)
  qed (use s strict_prefix_torn_batch in \<open>simp add: torn_log_def\<close>)
  then show ?thesis using recovered_wal_bytes [of n bs t pages hw] assms by simp
qed

subsection \<open>The log over time\<close>

text \<open>
  The operations as \<open>Database\<close> calls them, with whatever faults: a batch is logged; a batch
  whose log failed is taken back; the log is checkpointed, or a checkpoint fails, before or
  after it has cut the file. (Where taking a batch back fails too, the database is poisoned
  and logs nothing more.) Beside the log stand the batches committed since the last checkpoint.
\<close>

inductive wal_step :: "wal \<times> page_image list list \<Rightarrow> wal \<times> page_image list list \<Rightarrow> bool" where
  logged: "batch_ok (record_pages w) pages \<Longrightarrow> log os hw pages w = (w', Inr ()) \<Longrightarrow>
    wal_step (w, bs) (w', bs @ [pages])"
| taken_back: "batch_ok (record_pages w) pages \<Longrightarrow> log os hw pages w = (w1, Inl e) \<Longrightarrow>
    undo_failed_log os' w1 = (w', Inr ()) \<Longrightarrow> wal_step (w, bs) (w', bs)"
| checkpointed: "checkpoint os w = (w', Inr ()) \<Longrightarrow> wal_step (w, bs) (w', [])"
| checkpoint_failed: "checkpoint os w = (w', Inl e) \<Longrightarrow>
    wal_step (w, bs) (w', if set_len_fails os then bs else [])"

definition wal_new :: "nat \<Rightarrow> wal" where
  "wal_new n = \<lparr>wal_file = [], wal_len = 0, record_pages = n, appendable = True\<rparr>"

inductive wal_reachable :: "nat \<Rightarrow> wal \<times> page_image list list \<Rightarrow> bool" for n where
  start: "wal_reachable n (wal_new n, [])"
| step: "wal_reachable n s \<Longrightarrow> wal_step s s' \<Longrightarrow> wal_reachable n s'"

definition wal_inv :: "nat \<Rightarrow> wal \<times> page_image list list \<Rightarrow> bool" where
  "wal_inv n = (\<lambda>(w, bs). record_pages w = n \<and> list_all (batch_ok n) bs \<and> wal_file w = wal_bytes n bs
     \<and> wal_len w = length (wal_file w) \<and> appendable w)"

lemma wal_bytes_snoc:
  "wal_bytes n (bs @ [pages]) = wal_bytes n bs @ (if bs = [] then encode_header else []) @ log_bytes (batch_records n pages)"
  by (simp add: wal_bytes_def)

lemma wal_bytes_empty [simp]: "wal_bytes n bs = [] \<longleftrightarrow> bs = []"
  using length_encode_header by (auto simp: wal_bytes_def simp del: length_encode_header)

lemma log_eq:
  assumes "wal_inv n (w, bs)" "batch_ok n pages" "\<not> seek_fails os"
  shows "log os hw pages w =
     (case log_loop os hw (length pages) (length (batch_records n pages)) [0..<length (batch_records n pages)] w
         (map Inr pages) (if bs = [] then encode_header else []) 0 of
        (w, Inl e) \<Rightarrow> (w, Inl e)
      | (w', Inr (ps, k)) \<Rightarrow> if ps \<noteq> [] then (w', Inl (Io OtherError))
          else if sync_fails os (length (batch_records n pages) - 1) then (w', Inl (Io OtherError))
          else (w'\<lparr>wal_len := length (wal_file w) + k, appendable := True\<rparr>, Inr ()))"
proof -
  have w: "record_pages w = n" "appendable w" "wal_len w = length (wal_file w)" "wal_file w = [] \<longleftrightarrow> bs = []"
    using assms(1) by (simp_all add: wal_inv_def)
  have n: "0 < n" "pages \<noteq> []" using assms(2) by (simp_all add: batch_ok_def)
  have "w\<lparr>wal_len := min (wal_len w) (length (wal_file w))\<rparr> = w" using w(3) by simp
  moreover have "div_ceil (length pages) n = length (batch_records n pages)" using n length_batch_records [of n pages] by simp
  ultimately show ?thesis
    unfolding log_def log_each_def using w n assms(3) by (simp only: Let_def length_0_conv) (simp cong: if_cong)
qed

lemma log_outcome:
  assumes inv: "wal_inv n (w, bs)" and ok: "batch_ok n pages" and run: "log os hw pages w = (w', res)"
  shows "res = Inr () \<and> wal_inv n (w', bs @ [pages])
    \<or> res = Inl (Io OtherError) \<and> (\<exists>t. prefix (wal_file w @ t) (wal_bytes n (bs @ [pages]))
        \<and> w' = w\<lparr>wal_file := wal_file w @ t\<rparr>)"
proof -
  note w = inv [unfolded wal_inv_def prod.case]
  let ?R = "batch_records n pages" and ?h = "if bs = [] then encode_header else []"
  have n: "0 < n" "pages \<noteq> []" using ok by (simp_all add: batch_ok_def)
  have Rne: "?R \<noteq> []" using whole_batch_records [OF ok] by (simp add: whole_batch_def)
  show ?thesis
  proof (cases "seek_fails os")
    case True
    then have "w' = w" "res = Inl (Io OtherError)" using run n by (auto simp: log_def log_each_def)
    then show ?thesis using w by (intro disjI2 conjI exI [of _ "[]"]) (simp_all add: wal_bytes_snoc)
  next
    case False
    obtain w1 r1 where loop: "log_loop os hw (length pages) (length ?R) [0..<length ?R] w (map Inr pages) ?h 0 = (w1, r1)"
      by (cases "log_loop os hw (length pages) (length ?R) [0..<length ?R] w (map Inr pages) ?h 0")
    obtain t where t: "prefix t (?h @ log_bytes ?R)" "w1 = w\<lparr>wal_file := wal_file w @ t\<rparr>"
      "r1 = Inl (Io OtherError) \<or> r1 = Inr ([], length t) \<and> t = ?h @ log_bytes ?R"
      using log_loop_writes [OF ok _ refl, of w 0 ?h os hw 0 w1 r1] loop w Rne by auto
    have run': "(w', res) = (case (w1, r1) of (w, Inl e) \<Rightarrow> (w, Inl e)
        | (w', Inr (ps, k)) \<Rightarrow> if ps \<noteq> [] then (w', Inl (Io OtherError))
            else if sync_fails os (length ?R - 1) then (w', Inl (Io OtherError))
            else (w'\<lparr>wal_len := length (wal_file w) + k, appendable := True\<rparr>, Inr ()))"
      using run log_eq [OF inv ok False, of hw] loop by simp
    have pre: "prefix (wal_file w @ t) (wal_bytes n (bs @ [pages]))" using t(1) w by (simp add: wal_bytes_snoc)
    show ?thesis
    proof (cases "r1 = Inl (Io OtherError) \<or> sync_fails os (length ?R - 1)")
      case True
      then have "res = Inl (Io OtherError)" "w' = w1" using run' t(3) by auto
      then show ?thesis using pre t(2) by blast
    next
      case False
      then have full: "r1 = Inr ([], length t)" "t = ?h @ log_bytes ?R" using t(3) by simp_all
      then have "res = Inr ()" "w' = w1\<lparr>wal_len := length (wal_file w) + length t, appendable := True\<rparr>"
        using run' False by auto
      then show ?thesis using w ok t(2) full(2) by (simp add: wal_inv_def wal_bytes_snoc)
    qed
  qed
qed

lemma undo_restores:
  assumes "wal_inv n (w, bs)" "w1 = w\<lparr>wal_file := wal_file w @ t\<rparr>" "undo_failed_log os w1 = (w', Inr ())"
  shows "w' = w"
proof -
  have "set_len (wal_len w1) (wal_file w1) = wal_file w" using assms(1,2) by (simp add: wal_inv_def set_len_def)
  then have "w1\<lparr>wal_file := set_len (wal_len w1) (wal_file w1)\<rparr> = w" using assms(2) by simp
  then show ?thesis using assms(3) by (auto simp: undo_failed_log_def Let_def split: if_splits)
qed

lemma checkpoint_empties:
  assumes "wal_inv n (w, bs)" "checkpoint os w = (w', res)"
  shows "if set_len_fails os then w' = w \<and> res = Inl (Io OtherError) else wal_inv n (w', [])"
  using assms by (auto simp: checkpoint_def wal_inv_def set_len_def wal_bytes_def Let_def split: if_splits)

lemma wal_step_inv: "wal_step s s' \<Longrightarrow> wal_inv n s \<Longrightarrow> wal_inv n s'"
proof (induction rule: wal_step.induct)
  case (logged w pages os hw w' bs)
  then show ?case using log_outcome [of n w bs pages os hw w' "Inr ()"] by (simp add: wal_inv_def)
next
  case (taken_back w pages os hw w1 e os' w' bs)
  then obtain t where "w1 = w\<lparr>wal_file := wal_file w @ t\<rparr>"
    using log_outcome [of n w bs pages os hw w1 "Inl e"] by (auto simp: wal_inv_def)
  then show ?case using undo_restores taken_back by metis
next
  case (checkpointed os w w' bs)
  then show ?case using checkpoint_empties [of n w bs os w' "Inr ()"] by (simp split: if_splits)
next
  case (checkpoint_failed os w w' e bs)
  then show ?case using checkpoint_empties [of n w bs os w' "Inl e"] by (auto split: if_splits)
qed

lemma wal_reachable_inv: "wal_reachable n s \<Longrightarrow> wal_inv n s"
proof (induction rule: wal_reachable.induct)
  case start
  show ?case by (simp add: wal_inv_def wal_new_def wal_bytes_def)
next
  case (step s s')
  then show ?case using wal_step_inv by blast
qed

lemma log_no_faults:
  assumes "wal_inv n (w, bs)" "batch_ok n pages"
  shows "\<exists>w'. log no_faults hw pages w = (w', Inr ())"
proof -
  have loop: "\<exists>w' r. log_loop no_faults hw (length pages) m [i..<m] w (map Inr ps) h k = (w', Inr r)" 
    if "length ps + i * n = length pages \<or> length pages \<le> i * n \<and> ps = []" "record_pages w = n" "list_all image_ok ps" for i ps h k w m
    using that
  proof (induction "m - i" arbitrary: i ps h k w)
    case (Suc d)
    then have i: "i < m" by simp
    let ?j = "min (length pages - i * n) n"
    have j: "?j = min n (length ps)" using Suc.prems(1) by auto
    have ch: "take_chunk ?j (map Inr ps) = Inr (take n ps, map Inr (drop n ps))"
      unfolding j by (rule take_chunk_Inr)
    have "length (take n ps) * PAGE_ENTRY_LEN \<le> n * PAGE_ENTRY_LEN" by (intro mult_le_mono1) simp
    then have "8 + length (take n ps) * PAGE_ENTRY_LEN < 2 ^ 32" using assms(2) unfolding batch_ok_def by linarith
    moreover have "list_all image_ok (take n ps)" "list_all image_ok (drop n ps)"
      using Suc.prems(3) by (auto simp: list_all_iff dest: in_set_takeD in_set_dropD)
    ultimately have "record_ok (take n ps, x)" for x by (simp add: record_ok_def)
    note enc = encode_record_into_eq [OF this, of hw]
    have d: "d = m - Suc i" using Suc.hyps(2) by linarith
    have "length (drop n ps) + Suc i * n = length pages \<or> length pages \<le> Suc i * n \<and> drop n ps = []"
      using Suc.prems(1) by auto
    note IH = Suc.hyps(1) [OF d this _ \<open>list_all image_ok (drop n ps)\<close>]
    show ?case
      using i Suc.prems(2) IH by (simp add: upt_conv_Cons ch enc write_all_def no_faults_def)
  qed simp
  let ?R = "length (batch_records n pages)" and ?h = "if bs = [] then encode_header else []"
  obtain w1 r1 where l: "log_loop no_faults hw (length pages) ?R [0..<?R] w (map Inr pages) ?h 0 = (w1, Inr r1)"
    using loop [of pages 0 w ?R ?h 0] assms by (auto simp: batch_ok_def wal_inv_def)
  have "batch_records n pages \<noteq> []" using whole_batch_records [OF assms(2)] by (simp add: whole_batch_def)
  then have "fst r1 = []"
    using log_loop_writes [OF assms(2) _ refl, of w 0 ?h no_faults hw 0 w1 "Inr r1"] l assms(1) by (auto simp: wal_inv_def)
  then show ?thesis
    using log_eq [OF assms, of no_faults hw] l by (cases r1) (simp add: no_faults_def)
qed

subsection \<open>What a crash leaves is what was committed\<close>

lemma reachable_one_page: "wal_reachable 4096 (wal_new 4096, [])"
  by (rule wal_reachable.start)

lemma one_page_ok: "batch_ok 4096 [(7, replicate USABLE_PAGE_SIZE 0)]"
  by (simp add: batch_ok_def image_ok_def PAGE_ENTRY_LEN_def USABLE_PAGE_SIZE_def PAGE_SIZE_def CHECKSUM_LEN_def)

text \<open>
  C18. A crash never loses a committed batch and never leaves part of one: however the log came
  to where it is, through batches logged, batches that failed and were taken back, checkpoints
  that succeeded or failed, after a crash that cuts short the log of one more batch (whole
  records of it, then a record too short or one that fails its checksum, or even the header)
  recovery hands out exactly the pages of the committed batches, in order.
\<close>

theorem wal_crash_atomic:
  assumes "wal_reachable n (w, bs)" and "batch_ok n pages" and "torn_log (wal_file w = []) n pages t"
  shows "recovered hw (wal_file w @ t) = Inr (concat bs) \<and> recovered hw (wal_file w) = Inr (concat bs)"
proof -
  have inv: "list_all (batch_ok n) bs" "wal_file w = wal_bytes n bs"
    using wal_reachable_inv [OF assms(1)] by (simp_all add: wal_inv_def)
  then show ?thesis
    using recovered_wal_bytes [of n bs t pages hw] recovered_wal_bytes [of n bs "[]" pages hw] assms(2,3) by simp
qed

theorem wal_crash_atomic_witness:
  "recovered True (wal_file (wal_new 4096) @ take 5 encode_header) = Inr (concat [])
    \<and> recovered True (wal_file (wal_new 4096)) = Inr (concat [])"
proof (rule wal_crash_atomic [OF reachable_one_page one_page_ok])
  show "torn_log (wal_file (wal_new 4096) = []) 4096 [(7, replicate USABLE_PAGE_SIZE 0)] (take 5 encode_header)"
    by (simp add: torn_log_def wal_new_def strict_prefix_def take_is_prefix encode_header_def put_def WAL_HEADER_LEN_def
        WAL_MAGIC_def ascii_def WAL_VERSION_def)
qed

text \<open>
  C19. Logging a batch is all or nothing, whatever fails and wherever: if \<open>log\<close> returns, recovery
  hands out the committed batches and this one; if it fails, the file holds what it held and a
  prefix of the batch's bytes, recovery hands out the committed batches with or without all of
  this one, and \<open>undo_failed_log\<close>, where it returns, leaves the log exactly as it was before.
\<close>

theorem wal_log_all_or_nothing:
  assumes "wal_reachable n (w, bs)" and "batch_ok n pages" and "log os hw pages w = (w', res)"
  shows "res = Inr () \<and> recovered hw' (wal_file w') = Inr (concat bs @ pages)
    \<or> res = Inl (Io OtherError) \<and> recovered hw' (wal_file w') \<in> {Inr (concat bs), Inr (concat bs @ pages)}
      \<and> snd (undo_failed_log os' w') \<in> {Inr (), Inl (Io OtherError)}
      \<and> (snd (undo_failed_log os' w') = Inr () \<longrightarrow> fst (undo_failed_log os' w') = w)"
proof -
  have inv: "wal_inv n (w, bs)" using wal_reachable_inv assms(1) by blast
  then have ok: "list_all (batch_ok n) bs" "wal_file w = wal_bytes n bs" by (simp_all add: wal_inv_def)
  have rec: "recovered hw' (wal_bytes n (bs @ [pages])) = Inr (concat bs @ pages)"
    using recovered_wal_bytes [of n "bs @ [pages]" "[]" pages hw'] ok(1) assms(2) by simp
  from log_outcome [OF inv assms(2,3)] show ?thesis
  proof
    assume "res = Inr () \<and> wal_inv n (w', bs @ [pages])"
    then show ?thesis using rec by (simp add: wal_inv_def)
  next
    assume "res = Inl (Io OtherError) \<and> (\<exists>t. prefix (wal_file w @ t) (wal_bytes n (bs @ [pages]))
        \<and> w' = w\<lparr>wal_file := wal_file w @ t\<rparr>)"
    then obtain t where t: "res = Inl (Io OtherError)" "prefix t ((if bs = [] then encode_header else []) @ log_bytes (batch_records n pages))"
      "w' = w\<lparr>wal_file := wal_file w @ t\<rparr>" by (auto simp: ok(2) wal_bytes_snoc)
    have "recovered hw' (wal_file w') \<in> {Inr (concat bs), Inr (concat bs @ pages)}"
      using prefix_of_batch [OF ok(1) assms(2) t(2), of hw'] t(3) ok(2) by simp
    moreover have "fst (undo_failed_log os' w') = w" if "snd (undo_failed_log os' w') = Inr ()"
      using undo_restores [OF inv t(3)] that by (metis prod.collapse)
    moreover have "snd (undo_failed_log os' w') \<in> {Inr (), Inl (Io OtherError)}"
      by (simp add: undo_failed_log_def Let_def)
    ultimately show ?thesis using t(1) by blast
  qed
qed

theorem wal_log_all_or_nothing_witness:
  "snd (log no_faults True [(7, replicate USABLE_PAGE_SIZE 0)] (wal_new 4096)) = Inr ()
    \<and> recovered False (wal_file (fst (log no_faults True [(7, replicate USABLE_PAGE_SIZE 0)] (wal_new 4096))))
      = Inr ([(7, replicate USABLE_PAGE_SIZE 0)])"
proof -
  have inv: "wal_inv 4096 (wal_new 4096, [])" using wal_reachable_inv [OF reachable_one_page] .
  obtain w' where w': "log no_faults True [(7, replicate USABLE_PAGE_SIZE 0)] (wal_new 4096) = (w', Inr ())"
    using log_no_faults [OF inv one_page_ok] by blast
  then show ?thesis
    using wal_log_all_or_nothing [OF reachable_one_page one_page_ok w', of False] by simp
qed

text \<open>
  C20. Where the operating system reports no fault, logging a batch always returns, in one record
  or in several, on an empty log or behind committed batches; so does taking it back and so does
  a checkpoint, which leaves nothing to recover.
\<close>

theorem wal_operations_return:
  assumes "wal_reachable n (w, bs)" and "batch_ok n pages"
  shows "(\<exists>w'. log no_faults hw pages w = (w', Inr ()) \<and> wal_reachable n (w', bs @ [pages]))
    \<and> undo_failed_log no_faults w = (w, Inr ())
    \<and> (\<exists>w'. checkpoint no_faults w = (w', Inr ()) \<and> wal_reachable n (w', []) \<and> recovered hw (wal_file w') = Inr [])"
proof -
  have inv: "wal_inv n (w, bs)" using wal_reachable_inv assms(1) by blast
  then have n: "record_pages w = n" by (simp add: wal_inv_def)
  obtain w1 where w1: "log no_faults hw pages w = (w1, Inr ())" using log_no_faults [OF inv assms(2)] by blast
  then have "wal_reachable n (w1, bs @ [pages])"
    using wal_reachable.step [OF assms(1)] logged [of w pages no_faults hw w1 bs] assms(2) n by simp
  moreover obtain w2 where w2: "checkpoint no_faults w = (w2, Inr ())" by (simp add: checkpoint_def Let_def no_faults_def)
  then have r2: "wal_reachable n (w2, [])" using wal_reachable.step [OF assms(1)] checkpointed by blast
  moreover have "recovered hw (wal_file w2) = Inr []"
    using wal_reachable_inv [OF r2] recovered_short [of "[]" hw] by (simp add: wal_inv_def wal_bytes_def)
  moreover obtain w3 where w3: "undo_failed_log no_faults w = (w3, Inr ())"
    by (simp add: undo_failed_log_def Let_def no_faults_def)
  moreover have "w3 = w" using undo_restores [OF inv _ w3, of "[]"] by simp
  ultimately show ?thesis using w1 w2 by blast
qed

theorem wal_operations_return_witness:
  "(\<exists>w'. log no_faults False [(7, replicate USABLE_PAGE_SIZE 0)] (wal_new 4096) = (w', Inr ())
      \<and> wal_reachable 4096 (w', [] @ [[(7, replicate USABLE_PAGE_SIZE 0)]]))
    \<and> undo_failed_log no_faults (wal_new 4096) = (wal_new 4096, Inr ())
    \<and> (\<exists>w'. checkpoint no_faults (wal_new 4096) = (w', Inr ()) \<and> wal_reachable 4096 (w', []) \<and> recovered False (wal_file w') = Inr [])"
  by (rule wal_operations_return [OF reachable_one_page one_page_ok])

text \<open>
  C21. A tail of zero bytes is not a torn tail: an empty body has the checksum zero, so eight zero
  bytes behind the committed batches pass for a record and fail as one too short. A file system
  that grows the file before it has the data, and then stops, leaves a log that does not open.
\<close>

theorem wal_zero_tail_is_an_error:
  assumes "wal_reachable n (w, bs)" and "bs \<noteq> []" and "8 \<le> k"
  shows "wal_open hw (wal_file w @ replicate k 0) = corrupt"
proof -
  let ?rs = "map (batch_records n) bs"
  let ?all = "concat (map log_bytes ?rs)"
  have inv: "list_all (batch_ok n) bs" "wal_file w = encode_header @ ?all"
    using wal_reachable_inv [OF assms(1)] assms(2) by (simp_all add: wal_inv_def wal_bytes_def comp_def)
  have w: "list_all whole_batch ?rs" using inv(1) whole_batch_records by (simp add: list_all_iff)
  let ?file = "encode_header @ ?all @ replicate k 0"
  obtain r where r: "records_new ?file (length ?file) = Inr (Some r)"
    "at_bytes r (?all @ replicate k 0) (length ?all + k) 12"
    using records_new_header [of "length ?file" "?all @ replicate k 0"] by auto
  then have "offset r = 12" by (simp add: at_bytes_def)
  obtain r1 "is" hs wh en where r1: "at_bytes r1 (replicate k 0) k (12 + length ?all)"
    "scan_loop hw r [] [] 0 12 = scan_loop hw r1 is hs wh en"
    using scan_batches [OF w, of r "replicate k 0" k 12 0 "[]" 12 hw "[]"] r(2) by auto
  have "replicate k 0 = replicate 8 0 @ replicate (k - 8) (0 :: byte)"
    using assms(3) by (metis le_add_diff_inverse replicate_add)
  then have rd: "read_exact (input r1) 8 = Inr (replicate 8 0, replicate (k - 8) 0)"
    using r1(1) read_exact_append [of "replicate 8 0" 8 "replicate (k - 8) (0 :: byte)"] by (simp add: at_bytes_def)
  have "read_u32 (replicate 8 0) = 0" "read_u32 (drop 4 (replicate 8 0)) = 0"
    by (simp_all add: read_u32_def numeral_eq_Suc)
  moreover have "crc32 hw [] = 0" by (simp add: crc32_def update_eq crc32_new_def crc32_finish_def)
  ultimately have "records_next hw r1 = corrupt"
    using r1(1) assms(3) by (simp add: records_next_def rd Let_def read_exact_def decode_body_def at_bytes_def)
  then have "scan_loop hw r1 is hs wh en = corrupt" by (subst scan_loop.simps) simp
  then show ?thesis using r(1) r1(2) \<open>offset r = 12\<close> by (simp add: wal_open_def scan_def inv(2))
qed

theorem wal_zero_tail_is_an_error_witness:
  "wal_open True (wal_file (fst (log no_faults True [(7, replicate USABLE_PAGE_SIZE 0)] (wal_new 4096))) @ replicate 8192 0)
     = corrupt"
proof -
  have inv: "wal_inv 4096 (wal_new 4096, [])" using wal_reachable_inv [OF reachable_one_page] .
  obtain w' where w': "log no_faults True [(7, replicate USABLE_PAGE_SIZE 0)] (wal_new 4096) = (w', Inr ())"
    using log_no_faults [OF inv one_page_ok] by blast
  then have "wal_reachable 4096 (w', [] @ [[(7, replicate USABLE_PAGE_SIZE 0)]])"
    using one_page_ok by (intro wal_reachable.step [OF reachable_one_page] logged) (simp_all add: wal_new_def)
  then have "wal_open True (wal_file w' @ replicate 8192 0) = corrupt" by (rule wal_zero_tail_is_an_error) simp_all
  then show ?thesis using w' by simp
qed

end
