(* ===== verification/Datetime.thy ===== *)
theory Datetime
  imports Document
begin

text \<open>
  Dates and times (\<open>src/src/datetime.rs\<close>): the civil date of a day and back, the text of a
  \<open>DateTime\<close> and reading it, conversion from a \<open>SystemTime\<close>, and going back in time. The text
  is ASCII, kept as bytes; the parser looks for ASCII characters only, which in UTF-8 are
  bytes of their own. \<open>i64\<close> and \<open>i128\<close> arithmetic is on \<open>int\<close>: the days and years an \<open>i64\<close> of
  seconds reaches, and those a year of twelve digits has, are far from the bounds.

  The lemmas: a day's civil date is one its month has and gives the day back; every
  \<open>DateTime\<close> is read back from its text.
\<close>

subsection \<open>Civil dates\<close>

definition days_from_civil :: "int \<Rightarrow> int \<Rightarrow> int \<Rightarrow> int" where
  "days_from_civil year month day =
     (let year = (if month \<le> 2 then year - 1 else year);
          era = year div 400;
          year_of_era = year mod 400;
          month_from_march = (month + 9) mod 12;
          day_of_year = (153 * month_from_march + 2) div 5 + day - 1;
          day_of_era = year_of_era * 365 + year_of_era div 4 - year_of_era div 100 + day_of_year
      in era * 146097 + day_of_era - 719468)"

definition year_of_era :: "int \<Rightarrow> int" where
  "year_of_era day_of_era =
     (day_of_era - day_of_era div 1460 + day_of_era div 36524 - day_of_era div 146096) div 365"

definition civil_from_days :: "int \<Rightarrow> int \<times> int \<times> int" where
  "civil_from_days days =
     (let days = days + 719468;
          era = days div 146097;
          day_of_era = days mod 146097;
          yoe = year_of_era day_of_era;
          day_of_year = day_of_era - (365 * yoe + yoe div 4 - yoe div 100);
          month_from_march = (5 * day_of_year + 2) div 153;
          day = day_of_year - (153 * month_from_march + 2) div 5 + 1;
          month = (if month_from_march < 10 then month_from_march + 3 else month_from_march - 9);
          year = yoe + era * 400 + (if month \<le> 2 then 1 else 0)
      in (year, month, day))"

subsection \<open>Writing\<close>

definition digit :: "nat \<Rightarrow> byte" where "digit d = of_nat (48 + d)"

fun dec :: "nat \<Rightarrow> bytes" where
  "dec n = (if n < 10 then [digit n] else dec (n div 10) @ [digit (n mod 10)])"

declare dec.simps [simp del]

definition zero_pad :: "nat \<Rightarrow> bytes \<Rightarrow> bytes" where
  "zero_pad w bs = replicate (w - length bs) 48 @ bs"

definition fmt_year :: "int \<Rightarrow> bytes" where
  "fmt_year year =
     (if 0 \<le> year \<and> year \<le> 9999 then zero_pad 4 (dec (nat year))
      else (if year < 0 then 45 else 43) # zero_pad 4 (dec (nat \<bar>year\<bar>)))"

definition two :: "int \<Rightarrow> bytes" where "two n = zero_pad 2 (dec (nat n))"

definition trim_zeros :: "bytes \<Rightarrow> bytes" where
  "trim_zeros bs = rev (dropWhile (\<lambda>b. b = 48) (rev bs))"

definition datetime_display :: "datetime \<Rightarrow> bytes" where
  "datetime_display t =
     (let days = sint (secs t) div 86400; second_of_day = sint (secs t) mod 86400;
          (year, month, day) = civil_from_days days;
          hour = second_of_day div 3600; minute = second_of_day div 60 mod 60; second = second_of_day mod 60
      in fmt_year year @ [45] @ two month @ [45] @ two day @ [84] @ two hour @ [58] @ two minute @ [58] @ two second
         @ (if nanos t \<noteq> 0 then [46] @ trim_zeros (zero_pad 9 (dec (unat (nanos t)))) else [])
         @ [90])"

subsection \<open>Reading\<close>

definition is_digit :: "byte \<Rightarrow> bool" where "is_digit b \<longleftrightarrow> 48 \<le> b \<and> b \<le> 57"

definition digits_val :: "bytes \<Rightarrow> nat" where
  "digits_val bs = foldl (\<lambda>n b. n * 10 + (unat b - 48)) 0 bs"

text \<open>\<open>str::parse\<close> for an unsigned number below \<open>bound\<close>: a leading plus is allowed.\<close>

definition parse_unsigned :: "nat \<Rightarrow> bytes \<Rightarrow> nat option" where
  "parse_unsigned bound s =
     (let ds = (case s of b # bs \<Rightarrow> if b = 43 then bs else s | [] \<Rightarrow> []) in
      if ds \<noteq> [] \<and> list_all is_digit ds \<and> digits_val ds < bound then Some (digits_val ds) else None)"

definition split_find :: "byte set \<Rightarrow> bytes \<Rightarrow> (bytes \<times> bytes) option" where
  "split_find cs s =
     (if list_ex (\<lambda>b. b \<in> cs) s then Some (takeWhile (\<lambda>b. b \<notin> cs) s, dropWhile (\<lambda>b. b \<notin> cs) s) else None)"

fun split_on :: "byte \<Rightarrow> bytes \<Rightarrow> bytes list" where
  "split_on c [] = [[]]"
| "split_on c (b # bs) = (if b = c then [] # split_on c bs else (b # hd (split_on c bs)) # tl (split_on c bs))"

fun two_digit_fields_loop :: "nat \<Rightarrow> bytes list \<Rightarrow> int list option" where
  "two_digit_fields_loop 0 parts = (if parts = [] then Some [] else None)"
| "two_digit_fields_loop (Suc n) [] = None"
| "two_digit_fields_loop (Suc n) (part # parts) =
     (if length part \<noteq> 2 \<or> \<not> list_all is_digit part then None
      else map_option ((#) (int (digits_val part))) (two_digit_fields_loop n parts))"

definition two_digit_fields :: "nat \<Rightarrow> bytes \<Rightarrow> byte \<Rightarrow> int list option" where
  "two_digit_fields n s sep = two_digit_fields_loop n (split_on sep s)"

definition days_in_month :: "int \<Rightarrow> int \<Rightarrow> int option" where
  "days_in_month year month =
     (if month \<in> {1, 3, 5, 7, 8, 10, 12} then Some 31
      else if month \<in> {4, 6, 9, 11} then Some 30
      else if month = 2 then Some (if year mod 4 = 0 \<and> (year mod 100 \<noteq> 0 \<or> year mod 400 = 0) then 29 else 28)
      else None)"

definition parse_date :: "bytes \<Rightarrow> (int \<times> int \<times> int) option" where
  "parse_date date =
     (case date of
        [] \<Rightarrow> None
      | b # bs \<Rightarrow>
          let (sign, unsigned) = (if b = 43 then (1, bs) else if b = 45 then (-1, bs) else (0 :: int, date)) in
          (case split_on 45 unsigned of
             [year, month, day] \<Rightarrow>
               if year = [] \<or> \<not> list_all is_digit year \<or> length month \<noteq> 2 \<or> length day \<noteq> 2 then None
               else if length year < 4 \<or> sign = 0 \<and> length year \<noteq> 4 \<or> length year > 12 then None
               else let year = (if sign < 0 then - int (digits_val year) else int (digits_val year)) in
                 (case (parse_unsigned (2 ^ 32) month, parse_unsigned (2 ^ 32) day) of
                    (Some month, Some day) \<Rightarrow>
                      (case days_in_month year (int month) of
                         None \<Rightarrow> None
                       | Some d \<Rightarrow> if 1 \<le> day \<and> int day \<le> d then Some (year, int month, int day) else None)
                  | _ \<Rightarrow> None)
           | _ \<Rightarrow> None))"

definition parse_offset :: "bytes \<Rightarrow> int option" where
  "parse_offset offset =
     (if offset = [90] \<or> offset = [122] then Some 0
      else let sign = (if take 1 offset = [45] then -1 else 1) in
        (case two_digit_fields 2 (drop 1 offset) 58 of
           Some [h, m] \<Rightarrow> if h > 23 \<or> m > 59 then None else Some (sign * (h * 3600 + m * 60))
         | _ \<Rightarrow> None))"

definition parse_fraction :: "bytes option \<Rightarrow> nat option" where
  "parse_fraction fraction =
     (case fraction of
        None \<Rightarrow> Some 0
      | Some f \<Rightarrow>
          if 1 \<le> length f \<and> length f \<le> 9 \<and> list_all is_digit f
          then parse_unsigned (2 ^ 32) (f @ replicate (9 - length f) 48) else None)"

definition split_once :: "byte \<Rightarrow> bytes \<Rightarrow> bytes \<times> bytes option" where
  "split_once c s =
     (case split_find {c} s of None \<Rightarrow> (s, None) | Some (before, after) \<Rightarrow> (before, Some (drop 1 after)))"

definition parse_rfc3339 :: "bytes \<Rightarrow> datetime option" where
  "parse_rfc3339 s =
     (case split_find {84, 116, 32} s of
        None \<Rightarrow> None
      | Some (date, rest) \<Rightarrow>
          (case parse_date date of
             None \<Rightarrow> None
           | Some (year, month, day) \<Rightarrow>
               (case split_find {90, 122, 43, 45} (drop 1 rest) of
                  None \<Rightarrow> None
                | Some (clock, offset) \<Rightarrow>
                    let (hms, fraction) = split_once 46 clock in
                    (case two_digit_fields 3 hms 58 of
                       Some [hour, minute, second] \<Rightarrow>
                         if hour > 23 \<or> minute > 59 \<or> second > 59 then None
                         else (case parse_fraction fraction of
                             None \<Rightarrow> None
                           | Some ns \<Rightarrow>
                               (case parse_offset offset of
                                  None \<Rightarrow> None
                                | Some offset_secs \<Rightarrow>
                                    let total_secs = days_from_civil year month day * 86400
                                          + (hour * 3600 + minute * 60 + second) - offset_secs in
                                    if - (2 ^ 63) \<le> total_secs \<and> total_secs < 2 ^ 63
                                    then from_unix (of_int total_secs) (of_nat ns) else None))
                     | _ \<Rightarrow> None))))"

subsection \<open>Other times\<close>

definition EARLIEST :: datetime where
  "EARLIEST = \<lparr>secs = of_int (- (2 ^ 63)), nanos = 0\<rparr>"

text \<open>\<open>back\<close>, for a \<open>Duration\<close> of so many nanoseconds.\<close>

definition datetime_back :: "datetime \<Rightarrow> nat \<Rightarrow> datetime" where
  "datetime_back t duration =
     (let ns = sint (secs t) * int (unat NANOS_PER_SECOND) + int (unat (nanos t)) - int duration;
          s = ns div int (unat NANOS_PER_SECOND)
      in if - (2 ^ 63) \<le> s \<and> s < 2 ^ 63
         then \<lparr>secs = of_int s, nanos = of_int (ns mod int (unat NANOS_PER_SECOND))\<rparr> else EARLIEST)"

text \<open>\<open>From<SystemTime>\<close>, for the time so many nanoseconds after (or before) 1970.\<close>

definition from_system_time :: "int \<Rightarrow> datetime res" where
  "from_system_time time =
     (let per = int (unat NANOS_PER_SECOND) in
      if 0 \<le> time then
        (if time div per < 2 ^ 63 then Inr \<lparr>secs = of_int (time div per), nanos = of_int (time mod per)\<rparr>
         else Inl Panic)
      else let s = (- time) div per; ns = (- time) mod per in
        if \<not> s < 2 ^ 63 then Inl Panic
        else if ns = 0 then Inr \<lparr>secs = of_int (- s), nanos = 0\<rparr>
        else Inr \<lparr>secs = of_int (- s - 1), nanos = of_int (per - ns)\<rparr>)"

subsection \<open>A day's date gives the day back\<close>

text \<open>The first day of a year of the era, counted in days of the era; years begin in March.\<close>

definition year_start :: "int \<Rightarrow> int" where
  "year_start y = 365 * y + y div 4 - y div 100 + y div 400"

definition shifted :: "int \<Rightarrow> int" where
  "shifted d = d - d div 1460 + d div 36524 - d div 146096"

lemma shift_step: "a' \<le> a + 1 \<Longrightarrow> b \<le> b' \<Longrightarrow> e' = 0 \<Longrightarrow> e = 0 \<Longrightarrow> d - a + b - e \<le> d + 1 - a' + b' - e'" for d :: int
  by simp

lemma shifted_Suc: "0 \<le> d \<Longrightarrow> d < 146096 \<Longrightarrow> shifted d \<le> shifted (d + 1)"
proof -
  assume d: "0 \<le> d" "d < 146096"
  have "(d + 1) div 1460 \<le> (d + 1460) div 1460" by (rule zdiv_mono1) simp_all
  then have a: "(d + 1) div 1460 \<le> d div 1460 + 1" by simp
  have b: "d div 36524 \<le> (d + 1) div 36524" by (simp add: zdiv_mono1)
  show ?thesis
  proof (cases "d = 146095")
    case True then show ?thesis by (simp add: shifted_def)
  next
    case False
    then have "(d + 1) div 146096 = 0" "d div 146096 = 0" using d by (auto intro!: div_pos_pos_trivial)
    then show ?thesis using a b unfolding shifted_def by (intro shift_step)
  qed
qed

lemma shifted_mono: "0 \<le> d \<Longrightarrow> d \<le> e \<Longrightarrow> e \<le> 146096 \<Longrightarrow> shifted d \<le> shifted e"
proof -
  assume d: "0 \<le> d" "d \<le> e" "e \<le> 146096"
  have "shifted d \<le> shifted (d + int n)" if "d + int n \<le> 146096" for n
    using that
  proof (induction n)
    case (Suc n)
    then show ?case using shifted_Suc [of "d + int n"] d(1) by (simp add: ac_simps)
  qed simp
  from this [of "nat (e - d)"] show ?thesis using d by simp
qed

lemma year_of_era_mono: "0 \<le> d \<Longrightarrow> d \<le> e \<Longrightarrow> e \<le> 146096 \<Longrightarrow> year_of_era d \<le> year_of_era e"
  unfolding year_of_era_def using shifted_mono [of d e] by (intro zdiv_mono1) (simp_all add: shifted_def)

lemma year_ends:
  assumes "0 \<le> y" "y < 400"
  shows "year_of_era (year_start y) = y" "year_of_era (year_start (y + 1) - 1) = y"
proof -
  have "list_all (\<lambda>y. year_of_era (year_start y) = y \<and> year_of_era (year_start (y + 1) - 1) = y) [0..399]"
    unfolding year_of_era_def year_start_def by code_simp
  moreover have "y \<in> set [0..399]" using assms by simp
  ultimately show "year_of_era (year_start y) = y" "year_of_era (year_start (y + 1) - 1) = y"
    by (simp_all only: list_all_iff)
qed

lemma year_start_mono: "x \<le> y \<Longrightarrow> 0 \<le> x \<Longrightarrow> year_start x \<le> year_start y"
proof -
  assume xy: "x \<le> y" "0 \<le> x"
  have "x div 100 + 4 * 0 \<le> x" "y div 4 \<ge> x div 4" "y div 400 \<ge> x div 400"
    using xy by (simp_all add: zdiv_mono1)
  moreover have "y div 100 - x div 100 \<le> y - x"
  proof -
    have "y div 100 \<le> (x + 100 * (y - x)) div 100" using xy by (intro zdiv_mono1) simp_all
    then show ?thesis by simp
  qed
  ultimately show ?thesis using xy by (simp add: year_start_def)
qed

lemma year_containing:
  assumes "0 \<le> d" "d \<le> 146096"
  shows "\<exists>y. 0 \<le> y \<and> y < 400 \<and> year_start y \<le> d \<and> d < year_start (y + 1)"
proof -
  have "\<exists>y. 0 \<le> y \<and> y < int n \<and> year_start y \<le> d \<and> d < year_start (y + 1)" if "d < year_start (int n)" for n
    using that
  proof (induction n)
    case 0 then show ?case using assms by (simp add: year_start_def)
  next
    case (Suc n)
    show ?case
    proof (cases "d < year_start (int n)")
      case True then show ?thesis using Suc.IH by force
    next
      case False
      then show ?thesis using Suc.prems by (intro exI [of _ "int n"]) (simp add: add.commute)
    qed
  qed
  from this [of 400] show ?thesis using assms by (simp add: year_start_def)
qed

definition leap :: "int \<Rightarrow> bool" where
  "leap y \<longleftrightarrow> y mod 4 = 0 \<and> (y mod 100 \<noteq> 0 \<or> y mod 400 = 0)"

lemma div_Suc_int:
  fixes y k :: int
  assumes "0 < k"
  shows "(y + 1) div k = y div k + (if (y + 1) mod k = 0 then 1 else 0)"
proof (cases "y mod k = k - 1")
  case True
  have "y + 1 = k * (y div k) + (y mod k + 1)" by simp
  also have "\<dots> = k * (y div k + 1)" using True by (simp add: distrib_left)
  finally show ?thesis using assms by simp
next
  case False
  have m: "0 \<le> y mod k" "y mod k < k" using assms by simp_all
  have y: "y + 1 = k * (y div k) + (y mod k + 1)" by simp
  have "(y + 1) div k = y div k" using m False y by (intro int_div_pos_eq [where r = "y mod k + 1"]) auto
  moreover have "(y + 1) mod k = y mod k + 1" using m False y by (intro int_mod_pos_eq [where q = "y div k"]) auto
  ultimately show ?thesis using m by simp
qed

lemma year_length: "year_start (y + 1) - year_start y = (if leap (y + 1) then 366 else 365)"
proof -
  have a: "(y + 1) mod 100 = 0 \<Longrightarrow> (y + 1) mod 4 = 0"
  proof -
    assume "(y + 1) mod 100 = 0"
    then have "4 dvd (100 :: int) \<and> 100 dvd y + 1" by auto
    then show ?thesis using dvd_trans by (metis mod_0_imp_dvd dvd_imp_mod_0)
  qed
  have b: "(y + 1) mod 400 = 0 \<Longrightarrow> (y + 1) mod 100 = 0"
  proof -
    assume "(y + 1) mod 400 = 0"
    then have "100 dvd (400 :: int) \<and> 400 dvd y + 1" by auto
    then show ?thesis using dvd_trans by (metis mod_0_imp_dvd dvd_imp_mod_0)
  qed
  have eq: "year_start (y + 1) - year_start y = 365 + (if (y + 1) mod 4 = 0 then 1 else 0)
      - (if (y + 1) mod 100 = 0 then 1 else 0) + (if (y + 1) mod 400 = 0 then 1 else 0)"
    unfolding year_start_def by (subst (1 2 3) div_Suc_int) simp_all
  show ?thesis unfolding eq leap_def using a b by (simp only: split: if_split) auto
qed

lemma year_of_era_bounds:
  assumes "0 \<le> d" "d < 146097"
  defines "y \<equiv> year_of_era d"
  shows "0 \<le> y" "y < 400" "0 \<le> d - year_start y" "d - year_start y < (if leap (y + 1) then 366 else 365)"
    "year_start y = 365 * y + y div 4 - y div 100"
proof -
  obtain z where z: "0 \<le> z" "z < 400" "year_start z \<le> d" "d < year_start (z + 1)"
    using year_containing [of d] assms by auto
  have "0 \<le> year_start z" using year_start_mono [of 0 z] z(1) by (simp add: year_start_def)
  moreover have "year_start (z + 1) \<le> 146097" using year_start_mono [of "z + 1" 400] z by (simp add: year_start_def)
  ultimately have "z \<le> year_of_era d" "year_of_era d \<le> z"
    using year_of_era_mono [of "year_start z" d] year_of_era_mono [of d "year_start (z + 1) - 1"]
      year_ends [OF z(1,2)] z(3,4) assms by simp_all
  then have "y = z" by (simp add: y_def)
  then show "0 \<le> y" "y < 400" "0 \<le> d - year_start y" "d - year_start y < (if leap (y + 1) then 366 else 365)"
    "year_start y = 365 * y + y div 4 - y div 100"
    using z year_length [of z] by (simp_all add: year_start_def split: if_splits)
qed

text \<open>The month and the day of a year that begins in March.\<close>

lemma month_day_table:
  fixes doy :: int
  assumes "0 \<le> doy" "doy \<le> 365"
  defines "m \<equiv> (5 * doy + 2) div 153"
  defines "d \<equiv> doy - (153 * m + 2) div 5 + 1"
  shows "0 \<le> m" "m \<le> 11" "1 \<le> d"
    "d \<le> (if m \<in> {1, 3, 6, 8} then 30 else if m = 11 then (if doy = 365 then 29 else 28) else 31)"
proof -
  have "list_all (\<lambda>doy. let m = (5 * doy + 2) div 153; d = doy - (153 * m + 2) div 5 + 1 in
      0 \<le> m \<and> m \<le> 11 \<and> 1 \<le> d
      \<and> d \<le> (if m \<in> {1, 3, 6, 8} then 30 else if m = 11 then (if doy = 365 then 29 else 28) else 31)) [0..365 :: int]"
    by code_simp
  moreover have "doy \<in> set [0..365]" using assms by simp
  ultimately have "let m = (5 * doy + 2) div 153; d = doy - (153 * m + 2) div 5 + 1 in
      0 \<le> m \<and> m \<le> 11 \<and> 1 \<le> d
      \<and> d \<le> (if m \<in> {1, 3, 6, 8} then 30 else if m = 11 then (if doy = 365 then 29 else 28) else 31)"
    unfolding list_all_iff by blast
  then show "0 \<le> m" "m \<le> 11" "1 \<le> d"
    "d \<le> (if m \<in> {1, 3, 6, 8} then 30 else if m = 11 then (if doy = 365 then 29 else 28) else 31)"
    unfolding Let_def m_def d_def by blast+
qed

lemma leap_add_era: "leap (y + e * 400) \<longleftrightarrow> leap y"
proof -
  have "(y + e * 400) mod 4 = y mod 4" "(y + e * 400) mod 100 = y mod 100" "(y + e * 400) mod 400 = y mod 400"
    using mod_mult_self1 [of y "e * 100" 4] mod_mult_self1 [of y "e * 4" 100] by (simp_all add: mult.assoc)
  then show ?thesis by (simp add: leap_def)
qed

lemma civil_from_days_ok:
  assumes "civil_from_days days = (y, m, d)"
  shows "1 \<le> m" "m \<le> 12" "1 \<le> d" "\<exists>l. days_in_month y m = Some l \<and> d \<le> l \<and> l \<le> 31"
    "days_from_civil y m d = days"
proof -
  define D where "D = days + 719468"
  define era doe where "era = D div 146097" and "doe = D mod 146097"
  define yoe where "yoe = year_of_era doe"
  define doy where "doy = doe - (365 * yoe + yoe div 4 - yoe div 100)"
  define mm where "mm = (5 * doy + 2) div 153"
  have doe: "0 \<le> doe" "doe < 146097" "D = era * 146097 + doe" by (simp_all add: doe_def era_def)
  note yb = year_of_era_bounds [OF doe(1,2), folded yoe_def]
  have doy: "0 \<le> doy" "doy < (if leap (yoe + 1) then 366 else 365)"
    using yb(3,4) unfolding doy_def yb(5) by simp_all
  then have "doy \<le> 365" by (simp split: if_splits)
  note t = month_day_table [OF doy(1) this, folded mm_def]
  have v: "m = (if mm < 10 then mm + 3 else mm - 9)" "d = doy - (153 * mm + 2) div 5 + 1"
    "y = yoe + era * 400 + (if m \<le> 2 then 1 else 0)"
    using assms unfolding civil_from_days_def Let_def D_def [symmetric] doe_def [symmetric] era_def [symmetric]
      yoe_def [symmetric] doy_def [symmetric] mm_def [symmetric] by auto
  show m: "1 \<le> m" "m \<le> 12" using t(1,2) v(1) by auto
  show "1 \<le> d" using t(3) v(2) by simp
  have mb: "(m + 9) mod 12 = mm" "(m \<le> 2) = (10 \<le> mm)" using t(1,2) v(1) by auto
  have "(if m \<le> 2 then y - 1 else y) = yoe + era * 400" using v(3) by simp
  then have "(if m \<le> 2 then y - 1 else y) div 400 = era" "(if m \<le> 2 then y - 1 else y) mod 400 = yoe"
    using yb(1,2) by simp_all
  then have "days_from_civil y m d = era * 146097 + (yoe * 365 + yoe div 4 - yoe div 100 + doy) - 719468"
    unfolding days_from_civil_def Let_def mb(1) by (simp add: v(2))
  also have "\<dots> = days" using doe(3) by (simp add: doy_def D_def mult.commute)
  finally show "days_from_civil y m d = days" .
  have "leap y" if "doy = 365" "mm = 11"
    using that doy(2) v(1,3) leap_add_era [of "yoe + 1" era] by (simp add: ac_simps split: if_splits)
  moreover have "leap y \<longleftrightarrow> y mod 4 = 0 \<and> (y mod 100 \<noteq> 0 \<or> y mod 400 = 0)" by (simp add: leap_def)
  moreover have "mm = 0 \<or> mm = 1 \<or> mm = 2 \<or> mm = 3 \<or> mm = 4 \<or> mm = 5 \<or> mm = 6 \<or> mm = 7 \<or> mm = 8
    \<or> mm = 9 \<or> mm = 10 \<or> mm = 11" using t(1,2) by presburger
  ultimately show "\<exists>l. days_in_month y m = Some l \<and> d \<le> l \<and> l \<le> 31"
    using t(4) v(1,2) by (elim disjE) (auto simp: days_in_month_def split: if_splits)
qed

subsection \<open>Numbers as text\<close>

lemma unat_digit: "d < 10 \<Longrightarrow> unat (digit d) = 48 + d"
  by (simp add: digit_def unat_of_nat flip: of_nat_add)

lemma is_digit_digit: "d < 10 \<Longrightarrow> is_digit (digit d)"
  by (simp add: is_digit_def word_le_nat_alt unat_digit)

lemma digits_val_snoc [simp]: "digits_val (bs @ [b]) = digits_val bs * 10 + (unat b - 48)"
  by (simp add: digits_val_def)

lemma dec_props:
  "dec n \<noteq> [] \<and> list_all is_digit (dec n) \<and> digits_val (dec n) = n"
proof (induction n rule: dec.induct)
  case (1 n)
  show ?case
  proof (cases "n < 10")
    case True
    then show ?thesis by (subst (1 2 3) dec.simps) (simp add: is_digit_digit digits_val_def unat_digit)
  next
    case False
    then show ?thesis using 1 by (subst (1 2 3) dec.simps) (simp add: is_digit_digit unat_digit)
  qed
qed

lemma length_dec: "n < 10 ^ Suc k \<Longrightarrow> length (dec n) \<le> Suc k"
proof (induction k arbitrary: n)
  case 0 then show ?case by (subst dec.simps) simp
next
  case (Suc k)
  then show ?case using Suc.IH [of "n div 10"] by (subst dec.simps) (simp add: less_mult_imp_div_less)
qed

lemma length_dec_ge: "10 ^ k \<le> n \<Longrightarrow> Suc k \<le> length (dec n)"
proof (induction k arbitrary: n)
  case 0 then show ?case using dec_props [of n] by (cases "dec n") auto
next
  case (Suc k)
  have "10 ^ k \<le> n div 10" using div_le_mono [OF Suc.prems, of 10] by simp
  moreover have "\<not> n < 10" using Suc.prems self_le_ge2_pow [of 10 "Suc k"] by (simp add: not_less) (metis le_trans mult_le_mono2 nat_mult_1_right one_le_numeral one_le_power)
  ultimately show ?case using Suc.IH [of "n div 10"] by (subst dec.simps) simp
qed

lemma digits_val_zeros: "digits_val (replicate k 48 @ bs) = digits_val bs"
proof -
  have "foldl (\<lambda>n b. n * 10 + (unat b - 48)) 0 (replicate k (48 :: byte)) = 0" by (induction k) simp_all
  then show ?thesis by (simp add: digits_val_def)
qed

lemma zero_pad_props:
  "list_all is_digit (zero_pad w (dec n))" "digits_val (zero_pad w (dec n)) = n"
  "length (zero_pad w (dec n)) = max w (length (dec n))" "zero_pad w (dec n) \<noteq> []"
  using dec_props [of n] by (auto simp: zero_pad_def digits_val_zeros is_digit_def list_all_iff max_def)

lemma two_props:
  assumes "0 \<le> n" "n < 100"
  shows "length (two n) = 2" "list_all is_digit (two n)" "digits_val (two n) = nat n"
proof -
  have "nat n < 10 ^ Suc 1" using assms by simp
  from length_dec [OF this] show "length (two n) = 2" "list_all is_digit (two n)" "digits_val (two n) = nat n"
    using zero_pad_props [where w = 2 and n = "nat n"] by (simp_all add: two_def)
qed

lemma digit_not:
  assumes "list_all is_digit bs"
  shows "43 \<notin> set bs" "45 \<notin> set bs" "46 \<notin> set bs" "58 \<notin> set bs" "84 \<notin> set bs" "90 \<notin> set bs"
    "32 \<notin> set bs" "116 \<notin> set bs" "122 \<notin> set bs"
  using assms by (auto simp: list_all_iff is_digit_def)

lemma parse_unsigned_digits:
  assumes "list_all is_digit bs" "bs \<noteq> []" "digits_val bs < bound"
  shows "parse_unsigned bound bs = Some (digits_val bs)"
  using assms digit_not(1) [OF assms(1)] by (cases bs) (auto simp: parse_unsigned_def Let_def)

lemma split_on_none: "c \<notin> set a \<Longrightarrow> split_on c a = [a]"
  by (induction a) auto

lemma split_on_append: "c \<notin> set a \<Longrightarrow> split_on c (a @ c # b) = a # split_on c b"
  by (induction a) auto

lemma split_find_append: "set a \<inter> cs = {} \<Longrightarrow> b \<in> cs \<Longrightarrow> split_find cs (a @ b # r) = Some (a, b # r)"
  by (induction a) (auto simp: split_find_def)

lemma split_find_none: "set a \<inter> cs = {} \<Longrightarrow> split_find cs a = None"
  by (auto simp: split_find_def list_ex_iff)

lemma trim_zeros_append: "\<exists>k. bs = trim_zeros bs @ replicate k 48"
proof -
  have "rev bs = takeWhile (\<lambda>b. b = 48) (rev bs) @ dropWhile (\<lambda>b. b = 48) (rev bs)" by simp
  moreover have "takeWhile (\<lambda>b. b = 48) (rev bs) = replicate (length (takeWhile (\<lambda>b. b = 48) (rev bs))) 48"
    by (rule replicate_eqI) (auto dest: set_takeWhileD)
  ultimately have "bs = rev (replicate (length (takeWhile (\<lambda>b. b = 48) (rev bs))) 48 @ dropWhile (\<lambda>b. b = 48) (rev bs))"
    by (metis rev_rev_ident)
  then show ?thesis by (auto simp: trim_zeros_def)
qed

lemma parse_fraction_trimmed:
  assumes "0 < n" "n < 10 ^ 9"
  defines "f \<equiv> trim_zeros (zero_pad 9 (dec n))"
  shows "parse_fraction (Some f) = Some n" "list_all is_digit f"
proof -
  let ?z = "zero_pad 9 (dec n)"
  have len: "length ?z = 9" using zero_pad_props(3) [of 9 n] length_dec [of n 8] assms(2) by simp
  obtain k where k: "?z = f @ replicate k 48" using trim_zeros_append f_def by blast
  then have k9: "k = 9 - length f" "length f \<le> 9" using len by (metis add_diff_cancel_left' length_append length_replicate, metis k len le_add1 length_append)
  have "f \<noteq> []"
  proof
    assume "f = []"
    then have "digits_val ?z = 0" using k digits_val_zeros [of k "[]"] by (simp add: digits_val_def)
    then show False using zero_pad_props(2) [of 9 n] assms(1) by simp
  qed
  show d: "list_all is_digit f" using zero_pad_props(1) [of 9 n] unfolding k by simp
  have "parse_unsigned (2 ^ 32) ?z = Some n"
    using parse_unsigned_digits [OF zero_pad_props(1,4), of 9 n "2 ^ 32"] zero_pad_props(2) [of 9 n] assms(2) by simp
  then show "parse_fraction (Some f) = Some n"
    using d k9 k \<open>f \<noteq> []\<close> by (simp add: parse_fraction_def Suc_le_eq)
qed

subsection \<open>Reading back what was written\<close>

lemma fmt_year_parts:
  assumes "\<bar>y\<bar> < 10 ^ 12"
  obtains b bs ds where "fmt_year y = b # bs" "list_all is_digit ds" "4 \<le> length ds" "length ds \<le> 12"
    "digits_val ds = nat \<bar>y\<bar>"
    "b = 43 \<and> bs = ds \<and> 0 \<le> y \<or> b = 45 \<and> bs = ds \<and> y < 0 \<or> is_digit b \<and> b # bs = ds \<and> length ds = 4 \<and> 0 \<le> y"
proof -
  let ?ds = "zero_pad 4 (dec (nat \<bar>y\<bar>))"
  have "nat \<bar>y\<bar> < 10 ^ Suc 11" using assms by simp
  from length_dec [OF this] have len: "4 \<le> length ?ds" "length ?ds \<le> 12"
    using zero_pad_props(3) [of 4 "nat \<bar>y\<bar>"] by simp_all
  show ?thesis
  proof (cases "0 \<le> y \<and> y \<le> 9999")
    case True
    have "nat \<bar>y\<bar> < 10 ^ Suc 3" using True by (simp add: nat_less_iff)
    from length_dec [OF this] have "length ?ds = 4" using zero_pad_props(3) [of 4 "nat \<bar>y\<bar>"] by simp
    then obtain b bs where "?ds = b # bs" by (cases ?ds) auto
    then show ?thesis
      using that [of b bs ?ds] True zero_pad_props [of 4 "nat \<bar>y\<bar>"] \<open>length ?ds = 4\<close> by (auto simp: fmt_year_def)
  next
    case False
    then show ?thesis
      using that [of "if y < 0 then 45 else 43" ?ds ?ds] len zero_pad_props(1,2) [of 4 "nat \<bar>y\<bar>"]
      by (auto simp: fmt_year_def)
  qed
qed

lemma parse_date_written:
  assumes "\<bar>y\<bar> < 10 ^ 12" "1 \<le> m" "m \<le> 12" "1 \<le> d" "days_in_month y m = Some l" "d \<le> l" "l \<le> 31"
  shows "parse_date (fmt_year y @ [45] @ two m @ [45] @ two d) = Some (y, m, d)"
    "set (fmt_year y @ [45] @ two m @ [45] @ two d) \<inter> {84, 116, 32} = {}"
proof -
  have md: "0 \<le> m" "m < 100" "0 \<le> d" "d < 100" using assms by simp_all
  note tm = two_props [OF md(1,2)] and td = two_props [OF md(3,4)]
  obtain b bs ds where f: "fmt_year y = b # bs" "list_all is_digit ds" "4 \<le> length ds" "length ds \<le> 12"
    "digits_val ds = nat \<bar>y\<bar>"
    "b = 43 \<and> bs = ds \<and> 0 \<le> y \<or> b = 45 \<and> bs = ds \<and> y < 0 \<or> is_digit b \<and> b # bs = ds \<and> length ds = 4 \<and> 0 \<le> y"
    using fmt_year_parts [OF assms(1)] by blast
  have sp: "split_on 45 (ds @ 45 # two m @ 45 # two d) = [ds, two m, two d]"
    using digit_not(2) [OF f(2)] digit_not(2) [OF tm(2)] digit_not(2) [OF td(2)]
    by (simp add: split_on_append split_on_none)
  have p: "parse_unsigned (2 ^ 32) (two m) = Some (nat m)" "parse_unsigned (2 ^ 32) (two d) = Some (nat d)"
    using parse_unsigned_digits [OF tm(2), of "2 ^ 32"] parse_unsigned_digits [OF td(2), of "2 ^ 32"] tm td md
    by (auto simp del: length_0_conv simp flip: length_0_conv)
  have dne: "ds \<noteq> []" using f(3) by auto
  have dig: "b \<noteq> 43 \<and> b \<noteq> 45" if "is_digit b" using that by (auto simp: is_digit_def)
  show "parse_date (fmt_year y @ [45] @ two m @ [45] @ two d) = Some (y, m, d)"
    using f(6)
  proof (elim disjE conjE)
    assume "b = 43" "bs = ds" "0 \<le> y"
    then show ?thesis using f sp p tm td md assms dne by (simp add: parse_date_def)
  next
    assume "b = 45" "bs = ds" "y < 0"
    then show ?thesis using f sp p tm td md assms dne by (simp add: parse_date_def)
  next
    assume b: "is_digit b" "b # bs = ds" "length ds = 4" "0 \<le> y"
    then have ds: "ds = b # bs" by simp
    show ?thesis using f(1-5) sp p tm td md assms dig [OF b(1)] b(3,4) unfolding ds
      by (simp add: parse_date_def del: split_on.simps)
  qed
  show "set (fmt_year y @ [45] @ two m @ [45] @ two d) \<inter> {84, 116, 32} = {}"
    using f(1,2,6) digit_not [OF tm(2)] digit_not [OF td(2)] digit_not [OF f(2)] by (auto simp: f(1))
qed

lemma year_bound:
  assumes "civil_from_days days = (y, m, d)" "\<bar>days\<bar> \<le> 2 ^ 47"
  shows "\<bar>y\<bar> < 10 ^ 12"
proof -
  define era yoe where "era = (days + 719468) div 146097" and "yoe = year_of_era ((days + 719468) mod 146097)"
  have yoe: "0 \<le> yoe" "yoe < 400"
    using year_of_era_bounds(1,2) [of "(days + 719468) mod 146097"] by (simp_all add: yoe_def)
  have "y = yoe + era * 400 + (if m \<le> 2 then 1 else 0)"
    using assms(1) unfolding civil_from_days_def Let_def yoe_def [symmetric] era_def [symmetric] prod.inject
    by (elim conjE) (hypsubst, rule refl)
  moreover have "- (10 ^ 9) \<le> era"
  proof -
    have "(- (10 ^ 9) * 146097) div 146097 \<le> era" unfolding era_def using assms(2) by (intro zdiv_mono1) simp_all
    then show ?thesis by simp
  qed
  moreover have "era \<le> 10 ^ 9"
  proof -
    have "era \<le> (10 ^ 9 * 146097) div 146097" unfolding era_def using assms(2) by (intro zdiv_mono1) simp_all
    then show ?thesis by simp
  qed
  ultimately show ?thesis using yoe by (simp split: if_splits)
qed

text \<open>
  C22. Every \<open>DateTime\<close> is read back from its text: \<open>parse_rfc3339\<close> undoes \<open>Display\<close>, for any
  \<open>i64\<close> of seconds, before 1970 and before the year 0 and beyond 9999 too, and any nanoseconds.
\<close>

theorem datetime_text_roundtrip:
  assumes "nanos t < NANOS_PER_SECOND"
  shows "parse_rfc3339 (datetime_display t) = Some t"
proof -
  define days sod where "days = sint (secs t) div 86400" and "sod = sint (secs t) mod 86400"
  obtain y m d where ymd: "civil_from_days days = (y, m, d)" by (cases "civil_from_days days")
  note civ = civil_from_days_ok [OF ymd]
  obtain l where l: "days_in_month y m = Some l" "d \<le> l" "l \<le> 31" using civ(4) by blast
  have rng: "- (2 ^ 63) \<le> sint (secs t)" "sint (secs t) < 2 ^ 63"
    using sint_greater_eq [of "secs t"] sint_less [of "secs t"] by simp_all
  have "(- (2 ^ 63)) div 86400 \<le> days" "days \<le> 2 ^ 63 div 86400"
    unfolding days_def using rng by (intro zdiv_mono1; simp)+
  then have "\<bar>days\<bar> \<le> 2 ^ 47" by simp
  note date = parse_date_written [OF year_bound [OF ymd this] civ(1,2,3) l]
  have sod: "0 \<le> sod" "sod < 86400" by (simp_all add: sod_def)
  define h mi s where "h = sod div 3600" and "mi = sod div 60 mod 60" and "s = sod mod 60"
  have hms: "0 \<le> h" "h \<le> 23" "0 \<le> mi" "mi \<le> 59" "0 \<le> s" "s \<le> 59" "h * 3600 + mi * 60 + s = sod"
  proof -
    have "0 div 3600 \<le> h" "h \<le> 86399 div 3600" unfolding h_def using sod by (intro zdiv_mono1; simp)+
    then show "0 \<le> h" "h \<le> 23" by simp_all
    show "0 \<le> mi" "mi \<le> 59" "0 \<le> s" "s \<le> 59"
      using pos_mod_bound [of 60 "sod div 60"] pos_mod_bound [of 60 sod] by (simp_all add: mi_def s_def)
    have "sod div 60 div 60 = h" by (simp add: h_def zdiv_zmult2_eq [symmetric])
    moreover have "sod = sod div 60 * 60 + s" "sod div 60 = sod div 60 div 60 * 60 + mi" by (simp_all add: s_def mi_def)
    ultimately show "h * 3600 + mi * 60 + s = sod" by linarith
  qed
  have th: "length (two x) = 2" "list_all is_digit (two x)" "digits_val (two x) = nat x" if "x \<in> {h, mi, s}" for x
    using that hms two_props [of x] by auto
  let ?hms = "two h @ 58 # two mi @ 58 # two s"
  let ?f = "trim_zeros (zero_pad 9 (dec (unat (nanos t))))"
  let ?frac = "if nanos t \<noteq> 0 then 46 # ?f else []"
  have n9: "unat (nanos t) < 10 ^ 9" using assms by (simp add: NANOS_PER_SECOND_def word_less_nat_alt)
  have np: "0 < unat (nanos t)" if "nanos t \<noteq> 0" using that by (simp add: unat_gt_0)
  have disp: "datetime_display t = (fmt_year y @ [45] @ two m @ [45] @ two d) @ 84 # (?hms @ ?frac) @ 90 # []"
    unfolding datetime_display_def Let_def days_def [symmetric] sod_def [symmetric] ymd prod.case
      h_def [symmetric] mi_def [symmetric] s_def [symmetric] by simp
  have hset: "set ?hms \<inter> {90, 122, 43, 45, 46} = {}"
    using digit_not [OF th(2)] by auto
  have fset: "set ?f \<inter> {90, 122, 43, 45} = {}" if "nanos t \<noteq> 0"
    using digit_not [OF parse_fraction_trimmed(2) [OF np [OF that] n9]] by auto
  have one: "split_find {84, 116, 32} (datetime_display t)
      = Some (fmt_year y @ [45] @ two m @ [45] @ two d, 84 # (?hms @ ?frac) @ [90])"
    unfolding disp using date(2) by (intro split_find_append) simp_all
  have clk: "split_find {90, 122, 43, 45} ((?hms @ ?frac) @ [90]) = Some (?hms @ ?frac, [90])"
    using hset fset by (intro split_find_append) auto
  have frac: "split_once 46 (?hms @ ?frac) = (?hms, if nanos t \<noteq> 0 then Some ?f else None)"
  proof (cases "nanos t = 0")
    case True
    then show ?thesis using split_find_none [of ?hms "{46}"] hset by (simp add: split_once_def)
  next
    case False
    then show ?thesis using split_find_append [of ?hms "{46}" 46 ?f] hset by (simp add: split_once_def)
  qed
  have fields: "two_digit_fields 3 ?hms 58 = Some [h, mi, s]"
  proof -
    have "split_on 58 ?hms = [two h, two mi, two s]"
      using digit_not(4) [OF th(2)] by (simp add: split_on_append split_on_none)
    then show ?thesis using th hms by (simp add: two_digit_fields_def numeral_3_eq_3)
  qed
  have fr: "parse_fraction (if nanos t \<noteq> 0 then Some ?f else None) = Some (unat (nanos t))"
    using parse_fraction_trimmed(1) [OF np n9] by (simp add: parse_fraction_def)
  have tot: "days_from_civil y m d * 86400 + (h * 3600 + mi * 60 + s) - 0 = sint (secs t)"
    unfolding civ(5) hms(7) by (simp add: days_def sod_def)
  have "from_unix (of_int (sint (secs t))) (of_nat (unat (nanos t))) = Some t"
    using assms by (simp add: from_unix_def)
  moreover have "parse_offset [90] = Some 0" by (simp add: parse_offset_def)
  ultimately show ?thesis
    unfolding parse_rfc3339_def one option.case prod.case date(1) drop_Suc_Cons drop_0 One_nat_def clk frac Let_def fields fr tot list.case
    using hms rng tot by (simp add: parse_offset_def)
qed

theorem datetime_text_roundtrip_witness:
  "parse_rfc3339 (datetime_display \<lparr>secs = -1, nanos = 500000000\<rparr>) = Some \<lparr>secs = -1, nanos = 500000000\<rparr>"
  by (rule datetime_text_roundtrip) (simp add: NANOS_PER_SECOND_def)

text \<open>
  \<open>parse_date\<close> checks that the year is digits and that the month and the day have two
  characters, and leaves the rest to \<open>str::parse\<close>, which takes a leading plus: \<open>2026-+5-+1\<close> is
  read as the first of May. RFC 3339 has no such date.
\<close>

theorem parse_date_takes_plus_signs:
  "parse_date (ascii ''2026-+5-+1'') = Some (2026, 5, 1)"
proof -
  have "ascii ''2026-+5-+1'' = [50, 48, 50, 54, 45, 43, 53, 45, 43, 49]" by (simp add: ascii_def)
  then show ?thesis
    by (simp add: parse_date_def is_digit_def digits_val_def parse_unsigned_def days_in_month_def)
qed

subsection \<open>Time arithmetic\<close>

definition total_nanos :: "datetime \<Rightarrow> int" where
  "total_nanos t = sint (secs t) * 10 ^ 9 + int (unat (nanos t))"

lemma nanos_per_second: "int (unat NANOS_PER_SECOND) = 10 ^ 9" "n < NANOS_PER_SECOND \<longleftrightarrow> unat n < 10 ^ 9"
  by (simp_all add: NANOS_PER_SECOND_def word_less_nat_alt)

lemma sint_of_int_i64: "- (2 ^ 63) \<le> s \<Longrightarrow> s < 2 ^ 63 \<Longrightarrow> sint (of_int s :: 64 word) = s"
  by (simp add: signed_of_int signed_take_bit_int_eq_self)

lemma unat_of_int_u32: "0 \<le> n \<Longrightarrow> n < 10 ^ 9 \<Longrightarrow> int (unat (of_int n :: 32 word)) = n"
  by (simp add: unat_eq_nat_uint uint_word_of_int take_bit_int_eq_self)

lemma made_datetime:
  assumes "- (2 ^ 63) \<le> s" "s < 2 ^ 63" "0 \<le> n" "n < 10 ^ 9"
  shows "total_nanos \<lparr>secs = of_int s, nanos = of_int n\<rparr> = s * 10 ^ 9 + n"
    "unat (of_int n :: 32 word) < 10 ^ 9"
proof -
  have n: "int (unat (of_int n :: 32 word)) = n" by (rule unat_of_int_u32) fact+
  then show "unat (of_int n :: 32 word) < 10 ^ 9"
    using assms(4) by (metis of_nat_less_iff of_nat_numeral of_nat_power)
  show "total_nanos \<lparr>secs = of_int s, nanos = of_int n\<rparr> = s * 10 ^ 9 + n"
    unfolding total_nanos_def datetime.simps n sint_of_int_i64 [OF assms(1,2)] ..
qed

text \<open>
  C23. Time arithmetic is exact to the nanosecond: going back by a duration gives the time that
  much earlier, or the earliest there is where that lies before it, and a \<open>SystemTime\<close> on either
  side of 1970 becomes the \<open>DateTime\<close> of the same instant; both have less than a second of
  nanoseconds.
\<close>

theorem datetime_arithmetic_exact:
  assumes "nanos t < NANOS_PER_SECOND" and "\<bar>time\<bar> < 2 ^ 63 * 10 ^ 9"
  shows "total_nanos (datetime_back t duration) = max (total_nanos t - int duration) (total_nanos EARLIEST)
    \<and> nanos (datetime_back t duration) < NANOS_PER_SECOND
    \<and> (\<exists>t'. from_system_time time = Inr t' \<and> total_nanos t' = time \<and> nanos t' < NANOS_PER_SECOND)"
proof -
  define ns where "ns = total_nanos t - int duration"
  define q r where "q = ns div 10 ^ 9" and "r = ns mod 10 ^ 9"
  have qr: "ns = q * 10 ^ 9 + r" "0 \<le> r" "r < 10 ^ 9" by (simp_all add: q_def r_def)
  have e: "total_nanos EARLIEST = - (2 ^ 63) * 10 ^ 9" using sint_of_int_i64 [of "- (2 ^ 63)"]
    by (simp add: total_nanos_def EARLIEST_def)
  have up: "q < 2 ^ 63"
  proof -
    have "total_nanos t < 2 ^ 63 * 10 ^ 9"
    proof -
      have "sint (secs t) * 10 ^ 9 + 10 ^ 9 \<le> 2 ^ 63 * 10 ^ 9" using sint_less [of "secs t"] by simp
      moreover have "int (unat (nanos t)) < 10 ^ 9" 
        using assms(1) unfolding nanos_per_second by (metis of_nat_less_iff of_nat_numeral of_nat_power)
      ultimately show ?thesis unfolding total_nanos_def by linarith
    qed
    then show ?thesis using qr by (simp add: ns_def)
  qed
  have bk: "datetime_back t duration =
      (if - (2 ^ 63) \<le> q then \<lparr>secs = of_int q, nanos = of_int r\<rparr> else EARLIEST)"
  proof -
    have nsx: "sint (secs t) * 10 ^ 9 + int (unat (nanos t)) - int duration = ns" by (simp only: ns_def total_nanos_def)
    show ?thesis
      unfolding datetime_back_def nanos_per_second(1) Let_def nsx q_def [symmetric] r_def [symmetric] using up by simp
  qed
  have "total_nanos (datetime_back t duration) = max ns (total_nanos EARLIEST) \<and> nanos (datetime_back t duration) < NANOS_PER_SECOND"
  proof (cases "- (2 ^ 63) \<le> q")
    case True
    then show ?thesis using made_datetime [OF True up qr(2,3)] qr(1,2) e unfolding bk by (simp add: nanos_per_second)
  next
    case False
    then have "ns < total_nanos EARLIEST" using qr e by simp
    then show ?thesis using False unfolding bk by (simp add: EARLIEST_def nanos_per_second)
  qed
  moreover have "\<exists>t'. from_system_time time = Inr t' \<and> total_nanos t' = time \<and> nanos t' < NANOS_PER_SECOND"
  proof (cases "0 \<le> time")
    case True
    define a b where "a = time div 10 ^ 9" and "b = time mod 10 ^ 9"
    have ab: "time = a * 10 ^ 9 + b" "0 \<le> b" "b < 10 ^ 9" by (simp_all add: a_def b_def)
    then have "0 \<le> a" "a < 2 ^ 63" using True assms(2) by (simp_all add: abs_if)
    then show ?thesis
      using True ab made_datetime [of a b]
      unfolding from_system_time_def nanos_per_second Let_def a_def [symmetric] b_def [symmetric] by simp
  next
    case False
    define a b where "a = (- time) div 10 ^ 9" and "b = (- time) mod 10 ^ 9"
    have ab: "- time = a * 10 ^ 9 + b" "0 \<le> b" "b < 10 ^ 9" by (simp_all add: a_def b_def)
    then have a: "0 \<le> a" "a < 2 ^ 63" using False assms(2) by (simp_all add: abs_if)
    then show ?thesis
      using False ab made_datetime [of "- a" 0] made_datetime [of "- a - 1" "10 ^ 9 - b"]
      unfolding from_system_time_def nanos_per_second Let_def a_def [symmetric] b_def [symmetric] by simp
  qed
  ultimately show ?thesis by (simp add: ns_def)
qed

theorem datetime_arithmetic_exact_witness:
  "total_nanos (datetime_back \<lparr>secs = 0, nanos = 0\<rparr> 1) = max (total_nanos \<lparr>secs = 0, nanos = 0\<rparr> - int 1) (total_nanos EARLIEST)
    \<and> nanos (datetime_back \<lparr>secs = 0, nanos = 0\<rparr> 1) < NANOS_PER_SECOND
    \<and> (\<exists>t'. from_system_time (-1) = Inr t' \<and> total_nanos t' = -1 \<and> nanos t' < NANOS_PER_SECOND)"
  by (rule datetime_arithmetic_exact) (simp_all add: NANOS_PER_SECOND_def)

end
