(* ===== verification/Store.thy ===== *)
theory Store
  imports Slotted
begin

text \<open>
  The page store (\<open>src/src/storage/mod.rs\<close>, \<open>trait PageStore\<close>): the one interface everything above
  the storage layer is written against. A \<open>&mut dyn PageStore\<close> is a record of operations on a
  state; an operation is a function from the state to a result and the state after it, so that
  what an operation changed before it failed stays changed.

  The contract is in two locales. \<open>grow_store\<close>: a page allocated is a new one, a page reads as it
  was last written, and nothing else changes. \<open>page_store\<close>: also, a page freed is gone. A store
  promises them of the pages in use (\<open>view\<close>), as long as its own invariant holds and it has
  \<open>room\<close> for the pages asked for.
\<close>

subsection \<open>Operations with a state and errors\<close>

type_synonym ('s, 'a) act = "'s \<Rightarrow> 'a res \<times> 's"

definition retA :: "'a \<Rightarrow> ('s, 'a) act" where
  "retA x s = (Inr x, s)"

definition failA :: "error \<Rightarrow> ('s, 'a) act" where
  "failA e s = (Inl e, s)"

definition liftA :: "'a res \<Rightarrow> ('s, 'a) act" where
  "liftA r s = (r, s)"

definition bindA :: "('s, 'a) act \<Rightarrow> ('a \<Rightarrow> ('s, 'b) act) \<Rightarrow> ('s, 'b) act" where
  "bindA m f s = (case m s of (Inl e, s') \<Rightarrow> (Inl e, s') | (Inr x, s') \<Rightarrow> f x s')"

definition getA :: "('s \<Rightarrow> 'a) \<Rightarrow> ('s, 'a) act" where
  "getA f s = (Inr (f s), s)"

definition modifyA :: "('s \<Rightarrow> 's) \<Rightarrow> ('s, unit) act" where
  "modifyA f s = (Inr (), f s)"

lemma act_simps [simp, res_simps]:
  "retA x s = (Inr x, s)" "failA e s = (Inl e, s)" "liftA r s = (r, s)" "getA f s = (Inr (f s), s)"
  "modifyA g s = (Inr (), g s)"
  by (simp_all add: retA_def failA_def liftA_def getA_def modifyA_def)

lemma bindA_Inr [simp, res_simps]: "m s = (Inr x, s') \<Longrightarrow> bindA m f s = f x s'"
  and bindA_Inl [simp, res_simps]: "m s = (Inl e, s') \<Longrightarrow> bindA m f s = (Inl e, s')"
  by (simp_all add: bindA_def)

lemma bindA_ret [simp]: "bindA (retA x) f = f x" "bindA (liftA (Inr x)) f = f x" "bindA (getA g) f s = f (g s) s"
  "bindA (modifyA h) k s = k () (h s)" "bindA (failA e) f = failA e" "bindA (liftA (Inl e)) f = failA e"
  by (simp_all add: bindA_def fun_eq_iff)

lemma bindA_eq_Inr: "bindA m f s = (Inr y, s'') \<longleftrightarrow> (\<exists>x s'. m s = (Inr x, s') \<and> f x s' = (Inr y, s''))"
  by (auto simp: bindA_def split: prod.splits sum.splits)

lemma bindA_cong [fundef_cong]:
  "m s = m' s \<Longrightarrow> (\<And>x s'. m' s = (Inr x, s') \<Longrightarrow> f x s' = f' x s') \<Longrightarrow> s = t \<Longrightarrow> bindA m f s = bindA m' f' t"
  by (auto simp: bindA_def split: prod.splits sum.splits)

subsection \<open>The trait\<close>

record 's store_ops =
  allocate_page :: "('s, nat) act"
  read_page :: "nat \<Rightarrow> ('s, page) act"
  try_read_page :: "nat \<Rightarrow> ('s, page option) act"
  write_page :: "nat \<Rightarrow> page \<Rightarrow> ('s, unit) act"
  change_page :: "nat \<Rightarrow> slotted \<Rightarrow> (slotted \<Rightarrow> slotted res) \<Rightarrow> ('s, unit) act"
  free_page :: "nat \<Rightarrow> ('s, unit) act"

text \<open>The trait's own \<open>change_page\<close>.\<close>

definition change_by_write :: "(nat \<Rightarrow> page \<Rightarrow> ('s, unit) act) \<Rightarrow> nat \<Rightarrow> slotted \<Rightarrow> (slotted \<Rightarrow> slotted res) \<Rightarrow> ('s, unit) act" where
  "change_by_write wr i sp change = bindA (liftA (change sp)) (\<lambda>sp. wr i (into_page sp))"

lemma page_bytes_into_page [simp]: "page_bytes (into_page sp) = raw sp"
  by (simp add: into_page_def known_checked_def)

subsection \<open>The contract\<close>

locale grow_store =
  fixes ops :: "'s store_ops"
    and view :: "'s \<Rightarrow> nat \<rightharpoonup> bytes"
    and sound :: "'s \<Rightarrow> bool"
    and room :: "'s \<Rightarrow> nat"
  assumes read_law: "sound s \<Longrightarrow> view s i = Some b \<Longrightarrow>
      \<exists>p s'. read_page ops i s = (Inr p, s') \<and> page_bytes p = b \<and> sound s' \<and> view s' = view s \<and> room s' = room s"
    and write_law: "sound s \<Longrightarrow> view s i \<noteq> None \<Longrightarrow> length (page_bytes p) = USABLE_PAGE_SIZE \<Longrightarrow>
      \<exists>s'. write_page ops i p s = (Inr (), s') \<and> sound s' \<and> view s' = (view s)(i \<mapsto> page_bytes p) \<and> room s' = room s"
    and change_law: "sound s \<Longrightarrow> view s i \<noteq> None \<Longrightarrow> change sp = Inr sp' \<Longrightarrow> length (raw sp') = USABLE_PAGE_SIZE \<Longrightarrow>
      \<exists>s'. change_page ops i sp change s = (Inr (), s') \<and> sound s' \<and> view s' = (view s)(i \<mapsto> raw sp') \<and> room s' = room s"
    and allocate_law: "sound s \<Longrightarrow> 0 < room s \<Longrightarrow>
      \<exists>i b s'. allocate_page ops s = (Inr i, s') \<and> view s i = None \<and> sound s' \<and> view s' = (view s)(i \<mapsto> b)
        \<and> room s \<le> room s' + 1"
    and view_page: "sound s \<Longrightarrow> view s i = Some b \<Longrightarrow> 0 < i \<and> i < 2 ^ 64 \<and> length b = USABLE_PAGE_SIZE"
begin

text \<open>A page written reads back, and the pages beside it read as before.\<close>

lemma write_then_read:
  assumes "sound s" "view s i \<noteq> None" "length (page_bytes p) = USABLE_PAGE_SIZE" "write_page ops i p s = (r, s')"
    and "view s j = Some b"
  shows "\<exists>q s''. read_page ops j s' = (Inr q, s'') \<and> page_bytes q = (if j = i then page_bytes p else b)"
proof -
  have s': "sound s'" "view s' = (view s)(i \<mapsto> page_bytes p)" using write_law [OF assms(1-3)] assms(4) by auto
  have "view s' j = Some (if j = i then page_bytes p else b)" using s'(2) assms(5) by simp
  from read_law [OF s'(1) this] show ?thesis by blast
qed

end

locale page_store = grow_store +
  assumes free_law: "sound s \<Longrightarrow> view s i \<noteq> None \<Longrightarrow>
      \<exists>s'. free_page ops i s = (Inr (), s') \<and> sound s' \<and> view s' = (view s)(i := None) \<and> room s \<le> room s'"

end
