(* ===== verification/Cache.thy ===== *)
theory Cache
  imports Prelude
begin

text \<open>
  The page cache (\<open>src/src/storage/cache.rs\<close>): slots swept by a hand, a page read since the
  hand last passed spared once (CLOCK). A lookup only sets the slot's flag.

  The locale \<open>page_cache\<close> is what the committed pages rely on: whatever a lookup finds is what
  was last put in. The interpretation \<open>clock\<close> shows it for the code's operations, eviction and
  the termination of its loop included.
\<close>

lemma map_leI: "(\<And>j. m j \<in> {None, m' j}) \<Longrightarrow> m \<subseteq>\<^sub>m m'"
proof (unfold map_le_def, rule ballI)
  fix a
  assume "\<And>j. m j \<in> {None, m' j}" "a \<in> dom m"
  from this(1) [of a] this(2) show "m a = m' a" by auto
qed

record 'p slot =
  slot_id :: nat
  slot_page :: 'p
  referenced :: bool

record 'p cache =
  capacity :: nat
  slots :: "'p slot list"
  index :: "nat \<rightharpoonup> nat"
  hand :: nat

definition cache_new :: "nat \<Rightarrow> 'p cache" where
  "cache_new cap = \<lparr>capacity = cap, slots = [], index = Map.empty, hand = 0\<rparr>"

definition cache_get :: "'p cache \<Rightarrow> nat \<Rightarrow> 'p cache \<times> 'p option" where
  "cache_get c i =
     (case index c i of
        Some at \<Rightarrow>
          let slot = slots c ! at in
          (if \<not> referenced slot then c\<lparr>slots := (slots c)[at := slot\<lparr>referenced := True\<rparr>]\<rparr> else c,
           Some (slot_page slot))
      | None \<Rightarrow> (c, None))"

text \<open>\<open>put\<close>'s loop: the hand goes on until it finds a page not read since it last passed.\<close>

lemma fewer_referenced:
  "at < length xs \<Longrightarrow> referenced (xs ! at) \<Longrightarrow>
   length (filter referenced (xs[at := (xs ! at)\<lparr>referenced := False\<rparr>])) < length (filter referenced xs)"
proof (induction xs arbitrary: at)
  case (Cons x xs)
  then show ?case by (cases at) auto
qed simp

function evict_loop :: "'p cache \<Rightarrow> nat \<Rightarrow> 'p \<Rightarrow> 'p cache res" where
  "evict_loop c i p =
     (let at = hand c in
      if length (slots c) \<le> at then Inl Panic
      else let c = c\<lparr>hand := (hand c + 1) mod length (slots c)\<rparr>; slot = slots c ! at in
        if referenced slot then evict_loop (c\<lparr>slots := (slots c)[at := slot\<lparr>referenced := False\<rparr>]\<rparr>) i p
        else Inr (c\<lparr>index := ((index c)(slot_id slot := None))(i \<mapsto> at),
                    slots := (slots c)[at := slot\<lparr>slot_id := i, slot_page := p\<rparr>]\<rparr>))"
  by pat_completeness auto

termination
  by (relation "measure (\<lambda>(c, _). length (filter referenced (slots c)))") (auto intro: fewer_referenced)

declare evict_loop.simps [simp del]

definition cache_put :: "'p cache \<Rightarrow> nat \<Rightarrow> 'p \<Rightarrow> 'p cache res" where
  "cache_put c i p =
     (case index c i of
        Some at \<Rightarrow> Inr (c\<lparr>slots := (slots c)[at := (slots c ! at)\<lparr>slot_page := p, referenced := True\<rparr>]\<rparr>)
      | None \<Rightarrow>
          if capacity c = 0 then Inr c
          else if length (slots c) < capacity c then
            Inr (c\<lparr>index := (index c)(i \<mapsto> length (slots c)),
                   slots := slots c @ [\<lparr>slot_id = i, slot_page = p, referenced = False\<rparr>]\<rparr>)
          else evict_loop c i p)"

definition index_of :: "'p slot list \<Rightarrow> nat \<rightharpoonup> nat" where
  "index_of xs = map_of (map (\<lambda>(at, slot). (slot_id slot, at)) (enumerate 0 xs))"

definition cache_retain :: "(nat \<Rightarrow> bool) \<Rightarrow> 'p cache \<Rightarrow> 'p cache" where
  "cache_retain keep c =
     (if list_all (\<lambda>slot. keep (slot_id slot)) (slots c) then c
      else let xs = filter (\<lambda>slot. keep (slot_id slot)) (slots c) in
        c\<lparr>slots := xs, index := index_of xs, hand := 0\<rparr>)"

definition cache_clear :: "'p cache \<Rightarrow> 'p cache" where
  "cache_clear c = cache_retain (\<lambda>_. False) c"

definition cache_resize :: "nat \<Rightarrow> 'p cache \<Rightarrow> 'p cache" where
  "cache_resize cap c =
     (let c = c\<lparr>capacity := cap\<rparr> in
      if length (slots c) > cap then
        let xs = take cap (slots c) in c\<lparr>slots := xs, index := index_of xs, hand := 0\<rparr>
      else c)"

subsection \<open>What a cache promises\<close>

locale page_cache =
  fixes get :: "'c \<Rightarrow> nat \<Rightarrow> 'c \<times> 'p option"
    and put_in :: "'c \<Rightarrow> nat \<Rightarrow> 'p \<Rightarrow> 'c res"
    and retain :: "(nat \<Rightarrow> bool) \<Rightarrow> 'c \<Rightarrow> 'c"
    and holds_pages :: "'c \<Rightarrow> nat \<rightharpoonup> 'p"
    and good :: "'c \<Rightarrow> bool"
  assumes get_finds: "good c \<Longrightarrow> snd (get c i) = holds_pages c i"
    and get_keeps: "good c \<Longrightarrow> good (fst (get c i)) \<and> holds_pages (fst (get c i)) = holds_pages c"
    and put_returns: "good c \<Longrightarrow> \<exists>c'. put_in c i p = Inr c' \<and> good c' \<and> holds_pages c' \<subseteq>\<^sub>m (holds_pages c)(i \<mapsto> p)"
    and retain_keeps: "good c \<Longrightarrow> good (retain keep c) \<and> holds_pages (retain keep c) = holds_pages c |` {i. keep i}"
begin

text \<open>
  A cache is coherent with the pages of the file \<open>f\<close> when all it holds is \<open>f\<close>'s. Putting in a
  page of the file keeps it so, and so does a change of the file where the page goes in with
  it; then a lookup finds the file's page or nothing.
\<close>

definition coherent :: "'c \<Rightarrow> (nat \<rightharpoonup> 'p) \<Rightarrow> bool" where
  "coherent c f \<longleftrightarrow> good c \<and> holds_pages c \<subseteq>\<^sub>m f"

lemma coherent_get: "coherent c f \<Longrightarrow> snd (get c i) = Some p \<Longrightarrow> f i = Some p"
  by (auto simp: coherent_def get_finds map_le_def dom_def)

lemma coherent_put_changed:
  assumes "coherent c f" "put_in c i p = Inr c'"
  shows "coherent c' (f(i \<mapsto> p))"
proof -
  have "good c'" "holds_pages c' \<subseteq>\<^sub>m (holds_pages c)(i \<mapsto> p)"
    using put_returns [of c i p] assms by (auto simp: coherent_def)
  moreover have "(holds_pages c)(i \<mapsto> p) \<subseteq>\<^sub>m f(i \<mapsto> p)"
    using assms(1) by (auto simp: coherent_def map_le_def)
  ultimately show ?thesis using map_le_trans by (auto simp: coherent_def)
qed

lemma coherent_put: "coherent c f \<Longrightarrow> f i = Some p \<Longrightarrow> \<exists>c'. put_in c i p = Inr c' \<and> coherent c' f"
  using coherent_put_changed put_returns by (metis coherent_def fun_upd_triv)

lemma coherent_retain:
  assumes "coherent c f" "\<And>i. keep i \<Longrightarrow> f' i = f i"
  shows "coherent (retain keep c) f'"
  using assms retain_keeps [of c keep] by (auto simp: coherent_def map_le_def restrict_map_def split: if_splits)

end

subsection \<open>The code's cache keeps the promise\<close>

definition cache_view :: "'p cache \<Rightarrow> nat \<rightharpoonup> 'p" where
  "cache_view c i = (case index c i of None \<Rightarrow> None | Some at \<Rightarrow> Some (slot_page (slots c ! at)))"

definition cache_inv :: "'p cache \<Rightarrow> bool" where
  "cache_inv c \<longleftrightarrow> (\<forall>i at. index c i = Some at \<longleftrightarrow> at < length (slots c) \<and> slot_id (slots c ! at) = i)
     \<and> length (slots c) \<le> capacity c \<and> hand c < max 1 (length (slots c))"

lemma cache_inv_index: "cache_inv c \<Longrightarrow> index c i = Some at \<longleftrightarrow> at < length (slots c) \<and> slot_id (slots c ! at) = i"
  by (simp add: cache_inv_def)

lemma cache_inv_hand: "cache_inv c \<Longrightarrow> hand c < max 1 (length (slots c))"
  and cache_inv_capacity: "cache_inv c \<Longrightarrow> length (slots c) \<le> capacity c"
  by (simp_all add: cache_inv_def)

lemma cache_inv_same_ids:
  assumes "cache_inv c" "map slot_id xs = map slot_id (slots c)" "h < max 1 (length (slots c))"
  shows "cache_inv (c\<lparr>hand := h, slots := xs\<rparr>)"
proof -
  have l: "length xs = length (slots c)" using assms(2) by (metis length_map)
  have "slot_id (xs ! k) = slot_id (slots c ! k)" if "k < length (slots c)" for k
    using assms(2) that l by (metis nth_map)
  then show ?thesis using assms(1,3) l by (auto simp: cache_inv_def)
qed

lemma map_slot_id_update:
  "slot_id s = slot_id (xs ! at) \<Longrightarrow> map slot_id (xs[at := s]) = map slot_id xs"
  by (cases "at < length xs") (auto simp: map_update list_update_same_conv list_update_beyond)

lemma nth_list_update': "xs[i := x] ! j = (if i = j \<and> i < length xs then x else xs ! j)"
  by (cases "i < length xs") (auto simp: nth_list_update list_update_beyond)

lemma cache_get_ok:
  assumes "cache_inv c"
  shows "snd (cache_get c i) = cache_view c i" "cache_inv (fst (cache_get c i))"
    "cache_view (fst (cache_get c i)) = cache_view c"
proof -
  show "snd (cache_get c i) = cache_view c i"
    by (simp add: cache_get_def cache_view_def Let_def split: option.splits)
  have "cache_inv (c\<lparr>slots := (slots c)[at := (slots c ! at)\<lparr>referenced := True\<rparr>]\<rparr>)" for at
    using cache_inv_same_ids [OF assms map_slot_id_update cache_inv_hand [OF assms]] by simp
  then show "cache_inv (fst (cache_get c i))"
    using assms by (simp add: cache_get_def Let_def split: option.splits)
  show "cache_view (fst (cache_get c i)) = cache_view c"
    by (rule ext) (auto simp: cache_get_def cache_view_def nth_list_update' Let_def split: option.splits)
qed

lemma evict_loop_ok:
  assumes "cache_inv c" "slots c \<noteq> []" "index c i = None"
  shows "\<exists>c'. evict_loop c i p = Inr c' \<and> cache_inv c' \<and> cache_view c' \<subseteq>\<^sub>m (cache_view c)(i \<mapsto> p)"
  using assms
proof (induction c i p rule: evict_loop.induct)
  case (1 c i p)
  let ?at = "hand c" and ?n = "length (slots c)"
  have at: "?at < ?n" using "1.prems" by (auto simp: cache_inv_def max_def Suc_le_eq split: if_splits)
  have nx: "(?at + 1) mod ?n < max 1 ?n" 
  proof -
    have "0 < ?n" using at by linarith
    then show ?thesis using mod_less_divisor [of ?n "?at + 1"] by linarith
  qed
  show ?case
  proof (cases "referenced (slots c ! ?at)")
    case True
    define c1 where "c1 = c\<lparr>hand := (?at + 1) mod ?n, slots := (slots c)[?at := (slots c ! ?at)\<lparr>referenced := False\<rparr>]\<rparr>"
    have nth: "slots c1 ! k = (if k = ?at then (slots c ! ?at)\<lparr>referenced := False\<rparr> else slots c ! k)" for k
      using at by (simp add: c1_def nth_list_update)
    have "cache_inv c1"
      using cache_inv_same_ids [OF "1.prems"(1) map_slot_id_update nx] unfolding c1_def by simp
    moreover have "index c1 = index c" by (simp add: c1_def)
    then have "cache_view c1 = cache_view c" by (auto simp: cache_view_def nth fun_eq_iff split: option.splits)
    moreover have "slots c1 \<noteq> []" "index c1 i = None" using "1.prems" by (simp_all add: c1_def)
    moreover have "evict_loop c i p = evict_loop c1 i p"
      using at True by (subst evict_loop.simps) (simp add: Let_def c1_def)
    ultimately show ?thesis using "1.IH" [OF refl _ refl refl] at True by (auto simp: c1_def)
  next
    case False
    define c1 where "c1 = c\<lparr>hand := (?at + 1) mod ?n,
      index := ((index c)(slot_id (slots c ! ?at) := None))(i \<mapsto> ?at),
      slots := (slots c)[?at := (slots c ! ?at)\<lparr>slot_id := i, slot_page := p\<rparr>]\<rparr>"
    have run: "evict_loop c i p = Inr c1" using at False by (subst evict_loop.simps) (simp add: Let_def c1_def)
    have nth: "slots c1 ! k = (if k = ?at then (slots c ! ?at)\<lparr>slot_id := i, slot_page := p\<rparr> else slots c ! k)" for k
      using at by (simp add: c1_def nth_list_update)
    have len: "length (slots c1) = ?n" "capacity c1 = capacity c" "hand c1 < max 1 ?n" using nx by (simp_all add: c1_def)
    have idx: "index c1 j = (if j = i then Some ?at else if j = slot_id (slots c ! ?at) then None else index c j)" for j
      by (simp add: c1_def)
    note ci = cache_inv_index [OF "1.prems"(1)]
    have nid: "slot_id (slots c ! k) \<noteq> i" if "k < ?n" for k using ci [of i k] "1.prems"(3) that by auto
    have dist: "k = ?at" if "k < ?n" "slot_id (slots c ! k) = slot_id (slots c ! ?at)" for k
      using ci [of "slot_id (slots c ! k)" k] ci [of "slot_id (slots c ! ?at)" ?at] that at by auto
    have "cache_inv c1"
      unfolding cache_inv_def len using len(3) "1.prems"(1) at nid dist ci
      by (auto simp: idx nth cache_inv_def split: if_splits)
    moreover have "cache_view c1 j \<in> {None, ((cache_view c)(i \<mapsto> p)) j}" for j
    proof (cases "j = i \<or> j = slot_id (slots c ! ?at)")
      case True
      then show ?thesis by (auto simp: cache_view_def idx nth)
    next
      case False
      show ?thesis
      proof (cases "index c j")
        case (Some k)
        then have "k \<noteq> ?at" using ci [of j k] False by auto
        then show ?thesis using False Some by (simp add: cache_view_def idx nth)
      qed (use False in \<open>simp add: cache_view_def idx\<close>)
    qed
    then have "cache_view c1 \<subseteq>\<^sub>m (cache_view c)(i \<mapsto> p)" by (rule map_leI)
    ultimately show ?thesis using run by blast
  qed
qed

lemma cache_put_ok:
  assumes "cache_inv c"
  shows "\<exists>c'. cache_put c i p = Inr c' \<and> cache_inv c' \<and> cache_view c' \<subseteq>\<^sub>m (cache_view c)(i \<mapsto> p)"
proof (cases "index c i")
  case (Some at)
  then have at: "at < length (slots c)" "slot_id (slots c ! at) = i" using assms cache_inv_index by blast+
  let ?c = "c\<lparr>slots := (slots c)[at := (slots c ! at)\<lparr>slot_page := p, referenced := True\<rparr>]\<rparr>"
  have "cache_inv ?c"
    using cache_inv_same_ids [OF assms map_slot_id_update cache_inv_hand [OF assms]] by simp
  moreover have "cache_view ?c j = ((cache_view c)(i \<mapsto> p)) j" for j
    using at Some cache_inv_index [OF assms, of j at]
    by (auto simp: cache_view_def nth_list_update' split: option.splits)
  then have "cache_view ?c \<subseteq>\<^sub>m (cache_view c)(i \<mapsto> p)" by (simp add: map_le_def)
  ultimately show ?thesis using Some by (simp add: cache_put_def)
next
  case None
  show ?thesis
  proof (cases "length (slots c) < capacity c")
    case True
    let ?c = "c\<lparr>index := (index c)(i \<mapsto> length (slots c)), slots := slots c @ [\<lparr>slot_id = i, slot_page = p, referenced = False\<rparr>]\<rparr>"
    have ni: "k < length (slots c) \<Longrightarrow> slot_id (slots c ! k) \<noteq> i" for k using None cache_inv_index [OF assms, of i k] by auto
    have "cache_inv ?c"
      using assms True ni by (auto simp: cache_inv_def nth_append less_Suc_eq)
    moreover have "cache_view ?c j = ((cache_view c)(i \<mapsto> p)) j" for j
      using cache_inv_index [OF assms, of j] by (cases "index c j") (auto simp: cache_view_def nth_append)
    then have "cache_view ?c \<subseteq>\<^sub>m (cache_view c)(i \<mapsto> p)" by (simp add: map_le_def)
    ultimately show ?thesis using None True by (simp add: cache_put_def)
  next
    case False
    show ?thesis
    proof (cases "capacity c = 0")
      case True
      have "cache_view c i = None" using None by (simp add: cache_view_def)
      then have "cache_view c \<subseteq>\<^sub>m (cache_view c)(i \<mapsto> p)" by (auto simp: map_le_def)
      then show ?thesis using None True assms by (simp add: cache_put_def)
    next
      case cap: False
      then have "slots c \<noteq> []" using False by auto
      then show ?thesis using evict_loop_ok [OF assms _ None] cap False None by (simp add: cache_put_def)
    qed
  qed
qed

lemma evict_loop_present: "evict_loop c i p = Inr c' \<Longrightarrow> cache_view c' i = Some p"
proof (induction c i p arbitrary: c' rule: evict_loop.induct)
  case (1 c i p)
  note run = "1.prems" [unfolded evict_loop.simps [of c i p] Let_def]
  have at: "\<not> length (slots c) \<le> hand c" using run by (auto split: if_splits)
  show ?case
  proof (cases "referenced (slots c ! hand c)")
    case True
    then show ?thesis using "1.IH" [OF refl at refl refl] run at by simp
  next
    case False
    then show ?thesis using run at by (auto simp: cache_view_def)
  qed
qed

lemma cache_put_present:
  assumes "cache_inv c" "0 < capacity c" "cache_put c i p = Inr c'"
  shows "cache_view c' i = Some p"
proof (cases "index c i")
  case (Some at)
  then show ?thesis using assms cache_inv_index [OF assms(1), of i at] by (auto simp: cache_put_def cache_view_def)
next
  case None
  then show ?thesis using assms evict_loop_present [of c i p c']
    by (auto simp: cache_put_def cache_view_def nth_append split: if_splits)
qed

lemma index_of_iff:
  assumes "distinct (map slot_id xs)"
  shows "index_of xs i = Some at \<longleftrightarrow> at < length xs \<and> slot_id (xs ! at) = i"
proof -
  let ?ps = "map (\<lambda>(at, slot). (slot_id slot, at)) (enumerate 0 xs)"
  have "map fst ?ps = map slot_id xs" by (rule nth_equalityI) (simp_all add: nth_enumerate_eq)
  then have "distinct (map fst ?ps)" using assms by simp
  then have "index_of xs i = Some at \<longleftrightarrow> (i, at) \<in> set ?ps" by (simp add: index_of_def)
  also have "\<dots> \<longleftrightarrow> at < length xs \<and> slot_id (xs ! at) = i"
    by (auto simp: in_set_enumerate_eq image_iff intro!: bexI [of _ "(at, xs ! at)"])
  finally show ?thesis .
qed

lemma cache_inv_distinct: "cache_inv c \<Longrightarrow> distinct (map slot_id (slots c))"
  using cache_inv_index [of c] by (auto simp: distinct_conv_nth) (metis option.inject)

lemma cache_view_set:
  assumes "cache_inv c"
  shows "cache_view c i = Some p \<longleftrightarrow> (\<exists>s \<in> set (slots c). slot_id s = i \<and> slot_page s = p)"
proof
  assume "cache_view c i = Some p"
  then obtain at where "index c i = Some at" "slot_page (slots c ! at) = p" by (auto simp: cache_view_def split: option.splits)
  then show "\<exists>s \<in> set (slots c). slot_id s = i \<and> slot_page s = p" using cache_inv_index [OF assms] nth_mem by blast
next
  assume "\<exists>s \<in> set (slots c). slot_id s = i \<and> slot_page s = p"
  then obtain at where "at < length (slots c)" "slot_id (slots c ! at) = i" "slot_page (slots c ! at) = p"
    by (auto simp: in_set_conv_nth)
  moreover from this have "index c i = Some at" using cache_inv_index [OF assms] by blast
  ultimately show "cache_view c i = Some p" by (simp add: cache_view_def)
qed

text \<open>Fewer slots, and the index made anew.\<close>

lemma cache_rebuilt:
  assumes "cache_inv c" "distinct (map slot_id xs)" "length xs \<le> cap" "set xs \<subseteq> set (slots c)"
  defines "c' \<equiv> c\<lparr>capacity := cap, slots := xs, index := index_of xs, hand := 0\<rparr>"
  shows "cache_inv c'" "cache_view c' = cache_view c |` (slot_id ` set xs)"
proof -
  show inv: "cache_inv c'" using index_of_iff [OF assms(2)] assms(3) by (simp add: cache_inv_def c'_def)
  have one: "s = t" if "s \<in> set (slots c)" "t \<in> set (slots c)" "slot_id s = slot_id t" for s t
    using cache_inv_distinct [OF assms(1)] that by (metis distinct_map inj_onD)
  have "cache_view c' i = Some p \<longleftrightarrow> (cache_view c |` (slot_id ` set xs)) i = Some p" for i p
    using cache_view_set [OF inv, of i p] cache_view_set [OF assms(1), of i p] assms(4) one
    by (auto simp: restrict_map_def c'_def split: if_splits)
  then show "cache_view c' = cache_view c |` (slot_id ` set xs)" by (metis not_Some_eq ext)
qed

lemma cache_retain_ok:
  assumes "cache_inv c"
  shows "cache_inv (cache_retain keep c)" "cache_view (cache_retain keep c) = cache_view c |` {i. keep i}"
proof -
  let ?xs = "filter (\<lambda>slot. keep (slot_id slot)) (slots c)"
  have d: "distinct (map slot_id ?xs)" using cache_inv_distinct [OF assms] by (rule distinct_map_filter)
  have l: "length ?xs \<le> capacity c" using cache_inv_capacity [OF assms] length_filter_le le_trans by blast
  note rebuilt = cache_rebuilt [OF assms d l]
  have dom: "cache_view c i = None" if "i \<notin> slot_id ` set (slots c)" for i
    using that cache_view_set [OF assms, of i] by (cases "cache_view c i") auto
  have "(cache_view c |` (slot_id ` set ?xs)) i = (cache_view c |` {i. keep i}) i" for i
    using dom [of i] by (cases "i \<in> slot_id ` set (slots c)") (auto simp: restrict_map_def image_iff)
  then have "cache_view c |` (slot_id ` set ?xs) = cache_view c |` {i. keep i}" by (rule ext)
  moreover have "cache_view c |` {i. keep i} = cache_view c" if all: "list_all (\<lambda>slot. keep (slot_id slot)) (slots c)"
  proof (rule ext)
    show "(cache_view c |` {i. keep i}) i = cache_view c i" for i
      using dom [of i] all by (cases "keep i"; cases "i \<in> slot_id ` set (slots c)") (auto simp: list_all_iff)
  qed
  ultimately show "cache_inv (cache_retain keep c)" "cache_view (cache_retain keep c) = cache_view c |` {i. keep i}"
    using assms rebuilt by (auto simp: cache_retain_def Let_def)
qed

lemma cache_resize_ok:
  assumes "cache_inv c"
  shows "cache_inv (cache_resize cap c)" "cache_view (cache_resize cap c) \<subseteq>\<^sub>m cache_view c"
proof -
  have d: "distinct (map slot_id (take cap (slots c)))"
    using cache_inv_distinct [OF assms] by (simp flip: take_map)
  note r = cache_rebuilt [OF assms d, of cap]
  have sub: "set (take cap (slots c)) \<subseteq> set (slots c)" by (rule set_take_subset)
  have small: "cache_inv (c\<lparr>capacity := cap\<rparr>)" if "length (slots c) \<le> cap" using assms that by (simp add: cache_inv_def)
  show "cache_inv (cache_resize cap c)"
  proof (cases "length (slots c) > cap")
    case True
    then show ?thesis using r(1) sub by (simp add: cache_resize_def Let_def)
  qed (use small in \<open>simp add: cache_resize_def Let_def\<close>)
  show "cache_view (cache_resize cap c) \<subseteq>\<^sub>m cache_view c"
  proof (cases "length (slots c) > cap")
    case True
    then show ?thesis using r(2) sub by (auto simp: cache_resize_def Let_def map_le_def)
  qed (auto simp: cache_resize_def Let_def map_le_def cache_view_def split: option.splits)
qed

interpretation clock: page_cache cache_get cache_put cache_retain cache_view cache_inv
  by unfold_locales (simp_all add: cache_get_ok cache_put_ok cache_retain_ok)

lemma cache_new_ok: "cache_inv (cache_new cap)" "cache_view (cache_new cap) = Map.empty"
  by (auto simp: cache_inv_def cache_new_def cache_view_def)

lemma cache_clear_ok: "cache_inv c \<Longrightarrow> cache_inv (cache_clear c) \<and> cache_view (cache_clear c) = Map.empty"
  using cache_retain_ok [of c "\<lambda>_. False"] by (simp add: cache_clear_def)

text \<open>
  The hand's choice: how far the hand has to go to a slot, and that the sweep ends at the nearest
  slot not read since the hand last passed it, or, where all were read, at the slot it began at.
\<close>

definition ahead :: "nat \<Rightarrow> nat \<Rightarrow> nat \<Rightarrow> nat" where
  "ahead n h k = (if h \<le> k then k - h else k + n - h)"

lemma ahead_next:
  assumes "h < n" "k < n"
  shows "k \<noteq> h \<Longrightarrow> ahead n h k = Suc (ahead n ((h + 1) mod n) k)" "ahead n ((h + 1) mod n) h = n - 1" "ahead n h k < n"
proof -
  have "(h + 1) mod n = (if h + 1 = n then 0 else h + 1)" using assms(1) by simp
  then show "k \<noteq> h \<Longrightarrow> ahead n h k = Suc (ahead n ((h + 1) mod n) k)" "ahead n ((h + 1) mod n) h = n - 1" "ahead n h k < n"
    using assms by (auto simp: ahead_def)
qed

definition swept_to :: "'p cache \<Rightarrow> nat \<Rightarrow> bool" where
  "swept_to c at \<longleftrightarrow> at < length (slots c) \<and>
     (if \<exists>s \<in> set (slots c). \<not> referenced s
      then \<not> referenced (slots c ! at) \<and> (\<forall>k < length (slots c). \<not> referenced (slots c ! k) \<longrightarrow>
             ahead (length (slots c)) (hand c) at \<le> ahead (length (slots c)) (hand c) k)
      else at = hand c)"

lemma evict_loop_victim:
  assumes "cache_inv c" "index c i = None" "evict_loop c i p = Inr c'"
  shows "\<exists>at. swept_to c at \<and> index c' = ((index c)(slot_id (slots c ! at) := None))(i \<mapsto> at)
    \<and> (\<forall>j. j \<noteq> i \<and> j \<noteq> slot_id (slots c ! at) \<longrightarrow> cache_view c' j = cache_view c j)"
  using assms
proof (induction "length (filter referenced (slots c))" arbitrary: c rule: less_induct)
  case less
  let ?at = "hand c" and ?n = "length (slots c)"
  note run = less.prems(3) [unfolded evict_loop.simps [of c i p] Let_def]
  have at: "?at < ?n" using run by (auto split: if_splits)
  have nx: "(?at + 1) mod ?n < max 1 ?n" using at by (intro less_le_trans [OF mod_less_divisor]) auto
  show ?case
  proof (cases "referenced (slots c ! ?at)")
    case True
    define c1 where "c1 = c\<lparr>hand := (?at + 1) mod ?n, slots := (slots c)[?at := (slots c ! ?at)\<lparr>referenced := False\<rparr>]\<rparr>"
    have nth: "slots c1 ! k = (if k = ?at then (slots c ! ?at)\<lparr>referenced := False\<rparr> else slots c ! k)" for k
      using at by (simp add: c1_def nth_list_update)
    have n: "length (slots c1) = ?n" "hand c1 = (?at + 1) mod ?n" "index c1 = index c" by (simp_all add: c1_def)
    have "cache_inv c1"
      using cache_inv_same_ids [OF less.prems(1) map_slot_id_update nx] unfolding c1_def by simp
    moreover have "cache_view c1 = cache_view c" by (auto simp: cache_view_def nth n(3) fun_eq_iff split: option.splits)
    moreover have "evict_loop c1 i p = Inr c'" using run at True by (simp add: c1_def)
    moreover have "index c1 i = None" using less.prems(2) n(3) by simp
    moreover have "\<exists>at. swept_to c1 at \<and> index c' = ((index c1)(slot_id (slots c1 ! at) := None))(i \<mapsto> at)
        \<and> (\<forall>j. j \<noteq> i \<and> j \<noteq> slot_id (slots c1 ! at) \<longrightarrow> cache_view c' j = cache_view c1 j)"
      if "cache_inv c1" "index c1 i = None" "evict_loop c1 i p = Inr c'"
      using less.hyps [OF _ that] fewer_referenced [OF at True] by (simp add: c1_def)
    ultimately have "\<exists>at. swept_to c1 at \<and> index c' = ((index c)(slot_id (slots c1 ! at) := None))(i \<mapsto> at)
        \<and> (\<forall>j. j \<noteq> i \<and> j \<noteq> slot_id (slots c1 ! at) \<longrightarrow> cache_view c' j = cache_view c j)"
      using n(3) by simp
    then obtain v where v: "swept_to c1 v" "index c' = ((index c)(slot_id (slots c1 ! v) := None))(i \<mapsto> v)"
      "\<forall>j. j \<noteq> i \<and> j \<noteq> slot_id (slots c1 ! v) \<longrightarrow> cache_view c' j = cache_view c j" by blast
    have id: "slot_id (slots c1 ! v) = slot_id (slots c ! v)" by (simp add: nth)
    have "\<not> referenced (slots c1 ! ?at)" by (simp add: nth)
    moreover have "slots c1 ! ?at \<in> set (slots c1)" using at n(1) by (intro nth_mem) simp
    ultimately have w: "v < ?n" "\<not> referenced (slots c1 ! v)"
      "\<And>k. k < ?n \<Longrightarrow> \<not> referenced (slots c1 ! k) \<Longrightarrow> ahead ?n ((?at + 1) mod ?n) v \<le> ahead ?n ((?at + 1) mod ?n) k"
      using v(1) unfolding swept_to_def n(1,2) by (auto split: if_splits)
    have "swept_to c v"
    proof (cases "\<exists>s \<in> set (slots c). \<not> referenced s")
      case some: True
      then obtain k where k: "k < ?n" "\<not> referenced (slots c ! k)" by (auto simp: in_set_conv_nth)
      have m: "ahead ?n ?at k' = Suc (ahead ?n ((?at + 1) mod ?n) k')" "\<not> referenced (slots c1 ! k')"
        if "k' < ?n" "\<not> referenced (slots c ! k')" for k'
        using that True ahead_next(1) [OF at that(1)] by (auto simp: nth)
      have "Suc (ahead ?n ((?at + 1) mod ?n) v) \<le> ?n - 1"
        using w(3) [OF k(1) m(2) [OF k]] m(1) [OF k] ahead_next(3) [OF at k(1)] by linarith
      then have "v \<noteq> ?at" using ahead_next(2) [OF at at] by auto
      then show ?thesis using some w m ahead_next(1) [OF at w(1)] by (auto simp: swept_to_def nth)
    next
      case False
      have "v = ?at" using w(1,2) False by (auto simp: nth split: if_splits)
      then show ?thesis using False at by (simp add: swept_to_def)
    qed
    then show ?thesis using v(2,3) unfolding id by blast
  next
    case False
    define c1 where "c1 = c\<lparr>hand := (?at + 1) mod ?n,
      index := ((index c)(slot_id (slots c ! ?at) := None))(i \<mapsto> ?at),
      slots := (slots c)[?at := (slots c ! ?at)\<lparr>slot_id := i, slot_page := p\<rparr>]\<rparr>"
    have c': "c' = c1" using run at False by (simp add: c1_def)
    have "cache_view c1 j = cache_view c j" if "j \<noteq> i" "j \<noteq> slot_id (slots c ! ?at)" for j
      using that cache_inv_index [OF less.prems(1), of j ?at] at
      by (auto simp: cache_view_def c1_def nth_list_update split: option.splits)
    moreover have "swept_to c ?at" using at False by (auto simp: swept_to_def ahead_def in_set_conv_nth)
    ultimately show ?thesis by (intro exI [of _ ?at]) (simp add: c' c1_def)
  qed
qed

lemma cache_put_victim:
  assumes "cache_inv c" "0 < capacity c" "cache_put c i p = Inr c'" "cache_view c i = None" "length (slots c) = capacity c"
  shows "\<exists>at. swept_to c at \<and> (\<forall>j. j \<noteq> i \<longrightarrow>
    cache_view c' j = (if j = slot_id (slots c ! at) then None else cache_view c j))"
proof -
  have ix: "index c i = None" using assms(4) by (auto simp: cache_view_def split: option.splits)
  then have "evict_loop c i p = Inr c'" using assms(2,3,5) by (simp add: cache_put_def)
  from evict_loop_victim [OF assms(1) ix this] obtain at where at: "swept_to c at"
    "index c' = ((index c)(slot_id (slots c ! at) := None))(i \<mapsto> at)"
    "\<forall>j. j \<noteq> i \<and> j \<noteq> slot_id (slots c ! at) \<longrightarrow> cache_view c' j = cache_view c j" by blast
  have "cache_view c' (slot_id (slots c ! at)) = None" if "slot_id (slots c ! at) \<noteq> i"
    using at(2) that by (simp add: cache_view_def)
  then show ?thesis using at(1,3) by (intro exI [of _ at]) auto
qed

text \<open>What a cache is asked to do, the pages put in last, and the capacity set last.\<close>

datatype 'p cache_op = Look nat | Put nat 'p | Retain "nat \<Rightarrow> bool" | Clear | Resize nat

fun cache_step :: "'p cache_op \<Rightarrow> 'p cache res \<Rightarrow> 'p cache res" where
  "cache_step op (Inl e) = Inl e"
| "cache_step (Look i) (Inr c) = Inr (fst (cache_get c i))"
| "cache_step (Put i p) (Inr c) = cache_put c i p"
| "cache_step (Retain keep) (Inr c) = Inr (cache_retain keep c)"
| "cache_step Clear (Inr c) = Inr (cache_clear c)"
| "cache_step (Resize n) (Inr c) = Inr (cache_resize n c)"

fun last_put :: "'p cache_op \<Rightarrow> (nat \<rightharpoonup> 'p) \<Rightarrow> nat \<rightharpoonup> 'p" where
  "last_put (Put i p) m = m(i \<mapsto> p)"
| "last_put (Retain keep) m = m |` {i. keep i}"
| "last_put Clear m = Map.empty"
| "last_put _ m = m"

fun last_capacity :: "'p cache_op \<Rightarrow> nat \<Rightarrow> nat" where
  "last_capacity (Resize n) cap = n"
| "last_capacity _ cap = cap"

lemma evict_loop_capacity: "evict_loop c i p = Inr c' \<Longrightarrow> capacity c' = capacity c"
  by (induction c i p rule: evict_loop.induct) (subst (asm) evict_loop.simps, auto simp: Let_def split: if_splits)

lemma cache_capacities [simp]:
  "capacity (fst (cache_get c i)) = capacity c" "capacity (cache_retain keep c) = capacity c"
  "capacity (cache_clear c) = capacity c" "capacity (cache_resize n c) = n"
  by (auto simp: cache_get_def cache_retain_def cache_clear_def cache_resize_def Let_def split: option.splits)

lemma cache_put_capacity: "cache_put c i p = Inr c' \<Longrightarrow> capacity c' = capacity c"
  by (auto simp: cache_put_def dest: evict_loop_capacity split: option.splits if_splits)

lemma cache_resize_whole: "length (slots c) \<le> n \<Longrightarrow> cache_view (cache_resize n c) = cache_view c"
  by (auto simp: cache_resize_def Let_def cache_view_def fun_eq_iff split: option.splits)

lemma cache_put_room:
  assumes "cache_inv c" "length (slots c) < capacity c \<or> cache_view c i \<noteq> None" "cache_put c i p = Inr c'"
  shows "cache_view c' = (cache_view c)(i \<mapsto> p)"
proof (rule ext)
  fix j
  note ix = cache_inv_index [OF assms(1)]
  show "cache_view c' j = ((cache_view c)(i \<mapsto> p)) j"
  proof (cases "index c i")
    case (Some at)
    have at: "at < length (slots c)" "slot_id (slots c ! at) = i" using ix [of i at] Some by simp_all
    have c': "c' = c\<lparr>slots := (slots c)[at := (slots c ! at)\<lparr>slot_page := p, referenced := True\<rparr>]\<rparr>"
      using assms(3) [symmetric] Some by (simp only: cache_put_def option.case sum.inject)
    show ?thesis
    proof (cases "index c j")
      case (Some at')
      have "slot_id (slots c ! at') = j" using ix [of j at'] Some by simp
      then have "at' \<noteq> at" if "j \<noteq> i" using that at(2) by metis
      then show ?thesis using Some \<open>index c i = Some at\<close> at(1)
        by (cases "j = i") (simp_all add: c' cache_view_def)
    qed (use \<open>index c i = Some at\<close> in \<open>auto simp: c' cache_view_def\<close>)
  next
    case None
    then have "cache_put c i p = Inr (c\<lparr>index := (index c)(i \<mapsto> length (slots c)),
        slots := slots c @ [\<lparr>slot_id = i, slot_page = p, referenced = False\<rparr>]\<rparr>)"
      using assms(2) by (auto simp: cache_put_def cache_view_def)
    then have c': "c' = c\<lparr>index := (index c)(i \<mapsto> length (slots c)),
        slots := slots c @ [\<lparr>slot_id = i, slot_page = p, referenced = False\<rparr>]\<rparr>"
      using assms(3) by (simp only: sum.inject)
    have "at' < length (slots c)" if "index c j = Some at'" for at' using ix [of j at'] that by simp
    then show ?thesis by (auto simp: c' cache_view_def nth_append split: option.splits)
  qed
qed

lemma cache_get_marks:
  assumes "cache_inv c" "cache_view c i \<noteq> None"
  shows "\<exists>s \<in> set (slots (fst (cache_get c i))). slot_id s = i \<and> referenced s"
proof -
  obtain at where at: "index c i = Some at" using assms(2) by (auto simp: cache_view_def split: option.splits)
  then have k: "at < length (slots c)" "slot_id (slots c ! at) = i" using cache_inv_index [OF assms(1)] by blast+
  have "length (slots (fst (cache_get c i))) = length (slots c)" "slot_id (slots (fst (cache_get c i)) ! at) = i"
    "referenced (slots (fst (cache_get c i)) ! at)"
    using at k by (auto simp: cache_get_def Let_def nth_list_update)
  then show ?thesis using k(1) nth_mem by metis
qed

lemma cache_step_ok:
  assumes "cache_inv c" "cache_view c \<subseteq>\<^sub>m m"
  shows "\<exists>c'. cache_step op (Inr c) = Inr c' \<and> cache_inv c' \<and> cache_view c' \<subseteq>\<^sub>m last_put op m
    \<and> capacity c' = last_capacity op (capacity c)"
proof (cases op)
  case (Put i p)
  obtain c' where c': "cache_put c i p = Inr c'" "cache_inv c'" "cache_view c' \<subseteq>\<^sub>m (cache_view c)(i \<mapsto> p)"
    using cache_put_ok [OF assms(1)] by blast
  moreover have "(cache_view c)(i \<mapsto> p) \<subseteq>\<^sub>m m(i \<mapsto> p)" using assms(2) by (auto simp: map_le_def)
  ultimately show ?thesis using Put map_le_trans cache_put_capacity by auto
next
  case (Resize n)
  then show ?thesis using cache_resize_ok [OF assms(1), of n] assms(2) map_le_trans by auto
next
  case (Retain keep)
  then show ?thesis using cache_retain_ok [OF assms(1), of keep] assms(2)
    by (auto simp: map_le_def restrict_map_def)
qed (use assms cache_get_ok [OF assms(1)] cache_clear_ok [OF assms(1)] in auto)

lemma cache_run_ok:
  assumes "cache_inv c" "cache_view c \<subseteq>\<^sub>m m"
  shows "\<exists>c'. fold cache_step ops (Inr c) = Inr c' \<and> cache_inv c' \<and> cache_view c' \<subseteq>\<^sub>m fold last_put ops m
    \<and> capacity c' = fold last_capacity ops (capacity c)"
  using assms
proof (induction ops arbitrary: c m)
  case (Cons op ops)
  obtain c1 where c1: "cache_step op (Inr c) = Inr c1" "cache_inv c1" "cache_view c1 \<subseteq>\<^sub>m last_put op m"
    "capacity c1 = last_capacity op (capacity c)"
    using cache_step_ok [OF Cons.prems] by blast
  then show ?case using Cons.IH [OF c1(2,3)] by simp
qed auto

text \<open>
  C24. The cache never answers with a page other than the last one put in for that id, never holds
  more than its capacity, and never fails. After any lookups, puts, retains, clears and resizes, in
  any order, from a new cache: its slots are at most as many as the capacity set last; a lookup
  finds the page put in last, or nothing, and nothing that was not retained; a lookup changes no
  answer and marks the page it found as read; a page put in is found, where there is a capacity at all, and displaces no other while
  there is room, or when it was held already; in a full cache it displaces exactly one, the nearest
  ahead of the hand not read since the hand last passed; retaining keeps exactly the pages to keep; and a resize to no less than what is
  held forgets nothing.
\<close>

theorem cache_answers_last_put:
  "\<exists>c. fold cache_step ops (Inr (cache_new cap)) = Inr c
    \<and> capacity c = fold last_capacity ops cap \<and> length (slots c) \<le> capacity c
    \<and> (\<forall>i. snd (cache_get c i) \<in> {None, fold last_put ops Map.empty i})
    \<and> (\<forall>i j. snd (cache_get (fst (cache_get c i)) j) = snd (cache_get c j))
    \<and> (\<forall>i. snd (cache_get c i) \<noteq> None \<longrightarrow> (\<exists>s \<in> set (slots (fst (cache_get c i))). slot_id s = i \<and> referenced s))
    \<and> (\<forall>i p. \<exists>c'. cache_put c i p = Inr c'
        \<and> (0 < capacity c \<longrightarrow> snd (cache_get c' i) = Some p)
        \<and> (length (slots c) < capacity c \<or> snd (cache_get c i) \<noteq> None \<longrightarrow>
              (\<forall>j. j \<noteq> i \<longrightarrow> snd (cache_get c' j) = snd (cache_get c j)))
        \<and> (length (slots c) = capacity c \<and> 0 < capacity c \<and> snd (cache_get c i) = None \<longrightarrow>
              (\<exists>at. swept_to c at \<and> (\<forall>j. j \<noteq> i \<longrightarrow>
                snd (cache_get c' j) = (if j = slot_id (slots c ! at) then None else snd (cache_get c j))))))
    \<and> (\<forall>keep i. snd (cache_get (cache_retain keep c) i) = (if keep i then snd (cache_get c i) else None))
    \<and> (\<forall>n i. length (slots c) \<le> n \<longrightarrow> snd (cache_get (cache_resize n c) i) = snd (cache_get c i))"
proof -
  have new: "cache_inv (cache_new cap)" "cache_view (cache_new cap) \<subseteq>\<^sub>m Map.empty"
    by (simp_all add: cache_new_ok)
  obtain c where c: "fold cache_step ops (Inr (cache_new cap)) = Inr c" "cache_inv c"
    "cache_view c \<subseteq>\<^sub>m fold last_put ops Map.empty" "capacity c = fold last_capacity ops cap"
    using cache_run_ok [OF new, of ops] by (auto simp: cache_new_def)
  note view = cache_get_ok [OF c(2)] cache_get_ok(1) [OF cache_retain_ok(1) [OF c(2)]] cache_get_ok(1) [OF cache_resize_ok(1) [OF c(2)]]
  have put: "\<exists>c'. cache_put c i p = Inr c' \<and> (0 < capacity c \<longrightarrow> snd (cache_get c' i) = Some p)
      \<and> (length (slots c) < capacity c \<or> snd (cache_get c i) \<noteq> None \<longrightarrow>
            (\<forall>j. j \<noteq> i \<longrightarrow> snd (cache_get c' j) = snd (cache_get c j)))
      \<and> (length (slots c) = capacity c \<and> 0 < capacity c \<and> snd (cache_get c i) = None \<longrightarrow>
            (\<exists>at. swept_to c at \<and> (\<forall>j. j \<noteq> i \<longrightarrow>
              snd (cache_get c' j) = (if j = slot_id (slots c ! at) then None else snd (cache_get c j)))))" for i p
  proof -
    obtain c' where c': "cache_put c i p = Inr c'" "cache_inv c'" using cache_put_ok [OF c(2)] by blast
    have "0 < capacity c \<longrightarrow> cache_view c' i = Some p" using cache_put_present [OF c(2) _ c'(1)] by blast
    moreover have "length (slots c) < capacity c \<or> cache_view c i \<noteq> None \<longrightarrow> (\<forall>j. j \<noteq> i \<longrightarrow> cache_view c' j = cache_view c j)"
      using cache_put_room [OF c(2) _ c'(1)] by auto
    moreover have "length (slots c) = capacity c \<and> 0 < capacity c \<and> cache_view c i = None \<longrightarrow> (\<exists>at. swept_to c at
        \<and> (\<forall>j. j \<noteq> i \<longrightarrow> cache_view c' j = (if j = slot_id (slots c ! at) then None else cache_view c j)))"
      using cache_put_victim [OF c(2) _ c'(1)] by blast
    ultimately show ?thesis using c'(1) unfolding cache_get_ok(1) [OF c(2)]
      by (intro exI [of _ c'] conjI) (simp_all only: cache_get_ok(1) [OF c'(2)])
  qed
  have "snd (cache_get c i) \<in> {None, fold last_put ops Map.empty i}" for i
    using c(3) unfolding view(1) by (cases "cache_view c i") (auto simp: map_le_def dom_def)
  moreover have "snd (cache_get (fst (cache_get c i)) j) = snd (cache_get c j)" for i j
    using cache_get_ok(1) [OF view(2)] view(1,3) by simp
  moreover have "\<exists>s \<in> set (slots (fst (cache_get c i))). slot_id s = i \<and> referenced s" if "snd (cache_get c i) \<noteq> None" for i
    using cache_get_marks [OF c(2)] that view(1) by simp
  ultimately show ?thesis
    using c(1,4) cache_inv_capacity [OF c(2)] put cache_retain_ok(2) [OF c(2)] cache_resize_whole [of c]
    by (intro exI [of _ c]) (simp add: view(1,4,5) restrict_map_def)
qed

text \<open>Two pages in a cache for two, of which the first is retained, in the smaller cache it fits.\<close>

theorem cache_answers_last_put_witness:
  "\<exists>c c'. fold cache_step [Put 7 (9 :: nat), Look 7, Put 8 6, Retain (\<lambda>i. i = 7), Resize 1] (Inr (cache_new 2)) = Inr c
    \<and> length (slots c) \<le> 1 \<and> snd (cache_get c 8) = None
    \<and> cache_put c 8 5 = Inr c' \<and> snd (cache_get c' 8) = Some 5"
proof -
  let ?ops = "[Put 7 (9 :: nat), Look 7, Put 8 6, Retain (\<lambda>i. i = 7), Resize 1]"
  from cache_answers_last_put [of ?ops 2] obtain c where c: "fold cache_step ?ops (Inr (cache_new 2)) = Inr c"
    "capacity c = fold last_capacity ?ops 2" "length (slots c) \<le> capacity c"
    "\<forall>i. snd (cache_get c i) \<in> {None, fold last_put ?ops Map.empty i}"
    "\<forall>i p. \<exists>c'. cache_put c i p = Inr c' \<and> (0 < capacity c \<longrightarrow> snd (cache_get c' i) = Some p)"
    by (elim exE conjE) (simp only: all_conj_distrib, metis)
  have "capacity c = 1" "fold last_put ?ops Map.empty 8 = None" using c(2) by simp_all
  moreover from this obtain c' where "cache_put c 8 5 = Inr c'" "snd (cache_get c' 8) = Some 5"
    using c(5) by (metis zero_less_one)
  moreover have "snd (cache_get c 8) = None" using c(4) calculation(2) by (metis insertE singletonD)
  ultimately show ?thesis using c(1,3) by (intro exI [of _ c] exI [of _ c']) simp
qed

end
