(* ===== verification/Disk.thy ===== *)
theory Disk
  imports Crc32c Slotted
begin

text \<open>
  Pages on disk (the file functions of \<open>src/src/storage/pages.rs\<close>): each page at its id's place,
  its last four bytes a checksum of the id and the rest. The file is its bytes; a read past its
  end and a checksum that does not match are errors, a write past its end fills the gap with
  zeros, as the file system does.

  \<open>disk_page\<close> is what a page reads as. The lemmas: a page written reads back, and no other
  page that could be read changes.
\<close>

definition checksum :: "bool \<Rightarrow> nat \<Rightarrow> bytes \<Rightarrow> bytes" where
  "checksum hw i usable =
     le_bytes 4 (unat (crc32_finish (update hw (update hw crc32_new (le_bytes 8 i)) usable)))"

definition checksum_matches :: "bool \<Rightarrow> nat \<Rightarrow> bytes \<Rightarrow> bool" where
  "checksum_matches hw i disk \<longleftrightarrow> checksum hw i (take USABLE_PAGE_SIZE disk) = drop USABLE_PAGE_SIZE disk"

definition read_exact_at :: "bytes \<Rightarrow> nat \<Rightarrow> nat \<Rightarrow> bytes res" where
  "read_exact_at file n offset =
     (if length file < offset + n then Inl (Io UnexpectedEof) else Inr (slice file offset n))"

definition write_all_at :: "bytes \<Rightarrow> bytes \<Rightarrow> nat \<Rightarrow> bytes" where
  "write_all_at file data offset =
     put (file @ replicate (offset + length data - length file) 0) offset data"

definition read_disk_page :: "bytes \<Rightarrow> nat \<Rightarrow> bytes res" where
  "read_disk_page file i = read_exact_at file PAGE_SIZE (i * PAGE_SIZE)"

definition read_page_at :: "bool \<Rightarrow> bytes \<Rightarrow> nat \<Rightarrow> page res" where
  "read_page_at hw file i =
     bindR (read_disk_page file i) (\<lambda>disk.
       if \<not> checksum_matches hw i disk then corrupt
       else Inr (page_from (take USABLE_PAGE_SIZE disk)))"

definition write_page_at :: "bool \<Rightarrow> bytes \<Rightarrow> nat \<Rightarrow> bytes \<Rightarrow> bytes res" where
  "write_page_at hw file i data =
     (if length data \<noteq> USABLE_PAGE_SIZE then Inl Panic
      else Inr (write_all_at file (data @ checksum hw i data) (i * PAGE_SIZE)))"

subsection \<open>What a page reads as\<close>

definition disk_page :: "bytes \<Rightarrow> nat \<Rightarrow> bytes option" where
  "disk_page file i = (case read_page_at False file i of Inl _ \<Rightarrow> None | Inr p \<Rightarrow> Some (page_bytes p))"

lemma checksum_hw: "checksum hw i usable = checksum False i usable"
  by (simp add: checksum_def update_eq)

lemma length_checksum [simp]: "length (checksum hw i usable) = CHECKSUM_LEN"
  by (simp add: checksum_def CHECKSUM_LEN_def)

lemma page_sizes: "USABLE_PAGE_SIZE + CHECKSUM_LEN = PAGE_SIZE" "USABLE_PAGE_SIZE \<le> PAGE_SIZE" "0 < PAGE_SIZE"
  by (simp_all add: USABLE_PAGE_SIZE_def PAGE_SIZE_def CHECKSUM_LEN_def)

lemma read_page_at_eq: "read_page_at hw file i = Inr p \<longleftrightarrow> p = page_from (page_bytes p) \<and> disk_page file i = Some (page_bytes p)"
proof -
  have "read_page_at hw file i = read_page_at False file i"
    by (simp add: read_page_at_def checksum_matches_def checksum_hw [of hw])
  then show ?thesis
    by (cases "read_page_at False file i")
      (auto simp: disk_page_def read_page_at_def bindR_eq_Inr page_from_def split: if_splits)
qed

lemma disk_page_cases:
  "disk_page file i = Some b \<longleftrightarrow> length file \<ge> Suc i * PAGE_SIZE
     \<and> checksum_matches False i (slice file (i * PAGE_SIZE) PAGE_SIZE)
     \<and> b = take USABLE_PAGE_SIZE (slice file (i * PAGE_SIZE) PAGE_SIZE)"
  by (auto simp: disk_page_def read_page_at_def read_disk_page_def read_exact_at_def page_from_def add.commute
      split: if_splits sum.splits)

lemma disk_page_length: "disk_page file i = Some b \<Longrightarrow> length b = USABLE_PAGE_SIZE"
  using page_sizes(2) by (auto simp: disk_page_cases)

lemma write_page_at_reads:
  assumes "write_page_at hw file i data = Inr file'"
  shows "disk_page file' i = Some data" "length file \<le> length file'"
    "\<And>j b. j \<noteq> i \<Longrightarrow> disk_page file j = Some b \<Longrightarrow> disk_page file' j = Some b"
    "length file' = max (length file) (Suc i * PAGE_SIZE)"
proof -
  let ?at = "i * PAGE_SIZE" and ?d = "data @ checksum hw i data"
  have len: "length data = USABLE_PAGE_SIZE" using assms by (auto simp: write_page_at_def split: if_splits)
  then have d: "length ?d = PAGE_SIZE" using page_sizes by simp
  define g where "g = file @ replicate (?at + PAGE_SIZE - length file) 0"
  have g: "length g = max (length file) (?at + PAGE_SIZE)" "?at + length ?d \<le> length g" using d by (simp_all add: g_def)
  have f': "file' = put g ?at ?d" using assms len d by (simp add: write_page_at_def write_all_at_def g_def)
  show l': "length file' = max (length file) (Suc i * PAGE_SIZE)" using g f' by (simp add: add.commute)
  then show "length file \<le> length file'" by simp
  have s: "slice file' ?at PAGE_SIZE = ?d" unfolding f' using g(2) d by simp
  show "disk_page file' i = Some data"
    unfolding disk_page_cases s using len l' by (simp add: checksum_matches_def checksum_hw [of hw])
  fix j b
  assume j: "j \<noteq> i" "disk_page file j = Some b"
  then have lj: "Suc j * PAGE_SIZE \<le> length file" by (simp add: disk_page_cases)
  have "slice file' (j * PAGE_SIZE) PAGE_SIZE = slice g (j * PAGE_SIZE) PAGE_SIZE"
  proof (cases "j < i")
    case True
    then have "Suc j * PAGE_SIZE \<le> ?at" by (intro mult_le_mono1) simp
    then show ?thesis unfolding f' using g(2) by (intro slice_put_before) simp_all
  next
    case False
    then have "Suc i * PAGE_SIZE \<le> j * PAGE_SIZE" using j(1) by (intro mult_le_mono1) simp
    then show ?thesis unfolding f' using g(2) d by (intro slice_put_after) simp_all
  qed
  also have "\<dots> = slice file (j * PAGE_SIZE) PAGE_SIZE" using lj by (simp add: g_def slice_def)
  finally show "disk_page file' j = Some b" using j(2) lj l' by (auto simp: disk_page_cases le_max_iff_disj)
qed

lemma write_page_at_returns: "length data = USABLE_PAGE_SIZE \<Longrightarrow> \<exists>file'. write_page_at hw file i data = Inr file'"
  by (simp add: write_page_at_def)

lemma disk_page_take: "Suc i * PAGE_SIZE \<le> n \<Longrightarrow> disk_page (take n file) i = disk_page file i"
proof -
  assume n: "Suc i * PAGE_SIZE \<le> n"
  have "slice (take n file) (i * PAGE_SIZE) PAGE_SIZE = slice file (i * PAGE_SIZE) PAGE_SIZE"
    using n by (simp add: slice_def drop_take add.commute)
  moreover have "Suc i * PAGE_SIZE \<le> length (take n file) \<longleftrightarrow> Suc i * PAGE_SIZE \<le> length file" using n by auto
  ultimately have "disk_page (take n file) i = Some b \<longleftrightarrow> disk_page file i = Some b" for b
    unfolding disk_page_cases by simp
  then show ?thesis by (metis not_Some_eq)
qed

end
