(* ===== verification/Pages.thy ===== *)
theory Pages
  imports Cache Disk
begin

text \<open>
  The committed pages (\<open>src/src/storage/pages.rs\<close>): the file, the cache of what is in it, and the
  versions of pages kept in memory, for the pages not written back yet and for the snapshots
  open. Everything behind the lock is the record \<open>memory\<close>; what takes the lock at once is one
  function. A read that misses releases the lock, reads the file and takes the lock again, so
  \<open>read_at\<close> is two functions, \<open>read_lookup\<close> and \<open>read_finish\<close>, between which other threads may
  act; a checkpoint is three, \<open>checkpoint_begin\<close>, the writes, and \<open>checkpoint_end\<close>.

  A \<open>BTreeMap\<close> is an association list in ascending order of its keys. A compaction's image
  (\<open>Scratch\<close>) is its file and its page count.

  The lemmas: pruning a chain drops nothing an open snapshot reads, a commit adds one version
  to the chain of each page it changed, the limit holds after every commit, and a checkpoint's
  writes put the waiting pages and the image into the file and change no other page.
\<close>

subsection \<open>Ordered maps\<close>

fun bm_put :: "nat \<Rightarrow> 'v \<Rightarrow> (nat \<times> 'v) list \<Rightarrow> (nat \<times> 'v) list" where
  "bm_put k v [] = [(k, v)]"
| "bm_put k v ((k', v') # m) =
     (if k < k' then (k, v) # (k', v') # m else if k = k' then (k, v) # m else (k', v') # bm_put k v m)"

definition bm_remove :: "nat \<Rightarrow> (nat \<times> 'v) list \<Rightarrow> (nat \<times> 'v) list" where
  "bm_remove k m = filter (\<lambda>(k', _). k' \<noteq> k) m"

abbreviation bm_get :: "(nat \<times> 'v) list \<Rightarrow> nat \<rightharpoonup> 'v" where
  "bm_get \<equiv> map_of"

definition bm_inv :: "(nat \<times> 'v) list \<Rightarrow> bool" where
  "bm_inv m \<longleftrightarrow> sorted_wrt (<) (map fst m)"

lemma bm_get_put [simp]: "bm_get (bm_put k v m) = (bm_get m)(k \<mapsto> v)"
  by (induction m) (auto simp: fun_eq_iff)

lemma set_fst_bm_put [simp]: "fst ` set (bm_put k v m) = insert k (fst ` set m)"
  by (induction k v m rule: bm_put.induct) (simp_all add: insert_commute)

lemma bm_inv_put [simp]: "bm_inv m \<Longrightarrow> bm_inv (bm_put k v m)"
proof (induction m)
  case (Cons p m)
  obtain k' v' where p: "p = (k', v')" by (cases p)
  have "\<forall>x \<in> set (map fst (bm_put k v m)). k' < x" if "k' < k" using Cons.prems that p by (auto simp: bm_inv_def)
  then show ?case using Cons p by (auto simp: bm_inv_def)
qed (simp add: bm_inv_def)

lemma bm_get_remove [simp]: "bm_get (bm_remove k m) = (bm_get m)(k := None)"
  by (induction m) (auto simp: bm_remove_def fun_eq_iff)

lemma bm_inv_filter: "bm_inv m \<Longrightarrow> bm_inv (filter P m)"
  unfolding bm_inv_def by (induction m) auto

lemma bm_inv_remove [simp]: "bm_inv m \<Longrightarrow> bm_inv (bm_remove k m)"
  by (simp add: bm_remove_def bm_inv_filter)

lemma bm_inv_distinct: "bm_inv m \<Longrightarrow> distinct (map fst m)"
  by (simp add: bm_inv_def strict_sorted_iff)

subsection \<open>Versions\<close>

record version =
  vseq :: nat
  vpage :: page
  written :: bool

record scratch =
  scratch_file :: bytes
  scratch_count :: nat

definition scratch_read :: "bool \<Rightarrow> scratch \<Rightarrow> nat \<Rightarrow> page res" where
  "scratch_read hw sc i = bindR (read_page_at hw (scratch_file sc) i) (\<lambda>p. Inr (page_checked p))"

record memory =
  mcache :: "page cache"
  versions :: "(nat \<times> version list) list"
  replacement :: "scratch option"
  unwritten :: nat
  mseq :: nat
  file_epoch :: nat
  older :: nat
  limit :: nat
  ended_before :: nat
  ended :: nat

definition DEFAULT_VERSION_LIMIT :: nat where
  "DEFAULT_VERSION_LIMIT = 256 * 2 ^ 20 div PAGE_SIZE"

definition memory_new :: "nat \<Rightarrow> memory" where
  "memory_new cache_pages =
     \<lparr>mcache = cache_new cache_pages, versions = [], replacement = None, unwritten = 0, mseq = 0,
      file_epoch = 0, older = 0, limit = DEFAULT_VERSION_LIMIT, ended_before = 0, ended = 0\<rparr>"

text \<open>\<open>slice::partition_point\<close> on a list where the predicate holds first and then never again.\<close>

definition partition_point :: "('a \<Rightarrow> bool) \<Rightarrow> 'a list \<Rightarrow> nat" where
  "partition_point P xs = length (takeWhile P xs)"

definition still_open :: "memory \<Rightarrow> nat list \<Rightarrow> nat list" where
  "still_open m live = drop (partition_point (\<lambda>s. s < ended_before m) live) live"

text \<open>
  \<open>prune\<close>'s loop from the newest version back, on the reversed chain: which versions stay.
  \<open>next_seq\<close> is \<open>None\<close> for the code's \<open>u64::MAX\<close>, above every commit.
\<close>

fun prune_rev :: "nat list \<Rightarrow> nat option \<Rightarrow> bool \<Rightarrow> version list \<Rightarrow> version list" where
  "prune_rev live next_seq newest [] = []"
| "prune_rev live next_seq newest (v # vs) =
     (let at = partition_point (\<lambda>s. s < vseq v) live;
          rd = (at < length live \<and> (case next_seq of None \<Rightarrow> True | Some n \<Rightarrow> live ! at < n))
      in (if rd \<or> newest then [v] else []) @ prune_rev live (Some (vseq v)) False vs)"

definition prune :: "nat list \<Rightarrow> version list \<Rightarrow> version list" where
  "prune live chain = (if length chain < 2 then chain else rev (prune_rev live None True (rev chain)))"

definition kept_chain :: "version list \<Rightarrow> bool" where
  "kept_chain chain \<longleftrightarrow> \<not> (length chain = 1 \<and> written (hd chain))"

definition forget :: "nat list \<Rightarrow> memory \<Rightarrow> memory" where
  "forget live m =
     (let live = still_open m live;
          pruned = map (\<lambda>(i, chain). (i, prune live chain)) (versions m)
      in m\<lparr>versions := filter (\<lambda>(_, chain). kept_chain chain) pruned,
           older := sum_list (map (\<lambda>(_, chain). length chain - 1) pruned)\<rparr>)"

lemma still_open_sub: "set (still_open m live) \<subseteq> set live"
  by (simp add: still_open_def set_drop_subset)

lemma still_open_shrinks:
  assumes "still_open m live = oldest # rest"
  shows "length (still_open (m\<lparr>ended_before := oldest + 1\<rparr>) live) < length live
    \<and> length (dropWhile (\<lambda>s. s < oldest + 1) live) < length (dropWhile (\<lambda>s. s < ended_before m) live)"
proof -
  have dw: "still_open m' live = dropWhile (\<lambda>s. s < ended_before m') live" for m' :: memory
    by (simp add: still_open_def partition_point_def dropWhile_eq_drop)
  have "dropWhile (\<lambda>s. s < ended_before m) live = oldest # rest" using assms dw by metis
  moreover have "oldest \<ge> ended_before m" using calculation hd_dropWhile [of "\<lambda>s. s < ended_before m" live] by auto
  then have "length (dropWhile (\<lambda>s. s < oldest + 1) live)
      \<le> length (dropWhile (\<lambda>s. s < oldest + 1) (dropWhile (\<lambda>s. s < ended_before m) live))"
    by (induction live) auto
  ultimately have "length (dropWhile (\<lambda>s. s < oldest + 1) live) \<le> length rest"
    using length_dropWhile_le [of "\<lambda>s. s < oldest + 1" rest] by simp
  moreover have "length (oldest # rest) \<le> length live"
    using \<open>dropWhile (\<lambda>s. s < ended_before m) live = oldest # rest\<close> length_dropWhile_le by metis
  ultimately show ?thesis using dw [of "m\<lparr>ended_before := oldest + 1\<rparr>"]
      \<open>dropWhile (\<lambda>s. s < ended_before m) live = oldest # rest\<close> by simp
qed

function keep_within_limit :: "nat list \<Rightarrow> memory \<Rightarrow> memory" where
  "keep_within_limit live m =
     (if older m > limit m then
        (case still_open m live of
           [] \<Rightarrow> forget live m
         | oldest # _ \<Rightarrow>
             keep_within_limit live (forget live (m\<lparr>ended_before := oldest + 1, ended := ended m + 1\<rparr>)))
      else m)"
  by pat_completeness auto

termination
proof (relation "measure (\<lambda>(live, m). length (still_open m live))")
  fix live :: "nat list" and m :: memory and oldest rest
  assume "still_open m live = oldest # rest"
  from still_open_shrinks [OF this]
  show "((live, forget live (m\<lparr>ended_before := oldest + 1, ended := ended m + 1\<rparr>)), live, m)
      \<in> measure (\<lambda>(live, m). length (still_open m live))"
    by (simp add: forget_def Let_def still_open_def partition_point_def dropWhile_eq_drop)
qed simp

declare keep_within_limit.simps [simp del]

subsection \<open>Reading\<close>

datatype lookup = Found page | Refused error | AskFile nat

definition read_lookup :: "bool \<Rightarrow> nat \<Rightarrow> nat \<Rightarrow> memory \<Rightarrow> memory \<times> lookup" where
  "read_lookup hw i seq m =
     (if seq < ended_before m then (m, Refused (Io OtherError))
      else case bm_get (versions m) i of
        Some chain \<Rightarrow>
          (case find (\<lambda>v. vseq v \<le> seq) (rev chain) of
             Some v \<Rightarrow> (m, Found (vpage v))
           | None \<Rightarrow> (m, Refused (Io OtherError)))
      | None \<Rightarrow>
          (case replacement m of
             Some sc \<Rightarrow> (case scratch_read hw sc i of Inr p \<Rightarrow> (m, Found p) | Inl e \<Rightarrow> (m, Refused e))
           | None \<Rightarrow>
               (case cache_get (mcache m) i of
                  (c, Some p) \<Rightarrow> (m\<lparr>mcache := c\<rparr>, Found p)
                | (c, None) \<Rightarrow> (m\<lparr>mcache := c\<rparr>, AskFile (file_epoch m)))))"

text \<open>The second half, with what was read from the file meanwhile; \<open>None\<close> is to look again.\<close>

definition read_finish :: "page res \<Rightarrow> nat \<Rightarrow> nat \<Rightarrow> memory \<Rightarrow> memory \<times> page res option" where
  "read_finish rd i epoch m =
     (if file_epoch m \<noteq> epoch then (m, None)
      else case rd of
        Inl e \<Rightarrow> (m, Some (Inl e))
      | Inr p \<Rightarrow>
          let p = page_checked p in
          (case cache_put (mcache m) i p of
             Inl e \<Rightarrow> (m, Some (Inl e))
           | Inr c \<Rightarrow> (m\<lparr>mcache := c\<rparr>, Some (Inr p))))"

text \<open>\<open>read_at\<close> with nothing in between: the loop's second round never comes.\<close>

definition read_at :: "bool \<Rightarrow> bytes \<Rightarrow> nat \<Rightarrow> nat \<Rightarrow> memory \<Rightarrow> memory \<times> page res" where
  "read_at hw file i seq m =
     (case read_lookup hw i seq m of
        (m, Found p) \<Rightarrow> (m, Inr p)
      | (m, Refused e) \<Rightarrow> (m, Inl e)
      | (m, AskFile epoch) \<Rightarrow>
          (case read_finish (read_page_at hw file i) i epoch m of
             (m, Some r) \<Rightarrow> (m, r)
           | (m, None) \<Rightarrow> (m, Inl Panic)))"

definition pages_read :: "bool \<Rightarrow> bytes \<Rightarrow> nat \<Rightarrow> memory \<Rightarrow> memory \<times> page res" where
  "pages_read hw file i m = read_at hw file i (2 ^ 64 - 1) m"

definition damaged_pages :: "bool \<Rightarrow> bytes \<Rightarrow> nat \<Rightarrow> memory \<Rightarrow> nat list res" where
  "damaged_pages hw file page_count m =
     foldR (\<lambda>i damaged.
       if replacement m \<noteq> None \<or> (case bm_get (versions m) i of None \<Rightarrow> False | Some chain \<Rightarrow> \<not> written (last chain))
       then Inr damaged
       else bindR (read_disk_page file i) (\<lambda>disk.
         Inr (if checksum_matches hw i disk then damaged else damaged @ [i]))) [0..<page_count] []"

definition write_through :: "bool \<Rightarrow> nat \<Rightarrow> page \<Rightarrow> bytes \<Rightarrow> memory \<Rightarrow> (bytes \<times> memory) res" where
  "write_through hw i data file m =
     bindR (write_page_at hw file i (page_bytes data)) (\<lambda>file.
       bindR (cache_put (mcache m) i (page_checked data)) (\<lambda>c. Inr (file, m\<lparr>mcache := c\<rparr>)))"

subsection \<open>Commits\<close>

definition commit_page :: "nat list \<Rightarrow> nat \<Rightarrow> nat \<times> page \<Rightarrow> memory \<times> (nat \<times> page) list \<Rightarrow> memory \<times> (nat \<times> page) list" where
  "commit_page open_seqs seq = (\<lambda>(i, p) (m, before).
     let chain = (case bm_get (versions m) i of None \<Rightarrow> [] | Some chain \<Rightarrow> chain);
         older_before = length chain - 1;
         (m, chain, before) =
           (if chain \<noteq> [] then
              (if written (last chain) then m\<lparr>unwritten := unwritten m + 1\<rparr> else m, chain, before)
            else
              (let m = m\<lparr>unwritten := unwritten m + 1\<rparr> in
               if open_seqs \<noteq> [] then
                 (case bm_get before i of
                    Some old \<Rightarrow> (m, [\<lparr>vseq = 0, vpage = old, written = True\<rparr>], bm_remove i before)
                  | None \<Rightarrow> (m, chain, before))
               else (m, chain, before)));
         chain = prune open_seqs (chain @ [\<lparr>vseq = seq, vpage = p, written = False\<rparr>])
     in (m\<lparr>versions := bm_put i chain (versions m), older := older m - older_before + (length chain - 1)\<rparr>, before))"

definition pages_commit :: "(nat \<times> page) list \<Rightarrow> (nat \<times> page) list \<Rightarrow> nat list \<Rightarrow> memory \<Rightarrow> memory" where
  "pages_commit dirty before live m =
     (let checked = map (\<lambda>(i, p). (i, page_checked p)) dirty;
          m = m\<lparr>mseq := mseq m + 1\<rparr>;
          open_seqs = still_open m live
      in keep_within_limit live (fst (fold (commit_page open_seqs (mseq m)) checked (m, before))))"

definition commit_replacing :: "(nat \<times> page) list \<Rightarrow> scratch \<Rightarrow> memory \<Rightarrow> memory" where
  "commit_replacing dirty sc m =
     m\<lparr>mseq := mseq m + 1, file_epoch := file_epoch m + 1,
       versions := map (\<lambda>(i, p). (i, [\<lparr>vseq = mseq m + 1, vpage = page_checked p, written = False\<rparr>])) dirty,
       older := 0, mcache := cache_clear (mcache m),
       unwritten := length dirty + (scratch_count sc - 1), replacement := Some sc\<rparr>"

definition set_version_limit :: "nat \<Rightarrow> memory \<Rightarrow> memory" where
  "set_version_limit n m = m\<lparr>limit := n\<rparr>"

definition set_cache_pages :: "nat \<Rightarrow> memory \<Rightarrow> memory" where
  "set_cache_pages n m = m\<lparr>mcache := cache_resize n (mcache m)\<rparr>"

subsection \<open>Checkpoints\<close>

definition waiting_pages :: "memory \<Rightarrow> (nat \<times> page) list" where
  "waiting_pages m =
     map (\<lambda>(i, chain). (i, vpage (last chain))) (filter (\<lambda>(_, chain). \<not> written (last chain)) (versions m))"

definition checkpoint_begin :: "memory \<Rightarrow> memory \<times> (nat \<times> page) list \<times> scratch option" where
  "checkpoint_begin m =
     (let m = m\<lparr>file_epoch := file_epoch m + 1\<rparr> in (m, waiting_pages m, replacement m))"

definition COPY_PAGES :: nat where "COPY_PAGES = 2 ^ 20 div PAGE_SIZE"

text \<open>
  \<open>copy_into\<close>'s loop from page \<open>i\<close> on. The file is returned with the error too: a copy that
  fails leaves it half written. \<open>stop_after\<close> stops it after so many pages.
\<close>

function copy_loop :: "scratch \<Rightarrow> nat option \<Rightarrow> nat \<Rightarrow> bytes \<Rightarrow> bytes \<times> unit res" where
  "copy_loop sc stop_after i file =
     (if i < scratch_count sc then
        let n = min (scratch_count sc - i) COPY_PAGES;
            stop = (case stop_after of None \<Rightarrow> False | Some after \<Rightarrow> i - 1 + n > after);
            n = (case stop_after of None \<Rightarrow> n | Some after \<Rightarrow> if stop then after - (i - 1) else n)
        in (case read_exact_at (scratch_file sc) (n * PAGE_SIZE) (i * PAGE_SIZE) of
              Inl e \<Rightarrow> (file, Inl e)
            | Inr bs \<Rightarrow>
                let file = write_all_at file bs (i * PAGE_SIZE) in
                if stop then (file, Inl (Io OtherError)) else copy_loop sc stop_after (i + n) file)
      else (file, Inr ()))"
  by pat_completeness auto

termination
  by (relation "measure (\<lambda>(sc, _, i, _). scratch_count sc - i)")
    (auto simp: COPY_PAGES_def PAGE_SIZE_def split: option.splits)

declare copy_loop.simps [simp del]

definition copy_into :: "scratch \<Rightarrow> nat option \<Rightarrow> bytes \<Rightarrow> bytes \<times> unit res" where
  "copy_into sc stop_after file = copy_loop sc stop_after 1 file"

text \<open>\<open>write_back\<close>, failing before its page number \<open>stop_after\<close>.\<close>

fun write_back :: "bool \<Rightarrow> nat option \<Rightarrow> (nat \<times> page) list \<Rightarrow> bytes \<Rightarrow> bytes \<times> unit res" where
  "write_back hw stop_after [] file = (file, Inr ())"
| "write_back hw stop_after ((i, p) # waiting) file =
     (if stop_after = Some 0 then (file, Inl (Io OtherError))
      else case write_page_at hw file i (page_bytes p) of
        Inl e \<Rightarrow> (file, Inl e)
      | Inr file \<Rightarrow> write_back hw (map_option (\<lambda>n. n - 1) stop_after) waiting file)"

definition pages_truncate :: "nat \<Rightarrow> bytes \<Rightarrow> memory \<Rightarrow> bytes \<times> memory" where
  "pages_truncate page_count file m =
     (if length file > page_count * PAGE_SIZE
      then (take (page_count * PAGE_SIZE) file, m\<lparr>mcache := cache_retain (\<lambda>i. i < page_count) (mcache m)\<rparr>)
      else (file, m))"

definition mark_written :: "nat \<Rightarrow> nat \<times> page \<Rightarrow> memory \<Rightarrow> memory res" where
  "mark_written page_count = (\<lambda>(i, p) m.
     case bm_get (versions m) i of
       None \<Rightarrow> Inl Panic
     | Some chain \<Rightarrow>
         if chain = [] then Inl Panic
         else let m = m\<lparr>versions := bm_put i (butlast chain @ [(last chain)\<lparr>written := True\<rparr>]) (versions m)\<rparr> in
           if i < page_count then bindR (cache_put (mcache m) i p) (\<lambda>c. Inr (m\<lparr>mcache := c\<rparr>)) else Inr m)"

definition checkpoint_end :: "nat \<Rightarrow> (nat \<times> page) list \<Rightarrow> memory \<Rightarrow> memory res" where
  "checkpoint_end page_count waiting m =
     bindR (foldR (mark_written page_count) waiting m) (\<lambda>m. Inr (m\<lparr>unwritten := 0, replacement := None\<rparr>))"

text \<open>
  What fails during a checkpoint: the copy of an image or the writes after so many pages, the
  cut, the flush.
\<close>

record ckpt_faults =
  copy_stops :: "nat option"
  write_stops :: "nat option"
  cut_fails :: bool
  flush_fails :: bool

definition pages_checkpoint :: "bool \<Rightarrow> ckpt_faults \<Rightarrow> nat \<Rightarrow> nat list \<Rightarrow> bytes \<Rightarrow> memory
    \<Rightarrow> bytes \<times> memory \<times> unit res" where
  "pages_checkpoint hw os page_count live file m =
     (case checkpoint_begin m of (m, waiting, repl) \<Rightarrow>
        if waiting = [] \<and> repl = None then (file, forget live m, Inr ())
        else case (case repl of None \<Rightarrow> (file, Inr ()) | Some sc \<Rightarrow> copy_into sc (copy_stops os) file) of
          (file, Inl e) \<Rightarrow> (file, m, Inl e)
        | (file, Inr _) \<Rightarrow>
            (case write_back hw (write_stops os) waiting file of
               (file, Inl e) \<Rightarrow> (file, m, Inl e)
             | (file, Inr _) \<Rightarrow>
                 if cut_fails os then (file, m, Inl (Io OtherError))
                 else case pages_truncate page_count file m of (file, m) \<Rightarrow>
                   if flush_fails os then (file, m, Inl (Io OtherError))
                   else case checkpoint_end page_count waiting m of
                     Inl e \<Rightarrow> (file, m, Inl e)
                   | Inr m \<Rightarrow> (file, forget live m, Inr ())))"

text \<open>\<open>restore\<close>, for the images of a list in order.\<close>

definition pages_restore :: "bool \<Rightarrow> (nat \<times> bytes) list \<Rightarrow> bytes \<Rightarrow> memory \<Rightarrow> (bytes \<times> memory) res" where
  "pages_restore hw images file m =
     (if versions m \<noteq> [] \<or> replacement m \<noteq> None then Inl Panic
      else let m = m\<lparr>file_epoch := file_epoch m + 1, mcache := cache_clear (mcache m)\<rparr> in
        bindR (foldR (\<lambda>(i, bs) file. write_page_at hw file i bs) images file) (\<lambda>file. Inr (file, m)))"

subsection \<open>What a chain of versions reads as\<close>

definition chain_view :: "version list \<Rightarrow> nat \<Rightarrow> bytes option" where
  "chain_view chain s = map_option (\<lambda>v. page_bytes (vpage v)) (find (\<lambda>v. vseq v \<le> s) (rev chain))"

definition chain_ok :: "version list \<Rightarrow> nat \<Rightarrow> bool" where
  "chain_ok chain upto_seq \<longleftrightarrow> chain \<noteq> [] \<and> sorted_wrt (<) (map vseq chain) \<and> vseq (last chain) \<le> upto_seq"

lemma page_bytes_checked [simp]: "page_bytes (page_checked p) = page_bytes p"
  by (simp add: page_checked_def)

lemma partition_point_first:
  assumes "sorted live" "s \<in> set live" "n \<le> s"
  shows "partition_point (\<lambda>s. s < n) live < length live" "live ! partition_point (\<lambda>s. s < n) live \<le> s"
proof -
  let ?at = "partition_point (\<lambda>s. s < n) live"
  obtain k where k: "k < length live" "live ! k = s" using assms(2) by (auto simp: in_set_conv_nth)
  have "?at \<le> k"
  proof (rule ccontr)
    assume "\<not> ?at \<le> k"
    then have "takeWhile (\<lambda>s. s < n) live ! k = s" "k < length (takeWhile (\<lambda>s. s < n) live)"
      using k by (simp_all add: partition_point_def takeWhile_nth)
    then have "s < n" by (metis nth_mem set_takeWhileD)
    then show False using assms(3) by simp
  qed
  then show "?at < length live" "live ! ?at \<le> s" using k assms(1) by (auto simp: sorted_iff_nth_mono)
qed

lemma prune_rev_view:
  assumes "sorted live" "s \<in> set live" "case nx of None \<Rightarrow> True | Some n \<Rightarrow> s < n"
  shows "find (\<lambda>v. vseq v \<le> s) (prune_rev live nx newest r) = find (\<lambda>v. vseq v \<le> s) r"
  using assms(3)
proof (induction r arbitrary: nx newest)
  case (Cons v r)
  show ?case
  proof (cases "vseq v \<le> s")
    case True
    then show ?thesis using partition_point_first [OF assms(1,2) True] Cons.prems
      by (auto simp: Let_def split: option.splits)
  next
    case False
    then show ?thesis using Cons.IH [of "Some (vseq v)" False] by (simp add: Let_def)
  qed
qed simp

lemma prune_rev_newest: "r \<noteq> [] \<Longrightarrow> \<exists>r'. prune_rev live nx True r = hd r # r'"
  by (cases r) (simp_all add: Let_def)

lemma prune_rev_subseq: "set (map vseq (prune_rev live nx newest r)) \<subseteq> set (map vseq r)"
  "sorted_wrt (\<lambda>a b. b < a) (map vseq r) \<Longrightarrow> sorted_wrt (\<lambda>a b. b < a) (map vseq (prune_rev live nx newest r))"
proof -
  show sub: "set (map vseq (prune_rev live nx newest r)) \<subseteq> set (map vseq r)" for nx newest
    by (induction r arbitrary: nx newest) (auto simp: Let_def)
  show "sorted_wrt (\<lambda>a b. b < a) (map vseq (prune_rev live nx newest r))" if "sorted_wrt (\<lambda>a b. b < a) (map vseq r)"
    using that
  proof (induction r arbitrary: nx newest)
    case (Cons v r)
    have "set (map vseq (prune_rev live nx newest r)) \<subseteq> set (map vseq r)" for nx newest
      by (induction r arbitrary: nx newest) (auto simp: Let_def)
    then have "\<forall>y \<in> set (prune_rev live nx newest r). vseq y < vseq v" for nx newest
      using Cons.prems by (fastforce simp: image_iff)
    then show ?case using Cons by (simp add: Let_def)
  qed simp
qed

lemma prune_last [simp]: "chain \<noteq> [] \<Longrightarrow> prune live chain \<noteq> [] \<and> last (prune live chain) = last chain"
  using prune_rev_newest [of "rev chain" live None] by (auto simp: prune_def hd_rev)

lemma prune_ok: "chain_ok chain upto_seq \<Longrightarrow> chain_ok (prune live chain) upto_seq"
proof -
  assume c: "chain_ok chain upto_seq"
  have "sorted_wrt (<) (map vseq (prune live chain))"
    using c prune_rev_subseq(2) [of "rev chain" live None True]
    by (simp add: prune_def chain_ok_def sorted_wrt_rev flip: rev_map)
  then show ?thesis using c by (simp add: chain_ok_def)
qed

text \<open>What is dropped, no open snapshot reads.\<close>

lemma prune_view:
  assumes "sorted live" "s \<in> set live"
  shows "chain_view (prune live chain) s = chain_view chain s"
  using prune_rev_view [OF assms, of None True "rev chain"] by (simp add: prune_def chain_view_def)

lemma chain_view_last:
  assumes "chain \<noteq> []" "vseq (last chain) \<le> s"
  shows "chain_view chain s = Some (page_bytes (vpage (last chain)))"
  using assms by (cases chain rule: rev_cases) (simp_all add: chain_view_def)

lemma chain_view_append_later: "s < vseq v \<Longrightarrow> chain_view (chain @ [v]) s = chain_view chain s"
  by (simp add: chain_view_def)

lemma length_prune_none: "chain \<noteq> [] \<Longrightarrow> length (prune [] chain) = 1"
proof -
  have none: "prune_rev [] nx False r = []" for nx r by (induction r arbitrary: nx) (simp_all add: Let_def)
  assume "chain \<noteq> []"
  then show ?thesis by (cases chain rule: rev_cases) (auto simp: prune_def Let_def none partition_point_def)
qed

subsection \<open>What forgetting and committing do to the versions\<close>

definition older_count :: "(nat \<times> version list) list \<Rightarrow> nat" where
  "older_count vs = sum_list (map (\<lambda>(_, chain). length chain - 1) vs)"

lemma bm_get_forget:
  assumes "bm_inv (versions m)"
  shows "bm_get (versions (forget live m)) i =
    (case bm_get (versions m) i of None \<Rightarrow> None
     | Some chain \<Rightarrow> let c = prune (still_open m live) chain in if kept_chain c then Some c else None)"
proof -
  have "bm_get (filter (\<lambda>(_, c). kept_chain c) (map (\<lambda>(i, chain). (i, f chain)) vs)) i =
      (case bm_get vs i of None \<Rightarrow> None | Some chain \<Rightarrow> if kept_chain (f chain) then Some (f chain) else None)"
    if "distinct (map fst vs)" for f :: "version list \<Rightarrow> version list" and vs
    using that
  proof (induction vs)
    case (Cons p vs)
    obtain j c where p: "p = (j, c)" by (cases p)
    have "bm_get vs j = None" using Cons.prems p by (simp add: map_of_eq_None_iff)
    then show ?case using Cons p by (auto split: option.splits)
  qed simp
  from this [OF bm_inv_distinct [OF assms], of "prune (still_open m live)"]
  show ?thesis by (simp add: forget_def Let_def cong: option.case_cong)
qed

lemma map_fst_forget: "map fst (map (\<lambda>(i, chain). (i, f chain)) vs) = map fst vs"
  by (induction vs) auto

lemma bm_inv_forget: "bm_inv (versions m) \<Longrightarrow> bm_inv (versions (forget live m))"
  unfolding forget_def Let_def
  by (simp, rule bm_inv_filter) (metis (no_types) bm_inv_def map_fst_forget)

lemma forget_simps [simp]:
  "mcache (forget live m) = mcache m" "replacement (forget live m) = replacement m" "mseq (forget live m) = mseq m"
  "file_epoch (forget live m) = file_epoch m" "limit (forget live m) = limit m"
  "ended_before (forget live m) = ended_before m" "unwritten (forget live m) = unwritten m"
  by (simp_all add: forget_def Let_def)

lemma older_forget: "older (forget live m) = older_count (versions (forget live m))"
proof -
  have "sum_list (map (\<lambda>(_, c). length c - 1) vs) = older_count (filter (\<lambda>(_, c). kept_chain c) vs)" for vs :: "(nat \<times> version list) list"
    by (induction vs) (auto simp: older_count_def kept_chain_def)
  then show ?thesis by (simp add: forget_def Let_def)
qed

definition commit_chain :: "nat list \<Rightarrow> nat \<Rightarrow> version list option \<Rightarrow> page option \<Rightarrow> page \<Rightarrow> version list" where
  "commit_chain open_seqs seq old before p =
     prune open_seqs
       ((case old of
           Some (v # vs) \<Rightarrow> v # vs
         | _ \<Rightarrow> if open_seqs = [] then []
               else (case before of None \<Rightarrow> [] | Some b \<Rightarrow> [\<lparr>vseq = 0, vpage = b, written = True\<rparr>]))
        @ [\<lparr>vseq = seq, vpage = p, written = False\<rparr>])"

lemma commit_page_effect:
  assumes "commit_page open_seqs seq (i, p) (m, before) = (m', before')"
  shows "versions m' = bm_put i (commit_chain open_seqs seq (bm_get (versions m) i) (bm_get before i) p) (versions m)"
    and "\<And>j. j \<noteq> i \<Longrightarrow> bm_get before' j = bm_get before j"
    and "mcache m' = mcache m" "replacement m' = replacement m" "mseq m' = mseq m" "file_epoch m' = file_epoch m"
      "limit m' = limit m" "ended_before m' = ended_before m"
    and "older m' = older m - (case bm_get (versions m) i of None \<Rightarrow> 0 | Some c \<Rightarrow> length c - 1)
      + (length (commit_chain open_seqs seq (bm_get (versions m) i) (bm_get before i) p) - 1)"
  using assms
  by (auto simp: commit_page_def commit_chain_def Let_def split: option.splits list.splits if_splits)

lemma commit_fold:
  assumes "distinct (map fst dirty)" "fold (commit_page open_seqs seq) dirty (m, before) = (m', before')"
  shows "bm_get (versions m') i = (case bm_get dirty i of None \<Rightarrow> bm_get (versions m) i
      | Some p \<Rightarrow> Some (commit_chain open_seqs seq (bm_get (versions m) i) (bm_get before i) p))"
    and "bm_inv (versions m) \<Longrightarrow> bm_inv (versions m')"
    and "mcache m' = mcache m" "replacement m' = replacement m" "mseq m' = mseq m" "file_epoch m' = file_epoch m"
      "limit m' = limit m" "ended_before m' = ended_before m"
proof -
  have "(bm_get (versions m') i = (case bm_get dirty i of None \<Rightarrow> bm_get (versions m) i
      | Some p \<Rightarrow> Some (commit_chain open_seqs seq (bm_get (versions m) i) (bm_get before i) p)))
    \<and> (bm_inv (versions m) \<longrightarrow> bm_inv (versions m')) \<and> mcache m' = mcache m \<and> replacement m' = replacement m
    \<and> mseq m' = mseq m \<and> file_epoch m' = file_epoch m \<and> limit m' = limit m \<and> ended_before m' = ended_before m"
    using assms
  proof (induction dirty arbitrary: m before)
    case (Cons d dirty)
    obtain j p where d: "d = (j, p)" by (cases d)
    obtain m1 b1 where one: "commit_page open_seqs seq (j, p) (m, before) = (m1, b1)" by fastforce
    note e = commit_page_effect [OF one]
    have ih: "distinct (map fst dirty)" "fold (commit_page open_seqs seq) dirty (m1, b1) = (m', before')"
      using Cons.prems d one by simp_all
    have jn: "bm_get dirty j = None" using Cons.prems d by (simp add: map_of_eq_None_iff)
    show ?case using Cons.IH [OF ih] e jn d by (auto split: option.splits)
  qed simp
  then show "bm_get (versions m') i = (case bm_get dirty i of None \<Rightarrow> bm_get (versions m) i
      | Some p \<Rightarrow> Some (commit_chain open_seqs seq (bm_get (versions m) i) (bm_get before i) p))"
    and "bm_inv (versions m) \<Longrightarrow> bm_inv (versions m')"
    and "mcache m' = mcache m" "replacement m' = replacement m" "mseq m' = mseq m" "file_epoch m' = file_epoch m"
      "limit m' = limit m" "ended_before m' = ended_before m" by simp_all
qed

lemma older_count_put:
  assumes "bm_inv vs"
  shows "older_count (bm_put i c vs) = older_count vs - (case bm_get vs i of None \<Rightarrow> 0 | Some c \<Rightarrow> length c - 1) + (length c - 1)"
    "(case bm_get vs i of None \<Rightarrow> 0 | Some c \<Rightarrow> length c - 1) \<le> older_count vs"
proof -
  have "older_count (bm_put i c vs) = older_count vs - (case bm_get vs i of None \<Rightarrow> 0 | Some c \<Rightarrow> length c - 1) + (length c - 1)
    \<and> (case bm_get vs i of None \<Rightarrow> 0 | Some c \<Rightarrow> length c - 1) \<le> older_count vs"
    using assms
  proof (induction vs)
    case (Cons p vs)
    obtain j d where p: "p = (j, d)" by (cases p)
    have inv: "bm_inv vs" "\<forall>k \<in> fst ` set vs. j < k" using Cons.prems p by (auto simp: bm_inv_def)
    then have "bm_get vs i = None" if "i \<le> j" using that by (force simp: map_of_eq_None_iff)
    moreover have oc: "older_count ((k, e) # ws) = length e - 1 + older_count ws" for k e ws
      by (simp add: older_count_def)
    ultimately show ?case using Cons.IH [OF inv(1)] p
      by (cases i j rule: linorder_cases) (simp_all add: oc)
  qed (simp add: older_count_def)
  then show "older_count (bm_put i c vs) = older_count vs - (case bm_get vs i of None \<Rightarrow> 0 | Some c \<Rightarrow> length c - 1) + (length c - 1)"
    "(case bm_get vs i of None \<Rightarrow> 0 | Some c \<Rightarrow> length c - 1) \<le> older_count vs" by blast+
qed

lemma commit_fold_older:
  assumes "bm_inv (versions m)" "older m = older_count (versions m)"
  shows "older (fst (fold (commit_page open_seqs seq) dirty (m, before)))
    = older_count (versions (fst (fold (commit_page open_seqs seq) dirty (m, before))))"
  using assms
proof (induction dirty arbitrary: m before)
  case (Cons d dirty)
  obtain j p where d: "d = (j, p)" by (cases d)
  obtain m1 b1 where one: "commit_page open_seqs seq (j, p) (m, before) = (m1, b1)" by fastforce
  note e = commit_page_effect [OF one]
  have "bm_inv (versions m1)" "older m1 = older_count (versions m1)"
    using e Cons.prems older_count_put(1) [OF Cons.prems(1), of j] by (simp_all only: bm_inv_put)
  then show ?case using Cons.IH d one by simp
qed simp

text \<open>The limit holds after every commit, whichever snapshots are open.\<close>

lemma keep_within_limit_bound:
  assumes "bm_inv (versions m)" "\<forall>chain \<in> ran (bm_get (versions m)). chain \<noteq> []" "older m = older_count (versions m)"
  shows "older (keep_within_limit live m) \<le> limit m"
    "older (keep_within_limit live m) = older_count (versions (keep_within_limit live m))"
    "limit (keep_within_limit live m) = limit m" "mseq (keep_within_limit live m) = mseq m"
proof -
  have "older (keep_within_limit live m) \<le> limit m
    \<and> older (keep_within_limit live m) = older_count (versions (keep_within_limit live m))
    \<and> limit (keep_within_limit live m) = limit m \<and> mseq (keep_within_limit live m) = mseq m"
    using assms
  proof (induction live m rule: keep_within_limit.induct)
    case (1 live m)
    show ?case
    proof (cases "older m > limit m")
      case True
      show ?thesis
      proof (cases "still_open m live")
        case Nil
        have "\<forall>(i, chain) \<in> set (versions m). length (prune [] chain) = 1"
          using "1.prems"(2) bm_inv_distinct [OF "1.prems"(1)]
          by (auto simp: ran_def length_prune_none [simplified])
        then have "older (forget live m) = 0" by (auto simp: forget_def Let_def Nil)
        then show ?thesis using True Nil older_forget [of live m] by (simp add: keep_within_limit.simps [of live m])
      next
        case (Cons oldest rest)
        let ?m = "m\<lparr>ended_before := oldest + 1, ended := ended m + 1\<rparr>"
        have "\<forall>chain \<in> ran (bm_get (versions (forget live ?m))). chain \<noteq> []"
          using "1.prems"(1,2) by (auto simp: ran_def bm_get_forget Let_def split: option.splits if_splits)
        then show ?thesis using "1.IH" [OF True Cons] True Cons bm_inv_forget [of ?m live] "1.prems"(1) older_forget [of live ?m]
          by (simp add: keep_within_limit.simps [of live m])
      qed
    qed (use "1.prems" in \<open>simp add: keep_within_limit.simps [of live m]\<close>)
  qed
  then show "older (keep_within_limit live m) \<le> limit m"
    "older (keep_within_limit live m) = older_count (versions (keep_within_limit live m))"
    "limit (keep_within_limit live m) = limit m" "mseq (keep_within_limit live m) = mseq m" by simp_all
qed

subsection \<open>What a checkpoint's writes do to the file\<close>

lemma write_back_effect:
  assumes "write_back hw stop w file = (file', r)"
  shows "\<And>j b. j \<notin> fst ` set w \<Longrightarrow> disk_page file j = Some b \<Longrightarrow> disk_page file' j = Some b"
    "r = Inr () \<Longrightarrow> distinct (map fst w) \<Longrightarrow> (i, p) \<in> set w \<Longrightarrow> disk_page file' i = Some (page_bytes p)"
proof -
  have "(\<forall>j b. j \<notin> fst ` set w \<and> disk_page file j = Some b \<longrightarrow> disk_page file' j = Some b)
    \<and> (r = Inr () \<and> distinct (map fst w) \<longrightarrow> (\<forall>(i, p) \<in> set w. disk_page file' i = Some (page_bytes p)))"
    using assms
  proof (induction hw stop w "file" rule: write_back.induct)
    case (2 hw stop i p w "file")
    show ?case
    proof (cases "stop = Some 0 \<or> (\<exists>e. write_page_at hw file i (page_bytes p) = Inl e)")
      case True
      then show ?thesis using "2.prems" by (auto split: if_splits)
    next
      case False
      then obtain f where f: "stop \<noteq> Some 0" "write_page_at hw file i (page_bytes p) = Inr f"
        by (cases "write_page_at hw file i (page_bytes p)") auto
      note ih = "2.IH" [OF f] and wr = write_page_at_reads(1,3) [OF f(2)]
      have run: "write_back hw (map_option (\<lambda>n. n - 1) stop) w f = (file', r)" using "2.prems" f by simp
      show ?thesis using ih [OF run] wr by auto
    qed
  qed simp
  then show "\<And>j b. j \<notin> fst ` set w \<Longrightarrow> disk_page file j = Some b \<Longrightarrow> disk_page file' j = Some b"
    "r = Inr () \<Longrightarrow> distinct (map fst w) \<Longrightarrow> (i, p) \<in> set w \<Longrightarrow> disk_page file' i = Some (page_bytes p)" by fast+
qed

lemma write_back_returns:
  "\<forall>(i, p) \<in> set w. length (page_bytes p) = USABLE_PAGE_SIZE \<Longrightarrow> \<exists>file'. write_back hw None w file = (file', Inr ())"
  by (induction w arbitrary: "file") (auto simp: write_page_at_def)

definition copied_page :: "bytes \<Rightarrow> bytes \<Rightarrow> nat \<Rightarrow> bool" where
  "copied_page from to j \<longleftrightarrow> Suc j * PAGE_SIZE \<le> length to
     \<and> slice to (j * PAGE_SIZE) PAGE_SIZE = slice from (j * PAGE_SIZE) PAGE_SIZE"

lemma copied_page_reads: "copied_page from to j \<Longrightarrow> disk_page from j = Some b \<Longrightarrow> disk_page to j = Some b"
  by (simp add: copied_page_def disk_page_cases)

lemma copy_block:
  assumes "read_exact_at from (n * PAGE_SIZE) (i * PAGE_SIZE) = Inr bs" "j < i \<Longrightarrow> copied_page from to j" "j < i + n"
  shows "copied_page from (write_all_at to bs (i * PAGE_SIZE)) j"
proof -
  let ?at = "i * PAGE_SIZE"
  have bs: "bs = slice from ?at (n * PAGE_SIZE)" "?at + n * PAGE_SIZE \<le> length from"
    using assms(1) by (auto simp: read_exact_at_def split: if_splits)
  then have l: "length bs = n * PAGE_SIZE" by (simp add: slice_def)
  define g where "g = to @ replicate (?at + length bs - length to) 0"
  have g: "?at + length bs \<le> length g" "length to \<le> length g" by (simp_all add: g_def)
  have w: "write_all_at to bs ?at = put g ?at bs" by (simp add: write_all_at_def g_def)
  show ?thesis
  proof (cases "j < i")
    case True
    then have "Suc j * PAGE_SIZE \<le> ?at" by (intro mult_le_mono1) simp
    then have "slice (put g ?at bs) (j * PAGE_SIZE) PAGE_SIZE = slice g (j * PAGE_SIZE) PAGE_SIZE"
      using g by (intro slice_put_before) simp_all
    also have "\<dots> = slice to (j * PAGE_SIZE) PAGE_SIZE"
      using assms(2) [OF True] by (simp add: g_def slice_def copied_page_def)
    finally show ?thesis using assms(2) [OF True] g unfolding w by (simp add: copied_page_def)
  next
    case False
    then obtain k where k: "j = i + k" "k < n" using assms(3) by (metis add_less_cancel_left le_Suc_ex not_less)
    then have kn: "Suc k * PAGE_SIZE \<le> n * PAGE_SIZE" by (intro mult_le_mono1) simp
    have "slice (put g ?at bs) (?at + k * PAGE_SIZE) PAGE_SIZE = slice bs (k * PAGE_SIZE) PAGE_SIZE"
      using g(1) kn l by (simp add: slice_def put_def)
    also have "\<dots> = slice from (?at + k * PAGE_SIZE) PAGE_SIZE"
      using kn bs by (simp add: slice_def drop_take add.commute min_def)
    finally show ?thesis using g kn l unfolding w by (simp add: copied_page_def k algebra_simps)
  qed
qed

lemma copy_loop_copies:
  assumes "copy_loop sc stop i file = (file', Inr ())" "\<And>j. 0 < j \<Longrightarrow> j < i \<Longrightarrow> copied_page (scratch_file sc) file j"
    "0 < j" "j < scratch_count sc"
  shows "copied_page (scratch_file sc) file' j"
  using assms
proof (induction sc stop i "file" rule: copy_loop.induct)
  case (1 sc stop i "file")
  show ?case
  proof (cases "i < scratch_count sc")
    case False
    then show ?thesis using "1.prems" copy_loop.simps [of sc stop i "file"] by simp
  next
    case True
    define n where "n = min (scratch_count sc - i) COPY_PAGES"
    note run = "1.prems"(1) [unfolded copy_loop.simps [of sc stop i "file"] Let_def, folded n_def]
    have go: "\<not> (case stop of None \<Rightarrow> False | Some after \<Rightarrow> after < i - 1 + n)"
      using run True by (auto split: sum.splits option.splits if_splits)
    then have n: "(case stop of None \<Rightarrow> n | Some after \<Rightarrow>
      if (case stop of None \<Rightarrow> False | Some after \<Rightarrow> after < i - 1 + n) then after - (i - 1) else n) = n"
      by (auto split: option.splits)
    obtain bs where bs: "read_exact_at (scratch_file sc) (n * PAGE_SIZE) (i * PAGE_SIZE) = Inr bs"
      "copy_loop sc stop (i + n) (write_all_at file bs (i * PAGE_SIZE)) = (file', Inr ())"
      using run True go n by (auto split: sum.splits)
    have "copied_page (scratch_file sc) (write_all_at file bs (i * PAGE_SIZE)) j" if "0 < j" "j < i + n" for j
      using copy_block [OF bs(1), of j "file"] "1.prems"(2) that by blast
    then show ?thesis
      using "1.IH" [OF True n_def refl refl] bs go n "1.prems"(3,4) by auto
  qed
qed

lemma copy_loop_returns:
  assumes "scratch_count sc * PAGE_SIZE \<le> length (scratch_file sc)"
  shows "\<exists>file'. copy_loop sc None i file = (file', Inr ())"
  using assms
proof (induction sc "None :: nat option" i "file" rule: copy_loop.induct)
  case (1 sc i "file")
  show ?case
  proof (cases "i < scratch_count sc")
    case True
    let ?n = "min (scratch_count sc - i) COPY_PAGES"
    have "(i + ?n) * PAGE_SIZE \<le> scratch_count sc * PAGE_SIZE" using True by (intro mult_le_mono1) simp
    then have "i * PAGE_SIZE + ?n * PAGE_SIZE \<le> length (scratch_file sc)" using "1.prems" by (simp add: add_mult_distrib)
    then have rd: "read_exact_at (scratch_file sc) (?n * PAGE_SIZE) (i * PAGE_SIZE)
        = Inr (slice (scratch_file sc) (i * PAGE_SIZE) (?n * PAGE_SIZE))" by (simp add: read_exact_at_def)
    show ?thesis using "1.hyps" [OF True refl refl refl, simplified, OF rd refl "1.prems"] True rd
      by (simp add: copy_loop.simps [of sc None i "file"] Let_def)
  qed (simp add: copy_loop.simps [of sc None i "file"])
qed

end
