(* ===== verification/Isolation.thy ===== *)
theory Isolation
  imports Pages
begin

text \<open>
  Snapshots beside a writer (\<open>src/src/storage/pages.rs\<close>, \<open>src/src/storage/snapshot.rs\<close>). The step
  relation \<open>pages_step\<close> interleaves what the threads of a database do with its committed pages:
  commits, compactions' commits, checkpoints piece by piece (their writes torn, their failures),
  snapshots opening and closing, versions forgotten, and readers that miss the cache, read the
  file and fill the cache. \<open>hist s i\<close> is what page \<open>i\<close> was at commit \<open>s\<close> and \<open>pcount s\<close> how many
  pages there were.

  The invariant \<open>sys_inv\<close>: for every commit a reader may still ask for, the versions in memory
  read as the page was then, or, where there are none, the file (or the image that replaces it)
  does; a cached page is the file's unless a newer version waits.
\<close>

subsection \<open>The system and its steps\<close>

record reader =
  r_page :: nat
  r_seq :: nat
  r_epoch :: nat
  r_read :: "page res option"

record system =
  sfile :: bytes
  smem :: memory
  hist :: "nat \<Rightarrow> nat \<Rightarrow> bytes"
  pcount :: "nat \<Rightarrow> nat"
  open_at :: "nat list"
  ckpt :: "(nat \<times> page) list option"
  readers :: "reader list"

text \<open>The commits that can be read: those of the snapshots open and not ended, and the newest.\<close>

definition readable :: "memory \<Rightarrow> nat list \<Rightarrow> nat set" where
  "readable m live = {s \<in> set live. ended_before m \<le> s} \<union> {mseq m}"

definition fresh_system :: "bytes \<Rightarrow> nat \<Rightarrow> nat \<Rightarrow> system" where
  "fresh_system file page_count cache_pages =
     \<lparr>sfile = file, smem = memory_new cache_pages, hist = (\<lambda>_ i. the (disk_page file i)), pcount = (\<lambda>_. page_count),
      open_at = [], ckpt = None, readers = []\<rparr>"

inductive pages_step :: "system \<Rightarrow> system \<Rightarrow> bool" where
  commit: "\<lbrakk>ckpt st = None; bm_inv dirty; pcount st (mseq (smem st)) \<le> n;
     \<forall>i p. bm_get dirty i = Some p \<longrightarrow> i < n \<and> length (page_bytes p) = USABLE_PAGE_SIZE;
     \<forall>i. pcount st (mseq (smem st)) \<le> i \<and> i < n \<longrightarrow> bm_get dirty i \<noteq> None;
     \<forall>i. bm_get dirty i \<noteq> None \<and> i < pcount st (mseq (smem st)) \<longrightarrow>
       (\<exists>p. bm_get before i = Some p \<and> page_bytes p = hist st (mseq (smem st)) i)\<rbrakk>
   \<Longrightarrow> pages_step st (st\<lparr>smem := pages_commit dirty before (open_at st) (smem st),
     hist := (hist st)(mseq (smem st) + 1 :=
       (\<lambda>i. case bm_get dirty i of None \<Rightarrow> hist st (mseq (smem st)) i | Some p \<Rightarrow> page_bytes p)),
     pcount := (pcount st)(mseq (smem st) + 1 := n)\<rparr>)"
| replace: "\<lbrakk>ckpt st = None; open_at st = []; readers st = []; 0 < scratch_count sc; length (page_bytes header) = USABLE_PAGE_SIZE;
     \<forall>i. 0 < i \<and> i < scratch_count sc \<longrightarrow> disk_page (scratch_file sc) i = Some (img i)\<rbrakk>
   \<Longrightarrow> pages_step st (st\<lparr>smem := commit_replacing [(0, header)] sc (smem st),
     hist := (hist st)(mseq (smem st) + 1 := (\<lambda>i. if i = 0 then page_bytes header else img i)),
     pcount := (pcount st)(mseq (smem st) + 1 := scratch_count sc)\<rparr>)"
| open_snapshot: "pages_step st
     (st\<lparr>open_at := (if mseq (smem st) \<in> set (open_at st) then open_at st else open_at st @ [mseq (smem st)])\<rparr>)"
| close_snapshot: "pages_step st (st\<lparr>open_at := removeAll s (open_at st)\<rparr>)"
| forget: "pages_step st (st\<lparr>smem := forget (open_at st) (smem st)\<rparr>)"
| version_limit: "pages_step st (st\<lparr>smem := set_version_limit n (smem st)\<rparr>)"
| cache_pages: "pages_step st (st\<lparr>smem := set_cache_pages n (smem st)\<rparr>)"
| ckpt_begin: "\<lbrakk>ckpt st = None; checkpoint_begin (smem st) = (m, w, repl)\<rbrakk>
   \<Longrightarrow> pages_step st (st\<lparr>smem := m, ckpt := Some w\<rparr>)"
| ckpt_write: "\<lbrakk>ckpt st = Some w;
     replacement (smem st) = None \<longrightarrow>
       (\<forall>j b. j \<notin> fst ` set w \<and> disk_page (sfile st) j = Some b \<longrightarrow> disk_page file' j = Some b)\<rbrakk>
   \<Longrightarrow> pages_step st (st\<lparr>sfile := file'\<rparr>)"
| ckpt_cut: "\<lbrakk>ckpt st = Some w; pages_truncate (pcount st (mseq (smem st))) (sfile st) (smem st) = (file', m)\<rbrakk>
   \<Longrightarrow> pages_step st (st\<lparr>sfile := file', smem := m\<rparr>)"
| ckpt_fail: "ckpt st = Some w \<Longrightarrow> pages_step st (st\<lparr>ckpt := None\<rparr>)"
| ckpt_end: "\<lbrakk>ckpt st = Some w; \<forall>(i, p) \<in> set w. disk_page (sfile st) i = Some (page_bytes p);
     \<forall>sc i b. replacement (smem st) = Some sc \<and> 0 < i \<and> i < scratch_count sc \<and> i \<notin> fst ` set w
       \<and> disk_page (scratch_file sc) i = Some b \<longrightarrow> disk_page (sfile st) i = Some b;
     checkpoint_end (pcount st (mseq (smem st))) w (smem st) = Inr m\<rbrakk>
   \<Longrightarrow> pages_step st (st\<lparr>smem := m, ckpt := None\<rparr>)"
| read_hit: "read_lookup hw i s (smem st) = (m, Found p) \<Longrightarrow> pages_step st (st\<lparr>smem := m\<rparr>)"
| read_miss: "\<lbrakk>s \<in> readable (smem st) (open_at st); i < pcount st s; read_lookup hw i s (smem st) = (m, AskFile epoch)\<rbrakk>
   \<Longrightarrow> pages_step st
     (st\<lparr>smem := m, readers := \<lparr>r_page = i, r_seq = s, r_epoch = epoch, r_read = None\<rparr> # readers st\<rparr>)"
| read_file: "readers st = xs @ r # ys
   \<Longrightarrow> pages_step st (st\<lparr>readers := xs @ r\<lparr>r_read := Some (read_page_at hw (sfile st) (r_page r))\<rparr> # ys\<rparr>)"
| read_done: "\<lbrakk>readers st = xs @ r # ys; r_read r = Some rd;
     read_finish rd (r_page r) (r_epoch r) (smem st) = (m, answer)\<rbrakk>
   \<Longrightarrow> pages_step st (st\<lparr>smem := m, readers := xs @ ys\<rparr>)"

inductive reachable :: "system \<Rightarrow> system \<Rightarrow> bool" for st0 where
  start: "reachable st0 st0"
| step: "\<lbrakk>reachable st0 st; pages_step st st'\<rbrakk> \<Longrightarrow> reachable st0 st'"

inductive_cases pages_stepE: "pages_step st st'"

subsection \<open>The invariant\<close>

definition base_page :: "bytes \<Rightarrow> memory \<Rightarrow> nat \<Rightarrow> bytes option" where
  "base_page file m i = (case replacement m of None \<Rightarrow> disk_page file i | Some sc \<Rightarrow> disk_page (scratch_file sc) i)"

definition waits :: "memory \<Rightarrow> nat \<Rightarrow> bool" where
  "waits m i \<longleftrightarrow> (case bm_get (versions m) i of None \<Rightarrow> False | Some chain \<Rightarrow> \<not> written (last chain))"

definition vers_ok :: "bytes \<Rightarrow> memory \<Rightarrow> (nat \<Rightarrow> nat \<Rightarrow> bytes) \<Rightarrow> (nat \<Rightarrow> nat) \<Rightarrow> nat list \<Rightarrow> nat \<Rightarrow> bool" where
  "vers_ok file m H C live i \<longleftrightarrow>
     (case bm_get (versions m) i of
        None \<Rightarrow> \<forall>s \<in> readable m live. i < C s \<longrightarrow> base_page file m i = Some (H s i)
      | Some chain \<Rightarrow> i < C (mseq m) \<and> chain_ok chain (mseq m)
          \<and> (\<forall>s \<in> readable m live. i < C s \<longrightarrow> chain_view chain s = Some (H s i))
          \<and> (written (last chain) \<longrightarrow> replacement m = None \<and> disk_page file i = Some (page_bytes (vpage (last chain)))))"

definition cache_ok :: "bytes \<Rightarrow> memory \<Rightarrow> bool" where
  "cache_ok file m \<longleftrightarrow> cache_inv (mcache m)
     \<and> (\<forall>i p. cache_view (mcache m) i = Some p \<longrightarrow>
          replacement m = None \<and> (waits m i \<or> disk_page file i = Some (page_bytes p)))"

definition mem_ok :: "bytes \<Rightarrow> memory \<Rightarrow> (nat \<Rightarrow> nat \<Rightarrow> bytes) \<Rightarrow> (nat \<Rightarrow> nat) \<Rightarrow> nat list \<Rightarrow> bool" where
  "mem_ok file m H C live \<longleftrightarrow>
     sorted live \<and> (\<forall>s \<in> set live. s \<le> mseq m) \<and> ended_before m \<le> mseq m \<and> bm_inv (versions m)
     \<and> (\<forall>s \<in> readable m live. C s \<le> C (mseq m)) \<and> (\<forall>i. vers_ok file m H C live i) \<and> cache_ok file m
     \<and> (\<forall>sc i. replacement m = Some sc \<and> (i = 0 \<or> scratch_count sc \<le> i) \<and> i < C (mseq m) \<longrightarrow> waits m i)"

definition reader_ok :: "system \<Rightarrow> reader \<Rightarrow> bool" where
  "reader_ok st r \<longleftrightarrow> r_epoch r \<le> file_epoch (smem st) \<and> r_seq r \<le> mseq (smem st)
     \<and> r_page r < pcount st (mseq (smem st))
     \<and> (r_epoch r = file_epoch (smem st) \<longrightarrow> replacement (smem st) = None
         \<and> disk_page (sfile st) (r_page r) = Some (hist st (r_seq r) (r_page r))
         \<and> (ckpt st \<noteq> None \<longrightarrow> bm_get (versions (smem st)) (r_page r) = None)
         \<and> (\<forall>rd. r_read r = Some rd \<longrightarrow> (\<exists>p. rd = Inr p \<and> page_bytes p = hist st (r_seq r) (r_page r))))"

definition sys_inv :: "system \<Rightarrow> bool" where
  "sys_inv st \<longleftrightarrow> mem_ok (sfile st) (smem st) (hist st) (pcount st) (open_at st)
     \<and> (\<forall>w. ckpt st = Some w \<longrightarrow> w = waiting_pages (smem st))
     \<and> (\<forall>r \<in> set (readers st). reader_ok st r)"

lemma still_open_readable: "sorted live \<Longrightarrow> set (still_open m live) = {s \<in> set live. ended_before m \<le> s}"
proof -
  assume "sorted live"
  then have "set (dropWhile (\<lambda>s. s < n) live) = {s \<in> set live. n \<le> s}" for n by (induction live) auto
  then show ?thesis by (simp add: still_open_def partition_point_def dropWhile_eq_drop)
qed

lemma sorted_still_open: "sorted live \<Longrightarrow> sorted (still_open m live)"
  by (simp add: still_open_def sorted_wrt_drop)

lemma readable_eq: "sorted live \<Longrightarrow> readable m live = set (still_open m live) \<union> {mseq m}"
  by (simp add: readable_def still_open_readable)

lemma mseq_readable [simp]: "mseq m \<in> readable m live"
  by (simp add: readable_def)

lemma vers_okD:
  assumes "vers_ok file m H C live i"
  shows "bm_get (versions m) i = None \<Longrightarrow> s \<in> readable m live \<Longrightarrow> i < C s \<Longrightarrow> base_page file m i = Some (H s i)"
    "bm_get (versions m) i = Some chain \<Longrightarrow> chain_ok chain (mseq m)"
    "bm_get (versions m) i = Some chain \<Longrightarrow> s \<in> readable m live \<Longrightarrow> i < C s \<Longrightarrow> chain_view chain s = Some (H s i)"
    "bm_get (versions m) i = Some chain \<Longrightarrow> i < C (mseq m)"
    "bm_get (versions m) i = Some chain \<Longrightarrow> written (last chain) \<Longrightarrow>
       replacement m = None \<and> disk_page file i = Some (page_bytes (vpage (last chain)))"
  using assms by (auto simp: vers_ok_def split: option.splits)

lemma prune_view_readable:
  assumes "sorted live" "s \<in> readable m live" "chain_ok chain (mseq m)"
  shows "chain_view (prune (still_open m live) chain) s = chain_view chain s"
proof (cases "s = mseq m")
  case True
  then show ?thesis using assms(3) prune_ok [OF assms(3), of "still_open m live"]
    by (simp add: chain_view_last chain_ok_def)
next
  case False
  then have "s \<in> set (still_open m live)" using assms by (simp add: readable_eq)
  then show ?thesis using prune_view sorted_still_open assms(1) by blast
qed

subsection \<open>Forgetting\<close>

lemma readable_forget [simp]: "readable (forget l m) live = readable m live"
  by (simp add: readable_def)

lemma base_page_forget [simp]: "base_page file (forget l m) i = base_page file m i"
  by (simp add: base_page_def)

lemma mem_ok_parts:
  assumes "mem_ok file m H C live"
  shows "sorted live" "\<And>s. s \<in> set live \<Longrightarrow> s \<le> mseq m" "ended_before m \<le> mseq m" "bm_inv (versions m)"
    "\<And>s. s \<in> readable m live \<Longrightarrow> C s \<le> C (mseq m)" "\<And>i. vers_ok file m H C live i" "cache_ok file m"
    "\<And>sc i. replacement m = Some sc \<Longrightarrow> i = 0 \<or> scratch_count sc \<le> i \<Longrightarrow> i < C (mseq m) \<Longrightarrow> waits m i"
  using assms by (auto simp: mem_ok_def)

lemma kept_prune: "c \<noteq> [] \<Longrightarrow> \<not> written (last c) \<Longrightarrow> kept_chain (prune l c)"
proof -
  assume c: "c \<noteq> []" "\<not> written (last c)"
  then have "prune l c \<noteq> []" "last (prune l c) = last c" by simp_all
  then show ?thesis using c(2) by (auto simp: kept_chain_def length_Suc_conv)
qed

lemma mem_ok_cong:
  assumes "versions m' = versions m" "mcache m' = mcache m" "replacement m' = replacement m" "mseq m' = mseq m"
    "ended_before m' = ended_before m"
  shows "mem_ok file m' H C live = mem_ok file m H C live"
  unfolding mem_ok_def vers_ok_def cache_ok_def waits_def readable_def base_page_def assms by (rule refl)

lemma waits_forget:
  assumes "mem_ok file m H C live"
  shows "waits (forget live m) i = waits m i"
proof (cases "bm_get (versions m) i")
  case (Some c)
  then have "c \<noteq> []" using vers_okD(2) [OF mem_ok_parts(6) [OF assms]] by (auto simp: chain_ok_def)
  then show ?thesis using Some mem_ok_parts(4) [OF assms] kept_prune [of c] by (auto simp: waits_def bm_get_forget Let_def)
qed (use mem_ok_parts(4) [OF assms] in \<open>simp add: waits_def bm_get_forget\<close>)

lemma vers_ok_forget:
  assumes "mem_ok file m H C live"
  shows "vers_ok file (forget live m) H C live i"
proof (cases "bm_get (versions m) i")
  case None
  then show ?thesis using mem_ok_parts(4) [OF assms] vers_okD(1) [OF mem_ok_parts(6) [OF assms] None]
    by (simp add: vers_ok_def bm_get_forget Let_def)
next
  case (Some chain)
  note ok = vers_okD [OF mem_ok_parts(6) [OF assms, of i]]
  let ?c = "prune (still_open m live) chain"
  have c: "chain_ok ?c (mseq m)" "chain_ok chain (mseq m)" using ok(2) [OF Some] prune_ok by blast+
  have l: "last ?c = last chain" using c(2) by (simp add: chain_ok_def)
  have view: "chain_view ?c s = Some (H s i)" if "s \<in> readable m live" "i < C s" for s
    using prune_view_readable [OF mem_ok_parts(1) [OF assms] that(1) c(2)] ok(3) [OF Some that] by simp
  show ?thesis
  proof (cases "kept_chain ?c")
    case True
    then show ?thesis using Some mem_ok_parts(4) [OF assms] c(1) view l ok(4,5) [OF Some]
      by (simp add: vers_ok_def bm_get_forget Let_def)
  next
    case False
    then obtain v where v: "?c = [v]" "written v" by (auto simp: kept_chain_def length_Suc_conv)
    then have "base_page file m i = Some (page_bytes (vpage v))" using ok(5) [OF Some] l by (auto simp: base_page_def)
    moreover have "H s i = page_bytes (vpage v)" if "s \<in> readable m live" "i < C s" for s
      using view [OF that] v(1) by (simp add: chain_view_def split: if_splits)
    moreover have "bm_get (versions (forget live m)) i = None"
      using Some mem_ok_parts(4) [OF assms] False by (simp add: bm_get_forget Let_def)
    ultimately show ?thesis by (simp add: vers_ok_def)
  qed
qed

lemma mem_ok_forget:
  assumes "mem_ok file m H C live"
  shows "mem_ok file (forget live m) H C live"
  using assms vers_ok_forget [OF assms] waits_forget [OF assms] bm_inv_forget
  by (auto simp: mem_ok_def cache_ok_def)

lemma waiting_pages_forget:
  assumes "mem_ok file m H C live"
  shows "waiting_pages (forget live m) = waiting_pages m"
proof -
  have ne: "\<forall>(i, chain) \<in> set (versions m). chain \<noteq> []"
    using vers_okD(2) [OF mem_ok_parts(6) [OF assms]] bm_inv_distinct [OF mem_ok_parts(4) [OF assms]]
    by (auto simp: chain_ok_def dest: map_of_is_SomeI)
  have "map (\<lambda>(i, c). (i, vpage (last c))) (filter (\<lambda>(_, c). \<not> written (last c))
        (filter (\<lambda>(_, c). kept_chain c) (map (\<lambda>(i, c). (i, prune l c)) vs)))
      = map (\<lambda>(i, c). (i, vpage (last c))) (filter (\<lambda>(_, c). \<not> written (last c)) vs)"
    if "\<forall>(i, chain) \<in> set vs. chain \<noteq> []" for l and vs :: "(nat \<times> version list) list"
    using that
  proof (induction vs)
    case (Cons p vs)
    obtain i c where p: "p = (i, c)" by (cases p)
    then have "c \<noteq> []" using Cons.prems by auto
    then show ?case using Cons p kept_prune [of c l] by auto
  qed simp
  from this [OF ne] show ?thesis by (simp add: waiting_pages_def forget_def Let_def)
qed

subsection \<open>Committing\<close>

lemma mem_ok_ended:
  assumes "mem_ok file m H C live" "ended_before m \<le> n" "n \<le> mseq m"
  shows "mem_ok file (m\<lparr>ended_before := n, ended := e\<rparr>) H C live"
proof -
  let ?m = "m\<lparr>ended_before := n, ended := e\<rparr>"
  have r: "readable ?m live \<subseteq> readable m live" using assms(2) by (auto simp: readable_def)
  have "vers_ok file ?m H C live i" for i
    using mem_ok_parts(6) [OF assms(1), of i] r by (auto simp: vers_ok_def base_page_def split: option.splits)
  then show ?thesis using assms r by (auto simp: mem_ok_def cache_ok_def waits_def)
qed

lemma keep_within_limit_file_epoch:
  "file_epoch (keep_within_limit live m) = file_epoch m \<and> replacement (keep_within_limit live m) = replacement m
     \<and> mseq (keep_within_limit live m) = mseq m"
proof (induction live m rule: keep_within_limit.induct)
  case (1 live m)
  show ?case
    using "1.IH" by (subst (1 2 3) keep_within_limit.simps) (auto split: list.splits)
qed

lemma mem_ok_keep_within_limit:
  assumes "mem_ok file m H C live" "\<And>s. s \<in> set live \<Longrightarrow> s < mseq m"
  shows "mem_ok file (keep_within_limit live m) H C live"
  using assms
proof (induction live m rule: keep_within_limit.induct)
  case (1 live m)
  show ?case
  proof (cases "older m > limit m")
    case True
    show ?thesis
    proof (cases "still_open m live")
      case Nil
      then show ?thesis using True mem_ok_forget [OF "1.prems"(1)] by (simp add: keep_within_limit.simps [of live m])
    next
      case (Cons oldest rest)
      have "oldest \<in> set (still_open m live)" using Cons by simp
      then have o: "oldest \<in> set live" "ended_before m \<le> oldest"
        using still_open_readable [OF mem_ok_parts(1) [OF "1.prems"(1)]] by auto
      then have "mem_ok file (m\<lparr>ended_before := oldest + 1, ended := ended m + 1\<rparr>) H C live"
        using "1.prems" by (intro mem_ok_ended) fastforce+
      from mem_ok_forget [OF this] show ?thesis
        using "1.IH" [OF True Cons] "1.prems"(2) True Cons by (simp add: keep_within_limit.simps [of live m])
    qed
  qed (use "1.prems" in \<open>simp add: keep_within_limit.simps [of live m]\<close>)
qed

lemma chain_ok_snoc:
  assumes "c = [] \<or> chain_ok c n" "n < vseq v" "vseq v \<le> k"
  shows "chain_ok (c @ [v]) k"
proof (cases c rule: rev_cases)
  case (snoc c' y)
  then have "vseq y \<le> n" "\<forall>x \<in> set c'. vseq x < vseq y" "sorted_wrt (<) (map vseq c)"
    using assms(1) by (auto simp: chain_ok_def sorted_wrt_append)
  then have "\<forall>x \<in> set c. vseq x < vseq v" using snoc assms(2) by auto
  then show ?thesis using \<open>sorted_wrt (<) (map vseq c)\<close> assms(3) by (simp add: chain_ok_def sorted_wrt_append)
qed (use assms(3) in \<open>simp add: chain_ok_def\<close>)

lemma commit_chain_ok:
  fixes p :: page
  assumes ok: "mem_ok file m H C live" and i: "i < n" "C (mseq m) \<le> n"
    and before: "i < C (mseq m) \<Longrightarrow> \<exists>b. before = Some b \<and> page_bytes b = H (mseq m) i"
  defines "c \<equiv> commit_chain (still_open m live) (mseq m + 1) (bm_get (versions m) i) before p"
  shows "chain_ok c (mseq m + 1)" "\<not> written (last c)" "chain_view c (mseq m + 1) = Some (page_bytes p)"
    "s \<in> set (still_open m live) \<Longrightarrow> i < C s \<Longrightarrow> chain_view c s = Some (H s i)"
proof -
  let ?o = "still_open m live" and ?v = "\<lparr>vseq = mseq m + 1, vpage = p, written = False\<rparr>"
  note so = mem_ok_parts(1) [OF ok] and vok = vers_okD [OF mem_ok_parts(6) [OF ok, of i]]
  obtain c0 where c: "c = prune ?o (c0 @ [?v])" and c0: "c0 = [] \<or> chain_ok c0 (mseq m)"
    and view: "\<And>s. s \<in> set ?o \<Longrightarrow> i < C s \<Longrightarrow> chain_view c0 s = Some (H s i)"
  proof (cases "bm_get (versions m) i")
    case (Some chain)
    note cok = vok(2) [OF Some]
    then have "c = prune ?o (chain @ [?v])" using Some by (auto simp: c_def commit_chain_def chain_ok_def split: list.splits)
    then show ?thesis using that [of chain] cok vok(3) [OF Some] so by (simp add: readable_eq)
  next
    case None
    let ?c0 = "if ?o = [] then [] else (case before of None \<Rightarrow> [] | Some b \<Rightarrow> [\<lparr>vseq = 0, vpage = b, written = True\<rparr>])"
    have "c = prune ?o (?c0 @ [?v])" using None by (simp add: c_def commit_chain_def)
    moreover have "?c0 = [] \<or> chain_ok ?c0 (mseq m)" by (simp add: chain_ok_def split: option.splits)
    moreover have "chain_view ?c0 s = Some (H s i)" if s: "s \<in> set ?o" "i < C s" for s
    proof -
      have rd: "s \<in> readable m live" using s so by (simp add: readable_eq)
      have lt: "i < C (mseq m)" using mem_ok_parts(5) [OF ok rd] s(2) by simp
      have "H s i = H (mseq m) i" using vok(1) [OF None rd s(2)] vok(1) [OF None mseq_readable lt] by simp
      then show ?thesis using before [OF lt] s(1) by (auto simp: chain_view_def)
    qed
    ultimately show ?thesis using that [of ?c0] by blast
  qed
  have snoc: "chain_ok (c0 @ [?v]) (mseq m + 1)" using chain_ok_snoc [OF c0, of ?v] by simp
  then show cc: "chain_ok c (mseq m + 1)" unfolding c by (rule prune_ok)
  have l: "last c = ?v" unfolding c by simp
  then show "\<not> written (last c)" by simp
  show "chain_view c (mseq m + 1) = Some (page_bytes p)" using chain_view_last [of c] cc l by (simp add: chain_ok_def)
  assume s: "s \<in> set ?o" "i < C s"
  then have "s < mseq m + 1" using mem_ok_parts(2) [OF ok, of s] still_open_sub [of m live] by auto
  then show "chain_view c s = Some (H s i)"
    using prune_view [OF sorted_still_open [OF so] s(1), of "c0 @ [?v]"] view [OF s] c
    by (simp add: chain_view_append_later)
qed

lemma mem_ok_commit:
  assumes ok: "mem_ok file m H C live" and d: "bm_inv dirty" "\<forall>i. bm_get dirty i \<noteq> None \<longrightarrow> i < n"
      "\<forall>i. C (mseq m) \<le> i \<and> i < n \<longrightarrow> bm_get dirty i \<noteq> None" and n: "C (mseq m) \<le> n"
    and before: "\<forall>i. bm_get dirty i \<noteq> None \<and> i < C (mseq m) \<longrightarrow>
      (\<exists>p. bm_get before i = Some p \<and> page_bytes p = H (mseq m) i)"
  defines "H' \<equiv> H(mseq m + 1 := (\<lambda>i. case bm_get dirty i of None \<Rightarrow> H (mseq m) i | Some p \<Rightarrow> page_bytes p))"
    and "C' \<equiv> C(mseq m + 1 := n)"
  shows "mem_ok file (pages_commit dirty before live m) H' C' live"
    "file_epoch (pages_commit dirty before live m) = file_epoch m"
    "replacement (pages_commit dirty before live m) = replacement m"
    "mseq (pages_commit dirty before live m) = mseq m + 1"
proof -
  let ?m1 = "m\<lparr>mseq := mseq m + 1\<rparr>" and ?dirty = "map (\<lambda>(i, p). (i, page_checked p)) dirty"
  have o: "still_open ?m1 live = still_open m live" by (simp add: still_open_def)
  let ?o = "still_open m live"
  have fst_dirty: "map fst ?dirty = map fst dirty" by (induction dirty) auto
  obtain m2 b2 where m2: "fold (commit_page ?o (mseq m + 1)) ?dirty (?m1, before) = (m2, b2)" by fastforce
  have run: "pages_commit dirty before live m = keep_within_limit live m2"
    using m2 by (simp add: pages_commit_def Let_def o [simplified])
  have dd: "distinct (map fst ?dirty)" unfolding fst_dirty by (rule bm_inv_distinct [OF d(1)])
  note f = commit_fold [OF dd m2]
  have get: "bm_get (versions m2) i = (case bm_get dirty i of None \<Rightarrow> bm_get (versions m) i
    | Some p \<Rightarrow> Some (commit_chain ?o (mseq m + 1) (bm_get (versions m) i) (bm_get before i) (page_checked p)))" for i
    using f(1) [of i] by (simp add: map_of_map split: option.splits)
  note so = mem_ok_parts(1) [OF ok]
  have lt: "s \<le> mseq m" if "s \<in> set ?o" for s using that still_open_sub [of m live] mem_ok_parts(2) [OF ok] by blast
  have rd: "readable m2 live = set ?o \<union> {mseq m + 1}"
    using f(5,8) by (simp add: readable_def still_open_readable [OF so])
  have old: "H' s = H s" "C' s = C s" if "s \<in> set ?o" for s using lt [OF that] by (simp_all add: H'_def C'_def)
  have oldrd: "s \<in> readable m live" if "s \<in> set ?o" for s using that so by (simp add: readable_eq)
  have new: "H' (mseq m + 1) i = (case bm_get dirty i of None \<Rightarrow> H (mseq m) i | Some p \<Rightarrow> page_bytes p)"
    "C' (mseq m + 1) = n" for i by (simp_all add: H'_def C'_def)
  have "vers_ok file m2 H' C' live i" for i
  proof (cases "bm_get dirty i")
    case (Some p)
    let ?c = "commit_chain ?o (mseq m + 1) (bm_get (versions m) i) (bm_get before i) (page_checked p)"
    have i: "i < n" using d(2) Some by simp
    have b: "i < C (mseq m) \<Longrightarrow> \<exists>b. bm_get before i = Some b \<and> page_bytes b = H (mseq m) i" using before Some by simp
    note c = commit_chain_ok [OF ok i n b, where p = "page_checked p", simplified]
    have "chain_view ?c s = Some (H' s i)" if "s \<in> readable m2 live" "i < C' s" for s
      using that c(3,4) Some old rd new by auto
    then show ?thesis using get Some c(1,2) f(5) i new(2) by (simp add: vers_ok_def)
  next
    case None
    have small: "i < n \<Longrightarrow> i < C (mseq m)" using d(3) None by (meson not_less)
    note vok = vers_okD [OF mem_ok_parts(6) [OF ok, of i]]
    show ?thesis
    proof (cases "bm_get (versions m) i")
      case v: None
      have "base_page file m2 i = Some (H' s i)" if "s \<in> readable m2 live" "i < C' s" for s
        using that vok(1) [OF v oldrd] vok(1) [OF v mseq_readable] old rd new None small f(4) by (auto simp: base_page_def)
      then show ?thesis using get [of i] None v by (simp add: vers_ok_def)
    next
      case (Some chain)
      note cok = vok(2) [OF Some]
      have top_view: "chain_view chain (mseq m + 1) = chain_view chain (mseq m)"
        using cok by (simp add: chain_ok_def chain_view_last)
      have "chain_view chain s = Some (H' s i)" if "s \<in> readable m2 live" "i < C' s" for s
        using that vok(3) [OF Some oldrd] vok(3) [OF Some mseq_readable] old rd new None small top_view by auto
      then show ?thesis using get [of i] None Some cok vok(4,5) [OF Some] f(4,5) n new(2)
        by (auto simp: vers_ok_def chain_ok_def)
    qed
  qed
  moreover have w: "waits m i \<Longrightarrow> waits m2 i" for i
    using get [of i] commit_chain_ok(2) [OF ok _ n, of i "bm_get before i"] before d(2)
    by (auto simp: waits_def split: option.splits)
  moreover have "cache_ok file m2" using mem_ok_parts(7) [OF ok] w f(3,4) by (auto simp: cache_ok_def)
  moreover have "waits m2 i" if "i < C' (mseq m2)" "replacement m2 = Some sc" "i = 0 \<or> scratch_count sc \<le> i" for sc i
  proof (cases "bm_get dirty i")
    case None
    then have "i < C (mseq m)" using that(1) d(3) f(5) new(2) by (metis memory.select_convs(5) memory.surjective memory.update_convs(5) not_less)
    then show ?thesis using w mem_ok_parts(8) [OF ok] that f(4) by simp
  next
    case (Some p)
    then show ?thesis using get [of i] commit_chain_ok(2) [OF ok _ n, of i "bm_get before i"] before d(2) by (auto simp: waits_def)
  qed
  ultimately have "mem_ok file m2 H' C' live"
    using so f(2,5,8) mem_ok_parts(2,3,4,5) [OF ok] rd old new n oldrd lt
    by (fastforce simp: mem_ok_def le_SucI)
  then show "mem_ok file (pages_commit dirty before live m) H' C' live"
    unfolding run using f(5) mem_ok_parts(2) [OF ok] by (intro mem_ok_keep_within_limit) (simp_all add: less_Suc_eq_le)
  show "file_epoch (pages_commit dirty before live m) = file_epoch m"
    "replacement (pages_commit dirty before live m) = replacement m"
    "mseq (pages_commit dirty before live m) = mseq m + 1"
    unfolding run using f keep_within_limit_file_epoch by simp_all
qed

subsection \<open>The cache and the file\<close>

lemma readable_cache [simp]: "readable (m\<lparr>mcache := c\<rparr>) live = readable m live"
  by (simp add: readable_def)

lemma vers_ok_cache [simp]: "vers_ok file (m\<lparr>mcache := c\<rparr>) H C live i = vers_ok file m H C live i"
  by (simp add: vers_ok_def base_page_def cong: option.case_cong)

lemma waits_cache [simp]: "waits (m\<lparr>mcache := c\<rparr>) i = waits m i"
  by (simp add: waits_def)

lemma mem_ok_cache:
  assumes "mem_ok file m H C live" "cache_inv c" "cache_view c \<subseteq>\<^sub>m cache_view (mcache m)"
  shows "mem_ok file (m\<lparr>mcache := c\<rparr>) H C live"
proof -
  have "cache_view (mcache m) i = Some p" if "cache_view c i = Some p" for i p
    using that assms(3) by (metis domI map_le_def)
  then have "cache_ok file (m\<lparr>mcache := c\<rparr>)"
    using mem_ok_parts(7) [OF assms(1)] assms(2) by (simp add: cache_ok_def) blast
  then show ?thesis using assms(1) by (auto simp: mem_ok_def)
qed

lemma mem_ok_fill:
  assumes "mem_ok file m H C live" "replacement m = None" "disk_page file i = Some (page_bytes p)"
    "cache_put (mcache m) i p = Inr c"
  shows "mem_ok file (m\<lparr>mcache := c\<rparr>) H C live"
proof -
  have ci: "cache_inv (mcache m)" using mem_ok_parts(7) [OF assms(1)] by (simp add: cache_ok_def)
  have "cache_inv c" "cache_view c \<subseteq>\<^sub>m (cache_view (mcache m))(i \<mapsto> p)"
    using cache_put_ok [OF ci, of i p] assms(4) by auto
  then have "cache_view (mcache m) j = Some q \<or> j = i \<and> q = p" if "cache_view c j = Some q" for j q
    using that by (metis (no_types, lifting) domI fun_upd_other fun_upd_same map_le_def option.inject)
  then have "cache_ok file (m\<lparr>mcache := c\<rparr>)"
    using mem_ok_parts(7) [OF assms(1)] \<open>cache_inv c\<close> assms(2,3) by (simp add: cache_ok_def) blast
  then show ?thesis using assms(1) by (auto simp: mem_ok_def)
qed

lemma mem_ok_file:
  assumes ok: "mem_ok file m H C live"
    and same: "\<And>j b. \<lbrakk>replacement m = None; \<not> waits m j; j < C (mseq m) \<or> cache_view (mcache m) j \<noteq> None;
      disk_page file j = Some b\<rbrakk> \<Longrightarrow> disk_page file' j = Some b"
  shows "mem_ok file' m H C live"
proof -
  have "vers_ok file' m H C live i" for i
  proof (cases "bm_get (versions m) i")
    case None
    note v = vers_okD(1) [OF mem_ok_parts(6) [OF ok] None]
    have "base_page file' m i = Some (H s i)" if s: "s \<in> readable m live" "i < C s" for s
      using v [OF s] same [of i "H s i"] None mem_ok_parts(5) [OF ok s(1)] s(2)
      by (auto simp: base_page_def waits_def split: option.splits)
    then show ?thesis using None by (simp add: vers_ok_def)
  next
    case (Some chain)
    note v = vers_okD [OF mem_ok_parts(6) [OF ok, of i]]
    have "disk_page file' i = Some (page_bytes (vpage (last chain))) \<and> replacement m = None" if "written (last chain)"
      using v(4,5) [OF Some] same [of i] that Some by (auto simp: waits_def)
    then show ?thesis using Some v(2-4) [OF Some] by (auto simp: vers_ok_def)
  qed
  moreover have "cache_ok file' m" using mem_ok_parts(7) [OF ok] same by (fastforce simp: cache_ok_def)
  ultimately show ?thesis using ok by (auto simp: mem_ok_def)
qed

lemma cache_view_restrict_le: "cache_view c |` A \<subseteq>\<^sub>m cache_view c"
  by (auto simp: map_le_def)

lemma mem_ok_truncate:
  assumes ok: "mem_ok file m H C live" and run: "pages_truncate (C (mseq m)) file m = (file', m')"
  shows "mem_ok file' m' H C live" "\<And>i. i < C (mseq m) \<Longrightarrow> disk_page file' i = disk_page file i"
    "versions m' = versions m" "file_epoch m' = file_epoch m" "replacement m' = replacement m" "mseq m' = mseq m"
    "readable m' = readable m"
proof -
  let ?n = "C (mseq m)"
  have ci: "cache_inv (mcache m)" using mem_ok_parts(7) [OF ok] by (simp add: cache_ok_def)
  have cut: "disk_page (take (?n * PAGE_SIZE) file) i = disk_page file i" if "i < ?n" for i
    using that by (intro disk_page_take mult_le_mono1) simp
  show same: "disk_page file' i = disk_page file i" if "i < ?n" for i
    using run cut [OF that] by (auto simp: pages_truncate_def split: if_splits)
  show "versions m' = versions m" "file_epoch m' = file_epoch m" "replacement m' = replacement m" "mseq m' = mseq m"
    "readable m' = readable m"
    using run by (auto simp: pages_truncate_def fun_eq_iff split: if_splits)
  show "mem_ok file' m' H C live"
  proof (cases "length file > ?n * PAGE_SIZE")
    case True
    let ?c = "cache_retain (\<lambda>i. i < ?n) (mcache m)"
    note r = cache_retain_ok [OF ci, of "\<lambda>i. i < ?n"]
    have m': "m' = m\<lparr>mcache := ?c\<rparr>" "file' = take (?n * PAGE_SIZE) file" using run True by (auto simp: pages_truncate_def)
    have "mem_ok file m' H C live" unfolding m' using mem_ok_cache [OF ok r(1)] r(2) cache_view_restrict_le by metis
    then show ?thesis by (rule mem_ok_file) (use cut r(2) in \<open>auto simp: m' restrict_map_def split: if_splits\<close>)
  next
    case False
    then show ?thesis using ok run by (auto simp: pages_truncate_def)
  qed
qed

subsection \<open>Compactions\<close>

lemma mem_ok_replace:
  assumes ok: "mem_ok file m H C []" and sc: "0 < scratch_count sc"
    and img: "\<forall>i. 0 < i \<and> i < scratch_count sc \<longrightarrow> disk_page (scratch_file sc) i = Some (img i)"
  shows "mem_ok file (commit_replacing [(0, header)] sc m)
    (H(mseq m + 1 := (\<lambda>i. if i = 0 then page_bytes header else img i))) (C(mseq m + 1 := scratch_count sc)) []"
proof -
  let ?m = "commit_replacing [(0, header)] sc m"
  let ?v = "\<lparr>vseq = mseq m + 1, vpage = page_checked header, written = False\<rparr>"
  have m: "versions ?m = [(0, [?v])]" "mseq ?m = mseq m + 1" "replacement ?m = Some sc" "mcache ?m = cache_clear (mcache m)"
    "ended_before ?m = ended_before m" by (simp_all add: commit_replacing_def)
  have r: "readable ?m [] = {mseq m + 1}" by (simp add: readable_def m)
  have ci: "cache_inv (mcache m)" using mem_ok_parts(7) [OF ok] by (simp add: cache_ok_def)
  show ?thesis unfolding mem_ok_def
    using r m img sc cache_clear_ok [OF ci] mem_ok_parts(3) [OF ok]
    by (auto simp: vers_ok_def base_page_def cache_ok_def waits_def bm_inv_def chain_ok_def chain_view_def)
qed

subsection \<open>The end of a checkpoint\<close>

lemma foldR_mark_replacement:
  "foldR (mark_written n) w (m\<lparr>replacement := r\<rparr>) = bindR (foldR (mark_written n) w m) (\<lambda>m'. Inr (m'\<lparr>replacement := r\<rparr>))"
proof (induction w arbitrary: m)
  case (Cons x w)
  have "mark_written n x (m\<lparr>replacement := r\<rparr>) = bindR (mark_written n x m) (\<lambda>m'. Inr (m'\<lparr>replacement := r\<rparr>))"
    by (cases x) (auto simp: mark_written_def Let_def bindR_def split: option.splits sum.splits)
  then show ?case using Cons.IH by (cases "mark_written n x m") simp_all
qed simp

lemma waiting_pages_iff:
  assumes "bm_inv (versions m)"
  shows "(i, p) \<in> set (waiting_pages m) \<longleftrightarrow>
    (\<exists>chain. bm_get (versions m) i = Some chain \<and> \<not> written (last chain) \<and> p = vpage (last chain))"
  using bm_inv_distinct [OF assms] by (auto simp: waiting_pages_def image_iff)

lemma waits_iff: "bm_inv (versions m) \<Longrightarrow> waits m i \<longleftrightarrow> i \<in> fst ` set (waiting_pages m)"
proof -
  assume inv: "bm_inv (versions m)"
  have "i \<in> fst ` set (waiting_pages m) \<longleftrightarrow> (\<exists>p. (i, p) \<in> set (waiting_pages m))" by force
  then show "waits m i \<longleftrightarrow> i \<in> fst ` set (waiting_pages m)"
    using waiting_pages_iff [OF inv, of i] by (auto simp: waits_def split: option.splits)
qed

lemma distinct_waiting: "bm_inv (versions m) \<Longrightarrow> distinct (map fst (waiting_pages m))"
proof -
  have "map fst (waiting_pages m) = map fst (filter (\<lambda>(_, chain). \<not> written (last chain)) (versions m))"
    by (auto simp: waiting_pages_def)
  then show "bm_inv (versions m) \<Longrightarrow> distinct (map fst (waiting_pages m))"
    by (simp add: distinct_map_filter bm_inv_distinct)
qed

lemma mark_chain:
  assumes "chain_ok chain n"
  defines "c \<equiv> butlast chain @ [(last chain)\<lparr>written := True\<rparr>]"
  shows "chain_ok c n" "chain_view c s = chain_view chain s" "vpage (last c) = vpage (last chain)"
  using assms(1) by (cases chain rule: rev_cases; auto simp: c_def chain_ok_def chain_view_def sorted_wrt_append)+

lemma mem_ok_mark:
  assumes ok: "mem_ok file m H C live" "replacement m = None" "bm_get (versions m) i = Some chain"
    "disk_page file i = Some (page_bytes (vpage (last chain)))"
  shows "\<exists>m'. mark_written (C (mseq m)) (i, vpage (last chain)) m = Inr m' \<and> mem_ok file m' H C live
    \<and> replacement m' = None \<and> mseq m' = mseq m \<and> file_epoch m' = file_epoch m \<and> ended_before m' = ended_before m
    \<and> (\<forall>j. j \<noteq> i \<longrightarrow> bm_get (versions m') j = bm_get (versions m) j)"
proof -
  note v = vers_okD [OF mem_ok_parts(6) [OF ok(1), of i]]
  let ?c = "butlast chain @ [(last chain)\<lparr>written := True\<rparr>]"
  let ?m = "m\<lparr>versions := bm_put i ?c (versions m)\<rparr>"
  note c = mark_chain [OF v(2) [OF ok(3)]]
  have rd: "readable ?m live = readable m live" by (simp add: readable_def)
  have "vers_ok file ?m H C live j" for j
  proof (cases "j = i")
    case True
    then show ?thesis using ok(2,4) c v(3,4) [OF ok(3)] by (auto simp: vers_ok_def rd)
  next
    case False
    then show ?thesis using mem_ok_parts(6) [OF ok(1), of j] by (auto simp: vers_ok_def rd base_page_def split: option.splits)
  qed
  moreover have ci: "cache_inv (mcache m)" using mem_ok_parts(7) [OF ok(1)] by (simp add: cache_ok_def)
  obtain k where k: "cache_put (mcache m) i (vpage (last chain)) = Inr k" "cache_inv k"
    "cache_view k \<subseteq>\<^sub>m (cache_view (mcache m))(i \<mapsto> vpage (last chain))"
    using cache_put_ok [OF ci, of i "vpage (last chain)"] by auto
  have view: "cache_view (mcache m) j = Some q \<and> j \<noteq> i \<or> j = i \<and> q = vpage (last chain)" if "cache_view k j = Some q" for j q
    using that k(3) by (metis (no_types, lifting) domI fun_upd_other fun_upd_same map_le_def option.inject)
  let ?m' = "?m\<lparr>mcache := k\<rparr>"
  have "waits ?m' j \<or> disk_page file j = Some (page_bytes q)" if "cache_view k j = Some q" for j q
    using view [OF that] mem_ok_parts(7) [OF ok(1)] ok(4) by (auto simp: cache_ok_def waits_def)
  then have "cache_ok file ?m'" using k(2) ok(2) by (simp add: cache_ok_def)
  ultimately have "mem_ok file ?m' H C live"
    using mem_ok_parts(1-5) [OF ok(1)] ok(2) rd by (simp add: mem_ok_def)
  moreover have "mark_written (C (mseq m)) (i, vpage (last chain)) m = Inr ?m'"
    using ok(3) v(4) [OF ok(3)] v(2) [OF ok(3)] k(1) by (simp add: mark_written_def Let_def chain_ok_def)
  ultimately show ?thesis using ok(2) by (intro exI [of _ ?m']) simp
qed

lemma mem_ok_mark_all:
  assumes "mem_ok file m H C live" "replacement m = None" "distinct (map fst w)"
    "\<forall>(i, p) \<in> set w. disk_page file i = Some (page_bytes p)
       \<and> (\<exists>chain. bm_get (versions m) i = Some chain \<and> p = vpage (last chain))"
  shows "\<exists>m'. foldR (mark_written (C (mseq m))) w m = Inr m' \<and> mem_ok file m' H C live
    \<and> replacement m' = None \<and> mseq m' = mseq m \<and> file_epoch m' = file_epoch m \<and> ended_before m' = ended_before m"
  using assms
proof (induction w arbitrary: m)
  case (Cons x w)
  obtain i p where x: "x = (i, p)" by (cases x)
  obtain chain where ch: "bm_get (versions m) i = Some chain" "p = vpage (last chain)" using Cons.prems(4) x by auto
  obtain m1 where m1: "mark_written (C (mseq m)) (i, p) m = Inr m1" "mem_ok file m1 H C live" "replacement m1 = None"
    "mseq m1 = mseq m" "file_epoch m1 = file_epoch m" "ended_before m1 = ended_before m"
    "\<And>j. j \<noteq> i \<Longrightarrow> bm_get (versions m1) j = bm_get (versions m) j"
    using mem_ok_mark [OF Cons.prems(1,2) ch(1)] Cons.prems(4) x ch(2) by auto
  have "\<forall>(j, q) \<in> set w. j \<noteq> i" using Cons.prems(3) x by (auto simp: rev_image_eqI)
  then have "\<forall>(j, q) \<in> set w. disk_page file j = Some (page_bytes q)
       \<and> (\<exists>chain. bm_get (versions m1) j = Some chain \<and> q = vpage (last chain))"
    using Cons.prems(4) m1(7) by fastforce
  from Cons.IH [OF m1(2,3) _ this] show ?case using Cons.prems(3) m1 x by auto
qed simp

lemma mem_ok_image_copied:
  assumes ok: "mem_ok file m H C live"
    and copied: "\<And>sc i b. \<lbrakk>replacement m = Some sc; 0 < i; i < scratch_count sc; \<not> waits m i;
      disk_page (scratch_file sc) i = Some b\<rbrakk> \<Longrightarrow> disk_page file i = Some b"
  shows "mem_ok file (m\<lparr>replacement := None\<rparr>) H C live"
proof (cases "replacement m")
  case None
  then have "m\<lparr>replacement := None\<rparr> = m" by simp
  then show ?thesis using ok by simp
next
  case (Some sc)
  let ?m = "m\<lparr>replacement := None\<rparr>"
  have rd: "readable ?m live = readable m live" by (simp add: readable_def)
  have "vers_ok file ?m H C live i" for i
  proof (cases "bm_get (versions m) i")
    case None
    have "disk_page file i = Some (H s i)" if s: "s \<in> readable m live" "i < C s" for s
      using vers_okD(1) [OF mem_ok_parts(6) [OF ok] None s] mem_ok_parts(8) [OF ok Some, of i] mem_ok_parts(5) [OF ok s(1)] s(2)
        None Some copied [OF Some, of i] by (force simp: base_page_def waits_def)
    then show ?thesis using None by (simp add: vers_ok_def rd base_page_def)
  next
    case v: (Some chain)
    then show ?thesis using mem_ok_parts(6) [OF ok, of i] Some by (auto simp: vers_ok_def rd)
  qed
  moreover have "cache_ok file ?m" using mem_ok_parts(7) [OF ok] Some by (simp add: cache_ok_def)
  ultimately show ?thesis using mem_ok_parts(1-5) [OF ok] rd by (simp add: mem_ok_def)
qed

lemma mem_ok_checkpoint_end:
  assumes ok: "mem_ok file m H C live" and w: "w = waiting_pages m"
    and disk: "\<forall>(i, p) \<in> set w. disk_page file i = Some (page_bytes p)"
    and copied: "\<And>sc i b. \<lbrakk>replacement m = Some sc; 0 < i; i < scratch_count sc; i \<notin> fst ` set w;
      disk_page (scratch_file sc) i = Some b\<rbrakk> \<Longrightarrow> disk_page file i = Some b"
  shows "\<exists>m'. checkpoint_end (C (mseq m)) w m = Inr m' \<and> mem_ok file m' H C live
    \<and> replacement m' = None \<and> mseq m' = mseq m \<and> file_epoch m' = file_epoch m \<and> ended_before m' = ended_before m"
proof -
  let ?m = "m\<lparr>replacement := None\<rparr>"
  have ok': "mem_ok file ?m H C live"
    using copied waits_iff [OF mem_ok_parts(4) [OF ok]] w by (intro mem_ok_image_copied [OF ok]) blast
  have "\<forall>(i, p) \<in> set w. disk_page file i = Some (page_bytes p)
       \<and> (\<exists>chain. bm_get (versions ?m) i = Some chain \<and> p = vpage (last chain))"
    using disk waiting_pages_iff [OF mem_ok_parts(4) [OF ok]] w by fastforce
  moreover have "distinct (map fst w)" using distinct_waiting [OF mem_ok_parts(4) [OF ok]] w by simp
  ultimately obtain m1 where m1: "foldR (mark_written (C (mseq m))) w ?m = Inr m1" "mem_ok file m1 H C live"
    "replacement m1 = None" "mseq m1 = mseq m" "file_epoch m1 = file_epoch m" "ended_before m1 = ended_before m"
    using mem_ok_mark_all [OF ok', of w] by auto
  obtain m0 where m0: "foldR (mark_written (C (mseq m))) w m = Inr m0" "m1 = m0\<lparr>replacement := None\<rparr>"
    using m1(1) unfolding foldR_mark_replacement by (cases "foldR (mark_written (C (mseq m))) w m") auto
  let ?m' = "m0\<lparr>unwritten := 0, replacement := None\<rparr>"
  have same: "?m' = m1\<lparr>unwritten := 0\<rparr>" using m0(2) by simp
  have "mem_ok file ?m' H C live" 
    using m1(2) mem_ok_cong [of "m1\<lparr>unwritten := 0\<rparr>" m1] unfolding same by simp
  then show ?thesis using m0(1) m1(3-6) unfolding checkpoint_end_def
    by (intro exI [of _ ?m']) (simp add: same m0(2))
qed

subsection \<open>Every step keeps the invariant\<close>

lemma mem_ok_live:
  assumes "mem_ok file m H C live" "sorted live'" "\<And>s. s \<in> set live' \<Longrightarrow> s \<le> mseq m" "readable m live' \<subseteq> readable m live"
  shows "mem_ok file m H C live'"
proof -
  have "vers_ok file m H C live' i" for i
    using mem_ok_parts(6) [OF assms(1), of i] assms(4) by (auto simp: vers_ok_def split: option.splits)
  then show ?thesis using assms by (auto simp: mem_ok_def)
qed

lemma sorted_removeAll: "sorted (xs :: nat list) \<Longrightarrow> sorted (removeAll x xs)"
  by (induction xs) auto

lemma read_lookup_mem:
  assumes "read_lookup hw i s m = (m', r)" "cache_inv (mcache m)"
  obtains c where "m' = m\<lparr>mcache := c\<rparr>" "cache_inv c" "cache_view c = cache_view (mcache m)"
proof -
  have "m' = m\<lparr>mcache := mcache m\<rparr> \<or> m' = m\<lparr>mcache := fst (cache_get (mcache m) i)\<rparr>"
    using assms(1) by (auto simp: read_lookup_def split: if_splits option.splits sum.splits prod.splits)
  then show ?thesis using that cache_get_ok [OF assms(2)] assms(2) by metis
qed

lemma read_lookup_ask:
  assumes "read_lookup hw i s m = (m', AskFile e)"
  shows "bm_get (versions m) i = None" "replacement m = None" "e = file_epoch m" "ended_before m \<le> s"
  using assms by (auto simp: read_lookup_def split: if_splits option.splits sum.splits prod.splits)

lemma reader_ok_cache [simp]: "reader_ok (st\<lparr>smem := (smem st)\<lparr>mcache := c\<rparr>\<rparr>) r = reader_ok st r"
  by (simp add: reader_ok_def)

lemma reader_ok_readers [simp]: "reader_ok (st\<lparr>readers := rs\<rparr>) r = reader_ok st r"
  by (simp add: reader_ok_def)

lemma waiting_pages_cache [simp]: "waiting_pages (m\<lparr>mcache := c\<rparr>) = waiting_pages m"
  by (simp add: waiting_pages_def)

lemma sys_inv_parts:
  assumes "sys_inv st"
  shows "mem_ok (sfile st) (smem st) (hist st) (pcount st) (open_at st)"
    "\<And>w. ckpt st = Some w \<Longrightarrow> w = waiting_pages (smem st)"
    "\<And>r. r \<in> set (readers st) \<Longrightarrow> reader_ok st r" "cache_inv (mcache (smem st))"
  using assms by (auto simp: sys_inv_def mem_ok_def cache_ok_def)

lemma sys_inv_lookup:
  assumes "sys_inv st" "read_lookup hw i s (smem st) = (m, r)"
  shows "sys_inv (st\<lparr>smem := m\<rparr>)"
proof -
  note p = sys_inv_parts [OF assms(1)]
  obtain c where c: "m = (smem st)\<lparr>mcache := c\<rparr>" "cache_inv c" "cache_view c = cache_view (mcache (smem st))"
    using read_lookup_mem [OF assms(2) p(4)] .
  have "mem_ok (sfile st) m (hist st) (pcount st) (open_at st)" unfolding c(1) using mem_ok_cache [OF p(1) c(2)] c(3) by simp
  then show ?thesis using p(2,3) c(1) by (simp add: sys_inv_def)
qed

lemma sys_inv_read_miss:
  assumes "sys_inv st" "s \<in> readable (smem st) (open_at st)" "i < pcount st s"
    "read_lookup hw i s (smem st) = (m, AskFile epoch)"
  shows "sys_inv (st\<lparr>smem := m, readers := \<lparr>r_page = i, r_seq = s, r_epoch = epoch, r_read = None\<rparr> # readers st\<rparr>)"
proof -
  note p = sys_inv_parts [OF assms(1)] and a = read_lookup_ask [OF assms(4)]
  obtain c where c: "m = (smem st)\<lparr>mcache := c\<rparr>" using read_lookup_mem [OF assms(4) p(4)] .
  have "disk_page (sfile st) i = Some (hist st s i)"
    using vers_okD(1) [OF mem_ok_parts(6) [OF p(1)] a(1) assms(2,3)] a(2) by (simp add: base_page_def)
  moreover have "s \<le> mseq (smem st)" using assms(2) mem_ok_parts(2) [OF p(1)] by (auto simp: readable_def)
  moreover have "i < pcount st (mseq (smem st))" using assms(3) mem_ok_parts(5) [OF p(1) assms(2)] by simp
  ultimately have "reader_ok st \<lparr>r_page = i, r_seq = s, r_epoch = epoch, r_read = None\<rparr>"
    using a by (simp add: reader_ok_def)
  then show ?thesis using sys_inv_lookup [OF assms(1,4)] c by (simp add: sys_inv_def)
qed

lemma sys_inv_read_done:
  assumes "sys_inv st" "readers st = xs @ r # ys" "r_read r = Some rd"
    "read_finish rd (r_page r) (r_epoch r) (smem st) = (m, answer)"
  shows "sys_inv (st\<lparr>smem := m, readers := xs @ ys\<rparr>)"
    "answer = None \<or> (\<exists>p. answer = Some (Inr p) \<and> page_bytes p = hist st (r_seq r) (r_page r))"
proof -
  note p = sys_inv_parts [OF assms(1)]
  have r: "reader_ok st r" using p(3) assms(2) by simp
  have rest: "mem_ok (sfile st) m (hist st) (pcount st) (open_at st) \<Longrightarrow> m = (smem st)\<lparr>mcache := c\<rparr>
      \<Longrightarrow> sys_inv (st\<lparr>smem := m, readers := xs @ ys\<rparr>)" for c
    using p(2,3) assms(2) by (auto simp: sys_inv_def)
  have "sys_inv (st\<lparr>smem := m, readers := xs @ ys\<rparr>)
    \<and> (answer = None \<or> (\<exists>p. answer = Some (Inr p) \<and> page_bytes p = hist st (r_seq r) (r_page r)))"
  proof (cases "file_epoch (smem st) = r_epoch r")
    case False
    then have "m = smem st" "answer = None" using assms(4) by (simp_all add: read_finish_def)
    then show ?thesis using rest [of "mcache (smem st)"] p(1) by simp
  next
    case True
    then obtain q where q: "rd = Inr q" "page_bytes q = hist st (r_seq r) (r_page r)"
      "disk_page (sfile st) (r_page r) = Some (page_bytes (page_checked q))" "replacement (smem st) = None"
      using r assms(3) by (auto simp: reader_ok_def)
    obtain c where c: "cache_put (mcache (smem st)) (r_page r) (page_checked q) = Inr c"
      using cache_put_ok [OF p(4)] by blast
    then have m: "m = (smem st)\<lparr>mcache := c\<rparr>" "answer = Some (Inr (page_checked q))"
      using assms(4) True q(1) by (auto simp: read_finish_def Let_def)
    then show ?thesis using rest [of c] mem_ok_fill [OF p(1) q(4,3) c] q(2) by simp
  qed
  then show "sys_inv (st\<lparr>smem := m, readers := xs @ ys\<rparr>)"
    "answer = None \<or> (\<exists>p. answer = Some (Inr p) \<and> page_bytes p = hist st (r_seq r) (r_page r))" by blast+
qed

lemma read_page_at_disk: "disk_page file i = Some b \<Longrightarrow> \<exists>p. read_page_at hw file i = Inr p \<and> page_bytes p = b"
  using read_page_at_eq [of hw "file" i "page_from b"] by (simp add: page_from_def)

lemma sys_inv_read_file:
  assumes "sys_inv st" "readers st = xs @ r # ys"
  shows "sys_inv (st\<lparr>readers := xs @ r\<lparr>r_read := Some (read_page_at hw (sfile st) (r_page r))\<rparr> # ys\<rparr>)"
proof -
  note p = sys_inv_parts [OF assms(1)]
  have "reader_ok st r" using p(3) assms(2) by simp
  then have "reader_ok st (r\<lparr>r_read := Some (read_page_at hw (sfile st) (r_page r))\<rparr>)"
    using read_page_at_disk [of "sfile st" "r_page r" _ hw] by (auto simp: reader_ok_def)
  then show ?thesis using p assms(2) by (auto simp: sys_inv_def)
qed

lemma sys_inv_ckpt:
  assumes "sys_inv st" "ckpt st = Some w"
  shows "replacement (smem st) = None \<longrightarrow>
      (\<forall>j b. j \<notin> fst ` set w \<and> disk_page (sfile st) j = Some b \<longrightarrow> disk_page file' j = Some b)
      \<Longrightarrow> sys_inv (st\<lparr>sfile := file'\<rparr>)"
    "pages_truncate (pcount st (mseq (smem st))) (sfile st) (smem st) = (file', m) \<Longrightarrow> sys_inv (st\<lparr>sfile := file', smem := m\<rparr>)"
    "sys_inv (st\<lparr>ckpt := None\<rparr>)"
    "\<lbrakk>\<forall>(i, p) \<in> set w. disk_page (sfile st) i = Some (page_bytes p);
     \<forall>sc i b. replacement (smem st) = Some sc \<and> 0 < i \<and> i < scratch_count sc \<and> i \<notin> fst ` set w
       \<and> disk_page (scratch_file sc) i = Some b \<longrightarrow> disk_page (sfile st) i = Some b\<rbrakk>
     \<Longrightarrow> \<exists>m. checkpoint_end (pcount st (mseq (smem st))) w (smem st) = Inr m \<and> sys_inv (st\<lparr>smem := m, ckpt := None\<rparr>)"
proof -
  note p = sys_inv_parts [OF assms(1)]
  have w: "w = waiting_pages (smem st)" using p(2) assms(2) by simp
  note wi = waits_iff [OF mem_ok_parts(4) [OF p(1)]]
  show "sys_inv (st\<lparr>sfile := file'\<rparr>)" if same: "replacement (smem st) = None \<longrightarrow>
      (\<forall>j b. j \<notin> fst ` set w \<and> disk_page (sfile st) j = Some b \<longrightarrow> disk_page file' j = Some b)"
  proof -
    have "mem_ok file' (smem st) (hist st) (pcount st) (open_at st)"
      by (rule mem_ok_file [OF p(1)]) (use same wi w in auto)
    moreover have "reader_ok (st\<lparr>sfile := file'\<rparr>) r" if "r \<in> set (readers st)" for r
      using p(3) [OF that] same wi [of "r_page r"] w assms(2) by (auto simp: reader_ok_def waits_def)
    ultimately show ?thesis using p(2) by (simp add: sys_inv_def)
  qed
  show "sys_inv (st\<lparr>sfile := file', smem := m\<rparr>)"
    if run: "pages_truncate (pcount st (mseq (smem st))) (sfile st) (smem st) = (file', m)"
  proof -
    note t = mem_ok_truncate [OF p(1) run]
    have "reader_ok (st\<lparr>sfile := file', smem := m\<rparr>) r" if "r \<in> set (readers st)" for r
      using p(3) [OF that] t by (auto simp: reader_ok_def)
    moreover have "waiting_pages m = waiting_pages (smem st)" using t(3) by (simp add: waiting_pages_def)
    ultimately show ?thesis using t(1) p(2) by (simp add: sys_inv_def)
  qed
  show "sys_inv (st\<lparr>ckpt := None\<rparr>)" using p by (auto simp: sys_inv_def reader_ok_def)
  show "\<exists>m. checkpoint_end (pcount st (mseq (smem st))) w (smem st) = Inr m \<and> sys_inv (st\<lparr>smem := m, ckpt := None\<rparr>)"
    if disk: "\<forall>(i, p) \<in> set w. disk_page (sfile st) i = Some (page_bytes p)"
     "\<forall>sc i b. replacement (smem st) = Some sc \<and> 0 < i \<and> i < scratch_count sc \<and> i \<notin> fst ` set w
       \<and> disk_page (scratch_file sc) i = Some b \<longrightarrow> disk_page (sfile st) i = Some b"
  proof -
    obtain m where m: "checkpoint_end (pcount st (mseq (smem st))) w (smem st) = Inr m"
      "mem_ok (sfile st) m (hist st) (pcount st) (open_at st)" "replacement m = None" "mseq m = mseq (smem st)"
      "file_epoch m = file_epoch (smem st)"
      using mem_ok_checkpoint_end [OF p(1) w disk(1)] disk(2) by blast
    have "reader_ok (st\<lparr>smem := m, ckpt := None\<rparr>) r" if "r \<in> set (readers st)" for r
      using p(3) [OF that] m by (auto simp: reader_ok_def)
    then show ?thesis using m by (auto simp: sys_inv_def)
  qed
qed

lemma sys_inv_commit:
  assumes "sys_inv st" and d: "ckpt st = None" "bm_inv dirty" "pcount st (mseq (smem st)) \<le> n"
     "\<forall>i p. bm_get dirty i = Some p \<longrightarrow> i < n \<and> length (page_bytes p) = USABLE_PAGE_SIZE"
     "\<forall>i. pcount st (mseq (smem st)) \<le> i \<and> i < n \<longrightarrow> bm_get dirty i \<noteq> None"
     "\<forall>i. bm_get dirty i \<noteq> None \<and> i < pcount st (mseq (smem st)) \<longrightarrow>
       (\<exists>p. bm_get before i = Some p \<and> page_bytes p = hist st (mseq (smem st)) i)"
  shows "sys_inv (st\<lparr>smem := pages_commit dirty before (open_at st) (smem st),
     hist := (hist st)(mseq (smem st) + 1 :=
       (\<lambda>i. case bm_get dirty i of None \<Rightarrow> hist st (mseq (smem st)) i | Some p \<Rightarrow> page_bytes p)),
     pcount := (pcount st)(mseq (smem st) + 1 := n)\<rparr>)" (is "sys_inv ?st")
proof -
  note p = sys_inv_parts [OF assms(1)]
  have "\<forall>i. bm_get dirty i \<noteq> None \<longrightarrow> i < n" using d(4) by auto
  note c = mem_ok_commit [OF p(1) d(2) this d(5,3,6)]
  have "reader_ok ?st r" if "r \<in> set (readers st)" for r
  proof -
    have "r_seq r \<noteq> mseq (smem st) + 1" using p(3) [OF that] by (simp add: reader_ok_def)
    then show ?thesis using p(3) [OF that] c(2-4) d(1,3) by (simp add: reader_ok_def)
  qed
  then show ?thesis using c(1) d(1) by (simp add: sys_inv_def)
qed

lemma sys_inv_step: "pages_step st st' \<Longrightarrow> sys_inv st \<Longrightarrow> sys_inv st'"
proof (induction rule: pages_step.induct)
  case (replace st sc header img)
  then show ?case using mem_ok_replace [of "sfile st" "smem st" "hist st" "pcount st" sc img header] by (simp add: sys_inv_def)
next
  case (open_snapshot st)
  note p = sys_inv_parts [OF open_snapshot]
  have "mem_ok (sfile st) (smem st) (hist st) (pcount st) (open_at st @ [mseq (smem st)])"
    by (rule mem_ok_live [OF p(1)]) (use mem_ok_parts(1,2) [OF p(1)] in \<open>auto simp: sorted_append readable_def\<close>)
  then show ?case using p by (auto simp: sys_inv_def reader_ok_def)
next
  case (close_snapshot st s)
  note p = sys_inv_parts [OF close_snapshot]
  have "mem_ok (sfile st) (smem st) (hist st) (pcount st) (removeAll s (open_at st))"
    by (rule mem_ok_live [OF p(1)]) (use mem_ok_parts(1,2) [OF p(1)] in \<open>auto simp: sorted_removeAll readable_def\<close>)
  then show ?case using p by (auto simp: sys_inv_def reader_ok_def)
next
  case (forget st)
  note p = sys_inv_parts [OF forget]
  have "bm_get (versions (Pages.forget (open_at st) (smem st))) i = None" if "bm_get (versions (smem st)) i = None" for i
    using that mem_ok_parts(4) [OF p(1)] by (simp add: bm_get_forget)
  then have "reader_ok (st\<lparr>smem := Pages.forget (open_at st) (smem st)\<rparr>) r" if "r \<in> set (readers st)" for r
    using p(3) [OF that] by (auto simp: reader_ok_def)
  then show ?case using mem_ok_forget [OF p(1)] waiting_pages_forget [OF p(1)] p(2) by (auto simp: sys_inv_def)
next
  case (version_limit st n)
  note p = sys_inv_parts [OF version_limit]
  have "mem_ok (sfile st) (set_version_limit n (smem st)) (hist st) (pcount st) (open_at st)"
    using p(1) mem_ok_cong [of "set_version_limit n (smem st)" "smem st"] by (simp add: set_version_limit_def)
  then show ?case using p by (auto simp: sys_inv_def reader_ok_def set_version_limit_def waiting_pages_def)
next
  case (cache_pages st n)
  note p = sys_inv_parts [OF cache_pages]
  have "mem_ok (sfile st) (set_cache_pages n (smem st)) (hist st) (pcount st) (open_at st)"
    unfolding set_cache_pages_def by (rule mem_ok_cache [OF p(1)]) (use cache_resize_ok [OF p(4)] in simp_all)
  then show ?case using p(2,3) by (auto simp: sys_inv_def set_cache_pages_def)
next
  case (ckpt_begin st m w repl)
  note p = sys_inv_parts [OF ckpt_begin(3)]
  have m: "m = (smem st)\<lparr>file_epoch := file_epoch (smem st) + 1\<rparr>" "w = waiting_pages m"
    using ckpt_begin(2) by (auto simp: checkpoint_begin_def Let_def)
  have "mem_ok (sfile st) m (hist st) (pcount st) (open_at st)" using p(1) mem_ok_cong [of m "smem st"] m(1) by simp
  moreover have "reader_ok (st\<lparr>smem := m, ckpt := Some w\<rparr>) r" if "r \<in> set (readers st)" for r
    using p(3) [OF that] m by (auto simp: reader_ok_def)
  ultimately show ?case using m by (simp add: sys_inv_def)
next
  case (ckpt_end st w m)
  then show ?case using sys_inv_ckpt(4) [OF ckpt_end(5,1,2,3)] by auto
next
  case (commit st dirty n before)
  then show ?case by (intro sys_inv_commit)
next
  case (ckpt_write st w file')
  then show ?case by (intro sys_inv_ckpt(1))
next
  case (ckpt_cut st w file' m)
  then show ?case by (intro sys_inv_ckpt(2))
next
  case (ckpt_fail st w)
  then show ?case by (intro sys_inv_ckpt(3))
next
  case (read_hit hw i s st m p)
  then show ?case by (intro sys_inv_lookup)
next
  case (read_miss s st i hw m epoch)
  then show ?case by (intro sys_inv_read_miss)
next
  case (read_file st xs r ys hw)
  then show ?case by (intro sys_inv_read_file)
next
  case (read_done st xs r ys rd m answer)
  then show ?case by (intro sys_inv_read_done(1))
qed

lemma sys_inv_fresh:
  assumes "\<forall>i < n. disk_page file i \<noteq> None"
  shows "sys_inv (fresh_system file n k)"
  using assms
  by (auto simp: cache_new_ok sys_inv_def fresh_system_def memory_new_def mem_ok_def readable_def bm_inv_def vers_ok_def base_page_def cache_ok_def)

lemma sys_inv_reachable:
  assumes "\<forall>i < n. disk_page file i \<noteq> None" "reachable (fresh_system file n k) st"
  shows "sys_inv st"
  using assms(2) by (induction rule: reachable.induct) (use sys_inv_fresh [OF assms(1)] sys_inv_step in blast)+

subsection \<open>What a reader reads\<close>

lemma read_lookup_reads:
  assumes "sys_inv st" "s \<in> readable (smem st) (open_at st)" "i < pcount st s"
  shows "(\<exists>p. snd (read_lookup hw i s (smem st)) = Found p \<and> page_bytes p = hist st s i)
    \<or> snd (read_lookup hw i s (smem st)) = AskFile (file_epoch (smem st))"
proof -
  note p = sys_inv_parts [OF assms(1)] and v = vers_okD [OF mem_ok_parts(6) [OF sys_inv_parts(1) [OF assms(1)], of i]]
  have e: "\<not> s < ended_before (smem st)" using assms(2) mem_ok_parts(3) [OF p(1)] by (auto simp: readable_def)
  show ?thesis
  proof (cases "bm_get (versions (smem st)) i")
    case (Some chain)
    then obtain x where "find (\<lambda>v. vseq v \<le> s) (rev chain) = Some x" "page_bytes (vpage x) = hist st s i"
      using v(3) [OF Some assms(2,3)] by (auto simp: chain_view_def)
    then show ?thesis using e Some by (simp add: read_lookup_def)
  next
    case None
    note b = v(1) [OF None assms(2,3)]
    show ?thesis
    proof (cases "replacement (smem st)")
      case (Some sc)
      then obtain q where "read_page_at hw (scratch_file sc) i = Inr q" "page_bytes q = hist st s i"
        using read_page_at_disk b by (fastforce simp: base_page_def)
      then show ?thesis using e None Some by (simp add: read_lookup_def scratch_read_def)
    next
      case repl: None
      obtain c found where g: "cache_get (mcache (smem st)) i = (c, found)" by fastforce
      have "cache_view (mcache (smem st)) i = found" using cache_get_ok(1) [OF p(4), of i] g by simp
      then have "waits (smem st) i \<or> disk_page (sfile st) i = Some (page_bytes q)" if "found = Some q" for q
        using that mem_ok_parts(7) [OF p(1)] unfolding cache_ok_def by blast
      then have "page_bytes q = hist st s i" if "found = Some q" for q
        using that b None repl by (auto simp: waits_def base_page_def)
      then show ?thesis using e None repl g by (auto simp: read_lookup_def split: option.splits)
    qed
  qed
qed

lemma read_at_reads:
  assumes "sys_inv st" "s \<in> readable (smem st) (open_at st)" "i < pcount st s"
  shows "\<exists>m p. read_at hw (sfile st) i s (smem st) = (m, Inr p) \<and> page_bytes p = hist st s i"
proof -
  obtain m r where l: "read_lookup hw i s (smem st) = (m, r)" by fastforce
  show ?thesis
  proof (cases r)
    case (AskFile e)
    let ?r = "\<lparr>r_page = i, r_seq = s, r_epoch = e, r_read = None\<rparr>"
    let ?st = "st\<lparr>smem := m, readers := ?r # readers st\<rparr>"
    let ?st' = "?st\<lparr>readers := [] @ ?r\<lparr>r_read := Some (read_page_at hw (sfile st) i)\<rparr> # readers st\<rparr>"
    obtain m' answer where f: "read_finish (read_page_at hw (sfile st) i) i e m = (m', answer)" by fastforce
    have inv: "sys_inv ?st" using sys_inv_read_miss [OF assms] l AskFile by blast
    have "sys_inv ?st'" using sys_inv_read_file [OF inv, of "[]" ?r "readers st" hw] by simp
    then have "answer = None \<or> (\<exists>p. answer = Some (Inr p) \<and> page_bytes p = hist st s i)"
      using sys_inv_read_done(2) [of ?st' "[]" _ "readers st" "read_page_at hw (sfile st) i" m' answer] f by simp
    moreover have "file_epoch m = e"
      using read_lookup_mem [OF l sys_inv_parts(4) [OF assms(1)]] read_lookup_ask(3) [of hw i s "smem st"] l AskFile
      by (metis memory.ext_inject memory.surjective memory.update_convs(1))
    then have "answer \<noteq> None" using f by (auto simp: read_finish_def Let_def split: sum.splits if_splits)
    ultimately show ?thesis using l AskFile f by (auto simp: read_at_def)
  qed (use read_lookup_reads [OF assms, of hw] l in \<open>simp_all add: read_at_def\<close>)
qed

lemma mark_written_mseq: "foldR (mark_written n) w m = Inr m' \<Longrightarrow> mseq m' = mseq m"
proof (induction w arbitrary: m)
  case (Cons x w)
  obtain m1 where m1: "mark_written n x m = Inr m1" "foldR (mark_written n) w m1 = Inr m'"
    using Cons.prems by (auto simp: bindR_eq_Inr)
  have "mseq m1 = mseq m" using m1(1)
    by (cases x) (auto simp: mark_written_def Let_def bindR_eq_Inr split: option.splits if_splits)
  then show ?case using Cons.IH m1(2) by simp
qed simp

lemma pages_commit_mseq: "mseq (pages_commit dirty before live m) = mseq m + 1"
proof -
  have "mseq (fst (fold (commit_page os s) d (m, b))) = mseq m" for os s d m b
  proof (induction d arbitrary: m b)
    case (Cons x d)
    obtain m1 b1 where one: "commit_page os s x (m, b) = (m1, b1)" by fastforce
    then have "mseq m1 = mseq m" using commit_page_effect(5) by (metis surj_pair)
    then show ?case using Cons.IH one by simp
  qed simp
  then show ?thesis using keep_within_limit_file_epoch by (simp add: pages_commit_def Let_def)
qed

text \<open>What a commit left is never touched again.\<close>

lemma step_keeps_history:
  assumes "pages_step st st'"
  shows "mseq (smem st) \<le> mseq (smem st') \<and> (\<forall>s \<le> mseq (smem st). hist st' s = hist st s \<and> pcount st' s = pcount st s)"
  using assms
proof (induction rule: pages_step.induct)
  case (ckpt_end st w m)
  then show ?case using mark_written_mseq by (fastforce simp: checkpoint_end_def bindR_eq_Inr)
next
  case (read_done st xs r ys rd m answer)
  then show ?case by (auto simp: read_finish_def Let_def split: if_splits sum.splits)
qed (auto simp: pages_commit_mseq commit_replacing_def set_version_limit_def set_cache_pages_def checkpoint_begin_def Let_def
    pages_truncate_def read_lookup_def split: if_splits option.splits sum.splits prod.splits)

lemma reachable_keeps_history:
  assumes "reachable st st'"
  shows "mseq (smem st) \<le> mseq (smem st') \<and> (\<forall>s \<le> mseq (smem st). hist st' s = hist st s \<and> pcount st' s = pcount st s)"
  using assms
proof (induction rule: reachable.induct)
  case (step st1 st2)
  then show ?case using step_keeps_history [OF step(2)] by (auto intro: order_trans)
qed simp

lemma reachable_trans: "reachable b c \<Longrightarrow> reachable a b \<Longrightarrow> reachable a c"
  by (induction rule: reachable.induct) (auto intro: reachable.step)

subsection \<open>The counts, the lengths of pages, the image\<close>

definition books_ok :: "system \<Rightarrow> bool" where
  "books_ok st \<longleftrightarrow> older (smem st) = older_count (versions (smem st))
     \<and> (\<forall>i < pcount st (mseq (smem st)). length (hist st (mseq (smem st)) i) = USABLE_PAGE_SIZE)
     \<and> (\<forall>sc i. replacement (smem st) = Some sc \<and> 0 < i \<and> i < scratch_count sc \<longrightarrow> disk_page (scratch_file sc) i \<noteq> None)
     \<and> (\<forall>sc. replacement (smem st) = Some sc \<longrightarrow> scratch_count sc \<le> pcount st (mseq (smem st)))"

lemma pages_commit_books:
  assumes ok: "mem_ok file m H C live" and d: "bm_inv dirty" and older: "older m = older_count (versions m)"
  shows "older (pages_commit dirty before live m) = older_count (versions (pages_commit dirty before live m))"
    "older (pages_commit dirty before live m) \<le> limit m"
proof -
  let ?m1 = "m\<lparr>mseq := mseq m + 1\<rparr>" and ?dirty = "map (\<lambda>(i, p). (i, page_checked p)) dirty"
  have o: "still_open (m\<lparr>mseq := Suc (mseq m)\<rparr>) live = still_open m live" by (simp add: still_open_def)
  have fst_dirty: "map fst ?dirty = map fst dirty" by (induction dirty) auto
  have dd: "distinct (map fst ?dirty)" unfolding fst_dirty by (rule bm_inv_distinct [OF d])
  obtain m2 b2 where m2: "fold (commit_page (still_open m live) (mseq m + 1)) ?dirty (?m1, before) = (m2, b2)" by fastforce
  have run: "pages_commit dirty before live m = keep_within_limit live m2"
    using m2 by (simp add: pages_commit_def Let_def o)
  note f = commit_fold [OF dd m2]
  have b: "bm_inv (versions m2)" using f(2) mem_ok_parts(4) [OF ok] by simp
  have "c \<noteq> []" if "bm_get (versions m) i = Some c" for i c
    using vers_okD(2) [OF mem_ok_parts(6) [OF ok] that] by (simp add: chain_ok_def)
  then have ne: "\<forall>chain \<in> ran (bm_get (versions m2)). chain \<noteq> []"
    using f(1) by (auto simp: ran_def commit_chain_def split: option.splits)
  have "older m2 = older_count (versions m2)"
    using commit_fold_older [of ?m1 "still_open m live" "mseq m + 1" ?dirty before] m2 mem_ok_parts(4) [OF ok] older by simp
  from keep_within_limit_bound [OF b ne this]
  show "older (pages_commit dirty before live m) = older_count (versions (pages_commit dirty before live m))"
    "older (pages_commit dirty before live m) \<le> limit m" unfolding run using f(7) by simp_all
qed

lemma mark_written_effect:
  assumes "foldR (mark_written n) w m = Inr m'" "bm_inv (versions m)"
  shows "older m' = older m" "older_count (versions m') = older_count (versions m)" "bm_inv (versions m')"
    "waits m' i \<longleftrightarrow> waits m i \<and> i \<notin> fst ` set w" "replacement m' = replacement m"
proof -
  have "older m' = older m \<and> older_count (versions m') = older_count (versions m) \<and> bm_inv (versions m')
    \<and> (waits m' i \<longleftrightarrow> waits m i \<and> i \<notin> fst ` set w) \<and> replacement m' = replacement m"
    using assms
  proof (induction w arbitrary: m)
    case (Cons x w)
    obtain j p where x: "x = (j, p)" by (cases x)
    obtain m1 where m1: "mark_written n (j, p) m = Inr m1" "foldR (mark_written n) w m1 = Inr m'"
      using Cons.prems(1) x by (auto simp: bindR_eq_Inr)
    obtain c where c: "bm_get (versions m) j = Some c" "c \<noteq> []"
      and v: "versions m1 = bm_put j (butlast c @ [(last c)\<lparr>written := True\<rparr>]) (versions m)"
        "older m1 = older m" "replacement m1 = replacement m"
      using m1(1) by (auto simp: mark_written_def Let_def bindR_eq_Inr split: option.splits if_splits)
    have "older_count (versions m1) = older_count (versions m)"
      using older_count_put [OF Cons.prems(2), of j] c by (simp add: v)
    moreover have "waits m1 i \<longleftrightarrow> waits m i \<and> i \<noteq> j" by (simp add: waits_def v)
    ultimately show ?case using Cons.IH [OF m1(2)] v Cons.prems(2) x by auto
  qed simp
  then show "older m' = older m" "older_count (versions m') = older_count (versions m)" "bm_inv (versions m')"
    "waits m' i \<longleftrightarrow> waits m i \<and> i \<notin> fst ` set w" "replacement m' = replacement m" by simp_all
qed

lemma read_books:
  "read_lookup hw i s m = (m', r) \<Longrightarrow> \<exists>c. m' = m\<lparr>mcache := c\<rparr>"
  "read_finish rd i e m = (m', answer) \<Longrightarrow> \<exists>c. m' = m\<lparr>mcache := c\<rparr>"
proof -
  have same: "\<exists>c. m = m\<lparr>mcache := c\<rparr>" by (rule exI [of _ "mcache m"]) simp
  show "read_lookup hw i s m = (m', r) \<Longrightarrow> \<exists>c. m' = m\<lparr>mcache := c\<rparr>"
    using same by (auto simp: read_lookup_def split: if_splits option.splits sum.splits prod.splits)
  show "read_finish rd i e m = (m', answer) \<Longrightarrow> \<exists>c. m' = m\<lparr>mcache := c\<rparr>"
    using same by (auto simp: read_finish_def Let_def split: if_splits option.splits sum.splits prod.splits)
qed

lemma books_ok_step: "pages_step st st' \<Longrightarrow> sys_inv st \<Longrightarrow> books_ok st \<Longrightarrow> books_ok st'"
proof (induction rule: pages_step.induct)
  case (commit st dirty n before)
  note p = sys_inv_parts [OF commit(7)]
  have "length (case bm_get dirty i of None \<Rightarrow> hist st (mseq (smem st)) i | Some p \<Rightarrow> page_bytes p) = USABLE_PAGE_SIZE"
    if "i < n" for i
  proof (cases "bm_get dirty i")
    case None
    then have "i < pcount st (mseq (smem st))" using commit(5) that by (meson not_le)
    then show ?thesis using None commit(8) by (simp add: books_ok_def)
  qed (use commit(4) in simp)
  moreover have "\<forall>i. bm_get dirty i \<noteq> None \<longrightarrow> i < n" using commit(4) by auto
  note mem_ok_commit(3) [OF p(1) commit(2) this commit(5,3,6)]
  ultimately show ?case using commit(8) pages_commit_books(1) [OF p(1) commit(2)] commit(3)
    by (auto simp: books_ok_def pages_commit_mseq intro: order_trans)
next
  case (replace st sc header img)
  let ?m = "commit_replacing [(0, header)] sc (smem st)"
  have m: "older ?m = older_count (versions ?m)" "mseq ?m = mseq (smem st) + 1" "replacement ?m = Some sc"
    by (simp_all add: commit_replacing_def older_count_def)
  have "length (img i) = USABLE_PAGE_SIZE" if "0 < i" "i < scratch_count sc" for i
    using replace.hyps that disk_page_length [of "scratch_file sc" i] by simp
  then show ?case using replace.hyps m by (auto simp: books_ok_def)
next
  case (forget st)
  then show ?case by (simp add: books_ok_def older_forget)
next
  case (ckpt_end st w m)
  then obtain m0 where m0: "foldR (mark_written (pcount st (mseq (smem st)))) w (smem st) = Inr m0"
    "m = m0\<lparr>unwritten := 0, replacement := None\<rparr>" by (auto simp: checkpoint_end_def bindR_eq_Inr)
  show ?case using mark_written_effect [OF m0(1) mem_ok_parts(4) [OF sys_inv_parts(1) [OF ckpt_end(5)]]]
      mark_written_mseq [OF m0(1)] m0(2) ckpt_end(6) by (simp add: books_ok_def)
next
  case (read_hit hw i s st m p)
  then show ?case using read_books(1) [OF read_hit(1)] by (auto simp: books_ok_def)
next
  case (read_miss s st i hw m epoch)
  then show ?case using read_books(1) [OF read_miss(3)] by (auto simp: books_ok_def)
next
  case (read_done st xs r ys rd m answer)
  then show ?case using read_books(2) [OF read_done(3)] by (auto simp: books_ok_def)
qed (auto simp: books_ok_def set_version_limit_def set_cache_pages_def checkpoint_begin_def Let_def pages_truncate_def
    split: if_splits)

lemma books_ok_reachable:
  assumes start: "\<forall>i < n. disk_page file i \<noteq> None" and r: "reachable (fresh_system file n k) st"
  shows "books_ok st"
  using r
proof (induction rule: reachable.induct)
  case start: start
  have "length (the (disk_page file i)) = USABLE_PAGE_SIZE" if "i < n" for i
    using assms(1) that disk_page_length by (metis option.exhaust_sel)
  then show ?case by (simp add: books_ok_def fresh_system_def memory_new_def older_count_def)
next
  case (step st1 st2)
  then show ?case using books_ok_step sys_inv_reachable [OF assms(1)] by blast
qed

subsection \<open>A checkpoint is a sequence of steps\<close>

lemmas stepI = reachable.step [OF reachable.start]

lemma sys_updates:
  fixes st :: system
  shows "ckpt st = None \<Longrightarrow> st\<lparr>sfile := f, smem := m, ckpt := None\<rparr> = st\<lparr>sfile := f, smem := m\<rparr>"
    "st\<lparr>ckpt := c, smem := m\<rparr> = st\<lparr>smem := m, ckpt := c\<rparr>" "st\<lparr>ckpt := c, sfile := f\<rparr> = st\<lparr>sfile := f, ckpt := c\<rparr>"
    "st\<lparr>smem := m, sfile := f\<rparr> = st\<lparr>sfile := f, smem := m\<rparr>"
  by (cases st, simp)+

lemma nothing_waits:
  assumes "mem_ok file m H C live" "\<And>i. \<not> waits m i" "replacement m = None" "i < C (mseq m)"
  shows "disk_page file i = Some (H (mseq m) i)"
proof -
  note v = vers_okD [OF mem_ok_parts(6) [OF assms(1), of i]]
  show ?thesis
  proof (cases "bm_get (versions m) i")
    case None
    then show ?thesis using v(1) [OF None mseq_readable assms(4)] assms(3) by (simp add: base_page_def)
  next
    case (Some c)
    then have "written (last c)" using assms(2) [of i] by (simp add: waits_def)
    moreover have "Some (page_bytes (vpage (last c))) = Some (H (mseq m) i)"
      using v(2) [OF Some] v(3) [OF Some mseq_readable assms(4)] by (simp add: chain_ok_def chain_view_last)
    ultimately show ?thesis using v(5) [OF Some] by simp
  qed
qed

text \<open>After the writes: the cut, the flush and the end of a checkpoint, or its failure.\<close>

lemma ckpt_tail:
  assumes inv: "sys_inv st" "ckpt st = Some w"
    and disk: "\<forall>(i, p) \<in> set w. disk_page (sfile st) i = Some (page_bytes p)"
     "\<forall>sc i b. replacement (smem st) = Some sc \<and> 0 < i \<and> i < scratch_count sc \<and> i \<notin> fst ` set w
       \<and> disk_page (scratch_file sc) i = Some b \<longrightarrow> disk_page (sfile st) i = Some b"
    and small: "\<forall>sc. replacement (smem st) = Some sc \<longrightarrow> scratch_count sc \<le> pcount st (mseq (smem st))"
    and cut: "pages_truncate (pcount st (mseq (smem st))) (sfile st) (smem st) = (file', m)"
  shows "\<exists>m'. checkpoint_end (pcount st (mseq (smem st))) w m = Inr m'
    \<and> reachable st (st\<lparr>sfile := file', smem := forget (open_at st) m', ckpt := None\<rparr>)
    \<and> reachable st (st\<lparr>sfile := file', smem := m, ckpt := None\<rparr>)
    \<and> (\<forall>i. \<not> waits (forget (open_at st) m') i) \<and> replacement m' = None \<and> unwritten m' = 0 \<and> mseq m' = mseq (smem st)"
proof -
  note p = sys_inv_parts [OF inv(1)] and t = mem_ok_truncate [OF sys_inv_parts(1) [OF inv(1)] cut]
  let ?n = "pcount st (mseq (smem st))"
  let ?st = "st\<lparr>sfile := file', smem := m\<rparr>"
  have s1: "pages_step st ?st" using pages_step.ckpt_cut [OF inv(2) cut] .
  have inv1: "sys_inv ?st" using sys_inv_step [OF s1 inv(1)] .
  have w: "w = waiting_pages (smem st)" using p(2) inv(2) by simp
  have wm: "waits m i \<longleftrightarrow> i \<in> fst ` set w" for i
    using waits_iff [OF mem_ok_parts(4) [OF t(1)]] t(3) w by (simp add: waiting_pages_def)
  have lt: "i < ?n" if "i \<in> fst ` set w" for i
    using wm [of i] that vers_okD(4) [OF mem_ok_parts(6) [OF t(1), of i]] t(6) by (auto simp: waits_def split: option.splits)
  have d1: "\<forall>(i, p) \<in> set w. disk_page (sfile ?st) i = Some (page_bytes p)" using disk(1) t(2) lt by force
  have d2: "\<forall>sc i b. replacement (smem ?st) = Some sc \<and> 0 < i \<and> i < scratch_count sc \<and> i \<notin> fst ` set w
       \<and> disk_page (scratch_file sc) i = Some b \<longrightarrow> disk_page (sfile ?st) i = Some b"
    using disk(2) small t(2,5) by fastforce
  obtain m' where m': "checkpoint_end ?n w m = Inr m'" using sys_inv_ckpt(4) [OF inv1 _ d1 d2] inv(2) t(6) by auto
  have s2: "pages_step ?st (?st\<lparr>smem := m', ckpt := None\<rparr>)"
    by (rule pages_step.ckpt_end [OF _ d1 d2]) (use inv(2) m' t(6) in simp_all)
  have inv2: "sys_inv (?st\<lparr>smem := m', ckpt := None\<rparr>)" using sys_inv_step [OF s2 inv1] .
  have s3: "pages_step (?st\<lparr>smem := m', ckpt := None\<rparr>) (?st\<lparr>smem := forget (open_at st) m', ckpt := None\<rparr>)"
    using pages_step.forget [of "?st\<lparr>smem := m', ckpt := None\<rparr>"] by (simp add: sys_updates(2))
  have "reachable st (?st\<lparr>smem := forget (open_at st) m', ckpt := None\<rparr>)"
    using reachable.step [OF reachable.step [OF stepI [OF s1] s2] s3] .
  moreover have "reachable st (?st\<lparr>ckpt := None\<rparr>)"
    using reachable.step [OF stepI [OF s1] pages_step.ckpt_fail] inv(2) by simp
  moreover obtain m0 where m0: "foldR (mark_written ?n) w m = Inr m0" "m' = m0\<lparr>unwritten := 0, replacement := None\<rparr>"
    using m' by (auto simp: checkpoint_end_def bindR_eq_Inr)
  have "\<not> waits m' i" for i
    using mark_written_effect(4) [OF m0(1) mem_ok_parts(4) [OF t(1)], of i] wm m0(2) by (simp add: waits_def)
  then have "\<not> waits (forget (open_at st) m') i" for i
    using waits_forget [OF sys_inv_parts(1) [OF inv2]] by simp
  ultimately show ?thesis using m' m0 mark_written_mseq [OF m0(1)] t(6) by auto
qed

text \<open>The writes of a checkpoint, as far as they get.\<close>

lemma ckpt_writes:
  assumes inv: "sys_inv st" "ckpt st = Some w"
    and copy: "(case replacement (smem st) of None \<Rightarrow> (sfile st, Inr ()) | Some sc \<Rightarrow> copy_into sc stop (sfile st)) = (f1, r1)"
    and wr: "write_back hw stop' w f1 = (f2, r2)"
  shows "reachable st (st\<lparr>sfile := f1\<rparr>)" "reachable st (st\<lparr>sfile := f2\<rparr>)"
    "r1 = Inr () \<Longrightarrow> r2 = Inr () \<Longrightarrow> (\<forall>(i, p) \<in> set w. disk_page f2 i = Some (page_bytes p))
      \<and> (\<forall>sc i b. replacement (smem st) = Some sc \<and> 0 < i \<and> i < scratch_count sc \<and> i \<notin> fst ` set w
       \<and> disk_page (scratch_file sc) i = Some b \<longrightarrow> disk_page f2 i = Some b)"
proof -
  note b = write_back_effect [OF wr]
  have s1: "pages_step st (st\<lparr>sfile := f1\<rparr>)" using copy by (intro pages_step.ckpt_write [OF inv(2)]) auto
  then show "reachable st (st\<lparr>sfile := f1\<rparr>)" by (rule stepI)
  have "pages_step (st\<lparr>sfile := f1\<rparr>) (st\<lparr>sfile := f1\<rparr>\<lparr>sfile := f2\<rparr>)"
    by (rule pages_step.ckpt_write [of _ w]) (use inv(2) b(1) in auto)
  then show "reachable st (st\<lparr>sfile := f2\<rparr>)" using reachable.step [OF stepI [OF s1]] by simp
  assume r: "r1 = Inr ()" "r2 = Inr ()"
  have "distinct (map fst w)"
    using distinct_waiting [OF mem_ok_parts(4) [OF sys_inv_parts(1) [OF inv(1)]]] sys_inv_parts(2) [OF inv] by simp
  moreover have "disk_page f1 i = Some x"
    if "replacement (smem st) = Some sc" "0 < i" "i < scratch_count sc" "disk_page (scratch_file sc) i = Some x" for sc i x
    using copy_loop_copies [of sc stop 1 "sfile st" f1 i] copied_page_reads copy that r(1) by (auto simp: copy_into_def)
  ultimately show "(\<forall>(i, p) \<in> set w. disk_page f2 i = Some (page_bytes p))
      \<and> (\<forall>sc i b. replacement (smem st) = Some sc \<and> 0 < i \<and> i < scratch_count sc \<and> i \<notin> fst ` set w
       \<and> disk_page (scratch_file sc) i = Some b \<longrightarrow> disk_page f2 i = Some b)"
    using b r(2) by blast
qed

lemma sys_inv_reach: "reachable st st' \<Longrightarrow> sys_inv st \<Longrightarrow> sys_inv st'"
  by (induction rule: reachable.induct) (auto intro: sys_inv_step)

text \<open>A checkpoint that gives up: the system as it is, no checkpoint under way.\<close>

lemma ckpt_gives_up:
  assumes "ckpt st = None" "checkpoint_begin (smem st) = (m0, w, repl)"
    and "reachable (st\<lparr>smem := m0, ckpt := Some w\<rparr>) (st\<lparr>smem := m0, ckpt := Some w\<rparr>\<lparr>sfile := f, smem := m\<rparr>)"
  shows "reachable st (st\<lparr>sfile := f, smem := m\<rparr>)"
proof -
  let ?s0 = "st\<lparr>smem := m0, ckpt := Some w\<rparr>"
  have "pages_step (?s0\<lparr>sfile := f, smem := m\<rparr>) (?s0\<lparr>sfile := f, smem := m\<rparr>\<lparr>ckpt := None\<rparr>)"
    by (rule pages_step.ckpt_fail [of _ w]) simp
  moreover have "?s0\<lparr>sfile := f, smem := m\<rparr>\<lparr>ckpt := None\<rparr> = st\<lparr>sfile := f, smem := m\<rparr>" using assms(1) by (cases st) simp
  ultimately show ?thesis
    using reachable.step [OF reachable_trans [OF assms(3) stepI [OF pages_step.ckpt_begin [OF assms(1,2)]]]] by metis
qed

lemma ckpt_idle:
  assumes "sys_inv st" "ckpt st = None" "checkpoint_begin (smem st) = (m0, w, repl)"
  shows "reachable st (st\<lparr>sfile := sfile st, smem := forget (open_at st) m0\<rparr>)"
    "w = [] \<Longrightarrow> \<not> waits (forget (open_at st) m0) i"
proof -
  let ?s0 = "st\<lparr>smem := m0, ckpt := Some w\<rparr>"
  have "pages_step ?s0 (?s0\<lparr>smem := forget (open_at st) m0\<rparr>)" using pages_step.forget [of ?s0] by simp
  moreover have "?s0\<lparr>smem := forget (open_at st) m0\<rparr> = ?s0\<lparr>sfile := sfile st, smem := forget (open_at st) m0\<rparr>"
    by (cases st) simp
  ultimately show "reachable st (st\<lparr>sfile := sfile st, smem := forget (open_at st) m0\<rparr>)"
    using ckpt_gives_up [OF assms(2,3)] stepI by metis
  have "sys_inv ?s0" using sys_inv_step [OF pages_step.ckpt_begin [OF assms(2,3)] assms(1)] .
  then have ok: "mem_ok (sfile st) m0 (hist st) (pcount st) (open_at st)" by (simp add: sys_inv_def)
  have "w = waiting_pages m0" using assms(3) by (auto simp: checkpoint_begin_def Let_def)
  then show "w = [] \<Longrightarrow> \<not> waits (forget (open_at st) m0) i"
    using waits_iff [OF mem_ok_parts(4) [OF ok]] waits_forget [OF ok] by simp
qed

lemma ckpt_run:
  assumes inv: "sys_inv st" "books_ok st" "ckpt st = None" and bg: "checkpoint_begin (smem st) = (m0, w, repl)"
    and copy: "(case repl of None \<Rightarrow> (sfile st, Inr ()) | Some sc \<Rightarrow> copy_into sc stop (sfile st)) = (f1, r1)"
    and wr: "write_back hw stop' w f1 = (f2, r2)" and cut: "pages_truncate (pcount st (mseq (smem st))) f2 m0 = (f3, m3)"
  shows "reachable st (st\<lparr>sfile := f1, smem := m0\<rparr>)" "reachable st (st\<lparr>sfile := f2, smem := m0\<rparr>)"
    "r1 = Inr () \<Longrightarrow> r2 = Inr () \<Longrightarrow>
      \<exists>me. checkpoint_end (pcount st (mseq (smem st))) w m3 = Inr me \<and> reachable st (st\<lparr>sfile := f3, smem := forget (open_at st) me\<rparr>)
      \<and> reachable st (st\<lparr>sfile := f3, smem := m3\<rparr>) \<and> (\<forall>i. \<not> waits (forget (open_at st) me) i)
      \<and> replacement me = None \<and> mseq me = mseq (smem st)"
proof -
  let ?n = "pcount st (mseq (smem st))" and ?s0 = "st\<lparr>smem := m0, ckpt := Some w\<rparr>"
  have m0: "m0 = (smem st)\<lparr>file_epoch := file_epoch (smem st) + 1\<rparr>" "repl = replacement m0"
    using bg by (auto simp: checkpoint_begin_def Let_def)
  have step0: "pages_step st ?s0" using pages_step.ckpt_begin [OF inv(3) bg] .
  have inv0: "sys_inv ?s0" "books_ok ?s0" using sys_inv_step [OF step0 inv(1)] books_ok_step [OF step0 inv(1,2)] by blast+
  have copy': "(case replacement (smem ?s0) of None \<Rightarrow> (sfile ?s0, Inr ()) | Some sc \<Rightarrow> copy_into sc stop (sfile ?s0)) = (f1, r1)"
    using copy m0(2) by (simp cong: option.case_cong)
  have ck: "ckpt ?s0 = Some w" by simp
  note s = ckpt_writes [OF inv0(1) ck copy' wr]
  have same: "?s0\<lparr>sfile := f\<rparr> = ?s0\<lparr>sfile := f, smem := m0\<rparr>" for f by (cases st) simp
  show "reachable st (st\<lparr>sfile := f1, smem := m0\<rparr>)" "reachable st (st\<lparr>sfile := f2, smem := m0\<rparr>)"
    using ckpt_gives_up [OF inv(3) bg] s(1,2) same by metis+
  assume ok: "r1 = Inr ()" "r2 = Inr ()"
  let ?s2 = "?s0\<lparr>sfile := f2\<rparr>"
  have "\<exists>me. checkpoint_end (pcount ?s2 (mseq (smem ?s2))) w m3 = Inr me
    \<and> reachable ?s2 (?s2\<lparr>sfile := f3, smem := forget (open_at ?s2) me, ckpt := None\<rparr>)
    \<and> reachable ?s2 (?s2\<lparr>sfile := f3, smem := m3, ckpt := None\<rparr>)
    \<and> (\<forall>i. \<not> waits (forget (open_at ?s2) me) i) \<and> replacement me = None \<and> unwritten me = 0 \<and> mseq me = mseq (smem ?s2)"
    by (rule ckpt_tail) (use sys_inv_reach [OF s(2) inv0(1)] s(3) [OF ok, THEN conjunct1] s(3) [OF ok, THEN conjunct2] inv0(2) cut m0(1)
      in \<open>simp_all add: books_ok_def\<close>)
  then obtain me where me: "checkpoint_end ?n w m3 = Inr me"
    "reachable ?s2 (?s2\<lparr>sfile := f3, smem := forget (open_at st) me, ckpt := None\<rparr>)"
    "reachable ?s2 (?s2\<lparr>sfile := f3, smem := m3, ckpt := None\<rparr>)"
    "\<forall>i. \<not> waits (forget (open_at st) me) i" "replacement me = None" "mseq me = mseq (smem st)"
    using m0(1) by auto
  have "?s2\<lparr>sfile := f, smem := m, ckpt := None\<rparr> = st\<lparr>sfile := f, smem := m\<rparr>" for f m using inv(3) by (cases st) simp
  then show "\<exists>me. checkpoint_end ?n w m3 = Inr me \<and> reachable st (st\<lparr>sfile := f3, smem := forget (open_at st) me\<rparr>)
      \<and> reachable st (st\<lparr>sfile := f3, smem := m3\<rparr>) \<and> (\<forall>i. \<not> waits (forget (open_at st) me) i)
      \<and> replacement me = None \<and> mseq me = mseq (smem st)"
    using me reachable_trans [OF _ reachable_trans [OF s(2) stepI [OF step0]]] by metis
qed

lemma checkpoint_steps:
  assumes inv: "sys_inv st" "books_ok st" "ckpt st = None"
    and run: "pages_checkpoint hw os (pcount st (mseq (smem st))) (open_at st) (sfile st) (smem st) = (file', m', r)"
  shows "reachable st (st\<lparr>sfile := file', smem := m'\<rparr>)
    \<and> (r = Inr () \<longrightarrow> (\<forall>i. \<not> waits m' i) \<and> replacement m' = None \<and> mseq m' = mseq (smem st))"
proof -
  let ?n = "pcount st (mseq (smem st))"
  obtain m0 w repl where bg: "checkpoint_begin (smem st) = (m0, w, repl)" by (metis surj_pair)
  obtain f1 r1 where copy: "(case repl of None \<Rightarrow> (sfile st, Inr ()) | Some sc \<Rightarrow> copy_into sc (copy_stops os) (sfile st)) = (f1, r1)"
    by fastforce
  obtain f2 r2 where wr: "write_back hw (write_stops os) w f1 = (f2, r2)" by fastforce
  obtain f3 m3 where cut: "pages_truncate ?n f2 m0 = (f3, m3)" by fastforce
  note c = ckpt_run [OF inv bg copy wr cut]
  have m0: "m0 = (smem st)\<lparr>file_epoch := file_epoch (smem st) + 1\<rparr>" "repl = replacement m0"
    using bg by (auto simp: checkpoint_begin_def Let_def)
  consider "w = []" "repl = None" | e where "w \<noteq> [] \<or> repl \<noteq> None" "r1 = Inl e" | e where "w \<noteq> [] \<or> repl \<noteq> None" "r1 = Inr ()" "r2 = Inl e"
    | "w \<noteq> [] \<or> repl \<noteq> None" "r1 = Inr ()" "r2 = Inr ()"
    by (cases r1; cases r2) (auto simp: old.unit.exhaust)
  then show ?thesis
  proof cases
    case 1
    then have "file' = sfile st" "m' = forget (open_at st) m0" using run bg by (simp_all add: pages_checkpoint_def)
    then show ?thesis using ckpt_idle [OF inv(1,3) bg] 1 m0 by simp
  next
    case 2
    then show ?thesis using run bg copy c(1) by (auto simp: pages_checkpoint_def)
  next
    case 3
    then show ?thesis using run bg copy wr c(2) by (auto simp: pages_checkpoint_def)
  next
    case 4
    then show ?thesis using run bg copy wr cut c(2) c(3) [OF 4(2,3)] by (auto simp: pages_checkpoint_def split: if_splits)
  qed
qed

text \<open>Without faults the writes go through: the pages have the right length, the image is whole.\<close>

lemma checkpoint_returns:
  assumes inv: "sys_inv st" "books_ok st" "ckpt st = None"
  shows "\<exists>file' m'. pages_checkpoint hw \<lparr>copy_stops = None, write_stops = None, cut_fails = False, flush_fails = False\<rparr>
      (pcount st (mseq (smem st))) (open_at st) (sfile st) (smem st) = (file', m', Inr ())"
proof -
  let ?n = "pcount st (mseq (smem st))"
  obtain m0 w repl where bg: "checkpoint_begin (smem st) = (m0, w, repl)" by (metis surj_pair)
  have m0: "w = waiting_pages (smem st)" "repl = replacement (smem st)"
    using bg by (auto simp: checkpoint_begin_def Let_def waiting_pages_def)
  note ok = sys_inv_parts(1) [OF inv(1)]
  have "\<exists>f1. (case repl of None \<Rightarrow> (sfile st, Inr ()) | Some sc \<Rightarrow> copy_into sc None (sfile st)) = (f1, Inr ())"
  proof (cases repl)
    case (Some sc)
    have "scratch_count sc * PAGE_SIZE \<le> length (scratch_file sc)" if "1 < scratch_count sc"
    proof -
      have "disk_page (scratch_file sc) (scratch_count sc - 1) \<noteq> None" using inv(2) m0(2) Some that by (auto simp: books_ok_def)
      then show ?thesis using that by (auto simp: disk_page_cases)
    qed
    moreover have "copy_loop sc None 1 f = (f, Inr ())" if "\<not> 1 < scratch_count sc" for f
      using that by (subst copy_loop.simps) simp
    ultimately show ?thesis using Some copy_loop_returns [of sc 1 "sfile st"]
      by (cases "1 < scratch_count sc") (auto simp: copy_into_def)
  qed simp
  then obtain f1 where copy: "(case repl of None \<Rightarrow> (sfile st, Inr ()) | Some sc \<Rightarrow> copy_into sc None (sfile st)) = (f1, Inr ())" by blast
  have "length (page_bytes p) = USABLE_PAGE_SIZE" if ip: "(i, p) \<in> set w" for i p
  proof -
    obtain c where c: "bm_get (versions (smem st)) i = Some c" "p = vpage (last c)"
      using ip waiting_pages_iff [OF mem_ok_parts(4) [OF ok]] m0(1) by blast
    note v = vers_okD [OF mem_ok_parts(6) [OF ok, of i]]
    have "page_bytes p = hist st (mseq (smem st)) i"
      using v(2) [OF c(1)] v(3) [OF c(1) mseq_readable v(4) [OF c(1)]] c(2) by (simp add: chain_ok_def chain_view_last)
    then show ?thesis using inv(2) v(4) [OF c(1)] by (simp add: books_ok_def)
  qed
  then obtain f2 where wr: "write_back hw None w f1 = (f2, Inr ())" using write_back_returns [of w hw f1] by blast
  obtain f3 m3 where cut: "pages_truncate ?n f2 m0 = (f3, m3)" by fastforce
  obtain me where me: "checkpoint_end ?n w m3 = Inr me" using ckpt_run(3) [OF inv bg copy wr cut] by blast
  show ?thesis using bg copy wr cut me by (cases repl) (auto simp: pages_checkpoint_def)
qed

lemma pages_checkpoint_ended:
  assumes "pages_checkpoint hw os n live file m = (file', m', r)"
  shows "readable m' live' = readable m live'"
proof -
  have fold: "ended_before m2 = ended_before m1" if "foldR (mark_written n) w m1 = Inr m2" for w m1 m2
    using that
  proof (induction w arbitrary: m1)
    case (Cons x w)
    then obtain m3 where m3: "mark_written n x m1 = Inr m3" "foldR (mark_written n) w m3 = Inr m2" by (auto simp: bindR_eq_Inr)
    have "ended_before m3 = ended_before m1" using m3(1)
      by (cases x) (auto simp: mark_written_def Let_def bindR_eq_Inr split: option.splits if_splits)
    then show ?case using Cons.IH m3(2) by simp
  qed simp
  have cut: "ended_before m2 = ended_before m1 \<and> mseq m2 = mseq m1" if "pages_truncate n f m1 = (f2, m2)" for f m1 f2 m2
    using that by (auto simp: pages_truncate_def split: if_splits)
  have fin: "ended_before m2 = ended_before m1 \<and> mseq m2 = mseq m1" if "checkpoint_end n w m1 = Inr m2" for w m1 m2
    using that fold mark_written_mseq by (auto simp: checkpoint_end_def bindR_eq_Inr)
  have "ended_before m' = ended_before m \<and> mseq m' = mseq m"
    using assms cut fin
    by (fastforce simp: pages_checkpoint_def checkpoint_begin_def Let_def split: prod.splits if_splits sum.splits)
  then show ?thesis by (simp add: readable_def)
qed

subsection \<open>A page, a snapshot and a commit\<close>

definition zero_page :: bytes where "zero_page = replicate USABLE_PAGE_SIZE 0"

definition zero_file :: bytes where
  "zero_file = write_all_at [] (zero_page @ checksum False 0 zero_page) (0 * PAGE_SIZE)"

definition one_page :: page where "one_page = page_from (replicate USABLE_PAGE_SIZE 1)"

text \<open>A file of one page, a snapshot of it, and a commit that changes the page.\<close>

definition snapshot_system :: system where
  "snapshot_system = (fresh_system zero_file 1 1)\<lparr>open_at := [0]\<rparr>"

definition committed_system :: system where
  "committed_system = snapshot_system\<lparr>
     smem := pages_commit [(0, one_page)] [(0, page_from zero_page)] [0] (memory_new 1),
     hist := (hist snapshot_system)(1 :=
       (\<lambda>i. case bm_get [(0, one_page)] i of None \<Rightarrow> hist snapshot_system 0 i | Some p \<Rightarrow> page_bytes p)),
     pcount := (pcount snapshot_system)(1 := 1)\<rparr>"

lemma zero_file_page: "disk_page zero_file 0 = Some zero_page"
proof -
  have "write_page_at False [] 0 zero_page = Inr zero_file" by (simp add: write_page_at_def zero_page_def zero_file_def)
  from write_page_at_reads(1) [OF this] show ?thesis .
qed

lemma zero_file_ok: "\<forall>i < 1. disk_page zero_file i \<noteq> None"
  by (simp add: zero_file_page)

lemma snapshot_system_reachable: "reachable (fresh_system zero_file 1 1) snapshot_system"
proof -
  have "pages_step (fresh_system zero_file 1 1) snapshot_system"
    using pages_step.open_snapshot [of "fresh_system zero_file 1 1"]
    by (simp add: snapshot_system_def fresh_system_def memory_new_def)
  then show ?thesis by (rule stepI)
qed

lemma committed_system_reachable: "reachable snapshot_system committed_system"
proof -
  let ?dirty = "[(0, one_page)]" and ?before = "[(0, page_from zero_page)]" and ?m = "memory_new 1"
  have m: "smem snapshot_system = ?m" "mseq ?m = 0" "ckpt snapshot_system = None" "open_at snapshot_system = [0]"
    "pcount snapshot_system = (\<lambda>_. 1)" "hist snapshot_system 0 0 = zero_page"
    using zero_file_page by (simp_all add: snapshot_system_def fresh_system_def memory_new_def)
  have "pages_step snapshot_system (snapshot_system\<lparr>smem := pages_commit ?dirty ?before (open_at snapshot_system) (smem snapshot_system),
     hist := (hist snapshot_system)(mseq (smem snapshot_system) + 1 :=
       (\<lambda>i. case bm_get ?dirty i of None \<Rightarrow> hist snapshot_system (mseq (smem snapshot_system)) i | Some p \<Rightarrow> page_bytes p)),
     pcount := (pcount snapshot_system)(mseq (smem snapshot_system) + 1 := 1)\<rparr>)"
    by (rule pages_step.commit) (use m in \<open>auto simp: bm_inv_def one_page_def page_from_def\<close>)
  from stepI [OF this [unfolded m(1,2,4) add_0]] show ?thesis by (simp only: committed_system_def)
qed

lemma committed_system_open: "0 \<in> readable (smem committed_system) (open_at committed_system)"
proof -
  have "ended_before (pages_commit [(0, one_page)] [(0, page_from zero_page)] [0] (memory_new 1)) = 0"
    by (simp add: pages_commit_def Let_def memory_new_def commit_page_def still_open_def partition_point_def prune_def
        keep_within_limit.simps DEFAULT_VERSION_LIMIT_def PAGE_SIZE_def)
  then show ?thesis by (simp add: committed_system_def snapshot_system_def readable_def)
qed

subsection \<open>Properties\<close>

text \<open>
  C25. Snapshot isolation. Whatever commits, compactions, checkpoints (with torn writes and
  failures), readers filling the cache and forgotten versions come after a commit, a reader of
  that commit - through a snapshot that is open and that the limit has not ended, or of the
  newest commit - gets every page as the commit left it, and gets it without an error.
\<close>

theorem snapshot_reads_its_commit:
  assumes "\<forall>i < n. disk_page file i \<noteq> None" "reachable (fresh_system file n k) st" "reachable st st'"
    and "s \<le> mseq (smem st)" "s \<in> readable (smem st') (open_at st')" "i < pcount st s"
  shows "\<exists>m p. read_at hw (sfile st') i s (smem st') = (m, Inr p) \<and> page_bytes p = hist st s i"
proof -
  have "sys_inv st'" using sys_inv_reachable [OF assms(1) reachable_trans [OF assms(3,2)]] .
  moreover have "hist st' s = hist st s" "pcount st' s = pcount st s" using reachable_keeps_history [OF assms(3)] assms(4) by auto
  ultimately show ?thesis using read_at_reads [of st' s i hw] assms(5,6) by simp
qed

theorem snapshot_reads_its_commit_witness:
  "\<exists>m p. read_at True (sfile committed_system) 0 0 (smem committed_system) = (m, Inr p) \<and> page_bytes p = zero_page"
proof -
  have "hist snapshot_system 0 0 = zero_page" "0 < pcount snapshot_system 0" "0 \<le> mseq (smem snapshot_system)"
    using zero_file_page by (simp_all add: snapshot_system_def fresh_system_def)
  with snapshot_reads_its_commit [OF zero_file_ok snapshot_system_reachable committed_system_reachable _ committed_system_open,
      of 0 True] show ?thesis by simp
qed

text \<open>
  C26. A read that found its page neither in the versions nor in the cache went to the file
  without the lock. Whatever came in between, when it takes the lock again it either starts over
  or answers with the page as its commit left it; and what it puts into the cache leaves every
  later read right.
\<close>

theorem reader_beside_writer:
  assumes "\<forall>i < n. disk_page file i \<noteq> None" "reachable (fresh_system file n k) st"
    and "readers st = xs @ r # ys" "r_read r = Some rd"
    and "read_finish rd (r_page r) (r_epoch r) (smem st) = (m, answer)"
  shows "(answer = None \<or> (\<exists>p. answer = Some (Inr p) \<and> page_bytes p = hist st (r_seq r) (r_page r)))
    \<and> (\<forall>s i. s \<in> readable m (open_at st) \<and> i < pcount st s \<longrightarrow>
        (\<exists>m' p. read_at hw (sfile st) i s m = (m', Inr p) \<and> page_bytes p = hist st s i))"
proof -
  note d = sys_inv_read_done [OF sys_inv_reachable [OF assms(1,2)] assms(3,4,5)]
  have "\<exists>m' p. read_at hw (sfile st) i s m = (m', Inr p) \<and> page_bytes p = hist st s i"
    if "s \<in> readable m (open_at st)" "i < pcount st s" for s i
    using read_at_reads [OF d(1), of s i hw] that by simp
  then show ?thesis using d(2) by blast
qed

text \<open>
  A reader that missed while the file was fresh, read it, and comes back after a snapshot was
  opened.
\<close>

definition reading_system :: system where
  "reading_system = (fresh_system zero_file 1 1)\<lparr>
     readers := [\<lparr>r_page = 0, r_seq = 0, r_epoch = 0, r_read = Some (read_page_at False zero_file 0)\<rparr>]\<rparr>"

lemma reading_system_reachable: "reachable (fresh_system zero_file 1 1) reading_system"
proof -
  let ?s = "fresh_system zero_file 1 1"
  let ?r = "\<lparr>r_page = 0, r_seq = 0, r_epoch = 0, r_read = None\<rparr>"
  have look: "read_lookup False 0 0 (smem ?s) = (memory_new 1, AskFile 0)"
    by (simp add: read_lookup_def fresh_system_def memory_new_def cache_get_def cache_new_def)
  have "pages_step ?s (?s\<lparr>smem := memory_new 1, readers := ?r # readers ?s\<rparr>)"
    by (rule pages_step.read_miss [OF _ _ look]) (simp_all add: readable_def fresh_system_def memory_new_def)
  moreover have "pages_step (?s\<lparr>smem := memory_new 1, readers := ?r # readers ?s\<rparr>) reading_system"
    using pages_step.read_file [of "?s\<lparr>smem := memory_new 1, readers := ?r # readers ?s\<rparr>" "[]" ?r "[]" False]
    by (simp add: reading_system_def fresh_system_def)
  ultimately show ?thesis using reachable.step [OF stepI] by blast
qed

theorem reader_beside_writer_witness:
  "\<exists>m p. read_finish (read_page_at False zero_file 0) 0 0 (smem reading_system) = (m, Some (Inr p)) \<and> page_bytes p = zero_page"
proof -
  obtain m answer where f: "read_finish (read_page_at False zero_file 0) 0 0 (smem reading_system) = (m, answer)" by fastforce
  have "answer = None \<or> (\<exists>p. answer = Some (Inr p) \<and> page_bytes p = hist reading_system 0 0)"
    using reader_beside_writer [OF zero_file_ok reading_system_reachable, of "[]"
        "\<lparr>r_page = 0, r_seq = 0, r_epoch = 0, r_read = Some (read_page_at False zero_file 0)\<rparr>" "[]"
        "read_page_at False zero_file 0" m answer] f
    by (simp add: reading_system_def)
  moreover have "hist reading_system 0 0 = zero_page" using zero_file_page by (simp add: reading_system_def fresh_system_def)
  moreover have "answer \<noteq> None"
    using f by (auto simp: read_finish_def reading_system_def fresh_system_def memory_new_def Let_def split: sum.splits)
  ultimately show ?thesis using f by auto
qed

text \<open>
  C27. However long snapshots stay open, after every commit at most \<open>limit\<close> page versions are
  kept for them - counted over the versions there really are, which the counter \<open>older\<close> equals -
  because the loop that ends the oldest snapshots always gets there.
\<close>

theorem versions_within_limit:
  assumes "\<forall>i < n. disk_page file i \<noteq> None" "reachable (fresh_system file n k) st" "bm_inv dirty"
  shows "older_count (versions (pages_commit dirty before (open_at st) (smem st))) \<le> limit (smem st)
    \<and> older (pages_commit dirty before (open_at st) (smem st))
      = older_count (versions (pages_commit dirty before (open_at st) (smem st)))"
  using pages_commit_books [OF sys_inv_parts(1) [OF sys_inv_reachable [OF assms(1,2)]] assms(3)]
    books_ok_reachable [OF assms(1,2)] by (simp_all add: books_ok_def)

theorem versions_within_limit_witness:
  "older_count (versions (smem committed_system)) \<le> 32768"
proof -
  have "open_at snapshot_system = [0]" "smem snapshot_system = memory_new 1" "limit (memory_new 1) = 32768"
    by (simp_all add: snapshot_system_def fresh_system_def memory_new_def DEFAULT_VERSION_LIMIT_def PAGE_SIZE_def)
  then show ?thesis
    using versions_within_limit [OF zero_file_ok snapshot_system_reachable, of "[(0, one_page)]" "[(0, page_from zero_page)]"]
    by (simp add: committed_system_def bm_inv_def)
qed

text \<open>
  C28. A checkpoint, whatever fails during it (the copy of an image or the writes after any
  number of pages, the cut, the flush), leaves every open snapshot and the newest commit reading
  as before; one that succeeds has put every page of the newest commit into the file.
\<close>

theorem checkpoint_keeps_reads:
  assumes "\<forall>i < n. disk_page file i \<noteq> None" "reachable (fresh_system file n k) st" "ckpt st = None"
    and run: "pages_checkpoint hw os (pcount st (mseq (smem st))) (open_at st) (sfile st) (smem st) = (file', m', r)"
  shows "(\<forall>s i. s \<in> readable (smem st) (open_at st) \<and> i < pcount st s \<longrightarrow>
        (\<exists>m p. read_at hw' file' i s m' = (m, Inr p) \<and> page_bytes p = hist st s i))
    \<and> (r = Inr () \<longrightarrow> (\<forall>i < pcount st (mseq (smem st)). disk_page file' i = Some (hist st (mseq (smem st)) i)))"
proof -
  note inv = sys_inv_reachable [OF assms(1,2)]
  note c = checkpoint_steps [OF inv books_ok_reachable [OF assms(1,2)] assms(3) run]
  have inv': "sys_inv (st\<lparr>sfile := file', smem := m'\<rparr>)" using sys_inv_reach [OF conjunct1 [OF c] inv] .
  have "\<exists>m p. read_at hw' file' i s m' = (m, Inr p) \<and> page_bytes p = hist st s i"
    if "s \<in> readable (smem st) (open_at st)" "i < pcount st s" for s i
    using read_at_reads [OF inv', of s i hw'] that pages_checkpoint_ended [OF run] by simp
  moreover have "disk_page file' i = Some (hist st (mseq (smem st)) i)" if "r = Inr ()" "i < pcount st (mseq (smem st))" for i
    using nothing_waits [OF sys_inv_parts(1) [OF inv'], of i] c that by simp
  ultimately show ?thesis by blast
qed

lemma committed_system_simps:
  "sfile committed_system = zero_file" "pcount committed_system = (\<lambda>_. 1)" "open_at committed_system = [0]"
  "ckpt committed_system = None" "hist committed_system 0 0 = zero_page" "hist committed_system 1 0 = page_bytes one_page"
  "mseq (smem committed_system) = 1"
  using zero_file_page pages_commit_mseq
  by (simp_all add: committed_system_def snapshot_system_def fresh_system_def memory_new_def fun_eq_iff)

lemmas committed_simps = committed_system_simps committed_system_simps(6) [unfolded One_nat_def]

theorem checkpoint_keeps_reads_witness:
  "\<exists>file' m' e m p. pages_checkpoint True \<lparr>copy_stops = None, write_stops = Some 0, cut_fails = False, flush_fails = False\<rparr>
      1 [0] zero_file (smem committed_system) = (file', m', e)
    \<and> read_at True file' 0 0 m' = (m, Inr p) \<and> page_bytes p = zero_page"
proof -
  let ?os = "\<lparr>copy_stops = None, write_stops = Some 0, cut_fails = False, flush_fails = False\<rparr>"
  obtain file' m' e where run: "pages_checkpoint True ?os (pcount committed_system (mseq (smem committed_system)))
      (open_at committed_system) (sfile committed_system) (smem committed_system) = (file', m', e)"
    by (metis surj_pair)
  note c = checkpoint_keeps_reads [OF zero_file_ok reachable_trans [OF committed_system_reachable snapshot_system_reachable]
      committed_system_simps(4) run, where hw' = True]
  obtain m p where "read_at True file' 0 0 m' = (m, Inr p)" "page_bytes p = hist committed_system 0 0"
    using c committed_system_open committed_system_simps(2) by fastforce
  then show ?thesis using run by (auto simp: committed_system_simps)
qed

text \<open>
  Nothing but a fault stops a checkpoint: when no write fails it returns, and the file then
  holds every page of the newest commit.
\<close>

theorem checkpoint_completes:
  assumes "\<forall>i < n. disk_page file i \<noteq> None" "reachable (fresh_system file n k) st" "ckpt st = None"
  shows "\<exists>file' m'. pages_checkpoint hw \<lparr>copy_stops = None, write_stops = None, cut_fails = False, flush_fails = False\<rparr>
        (pcount st (mseq (smem st))) (open_at st) (sfile st) (smem st) = (file', m', Inr ())
      \<and> (\<forall>i < pcount st (mseq (smem st)). disk_page file' i = Some (hist st (mseq (smem st)) i))"
proof -
  note inv = sys_inv_reachable [OF assms(1,2)] books_ok_reachable [OF assms(1,2)]
  obtain file' m' where run: "pages_checkpoint hw \<lparr>copy_stops = None, write_stops = None, cut_fails = False, flush_fails = False\<rparr>
      (pcount st (mseq (smem st))) (open_at st) (sfile st) (smem st) = (file', m', Inr ())"
    using checkpoint_returns [OF inv assms(3)] by blast
  note c = checkpoint_steps [OF inv assms(3) run]
  have "disk_page file' i = Some (hist st (mseq (smem st)) i)" if "i < pcount st (mseq (smem st))" for i
    using nothing_waits [OF sys_inv_parts(1) [OF sys_inv_reach [OF conjunct1 [OF c] inv(1)]], of i] c that by simp
  then show ?thesis using run by blast
qed

theorem checkpoint_completes_witness:
  "\<exists>file' m'. pages_checkpoint True \<lparr>copy_stops = None, write_stops = None, cut_fails = False, flush_fails = False\<rparr>
      1 [0] zero_file (smem committed_system) = (file', m', Inr ()) \<and> disk_page file' 0 = Some (page_bytes one_page)"
  using checkpoint_completes [OF zero_file_ok reachable_trans [OF committed_system_reachable snapshot_system_reachable]
      committed_system_simps(4), where hw = True] by (auto simp: committed_simps)

end
