(* ===== verification/Filestore.thy ===== *)
theory Filestore
  imports Store Isolation
begin

text \<open>
  The file store (\<open>src/src/storage/file.rs\<close>, \<open>src/src/release.rs\<close>): the header page, the list of free
  pages linked through their own bytes, and the staging of a batch, whose changes stay in memory
  until it commits. A \<open>FileStore\<close> is the record \<open>fstore\<close>; the \<open>Pages\<close> it shares with the readers
  are its file and its memory. Opening takes the file's bytes and the outcome of the lock.

  The lemmas: a header reads back as it was written; during a batch the store keeps the page
  store's contract for the pages that are not on the free list; a batch rolled back is as if it
  had not been; and a batch's commit is a step of the snapshot model, with the pages it found
  kept for the snapshots open.
\<close>

subsection \<open>Releases\<close>

record release =
  major :: "16 word"
  minor :: "16 word"
  patch :: "16 word"

definition RELEASE :: release where "RELEASE = \<lparr>major = 0, minor = 33, patch = 0\<rparr>"
definition UNKNOWN :: release where "UNKNOWN = \<lparr>major = 0, minor = 0, patch = 0\<rparr>"

definition release_to_bytes :: "release \<Rightarrow> bytes" where
  "release_to_bytes r =
     put (put (put (replicate 6 0) 0 (le_bytes 2 (unat (major r)))) 2 (le_bytes 2 (unat (minor r)))) 4
       (le_bytes 2 (unat (patch r)))"

definition release_from_bytes :: "bytes \<Rightarrow> release option" where
  "release_from_bytes b =
     (let part = (\<lambda>at. of_nat (u_at 2 b at));
          r = \<lparr>major = part 0, minor = part 2, patch = part 4\<rparr>
      in if r \<noteq> UNKNOWN then Some r else None)"

subsection \<open>The header\<close>

definition DEFAULT_CACHE_SIZE :: nat where "DEFAULT_CACHE_SIZE = 256 * 2 ^ 20"
definition MAGIC :: bytes where "MAGIC = ascii ''TRUNKDB1''"
definition FORMAT_VERSION :: nat where "FORMAT_VERSION = 13"
definition COMPATIBLE_OLDER_FORMATS :: "nat list" where "COMPATIBLE_OLDER_FORMATS = [6, 7, 8, 9, 10, 11, 12]"
definition NO_FREE_PAGE :: nat where "NO_FREE_PAGE = 0"

record header =
  page_size :: nat
  page_count :: nat
  free_list_head :: nat
  format_version :: nat
  created_by :: release
  written_by :: release

definition encode_as :: "header \<Rightarrow> nat \<Rightarrow> release \<Rightarrow> bytes" where
  "encode_as h version wb =
     (let b = replicate USABLE_PAGE_SIZE 0;
          b = put b 0 MAGIC;
          b = put b 8 (le_bytes 4 (page_size h));
          b = put b 12 (le_bytes 8 (page_count h));
          b = put b 20 (le_bytes 8 (free_list_head h));
          b = put b 28 (le_bytes 4 version);
          b = put b 32 (release_to_bytes (created_by h))
      in put b 38 (release_to_bytes wb))"

definition header_encode :: "header \<Rightarrow> bytes" where
  "header_encode h = encode_as h FORMAT_VERSION RELEASE"

definition header_fresh :: header where
  "header_fresh = \<lparr>page_size = PAGE_SIZE, page_count = 1, free_list_head = NO_FREE_PAGE,
     format_version = FORMAT_VERSION, created_by = RELEASE, written_by = RELEASE\<rparr>"

definition is_stale :: "header \<Rightarrow> bool" where
  "is_stale h \<longleftrightarrow> format_version h \<noteq> FORMAT_VERSION \<or> written_by h \<noteq> RELEASE"

definition releases :: "header \<Rightarrow> release option \<times> release option" where
  "releases h =
     (let known = (\<lambda>r. if r \<noteq> UNKNOWN then Some r else None) in (known (created_by h), known (written_by h)))"

definition is_ours :: "bytes \<Rightarrow> bool" where
  "is_ours b \<longleftrightarrow> slice b 0 8 = MAGIC \<and> (u_at 4 b 28 = FORMAT_VERSION \<or> u_at 4 b 28 \<in> set COMPATIBLE_OLDER_FORMATS)"

definition header_decode :: "bytes \<Rightarrow> header res" where
  "header_decode b =
     (if slice b 0 8 \<noteq> MAGIC then corrupt
      else let version = u_at 4 b 28 in
        if version \<noteq> FORMAT_VERSION \<and> version \<notin> set COMPATIBLE_OLDER_FORMATS then corrupt
        else let size = u_at 4 b 8 in
          if size \<noteq> PAGE_SIZE then corrupt
          else let pages = u_at 8 b 12; head = u_at 8 b 20 in
            if pages = 0 \<or> pages > (2 ^ 64 - 1) div PAGE_SIZE then corrupt
            else if head \<ge> pages then corrupt
            else Inr \<lparr>page_size = size, page_count = pages, free_list_head = head, format_version = version,
              created_by = (case release_from_bytes (slice b 32 6) of None \<Rightarrow> UNKNOWN | Some r \<Rightarrow> r),
              written_by = (case release_from_bytes (slice b 38 6) of None \<Rightarrow> UNKNOWN | Some r \<Rightarrow> r)\<rparr>)"

definition read_header :: "bool \<Rightarrow> bytes \<Rightarrow> header res" where
  "read_header hw file =
     bindR (read_disk_page file HEADER_PAGE) (\<lambda>disk.
       bindR (header_decode (take USABLE_PAGE_SIZE disk)) (\<lambda>h.
         if \<not> checksum_matches hw HEADER_PAGE disk then corrupt else Inr h))"

subsection \<open>The store\<close>

record staging =
  header_before :: header
  dirty :: "(nat \<times> page) list"
  before :: "(nat \<times> page) list"
  replaces_all :: bool
  st_replacement :: "scratch option"

record fstore =
  fs_file :: bytes
  fs_memory :: memory
  fs_header :: header
  header_checked :: bool
  header_error :: "error option"
  staged :: "staging option"
  read_only :: bool

datatype lock = Exclusive | Shared

text \<open>\<open>from_file\<close>, after the lock: \<open>locked\<close> says whether the lock was had.\<close>

definition from_file :: "bytes \<Rightarrow> lock \<Rightarrow> bool \<Rightarrow> fstore res" where
  "from_file file lock locked =
     (if \<not> locked then Inl (Io WouldBlock)
      else let is_fresh = (length file < PAGE_SIZE) in
        if is_fresh \<and> 0 < length file \<and> \<not> prefix (take (length MAGIC) file) MAGIC then corrupt
        else
          bindR
            (if is_fresh then Inr (header_fresh, None)
             else bindR (read_disk_page file HEADER_PAGE) (\<lambda>disk.
               case header_decode (take USABLE_PAGE_SIZE disk) of
                 Inr h \<Rightarrow> Inr (h, None)
               | Inl e \<Rightarrow> if is_ours (take USABLE_PAGE_SIZE disk) then Inr (header_fresh, Some e) else Inl e))
            (\<lambda>(h, err).
              Inr \<lparr>fs_file = file, fs_memory = memory_new (DEFAULT_CACHE_SIZE div PAGE_SIZE), fs_header = h,
                header_checked = is_fresh, header_error = err, staged = None, read_only = (lock = Shared)\<rparr>))"

definition check_header :: "bool \<Rightarrow> (fstore, unit) act" where
  "check_header hw fs =
     (case header_error fs of
        Some e \<Rightarrow> (Inl e, fs\<lparr>header_error := None\<rparr>)
      | None \<Rightarrow>
          if \<not> header_checked fs then
            (case read_disk_page (fs_file fs) HEADER_PAGE of
               Inl e \<Rightarrow> (Inl e, fs)
             | Inr disk \<Rightarrow>
                 if \<not> checksum_matches hw HEADER_PAGE disk then (corrupt, fs)
                 else (Inr (), fs\<lparr>header_checked := True\<rparr>))
          else (Inr (), fs))"

text \<open>The committed page, and the page as the batch has it.\<close>

definition committed_read :: "bool \<Rightarrow> nat \<Rightarrow> (fstore, page) act" where
  "committed_read hw i fs =
     (case pages_read hw (fs_file fs) i (fs_memory fs) of (m, r) \<Rightarrow> (r, fs\<lparr>fs_memory := m\<rparr>))"

definition read_current :: "bool \<Rightarrow> nat \<Rightarrow> (fstore, page) act" where
  "read_current hw i fs =
     (case staged fs of
        Some st \<Rightarrow>
          (case bm_get (dirty st) i of
             Some p \<Rightarrow> (Inr p, fs)
           | None \<Rightarrow>
               (case st_replacement st of
                  Some sc \<Rightarrow> (scratch_read hw sc i, fs)
                | None \<Rightarrow> committed_read hw i fs))
      | None \<Rightarrow> committed_read hw i fs)"

definition write_raw :: "bool \<Rightarrow> nat \<Rightarrow> page \<Rightarrow> (fstore, unit) act" where
  "write_raw hw i data fs =
     (case staged fs of
        Some st \<Rightarrow>
          (case (if \<not> replaces_all st \<and> i < page_count (header_before st) \<and> bm_get (dirty st) i = None
                 then committed_read hw i fs else (Inl Panic, fs)) of
             (r, fs) \<Rightarrow>
               let st = (case r of Inr b \<Rightarrow> st\<lparr>before := bm_put i b (before st)\<rparr> | Inl _ \<Rightarrow> st)
               in (Inr (), fs\<lparr>staged := Some (st\<lparr>dirty := bm_put i data (dirty st)\<rparr>)\<rparr>))
      | None \<Rightarrow>
          (case write_through hw i data (fs_file fs) (fs_memory fs) of
             Inl e \<Rightarrow> (Inl e, fs)
           | Inr (file, m) \<Rightarrow> (Inr (), fs\<lparr>fs_file := file, fs_memory := m\<rparr>)))"

definition fs_format_version :: "bool \<Rightarrow> (fstore, nat) act" where
  "fs_format_version hw = bindA (read_current hw HEADER_PAGE) (\<lambda>p. retA (u_at 4 (page_bytes p) 28))"

definition predates_id_keys :: "bool \<Rightarrow> (fstore, bool) act" where
  "predates_id_keys hw = bindA (fs_format_version hw) (\<lambda>v. retA (v < 10))"

definition predates_binary_keys :: "bool \<Rightarrow> (fstore, bool) act" where
  "predates_binary_keys hw = bindA (fs_format_version hw) (\<lambda>v. retA (v < 13))"

definition write_header :: "bool \<Rightarrow> (fstore, unit) act" where
  "write_header hw fs =
     (let h = fs_header fs in
      if read_only fs then write_raw hw HEADER_PAGE (page_from (encode_as h (format_version h) (written_by h))) fs
      else bindA (write_raw hw HEADER_PAGE (page_from (header_encode h)))
        (\<lambda>_. modifyA (\<lambda>fs. fs\<lparr>fs_header := (fs_header fs)\<lparr>format_version := FORMAT_VERSION, written_by := RELEASE\<rparr>\<rparr>)) fs)"

definition stamp_format_version :: "bool \<Rightarrow> (fstore, unit) act" where
  "stamp_format_version hw fs =
     (if format_version (fs_header fs) \<noteq> FORMAT_VERSION then write_header hw fs else (Inr (), fs))"

definition check_bounds :: "nat \<Rightarrow> (fstore, unit) act" where
  "check_bounds i fs = (if i \<ge> page_count (fs_header fs) then (Inl (Io InvalidInput), fs) else (Inr (), fs))"

subsection \<open>Batches\<close>

definition fs_begin :: "(fstore, unit) act" where
  "fs_begin fs =
     (if staged fs \<noteq> None then (Inl Panic, fs)
      else (Inr (), fs\<lparr>staged := Some \<lparr>header_before = fs_header fs, dirty = [], before = [], replaces_all = False,
        st_replacement = None\<rparr>\<rparr>))"

definition rollback :: "(fstore, unit) act" where
  "rollback fs =
     (case staged fs of
        None \<Rightarrow> (Inl Panic, fs)
      | Some st \<Rightarrow> (Inr (), fs\<lparr>staged := None, fs_header := header_before st\<rparr>))"

definition dirty_pages :: "fstore \<Rightarrow> (nat \<times> bytes) list" where
  "dirty_pages fs = (case staged fs of None \<Rightarrow> [] | Some st \<Rightarrow> map (\<lambda>(i, p). (i, page_bytes p)) (dirty st))"

definition staged_count :: "fstore \<Rightarrow> nat" where
  "staged_count fs =
     (case staged fs of
        None \<Rightarrow> 0
      | Some st \<Rightarrow> length (dirty st) + (case st_replacement st of None \<Rightarrow> 0 | Some sc \<Rightarrow> scratch_count sc - 1))"

definition staged_pages :: "bool \<Rightarrow> fstore \<Rightarrow> (nat \<times> page) res list" where
  "staged_pages hw fs =
     (case staged fs of
        None \<Rightarrow> []
      | Some st \<Rightarrow> map Inr (dirty st) @
          (case st_replacement st of
             None \<Rightarrow> []
           | Some sc \<Rightarrow> map (\<lambda>i. bindR (read_page_at hw (scratch_file sc) i) (\<lambda>p. Inr (i, p))) [1..<scratch_count sc]))"

definition replace_all :: "bool \<Rightarrow> scratch \<Rightarrow> (fstore, unit) act" where
  "replace_all hw img fs =
     (case staged fs of
        None \<Rightarrow> (Inl Panic, fs)
      | Some st \<Rightarrow>
          write_header hw (fs\<lparr>
            staged := Some (st\<lparr>replaces_all := True, before := [], dirty := [], st_replacement := Some img\<rparr>),
            fs_header := (fs_header fs)\<lparr>page_count := scratch_count img, free_list_head := NO_FREE_PAGE\<rparr>\<rparr>))"

definition check_staged :: "fstore \<Rightarrow> fstore" where
  "check_staged fs =
     (case staged fs of
        None \<Rightarrow> fs
      | Some st \<Rightarrow> fs\<lparr>staged := Some (st\<lparr>dirty := map (\<lambda>(i, p). (i, page_checked p)) (dirty st)\<rparr>)\<rparr>)"

definition commit_beside :: "nat list \<Rightarrow> (fstore, unit) act" where
  "commit_beside live fs =
     (case staged fs of
        None \<Rightarrow> (Inl Panic, fs)
      | Some st \<Rightarrow>
          if \<not> (live = [] \<or> \<not> replaces_all st) then (Inl Panic, fs\<lparr>staged := None\<rparr>)
          else (Inr (), fs\<lparr>staged := None, fs_memory :=
            (case st_replacement st of
               Some img \<Rightarrow> commit_replacing (dirty st) img (fs_memory fs)
             | None \<Rightarrow> pages_commit (dirty st) (before st) live (fs_memory fs))\<rparr>))"

definition checkpoint_beside :: "bool \<Rightarrow> ckpt_faults \<Rightarrow> nat list \<Rightarrow> (fstore, unit) act" where
  "checkpoint_beside hw os live fs =
     (case pages_checkpoint hw os (page_count (fs_header fs)) live (fs_file fs) (fs_memory fs) of
        (file, m, r) \<Rightarrow> (r, fs\<lparr>fs_file := file, fs_memory := m\<rparr>))"

subsection \<open>Recovery\<close>

text \<open>
  \<open>check_restorable\<close> over the outline of the images: the page count as the last header has it,
  \<open>None\<close> where no header can be read.
\<close>

definition see_restorable :: "nat \<Rightarrow> nat \<times> bytes \<Rightarrow> nat option \<Rightarrow> nat option res" where
  "see_restorable room = (\<lambda>(i, img) counted.
     if i = HEADER_PAGE then
       bindR (header_decode img) (\<lambda>h. if page_count h > room then corrupt else Inr (Some (page_count h)))
     else if (case counted of None \<Rightarrow> True | Some n \<Rightarrow> i \<ge> n) then corrupt
     else Inr counted)"

definition check_restorable :: "bool \<Rightarrow> (nat \<times> bytes) list \<Rightarrow> (fstore, unit) act" where
  "check_restorable hw images fs =
     (let has_header = (\<exists>(i, _) \<in> set images. i = HEADER_PAGE) in
      case header_error fs of
        Some e \<Rightarrow>
          if \<not> has_header then (Inl e, fs\<lparr>header_error := None\<rparr>)
          else (bindR (foldR (see_restorable (length (fs_file fs) div PAGE_SIZE + length images)) images
            (case read_header hw (fs_file fs) of Inl _ \<Rightarrow> None | Inr h \<Rightarrow> Some (page_count h))) (\<lambda>_. Inr ()), fs)
      | None \<Rightarrow>
          (bindR (foldR (see_restorable (length (fs_file fs) div PAGE_SIZE + length images)) images
            (case read_header hw (fs_file fs) of Inl _ \<Rightarrow> None | Inr h \<Rightarrow> Some (page_count h))) (\<lambda>_. Inr ()), fs))"

definition restore_pages :: "bool \<Rightarrow> (nat \<times> bytes) list \<Rightarrow> (fstore, unit) act" where
  "restore_pages hw images fs =
     (if staged fs \<noteq> None then (Inl Panic, fs)
      else bindA (check_restorable hw images) (\<lambda>_ fs.
        case pages_restore hw images (fs_file fs) (fs_memory fs) of
          Inl e \<Rightarrow> (Inl e, fs)
        | Inr (file, m) \<Rightarrow>
            let fs = fs\<lparr>fs_file := file, fs_memory := m\<rparr> in
            case read_header hw file of
              Inl e \<Rightarrow> (Inl e, fs)
            | Inr h \<Rightarrow>
                let fs = fs\<lparr>fs_header := h, header_checked := True, header_error := None\<rparr> in
                case pages_truncate (page_count h) file m of
                  (file, m) \<Rightarrow> (Inr (), fs\<lparr>fs_file := file, fs_memory := m\<rparr>)) fs)"

definition restore_in_memory :: "bool \<Rightarrow> (nat \<times> bytes) list \<Rightarrow> (fstore, unit) act" where
  "restore_in_memory hw images fs =
     (if staged fs \<noteq> None then (Inl Panic, fs)
      else bindA (check_restorable hw images) (\<lambda>_ fs.
        let latest = fold (\<lambda>(i, b). bm_put i (page_from b)) images [] in
        case (case bm_get latest HEADER_PAGE of
                None \<Rightarrow> Inr fs
              | Some p \<Rightarrow> bindR (header_decode (page_bytes p)) (\<lambda>h.
                  Inr (fs\<lparr>fs_header := h, header_checked := True, header_error := None\<rparr>))) of
          Inl e \<Rightarrow> (Inl e, fs)
        | Inr fs \<Rightarrow> (Inr (), fs\<lparr>fs_memory := pages_commit latest [] [] (fs_memory fs)\<rparr>)) fs)"

subsection \<open>The page store\<close>

definition fs_allocate_page :: "bool \<Rightarrow> (fstore, nat) act" where
  "fs_allocate_page hw fs =
     bindA
       (\<lambda>fs. let h = fs_header fs in
          if free_list_head h \<noteq> NO_FREE_PAGE then
            let i = free_list_head h in
            bindA (read_current hw i) (\<lambda>p fs.
              let b = page_bytes p in
              if b ! 0 \<noteq> type_byte PFree then (corrupt, fs)
              else let next_free = u_at 8 b 1 in
                if next_free \<ge> page_count (fs_header fs) then (corrupt, fs)
                else (Inr i, fs\<lparr>fs_header := (fs_header fs)\<lparr>free_list_head := next_free\<rparr>\<rparr>)) fs
          else
            let i = page_count h in
            bindA (write_raw hw i (page_from (replicate USABLE_PAGE_SIZE 0))) (\<lambda>_. retA i)
              (fs\<lparr>fs_header := h\<lparr>page_count := page_count h + 1\<rparr>\<rparr>))
       (\<lambda>i. bindA (write_header hw) (\<lambda>_. retA i)) fs"

definition fs_read_page :: "bool \<Rightarrow> nat \<Rightarrow> (fstore, page) act" where
  "fs_read_page hw i = bindA (check_bounds i) (\<lambda>_. read_current hw i)"

definition fs_try_read_page :: "bool \<Rightarrow> nat \<Rightarrow> (fstore, page option) act" where
  "fs_try_read_page hw i fs =
     (if i \<ge> page_count (fs_header fs) then (Inr None, fs)
      else bindA (read_current hw i) (\<lambda>p. retA (Some p)) fs)"

definition fs_write_page :: "bool \<Rightarrow> nat \<Rightarrow> page \<Rightarrow> (fstore, unit) act" where
  "fs_write_page hw i data fs =
     (if i = HEADER_PAGE then (Inl (Io InvalidInput), fs)
      else bindA (check_bounds i) (\<lambda>_ fs.
        if length (page_bytes data) \<noteq> USABLE_PAGE_SIZE then (Inl (Io InvalidInput), fs)
        else bindA (\<lambda>fs. if is_stale (fs_header fs) then write_header hw fs else (Inr (), fs))
          (\<lambda>_. write_raw hw i data) fs) fs)"

definition fs_change_page :: "bool \<Rightarrow> nat \<Rightarrow> slotted \<Rightarrow> (slotted \<Rightarrow> slotted res) \<Rightarrow> (fstore, unit) act" where
  "fs_change_page hw i sp change fs =
     (case staged fs of
        Some st \<Rightarrow>
          if i \<noteq> HEADER_PAGE \<and> bm_get (dirty st) i \<noteq> None then
            (case change sp of
               Inl e \<Rightarrow> (Inl e, fs\<lparr>staged := Some (st\<lparr>dirty := bm_remove i (dirty st)\<rparr>)\<rparr>)
             | Inr sp \<Rightarrow> (Inr (), fs\<lparr>staged := Some (st\<lparr>dirty := bm_put i (into_page sp) (bm_remove i (dirty st))\<rparr>)\<rparr>))
          else change_by_write (fs_write_page hw) i sp change fs
      | None \<Rightarrow> change_by_write (fs_write_page hw) i sp change fs)"

definition fs_free_page :: "bool \<Rightarrow> nat \<Rightarrow> (fstore, unit) act" where
  "fs_free_page hw i fs =
     (if i = HEADER_PAGE then (Inl (Io InvalidInput), fs)
      else bindA (check_bounds i) (\<lambda>_ fs.
        let b = put (replicate USABLE_PAGE_SIZE 0) 0 [type_byte PFree];
            b = put b 1 (le_bytes 8 (free_list_head (fs_header fs)))
        in bindA (write_raw hw i (page_from b)) (\<lambda>_ fs.
          write_header hw (fs\<lparr>fs_header := (fs_header fs)\<lparr>free_list_head := i\<rparr>\<rparr>)) fs) fs)"

definition file_store :: "bool \<Rightarrow> fstore store_ops" where
  "file_store hw = \<lparr>allocate_page = fs_allocate_page hw, read_page = fs_read_page hw,
     try_read_page = fs_try_read_page hw, write_page = fs_write_page hw, change_page = fs_change_page hw,
     free_page = fs_free_page hw\<rparr>"

text \<open>The list of free pages; \<open>pages\<close> are those seen so far.\<close>

function free_list_loop :: "nat \<Rightarrow> (nat \<Rightarrow> page res) \<Rightarrow> nat \<Rightarrow> nat list \<Rightarrow> nat list res" where
  "free_list_loop n read next_free pages =
     (if next_free \<noteq> NO_FREE_PAGE then
        if next_free \<ge> n then corrupt
        else if length pages \<ge> n then corrupt
        else bindR (read next_free) (\<lambda>p.
          if page_bytes p ! 0 \<noteq> type_byte PFree then corrupt
          else free_list_loop n read (u_at 8 (page_bytes p) 1) (pages @ [next_free]))
      else Inr pages)"
  by pat_completeness auto

termination by (relation "measure (\<lambda>(n, _, _, pages). n - length pages)") auto

declare free_list_loop.simps [simp del]

definition free_list :: "header \<Rightarrow> (nat \<Rightarrow> page res) \<Rightarrow> nat list res" where
  "free_list h read = free_list_loop (page_count h) read (free_list_head h) []"

subsection \<open>The header reads back\<close>

definition MAX_PAGES :: nat where "MAX_PAGES = (2 ^ 64 - 1) div PAGE_SIZE"

definition header_ok :: "header \<Rightarrow> bool" where
  "header_ok h \<longleftrightarrow> page_size h = PAGE_SIZE \<and> 0 < page_count h \<and> page_count h \<le> MAX_PAGES
     \<and> free_list_head h < page_count h"

lemma length_release_to_bytes [simp, len_simps]: "length (release_to_bytes r) = 6"
  by (simp add: release_to_bytes_def)

lemma release_roundtrip:
  "(case release_from_bytes (release_to_bytes r) of None \<Rightarrow> UNKNOWN | Some r \<Rightarrow> r) = r"
proof -
  have lt: "unat (w :: 16 word) < 256 ^ 2" for w using unsigned_less [of w] by simp
  have "u_at 2 (release_to_bytes r) 0 = unat (major r)" "u_at 2 (release_to_bytes r) 2 = unat (minor r)"
    "u_at 2 (release_to_bytes r) 4 = unat (patch r)"
    using lt by (simp_all add: release_to_bytes_def buf_simps)
  then show ?thesis by (cases r) (auto simp: release_from_bytes_def Let_def)
qed

lemma length_encode_as [simp, len_simps]: "length (encode_as h v wb) = USABLE_PAGE_SIZE"
  by (simp add: encode_as_def Let_def MAGIC_def USABLE_PAGE_SIZE_def PAGE_SIZE_def CHECKSUM_LEN_def)

lemma header_fields:
  assumes "page_size h < 256 ^ 4" "page_count h < 256 ^ 8" "free_list_head h < 256 ^ 8" "v < 256 ^ 4"
  shows "slice (encode_as h v wb) 0 8 = MAGIC" "u_at 4 (encode_as h v wb) 8 = page_size h"
    "u_at 8 (encode_as h v wb) 12 = page_count h" "u_at 8 (encode_as h v wb) 20 = free_list_head h"
    "u_at 4 (encode_as h v wb) 28 = v" "slice (encode_as h v wb) 32 6 = release_to_bytes (created_by h)"
    "slice (encode_as h v wb) 38 6 = release_to_bytes wb"
  using assms
  by (simp_all add: encode_as_def Let_def MAGIC_def USABLE_PAGE_SIZE_def PAGE_SIZE_def CHECKSUM_LEN_def buf_simps)

lemma header_decode_encode:
  assumes "header_ok h" "v = FORMAT_VERSION \<or> v \<in> set COMPATIBLE_OLDER_FORMATS"
  shows "header_decode (encode_as h v wb) = Inr (h\<lparr>format_version := v, written_by := wb\<rparr>)"
proof -
  have "page_size h < 256 ^ 4" "page_count h < 256 ^ 8" "free_list_head h < 256 ^ 8" "v < 256 ^ 4"
    using assms by (auto simp: header_ok_def MAX_PAGES_def PAGE_SIZE_def FORMAT_VERSION_def COMPATIBLE_OLDER_FORMATS_def)
  note f = header_fields [OF this]
  show ?thesis using assms
    by (auto simp: header_decode_def f Let_def header_ok_def MAX_PAGES_def release_roundtrip)
qed

subsection \<open>Reading committed pages\<close>

text \<open>The newest committed version of a page.\<close>

definition newest :: "bytes \<Rightarrow> memory \<Rightarrow> nat \<Rightarrow> bytes option" where
  "newest file m i =
     (case bm_get (versions m) i of Some chain \<Rightarrow> Some (page_bytes (vpage (last chain))) | None \<Rightarrow> base_page file m i)"

lemma newest_eq:
  assumes "mem_ok file m H C live" "i < C (mseq m)"
  shows "newest file m i = Some (H (mseq m) i)"
proof -
  note v = vers_okD [OF mem_ok_parts(6) [OF assms(1), of i]]
  show ?thesis using v(1) [OF _ mseq_readable assms(2)] v(2) v(3) [OF _ mseq_readable assms(2)]
    by (auto simp: newest_def chain_ok_def chain_view_last split: option.splits)
qed

lemma newest_cache [simp]: "newest file (m\<lparr>mcache := c\<rparr>) i = newest file m i"
  by (simp add: newest_def base_page_def cong: option.case_cong)

lemma read_lookup_newest:
  assumes "mem_ok file m H C live" "mseq m \<le> s"
  shows "read_lookup hw i s m = read_lookup hw i (mseq m) m"
proof -
  have "find (\<lambda>v. vseq v \<le> s) (rev chain) = find (\<lambda>v. vseq v \<le> mseq m) (rev chain)"
    if "bm_get (versions m) i = Some chain" for chain
    using vers_okD(2) [OF mem_ok_parts(6) [OF assms(1)] that] assms(2)
    by (cases chain rule: rev_cases) (auto simp: chain_ok_def)
  then show ?thesis using mem_ok_parts(3) [OF assms(1)] assms(2)
    by (auto simp: read_lookup_def split: option.splits)
qed

lemma pages_read_mem:
  assumes ok: "mem_ok file m H C live" "mseq m < 2 ^ 64"
  obtains c r where "pages_read hw file i m = (m\<lparr>mcache := c\<rparr>, r)" "mem_ok file (m\<lparr>mcache := c\<rparr>) H C live"
proof -
  have ci: "cache_inv (mcache m)" using mem_ok_parts(7) [OF ok(1)] by (simp add: cache_ok_def)
  have s: "mseq m \<le> 2 ^ 64 - 1" using ok(2) by simp
  obtain m1 l where l: "read_lookup hw i (2 ^ 64 - 1) m = (m1, l)" by fastforce
  obtain c where c: "m1 = m\<lparr>mcache := c\<rparr>" "cache_inv c" "cache_view c = cache_view (mcache m)"
    using read_lookup_mem [OF l ci] .
  have ok1: "mem_ok file m1 H C live" unfolding c(1) using mem_ok_cache [OF ok(1) c(2)] c(3) by simp
  show thesis
  proof (cases l)
    case (AskFile e)
    note a = read_lookup_ask [OF l [unfolded AskFile]]
    show thesis
    proof (cases "read_page_at hw file i")
      case (Inl e')
      then show thesis using that [of c "Inl e'"] ok1 l AskFile c(1) a(3)
        by (simp add: pages_read_def read_at_def read_finish_def)
    next
      case (Inr p)
      then have d: "disk_page file i = Some (page_bytes (page_checked p))" using read_page_at_eq by auto
      obtain c' where c': "cache_put c i (page_checked p) = Inr c'" using cache_put_ok [OF c(2)] by blast
      have "mem_ok file (m1\<lparr>mcache := c'\<rparr>) H C live"
        by (rule mem_ok_fill [OF ok1 _ d]) (use a(2) c(1) c' in simp_all)
      then show thesis using that [of c' "Inr (page_checked p)"] l AskFile c(1) a(3) Inr c'
        by (simp add: pages_read_def read_at_def read_finish_def Let_def)
    qed
  qed (use that [of c] ok1 l c(1) in \<open>auto simp: pages_read_def read_at_def\<close>)
qed

lemma pages_read_value:
  assumes ok: "mem_ok file m H C live" "mseq m < 2 ^ 64" and i: "i < C (mseq m)"
  shows "\<exists>m' p. pages_read hw file i m = (m', Inr p) \<and> page_bytes p = H (mseq m) i"
proof -
  let ?st = "\<lparr>sfile = file, smem = m, hist = H, pcount = C, open_at = live, ckpt = None, readers = []\<rparr>"
  have "sys_inv ?st" using ok(1) by (simp add: sys_inv_def)
  from read_at_reads [OF this, of "mseq m" i hw] i
  have "\<exists>m' p. read_at hw file i (mseq m) m = (m', Inr p) \<and> page_bytes p = H (mseq m) i" by simp
  moreover have "pages_read hw file i m = read_at hw file i (mseq m) m"
    using read_lookup_newest [OF ok(1), of "2 ^ 64 - 1" hw i] ok(2) by (simp add: pages_read_def read_at_def)
  ultimately show ?thesis by simp
qed

subsection \<open>A batch\<close>

text \<open>
  What a batch has staged, with the file at \<open>n\<close> pages: every page past the committed ones is
  staged, and of every committed page changed the committed bytes are kept.
\<close>

definition batch_ok :: "(nat \<Rightarrow> nat \<Rightarrow> bytes) \<Rightarrow> (nat \<Rightarrow> nat) \<Rightarrow> nat list \<Rightarrow> nat \<Rightarrow> fstore \<Rightarrow> bool" where
  "batch_ok H C live n fs \<longleftrightarrow>
     (let m = fs_memory fs in
      mem_ok (fs_file fs) m H C live \<and> mseq m < 2 ^ 64
      \<and> (\<forall>i < C (mseq m). length (H (mseq m) i) = USABLE_PAGE_SIZE) \<and> C (mseq m) \<le> n
      \<and> (case staged fs of
           None \<Rightarrow> False
         | Some st \<Rightarrow> \<not> replaces_all st \<and> st_replacement st = None \<and> C (mseq m) \<le> page_count (header_before st)
             \<and> bm_inv (dirty st)
             \<and> (\<forall>i p. bm_get (dirty st) i = Some p \<longrightarrow> i < n \<and> length (page_bytes p) = USABLE_PAGE_SIZE)
             \<and> (\<forall>i. 0 < i \<and> C (mseq m) \<le> i \<and> i < n \<longrightarrow> bm_get (dirty st) i \<noteq> None)
             \<and> (\<forall>i. bm_get (dirty st) i \<noteq> None \<and> i < C (mseq m) \<longrightarrow>
                  (\<exists>p. bm_get (before st) i = Some p \<and> page_bytes p = H (mseq m) i))))"

text \<open>A page as the batch has it.\<close>

definition cur_page :: "fstore \<Rightarrow> nat \<Rightarrow> bytes option" where
  "cur_page fs i =
     (case staged fs of
        None \<Rightarrow> newest (fs_file fs) (fs_memory fs) i
      | Some st \<Rightarrow> (case bm_get (dirty st) i of
          Some p \<Rightarrow> Some (page_bytes p) | None \<Rightarrow> newest (fs_file fs) (fs_memory fs) i))"

lemma batch_okD:
  assumes "batch_ok H C live n fs"
  obtains st where "staged fs = Some st" "mem_ok (fs_file fs) (fs_memory fs) H C live" "mseq (fs_memory fs) < 2 ^ 64"
    "\<not> replaces_all st" "st_replacement st = None"
    "\<And>i. i < C (mseq (fs_memory fs)) \<Longrightarrow> length (H (mseq (fs_memory fs)) i) = USABLE_PAGE_SIZE"
    "C (mseq (fs_memory fs)) \<le> page_count (header_before st)" "C (mseq (fs_memory fs)) \<le> n" "bm_inv (dirty st)"
    "\<And>i p. bm_get (dirty st) i = Some p \<Longrightarrow> i < n \<and> length (page_bytes p) = USABLE_PAGE_SIZE"
    "\<And>i. 0 < i \<Longrightarrow> C (mseq (fs_memory fs)) \<le> i \<Longrightarrow> i < n \<Longrightarrow> bm_get (dirty st) i \<noteq> None"
    "\<And>i. bm_get (dirty st) i \<noteq> None \<Longrightarrow> i < C (mseq (fs_memory fs)) \<Longrightarrow>
       \<exists>p. bm_get (before st) i = Some p \<and> page_bytes p = H (mseq (fs_memory fs)) i"
  using assms by (cases "staged fs") (auto simp: batch_ok_def Let_def)

lemma batch_ok_staged:
  assumes "batch_ok H C live n fs" "staged fs = Some st"
  shows "mem_ok (fs_file fs) (fs_memory fs) H C live" "\<not> replaces_all st" "st_replacement st = None"
    "C (mseq (fs_memory fs)) \<le> n" "bm_inv (dirty st)"
    "\<forall>i p. bm_get (dirty st) i = Some p \<longrightarrow> i < n \<and> length (page_bytes p) = USABLE_PAGE_SIZE"
    "\<forall>i. 0 < i \<and> C (mseq (fs_memory fs)) \<le> i \<and> i < n \<longrightarrow> bm_get (dirty st) i \<noteq> None"
    "\<forall>i. bm_get (dirty st) i \<noteq> None \<and> i < C (mseq (fs_memory fs)) \<longrightarrow>
       (\<exists>p. bm_get (before st) i = Some p \<and> page_bytes p = H (mseq (fs_memory fs)) i)"
  using assms by (auto simp: batch_ok_def Let_def)

lemma committed_read_ok:
  assumes ok: "batch_ok H C live n fs"
  obtains c r where "committed_read hw i fs = (r, fs\<lparr>fs_memory := (fs_memory fs)\<lparr>mcache := c\<rparr>\<rparr>)"
    "batch_ok H C live n (fs\<lparr>fs_memory := (fs_memory fs)\<lparr>mcache := c\<rparr>\<rparr>)"
    "i < C (mseq (fs_memory fs)) \<longrightarrow> (\<exists>p. r = Inr p \<and> page_bytes p = H (mseq (fs_memory fs)) i)"
proof -
  obtain st where st: "staged fs = Some st" "mem_ok (fs_file fs) (fs_memory fs) H C live" "mseq (fs_memory fs) < 2 ^ 64"
    using batch_okD [OF ok] by metis
  obtain c r where c: "pages_read hw (fs_file fs) i (fs_memory fs) = ((fs_memory fs)\<lparr>mcache := c\<rparr>, r)"
    "mem_ok (fs_file fs) ((fs_memory fs)\<lparr>mcache := c\<rparr>) H C live"
    using pages_read_mem [OF st(2,3)] .
  show thesis
  proof (rule that)
    show "committed_read hw i fs = (r, fs\<lparr>fs_memory := (fs_memory fs)\<lparr>mcache := c\<rparr>\<rparr>)" using c(1) by (simp add: committed_read_def)
    show "batch_ok H C live n (fs\<lparr>fs_memory := (fs_memory fs)\<lparr>mcache := c\<rparr>\<rparr>)"
      using ok c(2) st(1) by (simp add: batch_ok_def Let_def)
    show "i < C (mseq (fs_memory fs)) \<longrightarrow> (\<exists>p. r = Inr p \<and> page_bytes p = H (mseq (fs_memory fs)) i)"
      using pages_read_value [OF st(2,3), of i hw] c(1) by auto
  qed
qed

lemma cur_page_cache [simp]: "cur_page (fs\<lparr>fs_memory := (fs_memory fs)\<lparr>mcache := c\<rparr>\<rparr>) = cur_page fs"
  by (simp add: cur_page_def fun_eq_iff cong: option.case_cong)

lemma write_raw_ok:
  assumes ok: "batch_ok H C live n fs" and i: "i \<le> n" and len: "length (page_bytes data) = USABLE_PAGE_SIZE"
  obtains fs' where "write_raw hw i data fs = (Inr (), fs')" "batch_ok H C live (max n (Suc i)) fs'"
    "cur_page fs' = (cur_page fs)(i \<mapsto> page_bytes data)" "fs_header fs' = fs_header fs" "read_only fs' = read_only fs"
    "mseq (fs_memory fs') = mseq (fs_memory fs)" "fs_file fs' = fs_file fs" "\<And>j. bm_get (dirty (the (staged fs'))) j = None
      \<longleftrightarrow> j \<noteq> i \<and> bm_get (dirty (the (staged fs))) j = None"
proof -
  from batch_okD [OF ok] obtain st where st: "staged fs = Some st" "\<not> replaces_all st" "st_replacement st = None"
    "C (mseq (fs_memory fs)) \<le> page_count (header_before st)" "bm_inv (dirty st)" by metis
  obtain c r where c: "committed_read hw i fs = (r, fs\<lparr>fs_memory := (fs_memory fs)\<lparr>mcache := c\<rparr>\<rparr>)"
    "batch_ok H C live n (fs\<lparr>fs_memory := (fs_memory fs)\<lparr>mcache := c\<rparr>\<rparr>)"
    "i < C (mseq (fs_memory fs)) \<longrightarrow> (\<exists>p. r = Inr p \<and> page_bytes p = H (mseq (fs_memory fs)) i)"
    by (rule committed_read_ok [OF ok, of hw i])
  let ?kept = "i < page_count (header_before st) \<and> bm_get (dirty st) i = None"
  let ?fs0 = "if ?kept then fs\<lparr>fs_memory := (fs_memory fs)\<lparr>mcache := c\<rparr>\<rparr> else fs"
  let ?b = "if ?kept then (case r of Inr b \<Rightarrow> bm_put i b (before st) | Inl _ \<Rightarrow> before st) else before st"
  let ?st' = "st\<lparr>before := ?b, dirty := bm_put i data (dirty st)\<rparr>"
  let ?fs' = "?fs0\<lparr>staged := Some ?st'\<rparr>"
  have same: "st\<lparr>before := before st\<rparr> = st" by simp
  have run: "write_raw hw i data fs = (Inr (), ?fs')"
    using st(1,2) c(1) by (cases r) (simp_all add: write_raw_def Let_def)
  have ok0: "batch_ok H C live n ?fs0" using ok c(2) by simp
  have kept: "\<exists>p. bm_get ?b j = Some p \<and> page_bytes p = H (mseq (fs_memory fs)) j"
    if j: "j < C (mseq (fs_memory fs))" "j = i \<or> bm_get (dirty st) j \<noteq> None" for j
  proof (cases "j = i \<and> bm_get (dirty st) i = None")
    case True
    then obtain p where "r = Inr p" "page_bytes p = H (mseq (fs_memory fs)) i" using c(3) j(1) by auto
    then show ?thesis using True j(1) st(4) by simp
  next
    case False
    then have "bm_get (dirty st) j \<noteq> None" using j(2) by auto
    moreover have "bm_get ?b j = bm_get (before st) j" using False j(2) by (auto split: sum.splits)
    ultimately show ?thesis using batch_okD [OF ok] st(1) j(1) by (metis option.inject)
  qed
  have "batch_ok H C live (max n (Suc i)) ?fs'"
    using ok0 st kept len i unfolding batch_ok_def Let_def by (auto simp: less_max_iff_disj)
  then show thesis
    using that [of ?fs'] run st(1) by (auto simp: cur_page_def fun_eq_iff cong: option.case_cong)
qed

lemma batch_ok_header [simp]: "batch_ok H C live n (fs\<lparr>fs_header := h\<rparr>) = batch_ok H C live n fs"
  and cur_page_header [simp]: "cur_page (fs\<lparr>fs_header := h\<rparr>) = cur_page fs"
  by (simp_all add: batch_ok_def cur_page_def fun_eq_iff cong: option.case_cong)

lemma write_header_ok:
  assumes ok: "batch_ok H C live n fs" and n: "0 < n"
  obtains fs' b where "write_header hw fs = (Inr (), fs')" "batch_ok H C live n fs'" "cur_page fs' = (cur_page fs)(0 \<mapsto> b)"
    "page_size (fs_header fs') = page_size (fs_header fs)" "page_count (fs_header fs') = page_count (fs_header fs)"
    "free_list_head (fs_header fs') = free_list_head (fs_header fs)"
    "mseq (fs_memory fs') = mseq (fs_memory fs)" "fs_file fs' = fs_file fs" "bm_get (dirty (the (staged fs'))) 0 \<noteq> None"
    "read_only fs' = read_only fs"
proof -
  let ?b = "if read_only fs then encode_as (fs_header fs) (format_version (fs_header fs)) (written_by (fs_header fs))
    else header_encode (fs_header fs)"
  have len: "length (page_bytes (page_from ?b)) = USABLE_PAGE_SIZE" by (simp add: page_from_def header_encode_def)
  obtain fs1 where f: "write_raw hw HEADER_PAGE (page_from ?b) fs = (Inr (), fs1)" "batch_ok H C live (max n (Suc HEADER_PAGE)) fs1"
    "cur_page fs1 = (cur_page fs)(HEADER_PAGE \<mapsto> page_bytes (page_from ?b))" "fs_header fs1 = fs_header fs" "read_only fs1 = read_only fs"
    "mseq (fs_memory fs1) = mseq (fs_memory fs)" "fs_file fs1 = fs_file fs" "\<And>j. bm_get (dirty (the (staged fs1))) j = None
      \<longleftrightarrow> j \<noteq> HEADER_PAGE \<and> bm_get (dirty (the (staged fs))) j = None"
    by (rule write_raw_ok [OF ok _ len, of HEADER_PAGE hw]) (simp_all add: HEADER_PAGE_def)
  have mx: "max n (Suc HEADER_PAGE) = n" using n by (simp add: HEADER_PAGE_def)
  let ?fs' = "if read_only fs then fs1 else fs1\<lparr>fs_header := (fs_header fs1)\<lparr>format_version := FORMAT_VERSION, written_by := RELEASE\<rparr>\<rparr>"
  have "write_header hw fs = (Inr (), ?fs')" using f(1) by (cases "read_only fs") (simp_all add: write_header_def Let_def)
  moreover have "bm_get (dirty (the (staged fs1))) 0 \<noteq> None" using f(8) [of 0] by (simp add: HEADER_PAGE_def)
  ultimately show thesis using that [of ?fs' "page_bytes (page_from ?b)"] f(2-7) mx
    by (cases "read_only fs") (simp_all add: HEADER_PAGE_def)
qed

subsection \<open>The free list\<close>

text \<open>The free pages, linked through their own bytes from \<open>head\<close>.\<close>

fun free_chain :: "(nat \<Rightarrow> bytes option) \<Rightarrow> nat \<Rightarrow> nat \<Rightarrow> nat list \<Rightarrow> bool" where
  "free_chain cur n head [] \<longleftrightarrow> head = 0"
| "free_chain cur n head (i # ids) \<longleftrightarrow> head = i \<and> 0 < i \<and> i < n \<and> i \<notin> set ids
     \<and> (case cur i of None \<Rightarrow> False | Some b \<Rightarrow> b ! 0 = type_byte PFree \<and> free_chain cur n (u_at 8 b 1) ids)"

lemma free_chain_bounds: "free_chain cur n head ids \<Longrightarrow> distinct ids \<and> set ids \<subseteq> {0<..<n} \<and> (head = 0 \<or> head \<in> set ids)"
  by (induction ids arbitrary: head) (auto split: option.splits)

lemma free_chain_cong:
  assumes "free_chain cur n head ids" "\<And>i. i \<in> set ids \<Longrightarrow> cur' i = cur i" "n \<le> n'"
  shows "free_chain cur' n' head ids"
  using assms by (induction ids arbitrary: head) (auto split: option.splits)

lemma free_chain_length: "free_chain cur n head ids \<Longrightarrow> length ids < n \<or> ids = []"
proof -
  assume c: "free_chain cur n head ids"
  have "length ids = card (set ids)" using free_chain_bounds [OF c] by (simp add: distinct_card)
  also have "\<dots> \<le> card {0<..<n}" using free_chain_bounds [OF c] by (intro card_mono) auto
  finally show ?thesis by (cases ids) auto
qed

definition free_ids :: "fstore \<Rightarrow> nat list" where
  "free_ids fs =
     (case free_list (fs_header fs) (\<lambda>i. case cur_page fs i of None \<Rightarrow> corrupt | Some b \<Rightarrow> Inr (page_from b)) of
        Inl _ \<Rightarrow> [] | Inr ids \<Rightarrow> ids)"

lemma free_list_loop_chain:
  assumes "free_chain cur n head ids" "length seen + length ids \<le> n"
  shows "free_list_loop n (\<lambda>i. case cur i of None \<Rightarrow> corrupt | Some b \<Rightarrow> Inr (page_from b)) head seen = Inr (seen @ ids)"
  using assms
proof (induction ids arbitrary: head seen)
  case Nil
  then show ?case by (simp add: free_list_loop.simps NO_FREE_PAGE_def)
next
  case (Cons i ids)
  then obtain b where b: "cur i = Some b" "b ! 0 = type_byte PFree" "free_chain cur n (u_at 8 b 1) ids" "head = i" "0 < i" "i < n"
    by (auto split: option.splits)
  have "free_list_loop n (\<lambda>i. case cur i of None \<Rightarrow> corrupt | Some b \<Rightarrow> Inr (page_from b)) (u_at 8 b 1) (seen @ [i])
      = Inr ((seen @ [i]) @ ids)"
    using Cons.IH [OF b(3), of "seen @ [i]"] Cons.prems(2) by simp
  then show ?case using b Cons.prems(2) by (subst free_list_loop.simps) (simp add: NO_FREE_PAGE_def page_from_def)
qed

lemma free_ids_eq:
  assumes "free_chain (cur_page fs) (page_count (fs_header fs)) (free_list_head (fs_header fs)) ids"
  shows "free_ids fs = ids"
proof -
  have "length ids \<le> page_count (fs_header fs)" using free_chain_length [OF assms] by auto
  then show ?thesis using free_list_loop_chain [OF assms, of "[]"] by (simp add: free_ids_def free_list_def)
qed

subsection \<open>The page store's contract\<close>

definition fs_ok :: "(nat \<Rightarrow> nat \<Rightarrow> bytes) \<Rightarrow> (nat \<Rightarrow> nat) \<Rightarrow> nat list \<Rightarrow> fstore \<Rightarrow> bool" where
  "fs_ok H C live fs \<longleftrightarrow> header_ok (fs_header fs) \<and> batch_ok H C live (page_count (fs_header fs)) fs
     \<and> free_chain (cur_page fs) (page_count (fs_header fs)) (free_list_head (fs_header fs)) (free_ids fs)"

definition fs_sound :: "fstore \<Rightarrow> bool" where
  "fs_sound fs \<longleftrightarrow> (\<exists>H C live. fs_ok H C live fs)"

text \<open>The pages in use: neither the header nor on the free list.\<close>

definition fs_view :: "fstore \<Rightarrow> nat \<rightharpoonup> bytes" where
  "fs_view fs i =
     (if 0 < i \<and> i < page_count (fs_header fs) \<and> i \<notin> set (free_ids fs) then cur_page fs i else None)"

lemma fs_soundI [intro]: "fs_ok H C live fs \<Longrightarrow> fs_sound fs"
  by (auto simp: fs_sound_def)

definition fs_room :: "fstore \<Rightarrow> nat" where
  "fs_room fs = MAX_PAGES - page_count (fs_header fs)"

lemma fs_okI:
  assumes "header_ok (fs_header fs)" "batch_ok H C live (page_count (fs_header fs)) fs"
    "free_chain (cur_page fs) (page_count (fs_header fs)) (free_list_head (fs_header fs)) ids"
  shows "fs_ok H C live fs" "free_ids fs = ids"
  using assms free_ids_eq [OF assms(3)] by (simp_all add: fs_ok_def)

lemma fs_okD:
  assumes "fs_ok H C live fs"
  shows "header_ok (fs_header fs)" "batch_ok H C live (page_count (fs_header fs)) fs"
    "free_chain (cur_page fs) (page_count (fs_header fs)) (free_list_head (fs_header fs)) (free_ids fs)"
    "0 < page_count (fs_header fs)"
  using assms by (auto simp: fs_ok_def header_ok_def)

lemma cur_page_in_use:
  assumes "batch_ok H C live n fs" "0 < i" "i < n"
  shows "\<exists>b. cur_page fs i = Some b \<and> length b = USABLE_PAGE_SIZE"
proof -
  let ?m = "fs_memory fs"
  obtain st where st: "staged fs = Some st" "mem_ok (fs_file fs) ?m H C live"
    "\<And>i. i < C (mseq ?m) \<Longrightarrow> length (H (mseq ?m) i) = USABLE_PAGE_SIZE"
    "\<And>i p. bm_get (dirty st) i = Some p \<Longrightarrow> i < n \<and> length (page_bytes p) = USABLE_PAGE_SIZE"
    "\<And>i. 0 < i \<Longrightarrow> C (mseq ?m) \<le> i \<Longrightarrow> i < n \<Longrightarrow> bm_get (dirty st) i \<noteq> None"
    using batch_okD [OF assms(1)] by metis
  show ?thesis
  proof (cases "bm_get (dirty st) i")
    case None
    then have "i < C (mseq ?m)" using st(5) assms(2,3) by (meson not_less)
    then show ?thesis using newest_eq [OF st(2)] st(1,3) None by (simp add: cur_page_def)
  qed (use st(1,4) in \<open>auto simp: cur_page_def\<close>)
qed

text \<open>The header written, then something else: the free list and the pages in use stay.\<close>

lemma fs_view_cong:
  assumes "fs_ok H C live fs" "header_ok (fs_header fs')" "batch_ok H C live (page_count (fs_header fs')) fs'"
    and "page_count (fs_header fs') = page_count (fs_header fs)" "free_list_head (fs_header fs') = free_list_head (fs_header fs)"
    and "\<And>j. 0 < j \<Longrightarrow> j \<noteq> i \<Longrightarrow> cur_page fs' j = cur_page fs j" "cur_page fs' i = Some b" "fs_view fs i \<noteq> None"
  shows "fs_ok H C live fs'" "fs_view fs' = (fs_view fs)(i \<mapsto> b)" "fs_room fs' = fs_room fs"
proof -
  note ok = fs_okD [OF assms(1)]
  have i: "0 < i" "i < page_count (fs_header fs)" "i \<notin> set (free_ids fs)" using assms(8) by (auto simp: fs_view_def split: if_splits)
  have pos: "0 < j \<and> j \<noteq> i" if "j \<in> set (free_ids fs)" for j using free_chain_bounds [OF ok(3)] that i(3) by auto
  have "free_chain (cur_page fs') (page_count (fs_header fs')) (free_list_head (fs_header fs')) (free_ids fs)"
    using free_chain_cong [OF ok(3), of "cur_page fs'" "page_count (fs_header fs')"] assms(4,5,6) pos by simp
  note n = fs_okI [OF assms(2,3) this]
  show "fs_ok H C live fs'" by (rule n)
  show "fs_view fs' = (fs_view fs)(i \<mapsto> b)" using n(2) assms(4,6,7) i by (auto simp: fs_view_def fun_eq_iff)
  show "fs_room fs' = fs_room fs" using assms(4) by (simp add: fs_room_def)
qed

lemma read_current_ok:
  assumes ok: "fs_ok H C live fs" and i: "cur_page fs i = Some b" "0 < i" "i < page_count (fs_header fs)"
  shows "\<exists>p fs'. read_current hw i fs = (Inr p, fs') \<and> page_bytes p = b \<and> fs_ok H C live fs'
    \<and> cur_page fs' = cur_page fs \<and> fs_header fs' = fs_header fs \<and> free_ids fs' = free_ids fs \<and> staged fs' = staged fs"
proof -
  note f = fs_okD [OF ok]
  obtain st where st: "staged fs = Some st" "st_replacement st = None" "mem_ok (fs_file fs) (fs_memory fs) H C live"
    "\<And>i. 0 < i \<Longrightarrow> C (mseq (fs_memory fs)) \<le> i \<Longrightarrow> i < page_count (fs_header fs) \<Longrightarrow> bm_get (dirty st) i \<noteq> None"
    using batch_okD [OF f(2)] by metis
  show ?thesis
  proof (cases "bm_get (dirty st) i")
    case (Some p)
    then show ?thesis using st(1) i ok by (simp add: read_current_def cur_page_def)
  next
    case None
    then have lt: "i < C (mseq (fs_memory fs))" using st(4) i by (meson not_less)
    obtain c r where c: "committed_read hw i fs = (r, fs\<lparr>fs_memory := (fs_memory fs)\<lparr>mcache := c\<rparr>\<rparr>)"
      "batch_ok H C live (page_count (fs_header fs)) (fs\<lparr>fs_memory := (fs_memory fs)\<lparr>mcache := c\<rparr>\<rparr>)"
      "i < C (mseq (fs_memory fs)) \<longrightarrow> (\<exists>p. r = Inr p \<and> page_bytes p = H (mseq (fs_memory fs)) i)"
      by (rule committed_read_ok [OF f(2), of hw i])
    obtain p where p: "r = Inr p" "page_bytes p = H (mseq (fs_memory fs)) i" using c(3) lt by blast
    let ?fs' = "fs\<lparr>fs_memory := (fs_memory fs)\<lparr>mcache := c\<rparr>\<rparr>"
    have b: "b = H (mseq (fs_memory fs)) i" using i(1) newest_eq [OF st(3) lt] None st(1) by (simp add: cur_page_def)
    have ids: "free_ids ?fs' = free_ids fs" by (simp add: free_ids_def)
    then have "fs_ok H C live ?fs'" using ok c(2) by (simp add: fs_ok_def)
    then show ?thesis using st None c(1) p b ids by (simp add: read_current_def)
  qed
qed

lemma fs_read_page_ok:
  assumes ok: "fs_ok H C live fs" and v: "fs_view fs i = Some b"
  shows "\<exists>p fs'. fs_read_page hw i fs = (Inr p, fs') \<and> page_bytes p = b \<and> fs_ok H C live fs' \<and> fs_view fs' = fs_view fs
    \<and> fs_room fs' = fs_room fs \<and> staged fs' = staged fs"
proof -
  have i: "cur_page fs i = Some b" "0 < i" "i < page_count (fs_header fs)" using v by (auto simp: fs_view_def split: if_splits)
  obtain p fs' where r: "read_current hw i fs = (Inr p, fs')" "page_bytes p = b" "fs_ok H C live fs'"
    "cur_page fs' = cur_page fs" "fs_header fs' = fs_header fs" "free_ids fs' = free_ids fs" "staged fs' = staged fs"
    using read_current_ok [OF ok i, of hw] by blast
  have "check_bounds i fs = (Inr (), fs)" using i(3) by (simp add: check_bounds_def)
  then have "fs_read_page hw i fs = (Inr p, fs')" using r(1) by (simp add: fs_read_page_def)
  moreover have "fs_view fs' = fs_view fs" "fs_room fs' = fs_room fs"
    using r(4-6) by (simp_all add: fs_view_def fun_eq_iff fs_room_def)
  ultimately show ?thesis using r by blast
qed

lemma header_ok_same:
  "header_ok h \<Longrightarrow> page_size h' = page_size h \<Longrightarrow> page_count h' = page_count h \<Longrightarrow> free_list_head h' = free_list_head h \<Longrightarrow> header_ok h'"
  by (simp add: header_ok_def)

lemma fs_write_page_ok:
  assumes ok: "fs_ok H C live fs" and v: "fs_view fs i \<noteq> None" and len: "length (page_bytes p) = USABLE_PAGE_SIZE"
  shows "\<exists>fs'. fs_write_page hw i p fs = (Inr (), fs') \<and> fs_ok H C live fs' \<and> fs_view fs' = (fs_view fs)(i \<mapsto> page_bytes p)
    \<and> fs_room fs' = fs_room fs"
proof -
  note f = fs_okD [OF ok]
  let ?n = "page_count (fs_header fs)"
  have i: "0 < i" "i < ?n" using v by (auto simp: fs_view_def split: if_splits)
  have "\<exists>fs1. (if is_stale (fs_header fs) then write_header hw fs else (Inr (), fs)) = (Inr (), fs1) \<and> batch_ok H C live ?n fs1
    \<and> (\<forall>j > 0. cur_page fs1 j = cur_page fs j) \<and> page_size (fs_header fs1) = page_size (fs_header fs)
    \<and> page_count (fs_header fs1) = ?n \<and> free_list_head (fs_header fs1) = free_list_head (fs_header fs)"
  proof (cases "is_stale (fs_header fs)")
    case True
    show ?thesis by (rule write_header_ok [OF f(2,4), of hw]) (use True in auto)
  qed (use f(2) in simp)
  then obtain fs1 where s1: "(if is_stale (fs_header fs) then write_header hw fs else (Inr (), fs)) = (Inr (), fs1)" "batch_ok H C live ?n fs1"
    "\<And>j. 0 < j \<Longrightarrow> cur_page fs1 j = cur_page fs j" "page_size (fs_header fs1) = page_size (fs_header fs)"
    "page_count (fs_header fs1) = ?n" "free_list_head (fs_header fs1) = free_list_head (fs_header fs)" by blast
  obtain fs2 where s2: "write_raw hw i p fs1 = (Inr (), fs2)" "batch_ok H C live (max ?n (Suc i)) fs2"
    "cur_page fs2 = (cur_page fs1)(i \<mapsto> page_bytes p)" "fs_header fs2 = fs_header fs1"
    by (rule write_raw_ok [OF s1(2) less_imp_le [OF i(2)] len, of hw])
  have mx: "max ?n (Suc i) = ?n" using i(2) by simp
  have run: "fs_write_page hw i p fs = (Inr (), fs2)"
    using i s1(1) s2(1) len by (cases "is_stale (fs_header fs)") (simp_all add: fs_write_page_def check_bounds_def HEADER_PAGE_def)
  have h: "header_ok (fs_header fs2)" using header_ok_same [OF f(1)] s1(4-6) s2(4) by simp
  note c = fs_view_cong [OF ok h _ _ _ _ _ v, of "page_bytes p"]
  show ?thesis using run c s2 mx s1 by simp
qed

lemma batch_ok_restage:
  assumes ok: "batch_ok H C live n fs" and st: "staged fs = Some st" "bm_get (dirty st) i \<noteq> None"
    and len: "length (page_bytes p) = USABLE_PAGE_SIZE"
  defines "fs' \<equiv> fs\<lparr>staged := Some (st\<lparr>dirty := bm_put i p (bm_remove i (dirty st))\<rparr>)\<rparr>"
  shows "batch_ok H C live n fs'" "cur_page fs' = (cur_page fs)(i \<mapsto> page_bytes p)"
proof -
  show "cur_page fs' = (cur_page fs)(i \<mapsto> page_bytes p)" using st(1)
    by (simp add: cur_page_def fs'_def fun_eq_iff cong: option.case_cong)
  have "i < n" using batch_okD [OF ok] st by (metis option.exhaust option.inject)
  then show "batch_ok H C live n fs'" using ok st len unfolding batch_ok_def Let_def fs'_def by auto
qed

lemma fs_change_page_ok:
  assumes ok: "fs_ok H C live fs" and v: "fs_view fs i \<noteq> None" and ch: "change sp = Inr sp'" "length (raw sp') = USABLE_PAGE_SIZE"
  shows "\<exists>fs'. fs_change_page hw i sp change fs = (Inr (), fs') \<and> fs_ok H C live fs' \<and> fs_view fs' = (fs_view fs)(i \<mapsto> raw sp')
    \<and> fs_room fs' = fs_room fs"
proof -
  note f = fs_okD [OF ok]
  have i: "0 < i" using v by (auto simp: fs_view_def split: if_splits)
  have len: "length (page_bytes (into_page sp')) = USABLE_PAGE_SIZE" using ch(2) by simp
  obtain st where st: "staged fs = Some st" using batch_okD [OF f(2)] by metis
  have wr: "change_by_write (fs_write_page hw) i sp change fs = fs_write_page hw i (into_page sp') fs"
    using ch(1) by (simp add: change_by_write_def)
  show ?thesis
  proof (cases "bm_get (dirty st) i = None")
    case True
    then show ?thesis using fs_write_page_ok [OF ok v len, of hw] wr st by (simp add: fs_change_page_def)
  next
    case False
    let ?fs' = "fs\<lparr>staged := Some (st\<lparr>dirty := bm_put i (into_page sp') (bm_remove i (dirty st))\<rparr>)\<rparr>"
    have run: "fs_change_page hw i sp change fs = (Inr (), ?fs')"
      using st False i ch(1) by (simp add: fs_change_page_def HEADER_PAGE_def)
    note b = batch_ok_restage [OF f(2) st False len]
    note c = fs_view_cong [OF ok _ _ _ _ _ _ v, of ?fs' "raw sp'"]
    have "fs_ok H C live ?fs' \<and> fs_view ?fs' = (fs_view fs)(i \<mapsto> raw sp') \<and> fs_room ?fs' = fs_room fs"
      using c b f(1) by (simp add: fun_upd_other)
    then show ?thesis using run by blast
  qed
qed

lemma allocate_from_list:
  assumes ok: "fs_ok H C live fs" and head: "free_list_head (fs_header fs) \<noteq> 0"
  shows "\<exists>b fs'. fs_allocate_page hw fs = (Inr (free_list_head (fs_header fs)), fs')
    \<and> fs_view fs (free_list_head (fs_header fs)) = None \<and> fs_ok H C live fs'
    \<and> fs_view fs' = (fs_view fs)(free_list_head (fs_header fs) \<mapsto> b) \<and> fs_room fs \<le> fs_room fs' + 1"
proof -
  note f = fs_okD [OF ok]
  let ?n = "page_count (fs_header fs)" and ?i = "free_list_head (fs_header fs)"
  obtain rest where ids: "free_ids fs = ?i # rest" using f(3) head by (cases "free_ids fs") auto
  then obtain b where b: "cur_page fs ?i = Some b" "b ! 0 = type_byte PFree" "free_chain (cur_page fs) ?n (u_at 8 b 1) rest"
    "0 < ?i" "?i < ?n" "?i \<notin> set rest" using f(3) by (auto split: option.splits)
  obtain p fs1 where r: "read_current hw ?i fs = (Inr p, fs1)" "page_bytes p = b" "fs_ok H C live fs1"
    "cur_page fs1 = cur_page fs" "fs_header fs1 = fs_header fs" using read_current_ok [OF ok b(1,4,5), of hw] by blast
  let ?nf = "u_at 8 b 1"
  have nf: "?nf < ?n" using free_chain_bounds [OF b(3)] f(4) by auto
  let ?fs2 = "fs1\<lparr>fs_header := (fs_header fs1)\<lparr>free_list_head := ?nf\<rparr>\<rparr>"
  have ok2: "batch_ok H C live ?n ?fs2" using fs_okD(2) [OF r(3)] r(5) by simp
  obtain fs' b0 where w: "write_header hw ?fs2 = (Inr (), fs')" "batch_ok H C live ?n fs'" "cur_page fs' = (cur_page ?fs2)(0 \<mapsto> b0)"
    "page_size (fs_header fs') = page_size (fs_header ?fs2)" "page_count (fs_header fs') = page_count (fs_header ?fs2)"
    "free_list_head (fs_header fs') = free_list_head (fs_header ?fs2)"
    by (rule write_header_ok [OF ok2 f(4), of hw])
  have cur': "cur_page fs' j = cur_page fs j" if "0 < j" for j using that w(3) r(4) by simp
  have run: "fs_allocate_page hw fs = (Inr ?i, fs')"
    using head r(1,2,5) b(2) nf w(1) by (simp add: fs_allocate_page_def NO_FREE_PAGE_def Let_def bindA_def)
  have h: "header_ok (fs_header fs')" using f(1) w(4-6) nf r(5) by (simp add: header_ok_def)
  have "free_chain (cur_page fs') (page_count (fs_header fs')) (free_list_head (fs_header fs')) rest"
    using free_chain_cong [OF b(3), of "cur_page fs'" ?n] cur' free_chain_bounds [OF b(3)] w(5,6) r(5)
    by (simp add: subset_iff)
  note n = fs_okI [OF h _ this]
  have bt: "batch_ok H C live (page_count (fs_header fs')) fs'" using w(2,5) r(5) by simp
  have "fs_view fs' = (fs_view fs)(?i \<mapsto> b)"
    using n(2) [OF bt] ids cur' b w(5) r(5) by (auto simp: fs_view_def fun_eq_iff)
  moreover have "fs_view fs ?i = None" using ids by (simp add: fs_view_def)
  moreover have "fs_room fs' = fs_room fs" using w(5) r(5) by (simp add: fs_room_def)
  ultimately show ?thesis using run n(1) [OF bt] by (intro exI [of _ b] exI [of _ fs']) simp
qed

lemma allocate_by_growing:
  assumes ok: "fs_ok H C live fs" and head: "free_list_head (fs_header fs) = 0" and room: "0 < fs_room fs"
  shows "\<exists>i b fs'. fs_allocate_page hw fs = (Inr i, fs') \<and> fs_view fs i = None \<and> fs_ok H C live fs'
    \<and> fs_view fs' = (fs_view fs)(i \<mapsto> b) \<and> fs_room fs \<le> fs_room fs' + 1"
proof -
  note f = fs_okD [OF ok]
  let ?n = "page_count (fs_header fs)" and ?z = "page_from (replicate USABLE_PAGE_SIZE (0 :: byte))"
  let ?fs1 = "fs\<lparr>fs_header := (fs_header fs)\<lparr>page_count := ?n + 1\<rparr>\<rparr>"
  have ids: "free_ids fs = []" using f(3) head by (cases "free_ids fs") auto
  have z: "length (page_bytes ?z) = USABLE_PAGE_SIZE" by (simp add: page_from_def)
  have ok1: "batch_ok H C live ?n ?fs1" using f(2) by simp
  obtain fs2 where w: "write_raw hw ?n ?z ?fs1 = (Inr (), fs2)" "batch_ok H C live (max ?n (Suc ?n)) fs2"
    "cur_page fs2 = (cur_page ?fs1)(?n \<mapsto> page_bytes ?z)" "fs_header fs2 = fs_header ?fs1"
    by (rule write_raw_ok [OF ok1 order_refl z, of hw])
  have ok2: "batch_ok H C live (Suc ?n) fs2" using w(2) by (simp add: max_def)
  obtain fs' b0 where h: "write_header hw fs2 = (Inr (), fs')" "batch_ok H C live (Suc ?n) fs'" "cur_page fs' = (cur_page fs2)(0 \<mapsto> b0)"
    "page_size (fs_header fs') = page_size (fs_header fs2)" "page_count (fs_header fs') = page_count (fs_header fs2)"
    "free_list_head (fs_header fs') = free_list_head (fs_header fs2)"
    by (rule write_header_ok [OF ok2 zero_less_Suc, of hw])
  have cur': "cur_page fs' j = ((cur_page fs)(?n \<mapsto> page_bytes ?z)) j" if "0 < j" for j using that h(3) w(3) by simp
  have run: "fs_allocate_page hw fs = (Inr ?n, fs')"
    using head w(1) h(1) by (simp add: fs_allocate_page_def NO_FREE_PAGE_def Let_def bindA_def)
  have cnt: "page_count (fs_header fs') = Suc ?n" using h(5) w(4) by simp
  have hok: "header_ok (fs_header fs')"
    using f(1) h(4,6) w(4) head room cnt by (simp add: header_ok_def fs_room_def)
  have "free_chain (cur_page fs') (page_count (fs_header fs')) (free_list_head (fs_header fs')) []"
    using h(6) w(4) head by simp
  note n = fs_okI [OF hok _ this]
  have bt: "batch_ok H C live (page_count (fs_header fs')) fs'" using h(2) cnt by simp
  have "fs_view fs' = (fs_view fs)(?n \<mapsto> page_bytes ?z)"
    using n(2) [OF bt] ids cur' cnt f(4) by (auto simp: fs_view_def fun_eq_iff)
  moreover have "fs_room fs \<le> fs_room fs' + 1" using cnt by (simp add: fs_room_def)
  ultimately show ?thesis
    using run n(1) [OF bt] by (intro exI [of _ ?n] exI [of _ "page_bytes ?z"] exI [of _ fs']) (simp add: fs_view_def)
qed

lemma fs_free_page_ok:
  assumes ok: "fs_ok H C live fs" and v: "fs_view fs i \<noteq> None"
  shows "\<exists>fs'. fs_free_page hw i fs = (Inr (), fs') \<and> fs_ok H C live fs' \<and> fs_view fs' = (fs_view fs)(i := None)
    \<and> fs_room fs \<le> fs_room fs' \<and> free_list_head (fs_header fs') = i"
proof -
  note f = fs_okD [OF ok]
  let ?n = "page_count (fs_header fs)" and ?head = "free_list_head (fs_header fs)"
  define b where "b = put (put (replicate USABLE_PAGE_SIZE 0) 0 [type_byte PFree]) 1 (le_bytes 8 ?head)"
  have i: "0 < i" "i < ?n" "i \<notin> set (free_ids fs)" using v by (auto simp: fs_view_def split: if_splits)
  have "?head < 256 ^ 8" using f(1) by (auto simp: header_ok_def MAX_PAGES_def PAGE_SIZE_def)
  then have b: "length b = USABLE_PAGE_SIZE" "b ! 0 = type_byte PFree" "u_at 8 b 1 = ?head"
    by (simp_all add: b_def USABLE_PAGE_SIZE_def PAGE_SIZE_def CHECKSUM_LEN_def buf_simps nth_put)
  have pb: "length (page_bytes (page_from b)) = USABLE_PAGE_SIZE" using b(1) by (simp add: page_from_def)
  obtain fs1 where w: "write_raw hw i (page_from b) fs = (Inr (), fs1)" "batch_ok H C live (max ?n (Suc i)) fs1"
    "cur_page fs1 = (cur_page fs)(i \<mapsto> page_bytes (page_from b))" "fs_header fs1 = fs_header fs"
    by (rule write_raw_ok [OF f(2) less_imp_le [OF i(2)] pb, of hw])
  have mx: "max ?n (Suc i) = ?n" using i(2) by simp
  let ?fs2 = "fs1\<lparr>fs_header := (fs_header fs1)\<lparr>free_list_head := i\<rparr>\<rparr>"
  have ok2: "batch_ok H C live ?n ?fs2" using w(2) mx by simp
  obtain fs' b0 where h: "write_header hw ?fs2 = (Inr (), fs')" "batch_ok H C live ?n fs'" "cur_page fs' = (cur_page ?fs2)(0 \<mapsto> b0)"
    "page_size (fs_header fs') = page_size (fs_header ?fs2)" "page_count (fs_header fs') = page_count (fs_header ?fs2)"
    "free_list_head (fs_header fs') = free_list_head (fs_header ?fs2)"
    by (rule write_header_ok [OF ok2 f(4), of hw])
  have cur': "cur_page fs' j = ((cur_page fs)(i \<mapsto> b)) j" if "0 < j" for j using that h(3) w(3) by (simp add: page_from_def)
  have run: "fs_free_page hw i fs = (Inr (), fs')"
    using i w(1) h(1) by (simp add: fs_free_page_def HEADER_PAGE_def check_bounds_def Let_def bindA_def b_def)
  have hok: "header_ok (fs_header fs')" using f(1) h(4-6) w(4) i by (simp add: header_ok_def)
  have cnt: "page_count (fs_header fs') = ?n" using h(5) w(4) by simp
  have "free_chain (cur_page fs') ?n ?head (free_ids fs)"
    by (rule free_chain_cong [OF f(3)]) (use cur' free_chain_bounds [OF f(3)] i in auto)
  then have "free_chain (cur_page fs') (page_count (fs_header fs')) (free_list_head (fs_header fs')) (i # free_ids fs)"
    using h(6) i b cur' cnt by simp
  note n = fs_okI [OF hok _ this]
  have bt: "batch_ok H C live (page_count (fs_header fs')) fs'" using h(2) cnt by simp
  have "fs_view fs' = (fs_view fs)(i := None)" using n(2) [OF bt] cur' cnt by (auto simp: fs_view_def fun_eq_iff)
  moreover have "fs_room fs' = fs_room fs" using cnt by (simp add: fs_room_def)
  moreover have "free_list_head (fs_header fs') = i" using h(6) by simp
  ultimately show ?thesis using run n [OF bt] by simp
qed

interpretation file_pages: page_store "file_store hw" fs_view fs_sound fs_room for hw
proof
  fix s i b
  assume s: "fs_sound s"
  then obtain H C live where ok: "fs_ok H C live s" by (auto simp: fs_sound_def)
  show "0 < i \<and> i < 2 ^ 64 \<and> length b = USABLE_PAGE_SIZE" if "fs_view s i = Some b"
  proof -
    have i: "0 < i" "i < page_count (fs_header s)" "cur_page s i = Some b" using that by (auto simp: fs_view_def split: if_splits)
    then have "length b = USABLE_PAGE_SIZE" using cur_page_in_use [OF fs_okD(2) [OF ok] i(1,2)] by simp
    then show ?thesis using i fs_okD(1) [OF ok] by (auto simp: header_ok_def MAX_PAGES_def PAGE_SIZE_def)
  qed
  show "\<exists>p s'. read_page (file_store hw) i s = (Inr p, s') \<and> page_bytes p = b \<and> fs_sound s' \<and> fs_view s' = fs_view s \<and> fs_room s' = fs_room s"
    if "fs_view s i = Some b"
    using fs_read_page_ok [OF ok that, of hw] by (auto simp: file_store_def)
  show "\<exists>s'. write_page (file_store hw) i p s = (Inr (), s') \<and> fs_sound s' \<and> fs_view s' = (fs_view s)(i \<mapsto> page_bytes p) \<and> fs_room s' = fs_room s"
    if "fs_view s i \<noteq> None" "length (page_bytes p) = USABLE_PAGE_SIZE" for p
    using fs_write_page_ok [OF ok that, of hw] by (auto simp: file_store_def)
  show "\<exists>s'. change_page (file_store hw) i sp change s = (Inr (), s') \<and> fs_sound s' \<and> fs_view s' = (fs_view s)(i \<mapsto> raw sp') \<and> fs_room s' = fs_room s"
    if "fs_view s i \<noteq> None" "change sp = Inr sp'" "length (raw sp') = USABLE_PAGE_SIZE" for sp change sp'
    using fs_change_page_ok [OF ok that(1), of change sp sp' hw] that(2,3) by (auto simp: file_store_def)
  show "\<exists>s'. free_page (file_store hw) i s = (Inr (), s') \<and> fs_sound s' \<and> fs_view s' = (fs_view s)(i := None) \<and> fs_room s \<le> fs_room s'"
    if "fs_view s i \<noteq> None"
    using fs_free_page_ok [OF ok that, of hw] by (auto simp: file_store_def)
  show "\<exists>i b s'. allocate_page (file_store hw) s = (Inr i, s') \<and> fs_view s i = None \<and> fs_sound s' \<and> fs_view s' = (fs_view s)(i \<mapsto> b)
      \<and> fs_room s \<le> fs_room s' + 1" if "0 < fs_room s"
    using allocate_from_list [OF ok, of hw] allocate_by_growing [OF ok _ that, of hw]
    by (cases "free_list_head (fs_header s) = 0") (auto simp: file_store_def)
qed

subsection \<open>Rolling back\<close>

text \<open>
  What an operation of a batch leaves alone: everything but the staging, the header and the cache,
  into which go only pages as the file has them (\<open>filled\<close>).
\<close>

definition filled :: "bytes \<Rightarrow> memory \<Rightarrow> page cache \<Rightarrow> bool" where
  "filled file m c \<longleftrightarrow> (cache_inv (mcache m) \<longrightarrow> cache_inv c
     \<and> (\<forall>i p. cache_view c i = Some p \<longrightarrow> cache_view (mcache m) i = Some p
          \<or> replacement m = None \<and> disk_page file i = Some (page_bytes p)))"

lemma filled_refl: "filled file m (mcache m)"
  by (simp add: filled_def)

lemma filled_trans: "filled file m c \<Longrightarrow> filled file (m\<lparr>mcache := c\<rparr>) c' \<Longrightarrow> filled file m c'"
  by (simp add: filled_def) blast

definition framed :: "fstore \<Rightarrow> fstore \<Rightarrow> bool" where
  "framed fs fs' \<longleftrightarrow> (\<exists>st st' c. staged fs = Some st \<and> staged fs' = Some st' \<and> header_before st' = header_before st
     \<and> filled (fs_file fs) (fs_memory fs) c
     \<and> fs\<lparr>staged := None, fs_header := header_before st, fs_memory := (fs_memory fs)\<lparr>mcache := c\<rparr>\<rparr>
       = fs'\<lparr>staged := None, fs_header := header_before st\<rparr>)"

lemma framed_refl: "staged fs = Some st \<Longrightarrow> framed fs fs"
  unfolding framed_def by (intro exI [of _ st] exI [of _ "mcache (fs_memory fs)"]) (cases fs, simp add: filled_refl)

lemma framed_trans: "framed a b \<Longrightarrow> framed b c \<Longrightarrow> framed a c"
proof -
  assume "framed a b" "framed b c"
  then obtain st st' st'' k l where 1: "staged a = Some st" "staged b = Some st'" "header_before st' = header_before st"
    "a\<lparr>staged := None, fs_header := header_before st, fs_memory := (fs_memory a)\<lparr>mcache := k\<rparr>\<rparr> = b\<lparr>staged := None, fs_header := header_before st\<rparr>"
    and 2: "staged c = Some st''" "header_before st'' = header_before st'"
    "b\<lparr>staged := None, fs_header := header_before st', fs_memory := (fs_memory b)\<lparr>mcache := l\<rparr>\<rparr> = c\<lparr>staged := None, fs_header := header_before st'\<rparr>"
    and f: "filled (fs_file a) (fs_memory a) k" "filled (fs_file b) (fs_memory b) l"
    by (auto simp: framed_def)
  have "a\<lparr>staged := None, fs_header := header_before st, fs_memory := (fs_memory a)\<lparr>mcache := l\<rparr>\<rparr> = c\<lparr>staged := None, fs_header := header_before st\<rparr>"
    using 1(3,4) 2(3) by (cases a; cases b; cases c) auto
  moreover have "fs_file b = fs_file a" "fs_memory b = (fs_memory a)\<lparr>mcache := k\<rparr>"
    using 1(4) by (cases a; cases b; auto)+
  then have "filled (fs_file a) (fs_memory a) l" using filled_trans [OF f(1)] f(2) by simp
  ultimately show "framed a c" unfolding framed_def using 1 2 by auto
qed

lemma pages_read_frame: "\<exists>c r. pages_read hw file i m = (m\<lparr>mcache := c\<rparr>, r) \<and> filled file m c"
proof -
  obtain m1 l where l: "read_lookup hw i (2 ^ 64 - 1) m = (m1, l)" by fastforce
  have c: "\<exists>c. m1 = m\<lparr>mcache := c\<rparr> \<and> filled file m c"
  proof -
    have "\<exists>c. m = m\<lparr>mcache := c\<rparr> \<and> filled file m c" using filled_refl by (intro exI [of _ "mcache m"]) simp
    moreover have "filled file m (fst (cache_get (mcache m) i))" using cache_get_ok [of "mcache m" i] by (simp add: filled_def)
    ultimately show ?thesis using l
      by (auto simp: read_lookup_def split: if_splits option.splits sum.splits prod.splits)
  qed
  then obtain c where c: "m1 = m\<lparr>mcache := c\<rparr>" "filled file m c" by blast
  show ?thesis
  proof (cases l)
    case (AskFile e)
    note ask = read_lookup_ask [OF l [unfolded AskFile]]
    obtain m2 a where f: "read_finish (read_page_at hw file i) i e m1 = (m2, a)" by fastforce
    have "\<exists>c'. m2 = m1\<lparr>mcache := c'\<rparr> \<and> filled file m1 c'"
    proof (cases "m2 = m1")
      case True
      then show ?thesis using filled_refl by (intro exI [of _ "mcache m1"]) simp
    next
      case False
      then obtain p c' where p: "read_page_at hw file i = Inr p" "cache_put (mcache m1) i (page_checked p) = Inr c'"
        "m2 = m1\<lparr>mcache := c'\<rparr>"
        using f by (auto simp: read_finish_def Let_def split: if_splits sum.splits)
      have d: "disk_page file i = Some (page_bytes (page_checked p))" using p(1) read_page_at_eq by auto
      have r: "replacement m1 = None" using ask c(1) by simp
      have "filled file m1 c'"
        unfolding filled_def
      proof (intro impI conjI allI)
        assume v: "cache_inv (mcache m1)"
        obtain c'' where "cache_put (mcache m1) i (page_checked p) = Inr c''" "cache_inv c''"
          "cache_view c'' \<subseteq>\<^sub>m (cache_view (mcache m1))(i \<mapsto> page_checked p)"
          using cache_put_ok [OF v, of i "page_checked p"] by auto
        then have k: "cache_inv c'" "cache_view c' \<subseteq>\<^sub>m (cache_view (mcache m1))(i \<mapsto> page_checked p)"
          using p(2) by simp_all
        show "cache_inv c'" by (rule k(1))
        fix j q assume "cache_view c' j = Some q"
        then have "((cache_view (mcache m1))(i \<mapsto> page_checked p)) j = Some q" using k(2) by (metis domI map_le_def)
        then show "cache_view (mcache m1) j = Some q \<or> replacement m1 = None \<and> disk_page file j = Some (page_bytes q)"
          using d r by (auto split: if_splits)
      qed
      then show ?thesis using p(3) by blast
    qed
    then obtain c' where "m2 = m1\<lparr>mcache := c'\<rparr>" "filled file m1 c'" by blast
    then show ?thesis using l AskFile f c filled_trans [OF c(2)] by (cases a) (auto simp: pages_read_def read_at_def)
  qed (use l c in \<open>auto simp: pages_read_def read_at_def\<close>)
qed

lemma committed_read_frame:
  assumes "staged fs = Some st" "committed_read hw i fs = (r, fs')"
  shows "framed fs fs'" "staged fs' = Some st"
proof -
  obtain c r' where c: "pages_read hw (fs_file fs) i (fs_memory fs) = ((fs_memory fs)\<lparr>mcache := c\<rparr>, r')"
    "filled (fs_file fs) (fs_memory fs) c" using pages_read_frame by blast
  then have f: "fs' = fs\<lparr>fs_memory := (fs_memory fs)\<lparr>mcache := c\<rparr>\<rparr>" using assms(2) by (simp add: committed_read_def)
  then show "staged fs' = Some st" using assms(1) by simp
  show "framed fs fs'" unfolding framed_def using assms(1) f c(2)
    by (intro exI [of _ st] exI [of _ c]) (cases fs, simp)
qed

lemma read_current_frame:
  assumes "staged fs = Some st" "read_current hw i fs = (r, fs')"
  shows "framed fs fs'"
  using assms framed_refl [OF assms(1)] committed_read_frame(1) [OF assms(1)]
  by (auto simp: read_current_def split: option.splits)

lemma framed_restage: "framed fs fs' \<Longrightarrow> staged fs = Some st \<Longrightarrow> header_before st' = header_before st \<Longrightarrow> framed fs (fs'\<lparr>staged := Some st'\<rparr>)"
  unfolding framed_def by (cases fs; cases fs') auto

lemma framed_header: "framed fs fs' \<Longrightarrow> framed fs (fs'\<lparr>fs_header := h\<rparr>)" "framed (fs\<lparr>fs_header := h\<rparr>) fs' \<Longrightarrow> framed fs fs'"
  unfolding framed_def by (cases fs; cases fs'; auto)+

lemma framed_staged: "framed fs fs' \<Longrightarrow> \<exists>st. staged fs' = Some st"
  by (auto simp: framed_def)

lemma write_raw_frame:
  assumes "staged fs = Some st" "write_raw hw i data fs = (r, fs')"
  shows "framed fs fs'"
proof -
  obtain r1 fs1 where c: "committed_read hw i fs = (r1, fs1)" by fastforce
  have f: "framed fs fs1" "framed fs fs" using committed_read_frame(1) [OF assms(1) c] framed_refl [OF assms(1)] by blast+
  show ?thesis using assms c framed_restage [OF f(1) assms(1)] framed_restage [OF f(2) assms(1)]
    by (auto simp: write_raw_def Let_def split: if_splits sum.splits)
qed

lemma write_header_frame:
  assumes "staged fs = Some st" "write_header hw fs = (r, fs')"
  shows "framed fs fs'"
proof (cases "read_only fs")
  case True
  then show ?thesis using assms write_raw_frame [OF assms(1)] by (auto simp: write_header_def Let_def)
next
  case False
  obtain r1 fs1 where w: "write_raw hw HEADER_PAGE (page_from (header_encode (fs_header fs))) fs = (r1, fs1)" by fastforce
  then have "framed fs fs1" by (rule write_raw_frame [OF assms(1)])
  then show ?thesis using assms(2) False w framed_header(1) by (cases r1) (auto simp: write_header_def Let_def)
qed

lemma bindA_frame:
  assumes "staged fs = Some st" "bindA a f fs = (r, fs')"
    and "\<And>r1 fs1. a fs = (r1, fs1) \<Longrightarrow> framed fs fs1"
    and "\<And>x fs1 st1 r2 fs2. a fs = (Inr x, fs1) \<Longrightarrow> staged fs1 = Some st1 \<Longrightarrow> f x fs1 = (r2, fs2) \<Longrightarrow> framed fs1 fs2"
  shows "framed fs fs'"
proof -
  obtain r1 fs1 where a: "a fs = (r1, fs1)" by fastforce
  show ?thesis
  proof (cases r1)
    case (Inl e)
    then show ?thesis using a assms(2,3) by simp
  next
    case (Inr x)
    then have "framed fs1 fs'" using a assms(2,4) framed_staged [OF assms(3) [OF a]] by auto
    then show ?thesis using framed_trans assms(3) [OF a] by blast
  qed
qed

text \<open>An operation of the page store, as a caller may ask for it; its result is dropped.\<close>

datatype store_op =
    Allocate | Read nat | TryRead nat | Write nat page | Change nat slotted "slotted \<Rightarrow> slotted res" | Free nat

fun run_op :: "bool \<Rightarrow> store_op \<Rightarrow> fstore \<Rightarrow> fstore" where
  "run_op hw Allocate fs = snd (fs_allocate_page hw fs)"
| "run_op hw (Read i) fs = snd (fs_read_page hw i fs)"
| "run_op hw (TryRead i) fs = snd (fs_try_read_page hw i fs)"
| "run_op hw (Write i p) fs = snd (fs_write_page hw i p fs)"
| "run_op hw (Change i sp f) fs = snd (fs_change_page hw i sp f fs)"
| "run_op hw (Free i) fs = snd (fs_free_page hw i fs)"

lemma fs_write_page_frame:
  assumes "staged fs = Some st" "fs_write_page hw i p fs = (r, fs')"
  shows "framed fs fs'"
proof -
  have stale: "framed fs fs1" if "(if is_stale (fs_header fs) then write_header hw fs else (Inr (), fs)) = (r1, fs1)" for r1 fs1
    using that write_header_frame [OF assms(1)] framed_refl [OF assms(1)] by (auto split: if_splits)
  have "framed fs fs2" if "bindA (\<lambda>fs. if is_stale (fs_header fs) then write_header hw fs else (Inr (), fs)) (\<lambda>_. write_raw hw i p) fs = (r2, fs2)" for r2 fs2
    by (rule bindA_frame [OF assms(1) that]) (use stale write_raw_frame in blast)+
  then show ?thesis using assms framed_refl [OF assms(1)]
    by (auto simp: fs_write_page_def bindA_def check_bounds_def split: if_splits)
qed

lemma fs_change_page_frame:
  assumes "staged fs = Some st" "fs_change_page hw i sp f fs = (r, fs')"
  shows "framed fs fs'"
proof -
  have "framed fs fs2" if "change_by_write (fs_write_page hw) i sp f fs = (r2, fs2)" for r2 fs2
    using that fs_write_page_frame [OF assms(1)] framed_refl [OF assms(1)]
    by (cases "f sp") (auto simp: change_by_write_def)
  then show ?thesis using assms framed_restage [OF framed_refl [OF assms(1)] assms(1)]
    by (auto simp: fs_change_page_def split: if_splits sum.splits)
qed

lemma fs_allocate_page_frame:
  assumes "staged fs = Some st" "fs_allocate_page hw fs = (r, fs')"
  shows "framed fs fs'"
  using assms(2) unfolding fs_allocate_page_def
proof (rule bindA_frame [OF assms(1)])
  fix r1 fs1
  assume a: "(let h = fs_header fs in
      if free_list_head h \<noteq> NO_FREE_PAGE then
        let i = free_list_head h in
        bindA (read_current hw i) (\<lambda>p fs.
          let b = page_bytes p in
          if b ! 0 \<noteq> type_byte PFree then (corrupt, fs)
          else let next_free = u_at 8 b 1 in
            if next_free \<ge> page_count (fs_header fs) then (corrupt, fs)
            else (Inr i, fs\<lparr>fs_header := (fs_header fs)\<lparr>free_list_head := next_free\<rparr>\<rparr>)) fs
      else
        let i = page_count h in
        bindA (write_raw hw i (page_from (replicate USABLE_PAGE_SIZE 0))) (\<lambda>_. retA i)
          (fs\<lparr>fs_header := h\<lparr>page_count := page_count h + 1\<rparr>\<rparr>)) = (r1, fs1)"
  show "framed fs fs1"
  proof (cases "free_list_head (fs_header fs) = NO_FREE_PAGE")
    case True
    let ?fs = "fs\<lparr>fs_header := (fs_header fs)\<lparr>page_count := page_count (fs_header fs) + 1\<rparr>\<rparr>"
    have s: "staged ?fs = Some st" using assms(1) by simp
    have run: "bindA (write_raw hw (page_count (fs_header fs)) (page_from (replicate USABLE_PAGE_SIZE 0)))
        (\<lambda>_. retA (page_count (fs_header fs))) ?fs = (r1, fs1)" using a True by (simp add: Let_def)
    have "framed ?fs fs1"
    proof (rule bindA_frame [OF s run])
      show "framed ?fs fs2" if "write_raw hw (page_count (fs_header fs)) (page_from (replicate USABLE_PAGE_SIZE 0)) ?fs = (r2, fs2)" for r2 fs2
        using write_raw_frame [OF s that] .
    qed (simp add: framed_refl)
    then show ?thesis by (rule framed_header(2))
  next
    case False
    let ?i = "free_list_head (fs_header fs)"
    have run: "bindA (read_current hw ?i) (\<lambda>p fs.
        let b = page_bytes p in
        if b ! 0 \<noteq> type_byte PFree then (corrupt, fs)
        else let next_free = u_at 8 b 1 in
          if next_free \<ge> page_count (fs_header fs) then (corrupt, fs)
          else (Inr ?i, fs\<lparr>fs_header := (fs_header fs)\<lparr>free_list_head := next_free\<rparr>\<rparr>)) fs = (r1, fs1)"
      using a False by (simp only: Let_def if_True if_False simp_thms)
    show ?thesis
    proof (rule bindA_frame [OF assms(1) run])
      show "framed fs fs2" if "read_current hw ?i fs = (r2, fs2)" for r2 fs2 using read_current_frame [OF assms(1) that] .
      fix p st2 r3 and fs2 fs3 :: fstore
      assume "staged fs2 = Some st2" and f: "(let b = page_bytes p in
        if b ! 0 \<noteq> type_byte PFree then (corrupt, fs2)
        else let next_free = u_at 8 b 1 in
          if next_free \<ge> page_count (fs_header fs2) then (corrupt, fs2)
          else (Inr ?i, fs2\<lparr>fs_header := (fs_header fs2)\<lparr>free_list_head := next_free\<rparr>\<rparr>)) = (r3, fs3)"
      then have "framed fs2 fs2" by (simp add: framed_refl)
      then show "framed fs2 fs3" using f framed_header(1) by (auto simp: Let_def split: if_splits)
    qed
  qed
next
  fix x fs1 st1 r2 fs2
  assume s: "staged fs1 = Some st1" and run: "bindA (write_header hw) (\<lambda>_. retA x) fs1 = (r2, fs2)"
  show "framed fs1 fs2"
  proof (rule bindA_frame [OF s run])
    show "framed fs1 fs3" if "write_header hw fs1 = (r3, fs3)" for r3 fs3 using write_header_frame [OF s that] .
  qed (simp add: framed_refl)
qed

lemma fs_free_page_frame:
  assumes "staged fs = Some st" "fs_free_page hw i fs = (r, fs')"
  shows "framed fs fs'"
proof -
  have "framed fs fs2" if "bindA (write_raw hw i p) (\<lambda>_ fs. write_header hw (fs\<lparr>fs_header := (fs_header fs)\<lparr>free_list_head := i\<rparr>\<rparr>)) fs = (r2, fs2)"
    for p r2 fs2
  proof (rule bindA_frame [OF assms(1) that])
    show "framed fs fs1" if "write_raw hw i p fs = (r1, fs1)" for r1 fs1 using write_raw_frame [OF assms(1) that] .
    show "framed fs1 fs2" if "staged fs1 = Some st1" "write_header hw (fs1\<lparr>fs_header := (fs_header fs1)\<lparr>free_list_head := i\<rparr>\<rparr>) = (r2, fs2)"
      for fs1 st1 r2 fs2
      using framed_header(2) write_header_frame [of "fs1\<lparr>fs_header := (fs_header fs1)\<lparr>free_list_head := i\<rparr>\<rparr>" st1 hw r2 fs2] that by simp
  qed
  then show ?thesis using assms framed_refl [OF assms(1)]
    by (auto simp: fs_free_page_def bindA_def check_bounds_def Let_def split: if_splits)
qed

lemma run_op_frame: "staged fs = Some st \<Longrightarrow> framed fs (run_op hw op fs)"
proof (cases op)
  case Allocate
  then show "staged fs = Some st \<Longrightarrow> ?thesis" using fs_allocate_page_frame [of fs st hw] by (metis run_op.simps(1) surjective_pairing)
next
  case (Read i)
  assume s: "staged fs = Some st"
  obtain r1 fs1 where c: "read_current hw i fs = (r1, fs1)" by fastforce
  show ?thesis using Read read_current_frame [OF s c] framed_refl [OF s] c
    by (cases r1) (auto simp: fs_read_page_def check_bounds_def bindA_def)
next
  case (TryRead i)
  assume s: "staged fs = Some st"
  obtain r1 fs1 where c: "read_current hw i fs = (r1, fs1)" by fastforce
  show ?thesis using TryRead read_current_frame [OF s c] framed_refl [OF s] c
    by (cases r1) (auto simp: fs_try_read_page_def bindA_def)
next
  case (Write i p)
  then show "staged fs = Some st \<Longrightarrow> ?thesis" using fs_write_page_frame [of fs st hw i p] by (metis run_op.simps(4) surjective_pairing)
next
  case (Change i sp f)
  then show "staged fs = Some st \<Longrightarrow> ?thesis" using fs_change_page_frame [of fs st hw i sp f] by (metis run_op.simps(5) surjective_pairing)
next
  case (Free i)
  then show "staged fs = Some st \<Longrightarrow> ?thesis" using fs_free_page_frame [of fs st hw i] by (metis run_op.simps(6) surjective_pairing)
qed

lemma run_ops_frame: "staged fs = Some st \<Longrightarrow> framed fs (fold (run_op hw) ops fs)"
proof (induction ops arbitrary: fs st)
  case (Cons op ops)
  have f: "framed fs (run_op hw op fs)" using run_op_frame [OF Cons.prems] .
  then show ?case using Cons.IH framed_staged [OF f] framed_trans by fastforce
qed (simp add: framed_refl)

subsection \<open>Beginning and committing\<close>

text \<open>A store between batches, over the committed pages of a system.\<close>

definition store_of :: "system \<Rightarrow> fstore \<Rightarrow> bool" where
  "store_of st fs \<longleftrightarrow> fs_file fs = sfile st \<and> fs_memory fs = smem st \<and> staged fs = None \<and> header_ok (fs_header fs)
     \<and> page_count (fs_header fs) = pcount st (mseq (smem st)) \<and> mseq (smem st) < 2 ^ 64
     \<and> free_chain (cur_page fs) (page_count (fs_header fs)) (free_list_head (fs_header fs)) (free_ids fs)"

lemma fs_begin_ok:
  assumes "store_of st fs" "sys_inv st" "books_ok st"
  obtains fs' where "fs_begin fs = (Inr (), fs')" "fs_ok (hist st) (pcount st) (open_at st) fs'" "fs_view fs' = fs_view fs"
    "fs_memory fs' = smem st"
proof -
  let ?fs' = "fs\<lparr>staged := Some \<lparr>header_before = fs_header fs, dirty = [], before = [], replaces_all = False, st_replacement = None\<rparr>\<rparr>"
  have s: "fs_file fs = sfile st" "fs_memory fs = smem st" "staged fs = None" "header_ok (fs_header fs)"
     "page_count (fs_header fs) = pcount st (mseq (smem st))" "mseq (smem st) < 2 ^ 64"
     "free_chain (cur_page fs) (page_count (fs_header fs)) (free_list_head (fs_header fs)) (free_ids fs)"
    using assms(1) unfolding store_of_def by blast+
  have cur: "cur_page ?fs' = cur_page fs" using s(3) by (simp add: cur_page_def fun_eq_iff)
  have b: "batch_ok (hist st) (pcount st) (open_at st) (page_count (fs_header ?fs')) ?fs'"
    using sys_inv_parts(1) [OF assms(2)] s assms(3) by (simp add: batch_ok_def Let_def bm_inv_def books_ok_def)
  have "free_chain (cur_page ?fs') (page_count (fs_header ?fs')) (free_list_head (fs_header ?fs')) (free_ids fs)"
    using s(7) cur by simp
  note n = fs_okI [OF _ b this]
  have "fs_view ?fs' = fs_view fs" using n(2) s(4) cur by (simp add: fs_view_def fun_eq_iff)
  then show thesis using that [of ?fs'] n(1) s by (simp add: fs_begin_def)
qed

text \<open>Operations a caller may ask for: on pages in use, with pages of the right length.\<close>

fun op_ok :: "fstore \<Rightarrow> store_op \<Rightarrow> bool" where
  "op_ok fs Allocate \<longleftrightarrow> 0 < fs_room fs"
| "op_ok fs (Read i) \<longleftrightarrow> fs_view fs i \<noteq> None"
| "op_ok fs (TryRead i) \<longleftrightarrow> fs_view fs i \<noteq> None \<or> page_count (fs_header fs) \<le> i"
| "op_ok fs (Write i p) \<longleftrightarrow> fs_view fs i \<noteq> None \<and> length (page_bytes p) = USABLE_PAGE_SIZE"
| "op_ok fs (Change i sp f) \<longleftrightarrow> fs_view fs i \<noteq> None \<and> (case f sp of Inl _ \<Rightarrow> False | Inr sp' \<Rightarrow> length (raw sp') = USABLE_PAGE_SIZE)"
| "op_ok fs (Free i) \<longleftrightarrow> fs_view fs i \<noteq> None"

fun ops_ok :: "bool \<Rightarrow> store_op list \<Rightarrow> fstore \<Rightarrow> bool" where
  "ops_ok hw [] fs = True"
| "ops_ok hw (op # ops) fs = (op_ok fs op \<and> ops_ok hw ops (run_op hw op fs))"

lemma run_op_ok:
  assumes "fs_ok H C live fs" "op_ok fs op"
  shows "fs_ok H C live (run_op hw op fs)"
proof (cases op)
  case Allocate
  then show ?thesis
    using allocate_from_list [OF assms(1), of hw] allocate_by_growing [OF assms(1), of hw] assms(2)
    by (cases "free_list_head (fs_header fs) = 0") auto
next
  case (Read i)
  then show ?thesis using fs_read_page_ok [OF assms(1), of i _ hw] assms(2) by fastforce
next
  case (TryRead i)
  show ?thesis
  proof (cases "page_count (fs_header fs) \<le> i")
    case False
    then obtain b where v: "fs_view fs i = Some b" using assms(2) TryRead by auto
    then have "cur_page fs i = Some b" "0 < i" "i < page_count (fs_header fs)" by (auto simp: fs_view_def split: if_splits)
    from read_current_ok [OF assms(1) this, of hw] show ?thesis using TryRead False by (auto simp: fs_try_read_page_def)
  qed (use TryRead assms(1) in \<open>simp add: fs_try_read_page_def\<close>)
next
  case (Write i p)
  then show ?thesis using fs_write_page_ok [OF assms(1), of i p hw] assms(2) by fastforce
next
  case (Change i sp f)
  then obtain sp' where "f sp = Inr sp'" "length (raw sp') = USABLE_PAGE_SIZE" "fs_view fs i \<noteq> None"
    using assms(2) by (auto split: sum.splits)
  then show ?thesis using fs_change_page_ok [OF assms(1), of i f sp sp' hw] Change by fastforce
next
  case (Free i)
  then show ?thesis using fs_free_page_ok [OF assms(1), of i hw] assms(2) by fastforce
qed

lemma run_ops_ok: "fs_ok H C live fs \<Longrightarrow> ops_ok hw ops fs \<Longrightarrow> fs_ok H C live (fold (run_op hw) ops fs)"
  by (induction ops arbitrary: fs) (auto simp: run_op_ok)

lemma commit_publishes:
  assumes ok: "fs_ok H C live fs" and C: "0 < C (mseq (fs_memory fs))"
  shows "\<exists>fs' H' C'. commit_beside live fs = (Inr (), fs') \<and> mem_ok (fs_file fs') (fs_memory fs') H' C' live
    \<and> mseq (fs_memory fs') = mseq (fs_memory fs) + 1 \<and> fs_header fs' = fs_header fs
    \<and> C' (mseq (fs_memory fs) + 1) = page_count (fs_header fs)
    \<and> (\<forall>i < page_count (fs_header fs). cur_page fs i = Some (H' (mseq (fs_memory fs) + 1) i))
    \<and> (\<forall>s \<le> mseq (fs_memory fs). H' s = H s \<and> C' s = C s)"
proof -
  note f = fs_okD [OF ok]
  let ?m = "fs_memory fs" and ?n = "page_count (fs_header fs)"
  obtain st where st0: "staged fs = Some st" using batch_okD [OF f(2)] by metis
  note st = batch_ok_staged [OF f(2) st0]
  let ?fs' = "fs\<lparr>staged := None, fs_memory := pages_commit (dirty st) (before st) live ?m\<rparr>"
  have run: "commit_beside live fs = (Inr (), ?fs')" using st0 st(2,3) by (simp add: commit_beside_def)
  have d1: "\<forall>i. bm_get (dirty st) i \<noteq> None \<longrightarrow> i < ?n" using st(6) by auto
  have d2: "\<forall>i. C (mseq ?m) \<le> i \<and> i < ?n \<longrightarrow> bm_get (dirty st) i \<noteq> None" using st(7) C by (metis gr0I less_le_trans not_less)
  let ?H' = "H(mseq ?m + 1 := (\<lambda>i. case bm_get (dirty st) i of None \<Rightarrow> H (mseq ?m) i | Some p \<Rightarrow> page_bytes p))"
  let ?C' = "C(mseq ?m + 1 := ?n)"
  note c = mem_ok_commit [OF st(1,5) d1 d2 st(4,8)]
  have "cur_page fs i = Some (?H' (mseq ?m + 1) i)" if "i < ?n" for i
  proof (cases "bm_get (dirty st) i")
    case None
    then have "i < C (mseq ?m)" using d2 that by (meson not_less)
    then show ?thesis using None newest_eq [OF st(1)] st0 by (simp add: cur_page_def)
  qed (use st0 in \<open>simp add: cur_page_def\<close>)
  then show ?thesis using run c(1,4)
    by (intro exI [of _ ?fs'] exI [of _ ?H'] exI [of _ ?C']) auto
qed

subsection \<open>A file with nothing but its header\<close>

definition header_file :: bytes where
  "header_file = write_all_at [] (header_encode header_fresh @ checksum False 0 (header_encode header_fresh)) (0 * PAGE_SIZE)"

definition opened_store :: fstore where
  "opened_store = \<lparr>fs_file = header_file, fs_memory = memory_new (DEFAULT_CACHE_SIZE div PAGE_SIZE), fs_header = header_fresh,
     header_checked = False, header_error = None, staged = None, read_only = False\<rparr>"

abbreviation opened_system :: system where
  "opened_system \<equiv> fresh_system header_file 1 (DEFAULT_CACHE_SIZE div PAGE_SIZE)"

lemma header_fresh_ok: "header_ok header_fresh"
  by (simp add: header_ok_def header_fresh_def MAX_PAGES_def PAGE_SIZE_def NO_FREE_PAGE_def)

lemma header_file_page: "disk_page header_file 0 = Some (header_encode header_fresh)"
proof -
  have "write_page_at False [] 0 (header_encode header_fresh) = Inr header_file"
    by (simp add: write_page_at_def header_file_def header_encode_def)
  from write_page_at_reads(1) [OF this] show ?thesis .
qed

lemma opened_system_ok: "sys_inv opened_system" "books_ok opened_system" "\<forall>i < 1. disk_page header_file i \<noteq> None"
proof -
  show d: "\<forall>i < 1. disk_page header_file i \<noteq> None" using header_file_page by simp
  show "sys_inv opened_system" by (rule sys_inv_fresh [OF d])
  show "books_ok opened_system" by (rule books_ok_reachable [OF d reachable.start])
qed

lemma opened_store_of: "store_of opened_system opened_store"
proof -
  have "free_chain (cur_page opened_store) (page_count (fs_header opened_store)) (free_list_head (fs_header opened_store)) []"
    by (simp add: opened_store_def header_fresh_def NO_FREE_PAGE_def)
  moreover from this have "free_ids opened_store = []" by (rule free_ids_eq)
  ultimately show ?thesis
    using header_fresh_ok by (simp add: store_of_def opened_store_def fresh_system_def header_fresh_def memory_new_def)
qed

text \<open>The store with its first batch begun.\<close>

definition begun_store :: fstore where
  "begun_store = snd (fs_begin opened_store)"

lemma begun_store_ok:
  "fs_begin opened_store = (Inr (), begun_store)"
  "fs_ok (hist opened_system) (pcount opened_system) (open_at opened_system) begun_store" "0 < fs_room begun_store"
proof -
  obtain fs' where f: "fs_begin opened_store = (Inr (), fs')"
    "fs_ok (hist opened_system) (pcount opened_system) (open_at opened_system) fs'"
    by (rule fs_begin_ok [OF opened_store_of opened_system_ok(1,2)])
  have b: "begun_store = fs'" using f(1) by (simp add: begun_store_def)
  show "fs_begin opened_store = (Inr (), begun_store)"
    "fs_ok (hist opened_system) (pcount opened_system) (open_at opened_system) begun_store" using f b by simp_all
  have "fs_header begun_store = header_fresh" by (simp add: begun_store_def fs_begin_def opened_store_def)
  then show "0 < fs_room begun_store" by (simp add: fs_room_def header_fresh_def MAX_PAGES_def PAGE_SIZE_def)
qed

subsection \<open>Properties\<close>

text \<open>
  C29. A header written to the file is what an open finds there: a file whose page 0 holds the
  encoding of a valid header, stamped with any format this build reads and any release, opens,
  its checksum passes, and page count, free list and releases are those of the header.
\<close>

theorem header_reopens:
  assumes "header_ok h" "v = FORMAT_VERSION \<or> v \<in> set COMPATIBLE_OLDER_FORMATS"
    and "write_page_at hw file HEADER_PAGE (encode_as h v wb) = Inr file'"
  shows "\<exists>fs fs'. from_file file' lock True = Inr fs \<and> fs_header fs = h\<lparr>format_version := v, written_by := wb\<rparr>
    \<and> check_header hw' fs = (Inr (), fs') \<and> fs_header fs' = fs_header fs
    \<and> read_header hw' file' = Inr (h\<lparr>format_version := v, written_by := wb\<rparr>)"
proof -
  note w = write_page_at_reads(1,4) [OF assms(3)]
  have d: "disk_page file' 0 = Some (encode_as h v wb)" "PAGE_SIZE \<le> length file'" using w by (simp_all add: HEADER_PAGE_def)
  then obtain disk where disk: "read_disk_page file' 0 = Inr disk" "take USABLE_PAGE_SIZE disk = encode_as h v wb"
    "checksum_matches False 0 disk"
    by (auto simp: disk_page_cases read_disk_page_def read_exact_at_def)
  have cs: "checksum_matches hw' 0 disk" using disk(3) by (simp add: checksum_matches_def checksum_hw [of hw'])
  note dec = header_decode_encode [OF assms(1,2), of wb]
  show ?thesis using d(2) disk(1,2) dec cs
    by (simp add: from_file_def Let_def HEADER_PAGE_def check_header_def read_header_def)
qed

theorem header_reopens_witness:
  "\<exists>fs. from_file header_file Exclusive True = Inr fs \<and> fs_header fs = header_fresh"
proof -
  have "write_page_at False [] HEADER_PAGE (encode_as header_fresh FORMAT_VERSION RELEASE) = Inr header_file"
    by (simp add: write_page_at_def header_file_def header_encode_def HEADER_PAGE_def)
  from header_reopens [OF header_fresh_ok _ this, of Exclusive False] show ?thesis
    by (auto simp: header_fresh_def)
qed

text \<open>
  C30. During a batch, a page handed out is one nobody uses: neither the header, nor a page in
  use, and no page in use changes. A page freed is gone from the pages in use, and is the one
  the next allocation hands out.
\<close>

theorem allocate_and_free:
  assumes "fs_sound fs"
  shows "(0 < fs_room fs \<longrightarrow> (\<exists>i b fs'. fs_allocate_page hw fs = (Inr i, fs') \<and> 0 < i \<and> fs_view fs i = None
      \<and> fs_view fs' = (fs_view fs)(i \<mapsto> b) \<and> fs_sound fs'))
    \<and> (\<forall>i. fs_view fs i \<noteq> None \<longrightarrow> (\<exists>fs1 fs2 b. fs_free_page hw i fs = (Inr (), fs1) \<and> fs_view fs1 = (fs_view fs)(i := None)
      \<and> fs_allocate_page hw fs1 = (Inr i, fs2) \<and> fs_view fs2 = (fs_view fs)(i \<mapsto> b) \<and> fs_sound fs2))"
proof -
  obtain H C live where ok: "fs_ok H C live fs" using assms by (auto simp: fs_sound_def)
  have "\<exists>i b fs'. fs_allocate_page hw fs = (Inr i, fs') \<and> 0 < i \<and> fs_view fs i = None \<and> fs_view fs' = (fs_view fs)(i \<mapsto> b) \<and> fs_sound fs'"
    if room: "0 < fs_room fs"
  proof -
    obtain i b fs' where a: "fs_allocate_page hw fs = (Inr i, fs')" "fs_view fs i = None" "fs_sound fs'" "fs_view fs' = (fs_view fs)(i \<mapsto> b)"
      using file_pages.allocate_law [OF assms room, of hw] by (auto simp: file_store_def)
    have "0 < i" using file_pages.view_page [OF a(3), of i b] a(4) by simp
    then show ?thesis using a by blast
  qed
  moreover have "\<exists>fs1 fs2 b. fs_free_page hw i fs = (Inr (), fs1) \<and> fs_view fs1 = (fs_view fs)(i := None)
      \<and> fs_allocate_page hw fs1 = (Inr i, fs2) \<and> fs_view fs2 = (fs_view fs)(i \<mapsto> b) \<and> fs_sound fs2" if v: "fs_view fs i \<noteq> None" for i
  proof -
    obtain fs1 where f: "fs_free_page hw i fs = (Inr (), fs1)" "fs_ok H C live fs1" "fs_view fs1 = (fs_view fs)(i := None)"
      "free_list_head (fs_header fs1) = i" using fs_free_page_ok [OF ok v, of hw] by blast
    have "i \<noteq> 0" using v by (auto simp: fs_view_def split: if_splits)
    then show ?thesis using allocate_from_list [OF f(2), of hw] f by auto
  qed
  ultimately show ?thesis by blast
qed

theorem allocate_and_free_witness:
  "\<exists>i b fs' fs1 fs2. fs_allocate_page False begun_store = (Inr i, fs') \<and> fs_view fs' i = Some b
    \<and> fs_free_page False i fs' = (Inr (), fs1) \<and> fs_allocate_page False fs1 = (Inr i, fs2)"
proof -
  have s: "fs_sound begun_store" using begun_store_ok(2) by blast
  obtain i b fs' where a: "fs_allocate_page False begun_store = (Inr i, fs')" "fs_view fs' = (fs_view begun_store)(i \<mapsto> b)" "fs_sound fs'"
    using allocate_and_free [OF s, of False] begun_store_ok(3) by blast
  have v: "fs_view fs' i \<noteq> None" "fs_view fs' i = Some b" using a(2) by simp_all
  from allocate_and_free [OF a(3), of False] v(1) show ?thesis using a(1) v(2) by blast
qed

text \<open>
  A cache filled while a batch was open holds, beside what it held, only pages as the file has
  them, so the memory stays correct with it and every committed page is still read.
\<close>

lemma mem_ok_filled:
  assumes "mem_ok file m H C live" "filled file m c"
  shows "mem_ok file (m\<lparr>mcache := c\<rparr>) H C live"
proof -
  note ok = mem_ok_parts [OF assms(1)]
  have "cache_ok file (m\<lparr>mcache := c\<rparr>)" using ok(7) assms(2) by (auto simp: cache_ok_def filled_def waits_def)
  moreover have "vers_ok file (m\<lparr>mcache := c\<rparr>) H C live i" for i
    using ok(6) [of i] by (auto simp: vers_ok_def base_page_def readable_def split: option.splits)
  ultimately show ?thesis using assms(1) by (auto simp: mem_ok_def waits_def readable_def)
qed

lemma filled_reads:
  assumes "mem_ok file m H C live" "filled file m c" "s \<in> readable m live" "i < C s"
  shows "\<exists>m' p. read_at hw file i s (m\<lparr>mcache := c\<rparr>) = (m', Inr p) \<and> page_bytes p = H s i"
proof -
  let ?st = "\<lparr>sfile = file, smem = m\<lparr>mcache := c\<rparr>, hist = H, pcount = C, open_at = live, ckpt = None, readers = []\<rparr>"
  have "sys_inv ?st" using mem_ok_filled [OF assms(1,2)] by (simp add: sys_inv_def)
  from read_at_reads [OF this, of s i hw] show ?thesis using assms(3,4) by (simp add: readable_def)
qed

text \<open>
  C31. A batch rolled back is as if it had never been: whatever the batch did - allocations,
  writes, pages freed, operations that failed - the store after \<open>rollback\<close> is the store before
  \<open>begin\<close>, the file not touched, but for the cache of committed pages. That cache keeps its
  invariant, and each page it hands out is one it held before or the page as the file has it, never
  one the batch wrote. So with the store over a reachable system, every page of every commit a
  reader may still ask for is read, through the cache left by the batch, as that commit left it.
\<close>

theorem rollback_undoes_batch:
  assumes "fs_begin fs = (Inr (), fs1)" "fs2 = fold (run_op hw) ops fs1"
  shows "\<exists>c. rollback fs2 = (Inr (), fs\<lparr>fs_memory := (fs_memory fs)\<lparr>mcache := c\<rparr>\<rparr>)
    \<and> (cache_inv (mcache (fs_memory fs)) \<longrightarrow> cache_inv c
      \<and> (\<forall>i p. snd (cache_get c i) = Some p \<longrightarrow> snd (cache_get (mcache (fs_memory fs)) i) = Some p
            \<or> disk_page (fs_file fs) i = Some (page_bytes p)))
    \<and> (\<forall>file n k st hw' s i. (\<forall>i < n. disk_page file i \<noteq> None) \<and> reachable (fresh_system file n k) st \<and> store_of st fs
        \<and> s \<in> readable (fs_memory fs) (open_at st) \<and> i < pcount st s \<longrightarrow>
          (\<exists>m p. read_at hw' (fs_file fs) i s ((fs_memory fs)\<lparr>mcache := c\<rparr>) = (m, Inr p) \<and> page_bytes p = hist st s i))"
proof -
  define st where "st = \<lparr>header_before = fs_header fs, dirty = [], before = [], replaces_all = False, st_replacement = None\<rparr>"
  have s: "staged fs = None" "staged fs1 = Some st" "header_before st = fs_header fs" "fs1 = fs\<lparr>staged := Some st\<rparr>"
    using assms(1) by (auto simp: fs_begin_def st_def split: if_splits)
  obtain st2 c where f: "staged fs2 = Some st2" "header_before st2 = fs_header fs" "filled (fs_file fs1) (fs_memory fs1) c"
    "fs1\<lparr>staged := None, fs_header := fs_header fs, fs_memory := (fs_memory fs1)\<lparr>mcache := c\<rparr>\<rparr>
      = fs2\<lparr>staged := None, fs_header := fs_header fs\<rparr>"
    using run_ops_frame [OF s(2), of hw ops] assms(2) s(2,3) by (auto simp: framed_def)
  have fil: "filled (fs_file fs) (fs_memory fs) c" using f(3) s(4) by simp
  have "rollback fs2 = (Inr (), fs2\<lparr>staged := None, fs_header := fs_header fs\<rparr>)" using f(1,2) by (simp add: rollback_def)
  moreover have "fs1\<lparr>staged := None, fs_header := fs_header fs, fs_memory := (fs_memory fs1)\<lparr>mcache := c\<rparr>\<rparr>
      = fs\<lparr>fs_memory := (fs_memory fs)\<lparr>mcache := c\<rparr>\<rparr>" using s(1,4) by (cases fs) simp
  ultimately have r: "rollback fs2 = (Inr (), fs\<lparr>fs_memory := (fs_memory fs)\<lparr>mcache := c\<rparr>\<rparr>)" using f(4) by auto
  have "cache_inv c \<and> (\<forall>i p. snd (cache_get c i) = Some p \<longrightarrow> snd (cache_get (mcache (fs_memory fs)) i) = Some p
        \<or> disk_page (fs_file fs) i = Some (page_bytes p))" if v: "cache_inv (mcache (fs_memory fs))"
  proof -
    have "cache_inv c" using fil v by (simp add: filled_def)
    then show ?thesis using fil v cache_get_ok(1) [of c] cache_get_ok(1) [OF v] by (auto simp: filled_def)
  qed
  moreover have "\<exists>m p. read_at hw' (fs_file fs) i s ((fs_memory fs)\<lparr>mcache := c\<rparr>) = (m, Inr p) \<and> page_bytes p = hist st s i"
    if a: "(\<forall>i < n. disk_page f0 i \<noteq> None) \<and> reachable (fresh_system f0 n k) st \<and> store_of st fs
        \<and> s \<in> readable (fs_memory fs) (open_at st) \<and> i < pcount st s" for f0 n k st hw' s i
  proof -
    have "sys_inv st" using sys_inv_reachable [of n f0 k st] a by blast
    then have "mem_ok (fs_file fs) (fs_memory fs) (hist st) (pcount st) (open_at st)"
      using a by (simp add: sys_inv_def store_of_def)
    then show ?thesis using filled_reads [OF _ fil] a by blast
  qed
  ultimately show ?thesis using r by blast
qed

theorem rollback_undoes_batch_witness:
  "\<exists>c m p. rollback (fold (run_op True) [Allocate, Allocate, Free 1, Free 7] begun_store)
      = (Inr (), opened_store\<lparr>fs_memory := (fs_memory opened_store)\<lparr>mcache := c\<rparr>\<rparr>)
    \<and> cache_inv c \<and> read_at False header_file 0 0 ((fs_memory opened_store)\<lparr>mcache := c\<rparr>) = (m, Inr p)
    \<and> page_bytes p = hist opened_system 0 0"
proof -
  obtain c where c: "rollback (fold (run_op True) [Allocate, Allocate, Free 1, Free 7] begun_store)
      = (Inr (), opened_store\<lparr>fs_memory := (fs_memory opened_store)\<lparr>mcache := c\<rparr>\<rparr>)"
    "cache_inv (mcache (fs_memory opened_store)) \<longrightarrow> cache_inv c"
    "\<forall>file n k st hw' s i. (\<forall>i < n. disk_page file i \<noteq> None) \<and> reachable (fresh_system file n k) st \<and> store_of st opened_store
        \<and> s \<in> readable (fs_memory opened_store) (open_at st) \<and> i < pcount st s \<longrightarrow>
          (\<exists>m p. read_at hw' (fs_file opened_store) i s ((fs_memory opened_store)\<lparr>mcache := c\<rparr>) = (m, Inr p) \<and> page_bytes p = hist st s i)"
    using rollback_undoes_batch [OF begun_store_ok(1) refl, of True "[Allocate, Allocate, Free 1, Free 7]"] by blast
  have inv: "cache_inv (mcache (fs_memory opened_store))"
    using opened_system_ok(1) opened_store_of mem_ok_parts(7) by (auto simp: sys_inv_def store_of_def cache_ok_def)
  have "0 \<in> readable (fs_memory opened_store) (open_at opened_system) \<and> 0 < pcount opened_system 0"
    by (simp add: opened_store_def fresh_system_def readable_def memory_new_def)
  then obtain m p where "read_at False (fs_file opened_store) 0 0 ((fs_memory opened_store)\<lparr>mcache := c\<rparr>) = (m, Inr p)"
    "page_bytes p = hist opened_system 0 0"
    using c(3) opened_system_ok(3) reachable.start [of opened_system] opened_store_of by blast
  moreover have "fs_file opened_store = header_file" by (simp add: opened_store_def)
  ultimately show ?thesis using c(1,2) inv by auto
qed

text \<open>
  C32. What a batch commits is what it saw: after the commit, a read of the newest commit gives
  every page as the batch had it, the header included, and a reader of an earlier commit, through
  a snapshot open across it, still gets every page as that commit left it.
\<close>

theorem batch_commit_publishes:
  assumes "\<forall>i < n. disk_page file i \<noteq> None" "reachable (fresh_system file n k) st" "store_of st fs"
    and "fs_begin fs = (Inr (), fs1)" "ops_ok hw ops fs1" "fs2 = fold (run_op hw) ops fs1"
  shows "\<exists>fs3. commit_beside (open_at st) fs2 = (Inr (), fs3)
    \<and> (\<forall>i < page_count (fs_header fs3). \<exists>m p. read_at hw' (fs_file fs3) i (mseq (fs_memory fs3)) (fs_memory fs3) = (m, Inr p)
        \<and> cur_page fs2 i = Some (page_bytes p))
    \<and> (\<forall>s i. s \<in> readable (fs_memory fs3) (open_at st) \<and> s \<le> mseq (smem st) \<and> i < pcount st s \<longrightarrow>
        (\<exists>m p. read_at hw' (fs_file fs3) i s (fs_memory fs3) = (m, Inr p) \<and> page_bytes p = hist st s i))"
proof -
  note inv = sys_inv_reachable [OF assms(1,2)] books_ok_reachable [OF assms(1,2)]
  obtain fs0 where b: "fs_begin fs = (Inr (), fs0)" "fs_ok (hist st) (pcount st) (open_at st) fs0" "fs_memory fs0 = smem st"
    by (rule fs_begin_ok [OF assms(3) inv])
  have b1: "fs1 = fs0" using b(1) assms(4) by simp
  have ok: "fs_ok (hist st) (pcount st) (open_at st) fs2" using run_ops_ok [OF b(2)] assms(5,6) b1 by simp
  obtain st0 where "staged fs1 = Some st0" using assms(4) by (auto simp: fs_begin_def split: if_splits)
  from run_ops_frame [OF this, of hw ops] obtain c where "fs_memory fs2 = (fs_memory fs1)\<lparr>mcache := c\<rparr>"
    using assms(6) by (auto simp: framed_def) (metis fstore.select_convs(2) fstore.surjective fstore.update_convs(2,3,6))
  then have ms: "mseq (fs_memory fs2) = mseq (smem st)" using b(3) b1 by simp
  have C: "0 < pcount st (mseq (fs_memory fs2))" using assms(3) ms by (auto simp: store_of_def header_ok_def)
  obtain fs3 H' C' where c: "commit_beside (open_at st) fs2 = (Inr (), fs3)" "mem_ok (fs_file fs3) (fs_memory fs3) H' C' (open_at st)"
    "mseq (fs_memory fs3) = mseq (smem st) + 1" "fs_header fs3 = fs_header fs2" "C' (mseq (smem st) + 1) = page_count (fs_header fs2)"
    "\<forall>i < page_count (fs_header fs2). cur_page fs2 i = Some (H' (mseq (smem st) + 1) i)"
    "\<forall>s \<le> mseq (smem st). H' s = hist st s \<and> C' s = pcount st s"
    using commit_publishes [OF ok C] ms by auto
  let ?st = "\<lparr>sfile = fs_file fs3, smem = fs_memory fs3, hist = H', pcount = C', open_at = open_at st, ckpt = None, readers = []\<rparr>"
  have si: "sys_inv ?st" using c(2) by (simp add: sys_inv_def)
  have r: "\<exists>m p. read_at hw' (fs_file fs3) i s (fs_memory fs3) = (m, Inr p) \<and> page_bytes p = H' s i"
    if "s \<in> readable (fs_memory fs3) (open_at st)" "i < C' s" for s i
    using read_at_reads [OF si, of s i hw'] that by simp
  have new: "\<exists>m p. read_at hw' (fs_file fs3) i (mseq (fs_memory fs3)) (fs_memory fs3) = (m, Inr p) \<and> cur_page fs2 i = Some (page_bytes p)"
    if "i < page_count (fs_header fs3)" for i
    using r [OF mseq_readable, of i] that c(3-6) by auto
  have old: "\<exists>m p. read_at hw' (fs_file fs3) i s (fs_memory fs3) = (m, Inr p) \<and> page_bytes p = hist st s i"
    if "s \<in> readable (fs_memory fs3) (open_at st) \<and> s \<le> mseq (smem st) \<and> i < pcount st s" for s i
    using r [of s i] that c(7) by auto
  show ?thesis using c(1) new old by blast
qed

theorem batch_commit_publishes_witness:
  "\<exists>fs3 m p. commit_beside [] (run_op False Allocate begun_store) = (Inr (), fs3)
    \<and> read_at True (fs_file fs3) 0 (mseq (fs_memory fs3)) (fs_memory fs3) = (m, Inr p)
    \<and> cur_page (run_op False Allocate begun_store) 0 = Some (page_bytes p)"
proof -
  have o: "ops_ok False [Allocate] begun_store" using begun_store_ok(3) by simp
  have e: "open_at opened_system = []" by (simp add: fresh_system_def)
  from batch_commit_publishes [OF opened_system_ok(3) reachable.start opened_store_of begun_store_ok(1) o refl, of True]
  obtain fs3 where f: "commit_beside [] (run_op False Allocate begun_store) = (Inr (), fs3)"
    "\<forall>i < page_count (fs_header fs3). \<exists>m p. read_at True (fs_file fs3) i (mseq (fs_memory fs3)) (fs_memory fs3) = (m, Inr p)
        \<and> cur_page (run_op False Allocate begun_store) i = Some (page_bytes p)"
    unfolding e by auto
  have "fs_sound (run_op False Allocate begun_store)"
    using run_ops_ok [OF begun_store_ok(2) o] by auto
  then have "0 < page_count (fs_header (run_op False Allocate begun_store))" by (auto simp: fs_sound_def fs_ok_def header_ok_def)
  moreover have "fs_header fs3 = fs_header (run_op False Allocate begun_store)"
    using f(1) by (auto simp: commit_beside_def split: option.splits)
  ultimately show ?thesis using f by auto
qed

end
