(* ===== verification/Node.thy ===== *)
theory Node
  imports Key Slotted
begin

text \<open>
  A page of the B-tree (\<open>src/src/index/leaf.rs\<close>, \<open>branch.rs\<close> and the functions of
  \<open>btree.rs\<close> that look at or build one page). A leaf's cells are keys with locations, its next
  page the leaf to its right; a branch's cells are separators with the child below each, its next
  page the child past the last separator. Cells are in key order; between them there may be
  tombstones.

  \<open>node_page\<close> says which cells a page holds. The lemmas give, for such a page, what the binary
  search finds, what a cell put in or taken out makes of it, when a page can be built, and that
  both halves of a split page can.
\<close>

subsection \<open>Entries\<close>

record location =
  loc_page :: nat
  loc_slot :: nat

definition encode_index_entry :: "bytes \<Rightarrow> location \<Rightarrow> bytes" where
  "encode_index_entry key location = key @ le_bytes 8 (loc_page location) @ le_bytes 2 (loc_slot location)"

definition decode_index_entry :: "bytes \<Rightarrow> (bytes \<times> location) res" where
  "decode_index_entry bs =
     (if length bs < 10 then Inl Panic
      else let at = length bs - 10
        in Inr (take at bs, \<lparr>loc_page = u_at 8 bs at, loc_slot = u_at 2 bs (at + 8)\<rparr>))"

definition encode_branch_entry :: "bytes \<Rightarrow> nat \<Rightarrow> bytes" where
  "encode_branch_entry key child = key @ le_bytes 8 child"

definition decode_branch_entry :: "bytes \<Rightarrow> (bytes \<times> nat) res" where
  "decode_branch_entry bs =
     (if length bs < 8 then Inl Panic
      else let at = length bs - 8 in Inr (take at bs, u_at 8 bs at))"

subsection \<open>Reading a node, and searching it\<close>

text \<open>\<open>page_type().expect(...)\<close>.\<close>

definition node_type :: "slotted \<Rightarrow> page_type res" where
  "node_type sp = (case from_u8 (raw sp ! 0) of Inl _ \<Rightarrow> Inl Panic | Inr t \<Rightarrow> Inr t)"

text \<open>\<open>(mid..hi).find_map(...)\<close>: the first live slot of a stretch of the directory.\<close>

fun first_live :: "slotted \<Rightarrow> nat list \<Rightarrow> (nat \<times> bytes) option res" where
  "first_live sp [] = Inr None"
| "first_live sp (slot # rest) =
     bindR (get_cell sp slot) (\<lambda>c. case c of None \<Rightarrow> first_live sp rest | Some d \<Rightarrow> Inr (Some (slot, d)))"

lemma first_live_slot:
  "first_live sp ns = Inr (Some (slot, c)) \<Longrightarrow> slot \<in> set ns \<and> get_cell sp slot = Inr (Some c)"
  by (induction ns) (auto simp: bindR_eq_Inr split: option.splits)

function first_slot_loop :: "slotted \<Rightarrow> (bytes \<Rightarrow> bool res) \<Rightarrow> nat \<Rightarrow> nat \<Rightarrow> nat option \<Rightarrow> nat option res" where
  "first_slot_loop sp meets lo hi found =
     (if \<not> lo < hi then Inr found
      else let mid = lo + (hi - lo) div 2 in
        bindR (first_live sp [mid..<hi]) (\<lambda>r.
          case r of
            None \<Rightarrow> first_slot_loop sp meets lo mid found
          | Some (slot, d) \<Rightarrow>
              bindR (meets d) (\<lambda>m.
                if m then first_slot_loop sp meets lo mid (Some slot)
                else first_slot_loop sp meets (slot + 1) hi found)))"
  by pat_completeness auto
termination
  by (relation "measure (\<lambda>(sp, meets, lo, hi, found). hi - lo)") (auto dest!: first_live_slot)

declare first_slot_loop.simps [simp del]

definition first_slot_where :: "slotted \<Rightarrow> (bytes \<Rightarrow> bool res) \<Rightarrow> nat option res" where
  "first_slot_where sp meets = first_slot_loop sp meets 0 (slot_count sp) None"

text \<open>A cell that the code knows to be there (\<open>expect("a live slot")\<close>).\<close>

definition live_cell :: "slotted \<Rightarrow> nat \<Rightarrow> bytes res" where
  "live_cell sp slot = bindR (get_cell sp slot) (\<lambda>c. case c of None \<Rightarrow> Inl Panic | Some d \<Rightarrow> Inr d)"

definition key_from :: "bytes \<Rightarrow> bytes \<Rightarrow> bool res" where
  "key_from key d = bindR (decode_index_entry d) (\<lambda>(k, _). Inr (key \<le> k))"

definition separator_above :: "bytes \<Rightarrow> bytes \<Rightarrow> bool res" where
  "separator_above key d = bindR (decode_branch_entry d) (\<lambda>(k, _). Inr (key < k))"

definition slot_of :: "slotted \<Rightarrow> bytes \<Rightarrow> nat option res" where
  "slot_of sp key =
     bindR (first_slot_where sp (key_from key)) (\<lambda>r.
       case r of
         None \<Rightarrow> Inr None
       | Some slot \<Rightarrow> bindR (live_cell sp slot) (\<lambda>c. bindR (decode_index_entry c) (\<lambda>(k, _).
           Inr (if k = key then Some slot else None))))"

definition find_child :: "slotted \<Rightarrow> bytes \<Rightarrow> nat res" where
  "find_child sp target =
     bindR (first_slot_where sp (separator_above target)) (\<lambda>r.
       case r of
         Some slot \<Rightarrow> bindR (live_cell sp slot) (\<lambda>c. bindR (decode_branch_entry c) (\<lambda>(_, child). Inr child))
       | None \<Rightarrow> Inr (next_page sp))"

definition index_entries :: "slotted \<Rightarrow> (bytes \<times> location) list res" where
  "index_entries sp = bindR (iter_cells sp) (mapR (\<lambda>(_, c). decode_index_entry c))"

definition branch_entries :: "slotted \<Rightarrow> (bytes \<times> nat) list res" where
  "branch_entries sp = bindR (iter_cells sp) (mapR (\<lambda>(_, c). decode_branch_entry c))"

text \<open>Which child of a branch a key goes to, and the slot that routes it there.\<close>

definition route :: "slotted \<Rightarrow> bytes \<Rightarrow> (nat option \<times> nat) res" where
  "route sp key =
     bindR (first_slot_where sp (separator_above key)) (\<lambda>r.
       case r of
         Some slot \<Rightarrow> bindR (live_cell sp slot) (\<lambda>c. bindR (decode_branch_entry c) (\<lambda>(_, child). Inr (Some slot, child)))
       | None \<Rightarrow> Inr (None, next_page sp))"

subsection \<open>Building pages\<close>

text \<open>\<open>page.insert_cell(...)?\<close>: \<open>None\<close> at the first cell that does not fit.\<close>

fun push_cells :: "slotted \<Rightarrow> bytes list \<Rightarrow> slotted option res" where
  "push_cells sp [] = Inr (Some sp)"
| "push_cells sp (c # cs) =
     bindR (insert_cell sp c) (\<lambda>(sp, slot). case slot of None \<Rightarrow> Inr None | Some _ \<Rightarrow> push_cells sp cs)"

definition build_leaf_page :: "(bytes \<times> location) list \<Rightarrow> nat \<Rightarrow> slotted option res" where
  "build_leaf_page entries nxt =
     bindR (set_next_page (slotted_new PIndexLeaf) nxt) (\<lambda>sp.
       push_cells sp (map (\<lambda>(k, l). encode_index_entry k l) entries))"

definition build_branch_page :: "(bytes \<times> nat) list \<Rightarrow> nat \<Rightarrow> slotted option res" where
  "build_branch_page entries rightmost =
     bindR (set_next_page (slotted_new PIndexBranch) rightmost) (\<lambda>sp.
       push_cells sp (map (\<lambda>(k, c). encode_branch_entry k c) entries))"

definition expect :: "'a option res \<Rightarrow> 'a res" where
  "expect r = bindR r (\<lambda>x. case x of None \<Rightarrow> Inl Panic | Some y \<Rightarrow> Inr y)"

text \<open>\<open>byte_midpoint\<close>: its loop, with the entries passed and the running total.\<close>

fun midpoint_loop :: "nat list \<Rightarrow> nat \<Rightarrow> nat \<Rightarrow> nat \<Rightarrow> nat res" where
  "midpoint_loop [] whole i running = Inl Panic"
| "midpoint_loop (n # sizes) whole i running =
     (if (running + n) * 2 \<ge> whole then Inr (i + 1) else midpoint_loop sizes whole (i + 1) (running + n))"

definition byte_midpoint :: "nat list \<Rightarrow> nat res" where
  "byte_midpoint sizes = midpoint_loop sizes (sum_list sizes) 0 0"


subsection \<open>Entries come back\<close>

definition loc_ok :: "location \<Rightarrow> bool" where
  "loc_ok l \<longleftrightarrow> loc_page l < 2 ^ 64 \<and> loc_slot l < 2 ^ 16"

abbreviation index_cell :: "bytes \<times> location \<Rightarrow> bytes" where
  "index_cell \<equiv> \<lambda>(k, l). encode_index_entry k l"

abbreviation branch_cell :: "bytes \<times> nat \<Rightarrow> bytes" where
  "branch_cell \<equiv> \<lambda>(k, c). encode_branch_entry k c"

lemma length_entries [simp, len_simps]:
  "length (encode_index_entry k l) = length k + 10" "length (encode_branch_entry k c) = length k + 8"
  by (simp_all add: encode_index_entry_def encode_branch_entry_def)

lemma entries_not_Nil [simp]: "encode_index_entry k l \<noteq> []" "encode_branch_entry k c \<noteq> []"
  by (simp_all flip: length_0_conv)

lemma decode_encode_index [simp]: "loc_ok l \<Longrightarrow> decode_index_entry (encode_index_entry k l) = Inr (k, l)"
  by (simp add: decode_index_entry_def encode_index_entry_def loc_ok_def u_at_def slice_def Let_def)

lemma decode_encode_branch [simp]: "c < 2 ^ 64 \<Longrightarrow> decode_branch_entry (encode_branch_entry k c) = Inr (k, c)"
  by (simp add: decode_branch_entry_def encode_branch_entry_def u_at_def slice_def Let_def)

subsection \<open>The cells of a node\<close>

text \<open>The live cells of a directory, in slot order.\<close>

definition live_of :: "bytes option list \<Rightarrow> bytes list" where
  "live_of cs = List.map_filter id cs"

lemma live_of_simps [simp]:
  "live_of [] = []" "live_of (None # cs) = live_of cs" "live_of (Some c # cs) = c # live_of cs"
  "live_of (xs @ ys) = live_of xs @ live_of ys"
  by (simp_all add: live_of_def map_filter_def)

lemma set_live_of: "c \<in> set (live_of cs) \<longleftrightarrow> Some c \<in> set cs"
  by (induction cs) (auto simp: live_of_def map_filter_def)

lemma live_of_take_drop: "i < length cs \<Longrightarrow> cs ! i = Some c \<Longrightarrow> live_of cs = live_of (take i cs) @ c # live_of (drop (Suc i) cs)"
  by (metis id_take_nth_drop live_of_simps(3,4))

lemma live_bytes_live: "live_bytes cs = sum_list (map length (live_of cs))"
  by (induction cs) (auto simp: live_bytes_def clen_def live_of_def map_filter_def split: option.splits)

lemma length_live_le: "length (live_of cs) \<le> length cs"
  by (induction cs) (auto simp: live_of_def map_filter_def intro: le_SucI)

text \<open>
  A page of type \<open>t\<close> whose live cells are \<open>cs\<close> and whose next page is \<open>nx\<close>.
\<close>

definition node_page :: "page_type \<Rightarrow> bytes list \<Rightarrow> nat \<Rightarrow> bytes \<Rightarrow> bool" where
  "node_page t cs nx b \<longleftrightarrow> lay b {..<cnt b} \<and> b ! 0 = type_byte t \<and> live_of (cells b) = cs \<and> u_at 8 b 1 = nx
     \<and> (\<forall>c \<in> set cs. min_cell (type_byte t) \<le> length c)"

lemma from_type_byte [simp]: "from_u8 (type_byte t) = Inr t"
  by (cases t) (simp_all add: from_u8_def)

lemma node_page_inv: "node_page t cs nx (raw sp) \<Longrightarrow> is_slotted t \<Longrightarrow> page_inv sp"
proof -
  assume n: "node_page t cs nx (raw sp)" "is_slotted t"
  have "long_enough sp (len (raw sp) i)" if "i < cnt (raw sp)" for i
  proof (cases "len (raw sp) i = 0")
    case False
    then have "cell (raw sp) i = Some (slice (raw sp) (off (raw sp) i) (len (raw sp) i))" by (simp add: cell_def)
    then have "slice (raw sp) (off (raw sp) i) (len (raw sp) i) \<in> set cs"
      using n(1) that by (auto simp: node_page_def set_live_of cells_def image_iff intro!: bexI [of _ i])
    moreover have "off (raw sp) i + len (raw sp) i \<le> length (raw sp)"
      using layD(1,6) [of "raw sp" "{..<cnt (raw sp)}"] n(1) that False by (auto simp: node_page_def)
    ultimately show ?thesis using n(1) by (fastforce simp: node_page_def long_enough_def)
  qed (simp add: long_enough_def)
  then show ?thesis using n by (auto simp: page_inv_def page_ok_def node_page_def slotted_type_def)
qed

lemma node_pageD:
  assumes "node_page t cs nx (raw sp)" "is_slotted t"
  shows "page_inv sp" "length (raw sp) = USABLE_PAGE_SIZE" "live_of (cells (raw sp)) = cs" "next_page sp = nx"
    "node_type sp = Inr t" "slot_count sp = cnt (raw sp)" "nx < 2 ^ 64"
    "c \<in> set cs \<Longrightarrow> min_cell (type_byte t) \<le> length c"
    "13 + 4 * length cs + sum_list (map length cs) \<le> 8188"
proof -
  show i: "page_inv sp" by (rule node_page_inv [OF assms])
  show "length (raw sp) = USABLE_PAGE_SIZE" using page_invD(1) [OF i] by (simp add: page_consts)
  show l: "live_of (cells (raw sp)) = cs" "next_page sp = nx" "node_type sp = Inr t" "slot_count sp = cnt (raw sp)"
    "c \<in> set cs \<Longrightarrow> min_cell (type_byte t) \<le> length c"
    using assms by (auto simp: node_page_def next_page_def node_type_def accessors)
  show "nx < 2 ^ 64" using assms u_at_lt [of 8 "raw sp" 1] by (auto simp: node_page_def)
  show "13 + 4 * length cs + sum_list (map length cs) \<le> 8188"
    using reclaimable_space_inv(2) [OF i] length_live_le [of "cells (raw sp)"] l(1)
    by (simp add: live_bytes_live)
qed

lemma node_pageI:
  assumes "page_inv sp" "raw sp ! 0 = type_byte t" "live_of (cells (raw sp)) = cs" "next_page sp = nx"
    and "\<And>c. c \<in> set cs \<Longrightarrow> min_cell (type_byte t) \<le> length c"
  shows "node_page t cs nx (raw sp)"
  using assms page_inv_lay [OF assms(1)] by (simp add: node_page_def next_page_def)

lemma from_bytes_node:
  assumes "node_page t cs nx (page_bytes p)" "is_slotted t"
  shows "from_bytes p = Inr \<lparr>buf = p, valid = True\<rparr>"
proof -
  have "page_inv \<lparr>buf = p, valid = True\<rparr>" using node_page_inv [of t cs nx "\<lparr>buf = p, valid = True\<rparr>"] assms by simp
  from valid_checks [OF this] show ?thesis by (simp add: from_bytes_def)
qed

subsection \<open>Searching a node\<close>

lemma first_live_spec:
  assumes "page_inv sp" "\<forall>i \<in> set ns. i < cnt (raw sp)" "sorted_wrt (<) ns"
  shows "\<exists>r. first_live sp ns = Inr r \<and> (case r of
      None \<Rightarrow> \<forall>i \<in> set ns. cell (raw sp) i = None
    | Some (i, c) \<Rightarrow> i \<in> set ns \<and> cell (raw sp) i = Some c \<and> (\<forall>j \<in> set ns. j < i \<longrightarrow> cell (raw sp) j = None))"
  using assms(2,3)
proof (induction ns)
  case (Cons i ns)
  show ?case
  proof (cases "cell (raw sp) i")
    case None
    obtain r where r: "first_live sp ns = Inr r" "case r of
        None \<Rightarrow> \<forall>i \<in> set ns. cell (raw sp) i = None
      | Some (i, c) \<Rightarrow> i \<in> set ns \<and> cell (raw sp) i = Some c \<and> (\<forall>j \<in> set ns. j < i \<longrightarrow> cell (raw sp) j = None)"
      using Cons by auto
    then show ?thesis using None Cons.prems by (auto simp: get_cell_inv [OF assms(1)] split: option.splits)
  next
    case (Some c)
    then show ?thesis using Cons.prems by (auto simp: get_cell_inv [OF assms(1)])
  qed
qed simp

lemma first_slot_loop_spec:
  assumes "page_inv sp" "\<And>i c. cell (raw sp) i = Some c \<Longrightarrow> i < cnt (raw sp) \<Longrightarrow> meets c = Inr (P c)"
    and "\<And>i j c d. i < j \<Longrightarrow> j < cnt (raw sp) \<Longrightarrow> cell (raw sp) i = Some c \<Longrightarrow> cell (raw sp) j = Some d \<Longrightarrow> P c \<Longrightarrow> P d"
    and "hi \<le> cnt (raw sp)" "\<And>j c. j < lo \<Longrightarrow> j < cnt (raw sp) \<Longrightarrow> cell (raw sp) j = Some c \<Longrightarrow> \<not> P c"
    and "\<And>j. hi \<le> j \<Longrightarrow> j < (case found of None \<Rightarrow> cnt (raw sp) | Some f \<Rightarrow> f) \<Longrightarrow> cell (raw sp) j = None"
    and "\<And>f. found = Some f \<Longrightarrow> hi \<le> f \<and> f < cnt (raw sp) \<and> (\<exists>c. cell (raw sp) f = Some c \<and> P c)"
  shows "\<exists>r. first_slot_loop sp meets lo hi found = Inr r \<and> (case r of
      None \<Rightarrow> \<forall>i c. i < cnt (raw sp) \<longrightarrow> cell (raw sp) i = Some c \<longrightarrow> \<not> P c
    | Some f \<Rightarrow> f < cnt (raw sp) \<and> (\<exists>c. cell (raw sp) f = Some c \<and> P c)
        \<and> (\<forall>j c. j < f \<longrightarrow> cell (raw sp) j = Some c \<longrightarrow> \<not> P c))"
  using assms(4-)
proof (induction "hi - lo" arbitrary: lo hi found rule: less_induct)
  case less
  show ?case
  proof (cases "lo < hi")
    case False
    have "\<not> P c" if "i < cnt (raw sp)" "cell (raw sp) i = Some c" "found = None" for i c
    proof (cases "i < lo")
      case False
      then show ?thesis using less.prems(3) [of i] that \<open>\<not> lo < hi\<close> by simp
    qed (use less.prems(2) that in blast)
    moreover have "\<not> P c" if "j < f" "cell (raw sp) j = Some c" "found = Some f" for j f c
    proof (cases "j < lo")
      case False
      then show ?thesis using less.prems(3) [of j] that \<open>\<not> lo < hi\<close> by simp
    qed (use less.prems(2) [of j c] less.prems(4) [of f] that in auto)
    ultimately show ?thesis using False less.prems(4)
      by (auto simp: first_slot_loop.simps [of sp meets lo hi] split: option.splits)
  next
    case True
    define mid where "mid = lo + (hi - lo) div 2"
    have mid: "lo \<le> mid" "mid < hi" using True by (simp_all add: mid_def)
    obtain r where r: "first_live sp [mid..<hi] = Inr r" "case r of
        None \<Rightarrow> \<forall>i \<in> set [mid..<hi]. cell (raw sp) i = None
      | Some (i, c) \<Rightarrow> i \<in> set [mid..<hi] \<and> cell (raw sp) i = Some c \<and> (\<forall>j \<in> set [mid..<hi]. j < i \<longrightarrow> cell (raw sp) j = None)"
      using first_live_spec [OF assms(1), of "[mid..<hi]"] less.prems(1) by auto
    show ?thesis
    proof (cases r)
      case None
      have e: "first_slot_loop sp meets lo hi found = first_slot_loop sp meets lo mid found"
        using True r(1) None by (subst first_slot_loop.simps) (simp add: mid_def Let_def)
      have n: "cell (raw sp) j = None" if "mid \<le> j" "j < (case found of None \<Rightarrow> cnt (raw sp) | Some f \<Rightarrow> f)" for j
        using r(2) None less.prems(3) [of j] that by (cases "j < hi") auto
      show ?thesis unfolding e
        by (rule less.hyps) (use mid less.prems n in \<open>force+\<close>)
    next
      case (Some x)
      obtain slot c where x: "x = (slot, c)" by (cases x)
      have c: "mid \<le> slot" "slot < hi" "cell (raw sp) slot = Some c" "\<And>j. mid \<le> j \<Longrightarrow> j < slot \<Longrightarrow> cell (raw sp) j = None"
        using r(2) Some x by auto
      have sc: "slot < cnt (raw sp)" using c(2) less.prems(1) by simp
      have m: "meets c = Inr (P c)" by (rule assms(2) [OF c(3) sc])
      have e: "first_slot_loop sp meets lo hi found =
          (if P c then first_slot_loop sp meets lo mid (Some slot) else first_slot_loop sp meets (slot + 1) hi found)"
        using True r(1) Some x m by (subst first_slot_loop.simps) (simp add: mid_def Let_def)
      show ?thesis
      proof (cases "P c")
        case True
        show ?thesis unfolding e if_P [OF True]
          by (rule less.hyps) (use True mid less.prems(1,2) c sc in auto)
      next
        case False
        have below: "\<not> P d" if "j < slot + 1" "cell (raw sp) j = Some d" for j d
          using assms(3) [of j slot d c] that c(3) sc False by (cases "j = slot") auto
        show ?thesis unfolding e if_not_P [OF False]
          by (rule less.hyps) (use c(1,2) mid less.prems(1,3,4) below in auto)
      qed
    qed
  qed
qed

text \<open>
  What the search finds on a page whose live cells fail \<open>P\<close> up to some point and meet it from
  there on: the directory up to the slot found holds the cells that fail, and the slot the first
  that meets.
\<close>

lemma first_slot_where_spec:
  assumes "page_inv sp" "live_of (cells (raw sp)) = xs @ ys" "\<And>c. c \<in> set (xs @ ys) \<Longrightarrow> meets c = Inr (P c)"
    and "\<And>c. c \<in> set xs \<Longrightarrow> \<not> P c" "\<And>c. c \<in> set ys \<Longrightarrow> P c"
  shows "\<exists>r. first_slot_where sp meets = Inr r \<and> (case r of
      None \<Rightarrow> ys = []
    | Some i \<Rightarrow> i < cnt (raw sp) \<and> live_of (take i (cells (raw sp))) = xs
        \<and> (\<exists>y ys'. ys = y # ys' \<and> cells (raw sp) ! i = Some y \<and> live_of (drop (Suc i) (cells (raw sp))) = ys'))"
proof -
  have mem: "c \<in> set (xs @ ys)" if "cell (raw sp) i = Some c" "i < cnt (raw sp)" for i c
    using that by (auto simp flip: assms(2) simp: set_live_of cells_def image_iff intro!: bexI [of _ i])
  have mono: "P d" if "i < j" "j < cnt (raw sp)" "cell (raw sp) i = Some c" "cell (raw sp) j = Some d" "P c" for i j c d
  proof -
    let ?cs = "cells (raw sp)"
    have "live_of ?cs = live_of (take j ?cs) @ d # live_of (drop (Suc j) ?cs)" using that by (intro live_of_take_drop) simp_all
    moreover have "live_of (take j ?cs) = live_of (take i (take j ?cs)) @ c # live_of (drop (Suc i) (take j ?cs))"
      using that by (intro live_of_take_drop) simp_all
    ultimately obtain A B C where e: "xs @ ys = A @ c # B @ d # C" using assms(2) by (metis append.assoc append_Cons)
    have "\<not> length A < length xs"
    proof
      assume "length A < length xs"
      then have "c = xs ! length A" using arg_cong [OF e, of "\<lambda>l. l ! length A"] by (simp add: nth_append)
      then show False using assms(4) \<open>length A < length xs\<close> \<open>P c\<close> nth_mem by blast
    qed
    then have "d = ys ! (length A + Suc (length B) - length xs)" "length A + Suc (length B) - length xs < length ys"
      using arg_cong [OF e, of "\<lambda>l. l ! (length A + Suc (length B))"] arg_cong [OF e, of length] by (auto simp: nth_append)
    then show "P d" using assms(5) nth_mem by blast
  qed
  obtain r where r: "first_slot_where sp meets = Inr r" "case r of
      None \<Rightarrow> \<forall>i c. i < cnt (raw sp) \<longrightarrow> cell (raw sp) i = Some c \<longrightarrow> \<not> P c
    | Some f \<Rightarrow> f < cnt (raw sp) \<and> (\<exists>c. cell (raw sp) f = Some c \<and> P c)
        \<and> (\<forall>j c. j < f \<longrightarrow> cell (raw sp) j = Some c \<longrightarrow> \<not> P c)"
    using first_slot_loop_spec [OF assms(1), of meets P "cnt (raw sp)" 0 None] mem assms(3) mono
    by (auto simp: first_slot_where_def accessors)
  show ?thesis
  proof (cases r)
    case None
    have "c \<in> set (xs @ ys) \<Longrightarrow> \<not> P c" for c
      using r(2) None by (auto simp flip: assms(2) simp: set_live_of cells_def)
    then have "ys = []" using assms(5) by (cases ys) auto
    then show ?thesis using r(1) None by simp
  next
    case (Some f)
    let ?cs = "cells (raw sp)"
    obtain c where c: "f < cnt (raw sp)" "cell (raw sp) f = Some c" "P c" "\<And>j c. j < f \<Longrightarrow> cell (raw sp) j = Some c \<Longrightarrow> \<not> P c"
      using r(2) Some by auto
    have l: "xs @ ys = live_of (take f ?cs) @ c # live_of (drop (Suc f) ?cs)"
      using c(1,2) live_of_take_drop [of f ?cs c] assms(2) by simp
    have low: "\<not> P d" if "d \<in> set (live_of (take f ?cs))" for d
      using that c(1,4) unfolding set_live_of by (auto simp: in_set_conv_nth)
    have "takeWhile (\<lambda>d. \<not> P d) (xs @ ys) = xs" using assms(4,5) by (cases ys) auto
    moreover have "takeWhile (\<lambda>d. \<not> P d) (live_of (take f ?cs) @ c # live_of (drop (Suc f) ?cs)) = live_of (take f ?cs)"
      using low c(3) by simp
    ultimately have "live_of (take f ?cs) = xs" using l by simp
    then show ?thesis using r(1) Some l c(1,2) by simp
  qed
qed


text \<open>A leaf with its entries, and a branch with its separators and children.\<close>

definition leaf_page :: "(bytes \<times> location) list \<Rightarrow> nat \<Rightarrow> bytes \<Rightarrow> bool" where
  "leaf_page es nx b \<longleftrightarrow> node_page PIndexLeaf (map index_cell es) nx b \<and> (\<forall>(k, l) \<in> set es. loc_ok l)"

definition branch_page :: "(bytes \<times> nat) list \<Rightarrow> nat \<Rightarrow> bytes \<Rightarrow> bool" where
  "branch_page es nx b \<longleftrightarrow> node_page PIndexBranch (map branch_cell es) nx b \<and> (\<forall>(k, c) \<in> set es. c < 2 ^ 64)"

lemma is_slotted_index [simp]: "is_slotted PIndexLeaf" "is_slotted PIndexBranch"
  by (simp_all add: is_slotted_def)

lemma min_cell_index [simp]: "min_cell 4 = 10" "min_cell 5 = 8"
  by (simp_all add: min_cell_def MIN_INDEX_ENTRY_LEN_def MIN_BRANCH_ENTRY_LEN_def)

lemmas leaf_pageD = node_pageD [OF conjunct1 [OF iffD1 [OF leaf_page_def]] is_slotted_index(1)]
lemmas branch_pageD = node_pageD [OF conjunct1 [OF iffD1 [OF branch_page_def]] is_slotted_index(2)]

lemma decode_index_cell: "leaf_page es nx b \<Longrightarrow> e \<in> set es \<Longrightarrow> decode_index_entry (index_cell e) = Inr e"
  by (cases e) (auto simp: leaf_page_def)

lemma decode_branch_cell: "branch_page es nx b \<Longrightarrow> e \<in> set es \<Longrightarrow> decode_branch_entry (branch_cell e) = Inr e"
  by (cases e) (auto simp: branch_page_def)

text \<open>Where a search of a node splits its directory.\<close>

definition found_at :: "slotted \<Rightarrow> nat option \<Rightarrow> bytes list \<Rightarrow> bytes list \<Rightarrow> bool" where
  "found_at sp r xs ys \<longleftrightarrow> (case r of
      None \<Rightarrow> ys = [] \<and> live_of (cells (raw sp)) = xs
    | Some i \<Rightarrow> i < cnt (raw sp) \<and> live_of (take i (cells (raw sp))) = xs
        \<and> (\<exists>y ys'. ys = y # ys' \<and> cells (raw sp) ! i = Some y \<and> live_of (drop (Suc i) (cells (raw sp))) = ys'))"

lemma leaf_search:
  assumes "leaf_page (xs @ ys) nx (raw sp)" "\<forall>e \<in> set xs. fst e < key" "\<forall>e \<in> set ys. key \<le> fst e"
  shows "\<exists>r. first_slot_where sp (key_from key) = Inr r \<and> found_at sp r (map index_cell xs) (map index_cell ys)"
proof -
  let ?P = "\<lambda>c. \<exists>k l. decode_index_entry c = Inr (k, l) \<and> key \<le> k"
  note d = decode_index_cell [OF assms(1)]
  have "key_from key c = Inr (?P c)" if "c \<in> set (map index_cell xs @ map index_cell ys)" for c
    using that d by (auto simp: key_from_def simp flip: map_append)
  moreover have "\<not> ?P c" if "c \<in> set (map index_cell xs)" for c using that d assms(2) by fastforce
  moreover have "?P c" if "c \<in> set (map index_cell ys)" for c using that d assms(3) by fastforce
  ultimately obtain r where r: "first_slot_where sp (key_from key) = Inr r" "case r of
      None \<Rightarrow> map index_cell ys = []
    | Some i \<Rightarrow> i < cnt (raw sp) \<and> live_of (take i (cells (raw sp))) = map index_cell xs
        \<and> (\<exists>y ys'. map index_cell ys = y # ys' \<and> cells (raw sp) ! i = Some y \<and> live_of (drop (Suc i) (cells (raw sp))) = ys')"
    using first_slot_where_spec [OF leaf_pageD(1) [OF assms(1)], of "map index_cell xs" "map index_cell ys" "key_from key" ?P]
      leaf_pageD(3) [OF assms(1)] by auto
  then show ?thesis using leaf_pageD(3) [OF assms(1)] by (auto simp: found_at_def split: option.splits)
qed

lemma branch_search:
  assumes "branch_page (xs @ ys) nx (raw sp)" "\<forall>e \<in> set xs. fst e \<le> key" "\<forall>e \<in> set ys. key < fst e"
  shows "\<exists>r. first_slot_where sp (separator_above key) = Inr r \<and> found_at sp r (map branch_cell xs) (map branch_cell ys)"
proof -
  let ?P = "\<lambda>c. \<exists>k l. decode_branch_entry c = Inr (k, l) \<and> key < k"
  note d = decode_branch_cell [OF assms(1)]
  have "separator_above key c = Inr (?P c)" if "c \<in> set (map branch_cell xs @ map branch_cell ys)" for c
    using that d by (auto simp: separator_above_def simp flip: map_append)
  moreover have "\<not> ?P c" if "c \<in> set (map branch_cell xs)" for c using that d assms(2) by fastforce
  moreover have "?P c" if "c \<in> set (map branch_cell ys)" for c using that d assms(3) by fastforce
  ultimately obtain r where r: "first_slot_where sp (separator_above key) = Inr r" "case r of
      None \<Rightarrow> map branch_cell ys = []
    | Some i \<Rightarrow> i < cnt (raw sp) \<and> live_of (take i (cells (raw sp))) = map branch_cell xs
        \<and> (\<exists>y ys'. map branch_cell ys = y # ys' \<and> cells (raw sp) ! i = Some y \<and> live_of (drop (Suc i) (cells (raw sp))) = ys')"
    using first_slot_where_spec [OF branch_pageD(1) [OF assms(1)], of "map branch_cell xs" "map branch_cell ys" "separator_above key" ?P]
      branch_pageD(3) [OF assms(1)] by auto
  then show ?thesis using branch_pageD(3) [OF assms(1)] by (auto simp: found_at_def split: option.splits)
qed

lemma live_cell_at: "page_inv sp \<Longrightarrow> i < cnt (raw sp) \<Longrightarrow> cells (raw sp) ! i = Some c \<Longrightarrow> live_cell sp i = Inr c"
  by (simp add: live_cell_def get_cell_inv)

lemma slot_of_leaf:
  assumes "leaf_page (xs @ ys) nx (raw sp)" "\<forall>e \<in> set xs. fst e < key" "\<forall>e \<in> set ys. key \<le> fst e"
  shows "(ys = [] \<or> fst (hd ys) \<noteq> key) \<Longrightarrow> slot_of sp key = Inr None"
    and "ys = (key, l) # ys' \<Longrightarrow> \<exists>i. slot_of sp key = Inr (Some i) \<and> i < cnt (raw sp)
      \<and> live_of (take i (cells (raw sp))) = map index_cell xs \<and> cells (raw sp) ! i = Some (encode_index_entry key l)
      \<and> live_of (drop (Suc i) (cells (raw sp))) = map index_cell ys'"
proof -
  obtain r where r: "first_slot_where sp (key_from key) = Inr r" "found_at sp r (map index_cell xs) (map index_cell ys)"
    using leaf_search [OF assms] by blast
  have loc: "\<forall>(k, l) \<in> set ys. loc_ok l" using assms(1) by (auto simp: leaf_page_def)
  note inv = leaf_pageD(1) [OF assms(1)]
  show "slot_of sp key = Inr None" if "ys = [] \<or> fst (hd ys) \<noteq> key"
    using r that loc by (cases r; cases ys) (auto simp: slot_of_def found_at_def live_cell_at [OF inv])
  show "\<exists>i. slot_of sp key = Inr (Some i) \<and> i < cnt (raw sp)
      \<and> live_of (take i (cells (raw sp))) = map index_cell xs \<and> cells (raw sp) ! i = Some (encode_index_entry key l)
      \<and> live_of (drop (Suc i) (cells (raw sp))) = map index_cell ys'" if "ys = (key, l) # ys'"
    using r that loc by (cases r) (auto simp: slot_of_def found_at_def live_cell_at [OF inv])
qed

lemma route_branch:
  assumes "branch_page (xs @ ys) nx (raw sp)" "\<forall>e \<in> set xs. fst e \<le> key" "\<forall>e \<in> set ys. key < fst e"
  shows "\<exists>r. route sp key = Inr (r, case ys of [] \<Rightarrow> nx | (_, c) # _ \<Rightarrow> c) \<and> found_at sp r (map branch_cell xs) (map branch_cell ys)
    \<and> find_child sp key = Inr (case ys of [] \<Rightarrow> nx | (_, c) # _ \<Rightarrow> c)"
proof -
  obtain r where r: "first_slot_where sp (separator_above key) = Inr r" "found_at sp r (map branch_cell xs) (map branch_cell ys)"
    using branch_search [OF assms] by blast
  have "\<forall>(k, c) \<in> set ys. c < 2 ^ 64" using assms(1) by (auto simp: branch_page_def)
  then show ?thesis using r branch_pageD(4) [OF assms(1)]
    by (cases r; cases ys) (auto simp: route_def find_child_def found_at_def live_cell_at [OF branch_pageD(1) [OF assms(1)]])
qed


subsection \<open>Changing a node's cells\<close>

lemma live_of_map: "cell_map cs = cell_map cs2 \<Longrightarrow> live_of cs = live_of cs2"
proof -
  assume m: "cell_map cs = cell_map cs2"
  have none: "live_of (replicate n None) = []" for n by (induction n) simp_all
  let ?n = "max (length cs) (length cs2)"
  have "cs @ replicate (?n - length cs) None = cs2 @ replicate (?n - length cs2) None"
    using m by (intro nth_equalityI) (auto simp: nth_append cell_map_def fun_eq_iff split: if_splits)
  from arg_cong [OF this, of live_of] show ?thesis by (simp add: none)
qed

lemma hdr_type: "hdr (raw sp') = hdr (raw sp) \<Longrightarrow> page_inv sp \<Longrightarrow> page_inv sp' \<Longrightarrow> raw sp' ! 0 = raw sp ! 0"
  by (rule hdr_nth0) (simp_all add: page_invD(1))

lemma node_page_became:
  assumes "node_page t cs nx (raw sp)" "is_slotted t" "page_inv sp'" "hdr (raw sp') = hdr (raw sp)"
    and "live_of (cells (raw sp')) = cs'" "\<And>c. c \<in> set cs' \<Longrightarrow> min_cell (type_byte t) \<le> length c"
  shows "node_page t cs' nx (raw sp')"
  using node_pageI [OF assms(3) _ assms(5) _ assms(6)] hdr_type [OF assms(4) _ assms(3)] next_page_hdr [OF assms(4) _ assms(3)]
    node_pageD(1,4) [OF assms(1,2)] assms(1) by (simp add: node_page_def)

lemma fits_node: "node_page t cs nx (raw sp) \<Longrightarrow> is_slotted t \<Longrightarrow> fits sp n = Inr (4 + n \<le> reclaimable (raw sp))"
  using fits_inv [OF node_pageD(1), of t cs nx sp n] free_le_reclaimable [OF node_pageD(1), of t cs nx sp] by auto

lemma insert_at_node:
  assumes "node_page t cs nx (raw sp)" "is_slotted t" "slot \<le> cnt (raw sp)" "4 + length d \<le> reclaimable (raw sp)"
    and "min_cell (type_byte t) \<le> length d" "d \<noteq> []"
  shows "\<exists>sp'. insert_cell_at sp slot d = Inr (sp', True) \<and> page_inv sp' \<and> hdr (raw sp') = hdr (raw sp)
    \<and> cells (raw sp') = take slot (cells (raw sp)) @ Some d # drop slot (cells (raw sp))
    \<and> node_page t (live_of (take slot (cells (raw sp))) @ d # live_of (drop slot (cells (raw sp)))) nx (raw sp')"
proof -
  note n = node_pageD [OF assms(1,2)]
  obtain sp' where sp': "insert_cell_at sp slot d = Inr (sp', True)" "page_inv sp'" "hdr (raw sp') = hdr (raw sp)"
    "cells (raw sp') = take slot (cells (raw sp)) @ Some d # drop slot (cells (raw sp))"
    using insert_cell_at_ok [OF n(1) assms(3,4)] assms(6) by (auto simp: cell_of_def)
  have "live_of (take slot (cells (raw sp))) @ live_of (drop slot (cells (raw sp))) = cs"
    using n(3) by (metis append_take_drop_id live_of_simps(4))
  then have "min_cell (type_byte t) \<le> length c"
    if "c \<in> set (live_of (take slot (cells (raw sp))) @ d # live_of (drop slot (cells (raw sp))))" for c
    using that n(8) [of c] assms(5) by auto
  from node_page_became [OF assms(1,2) sp'(2,3) _ this] show ?thesis using sp' by simp
qed

lemma remove_at_node:
  assumes "node_page t cs nx (raw sp)" "is_slotted t" "slot < cnt (raw sp)" "cells (raw sp) ! slot \<noteq> None"
  shows "\<exists>sp'. remove_cell_at sp slot = Inr sp'
    \<and> node_page t (live_of (take slot (cells (raw sp))) @ live_of (drop (Suc slot) (cells (raw sp)))) nx (raw sp')"
proof -
  note n = node_pageD [OF assms(1,2)]
  obtain sp' where sp': "remove_cell_at sp slot = Inr sp'" "page_inv sp'" "hdr (raw sp') = hdr (raw sp)"
    "cells (raw sp') = take slot (cells (raw sp)) @ drop (Suc slot) (cells (raw sp))"
    using remove_cell_at_ok [OF n(1) assms(3,4)] by blast
  obtain c0 where "live_of (take slot (cells (raw sp))) @ c0 # live_of (drop (Suc slot) (cells (raw sp))) = cs"
    using n(3) live_of_take_drop [of slot "cells (raw sp)"] assms(3,4) by auto
  then have "min_cell (type_byte t) \<le> length c"
    if "c \<in> set (live_of (take slot (cells (raw sp))) @ live_of (drop (Suc slot) (cells (raw sp))))" for c
    using that n(8) [of c] by auto
  from node_page_became [OF assms(1,2) sp'(2,3) _ this] show ?thesis using sp' by simp
qed

lemma update_at_node:
  assumes "node_page t cs nx (raw sp)" "is_slotted t" "slot < cnt (raw sp)" "cells (raw sp) ! slot = Some d0"
    and "length d = length d0" "d0 \<noteq> []"
  shows "\<exists>sp'. update_cell sp slot d = Inr (sp', True)
    \<and> node_page t (live_of (take slot (cells (raw sp))) @ d # live_of (drop (Suc slot) (cells (raw sp)))) nx (raw sp')"
proof -
  note n = node_pageD [OF assms(1,2)]
  have l: "len (raw sp) slot = length d0" using clen_cell [OF n(1) assms(3)] assms(3,4) by (simp add: clen_def)
  have d: "d \<noteq> []" using assms(5,6) by auto
  obtain sp' where sp': "update_cell sp slot d = Inr (sp', True)" "page_inv sp'" "hdr (raw sp') = hdr (raw sp)"
    "cell_map (cells (raw sp')) = (cell_map (cells (raw sp)))(slot := Some d)"
    using update_cell_ok [OF n(1) assms(3), of d] l assms(5,6) d by (auto simp: cell_of_def)
  have "cell_map (cells (raw sp')) = cell_map ((cells (raw sp))[slot := Some d])"
    using sp'(4) assms(3) by (simp add: cell_map_update)
  then have live: "live_of (cells (raw sp')) = live_of ((cells (raw sp))[slot := Some d])" by (rule live_of_map)
  also have "\<dots> = live_of (take slot (cells (raw sp))) @ d # live_of (drop (Suc slot) (cells (raw sp)))"
    using assms(3) by (simp add: upd_conv_take_nth_drop)
  finally have live: "live_of (cells (raw sp')) = live_of (take slot (cells (raw sp))) @ d # live_of (drop (Suc slot) (cells (raw sp)))" .
  have "live_of (take slot (cells (raw sp))) @ d0 # live_of (drop (Suc slot) (cells (raw sp))) = cs"
    using n(3) live_of_take_drop [of slot "cells (raw sp)" d0] assms(3,4) by simp
  then have "min_cell (type_byte t) \<le> length c"
    if "c \<in> set (live_of (take slot (cells (raw sp))) @ d # live_of (drop (Suc slot) (cells (raw sp))))" for c
    using that n(8) [of c] n(8) [of d0] assms(5) by auto
  from node_page_became [OF assms(1,2) sp'(2,3) live this] show ?thesis using sp'(1) by blast
qed

lemma set_next_node:
  assumes "node_page t cs nx (raw sp)" "is_slotted t" "n < 2 ^ 64"
  shows "\<exists>sp'. set_next_page sp n = Inr sp' \<and> node_page t cs n (raw sp') \<and> ds (raw sp') = ds (raw sp) \<and> cells (raw sp') = cells (raw sp)"
proof -
  note n = node_pageD [OF assms(1,2)]
  define b where "b = put (raw sp) 1 (le_bytes 8 n)"
  have l: "length (raw sp) = 8188" by (rule page_invD(1) [OF n(1)])
  have f: "cnt b = cnt (raw sp)" "ds b = ds (raw sp)" "\<And>i. off b i = off (raw sp) i" "\<And>i. len b i = len (raw sp) i"
    "\<And>k m. 13 \<le> k \<Longrightarrow> slice b k m = slice (raw sp) k m"
    using l by (simp_all add: b_def field_defs buf_simps)
  have lb: "length b = 8188" using l by (simp add: b_def)
  have c: "cell b i = cell (raw sp) i" if "i < cnt (raw sp)" for i
  proof (cases "len (raw sp) i = 0")
    case False
    then have "13 \<le> off (raw sp) i" using page_invD(3,6) [OF n(1)] that by force
    then show ?thesis using f by (simp add: cell_def)
  qed (simp add: cell_def f)
  then have "cells b = cells (raw sp)" by (intro cells_eqI) (simp_all add: f)
  moreover have "lay b {..<cnt b}"
    using page_inv_lay [OF n(1)] l lb by (simp add: lay_def f in_page_def disj_def page_consts)
  moreover have "b ! 0 = raw sp ! 0" using l by (simp add: b_def nth_put)
  moreover have "u_at 8 b 1 = n" using l assms(3) by (simp add: b_def u_at_put_same)
  ultimately have "node_page t cs n b" using assms(1) by (simp add: node_page_def)
  then show ?thesis using l f(2) \<open>cells b = cells (raw sp)\<close> by (simp add: set_next_page_def b_def)
qed


subsection \<open>Building a node\<close>

lemma le_nat_zeros: "le_nat (replicate n 0) = 0"
  by (induction n) simp_all

lemma slotted_new_node:
  assumes "is_slotted t"
  shows "node_page t [] 0 (raw (slotted_new t))" "ds (raw (slotted_new t)) = 8188" "cells (raw (slotted_new t)) = []"
proof -
  have n: "page_inv (slotted_new t)" "cells (raw (slotted_new t)) = []" using slotted_new_inv [OF assms] by simp_all
  let ?z = "put (replicate USABLE_PAGE_SIZE 0) 0 [type_byte t]"
  have l: "length ?z = 8188" by (simp add: page_consts)
  have r: "raw (slotted_new t) = put ?z 11 (le_bytes 2 8188)" by (simp add: slotted_new_def page_consts Let_def)
  have "raw (slotted_new t) ! 0 = type_byte t" unfolding r using l by (simp add: nth_put page_consts)
  moreover have "slice ?z 1 8 = replicate 8 0" by (rule nth_equalityI) (simp_all add: nth_slice nth_put page_consts)
  then have "u_at 8 ?z 1 = 0" by (simp only: u_at_def le_nat_zeros)
  then have "next_page (slotted_new t) = 0" unfolding next_page_def r
    using u_at_put_before [of 11 "le_bytes 2 8188" ?z 1 8] l by simp
  ultimately show "node_page t [] 0 (raw (slotted_new t))" using n by (intro node_pageI) simp_all
  show "ds (raw (slotted_new t)) = 8188" unfolding r ds_def using l by (simp add: u_at_put_same)
  show "cells (raw (slotted_new t)) = []" by (rule n(2))
qed

lemma insert_cell_ds:
  assumes inv: "page_inv sp" and room: "slot_offset (cnt (raw sp)) + 4 + length data \<le> ds (raw sp)"
    and i: "insert_cell sp data = Inr (sp', r)"
  shows "ds (raw sp') = ds (raw sp) - length data"
proof -
  let ?n = "cnt (raw sp)" and ?sp = "with_raw sp (wcnt (raw sp) (cnt (raw sp) + 1))"
  have n: "?n + 1 < 65536" using page_invD(2,3) [OF inv] by linarith
  have f: "cnt (raw ?sp) = ?n + 1" "ds (raw ?sp) = ds (raw sp)"
    using n page_invD(1) [OF inv] wcnt_fields [of "raw sp" "?n + 1"] by simp_all
  have "became sp ?sp {..<?n} (cell (raw sp))"
    using inv room by (intro wcnt_became) (auto simp: page_inv_def slot_offset_eq)
  then obtain sp'' where p: "place_cell ?sp ?n data = Inr sp''" "ds (raw sp'') = ds (raw ?sp) - length data"
    using place_cell_ok [of ?sp "{..<?n}" ?n data] room f by (auto simp: became_def slot_offset_eq)
  moreover have "\<not> free_space sp < SLOT_LEN + length data" using room by (simp add: accessors SLOT_LEN_def)
  ultimately show ?thesis using i page_invD(1) [OF inv] f(2)
    by (simp add: insert_cell_def accessors(1) Let_def)
qed

text \<open>\<open>node_size cs\<close>: the bytes a page's cells and their slots take.\<close>

definition node_size :: "bytes list \<Rightarrow> nat" where
  "node_size cs = 4 * length cs + sum_list (map length cs)"

lemma node_size_simps [simp]:
  "node_size [] = 0" "node_size (c # cs) = 4 + length c + node_size cs" "node_size (xs @ ys) = node_size xs + node_size ys"
  by (simp_all add: node_size_def)

text \<open>A page with no tombstone and no dead byte, and what pushing cells onto it gives.\<close>

definition tight :: "slotted \<Rightarrow> bytes list \<Rightarrow> bool" where
  "tight sp cs \<longleftrightarrow> cells (raw sp) = map Some cs \<and> ds (raw sp) + sum_list (map length cs) = 8188"

lemma live_of_map_Some [simp]: "live_of (map Some cs) = cs"
  by (induction cs) simp_all

lemma push_cells_spec:
  assumes "node_page t cs nx (raw sp)" "is_slotted t" "tight sp cs"
    and "\<forall>c \<in> set xs. min_cell (type_byte t) \<le> length c \<and> c \<noteq> []"
  shows "if 13 + node_size (cs @ xs) \<le> 8188
    then \<exists>sp'. push_cells sp xs = Inr (Some sp') \<and> node_page t (cs @ xs) nx (raw sp') else push_cells sp xs = Inr None"
  using assms
proof (induction xs arbitrary: sp cs)
  case (Cons x xs)
  note n = node_pageD [OF Cons.prems(1,2)]
  have c: "cnt (raw sp) = length cs" using arg_cong [of _ _ length, OF conjunct1 [OF Cons.prems(3) [unfolded tight_def]]] by simp
  have room: "slot_offset (cnt (raw sp)) + 4 + length x \<le> ds (raw sp) \<longleftrightarrow> 13 + node_size (cs @ [x]) \<le> 8188"
    using Cons.prems(3) c by (auto simp: tight_def slot_offset_eq node_size_def)
  show ?case
  proof (cases "13 + node_size (cs @ [x]) \<le> 8188")
    case False
    have "free_space sp < SLOT_LEN + length x" using False room page_invD(3) [OF n(1)]
      by (auto simp: accessors slot_offset_eq SLOT_LEN_def)
    then show ?thesis using False by (auto simp: insert_cell_def)
  next
    case True
    then have rm: "slot_offset (cnt (raw sp)) + 4 + length x \<le> ds (raw sp)" using room by blast
    obtain sp1 where sp1: "insert_cell sp x = Inr (sp1, Some (cnt (raw sp)))" "page_inv sp1" "hdr (raw sp1) = hdr (raw sp)"
      "cells (raw sp1) = cells (raw sp) @ [Some x]"
      using insert_cell_ok [OF n(1) rm] Cons.prems(4) by (auto simp: cell_of_def)
    have "ds (raw sp1) = ds (raw sp) - length x" by (rule insert_cell_ds [OF n(1) rm sp1(1)])
    then have t1: "tight sp1 (cs @ [x])" using Cons.prems(3) sp1(4) rm by (simp add: tight_def)
    have n1: "node_page t (cs @ [x]) nx (raw sp1)"
      using node_page_became [OF Cons.prems(1,2) sp1(2,3)] sp1(4) Cons.prems(3,4) n(8) by (auto simp: tight_def)
    show ?thesis using Cons.IH [OF n1 Cons.prems(2) t1] Cons.prems(4) sp1(1) by auto
  qed
next
  case Nil
  then show ?case using node_pageD(9) [OF Nil(1,2)] by (simp add: node_size_def)
qed

lemma build_spec:
  assumes "is_slotted t" "nx < 2 ^ 64" "\<forall>c \<in> set cs. min_cell (type_byte t) \<le> length c \<and> c \<noteq> []"
  shows "if 13 + node_size cs \<le> 8188
    then \<exists>sp. bindR (set_next_page (slotted_new t) nx) (\<lambda>sp. push_cells sp cs) = Inr (Some sp) \<and> node_page t cs nx (raw sp)
    else bindR (set_next_page (slotted_new t) nx) (\<lambda>sp. push_cells sp cs) = Inr None"
proof -
  obtain sp where sp: "set_next_page (slotted_new t) nx = Inr sp" "node_page t [] nx (raw sp)" "ds (raw sp) = 8188" "cells (raw sp) = []"
    using set_next_node [OF slotted_new_node(1) [OF assms(1)] assms(1,2)] slotted_new_node(2,3) [OF assms(1)] by auto
  have "tight sp []" using sp(3,4) by (simp add: tight_def)
  from push_cells_spec [OF sp(2) assms(1) this assms(3)] show ?thesis using sp(1) by (simp split: if_splits)
qed

lemma build_leaf_spec:
  assumes "nx < 2 ^ 64" "\<forall>(k, l) \<in> set es. loc_ok l"
  shows "if 13 + node_size (map index_cell es) \<le> 8188
    then \<exists>sp. build_leaf_page es nx = Inr (Some sp) \<and> leaf_page es nx (raw sp) else build_leaf_page es nx = Inr None"
proof -
  have "\<forall>c \<in> set (map index_cell es). min_cell (type_byte PIndexLeaf) \<le> length c \<and> c \<noteq> []"
    by auto
  from build_spec [OF is_slotted_index(1) assms(1) this] show ?thesis
    using assms(2) by (simp add: build_leaf_page_def leaf_page_def)
qed

lemma build_branch_spec:
  assumes "nx < 2 ^ 64" "\<forall>(k, c) \<in> set es. c < 2 ^ 64"
  shows "if 13 + node_size (map branch_cell es) \<le> 8188
    then \<exists>sp. build_branch_page es nx = Inr (Some sp) \<and> branch_page es nx (raw sp) else build_branch_page es nx = Inr None"
proof -
  have "\<forall>c \<in> set (map branch_cell es). min_cell (type_byte PIndexBranch) \<le> length c \<and> c \<noteq> []"
    by auto
  from build_spec [OF is_slotted_index(2) assms(1) this] show ?thesis
    using assms(2) by (simp add: build_branch_page_def branch_page_def)
qed

subsection \<open>Where a split falls\<close>

lemma midpoint_loop_spec:
  assumes "2 * run < whole" "whole \<le> 2 * (run + sum_list ns)"
  shows "\<exists>m. midpoint_loop ns whole i run = Inr (i + m) \<and> 0 < m \<and> m \<le> length ns
    \<and> 2 * (run + sum_list (take (m - 1) ns)) < whole \<and> whole \<le> 2 * (run + sum_list (take m ns))"
  using assms
proof (induction ns arbitrary: i run)
  case (Cons n ns)
  show ?case
  proof (cases "whole \<le> 2 * (run + n)")
    case True
    then show ?thesis using Cons.prems(1) by (intro exI [of _ 1]) simp
  next
    case False
    then obtain m where m: "midpoint_loop ns whole (i + 1) (run + n) = Inr (i + 1 + m)" "0 < m" "m \<le> length ns"
      "2 * (run + n + sum_list (take (m - 1) ns)) < whole" "whole \<le> 2 * (run + n + sum_list (take m ns))"
      using Cons.IH [of "run + n" "i + 1"] Cons.prems by auto
    then show ?thesis using False by (intro exI [of _ "Suc m"]) (cases m; simp add: add.assoc)
  qed
qed simp

text \<open>
  The midpoint splits the sizes so that what comes before its last entry is less than half, and
  what comes up to it at least half.
\<close>

lemma byte_midpoint_spec:
  assumes "0 < sum_list ns"
  shows "\<exists>m. byte_midpoint ns = Inr m \<and> 0 < m \<and> m \<le> length ns
    \<and> 2 * sum_list (take (m - 1) ns) < sum_list ns \<and> sum_list ns \<le> 2 * sum_list (take m ns)"
  using midpoint_loop_spec [of 0 "sum_list ns" ns 0] assms by (auto simp: byte_midpoint_def)


lemma sum_list_bounds:
  "\<forall>n \<in> set ns. d \<le> n \<and> n \<le> h \<Longrightarrow> d * length ns \<le> sum_list ns \<and> sum_list ns \<le> h * length (ns :: nat list)"
  by (induction ns) auto

lemma midpoint_facts:
  assumes "\<forall>n \<in> set ns. d \<le> n \<and> n \<le> h" "0 < sum_list ns"
  obtains m where "byte_midpoint ns = Inr m" "0 < m" "m \<le> length ns"
    "2 * sum_list (take (m - 1) ns) < sum_list ns" "sum_list ns \<le> 2 * sum_list (take m ns)"
    "sum_list (take m ns) \<le> sum_list (take (m - 1) ns) + h" "d * m \<le> sum_list (take m ns)"
    "d * (m - 1) \<le> sum_list (take (m - 1) ns)"
    "sum_list ns = sum_list (take m ns) + sum_list (drop m ns)" "d * (length ns - m) \<le> sum_list (drop m ns)"
proof -
  obtain m where m: "byte_midpoint ns = Inr m" "0 < m" "m \<le> length ns"
    "2 * sum_list (take (m - 1) ns) < sum_list ns" "sum_list ns \<le> 2 * sum_list (take m ns)"
    using byte_midpoint_spec [OF assms(2)] by blast
  have t: "\<forall>n \<in> set (take k ns). d \<le> n \<and> n \<le> h" "\<forall>n \<in> set (drop k ns). d \<le> n \<and> n \<le> h" for k
    using assms(1) by (auto dest: in_set_takeD in_set_dropD)
  have "take m ns = take (m - 1) ns @ [ns ! (m - 1)]" using m(2,3) take_Suc_conv_app_nth [of "m - 1" ns] by simp
  moreover have "ns ! (m - 1) \<le> h" using assms(1) m(2,3) by simp
  ultimately have b: "sum_list (take m ns) \<le> sum_list (take (m - 1) ns) + h" by simp
  have w: "sum_list ns = sum_list (take m ns) + sum_list (drop m ns)" by (metis append_take_drop_id sum_list_append)
  show thesis
    using that [OF m b _ _ w] sum_list_bounds [OF t(1) [of m]] sum_list_bounds [OF t(1) [of "m - 1"]] sum_list_bounds [OF t(2) [of m]] m(3)
    by simp
qed

lemma node_size_sizes:
  "node_size (map index_cell es) = 4 * length es + sum_list (map (\<lambda>(k, _). length k + 10) es)"
  "node_size (map branch_cell bs) = 4 * length bs + sum_list (map (\<lambda>(k, _). length k + 8) bs)"
  by (auto simp: node_size_def o_def split_def intro!: arg_cong [where f = sum_list])

text \<open>
  Both halves of an overfull leaf fit a page and neither is empty, since every cell is at most an
  eighth of a page; likewise for a branch, whose middle entry goes up.
\<close>

lemma split_leaf_fits:
  assumes "\<forall>(k, l) \<in> set es. length k \<le> 1024" "8175 < node_size (map index_cell es)" "node_size (map index_cell es) \<le> 8175 + 1038"
  obtains m where "byte_midpoint (map (\<lambda>(k, _). length k + 10) es) = Inr m" "0 < m" "m < length es"
    "node_size (map index_cell (take m es)) \<le> 8175" "node_size (map index_cell (drop m es)) \<le> 8175"
proof -
  let ?ns = "map (\<lambda>(k, _). length k + 10) es"
  have b: "\<forall>n \<in> set ?ns. 10 \<le> n \<and> n \<le> 1034" using assms(1) by auto
  have n: "10 * length es \<le> sum_list ?ns" using sum_list_bounds [OF b] by simp
  have s: "8175 < 4 * length es + sum_list ?ns" "4 * length es + sum_list ?ns \<le> 8175 + 1038"
    using assms(2,3) by (simp_all add: node_size_sizes)
  then have "0 < sum_list ?ns" using n by linarith
  from midpoint_facts [OF b this] obtain m where m: "byte_midpoint ?ns = Inr m" "0 < m" "m \<le> length ?ns"
    "2 * sum_list (take (m - 1) ?ns) < sum_list ?ns" "sum_list ?ns \<le> 2 * sum_list (take m ?ns)"
    "sum_list (take m ?ns) \<le> sum_list (take (m - 1) ?ns) + 1034" "10 * m \<le> sum_list (take m ?ns)"
    "sum_list ?ns = sum_list (take m ?ns) + sum_list (drop m ?ns)" "10 * (length ?ns - m) \<le> sum_list (drop m ?ns)"
    by metis
  have "m \<noteq> length es"
  proof
    assume "m = length es"
    then have "sum_list (take m ?ns) = sum_list ?ns" by simp
    then show False using m(4,6) s(1) n by linarith
  qed
  then have lt: "m < length es" using m(3) by simp
  have "4 * m + sum_list (take m ?ns) \<le> 8175" using m(4,6,7) s(2) n by linarith
  moreover have "4 * (length es - m) + sum_list (drop m ?ns) \<le> 8175" using m(5,8,9) s(2) n by simp
  ultimately show thesis using that [OF m(1,2) lt] lt by (simp add: node_size_sizes take_map drop_map)
qed

lemma split_branch_fits:
  assumes "\<forall>(k, c) \<in> set es. length k \<le> 1024" "8175 < node_size (map branch_cell es)" "node_size (map branch_cell es) \<le> 8175 + 1036"
  obtains m where "byte_midpoint (map (\<lambda>(k, _). length k + 8) es) = Inr m" "1 < m" "m < length es"
    "node_size (map branch_cell (take (m - 1) es)) \<le> 8175" "node_size (map branch_cell (drop m es)) \<le> 8175"
proof -
  let ?ns = "map (\<lambda>(k, _). length k + 8) es"
  have b: "\<forall>n \<in> set ?ns. 8 \<le> n \<and> n \<le> 1032" using assms(1) by auto
  have n: "8 * length es \<le> sum_list ?ns" using sum_list_bounds [OF b] by simp
  have s: "8175 < 4 * length es + sum_list ?ns" "4 * length es + sum_list ?ns \<le> 8175 + 1036"
    using assms(2,3) by (simp_all add: node_size_sizes)
  then have "0 < sum_list ?ns" using n by linarith
  from midpoint_facts [OF b this] obtain m where m: "byte_midpoint ?ns = Inr m" "0 < m" "m \<le> length ?ns"
    "2 * sum_list (take (m - 1) ?ns) < sum_list ?ns" "sum_list ?ns \<le> 2 * sum_list (take m ?ns)"
    "sum_list (take m ?ns) \<le> sum_list (take (m - 1) ?ns) + 1032" "8 * (m - 1) \<le> sum_list (take (m - 1) ?ns)"
    "sum_list ?ns = sum_list (take m ?ns) + sum_list (drop m ?ns)" "8 * (length ?ns - m) \<le> sum_list (drop m ?ns)"
    by metis
  have "m \<noteq> length es"
  proof
    assume "m = length es"
    then have "sum_list (take m ?ns) = sum_list ?ns" by simp
    then show False using m(4,6) s(1) n by linarith
  qed
  then have lt: "m < length es" using m(3) by simp
  have "m \<noteq> 1" using m(5,6) s(1) n by auto
  then have m1: "1 < m" using m(2) by simp
  have "4 * (m - 1) + sum_list (take (m - 1) ?ns) \<le> 8175" using m(4,7) s(2) n by linarith
  moreover have "4 * (length es - m) + sum_list (drop m ?ns) \<le> 8175" using m(5,8,9) s(2) n by simp
  ultimately show thesis using that [OF m(1) m1 lt] lt by (simp add: node_size_sizes take_map drop_map)
qed

subsection \<open>All entries of a node\<close>

lemma map_filter_live: "map snd (List.map_filter (\<lambda>(s, c). map_option (Pair s) c) cs) = live_of (map snd cs)"
  by (induction cs) (auto simp: map_filter_simps split: option.splits)

lemma iter_cells_live: "page_inv sp \<Longrightarrow> \<exists>xs. iter_cells sp = Inr xs \<and> map snd xs = live_of (cells (raw sp))"
proof -
  assume i: "page_inv sp"
  have "mapR (\<lambda>slot. bindR (get_cell sp slot) (\<lambda>c. Inr (slot, c))) [0..<cnt (raw sp)]
      = Inr (map (\<lambda>slot. (slot, cell (raw sp) slot)) [0..<cnt (raw sp)])"
    by (rule mapR_Inr) (simp add: get_cell_inv [OF i])
  then show ?thesis by (simp add: iter_cells_def accessors map_filter_live cells_def o_def)
qed

lemma mapR_map: "mapR f (map g xs) = mapR (\<lambda>x. f (g x)) xs"
  by (induction xs) simp_all

lemma mapR_snd: "mapR (\<lambda>(_, c). f c) xs = mapR f (map snd xs)"
  by (induction xs) auto

lemma index_entries_leaf: "leaf_page es nx (raw sp) \<Longrightarrow> index_entries sp = Inr es"
proof -
  assume l: "leaf_page es nx (raw sp)"
  obtain xs where xs: "iter_cells sp = Inr xs" "map snd xs = map index_cell es"
    using iter_cells_live [OF leaf_pageD(1) [OF l]] leaf_pageD(3) [OF l] by auto
  have "mapR (\<lambda>e. decode_index_entry (index_cell e)) es = Inr (map (\<lambda>e. e) es)"
    by (rule mapR_Inr) (rule decode_index_cell [OF l])
  then show ?thesis using xs by (simp add: index_entries_def mapR_snd mapR_map)
qed

lemma branch_entries_branch: "branch_page es nx (raw sp) \<Longrightarrow> branch_entries sp = Inr es"
proof -
  assume l: "branch_page es nx (raw sp)"
  obtain xs where xs: "iter_cells sp = Inr xs" "map snd xs = map branch_cell es"
    using iter_cells_live [OF branch_pageD(1) [OF l]] branch_pageD(3) [OF l] by auto
  have "mapR (\<lambda>e. decode_branch_entry (branch_cell e)) es = Inr (map (\<lambda>e. e) es)"
    by (rule mapR_Inr) (rule decode_branch_cell [OF l])
  then show ?thesis using xs by (simp add: branch_entries_def mapR_snd mapR_map)
qed

end
