(* ===== verification/Btree.thy ===== *)
theory Btree
  imports Node Filestore
begin

text \<open>
  The B-tree index (\<open>src/src/index/btree.rs\<close>), written against the page store: every operation
  takes the store's operations \<open>ops\<close> and runs on the store's state. The root's page never moves.
\<close>

subsection \<open>Descending\<close>

definition MAX_DEPTH :: nat where "MAX_DEPTH = 64"

definition read_node :: "'s store_ops \<Rightarrow> nat \<Rightarrow> ('s, slotted) act" where
  "read_node ops page_id =
     bindA (read_page ops page_id) (\<lambda>p.
     bindA (liftA (from_bytes p)) (\<lambda>sp.
     bindA (liftA (node_type sp)) (\<lambda>t.
       if t = PIndexLeaf \<or> t = PIndexBranch then retA sp else failA (Io InvalidData))))"

text \<open>\<open>find_leaf\<close>; the number counts the turns its loop has left.\<close>

fun find_leaf_loop :: "'s store_ops \<Rightarrow> bytes \<Rightarrow> nat \<Rightarrow> nat \<Rightarrow> ('s, nat \<times> slotted) act" where
  "find_leaf_loop ops key 0 page_id = failA (Io InvalidData)"
| "find_leaf_loop ops key (Suc n) page_id =
     bindA (read_node ops page_id) (\<lambda>sp.
     bindA (liftA (node_type sp)) (\<lambda>t.
       case t of
         PIndexLeaf \<Rightarrow> retA (page_id, sp)
       | PIndexBranch \<Rightarrow> bindA (liftA (find_child sp key)) (find_leaf_loop ops key n)
       | _ \<Rightarrow> failA (Io InvalidData)))"

definition find_leaf :: "'s store_ops \<Rightarrow> nat \<Rightarrow> bytes \<Rightarrow> ('s, nat \<times> slotted) act" where
  "find_leaf ops root key = find_leaf_loop ops key (MAX_DEPTH + 1) root"

subsection \<open>Insertion\<close>

datatype insert_outcome = Done | Split bytes nat

text \<open>An \<open>assert!\<close> on whether a cell went in.\<close>

definition asserted :: "(slotted \<times> bool) res \<Rightarrow> slotted res" where
  "asserted r = bindR r (\<lambda>(sp, done). if done then Inr sp else Inl Panic)"

text \<open>\<open>partition_point\<close> of entries in key order, then \<open>Vec::insert\<close>.\<close>

definition partition_point :: "('a \<Rightarrow> bool) \<Rightarrow> 'a list \<Rightarrow> nat" where
  "partition_point P xs = length (takeWhile P xs)"

definition insert_nth :: "nat \<Rightarrow> 'a \<Rightarrow> 'a list \<Rightarrow> 'a list" where
  "insert_nth i x xs = take i xs @ x # drop i xs"

definition split_leaf :: "'s store_ops \<Rightarrow> nat \<Rightarrow> (bytes \<times> location) list \<Rightarrow> nat \<Rightarrow> nat \<Rightarrow> ('s, insert_outcome) act" where
  "split_leaf ops page_id entries pos nxt =
     bindA (liftA (if pos = length entries - 1 \<and> nxt = 0 then Inr pos
                   else byte_midpoint (map (\<lambda>(k, _). length k + 10) entries))) (\<lambda>mid.
     let right_entries = drop mid entries; entries = take mid entries in
     bindA (liftA (case right_entries of [] \<Rightarrow> Inl Panic | (k, _) # _ \<Rightarrow> Inr k)) (\<lambda>separator.
     bindA (allocate_page ops) (\<lambda>new_right_id.
     bindA (liftA (expect (build_leaf_page entries new_right_id))) (\<lambda>left.
     bindA (liftA (expect (build_leaf_page right_entries nxt))) (\<lambda>right.
     bindA (write_page ops page_id (into_page left)) (\<lambda>_.
     bindA (write_page ops new_right_id (into_page right)) (\<lambda>_.
     retA (Split separator new_right_id))))))))"

definition insert_into_leaf :: "'s store_ops \<Rightarrow> nat \<Rightarrow> slotted \<Rightarrow> bytes \<Rightarrow> location \<Rightarrow> ('s, insert_outcome) act" where
  "insert_into_leaf ops page_id sp key loc =
     bindA (liftA (first_slot_where sp (key_from key))) (\<lambda>r.
     let slot = (case r of None \<Rightarrow> slot_count sp | Some slot \<Rightarrow> slot);
         entry = encode_index_entry key loc in
     bindA (liftA (fits sp (length entry))) (\<lambda>fit.
     if fit then
       bindA (change_page ops page_id sp (\<lambda>sp. asserted (insert_cell_at sp slot entry))) (\<lambda>_. retA Done)
     else
       bindA (liftA (index_entries sp)) (\<lambda>entries.
       let nxt = next_page sp;
           pos = partition_point (\<lambda>(k, _). k < key) entries;
           entries = insert_nth pos (key, loc) entries in
       bindA (liftA (build_leaf_page entries nxt)) (\<lambda>built.
       case built of
         Some sp \<Rightarrow> bindA (write_page ops page_id (into_page sp)) (\<lambda>_. retA Done)
       | None \<Rightarrow> split_leaf ops page_id entries pos nxt))))"

definition split_branch :: "'s store_ops \<Rightarrow> nat \<Rightarrow> (bytes \<times> nat) list \<Rightarrow> nat \<Rightarrow> ('s, insert_outcome) act" where
  "split_branch ops page_id entries rightmost =
     bindA (liftA (byte_midpoint (map (\<lambda>(k, _). length k + 8) entries))) (\<lambda>m.
     let mid = m - 1; right_entries = drop (mid + 1) entries; entries = take (mid + 1) entries in
     bindA (liftA (if entries = [] then Inl Panic else Inr (last entries))) (\<lambda>(promoted_key, promoted_child).
     let entries = butlast entries in
     bindA (allocate_page ops) (\<lambda>new_right_id.
     bindA (liftA (expect (build_branch_page entries promoted_child))) (\<lambda>left.
     bindA (liftA (expect (build_branch_page right_entries rightmost))) (\<lambda>right.
     bindA (write_page ops page_id (into_page left)) (\<lambda>_.
     bindA (write_page ops new_right_id (into_page right)) (\<lambda>_.
     retA (Split promoted_key new_right_id))))))))"

text \<open>What a branch does when its child \<open>child_id\<close> split.\<close>

definition absorb_split :: "'s store_ops \<Rightarrow> nat \<Rightarrow> slotted \<Rightarrow> bytes \<Rightarrow> nat option \<Rightarrow> nat \<Rightarrow> bytes \<Rightarrow> nat \<Rightarrow> ('s, insert_outcome) act" where
  "absorb_split ops page_id sp key slot child_id separator new_right =
     (let routing = encode_branch_entry separator child_id in
      bindA (liftA (fits sp (length routing))) (\<lambda>fit.
      if fit then
        (case slot of
           Some slot \<Rightarrow>
             bindA (liftA (bindR (live_cell sp slot) decode_branch_entry)) (\<lambda>(next_separator, _).
             let rerouted = encode_branch_entry next_separator new_right in
             bindA (change_page ops page_id sp (\<lambda>sp.
               bindR (asserted (insert_cell_at sp slot routing)) (\<lambda>sp. asserted (update_cell sp (slot + 1) rerouted))))
             (\<lambda>_. retA Done))
         | None \<Rightarrow>
             bindA (change_page ops page_id sp (\<lambda>sp.
               bindR (asserted (insert_cell_at sp (slot_count sp) routing)) (\<lambda>sp. set_next_page sp new_right)))
             (\<lambda>_. retA Done))
      else
        bindA (liftA (branch_entries sp)) (\<lambda>entries.
        let idx = partition_point (\<lambda>(k, _). k \<le> key) entries;
            (entries, rightmost) =
              (if idx < length entries
               then (insert_nth idx (separator, child_id) (entries[idx := (fst (entries ! idx), new_right)]), next_page sp)
               else (entries @ [(separator, child_id)], new_right)) in
        bindA (liftA (build_branch_page entries rightmost)) (\<lambda>built.
        case built of
          Some sp \<Rightarrow> bindA (write_page ops page_id (into_page sp)) (\<lambda>_. retA Done)
        | None \<Rightarrow> split_branch ops page_id entries rightmost))))"

text \<open>\<open>insert_into_branch\<close>, with the call of \<open>insert_into\<close> on the child as \<open>descend\<close>.\<close>

definition insert_into_branch :: "'s store_ops \<Rightarrow> (nat \<Rightarrow> ('s, insert_outcome) act) \<Rightarrow> nat \<Rightarrow> slotted \<Rightarrow> bytes \<Rightarrow> ('s, insert_outcome) act" where
  "insert_into_branch ops descend page_id sp key =
     bindA (liftA (route sp key)) (\<lambda>(slot, child_id).
     bindA (descend child_id) (\<lambda>outcome.
     case outcome of
       Done \<Rightarrow> retA Done
     | Split separator new_right \<Rightarrow> absorb_split ops page_id sp key slot child_id separator new_right))"

lemma insert_into_branch_cong [fundef_cong]:
  "(\<And>child s. d child s = d' child s) \<Longrightarrow> insert_into_branch ops d i sp key = insert_into_branch ops d' i sp key"
proof -
  assume "\<And>child s. d child s = d' child s"
  then have "d = d'" by blast
  then show ?thesis by simp
qed

function insert_into :: "'s store_ops \<Rightarrow> nat \<Rightarrow> bytes \<Rightarrow> location \<Rightarrow> nat \<Rightarrow> ('s, insert_outcome) act" where
  "insert_into ops page_id key loc depth =
     (if depth > MAX_DEPTH then failA (Io InvalidData)
      else bindA (read_node ops page_id) (\<lambda>sp.
        bindA (liftA (node_type sp)) (\<lambda>t.
          case t of
            PIndexLeaf \<Rightarrow> insert_into_leaf ops page_id sp key loc
          | PIndexBranch \<Rightarrow> insert_into_branch ops (\<lambda>child. insert_into ops child key loc (depth + 1)) page_id sp key
          | _ \<Rightarrow> failA (Io InvalidData))))"
  by pat_completeness auto
termination
  by (relation "measure (\<lambda>(ops, page_id, key, loc, depth). MAX_DEPTH + 1 - depth)") auto

declare insert_into.simps [simp del]

definition grow_new_root :: "'s store_ops \<Rightarrow> nat \<Rightarrow> bytes \<Rightarrow> nat \<Rightarrow> ('s, unit) act" where
  "grow_new_root ops root separator new_right =
     bindA (allocate_page ops) (\<lambda>left_id.
     bindA (read_page ops root) (\<lambda>old_root.
     bindA (write_page ops left_id old_root) (\<lambda>_.
     bindA (liftA (set_next_page (slotted_new PIndexBranch) new_right)) (\<lambda>sp.
     bindA (liftA (insert_cell sp (encode_branch_entry separator left_id))) (\<lambda>(sp, slot).
     if slot = None then failA Panic else write_page ops root (into_page sp))))))"

definition bt_insert :: "'s store_ops \<Rightarrow> nat \<Rightarrow> bytes \<Rightarrow> location \<Rightarrow> ('s, unit) act" where
  "bt_insert ops root key loc =
     (if length key > MAX_KEY_LEN then failA (Io InvalidInput)
      else bindA (insert_into ops root key loc 0) (\<lambda>outcome.
        case outcome of Done \<Rightarrow> retA () | Split separator new_right \<Rightarrow> grow_new_root ops root separator new_right))"

definition bt_remove :: "'s store_ops \<Rightarrow> nat \<Rightarrow> bytes \<Rightarrow> ('s, unit) act" where
  "bt_remove ops root key =
     bindA (find_leaf ops root key) (\<lambda>(page_id, sp).
     bindA (liftA (slot_of sp key)) (\<lambda>r.
       case r of
         Some slot \<Rightarrow> change_page ops page_id sp (\<lambda>sp. remove_cell_at sp slot)
       | None \<Rightarrow> retA ()))"

definition bt_lookup :: "'s store_ops \<Rightarrow> nat \<Rightarrow> bytes \<Rightarrow> ('s, location option) act" where
  "bt_lookup ops root key =
     bindA (find_leaf ops root key) (\<lambda>(_, sp).
     bindA (liftA (slot_of sp key)) (\<lambda>r.
       case r of
         None \<Rightarrow> retA None
       | Some slot \<Rightarrow> bindA (liftA (bindR (live_cell sp slot) decode_index_entry)) (\<lambda>(_, loc). retA (Some loc))))"


subsection \<open>One node through the store\<close>

lemma partition_point_eq: "\<forall>x \<in> set xs. P x \<Longrightarrow> (\<forall>y \<in> set ys. \<not> P y) \<Longrightarrow> partition_point P (xs @ ys) = length xs"
proof -
  assume "\<forall>x \<in> set xs. P x" "\<forall>y \<in> set ys. \<not> P y"
  then have "takeWhile P (xs @ ys) = xs" by (cases ys) auto
  then show ?thesis by (simp add: partition_point_def)
qed

context grow_store begin

lemma read_node_reads:
  assumes "sound s" "view s i = Some b" "node_page t cs nx b" "t = PIndexLeaf \<or> t = PIndexBranch"
  shows "\<exists>sp s'. read_node ops i s = (Inr sp, s') \<and> raw sp = b \<and> node_type sp = Inr t
    \<and> sound s' \<and> view s' = view s \<and> room s' = room s"
proof -
  have sl: "is_slotted t" using assms(4) by auto
  obtain p s' where p: "read_page ops i s = (Inr p, s')" "page_bytes p = b" "sound s'" "view s' = view s" "room s' = room s"
    using read_law [OF assms(1,2)] by blast
  have f: "from_bytes p = Inr \<lparr>buf = p, valid = True\<rparr>" by (rule from_bytes_node [OF _ sl]) (use assms(3) p(2) in simp)
  have "node_type \<lparr>buf = p, valid = True\<rparr> = Inr t" using node_pageD(5) [of t cs nx "\<lparr>buf = p, valid = True\<rparr>"] assms(3) p(2) sl by simp
  then show ?thesis using p f assms(4) by (auto simp: read_node_def)
qed

text \<open>Writing the two halves of a split node.\<close>

lemma write_halves:
  assumes "sound s" "view s i \<noteq> None" "0 < room s"
    and "\<And>j. j < 2 ^ 64 \<Longrightarrow> \<exists>l. left j = Inr (Some l) \<and> P j (raw l) \<and> length (raw l) = USABLE_PAGE_SIZE"
    and "right = Inr (Some r)" "length (raw r) = USABLE_PAGE_SIZE"
  shows "\<exists>j s' bl. bindA (allocate_page ops) (\<lambda>j.
       bindA (liftA (expect (left j))) (\<lambda>l.
       bindA (liftA (expect right)) (\<lambda>r.
       bindA (write_page ops i (into_page l)) (\<lambda>_.
       bindA (write_page ops j (into_page r)) (\<lambda>_.
       retA (Split sep j)))))) s = (Inr (Split sep j), s') \<and> view s j = None \<and> sound s'
     \<and> view s' = (view s)(i \<mapsto> bl, j \<mapsto> raw r) \<and> P j bl \<and> room s \<le> room s' + 1"
proof -
  obtain j b s1 where a: "allocate_page ops s = (Inr j, s1)" "view s j = None" "sound s1" "view s1 = (view s)(j \<mapsto> b)" "room s \<le> room s1 + 1"
    using allocate_law [OF assms(1,3)] by blast
  have "j < 2 ^ 64" using view_page [OF a(3), of j b] a(4) by simp
  then obtain l where l: "left j = Inr (Some l)" "P j (raw l)" "length (raw l) = USABLE_PAGE_SIZE" using assms(4) by blast
  obtain s2 where w1: "write_page ops i (into_page l) s1 = (Inr (), s2)" "sound s2" "view s2 = (view s1)(i \<mapsto> raw l)" "room s2 = room s1"
    using write_law [OF a(3), of i "into_page l"] assms(2) a(2,4) l(3) by (cases "i = j") auto
  obtain s3 where w2: "write_page ops j (into_page r) s2 = (Inr (), s3)" "sound s3" "view s3 = (view s2)(j \<mapsto> raw r)" "room s3 = room s2"
    using write_law [OF w1(2), of j "into_page r"] w1(3) a(4) assms(6) by (cases "i = j") auto
  show ?thesis using a l w1 w2 assms(5) by (auto simp: expect_def)
qed

lemma insert_into_leaf_ok:
  assumes "sound s" "view s i = Some (raw sp)" "0 < room s" "leaf_page (xs @ ys) nx (raw sp)" "nx < 2 ^ 64"
    and "\<forall>e \<in> set xs. fst e < key" "\<forall>e \<in> set ys. key \<le> fst e"
    and "\<forall>(k, l) \<in> set (xs @ ys). length k \<le> 1024" "length key \<le> 1024" "loc_ok loc"
  shows "\<exists>out s'. insert_into_leaf ops i sp key loc s = (Inr out, s') \<and> sound s' \<and> room s \<le> room s' + 1 \<and> (case out of
      Done \<Rightarrow> \<exists>b. view s' = (view s)(i \<mapsto> b) \<and> leaf_page (xs @ (key, loc) # ys) nx b
    | Split sep j \<Rightarrow> \<exists>L R b1 b2. xs @ (key, loc) # ys = L @ R \<and> L \<noteq> [] \<and> R \<noteq> [] \<and> sep = fst (hd R) \<and> view s j = None
        \<and> view s' = (view s)(i \<mapsto> b1, j \<mapsto> b2) \<and> leaf_page L j b1 \<and> leaf_page R nx b2)"
proof -
  let ?es = "xs @ (key, loc) # ys"
  note lp = leaf_pageD [OF assms(4)]
  have node: "node_page PIndexLeaf (map index_cell (xs @ ys)) nx (raw sp)" using assms(4) by (simp add: leaf_page_def)
  have locs: "\<forall>(k, l) \<in> set ?es. loc_ok l" using assms(4,10) by (auto simp: leaf_page_def)
  obtain r where r: "first_slot_where sp (key_from key) = Inr r" "found_at sp r (map index_cell xs) (map index_cell ys)"
    using leaf_search [OF assms(4,6,7)] by blast
  define slot where "slot = (case r of None \<Rightarrow> slot_count sp | Some slot \<Rightarrow> slot)"
  have slot: "slot \<le> cnt (raw sp)" "live_of (take slot (cells (raw sp))) = map index_cell xs"
    "live_of (drop slot (cells (raw sp))) = map index_cell ys"
    using r(2) lp(6) by (auto simp: slot_def found_at_def Cons_nth_drop_Suc [symmetric] split: option.splits)
  show ?thesis
  proof (cases "4 + length (encode_index_entry key loc) \<le> reclaimable (raw sp)")
    case True
    then have f: "fits sp (length (encode_index_entry key loc)) = Inr True" using fits_node [OF node] by simp
    obtain sp' where sp': "insert_cell_at sp slot (encode_index_entry key loc) = Inr (sp', True)"
      "node_page PIndexLeaf (map index_cell xs @ encode_index_entry key loc # map index_cell ys) nx (raw sp')"
      using insert_at_node [OF node is_slotted_index(1) slot(1) True] slot(2,3) by auto
    have l': "leaf_page ?es nx (raw sp')" using sp'(2) locs by (simp add: leaf_page_def)
    obtain s' where "change_page ops i sp (\<lambda>sp. asserted (insert_cell_at sp slot (encode_index_entry key loc))) s = (Inr (), s')"
      "sound s'" "view s' = (view s)(i \<mapsto> raw sp')" "room s' = room s"
      using change_law [OF assms(1), of i "\<lambda>sp. asserted (insert_cell_at sp slot (encode_index_entry key loc))" sp sp']
        assms(2) sp'(1) leaf_pageD(2) [OF l'] by (auto simp: asserted_def)
    then show ?thesis using r(1) f l' slot_def
      by (intro exI [of _ Done] exI [of _ s']) (auto simp: insert_into_leaf_def Let_def)
  next
    case False
    then have f: "fits sp (length (encode_index_entry key loc)) = Inr False" using fits_node [OF node] by simp
    have pos: "partition_point (\<lambda>(k, _). k < key) (xs @ ys) = length xs"
      using assms(6,7) by (intro partition_point_eq) auto
    have run: "insert_into_leaf ops i sp key loc s = bindA (liftA (build_leaf_page ?es nx)) (\<lambda>built. case built of
         Some sp \<Rightarrow> bindA (write_page ops i (into_page sp)) (\<lambda>_. retA Done)
       | None \<Rightarrow> split_leaf ops i ?es (length xs) nx) s"
      using r(1) f index_entries_leaf [OF assms(4)] lp(4) pos by (simp add: insert_into_leaf_def Let_def insert_nth_def)
    show ?thesis
    proof (cases "13 + node_size (map index_cell ?es) \<le> 8188")
      case True
      then obtain sp' where sp': "build_leaf_page ?es nx = Inr (Some sp')" "leaf_page ?es nx (raw sp')"
        using build_leaf_spec [OF assms(5) locs] by auto
      obtain s' where "write_page ops i (into_page sp') s = (Inr (), s')" "sound s'" "view s' = (view s)(i \<mapsto> raw sp')" "room s' = room s"
        using write_law [OF assms(1), of i "into_page sp'"] assms(2) leaf_pageD(2) [OF sp'(2)] by auto
      then show ?thesis using run sp' by (intro exI [of _ Done] exI [of _ s']) auto
    next
      case False
      then have big: "build_leaf_page ?es nx = Inr None" using build_leaf_spec [OF assms(5) locs] by auto
      have lens: "\<forall>(k, l) \<in> set ?es. length k \<le> 1024" using assms(8,9) by auto
      have old: "node_size (map index_cell xs) + node_size (map index_cell ys) \<le> 8175" using lp(9) by (simp add: node_size_def)
      have "node_size (map index_cell ?es) \<le> 8175 + 1038" using old assms(9) by simp
      moreover have "8175 < node_size (map index_cell ?es)" using False by simp
      ultimately obtain m where m: "byte_midpoint (map (\<lambda>(k, _). length k + 10) ?es) = Inr m" "0 < m" "m < length ?es"
        "node_size (map index_cell (take m ?es)) \<le> 8175" "node_size (map index_cell (drop m ?es)) \<le> 8175"
        using split_leaf_fits [OF lens] by metis
      define mid where "mid = (if length xs = length ?es - 1 \<and> nx = 0 then length xs else m)"
      have mid: "0 < mid" "mid < length ?es" "node_size (map index_cell (take mid ?es)) \<le> 8175" "node_size (map index_cell (drop mid ?es)) \<le> 8175"
        using m old False assms(9) by (auto simp: mid_def)
      define L R where "L = take mid ?es" and "R = drop mid ?es"
      have "?es = L @ R" unfolding L_def R_def by (rule append_take_drop_id [symmetric])
      moreover have "L \<noteq> []" "R \<noteq> []" using mid(1,2) by (auto simp: L_def R_def)
      ultimately have LR: "?es = L @ R" "L \<noteq> []" "R \<noteq> []" by blast+
      have sub: "\<forall>(k, l) \<in> set L. loc_ok l" "\<forall>(k, l) \<in> set R. loc_ok l" using locs unfolding LR(1) by auto
      obtain rp where rp: "build_leaf_page R nx = Inr (Some rp)" "leaf_page R nx (raw rp)"
        using build_leaf_spec [OF assms(5) sub(2)] mid(4) by (auto simp: R_def)
      have left: "\<exists>l. build_leaf_page L j = Inr (Some l) \<and> leaf_page L j (raw l) \<and> length (raw l) = USABLE_PAGE_SIZE" if "j < 2 ^ 64" for j
        using build_leaf_spec [OF that sub(1)] mid(3) leaf_pageD(2) by (auto simp: L_def)
      have run2: "split_leaf ops i ?es (length xs) nx s = bindA (allocate_page ops) (\<lambda>j.
         bindA (liftA (expect (build_leaf_page L j))) (\<lambda>l.
         bindA (liftA (expect (build_leaf_page R nx))) (\<lambda>r.
         bindA (write_page ops i (into_page l)) (\<lambda>_.
         bindA (write_page ops j (into_page r)) (\<lambda>_.
         retA (Split (fst (hd R)) j)))))) s"
        using m(1) LR(3) unfolding split_leaf_def L_def R_def mid_def
        by (cases "drop mid ?es") (auto simp: Let_def mid_def split: prod.splits)
      obtain j s' bl where h: "split_leaf ops i ?es (length xs) nx s = (Inr (Split (fst (hd R)) j), s')" "view s j = None" "sound s'"
        "view s' = (view s)(i \<mapsto> bl, j \<mapsto> raw rp)" "leaf_page L j bl" "room s \<le> room s' + 1"
        using write_halves [OF assms(1) _ assms(3) _ rp(1) leaf_pageD(2) [OF rp(2)], of i "build_leaf_page L" "leaf_page L" "fst (hd R)"]
          assms(2) left unfolding run2 by auto
      have "insert_into_leaf ops i sp key loc s = (Inr (Split (fst (hd R)) j), s')" using run big h(1) by simp
      moreover have "\<exists>L R b1 b2. ?es = L @ R \<and> L \<noteq> [] \<and> R \<noteq> [] \<and> fst (hd R') = fst (hd R) \<and> view s j = None
        \<and> view s' = (view s)(i \<mapsto> b1, j \<mapsto> b2) \<and> leaf_page L j b1 \<and> leaf_page R nx b2" if "R' = R" for R'
        using LR h(2,4,5) rp(2) that by blast
      ultimately show ?thesis using h(3,6) by (intro exI [of _ "Split (fst (hd R)) j"] exI [of _ s']) auto
    qed
  qed
qed

text \<open>
  A branch whose child split: the separator goes in front of what routed to the child, which now
  routes to its right half.
\<close>

lemma absorb_split_ok:
  assumes "sound s" "view s i = Some (raw sp)" "0 < room s" "branch_page (xs @ ys) nx (raw sp)" "nx < 2 ^ 64"
    and "\<forall>e \<in> set xs. fst e \<le> key" "\<forall>e \<in> set ys. key < fst e" "found_at sp slot (map branch_cell xs) (map branch_cell ys)"
    and "\<forall>(k, c) \<in> set (xs @ ys). length k \<le> 1024" "length sep \<le> 1024" "child < 2 ^ 64" "new < 2 ^ 64"
    and es: "es = xs @ (sep, child) # (case ys of [] \<Rightarrow> [] | (k, _) # ys' \<Rightarrow> (k, new) # ys')"
    and rm: "rm = (case ys of [] \<Rightarrow> new | _ \<Rightarrow> nx)"
  shows "\<exists>out s'. absorb_split ops i sp key slot child sep new s = (Inr out, s') \<and> sound s' \<and> room s \<le> room s' + 1 \<and> (case out of
      Done \<Rightarrow> \<exists>b. view s' = (view s)(i \<mapsto> b) \<and> branch_page es rm b
    | Split k j \<Rightarrow> \<exists>L c R b1 b2. es = L @ (k, c) # R \<and> L \<noteq> [] \<and> R \<noteq> [] \<and> view s j = None
        \<and> view s' = (view s)(i \<mapsto> b1, j \<mapsto> b2) \<and> branch_page L c b1 \<and> branch_page R rm b2)"
proof -
  note bp = branch_pageD [OF assms(4)]
  have node: "node_page PIndexBranch (map branch_cell (xs @ ys)) nx (raw sp)" using assms(4) by (simp add: branch_page_def)
  have kids: "\<forall>(k, c) \<in> set es. c < 2 ^ 64" using assms(4,11,12) by (auto simp: es branch_page_def split: list.splits)
  have rm64: "rm < 2 ^ 64" using assms(5,12) by (auto simp: rm split: list.splits)
  show ?thesis
  proof (cases "4 + length (encode_branch_entry sep child) \<le> reclaimable (raw sp)")
    case True
    then have f: "fits sp (length (encode_branch_entry sep child)) = Inr True" using fits_node [OF node] by simp
    show ?thesis
    proof (cases slot)
      case None
      then have ys: "ys = []" "live_of (cells (raw sp)) = map branch_cell xs" using assms(8) by (auto simp: found_at_def)
      obtain sp' where sp': "insert_cell_at sp (slot_count sp) (encode_branch_entry sep child) = Inr (sp', True)"
        "node_page PIndexBranch (map branch_cell xs @ [encode_branch_entry sep child]) nx (raw sp')"
        using insert_at_node [OF node is_slotted_index(2) order_refl True] ys bp(6) by auto
      obtain sp'' where sp'': "set_next_page sp' new = Inr sp''" "node_page PIndexBranch (map branch_cell es) rm (raw sp'')"
        using set_next_node [OF sp'(2) is_slotted_index(2) assms(12)] ys(1) by (auto simp: es rm)
      have b: "branch_page es rm (raw sp'')" using sp''(2) kids by (simp add: branch_page_def)
      obtain s' where "change_page ops i sp (\<lambda>sp. bindR (asserted (insert_cell_at sp (slot_count sp) (encode_branch_entry sep child)))
          (\<lambda>sp. set_next_page sp new)) s = (Inr (), s')" "sound s'" "view s' = (view s)(i \<mapsto> raw sp'')" "room s' = room s"
        using change_law [OF assms(1), of i "\<lambda>sp. bindR (asserted (insert_cell_at sp (slot_count sp) (encode_branch_entry sep child)))
          (\<lambda>sp. set_next_page sp new)" sp sp''] assms(2) sp'(1) sp''(1) branch_pageD(2) [OF b] by (auto simp: asserted_def)
      then show ?thesis using f None b by (intro exI [of _ Done] exI [of _ s']) (auto simp: absorb_split_def Let_def)
    next
      case (Some n)
      then obtain y ys' where n: "n < cnt (raw sp)" "live_of (take n (cells (raw sp))) = map branch_cell xs" "ys = y # ys'"
        "cells (raw sp) ! n = Some (branch_cell y)" "live_of (drop (Suc n) (cells (raw sp))) = map branch_cell ys'"
        using assms(8) by (cases ys) (auto simp: found_at_def)
      obtain k c where y: "y = (k, c)" by (cases y)
      have lc: "live_cell sp n = Inr (encode_branch_entry k c)" using live_cell_at [OF bp(1) n(1,4)] y by simp
      have c64: "c < 2 ^ 64" using assms(4) n(3) y by (auto simp: branch_page_def)
      have d: "live_of (drop n (cells (raw sp))) = encode_branch_entry k c # map branch_cell ys'"
        using n(1,4,5) y by (simp add: Cons_nth_drop_Suc [symmetric])
      obtain sp' where sp': "insert_cell_at sp n (encode_branch_entry sep child) = Inr (sp', True)"
        "cells (raw sp') = take n (cells (raw sp)) @ Some (encode_branch_entry sep child) # drop n (cells (raw sp))"
        "node_page PIndexBranch (map branch_cell xs @ encode_branch_entry sep child # encode_branch_entry k c # map branch_cell ys') nx (raw sp')"
        using insert_at_node [OF node is_slotted_index(2) less_imp_le [OF n(1)] True] n(2) d by auto
      have at: "n + 1 < cnt (raw sp')" using arg_cong [OF sp'(2), of length] n(1) by simp
      have at2: "cells (raw sp') ! (n + 1) = Some (encode_branch_entry k c)"
        using n(1,4) y by (simp add: sp'(2) nth_append min_def del: nth_cells)
      have td: "live_of (take (n + 1) (cells (raw sp'))) = map branch_cell xs @ [encode_branch_entry sep child]"
        "live_of (drop (Suc (n + 1)) (cells (raw sp'))) = map branch_cell ys'"
        using n(1,2,5) by (simp_all add: sp'(2) min_def)
      obtain sp'' where sp'': "update_cell sp' (n + 1) (encode_branch_entry k new) = Inr (sp'', True)"
        "node_page PIndexBranch (map branch_cell es) rm (raw sp'')"
        using update_at_node [OF sp'(3) is_slotted_index(2) at at2, of "encode_branch_entry k new"] td n(3) y by (auto simp: es rm)
      have b: "branch_page es rm (raw sp'')" using sp''(2) kids by (simp add: branch_page_def)
      let ?f = "\<lambda>sp. bindR (asserted (insert_cell_at sp n (encode_branch_entry sep child)))
          (\<lambda>sp. asserted (update_cell sp (n + 1) (encode_branch_entry k new)))"
      have run: "?f sp = Inr sp''" using sp'(1) sp''(1) by (simp add: asserted_def)
      obtain s' where "change_page ops i sp ?f s = (Inr (), s')" "sound s'" "view s' = (view s)(i \<mapsto> raw sp'')" "room s' = room s"
        using change_law [OF assms(1), of i ?f sp sp''] run assms(2) branch_pageD(2) [OF b] by auto
      then show ?thesis using f Some b lc c64 by (intro exI [of _ Done] exI [of _ s']) (auto simp: absorb_split_def Let_def)
    qed
  next
    case False
    then have f: "fits sp (length (encode_branch_entry sep child)) = Inr False" using fits_node [OF node] by simp
    have pos: "partition_point (\<lambda>(k, _). k \<le> key) (xs @ ys) = length xs"
      using assms(6,7) by (intro partition_point_eq) auto
    have run: "absorb_split ops i sp key slot child sep new s = bindA (liftA (build_branch_page es rm)) (\<lambda>built. case built of
         Some sp \<Rightarrow> bindA (write_page ops i (into_page sp)) (\<lambda>_. retA Done)
       | None \<Rightarrow> split_branch ops i es rm) s"
      using f branch_entries_branch [OF assms(4)] bp(4) pos
      by (cases ys) (auto simp: absorb_split_def Let_def insert_nth_def es rm cong: option.case_cong)
    show ?thesis
    proof (cases "13 + node_size (map branch_cell es) \<le> 8188")
      case True
      then obtain sp' where sp': "build_branch_page es rm = Inr (Some sp')" "branch_page es rm (raw sp')"
        using build_branch_spec [OF rm64 kids] by auto
      obtain s' where "write_page ops i (into_page sp') s = (Inr (), s')" "sound s'" "view s' = (view s)(i \<mapsto> raw sp')" "room s' = room s"
        using write_law [OF assms(1), of i "into_page sp'"] assms(2) branch_pageD(2) [OF sp'(2)] by auto
      then show ?thesis using run sp' by (intro exI [of _ Done] exI [of _ s']) auto
    next
      case False
      then have big: "build_branch_page es rm = Inr None" using build_branch_spec [OF rm64 kids] by auto
      have lens: "\<forall>(k, c) \<in> set es. length k \<le> 1024" using assms(9,10) by (auto simp: es split: list.splits)
      have "node_size (map branch_cell xs) + node_size (map branch_cell ys) \<le> 8175" using bp(9) by (simp add: node_size_def)
      then have "node_size (map branch_cell es) \<le> 8175 + 1036" using assms(10) by (auto simp: es split: list.splits)
      moreover have "8175 < node_size (map branch_cell es)" using False by simp
      ultimately obtain m where m: "byte_midpoint (map (\<lambda>(k, _). length k + 8) es) = Inr m" "1 < m" "m < length es"
        "node_size (map branch_cell (take (m - 1) es)) \<le> 8175" "node_size (map branch_cell (drop m es)) \<le> 8175"
        using split_branch_fits [OF lens] by metis
      define L R where "L = take (m - 1) es" and "R = drop m es"
      obtain k c where kc: "es ! (m - 1) = (k, c)" by (cases "es ! (m - 1)")
      have t: "take m es = L @ [(k, c)]" using m(2,3) kc take_Suc_conv_app_nth [of "m - 1" es] by (simp add: L_def)
      have LR: "es = L @ (k, c) # R" "L \<noteq> []" "R \<noteq> []"
        using append_take_drop_id [of m es] t m(2,3) by (auto simp: L_def R_def)
      have sub: "\<forall>(k, c) \<in> set L. c < 2 ^ 64" "\<forall>(k, c) \<in> set R. c < 2 ^ 64" "c < 2 ^ 64" using kids unfolding LR(1) by auto
      obtain rp where rp: "build_branch_page R rm = Inr (Some rp)" "branch_page R rm (raw rp)"
        using build_branch_spec [OF rm64 sub(2)] m(5) by (auto simp: R_def)
      obtain lp where lp: "build_branch_page L c = Inr (Some lp)" "branch_page L c (raw lp)"
        using build_branch_spec [OF sub(3,1)] m(4) by (auto simp: L_def)
      have run2: "split_branch ops i es rm s = bindA (allocate_page ops) (\<lambda>j.
         bindA (liftA (expect (build_branch_page L c))) (\<lambda>l.
         bindA (liftA (expect (build_branch_page R rm))) (\<lambda>r.
         bindA (write_page ops i (into_page l)) (\<lambda>_.
         bindA (write_page ops j (into_page r)) (\<lambda>_.
         retA (Split k j)))))) s"
        using m(1,2,3) t by (auto simp: split_branch_def Let_def R_def)
      obtain j s' bl where h: "split_branch ops i es rm s = (Inr (Split k j), s')" "view s j = None" "sound s'"
        "view s' = (view s)(i \<mapsto> bl, j \<mapsto> raw rp)" "branch_page L c bl" "room s \<le> room s' + 1"
        using write_halves [OF assms(1) _ assms(3) _ rp(1) branch_pageD(2) [OF rp(2)], of i "\<lambda>_. build_branch_page L c" "\<lambda>_. branch_page L c" k]
          assms(2) lp branch_pageD(2) [OF lp(2)] unfolding run2 by auto
      have "absorb_split ops i sp key slot child sep new s = (Inr (Split k j), s')" using run big h(1) by simp
      moreover have "\<exists>L c R b1 b2. es = L @ (k, c) # R \<and> L \<noteq> [] \<and> R \<noteq> [] \<and> view s j = None
        \<and> view s' = (view s)(i \<mapsto> b1, j \<mapsto> b2) \<and> branch_page L c b1 \<and> branch_page R rm b2"
        using h(2,4,5) LR rp(2) by blast
      ultimately show ?thesis using h(3,6) by (intro exI [of _ "Split k j"] exI [of _ s']) auto
    qed
  qed
qed

end

end
