(* ===== verification/Btshape.thy ===== *)
theory Btshape
  imports Btree
begin

text \<open>
  Why the B-tree is right. \<open>tree\<close> is the tree the pages hold, as a value: \<open>repr\<close> says that the
  store's pages hold it, \<open>bal\<close> that its leaves are at one depth and no branch is without a
  separator, \<open>ord\<close> that the keys lie between their separators, \<open>linked\<close> that every leaf's next
  page is the leaf to its right. An insertion is followed down the tree: what it does to a leaf,
  and what a branch makes of a child that split.
\<close>

subsection \<open>The tree the pages hold\<close>

datatype tree = TLeaf nat "(bytes \<times> location) list" nat | TBranch nat "bytes list" "tree list"

fun pid :: "tree \<Rightarrow> nat" where
  "pid (TLeaf i es nx) = i"
| "pid (TBranch i ks ts) = i"

primrec ents :: "tree \<Rightarrow> (bytes \<times> location) list" where
  "ents (TLeaf i es nx) = es"
| "ents (TBranch i ks ts) = concat (map ents ts)"

primrec ids :: "tree \<Rightarrow> nat list" where
  "ids (TLeaf i es nx) = [i]"
| "ids (TBranch i ks ts) = i # concat (map ids ts)"

primrec leaves :: "tree \<Rightarrow> (nat \<times> nat) list" where
  "leaves (TLeaf i es nx) = [(i, nx)]"
| "leaves (TBranch i ks ts) = concat (map leaves ts)"

fun bal :: "nat \<Rightarrow> tree \<Rightarrow> bool" where
  "bal 0 (TLeaf i es nx) = True"
| "bal (Suc n) (TBranch i ks ts) = (ks \<noteq> [] \<and> length ts = Suc (length ks) \<and> (\<forall>t \<in> set ts. bal n t))"
| "bal _ _ = False"

fun linked :: "(nat \<times> nat) list \<Rightarrow> nat \<Rightarrow> bool" where
  "linked [] e = True"
| "linked [(i, n)] e = (n = e)"
| "linked ((i, n) # (j, m) # ls) e = (n = j \<and> linked ((j, m) # ls) e)"

text \<open>Bounds: from \<open>lo\<close> on, and below \<open>hi\<close> if there is one.\<close>

definition below :: "bytes \<Rightarrow> bytes option \<Rightarrow> bool" where
  "below k hi = (case hi of None \<Rightarrow> True | Some h \<Rightarrow> k < h)"

definition at_most :: "bytes \<Rightarrow> bytes option \<Rightarrow> bool" where
  "at_most k hi = (case hi of None \<Rightarrow> True | Some h \<Rightarrow> k \<le> h)"

text \<open>A branch's children, each between the separators beside it.\<close>

fun chain :: "bytes \<Rightarrow> bytes option \<Rightarrow> bytes list \<Rightarrow> (bytes \<Rightarrow> bytes option \<Rightarrow> bool) list \<Rightarrow> bool" where
  "chain lo hi [] [p] = (at_most lo hi \<and> p lo hi)"
| "chain lo hi (k # ks) (p # ps) = (lo \<le> k \<and> length k \<le> MAX_KEY_LEN \<and> p lo (Some k) \<and> chain k hi ks ps)"
| "chain lo hi _ _ = False"

primrec ord :: "tree \<Rightarrow> bytes \<Rightarrow> bytes option \<Rightarrow> bool" where
  "ord (TLeaf i es nx) = (\<lambda>lo hi. at_most lo hi \<and> sorted_wrt (<) (map fst es)
     \<and> (\<forall>e \<in> set es. lo \<le> fst e \<and> below (fst e) hi \<and> length (fst e) \<le> MAX_KEY_LEN))"
| "ord (TBranch i ks ts) = (\<lambda>lo hi. chain lo hi ks (map ord ts))"

fun repr :: "(nat \<rightharpoonup> bytes) \<Rightarrow> tree \<Rightarrow> bool" where
  "repr v (TLeaf i es nx) = (\<exists>b. v i = Some b \<and> leaf_page es nx b)"
| "repr v (TBranch i ks ts) =
     ((\<exists>b. v i = Some b \<and> branch_page (zip ks (map pid ts)) (pid (last ts)) b) \<and> (\<forall>t \<in> set ts. repr v t))"

subsection \<open>Trees\<close>

lemma pid_in_ids [simp]: "pid t \<in> set (ids t)"
  by (cases t) simp_all

lemma repr_cong: "(\<And>i. i \<in> set (ids t) \<Longrightarrow> v i = v' i) \<Longrightarrow> repr v t \<Longrightarrow> repr v' t"
  by (induction t) auto

lemma repr_some: "repr v t \<Longrightarrow> i \<in> set (ids t) \<Longrightarrow> v i \<noteq> None"
  by (induction t) auto

lemma bal_leaves: "bal n t \<Longrightarrow> leaves t \<noteq> []"
proof (induction n t rule: bal.induct)
  case (2 n i ks ts)
  then obtain t where "t \<in> set ts" by (cases ts) auto
  then show ?case using 2 by auto
qed simp_all

lemma linked_append:
  "xs \<noteq> [] \<Longrightarrow> ys \<noteq> [] \<Longrightarrow> linked (xs @ ys) e \<longleftrightarrow> linked xs (fst (hd ys)) \<and> linked ys e"
  by (induction xs e rule: linked.induct) (auto simp: neq_Nil_conv)

lemma linked_replace:
  assumes "linked (A @ X @ B) e" "X \<noteq> []" "Y \<noteq> []" "fst (hd Y) = fst (hd X)" "\<And>e. linked X e \<Longrightarrow> linked Y e"
  shows "linked (A @ Y @ B) e"
  using assms by (cases "A = []"; cases "B = []") (auto simp: linked_append)

lemma bound_simps: "k \<le> h \<Longrightarrow> below h hi \<Longrightarrow> below k hi" "below k hi \<Longrightarrow> at_most k hi" "k < h \<Longrightarrow> at_most h hi \<Longrightarrow> below k hi"
  "k \<le> h \<Longrightarrow> at_most h hi \<Longrightarrow> at_most k hi" "below k None" "at_most k None" "below k (Some h) \<longleftrightarrow> k < h" "at_most k (Some h) \<longleftrightarrow> k \<le> h"
  by (auto simp: below_def at_most_def split: option.splits)

lemma chain_length: "chain lo hi ks ps \<Longrightarrow> length ps = Suc (length ks)"
  by (induction lo hi ks ps rule: chain.induct) auto

lemma chain_from:
  "chain lo hi ks ps \<Longrightarrow> (\<forall>k \<in> set ks. lo \<le> k \<and> at_most k hi \<and> length k \<le> MAX_KEY_LEN) \<and> at_most lo hi \<and> (\<forall>q \<in> set ps. \<exists>a b. q a b \<and> lo \<le> a)"
proof (induction lo hi ks ps rule: chain.induct)
  case (2 lo hi k ks p ps)
  then show ?case using bound_simps(4) by fastforce
qed auto

lemma chain_split:
  "length ps1 = Suc (length ks1) \<Longrightarrow> chain lo hi (ks1 @ k # ks2) (ps1 @ ps2) \<longleftrightarrow>
     chain lo (Some k) ks1 ps1 \<and> length k \<le> MAX_KEY_LEN \<and> chain k hi ks2 ps2"
proof (induction ks1 arbitrary: lo ps1)
  case Nil
  then obtain p where "ps1 = [p]" by (cases ps1) auto
  then show ?case by (auto simp: bound_simps)
next
  case (Cons k' ks1)
  then obtain p ps where "ps1 = p # ps" by (cases ps1) auto
  then show ?case using Cons by auto
qed

text \<open>
  The child a key goes to: the separators up to the key are left of it, the others right of it.
  It can be replaced by another between the same bounds, or by two with a separator between them.
\<close>

definition focus :: "bytes \<Rightarrow> bytes \<Rightarrow> bytes option \<Rightarrow> bytes list \<Rightarrow> bytes list \<Rightarrow> (bytes \<Rightarrow> bytes option \<Rightarrow> bool) list
    \<Rightarrow> (bytes \<Rightarrow> bytes option \<Rightarrow> bool) \<Rightarrow> (bytes \<Rightarrow> bytes option \<Rightarrow> bool) list \<Rightarrow> bytes \<Rightarrow> bytes option \<Rightarrow> bool" where
  "focus key lo hi ks1 ks2 ps1 p ps2 lo' hi' \<longleftrightarrow> length ps1 = length ks1
    \<and> (\<forall>k \<in> set ks1. k \<le> key) \<and> (\<forall>k \<in> set ks2. key < k) \<and> lo' \<le> key \<and> below key hi' \<and> p lo' hi'
    \<and> (\<forall>q \<in> set ps1. \<exists>a b. q a (Some b) \<and> b \<le> key) \<and> (\<forall>q \<in> set ps2. \<exists>a b. q a b \<and> key < a)
    \<and> (\<forall>p'. p' lo' hi' \<longrightarrow> chain lo hi (ks1 @ ks2) (ps1 @ p' # ps2))
    \<and> (\<forall>p1 p2 sep. p1 lo' (Some sep) \<and> p2 sep hi' \<and> lo' \<le> sep \<and> at_most sep hi' \<and> length sep \<le> MAX_KEY_LEN
       \<longrightarrow> chain lo hi (ks1 @ sep # ks2) (ps1 @ p1 # p2 # ps2))"

lemma focusD:
  assumes "focus key lo hi ks1 ks2 ps1 p ps2 lo' hi'"
  shows "length ps1 = length ks1" "\<forall>k \<in> set ks1. k \<le> key" "\<forall>k \<in> set ks2. key < k" "lo' \<le> key" "below key hi'" "p lo' hi'"
    "q \<in> set ps1 \<Longrightarrow> \<exists>a b. q a (Some b) \<and> b \<le> key" "q \<in> set ps2 \<Longrightarrow> \<exists>a b. q a b \<and> key < a"
    "p' lo' hi' \<Longrightarrow> chain lo hi (ks1 @ ks2) (ps1 @ p' # ps2)"
    "p1 lo' (Some sep) \<Longrightarrow> p2 sep hi' \<Longrightarrow> lo' \<le> sep \<Longrightarrow> at_most sep hi' \<Longrightarrow> length sep \<le> MAX_KEY_LEN
       \<Longrightarrow> chain lo hi (ks1 @ sep # ks2) (ps1 @ p1 # p2 # ps2)"
  using assms unfolding focus_def by simp_all

lemma focus_Nil: "at_most lo hi \<Longrightarrow> lo \<le> key \<Longrightarrow> below key hi \<Longrightarrow> p lo hi \<Longrightarrow> focus key lo hi [] [] [] p [] lo hi"
  by (simp add: focus_def)

lemma focus_here:
  assumes "chain lo hi (k # ks) (p # ps)" "lo \<le> key" "key < k"
  shows "focus key lo hi [] (k # ks) [] p ps lo (Some k)"
proof -
  have "\<forall>k' \<in> set ks. k \<le> k'" "\<forall>q \<in> set ps. \<exists>a b. q a b \<and> k \<le> a" using chain_from [of k hi ks ps] assms(1) by auto
  then have "\<forall>k' \<in> set ks. key < k'" "\<forall>q \<in> set ps. \<exists>a b. q a b \<and> key < a" using assms(3) by (meson less_le_trans)+
  then show ?thesis using assms by (simp add: focus_def bound_simps)
qed

lemma focus_Cons:
  assumes "focus key k hi ks1 ks2 ps1 p ps2 lo' hi'" "lo \<le> k" "length k \<le> MAX_KEY_LEN" "q lo (Some k)" "k \<le> key"
  shows "focus key lo hi (k # ks1) ks2 (q # ps1) p ps2 lo' hi'"
proof -
  have "\<exists>a b. q a (Some b) \<and> b \<le> key" using assms(4,5) by blast
  then show ?thesis using assms unfolding focus_def by simp
qed

lemma chain_focus:
  "chain lo hi ks ps \<Longrightarrow> lo \<le> key \<Longrightarrow> below key hi \<Longrightarrow>
    \<exists>ks1 ks2 ps1 p ps2 lo' hi'. ks = ks1 @ ks2 \<and> ps = ps1 @ p # ps2 \<and> focus key lo hi ks1 ks2 ps1 p ps2 lo' hi'"
proof (induction lo hi ks ps rule: chain.induct)
  case (1 lo hi p)
  then show ?case using focus_Nil by (metis append_Nil chain.simps(1))
next
  case (2 lo hi k ks p ps)
  show ?case
  proof (cases "key < k")
    case True
    then show ?thesis using focus_here [OF 2(2,3)] by (metis append_Nil)
  next
    case False
    then obtain ks1 ks2 ps1 q ps2 lo' hi' where f: "ks = ks1 @ ks2" "ps = ps1 @ q # ps2" "focus key k hi ks1 ks2 ps1 q ps2 lo' hi'"
      using 2(1) [of ] 2(2-) by (metis chain.simps(2) linorder_not_less)
    have "focus key lo hi (k # ks1) ks2 (p # ps1) q ps2 lo' hi'"
      by (rule focus_Cons [OF f(3)]) (use 2(2) False in auto)
    then show ?thesis using f(1,2) by (metis append_Cons)
  qed
qed auto

lemma chain_ents:
  assumes "chain lo hi ks (map ord ts)"
    and "\<And>t lo hi. t \<in> set ts \<Longrightarrow> ord t lo hi \<Longrightarrow> sorted_wrt (<) (map fst (ents t)) \<and> (\<forall>e \<in> set (ents t). lo \<le> fst e \<and> below (fst e) hi \<and> length (fst e) \<le> MAX_KEY_LEN)"
  shows "sorted_wrt (<) (map fst (concat (map ents ts))) \<and> (\<forall>e \<in> set (concat (map ents ts)). lo \<le> fst e \<and> below (fst e) hi \<and> length (fst e) \<le> MAX_KEY_LEN)"
  using assms
proof (induction ks arbitrary: ts lo)
  case Nil
  then obtain t where "ts = [t]" using chain_length [of lo hi "[]" "map ord ts"] by (cases ts) auto
  then show ?case using Nil.prems(1) Nil.prems(2) [of t lo hi] by simp
next
  case (Cons k ks)
  then obtain t ts' where ts: "ts = t # ts'" by (cases ts) auto
  have c: "lo \<le> k" "ord t lo (Some k)" "chain k hi ks (map ord ts')" using Cons.prems(1) ts by auto
  have t: "sorted_wrt (<) (map fst (ents t))" "\<forall>e \<in> set (ents t). lo \<le> fst e \<and> fst e < k \<and> length (fst e) \<le> MAX_KEY_LEN"
    using Cons.prems(2) [of t, OF _ c(2)] ts by (auto simp: bound_simps)
  have r: "sorted_wrt (<) (map fst (concat (map ents ts')))"
    "\<forall>e \<in> set (concat (map ents ts')). k \<le> fst e \<and> below (fst e) hi \<and> length (fst e) \<le> MAX_KEY_LEN"
    using Cons.IH [OF c(3)] Cons.prems(2) ts by auto
  have u: "at_most k hi" using chain_from [OF c(3)] by simp
  have "\<forall>a \<in> set (map fst (ents t)). \<forall>b \<in> set (map fst (concat (map ents ts'))). a < b"
  proof (intro ballI)
    fix a b assume a: "a \<in> set (map fst (ents t))" and b: "b \<in> set (map fst (concat (map ents ts')))"
    have "a < k" using a t(2) by auto
    also have "k \<le> b" using b r(2) by auto
    finally show "a < b" .
  qed
  then have "sorted_wrt (<) (map fst (concat (map ents ts)))" using t r ts by (simp add: sorted_wrt_append)
  moreover have "lo \<le> fst e \<and> below (fst e) hi \<and> length (fst e) \<le> MAX_KEY_LEN" if "e \<in> set (concat (map ents ts))" for e
  proof (cases "e \<in> set (ents t)")
    case True
    then show ?thesis using t u by (auto simp: bound_simps intro: bound_simps(3))
  next
    case False
    then show ?thesis using that r c(1) ts by (auto intro: order_trans)
  qed
  ultimately show ?case by blast
qed

lemma ord_ents:
  "bal n t \<Longrightarrow> ord t lo hi \<Longrightarrow> sorted_wrt (<) (map fst (ents t))
     \<and> (\<forall>e \<in> set (ents t). lo \<le> fst e \<and> below (fst e) hi \<and> length (fst e) \<le> MAX_KEY_LEN)"
proof (induction n t arbitrary: lo hi rule: bal.induct)
  case (2 n i ks ts)
  then show ?case using chain_ents [of lo hi ks ts] by simp
qed auto


text \<open>The entry list with a new one at its place.\<close>

definition ins :: "bytes \<Rightarrow> location \<Rightarrow> (bytes \<times> location) list \<Rightarrow> (bytes \<times> location) list" where
  "ins key loc es = takeWhile (\<lambda>e. fst e < key) es @ (key, loc) # dropWhile (\<lambda>e. fst e < key) es"

lemma ins_split: "\<forall>e \<in> set xs. fst e < key \<Longrightarrow> \<forall>e \<in> set ys. key \<le> fst e \<Longrightarrow> ins key loc (xs @ ys) = xs @ (key, loc) # ys"
  by (cases ys) (auto simp: ins_def takeWhile_append2 dropWhile_append2)

lemma ins_middle:
  assumes "\<forall>e \<in> set A. fst e < key" "\<forall>e \<in> set B. key < fst e"
  shows "ins key loc (A @ E @ B) = A @ ins key loc E @ B"
proof -
  have B: "\<forall>e \<in> set B. \<not> fst e < key" using assms(2) by (meson less_asym)
  have "takeWhile (\<lambda>e. fst e < key) (E @ B) = takeWhile (\<lambda>e. fst e < key) E" "dropWhile (\<lambda>e. fst e < key) (E @ B) = dropWhile (\<lambda>e. fst e < key) E @ B"
    using B by (induction E; cases B; simp)+
  then show ?thesis using assms(1) by (simp add: ins_def takeWhile_append2 dropWhile_append2)
qed

lemma key_split:
  assumes "sorted_wrt (<) (map fst es)"
  shows "\<exists>xs ys. es = xs @ ys \<and> (\<forall>e \<in> set xs. fst e < key) \<and> (\<forall>e \<in> set ys. key \<le> fst (e :: bytes \<times> 'a))"
proof (intro exI conjI ballI)
  show "es = takeWhile (\<lambda>e. fst e < key) es @ dropWhile (\<lambda>e. fst e < key) es" by simp
  show "fst e < key" if "e \<in> set (takeWhile (\<lambda>e. fst e < key) es)" for e using that by (auto dest: set_takeWhileD)
  show "key \<le> fst e" if "e \<in> set (dropWhile (\<lambda>e. fst e < key) es)" for e
    using that assms
  proof (induction es)
    case (Cons x es)
    then show ?case by (cases "fst x < key") (auto intro: less_imp_le order_trans)
  qed simp
qed

subsection \<open>How deep a tree can be\<close>

lemma bal_ids: "bal n t \<Longrightarrow> 2 ^ Suc n \<le> Suc (length (ids t))"
proof (induction n t rule: bal.induct)
  case (2 n i ks ts)
  obtain t1 t2 ts' where ts: "ts = t1 # t2 # ts'" using 2(2) by (cases ts; cases "tl ts"; cases ks) auto
  have "2 ^ Suc n \<le> Suc (length (ids t1))" "2 ^ Suc n \<le> Suc (length (ids t2))" using 2 ts by auto
  moreover have "Suc (length (ids t1) + length (ids t2)) \<le> length (ids (TBranch i ks ts))" using ts by simp
  ultimately show ?case by simp
qed simp_all

text \<open>
  Page ids are 64 bits wide, and every branch has at least two children: no tree is deeper than
  \<open>MAX_DEPTH\<close>.
\<close>

lemma depth_bound:
  assumes "bal n t" "distinct (ids t)" "\<And>i. i \<in> set (ids t) \<Longrightarrow> 0 < i \<and> i < 2 ^ 64"
  shows "n < MAX_DEPTH"
proof -
  have "set (ids t) \<subseteq> {0<..<2 ^ 64}" using assms(3) by auto
  then have "card (set (ids t)) \<le> card {0<..<2 ^ 64 :: nat}" by (intro card_mono) simp_all
  then have "length (ids t) \<le> 2 ^ 64 - 1" using assms(2) by (simp add: distinct_card)
  then have "Suc (length (ids t)) \<le> 2 ^ 64" by simp
  then have "(2 :: nat) ^ Suc n \<le> 2 ^ 64" using bal_ids [OF assms(1)] by linarith
  then have "Suc n \<le> 64" using power_le_imp_le_exp [of "2 :: nat" "Suc n" 64] by simp
  then show ?thesis by (simp add: MAX_DEPTH_def)
qed

subsection \<open>Down to a leaf\<close>

text \<open>A branch's entries around the child a key goes to.\<close>

lemma branch_route:
  assumes "branch_page (zip (ks1 @ ks2) (map pid (ts1 @ t # ts2))) (pid (last (ts1 @ t # ts2))) (raw sp)"
    and "length ts1 = length ks1" "length ts2 = length ks2" "\<forall>k \<in> set ks1. k \<le> key" "\<forall>k \<in> set ks2. key < k"
  shows "\<exists>r. route sp key = Inr (r, pid t) \<and> find_child sp key = Inr (pid t)
    \<and> found_at sp r (map branch_cell (zip ks1 (map pid ts1))) (map branch_cell (zip ks2 (pid t # map pid ts2)))"
proof -
  let ?xs = "zip ks1 (map pid ts1)" and ?ys = "zip ks2 (pid t # map pid ts2)"
  have z: "zip (ks1 @ ks2) (map pid (ts1 @ t # ts2)) = ?xs @ ?ys" using assms(2) by simp
  have xs: "\<forall>e \<in> set ?xs. fst e \<le> key" "\<forall>e \<in> set ?ys. key < fst e" using assms(4,5) by (auto dest: set_zip_leftD)
  have "(case ?ys of [] \<Rightarrow> pid (last (ts1 @ t # ts2)) | (_, c) # _ \<Rightarrow> c) = pid t" using assms(3) by (cases ks2) auto
  then show ?thesis using route_branch [OF assms(1) [unfolded z] xs] by auto
qed

lemma branch_focus:
  assumes "chain lo hi ks (map ord ts)" "lo \<le> key" "below key hi" "\<forall>t \<in> set ts. bal n t"
  shows "\<exists>ks1 ks2 ts1 t ts2 lo' hi'. ks = ks1 @ ks2 \<and> ts = ts1 @ t # ts2 \<and> length ts1 = length ks1 \<and> length ts2 = length ks2
    \<and> focus key lo hi ks1 ks2 (map ord ts1) (ord t) (map ord ts2) lo' hi'
    \<and> (\<forall>e \<in> set (concat (map ents ts1)). fst e < key) \<and> (\<forall>e \<in> set (concat (map ents ts2)). key < fst e)"
proof -
  obtain ks1 ks2 ps1 p ps2 lo' hi' where f: "ks = ks1 @ ks2" "map ord ts = ps1 @ p # ps2" "focus key lo hi ks1 ks2 ps1 p ps2 lo' hi'"
    using chain_focus [OF assms(1-3)] by blast
  obtain ts1 t ts2 where ts: "ts = ts1 @ t # ts2" "ps1 = map ord ts1" "p = ord t" "ps2 = map ord ts2"
    using f(2) unfolding map_eq_append_conv Cons_eq_map_conv by blast
  have l: "length ts1 = length ks1" using focusD(1) [OF f(3)] ts(2) by simp
  have "length ts2 = length ks2" using chain_length [OF assms(1)] l ts(1) f(1) by simp
  moreover have "fst e < key" if u: "u \<in> set ts1" and e: "e \<in> set (ents u)" for u e
  proof -
    obtain a b where "ord u a (Some b)" "b \<le> key" using focusD(7) [OF f(3), of "ord u"] ts(2) u by auto
    moreover have "bal n u" using assms(4) u ts(1) by simp
    ultimately have "fst e < b" using ord_ents [of n u a "Some b"] e by (simp add: bound_simps)
    then show ?thesis using \<open>b \<le> key\<close> by (rule less_le_trans)
  qed
  moreover have "key < fst e" if u: "u \<in> set ts2" and e: "e \<in> set (ents u)" for u e
  proof -
    obtain a b where "ord u a b" "key < a" using focusD(8) [OF f(3), of "ord u"] ts(4) u by auto
    moreover have "bal n u" using assms(4) u ts(1) by simp
    ultimately have "a \<le> fst e" using ord_ents [of n u a b] e by simp
    with \<open>key < a\<close> show ?thesis by (rule less_le_trans)
  qed
  ultimately have "length ts2 = length ks2" "\<forall>e \<in> set (concat (map ents ts1)). fst e < key" "\<forall>e \<in> set (concat (map ents ts2)). key < fst e"
    by auto
  then show ?thesis using f(1,3) ts l by blast
qed

text \<open>A tree with one leaf's entries replaced by some of them.\<close>

definition shrunk :: "(nat \<rightharpoonup> bytes) \<Rightarrow> nat \<Rightarrow> bytes \<Rightarrow> bytes option \<Rightarrow> tree \<Rightarrow> (bytes \<times> location) list \<Rightarrow> tree \<Rightarrow> bool" where
  "shrunk v n lo hi t es t' \<longleftrightarrow> pid t' = pid t \<and> ids t' = ids t \<and> leaves t' = leaves t \<and> bal n t' \<and> ord t' lo hi
     \<and> ents t' = es \<and> repr v t'"

context grow_store begin

lemma find_leaf_loop_ok:
  assumes "sound s" "repr (view s) t" "bal n t" "ord t lo hi" "lo \<le> key" "below key hi" "n < m"
  shows "\<exists>i sp s' es nx A B. find_leaf_loop ops key m (pid t) s = (Inr (i, sp), s') \<and> sound s' \<and> view s' = view s \<and> room s' = room s
    \<and> view s i = Some (raw sp) \<and> leaf_page es nx (raw sp) \<and> i \<in> set (ids t) \<and> sorted_wrt (<) (map fst es)
    \<and> ents t = A @ es @ B \<and> (\<forall>e \<in> set A. fst e < key) \<and> (\<forall>e \<in> set B. key < fst e)
    \<and> (\<forall>b' es'. leaf_page es' nx b' \<and> sorted_wrt (<) (map fst es') \<and> set es' \<subseteq> set es \<and> distinct (ids t)
        \<longrightarrow> (\<exists>t'. shrunk ((view s)(i \<mapsto> b')) n lo hi t (A @ es' @ B) t'))"
  using assms
proof (induction m arbitrary: n t lo hi s)
  case (Suc m)
  show ?case
  proof (cases t)
    case (TLeaf i es nx)
    obtain b where b: "view s i = Some b" "leaf_page es nx b" using Suc.prems(2) TLeaf by auto
    then obtain sp s' where r: "read_node ops i s = (Inr sp, s')" "raw sp = b" "node_type sp = Inr PIndexLeaf"
      "sound s'" "view s' = view s" "room s' = room s"
      using read_node_reads [OF Suc.prems(1) b(1)] by (metis leaf_page_def)
    have n: "n = 0" using Suc.prems(3) TLeaf by (cases n) auto
    have sh: "\<exists>t'. shrunk ((view s)(i \<mapsto> b')) n lo hi t ([] @ es' @ []) t'"
      if "leaf_page es' nx b' \<and> sorted_wrt (<) (map fst es') \<and> set es' \<subseteq> set es \<and> distinct (ids t)" for b' es'
      using that Suc.prems(4) TLeaf n by (intro exI [of _ "TLeaf i es' nx"]) (auto simp: shrunk_def)
    have run: "find_leaf_loop ops key (Suc m) (pid t) s = (Inr (i, sp), s')" using r TLeaf by simp
    have srt: "sorted_wrt (<) (map fst es)" "i \<in> set (ids t)" using Suc.prems(4) TLeaf by auto
    have e: "ents t = [] @ es @ []" "\<forall>e \<in> set []. fst e < key" "\<forall>e \<in> set []. key < fst e" using TLeaf by simp_all
    show ?thesis using run r(2,4-6) b srt e sh by metis
  next
    case (TBranch i ks ts)
    obtain n' where n: "n = Suc n'" "ks \<noteq> []" "length ts = Suc (length ks)" "\<forall>t \<in> set ts. bal n' t"
      using Suc.prems(3) TBranch by (cases n) auto
    obtain b where b: "view s i = Some b" "branch_page (zip ks (map pid ts)) (pid (last ts)) b" "\<forall>t \<in> set ts. repr (view s) t"
      using Suc.prems(2) TBranch by auto
    then obtain sp s1 where r: "read_node ops i s = (Inr sp, s1)" "raw sp = b" "node_type sp = Inr PIndexBranch"
      "sound s1" "view s1 = view s" "room s1 = room s"
      using read_node_reads [OF Suc.prems(1) b(1)] by (metis branch_page_def)
    have "chain lo hi ks (map ord ts)" using Suc.prems(4) TBranch by simp
    from branch_focus [OF this Suc.prems(5,6) n(4)] obtain ks1 ks2 ts1 u ts2 lo' hi' where f: "ks = ks1 @ ks2" "ts = ts1 @ u # ts2"
      "length ts1 = length ks1" "length ts2 = length ks2" "focus key lo hi ks1 ks2 (map ord ts1) (ord u) (map ord ts2) lo' hi'"
      "\<forall>e \<in> set (concat (map ents ts1)). fst e < key" "\<forall>e \<in> set (concat (map ents ts2)). key < fst e" by blast
    have k: "\<forall>k \<in> set ks1. k \<le> key" "\<forall>k \<in> set ks2. key < k" "lo' \<le> key" "below key hi'" "ord u lo' hi'" using focusD(2-6) [OF f(5)] by simp_all
    have c: "find_child sp key = Inr (pid u)" using branch_route [of ks1 ks2 ts1 u ts2 sp key] b(2) r(2) f(1-4) k(1,2) by auto
    have u: "repr (view s1) u" "bal n' u" using b(3) n(4) f(2) r(5) by auto
    obtain j sp' s' es nx A B where w: "find_leaf_loop ops key m (pid u) s1 = (Inr (j, sp'), s')" "sound s'" "view s' = view s1" "room s' = room s1"
      "view s1 j = Some (raw sp')" "leaf_page es nx (raw sp')" "j \<in> set (ids u)" "sorted_wrt (<) (map fst es)"
      "ents u = A @ es @ B" "\<forall>e \<in> set A. fst e < key" "\<forall>e \<in> set B. key < fst e"
      "\<forall>b' es'. leaf_page es' nx b' \<and> sorted_wrt (<) (map fst es') \<and> set es' \<subseteq> set es \<and> distinct (ids u)
        \<longrightarrow> (\<exists>t'. shrunk ((view s1)(j \<mapsto> b')) n' lo' hi' u (A @ es' @ B) t')"
      using Suc.IH [OF r(4) u k(5,3,4)] Suc.prems(7) n(1) by (metis Suc_less_SucD)
    let ?A = "concat (map ents ts1) @ A" and ?B = "B @ concat (map ents ts2)"
    have "\<exists>t'. shrunk ((view s)(j \<mapsto> b')) n lo hi t (?A @ es' @ ?B) t'"
      if h: "leaf_page es' nx b' \<and> sorted_wrt (<) (map fst es') \<and> set es' \<subseteq> set es \<and> distinct (ids t)" for b' es'
    proof -
      have d: "distinct (ids u)" "j \<notin> set (concat (map ids ts1))" "j \<notin> set (concat (map ids ts2))" "j \<noteq> i"
        using h TBranch f(2) w(7) by auto
      obtain u' where u': "shrunk ((view s)(j \<mapsto> b')) n' lo' hi' u (A @ es' @ B) u'" using w(12) h d(1) unfolding r(5) by blast
      have others: "repr ((view s)(j \<mapsto> b')) t1" if "t1 \<in> set ts1 \<union> set ts2" for t1
        by (rule repr_cong [of t1 "view s"]) (use b(3) f(2) that d(2,3) in auto)
      have "pid (last (ts1 @ u' # ts2)) = pid (last ts)" using f(2) u' by (simp add: shrunk_def)
      have e: "pid u' = pid u" "ids u' = ids u" "leaves u' = leaves u" "bal n' u'" "ord u' lo' hi'" "ents u' = A @ es' @ B"
        "repr ((view s)(j \<mapsto> b')) u'" using u' by (simp_all add: shrunk_def)
      let ?ts = "ts1 @ u' # ts2"
      have "chain lo hi ks (map ord ?ts)" unfolding f(1) using focusD(9) [OF f(5), of "ord u'"] e(5) by simp
      moreover have "map pid ?ts = map pid ts" "map ids ?ts = map ids ts" "map leaves ?ts = map leaves ts" using f(2) e by simp_all
      moreover have "\<forall>t \<in> set ?ts. repr ((view s)(j \<mapsto> b')) t" using others e(7) by auto
      moreover have "bal n (TBranch i ks ?ts)" using n f(2) e(4) by simp
      moreover have "((view s)(j \<mapsto> b')) i = Some b" using b(1) d(4) by simp
      moreover have "concat (map ents ?ts) = ?A @ es' @ ?B" using e(6) by simp
      ultimately have "shrunk ((view s)(j \<mapsto> b')) n lo hi t (?A @ es' @ ?B) (TBranch i ks ?ts)"
        unfolding shrunk_def TBranch using b(2) \<open>pid (last ?ts) = pid (last ts)\<close> by simp
      then show ?thesis by blast
    qed
    moreover have "find_leaf_loop ops key (Suc m) (pid t) s = (Inr (j, sp'), s')" using r(1,3) c w(1) TBranch by simp
    moreover have "ents t = ?A @ es @ ?B" using TBranch f(2) w(9) by simp
    moreover have "\<forall>e \<in> set ?A. fst e < key" "\<forall>e \<in> set ?B. key < fst e" using f(6,7) w(10,11) by auto
    moreover have "j \<in> set (ids t)" using TBranch f(2) w(7) by auto
    moreover have "view s' = view s" "room s' = room s" "view s j = Some (raw sp')" using w(3-5) r(5,6) by simp_all
    ultimately show ?thesis using w(2,6,8) by blast
  qed
qed simp

end

subsection \<open>What an insertion does to a subtree\<close>

text \<open>
  The subtree \<open>t\<close> gave way to the trees \<open>us\<close>: they use pages of \<open>t\<close> and new ones, no other page
  changed, and among the leaves they stand where \<open>t\<close> stood.
\<close>

definition replaced :: "(nat \<rightharpoonup> bytes) \<Rightarrow> (nat \<rightharpoonup> bytes) \<Rightarrow> tree \<Rightarrow> tree list \<Rightarrow> bool" where
  "replaced v v' t us \<longleftrightarrow> us \<noteq> [] \<and> pid (hd us) = pid t \<and> distinct (concat (map ids us))
     \<and> (\<forall>i \<in> set (concat (map ids us)). i \<in> set (ids t) \<or> v i = None)
     \<and> (\<forall>i. i \<notin> set (ids t) \<longrightarrow> v i \<noteq> None \<longrightarrow> v' i = v i) \<and> (\<forall>i. v i \<noteq> None \<longrightarrow> v' i \<noteq> None)
     \<and> concat (map leaves us) \<noteq> [] \<and> fst (hd (concat (map leaves us))) = fst (hd (leaves t))
     \<and> (\<forall>e. linked (leaves t) e \<longrightarrow> linked (concat (map leaves us)) e)"

lemma replacedD:
  assumes "replaced v v' t us"
  shows "us \<noteq> []" "pid (hd us) = pid t" "distinct (concat (map ids us))"
    "i \<in> set (concat (map ids us)) \<Longrightarrow> i \<in> set (ids t) \<or> v i = None"
    "i \<notin> set (ids t) \<Longrightarrow> v i \<noteq> None \<Longrightarrow> v' i = v i" "v i \<noteq> None \<Longrightarrow> v' i \<noteq> None"
    "concat (map leaves us) \<noteq> []" "fst (hd (concat (map leaves us))) = fst (hd (leaves t))"
    "linked (leaves t) e \<Longrightarrow> linked (concat (map leaves us)) e"
proof -
  note c = assms [unfolded replaced_def]
  show "us \<noteq> []" "pid (hd us) = pid t" "distinct (concat (map ids us))" "concat (map leaves us) \<noteq> []"
    "fst (hd (concat (map leaves us))) = fst (hd (leaves t))" by (simp_all only: c not_False_eq_True)
  show "i \<in> set (concat (map ids us)) \<Longrightarrow> i \<in> set (ids t) \<or> v i = None" by (simp only: c)
  show "i \<notin> set (ids t) \<Longrightarrow> v i \<noteq> None \<Longrightarrow> v' i = v i" "v i \<noteq> None \<Longrightarrow> v' i \<noteq> None"
    "linked (leaves t) e \<Longrightarrow> linked (concat (map leaves us)) e" by (simp_all only: c not_False_eq_True)
qed

lemma replacedI:
  assumes "us \<noteq> []" "pid (hd us) = pid t" "distinct (concat (map ids us))"
    "\<And>i. i \<in> set (concat (map ids us)) \<Longrightarrow> i \<in> set (ids t) \<or> v i = None"
    "\<And>i. i \<notin> set (ids t) \<Longrightarrow> v i \<noteq> None \<Longrightarrow> v' i = v i" "\<And>i. v i \<noteq> None \<Longrightarrow> v' i \<noteq> None"
    "concat (map leaves us) \<noteq> []" "fst (hd (concat (map leaves us))) = fst (hd (leaves t))"
    "\<And>e. linked (leaves t) e \<Longrightarrow> linked (concat (map leaves us)) e"
  shows "replaced v v' t us"
  unfolding replaced_def by (intro conjI ballI allI impI assms)

definition good :: "(nat \<rightharpoonup> bytes) \<Rightarrow> nat \<Rightarrow> bytes \<Rightarrow> bytes option \<Rightarrow> tree \<Rightarrow> bool" where
  "good v n lo hi t \<longleftrightarrow> repr v t \<and> bal n t \<and> ord t lo hi"

definition inserted :: "(nat \<rightharpoonup> bytes) \<Rightarrow> (nat \<rightharpoonup> bytes) \<Rightarrow> nat \<Rightarrow> bytes \<Rightarrow> bytes option \<Rightarrow> tree \<Rightarrow> (bytes \<times> location) list \<Rightarrow> insert_outcome \<Rightarrow> bool" where
  "inserted v v' n lo hi t es out \<longleftrightarrow> (case out of
      Done \<Rightarrow> \<exists>t'. good v' n lo hi t' \<and> replaced v v' t [t'] \<and> ents t' = es
    | Split sep j \<Rightarrow> \<exists>t1 t2. good v' n lo (Some sep) t1 \<and> good v' n sep hi t2 \<and> pid t2 = j \<and> replaced v v' t [t1, t2]
        \<and> ents t1 @ ents t2 = es \<and> lo \<le> sep \<and> at_most sep hi \<and> length sep \<le> MAX_KEY_LEN)"

lemma insertedI:
  "good v' n lo hi t' \<Longrightarrow> replaced v v' t [t'] \<Longrightarrow> ents t' = es \<Longrightarrow> inserted v v' n lo hi t es Done"
  "good v' n lo (Some sep) t1 \<Longrightarrow> good v' n sep hi t2 \<Longrightarrow> replaced v v' t [t1, t2] \<Longrightarrow> ents t1 @ ents t2 = es \<Longrightarrow> lo \<le> sep
     \<Longrightarrow> at_most sep hi \<Longrightarrow> length sep \<le> MAX_KEY_LEN \<Longrightarrow> inserted v v' n lo hi t es (Split sep (pid t2))"
  by (auto simp: inserted_def)

text \<open>A child replaced inside its branch.\<close>

lemma distinct_swap:
  "distinct (i # A @ X @ B) \<Longrightarrow> distinct U \<Longrightarrow> set U \<inter> (set A \<union> set B \<union> {i}) = {} \<Longrightarrow> distinct (i # A @ U @ B)"
  by auto

lemma hd_swap: "U \<noteq> [] \<Longrightarrow> X \<noteq> [] \<Longrightarrow> fst (hd U) = fst (hd X) \<Longrightarrow> fst (hd (A @ U @ B)) = fst (hd (A @ X @ B))"
  by (cases A) simp_all

lemma replaced_in_branch:
  assumes r: "replaced v v' u us" and ts: "ts = ts1 @ u # ts2" and d: "distinct (ids (TBranch i ks ts))"
    and v: "repr v (TBranch i ks ts)" and b: "\<forall>t \<in> set ts. bal n t"
  shows "replaced v v' (TBranch i ks ts) [TBranch i ks' (ts1 @ us @ ts2)]"
proof -
  let ?A = "concat (map ids ts1)" and ?B = "concat (map ids ts2)" and ?U = "concat (map ids us)"
  have old: "v x \<noteq> None \<and> x \<notin> set (ids u)" if "x \<in> set ?A \<union> set ?B \<union> {i}" for x
  proof
    have "x \<in> set (ids (TBranch i ks ts))" using that ts by auto
    from repr_some [OF v this] show "v x \<noteq> None" .
    show "x \<notin> set (ids u)" using that d ts by auto
  qed
  have "x \<notin> set ?A \<union> set ?B \<union> {i}" if "x \<in> set ?U" for x
  proof
    assume "x \<in> set ?A \<union> set ?B \<union> {i}"
    from old [OF this] show False using replacedD(4) [OF r that] by simp
  qed
  then have "set ?U \<inter> (set ?A \<union> set ?B \<union> {i}) = {}" by blast
  moreover have "distinct (i # ?A @ ids u @ ?B)" using d ts by simp
  ultimately have "distinct (i # ?A @ ?U @ ?B)" using distinct_swap [OF _ replacedD(3) [OF r]] by blast
  then have dist: "distinct (ids (TBranch i ks' (ts1 @ us @ ts2)))" by simp
  have ne: "\<forall>t \<in> set ts. leaves t \<noteq> []" using b bal_leaves by blast
  have hd: "fst (hd (concat (map leaves (ts1 @ us @ ts2)))) = fst (hd (concat (map leaves ts)))"
    using hd_swap [OF replacedD(7) [OF r] _ replacedD(8) [OF r], of "concat (map leaves ts1)" "concat (map leaves ts2)"] ts ne by simp
  have link: "linked (concat (map leaves (ts1 @ us @ ts2))) e" if "linked (concat (map leaves ts)) e" for e
    using linked_replace [of "concat (map leaves ts1)" "leaves u" "concat (map leaves ts2)" e "concat (map leaves us)"]
      that ts ne replacedD(7,8,9) [OF r] by simp
  have "concat (map leaves (ts1 @ us @ ts2)) \<noteq> []" using replacedD(7) [OF r] by simp
  moreover have "x \<in> set (ids (TBranch i ks ts)) \<or> v x = None" if "x \<in> set (ids (TBranch i ks' (ts1 @ us @ ts2)))" for x
  proof (cases "x \<in> set ?U")
    case True
    then show ?thesis using replacedD(4) [OF r True] ts by auto
  next
    case False
    then show ?thesis using that ts by auto
  qed
  moreover have "v' x = v x" if "x \<notin> set (ids (TBranch i ks ts))" "v x \<noteq> None" for x
    using replacedD(5) [OF r, of x] that ts by simp
  ultimately show ?thesis using dist hd link replacedD(6) [OF r] unfolding replaced_def by simp
qed

lemma replaced_write:
  assumes "replaced v v' t us" "i \<in> set (ids t)"
  shows "replaced v (v'(i \<mapsto> b)) t us"
  using assms unfolding replaced_def by auto

lemma replaced_split:
  assumes r: "replaced v v' t [TBranch i ks ts]" and ts: "ts = tsL @ tsR" and j: "v' j = None" and i: "i \<in> set (ids t)"
    and v: "\<forall>x \<in> set (ids (TBranch i ks ts)). v' x \<noteq> None"
  shows "replaced v (v'(i \<mapsto> b1, j \<mapsto> b2)) t [TBranch i ksL tsL, TBranch j ksR tsR]"
proof -
  have j': "j \<notin> set (ids (TBranch i ks ts))" using v j by blast
  have vj: "v j = None" using replacedD(6) [OF r, of j] j by blast
  have "distinct (ids (TBranch i ks ts))" using replacedD(3) [OF r] by simp
  then have "distinct (concat (map ids [TBranch i ksL tsL, TBranch j ksR tsR]))" using j' ts by auto
  moreover have "x \<in> set (ids t) \<or> v x = None" if "x \<in> set (concat (map ids [TBranch i ksL tsL, TBranch j ksR tsR]))" for x
    using replacedD(4) [OF r, of x] that vj ts by (cases "x = j") auto
  moreover have "(v'(i \<mapsto> b1, j \<mapsto> b2)) x = v x" if "x \<notin> set (ids t)" "v x \<noteq> None" for x
    using replacedD(5) [OF r that] that i vj by auto
  moreover have "(v'(i \<mapsto> b1, j \<mapsto> b2)) x \<noteq> None" if "v x \<noteq> None" for x using replacedD(6) [OF r that] by simp
  moreover have l: "concat (map leaves [TBranch i ksL tsL, TBranch j ksR tsR]) = concat (map leaves [TBranch i ks ts])" using ts by simp
  moreover have "pid (hd [TBranch i ksL tsL, TBranch j ksR tsR]) = pid t" using replacedD(2) [OF r] by simp
  ultimately show ?thesis using replacedD(7,8,9) [OF r] by (intro replacedI) (simp_all only: l not_False_eq_True list.distinct)
qed


lemma zip_cut:
  assumes "zip ks (map pid ts) = L @ (k, c) # R" "length ts = Suc (length ks)"
  shows "\<exists>kL kR tL tR. ks = kL @ k # kR \<and> ts = tL @ tR \<and> length tL = Suc (length kL) \<and> length tR = Suc (length kR)
    \<and> L = zip kL (map pid tL) \<and> c = pid (last tL) \<and> R = zip kR (map pid tR) \<and> last ts = last tR"
  using assms
proof (induction L arbitrary: ks ts)
  case Nil
  then obtain k' ks' t ts' where "ks = k' # ks'" "ts = t # ts'" by (cases ks; cases ts) auto
  then show ?case using Nil by (intro exI [of _ "[]"] exI [of _ ks'] exI [of _ "[t]"] exI [of _ ts']) auto
next
  case (Cons x L)
  then obtain k' ks' t ts' where c: "ks = k' # ks'" "ts = t # ts'" "x = (k', pid t)" by (cases ks; cases ts) auto
  then obtain kL kR tL tR where h: "ks' = kL @ k # kR" "ts' = tL @ tR" "length tL = Suc (length kL)" "length tR = Suc (length kR)"
    "L = zip kL (map pid tL)" "c = pid (last tL)" "R = zip kR (map pid tR)" "last ts' = last tR"
    using Cons.IH [of ks' ts'] Cons.prems by auto
  then have "tL \<noteq> []" "ts' \<noteq> []" by auto
  then show ?case using c h by (intro exI [of _ "k' # kL"] exI [of _ kR] exI [of _ "t # tL"] exI [of _ tR]) auto
qed

text \<open>The branch's own page, written over its children.\<close>

lemma good_branch:
  assumes "\<forall>t \<in> set ts. repr v t \<and> bal n t" "length ts = Suc (length ks)" "ks \<noteq> []" "chain lo hi ks (map ord ts)"
    and "\<And>t x. t \<in> set ts \<Longrightarrow> x \<in> set (ids t) \<Longrightarrow> v' x = v x" "v' i = Some b" "branch_page (zip ks (map pid ts)) (pid (last ts)) b"
  shows "good v' (Suc n) lo hi (TBranch i ks ts)"
proof -
  have "repr v' t" if "t \<in> set ts" for t by (rule repr_cong [of t v]) (use assms(1,5) that in auto)
  then show ?thesis using assms by (simp add: good_def)
qed

context grow_store begin

lemma insert_leaf_inserted:
  assumes "sound s" "repr (view s) (TLeaf i es nx)" "ord (TLeaf i es nx) lo hi" "lo \<le> key" "below key hi"
    "key \<notin> fst ` set es" "0 < room s" "length key \<le> MAX_KEY_LEN" "loc_ok loc" "view s i = Some (raw sp)"
  shows "\<exists>out s'. insert_into_leaf ops i sp key loc s = (Inr out, s') \<and> sound s' \<and> room s \<le> room s' + 1
    \<and> inserted (view s) (view s') 0 lo hi (TLeaf i es nx) (ins key loc es) out"
proof -
  have leaf: "leaf_page es nx (raw sp)" using assms(2,10) by simp
  have o: "at_most lo hi" "sorted_wrt (<) (map fst es)" "\<And>e. e \<in> set es \<Longrightarrow> lo \<le> fst e \<and> below (fst e) hi \<and> length (fst e) \<le> MAX_KEY_LEN"
    using assms(3) by auto
  obtain xs ys where xy: "es = xs @ ys" "\<forall>e \<in> set xs. fst e < key" "\<forall>e \<in> set ys. key \<le> fst e" using key_split [OF o(2)] by blast
  let ?es = "xs @ (key, loc) # ys"
  have e: "ins key loc es = ?es" unfolding xy(1) by (rule ins_split [OF xy(2,3)])
  have ys: "\<forall>e \<in> set ys. key < fst e" using xy(1,3) assms(6) by (force simp: order.order_iff_strict)
  have srt: "sorted_wrt (<) (map fst ?es)" using o(2) xy(1,2) ys by (auto simp: sorted_wrt_append)
  have bnd: "\<forall>e \<in> set ?es. lo \<le> fst e \<and> below (fst e) hi \<and> length (fst e) \<le> MAX_KEY_LEN"
    using o(3) xy(1) assms(4,5,8) by auto
  have lens: "\<forall>(k, l) \<in> set (xs @ ys). length k \<le> 1024" using o(3) xy(1) by (fastforce simp: MAX_KEY_LEN_def)
  obtain out s' where r: "insert_into_leaf ops i sp key loc s = (Inr out, s')" "sound s'" "room s \<le> room s' + 1"
    "case out of
      Done \<Rightarrow> \<exists>b. view s' = (view s)(i \<mapsto> b) \<and> leaf_page ?es nx b
    | Split sep j \<Rightarrow> \<exists>L R b1 b2. ?es = L @ R \<and> L \<noteq> [] \<and> R \<noteq> [] \<and> sep = fst (hd R) \<and> view s j = None
        \<and> view s' = (view s)(i \<mapsto> b1, j \<mapsto> b2) \<and> leaf_page L j b1 \<and> leaf_page R nx b2"
    using insert_into_leaf_ok [OF assms(1,10,7) leaf [unfolded xy(1)] leaf_pageD(7) [OF leaf] xy(2,3) lens _ assms(9)] assms(8)
    by (auto simp: MAX_KEY_LEN_def)
  have "inserted (view s) (view s') 0 lo hi (TLeaf i es nx) (ins key loc es) out"
  proof (cases out)
    case Done
    then obtain b where b: "view s' = (view s)(i \<mapsto> b)" "leaf_page ?es nx b" using r(4) by auto
    have "good (view s') 0 lo hi (TLeaf i ?es nx)" using b srt bnd o(1) by (simp add: good_def)
    moreover have "replaced (view s) (view s') (TLeaf i es nx) [TLeaf i ?es nx]" using b(1) by (intro replacedI) auto
    ultimately show ?thesis using Done e by (auto simp: inserted_def)
  next
    case (Split sep j)
    then obtain L R b1 b2 where b: "?es = L @ R" "L \<noteq> []" "R \<noteq> []" "sep = fst (hd R)" "view s j = None"
      "view s' = (view s)(i \<mapsto> b1, j \<mapsto> b2)" "leaf_page L j b1" "leaf_page R nx b2" using r(4) by auto
    have ij: "i \<noteq> j" using b(5) assms(10) by auto
    have srt': "sorted_wrt (<) (map fst L)" "sorted_wrt (<) (map fst R)" "\<forall>x \<in> set L. \<forall>y \<in> set R. fst x < fst y"
      using srt unfolding b(1) by (auto simp: sorted_wrt_append)
    have sepR: "\<forall>e \<in> set R. sep \<le> fst e" using srt'(2) b(3,4) by (cases R) auto
    have hR: "hd R \<in> set R" using b(3) by simp
    have bs: "\<And>e. e \<in> set L \<Longrightarrow> lo \<le> fst e \<and> fst e < sep \<and> length (fst e) \<le> MAX_KEY_LEN"
      "\<And>e. e \<in> set R \<Longrightarrow> sep \<le> fst e \<and> below (fst e) hi \<and> length (fst e) \<le> MAX_KEY_LEN"
      "lo \<le> sep" "at_most sep hi" "length sep \<le> MAX_KEY_LEN"
      using bnd b(1,4) srt'(3) hR sepR bound_simps(2) by (auto simp del: append_Cons)
    have "good (view s') 0 lo (Some sep) (TLeaf i L j)" "good (view s') 0 sep hi (TLeaf j R nx)"
      using b(6-8) srt' bs ij by (auto simp: good_def bound_simps)
    moreover have "replaced (view s) (view s') (TLeaf i es nx) [TLeaf i L j, TLeaf j R nx]" using b(5,6) ij by (intro replacedI) auto
    moreover have "ents (TLeaf i L j) @ ents (TLeaf j R nx) = ins key loc es" using e b(1) by simp
    ultimately have "inserted (view s) (view s') 0 lo hi (TLeaf i es nx) (ins key loc es) (Split sep (pid (TLeaf j R nx)))"
      using insertedI(2) bs(3-5) by blast
    then show ?thesis using Split by simp
  qed
  then show ?thesis using r by blast
qed

end

text \<open>
  What a branch knows when it hands a key down: the child, what is left and right of it, and the
  insertion's effect on the child.
\<close>

definition handed_down :: "(nat \<rightharpoonup> bytes) \<Rightarrow> (nat \<rightharpoonup> bytes) \<Rightarrow> nat \<Rightarrow> bytes \<Rightarrow> bytes option \<Rightarrow> nat \<Rightarrow> bytes list \<Rightarrow> bytes list
    \<Rightarrow> tree list \<Rightarrow> tree \<Rightarrow> tree list \<Rightarrow> bytes \<Rightarrow> bytes option \<Rightarrow> bytes \<Rightarrow> location \<Rightarrow> insert_outcome \<Rightarrow> bool" where
  "handed_down v v' n lo hi i ks1 ks2 ts1 u ts2 lo' hi' key loc out \<longleftrightarrow>
     good v (Suc n) lo hi (TBranch i (ks1 @ ks2) (ts1 @ u # ts2)) \<and> distinct (ids (TBranch i (ks1 @ ks2) (ts1 @ u # ts2)))
     \<and> length ts1 = length ks1 \<and> length ts2 = length ks2 \<and> focus key lo hi ks1 ks2 (map ord ts1) (ord u) (map ord ts2) lo' hi'
     \<and> (\<forall>e \<in> set (concat (map ents ts1)). fst e < key) \<and> (\<forall>e \<in> set (concat (map ents ts2)). key < fst e)
     \<and> inserted v v' n lo' hi' u (ins key loc (ents u)) out"

lemma handed_downD:
  assumes "handed_down v v' n lo hi i ks1 ks2 ts1 u ts2 lo' hi' key loc out"
  shows "\<exists>b. v i = Some b \<and> branch_page (zip (ks1 @ ks2) (map pid (ts1 @ u # ts2))) (pid (last (ts1 @ u # ts2))) b"
    "\<forall>t \<in> set (ts1 @ u # ts2). repr v t \<and> bal n t" "ks1 @ ks2 \<noteq> []"
    "ins key loc (concat (map ents (ts1 @ u # ts2))) = concat (map ents ts1) @ ins key loc (ents u) @ concat (map ents ts2)"
    "i \<notin> set (ids u)" "\<And>x t. t \<in> set (ts1 @ ts2) \<Longrightarrow> x \<in> set (ids t) \<Longrightarrow> x \<notin> set (ids u) \<and> v x \<noteq> None \<and> x \<noteq> i" "v i \<noteq> None"
proof -
  let ?T = "TBranch i (ks1 @ ks2) (ts1 @ u # ts2)"
  have g: "repr v ?T" "bal (Suc n) ?T" "distinct (ids ?T)" using assms unfolding handed_down_def good_def by blast+
  show "\<exists>b. v i = Some b \<and> branch_page (zip (ks1 @ ks2) (map pid (ts1 @ u # ts2))) (pid (last (ts1 @ u # ts2))) b"
    using g(1) unfolding repr.simps by blast
  then show "v i \<noteq> None" by (metis option.distinct(1))
  show "\<forall>t \<in> set (ts1 @ u # ts2). repr v t \<and> bal n t" "ks1 @ ks2 \<noteq> []" using g(1,2) by auto
  show "i \<notin> set (ids u)" using g(3) by simp
  show "x \<notin> set (ids u) \<and> v x \<noteq> None \<and> x \<noteq> i" if "t \<in> set (ts1 @ ts2)" "x \<in> set (ids t)" for x t
  proof -
    have "v x \<noteq> None" using g(1) that by (intro repr_some [of v t]) auto
    moreover have "x \<notin> set (ids u)" "x \<noteq> i" using g(3) that by auto
    ultimately show ?thesis by simp
  qed
  show "ins key loc (concat (map ents (ts1 @ u # ts2))) = concat (map ents ts1) @ ins key loc (ents u) @ concat (map ents ts2)"
    using ins_middle [of "concat (map ents ts1)" key "concat (map ents ts2)" loc "ents u"] assms by (simp add: handed_down_def)
qed

lemma handed_down_done:
  assumes "handed_down v v' n lo hi i ks1 ks2 ts1 u ts2 lo' hi' key loc Done"
  shows "inserted v v' (Suc n) lo hi (TBranch i (ks1 @ ks2) (ts1 @ u # ts2)) (ins key loc (concat (map ents (ts1 @ u # ts2)))) Done"
proof -
  note d = handed_downD [OF assms]
  have h: "distinct (ids (TBranch i (ks1 @ ks2) (ts1 @ u # ts2)))" "repr v (TBranch i (ks1 @ ks2) (ts1 @ u # ts2))"
    "length ts1 = length ks1" "length ts2 = length ks2" "focus key lo hi ks1 ks2 (map ord ts1) (ord u) (map ord ts2) lo' hi'"
    using assms unfolding handed_down_def good_def by blast+
  obtain u' where u': "good v' n lo' hi' u'" "replaced v v' u [u']" "ents u' = ins key loc (ents u)"
    using assms by (auto simp: handed_down_def inserted_def)
  have p: "pid u' = pid u" using replacedD(2) [OF u'(2)] by simp
  obtain b where b: "v i = Some b" "branch_page (zip (ks1 @ ks2) (map pid (ts1 @ u # ts2))) (pid (last (ts1 @ u # ts2))) b" using d(1) by blast
  have vi: "v' i = Some b" using replacedD(5) [OF u'(2) d(5,7)] b(1) by simp
  have rp: "repr v' t \<and> bal n t" if "t \<in> set (ts1 @ u' # ts2)" for t
  proof (cases "t = u'")
    case False
    then have t: "t \<in> set (ts1 @ ts2)" using that by auto
    have "repr v' t"
    proof (rule repr_cong [of t v])
      show "v x = v' x" if "x \<in> set (ids t)" for x using d(6) [OF t that] replacedD(5) [OF u'(2), of x] by simp
    qed (use d(2) t in auto)
    then show ?thesis using d(2) t by auto
  qed (use u'(1) in \<open>simp add: good_def\<close>)
  have "pid (last (ts1 @ u' # ts2)) = pid (last (ts1 @ u # ts2))" using p by simp
  then have "branch_page (zip (ks1 @ ks2) (map pid (ts1 @ u' # ts2))) (pid (last (ts1 @ u' # ts2))) b" using b(2) p by simp
  then have "good v' (Suc n) lo hi (TBranch i (ks1 @ ks2) (ts1 @ u' # ts2))"
    using rp h(3,4) d(3) focusD(9) [OF h(5), of "ord u'"] u'(1) vi by (intro good_branch [of _ v']) (auto simp: good_def)
  moreover have "replaced v v' (TBranch i (ks1 @ ks2) (ts1 @ u # ts2)) [TBranch i (ks1 @ ks2) (ts1 @ [u'] @ ts2)]"
    using replaced_in_branch [OF u'(2) refl h(1,2)] d(2) by blast
  ultimately show ?thesis using u'(3) d(4) by (auto simp: inserted_def)
qed


text \<open>The branch's entries once its child split, as trees.\<close>

lemma zip_absorbed:
  assumes "length ts1 = length ks1" "length ts2 = length ks2"
  shows "zip (ks1 @ sep # ks2) (map pid (ts1 @ t1 # t2 # ts2)) = zip ks1 (map pid ts1) @ (sep, pid t1) #
      (case zip ks2 (pid u # map pid ts2) of [] \<Rightarrow> [] | (k, _) # ys' \<Rightarrow> (k, pid t2) # ys')"
    and "pid (last (ts1 @ t1 # t2 # ts2)) = (case zip ks2 (pid u # map pid ts2) of [] \<Rightarrow> pid t2 | _ \<Rightarrow> pid (last (ts1 @ u # ts2)))"
  using assms by (cases ks2; cases ts2; simp)+

context grow_store begin

lemma absorb_inserted:
  assumes h: "handed_down v0 (view s) n lo hi i ks1 ks2 ts1 u ts2 lo' hi' key loc (Split sep j)"
    and "sound s" "0 < room s" "v0 i = Some (raw sp)"
    and f: "found_at sp slot (map branch_cell (zip ks1 (map pid ts1))) (map branch_cell (zip ks2 (pid u # map pid ts2)))"
  shows "\<exists>out s'. absorb_split ops i sp key slot (pid u) sep j s = (Inr out, s') \<and> sound s' \<and> room s \<le> room s' + 1
    \<and> inserted v0 (view s') (Suc n) lo hi (TBranch i (ks1 @ ks2) (ts1 @ u # ts2)) (ins key loc (concat (map ents (ts1 @ u # ts2)))) out"
proof -
  note d = handed_downD [OF h]
  let ?T = "TBranch i (ks1 @ ks2) (ts1 @ u # ts2)"
  let ?xs = "zip ks1 (map pid ts1)" and ?ys = "zip ks2 (pid u # map pid ts2)" and ?nx = "pid (last (ts1 @ u # ts2))"
  have g: "distinct (ids ?T)" "repr v0 ?T" "chain lo hi (ks1 @ ks2) (map ord (ts1 @ u # ts2))"
    and len: "length ts1 = length ks1" "length ts2 = length ks2"
    and fc: "focus key lo hi ks1 ks2 (map ord ts1) (ord u) (map ord ts2) lo' hi'"
    using h unfolding handed_down_def good_def ord.simps by blast+
  obtain t1 t2 where t: "good (view s) n lo' (Some sep) t1" "good (view s) n sep hi' t2" "pid t2 = j" "replaced v0 (view s) u [t1, t2]"
    "ents t1 @ ents t2 = ins key loc (ents u)" "lo' \<le> sep" "at_most sep hi'" "length sep \<le> MAX_KEY_LEN"
    using h by (auto simp: handed_down_def inserted_def)
  have p: "pid t1 = pid u" using replacedD(2) [OF t(4)] by simp
  define ks ts where "ks = ks1 @ sep # ks2" and "ts = ts1 @ t1 # t2 # ts2"
  have page: "branch_page (?xs @ ?ys) ?nx (raw sp)" using d(1) assms(4) len by simp
  have vi: "view s i = Some (raw sp)" using replacedD(5) [OF t(4) d(5,7)] assms(4) by simp
  have rp: "repr (view s) t \<and> bal n t" if "t \<in> set ts" for t
  proof (cases "t = t1 \<or> t = t2")
    case False
    then have m: "t \<in> set (ts1 @ ts2)" using that by (auto simp: ts_def)
    have "repr (view s) t"
    proof (rule repr_cong [of t v0])
      show "v0 x = view s x" if "x \<in> set (ids t)" for x using d(6) [OF m that] replacedD(5) [OF t(4), of x] by simp
    qed (use d(2) m in auto)
    then show ?thesis using d(2) m by auto
  qed (use t(1,2) in \<open>auto simp: good_def\<close>)
  have R: "replaced v0 (view s) ?T [TBranch i ks ts]"
    using replaced_in_branch [OF t(4) refl g(1,2), of n ks] d(2) by (auto simp: ts_def)
  have ch: "chain lo hi ks (map ord ts)"
    using focusD(10) [OF fc, of "ord t1" sep "ord t2"] t(1,2,6-8) by (simp add: good_def ks_def ts_def)
  have lks: "length ts = Suc (length ks)" using len by (simp add: ks_def ts_def)
  have dT: "i \<notin> set (ids t)" if "t \<in> set ts" for t using replacedD(3) [OF R] that by auto
  have some: "view s x \<noteq> None" if "t \<in> set ts" "x \<in> set (ids t)" for t x using repr_some [of "view s" t x] rp [OF that(1)] that(2) by blast
  have small: "x < 2 ^ 64" if "view s x \<noteq> None" for x using view_page [OF assms(2), of x] that by auto
  have kl: "\<forall>(k, c) \<in> set (?xs @ ?ys). length k \<le> 1024"
    using chain_from [OF g(3)] by (auto simp: MAX_KEY_LEN_def dest!: set_zip_leftD)
  have es: "zip ks (map pid ts) = ?xs @ (sep, pid u) # (case ?ys of [] \<Rightarrow> [] | (k, _) # ys' \<Rightarrow> (k, j) # ys')"
    and rm: "pid (last ts) = (case ?ys of [] \<Rightarrow> j | _ \<Rightarrow> ?nx)"
    unfolding ks_def ts_def zip_absorbed(1) [OF len, of sep t1 t2 u] zip_absorbed(2) [OF len, of t1 t2 u] p t(3) by (rule refl)+
  have c64: "pid u < 2 ^ 64" using small [OF some [OF _ pid_in_ids, of t1]] p by (simp add: ts_def)
  have n64: "j < 2 ^ 64" using small [OF some [OF _ pid_in_ids, of t2]] t(3) by (simp add: ts_def)
  have ord: "\<forall>e \<in> set ?xs. fst e \<le> key" "\<forall>e \<in> set ?ys. key < fst e" using focusD(2,3) [OF fc] by (auto dest: set_zip_leftD)
  have sl: "length sep \<le> 1024" using t(8) by (simp add: MAX_KEY_LEN_def)
  obtain out s' where r: "absorb_split ops i sp key slot (pid u) sep j s = (Inr out, s')" "sound s'" "room s \<le> room s' + 1"
    "case out of
      Done \<Rightarrow> \<exists>b. view s' = (view s)(i \<mapsto> b) \<and> branch_page (zip ks (map pid ts)) (pid (last ts)) b
    | Split k j \<Rightarrow> \<exists>L c R b1 b2. zip ks (map pid ts) = L @ (k, c) # R \<and> L \<noteq> [] \<and> R \<noteq> [] \<and> view s j = None
        \<and> view s' = (view s)(i \<mapsto> b1, j \<mapsto> b2) \<and> branch_page L c b1 \<and> branch_page R (pid (last ts)) b2"
    using absorb_split_ok [OF assms(2) vi assms(3) page branch_pageD(7) [OF page] ord f kl sl c64 n64 es rm] by blast
  have E: "concat (map ents ts) = ins key loc (concat (map ents (ts1 @ u # ts2)))" using d(4) t(5) by (simp add: ts_def)
  have "inserted v0 (view s') (Suc n) lo hi ?T (concat (map ents ts)) out"
  proof (cases out)
    case Done
    then obtain b where b: "view s' = (view s)(i \<mapsto> b)" "branch_page (zip ks (map pid ts)) (pid (last ts)) b" using r(4) by auto
    have "good (view s') (Suc n) lo hi (TBranch i ks ts)"
      by (rule good_branch [of _ "view s"]) (use rp lks ch b dT in \<open>auto simp: ks_def\<close>)
    moreover have "replaced v0 (view s') ?T [TBranch i ks ts]" unfolding b(1) by (rule replaced_write [OF R]) simp
    ultimately show ?thesis using Done by (auto simp: inserted_def)
  next
    case (Split k j')
    then obtain L c RR b1 b2 where b: "zip ks (map pid ts) = L @ (k, c) # RR" "L \<noteq> []" "RR \<noteq> []" "view s j' = None"
      "view s' = (view s)(i \<mapsto> b1, j' \<mapsto> b2)" "branch_page L c b1" "branch_page RR (pid (last ts)) b2" using r(4) by auto
    obtain kL kR tL tR where z: "ks = kL @ k # kR" "ts = tL @ tR" "length tL = Suc (length kL)" "length tR = Suc (length kR)"
      "L = zip kL (map pid tL)" "c = pid (last tL)" "RR = zip kR (map pid tR)" "last ts = last tR"
      using zip_cut [OF b(1) lks] by blast
    have c: "chain lo (Some k) kL (map ord tL)" "length k \<le> MAX_KEY_LEN" "chain k hi kR (map ord tR)"
      using ch chain_split [of "map ord tL" kL lo hi k kR "map ord tR"] z(1-3) by auto
    have ij: "i \<noteq> j'" using b(4) vi by auto
    have same: "view s' x = view s x" if "t \<in> set ts" "x \<in> set (ids t)" for t x
      using b(4,5) dT [OF that(1)] some [OF that] that(2) by (cases "x = j'") auto
    have gL: "good (view s') (Suc n) lo (Some k) (TBranch i kL tL)"
    proof (rule good_branch [of _ "view s"])
      show "\<forall>t \<in> set tL. repr (view s) t \<and> bal n t" using rp z(2) by simp
      show "kL \<noteq> []" using b(2) z(5) by auto
      show "view s' x = view s x" if "t \<in> set tL" "x \<in> set (ids t)" for t x using same [OF _ that(2)] that(1) z(2) by simp
      show "view s' i = Some b1" using b(5) ij by simp
      show "branch_page (zip kL (map pid tL)) (pid (last tL)) b1" using b(6) z(5,6) by simp
    qed (fact z(3) c(1))+
    have gR: "good (view s') (Suc n) k hi (TBranch j' kR tR)"
    proof (rule good_branch [of _ "view s"])
      show "\<forall>t \<in> set tR. repr (view s) t \<and> bal n t" using rp z(2) by simp
      show "kR \<noteq> []" using b(3) z(7) by auto
      show "view s' x = view s x" if "t \<in> set tR" "x \<in> set (ids t)" for t x using same [OF _ that(2)] that(1) z(2) by simp
      show "view s' j' = Some b2" using b(5) ij by simp
      show "branch_page (zip kR (map pid tR)) (pid (last tR)) b2" using b(7) z(7,8) by simp
    qed (fact z(4) c(3))+
    have "\<forall>x \<in> set (ids (TBranch i ks ts)). view s x \<noteq> None" using some vi by auto
    then have "replaced v0 (view s') ?T [TBranch i kL tL, TBranch j' kR tR]"
      unfolding b(5) by (intro replaced_split [OF R z(2) b(4)]) simp_all
    moreover have "lo \<le> k" "at_most k hi" using chain_from [OF c(1)] chain_from [OF c(3)] by (auto simp: bound_simps)
    moreover have "ents (TBranch i kL tL) @ ents (TBranch j' kR tR) = concat (map ents ts)" using z(2) by simp
    ultimately have "inserted v0 (view s') (Suc n) lo hi ?T (concat (map ents ts)) (Split k (pid (TBranch j' kR tR)))"
      using insertedI(2) [OF gL gR] c(2) by blast
    then show ?thesis unfolding Split pid.simps .
  qed
  then show ?thesis using r(1-3) unfolding E by blast
qed

end

end
