(* ===== verification/Btindex.thy ===== *)
theory Btindex
  imports Btshape
begin

text \<open>
  The \<open>Index\<close> of \<open>src/src/index/mod.rs\<close> on the B-tree: insertion, removal and lookup of a key, over
  any page store and then on the file store. \<open>ordered_index\<close> is the trait's contract, an ordered map
  from keys to locations.
\<close>

subsection \<open>Insertion into a tree\<close>

context grow_store begin

lemma insert_into_ok:
  assumes "sound s" "good (view s) n lo hi t" "distinct (ids t)" "lo \<le> key" "below key hi" "key \<notin> fst ` set (ents t)"
    and "n + depth \<le> MAX_DEPTH" "n < room s" "length key \<le> MAX_KEY_LEN" "loc_ok loc"
  shows "\<exists>out s'. insert_into ops (pid t) key loc depth s = (Inr out, s') \<and> sound s' \<and> room s \<le> room s' + n + 1
    \<and> inserted (view s) (view s') n lo hi t (ins key loc (ents t)) out"
  using assms
proof (induction n arbitrary: t lo hi s depth)
  case 0
  then obtain i es nx where t: "t = TLeaf i es nx" by (cases t) (auto simp: good_def)
  have g: "repr (view s) t" "ord t lo hi" using 0 by (simp_all add: good_def)
  obtain b where b: "view s i = Some b" "leaf_page es nx b" using g t by auto
  then obtain sp s1 where r: "read_node ops i s = (Inr sp, s1)" "raw sp = b" "node_type sp = Inr PIndexLeaf"
    "sound s1" "view s1 = view s" "room s1 = room s"
    using read_node_reads [OF 0(1) b(1)] by (metis leaf_page_def)
  obtain out s' where o: "insert_into_leaf ops i sp key loc s1 = (Inr out, s')" "sound s'" "room s1 \<le> room s' + 1"
    "inserted (view s1) (view s') 0 lo hi (TLeaf i es nx) (ins key loc es) out"
    using insert_leaf_inserted [OF r(4), of i es nx lo hi key loc sp] g 0(4-) b t r(2,5,6) by auto
  have "insert_into ops (pid t) key loc depth s = (Inr out, s')"
    using r o(1) 0(7) t by (subst insert_into.simps) simp
  then show ?case using o r(5,6) t by auto
next
  case (Suc n)
  then obtain i ks ts where t: "t = TBranch i ks ts" by (cases t) (auto simp: good_def)
  have g: "repr (view s) t" "bal (Suc n) t" "ord t lo hi" using Suc.prems(2) by (simp_all add: good_def)
  have n: "\<forall>t \<in> set ts. bal n t" using g(2) t by simp
  obtain b where b: "view s i = Some b" "branch_page (zip ks (map pid ts)) (pid (last ts)) b" using g(1) t by auto
  then obtain sp s1 where r: "read_node ops i s = (Inr sp, s1)" "raw sp = b" "node_type sp = Inr PIndexBranch"
    "sound s1" "view s1 = view s" "room s1 = room s"
    using read_node_reads [OF Suc.prems(1) b(1)] by (metis branch_page_def)
  have "chain lo hi ks (map ord ts)" using g(3) t by simp
  from branch_focus [OF this Suc.prems(4,5) n] obtain ks1 ks2 ts1 u ts2 lo' hi' where f: "ks = ks1 @ ks2" "ts = ts1 @ u # ts2"
    "length ts1 = length ks1" "length ts2 = length ks2" "focus key lo hi ks1 ks2 (map ord ts1) (ord u) (map ord ts2) lo' hi'"
    "\<forall>e \<in> set (concat (map ents ts1)). fst e < key" "\<forall>e \<in> set (concat (map ents ts2)). key < fst e" by blast
  note k = focusD(2-6) [OF f(5)]
  obtain slot where c: "route sp key = Inr (slot, pid u)"
    "found_at sp slot (map branch_cell (zip ks1 (map pid ts1))) (map branch_cell (zip ks2 (pid u # map pid ts2)))"
    using branch_route [of ks1 ks2 ts1 u ts2 sp key] b(2) r(2) f(1-4) k(1,2) by auto
  have u: "good (view s1) n lo' hi' u" "distinct (ids u)" "key \<notin> fst ` set (ents u)"
    using g(1) n f(2) r(5) k(5) Suc.prems(3,6) t by (auto simp: good_def)
  obtain out s2 where w: "insert_into ops (pid u) key loc (depth + 1) s1 = (Inr out, s2)" "sound s2" "room s1 \<le> room s2 + n + 1"
    "inserted (view s1) (view s2) n lo' hi' u (ins key loc (ents u)) out"
    using Suc.IH [OF r(4) u(1,2) k(3,4) u(3), of "depth + 1"] Suc.prems(7-10) r(6) by auto
  have h: "handed_down (view s) (view s2) n lo hi i ks1 ks2 ts1 u ts2 lo' hi' key loc out"
    unfolding handed_down_def using Suc.prems(2,3) f w(4) unfolding t r(5) f(1,2) by blast
  have run: "insert_into ops (pid t) key loc depth s = (case out of
       Done \<Rightarrow> retA Done | Split separator new_right \<Rightarrow> absorb_split ops i sp key slot (pid u) separator new_right) s2"
    using r(1,3) c(1) w(1) Suc.prems(7) t by (subst insert_into.simps) (simp add: insert_into_branch_def)
  have T: "t = TBranch i (ks1 @ ks2) (ts1 @ u # ts2)" "ents t = concat (map ents (ts1 @ u # ts2))" using t f(1,2) by simp_all
  show ?case
  proof (cases out)
    case Done
    have "inserted (view s) (view s2) (Suc n) lo hi t (ins key loc (ents t)) Done"
      using handed_down_done [OF h [unfolded Done]] unfolding T(2) unfolding T(1) .
    then show ?thesis using run Done w(2,3) r(6) by auto
  next
    case (Split sep j)
    have "0 < room s2" using w(3) r(6) Suc.prems(8) by simp
    from absorb_inserted [OF h [unfolded Split] w(2) this _ c(2)] obtain out' s' where a:
      "absorb_split ops i sp key slot (pid u) sep j s2 = (Inr out', s')" "sound s'" "room s2 \<le> room s' + 1"
      "inserted (view s) (view s') (Suc n) lo hi (TBranch i (ks1 @ ks2) (ts1 @ u # ts2)) (ins key loc (concat (map ents (ts1 @ u # ts2)))) out'"
      using b(1) r(2) by blast
    have "inserted (view s) (view s') (Suc n) lo hi t (ins key loc (ents t)) out'" using a(4) unfolding T(2) unfolding T(1) .
    then show ?thesis using run Split a(1-3) w(3) r(6) by auto
  qed
qed

end

text \<open>A branch's children: those of its entries, and its next page.\<close>

lemma branch_children:
  assumes "length ts = Suc (length ks)"
  shows "map snd (zip ks (map pid ts)) @ [pid (last ts)] = map pid ts"
proof -
  have "map snd (zip ks (map pid ts)) = map pid (butlast ts)"
    using assms by (simp add: map_snd_zip_take map_butlast butlast_conv_take take_map)
  moreover have "ts = butlast ts @ [last ts]" using assms by (cases ts rule: rev_cases) auto
  ultimately show ?thesis by (metis list.map(1,2) map_append)
qed

subsection \<open>An index: a tree at its root page\<close>

text \<open>
  \<open>index_at v root P es\<close>: the pages \<open>P\<close> of the store hold a tree with root page \<open>root\<close> and the entries
  \<open>es\<close>, in key order.
\<close>

definition index_at :: "(nat \<rightharpoonup> bytes) \<Rightarrow> nat \<Rightarrow> nat set \<Rightarrow> (bytes \<times> location) list \<Rightarrow> bool" where
  "index_at v root P es \<longleftrightarrow> (\<exists>t n. good v n [] None t \<and> pid t = root \<and> ents t = es \<and> set (ids t) = P \<and> distinct (ids t)
     \<and> linked (leaves t) 0)"

lemma index_at_sorted: "index_at v root P es \<Longrightarrow> sorted_wrt (<) (map fst es)"
  using ord_ents by (fastforce simp: index_at_def good_def)

text \<open>Only the pages of the tree matter.\<close>

lemma index_at_cong: "index_at v root P es \<Longrightarrow> (\<And>i. i \<in> P \<Longrightarrow> v' i = v i) \<Longrightarrow> index_at v' root P es"
  unfolding index_at_def good_def using repr_cong by metis

text \<open>The root's page moved to another, as \<open>grow_new_root\<close> moves it.\<close>

fun relabel :: "nat \<Rightarrow> tree \<Rightarrow> tree" where
  "relabel j (TLeaf i es nx) = TLeaf j es nx"
| "relabel j (TBranch i ks ts) = TBranch j ks ts"

lemma relabel_simps [simp]:
  "pid (relabel j t) = j" "ents (relabel j t) = ents t" "ord (relabel j t) = ord t" "bal n (relabel j t) = bal n t"
  "ids (relabel j t) = j # tl (ids t)"
  by (cases t; cases n; simp)+

lemma ids_pid: "ids t = pid t # tl (ids t)"
  by (cases t) simp_all

lemma relabel_leaves: "linked (leaves (relabel j t) @ ls) e \<longleftrightarrow> linked (leaves t @ ls) e"
proof (cases t)
  case (TLeaf i es nx)
  then show ?thesis by (cases ls) auto
qed simp

lemma repr_relabel:
  assumes "repr v t" "v' j = v (pid t)" "\<And>i. i \<in> set (tl (ids t)) \<Longrightarrow> v' i = v i"
  shows "repr v' (relabel j t)"
proof (cases t)
  case (TBranch i ks ts)
  have "repr v' t'" if "t' \<in> set ts" for t'
  proof (rule repr_cong [of t' v])
    show "v x = v' x" if "x \<in> set (ids t')" for x
    proof -
      have "x \<in> set (tl (ids t))" using that \<open>t' \<in> set ts\<close> TBranch by auto
      from assms(3) [OF this] show ?thesis by simp
    qed
    show "repr v t'" using assms(1) that TBranch by simp
  qed
  then show ?thesis using assms(1,2) TBranch by auto
qed (use assms in auto)

context grow_store begin

lemma index_at_depth:
  assumes "sound s" "repr (view s) t" "bal n t" "distinct (ids t)"
  shows "n < MAX_DEPTH"
proof (rule depth_bound [OF assms(3,4)])
  show "0 < i \<and> i < 2 ^ 64" if "i \<in> set (ids t)" for i
    using repr_some [OF assms(2) that] view_page [OF assms(1), of i] by auto
qed

lemma grow_new_root_ok:
  assumes "sound s" "0 < room s" "good (view s) n [] (Some sep) t1" "good (view s) n sep None t2" "distinct (ids t1 @ ids t2)"
    and "linked (leaves t1 @ leaves t2) 0" "length sep \<le> MAX_KEY_LEN"
  shows "\<exists>s' j. grow_new_root ops (pid t1) sep (pid t2) s = (Inr (), s') \<and> sound s' \<and> room s \<le> room s' + 1 \<and> view s j = None
    \<and> index_at (view s') (pid t1) (insert j (set (ids t1 @ ids t2))) (ents t1 @ ents t2)
    \<and> (\<forall>i. i \<notin> set (ids t1 @ ids t2) \<longrightarrow> view s i \<noteq> None \<longrightarrow> view s' i = view s i) \<and> (\<forall>i. view s i \<noteq> None \<longrightarrow> view s' i \<noteq> None)"
proof -
  let ?root = "pid t1" and ?v = "view s"
  have g: "repr ?v t1" "repr ?v t2" "bal n t1" "bal n t2" "ord t1 [] (Some sep)" "ord t2 sep None" using assms(3,4) by (simp_all add: good_def)
  obtain j b0 s1 where a: "allocate_page ops s = (Inr j, s1)" "?v j = None" "sound s1" "view s1 = ?v(j \<mapsto> b0)" "room s \<le> room s1 + 1"
    using allocate_law [OF assms(1,2)] by blast
  have j: "j \<notin> set (ids t1 @ ids t2)" using a(2) repr_some [OF g(1), of j] repr_some [OF g(2), of j] by auto
  obtain b where b: "?v ?root = Some b" using repr_some [OF g(1) pid_in_ids] by auto
  have "view s1 ?root = Some b" using a(4) b j pid_in_ids [of t1] by auto
  from read_law [OF a(3) this] obtain p s2 where r: "read_page ops ?root s1 = (Inr p, s2)" "page_bytes p = b" "sound s2" "view s2 = view s1" "room s2 = room s1" by blast
  have lb: "length b = USABLE_PAGE_SIZE" using view_page [OF assms(1) b] by simp
  obtain s3 where w: "write_page ops j p s2 = (Inr (), s3)" "sound s3" "view s3 = (view s2)(j \<mapsto> b)" "room s3 = room s2"
    using write_law [OF r(3), of j p] r(2,4) a(4) lb by auto
  have "?v (pid t2) \<noteq> None" using repr_some [OF g(2) pid_in_ids] .
  then have j64: "j < 2 ^ 64" "pid t2 < 2 ^ 64" using view_page [OF a(3), of j b0] view_page [OF assms(1), of "pid t2"] a(4) by auto
  have "13 + node_size (map branch_cell [(sep, j)]) \<le> 8188" using assms(7) by (simp add: MAX_KEY_LEN_def)
  then obtain sp where sp: "build_branch_page [(sep, j)] (pid t2) = Inr (Some sp)" "branch_page [(sep, j)] (pid t2) (raw sp)"
    using build_branch_spec [OF j64(2), of "[(sep, j)]"] j64(1) by auto
  obtain sp0 slot where c: "set_next_page (slotted_new PIndexBranch) (pid t2) = Inr sp0" "insert_cell sp0 (encode_branch_entry sep j) = Inr (sp, Some slot)"
    using sp(1) by (auto simp: build_branch_page_def bindR_eq_Inr split: option.splits)
  obtain s' where x: "write_page ops ?root (into_page sp) s3 = (Inr (), s')" "sound s'" "view s' = (view s3)(?root \<mapsto> raw sp)" "room s' = room s3"
    using write_law [OF w(2), of ?root "into_page sp"] w(3) r(4) a(4) b branch_pageD(2) [OF sp(2)] by (cases "?root = j") auto
  have V: "view s' = ?v(j \<mapsto> b, ?root \<mapsto> raw sp)" using x(3) w(3) r(4) a(4) by simp
  have ne: "j \<noteq> ?root" using j pid_in_ids [of t1] by auto
  have d: "?root \<notin> set (tl (ids t1))" "?root \<notin> set (ids t2)" "distinct (tl (ids t1))" "set (tl (ids t1)) \<inter> set (ids t2) = {}"
    using assms(5) ids_pid [of t1] by (metis distinct.simps(2) distinct_append, metis IntI distinct_append emptyE pid_in_ids,
      metis distinct_append distinct_tl, metis Int_iff disjoint_iff distinct_append list.set_intros(2))
  have jt: "j \<notin> set (tl (ids t1))" using j ids_pid [of t1] by (metis UnCI list.set_intros(2) set_append)
  let ?t = "TBranch ?root [sep] [relabel j t1, t2]"
  have "repr (view s') (relabel j t1)"
    by (rule repr_relabel [OF g(1)]) (use V ne b jt d(1) in auto)
  moreover have "repr (view s') t2" by (rule repr_cong [OF _ g(2)]) (use V j d(2) in auto)
  moreover have "view s' ?root = Some (raw sp)" using V by simp
  ultimately have "good (view s') (Suc n) [] None ?t"
    using sp(2) g(3-6) assms(7) by (simp add: good_def bound_simps)
  moreover have "linked (leaves ?t) 0" using relabel_leaves [of j t1 "leaves t2" 0] assms(6) by simp
  moreover have "set (ids ?t) = insert j (set (ids t1 @ ids t2))" using ids_pid [of t1] by (metis (no_types, lifting) append_Cons concat.simps ids.simps(2) insert_commute list.simps(8,9,15) relabel_simps(5) append_Nil2 )
  moreover have "distinct (ids ?t)" using d ne j jt assms(5) by auto
  ultimately have "index_at (view s') ?root (insert j (set (ids t1 @ ids t2))) (ents t1 @ ents t2)"
    unfolding index_at_def by (intro exI [of _ ?t] exI [of _ "Suc n"]) simp
  moreover have "grow_new_root ops ?root sep (pid t2) s = (Inr (), s')"
    using a(1) r(1) w(1) c x(1) by (simp add: grow_new_root_def)
  moreover have "room s \<le> room s' + 1" using a(5) r(5) w(4) x(4) by simp
  moreover have "view s' i = view s i" if "i \<notin> set (ids t1 @ ids t2)" "view s i \<noteq> None" for i
    using V that a(2) pid_in_ids [of t1] by auto
  ultimately show ?thesis using a(2) x(2) V by (intro exI [of _ s'] exI [of _ j]) auto
qed

text \<open>
  The new tree's pages are the old one's and new ones; no other page in use changes, so that other
  trees of the store stay what they were.
\<close>

lemma bt_insert_ok:
  assumes "sound s" "index_at (view s) root P es" "key \<notin> fst ` set es" "MAX_DEPTH < room s" "length key \<le> MAX_KEY_LEN" "loc_ok loc"
  shows "\<exists>s' P'. bt_insert ops root key loc s = (Inr (), s') \<and> sound s' \<and> index_at (view s') root P' (ins key loc es)
    \<and> (\<forall>i \<in> P'. i \<in> P \<or> view s i = None) \<and> (\<forall>i. i \<notin> P \<longrightarrow> view s i \<noteq> None \<longrightarrow> view s' i = view s i)
    \<and> room s \<le> room s' + MAX_DEPTH + 1"
proof -
  obtain t n where t: "good (view s) n [] None t" "pid t = root" "ents t = es" "set (ids t) = P" "distinct (ids t)" "linked (leaves t) 0"
    using assms(2) by (auto simp: index_at_def)
  have n: "n < MAX_DEPTH" using index_at_depth [OF assms(1) _ _ t(5), of n] t(1) by (simp add: good_def)
  have room: "n < room s" using n assms(4) by simp
  have "[] \<le> key" "below key None" by (simp_all add: below_def)
  then obtain out s1 where r: "insert_into ops root key loc 0 s = (Inr out, s1)" "sound s1" "room s \<le> room s1 + n + 1"
    "inserted (view s) (view s1) n [] None t (ins key loc es) out"
    using insert_into_ok [OF assms(1) t(1,5), of key 0 loc] assms(3,5,6) n room t(2,3) by auto
  show ?thesis
  proof (cases out)
    case Done
    then obtain t' where t': "good (view s1) n [] None t'" "replaced (view s) (view s1) t [t']" "ents t' = ins key loc es"
      using r(4) by (auto simp: inserted_def)
    have "index_at (view s1) root (set (ids t')) (ins key loc es)"
      unfolding index_at_def using t' replacedD(2,3) [OF t'(2)] replacedD(9) [OF t'(2) t(6)] t(2) by (intro exI [of _ t'] exI [of _ n]) simp
    moreover have "\<forall>i \<in> set (ids t'). i \<in> P \<or> view s i = None" using replacedD(4) [OF t'(2)] t(4) by simp
    moreover have "\<forall>i. i \<notin> P \<longrightarrow> view s i \<noteq> None \<longrightarrow> view s1 i = view s i" using replacedD(5) [OF t'(2)] t(4) by simp
    moreover have "bt_insert ops root key loc s = (Inr (), s1)" using r(1) Done assms(5) by (simp add: bt_insert_def)
    moreover have "room s \<le> room s1 + MAX_DEPTH + 1" using r(3) n by simp
    ultimately show ?thesis using r(2) by blast
  next
    case (Split sep j)
    then obtain t1 t2 where t': "good (view s1) n [] (Some sep) t1" "good (view s1) n sep None t2" "pid t2 = j" "replaced (view s) (view s1) t [t1, t2]"
      "ents t1 @ ents t2 = ins key loc es" "length sep \<le> MAX_KEY_LEN"
      using r(4) by (auto simp: inserted_def)
    have e: "pid t1 = root" "distinct (ids t1 @ ids t2)" "linked (leaves t1 @ leaves t2) 0"
      using replacedD(2,3) [OF t'(4)] replacedD(9) [OF t'(4) t(6)] t(2) by simp_all
    have rm: "0 < room s1" using r(3) n assms(4) by simp
    obtain s' k where g: "grow_new_root ops root sep j s1 = (Inr (), s')" "sound s'" "room s1 \<le> room s' + 1" "view s1 k = None"
      "index_at (view s') root (insert k (set (ids t1 @ ids t2))) (ins key loc es)"
      "\<forall>i. i \<notin> set (ids t1 @ ids t2) \<longrightarrow> view s1 i \<noteq> None \<longrightarrow> view s' i = view s1 i"
      using grow_new_root_ok [OF r(2) rm t'(1,2) e(2,3) t'(6)] t'(3,5) e(1) by auto
    have "bt_insert ops root key loc s = (Inr (), s')" using r(1) Split g(1) assms(5) by (simp add: bt_insert_def)
    moreover have "\<forall>i \<in> insert k (set (ids t1 @ ids t2)). i \<in> P \<or> view s i = None"
      using replacedD(4) [OF t'(4)] replacedD(6) [OF t'(4), of k] t(4) g(4) by auto
    moreover have "view s' i = view s i" if "i \<notin> P" "view s i \<noteq> None" for i
    proof -
      have "i \<notin> set (ids t1 @ ids t2)" using replacedD(4) [OF t'(4), of i] that t(4) by auto
      moreover have "view s1 i = view s i" using replacedD(5) [OF t'(4)] that t(4) by simp
      ultimately show ?thesis using g(6) that(2) by simp
    qed
    moreover have "room s \<le> room s' + MAX_DEPTH + 1" using r(3) g(3) n by simp
    ultimately show ?thesis using g(2,5) by blast
  qed
qed

lemma find_leaf_ok:
  assumes "sound s" "index_at (view s) root P es"
  shows "\<exists>i sp s' E nx A B xs ys. find_leaf ops root key s = (Inr (i, sp), s') \<and> sound s' \<and> view s' = view s \<and> room s' = room s
    \<and> view s i = Some (raw sp) \<and> i \<in> P \<and> E = xs @ ys \<and> leaf_page E nx (raw sp) \<and> es = A @ E @ B
    \<and> (\<forall>e \<in> set (A @ xs). fst e < key) \<and> (\<forall>e \<in> set ys. key \<le> fst e) \<and> (\<forall>e \<in> set B. key < fst e)
    \<and> (\<forall>b' E'. leaf_page E' nx b' \<and> sorted_wrt (<) (map fst E') \<and> set E' \<subseteq> set E
        \<longrightarrow> index_at ((view s)(i \<mapsto> b')) root P (A @ E' @ B))"
proof -
  obtain t n where t: "good (view s) n [] None t" "pid t = root" "ents t = es" "set (ids t) = P" "distinct (ids t)" "linked (leaves t) 0"
    using assms(2) by (auto simp: index_at_def)
  have g: "repr (view s) t" "bal n t" "ord t [] None" using t(1) by (simp_all add: good_def)
  have n: "n < MAX_DEPTH + 1" using index_at_depth [OF assms(1) g(1,2) t(5)] by simp
  have k: "[] \<le> key" "below key None" by (simp_all add: below_def)
  obtain i sp s' E nx A B where f: "find_leaf_loop ops key (MAX_DEPTH + 1) (pid t) s = (Inr (i, sp), s')" "sound s'" "view s' = view s" "room s' = room s"
    "view s i = Some (raw sp)" "leaf_page E nx (raw sp)" "i \<in> set (ids t)" "sorted_wrt (<) (map fst E)"
    "ents t = A @ E @ B" "\<forall>e \<in> set A. fst e < key" "\<forall>e \<in> set B. key < fst e"
    and sh: "\<And>b' E'. leaf_page E' nx b' \<and> sorted_wrt (<) (map fst E') \<and> set E' \<subseteq> set E \<and> distinct (ids t)
        \<Longrightarrow> \<exists>t'. shrunk ((view s)(i \<mapsto> b')) n [] None t (A @ E' @ B) t'"
    using find_leaf_loop_ok [OF assms(1) g k n] by blast
  obtain xs ys where xy: "E = xs @ ys" "\<forall>e \<in> set xs. fst e < key" "\<forall>e \<in> set ys. key \<le> fst e" using key_split [OF f(8)] by blast
  have "index_at ((view s)(i \<mapsto> b')) root P (A @ E' @ B)" if h: "leaf_page E' nx b' \<and> sorted_wrt (<) (map fst E') \<and> set E' \<subseteq> set E" for b' E'
  proof -
    obtain t' where "shrunk ((view s)(i \<mapsto> b')) n [] None t (A @ E' @ B) t'" using sh h t(5) by blast
    then show ?thesis unfolding index_at_def using t(2,4-6) by (intro exI [of _ t'] exI [of _ n]) (simp add: shrunk_def good_def)
  qed
  moreover have "\<forall>e \<in> set (A @ xs). fst e < key" using f(10) xy(2) by auto
  moreover have "find_leaf ops root key s = (Inr (i, sp), s')" using f(1) t(2) by (simp add: find_leaf_def)
  ultimately show ?thesis using f(2-7,9,11) xy(1,3) t(3,4) by blast
qed

lemma bt_lookup_ok:
  assumes "sound s" "index_at (view s) root P es"
  shows "\<exists>s'. bt_lookup ops root key s = (Inr (map_of es key), s') \<and> sound s' \<and> view s' = view s \<and> room s' = room s"
proof -
  obtain i sp s' E nx A B xs ys where f: "find_leaf ops root key s = (Inr (i, sp), s')" "sound s'" "view s' = view s" "room s' = room s"
    "view s i = Some (raw sp)" "E = xs @ ys" "leaf_page E nx (raw sp)" "es = A @ E @ B"
    "\<forall>e \<in> set (A @ xs). fst e < key" "\<forall>e \<in> set ys. key \<le> fst e" "\<forall>e \<in> set B. key < fst e"
    using find_leaf_ok [OF assms, of key] by blast
  have "key \<notin> fst ` set (A @ xs)" "key \<notin> fst ` set B" using f(9,11) by auto
  then have "map_of (A @ xs) key = None" "map_of B key = None" unfolding map_of_eq_None_iff by blast+
  moreover have "es = (A @ xs) @ ys @ B" using f(6,8) by simp
  ultimately have m: "map_of es key = map_of ys key" by (simp add: map_add_def del: append_assoc split: option.splits)
  have lf: "leaf_page (xs @ ys) nx (raw sp)" "\<forall>e \<in> set xs. fst e < key" using f(6,7,9) by auto
  note sl = slot_of_leaf [OF lf f(10)]
  show ?thesis
  proof (cases "ys = [] \<or> fst (hd ys) \<noteq> key")
    case True
    have "sorted_wrt (<) (map fst ys)" using index_at_sorted [OF assms(2)] f(6,8) by (simp add: sorted_wrt_append)
    then have "map_of ys key = None" using True f(10) by (cases ys) (auto simp: map_of_eq_None_iff)
    then show ?thesis using f(1-4) sl(1) [OF True] m by (simp add: bt_lookup_def)
  next
    case False
    then obtain l ys' where y: "ys = (key, l) # ys'" by (cases ys) auto
    have "loc_ok l" using lf(1) y by (auto simp: leaf_page_def)
    then show ?thesis using f(1-4) sl(2) [OF y] m y live_cell_at [OF leaf_pageD(1) [OF lf(1)]]
      by (auto simp: bt_lookup_def)
  qed
qed

lemma bt_remove_ok:
  assumes "sound s" "index_at (view s) root P es"
  shows "\<exists>s'. bt_remove ops root key s = (Inr (), s') \<and> sound s' \<and> index_at (view s') root P (filter (\<lambda>e. fst e \<noteq> key) es)
    \<and> (\<forall>i. i \<notin> P \<longrightarrow> view s' i = view s i) \<and> room s' = room s"
proof -
  obtain i sp s' E nx A B xs ys where f: "find_leaf ops root key s = (Inr (i, sp), s')" "sound s'" "view s' = view s" "room s' = room s"
    "view s i = Some (raw sp)" "i \<in> P" "E = xs @ ys" "leaf_page E nx (raw sp)" "es = A @ E @ B"
    "\<forall>e \<in> set (A @ xs). fst e < key" "\<forall>e \<in> set ys. key \<le> fst e" "\<forall>e \<in> set B. key < fst e"
    and sh: "\<And>b' E'. leaf_page E' nx b' \<and> sorted_wrt (<) (map fst E') \<and> set E' \<subseteq> set E
        \<Longrightarrow> index_at ((view s)(i \<mapsto> b')) root P (A @ E' @ B)"
    using find_leaf_ok [OF assms, of key] by blast
  have lf: "leaf_page (xs @ ys) nx (raw sp)" "\<forall>e \<in> set xs. fst e < key" using f(7,8,10) by auto
  note sl = slot_of_leaf [OF lf f(11)]
  have srt: "sorted_wrt (<) (map fst (xs @ ys))" using index_at_sorted [OF assms(2)] f(7,9) by (simp add: sorted_wrt_append)
  have out: "filter (\<lambda>e. fst e \<noteq> key) (A @ xs) = A @ xs" "filter (\<lambda>e. fst e \<noteq> key) B = B"
    using f(10,12) by (auto intro!: filter_True simp del: filter_append)
  show ?thesis
  proof (cases "ys = [] \<or> fst (hd ys) \<noteq> key")
    case True
    have "filter (\<lambda>e. fst e \<noteq> key) ys = ys" using True f(11) srt by (cases ys) (auto simp: filter_id_conv sorted_wrt_append)
    then have "filter (\<lambda>e. fst e \<noteq> key) es = es" using out f(7,9) by simp
    then show ?thesis using f(1-4) sl(1) [OF True] assms(2) by (simp add: bt_remove_def)
  next
    case False
    then obtain l ys' where y: "ys = (key, l) # ys'" by (cases ys) auto
    obtain slot where s: "slot_of sp key = Inr (Some slot)" "slot < cnt (raw sp)" "live_of (take slot (cells (raw sp))) = map index_cell xs"
      "cells (raw sp) ! slot = Some (encode_index_entry key l)" "live_of (drop (Suc slot) (cells (raw sp))) = map index_cell ys'"
      using sl(2) [OF y] by blast
    obtain sp' where r: "remove_cell_at sp slot = Inr sp'" "node_page PIndexLeaf (map index_cell (xs @ ys')) nx (raw sp')"
      using remove_at_node [of PIndexLeaf _ nx sp slot] lf(1) s by (auto simp: leaf_page_def)
    have l': "leaf_page (xs @ ys') nx (raw sp')" using r(2) lf(1) y by (auto simp: leaf_page_def)
    obtain s'' where c: "change_page ops i sp (\<lambda>sp. remove_cell_at sp slot) s' = (Inr (), s'')" "sound s''" "view s'' = (view s')(i \<mapsto> raw sp')" "room s'' = room s'"
      using change_law [OF f(2), of i "\<lambda>sp. remove_cell_at sp slot" sp sp'] r(1) f(3,5) leaf_pageD(2) [OF l'] by auto
    have "filter (\<lambda>e. fst e \<noteq> key) ys' = ys'" using srt y by (auto simp: filter_id_conv sorted_wrt_append)
    then have "filter (\<lambda>e. fst e \<noteq> key) es = A @ (xs @ ys') @ B" using out f(7,9) y by simp
    moreover have "index_at (view s'') root P (A @ (xs @ ys') @ B)"
      unfolding c(3) f(3) using l' srt f(7) y by (intro sh) (auto simp: sorted_wrt_append)
    ultimately show ?thesis using f(1,4,6) s(1) c f(3) by (auto simp: bt_remove_def)
  qed
qed

end


subsection \<open>Entry lists as maps\<close>

lemma ins_keys: "fst ` set (ins key loc es) = insert key (fst ` set es)"
proof -
  have "set es = set (takeWhile (\<lambda>e. fst e < key) es) \<union> set (dropWhile (\<lambda>e. fst e < key) es)"
    by (metis set_append takeWhile_dropWhile_id)
  then show ?thesis by (auto simp: ins_def)
qed

lemma map_of_ins: "key \<notin> fst ` set es \<Longrightarrow> map_of (ins key loc es) = (map_of es)(key \<mapsto> loc)"
proof -
  assume k: "key \<notin> fst ` set es"
  let ?x = "takeWhile (\<lambda>e. fst e < key) es" and ?y = "dropWhile (\<lambda>e. fst e < key) es"
  have e: "map_of es = map_of ?y ++ map_of ?x" by (metis map_of_append takeWhile_dropWhile_id)
  have "key \<notin> fst ` set ?x" using k by (auto dest: set_takeWhileD)
  then have "key \<notin> dom (map_of ?x)" by (simp add: dom_map_of_conv_image_fst)
  then show ?thesis unfolding e by (simp add: ins_def map_add_upd_left)
qed

lemma map_of_without: "map_of (filter (\<lambda>e. fst e \<noteq> key) es) = (map_of es)(key := None)"
  by (induction es) auto

lemma ins_sorted: "sorted_wrt (<) (map fst es) \<Longrightarrow> key \<notin> fst ` set es \<Longrightarrow> sorted_wrt (<) (map fst (ins key loc es))"
proof -
  assume a: "sorted_wrt (<) (map fst es)" "key \<notin> fst ` set es"
  obtain xs ys where xy: "es = xs @ ys" "\<forall>e \<in> set xs. fst e < key" "\<forall>e \<in> set ys. key \<le> fst e" using key_split [OF a(1)] by blast
  have "\<forall>e \<in> set ys. key < fst e" using xy a(2) by (force simp: order.order_iff_strict)
  then show ?thesis using a(1) xy(2) ins_split [OF xy(2,3), of loc] xy(1) by (auto simp: sorted_wrt_append)
qed

subsection \<open>The trait, and its contract\<close>

record 's index_ops =
  ix_insert :: "bytes \<Rightarrow> location \<Rightarrow> ('s, unit) act"
  ix_remove :: "bytes \<Rightarrow> ('s, unit) act"
  ix_lookup :: "bytes \<Rightarrow> ('s, location option) act"

definition btree_index :: "'s store_ops \<Rightarrow> nat \<Rightarrow> 's index_ops" where
  "btree_index ops root = \<lparr>ix_insert = bt_insert ops root, ix_remove = bt_remove ops root, ix_lookup = bt_lookup ops root\<rparr>"

text \<open>
  \<open>InMemoryIndex\<close> (\<open>in_memory.rs\<close>), the reference the source checks the B-tree against: a \<open>BTreeMap\<close>,
  here its entries in key order.
\<close>

definition mem_insert :: "bytes \<Rightarrow> location \<Rightarrow> ((bytes \<times> location) list, unit) act" where
  "mem_insert key loc m = (Inr (), ins key loc (filter (\<lambda>e. fst e \<noteq> key) m))"

definition mem_remove :: "bytes \<Rightarrow> ((bytes \<times> location) list, unit) act" where
  "mem_remove key m = (Inr (), filter (\<lambda>e. fst e \<noteq> key) m)"

definition mem_lookup :: "bytes \<Rightarrow> ((bytes \<times> location) list, location option) act" where
  "mem_lookup key m = (Inr (map_of m key), m)"

definition in_memory_index :: "(bytes \<times> location) list index_ops" where
  "in_memory_index = \<lparr>ix_insert = mem_insert, ix_remove = mem_remove, ix_lookup = mem_lookup\<rparr>"

text \<open>A caller's requests, one after the other, with the answers.\<close>

datatype index_op = Put bytes location | Del bytes | Get bytes

fun run_index :: "'s index_ops \<Rightarrow> index_op list \<Rightarrow> 's \<Rightarrow> location option res list \<times> 's" where
  "run_index ix [] s = ([], s)"
| "run_index ix (Put key loc # rs) s =
     (let (r, s) = ix_insert ix key loc s; (as, s) = run_index ix rs s in (bindR r (\<lambda>_. Inr None) # as, s))"
| "run_index ix (Del key # rs) s =
     (let (r, s) = ix_remove ix key s; (as, s) = run_index ix rs s in (bindR r (\<lambda>_. Inr None) # as, s))"
| "run_index ix (Get key # rs) s =
     (let (r, s) = ix_lookup ix key s; (as, s) = run_index ix rs s in (r # as, s))"

text \<open>What an ordered map answers, and which entries it has in the end.\<close>

fun answers :: "index_op list \<Rightarrow> (bytes \<rightharpoonup> location) \<Rightarrow> location option res list \<times> (bytes \<rightharpoonup> location)" where
  "answers [] m = ([], m)"
| "answers (Put key loc # rs) m = (let (as, m) = answers rs (m(key \<mapsto> loc)) in (Inr None # as, m))"
| "answers (Del key # rs) m = (let (as, m) = answers rs (m(key := None)) in (Inr None # as, m))"
| "answers (Get key # rs) m = (let (as, m') = answers rs m in (Inr (m key) # as, m'))"

text \<open>Every key inserted is one that fits and is not there yet.\<close>

fun new_keys :: "index_op list \<Rightarrow> bytes set \<Rightarrow> bool" where
  "new_keys [] K = True"
| "new_keys (Put key loc # rs) K = (key \<notin> K \<and> length key \<le> MAX_KEY_LEN \<and> loc_ok loc \<and> new_keys rs (insert key K))"
| "new_keys (Del key # rs) K = new_keys rs (K - {key})"
| "new_keys (Get key # rs) K = new_keys rs K"

fun puts :: "index_op list \<Rightarrow> nat" where
  "puts [] = 0"
| "puts (Put key loc # rs) = Suc (puts rs)"
| "puts (_ # rs) = puts rs"

locale ordered_index =
  fixes ix :: "'s index_ops"
    and has :: "'s \<Rightarrow> (bytes \<times> location) list \<Rightarrow> bool"
    and spare :: "'s \<Rightarrow> nat"
  assumes sorted_law: "has s es \<Longrightarrow> sorted_wrt (<) (map fst es)"
    and insert_law: "has s es \<Longrightarrow> key \<notin> fst ` set es \<Longrightarrow> length key \<le> MAX_KEY_LEN \<Longrightarrow> loc_ok loc \<Longrightarrow> MAX_DEPTH < spare s \<Longrightarrow>
      \<exists>s'. ix_insert ix key loc s = (Inr (), s') \<and> has s' (ins key loc es) \<and> spare s \<le> spare s' + (MAX_DEPTH + 1)"
    and remove_law: "has s es \<Longrightarrow> \<exists>s'. ix_remove ix key s = (Inr (), s') \<and> has s' (filter (\<lambda>e. fst e \<noteq> key) es) \<and> spare s \<le> spare s'"
    and lookup_law: "has s es \<Longrightarrow> \<exists>s'. ix_lookup ix key s = (Inr (map_of es key), s') \<and> has s' es \<and> spare s \<le> spare s'"
begin

text \<open>Request by request, an index that keeps the laws answers as a map does.\<close>

lemma answers_as_map:
  assumes "has s es" "new_keys rs (fst ` set es)" "(MAX_DEPTH + 1) * puts rs \<le> spare s"
  shows "\<exists>s' es'. run_index ix rs s = (fst (answers rs (map_of es)), s') \<and> has s' es' \<and> map_of es' = snd (answers rs (map_of es))"
  using assms
proof (induction rs arbitrary: s es)
  case (Cons r rs)
  note sorted = sorted_law [OF Cons.prems(1)]
  show ?case
  proof (cases r)
    case (Put key loc)
    have p: "key \<notin> fst ` set es" "length key \<le> MAX_KEY_LEN" "loc_ok loc" "MAX_DEPTH < spare s" using Cons.prems(2,3) Put by auto
    obtain s1 where s1: "ix_insert ix key loc s = (Inr (), s1)" "has s1 (ins key loc es)" "spare s \<le> spare s1 + (MAX_DEPTH + 1)"
      using insert_law [OF Cons.prems(1) p] by blast
    have k: "fst ` set (ins key loc es) = insert key (fst ` set es)" by (rule ins_keys)
    have m: "map_of (ins key loc es) = (map_of es)(key \<mapsto> loc)" by (rule map_of_ins [OF p(1)])
    have c: "new_keys rs (fst ` set (ins key loc es))" "(MAX_DEPTH + 1) * puts rs \<le> spare s1"
      using Cons.prems(2,3) Put s1(3) k by auto
    show ?thesis using Cons.IH [OF s1(2) c] s1(1) Put m by (auto simp: Let_def simp del: fun_upd_apply split: prod.splits)
  next
    case (Del key)
    obtain s1 where s1: "ix_remove ix key s = (Inr (), s1)" "has s1 (filter (\<lambda>e. fst e \<noteq> key) es)" "spare s \<le> spare s1"
      using remove_law [OF Cons.prems(1)] by blast
    have m: "map_of (filter (\<lambda>e. fst e \<noteq> key) es) = (map_of es)(key := None)" by (rule map_of_without)
    have "fst ` set (filter (\<lambda>e. fst e \<noteq> key) es) = fst ` set es - {key}" by auto
    then have c: "new_keys rs (fst ` set (filter (\<lambda>e. fst e \<noteq> key) es))" "(MAX_DEPTH + 1) * puts rs \<le> spare s1"
      using Cons.prems(2,3) Del s1(3) by auto
    show ?thesis using Cons.IH [OF s1(2) c] s1(1) Del m by (auto simp: Let_def simp del: fun_upd_apply split: prod.splits)
  next
    case (Get key)
    obtain s1 where s1: "ix_lookup ix key s = (Inr (map_of es key), s1)" "has s1 es" "spare s \<le> spare s1"
      using lookup_law [OF Cons.prems(1)] by blast
    have c: "new_keys rs (fst ` set es)" "(MAX_DEPTH + 1) * puts rs \<le> spare s1" using Cons.prems(2,3) Get s1(3) by auto
    show ?thesis using Cons.IH [OF s1(2) c] s1(1) Get by (auto simp: Let_def split: prod.splits)
  qed
qed auto

end

subsection \<open>Both indexes keep it\<close>

text \<open>A file store whose pages hold an index at \<open>root\<close> with the entries \<open>es\<close>.\<close>

definition file_has :: "nat \<Rightarrow> fstore \<Rightarrow> (bytes \<times> location) list \<Rightarrow> bool" where
  "file_has root fs es \<longleftrightarrow> fs_sound fs \<and> (\<exists>P. index_at (fs_view fs) root P es)"

interpretation file_index: ordered_index "btree_index (file_store hw) root" "file_has root" fs_room for hw root
proof
  fix s es key loc
  show "file_has root s es \<Longrightarrow> sorted_wrt (<) (map fst es)" using index_at_sorted by (auto simp: file_has_def)
  show "\<exists>s'. ix_insert (btree_index (file_store hw) root) key loc s = (Inr (), s') \<and> file_has root s' (ins key loc es) \<and> fs_room s \<le> fs_room s' + (MAX_DEPTH + 1)"
    if "file_has root s es" "key \<notin> fst ` set es" "length key \<le> MAX_KEY_LEN" "loc_ok loc" "MAX_DEPTH < fs_room s"
    using file_pages.bt_insert_ok [of s root _ es key loc hw] that by (fastforce simp: file_has_def btree_index_def)
  show "\<exists>s'. ix_remove (btree_index (file_store hw) root) key s = (Inr (), s') \<and> file_has root s' (filter (\<lambda>e. fst e \<noteq> key) es) \<and> fs_room s \<le> fs_room s'"
    if "file_has root s es" using file_pages.bt_remove_ok [of s root _ es hw key] that by (fastforce simp: file_has_def btree_index_def)
  show "\<exists>s'. ix_lookup (btree_index (file_store hw) root) key s = (Inr (map_of es key), s') \<and> file_has root s' es \<and> fs_room s \<le> fs_room s'"
    if "file_has root s es" using file_pages.bt_lookup_ok [of s root _ es hw key] that by (fastforce simp: file_has_def btree_index_def)
qed

text \<open>The in-memory index has no pages to run out of.\<close>

definition mem_has :: "(bytes \<times> location) list \<Rightarrow> (bytes \<times> location) list \<Rightarrow> bool" where
  "mem_has m es \<longleftrightarrow> m = es \<and> sorted_wrt (<) (map fst es)"

interpretation mem_index: ordered_index in_memory_index mem_has "\<lambda>_. n" for n
proof
  fix m es key loc
  show "mem_has m es \<Longrightarrow> sorted_wrt (<) (map fst es)" by (simp add: mem_has_def)
  show "\<exists>s'. ix_insert in_memory_index key loc m = (Inr (), s') \<and> mem_has s' (ins key loc es) \<and> n \<le> n + (MAX_DEPTH + 1)"
    if "mem_has m es" "key \<notin> fst ` set es"
  proof -
    have "filter (\<lambda>e. fst e \<noteq> key) es = es" using that(2) by (intro filter_True) auto
    then show ?thesis using that ins_sorted [of es key loc] by (simp add: mem_has_def in_memory_index_def mem_insert_def)
  qed
  show "\<exists>s'. ix_remove in_memory_index key m = (Inr (), s') \<and> mem_has s' (filter (\<lambda>e. fst e \<noteq> key) es) \<and> n \<le> n" if "mem_has m es"
    using that by (auto simp: mem_has_def in_memory_index_def mem_remove_def sorted_wrt_map sorted_wrt_filter)
  show "\<exists>s'. ix_lookup in_memory_index key m = (Inr (map_of es key), s') \<and> mem_has s' es \<and> n \<le> n" if "mem_has m es"
    using that by (simp add: mem_has_def in_memory_index_def mem_lookup_def)
qed


text \<open>Sorted entries are determined by their map.\<close>

lemma sorted_unique:
  assumes "sorted_wrt (<) (map fst xs)" "sorted_wrt (<) (map fst ys)" "map_of xs = map_of (ys :: (bytes \<times> location) list)"
  shows "xs = ys"
proof -
  have d: "distinct (map fst xs)" "distinct (map fst ys)" "sorted (map fst xs)" "sorted (map fst ys)"
    using assms(1,2) by (simp_all add: strict_sorted_iff)
  have s: "set xs = set ys" using map_of_inject_set [OF d(1,2)] assms(3) by simp
  have "inj_on fst (set xs \<union> set ys)" using d(1) s by (simp add: distinct_map)
  from map_sorted_distinct_set_unique [OF this d(3,1,4,2) s] show ?thesis .
qed

context grow_store begin

text \<open>An index begins as a page made an empty leaf.\<close>

lemma new_index:
  assumes "sound s" "view s i \<noteq> None"
  shows "\<exists>s'. write_page ops i (into_page (slotted_new PIndexLeaf)) s = (Inr (), s') \<and> sound s' \<and> room s' = room s
    \<and> view s' = (view s)(i \<mapsto> raw (slotted_new PIndexLeaf)) \<and> index_at (view s') i {i} []"
proof -
  have n: "node_page PIndexLeaf [] 0 (raw (slotted_new PIndexLeaf))" by (rule slotted_new_node(1)) simp
  obtain s' where s': "write_page ops i (into_page (slotted_new PIndexLeaf)) s = (Inr (), s')" "sound s'"
    "view s' = (view s)(i \<mapsto> raw (slotted_new PIndexLeaf))" "room s' = room s"
    using write_law [OF assms, of "into_page (slotted_new PIndexLeaf)"] node_pageD(2) [OF n] by auto
  have "index_at (view s') i {i} []"
    unfolding index_at_def s'(3) using n
    by (intro exI [of _ "TLeaf i [] 0"] exI [of _ 0]) (simp add: good_def leaf_page_def bound_simps)
  then show ?thesis using s' by blast
qed

lemma make_index:
  assumes "sound s" "0 < room s"
  shows "\<exists>i s'. sound s' \<and> view s i = None \<and> index_at (view s') i {i} [] \<and> (\<forall>k. k \<noteq> i \<longrightarrow> view s' k = view s k) \<and> room s \<le> room s' + 1"
proof -
  obtain i b s1 where a: "sound s1" "view s i = None" "view s1 = (view s)(i \<mapsto> b)" "room s \<le> room s1 + 1"
    using allocate_law [OF assms] by blast
  obtain s' where "sound s'" "room s' = room s1" "view s' = (view s1)(i \<mapsto> raw (slotted_new PIndexLeaf))" "index_at (view s') i {i} []"
    using new_index [OF a(1), of i] a(3) by auto
  then show ?thesis using a by (intro exI [of _ i] exI [of _ s']) auto
qed

end

subsection \<open>Properties\<close>

text \<open>
  C36. On the file store the B-tree answers every sequence of insertions of new keys, removals and
  lookups as the in-memory index does, and never fails; afterwards its pages hold exactly the
  entries the in-memory index holds, in key order.
\<close>

theorem btree_answers_as_in_memory:
  assumes "file_has root fs es" "new_keys rs (fst ` set es)" "(MAX_DEPTH + 1) * puts rs \<le> fs_room fs"
  shows "\<exists>fs'. run_index (btree_index (file_store hw) root) rs fs = (fst (run_index in_memory_index rs es), fs')
    \<and> file_has root fs' (snd (run_index in_memory_index rs es))"
proof -
  obtain fs' es' where f: "run_index (btree_index (file_store hw) root) rs fs = (fst (answers rs (map_of es)), fs')"
    "file_has root fs' es'" "map_of es' = snd (answers rs (map_of es))"
    using file_index.answers_as_map [OF assms] by blast
  have "mem_has es es" using file_index.sorted_law [OF assms(1)] by (simp add: mem_has_def)
  then obtain m es'' where m: "run_index in_memory_index rs es = (fst (answers rs (map_of es)), m)"
    "mem_has m es''" "map_of es'' = snd (answers rs (map_of es))"
    using mem_index.answers_as_map [OF _ assms(2) order_refl] by blast
  have "es' = m" using sorted_unique [OF file_index.sorted_law [OF f(2)]] m(2,3) f(3) by (simp add: mem_has_def)
  then show ?thesis using f(1,2) m(1) by simp
qed

text \<open>The store of a first batch, with two indexes made in it.\<close>

lemma begun_indexes:
  "\<exists>fs root root' P Q. fs_sound fs \<and> index_at (fs_view fs) root P [] \<and> index_at (fs_view fs) root' Q [] \<and> P \<inter> Q = {} \<and> 1000 \<le> fs_room fs"
proof -
  have s: "fs_sound begun_store" using begun_store_ok(2) by blast
  have room: "1002 \<le> fs_room begun_store"
    by (simp add: begun_store_def fs_begin_def opened_store_def fs_room_def header_fresh_def MAX_PAGES_def PAGE_SIZE_def)
  obtain i fs1 where a: "fs_sound fs1" "index_at (fs_view fs1) i {i} []" "fs_room begun_store \<le> fs_room fs1 + 1"
    using file_pages.make_index [OF s begun_store_ok(3)] by blast
  have "0 < fs_room fs1" using a(3) room by simp
  then obtain j fs2 where b: "fs_sound fs2" "fs_view fs1 j = None" "index_at (fs_view fs2) j {j} []" "\<forall>k. k \<noteq> j \<longrightarrow> fs_view fs2 k = fs_view fs1 k"
    "fs_room fs1 \<le> fs_room fs2 + 1"
    using file_pages.make_index [OF a(1)] by blast
  have "fs_view fs1 i \<noteq> None" using a(2) repr_some by (auto simp: index_at_def good_def)
  then have "i \<noteq> j" using b(2) by auto
  then have "index_at (fs_view fs2) i {i} []" using b(4) by (intro index_at_cong [OF a(2)]) simp
  moreover have "1000 \<le> fs_room fs2" using a(3) b(5) room by simp
  ultimately show ?thesis using b(1,3) \<open>i \<noteq> j\<close>
    by (intro exI [of _ fs2] exI [of _ i] exI [of _ j] exI [of _ "{i}"] exI [of _ "{j}"]) simp
qed

theorem btree_answers_as_in_memory_witness:
  "\<exists>root fs fs'. run_index (btree_index (file_store True) root)
      [Put [1] \<lparr>loc_page = 3, loc_slot = 0\<rparr>, Put [0] \<lparr>loc_page = 4, loc_slot = 1\<rparr>, Get [1], Del [1], Get [1], Get [0]] fs
    = ([Inr None, Inr None, Inr (Some \<lparr>loc_page = 3, loc_slot = 0\<rparr>), Inr None, Inr None, Inr (Some \<lparr>loc_page = 4, loc_slot = 1\<rparr>)], fs')
    \<and> file_has root fs' [([0], \<lparr>loc_page = 4, loc_slot = 1\<rparr>)]"
proof -
  let ?rs = "[Put [1] \<lparr>loc_page = 3, loc_slot = 0\<rparr>, Put [0] \<lparr>loc_page = 4, loc_slot = 1\<rparr>, Get [1], Del [1], Get [1], Get [0 :: byte]]"
  obtain root fs where f: "file_has root fs []" "1000 \<le> fs_room fs" using begun_indexes by (auto simp: file_has_def)
  have n: "new_keys ?rs (fst ` set ([] :: (bytes \<times> location) list))" by (simp add: MAX_KEY_LEN_def loc_ok_def)
  have p: "(MAX_DEPTH + 1) * puts ?rs \<le> fs_room fs" using f(2) by (simp add: MAX_DEPTH_def)
  have m: "run_index in_memory_index ?rs [] =
      ([Inr None, Inr None, Inr (Some \<lparr>loc_page = 3, loc_slot = 0\<rparr>), Inr None, Inr None, Inr (Some \<lparr>loc_page = 4, loc_slot = 1\<rparr>)],
       [([0], \<lparr>loc_page = 4, loc_slot = 1\<rparr>)])"
    by (simp add: in_memory_index_def mem_insert_def mem_remove_def mem_lookup_def ins_def)
  from btree_answers_as_in_memory [OF f(1) n p, of True] show ?thesis unfolding m fst_conv snd_conv by blast
qed

text \<open>
  C37. Two indexes of one store do not disturb each other: an insertion into one, and a removal
  from it, leave the other's pages and entries as they were, and the two still share no page.
\<close>

theorem indexes_apart:
  assumes "fs_sound fs" "index_at (fs_view fs) root P es" "index_at (fs_view fs) root' Q es'" "P \<inter> Q = {}"
    and "key \<notin> fst ` set es" "length key \<le> MAX_KEY_LEN" "loc_ok loc" "MAX_DEPTH < fs_room fs"
  shows "(\<exists>fs' P'. bt_insert (file_store hw) root key loc fs = (Inr (), fs') \<and> index_at (fs_view fs') root P' (ins key loc es)
      \<and> index_at (fs_view fs') root' Q es' \<and> P' \<inter> Q = {})
    \<and> (\<exists>fs'. bt_remove (file_store hw) root key' fs = (Inr (), fs') \<and> index_at (fs_view fs') root P (filter (\<lambda>e. fst e \<noteq> key') es)
      \<and> index_at (fs_view fs') root' Q es')"
proof
  have used: "fs_view fs i \<noteq> None" if "i \<in> Q" for i
    using assms(3) that repr_some by (auto simp: index_at_def good_def)
  obtain fs' P' where i: "bt_insert (file_store hw) root key loc fs = (Inr (), fs')" "index_at (fs_view fs') root P' (ins key loc es)"
    "\<forall>i \<in> P'. i \<in> P \<or> fs_view fs i = None" "\<forall>i. i \<notin> P \<longrightarrow> fs_view fs i \<noteq> None \<longrightarrow> fs_view fs' i = fs_view fs i"
    using file_pages.bt_insert_ok [OF assms(1,2,5,8,6,7)] by blast
  have "index_at (fs_view fs') root' Q es'" using assms(3,4) i(4) used by (intro index_at_cong [OF assms(3)]) auto
  then show "\<exists>fs' P'. bt_insert (file_store hw) root key loc fs = (Inr (), fs') \<and> index_at (fs_view fs') root P' (ins key loc es)
      \<and> index_at (fs_view fs') root' Q es' \<and> P' \<inter> Q = {}" using i(1-3) used assms(4) by blast
  obtain fs'' where r: "bt_remove (file_store hw) root key' fs = (Inr (), fs'')" "index_at (fs_view fs'') root P (filter (\<lambda>e. fst e \<noteq> key') es)"
    "\<forall>i. i \<notin> P \<longrightarrow> fs_view fs'' i = fs_view fs i"
    using file_pages.bt_remove_ok [OF assms(1,2)] by blast
  have "index_at (fs_view fs'') root' Q es'" using assms(4) r(3) by (intro index_at_cong [OF assms(3)]) auto
  then show "\<exists>fs'. bt_remove (file_store hw) root key' fs = (Inr (), fs') \<and> index_at (fs_view fs') root P (filter (\<lambda>e. fst e \<noteq> key') es)
      \<and> index_at (fs_view fs') root' Q es'" using r(1,2) by blast
qed

theorem indexes_apart_witness:
  "\<exists>fs root root' fs' P Q. bt_insert (file_store False) root [1] \<lparr>loc_page = 3, loc_slot = 0\<rparr> fs = (Inr (), fs')
    \<and> index_at (fs_view fs') root P [([1], \<lparr>loc_page = 3, loc_slot = 0\<rparr>)] \<and> index_at (fs_view fs') root' Q [] \<and> P \<inter> Q = {}"
proof -
  obtain fs root root' P Q where f: "fs_sound fs" "index_at (fs_view fs) root P []" "index_at (fs_view fs) root' Q []" "P \<inter> Q = {}" "1000 \<le> fs_room fs"
    using begun_indexes by blast
  have h: "[1 :: byte] \<notin> fst ` set ([] :: (bytes \<times> location) list)" "length [1 :: byte] \<le> MAX_KEY_LEN" "loc_ok \<lparr>loc_page = 3, loc_slot = 0\<rparr>"
    "MAX_DEPTH < fs_room fs" using f(5) by (simp_all add: MAX_KEY_LEN_def loc_ok_def MAX_DEPTH_def)
  have e: "ins [1] \<lparr>loc_page = 3, loc_slot = 0\<rparr> [] = [([1 :: byte], \<lparr>loc_page = 3, loc_slot = 0\<rparr>)]" by (simp add: ins_def)
  from conjunct1 [OF indexes_apart [OF f(1-4) h, of False]] show ?thesis unfolding e by blast
qed

end
