(* ===== verification/Treepages.thy ===== *)
theory Treepages
  imports Btindex
begin

text \<open>
  A B-tree as pages (\<open>pages\<close>, \<open>free_all\<close>, \<open>clear\<close> and \<open>depth\<close> of \<open>src/src/index/btree.rs\<close>): the
  list of a tree's pages, and giving them back. The loop over the pages takes a number of turns;
  \<open>pages_ends\<close> gives one that is enough for any store.
\<close>

subsection \<open>The operations\<close>

text \<open>The pages pending once one is read: a branch's children are pushed.\<close>

definition push_children :: "'s store_ops \<Rightarrow> nat \<Rightarrow> nat list \<Rightarrow> ('s, nat list) act" where
  "push_children ops page_id pending =
     bindA (read_node ops page_id) (\<lambda>sp. bindA (liftA (node_type sp)) (\<lambda>t. case t of
       PIndexLeaf \<Rightarrow> retA pending
     | PIndexBranch \<Rightarrow> bindA (liftA (branch_entries sp)) (\<lambda>entries. retA (next_page sp # rev (map snd entries) @ pending))
     | _ \<Rightarrow> failA (Io InvalidData)))"

text \<open>\<open>pages\<close>: its loop, with the last pushed of \<open>pending\<close> first.\<close>

fun listing_loop :: "'s store_ops \<Rightarrow> nat \<Rightarrow> nat list \<Rightarrow> nat set \<Rightarrow> nat list \<Rightarrow> 's \<Rightarrow> (nat list res \<times> 's) option" where
  "listing_loop ops 0 pending seen pages s = None"
| "listing_loop ops (Suc n) [] seen pages s = Some (Inr pages, s)"
| "listing_loop ops (Suc n) (page_id # pending) seen pages s =
     (if page_id \<in> seen then Some (Inl (Io InvalidData), s)
      else case push_children ops page_id pending s of
          (Inl e, s) \<Rightarrow> Some (Inl e, s)
        | (Inr pending, s) \<Rightarrow> listing_loop ops n pending (insert page_id seen) (pages @ [page_id]) s)"

definition bt_pages :: "'s store_ops \<Rightarrow> nat \<Rightarrow> nat \<Rightarrow> 's \<Rightarrow> (nat list res \<times> 's) option" where
  "bt_pages ops root n s = listing_loop ops n [root] {} [] s"

fun free_each :: "'s store_ops \<Rightarrow> nat list \<Rightarrow> ('s, unit) act" where
  "free_each ops [] = retA ()"
| "free_each ops (page_id # rest) = bindA (free_page ops page_id) (\<lambda>_. free_each ops rest)"

definition bt_free_all :: "'s store_ops \<Rightarrow> nat \<Rightarrow> nat \<Rightarrow> 's \<Rightarrow> (unit res \<times> 's) option" where
  "bt_free_all ops root n s = (case bt_pages ops root n s of
     None \<Rightarrow> None
   | Some (Inl e, s) \<Rightarrow> Some (Inl e, s)
   | Some (Inr pages, s) \<Rightarrow> Some (free_each ops pages s))"

definition bt_clear :: "'s store_ops \<Rightarrow> nat \<Rightarrow> nat \<Rightarrow> 's \<Rightarrow> (unit res \<times> 's) option" where
  "bt_clear ops root n s = (case bt_pages ops root n s of
     None \<Rightarrow> None
   | Some (Inl e, s) \<Rightarrow> Some (Inl e, s)
   | Some (Inr [], s) \<Rightarrow> Some (Inl Panic, s)
   | Some (Inr (_ # rest), s) \<Rightarrow>
       Some (bindA (free_each ops rest) (\<lambda>_. write_page ops root (into_page (slotted_new PIndexLeaf))) s))"

text \<open>\<open>depth\<close>; the number counts the turns its loop has left.\<close>

fun depth_loop :: "'s store_ops \<Rightarrow> nat \<Rightarrow> nat \<Rightarrow> nat \<Rightarrow> ('s, nat) act" where
  "depth_loop ops 0 depth page_id = failA (Io InvalidData)"
| "depth_loop ops (Suc n) depth page_id =
     bindA (read_node ops page_id) (\<lambda>sp.
     bindA (liftA (node_type sp)) (\<lambda>t. case t of
         PIndexLeaf \<Rightarrow> retA depth
       | PIndexBranch \<Rightarrow>
           bindA (liftA (first_live sp [0..<slot_count sp])) (\<lambda>first. case first of
             None \<Rightarrow> depth_loop ops n (depth + 1) (next_page sp)
           | Some (_, d) \<Rightarrow> bindA (liftA (decode_branch_entry d)) (\<lambda>(_, child). depth_loop ops n (depth + 1) child))
       | _ \<Rightarrow> failA (Io InvalidData)))"

definition bt_depth :: "'s store_ops \<Rightarrow> nat \<Rightarrow> ('s, nat) act" where
  "bt_depth ops root = depth_loop ops (MAX_DEPTH + 1) 1 root"

subsection \<open>The listing ends\<close>

lemma mapR_set: "mapR f xs = Inr ys \<Longrightarrow> y \<in> set ys \<Longrightarrow> \<exists>x \<in> set xs. f x = Inr y"
  by (induction xs arbitrary: ys) (auto simp: bindR_eq_Inr)

lemma branch_child_lt: "branch_entries sp = Inr es \<Longrightarrow> (k, c) \<in> set es \<Longrightarrow> c < 2 ^ 64"
proof -
  assume "branch_entries sp = Inr es" "(k, c) \<in> set es"
  then obtain xs :: "(nat \<times> bytes) list" where "mapR (\<lambda>(_, c). decode_branch_entry c) xs = Inr es" by (auto simp: branch_entries_def bindR_eq_Inr)
  from mapR_set [OF this \<open>(k, c) \<in> set es\<close>] obtain d where "decode_branch_entry d = Inr (k, c)" by auto
  then show ?thesis using u_at_lt [of 8 d "length d - 8"] by (auto simp: decode_branch_entry_def Let_def split: if_splits)
qed

lemma push_children_lt:
  assumes "push_children ops i rest s = (Inr p, s')"
  shows "set p \<subseteq> set rest \<union> {..<2 ^ 64}"
proof -
  obtain sp s1 t where r: "read_node ops i s = (Inr sp, s1)" "node_type sp = Inr t" and c: "(case t of
       PIndexLeaf \<Rightarrow> retA rest
     | PIndexBranch \<Rightarrow> bindA (liftA (branch_entries sp)) (\<lambda>entries. retA (next_page sp # rev (map snd entries) @ rest))
     | _ \<Rightarrow> failA (Io InvalidData)) s1 = (Inr p, s')"
    using assms unfolding push_children_def bindA_eq_Inr by auto
  have n: "next_page sp < 2 ^ 64" using u_at_lt [of 8 "raw sp" 1] by (simp add: next_page_def)
  show ?thesis
  proof (cases t)
    case PIndexBranch
    then obtain es where es: "branch_entries sp = Inr es" "p = next_page sp # rev (map snd es) @ rest"
      using c by (cases "branch_entries sp") auto
    have "set (map snd es) \<subseteq> {..<2 ^ 64}" using branch_child_lt [OF es(1)] by auto
    then show ?thesis unfolding es(2) using n by auto
  qed (use c in auto)
qed

text \<open>
  Every page is listed once or the listing ends: with page numbers of 64 bits, and the root, no more
  turns than that.
\<close>

lemma listing_loop_ends:
  assumes "set pending \<subseteq> U" "finite U" "{..<2 ^ 64} \<subseteq> U" "card (U - seen) < n"
  shows "listing_loop ops n pending seen pages s \<noteq> None"
  using assms
proof (induction n arbitrary: pending seen pages s)
  case (Suc n)
  show ?case
  proof (cases pending)
    case (Cons i rest)
    obtain r s' where m: "push_children ops i rest s = (r, s')" by (metis prod.collapse)
    show ?thesis
    proof (cases "i \<in> seen \<or> (\<exists>e. r = Inl e)")
      case True
      then show ?thesis using m Cons by auto
    next
      case False
      then obtain p where p: "r = Inr p" by (cases r) auto
      have "U - insert i seen \<subset> U - seen" using Suc.prems(1) False Cons by auto
      then have c: "card (U - insert i seen) < n" using psubset_card_mono [of "U - seen"] Suc.prems(2,4) by (meson finite_Diff less_Suc_eq_le less_le_trans)
      have "set p \<subseteq> set rest \<union> {..<2 ^ 64}" using push_children_lt [OF m [unfolded p]] .
      then have "set p \<subseteq> U" using Suc.prems(1,3) Cons by auto
      from Suc.IH [OF this Suc.prems(2,3) c] show ?thesis using m p False Cons by simp
    qed
  qed simp
qed simp

lemma pages_ends: "bt_pages ops root (2 ^ 64 + 2 + k) s \<noteq> None"
  unfolding bt_pages_def
proof (rule listing_loop_ends [where U = "insert root {..<2 ^ 64}"])
  have "card (insert root {..<2 ^ 64 :: nat}) \<le> 2 ^ 64 + 1" using card_insert_le_m1 [of "2 ^ 64 + 1" "{..<2 ^ 64 :: nat}" root] by simp
  then show "card (insert root {..<2 ^ 64} - {}) < 2 ^ 64 + 2 + k" by simp
qed auto

subsection \<open>What they do to a tree\<close>

text \<open>A tree's pages in the order they are listed.\<close>

primrec listed :: "tree \<Rightarrow> nat list" where
  "listed (TLeaf i es nx) = [i]"
| "listed (TBranch i ks ts) = i # concat (rev (map listed ts))"

lemma mset_listed: "mset (listed t) = mset (ids t)"
proof (induction t)
  case (TBranch i ks ts)
  have "mset (concat (rev (map listed us))) = mset (concat (map ids us))" if "set us \<subseteq> set ts" for us
    using that TBranch.IH by (induction us) auto
  then show ?case by simp
qed simp

lemma listed_ids: "set (listed t) = set (ids t)" "length (listed t) = length (ids t)" "distinct (listed t) = distinct (ids t)"
  using mset_listed [of t] by (metis set_mset_mset, metis size_mset, metis mset_eq_imp_distinct_iff)

lemma hd_listed: "listed t \<noteq> [] \<and> hd (listed t) = pid t"
  by (cases t) simp_all

text \<open>The first live cell of a page is the first of its entries.\<close>

lemma first_live_hd:
  assumes "case r of
        None \<Rightarrow> \<forall>i \<in> set [0..<slot_count sp]. cell (raw sp) i = None
      | Some (i, c) \<Rightarrow> i \<in> set [0..<slot_count sp] \<and> cell (raw sp) i = Some c \<and> (\<forall>j \<in> set [0..<slot_count sp]. j < i \<longrightarrow> cell (raw sp) j = None)"
    and "live_of (cells (raw sp)) = d # rest" "slot_count sp = cnt (raw sp)"
  shows "\<exists>i. r = Some (i, d)"
proof (cases r)
  case None
  then have "cells (raw sp) = replicate (cnt (raw sp)) None" using assms(1,3) by (intro nth_equalityI) auto
  moreover have "live_of (replicate k None) = []" for k by (induction k) simp_all
  ultimately show ?thesis using assms(2) by simp
next
  case (Some p)
  obtain i c where p: "p = (i, c)" by (cases p)
  have i: "i < cnt (raw sp)" "cell (raw sp) i = Some c" "\<forall>j < i. cell (raw sp) j = None" using assms(1,3) Some p by auto
  have "take i (cells (raw sp)) = replicate i None" using i by (intro nth_equalityI) auto
  moreover have "live_of (replicate k None) = []" for k by (induction k) simp_all
  ultimately have "live_of (cells (raw sp)) = c # live_of (drop (Suc i) (cells (raw sp)))"
    using live_of_take_drop [of i "cells (raw sp)" c] i(1,2) by simp
  then show ?thesis using assms(2) Some p by simp
qed

definition nodes_ok :: "(nat \<rightharpoonup> bytes) \<Rightarrow> tree list \<Rightarrow> bool" where
  "nodes_ok v ts \<longleftrightarrow> (\<forall>t \<in> set ts. repr v t \<and> (\<exists>n. bal n t))"

context grow_store begin

lemma push_children_ok:
  assumes "sound s" "repr (view s) t" "bal n t"
  shows "\<exists>s' us. push_children ops (pid t) rest s = (Inr (map pid us @ rest), s') \<and> sound s' \<and> view s' = view s \<and> room s' = room s
    \<and> nodes_ok (view s) us \<and> listed t = pid t # concat (map listed us)"
proof (cases t)
  case (TLeaf i es nx)
  obtain b where b: "view s i = Some b" "leaf_page es nx b" using assms(2) TLeaf by auto
  obtain sp s' where "read_node ops i s = (Inr sp, s')" "node_type sp = Inr PIndexLeaf" "sound s'" "view s' = view s" "room s' = room s"
    using read_node_reads [OF assms(1) b(1)] b(2) unfolding leaf_page_def by blast
  then show ?thesis using TLeaf by (intro exI [of _ s'] exI [of _ "[]"]) (simp add: push_children_def nodes_ok_def)
next
  case (TBranch i ks ts)
  obtain n' where n: "length ts = Suc (length ks)" "\<forall>t \<in> set ts. bal n' t" using assms(3) TBranch by (cases n) auto
  obtain b where b: "view s i = Some b" "branch_page (zip ks (map pid ts)) (pid (last ts)) b" "\<forall>t \<in> set ts. repr (view s) t"
    using assms(2) TBranch by auto
  obtain sp s' where r: "read_node ops i s = (Inr sp, s')" "raw sp = b" "node_type sp = Inr PIndexBranch" "sound s'" "view s' = view s" "room s' = room s"
    using read_node_reads [OF assms(1) b(1)] b(2) unfolding branch_page_def by blast
  have e: "branch_entries sp = Inr (zip ks (map pid ts))" "next_page sp = pid (last ts)"
    using branch_entries_branch [of _ _ sp] branch_pageD(4) [of _ _ sp] b(2) r(2) by auto
  have "map snd (zip ks (map pid ts)) @ [pid (last ts)] = map pid ts" by (rule branch_children) (rule n(1))
  then have "pid (last ts) # rev (map snd (zip ks (map pid ts))) = map pid (rev ts)"
    by (metis rev_append rev_map rev_swap rev.simps(1,2) append_Nil append_Cons)
  then have "push_children ops (pid t) rest s = (Inr (map pid (rev ts) @ rest), s')"
    using r(1,3) e TBranch by (simp add: push_children_def)
  moreover have "nodes_ok (view s) (rev ts)" using b(3) n(2) by (auto simp: nodes_ok_def)
  moreover have "listed t = pid t # concat (map listed (rev ts))" using TBranch by (simp add: rev_map)
  ultimately show ?thesis using r(4-6) by blast
qed

lemma listing_loop_ok:
  assumes "sound s" "nodes_ok (view s) ts" "distinct (concat (map listed ts))" "set (concat (map listed ts)) \<inter> seen = {}"
    and "length (concat (map listed ts)) < n"
  shows "\<exists>s'. listing_loop ops n (map pid ts) seen pages s = Some (Inr (pages @ concat (map listed ts)), s')
    \<and> sound s' \<and> view s' = view s \<and> room s' = room s"
  using assms
proof (induction n arbitrary: ts seen pages s)
  case (Suc n)
  show ?case
  proof (cases ts)
    case Nil
    then show ?thesis using Suc.prems(1) by simp
  next
    case (Cons t rest)
    obtain k where t: "repr (view s) t" "bal k t" using Suc.prems(2) Cons by (auto simp: nodes_ok_def)
    obtain s1 us where p: "push_children ops (pid t) (map pid rest) s = (Inr (map pid us @ map pid rest), s1)" "sound s1" "view s1 = view s" "room s1 = room s"
      "nodes_ok (view s) us" "listed t = pid t # concat (map listed us)"
      using push_children_ok [OF Suc.prems(1) t, of "map pid rest"] by blast
    let ?ts = "us @ rest"
    have l: "concat (map listed ts) = pid t # concat (map listed ?ts)" using Cons p(6) by simp
    have new: "pid t \<notin> seen" using Suc.prems(4) unfolding l by simp
    have "\<exists>s'. listing_loop ops n (map pid ?ts) (insert (pid t) seen) (pages @ [pid t]) s1 = Some (Inr ((pages @ [pid t]) @ concat (map listed ?ts)), s')
      \<and> sound s' \<and> view s' = view s1 \<and> room s' = room s1"
    proof (rule Suc.IH [OF p(2)])
      show "nodes_ok (view s1) ?ts" using Suc.prems(2) Cons p(3,5) by (auto simp: nodes_ok_def)
      show "distinct (concat (map listed ?ts))" "length (concat (map listed ?ts)) < n" using Suc.prems(3,5) unfolding l by simp_all
      show "set (concat (map listed ?ts)) \<inter> insert (pid t) seen = {}" using Suc.prems(3,4) unfolding l by auto
    qed
    then show ?thesis using p(1,3,4) new unfolding l unfolding Cons by simp
  qed
qed simp

lemma bt_pages_ok:
  assumes "sound s" "index_at (view s) root P es" "card P < n"
  shows "\<exists>ps s'. bt_pages ops root n s = Some (Inr ps, s') \<and> distinct ps \<and> set ps = P \<and> ps \<noteq> [] \<and> hd ps = root
    \<and> sound s' \<and> view s' = view s \<and> room s' = room s"
proof -
  obtain t d where t: "repr (view s) t" "bal d t" "pid t = root" "set (ids t) = P" "distinct (ids t)"
    using assms(2) by (auto simp: index_at_def good_def)
  have "length (listed t) < n" using assms(3) t(4,5) distinct_card [of "ids t"] by (simp add: listed_ids)
  then have "\<exists>s'. listing_loop ops n (map pid [t]) {} [] s = Some (Inr ([] @ concat (map listed [t])), s') \<and> sound s' \<and> view s' = view s \<and> room s' = room s"
    using t by (intro listing_loop_ok [OF assms(1)]) (auto simp: nodes_ok_def listed_ids)
  then show ?thesis using t(3-5) hd_listed [of t] by (auto simp: bt_pages_def listed_ids)
qed

end

context page_store begin

lemma free_each_ok:
  assumes "sound s" "distinct ps" "\<And>i. i \<in> set ps \<Longrightarrow> view s i \<noteq> None"
  shows "\<exists>s'. free_each ops ps s = (Inr (), s') \<and> sound s' \<and> view s' = (\<lambda>i. if i \<in> set ps then None else view s i) \<and> room s \<le> room s'"
  using assms
proof (induction ps arbitrary: s)
  case (Cons i ps)
  obtain s1 where f: "free_page ops i s = (Inr (), s1)" "sound s1" "view s1 = (view s)(i := None)" "room s \<le> room s1"
    using free_law [OF Cons.prems(1), of i] Cons.prems(3) by auto
  have "view s1 j \<noteq> None" if "j \<in> set ps" for j using Cons.prems(3) [of j] Cons.prems(2) f(3) that by auto
  moreover have "distinct ps" using Cons.prems(2) by simp
  ultimately obtain s' where g: "free_each ops ps s1 = (Inr (), s')" "sound s'" "view s' = (\<lambda>i. if i \<in> set ps then None else view s1 i)" "room s1 \<le> room s'"
    using Cons.IH [OF f(2)] by blast
  have "view s' = (\<lambda>j. if j \<in> set (i # ps) then None else view s j)" unfolding g(3) f(3) by auto
  then show ?case using f(1,4) g(1,2,4) by auto
qed auto

lemma index_at_used: "index_at v root P es \<Longrightarrow> i \<in> P \<Longrightarrow> v i \<noteq> None"
  using repr_some by (auto simp: index_at_def good_def)

lemma bt_free_all_ok:
  assumes "sound s" "index_at (view s) root P es" "card P < n"
  shows "\<exists>s'. bt_free_all ops root n s = Some (Inr (), s') \<and> sound s' \<and> view s' = (\<lambda>i. if i \<in> P then None else view s i) \<and> room s \<le> room s'"
proof -
  obtain ps s1 where p: "bt_pages ops root n s = Some (Inr ps, s1)" "distinct ps" "set ps = P" "sound s1" "view s1 = view s" "room s1 = room s"
    using bt_pages_ok [OF assms] by blast
  have "view s1 i \<noteq> None" if "i \<in> set ps" for i using index_at_used [OF assms(2)] that p(3,5) by simp
  from free_each_ok [OF p(4,2) this] obtain s' where "free_each ops ps s1 = (Inr (), s')" "sound s'"
    "view s' = (\<lambda>i. if i \<in> set ps then None else view s1 i)" "room s1 \<le> room s'" by blast
  then show ?thesis using p(1,3,6) unfolding p(5) by (simp add: bt_free_all_def)
qed

lemma bt_clear_ok:
  assumes "sound s" "index_at (view s) root P es" "card P < n"
  shows "\<exists>s'. bt_clear ops root n s = Some (Inr (), s') \<and> sound s' \<and> index_at (view s') root {root} []
    \<and> (\<forall>i. i \<noteq> root \<longrightarrow> view s' i = (if i \<in> P then None else view s i)) \<and> room s \<le> room s'"
proof -
  obtain ps s1 where p: "bt_pages ops root n s = Some (Inr ps, s1)" "distinct ps" "set ps = P" "ps \<noteq> []" "hd ps = root"
    "sound s1" "view s1 = view s" "room s1 = room s"
    using bt_pages_ok [OF assms] by blast
  obtain rest where r: "ps = root # rest" using p(4,5) by (cases ps) auto
  have "view s1 i \<noteq> None" if "i \<in> set rest" for i using index_at_used [OF assms(2)] that p(3,7) r by auto
  moreover have "distinct rest" using p(2) r by simp
  ultimately obtain s2 where f: "free_each ops rest s1 = (Inr (), s2)" "sound s2" "view s2 = (\<lambda>i. if i \<in> set rest then None else view s1 i)" "room s1 \<le> room s2"
    using free_each_ok [OF p(6)] by blast
  have "view s2 root \<noteq> None" using index_at_used [OF assms(2), of root] p(2,3,7) r f(3) by auto
  from new_index [OF f(2) this] obtain s' where w: "write_page ops root (into_page (slotted_new PIndexLeaf)) s2 = (Inr (), s')" "sound s'" "room s' = room s2"
    "view s' = (view s2)(root \<mapsto> raw (slotted_new PIndexLeaf))" "index_at (view s') root {root} []" by blast
  have "bt_clear ops root n s = Some (Inr (), s')" using p(1) r f(1) w(1) by (simp add: bt_clear_def)
  moreover have "view s' i = (if i \<in> P then None else view s i)" if "i \<noteq> root" for i using that w(4) f(3) p(3,7) r by auto
  ultimately show ?thesis using w(2,3,5) f(4) p(8) by auto
qed

end

text \<open>Down the first children, every level is passed once.\<close>

context grow_store begin

lemma depth_loop_ok:
  assumes "sound s" "repr (view s) t" "bal d t" "d < n"
  shows "\<exists>s'. depth_loop ops n k (pid t) s = (Inr (k + d), s') \<and> sound s' \<and> view s' = view s \<and> room s' = room s"
  using assms
proof (induction n arbitrary: d t s k)
  case (Suc n)
  show ?case
  proof (cases t)
    case (TLeaf i es nx)
    obtain b where b: "view s i = Some b" "leaf_page es nx b" using Suc.prems(2) TLeaf by auto
    obtain sp s' where "read_node ops i s = (Inr sp, s')" "node_type sp = Inr PIndexLeaf" "sound s'" "view s' = view s" "room s' = room s"
      using read_node_reads [OF Suc.prems(1) b(1)] b(2) unfolding leaf_page_def by blast
    moreover have "d = 0" using Suc.prems(3) TLeaf by (cases d) auto
    ultimately show ?thesis using TLeaf by auto
  next
    case (TBranch i ks ts)
    obtain d' where n: "d = Suc d'" "ks \<noteq> []" "length ts = Suc (length ks)" "\<forall>t \<in> set ts. bal d' t" using Suc.prems(3) TBranch by (cases d) auto
    obtain b where b: "view s i = Some b" "branch_page (zip ks (map pid ts)) (pid (last ts)) b" "\<forall>t \<in> set ts. repr (view s) t"
      using Suc.prems(2) TBranch by auto
    obtain sp s1 where r: "read_node ops i s = (Inr sp, s1)" "raw sp = b" "node_type sp = Inr PIndexBranch" "sound s1" "view s1 = view s" "room s1 = room s"
      using read_node_reads [OF Suc.prems(1) b(1)] b(2) unfolding branch_page_def by blast
    obtain k0 ks' u ts' where c: "ks = k0 # ks'" "ts = u # ts'" using n(2,3) by (cases ks; cases ts) auto
    have bp: "branch_page (zip ks (map pid ts)) (pid (last ts)) (raw sp)" using b(2) r(2) by simp
    note inv = branch_pageD(1,3,6) [OF bp]
    obtain r0 where f: "first_live sp [0..<slot_count sp] = Inr r0" "case r0 of
        None \<Rightarrow> \<forall>i \<in> set [0..<slot_count sp]. cell (raw sp) i = None
      | Some (i, c) \<Rightarrow> i \<in> set [0..<slot_count sp] \<and> cell (raw sp) i = Some c \<and> (\<forall>j \<in> set [0..<slot_count sp]. j < i \<longrightarrow> cell (raw sp) j = None)"
      using first_live_spec [OF inv(1), of "[0..<slot_count sp]"] inv(3) by auto
    have lv: "live_of (cells (raw sp)) = encode_branch_entry k0 (pid u) # map branch_cell (zip ks' (map pid ts'))" using inv(2) c by simp
    obtain slot where slot: "r0 = Some (slot, encode_branch_entry k0 (pid u))"
      using first_live_hd [OF f(2) lv inv(3)] by blast
    have "pid u < 2 ^ 64" using bp c by (auto simp: branch_page_def)
    then have "decode_branch_entry (encode_branch_entry k0 (pid u)) = Inr (k0, pid u)" by simp
    then have run: "depth_loop ops (Suc n) k (pid t) s = depth_loop ops n (k + 1) (pid u) s1"
      using r(1,3) f(1) slot TBranch by simp
    have "\<exists>s'. depth_loop ops n (k + 1) (pid u) s1 = (Inr (k + 1 + d'), s') \<and> sound s' \<and> view s' = view s1 \<and> room s' = room s1"
      using Suc.prems(4) n(1,4) b(3) c(2) r(4,5) by (intro Suc.IH) auto
    then show ?thesis using run r(5,6) n(1) by auto
  qed
qed simp

end

context grow_store begin

lemma bt_depth_ok:
  assumes "sound s" "index_at (view s) root P es"
  shows "\<exists>d s'. bt_depth ops root s = (Inr d, s') \<and> 0 < d \<and> d \<le> MAX_DEPTH \<and> 2 ^ d \<le> card P + 1
    \<and> sound s' \<and> view s' = view s \<and> room s' = room s"
proof -
  obtain t n where t: "repr (view s) t" "bal n t" "pid t = root" "set (ids t) = P" "distinct (ids t)"
    using assms(2) by (auto simp: index_at_def good_def)
  have n: "n < MAX_DEPTH" using index_at_depth [OF assms(1) t(1,2,5)] .
  then obtain s' where "depth_loop ops (MAX_DEPTH + 1) 1 (pid t) s = (Inr (1 + n), s')" "sound s'" "view s' = view s" "room s' = room s"
    using depth_loop_ok [OF assms(1) t(1,2), of "MAX_DEPTH + 1" 1] by auto
  moreover have "2 ^ Suc n \<le> card P + 1" using bal_ids [OF t(2)] t(4,5) distinct_card [of "ids t"] by simp
  ultimately show ?thesis using t(3) n by (intro exI [of _ "1 + n"] exI [of _ s']) (simp add: bt_depth_def del: depth_loop.simps power_Suc)
qed

end

subsection \<open>Properties\<close>

text \<open>
  C38. The pages of an index on the file store are listed each once, root first. Freeing the index frees
  them and no other; emptying it frees all but the root, which is then an empty index; and its
  depth is no more than the logarithm of the number of its pages.
\<close>

theorem index_pages:
  assumes "fs_sound fs" "index_at (fs_view fs) root P es" "card P < n"
  shows "(\<exists>ps fs'. bt_pages (file_store hw) root n fs = Some (Inr ps, fs') \<and> distinct ps \<and> set ps = P \<and> hd ps = root \<and> fs_view fs' = fs_view fs)
    \<and> (\<exists>fs'. bt_free_all (file_store hw) root n fs = Some (Inr (), fs') \<and> fs_sound fs'
        \<and> fs_view fs' = (\<lambda>i. if i \<in> P then None else fs_view fs i))
    \<and> (\<exists>fs'. bt_clear (file_store hw) root n fs = Some (Inr (), fs') \<and> fs_sound fs' \<and> index_at (fs_view fs') root {root} []
        \<and> (\<forall>i. i \<noteq> root \<longrightarrow> fs_view fs' i = (if i \<in> P then None else fs_view fs i)))
    \<and> (\<exists>d fs'. bt_depth (file_store hw) root fs = (Inr d, fs') \<and> 0 < d \<and> 2 ^ d \<le> card P + 1)"
proof (intro conjI)
  show "\<exists>ps fs'. bt_pages (file_store hw) root n fs = Some (Inr ps, fs') \<and> distinct ps \<and> set ps = P \<and> hd ps = root \<and> fs_view fs' = fs_view fs"
    using file_pages.bt_pages_ok [OF assms, of hw] by blast
  show "\<exists>fs'. bt_free_all (file_store hw) root n fs = Some (Inr (), fs') \<and> fs_sound fs' \<and> fs_view fs' = (\<lambda>i. if i \<in> P then None else fs_view fs i)"
    using file_pages.bt_free_all_ok [OF assms, of hw] by blast
  show "\<exists>fs'. bt_clear (file_store hw) root n fs = Some (Inr (), fs') \<and> fs_sound fs' \<and> index_at (fs_view fs') root {root} []
      \<and> (\<forall>i. i \<noteq> root \<longrightarrow> fs_view fs' i = (if i \<in> P then None else fs_view fs i))"
    using file_pages.bt_clear_ok [OF assms, of hw] by blast
  show "\<exists>d fs'. bt_depth (file_store hw) root fs = (Inr d, fs') \<and> 0 < d \<and> 2 ^ d \<le> card P + 1"
    using file_pages.bt_depth_ok [OF assms(1,2), of hw] by blast
qed

theorem index_pages_witness:
  "\<exists>fs root fs'. fs_view fs root \<noteq> None \<and> bt_free_all (file_store True) root 2 fs = Some (Inr (), fs') \<and> fs_view fs' root = None"
proof -
  have s: "fs_sound begun_store" using begun_store_ok(2) by blast
  obtain i fs where i: "fs_sound fs" "index_at (fs_view fs) i {i} []" using file_pages.make_index [OF s begun_store_ok(3)] by blast
  have "card {i} < 2" by simp
  from index_pages [OF i this, of True] obtain fs' where "bt_free_all (file_store True) i 2 fs = Some (Inr (), fs')"
    "fs_view fs' = (\<lambda>j. if j \<in> {i} then None else fs_view fs j)" by blast
  moreover have "fs_view fs i \<noteq> None" using i(2) repr_some by (auto simp: index_at_def good_def)
  ultimately have "fs_view fs i \<noteq> None \<and> bt_free_all (file_store True) i 2 fs = Some (Inr (), fs') \<and> fs_view fs' i = None" by simp
  then show ?thesis by blast
qed

end
