(* ===== verification/Walk.thy ===== *)
theory Walk
  imports Btree
begin

text \<open>
  Walking a B-tree's entries in a range of keys (\<open>Walk\<close>, \<open>range\<close> and \<open>count_at_most\<close> of
  \<open>src/src/index/btree.rs\<close>): forward along the leaves' links, backward by the branches above. An
  action runs on the store's state and the walk. Loops that read from leaf to leaf take a number
  of turns, and give \<open>None\<close> when it is too small; \<open>step_ends\<close> gives a number that is enough for the
  forward walk of any store at all.
\<close>

subsection \<open>The walk\<close>

text \<open>\<open>wpath\<close> has the innermost branch first.\<close>

record walk =
  wroot :: nat
  wrange :: key_range
  backward :: bool
  wleaf :: "slotted option"
  wat :: nat
  started :: bool
  next_leaf :: nat
  wpath :: "(nat list \<times> nat) list"
  wdone :: bool
  wseen :: "nat set"
  wleaves :: nat

definition walk_new :: "nat \<Rightarrow> key_range \<Rightarrow> bool \<Rightarrow> walk" where
  "walk_new root r bw =
     \<lparr>wroot = root, wrange = r, backward = bw, wleaf = None, wat = 0, started = False, next_leaf = 0, wpath = [],
      wdone = False, wseen = {}, wleaves = 0\<rparr>"

text \<open>An action of the store, and an update of the walk, beside the other.\<close>

definition on_store :: "('s, 'a) act \<Rightarrow> ('s \<times> 'w, 'a) act" where
  "on_store m = (\<lambda>(s, w). let (r, s) = m s in (r, (s, w)))"

definition set_walk :: "('w \<Rightarrow> 'w) \<Rightarrow> ('s \<times> 'w, unit) act" where
  "set_walk f = modifyA (\<lambda>(s, w). (s, f w))"

subsection \<open>In a leaf\<close>

definition past_end :: "key_range \<Rightarrow> bytes \<Rightarrow> bool" where
  "past_end r key = (case range_end r of None \<Rightarrow> False | Some e \<Rightarrow> e \<le> key)"

text \<open>The loop of \<open>next_in_leaf\<close>: the slot found, the cursor after it, whether the range is used up.\<close>

function leaf_loop :: "slotted \<Rightarrow> key_range \<Rightarrow> bool \<Rightarrow> nat \<Rightarrow> (nat option \<times> nat \<times> bool) res" where
  "leaf_loop sp r bw at =
     (if (if bw then at = 0 else \<not> at < slot_count sp) then Inr (None, at, False)
      else let slot = (if bw then at - 1 else at); at' = (if bw then at - 1 else at + 1) in
        bindR (get_cell sp slot) (\<lambda>c. case c of
          None \<Rightarrow> leaf_loop sp r bw at'
        | Some d \<Rightarrow> bindR (decode_index_entry d) (\<lambda>(key, _).
            if past_end r key then (if \<not> bw then Inr (None, at', True) else leaf_loop sp r bw at')
            else if key < range_start r then (if bw then Inr (None, at', True) else leaf_loop sp r bw at')
            else Inr (Some slot, at', False))))"
  by pat_completeness auto
termination
  by (relation "measure (\<lambda>(sp, r, bw, at). if bw then at else slot_count sp - at)") (auto split: if_splits)

declare leaf_loop.simps [simp del]

definition next_in_leaf :: "('s \<times> walk, nat option) act" where
  "next_in_leaf =
     bindA (getA snd) (\<lambda>w.
       case (if wdone w then None else wleaf w) of
         None \<Rightarrow> retA None
       | Some sp \<Rightarrow>
           bindA (liftA (leaf_loop sp (wrange w) (backward w) (wat w))) (\<lambda>(slot, at, over).
           bindA (set_walk (\<lambda>w. w\<lparr>wat := at, wdone := over\<rparr>)) (\<lambda>_. retA slot)))"

subsection \<open>From leaf to leaf\<close>

fun position :: "('a \<Rightarrow> bool) \<Rightarrow> 'a list \<Rightarrow> nat option" where
  "position P [] = None"
| "position P (x # xs) = (if P x then Some 0 else map_option Suc (position P xs))"

text \<open>Which child of a branch to go down to: towards a key, or the last.\<close>

definition child_index :: "bytes option \<Rightarrow> (bytes \<times> nat) list \<Rightarrow> nat" where
  "child_index key entries = (case key of
     Some key \<Rightarrow> (case position (\<lambda>(k, _). key < k) entries of Some i \<Rightarrow> i | None \<Rightarrow> length entries)
   | None \<Rightarrow> length entries)"

text \<open>\<open>descend\<close>; the number counts the turns its loop has left.\<close>

fun descend_loop :: "'s store_ops \<Rightarrow> bytes option \<Rightarrow> nat \<Rightarrow> nat \<Rightarrow> ('s \<times> walk, slotted) act" where
  "descend_loop ops key 0 page_id = failA (Io InvalidData)"
| "descend_loop ops key (Suc n) page_id =
     bindA (on_store (read_node ops page_id)) (\<lambda>sp.
     bindA (liftA (node_type sp)) (\<lambda>t.
       case t of
         PIndexLeaf \<Rightarrow> retA sp
       | PIndexBranch \<Rightarrow>
           bindA (liftA (branch_entries sp)) (\<lambda>entries.
           let children = map snd entries @ [next_page sp];
               at = child_index key entries in
           bindA (set_walk (\<lambda>w. if backward w then w\<lparr>wpath := (children, at) # wpath w\<rparr> else w)) (\<lambda>_.
           descend_loop ops key n (children ! at)))
       | _ \<Rightarrow> failA (Io InvalidData)))"

definition descend :: "'s store_ops \<Rightarrow> nat \<Rightarrow> bytes option \<Rightarrow> ('s \<times> walk, slotted) act" where
  "descend ops page_id key =
     bindA (getA snd) (\<lambda>w. descend_loop ops key (MAX_DEPTH + 1 - length (wpath w)) page_id)"

text \<open>Up to the nearest branch with a child before this one.\<close>

fun climb :: "(nat list \<times> nat) list \<Rightarrow> (nat \<times> (nat list \<times> nat) list) option res" where
  "climb [] = Inr None"
| "climb ((children, 0) # path) = climb path"
| "climb ((children, Suc at) # path) =
     (if at < length children then Inr (Some (children ! at, (children, at) # path)) else Inl Panic)"

text \<open>\<open>read_next_leaf\<close>: the page of the next leaf, then its entering.\<close>

definition find_next_leaf :: "'s store_ops \<Rightarrow> ('s \<times> walk, slotted option) act" where
  "find_next_leaf ops =
     bindA (getA snd) (\<lambda>w.
       if \<not> started w then
         bindA (set_walk (\<lambda>w. w\<lparr>started := True\<rparr>)) (\<lambda>_.
         bindA (descend ops (wroot w) (if \<not> backward w then Some (range_start (wrange w)) else range_end (wrange w)))
           (\<lambda>sp. retA (Some sp)))
       else if \<not> backward w then
         (if next_leaf w = 0 then bindA (set_walk (\<lambda>w. w\<lparr>wdone := True\<rparr>)) (\<lambda>_. retA None)
          else if next_leaf w \<in> wseen w then failA (Io InvalidData)
          else bindA (set_walk (\<lambda>w. w\<lparr>wseen := insert (next_leaf w) (wseen w)\<rparr>)) (\<lambda>_.
            bindA (on_store (read_node ops (next_leaf w))) (\<lambda>sp. retA (Some sp))))
       else
         bindA (liftA (climb (wpath w))) (\<lambda>r. case r of
           None \<Rightarrow> bindA (set_walk (\<lambda>w. w\<lparr>wpath := [], wdone := True\<rparr>)) (\<lambda>_. retA None)
         | Some (child, path) \<Rightarrow>
             bindA (set_walk (\<lambda>w. w\<lparr>wpath := path\<rparr>)) (\<lambda>_.
             bindA (descend ops child None) (\<lambda>sp. retA (Some sp)))))"

definition enter_leaf :: "slotted \<Rightarrow> walk \<Rightarrow> walk" where
  "enter_leaf sp w =
     w\<lparr>wleaves := wleaves w + 1, next_leaf := next_page sp, wat := (if backward w then slot_count sp else 0),
       wleaf := Some sp\<rparr>"

definition read_next_leaf :: "'s store_ops \<Rightarrow> ('s \<times> walk, unit) act" where
  "read_next_leaf ops =
     bindA (find_next_leaf ops) (\<lambda>r. case r of None \<Rightarrow> retA () | Some sp \<Rightarrow> set_walk (enter_leaf sp))"

text \<open>\<open>if let Err(e) = self.read_next_leaf() \<dots>\<close>: an error ends the walk.\<close>

definition or_done :: "('s \<times> walk, 'a) act \<Rightarrow> ('s \<times> walk, 'a) act" where
  "or_done m st =
     (let (r, (s, w)) = m st in (r, (s, case r of Inl _ \<Rightarrow> w\<lparr>wdone := True\<rparr> | Inr _ \<Rightarrow> w)))"

subsection \<open>Steps\<close>

text \<open>The entry at a slot of the current leaf.\<close>

definition entry_at :: "nat \<Rightarrow> ('s \<times> walk, (bytes \<times> location) option) act" where
  "entry_at slot =
     bindA (getA snd) (\<lambda>w. case wleaf w of
       None \<Rightarrow> failA Panic
     | Some sp \<Rightarrow> bindA (liftA (bindR (live_cell sp slot) decode_index_entry)) (\<lambda>e. retA (Some e)))"

text \<open>\<open>step\<close>, and \<open>next\<close>, with the turns of its loop.\<close>

fun step :: "'s store_ops \<Rightarrow> nat \<Rightarrow> 's \<times> walk \<Rightarrow> ((bytes \<times> location) option res \<times> 's \<times> walk) option" where
  "step ops 0 st = None"
| "step ops (Suc n) st =
     (case next_in_leaf st of
        (Inl e, st) \<Rightarrow> Some (Inl e, st)
      | (Inr (Some slot), st) \<Rightarrow> Some (entry_at slot st)
      | (Inr None, st) \<Rightarrow>
          if wdone (snd st) then Some (Inr None, st)
          else (case or_done (read_next_leaf ops) st of
            (Inl e, st) \<Rightarrow> Some (Inl e, st)
          | (Inr _, st) \<Rightarrow> step ops n st))"

fun collect_loop :: "'s store_ops \<Rightarrow> nat \<Rightarrow> (bytes \<times> location) list \<Rightarrow> 's \<times> walk
    \<Rightarrow> ((bytes \<times> location) list res \<times> 's \<times> walk) option" where
  "collect_loop ops 0 es st = None"
| "collect_loop ops (Suc n) es st =
     (case step ops n st of
        None \<Rightarrow> None
      | Some (Inl e, st) \<Rightarrow> Some (Inl e, st)
      | Some (Inr None, st) \<Rightarrow> Some (Inr es, st)
      | Some (Inr (Some x), st) \<Rightarrow> collect_loop ops n (es @ [x]) st)"

text \<open>\<open>walk(range, backward).collect()\<close>; forward it is \<open>range\<close>.\<close>

definition bt_walk :: "'s store_ops \<Rightarrow> nat \<Rightarrow> key_range \<Rightarrow> bool \<Rightarrow> nat \<Rightarrow> 's \<Rightarrow> ((bytes \<times> location) list res \<times> 's \<times> walk) option" where
  "bt_walk ops root r bw n s = collect_loop ops n [] (s, walk_new root r bw)"

definition bt_range :: "'s store_ops \<Rightarrow> nat \<Rightarrow> key_range \<Rightarrow> nat \<Rightarrow> 's \<Rightarrow> ((bytes \<times> location) list res \<times> 's \<times> walk) option" where
  "bt_range ops root r = bt_walk ops root r False"

subsection \<open>Whole leaves, and counting\<close>

definition used_up :: "walk \<Rightarrow> bool" where
  "used_up w = (case wleaf w of
     None \<Rightarrow> True
   | Some sp \<Rightarrow> if backward w then wat w = 0 else wat w \<ge> slot_count sp)"

definition pass_leaf :: "walk \<Rightarrow> walk" where
  "pass_leaf w = (case wleaf w of
     None \<Rightarrow> w
   | Some sp \<Rightarrow> w\<lparr>wat := (if backward w then 0 else slot_count sp)\<rparr>)"

record whole =
  lowest :: bytes
  highest :: bytes
  whole_entries :: nat

text \<open>What \<open>whole_leaf\<close> finds out of the current leaf.\<close>

definition describe :: "slotted \<Rightarrow> key_range \<Rightarrow> whole option res" where
  "describe sp r =
     bindR (first_live sp [0..<slot_count sp]) (\<lambda>low. case low of
       None \<Rightarrow> Inr None
     | Some (i, low) \<Rightarrow>
         bindR (first_live sp (rev [i + 1..<slot_count sp])) (\<lambda>high.
         bindR (live_cells sp) (\<lambda>entries.
         bindR (decode_index_entry low) (\<lambda>(lowest, _).
         bindR (decode_index_entry (case high of None \<Rightarrow> low | Some (_, d) \<Rightarrow> d)) (\<lambda>(highest, _).
         Inr (if lowest \<ge> range_start r \<and> (case range_end r of None \<Rightarrow> True | Some e \<Rightarrow> highest < e)
              then Some \<lparr>lowest = lowest, highest = highest, whole_entries = entries\<rparr> else None))))))"

definition whole_leaf :: "'s store_ops \<Rightarrow> ('s \<times> walk, whole option) act" where
  "whole_leaf ops =
     bindA (getA snd) (\<lambda>w.
       if wdone w then retA None
       else bindA (if used_up w then or_done (read_next_leaf ops) else retA ()) (\<lambda>_.
         bindA (getA snd) (\<lambda>w.
           if wdone w then retA None
           else (case wleaf w of
             None \<Rightarrow> retA None
           | Some sp \<Rightarrow>
               if wat w \<noteq> (if backward w then slot_count sp else 0) then retA None
               else liftA (describe sp (wrange w))))))"

record counted =
  counted_entries :: nat
  counted_whole :: bool
  counted_leaves :: nat

text \<open>\<open>count_at_most\<close>: its loop, with the entries counted so far.\<close>

fun count_loop :: "'s store_ops \<Rightarrow> nat \<Rightarrow> nat \<Rightarrow> nat \<Rightarrow> 's \<times> walk \<Rightarrow> (counted res \<times> 's \<times> walk) option" where
  "count_loop ops cap 0 entries st = None"
| "count_loop ops cap (Suc n) entries st =
     (if wleaves (snd st) \<ge> cap \<and> used_up (snd st) then
        (case step ops n st of
           None \<Rightarrow> None
         | Some (Inl e, st) \<Rightarrow> Some (Inl e, st)
         | Some (Inr x, st) \<Rightarrow>
             Some (Inr \<lparr>counted_entries = entries, counted_whole = (x = None), counted_leaves = wleaves (snd st)\<rparr>, st))
      else (case whole_leaf ops st of
          (Inl e, st) \<Rightarrow> Some (Inl e, st)
        | (Inr (Some leaf), st) \<Rightarrow>
            count_loop ops cap n (entries + whole_entries leaf) (fst st, pass_leaf (snd st))
        | (Inr None, st) \<Rightarrow>
            (case step ops n st of
               None \<Rightarrow> None
             | Some (Inl e, st) \<Rightarrow> Some (Inl e, st)
             | Some (Inr (Some _), st) \<Rightarrow> count_loop ops cap n (entries + 1) st
             | Some (Inr None, st) \<Rightarrow>
                 Some (Inr \<lparr>counted_entries = entries, counted_whole = True, counted_leaves = wleaves (snd st)\<rparr>, st))))"

definition count_at_most :: "'s store_ops \<Rightarrow> nat \<Rightarrow> key_range \<Rightarrow> nat \<Rightarrow> nat \<Rightarrow> 's \<Rightarrow> (counted res \<times> 's \<times> walk) option" where
  "count_at_most ops root r cap n s = count_loop ops cap n 0 (s, walk_new root r False)"

definition bt_count :: "'s store_ops \<Rightarrow> nat \<Rightarrow> key_range \<Rightarrow> nat \<Rightarrow> 's \<Rightarrow> (nat res \<times> 's \<times> walk) option" where
  "bt_count ops root r n s =
     map_option (\<lambda>(c, st). (bindR c (\<lambda>c. Inr (counted_entries c)), st)) (count_at_most ops root r (2 ^ 64 - 1) n s)"

subsection \<open>What an action leaves alone\<close>

lemma on_store_Inr: "on_store m (s, w) = (Inr x, st) \<longleftrightarrow> (\<exists>s'. m s = (Inr x, s') \<and> st = (s', w))"
  by (auto simp: on_store_def split: prod.splits)

lemma set_walk_simp [simp]: "set_walk f (s, w) = (Inr (), (s, f w))" "bindA (set_walk f) g (s, w) = g () (s, f w)"
  by (simp_all add: set_walk_def bindA_def)

lemma next_in_leaf_frame:
  assumes "next_in_leaf (s, w) = (r, (s', w'))"
  shows "s' = s \<and> w' = w\<lparr>wat := wat w', wdone := wdone w'\<rparr> \<and> (wdone w \<longrightarrow> wdone w' \<and> r = Inr None)"
proof (cases "if wdone w then None else wleaf w")
  case None
  then show ?thesis using assms by (auto simp: next_in_leaf_def split: if_splits)
next
  case (Some sp)
  then show ?thesis using assms
    by (cases "leaf_loop sp (wrange w) (backward w) (wat w)") (auto simp: next_in_leaf_def split: if_splits)
qed

lemma descend_loop_forward:
  "descend_loop ops key n i (s, w) = (Inr sp, (s', w')) \<Longrightarrow> \<not> backward w \<Longrightarrow> w' = w"
proof (induction n arbitrary: i s)
  case (Suc n)
  then show ?case
    by (auto simp: bindA_eq_Inr on_store_Inr Let_def split: page_type.splits) (metis page_type.exhaust)
qed simp

lemma next_page_lt: "next_page sp < 2 ^ 64"
  using u_at_lt [of 8 "raw sp" 1] by (simp add: next_page_def)

subsection \<open>A forward walk ends\<close>

text \<open>
  However damaged the pages are: a leaf's link is a number of 64 bits, and the walk follows none a
  second time. \<open>turns\<close> counts the leaves it can still enter.
\<close>

definition turns :: "walk \<Rightarrow> nat" where
  "turns w = (if started w then 0 else 1) + card ({..<2 ^ 64} - wseen w)"

definition forward :: "walk \<Rightarrow> bool" where
  "forward w \<longleftrightarrow> \<not> backward w \<and> next_leaf w < 2 ^ 64"

lemma turns_less:
  assumes "i \<notin> wseen w" "i < 2 ^ 64"
  shows "card ({..<2 ^ 64} - insert i (wseen w)) < card ({..<2 ^ 64} - wseen w)"
proof (rule psubset_card_mono)
  show "finite ({..<2 ^ 64 :: nat} - wseen w)" by simp
  show "{..<2 ^ 64} - insert i (wseen w) \<subset> {..<2 ^ 64} - wseen w" using assms by auto
qed

text \<open>Every entry handed out uses up a slot of a leaf, which has fewer than 65536.\<close>

definition slots_ahead :: "walk \<Rightarrow> nat" where
  "slots_ahead w = turns w * 2 ^ 16 + (case wleaf w of None \<Rightarrow> 0 | Some sp \<Rightarrow> slot_count sp - wat w)"

lemma slot_count_lt: "slot_count sp < 2 ^ 16"
  using u_at_lt [of 2 "raw sp" 9] by (simp add: slot_count_def)

lemma slots_ahead_bounds: "turns w * 2 ^ 16 \<le> slots_ahead w" "slots_ahead w < (turns w + 1) * 2 ^ 16" "turns w \<le> slots_ahead w"
proof -
  have "slot_count sp - n < 2 ^ 16" for sp n using slot_count_lt [of sp] by linarith
  then show "turns w * 2 ^ 16 \<le> slots_ahead w" "slots_ahead w < (turns w + 1) * 2 ^ 16"
    by (auto simp: slots_ahead_def split: option.split)
  then show "turns w \<le> slots_ahead w" by simp
qed

lemma read_next_leaf_forward:
  assumes "read_next_leaf ops (s, w) = (Inr (), (s', w'))" "forward w"
  shows "forward w' \<and> (wdone w' \<and> slots_ahead w' = slots_ahead w \<or> turns w' < turns w)"
proof (cases "started w")
  case False
  then obtain sp where d: "descend_loop ops (Some (range_start (wrange w))) (MAX_DEPTH + 1 - length (wpath w)) (wroot w) (s, w\<lparr>started := True\<rparr>)
      = (Inr sp, (s', w\<lparr>started := True\<rparr>))" "w' = enter_leaf sp (w\<lparr>started := True\<rparr>)"
    using assms descend_loop_forward
    by (fastforce simp: read_next_leaf_def find_next_leaf_def descend_def bindA_eq_Inr forward_def)
  then show ?thesis using assms(2) False next_page_lt [of sp] by (simp add: enter_leaf_def forward_def turns_def)
next
  case True
  show ?thesis
  proof (cases "next_leaf w = 0")
    case True
    then show ?thesis using assms \<open>started w\<close>
      by (auto simp: read_next_leaf_def find_next_leaf_def forward_def bindA_eq_Inr slots_ahead_def turns_def split: option.split)
  next
    case False
    then obtain sp where d: "next_leaf w \<notin> wseen w" "w' = enter_leaf sp (w\<lparr>wseen := insert (next_leaf w) (wseen w)\<rparr>)"
      using assms True by (auto simp: read_next_leaf_def find_next_leaf_def forward_def bindA_eq_Inr on_store_Inr split: if_splits)
    then show ?thesis using assms(2) True next_page_lt [of sp] turns_less [of "next_leaf w" w]
      by (simp add: enter_leaf_def forward_def turns_def)
  qed
qed

lemma or_done_Inr: "or_done m st = (Inr x, st') \<longleftrightarrow> m st = (Inr x, st')"
  by (auto simp: or_done_def Let_def split: prod.splits sum.splits)

lemma forward_frame: "w' = w\<lparr>wat := a, wdone := d\<rparr> \<Longrightarrow> (forward w' \<longleftrightarrow> forward w) \<and> turns w' = turns w"
  by (simp add: forward_def turns_def)

lemma step_ends:
  "forward w \<Longrightarrow> (if wdone w then 1 else turns w + 2) \<le> n \<Longrightarrow> step ops n (s, w) \<noteq> None"
proof (induction n arbitrary: s w)
  case 0
  then show ?case by (simp split: if_splits)
next
  case (Suc n)
  obtain r s1 w1 where m: "next_in_leaf (s, w) = (r, (s1, w1))" by (metis prod.collapse)
  note f = next_in_leaf_frame [OF m]
  have w1: "forward w1" "turns w1 = turns w" using forward_frame [of w1 "wdone w1" "wat w1" w] f Suc.prems(1) by auto
  show ?case
  proof (cases "r = Inr None \<and> \<not> wdone w1")
    case True
    then have wd: "\<not> wdone w" using f by auto
    obtain q s2 w2 where q: "or_done (read_next_leaf ops) (s1, w1) = (q, (s2, w2))" by (metis prod.collapse)
    show ?thesis
    proof (cases q)
      case (Inr u)
      then have "forward w2 \<and> (wdone w2 \<or> turns w2 < turns w1)"
        using read_next_leaf_forward [of ops s1 w1 s2 w2] w1(1) q Inr by (auto simp: or_done_Inr)
      then have "step ops n (s2, w2) \<noteq> None" using Suc.IH [of w2 s2] Suc.prems(2) wd w1(2) by (auto split: if_splits)
      then show ?thesis using m q True Inr by simp
    qed (use m q True in simp)
  qed (use m in \<open>auto simp del: split_paired_Ex split_paired_All not_None_eq split: sum.splits option.splits\<close>)
qed

lemma leaf_loop_forward:
  "leaf_loop sp r bw at = Inr (x, at', d) \<Longrightarrow> \<not> bw \<Longrightarrow> at \<le> at' \<and> (x \<noteq> None \<longrightarrow> at < at' \<and> at < slot_count sp)"
proof (induction sp r bw at arbitrary: x at' d rule: leaf_loop.induct)
  case (1 sp r bw at)
  show ?case
  proof (cases "at < slot_count sp")
    case True
    obtain c where c: "get_cell sp at = Inr c" using 1(4,5) True by (subst (asm) leaf_loop.simps) (auto simp: bindR_eq_Inr Let_def)
    show ?thesis
    proof (cases c)
      case None
      then have "leaf_loop sp r bw (at + 1) = Inr (x, at', d)" using 1(4,5) True c by (subst (asm) leaf_loop.simps) simp
      then show ?thesis using 1(1) [of at "at + 1"] True 1(5) c None by fastforce
    next
      case (Some cell)
      obtain k l where k: "decode_index_entry cell = Inr (k, l)"
        using 1(4,5) True c Some by (subst (asm) leaf_loop.simps) (auto simp: bindR_eq_Inr)
      show ?thesis
      proof (cases "\<not> past_end r k \<and> k < range_start r")
        case before: True
        then have "leaf_loop sp r bw (at + 1) = Inr (x, at', d)" using 1(4,5) True c Some k by (subst (asm) leaf_loop.simps) simp
        then show ?thesis using 1(3) [of at "at + 1"] True 1(5) c Some k before by fastforce
      next
        case False
        then show ?thesis using 1(4,5) True c Some k by (subst (asm) leaf_loop.simps) (auto split: if_splits)
      qed
    qed
  qed (use 1(4,5) in \<open>subst (asm) leaf_loop.simps, simp\<close>)
qed

lemma next_in_leaf_forward:
  assumes "next_in_leaf (s, w) = (Inr r, (s', w'))" "forward w"
  shows "forward w' \<and> turns w' = turns w \<and> slots_ahead w' \<le> slots_ahead w \<and> (r \<noteq> None \<longrightarrow> slots_ahead w' < slots_ahead w)"
proof -
  note f = next_in_leaf_frame [OF assms(1)]
  then have e: "w' = w\<lparr>wat := wat w', wdone := wdone w'\<rparr>" by blast
  have g: "forward w'" "turns w' = turns w" using forward_frame [of w' "wdone w'" "wat w'" w] e assms(2) by simp_all
  show ?thesis
  proof (cases "if wdone w then None else wleaf w")
    case None
    then show ?thesis using assms g by (cases "wdone w") (auto simp: next_in_leaf_def)
  next
    case (Some sp)
    then have i: "\<not> wdone w" "wleaf w = Some sp" by (simp_all split: if_splits)
    obtain q at d where l: "leaf_loop sp (wrange w) (backward w) (wat w) = Inr (q, at, d)"
      using assms(1) i by (cases "leaf_loop sp (wrange w) (backward w) (wat w)") (simp_all add: next_in_leaf_def, metis prod_cases3)
    then have w': "q = r" "w' = w\<lparr>wat := at, wdone := d\<rparr>" using assms(1) i by (simp_all add: next_in_leaf_def)
    have "wat w \<le> at \<and> (r \<noteq> None \<longrightarrow> wat w < at \<and> wat w < slot_count sp)"
      using leaf_loop_forward [OF l] assms(2) w'(1) by (simp add: forward_def)
    then show ?thesis using w'(2) g(1,2) i by (auto simp: slots_ahead_def)
  qed
qed

lemma read_next_leaf_slots:
  assumes "read_next_leaf ops (s, w) = (Inr (), (s', w'))" "forward w"
  shows "forward w' \<and> slots_ahead w' \<le> slots_ahead w"
proof -
  note r = read_next_leaf_forward [OF assms]
  have "slots_ahead w' < slots_ahead w" if "turns w' < turns w"
  proof -
    have "(turns w' + 1) * 2 ^ 16 \<le> turns w * 2 ^ 16" using that by simp
    then show ?thesis using slots_ahead_bounds(1) [of w] slots_ahead_bounds(2) [of w'] by linarith
  qed
  then show ?thesis using r by auto
qed

lemma step_uses_slot:
  "step ops n (s, w) = Some (Inr (Some x), (s', w')) \<Longrightarrow> forward w \<Longrightarrow> forward w' \<and> slots_ahead w' < slots_ahead w"
proof (induction n arbitrary: s w)
  case (Suc n)
  obtain r s1 w1 where m: "next_in_leaf (s, w) = (r, (s1, w1))" by (metis prod.collapse)
  then obtain q where q: "r = Inr q" using Suc.prems(1) by (cases r) auto
  note f = next_in_leaf_forward [OF m [unfolded q] Suc.prems(2)]
  show ?case
  proof (cases q)
    case (Some slot)
    then have "entry_at slot (s1, w1) = (Inr (Some x), (s', w'))" using Suc.prems(1) m q by simp
    then have "w' = w1" by (auto simp: entry_at_def bindA_eq_Inr split: option.splits)
    then show ?thesis using f Some by simp
  next
    case None
    then have nd: "\<not> wdone w1" using Suc.prems(1) m q by (auto split: if_splits)
    obtain u s2 w2 where u: "or_done (read_next_leaf ops) (s1, w1) = (u, (s2, w2))" by (metis prod.collapse)
    then obtain y where y: "u = Inr y" using Suc.prems(1) m q None nd by (cases u) auto
    have g: "forward w2" "slots_ahead w2 \<le> slots_ahead w1" using read_next_leaf_slots [of ops s1 w1 s2 w2] u y f by (simp_all add: or_done_Inr)
    have "step ops n (s2, w2) = Some (Inr (Some x), (s', w'))" using Suc.prems(1) m q None nd u y by simp
    then have "forward w' \<and> slots_ahead w' < slots_ahead w2" using Suc.IH g(1) by blast
    then show ?thesis using f g(2) by simp
  qed
qed simp

lemma collect_ends: "forward w \<Longrightarrow> slots_ahead w + 3 \<le> n \<Longrightarrow> collect_loop ops n es (s, w) \<noteq> None"
proof (induction n arbitrary: es s w)
  case (Suc n)
  have "step ops n (s, w) \<noteq> None" using slots_ahead_bounds(3) [of w] Suc.prems(2) by (intro step_ends [OF Suc.prems(1)]) simp
  then obtain r s' w' where r: "step ops n (s, w) = Some (r, (s', w'))" by auto
  show ?case
  proof (cases "\<exists>x. r = Inr (Some x)")
    case True
    then obtain x where x: "r = Inr (Some x)" by blast
    have f: "forward w'" "slots_ahead w' < slots_ahead w" using step_uses_slot [of ops n s w x s' w'] r x Suc.prems(1) by simp_all
    have "collect_loop ops n (es @ [x]) (s', w') \<noteq> None" using Suc.prems(2) f(2) by (intro Suc.IH [OF f(1)]) simp
    then show ?thesis using r x by simp
  qed (use r in \<open>auto split: sum.splits option.splits\<close>)
qed simp

lemma whole_leaf_forward:
  assumes "whole_leaf ops (s, w) = (Inr r, (s', w'))" "forward w"
  shows "forward w' \<and> slots_ahead w' \<le> slots_ahead w
    \<and> (r \<noteq> None \<longrightarrow> forward (pass_leaf w') \<and> slots_ahead (pass_leaf w') < slots_ahead w)"
proof (cases "wdone w")
  case True
  then show ?thesis using assms by (simp add: whole_leaf_def)
next
  case False
  then obtain w1 where a: "forward w1" "slots_ahead w1 \<le> slots_ahead w" and b: "(if wdone w1 then retA None
      else (case wleaf w1 of None \<Rightarrow> retA None
       | Some sp \<Rightarrow> if wat w1 \<noteq> (if backward w1 then slot_count sp else 0) then retA None
           else liftA (describe sp (wrange w1)))) (s', w1) = (Inr r, (s', w'))"
    using assms read_next_leaf_slots [of ops s w]
    by (cases "used_up w") (auto simp: whole_leaf_def bindA_eq_Inr or_done_Inr split: if_splits option.splits)
  show ?thesis
  proof (cases "r = None")
    case True
    then show ?thesis using a b by (auto split: if_splits option.splits)
  next
    case False
    have nd: "\<not> wdone w1" using b False by (cases "wdone w1") simp_all
    obtain sp where sp: "wleaf w1 = Some sp" using b False nd by (cases "wleaf w1") simp_all
    have at: "wat w1 = 0" using b False nd sp a(1) by (cases "wat w1 = 0") (simp_all add: forward_def)
    have l: "wleaf w1 = Some sp" "wat w1 = 0" "describe sp (wrange w1) = Inr r" "w' = w1"
      using b nd sp at a(1) by (auto simp: forward_def)
    have "0 < slot_count sp" using l(3) False by (cases "slot_count sp = 0") (simp_all add: describe_def)
    then have "slots_ahead (pass_leaf w') < slots_ahead w" "forward (pass_leaf w')"
      using l(1,2,4) a by (auto simp: pass_leaf_def slots_ahead_def turns_def forward_def)
    then show ?thesis using a l(4) by simp
  qed
qed

lemma count_turn:
  assumes "\<not> (cap \<le> wleaves w \<and> used_up w)"
  shows "count_loop ops cap (Suc n) c (s, w) =
    (case whole_leaf ops (s, w) of
       (Inl e, st) \<Rightarrow> Some (Inl e, st)
     | (Inr (Some leaf), st) \<Rightarrow> count_loop ops cap n (c + whole_entries leaf) (fst st, pass_leaf (snd st))
     | (Inr None, st) \<Rightarrow>
         (case step ops n st of
            None \<Rightarrow> None
          | Some (Inl e, st) \<Rightarrow> Some (Inl e, st)
          | Some (Inr (Some _), st) \<Rightarrow> count_loop ops cap n (c + 1) st
          | Some (Inr None, st) \<Rightarrow>
              Some (Inr \<lparr>counted_entries = c, counted_whole = True, counted_leaves = wleaves (snd st)\<rparr>, st)))"
  using assms by (subst count_loop.simps) (simp only: snd_conv if_not_P if_False simp_thms)

lemma count_ends: "forward w \<Longrightarrow> slots_ahead w + 3 \<le> n \<Longrightarrow> count_loop ops cap n c (s, w) \<noteq> None"
proof (induction n arbitrary: c s w)
  case (Suc n)
  have stops: "step ops n (s', w') \<noteq> None" if "forward w'" "slots_ahead w' \<le> slots_ahead w" for s' w'
    using slots_ahead_bounds(3) [of w'] Suc.prems(2) that(2) by (intro step_ends [OF that(1)]) simp
  show ?case
  proof (cases "wleaves w \<ge> cap \<and> used_up w")
    case True
    then show ?thesis using stops [OF Suc.prems(1), of s] by (auto split: sum.splits)
  next
    case False
    note turn = count_turn [OF False, of ops n c s]
    obtain r s1 w1 where m: "whole_leaf ops (s, w) = (r, (s1, w1))" by (metis prod.collapse)
    show ?thesis
    proof (cases r)
      case (Inl e)
      have "count_loop ops cap (Suc n) c (s, w) = Some (Inl e, (s1, w1))" using m turn Inl by simp
      then show ?thesis by simp
    next
      case (Inr q)
      note f = whole_leaf_forward [OF m [unfolded Inr] Suc.prems(1)]
      show ?thesis
      proof (cases q)
        case (Some leaf)
        then have "count_loop ops cap n (c + whole_entries leaf) (s1, pass_leaf w1) \<noteq> None"
          using f Suc.prems(2) by (intro Suc.IH) simp_all
        then show ?thesis using m turn Inr Some by simp
      next
        case None
        obtain v s2 w2 where v: "step ops n (s1, w1) = Some (v, (s2, w2))" using stops [of w1 s1] f by auto
        show ?thesis
        proof (cases "\<exists>x. v = Inr (Some x)")
          case True
          then obtain x where x: "v = Inr (Some x)" by blast
          have "forward w2 \<and> slots_ahead w2 < slots_ahead w1" using step_uses_slot [of ops n s1 w1 x s2 w2] v x f by simp
          then have "count_loop ops cap n (c + 1) (s2, w2) \<noteq> None" using f Suc.prems(2) by (intro Suc.IH) simp_all
          then show ?thesis using m turn Inr None v x by simp
        next
          case other: False
          then show ?thesis using m turn Inr None v by (auto split: sum.splits option.splits)
        qed
      qed
    qed
  qed
qed simp

definition ENOUGH :: nat where "ENOUGH = (2 ^ 64 + 1) * 2 ^ 16 + 3"

lemma new_walk_forward: "forward (walk_new root r False)" "slots_ahead (walk_new root r False) + 3 = ENOUGH"
  by (simp_all add: walk_new_def forward_def slots_ahead_def turns_def ENOUGH_def)

end
