(* ===== verification/Ranges.thy ===== *)
theory Ranges
  imports Walk Treepages
begin

text \<open>
  Why a walk is right: whatever is still to be handed out, it is the entries in range of what the
  current leaf holds from the cursor on and of the leaves after it. Forward those are the leaves
  the links lead to, backward the ones in the subtrees left of the path.
\<close>

subsection \<open>The leaves of a tree\<close>

primrec lvs :: "tree \<Rightarrow> (nat \<times> (bytes \<times> location) list \<times> nat) list" where
  "lvs (TLeaf i es nx) = [(i, es, nx)]"
| "lvs (TBranch i ks ts) = concat (map lvs ts)"

abbreviation leaf_id :: "nat \<times> 'e \<times> nat \<Rightarrow> nat" where "leaf_id \<equiv> fst"
abbreviation leaf_entries :: "nat \<times> 'e \<times> nat \<Rightarrow> 'e" where "leaf_entries l \<equiv> fst (snd l)"

lemma lvs_leaves: "map (\<lambda>(i, es, nx). (i, nx)) (lvs t) = leaves t"
  by (induction t) (simp_all add: map_concat comp_def cong: map_cong)

lemma concat_map_concat: "concat (map f (concat xss)) = concat (map (\<lambda>xs. concat (map f xs)) xss)"
  by (induction xss) simp_all

lemma lvs_ents: "concat (map leaf_entries (lvs t)) = ents t"
  by (induction t) (simp_all add: concat_map_concat cong: map_cong)

lemma lvs_repr: "repr v t \<Longrightarrow> (i, es, nx) \<in> set (lvs t) \<Longrightarrow> i \<in> set (ids t) \<and> (\<exists>b. v i = Some b \<and> leaf_page es nx b)"
  by (induction t) auto

lemma lvs_some: "bal n t \<Longrightarrow> lvs t \<noteq> []"
  using bal_leaves [of n t] lvs_leaves [of t] by auto

lemma lvs_ids: "set (map leaf_id (lvs t)) \<subseteq> set (ids t)"
  by (induction t) auto

lemma lvs_distinct: "distinct (ids t) \<Longrightarrow> distinct (map leaf_id (lvs t))"
proof (induction t)
  case (TBranch i ks ts)
  have "distinct (map leaf_id (concat (map lvs us))) \<and> set (map leaf_id (concat (map lvs us))) \<subseteq> set (concat (map ids us))"
    if "distinct (concat (map ids us))" "set us \<subseteq> set ts" for us
    using that
  proof (induction us)
    case (Cons u us)
    have "distinct (ids u)" using Cons.prems(1) by simp
    then have u: "distinct (map leaf_id (lvs u))" using TBranch.IH Cons.prems(2) by simp
    have us: "distinct (map leaf_id (concat (map lvs us)))" "set (map leaf_id (concat (map lvs us))) \<subseteq> set (concat (map ids us))"
      using Cons.IH Cons.prems by simp_all
    have "set (ids u) \<inter> set (concat (map ids us)) = {}" using Cons.prems(1) by simp
    then have "set (map leaf_id (lvs u)) \<inter> set (map leaf_id (concat (map lvs us))) = {}" using lvs_ids [of u] us(2) by blast
    then show ?case using u us lvs_ids [of u] unfolding list.map concat.simps map_append distinct_append set_append by blast
  qed simp
  then show ?case using TBranch.prems by simp
qed simp

text \<open>A list of leaves that the links go through, from \<open>nxt\<close> to the last, none of them seen before.\<close>

fun chained :: "(nat \<rightharpoonup> bytes) \<Rightarrow> nat \<Rightarrow> nat set \<Rightarrow> (nat \<times> (bytes \<times> location) list \<times> nat) list \<Rightarrow> bool" where
  "chained v nxt seen [] = (nxt = 0)"
| "chained v nxt seen ((i, es, nx) # ls) =
     (nxt = i \<and> i \<noteq> 0 \<and> i \<notin> seen \<and> (\<exists>b. v i = Some b \<and> leaf_page es nx b) \<and> chained v nx (insert i seen) ls)"

lemma chained_links:
  assumes "linked (map (\<lambda>(i, es, nx). (i, nx)) ls) 0" "distinct (map leaf_id ls)" "set (map leaf_id ls) \<inter> seen = {}"
    and "\<And>i es nx. (i, es, nx) \<in> set ls \<Longrightarrow> i \<noteq> 0 \<and> (\<exists>b. v i = Some b \<and> leaf_page es nx b)"
  shows "chained v (case ls of [] \<Rightarrow> 0 | l # _ \<Rightarrow> leaf_id l) seen ls"
  using assms
proof (induction ls arbitrary: seen)
  case (Cons l ls)
  obtain i es nx where l: "l = (i, es, nx)" by (cases l)
  have nx: "nx = (case ls of [] \<Rightarrow> 0 | l # _ \<Rightarrow> leaf_id l)" "linked (map (\<lambda>(i, es, nx). (i, nx)) ls) 0"
    using Cons.prems(1) l by (cases ls; auto)+
  have "chained v nx (insert i seen) ls"
    unfolding nx(1) using Cons.prems(2-) l by (intro Cons.IH [OF nx(2)]) auto
  moreover have "i \<noteq> 0 \<and> (\<exists>b. v i = Some b \<and> leaf_page es nx b)" using Cons.prems(4) [of i es nx] l by simp
  ultimately show ?case using Cons.prems(3) l by simp
qed simp

lemma chained_from:
  assumes "linked (map (\<lambda>(i, es, nx). (i, nx)) (ks @ (j, es, nx) # ls)) 0" "distinct (map leaf_id ls)"
    and "\<And>i es nx. (i, es, nx) \<in> set ls \<Longrightarrow> i \<noteq> 0 \<and> (\<exists>b. v i = Some b \<and> leaf_page es nx b)"
  shows "chained v nx {} ls"
proof -
  have "linked ((j, nx) # map (\<lambda>(i, es, nx). (i, nx)) ls) 0"
    using assms(1) by (cases "ks = []") (auto simp: linked_append)
  then have "nx = (case ls of [] \<Rightarrow> 0 | l # _ \<Rightarrow> leaf_id l)" "linked (map (\<lambda>(i, es, nx). (i, nx)) ls) 0"
    by (cases ls; auto)+
  then show ?thesis using chained_links [of ls "{}" v] assms(2,3) by simp
qed

subsection \<open>The subtrees left of a path\<close>

text \<open>
  \<open>path_ok v N path ts\<close>: in a tree of depth \<open>N\<close> the path leads to a place whose subtrees to the left
  are \<open>ts\<close>, the nearest first.
\<close>

fun path_ok :: "(nat \<rightharpoonup> bytes) \<Rightarrow> nat \<Rightarrow> (nat list \<times> nat) list \<Rightarrow> tree list \<Rightarrow> bool" where
  "path_ok v N [] ts = (ts = [])"
| "path_ok v N ((children, at) # path) ts = (\<exists>us rest d. ts = rev us @ rest \<and> at \<le> length children \<and> take at children = map pid us
     \<and> d + Suc (length path) = N \<and> (\<forall>u \<in> set us. repr v u \<and> bal d u) \<and> path_ok v N path rest)"

lemma path_ok_push:
  assumes "at \<le> length children" "take at children = map pid us" "d + Suc (length path) = N"
    "\<forall>u \<in> set us. repr v u \<and> bal d u" "path_ok v N path rest"
  shows "path_ok v N ((children, at) # path) (rev us @ rest)"
  unfolding path_ok.simps using assms by blast

lemma climb_ok:
  "path_ok v N path ts \<Longrightarrow> case ts of
     [] \<Rightarrow> climb path = Inr None
   | u # ts' \<Rightarrow> \<exists>path' d. climb path = Inr (Some (pid u, path')) \<and> path_ok v N path' ts' \<and> repr v u \<and> bal d u \<and> d + length path' = N"
proof (induction path rule: climb.induct)
  case (2 children path)
  then obtain d where "path_ok v N path ts" by auto
  from 2(1) [OF this] show ?case by (cases ts) simp_all
next
  case (3 children at path)
  then obtain us rest d where p: "ts = rev us @ rest" "Suc at \<le> length children" "take (Suc at) children = map pid us"
    "d + Suc (length path) = N" "\<forall>u \<in> set us. repr v u \<and> bal d u" "path_ok v N path rest" by auto
  have "us \<noteq> []" using p(2,3) by auto
  then obtain us' u where us: "us = us' @ [u]" by (metis rev_exhaust)
  have "take at children @ [children ! at] = map pid us' @ [pid u]" using p(2,3) us by (simp add: take_Suc_conv_app_nth)
  then have c: "take at children = map pid us'" "children ! at = pid u" by simp_all
  have "path_ok v N ((children, at) # path) (rev us' @ rest)" using p c us by auto
  then show ?case using p c us by (auto intro!: exI [of _ d])
qed auto

definition rlv :: "tree list \<Rightarrow> (nat \<times> (bytes \<times> location) list \<times> nat) list" where
  "rlv ts = concat (map (\<lambda>t. rev (lvs t)) ts)"

lemma rlv_simps [simp]: "rlv [] = []" "rlv (t # ts) = rev (lvs t) @ rlv ts" "rlv (ts @ us) = rlv ts @ rlv us"
  "rlv (rev ts) = rev (concat (map lvs ts))"
  by (simp_all add: rlv_def rev_concat rev_map comp_def)

subsection \<open>Down to a leaf\<close>

lemma position_at:
  "\<forall>x \<in> set xs. \<not> P x \<Longrightarrow> \<forall>y \<in> set ys. P y \<Longrightarrow> position P (xs @ ys) = (if ys = [] then None else Some (length xs))"
  by (induction xs) (cases ys; simp)+

text \<open>Which leaf of a tree a key leads to, or the last one; and what is left of it.\<close>

definition leads :: "bytes option \<Rightarrow> (bytes \<times> location) list \<Rightarrow> (bytes \<times> location) list \<Rightarrow> bool" where
  "leads key xs ys \<longleftrightarrow> (case key of None \<Rightarrow> ys = []
     | Some k \<Rightarrow> (\<forall>e \<in> set xs. fst e < k) \<and> (\<forall>e \<in> set ys. k < fst e))"

definition within_bounds :: "bytes option \<Rightarrow> tree \<Rightarrow> bool" where
  "within_bounds key t \<longleftrightarrow> (case key of None \<Rightarrow> True | Some k \<Rightarrow> \<exists>lo hi. ord t lo hi \<and> lo \<le> k \<and> below k hi)"

lemma branch_child:
  assumes "bal (Suc n) (TBranch i ks ts)" "within_bounds key (TBranch i ks ts)"
  shows "\<exists>ts1 u ts2. ts = ts1 @ u # ts2 \<and> child_index key (zip ks (map pid ts)) = length ts1 \<and> within_bounds key u
    \<and> leads key (concat (map ents ts1)) (concat (map ents ts2)) \<and> (key = None \<longrightarrow> ts2 = [])"
proof (cases key)
  case None
  obtain ts1 u where "ts = ts1 @ [u]" using assms(1) by (cases ts rule: rev_cases) auto
  then show ?thesis using assms(1) None
    by (intro exI [of _ ts1] exI [of _ u] exI [of _ "[]"]) (simp add: child_index_def leads_def within_bounds_def)
next
  case (Some k)
  obtain lo hi where o: "chain lo hi ks (map ord ts)" "lo \<le> k" "below k hi" using assms(2) Some by (auto simp: within_bounds_def)
  have "\<forall>t \<in> set ts. bal n t" using assms(1) by simp
  from branch_focus [OF o this] obtain ks1 ks2 ts1 u ts2 lo' hi' where f: "ks = ks1 @ ks2" "ts = ts1 @ u # ts2"
    "length ts1 = length ks1" "length ts2 = length ks2" "focus k lo hi ks1 ks2 (map ord ts1) (ord u) (map ord ts2) lo' hi'"
    "\<forall>e \<in> set (concat (map ents ts1)). fst e < k" "\<forall>e \<in> set (concat (map ents ts2)). k < fst e" by blast
  note d = focusD(2-6) [OF f(5)]
  let ?xs = "zip ks1 (map pid ts1)" and ?ys = "zip ks2 (pid u # map pid ts2)"
  have "position (\<lambda>(k', _). k < k') (?xs @ ?ys) = (if ?ys = [] then None else Some (length ?xs))"
    using d(1,2) by (intro position_at) (fastforce dest: set_zip_leftD simp: not_less)+
  moreover have "zip ks (map pid ts) = ?xs @ ?ys" using f(1-3) by simp
  ultimately have "child_index key (zip ks (map pid ts)) = length ts1"
    using Some f(3,4) by (cases ks2) (simp_all add: child_index_def)
  moreover have "within_bounds key u" using Some d(3-5) by (auto simp: within_bounds_def)
  ultimately show ?thesis using Some f(2,6,7) by (intro exI [of _ ts1] exI [of _ u] exI [of _ ts2]) (simp add: leads_def)
qed

definition landed :: "(nat \<rightharpoonup> bytes) \<Rightarrow> nat \<Rightarrow> tree \<Rightarrow> bytes option \<Rightarrow> tree list \<Rightarrow> walk \<Rightarrow> slotted \<Rightarrow> walk \<Rightarrow> bool" where
  "landed v N t key rest w sp w' \<longleftrightarrow> (\<exists>L1 i es nx L2. lvs t = L1 @ (i, es, nx) # L2 \<and> leaf_page es nx (raw sp)
     \<and> leads key (concat (map leaf_entries L1)) (concat (map leaf_entries L2)) \<and> (key = None \<longrightarrow> L2 = [])
     \<and> (if backward w then \<exists>path rest'. w' = w\<lparr>wpath := path\<rparr> \<and> path_ok v N path rest' \<and> rlv rest' = rev L1 @ rlv rest else w' = w))"

lemma landed_branch:
  assumes "landed v N u key (rev ts1 @ rest) (if backward w then w\<lparr>wpath := q\<rparr> else w) sp w'"
    and "leads key (concat (map ents ts1)) (concat (map ents ts2))" "key = None \<longrightarrow> ts2 = []"
  shows "landed v N (TBranch i ks (ts1 @ u # ts2)) key rest w sp w'"
proof -
  let ?w = "if backward w then w\<lparr>wpath := q\<rparr> else w"
  obtain L1 j es nx L2 where l: "lvs u = L1 @ (j, es, nx) # L2" "leaf_page es nx (raw sp)"
    "leads key (concat (map leaf_entries L1)) (concat (map leaf_entries L2))" "key = None \<longrightarrow> L2 = []"
    "if backward ?w then \<exists>path rest'. w' = ?w\<lparr>wpath := path\<rparr> \<and> path_ok v N path rest' \<and> rlv rest' = rev L1 @ rlv (rev ts1 @ rest) else w' = ?w"
    using assms(1) unfolding landed_def by blast
  let ?L1 = "concat (map lvs ts1) @ L1" and ?L2 = "L2 @ concat (map lvs ts2)"
  have "concat (map leaf_entries (concat (map lvs us))) = concat (map ents us)" for us
    by (simp add: concat_map_concat lvs_ents comp_def)
  then have "leads key (concat (map leaf_entries ?L1)) (concat (map leaf_entries ?L2))"
    using l(3) assms(2) by (cases key) (auto simp: leads_def)
  moreover have "lvs (TBranch i ks (ts1 @ u # ts2)) = ?L1 @ (j, es, nx) # ?L2" using l(1) by simp
  moreover have "if backward w then \<exists>path rest'. w' = w\<lparr>wpath := path\<rparr> \<and> path_ok v N path rest' \<and> rlv rest' = rev ?L1 @ rlv rest else w' = w"
    using l(5) by (auto split: if_splits)
  moreover have "key = None \<longrightarrow> ?L2 = []" using l(4) assms(3) by simp
  ultimately show ?thesis using l(2) unfolding landed_def by blast
qed

context grow_store begin

lemma on_store_reads:
  assumes "sound s" "view s i = Some b" "node_page t cs nx b" "t = PIndexLeaf \<or> t = PIndexBranch"
  shows "\<exists>sp s'. on_store (read_node ops i) (s, w) = (Inr sp, (s', w)) \<and> raw sp = b \<and> node_type sp = Inr t
    \<and> sound s' \<and> view s' = view s \<and> room s' = room s"
  using read_node_reads [OF assms] by (fastforce simp: on_store_def)

lemma descend_loop_ok:
  assumes "sound s" "repr (view s) t" "bal n t" "n < m" "within_bounds key t"
    and "backward w \<Longrightarrow> path_ok (view s) N (wpath w) rest \<and> n + length (wpath w) = N"
  shows "\<exists>sp s' w'. descend_loop ops key m (pid t) (s, w) = (Inr sp, (s', w')) \<and> sound s' \<and> view s' = view s \<and> room s' = room s
    \<and> landed (view s) N t key rest w sp w'"
  using assms
proof (induction m arbitrary: n t s w rest)
  case (Suc m)
  show ?case
  proof (cases t)
    case (TLeaf i es nx)
    obtain b where b: "view s i = Some b" "leaf_page es nx b" using Suc.prems(2) TLeaf by auto
    then obtain sp s' where r: "on_store (read_node ops i) (s, w) = (Inr sp, (s', w))" "raw sp = b" "node_type sp = Inr PIndexLeaf"
      "sound s'" "view s' = view s" "room s' = room s"
      using on_store_reads [OF Suc.prems(1) b(1)] by (metis leaf_page_def)
    have "n = 0" using Suc.prems(3) TLeaf by (cases n) auto
    then have "landed (view s) N t key rest w sp w" unfolding landed_def TLeaf
      using b(2) r(2) Suc.prems(6) by (intro exI [of _ "[]"] exI [of _ i] exI [of _ es] exI [of _ nx])
        (auto simp: leads_def split: option.split intro!: exI [of _ "wpath w"] exI [of _ rest])
    then show ?thesis using r TLeaf by simp
  next
    case (TBranch i ks ts)
    obtain n' where n: "n = Suc n'" "ks \<noteq> []" "length ts = Suc (length ks)" "\<forall>t \<in> set ts. bal n' t"
      using Suc.prems(3) TBranch by (cases n) auto
    obtain b where b: "view s i = Some b" "branch_page (zip ks (map pid ts)) (pid (last ts)) b" "\<forall>t \<in> set ts. repr (view s) t"
      using Suc.prems(2) TBranch by auto
    then obtain sp s1 where r: "on_store (read_node ops i) (s, w) = (Inr sp, (s1, w))" "raw sp = b" "node_type sp = Inr PIndexBranch"
      "sound s1" "view s1 = view s" "room s1 = room s"
      using on_store_reads [OF Suc.prems(1) b(1)] by (metis branch_page_def)
    obtain ts1 u ts2 where c: "ts = ts1 @ u # ts2" "child_index key (zip ks (map pid ts)) = length ts1" "within_bounds key u"
      "leads key (concat (map ents ts1)) (concat (map ents ts2))" "key = None \<longrightarrow> ts2 = []"
      using branch_child [of n' i ks ts key] Suc.prems(3,5) TBranch n(1) by auto
    have "map snd (zip ks (map pid ts)) @ [pid (last ts)] = map pid ts" by (rule branch_children [OF n(3)])
    then have ch: "branch_entries sp = Inr (zip ks (map pid ts))" "map snd (zip ks (map pid ts)) @ [next_page sp] = map pid ts"
      using branch_entries_branch [of _ _ sp] branch_pageD(4) [of _ _ sp] b(2) r(2) by auto
    let ?w = "if backward w then w\<lparr>wpath := (map pid ts, length ts1) # wpath w\<rparr> else w"
    have u: "repr (view s1) u" "bal n' u" using b(3) n(4) c(1) r(5) by auto
    have p: "path_ok (view s1) N (wpath ?w) (rev ts1 @ rest) \<and> n' + length (wpath ?w) = N" if "backward ?w"
    proof -
      have "path_ok (view s) N (wpath w) rest \<and> n + length (wpath w) = N" using Suc.prems(6) that by (auto split: if_splits)
      then have "path_ok (view s1) N ((map pid ts, length ts1) # wpath w) (rev ts1 @ rest)"
        using b(3) n(1,4) c(1) r(5) by (intro path_ok_push [of _ _ _ n']) auto
      moreover have "n' + Suc (length (wpath w)) = N" using \<open>path_ok (view s) N (wpath w) rest \<and> n + length (wpath w) = N\<close> n(1) by simp
      ultimately show ?thesis using that by (simp split: if_splits)
    qed
    obtain sp' s' w' where w: "descend_loop ops key m (pid u) (s1, ?w) = (Inr sp', (s', w'))" "sound s'" "view s' = view s1" "room s' = room s1"
      "landed (view s1) N u key (rev ts1 @ rest) ?w sp' w'"
      using Suc.IH [OF r(4) u _ c(3) p] Suc.prems(4) n(1) by auto
    have "landed (view s) N t key rest w sp' w'"
      unfolding TBranch c(1) using landed_branch [OF w(5) c(4,5)] r(5) by simp
    moreover have "map pid ts ! length ts1 = pid u" using c(1) by (simp add: nth_append)
    ultimately show ?thesis using r w ch c(2) TBranch by (auto simp: Let_def)
  qed
qed simp

end

subsection \<open>Through a leaf\<close>

definition in_range :: "key_range \<Rightarrow> bytes \<times> location \<Rightarrow> bool" where
  "in_range r e \<longleftrightarrow> range_contains r (fst e)"

definition over :: "bool \<Rightarrow> key_range \<Rightarrow> bytes \<Rightarrow> bool" where
  "over bw r k \<longleftrightarrow> (if bw then \<not> past_end r k \<and> k < range_start r else past_end r k)"

lemma range_contains_alt: "range_contains r k \<longleftrightarrow> \<not> past_end r k \<and> \<not> k < range_start r"
  by (auto simp: range_contains_def past_end_def not_less not_le split: option.splits)

lemma over_not_in: "over bw r k \<Longrightarrow> \<not> range_contains r k"
  by (auto simp: over_def range_contains_alt split: if_splits)

text \<open>In the walk's direction: the cells from the cursor on, and the order of keys.\<close>

definition cells_ahead :: "bool \<Rightarrow> slotted \<Rightarrow> nat \<Rightarrow> bytes list" where
  "cells_ahead bw sp at = (if bw then rev (live_of (take at (cells (raw sp)))) else live_of (drop at (cells (raw sp))))"

definition dir :: "bool \<Rightarrow> 'a list \<Rightarrow> 'a list" where
  "dir bw xs = (if bw then rev xs else xs)"

definition ordered :: "bool \<Rightarrow> (bytes \<times> location) list \<Rightarrow> bool" where
  "ordered bw es \<longleftrightarrow> sorted_wrt (if bw then (>) else (<)) (map fst es)"

lemma ordered_simps [simp]:
  "ordered bw []" "ordered bw (e # es) \<longleftrightarrow> (\<forall>e' \<in> set es. if bw then fst e > fst e' else fst e < fst e') \<and> ordered bw es"
  by (auto simp: ordered_def)

lemma ordered_append: "ordered bw (xs @ ys) \<Longrightarrow> ordered bw xs \<and> ordered bw ys"
  by (simp add: ordered_def sorted_wrt_append)

lemma ordered_dir: "sorted_wrt (<) (map fst es) \<Longrightarrow> ordered bw (dir bw es)"
  by (simp add: ordered_def dir_def sorted_wrt_rev flip: rev_map)

lemma nothing_after:
  assumes "ordered bw (e # es)" "over bw r (fst e)"
  shows "filter (in_range r) (e # es) = []"
proof -
  have "\<not> range_contains r (fst e')" if "e' \<in> set es" for e'
  proof (cases bw)
    case True
    then have "fst e' < fst e" "fst e < range_start r" using assms that by (auto simp: over_def)
    then have "fst e' < range_start r" by (rule less_trans)
    then show ?thesis by (simp add: range_contains_alt)
  next
    case False
    then have "fst e < fst e'" "past_end r (fst e)" using assms that by (auto simp: over_def)
    then have "past_end r (fst e')" by (auto simp: past_end_def split: option.splits)
    then show ?thesis by (simp add: range_contains_alt)
  qed
  then show ?thesis using over_not_in [OF assms(2)] by (auto simp: in_range_def filter_empty_conv)
qed

text \<open>What a scan from the cursor finds, with the entries \<open>es\<close> ahead.\<close>

definition finds :: "key_range \<Rightarrow> (bytes \<times> location) list \<Rightarrow> (bytes \<times> location \<Rightarrow> (bytes \<times> location) list \<Rightarrow> bool) \<Rightarrow> bool" where
  "finds r es P \<longleftrightarrow> (\<exists>sk e es'. es = sk @ e # es' \<and> filter (in_range r) sk = [] \<and> P e es')"

lemma finds_here: "P e es \<Longrightarrow> finds r (e # es) P"
  unfolding finds_def by (rule exI [of _ "[]"]) simp

lemma finds_skip: "finds r es P \<Longrightarrow> \<not> in_range r e \<Longrightarrow> finds r (e # es) P"
proof -
  assume f: "finds r es P" and e: "\<not> in_range r e"
  obtain sk e' es' where "es = sk @ e' # es'" "filter (in_range r) sk = []" "P e' es'" using f unfolding finds_def by blast
  then show ?thesis using e unfolding finds_def by (intro exI [of _ "e # sk"] exI [of _ e'] exI [of _ es']) simp
qed

definition scanned :: "bool \<Rightarrow> slotted \<Rightarrow> key_range \<Rightarrow> (bytes \<times> location) list \<Rightarrow> nat option \<Rightarrow> nat \<Rightarrow> bool \<Rightarrow> bool" where
  "scanned bw sp r es x at d \<longleftrightarrow> at \<le> cnt (raw sp) \<and> (case x of
      Some slot \<Rightarrow> \<not> d \<and> slot < cnt (raw sp) \<and> finds r es (\<lambda>e es'. in_range r e
        \<and> cells (raw sp) ! slot = Some (index_cell e) \<and> cells_ahead bw sp at = map index_cell es')
    | None \<Rightarrow> if d then finds r es (\<lambda>e _. over bw r (fst e))
        else filter (in_range r) es = [] \<and> at = (if bw then 0 else cnt (raw sp)))"

lemma scanned_skip: "scanned bw sp r es x at d \<Longrightarrow> \<not> in_range r e \<Longrightarrow> scanned bw sp r (e # es) x at d"
  by (cases x) (auto simp: scanned_def intro: finds_skip)

lemma cells_ahead_end: "(if bw then at = 0 else \<not> at < cnt (raw sp)) \<Longrightarrow> cells_ahead bw sp at = []"
  by (auto simp: cells_ahead_def split: if_splits)

lemma cells_ahead_step:
  assumes "if bw then at \<noteq> 0 else at < cnt (raw sp)" "at \<le> cnt (raw sp)"
  shows "cells_ahead bw sp at = (case cells (raw sp) ! (if bw then at - 1 else at) of
      None \<Rightarrow> cells_ahead bw sp (if bw then at - 1 else at + 1)
    | Some d \<Rightarrow> d # cells_ahead bw sp (if bw then at - 1 else at + 1))"
proof (cases bw)
  case True
  then obtain i where i: "at = Suc i" using assms(1) by (cases at) auto
  have "take at (cells (raw sp)) = take i (cells (raw sp)) @ [cells (raw sp) ! i]"
    using assms(2) i by (simp add: take_Suc_conv_app_nth)
  then show ?thesis using True i by (cases "cells (raw sp) ! i") (simp_all add: cells_ahead_def)
next
  case False
  have "at < length (cells (raw sp))" using assms(1) False by simp
  from Cons_nth_drop_Suc [OF this] have "drop at (cells (raw sp)) = cells (raw sp) ! at # drop (Suc at) (cells (raw sp))" by simp
  then show ?thesis using False by (cases "cells (raw sp) ! at") (simp_all add: cells_ahead_def)
qed

lemma get_cell_cells: "page_inv sp \<Longrightarrow> i < cnt (raw sp) \<Longrightarrow> get_cell sp i = Inr (cells (raw sp) ! i)"
  by (simp add: get_cell_inv)

lemma leaf_loop_ok:
  assumes "page_inv sp" "slot_count sp = cnt (raw sp)" "at \<le> cnt (raw sp)" "cells_ahead bw sp at = map index_cell es" "\<forall>(k, l) \<in> set es. loc_ok l"
  shows "\<exists>x at' d. leaf_loop sp r bw at = Inr (x, at', d) \<and> scanned bw sp r es x at' d"
  using assms
proof (induction sp r bw at arbitrary: es rule: leaf_loop.induct)
  case (1 sp r bw at)
  let ?slot = "if bw then at - 1 else at" and ?at = "if bw then at - 1 else at + 1"
  show ?case
  proof (cases "if bw then at = 0 else \<not> at < slot_count sp")
    case True
    then have "cells_ahead bw sp at = []" using 1(5) by (intro cells_ahead_end) (simp split: if_splits)
    then have "es = []" using 1(7) by simp
    moreover have "leaf_loop sp r bw at = Inr (None, at, False)" using True by (subst leaf_loop.simps) simp
    ultimately show ?thesis using True 1(5,6) by (auto simp: scanned_def split: if_splits)
  next
    case False
    then have s: "?slot < cnt (raw sp)" "?at \<le> cnt (raw sp)" using 1(5,6) by (auto split: if_splits)
    have g: "get_cell sp ?slot = Inr (cells (raw sp) ! ?slot)" using get_cell_cells [OF 1(4) s(1)] .
    have turn: "leaf_loop sp r bw at = (case cells (raw sp) ! ?slot of
          None \<Rightarrow> leaf_loop sp r bw ?at
        | Some d \<Rightarrow> bindR (decode_index_entry d) (\<lambda>(key, _).
            if past_end r key then (if \<not> bw then Inr (None, ?at, True) else leaf_loop sp r bw ?at)
            else if key < range_start r then (if bw then Inr (None, ?at, True) else leaf_loop sp r bw ?at)
            else Inr (Some ?slot, ?at, False)))"
      using False g by (subst leaf_loop.simps) (simp add: Let_def)
    have c: "cells_ahead bw sp at = (case cells (raw sp) ! ?slot of
      None \<Rightarrow> cells_ahead bw sp ?at | Some d \<Rightarrow> d # cells_ahead bw sp ?at)"
      using False 1(5,6) by (intro cells_ahead_step) (auto split: if_splits)
    show ?thesis
    proof (cases "cells (raw sp) ! ?slot")
      case None
      then show ?thesis using 1(1) [OF False refl refl g None 1(4,5) s(2)] c turn 1(7,8) by simp
    next
      case (Some d)
      then obtain k l es' where e: "es = (k, l) # es'" "d = index_cell (k, l)" "cells_ahead bw sp ?at = map index_cell es'"
        using c 1(7) by (cases es) auto
      have dec: "decode_index_entry d = Inr (k, l)" using e(1,2) 1(8) by simp
      have locs: "\<forall>(k, l) \<in> set es'. loc_ok l" using 1(8) e(1) by simp
      have at: "scanned bw sp r es None ?at True" if "over bw r k"
        using that s(2) e(1) by (simp add: scanned_def finds_here)
      have hit: "scanned bw sp r es (Some ?slot) ?at False" if "in_range r (k, l)"
        using that s e Some unfolding scanned_def option.case e(1) by (auto intro!: finds_here)
      show ?thesis
      proof (cases "over bw r k \<or> range_contains r k")
        case True
        then show ?thesis using turn Some dec at hit
          by (cases bw) (auto simp: over_def range_contains_alt in_range_def)
      next
        case skip: False
        then have run: "leaf_loop sp r bw at = leaf_loop sp r bw ?at"
          using turn Some dec by (auto simp: over_def range_contains_alt split: if_splits)
        have "\<exists>x at' q. leaf_loop sp r bw ?at = Inr (x, at', q) \<and> scanned bw sp r es' x at' q"
        proof (cases "past_end r k")
          case True
          then have "\<not> \<not> bw" using skip True by (simp add: over_def split: if_splits)
          then show ?thesis using 1(2) [OF False refl refl g Some dec refl True _ 1(4,5) s(2) e(3) locs] by blast
        next
          case inside: False
          then have "k < range_start r" "\<not> bw" using skip by (auto simp: over_def range_contains_alt split: if_splits)
          then show ?thesis using 1(3) [OF False refl refl g Some dec refl inside _ _ 1(4,5) s(2) e(3) locs] by blast
        qed
        moreover have "\<not> in_range r (k, l)" using skip by (simp add: in_range_def)
        ultimately show ?thesis using run scanned_skip e(1) by metis
      qed
    qed
  qed
qed

subsection \<open>What a walk still has to hand out\<close>

text \<open>The leaves after the current one, in the walk's direction.\<close>

definition leaves_ahead :: "(nat \<rightharpoonup> bytes) \<Rightarrow> nat \<Rightarrow> walk \<Rightarrow> (nat \<times> (bytes \<times> location) list \<times> nat) list \<Rightarrow> bool" where
  "leaves_ahead v N w ls \<longleftrightarrow>
     (if backward w then \<exists>ts. path_ok v N (wpath w) ts \<and> rlv ts = ls else chained v (next_leaf w) (wseen w) ls)"

definition entries_of :: "bool \<Rightarrow> (nat \<times> (bytes \<times> location) list \<times> nat) list \<Rightarrow> (bytes \<times> location) list" where
  "entries_of bw ls = concat (map (\<lambda>l. dir bw (leaf_entries l)) ls)"

text \<open>A walk in a leaf, with \<open>es\<close> ahead of it there and the leaves \<open>ls\<close> after it.\<close>

definition in_leaf :: "(nat \<rightharpoonup> bytes) \<Rightarrow> nat \<Rightarrow> walk \<Rightarrow> slotted \<Rightarrow> (bytes \<times> location) list
    \<Rightarrow> (nat \<times> (bytes \<times> location) list \<times> nat) list \<Rightarrow> bool" where
  "in_leaf v N w sp es ls \<longleftrightarrow> started w \<and> \<not> wdone w \<and> wleaf w = Some sp \<and> (\<exists>E nx. leaf_page E nx (raw sp)) \<and> wat w \<le> cnt (raw sp)
     \<and> cells_ahead (backward w) sp (wat w) = map index_cell es \<and> (\<forall>(k, l) \<in> set es. loc_ok l)
     \<and> leaves_ahead v N w ls \<and> ordered (backward w) (es @ entries_of (backward w) ls)"

text \<open>\<open>to_come v N t r bw w F\<close>: the walk has \<open>F\<close> to hand out yet.\<close>

definition to_come :: "(nat \<rightharpoonup> bytes) \<Rightarrow> nat \<Rightarrow> tree \<Rightarrow> key_range \<Rightarrow> bool \<Rightarrow> walk \<Rightarrow> (bytes \<times> location) list \<Rightarrow> bool" where
  "to_come v N t r bw w F \<longleftrightarrow> wrange w = r \<and> backward w = bw \<and> wleaves w \<le> length (lvs t) \<and> (wdone w \<and> F = []
     \<or> w = walk_new (pid t) r bw \<and> F = filter (in_range r) (dir bw (ents t))
     \<or> (\<exists>sp es ls. in_leaf v N w sp es ls \<and> F = filter (in_range r) (es @ entries_of bw ls) \<and> wleaves w + length ls \<le> length (lvs t)))"

lemma to_come_new: "to_come v N t r bw (walk_new (pid t) r bw) (filter (in_range r) (dir bw (ents t)))"
  by (simp add: to_come_def walk_new_def)

lemma to_come_leaf:
  assumes "in_leaf v N w sp es ls" "wleaves w + length ls \<le> length (lvs t)"
  shows "to_come v N t (wrange w) (backward w) w (filter (in_range (wrange w)) (es @ entries_of (backward w) ls))"
  using assms unfolding to_come_def by auto

text \<open>Entering a leaf.\<close>

lemma enter_in_leaf:
  assumes "leaf_page es nx (raw sp)" "\<not> wdone w" "started w" "leaves_ahead v N (enter_leaf sp w) ls"
    and "ordered (backward w) (dir (backward w) es @ entries_of (backward w) ls)"
  shows "in_leaf v N (enter_leaf sp w) sp (dir (backward w) es) ls"
proof -
  note l = leaf_pageD [OF assms(1)]
  have "cells_ahead (backward w) sp (wat (enter_leaf sp w)) = map index_cell (dir (backward w) es)"
    using l(3,6) by (simp add: cells_ahead_def enter_leaf_def dir_def rev_map)
  moreover have "\<forall>(k, l) \<in> set (dir (backward w) es). loc_ok l" using assms(1) by (auto simp: leaf_page_def dir_def)
  ultimately show ?thesis using assms l(6) by (auto simp: in_leaf_def enter_leaf_def)
qed

lemma ordered_leaves:
  assumes "sorted_wrt (<) (map fst (ents t))"
  shows "ordered bw (entries_of bw (dir bw (lvs t)))"
proof -
  have "entries_of bw (dir bw (lvs t)) = dir bw (ents t)"
    unfolding lvs_ents [symmetric] by (simp add: entries_of_def dir_def rev_concat rev_map comp_def)
  then show ?thesis using ordered_dir [OF assms] by simp
qed

text \<open>A walk begins at the leaf its first key is in: what lies before that leaf is out of the range.\<close>

lemma leads_range:
  assumes "leads (if bw then range_end r else Some (range_start r)) xs ys" "e \<in> set (if bw then ys else xs)"
  shows "\<not> in_range r e"
  using assms by (cases bw) (auto simp: leads_def in_range_def range_contains_def not_le not_less split: option.splits)

lemma entries_of_append [simp]: "entries_of bw (xs @ ys) = entries_of bw xs @ entries_of bw ys" "entries_of bw [] = []"
  "entries_of bw (l # ls) = dir bw (leaf_entries l) @ entries_of bw ls"
  by (simp_all add: entries_of_def)

lemma entries_of_rev: "entries_of True (rev ls) = rev (concat (map leaf_entries ls))" "entries_of False ls = concat (map leaf_entries ls)"
  by (simp_all add: entries_of_def dir_def rev_concat rev_map comp_def)

lemma first_leaf:
  assumes "landed v N t (if bw then range_end r else Some (range_start r)) [] (walk_new (pid t) r bw\<lparr>started := True\<rparr>) sp w'"
    and "linked (leaves t) 0" "distinct (ids t)" "repr v t" "sorted_wrt (<) (map fst (ents t))" "\<And>i. i \<in> set (ids t) \<Longrightarrow> 0 < i"
  shows "to_come v N t r bw (enter_leaf sp w') (filter (in_range r) (dir bw (ents t))) \<and> wleaves (enter_leaf sp w') = 1"
proof -
  let ?w = "walk_new (pid t) r bw\<lparr>started := True\<rparr>"
  have backward: "backward ?w = bw" by (simp add: walk_new_def)
  obtain L1 i es nx L2 where l: "lvs t = L1 @ (i, es, nx) # L2" "leaf_page es nx (raw sp)"
    "leads (if bw then range_end r else Some (range_start r)) (concat (map leaf_entries L1)) (concat (map leaf_entries L2))"
    and w': "if bw then \<exists>path rest'. w' = ?w\<lparr>wpath := path\<rparr> \<and> path_ok v N path rest' \<and> rlv rest' = rev L1 else w' = ?w"
    using assms(1) unfolding landed_def backward rlv_simps(1) append_Nil2 by blast
  have w: "wrange w' = r" "backward w' = bw" "\<not> wdone w'" "started w'" "wleaves w' = 0" "wseen w' = {}"
    using w' by (auto simp: walk_new_def split: if_splits)
  let ?ls = "if bw then rev L1 else L2"
  have ahead: "leaves_ahead v N (enter_leaf sp w') ?ls"
  proof (cases bw)
    case True
    then show ?thesis using w' w(2) by (auto simp: leaves_ahead_def enter_leaf_def)
  next
    case False
    have "chained v nx {} L2"
    proof (rule chained_from [of L1 i es nx L2])
      show "linked (map (\<lambda>(i, es, nx). (i, nx)) (L1 @ (i, es, nx) # L2)) 0" using lvs_leaves [of t] assms(2) l(1) by simp
      show "distinct (map leaf_id L2)" using lvs_distinct [OF assms(3)] l(1) by simp
      show "j \<noteq> 0 \<and> (\<exists>b. v j = Some b \<and> leaf_page es' nx' b)" if "(j, es', nx') \<in> set L2" for j es' nx'
        using lvs_repr [OF assms(4), of j es' nx'] assms(6) that l(1) by auto
    qed
    then show ?thesis using False w leaf_pageD(4) [OF l(2)] by (simp add: leaves_ahead_def enter_leaf_def)
  qed
  have e: "entries_of bw (dir bw (lvs t)) = (if bw then rev (concat (map leaf_entries L2)) else concat (map leaf_entries L1)) @ dir bw es @ entries_of bw ?ls"
    unfolding l(1) by (simp add: dir_def entries_of_rev)
  have all: "dir bw (ents t) = entries_of bw (dir bw (lvs t))"
    unfolding lvs_ents [symmetric] by (simp add: dir_def entries_of_rev)
  have ord: "ordered bw (dir bw es @ entries_of bw ?ls)" using ordered_leaves [OF assms(5), of bw] unfolding e by (rule ordered_append [THEN conjunct2])
  have il: "in_leaf v N (enter_leaf sp w') sp (dir bw es) ?ls" using enter_in_leaf [OF l(2) w(3,4) ahead] ord w(2) by simp
  have "filter (in_range r) (if bw then rev (concat (map leaf_entries L2)) else concat (map leaf_entries L1)) = []"
    using leads_range [OF l(3)] by (auto simp: filter_empty_conv)
  then have F: "filter (in_range r) (dir bw (ents t)) = filter (in_range r) (dir bw es @ entries_of bw ?ls)" unfolding all e by simp
  have n: "wleaves (enter_leaf sp w') = 1" "wrange (enter_leaf sp w') = r" "backward (enter_leaf sp w') = bw"
    using w by (simp_all add: enter_leaf_def)
  have "1 + length ?ls \<le> length (lvs t)" using l(1) by simp
  then show ?thesis using to_come_leaf [OF il, of t] n F by simp
qed

subsection \<open>From leaf to leaf\<close>

definition walkable :: "(nat \<rightharpoonup> bytes) \<Rightarrow> nat \<Rightarrow> tree \<Rightarrow> bool" where
  "walkable v n t \<longleftrightarrow> good v n [] None t \<and> distinct (ids t) \<and> linked (leaves t) 0"

text \<open>What \<open>read_next_leaf\<close> makes of the walk: it is over, or at the start of the next leaf.\<close>

definition at_start :: "walk \<Rightarrow> bool" where
  "at_start w \<longleftrightarrow> (\<exists>sp. wleaf w = Some sp \<and> wat w = (if backward w then slot_count sp else 0))"

definition moved_on :: "(nat \<rightharpoonup> bytes) \<Rightarrow> nat \<Rightarrow> tree \<Rightarrow> key_range \<Rightarrow> bool \<Rightarrow> walk \<Rightarrow> (bytes \<times> location) list \<Rightarrow> walk \<Rightarrow> bool" where
  "moved_on v n t r bw w F w' \<longleftrightarrow> to_come v n t r bw w' F
     \<and> (wdone w' \<and> wleaves w' = wleaves w \<or> wleaves w' = Suc (wleaves w) \<and> \<not> wdone w' \<and> at_start w')"

lemma moved_on_entered:
  assumes "in_leaf v n (enter_leaf sp w') sp es ls" "wrange w' = r" "backward w' = bw" "wleaves w' = wleaves w"
    and "Suc (wleaves w) + length ls \<le> length (lvs t)" "F = filter (in_range r) (es @ entries_of bw ls)"
  shows "moved_on v n t r bw w F (enter_leaf sp w')"
proof -
  have e: "wrange (enter_leaf sp w') = r" "backward (enter_leaf sp w') = bw" "wleaves (enter_leaf sp w') = Suc (wleaves w)"
    using assms(2-4) by (simp_all add: enter_leaf_def)
  have "to_come v n t r bw (enter_leaf sp w') F" using to_come_leaf [OF assms(1), of t] assms(5,6) e by simp
  moreover have "\<not> wdone (enter_leaf sp w')" using assms(1) by (simp add: in_leaf_def)
  ultimately show ?thesis using e unfolding moved_on_def at_start_def by (auto simp: enter_leaf_def)
qed

lemma used_up_ahead: "in_leaf v n w sp es ls \<Longrightarrow> used_up w \<Longrightarrow> es = []"
proof -
  assume l: "in_leaf v n w sp es ls" and u: "used_up w"
  have "slot_count sp = cnt (raw sp)" using l leaf_pageD(6) by (auto simp: in_leaf_def)
  then have "cells_ahead (backward w) sp (wat w) = []" using l u by (intro cells_ahead_end) (auto simp: in_leaf_def used_up_def)
  then show "es = []" using l by (simp add: in_leaf_def)
qed

lemma in_leaf_done: "in_leaf v n w sp es ls \<Longrightarrow> wrange w = r \<Longrightarrow> backward w = bw \<Longrightarrow> wleaves w \<le> length (lvs t)
    \<Longrightarrow> moved_on v n t r bw w [] (w\<lparr>wdone := True\<rparr>) \<and> moved_on v n t r bw w [] (w\<lparr>wpath := [], wdone := True\<rparr>)"
  by (simp add: moved_on_def to_come_def)

context grow_store begin

abbreviation same :: "'s \<Rightarrow> 's \<Rightarrow> bool" where
  "same s s' \<equiv> sound s' \<and> view s' = view s \<and> room s' = room s"

lemma read_next_fresh:
  assumes "sound s" "walkable (view s) n t"
  shows "\<exists>s' w'. read_next_leaf ops (s, walk_new (pid t) r bw) = (Inr (), (s', w')) \<and> same s s'
    \<and> moved_on (view s) n t r bw (walk_new (pid t) r bw) (filter (in_range r) (dir bw (ents t))) w'"
proof -
  let ?w = "walk_new (pid t) r bw" and ?key = "if bw then range_end r else Some (range_start r)"
  have g: "repr (view s) t" "bal n t" "ord t [] None" "distinct (ids t)" "linked (leaves t) 0"
    using assms(2) by (simp_all add: walkable_def good_def)
  have pos: "0 < i" if "i \<in> set (ids t)" for i using repr_some [OF g(1) that] view_page [OF assms(1)] by auto
  have n: "n < MAX_DEPTH + 1" using index_at_depth [OF assms(1) g(1,2,4)] by simp
  have b: "within_bounds ?key t" using g(3) by (auto simp: within_bounds_def below_def split: option.split intro!: exI [of _ "[]"] exI [of _ None])
  have p: "path_ok (view s) n (wpath (?w\<lparr>started := True\<rparr>)) [] \<and> n + length (wpath (?w\<lparr>started := True\<rparr>)) = n" by (simp add: walk_new_def)
  obtain sp s' w' where d: "descend_loop ops ?key (MAX_DEPTH + 1) (pid t) (s, ?w\<lparr>started := True\<rparr>) = (Inr sp, (s', w'))" "same s s'"
    "landed (view s) n t ?key [] (?w\<lparr>started := True\<rparr>) sp w'"
    using descend_loop_ok [OF assms(1) g(1,2) n b p] by blast
  have srt: "sorted_wrt (<) (map fst (ents t))" using ord_ents [OF g(2,3)] by simp
  have f: "to_come (view s) n t r bw (enter_leaf sp w') (filter (in_range r) (dir bw (ents t)))" "wleaves (enter_leaf sp w') = 1"
    using first_leaf [OF d(3) g(5,4,1) srt pos] by simp_all
  have nd: "\<not> wdone (enter_leaf sp w')" "at_start (enter_leaf sp w')"
    using d(3) by (auto simp: landed_def walk_new_def enter_leaf_def at_start_def split: if_splits)
  have "read_next_leaf ops (s, ?w) = (Inr (), (s', enter_leaf sp w'))"
    using d(1) by (simp add: read_next_leaf_def find_next_leaf_def descend_def walk_new_def bindA_def del: descend_loop.simps split: if_splits)
  then show ?thesis using d(2) f nd unfolding moved_on_def by (intro exI [of _ s'] exI [of _ "enter_leaf sp w'"]) (simp add: walk_new_def)
qed

lemma read_next_forward:
  assumes "sound s" "in_leaf (view s) n w sp [] ls" "\<not> backward w" "wleaves w + length ls \<le> length (lvs t)"
  shows "\<exists>s' w'. read_next_leaf ops (s, w) = (Inr (), (s', w')) \<and> same s s'
    \<and> moved_on (view s) n t (wrange w) False w (filter (in_range (wrange w)) (entries_of False ls)) w'"
proof -
  have w: "started w" "\<not> wdone w" "chained (view s) (next_leaf w) (wseen w) ls" "ordered False (entries_of False ls)"
    using assms(2,3) by (auto simp: in_leaf_def leaves_ahead_def)
  show ?thesis
  proof (cases ls)
    case Nil
    then have "read_next_leaf ops (s, w) = (Inr (), (s, w\<lparr>wdone := True\<rparr>))"
      using w assms(3) by (simp add: read_next_leaf_def find_next_leaf_def bindA_def)
    then show ?thesis using in_leaf_done [OF assms(2) refl refl, of t] assms(1,3,4) Nil by auto
  next
    case (Cons l ls')
    then obtain i es nx where l: "l = (i, es, nx)" by (cases l)
    obtain b where c: "next_leaf w = i" "i \<noteq> 0" "i \<notin> wseen w" "view s i = Some b" "leaf_page es nx b" "chained (view s) nx (insert i (wseen w)) ls'"
      using w(3) unfolding Cons l by auto
    let ?w = "w\<lparr>wseen := insert i (wseen w)\<rparr>"
    obtain sp' s' where r: "on_store (read_node ops i) (s, ?w) = (Inr sp', (s', ?w))" "raw sp' = b" "same s s'"
      using on_store_reads [OF assms(1) c(4) conjunct1 [OF c(5) [unfolded leaf_page_def]], of ?w] by auto
    have lp: "leaf_page es nx (raw sp')" using c(5) r(2) by simp
    have "leaves_ahead (view s) n (enter_leaf sp' ?w) ls'"
      using c(6) assms(3) leaf_pageD(4) [OF lp] by (simp add: leaves_ahead_def enter_leaf_def)
    moreover have "ordered (backward ?w) (dir (backward ?w) es @ entries_of (backward ?w) ls')" using w(4) Cons l assms(3) by simp
    ultimately have il: "in_leaf (view s) n (enter_leaf sp' ?w) sp' (dir (backward ?w) es) ls'"
      using w(1,2) by (intro enter_in_leaf [OF lp]) simp_all
    have "moved_on (view s) n t (wrange w) False w (filter (in_range (wrange w)) (entries_of False ls)) (enter_leaf sp' ?w)"
      using assms(3,4) Cons l by (intro moved_on_entered [OF il]) simp_all
    moreover have "read_next_leaf ops (s, w) = (Inr (), (s', enter_leaf sp' ?w))"
      using w(1) assms(3) c(1-3) r(1) by (simp add: read_next_leaf_def find_next_leaf_def bindA_def)
    ultimately show ?thesis using r(3) by blast
  qed
qed

lemma read_next_backward:
  assumes "sound s" "walkable (view s) n t" "in_leaf (view s) n w sp [] ls" "backward w" "wleaves w + length ls \<le> length (lvs t)"
  shows "\<exists>s' w'. read_next_leaf ops (s, w) = (Inr (), (s', w')) \<and> same s s'
    \<and> moved_on (view s) n t (wrange w) True w (filter (in_range (wrange w)) (entries_of True ls)) w'"
proof -
  obtain ts where w: "started w" "\<not> wdone w" "path_ok (view s) n (wpath w) ts" "rlv ts = ls" "ordered True (entries_of True ls)"
    using assms(3,4) by (auto simp: in_leaf_def leaves_ahead_def)
  note climb = climb_ok [OF w(3)]
  show ?thesis
  proof (cases ts)
    case Nil
    then have "read_next_leaf ops (s, w) = (Inr (), (s, w\<lparr>wpath := [], wdone := True\<rparr>))"
      using w(1,2) climb assms(4) by (simp add: read_next_leaf_def find_next_leaf_def bindA_def)
    then show ?thesis using in_leaf_done [OF assms(3) refl refl, of t] assms(1,4,5) Nil w(4) by auto
  next
    case (Cons u ts')
    then obtain path d where c: "climb (wpath w) = Inr (Some (pid u, path))" "path_ok (view s) n path ts'" "repr (view s) u" "bal d u" "d + length path = n"
      using climb by auto
    have "n < MAX_DEPTH" using index_at_depth [OF assms(1), of t n] assms(2) by (simp add: walkable_def good_def)
    then have d: "d < MAX_DEPTH + 1 - length path" using c(5) by simp
    let ?w = "w\<lparr>wpath := path\<rparr>"
    obtain sp' s' w' where r: "descend_loop ops None (MAX_DEPTH + 1 - length path) (pid u) (s, ?w) = (Inr sp', (s', w'))" "same s s'"
      "landed (view s) n u None ts' ?w sp' w'"
      using descend_loop_ok [OF assms(1) c(3,4) d, of None ?w n ts'] c(2,5) by (auto simp: within_bounds_def)
    obtain L1 i es nx path' rest where l: "lvs u = L1 @ [(i, es, nx)]" "leaf_page es nx (raw sp')" "w' = ?w\<lparr>wpath := path'\<rparr>"
      "path_ok (view s) n path' rest" "rlv rest = rev L1 @ rlv ts'"
      using r(3) assms(4) unfolding landed_def by auto
    let ?ls = "rlv rest"
    have ls: "ls = (i, es, nx) # ?ls" using w(4) Cons l(1,5) by simp
    have bw: "backward w'" "wrange w' = wrange w" "started w'" "\<not> wdone w'" "wleaves w' = wleaves w" using l(3) assms(4) w(1,2) by simp_all
    have "leaves_ahead (view s) n (enter_leaf sp' w') ?ls" using l(3,4) bw(1) by (auto simp: leaves_ahead_def enter_leaf_def)
    moreover have "ordered (backward w') (dir (backward w') es @ entries_of (backward w') ?ls)" using w(5) ls bw(1) by simp
    ultimately have il: "in_leaf (view s) n (enter_leaf sp' w') sp' (dir (backward w') es) ?ls"
      using bw by (intro enter_in_leaf [OF l(2)]) simp_all
    have "moved_on (view s) n t (wrange w) True w (filter (in_range (wrange w)) (entries_of True ls)) (enter_leaf sp' w')"
      using assms(5) ls bw by (intro moved_on_entered [OF il]) simp_all
    moreover have "read_next_leaf ops (s, w) = (Inr (), (s', enter_leaf sp' w'))"
      using w(1) assms(4) c(1) r(1) by (simp add: read_next_leaf_def find_next_leaf_def descend_def bindA_def del: descend_loop.simps)
    ultimately show ?thesis using r(2) by blast
  qed
qed

lemma read_next_ok:
  assumes "sound s" "walkable (view s) n t" "to_come (view s) n t r bw w F" "used_up w" "\<not> wdone w"
  shows "\<exists>s' w'. read_next_leaf ops (s, w) = (Inr (), (s', w')) \<and> same s s' \<and> moved_on (view s) n t r bw w F w'"
proof (cases "w = walk_new (pid t) r bw \<and> F = filter (in_range r) (dir bw (ents t))")
  case True
  then show ?thesis using read_next_fresh [OF assms(1,2), of r bw] by simp
next
  case False
  then obtain sp es ls where l: "in_leaf (view s) n w sp es ls" "F = filter (in_range r) (es @ entries_of bw ls)"
    "wleaves w + length ls \<le> length (lvs t)" "wrange w = r" "backward w = bw"
    using assms(3,5) by (auto simp: to_come_def)
  have es: "es = []" using used_up_ahead [OF l(1) assms(4)] .
  show ?thesis
    using read_next_forward [OF assms(1) l(1) [unfolded es]] read_next_backward [OF assms(1,2) l(1) [unfolded es]] l(2-5) es
    by (cases bw) auto
qed

end

subsection \<open>Steps\<close>

lemma new_walk_open: "w = walk_new root r bw \<Longrightarrow> \<not> wdone w \<and> wleaf w = None"
  by (simp add: walk_new_def)

lemma to_come_done: "to_come v n t r bw w F \<Longrightarrow> wdone w \<Longrightarrow> F = []"
  by (auto simp: to_come_def in_leaf_def dest: new_walk_open)

lemma to_come_range: "to_come v n t r bw w F \<Longrightarrow> wrange w = r \<and> backward w = bw"
  by (simp add: to_come_def)

lemma in_leaf_moves:
  assumes "in_leaf v n w sp es ls" "es = xs @ es'" "at \<le> cnt (raw sp)" "cells_ahead (backward w) sp at = map index_cell es'"
  shows "in_leaf v n (w\<lparr>wat := at, wdone := False\<rparr>) sp es' ls"
  using assms ordered_append [of "backward w" xs "es' @ entries_of (backward w) ls"] by (auto simp: in_leaf_def leaves_ahead_def)

lemma leaf_scan:
  assumes "in_leaf v n w sp es ls" "wleaves w + length ls \<le> length (lvs t)"
    and "scanned (backward w) sp (wrange w) es x at d"
  shows "case x of
      None \<Rightarrow> to_come v n t (wrange w) (backward w) (w\<lparr>wat := at, wdone := d\<rparr>) (filter (in_range (wrange w)) (es @ entries_of (backward w) ls))
        \<and> (d \<or> used_up (w\<lparr>wat := at, wdone := d\<rparr>))
    | Some slot \<Rightarrow> \<exists>e F'. filter (in_range (wrange w)) (es @ entries_of (backward w) ls) = e # F' \<and> \<not> d
        \<and> to_come v n t (wrange w) (backward w) (w\<lparr>wat := at, wdone := d\<rparr>) F' \<and> live_cell sp slot = Inr (index_cell e) \<and> e \<in> set es"
proof -
  let ?r = "wrange w" and ?bw = "backward w"
  let ?rest = "entries_of ?bw ls"
  obtain E nx where E: "leaf_page E nx (raw sp)" using assms(1) by (auto simp: in_leaf_def)
  have at: "at \<le> cnt (raw sp)" using assms(3) by (simp add: scanned_def)
  show ?thesis
  proof (cases x)
    case (Some slot)
    then obtain sk e es' where f: "es = sk @ e # es'" "filter (in_range ?r) sk = []" "in_range ?r e" "\<not> d" "slot < cnt (raw sp)"
      "cells (raw sp) ! slot = Some (index_cell e)" "cells_ahead ?bw sp at = map index_cell es'"
      using assms(3) by (auto simp: scanned_def finds_def)
    have il: "in_leaf v n (w\<lparr>wat := at, wdone := False\<rparr>) sp es' ls" using in_leaf_moves [OF assms(1) _ at f(7), of "sk @ [e]"] f(1) by simp
    have "to_come v n t ?r ?bw (w\<lparr>wat := at, wdone := False\<rparr>) (filter (in_range ?r) (es' @ ?rest))"
      using to_come_leaf [OF il, of t] assms(2) by simp
    moreover have "filter (in_range ?r) (es @ ?rest) = e # filter (in_range ?r) (es' @ ?rest)" using f(1-3) by simp
    moreover have "live_cell sp slot = Inr (index_cell e)" by (rule live_cell_at [OF leaf_pageD(1) [OF E] f(5,6)])
    ultimately show ?thesis using Some f(1,4) by simp
  next
    case None
    show ?thesis
    proof (cases d)
      case True
      then obtain sk e es' where f: "es = sk @ e # es'" "filter (in_range ?r) sk = []" "over ?bw ?r (fst e)"
        using assms(3) None by (auto simp: scanned_def finds_def)
      have "ordered ?bw (sk @ e # es' @ ?rest)" using assms(1) f(1) by (simp add: in_leaf_def)
      from nothing_after [OF ordered_append [OF this, THEN conjunct2] f(3)] have "filter (in_range ?r) (es @ ?rest) = []" using f(1,2) by simp
      then show ?thesis using None True assms(2) by (simp add: to_come_def)
    next
      case False
      then have f: "filter (in_range ?r) es = []" "at = (if ?bw then 0 else cnt (raw sp))" using assms(3) None by (simp_all add: scanned_def)
      then have "cells_ahead ?bw sp at = map index_cell []" by (simp add: cells_ahead_end)
      then have il: "in_leaf v n (w\<lparr>wat := at, wdone := False\<rparr>) sp [] ls" using in_leaf_moves [OF assms(1) _ at, of es "[]"] by simp
      have "used_up (w\<lparr>wat := at, wdone := d\<rparr>)" using f(2) assms(1) leaf_pageD(6) [OF E] by (simp add: used_up_def in_leaf_def)
      moreover have "to_come v n t ?r ?bw (w\<lparr>wat := at, wdone := False\<rparr>) (filter (in_range ?r) ([] @ ?rest))"
        using to_come_leaf [OF il, of t] assms(2) by simp
      ultimately show ?thesis using None False f(1) by simp
    qed
  qed
qed

lemma next_in_leaf_ok:
  assumes "to_come v n t r bw w F"
  shows "\<exists>q w'. next_in_leaf (s, w) = (Inr q, (s, w')) \<and> wleaves w' = wleaves w \<and> (used_up w \<longrightarrow> q = None) \<and> (case q of
      None \<Rightarrow> to_come v n t r bw w' F \<and> (wdone w' \<or> used_up w')
    | Some slot \<Rightarrow> \<exists>e F'. F = e # F' \<and> to_come v n t r bw w' F' \<and> entry_at slot (s, w') = (Inr (Some e), (s, w')))"
proof (cases "\<exists>sp es ls. in_leaf v n w sp es ls \<and> F = filter (in_range r) (es @ entries_of bw ls) \<and> wleaves w + length ls \<le> length (lvs t)")
  case False
  then have "wdone w \<or> wleaf w = None" using assms new_walk_open [of w "pid t" r bw] unfolding to_come_def by argo
  then show ?thesis using assms by (auto simp: next_in_leaf_def used_up_def)
next
  case True
  then obtain sp es ls where l: "in_leaf v n w sp es ls" "F = filter (in_range r) (es @ entries_of bw ls)" "wleaves w + length ls \<le> length (lvs t)" by blast
  have rb: "wrange w = r" "backward w = bw" using assms by (simp_all add: to_come_def)
  obtain E nx where E: "leaf_page E nx (raw sp)" using l(1) by (auto simp: in_leaf_def)
  have i: "\<not> wdone w" "wleaf w = Some sp" "wat w \<le> cnt (raw sp)" "cells_ahead bw sp (wat w) = map index_cell es" "\<forall>(k, l) \<in> set es. loc_ok l"
    using l(1) rb by (simp_all add: in_leaf_def)
  obtain x at d where x: "leaf_loop sp r bw (wat w) = Inr (x, at, d)" "scanned bw sp r es x at d"
    using leaf_loop_ok [OF leaf_pageD(1,6) [OF E] i(3-5)] by blast
  note sc = leaf_scan [OF l(1,3), unfolded rb, OF x(2)]
  let ?w = "w\<lparr>wat := at, wdone := d\<rparr>"
  have run: "next_in_leaf (s, w) = (Inr x, (s, ?w))" using i(1,2) x(1) rb by (simp add: next_in_leaf_def)
  have u: "x = None" if "used_up w" using used_up_ahead [OF l(1) that] x(2) by (cases x) (auto simp: scanned_def finds_def)
  have e: "entry_at slot (s, ?w) = (Inr (Some e), (s, ?w))" if "live_cell sp slot = Inr (index_cell e)" "e \<in> set es" for slot e
    using that i(2,5) by (cases e) (auto simp: entry_at_def)
  show ?thesis
  proof (cases x)
    case None
    then show ?thesis using run sc l(2) by (auto simp del: fun_upd_apply)
  next
    case (Some slot)
    then obtain e' F' where "F = e' # F'" "to_come v n t r bw ?w F'" "live_cell sp slot = Inr (index_cell e')" "e' \<in> set es"
      using sc l(2) by auto
    then show ?thesis using run Some u e [of slot e'] by auto
  qed
qed

context grow_store begin

lemma step_ok:
  assumes "sound s" "walkable (view s) n t" "to_come (view s) n t r bw w F" "length (lvs t) - wleaves w + 2 \<le> m"
  shows "\<exists>s' w'. step ops m (s, w) = Some (Inr (case F of [] \<Rightarrow> None | e # _ \<Rightarrow> Some e), (s', w')) \<and> same s s'
    \<and> to_come (view s) n t r bw w' (tl F) \<and> wleaves w \<le> wleaves w' \<and> (used_up w \<longrightarrow> F \<noteq> [] \<longrightarrow> wleaves w < wleaves w')"
  using assms
proof (induction m arbitrary: s w)
  case (Suc m)
  obtain q w1 where q: "next_in_leaf (s, w) = (Inr q, (s, w1))" "wleaves w1 = wleaves w" "used_up w \<longrightarrow> q = None"
    and c: "case q of
      None \<Rightarrow> to_come (view s) n t r bw w1 F \<and> (wdone w1 \<or> used_up w1)
    | Some slot \<Rightarrow> \<exists>e F'. F = e # F' \<and> to_come (view s) n t r bw w1 F' \<and> entry_at slot (s, w1) = (Inr (Some e), (s, w1))"
    using next_in_leaf_ok [OF Suc.prems(3), of s] by blast
  show ?case
  proof (cases q)
    case (Some slot)
    then show ?thesis using q c Suc.prems(1) by auto
  next
    case None
    then have t1: "to_come (view s) n t r bw w1 F" "wdone w1 \<or> used_up w1" using c by simp_all
    show ?thesis
    proof (cases "wdone w1")
      case True
      then show ?thesis using q None t1(1) to_come_done [OF t1(1)] Suc.prems(1) by (auto simp: to_come_def)
    next
      case False
      then have "used_up w1" using t1(2) by simp
      then obtain s2 w2 where r: "read_next_leaf ops (s, w1) = (Inr (), (s2, w2))" "same s s2" "moved_on (view s) n t r bw w1 F w2"
        using read_next_ok [OF Suc.prems(1,2) t1(1) _ False] by blast
      have t2: "to_come (view s2) n t r bw w2 F" "walkable (view s2) n t" using r(2,3) Suc.prems(2) by (simp_all add: moved_on_def)
      have m: "length (lvs t) - wleaves w2 + 2 \<le> m \<or> wdone w2"
        using r(3) q(2) Suc.prems(4) t2(1) by (auto simp: moved_on_def to_come_def)
      have run: "step ops (Suc m) (s, w) = step ops m (s2, w2)" using q(1) None False r(1) by (simp add: or_done_Inr [THEN iffD2])
      show ?thesis
      proof (cases "wdone w2")
        case True
        then obtain k where "m = Suc k" using Suc.prems(4) by (cases m) auto
        moreover have "next_in_leaf (s2, w2) = (Inr None, (s2, w2))" using True by (simp add: next_in_leaf_def)
        ultimately show ?thesis using run True to_come_done [OF t2(1)] t2(1) r(2,3) q(2) by (auto simp: moved_on_def)
      next
        case open2: False
        then have "length (lvs t) - wleaves w2 + 2 \<le> m" using m by simp
        from Suc.IH [OF _ t2(2,1) this] r(2) obtain s' w' where
          "step ops m (s2, w2) = Some (Inr (case F of [] \<Rightarrow> None | e # _ \<Rightarrow> Some e), (s', w'))" "same s2 s'"
          "to_come (view s2) n t r bw w' (tl F)" "wleaves w2 \<le> wleaves w'" by auto
        then show ?thesis using run r(2,3) open2 q(2) by (auto simp: moved_on_def)
      qed
    qed
  qed
qed simp

lemma collect_ok:
  assumes "sound s" "walkable (view s) n t" "to_come (view s) n t r bw w F" "length F + length (lvs t) + 3 \<le> m"
  shows "\<exists>s' w'. collect_loop ops m es (s, w) = Some (Inr (es @ F), (s', w')) \<and> same s s'"
  using assms
proof (induction F arbitrary: m es s w)
  case Nil
  then obtain m' where m: "m = Suc m'" by (cases m) auto
  have "length (lvs t) - wleaves w + 2 \<le> m'" using Nil.prems(4) m by simp
  from step_ok [OF Nil.prems(1-3) this] show ?case using m by auto
next
  case (Cons e F)
  then obtain m' where m: "m = Suc m'" by (cases m) auto
  have k: "length (lvs t) - wleaves w + 2 \<le> m'" using Cons.prems(4) m by simp
  obtain s1 w1 where s: "step ops m' (s, w) = Some (Inr (Some e), (s1, w1))" "same s s1" "to_come (view s) n t r bw w1 F"
    using step_ok [OF Cons.prems(1-3) k] by auto
  have "\<exists>s' w'. collect_loop ops m' (es @ [e]) (s1, w1) = Some (Inr ((es @ [e]) @ F), (s', w')) \<and> same s1 s'"
    using Cons.prems(2,4) s(2,3) m by (intro Cons.IH) simp_all
  then show ?case using s(1,2) m by auto
qed

end

subsection \<open>A leaf at a time\<close>

definition slots_live :: "slotted \<Rightarrow> nat list" where
  "slots_live sp = filter (\<lambda>i. cell (raw sp) i \<noteq> None) [0..<cnt (raw sp)]"

lemma live_of_slots: "live_of (cells (raw sp)) = map (\<lambda>i. the (cell (raw sp) i)) (slots_live sp)"
proof -
  have "live_of (map c xs) = map (\<lambda>i. the (c i)) (filter (\<lambda>i. c i \<noteq> None) xs)" for c :: "nat \<Rightarrow> bytes option" and xs
    by (induction xs) (auto simp: live_of_def map_filter_def)
  then show ?thesis by (simp add: slots_live_def cells_def)
qed

lemma first_live_filter:
  assumes "page_inv sp" "\<forall>i \<in> set ns. i < cnt (raw sp)"
  shows "first_live sp ns = Inr (case filter (\<lambda>i. cell (raw sp) i \<noteq> None) ns of [] \<Rightarrow> None | i # _ \<Rightarrow> Some (i, the (cell (raw sp) i)))"
  using assms(2) by (induction ns) (auto simp: get_cell_inv [OF assms(1)])

lemma live_cells_node:
  assumes "page_inv sp" "slot_count sp = cnt (raw sp)"
  shows "live_cells sp = Inr (length (live_of (cells (raw sp))))"
proof -
  have "mapR (read_slot sp) [0..<cnt (raw sp)] = Inr (map (\<lambda>i. (off (raw sp) i, len (raw sp) i)) [0..<cnt (raw sp)])"
    using lay_slot_bound [OF page_inv_lay [OF assms(1)]] by (intro mapR_Inr) simp
  moreover have "filter (\<lambda>(_, l). l \<noteq> 0) (map (\<lambda>i. (off (raw sp) i, len (raw sp) i)) xs)
      = map (\<lambda>i. (off (raw sp) i, len (raw sp) i)) (filter (\<lambda>i. cell (raw sp) i \<noteq> None) xs)" for xs
    by (induction xs) (auto simp: cell_def)
  ultimately show ?thesis using assms(2) by (simp add: live_cells_def live_of_slots slots_live_def)
qed

lemma describe_ok:
  assumes "page_inv sp" "slot_count sp = cnt (raw sp)" "live_of (cells (raw sp)) = map index_cell es" "\<forall>(k, l) \<in> set es. loc_ok l"
  shows "describe sp r = Inr (if es \<noteq> [] \<and> fst (hd es) \<ge> range_start r \<and> \<not> past_end r (fst (last es))
     then Some \<lparr>lowest = fst (hd es), highest = fst (last es), whole_entries = length es\<rparr> else None)"
proof (cases "slots_live sp")
  case Nil
  then have "es = []" using assms(3) live_of_slots [of sp] by simp
  then show ?thesis using first_live_filter [OF assms(1), of "[0..<cnt (raw sp)]"] Nil assms(2) by (simp add: describe_def slots_live_def)
next
  case (Cons i ks)
  have es: "map index_cell es = the (cell (raw sp) i) # map (\<lambda>i. the (cell (raw sp) i)) ks" using assms(3) live_of_slots [of sp] Cons by simp
  then obtain k l es' where e: "es = (k, l) # es'" by (cases es) auto
  obtain us vs where uv: "[0..<cnt (raw sp)] = us @ i # vs" "ks = filter (\<lambda>i. cell (raw sp) i \<noteq> None) vs"
    using Cons unfolding slots_live_def filter_eq_Cons_iff by blast
  have li: "length us < cnt (raw sp)" using arg_cong [OF uv(1), of length] by simp
  have "length us = i" using arg_cong [OF uv(1), of "\<lambda>xs. xs ! length us"] li by simp
  moreover have "vs = drop (Suc (length us)) [0..<cnt (raw sp)]" unfolding uv(1) by simp
  ultimately have vs: "vs = [i + 1..<cnt (raw sp)]" "i < cnt (raw sp)" using li by simp_all
  have low: "first_live sp [0..<slot_count sp] = Inr (Some (i, index_cell (k, l)))"
    using first_live_filter [OF assms(1), of "[0..<cnt (raw sp)]"] Cons es e assms(2) by (simp add: slots_live_def)
  have fr: "filter (\<lambda>i. cell (raw sp) i \<noteq> None) (rev vs) = rev ks" using uv(2) by (simp add: rev_filter)
  have high: "first_live sp (rev [i + 1..<slot_count sp]) = Inr (case rev ks of [] \<Rightarrow> None | j # _ \<Rightarrow> Some (j, the (cell (raw sp) j)))"
    using first_live_filter [OF assms(1), of "rev vs"] vs assms(2) unfolding fr by simp
  have lst: "(case (case rev ks of [] \<Rightarrow> None | j # _ \<Rightarrow> Some (j, the (cell (raw sp) j))) of None \<Rightarrow> index_cell (k, l) | Some (_, d) \<Rightarrow> d) = index_cell (last es)"
  proof (cases "ks" rule: rev_cases)
    case Nil
    then show ?thesis using es e by simp
  next
    case (snoc js j)
    have "last (map index_cell es) = the (cell (raw sp) j)" unfolding es snoc by simp
    moreover have "last (map index_cell es) = index_cell (last es)" using e by (intro last_map) simp
    ultimately show ?thesis using snoc by simp
  qed
  have dec: "decode_index_entry (index_cell (k, l)) = Inr (k, l)" "decode_index_entry (index_cell (last es)) = Inr (last es)"
    using assms(4) e last_in_set [of es] by (auto split: prod.splits)
  have n: "live_cells sp = Inr (length es)" using live_cells_node [OF assms(1,2)] assms(3) by simp
  have past: "(case range_end r of None \<Rightarrow> True | Some e \<Rightarrow> x < e) \<longleftrightarrow> \<not> past_end r x" for x
    by (auto simp: past_end_def not_le split: option.split)
  obtain kl ll where last: "last es = (kl, ll)" by (cases "last es")
  have "describe sp r = bindR (decode_index_entry (index_cell (k, l))) (\<lambda>(lowest, _).
      bindR (decode_index_entry (index_cell (last es))) (\<lambda>(highest, _).
      Inr (if lowest \<ge> range_start r \<and> (case range_end r of None \<Rightarrow> True | Some e \<Rightarrow> highest < e)
           then Some \<lparr>lowest = lowest, highest = highest, whole_entries = length es\<rparr> else None)))"
    unfolding describe_def low bindR_Inr option.case prod.case high n lst [unfolded prod.case] ..
  then show ?thesis using dec e last by (simp add: past)
qed

lemma ordered_between:
  assumes "ordered bw es" "es \<noteq> []" "dir bw es \<noteq> [] \<longrightarrow> fst (hd (dir bw es)) \<ge> range_start r \<and> \<not> past_end r (fst (last (dir bw es)))"
  shows "filter (in_range r) es = es"
proof (rule filter_True, rule ballI)
  fix e assume e: "e \<in> set es"
  let ?es = "dir bw es"
  have srt: "sorted_wrt (<) (map fst ?es)" using assms(1) by (cases bw) (simp_all add: ordered_def dir_def sorted_wrt_rev flip: rev_map)
  have ne: "?es \<noteq> []" and ein: "e \<in> set ?es" using assms(2) e by (simp_all add: dir_def)
  have "fst (hd ?es) \<le> fst e" using srt ein by (cases ?es) (auto intro: less_imp_le)
  moreover have "fst e \<le> fst (last ?es)" using srt ein by (cases ?es rule: rev_cases) (auto simp: sorted_wrt_append intro: less_imp_le)
  ultimately show "in_range r e" using assms(3) ne by (auto simp: in_range_def range_contains_alt past_end_def split: option.splits)
qed

lemma start_ahead:
  assumes "in_leaf v n w sp es ls" "wat w = (if backward w then slot_count sp else 0)"
  shows "page_inv sp \<and> slot_count sp = cnt (raw sp) \<and> live_of (cells (raw sp)) = map index_cell (dir (backward w) es)
    \<and> (\<forall>(k, l) \<in> set (dir (backward w) es). loc_ok l) \<and> ordered (backward w) es"
proof -
  obtain E nx where E: "leaf_page E nx (raw sp)" using assms(1) by (auto simp: in_leaf_def)
  have c: "cells_ahead (backward w) sp (wat w) = map index_cell es" using assms(1) by (simp add: in_leaf_def)
  have "live_of (cells (raw sp)) = map index_cell (dir (backward w) es)"
  proof (cases "backward w")
    case True
    then have "rev (live_of (cells (raw sp))) = map index_cell es" using c assms(2) leaf_pageD(6) [OF E] by (simp add: cells_ahead_def)
    then have "rev (rev (live_of (cells (raw sp)))) = rev (map index_cell es)" by simp
    then show ?thesis using True by (simp add: dir_def rev_map)
  qed (use c assms(2) in \<open>simp add: cells_ahead_def dir_def\<close>)
  moreover have "ordered (backward w) es" using assms(1) ordered_append [of "backward w" es "entries_of (backward w) ls"] by (simp add: in_leaf_def)
  ultimately show ?thesis using leaf_pageD(1,6) [OF E] assms(1) by (simp add: in_leaf_def dir_def)
qed

text \<open>The leaf described is all in range, and passing it leaves what comes after it.\<close>

lemma describe_leaf:
  assumes "in_leaf v n w sp es ls" "wleaves w + length ls \<le> length (lvs t)" "wat w = (if backward w then slot_count sp else 0)"
  shows "\<exists>q. describe sp (wrange w) = Inr q \<and> (case q of None \<Rightarrow> True | Some d \<Rightarrow> es \<noteq> [] \<and> whole_entries d = length es
    \<and> filter (in_range (wrange w)) es = es \<and> wleaves (pass_leaf w) = wleaves w
    \<and> to_come v n t (wrange w) (backward w) (pass_leaf w) (filter (in_range (wrange w)) (entries_of (backward w) ls)))"
proof -
  note st = start_ahead [OF assms(1,3)]
  let ?es = "dir (backward w) es"
  let ?q = "if ?es \<noteq> [] \<and> fst (hd ?es) \<ge> range_start (wrange w) \<and> \<not> past_end (wrange w) (fst (last ?es))
     then Some \<lparr>lowest = fst (hd ?es), highest = fst (last ?es), whole_entries = length ?es\<rparr> else None"
  have d: "describe sp (wrange w) = Inr ?q" using st by (intro describe_ok) simp_all
  have wl: "wleaf w = Some sp" using assms(1) by (simp add: in_leaf_def)
  let ?at = "if backward w then 0 else slot_count sp"
  have at: "?at \<le> cnt (raw sp)" "cells_ahead (backward w) sp ?at = map index_cell []" using st by (simp_all add: cells_ahead_end)
  have "\<not> wdone w" using assms(1) by (simp add: in_leaf_def)
  then have p: "pass_leaf w = w\<lparr>wat := ?at, wdone := False\<rparr>" using wl by (simp add: pass_leaf_def)
  have il: "in_leaf v n (pass_leaf w) sp [] ls" unfolding p by (rule in_leaf_moves [OF assms(1) _ at]) simp
  have tc: "to_come v n t (wrange w) (backward w) (pass_leaf w) (filter (in_range (wrange w)) (entries_of (backward w) ls))"
    using to_come_leaf [OF il, of t] assms(2) p by simp
  have "filter (in_range (wrange w)) es = es \<and> es \<noteq> [] \<and> length ?es = length es" if "?q \<noteq> None"
    using that st ordered_between [of "backward w" es "wrange w"] by (auto simp: dir_def split: if_splits)
  then show ?thesis using d tc p by (cases "?q") (auto split: if_splits)
qed

lemma at_start_leaf:
  assumes "to_come v n t r bw w F" "\<not> wdone w" "wleaf w \<noteq> None"
  shows "\<exists>sp es ls. wleaf w = Some sp \<and> in_leaf v n w sp es ls \<and> F = filter (in_range r) (es @ entries_of bw ls) \<and> wleaves w + length ls \<le> length (lvs t)"
proof -
  have "\<not> (w = walk_new (pid t) r bw \<and> F = filter (in_range r) (dir bw (ents t)))" using new_walk_open [of w "pid t" r bw] assms(3) by blast
  then obtain sp es ls where l: "in_leaf v n w sp es ls" "F = filter (in_range r) (es @ entries_of bw ls)" "wleaves w + length ls \<le> length (lvs t)"
    using assms(1,2) unfolding to_come_def by blast
  then show ?thesis by (auto simp: in_leaf_def)
qed

text \<open>What a count comes to: all of \<open>F\<close>, or fewer with more leaves entered than allowed.\<close>

definition counts :: "nat \<Rightarrow> nat \<Rightarrow> (bytes \<times> location) list \<Rightarrow> tree \<Rightarrow> counted \<Rightarrow> bool" where
  "counts cap c F t q \<longleftrightarrow> counted_leaves q \<le> length (lvs t) \<and> (if counted_whole q then counted_entries q = c + length F
     else c \<le> counted_entries q \<and> counted_entries q < c + length F \<and> cap < counted_leaves q)"

lemma counts_more: "counts cap (c + length E) F t q \<Longrightarrow> counts cap c (E @ F) t q"
  by (auto simp: counts_def split: if_splits)

context grow_store begin

lemma whole_leaf_ok:
  assumes "sound s" "walkable (view s) n t" "to_come (view s) n t r bw w F"
  shows "\<exists>q s' w'. whole_leaf ops (s, w) = (Inr q, (s', w')) \<and> same s s' \<and> to_come (view s) n t r bw w' F \<and> wleaves w \<le> wleaves w'
    \<and> (case q of None \<Rightarrow> True | Some d \<Rightarrow> \<exists>E F'. F = E @ F' \<and> E \<noteq> [] \<and> whole_entries d = length E
        \<and> to_come (view s) n t r bw (pass_leaf w') F' \<and> wleaves (pass_leaf w') = wleaves w')"
proof (cases "wdone w")
  case True
  then show ?thesis using assms by (simp add: whole_leaf_def)
next
  case False
  obtain s1 w1 where r: "(if used_up w then or_done (read_next_leaf ops) else retA ()) (s, w) = (Inr (), (s1, w1))" "same s s1"
    "to_come (view s) n t r bw w1 F" "wleaves w \<le> wleaves w1"
  proof (cases "used_up w")
    case True
    then show thesis using read_next_ok [OF assms True False] that by (fastforce simp: moved_on_def or_done_Inr)
  qed (use assms(1,3) that in simp)
  have run: "whole_leaf ops (s, w) = (if wdone w1 then retA None
       else (case wleaf w1 of None \<Rightarrow> retA None
        | Some sp \<Rightarrow> if wat w1 \<noteq> (if backward w1 then slot_count sp else 0) then retA None
            else liftA (describe sp (wrange w1)))) (s1, w1)"
    using False r(1) by (cases "wdone w1"; cases "wleaf w1") (simp_all add: whole_leaf_def bindA_def)
  show ?thesis
  proof (cases "wdone w1 \<or> wleaf w1 = None")
    case True
    then show ?thesis using run r(2-4) by (cases "wdone w1") auto
  next
    case open1: False
    then obtain sp es ls where l: "wleaf w1 = Some sp" "in_leaf (view s) n w1 sp es ls" "F = filter (in_range r) (es @ entries_of bw ls)"
      "wleaves w1 + length ls \<le> length (lvs t)"
      using at_start_leaf [OF r(3)] by blast
    show ?thesis
    proof (cases "wat w1 = (if backward w1 then slot_count sp else 0)")
      case False
      then show ?thesis using run r(2-4) open1 l(1) by auto
    next
      case True
      have rb: "wrange w1 = r" "backward w1 = bw" using to_come_range [OF r(3)] by simp_all
      obtain q where q: "describe sp r = Inr q" "case q of None \<Rightarrow> True | Some d \<Rightarrow> es \<noteq> [] \<and> whole_entries d = length es
        \<and> filter (in_range r) es = es \<and> wleaves (pass_leaf w1) = wleaves w1
        \<and> to_come (view s) n t r bw (pass_leaf w1) (filter (in_range r) (entries_of bw ls))"
        using describe_leaf [OF l(2,4) True] rb by auto
      have "whole_leaf ops (s, w) = (Inr q, (s1, w1))" using run open1 l(1) True q(1) rb by simp
      moreover have "case q of None \<Rightarrow> True | Some d \<Rightarrow> \<exists>E F'. F = E @ F' \<and> E \<noteq> [] \<and> whole_entries d = length E
        \<and> to_come (view s) n t r bw (pass_leaf w1) F' \<and> wleaves (pass_leaf w1) = wleaves w1"
      proof (cases q)
        case (Some d)
        then have "F = es @ filter (in_range r) (entries_of bw ls)" using q(2) l(3) by simp
        then show ?thesis using Some q(2) by auto
      qed simp
      ultimately show ?thesis using r(2-4) by blast
    qed
  qed
qed

lemma count_ok:
  assumes "sound s" "walkable (view s) n t" "to_come (view s) n t r False w F" "length F + length (lvs t) + 3 \<le> m"
  shows "\<exists>q s' w'. count_loop ops cap m c (s, w) = Some (Inr q, (s', w')) \<and> same s s' \<and> counts cap c F t q"
  using assms
proof (induction m arbitrary: s w F c)
  case (Suc m)
  have m: "length (lvs t) - x + 2 \<le> m" for x using Suc.prems(4) by simp
  note stop = step_ok [OF Suc.prems(1-3) m]
  show ?case
  proof (cases "cap \<le> wleaves w \<and> used_up w")
    case True
    obtain s' w' where st: "step ops m (s, w) = Some (Inr (case F of [] \<Rightarrow> None | e # _ \<Rightarrow> Some e), (s', w'))" "same s s'"
      "to_come (view s) n t r False w' (tl F)" "F \<noteq> [] \<longrightarrow> wleaves w < wleaves w'"
      using stop True by blast
    have "wleaves w' \<le> length (lvs t)" using st(3) by (simp add: to_come_def)
    then show ?thesis using st True by (cases F) (auto simp: counts_def)
  next
    case False
    note turn = count_turn [OF False, of ops m c s]
    obtain q s1 w1 where q: "whole_leaf ops (s, w) = (Inr q, (s1, w1))" "same s s1" "to_come (view s) n t r False w1 F"
      and qq: "case q of None \<Rightarrow> True | Some d \<Rightarrow> \<exists>E F'. F = E @ F' \<and> E \<noteq> [] \<and> whole_entries d = length E
        \<and> to_come (view s) n t r False (pass_leaf w1) F' \<and> wleaves (pass_leaf w1) = wleaves w1"
      using whole_leaf_ok [OF Suc.prems(1-3)] by blast
    show ?thesis
    proof (cases q)
      case (Some d)
      then obtain E F' where e: "F = E @ F'" "E \<noteq> []" "whole_entries d = length E" "to_come (view s1) n t r False (pass_leaf w1) F'"
        using qq q(2) by auto
      have "\<exists>q s' w'. count_loop ops cap m (c + length E) (s1, pass_leaf w1) = Some (Inr q, (s', w')) \<and> same s1 s' \<and> counts cap (c + length E) F' t q"
        using q(2) Suc.prems(2,4) e by (intro Suc.IH) (auto simp: Suc_le_eq neq_Nil_conv)
      then obtain q' s' w' where c: "count_loop ops cap m (c + length E) (s1, pass_leaf w1) = Some (Inr q', (s', w'))" "same s1 s'" "counts cap c F t q'"
        using counts_more e(1) by blast
      have "count_loop ops cap (Suc m) c (s, w) = Some (Inr q', (s', w'))" using turn q(1) Some e(3) c(1) by simp
      then show ?thesis using c(2,3) q(2) by auto
    next
      case None
      have on: "sound s1" "walkable (view s1) n t" "to_come (view s1) n t r False w1 F" using q(2,3) Suc.prems(2) by simp_all
      obtain s2 w2 where st: "step ops m (s1, w1) = Some (Inr (case F of [] \<Rightarrow> None | e # _ \<Rightarrow> Some e), (s2, w2))" "same s1 s2"
        "to_come (view s1) n t r False w2 (tl F)"
        using step_ok [OF on m] by blast
      show ?thesis
      proof (cases F)
        case Nil
        have "wleaves w2 \<le> length (lvs t)" using st(3) by (simp add: to_come_def)
        then show ?thesis using turn q(1,2) None st(1,2) Nil by (auto simp: counts_def)
      next
        case (Cons e F')
        have "\<exists>q s' w'. count_loop ops cap m (c + 1) (s2, w2) = Some (Inr q, (s', w')) \<and> same s2 s' \<and> counts cap (c + 1) F' t q"
          using q(2) st(2,3) Suc.prems(2,4) Cons by (intro Suc.IH) auto
        then obtain q' s' w' where c: "count_loop ops cap m (c + 1) (s2, w2) = Some (Inr q', (s', w'))" "same s2 s'" "counts cap c F t q'"
          using counts_more [where c = c and E = "[e]" and F = F'] Cons by auto
        have "count_loop ops cap (Suc m) c (s, w) = Some (Inr q', (s', w'))" using turn q(1) None st(1) Cons c(1) by simp
        then show ?thesis using c(2,3) q(2) st(2) by auto
      qed
    qed
  qed
qed simp

end

subsection \<open>Properties\<close>

lemma length_lvs: "distinct (ids t) \<Longrightarrow> length (lvs t) \<le> card (set (ids t))"
proof -
  assume d: "distinct (ids t)"
  have "length (lvs t) = card (set (map leaf_id (lvs t)))" using distinct_card [OF lvs_distinct [OF d]] by simp
  also have "\<dots> \<le> card (set (ids t))" by (rule card_mono [OF _ lvs_ids]) simp
  finally show ?thesis .
qed

lemma index_walkable:
  assumes "index_at v root P es"
  shows "\<exists>t n. walkable v n t \<and> pid t = root \<and> ents t = es \<and> length (lvs t) \<le> card P"
  using assms length_lvs unfolding index_at_def walkable_def by blast

lemma filter_dir: "filter P (dir bw xs) = dir bw (filter P xs)"
  by (simp add: dir_def rev_filter)

context grow_store begin

lemma bt_walk_ok:
  assumes "sound s" "index_at (view s) root P es" "length es + card P + 3 \<le> m"
  shows "\<exists>s' w. bt_walk ops root r bw m s = Some (Inr (dir bw (filter (in_range r) es)), (s', w)) \<and> same s s'"
proof -
  obtain t n where t: "walkable (view s) n t" "pid t = root" "ents t = es" "length (lvs t) \<le> card P" using index_walkable [OF assms(2)] by blast
  have c: "to_come (view s) n t r bw (walk_new (pid t) r bw) (dir bw (filter (in_range r) es))"
    using to_come_new [of "view s" n t r bw] t(3) by (simp add: filter_dir)
  have "length (dir bw (filter (in_range r) es)) \<le> length es" by (simp add: dir_def)
  then have "length (dir bw (filter (in_range r) es)) + length (lvs t) + 3 \<le> m" using t(4) assms(3) by linarith
  from collect_ok [OF assms(1) t(1) c this, of "[]"] show ?thesis using t(2) by (auto simp: bt_walk_def)
qed

lemma count_at_most_ok:
  assumes "sound s" "index_at (view s) root P es" "length es + card P + 3 \<le> m"
  shows "\<exists>q s' w. count_at_most ops root r cap m s = Some (Inr q, (s', w)) \<and> same s s' \<and> counted_leaves q \<le> card P
    \<and> (if counted_whole q then counted_entries q = length (filter (in_range r) es)
       else counted_entries q < length (filter (in_range r) es) \<and> cap < counted_leaves q)"
proof -
  obtain t n where t: "walkable (view s) n t" "pid t = root" "ents t = es" "length (lvs t) \<le> card P" using index_walkable [OF assms(2)] by blast
  have c: "to_come (view s) n t r False (walk_new (pid t) r False) (filter (in_range r) es)"
    using to_come_new [of "view s" n t r False] t(3) by (simp add: filter_dir dir_def)
  have "length (filter (in_range r) es) \<le> length es" by simp
  then have "length (filter (in_range r) es) + length (lvs t) + 3 \<le> m" using t(4) assms(3) by linarith
  from count_ok [OF assms(1) t(1) c this, of cap 0] show ?thesis using t(2,4)
    by (auto simp: count_at_most_def counts_def split: if_splits intro: le_trans)
qed

lemma bt_count_ok:
  assumes "sound s" "index_at (view s) root P es" "length es + card P + 3 \<le> m"
  shows "\<exists>s' w. bt_count ops root r m s = Some (Inr (length (filter (in_range r) es)), (s', w)) \<and> same s s'"
proof -
  obtain q s' w where q: "count_at_most ops root r (2 ^ 64 - 1) m s = Some (Inr q, (s', w))" "same s s'" "counted_leaves q \<le> card P"
    "if counted_whole q then counted_entries q = length (filter (in_range r) es)
       else counted_entries q < length (filter (in_range r) es) \<and> 2 ^ 64 - 1 < counted_leaves q"
    using count_at_most_ok [OF assms] by blast
  have "P \<subseteq> {0<..<2 ^ 64}"
  proof
    fix i assume "i \<in> P"
    then obtain b where "view s i = Some b" using assms(2) repr_some by (fastforce simp: index_at_def good_def)
    then show "i \<in> {0<..<2 ^ 64}" using view_page [OF assms(1)] by auto
  qed
  then have "card P \<le> card {0<..<2 ^ 64 :: nat}" by (intro card_mono) simp_all
  then have "counted_leaves q \<le> 2 ^ 64 - 1" using q(3) by simp
  then show ?thesis using q(1,2,4) by (auto simp: bt_count_def split: if_splits)
qed

end

text \<open>\<open>InMemoryIndex::range\<close>, and \<open>scan\<close> of both.\<close>

definition mem_range :: "key_range \<Rightarrow> ((bytes \<times> location) list, (bytes \<times> location) list) act" where
  "mem_range r m = (Inr (takeWhile (\<lambda>e. range_contains r (fst e)) (dropWhile (\<lambda>e. fst e < range_start r) m)), m)"

definition bt_scan :: "'s store_ops \<Rightarrow> nat \<Rightarrow> nat \<Rightarrow> 's \<Rightarrow> ((bytes \<times> location) list res \<times> 's \<times> walk) option" where
  "bt_scan ops root = bt_range ops root \<lparr>range_start = [], range_end = None\<rparr>"

lemma mem_range_filter:
  assumes "sorted_wrt (<) (map fst es)"
  shows "takeWhile (\<lambda>e. range_contains r (fst e)) (dropWhile (\<lambda>e. fst e < range_start r) es) = filter (in_range r) es"
  using assms
proof (induction es)
  case (Cons e es)
  have o: "ordered False (e # es)" using Cons.prems by (simp add: ordered_def)
  show ?case
  proof (cases "fst e < range_start r")
    case True
    then show ?thesis using Cons by (simp add: in_range_def range_contains_alt)
  next
    case False
    have all: "dropWhile (\<lambda>e. fst e < range_start r) es = es"
      using False Cons.prems by (cases es) (auto dest: less_trans)
    show ?thesis
    proof (cases "past_end r (fst e)")
      case True
      then have "filter (in_range r) (e # es) = []" by (intro nothing_after [OF o]) (simp add: over_def)
      then show ?thesis using False True by (simp add: range_contains_alt)
    next
      case inside: False
      then show ?thesis using Cons all False by (simp add: in_range_def range_contains_alt)
    qed
  qed
qed simp

text \<open>
  C39. On the file store a walk over a range of keys hands out the entries whose keys are in it, in
  ascending order, as the in-memory index does, or descending when it goes backward; a scan hands
  out every entry; a count is their number, and one that
  stops at a number of leaves says truly whether it is all of them.
\<close>

theorem range_and_count:
  assumes "fs_sound fs" "index_at (fs_view fs) root P es" "length es + card P + 3 \<le> n"
  shows "let inside = filter (\<lambda>e. range_contains r (fst e)) es in
      (\<exists>fs' w. bt_range (file_store hw) root r n fs = Some (Inr inside, fs', w) \<and> fs_view fs' = fs_view fs)
    \<and> mem_range r es = (Inr inside, es)
    \<and> (\<exists>fs' w. bt_scan (file_store hw) root n fs = Some (Inr es, fs', w) \<and> fs_view fs' = fs_view fs)
    \<and> (\<exists>fs' w. bt_walk (file_store hw) root r True n fs = Some (Inr (rev inside), fs', w) \<and> fs_view fs' = fs_view fs)
    \<and> (\<exists>fs' w. bt_count (file_store hw) root r n fs = Some (Inr (length inside), fs', w) \<and> fs_view fs' = fs_view fs)
    \<and> (\<exists>q fs' w. count_at_most (file_store hw) root r cap n fs = Some (Inr q, fs', w)
        \<and> (if counted_whole q then counted_entries q = length inside else counted_entries q < length inside \<and> cap < counted_leaves q))"
proof -
  have i: "filter (\<lambda>e. range_contains r (fst e)) es = filter (in_range r) es" by (simp add: in_range_def [abs_def])
  have f: "dir False xs = xs" "dir True xs = rev xs" for xs :: "(bytes \<times> location) list" by (simp_all add: dir_def)
  have w: "\<exists>fs' w. bt_walk (file_store hw) root r bw n fs = Some (Inr (dir bw (filter (in_range r) es)), fs', w) \<and> fs_view fs' = fs_view fs" for bw r
    using file_pages.bt_walk_ok [OF assms, of hw r bw] by blast
  have m: "mem_range r es = (Inr (filter (in_range r) es), es)"
    using mem_range_filter [OF index_at_sorted [OF assms(2)]] by (simp add: mem_range_def)
  have a: "filter (in_range \<lparr>range_start = [], range_end = None\<rparr>) es = es"
    by (simp add: in_range_def range_contains_def)
  have s: "\<exists>fs' w. bt_scan (file_store hw) root n fs = Some (Inr es, fs', w) \<and> fs_view fs' = fs_view fs"
    using w [where bw = False and r = "\<lparr>range_start = [], range_end = None\<rparr>"] unfolding f a bt_scan_def bt_range_def .
  show ?thesis unfolding i Let_def bt_range_def
    using m s w [where bw = False and r = r] w [where bw = True and r = r] file_pages.bt_count_ok [OF assms, of hw r] file_pages.count_at_most_ok [OF assms, of hw r cap]
    unfolding f by blast
qed

text \<open>A store with an index of two entries.\<close>

lemma two_entries:
  "\<exists>fs root P. fs_sound fs \<and> index_at (fs_view fs) root P [([0], \<lparr>loc_page = 4, loc_slot = 1\<rparr>), ([1], \<lparr>loc_page = 3, loc_slot = 0\<rparr>)]"
proof -
  let ?a = "\<lparr>loc_page = 3, loc_slot = 0\<rparr>" and ?b = "\<lparr>loc_page = 4, loc_slot = 1\<rparr>"
  obtain fs root P where f: "fs_sound fs" "index_at (fs_view fs) root P []" "1000 \<le> fs_room fs" using begun_indexes by blast
  have room: "MAX_DEPTH < fs_room fs" using f(3) by (simp add: MAX_DEPTH_def)
  have k: "length [x :: byte] \<le> MAX_KEY_LEN" "loc_ok ?a" "loc_ok ?b" for x by (simp_all add: MAX_KEY_LEN_def loc_ok_def)
  have n: "[1 :: byte] \<notin> fst ` set []" "[0 :: byte] \<notin> fst ` set [([1], ?a)]" by simp_all
  have e: "ins [1 :: byte] ?a [] = [([1], ?a)]" "ins [0 :: byte] ?b [([1], ?a)] = [([0], ?b), ([1], ?a)]" by (simp_all add: ins_def)
  obtain fs1 P1 where a: "fs_sound fs1" "index_at (fs_view fs1) root P1 [([1], ?a)]" "fs_room fs \<le> fs_room fs1 + MAX_DEPTH + 1"
    using file_pages.bt_insert_ok [OF f(1,2) n(1) room k(1,2)] unfolding e by blast
  have "MAX_DEPTH < fs_room fs1" using a(3) f(3) by (simp add: MAX_DEPTH_def)
  then obtain fs2 P2 where "fs_sound fs2" "index_at (fs_view fs2) root P2 [([0], ?b), ([1], ?a)]"
    using file_pages.bt_insert_ok [OF a(1,2) n(2) _ k(1,3)] unfolding e by blast
  then show ?thesis by blast
qed

theorem range_and_count_witness:
  "\<exists>fs root n fs' w. bt_range (file_store True) root \<lparr>range_start = [1], range_end = Some [2]\<rparr> n fs
    = Some (Inr [([1], \<lparr>loc_page = 3, loc_slot = 0\<rparr>)], fs', w)"
proof -
  let ?es = "[([0], \<lparr>loc_page = 4, loc_slot = 1\<rparr>), ([1 :: byte], \<lparr>loc_page = 3, loc_slot = 0\<rparr>)]"
  let ?r = "\<lparr>range_start = [1], range_end = Some [2]\<rparr>"
  obtain fs root P where f: "fs_sound fs" "index_at (fs_view fs) root P ?es" using two_entries by blast
  have "filter (\<lambda>e. range_contains ?r (fst e)) ?es = [([1], \<lparr>loc_page = 3, loc_slot = 0\<rparr>)]" by (simp add: range_contains_def)
  with range_and_count [OF f order_refl, of ?r True 0] show ?thesis unfolding Let_def by metis
qed

text \<open>
  C40. Reading an index ends on every store, however its pages are damaged and whatever its operations
  answer: the forward walk and the counts follow no leaf link twice, and the listing of pages
  visits none twice. The turns given are enough for page numbers of 64 bits.
\<close>

theorem reading_ends:
  "bt_range ops root r (ENOUGH + k) s \<noteq> None \<and> count_at_most ops root r cap (ENOUGH + k) s \<noteq> None
    \<and> bt_count ops root r (ENOUGH + k) s \<noteq> None \<and> bt_pages ops root (2 ^ 64 + 2 + k) s \<noteq> None"
proof -
  have m: "slots_ahead (walk_new root r False) + 3 \<le> ENOUGH + k" using new_walk_forward(2) [of root r] by simp
  have c: "count_at_most ops root r x (ENOUGH + k) s \<noteq> None" for x
    unfolding count_at_most_def by (rule count_ends [OF new_walk_forward(1) m])
  show ?thesis
  proof (intro conjI)
    show "bt_range ops root r (ENOUGH + k) s \<noteq> None"
      unfolding bt_range_def bt_walk_def by (rule collect_ends [OF new_walk_forward(1) m])
    show "bt_count ops root r (ENOUGH + k) s \<noteq> None" unfolding bt_count_def using c [of "2 ^ 64 - 1"] by simp
  qed (rule c pages_ends)+
qed

end
