(* ===== verification/Freespace.thy ===== *)
theory Freespace
  imports Prelude "HOL-Library.Product_Lexorder"
begin

text \<open>
  Data pages with room left (\<open>src/src/free_space.rs\<close>). \<open>by_free\<close> is the \<open>BTreeSet\<close>, its elements in
  their order; \<open>free_of\<close> the \<open>HashMap\<close>. The two halves say the same (\<open>free_ok\<close>), which is what
  makes the first element from \<open>(needed, 0)\<close> on the page that fits most tightly.
\<close>

record room_map =
  by_free :: "(nat \<times> nat) list"
  free_of :: "nat \<rightharpoonup> nat"

definition no_free_space :: room_map where
  "no_free_space = \<lparr>by_free = [], free_of = Map.empty\<rparr>"

definition free_set :: "nat \<Rightarrow> nat \<Rightarrow> room_map \<Rightarrow> room_map" where
  "free_set page room fm =
     (let old = free_of fm page;
          fm = fm\<lparr>free_of := (free_of fm)(page \<mapsto> room)\<rparr>;
          fm = (case old of Some old \<Rightarrow> fm\<lparr>by_free := remove1 (old, page) (by_free fm)\<rparr> | None \<Rightarrow> fm)
      in fm\<lparr>by_free := insort_insert (room, page) (by_free fm)\<rparr>)"

definition free_remove :: "nat \<Rightarrow> room_map \<Rightarrow> room_map" where
  "free_remove page fm =
     (case free_of fm page of
        Some old \<Rightarrow> \<lparr>by_free = remove1 (old, page) (by_free fm), free_of = (free_of fm)(page := None)\<rparr>
      | None \<Rightarrow> fm)"

definition free_contains :: "nat \<Rightarrow> room_map \<Rightarrow> bool" where
  "free_contains page fm \<longleftrightarrow> free_of fm page \<noteq> None"

definition free_find :: "nat \<Rightarrow> room_map \<Rightarrow> nat option" where
  "free_find needed fm = map_option snd (find (\<lambda>e. (needed, 0) \<le> e) (by_free fm))"

subsection \<open>The two halves agree\<close>

definition free_ok :: "room_map \<Rightarrow> bool" where
  "free_ok fm \<longleftrightarrow> sorted (by_free fm) \<and> distinct (by_free fm)
     \<and> (\<forall>room page. (room, page) \<in> set (by_free fm) \<longleftrightarrow> free_of fm page = Some room)"

lemma free_okI:
  "sorted (by_free fm) \<Longrightarrow> distinct (by_free fm)
    \<Longrightarrow> (\<And>room page. (room, page) \<in> set (by_free fm) \<longleftrightarrow> free_of fm page = Some room) \<Longrightarrow> free_ok fm"
  by (simp add: free_ok_def)

lemma no_free_space_ok [simp]: "free_ok no_free_space" "free_of no_free_space = Map.empty"
  by (simp_all add: free_ok_def no_free_space_def)

lemma free_remove_ok [simp]: "free_ok fm \<Longrightarrow> free_ok (free_remove page fm)"
  by (auto simp: free_ok_def free_remove_def sorted_remove1 split: option.splits)

lemma free_remove_of [simp]: "free_of (free_remove page fm) = (free_of fm)(page := None)"
  by (auto simp: free_remove_def split: option.splits)

lemma free_set_of [simp]: "free_of (free_set page room fm) = (free_of fm)(page \<mapsto> room)"
  by (simp add: free_set_def Let_def split: option.splits)

lemma free_set_entries: "by_free (free_set page room fm) = insort_insert (room, page) (by_free (free_remove page fm))"
  by (simp add: free_set_def free_remove_def Let_def split: option.splits)

lemma free_set_ok [simp]: "free_ok fm \<Longrightarrow> free_ok (free_set page room fm)"
proof (rule free_okI)
  assume "free_ok fm"
  then have r: "free_ok (free_remove page fm)" by simp
  then show "sorted (by_free (free_set page room fm))" "distinct (by_free (free_set page room fm))"
    by (simp_all add: free_set_entries free_ok_def sorted_insort_insert distinct_insort_insert)
  show "(rm, p) \<in> set (by_free (free_set page room fm)) \<longleftrightarrow> free_of (free_set page room fm) p = Some rm" for rm p
    using r by (auto simp: free_set_entries free_ok_def set_insort_insert)
qed

lemma find_sorted: "sorted xs \<Longrightarrow> find P xs = Some x \<Longrightarrow> P y \<Longrightarrow> y \<in> set xs \<Longrightarrow> x \<le> y"
  by (induction xs) (auto split: if_splits)

lemma find_satisfies: "find P xs = Some x \<Longrightarrow> P x \<and> x \<in> set xs"
  by (induction xs) (auto split: if_splits)

lemma free_find_Some:
  assumes "free_ok fm" "free_find needed fm = Some page"
  shows "\<exists>room. free_of fm page = Some room \<and> needed \<le> room
    \<and> (\<forall>p r. free_of fm p = Some r \<longrightarrow> needed \<le> r \<longrightarrow> (room, page) \<le> (r, p))"
proof -
  obtain room where f: "find (\<lambda>e. (needed, 0) \<le> e) (by_free fm) = Some (room, page)"
    using assms(2) by (auto simp: free_find_def)
  have "(needed, 0) \<le> (room, page)" "(room, page) \<in> set (by_free fm)" using find_satisfies [OF f] by auto
  moreover have "(room, page) \<le> (r, p)" if "free_of fm p = Some r" "needed \<le> r" for r p
    by (rule find_sorted [OF _ f]) (use assms(1) that in \<open>auto simp: free_ok_def\<close>)
  ultimately show ?thesis using assms(1) by (auto simp: free_ok_def less_eq_prod_def)
qed

lemma free_find_None:
  assumes "free_ok fm" "free_find needed fm = None" "free_of fm page = Some room"
  shows "room < needed"
proof -
  have "(room, page) \<in> set (by_free fm)" using assms(1,3) by (simp add: free_ok_def)
  then have "\<not> (needed, 0) \<le> (room, page)" using assms(2) by (auto simp: free_find_def find_None_iff)
  then show ?thesis by auto
qed

end
