(* ===== verification/Records.thy ===== *)
theory Records
  imports Freespace Treepages Document
begin

text \<open>
  A collection's documents in its data pages (\<open>src/src/data.rs\<close>): the cell format, insertion into
  the current page, the fullest page with room or a new page, replacing and deleting a document,
  the overflow chains of documents too large for a page, and the reader that keeps the last page
  it read.

  The functions of the source take the store, the collection's current data page and its
  free-space map as \<open>&mut\<close>; here the three are one state, a \<open>heap\<close>, so that what a call changed
  before it failed stays changed. Which documents the data pages hold, in which overflow pages, and
  what is true of the free-space map is said in \<open>Heap\<close> (cells) and \<open>Docheap\<close> (documents).
\<close>

subsection \<open>Cells\<close>

definition INLINE :: byte where "INLINE = 0"
definition OVERFLOW :: byte where "OVERFLOW = 1"
definition CELL_HEADER_LEN :: nat where "CELL_HEADER_LEN = 1 + 16"
definition OVERFLOW_CELL_LEN :: nat where "OVERFLOW_CELL_LEN = CELL_HEADER_LEN + 4 + 8"
definition MIN_ROOM :: nat where "MIN_ROOM = USABLE_PAGE_SIZE div 4"
definition MIN_ROOM_TO_STAY :: nat where "MIN_ROOM_TO_STAY = 256"
definition OVERFLOW_HEADER_LEN :: nat where "OVERFLOW_HEADER_LEN = 9"
definition OVERFLOW_CAPACITY :: nat where "OVERFLOW_CAPACITY = USABLE_PAGE_SIZE - OVERFLOW_HEADER_LEN"

datatype data_cell = Inline docid bytes | Overflow docid nat nat

definition parse_cell :: "bytes \<Rightarrow> data_cell res" where
  "parse_cell bytes =
     bindR (take_u8 bytes) (\<lambda>(flags, rest).
     bindR (take_array 16 rest) (\<lambda>(i, rest).
       if flags = INLINE then Inr (Inline i rest)
       else if flags = OVERFLOW then
         bindR (take_u32 rest) (\<lambda>(amount, rest).
         bindR (take_u64 rest) (\<lambda>(first, rest). Inr (Overflow i amount first)))
       else corrupt))"

definition cell_chain :: "data_cell \<Rightarrow> (nat \<times> nat) option" where
  "cell_chain c = (case c of Inline _ _ \<Rightarrow> None | Overflow _ amount first \<Rightarrow> Some (amount, first))"

subsection \<open>Data pages\<close>

definition read_data_page :: "'s store_ops \<Rightarrow> nat \<Rightarrow> ('s, slotted) act" where
  "read_data_page ops page_id =
     bindA (read_page ops page_id) (\<lambda>p.
     bindA (liftA (from_bytes p)) (\<lambda>sp.
     bindA (liftA (node_type sp)) (\<lambda>t.
       if t \<noteq> PData then failA (Io InvalidData) else retA sp)))"

definition live_record :: "slotted \<Rightarrow> location \<Rightarrow> bytes res" where
  "live_record sp loc = bindR (get_cell sp (loc_slot loc)) (\<lambda>c. case c of Some d \<Rightarrow> Inr d | None \<Rightarrow> corrupt)"

definition decode_record :: "im_ops \<Rightarrow> bytes \<Rightarrow> document res" where
  "decode_record im encoded = bindR (decode_document im encoded) (\<lambda>(doc, _). Inr doc)"

definition note_room :: "room_map \<Rightarrow> nat \<Rightarrow> nat \<Rightarrow> slotted \<Rightarrow> room_map res" where
  "note_room fm cur page_id sp =
     bindR (reclaimable_space sp) (\<lambda>room.
       let enough = (if free_contains page_id fm then MIN_ROOM_TO_STAY else MIN_ROOM)
       in Inr (if page_id \<noteq> cur \<and> room \<ge> enough then free_set page_id (room mod 65536) fm
          else free_remove page_id fm))"

subsection \<open>Overflow chains\<close>

text \<open>\<open>chunks(OVERFLOW_CAPACITY)\<close>.\<close>

function overflow_chunks :: "bytes \<Rightarrow> bytes list" where
  "overflow_chunks bs = (if bs = [] then [] else take OVERFLOW_CAPACITY bs # overflow_chunks (drop OVERFLOW_CAPACITY bs))"
  by pat_completeness auto
termination by (relation "measure length") (auto simp: OVERFLOW_CAPACITY_def OVERFLOW_HEADER_LEN_def page_consts)

declare overflow_chunks.simps [simp del]

fun allocate_each :: "'s store_ops \<Rightarrow> bytes list \<Rightarrow> ('s, nat list) act" where
  "allocate_each ops [] = retA []"
| "allocate_each ops (c # cs) =
     bindA (allocate_page ops) (\<lambda>i. bindA (allocate_each ops cs) (\<lambda>ps. retA (i # ps)))"

definition overflow_page :: "nat \<Rightarrow> bytes \<Rightarrow> bytes" where
  "overflow_page nxt chunk =
     put (put (put (replicate USABLE_PAGE_SIZE 0) 0 [type_byte POverflow]) 1 (le_bytes 8 nxt)) OVERFLOW_HEADER_LEN chunk"

fun write_links :: "'s store_ops \<Rightarrow> bytes list \<Rightarrow> nat list \<Rightarrow> ('s, unit) act" where
  "write_links ops (c # cs) (i # ps) =
     bindA (write_page ops i (page_from (overflow_page (case ps of [] \<Rightarrow> 0 | j # _ \<Rightarrow> j) c))) (\<lambda>_. write_links ops cs ps)"
| "write_links ops _ _ = retA ()"

definition write_chain :: "'s store_ops \<Rightarrow> bytes \<Rightarrow> ('s, nat) act" where
  "write_chain ops bs =
     bindA (allocate_each ops (overflow_chunks bs)) (\<lambda>ps.
     bindA (write_links ops (overflow_chunks bs) ps) (\<lambda>_.
       case ps of [] \<Rightarrow> failA Panic | i # _ \<Rightarrow> retA i))"

text \<open>\<open>walk_chain\<close>, with what its callback was called with as its result.\<close>

function walk_chain_loop :: "'s store_ops \<Rightarrow> nat \<Rightarrow> nat \<Rightarrow> nat set \<Rightarrow> (nat \<times> bytes) list \<Rightarrow> ('s, (nat \<times> bytes) list) act" where
  "walk_chain_loop ops page_id remaining seen visited =
     (if page_id \<in> seen then failA (Io InvalidData)
      else bindA (read_page ops page_id) (\<lambda>p.
        let b = page_bytes p in
        if b ! 0 \<noteq> type_byte POverflow then failA (Io InvalidData)
        else let nxt = u_at 8 b 1; share = min remaining OVERFLOW_CAPACITY in
          bindA (liftA (slice_at b OVERFLOW_HEADER_LEN share)) (\<lambda>d.
            let visited = visited @ [(page_id, d)]; left = remaining - share in
            if left = 0 then (if nxt = 0 then retA visited else failA (Io InvalidData))
            else if nxt = 0 then failA (Io InvalidData)
            else walk_chain_loop ops nxt left (insert page_id seen) visited)))"
  by pat_completeness auto
termination
  by (relation "measure (\<lambda>(ops, page_id, remaining, seen, visited). remaining)")
    (auto simp: OVERFLOW_CAPACITY_def OVERFLOW_HEADER_LEN_def page_consts)

declare walk_chain_loop.simps [simp del]

definition walk_chain :: "'s store_ops \<Rightarrow> nat \<Rightarrow> nat \<Rightarrow> ('s, (nat \<times> bytes) list) act" where
  "walk_chain ops first amount = walk_chain_loop ops first amount {} []"

definition free_overflow_chain :: "'s store_ops \<Rightarrow> nat \<Rightarrow> nat \<Rightarrow> ('s, unit) act" where
  "free_overflow_chain ops first amount =
     bindA (walk_chain ops first amount) (\<lambda>visited. free_each ops (map fst visited))"

definition write_cell :: "'s store_ops \<Rightarrow> docid \<Rightarrow> document \<Rightarrow> ('s, bytes) act" where
  "write_cell ops i doc =
     (let encoded = encode_stored doc in
      if has_room_for (slotted_new PData) (CELL_HEADER_LEN + length encoded) then retA (INLINE # i @ encoded)
      else if length encoded \<ge> 2 ^ 32 then failA (Io InvalidInput)
      else bindA (write_chain ops encoded) (\<lambda>first.
        retA (OVERFLOW # i @ le_bytes 4 (length encoded) @ le_bytes 8 first)))"

subsection \<open>Insertion, replacement, deletion\<close>

record 's heap =
  heap_store :: 's
  current :: nat
  free_map :: room_map

definition with_store :: "('s, 'a) act \<Rightarrow> ('s heap, 'a) act" where
  "with_store m h = (case m (heap_store h) of (r, s) \<Rightarrow> (r, h\<lparr>heap_store := s\<rparr>))"

text \<open>\<open>note_room(free, current, page_id, &page)\<close>.\<close>

definition noting :: "nat \<Rightarrow> slotted \<Rightarrow> ('s heap, unit) act" where
  "noting page_id sp h =
     (case note_room (free_map h) (current h) page_id sp of
        Inl e \<Rightarrow> (Inl e, h) | Inr fm \<Rightarrow> (Inr (), h\<lparr>free_map := fm\<rparr>))"

text \<open>
  \<open>store.change_page(page_id, page, &mut |page| ...)\<close> with a closure that also gives a result and
  changes the free-space map. The store calls it on the page it is given, before anything that may
  fail.
\<close>

definition change_noting :: "'s store_ops \<Rightarrow> nat \<Rightarrow> slotted \<Rightarrow> (slotted \<Rightarrow> room_map \<Rightarrow> (slotted \<times> 'r \<times> room_map) res)
    \<Rightarrow> ('s heap, 'r) act" where
  "change_noting ops page_id sp f h =
     (let change = \<lambda>sp. bindR (f sp (free_map h)) (\<lambda>(sp, _). Inr sp)
      in case f sp (free_map h) of
           Inl e \<Rightarrow> bindA (with_store (change_page ops page_id sp change)) (\<lambda>_. failA e) h
         | Inr (_, r, fm) \<Rightarrow> bindA (with_store (change_page ops page_id sp change)) (\<lambda>_. retA r) (h\<lparr>free_map := fm\<rparr>))"

text \<open>The three places of \<open>place_cell\<close>: the current page, a page of the map, a new page.\<close>

definition place_in_current :: "'s store_ops \<Rightarrow> bytes \<Rightarrow> ('s heap, location option) act" where
  "place_in_current ops d =
     bindA (getA current) (\<lambda>cur.
       if cur \<noteq> 0 then
         bindA (with_store (read_data_page ops cur)) (\<lambda>sp.
         bindA (liftA (fits_reusing_slot sp (length d))) (\<lambda>f.
           if f then
             bindA (change_noting ops cur sp (\<lambda>sp fm. bindR (insert_cell_reusing_slot sp d) (\<lambda>(sp, slot). Inr (sp, slot, fm)))) (\<lambda>slot.
               case slot of None \<Rightarrow> failA Panic | Some slot \<Rightarrow> retA (Some \<lparr>loc_page = cur, loc_slot = slot\<rparr>))
           else retA None))
       else retA None)"

definition place_in_free :: "'s store_ops \<Rightarrow> bytes \<Rightarrow> ('s heap, location option) act" where
  "place_in_free ops d =
     (let needed = space_needed (length d) mod 65536 in
      bindA (getA (\<lambda>h. free_find needed (free_map h))) (\<lambda>found.
        case found of
          None \<Rightarrow> retA None
        | Some page_id \<Rightarrow>
            bindA (with_store (read_data_page ops page_id)) (\<lambda>sp.
            bindA (liftA (fits_reusing_slot sp (length d))) (\<lambda>f.
              if f then
                bindA (getA current) (\<lambda>cur.
                bindA (change_noting ops page_id sp (\<lambda>sp fm.
                    bindR (insert_cell_reusing_slot sp d) (\<lambda>(sp, slot).
                    bindR (note_room fm cur page_id sp) (\<lambda>fm. Inr (sp, slot, fm))))) (\<lambda>slot.
                  case slot of None \<Rightarrow> failA Panic | Some slot \<Rightarrow> retA (Some \<lparr>loc_page = page_id, loc_slot = slot\<rparr>)))
              else bindA (noting page_id sp) (\<lambda>_. retA None)))))"

definition place_on_new :: "'s store_ops \<Rightarrow> bytes \<Rightarrow> ('s heap, location) act" where
  "place_on_new ops d =
     bindA (with_store (allocate_page ops)) (\<lambda>page_id.
     bindA (liftA (insert_cell (slotted_new PData) d)) (\<lambda>(sp, slot).
       case slot of
         None \<Rightarrow> failA Panic
       | Some slot \<Rightarrow>
           bindA (with_store (write_page ops page_id (into_page sp))) (\<lambda>_.
           bindA (getA current) (\<lambda>old.
           bindA (modifyA (\<lambda>h. h\<lparr>current := page_id\<rparr>)) (\<lambda>_.
           bindA (if old \<noteq> 0 then
                    bindA (with_store (read_data_page ops old)) (\<lambda>sp.
                    bindA (liftA (is_empty sp)) (\<lambda>e.
                      if e then bindA (modifyA (\<lambda>h. h\<lparr>free_map := free_remove old (free_map h)\<rparr>)) (\<lambda>_. with_store (free_page ops old))
                      else noting old sp))
                  else retA ()) (\<lambda>_.
           retA \<lparr>loc_page = page_id, loc_slot = slot\<rparr>))))))"

definition place_record :: "'s store_ops \<Rightarrow> bytes \<Rightarrow> ('s heap, location) act" where
  "place_record ops d =
     bindA (place_in_current ops d) (\<lambda>placed.
       case placed of
         Some loc \<Rightarrow> retA loc
       | None \<Rightarrow> bindA (place_in_free ops d) (\<lambda>placed.
           case placed of Some loc \<Rightarrow> retA loc | None \<Rightarrow> place_on_new ops d))"

definition insert_record :: "'s store_ops \<Rightarrow> docid \<Rightarrow> document \<Rightarrow> ('s heap, location) act" where
  "insert_record ops i doc = bindA (with_store (write_cell ops i doc)) (place_record ops)"

definition write_or_free :: "'s store_ops \<Rightarrow> nat \<Rightarrow> slotted \<Rightarrow> ('s heap, unit) act" where
  "write_or_free ops page_id sp =
     bindA (liftA (is_empty sp)) (\<lambda>e.
     bindA (getA current) (\<lambda>cur.
       if e \<and> page_id \<noteq> cur then
         bindA (modifyA (\<lambda>h. h\<lparr>free_map := free_remove page_id (free_map h)\<rparr>)) (\<lambda>_. with_store (free_page ops page_id))
       else bindA (noting page_id sp) (\<lambda>_. with_store (write_page ops page_id (into_page sp)))))"

text \<open>The start \<open>update_record\<close> and \<open>delete_record\<close> share: the page, and the cell's chain freed.\<close>

definition open_record :: "'s store_ops \<Rightarrow> location \<Rightarrow> ('s heap, slotted) act" where
  "open_record ops loc =
     bindA (with_store (read_data_page ops (loc_page loc))) (\<lambda>sp.
     bindA (liftA (bindR (live_record sp loc) parse_cell)) (\<lambda>c.
     bindA (case cell_chain c of Some (amount, first) \<Rightarrow> with_store (free_overflow_chain ops first amount) | None \<Rightarrow> retA ()) (\<lambda>_.
     retA sp)))"

definition update_record :: "'s store_ops \<Rightarrow> location \<Rightarrow> docid \<Rightarrow> document \<Rightarrow> ('s heap, location) act" where
  "update_record ops loc i doc =
     bindA (open_record ops loc) (\<lambda>sp.
     bindA (with_store (write_cell ops i doc)) (\<lambda>d.
     bindA (liftA (update_cell sp (loc_slot loc) d)) (\<lambda>(sp, updated).
       if updated then
         bindA (noting (loc_page loc) sp) (\<lambda>_.
         bindA (with_store (write_page ops (loc_page loc) (into_page sp))) (\<lambda>_. retA loc))
       else
         bindA (liftA (delete_cell sp (loc_slot loc))) (\<lambda>sp.
         bindA (write_or_free ops (loc_page loc) sp) (\<lambda>_. place_record ops d)))))"

definition delete_record :: "'s store_ops \<Rightarrow> location \<Rightarrow> ('s heap, unit) act" where
  "delete_record ops loc =
     bindA (open_record ops loc) (\<lambda>sp.
     bindA (liftA (live_cells sp)) (\<lambda>n.
     bindA (getA current) (\<lambda>cur.
       if n = 1 \<and> loc_page loc \<noteq> cur then
         bindA (modifyA (\<lambda>h. h\<lparr>free_map := free_remove (loc_page loc) (free_map h)\<rparr>)) (\<lambda>_. with_store (free_page ops (loc_page loc)))
       else change_noting ops (loc_page loc) sp (\<lambda>sp fm.
         bindR (delete_cell sp (loc_slot loc)) (\<lambda>sp.
         bindR (note_room fm cur (loc_page loc) sp) (\<lambda>fm. Inr (sp, (), fm)))))))"

subsection \<open>Reading\<close>

record 's doc_reader =
  reader_store :: 's
  kept_page :: "(nat \<times> slotted) option"

definition reading :: "('s, 'a) act \<Rightarrow> ('s doc_reader, 'a) act" where
  "reading m rd = (case m (reader_store rd) of (r, s) \<Rightarrow> (r, rd\<lparr>reader_store := s\<rparr>))"

definition reader_page :: "'s store_ops \<Rightarrow> nat \<Rightarrow> ('s doc_reader, slotted) act" where
  "reader_page ops page_id rd =
     (let again = bindA (reading (read_data_page ops page_id)) (\<lambda>sp.
        bindA (modifyA (\<lambda>rd. rd\<lparr>kept_page := Some (page_id, sp)\<rparr>)) (\<lambda>_. retA sp))
      in case kept_page rd of
           Some (i, sp) \<Rightarrow> if i = page_id then (Inr sp, rd) else again rd
         | None \<Rightarrow> again rd)"

definition records_get :: "'s store_ops \<Rightarrow> im_ops \<Rightarrow> location \<Rightarrow> ('s doc_reader, docid \<times> document) act" where
  "records_get ops im loc =
     bindA (reader_page ops (loc_page loc)) (\<lambda>sp.
     bindA (liftA (bindR (live_record sp loc) parse_cell)) (\<lambda>c.
       case c of
         Inline i encoded \<Rightarrow> bindA (liftA (decode_record im encoded)) (\<lambda>doc. retA (i, with_id im doc i))
       | Overflow i amount first \<Rightarrow>
           bindA (reading (walk_chain ops first amount)) (\<lambda>visited.
           bindA (liftA (decode_record im (concat (map snd visited)))) (\<lambda>doc. retA (i, with_id im doc i)))))"

definition get_record :: "'s store_ops \<Rightarrow> im_ops \<Rightarrow> location \<Rightarrow> ('s, docid \<times> document) act" where
  "get_record ops im loc s =
     (case records_get ops im loc \<lparr>reader_store = s, kept_page = None\<rparr> of (r, rd) \<Rightarrow> (r, reader_store rd))"

datatype stored_bytes = InPage slotted nat | FromChain bytes

record stored =
  stored_id :: docid
  stored_bytes :: stored_bytes

definition records_stored :: "'s store_ops \<Rightarrow> location \<Rightarrow> ('s doc_reader, stored) act" where
  "records_stored ops loc =
     bindA (reader_page ops (loc_page loc)) (\<lambda>sp.
     bindA (liftA (bindR (live_record sp loc) parse_cell)) (\<lambda>c.
       case c of
         Inline i _ \<Rightarrow> retA \<lparr>stored_id = i, stored_bytes = InPage sp (loc_slot loc)\<rparr>
       | Overflow i amount first \<Rightarrow>
           bindA (reading (walk_chain ops first amount)) (\<lambda>visited.
           retA \<lparr>stored_id = i, stored_bytes = FromChain (concat (map snd visited))\<rparr>)))"

definition stored_encoded :: "stored \<Rightarrow> bytes res" where
  "stored_encoded st =
     (case stored_bytes st of
        InPage sp slot \<Rightarrow> bindR (get_cell sp slot) (\<lambda>c. case c of
            None \<Rightarrow> Inl Panic
          | Some d \<Rightarrow> if length d < CELL_HEADER_LEN then Inl Panic else Inr (drop CELL_HEADER_LEN d))
      | FromChain encoded \<Rightarrow> Inr encoded)"

definition stored_decode :: "im_ops \<Rightarrow> stored \<Rightarrow> document res" where
  "stored_decode im st = bindR (stored_encoded st) (\<lambda>encoded.
     bindR (decode_record im encoded) (\<lambda>doc. Inr (with_id im doc (stored_id st))))"

definition stored_fields :: "im_ops \<Rightarrow> stored \<Rightarrow> bytes list option \<Rightarrow> document res" where
  "stored_fields im st names =
     (case names of
        Some names \<Rightarrow> bindR (stored_encoded st) (\<lambda>encoded. decode_fields im encoded (stored_id st) names)
      | None \<Rightarrow> stored_decode im st)"

definition records_is_object :: "'s store_ops \<Rightarrow> location \<Rightarrow> ('s doc_reader, docid \<times> bool) act" where
  "records_is_object ops loc =
     bindA (reader_page ops (loc_page loc)) (\<lambda>sp.
     bindA (liftA (bindR (live_record sp loc) parse_cell)) (\<lambda>c.
       case c of
         Inline i encoded \<Rightarrow> retA (i, encodes_object encoded)
       | Overflow i _ first \<Rightarrow>
           bindA (reading (read_page ops first)) (\<lambda>p.
             if page_bytes p ! 0 \<noteq> type_byte POverflow then failA (Io InvalidData)
             else retA (i, encodes_object (drop OVERFLOW_HEADER_LEN (page_bytes p))))))"

subsection \<open>A collection's pages\<close>

fun collect_pages :: "'s store_ops \<Rightarrow> location list \<Rightarrow> nat list \<Rightarrow> nat list \<Rightarrow> ('s, nat list \<times> nat list) act" where
  "collect_pages ops [] data_pages chain_pages = retA (data_pages, chain_pages)"
| "collect_pages ops (loc # locs) data_pages chain_pages =
     bindA (read_data_page ops (loc_page loc)) (\<lambda>sp.
     bindA (liftA (bindR (live_record sp loc) parse_cell)) (\<lambda>c.
     bindA (case cell_chain c of Some (amount, first) \<Rightarrow> walk_chain ops first amount | None \<Rightarrow> retA []) (\<lambda>visited.
       collect_pages ops locs (insort_insert (loc_page loc) data_pages) (chain_pages @ map fst visited))))"

definition collection_pages :: "'s store_ops \<Rightarrow> nat \<Rightarrow> location list \<Rightarrow> ('s, nat list \<times> nat list) act" where
  "collection_pages ops cur locs =
     bindA (collect_pages ops locs [] []) (\<lambda>(data_pages, chain_pages).
       if cur \<noteq> 0 then bindA (read_data_page ops cur) (\<lambda>_. retA (insort_insert cur data_pages, chain_pages))
       else retA (data_pages, chain_pages))"

definition free_collection_pages :: "'s store_ops \<Rightarrow> nat \<Rightarrow> location list \<Rightarrow> ('s, unit) act" where
  "free_collection_pages ops cur locs =
     bindA (collection_pages ops cur locs) (\<lambda>(data_pages, chain_pages). free_each ops (chain_pages @ data_pages))"

end
