(* ===== verification/Heap.thy ===== *)
theory Heap
  imports Records
begin

text \<open>
  What the data pages of a collection hold, and what is true of its free-space map: \<open>cells_heap\<close>,
  on the level of cells, and that placing, replacing and deleting a cell keep it.
\<close>

subsection \<open>One data page\<close>

abbreviation recs :: "bytes \<Rightarrow> nat \<Rightarrow> bytes option" where
  "recs b \<equiv> cell_map (cells b)"

definition data_page :: "bytes \<Rightarrow> bool" where
  "data_page b \<longleftrightarrow> node_page PData (live_of (cells b)) (u_at 8 b 1) b"

lemma data_pageD:
  assumes "data_page (raw sp)"
  shows "page_inv sp" "length (raw sp) = USABLE_PAGE_SIZE" "node_type sp = Inr PData" "raw sp ! 0 = type_byte PData"
proof -
  have n: "node_page PData (live_of (cells (raw sp))) (u_at 8 (raw sp) 1) (raw sp)" "is_slotted PData"
    using assms by (simp_all add: data_page_def is_slotted_def)
  show "page_inv sp" "length (raw sp) = USABLE_PAGE_SIZE" "node_type sp = Inr PData" using node_pageD [OF n] by simp_all
  show "raw sp ! 0 = type_byte PData" using n by (simp add: node_page_def)
qed

lemma data_pageI: "page_inv sp \<Longrightarrow> raw sp ! 0 = type_byte PData \<Longrightarrow> data_page (raw sp)"
  using page_inv_lay [of sp] by (simp add: data_page_def node_page_def min_cell_def)

lemma data_page_hdr: "data_page (raw sp) \<Longrightarrow> page_inv sp' \<Longrightarrow> hdr (raw sp') = hdr (raw sp) \<Longrightarrow> data_page (raw sp')"
  using data_pageD [of sp] hdr_nth0 [of "raw sp'" "raw sp"] page_invD(1) [of sp'] by (intro data_pageI) (simp_all add: page_consts)

lemma from_bytes_data: "data_page (page_bytes p) \<Longrightarrow> from_bytes p = Inr \<lparr>buf = p, valid = True\<rparr>"
  by (rule from_bytes_node) (auto simp: data_page_def is_slotted_def)

lemma cell_of_Some [simp]: "d \<noteq> [] \<Longrightarrow> cell_of d = Some d"
  by (simp add: cell_of_def)

lemma recs_slot: "recs (raw sp) slot = Some d \<Longrightarrow> page_inv sp \<Longrightarrow> slot < cnt (raw sp) \<and> slot < 2 ^ 16 \<and> len (raw sp) slot = length d \<and> d \<noteq> []"
  using page_invD(2,3) [of sp] clen_cell [of sp slot]
  by (auto simp: cell_map_def clen_def cell_def split: if_splits)

lemma insert_reusing_data:
  assumes "data_page (raw sp)" "d \<noteq> []"
  obtains sp' slot where "insert_cell_reusing_slot sp d = Inr (sp', Some slot)" "fits_reusing_slot sp (length d) = Inr True"
      "data_page (raw sp')" "recs (raw sp) slot = None" "recs (raw sp') = (recs (raw sp))(slot \<mapsto> d)"
  | "fits_reusing_slot sp (length d) = Inr False"
proof -
  obtain sp' r where i: "insert_cell_reusing_slot sp d = Inr (sp', r)" "page_inv sp'" "hdr (raw sp') = hdr (raw sp)"
    "case r of Some slot \<Rightarrow> recs (raw sp) slot = None \<and> recs (raw sp') = (recs (raw sp))(slot := cell_of d) | None \<Rightarrow> sp' = sp"
    "fits_reusing_slot sp (length d) = Inr (r \<noteq> None)"
    using insert_reusing_ok [OF data_pageD(1) [OF assms(1)]] by blast
  then show thesis using that data_page_hdr [OF assms(1) i(2,3)] assms(2) by (cases r) auto
qed

lemma fits_reusing_reclaimable:
  assumes "page_inv sp" "4 + n \<le> reclaimable (raw sp)" shows "fits_reusing_slot sp n = Inr True"
  using assms reclaimable_space_inv(1) [OF assms(1)]
  by (simp add: fits_reusing_slot_def lengths_inv fits_inv)

lemma update_data:
  assumes "data_page (raw sp)" "recs (raw sp) slot = Some old" "d \<noteq> []"
  obtains sp' where "update_cell sp slot d = Inr (sp', True)" "data_page (raw sp')" "recs (raw sp') = (recs (raw sp))(slot \<mapsto> d)"
  | "update_cell sp slot d = Inr (sp, False)"
proof -
  note s = recs_slot [OF assms(2) data_pageD(1) [OF assms(1)]]
  obtain sp' ud where u: "update_cell sp slot d = Inr (sp', ud)" "page_inv sp'" "hdr (raw sp') = hdr (raw sp)"
    "if ud then recs (raw sp') = (recs (raw sp))(slot := cell_of d) else sp' = sp"
    using update_cell_ok [OF data_pageD(1) [OF assms(1)], of slot d] s by auto
  show thesis
  proof (cases ud)
    case True
    then show thesis using u assms(3) data_page_hdr [OF assms(1) u(2,3)] by (intro that(1)) simp_all
  next
    case False
    then show thesis using u by (intro that(2)) simp
  qed
qed

lemma delete_data:
  assumes "data_page (raw sp)" "recs (raw sp) slot = Some old"
  shows "\<exists>sp'. delete_cell sp slot = Inr sp' \<and> data_page (raw sp') \<and> recs (raw sp') = (recs (raw sp))(slot := None)"
proof -
  note s = recs_slot [OF assms(2) data_pageD(1) [OF assms(1)]]
  obtain sp' where d: "delete_cell sp slot = Inr sp'" "page_inv sp'" "hdr (raw sp') = hdr (raw sp)" "cells (raw sp') = (cells (raw sp))[slot := None]"
    using delete_cell_ok [OF data_pageD(1) [OF assms(1)], of slot] s by blast
  then show ?thesis using data_page_hdr [OF assms(1) d(2,3)] s by (simp add: cell_map_update)
qed

lemma is_empty_data:
  assumes "page_inv sp" shows "is_empty sp = Inr (recs (raw sp) = Map.empty)"
proof -
  have "mapR (\<lambda>slot. bindR (get_cell sp slot) (\<lambda>c. Inr (slot, c))) [0..<cnt (raw sp)] = Inr (map (\<lambda>slot. (slot, cell (raw sp) slot)) [0..<cnt (raw sp)])"
    by (rule mapR_Inr) (simp add: get_cell_inv [OF assms])
  moreover have "List.map_filter (\<lambda>(slot, c). map_option (Pair slot) c) (map (\<lambda>slot. (slot, cell (raw sp) slot)) [0..<cnt (raw sp)]) = []
      \<longleftrightarrow> (\<forall>i < cnt (raw sp). cell (raw sp) i = None)"
    by (auto simp: List.map_filter_def filter_empty_conv)
  ultimately show ?thesis
    by (auto simp: is_empty_def iter_cells_def accessors cell_map_def fun_eq_iff)
qed

lemma live_cells_data:
  assumes "page_inv sp" "recs (raw sp) slot = Some d"
  obtains "live_cells sp = Inr 1" "recs (raw sp) = [slot \<mapsto> d]"
  | n where "live_cells sp = Inr n" "n \<noteq> 1" "(recs (raw sp))(slot := None) \<noteq> Map.empty"
proof -
  let ?b = "raw sp"
  note s = recs_slot [OF assms(2,1)]
  let ?L = "filter (\<lambda>i. len ?b i \<noteq> 0) [0..<cnt ?b]"
  have "mapR (read_slot sp) [0..<cnt ?b] = Inr (map (\<lambda>i. (off ?b i, len ?b i)) [0..<cnt ?b])"
    by (rule mapR_Inr) (use lay_slot_bound [OF page_inv_lay [OF assms(1)]] in simp)
  then have l: "live_cells sp = Inr (length ?L)" by (simp add: live_cells_def accessors filter_map o_def)
  have m: "slot \<in> set ?L" using s by simp
  have dom: "recs ?b i \<noteq> None \<longleftrightarrow> i \<in> set ?L" for i by (auto simp: cell_map_def cell_def)
  show thesis
  proof (cases "length ?L = 1")
    case True
    then obtain i where i: "?L = [i]" by (metis One_nat_def length_0_conv length_Suc_conv)
    have "set ?L = {slot}" using m unfolding i by simp
    then have "recs ?b i = None" if "i \<noteq> slot" for i using dom [of i] that by auto
    then have "recs ?b = [slot \<mapsto> d]" using assms(2) by (auto simp: fun_eq_iff)
    then show thesis using l True that(1) by simp
  next
    case False
    have "set ?L \<noteq> {slot}" using False distinct_card [of ?L] by (metis One_nat_def card.empty card.insert distinct_filter distinct_upt empty_iff finite.emptyI)
    then obtain j where "j \<in> set ?L" "j \<noteq> slot" using m by blast
    then have "((recs ?b)(slot := None)) j \<noteq> None" using dom [of j] by simp
    then have "(recs ?b)(slot := None) \<noteq> Map.empty" by metis
    then show thesis using l False that(2) by blast
  qed
qed

lemma new_data_page:
  assumes "d \<noteq> []" "17 + length d \<le> 8188"
  shows "\<exists>sp. insert_cell (slotted_new PData) d = Inr (sp, Some 0) \<and> data_page (raw sp) \<and> recs (raw sp) = [0 \<mapsto> d]"
proof -
  have n: "page_inv (slotted_new PData)" "cells (raw (slotted_new PData)) = []" using slotted_new_inv [of PData] by (simp_all add: is_slotted_def)
  have c: "cnt (raw (slotted_new PData)) = 0" using arg_cong [OF n(2), of length] by simp
  have ds: "Slotted.ds (raw (slotted_new PData)) = 8188" by (simp add: slotted_new_def Slotted.ds_def u_at_put_same page_consts Let_def page_from_def)
  obtain sp where i: "insert_cell (slotted_new PData) d = Inr (sp, Some 0)" "page_inv sp" "hdr (raw sp) = hdr (raw (slotted_new PData))"
    "cells (raw sp) = [Some d]"
    using insert_cell_ok [OF n(1), of d] assms c ds n(2) by (auto simp: slot_offset_eq)
  have "raw (slotted_new PData) ! 0 = type_byte PData" by (simp add: slotted_new_def Let_def page_from_def nth_put page_consts)
  then have "data_page (raw (slotted_new PData))" using n(1) by (intro data_pageI)
  moreover have "cell_map [Some d] = [0 \<mapsto> d]" by (auto simp: cell_map_def fun_eq_iff)
  ultimately show ?thesis using data_page_hdr [OF _ i(2,3)] i(1,4) by simp
qed

subsection \<open>The free-space map is true\<close>

definition free_true :: "(nat \<rightharpoonup> bytes) \<Rightarrow> nat set \<Rightarrow> nat \<Rightarrow> room_map \<Rightarrow> bool" where
  "free_true v D cur fm \<longleftrightarrow> free_ok fm \<and> (\<forall>i room. free_of fm i = Some room \<longrightarrow>
     i \<in> D \<and> i \<noteq> cur \<and> MIN_ROOM_TO_STAY \<le> room \<and> (\<exists>b. v i = Some b \<and> reclaimable b = room))"

definition noted :: "room_map \<Rightarrow> nat \<Rightarrow> nat \<Rightarrow> nat \<Rightarrow> room_map" where
  "noted fm cur i room =
     (if i \<noteq> cur \<and> room \<ge> (if free_contains i fm then MIN_ROOM_TO_STAY else MIN_ROOM) then free_set i room fm
      else free_remove i fm)"

lemma note_room_inv: "page_inv sp \<Longrightarrow> note_room fm cur i sp = Inr (noted fm cur i (reclaimable (raw sp)))"
proof -
  assume "page_inv sp"
  moreover have "reclaimable (raw sp) mod 65536 = reclaimable (raw sp)" by (simp add: reclaimable_def)
  ultimately show ?thesis by (simp add: note_room_def noted_def reclaimable_space_inv(1) Let_def)
qed

lemma free_of_noted: "free_of (noted fm cur i room) j =
    (if j = i then (if i \<noteq> cur \<and> room \<ge> (if free_contains i fm then MIN_ROOM_TO_STAY else MIN_ROOM) then Some room else None) else free_of fm j)"
  by (simp add: noted_def)

lemma noted_ok [simp]: "free_ok fm \<Longrightarrow> free_ok (noted fm cur i room)"
  by (simp add: noted_def)

lemma free_true_noted:
  assumes "free_true v D cur fm" "i \<in> D" "v' i = Some b" "\<And>j. j \<noteq> i \<Longrightarrow> j \<noteq> cur' \<Longrightarrow> j \<in> D \<Longrightarrow> v' j = v j \<and> j \<in> D'" "i \<in> D'"
    and "cur' = cur \<or> cur' \<notin> D"
  shows "free_true v' D' cur' (noted fm cur' i (reclaimable b))"
proof -
  have "i' \<in> D' \<and> i' \<noteq> cur' \<and> MIN_ROOM_TO_STAY \<le> room \<and> (\<exists>b. v' i' = Some b \<and> reclaimable b = room)"
    if h: "free_of (noted fm cur' i (reclaimable b)) i' = Some room" for i' room
  proof (cases "i' = i")
    case True
    have "MIN_ROOM_TO_STAY \<le> MIN_ROOM" by (simp add: MIN_ROOM_TO_STAY_def MIN_ROOM_def page_consts)
    then show ?thesis using h True assms(3,5) by (auto simp: free_of_noted split: if_splits)
  next
    case False
    then have f: "free_of fm i' = Some room" using h by (simp add: free_of_noted)
    then have "i' \<noteq> cur'" using assms(1,6) unfolding free_true_def by metis
    then show ?thesis using f False assms(1,4) unfolding free_true_def by metis
  qed
  then show ?thesis using assms(1) by (simp add: free_true_def)
qed

lemma free_true_remove:
  assumes "free_true v D cur fm" "\<And>j. j \<noteq> i \<Longrightarrow> j \<in> D \<Longrightarrow> v' j = v j \<and> j \<in> D'"
  shows "free_true v' D' cur (free_remove i fm)"
  using assms unfolding free_true_def by (auto split: if_splits)

lemma free_true_cong:
  assumes "free_true v D cur fm" "\<And>j. j \<noteq> cur \<Longrightarrow> j \<in> D \<Longrightarrow> v' j = v j \<and> j \<in> D'"
  shows "free_true v' D' cur fm"
  using assms unfolding free_true_def by metis

subsection \<open>The cells of a collection\<close>

text \<open>
  The collection's data pages are \<open>D\<close>, \<open>C\<close> gives the cell at each location. Every page but the
  current one holds a cell.
\<close>

definition cells_heap :: "(nat \<rightharpoonup> bytes) \<Rightarrow> nat \<Rightarrow> room_map \<Rightarrow> nat set \<Rightarrow> (location \<rightharpoonup> bytes) \<Rightarrow> bool" where
  "cells_heap v cur fm D C \<longleftrightarrow> (\<forall>i \<in> D. \<exists>b. v i = Some b \<and> data_page b \<and> (\<forall>slot. C \<lparr>loc_page = i, loc_slot = slot\<rparr> = recs b slot)
       \<and> (i = cur \<or> recs b \<noteq> Map.empty))
     \<and> (\<forall>loc. C loc \<noteq> None \<longrightarrow> loc_page loc \<in> D) \<and> (cur = 0 \<or> cur \<in> D) \<and> 0 \<notin> D \<and> free_true v D cur fm"

lemma cells_heapD:
  assumes "cells_heap v cur fm D C" "i \<in> D"
  obtains b where "v i = Some b" "data_page b" "\<And>slot. C \<lparr>loc_page = i, loc_slot = slot\<rparr> = recs b slot" "i = cur \<or> recs b \<noteq> Map.empty"
  using assms unfolding cells_heap_def by blast

lemma cells_heap_cell:
  assumes "cells_heap v cur fm D C" "C loc = Some d"
  obtains b where "v (loc_page loc) = Some b" "data_page b" "recs b (loc_slot loc) = Some d" "loc_page loc \<in> D"
proof -
  have "loc_page loc \<in> D" using assms unfolding cells_heap_def by (metis option.distinct(1))
  moreover have "C \<lparr>loc_page = loc_page loc, loc_slot = loc_slot loc\<rparr> = Some d" using assms(2) by (cases loc) simp
  ultimately show thesis using that cells_heapD [OF assms(1)] by metis
qed

lemma cells_heap_basic:
  assumes "cells_heap v cur fm D C"
  shows "free_true v D cur fm" "cur = 0 \<or> cur \<in> D" "0 \<notin> D" "C loc \<noteq> None \<Longrightarrow> loc_page loc \<in> D" "free_ok fm"
  using assms unfolding cells_heap_def free_true_def by auto

lemma loc_eq: "\<lparr>loc_page = i, loc_slot = slot\<rparr> = loc \<longleftrightarrow> i = loc_page loc \<and> slot = loc_slot loc"
  by (cases loc) auto

text \<open>Only the data pages matter.\<close>

lemma cells_heap_cong:
  assumes "cells_heap v cur fm D C" "\<And>i. i \<in> D \<Longrightarrow> v' i = v i"
  shows "cells_heap v' cur fm D C"
proof -
  have "free_true v' D cur fm" using free_true_cong [OF cells_heap_basic(1) [OF assms(1)], of v' D] assms(2) by blast
  then show ?thesis using assms unfolding cells_heap_def by auto
qed

text \<open>A page changed in one slot.\<close>

lemma cells_heap_put:
  assumes "cells_heap v cur fm D C" "loc_page loc \<in> D" "v (loc_page loc) = Some b" "data_page b'" "recs b' = (recs b)(loc_slot loc := c)"
    and "loc_page loc = cur \<or> recs b' \<noteq> Map.empty"
    and "fm' = noted fm cur (loc_page loc) (reclaimable b') \<or> loc_page loc = cur \<and> fm' = fm"
  shows "cells_heap (v(loc_page loc \<mapsto> b')) cur fm' D (C(loc := c))"
proof -
  let ?i = "loc_page loc" let ?v = "v(?i \<mapsto> b')"
  note f = cells_heap_basic [OF assms(1)]
  have "free_true ?v D cur (noted fm cur ?i (reclaimable b'))" by (rule free_true_noted [OF f(1) assms(2)]) (use assms(2) in simp_all)
  moreover have "free_true ?v D cur fm" if "?i = cur" by (rule free_true_cong [OF f(1)]) (use that in simp)
  ultimately have "free_true ?v D cur fm'" using assms(7) by auto
  moreover have "\<exists>b. ?v i = Some b \<and> data_page b \<and> (\<forall>slot. (C(loc := c)) \<lparr>loc_page = i, loc_slot = slot\<rparr> = recs b slot) \<and> (i = cur \<or> recs b \<noteq> Map.empty)"
    if i: "i \<in> D" for i
  proof -
    obtain b0 where b0: "v i = Some b0" "data_page b0" "\<And>slot. C \<lparr>loc_page = i, loc_slot = slot\<rparr> = recs b0 slot" "i = cur \<or> recs b0 \<noteq> Map.empty"
      using cells_heapD [OF assms(1) i] by blast
    then show ?thesis using assms(3-6) by (cases "i = ?i") (auto simp: loc_eq)
  qed
  moreover have "loc_page l \<in> D" if "(C(loc := c)) l \<noteq> None" for l using that f(4) assms(2) by (auto split: if_splits)
  ultimately show ?thesis using f(2,3) unfolding cells_heap_def by blast
qed

text \<open>A page given back with its last cell; and one given back empty that was the current page until now.\<close>

lemma cells_heap_drop:
  assumes "cells_heap v cur fm D C" "i \<noteq> cur"
    and "\<And>loc. loc_page loc = i \<Longrightarrow> C' loc = None" "\<And>loc. loc_page loc \<noteq> i \<Longrightarrow> C' loc = C loc" "\<And>j. j \<in> D \<Longrightarrow> j \<noteq> i \<Longrightarrow> v' j = v j"
  shows "cells_heap v' cur (free_remove i fm) (D - {i}) C'"
proof -
  note f = cells_heap_basic [OF assms(1)]
  have "free_true v' (D - {i}) cur (free_remove i fm)" by (rule free_true_remove [OF f(1)]) (use assms(5) in auto)
  moreover have "\<exists>b. v' j = Some b \<and> data_page b \<and> (\<forall>slot. C' \<lparr>loc_page = j, loc_slot = slot\<rparr> = recs b slot) \<and> (j = cur \<or> recs b \<noteq> Map.empty)"
    if j: "j \<in> D - {i}" for j
  proof -
    obtain b where "v j = Some b" "data_page b" "\<And>slot. C \<lparr>loc_page = j, loc_slot = slot\<rparr> = recs b slot" "j = cur \<or> recs b \<noteq> Map.empty"
      using cells_heapD [OF assms(1), of j] j by blast
    then show ?thesis using j assms(4,5) by (intro exI [of _ b]) simp
  qed
  moreover have "loc_page l \<in> D - {i}" if "C' l \<noteq> None" for l using that f(4) assms(3,4) by (cases "loc_page l = i") auto
  ultimately show ?thesis using f(2,3) assms(2) unfolding cells_heap_def by blast
qed

text \<open>A new page that becomes the current one; the one before it is noted, or given back when empty.\<close>

definition retired :: "(nat \<rightharpoonup> bytes) \<Rightarrow> nat \<Rightarrow> room_map \<Rightarrow> nat set \<Rightarrow> nat \<Rightarrow> room_map \<Rightarrow> nat set \<Rightarrow> bool" where
  "retired v cur fm D i fm' D' \<longleftrightarrow> (cur = 0 \<and> fm' = fm \<and> D' = insert i D)
     \<or> (\<exists>b. cur \<noteq> 0 \<and> v cur = Some b \<and> (if recs b = Map.empty then fm' = free_remove cur fm \<and> D' = insert i (D - {cur})
          else fm' = noted fm i cur (reclaimable b) \<and> D' = insert i D))"

lemma cells_heap_new:
  assumes "cells_heap v cur fm D C" "v i = None" "i \<noteq> 0" "data_page b" "recs b = [slot \<mapsto> d]" "retired v cur fm D i fm' D'"
    and "v' i = Some b" "\<And>j. j \<in> D' \<Longrightarrow> j \<noteq> i \<Longrightarrow> v' j = v j"
  shows "cells_heap v' i fm' D' (C(\<lparr>loc_page = i, loc_slot = slot\<rparr> \<mapsto> d))"
proof -
  note f = cells_heap_basic [OF assms(1)]
  have i: "i \<notin> D" using cells_heapD [OF assms(1), of i] assms(2) by auto
  have new: "C \<lparr>loc_page = i, loc_slot = k\<rparr> = None" for k
    using f(4) [of "\<lparr>loc_page = i, loc_slot = k\<rparr>"] i by (cases "C \<lparr>loc_page = i, loc_slot = k\<rparr>") simp_all
  have D': "i \<in> D'" "\<And>j. j \<in> D' \<Longrightarrow> j \<noteq> i \<Longrightarrow> j \<in> D" using assms(6) unfolding retired_def by (auto split: if_splits)
  have cur: "\<exists>b. v cur = Some b \<and> recs b \<noteq> Map.empty" if "cur \<in> D'" "cur \<noteq> i"
    using assms(6) that f(3) D'(2) [OF that] unfolding retired_def by (auto split: if_splits)
  have "free_true v' D' i fm'"
    using assms(6) unfolding retired_def
  proof (elim disjE exE conjE)
    assume "cur = 0" "fm' = fm" "D' = insert i D"
    moreover have "free_true v D i fm" using f(1) i unfolding free_true_def by metis
    ultimately show ?thesis using assms(8) i by (auto intro!: free_true_cong [of v D i fm])
  next
    fix bo assume bo: "cur \<noteq> 0" "v cur = Some bo" and c: "if recs bo = Map.empty then fm' = free_remove cur fm \<and> D' = insert i (D - {cur})
          else fm' = noted fm i cur (reclaimable bo) \<and> D' = insert i D"
    have cD: "cur \<in> D" "cur \<noteq> i" using bo f(2) assms(2) by auto
    show ?thesis
    proof (cases "recs bo = Map.empty")
      case True
      moreover have "free_true v D i fm" using f(1) i unfolding free_true_def by metis
      ultimately show ?thesis using c assms(8) i by (auto intro!: free_true_remove [of v D i fm])
    next
      case False
      then have "v' cur = Some bo" "D' = insert i D" "fm' = noted fm i cur (reclaimable bo)" using c assms(8) [of cur] bo cD by auto
      then show ?thesis using assms(8) i cD by (auto intro!: free_true_noted [OF f(1) cD(1)])
    qed
  qed
  moreover have "\<exists>b. v' j = Some b \<and> data_page b \<and> (\<forall>k. (C(\<lparr>loc_page = i, loc_slot = slot\<rparr> \<mapsto> d)) \<lparr>loc_page = j, loc_slot = k\<rparr> = recs b k)
      \<and> (j = i \<or> recs b \<noteq> Map.empty)" if j: "j \<in> D'" for j
  proof (cases "j = i")
    case True
    then show ?thesis using assms(4,5,7) new by auto
  next
    case False
    then have jD: "j \<in> D" "v' j = v j" using D'(2) j assms(8) by auto
    obtain b0 where "v j = Some b0" "data_page b0" "\<And>slot. C \<lparr>loc_page = j, loc_slot = slot\<rparr> = recs b0 slot" "j = cur \<or> recs b0 \<noteq> Map.empty"
      using cells_heapD [OF assms(1) jD(1)] by blast
    moreover have "recs b0 \<noteq> Map.empty" using calculation cur j False by auto
    ultimately show ?thesis using jD False by (intro exI [of _ b0]) simp
  qed
  moreover have "loc_page l \<in> D'" if l: "(C(\<lparr>loc_page = i, loc_slot = slot\<rparr> \<mapsto> d)) l \<noteq> None" for l
  proof (cases "l = \<lparr>loc_page = i, loc_slot = slot\<rparr>")
    case False
    then obtain c where c: "C l = Some c" using l by auto
    obtain b0 where b0: "v (loc_page l) = Some b0" "recs b0 (loc_slot l) = Some c" "loc_page l \<in> D" using cells_heap_cell [OF assms(1) c] by blast
    have "recs b0 \<noteq> Map.empty" using b0(2) by auto
    then show ?thesis using assms(6) b0(1,3) unfolding retired_def by (auto split: if_splits)
  qed (use D' in simp)
  ultimately show ?thesis using D' f(3) assms(3) unfolding cells_heap_def by blast
qed

text \<open>What became of the pages: those of \<open>D\<close> not in \<open>D'\<close> were given back, those of \<open>D'\<close> not in \<open>D\<close> are new.\<close>

definition pages_moved :: "(nat \<rightharpoonup> bytes) \<Rightarrow> (nat \<rightharpoonup> bytes) \<Rightarrow> nat set \<Rightarrow> nat set \<Rightarrow> bool" where
  "pages_moved v v' D D' \<longleftrightarrow> (\<forall>i \<in> D'. i \<in> D \<or> v i = None) \<and> (\<forall>i \<in> D - D'. v' i = None) \<and> (\<forall>i. i \<notin> D \<longrightarrow> i \<notin> D' \<longrightarrow> v' i = v i)"

lemma pages_movedI:
  "(\<And>i. i \<in> D' \<Longrightarrow> i \<in> D \<or> v i = None) \<Longrightarrow> (\<And>i. i \<in> D \<Longrightarrow> i \<notin> D' \<Longrightarrow> v' i = None)
    \<Longrightarrow> (\<And>i. i \<notin> D \<Longrightarrow> i \<notin> D' \<Longrightarrow> v' i = v i) \<Longrightarrow> pages_moved v v' D D'"
  by (auto simp: pages_moved_def)

lemma pages_moved_refl [simp]: "pages_moved v v D D"
  by (simp add: pages_moved_def)

lemma pages_moved_put: "i \<in> D \<Longrightarrow> pages_moved v (v(i \<mapsto> b)) D D"
  by (auto simp: pages_moved_def)

lemma pages_moved_trans: "pages_moved v v' D D' \<Longrightarrow> pages_moved v' v'' D' D'' \<Longrightarrow> pages_moved v v'' D D''"
  unfolding pages_moved_def by (intro conjI ballI allI impI) (metis DiffI DiffD1 DiffD2)+

lemma pages_moved_kept: "pages_moved v v' D D' \<Longrightarrow> i \<notin> D \<Longrightarrow> v i \<noteq> None \<Longrightarrow> i \<notin> D' \<and> v' i = v i"
  unfolding pages_moved_def by metis

end
