(* ===== verification/Heapops.thy ===== *)
theory Heapops
  imports Heap
begin

text \<open>
  The operations of \<open>src/src/data.rs\<close> on any page store: placing a cell keeps \<open>cells_heap\<close>; chains
  are written, walked and freed; and on top of both, insertion, replacement, deletion and reading
  of documents; \<open>Docheap\<close> reads them as operations on the map from locations to documents.
\<close>

subsection \<open>Placing a cell\<close>

lemma with_store_run [simp]: "m (heap_store h) = (r, s) \<Longrightarrow> with_store m h = (r, h\<lparr>heap_store := s\<rparr>)"
  by (simp add: with_store_def)

lemma noting_run [simp]: "page_inv sp \<Longrightarrow> noting i sp h = (Inr (), h\<lparr>free_map := noted (free_map h) (current h) i (reclaimable (raw sp))\<rparr>)"
  by (simp add: noting_def note_room_inv)

lemma page_bytes_into [simp]: "page_bytes (into_page sp) = raw sp"
  by (simp add: into_page_def known_checked_def)

context page_store begin

lemma read_data_page_ok:
  assumes "sound s" "view s i = Some b" "data_page b"
  shows "\<exists>sp s'. read_data_page ops i s = (Inr sp, s') \<and> raw sp = b \<and> sound s' \<and> view s' = view s \<and> room s' = room s"
proof -
  obtain p s' where p: "read_page ops i s = (Inr p, s')" "page_bytes p = b" "sound s'" "view s' = view s" "room s' = room s"
    using read_law [OF assms(1,2)] by blast
  have f: "from_bytes p = Inr \<lparr>buf = p, valid = True\<rparr>" by (rule from_bytes_data) (use assms(3) p(2) in simp)
  have "node_type \<lparr>buf = p, valid = True\<rparr> = Inr PData" using data_pageD(3) [of "\<lparr>buf = p, valid = True\<rparr>"] assms(3) p(2) by simp
  then show ?thesis using p f by (intro exI [of _ "\<lparr>buf = p, valid = True\<rparr>"] exI [of _ s']) (simp add: read_data_page_def)
qed

lemma change_noting_ok:
  assumes "sound (heap_store h)" "view (heap_store h) i \<noteq> None" "f sp (free_map h) = Inr (sp', r, fm)" "data_page (raw sp')"
  shows "\<exists>s'. change_noting ops i sp f h = (Inr r, h\<lparr>heap_store := s', free_map := fm\<rparr>) \<and> sound s'
    \<and> view s' = (view (heap_store h))(i \<mapsto> raw sp') \<and> room s' = room (heap_store h)"
proof -
  let ?c = "\<lambda>sp. bindR (f sp (free_map h)) (\<lambda>(sp, _). Inr sp)"
  have "?c sp = Inr sp'" using assms(3) by simp
  then obtain s' where "change_page ops i sp ?c (heap_store h) = (Inr (), s')" "sound s'" "view s' = (view (heap_store h))(i \<mapsto> raw sp')" "room s' = room (heap_store h)"
    using change_law [OF assms(1,2), of ?c sp sp'] data_pageD(2) [OF assms(4)] by blast
  then show ?thesis using assms(3) by (intro exI [of _ s']) (simp add: change_noting_def Let_def)
qed

lemma write_data_ok:
  assumes "sound s" "view s i \<noteq> None" "data_page (raw sp)"
  shows "\<exists>s'. write_page ops i (into_page sp) s = (Inr (), s') \<and> sound s' \<and> view s' = (view s)(i \<mapsto> raw sp) \<and> room s' = room s"
  using write_law [OF assms(1,2), of "into_page sp"] data_pageD(2) [OF assms(3)] by simp

text \<open>\<open>placed\<close>: a cell \<open>d\<close> was put at \<open>loc\<close>, in the heap \<open>h\<close> to give \<open>h'\<close>.\<close>

definition in_heap where
  "in_heap h D C \<longleftrightarrow> sound (heap_store h) \<and> cells_heap (view (heap_store h)) (current h) (free_map h) D C"

definition moved where
  "moved h h' D D' \<longleftrightarrow> pages_moved (view (heap_store h)) (view (heap_store h')) D D'"

lemma in_heapD:
  assumes "in_heap h D C"
  shows "sound (heap_store h)" "cells_heap (view (heap_store h)) (current h) (free_map h) D C"
  using assms by (simp_all add: in_heap_def)

text \<open>A slot of a data page changed, by the page's own operation and \<open>change_page\<close>.\<close>

lemma put_slot:
  assumes "in_heap h D C" "loc_page loc \<in> D" "view (heap_store h) (loc_page loc) = Some (raw sp)" "data_page (raw sp')"
    and "recs (raw sp') = (recs (raw sp))(loc_slot loc := c)" "loc_page loc = current h \<or> recs (raw sp') \<noteq> Map.empty"
    and "sound s'" "view s' = (view (heap_store h))(loc_page loc \<mapsto> raw sp')"
    and "fm = noted (free_map h) (current h) (loc_page loc) (reclaimable (raw sp')) \<or> loc_page loc = current h \<and> fm = free_map h"
  shows "in_heap (h\<lparr>heap_store := s', free_map := fm\<rparr>) D (C(loc := c))" "moved h (h\<lparr>heap_store := s', free_map := fm\<rparr>) D D"
  using cells_heap_put [OF in_heapD(2) [OF assms(1)] assms(2-6,9)] assms(7,8) pages_moved_put [OF assms(2)]
  by (simp_all add: in_heap_def moved_def)

lemma place_in_current_ok:
  assumes "in_heap h D C" "d \<noteq> []"
  shows "\<exists>r h'. place_in_current ops d h = (Inr r, h') \<and> room (heap_store h') = room (heap_store h)
    \<and> (case r of None \<Rightarrow> in_heap h' D C \<and> view (heap_store h') = view (heap_store h) \<and> current h' = current h
        | Some loc \<Rightarrow> C loc = None \<and> in_heap h' D (C(loc \<mapsto> d)) \<and> moved h h' D D)"
proof (cases "current h = 0")
  case True
  then show ?thesis using assms by (intro exI [of _ None] exI [of _ h]) (simp add: place_in_current_def)
next
  case False
  note ih = in_heapD [OF assms(1)]
  let ?cur = "current h" and ?s = "heap_store h"
  have cD: "?cur \<in> D" using cells_heap_basic(2) [OF ih(2)] False by simp
  obtain b where b: "view ?s ?cur = Some b" "data_page b" "\<And>slot. C \<lparr>loc_page = ?cur, loc_slot = slot\<rparr> = recs b slot"
    using cells_heapD [OF ih(2) cD] by blast
  obtain sp s1 where r: "read_data_page ops ?cur ?s = (Inr sp, s1)" "raw sp = b" "sound s1" "view s1 = view ?s" "room s1 = room ?s"
    using read_data_page_ok [OF ih(1) b(1,2)] by blast
  let ?h1 = "h\<lparr>heap_store := s1\<rparr>"
  have h1: "in_heap ?h1 D C" using ih r(3,4) by (simp add: in_heap_def)
  show ?thesis
  proof (rule insert_reusing_data [of sp d])
    show "data_page (raw sp)" "d \<noteq> []" using b(2) r(2) assms(2) by simp_all
  next
    assume "fits_reusing_slot sp (length d) = Inr False"
    then have "place_in_current ops d h = (Inr None, ?h1)" using False r(1) by (simp add: place_in_current_def)
    then show ?thesis using h1 r(4,5) by (intro exI [of _ None] exI [of _ ?h1]) simp
  next
    fix sp' slot
    assume i: "insert_cell_reusing_slot sp d = Inr (sp', Some slot)" "fits_reusing_slot sp (length d) = Inr True" "data_page (raw sp')"
      "recs (raw sp) slot = None" "recs (raw sp') = (recs (raw sp))(slot \<mapsto> d)"
    let ?loc = "\<lparr>loc_page = ?cur, loc_slot = slot\<rparr>"
    let ?f = "\<lambda>sp fm. bindR (insert_cell_reusing_slot sp d) (\<lambda>(sp, slot). Inr (sp, slot, fm))"
    obtain s2 where c: "change_noting ops ?cur sp ?f ?h1 = (Inr (Some slot), ?h1\<lparr>heap_store := s2, free_map := free_map h\<rparr>)" "sound s2"
      "view s2 = (view s1)(?cur \<mapsto> raw sp')" "room s2 = room s1"
      using change_noting_ok [of ?h1 ?cur ?f sp sp' "Some slot" "free_map h"] i(1,3) r(3,4) b(1) by auto
    have "in_heap (?h1\<lparr>heap_store := s2, free_map := free_map h\<rparr>) D (C(?loc := Some d))" "moved ?h1 (?h1\<lparr>heap_store := s2, free_map := free_map h\<rparr>) D D"
      using put_slot [OF h1, of ?loc sp sp' "Some d" s2 "free_map h"] cD b(1) r(2,4) i(3,5) c(2,3) by simp_all
    moreover have "place_in_current ops d h = (Inr (Some ?loc), ?h1\<lparr>heap_store := s2, free_map := free_map h\<rparr>)"
      using False r(1) i(2) c(1) by (simp add: place_in_current_def)
    moreover have "C ?loc = None" using b(3) i(4) r(2) by simp
    ultimately show ?thesis using c(4) r(4,5) by (intro exI [of _ "Some ?loc"] exI [of _ "?h1\<lparr>heap_store := s2, free_map := free_map h\<rparr>"]) (simp add: moved_def)
  qed
qed

lemma place_in_free_ok:
  assumes "in_heap h D C" "d \<noteq> []" "4 + length d < 65536"
  shows "\<exists>r h'. place_in_free ops d h = (Inr r, h') \<and> room (heap_store h') = room (heap_store h)
    \<and> (case r of None \<Rightarrow> in_heap h' D C \<and> view (heap_store h') = view (heap_store h) \<and> current h' = current h
        | Some loc \<Rightarrow> C loc = None \<and> in_heap h' D (C(loc \<mapsto> d)) \<and> moved h h' D D)"
proof (cases "free_find (4 + length d) (free_map h)")
  case None
  have "space_needed (length d) mod 65536 = 4 + length d" using assms(3) by (simp add: space_needed_def SLOT_LEN_def)
  then show ?thesis using assms None by (intro exI [of _ None] exI [of _ h]) (simp add: place_in_free_def Let_def)
next
  case (Some i)
  note ih = in_heapD [OF assms(1)]
  let ?s = "heap_store h" and ?cur = "current h"
  have needed: "space_needed (length d) mod 65536 = 4 + length d" using assms(3) by (simp add: space_needed_def SLOT_LEN_def)
  obtain n where n: "free_of (free_map h) i = Some n" "4 + length d \<le> n"
    using free_find_Some [OF cells_heap_basic(5) [OF ih(2)] Some] by blast
  then have f: "i \<in> D" "i \<noteq> ?cur" "\<exists>b. view ?s i = Some b \<and> reclaimable b = n"
    using cells_heap_basic(1) [OF ih(2)] unfolding free_true_def by blast+
  obtain b where b: "view ?s i = Some b" "data_page b" "\<And>slot. C \<lparr>loc_page = i, loc_slot = slot\<rparr> = recs b slot"
    using cells_heapD [OF ih(2) f(1)] by blast
  obtain sp s1 where r: "read_data_page ops i ?s = (Inr sp, s1)" "raw sp = b" "sound s1" "view s1 = view ?s" "room s1 = room ?s"
    using read_data_page_ok [OF ih(1) b(1,2)] by blast
  let ?h1 = "h\<lparr>heap_store := s1\<rparr>"
  have h1: "in_heap ?h1 D C" using ih r(3,4) by (simp add: in_heap_def)
  have sp: "data_page (raw sp)" using b(2) r(2) by simp
  have fit: "fits_reusing_slot sp (length d) = Inr True"
    using fits_reusing_reclaimable [OF data_pageD(1) [OF sp], of "length d"] f(3) b(1) r(2) n(2) by simp
  obtain sp' slot where i: "insert_cell_reusing_slot sp d = Inr (sp', Some slot)" "data_page (raw sp')"
      "recs (raw sp) slot = None" "recs (raw sp') = (recs (raw sp))(slot \<mapsto> d)"
    using insert_reusing_data [OF sp assms(2)] fit by auto
  let ?loc = "\<lparr>loc_page = i, loc_slot = slot\<rparr>" and ?fm = "noted (free_map h) ?cur i (reclaimable (raw sp'))"
  let ?f = "\<lambda>sp fm. bindR (insert_cell_reusing_slot sp d) (\<lambda>(sp, slot). bindR (note_room fm ?cur i sp) (\<lambda>fm. Inr (sp, slot, fm)))"
  have "?f sp (free_map h) = Inr (sp', Some slot, ?fm)" using i(1) data_pageD(1) [OF i(2)] by (simp add: note_room_inv)
  then obtain s2 where c: "change_noting ops i sp ?f ?h1 = (Inr (Some slot), ?h1\<lparr>heap_store := s2, free_map := ?fm\<rparr>)" "sound s2"
    "view s2 = (view s1)(i \<mapsto> raw sp')" "room s2 = room s1"
    using change_noting_ok [of ?h1 i ?f sp sp' "Some slot" ?fm] i(2) r(3,4) b(1) by auto
  let ?h2 = "?h1\<lparr>heap_store := s2, free_map := ?fm\<rparr>"
  have ne: "recs (raw sp') \<noteq> Map.empty" using i(4) by simp
  have "in_heap ?h2 D (C(?loc := Some d))" "moved ?h1 ?h2 D D"
    using put_slot [OF h1, of ?loc sp sp' "Some d" s2 ?fm] f(1) b(1) r(2,4) i(2,4) c(2,3) ne by simp_all
  moreover have "place_in_free ops d h = (Inr (Some ?loc), ?h2)"
    using r(1) fit c(1) Some unfolding place_in_free_def Let_def needed by simp
  moreover have "C ?loc = None" using b(3) i(3) r(2) by simp
  ultimately show ?thesis using c(4) r(4,5) by (intro exI [of _ "Some ?loc"] exI [of _ ?h2]) (simp add: moved_def)
qed

text \<open>The page that was current until now: noted in the map, or given back.\<close>

lemma place_on_new_ok:
  assumes "in_heap h D C" "d \<noteq> []" "17 + length d \<le> 8188" "0 < room (heap_store h)"
  shows "\<exists>loc h' D'. place_on_new ops d h = (Inr loc, h') \<and> room (heap_store h) \<le> room (heap_store h') + 1
    \<and> C loc = None \<and> in_heap h' D' (C(loc \<mapsto> d)) \<and> moved h h' D D'"
proof -
  note ih = in_heapD [OF assms(1)]
  let ?s = "heap_store h" and ?cur = "current h" and ?fm = "free_map h"
  obtain i b0 s1 where a: "allocate_page ops ?s = (Inr i, s1)" "view ?s i = None" "sound s1" "view s1 = (view ?s)(i \<mapsto> b0)" "room ?s \<le> room s1 + 1"
    using allocate_law [OF ih(1) assms(4)] by blast
  have i0: "i \<noteq> 0" using view_page [OF a(3), of i b0] a(4) by simp
  obtain sp where n: "insert_cell (slotted_new PData) d = Inr (sp, Some 0)" "data_page (raw sp)" "recs (raw sp) = [0 \<mapsto> d]"
    using new_data_page [OF assms(2,3)] by blast
  obtain s2 where w: "write_page ops i (into_page sp) s1 = (Inr (), s2)" "sound s2" "view s2 = (view s1)(i \<mapsto> raw sp)" "room s2 = room s1"
    using write_data_ok [OF a(3), of i sp] a(4) n(2) by auto
  let ?loc = "\<lparr>loc_page = i, loc_slot = 0\<rparr>"
  have v2: "view s2 = (view ?s)(i \<mapsto> raw sp)" using w(3) a(4) by simp
  have iD: "i \<notin> D" using cells_heapD [OF ih(2), of i] a(2) by auto
  have new: "C ?loc = None" using cells_heap_basic(4) [OF ih(2), of ?loc] iD by (cases "C ?loc") auto
  note fresh = cells_heap_new [OF ih(2) a(2) i0 n(2,3)]
  let ?rest = "\<lambda>old. if old \<noteq> 0 then
      bindA (with_store (read_data_page ops old)) (\<lambda>sp. bindA (liftA (is_empty sp)) (\<lambda>e.
        if e then bindA (modifyA (\<lambda>h. h\<lparr>free_map := free_remove old (free_map h)\<rparr>)) (\<lambda>_. with_store (free_page ops old)) else noting old sp))
      else retA ()"
  have run: "place_on_new ops d h = bindA (?rest ?cur) (\<lambda>_. retA ?loc) (h\<lparr>heap_store := s2, current := i\<rparr>)"
    using a(1) n(1) w(1) by (simp add: place_on_new_def cong: if_cong)
  have "\<exists>s' fm' D'. ?rest ?cur (h\<lparr>heap_store := s2, current := i\<rparr>) = (Inr (), h\<lparr>heap_store := s', current := i, free_map := fm'\<rparr>)
      \<and> sound s' \<and> retired (view ?s) ?cur ?fm D i fm' D' \<and> room s2 \<le> room s' \<and> (\<forall>j. j \<in> D' \<or> j \<notin> D \<longrightarrow> view s' j = view s2 j) \<and> (\<forall>j \<in> D - D'. view s' j = None)"
  proof (cases "?cur = 0")
    case True
    then show ?thesis using w(2) by (intro exI [of _ s2] exI [of _ ?fm] exI [of _ "insert i D"]) (auto simp: retired_def)
  next
    case False
    then have cD: "?cur \<in> D" "?cur \<noteq> i" using cells_heap_basic(2) [OF ih(2)] iD by auto
    obtain b where b: "view ?s ?cur = Some b" "data_page b" using cells_heapD [OF ih(2) cD(1)] by blast
    have "view s2 ?cur = Some b" using v2 b(1) cD(2) by simp
    then obtain sp0 s3 where r: "read_data_page ops ?cur s2 = (Inr sp0, s3)" "raw sp0 = b" "sound s3" "view s3 = view s2" "room s3 = room s2"
      using read_data_page_ok [OF w(2) _ b(2)] by blast
    have inv: "page_inv sp0" using data_pageD(1) [of sp0] b(2) r(2) by simp
    show ?thesis
    proof (cases "recs b = Map.empty")
      case True
      obtain s4 where f: "free_page ops ?cur s3 = (Inr (), s4)" "sound s4" "view s4 = (view s3)(?cur := None)" "room s3 \<le> room s4"
        using free_law [OF r(3), of ?cur] r(4) v2 b(1) cD(2) by auto
      then show ?thesis using True False r inv b(1) cD f(3)
        by (intro exI [of _ s4] exI [of _ "free_remove ?cur ?fm"] exI [of _ "insert i (D - {?cur})"]) (auto simp: retired_def is_empty_data iD)
    next
      case ne: False
      then show ?thesis using False r inv b(1)
        by (intro exI [of _ s3] exI [of _ "noted ?fm i ?cur (reclaimable b)"] exI [of _ "insert i D"]) (auto simp: retired_def is_empty_data)
    qed
  qed
  then obtain s' fm' D' where t: "?rest ?cur (h\<lparr>heap_store := s2, current := i\<rparr>) = (Inr (), h\<lparr>heap_store := s', current := i, free_map := fm'\<rparr>)"
    "sound s'" "retired (view ?s) ?cur ?fm D i fm' D'" "room s2 \<le> room s'" "\<forall>j. j \<in> D' \<or> j \<notin> D \<longrightarrow> view s' j = view s2 j" "\<forall>j \<in> D - D'. view s' j = None"
    by blast
  let ?h' = "h\<lparr>heap_store := s', current := i, free_map := fm'\<rparr>"
  have D': "i \<in> D'" "\<And>j. j \<in> D' \<Longrightarrow> j = i \<or> j \<in> D" using t(3) by (auto simp: retired_def split: if_splits)
  have "view s' i = Some (raw sp)" "\<And>j. j \<in> D' \<Longrightarrow> j \<noteq> i \<Longrightarrow> view s' j = view ?s j" using t(5) v2 D'(1) by auto
  then have "in_heap ?h' D' (C(?loc \<mapsto> d))" using fresh [OF t(3)] t(2) by (simp add: in_heap_def)
  moreover have "moved h ?h' D D'"
    unfolding moved_def
  proof (rule pages_movedI)
    show "j \<in> D \<or> view ?s j = None" if "j \<in> D'" for j using D'(2) [OF that] a(2) by auto
    show "view (heap_store ?h') j = None" if "j \<in> D" "j \<notin> D'" for j using t(6) that by simp
    show "view (heap_store ?h') j = view ?s j" if "j \<notin> D" "j \<notin> D'" for j using t(5) v2 D'(1) that by auto
  qed
  moreover have "place_on_new ops d h = (Inr ?loc, ?h')" unfolding run using t(1) by simp
  ultimately show ?thesis using new a(5) w(4) t(4) by (intro exI [of _ ?loc] exI [of _ ?h'] exI [of _ D']) simp
qed

lemma place_record_ok:
  assumes "in_heap h D C" "d \<noteq> []" "17 + length d \<le> 8188" "0 < room (heap_store h)"
  shows "\<exists>loc h' D'. place_record ops d h = (Inr loc, h') \<and> room (heap_store h) \<le> room (heap_store h') + 1
    \<and> C loc = None \<and> in_heap h' D' (C(loc \<mapsto> d)) \<and> moved h h' D D'"
proof -
  obtain r1 h1 where 1: "place_in_current ops d h = (Inr r1, h1)" "room (heap_store h1) = room (heap_store h)"
    "case r1 of None \<Rightarrow> in_heap h1 D C \<and> view (heap_store h1) = view (heap_store h) \<and> current h1 = current h
        | Some loc \<Rightarrow> C loc = None \<and> in_heap h1 D (C(loc \<mapsto> d)) \<and> moved h h1 D D"
    using place_in_current_ok [OF assms(1,2)] by blast
  show ?thesis
  proof (cases r1)
    case (Some loc)
    then show ?thesis using 1 by (intro exI [of _ loc] exI [of _ h1] exI [of _ D]) (simp add: place_record_def)
  next
    case None
    then have h1: "in_heap h1 D C" "view (heap_store h1) = view (heap_store h)" using 1(3) by simp_all
    obtain r2 h2 where 2: "place_in_free ops d h1 = (Inr r2, h2)" "room (heap_store h2) = room (heap_store h1)"
      "case r2 of None \<Rightarrow> in_heap h2 D C \<and> view (heap_store h2) = view (heap_store h1) \<and> current h2 = current h1
          | Some loc \<Rightarrow> C loc = None \<and> in_heap h2 D (C(loc \<mapsto> d)) \<and> moved h1 h2 D D"
      using place_in_free_ok [OF h1(1) assms(2)] assms(3) by auto
    show ?thesis
    proof (cases r2)
      case (Some loc)
      then show ?thesis using 1(1,2) 2 None h1(2) by (intro exI [of _ loc] exI [of _ h2] exI [of _ D]) (simp add: place_record_def moved_def)
    next
      case none2: None
      then have h2: "in_heap h2 D C" "view (heap_store h2) = view (heap_store h1)" using 2(3) by simp_all
      have "0 < room (heap_store h2)" using assms(4) 1(2) 2(2) by simp
      from place_on_new_ok [OF h2(1) assms(2,3) this] obtain loc h' D' where "place_on_new ops d h2 = (Inr loc, h')"
        "room (heap_store h2) \<le> room (heap_store h') + 1" "C loc = None" "in_heap h' D' (C(loc \<mapsto> d))" "moved h2 h' D D'" by blast
      then show ?thesis using 1(1,2) 2(1,2) None none2 h1(2) h2(2)
        by (intro exI [of _ loc] exI [of _ h'] exI [of _ D']) (simp add: place_record_def moved_def)
    qed
  qed
qed

end

end
