(* ===== verification/Chains.thy ===== *)
theory Chains
  imports Records
begin

text \<open>
  Overflow chains on a page store: what \<open>write_chain\<close> writes (\<open>chain_at\<close>), that \<open>walk_chain\<close> reads
  it back page by page, and that \<open>free_overflow_chain\<close> frees exactly its pages.
\<close>

lemma capacity [simp]: "OVERFLOW_CAPACITY = 8179" "OVERFLOW_HEADER_LEN = 9"
  by (simp_all add: OVERFLOW_CAPACITY_def OVERFLOW_HEADER_LEN_def page_consts)

lemma chunks_Nil [simp]: "overflow_chunks [] = []" "overflow_chunks bs = [] \<longleftrightarrow> bs = []"
  by (simp_all add: overflow_chunks.simps [of bs] overflow_chunks.simps [of "[]"])

lemma chunks_step: "bs \<noteq> [] \<Longrightarrow> overflow_chunks bs = take 8179 bs # overflow_chunks (drop 8179 bs)"
  by (simp add: overflow_chunks.simps [of bs])

lemma concat_overflow_chunks [simp]: "concat (overflow_chunks bs) = bs"
proof (induction bs rule: overflow_chunks.induct)
  case (1 bs)
  then show ?case by (cases "bs = []") (simp_all add: chunks_step)
qed

lemma length_chunk: "c \<in> set (overflow_chunks bs) \<Longrightarrow> length c \<le> 8179"
proof (induction bs rule: overflow_chunks.induct)
  case (1 bs)
  then show ?case by (cases "bs = []") (auto simp: chunks_step)
qed

lemma length_overflow_chunks: "length (overflow_chunks bs) = (length bs + 8178) div 8179"
proof (induction bs rule: overflow_chunks.induct)
  case (1 bs)
  show ?case
  proof (cases "bs = []")
    case False
    then have "length (overflow_chunks bs) = Suc ((length bs - 8179 + 8178) div 8179)" using 1 by (simp add: chunks_step)
    also have "\<dots> = (length bs + 8178) div 8179"
    proof (cases "8179 \<le> length bs")
      case True
      then have "length bs + 8178 = (length bs - 8179 + 8178) + 8179" by simp
      then show ?thesis by (metis Suc_eq_plus1 div_add_self2 zero_neq_numeral)
    next
      case small: False
      then have "(length bs + 8178) div 8179 = 1" using False by (intro div_nat_eqI) (cases bs, simp_all)
      then show ?thesis using small by simp
    qed
    finally show ?thesis .
  qed simp
qed

subsection \<open>One page of a chain\<close>

definition chunk_page :: "bytes \<Rightarrow> nat \<Rightarrow> bytes \<Rightarrow> bool" where
  "chunk_page b nxt c \<longleftrightarrow> b ! 0 = type_byte POverflow \<and> u_at 8 b 1 = nxt \<and> slice b 9 (length c) = c \<and> 9 + length c \<le> length b"

lemma overflow_page_chunk:
  assumes "nxt < 2 ^ 64" "length c \<le> 8179"
  shows "chunk_page (overflow_page nxt c) nxt c" "length (overflow_page nxt c) = USABLE_PAGE_SIZE"
proof -
  let ?z = "put (replicate 8188 0) 0 [type_byte POverflow]"
  let ?y = "put ?z 1 (le_bytes 8 nxt)"
  have l: "length ?z = 8188" "length ?y = 8188" by simp_all
  have eq: "overflow_page nxt c = put ?y 9 c" by (simp add: overflow_page_def page_consts)
  have lb: "length (put ?y 9 c) = 8188" using l(2) assms(2) by simp
  then show "length (overflow_page nxt c) = USABLE_PAGE_SIZE" by (simp add: eq page_consts)
  have "put ?y 9 c ! 0 = type_byte POverflow" using l assms(2) by (simp add: nth_put)
  moreover have "u_at 8 (put ?y 9 c) 1 = nxt" using l assms by (simp add: u_at_put_after u_at_put_same u_at_put_before)
  moreover have "slice (put ?y 9 c) 9 (length c) = c" using l assms(2) by simp
  ultimately show "chunk_page (overflow_page nxt c) nxt c" using lb assms(2) by (simp add: chunk_page_def eq)
qed

fun chain_at :: "(nat \<rightharpoonup> bytes) \<Rightarrow> nat \<Rightarrow> bytes list \<Rightarrow> nat list \<Rightarrow> bool" where
  "chain_at v first (c # cs) (i # ps) \<longleftrightarrow> i = first \<and> (\<exists>b nxt. v i = Some b \<and> chunk_page b nxt c
     \<and> (if cs = [] then ps = [] \<and> nxt = 0 else chain_at v nxt cs ps))"
| "chain_at v first _ _ \<longleftrightarrow> False"

lemma chain_at_cong: "chain_at v first cs ps \<Longrightarrow> (\<And>i. i \<in> set ps \<Longrightarrow> v' i = v i) \<Longrightarrow> chain_at v' first cs ps"
  by (induction v first cs ps rule: chain_at.induct) (auto split: if_splits)

lemma chain_at_hd: "chain_at v first cs ps \<Longrightarrow> first \<in> set ps \<and> v first \<noteq> None"
  by (cases cs; cases ps) auto

lemma chain_at_used: "chain_at v first cs ps \<Longrightarrow> i \<in> set ps \<Longrightarrow> v i \<noteq> None"
  by (induction v first cs ps rule: chain_at.induct) (auto split: if_splits)

fun links :: "(nat \<rightharpoonup> bytes) \<Rightarrow> bytes list \<Rightarrow> nat list \<Rightarrow> bool" where
  "links v (c # cs) (i # ps) \<longleftrightarrow> v i = Some (overflow_page (case ps of [] \<Rightarrow> 0 | j # _ \<Rightarrow> j) c) \<and> links v cs ps"
| "links v _ _ \<longleftrightarrow> True"

lemma links_chain:
  assumes "links v cs ps" "length ps = length cs" "cs \<noteq> []" "\<forall>c \<in> set cs. length c \<le> 8179" "\<forall>i \<in> set ps. i < 2 ^ 64"
  shows "chain_at v (hd ps) cs ps"
  using assms
proof (induction v cs ps rule: links.induct)
  case (1 v c cs i ps)
  let ?nxt = "case ps of [] \<Rightarrow> 0 | j # _ \<Rightarrow> j"
  have "?nxt < 2 ^ 64" using "1.prems"(5) by (auto split: list.splits)
  then have "chunk_page (overflow_page ?nxt c) ?nxt c" using "1.prems"(4) by (intro overflow_page_chunk) auto
  moreover have "if cs = [] then ps = [] \<and> ?nxt = 0 else chain_at v ?nxt cs ps"
    using 1 by (cases ps) auto
  ultimately have "v i = Some (overflow_page ?nxt c) \<and> chunk_page (overflow_page ?nxt c) ?nxt c \<and> (if cs = [] then ps = [] \<and> ?nxt = 0 else chain_at v ?nxt cs ps)"
    using "1.prems"(1) by simp
  then show ?case by (simp only: chain_at.simps(1) list.sel(1)) blast
qed auto

context page_store begin

lemma allocate_each_ok:
  assumes "sound s" "length cs \<le> room s"
  shows "\<exists>ps s'. allocate_each ops cs s = (Inr ps, s') \<and> length ps = length cs \<and> distinct ps \<and> sound s' \<and> room s \<le> room s' + length cs
    \<and> (\<forall>i \<in> set ps. view s i = None \<and> view s' i \<noteq> None) \<and> (\<forall>i. i \<notin> set ps \<longrightarrow> view s' i = view s i)"
  using assms
proof (induction cs arbitrary: s)
  case (Cons c cs)
  obtain i b s1 where a: "allocate_page ops s = (Inr i, s1)" "view s i = None" "sound s1" "view s1 = (view s)(i \<mapsto> b)" "room s \<le> room s1 + 1"
    using allocate_law [OF Cons.prems(1)] Cons.prems(2) by auto
  have "length cs \<le> room s1" using Cons.prems(2) a(5) by simp
  from Cons.IH [OF a(3) this] obtain ps s' where p: "allocate_each ops cs s1 = (Inr ps, s')" "length ps = length cs" "distinct ps" "sound s'"
    "room s1 \<le> room s' + length cs" "\<forall>i \<in> set ps. view s1 i = None \<and> view s' i \<noteq> None" "\<forall>i. i \<notin> set ps \<longrightarrow> view s' i = view s1 i" by blast
  have i: "i \<notin> set ps" using p(6) a(4) by auto
  have "\<forall>j \<in> set (i # ps). view s j = None \<and> view s' j \<noteq> None" using p(6,7) a(2,4) i by (auto split: if_splits)
  moreover have "\<forall>j. j \<notin> set (i # ps) \<longrightarrow> view s' j = view s j" using p(7) a(4) by auto
  ultimately show ?case using a(1,5) p(1-5) i by (intro exI [of _ "i # ps"] exI [of _ s']) simp
qed auto

lemma write_links_ok:
  assumes "sound s" "length ps = length cs" "distinct ps" "\<forall>i \<in> set ps. view s i \<noteq> None" "\<forall>c \<in> set cs. length c \<le> 8179"
  shows "\<exists>s'. write_links ops cs ps s = (Inr (), s') \<and> sound s' \<and> room s' = room s \<and> links (view s') cs ps \<and> (\<forall>i. i \<notin> set ps \<longrightarrow> view s' i = view s i)"
  using assms(2,1,3-)
proof (induction ps cs arbitrary: s rule: list_induct2)
  case (Cons i ps c cs)
  let ?b = "overflow_page (case ps of [] \<Rightarrow> 0 | j # _ \<Rightarrow> j) c"
  have "(case ps of [] \<Rightarrow> 0 | j # _ \<Rightarrow> j) < 2 ^ 64" using Cons.prems(1,3) view_page [of s "hd ps"] by (cases ps) auto
  then have "length (page_bytes (page_from ?b)) = USABLE_PAGE_SIZE" using overflow_page_chunk(2) [of _ c] Cons.prems(4) by (simp add: page_from_def)
  then obtain s1 where w: "write_page ops i (page_from ?b) s = (Inr (), s1)" "sound s1" "view s1 = (view s)(i \<mapsto> ?b)" "room s1 = room s"
    using write_law [OF Cons.prems(1), of i "page_from ?b"] Cons.prems(3) by (auto simp: page_from_def)
  have "\<exists>s'. write_links ops cs ps s1 = (Inr (), s') \<and> sound s' \<and> room s' = room s1 \<and> links (view s') cs ps \<and> (\<forall>i. i \<notin> set ps \<longrightarrow> view s' i = view s1 i)"
    by (rule Cons.IH) (use w Cons.prems in auto)
  then obtain s' where s': "write_links ops cs ps s1 = (Inr (), s')" "sound s'" "room s' = room s1" "links (view s') cs ps" "\<forall>i. i \<notin> set ps \<longrightarrow> view s' i = view s1 i"
    by blast
  have "view s' i = Some ?b" using s'(5) w(3) Cons.prems(2) by simp
  then show ?case using w s' by auto
qed auto

lemma write_chain_ok:
  assumes "sound s" "bs \<noteq> []" "length (overflow_chunks bs) \<le> room s"
  shows "\<exists>first ps s'. write_chain ops bs s = (Inr first, s') \<and> sound s' \<and> chain_at (view s') first (overflow_chunks bs) ps \<and> distinct ps
    \<and> (\<forall>i \<in> set ps. view s i = None) \<and> (\<forall>i. i \<notin> set ps \<longrightarrow> view s' i = view s i) \<and> room s \<le> room s' + length (overflow_chunks bs) \<and> first < 2 ^ 64"
proof -
  obtain ps s1 where a: "allocate_each ops (overflow_chunks bs) s = (Inr ps, s1)" "length ps = length (overflow_chunks bs)" "distinct ps" "sound s1"
    "room s \<le> room s1 + length (overflow_chunks bs)" "\<forall>i \<in> set ps. view s i = None \<and> view s1 i \<noteq> None" "\<forall>i. i \<notin> set ps \<longrightarrow> view s1 i = view s i"
    using allocate_each_ok [OF assms(1,3)] by blast
  have u: "\<forall>i \<in> set ps. view s1 i \<noteq> None" "\<forall>c \<in> set (overflow_chunks bs). length c \<le> 8179" using a(6) length_chunk by auto
  obtain s' where w: "write_links ops (overflow_chunks bs) ps s1 = (Inr (), s')" "sound s'" "room s' = room s1" "links (view s') (overflow_chunks bs) ps"
    "\<forall>i. i \<notin> set ps \<longrightarrow> view s' i = view s1 i"
    using write_links_ok [OF a(4,2,3) u] by blast
  have lt: "\<forall>i \<in> set ps. i < 2 ^ 64" using u(1) view_page [OF a(4)] by blast
  obtain i ps' where ps: "ps = i # ps'" using a(2) assms(2) by (cases ps) auto
  have "chain_at (view s') (hd ps) (overflow_chunks bs) ps" using links_chain [OF w(4) a(2) _ u(2) lt] assms(2) by simp
  moreover have "write_chain ops bs s = (Inr i, s')" using a(1) w(1) ps by (simp add: write_chain_def)
  moreover have "\<forall>i. i \<notin> set ps \<longrightarrow> view s' i = view s i" using a(7) w(5) by simp
  ultimately show ?thesis using a(3,5,6) w(2,3) ps lt by (intro exI [of _ i] exI [of _ ps] exI [of _ s']) simp
qed

lemma walk_chain_loop_ok:
  assumes "sound s" "bs \<noteq> []" "chain_at (view s) first (overflow_chunks bs) ps" "distinct ps" "set ps \<inter> seen = {}"
  shows "\<exists>s'. walk_chain_loop ops first (length bs) seen visited s = (Inr (visited @ zip ps (overflow_chunks bs)), s') \<and> sound s' \<and> view s' = view s \<and> room s' = room s"
  using assms
proof (induction bs arbitrary: s first ps seen visited rule: overflow_chunks.induct)
  case (1 bs)
  let ?c = "take 8179 bs" and ?r = "drop 8179 bs"
  have ch: "overflow_chunks bs = ?c # overflow_chunks ?r" using chunks_step [OF "1.prems"(2)] .
  obtain ps' b nxt where p: "ps = first # ps'" "view s first = Some b" "chunk_page b nxt ?c" "if ?r = [] then ps' = [] \<and> nxt = 0 else chain_at (view s) nxt (overflow_chunks ?r) ps'"
    using "1.prems"(3) ch by (cases ps) auto
  obtain q s1 where r: "read_page ops first s = (Inr q, s1)" "page_bytes q = b" "sound s1" "view s1 = view s" "room s1 = room s"
    using read_law [OF "1.prems"(1) p(2)] by blast
  have lc: "min (length bs) 8179 = length ?c" by simp
  have sl: "slice_at b 9 (length ?c) = Inr ?c" using p(3) unfolding chunk_page_def by simp
  have left: "length bs - length ?c = length ?r" by simp
  have fs: "first \<notin> seen" using "1.prems"(5) p(1) by simp
  have step: "walk_chain_loop ops first (length bs) seen visited s =
      (if ?r = [] then (if nxt = 0 then retA (visited @ [(first, ?c)]) else failA (Io InvalidData))
       else if nxt = 0 then failA (Io InvalidData) else walk_chain_loop ops nxt (length ?r) (insert first seen) (visited @ [(first, ?c)])) s1"
    using p(3) r(1,2) fs unfolding walk_chain_loop.simps [of ops first "length bs"] capacity lc
    by (simp add: chunk_page_def Let_def sl left)
  show ?case
  proof (cases "?r = []")
    case True
    then show ?thesis using step p(1,4) r(3-5) ch by (intro exI [of _ s1]) simp
  next
    case False
    then have c: "chain_at (view s1) nxt (overflow_chunks ?r) ps'" using p(4) r(4) by simp
    then have "nxt \<noteq> 0" using chain_at_hd [OF c] view_page [OF r(3), of nxt] by auto
    moreover have "\<exists>s'. walk_chain_loop ops nxt (length ?r) (insert first seen) (visited @ [(first, ?c)]) s1
        = (Inr ((visited @ [(first, ?c)]) @ zip ps' (overflow_chunks ?r)), s') \<and> sound s' \<and> view s' = view s1 \<and> room s' = room s1"
      using "1.IH" [OF "1.prems"(2) r(3) _ _ , of nxt ps' "insert first seen" "visited @ [(first, ?c)]"] False c "1.prems"(4,5) p(1) by auto
    ultimately show ?thesis using step False r(4,5) ch p(1) by simp
  qed
qed

lemma walk_chain_ok:
  assumes "sound s" "bs \<noteq> []" "chain_at (view s) first (overflow_chunks bs) ps" "distinct ps"
  shows "\<exists>s'. walk_chain ops first (length bs) s = (Inr (zip ps (overflow_chunks bs)), s') \<and> sound s' \<and> view s' = view s \<and> room s' = room s"
  using walk_chain_loop_ok [OF assms, of "{}" "[]"] by (simp add: walk_chain_def)

lemma chain_at_length: "chain_at v first cs ps \<Longrightarrow> length ps = length cs"
  by (induction v first cs ps rule: chain_at.induct) (auto split: if_splits)

lemma free_overflow_chain_ok:
  assumes "sound s" "bs \<noteq> []" "chain_at (view s) first (overflow_chunks bs) ps" "distinct ps"
  shows "\<exists>s'. free_overflow_chain ops first (length bs) s = (Inr (), s') \<and> sound s' \<and> view s' = (\<lambda>i. if i \<in> set ps then None else view s i) \<and> room s \<le> room s'"
proof -
  obtain s1 where w: "walk_chain ops first (length bs) s = (Inr (zip ps (overflow_chunks bs)), s1)" "sound s1" "view s1 = view s" "room s1 = room s"
    using walk_chain_ok [OF assms] by blast
  have m: "map fst (zip ps (overflow_chunks bs)) = ps" using chain_at_length [OF assms(3)] by simp
  have "view s1 i \<noteq> None" if "i \<in> set ps" for i using chain_at_used [OF assms(3) that] w(3) by simp
  from free_each_ok [OF w(2) assms(4) this] obtain s' where "free_each ops ps s1 = (Inr (), s')" "sound s'"
    "view s' = (\<lambda>i. if i \<in> set ps then None else view s1 i)" "room s1 \<le> room s'" by blast
  then show ?thesis using w(1,4) m unfolding w(3) by (simp add: free_overflow_chain_def)
qed

end

end
