(* ===== verification/Docheap.thy ===== *)
theory Docheap
  imports Heapops Chains Filestore
begin

text \<open>
  A collection's documents: \<open>heap_holds\<close> says that the heap's data pages and overflow chains hold
  the documents \<open>docs\<close>, a map from locations to ids and encoded documents. Inserting, replacing,
  deleting and reading a document (\<open>src/src/data.rs\<close>) are the operations on that map, on any page
  store and so on the file store.
\<close>

subsection \<open>The documents of a heap\<close>

definition stored_as :: "(nat \<rightharpoonup> bytes) \<Rightarrow> docid \<Rightarrow> bytes \<Rightarrow> nat list \<Rightarrow> bytes \<Rightarrow> bool" where
  "stored_as v i enc ps d \<longleftrightarrow> length i = 16 \<and> (ps = [] \<and> d = INLINE # i @ enc
     \<or> (\<exists>first. enc \<noteq> [] \<and> length enc < 2 ^ 32 \<and> first < 2 ^ 64 \<and> d = OVERFLOW # i @ le_bytes 4 (length enc) @ le_bytes 8 first
          \<and> chain_at v first (overflow_chunks enc) ps))"

lemma parse_inline: "length i = 16 \<Longrightarrow> parse_cell (INLINE # i @ enc) = Inr (Inline i enc)"
  by (simp add: parse_cell_def)

lemma parse_overflow:
  "length i = 16 \<Longrightarrow> n < 2 ^ 32 \<Longrightarrow> first < 2 ^ 64 \<Longrightarrow> parse_cell (OVERFLOW # i @ le_bytes 4 n @ le_bytes 8 first) = Inr (Overflow i n first)"
  using take_array_append [of "le_bytes 8 first" 8 "[]"]
  by (simp add: parse_cell_def INLINE_def OVERFLOW_def take_u64_def)

lemma stored_as_cases:
  assumes "stored_as v i enc ps d"
  obtains "parse_cell d = Inr (Inline i enc)" "ps = []" "d = INLINE # i @ enc" "length i = 16"
  | first where "parse_cell d = Inr (Overflow i (length enc) first)" "enc \<noteq> []" "chain_at v first (overflow_chunks enc) ps"
  using assms parse_inline parse_overflow unfolding stored_as_def by metis

lemma stored_as_cong: "stored_as v i enc ps d \<Longrightarrow> (\<And>j. j \<in> set ps \<Longrightarrow> v' j = v j) \<Longrightarrow> stored_as v' i enc ps d"
  unfolding stored_as_def using chain_at_cong by metis

type_synonym chains = "location \<Rightarrow> nat list"
type_synonym documents = "location \<rightharpoonup> docid \<times> bytes"

definition chains_apart :: "nat set \<Rightarrow> chains \<Rightarrow> bool" where
  "chains_apart D ch \<longleftrightarrow> (\<forall>loc. distinct (ch loc) \<and> set (ch loc) \<inter> D = {} \<and> (\<forall>loc'. loc \<noteq> loc' \<longrightarrow> set (ch loc) \<inter> set (ch loc') = {}))"

definition doc_at :: "(nat \<rightharpoonup> bytes) \<Rightarrow> bytes option \<Rightarrow> nat list \<Rightarrow> (docid \<times> bytes) option \<Rightarrow> bool" where
  "doc_at v c ps x \<longleftrightarrow> (case x of
       None \<Rightarrow> c = None \<and> ps = []
     | Some (i, enc) \<Rightarrow> \<exists>d. c = Some d \<and> stored_as v i enc ps d)"

lemma doc_at_simps [simp]: "doc_at v c ps None \<longleftrightarrow> c = None \<and> ps = []"
  "doc_at v c ps (Some (i, enc)) \<longleftrightarrow> (\<exists>d. c = Some d \<and> stored_as v i enc ps d)"
  by (simp_all add: doc_at_def)

lemma doc_at_cong: "doc_at v c ps x \<Longrightarrow> (\<And>j. j \<in> set ps \<Longrightarrow> v' j = v j) \<Longrightarrow> doc_at v' c ps x"
  using stored_as_cong [of v _ _ ps _ v'] by (cases x) auto

definition docs_in :: "(nat \<rightharpoonup> bytes) \<Rightarrow> (location \<rightharpoonup> bytes) \<Rightarrow> chains \<Rightarrow> documents \<Rightarrow> bool" where
  "docs_in v C ch docs \<longleftrightarrow> (\<forall>loc. doc_at v (C loc) (ch loc) (docs loc))"

definition owned :: "nat set \<Rightarrow> chains \<Rightarrow> nat set" where
  "owned D ch = D \<union> (\<Union>loc. set (ch loc))"

text \<open>A collection's state: the pages \<open>D\<close>, the chains \<open>ch\<close>, the documents \<open>docs\<close>.\<close>

definition heap_at :: "(nat \<rightharpoonup> bytes) \<Rightarrow> nat \<Rightarrow> room_map \<Rightarrow> nat set \<Rightarrow> chains \<Rightarrow> documents \<Rightarrow> bool" where
  "heap_at v cur fm D ch docs \<longleftrightarrow> (\<exists>C. cells_heap v cur fm D C \<and> docs_in v C ch docs) \<and> chains_apart D ch"

lemma docs_in_Some: "docs_in v C ch docs \<Longrightarrow> docs loc = Some (i, enc) \<Longrightarrow> \<exists>d. C loc = Some d \<and> stored_as v i enc (ch loc) d"
  unfolding docs_in_def by (drule spec [of _ loc]) simp

lemma docs_in_None: "docs_in v C ch docs \<Longrightarrow> C loc = None \<longleftrightarrow> docs loc = None"
  unfolding docs_in_def by (drule spec [of _ loc]) (cases "docs loc", auto)

lemma docs_in_no_chain: "docs_in v C ch docs \<Longrightarrow> docs loc = None \<Longrightarrow> ch loc = []"
  unfolding docs_in_def by (drule spec [of _ loc]) simp

lemma docs_in_cong: "docs_in v C ch docs \<Longrightarrow> (\<And>loc i. i \<in> set (ch loc) \<Longrightarrow> v' i = v i) \<Longrightarrow> docs_in v' C ch docs"
  unfolding docs_in_def using doc_at_cong by metis

lemma docs_in_put: "docs_in v C ch docs \<Longrightarrow> stored_as v i enc ps d \<Longrightarrow> docs_in v (C(loc \<mapsto> d)) (ch(loc := ps)) (docs(loc \<mapsto> (i, enc)))"
  unfolding docs_in_def by simp

lemma docs_in_remove: "docs_in v C ch docs \<Longrightarrow> docs_in v (C(loc := None)) (ch(loc := [])) (docs(loc := None))"
  unfolding docs_in_def by simp

lemma chains_apart_put:
  assumes "chains_apart D ch" "distinct ps" "set ps \<inter> D = {}" "\<And>l. l \<noteq> loc \<Longrightarrow> set ps \<inter> set (ch l) = {}"
  shows "chains_apart D (ch(loc := ps))"
  unfolding chains_apart_def
proof (intro allI conjI impI)
  fix l l' :: location assume "l \<noteq> l'"
  then show "set ((ch(loc := ps)) l) \<inter> set ((ch(loc := ps)) l') = {}"
    using assms(1,4) unfolding chains_apart_def by (cases "l = loc"; cases "l' = loc") (auto simp: Int_commute)
qed (use assms in \<open>auto simp: chains_apart_def\<close>)

lemma chains_apart_remove: "chains_apart D ch \<Longrightarrow> chains_apart D (ch(loc := []))"
  by (rule chains_apart_put) simp_all

lemma chains_apart_cong: "chains_apart D ch \<Longrightarrow> (\<And>loc i. i \<in> set (ch loc) \<Longrightarrow> i \<notin> D') \<Longrightarrow> chains_apart D' ch"
  unfolding chains_apart_def by blast

lemma docs_in_used: "docs_in v C ch docs \<Longrightarrow> i \<in> set (ch loc) \<Longrightarrow> v i \<noteq> None"
proof -
  assume d: "docs_in v C ch docs" and i: "i \<in> set (ch loc)"
  then obtain j enc where "docs loc = Some (j, enc)" using docs_in_no_chain [OF d, of loc] by (cases "docs loc") auto
  then obtain c where "stored_as v j enc (ch loc) c" using docs_in_Some [OF d] by blast
  then show ?thesis using i chain_at_used unfolding stored_as_def by fastforce
qed

lemma pages_moved_union: "pages_moved v v' D D' \<Longrightarrow> pages_moved v v' (D \<union> X) (D' \<union> X)"
  by (rule pages_movedI) (unfold pages_moved_def, simp_all, (metis DiffI)+)

lemma in_owned: "i \<in> set (ch loc) \<Longrightarrow> i \<in> owned D ch"
  by (auto simp: owned_def)

lemma owned_put: "ch loc = [] \<Longrightarrow> owned D (ch(loc := ps)) = owned D ch \<union> set ps"
  by (auto simp: owned_def split: if_splits) (metis empty_iff list.set(1))

subsection \<open>The operations\<close>

context page_store begin

definition heap_holds where
  "heap_holds h D ch docs \<longleftrightarrow> sound (heap_store h) \<and> heap_at (view (heap_store h)) (current h) (free_map h) D ch docs"

lemma heap_holdsD:
  assumes "heap_holds h D ch docs"
  obtains C where "in_heap h D C" "docs_in (view (heap_store h)) C ch docs" "chains_apart D ch"
  using assms unfolding heap_holds_def heap_at_def in_heap_def by blast

lemma heap_holdsI: "in_heap h D C \<Longrightarrow> docs_in (view (heap_store h)) C ch docs \<Longrightarrow> chains_apart D ch \<Longrightarrow> heap_holds h D ch docs"
  unfolding heap_holds_def heap_at_def in_heap_def by blast

lemma in_heap_used: "in_heap h D C \<Longrightarrow> i \<in> D \<Longrightarrow> view (heap_store h) i \<noteq> None"
  using cells_heapD [OF in_heapD(2), of h D C i] by (metis option.distinct(1))

lemma has_room_new: "has_room_for (slotted_new PData) n \<longleftrightarrow> n \<le> 8171"
proof -
  have n: "page_inv (slotted_new PData)" "cells (raw (slotted_new PData)) = []" using slotted_new_inv [of PData] by (simp_all add: is_slotted_def)
  have c: "cnt (raw (slotted_new PData)) = 0" using arg_cong [OF n(2), of length] by simp
  have ds: "Slotted.ds (raw (slotted_new PData)) = 8188" by (simp add: slotted_new_def Slotted.ds_def u_at_put_same page_consts Let_def page_from_def)
  show ?thesis by (auto simp: has_room_for_def accessors c ds slot_offset_eq SLOT_LEN_def)
qed

lemma write_cell_ok:
  assumes "sound s" "length i = 16" "length (encode_stored doc) < 2 ^ 32" "length (overflow_chunks (encode_stored doc)) \<le> room s"
  shows "\<exists>d ps s'. write_cell ops i doc s = (Inr d, s') \<and> sound s' \<and> stored_as (view s') i (encode_stored doc) ps d \<and> distinct ps
    \<and> (\<forall>j \<in> set ps. view s j = None) \<and> (\<forall>j. j \<notin> set ps \<longrightarrow> view s' j = view s j) \<and> d \<noteq> [] \<and> 17 + length d \<le> 8188
    \<and> room s \<le> room s' + length (overflow_chunks (encode_stored doc))"
proof -
  let ?e = "encode_stored doc"
  have rm: "has_room_for (slotted_new PData) (CELL_HEADER_LEN + length ?e) \<longleftrightarrow> length ?e \<le> 8154" by (auto simp: has_room_new CELL_HEADER_LEN_def)
  show ?thesis
  proof (cases "length ?e \<le> 8154")
    case True
    then have "write_cell ops i doc s = (Inr (INLINE # i @ ?e), s)" using rm by (simp add: write_cell_def Let_def)
    then show ?thesis using assms True by (intro exI [of _ "INLINE # i @ ?e"] exI [of _ "[]"] exI [of _ s]) (simp add: stored_as_def)
  next
    case False
    then have ne: "?e \<noteq> []" by auto
    obtain first ps s' where w: "write_chain ops ?e s = (Inr first, s')" "sound s'" "chain_at (view s') first (overflow_chunks ?e) ps" "distinct ps"
      "\<forall>i \<in> set ps. view s i = None" "\<forall>i. i \<notin> set ps \<longrightarrow> view s' i = view s i" "room s \<le> room s' + length (overflow_chunks ?e)" "first < 2 ^ 64"
      using write_chain_ok [OF assms(1) ne assms(4)] by blast
    let ?d = "OVERFLOW # i @ le_bytes 4 (length ?e) @ le_bytes 8 first"
    have "write_cell ops i doc s = (Inr ?d, s')" using w(1) False rm assms(3) by (simp add: write_cell_def Let_def)
    moreover have "stored_as (view s') i ?e ps ?d" unfolding stored_as_def using w(3,8) assms(2,3) ne by blast
    ultimately show ?thesis using w(2,4-7) assms(2) by (intro exI [of _ ?d] exI [of _ ps] exI [of _ s']) simp
  qed
qed

text \<open>A cell written (\<open>write_cell\<close>) before it is placed: its chain is new.\<close>

lemma placed_docs:
  assumes "in_heap h D C" "docs_in (view (heap_store h)) C ch docs" "chains_apart D ch" "stored_as (view (heap_store h)) i enc ps d" "distinct ps"
    and "set ps \<inter> owned D ch = {}" "d \<noteq> []" "17 + length d \<le> 8188" "0 < room (heap_store h)"
  shows "\<exists>loc h' D'. place_record ops d h = (Inr loc, h') \<and> docs loc = None \<and> heap_holds h' D' (ch(loc := ps)) (docs(loc \<mapsto> (i, enc)))
    \<and> pages_moved (view (heap_store h)) (view (heap_store h')) (owned D ch \<union> set ps) (owned D' (ch(loc := ps)))
    \<and> room (heap_store h) \<le> room (heap_store h') + 1"
proof -
  let ?v = "view (heap_store h)"
  obtain loc h' D' where p: "place_record ops d h = (Inr loc, h')" "room (heap_store h) \<le> room (heap_store h') + 1"
    "C loc = None" "in_heap h' D' (C(loc \<mapsto> d))" "moved h h' D D'"
    using place_record_ok [OF assms(1,7-9)] by blast
  let ?v' = "view (heap_store h')"
  have m: "pages_moved ?v ?v' D D'" using p(5) by (simp add: moved_def)
  have dl: "docs loc = None" "ch loc = []" using docs_in_None [OF assms(2)] docs_in_no_chain [OF assms(2)] p(3) by simp_all
  have old: "j \<notin> D' \<and> ?v' j = ?v j" if "j \<in> set (ch l)" for j l
    using pages_moved_kept [OF m] docs_in_used [OF assms(2) that] assms(3) that unfolding chains_apart_def by blast
  have used: "?v j \<noteq> None" if "j \<in> set ps" for j using assms(4) that chain_at_used unfolding stored_as_def by fastforce
  have new: "j \<notin> D' \<and> ?v' j = ?v j" if "j \<in> set ps" for j
    using pages_moved_kept [OF m _ used [OF that]] assms(6) that unfolding owned_def by blast
  have "docs_in ?v' C ch docs" using docs_in_cong [OF assms(2)] old by blast
  moreover have "stored_as ?v' i enc ps d" using stored_as_cong [OF assms(4)] new by blast
  ultimately have "docs_in ?v' (C(loc \<mapsto> d)) (ch(loc := ps)) (docs(loc \<mapsto> (i, enc)))" by (rule docs_in_put)
  moreover have "chains_apart D' ch" using chains_apart_cong [OF assms(3)] old by blast
  then have "chains_apart D' (ch(loc := ps))"
    by (rule chains_apart_put) (use assms(5,6) new in \<open>auto simp: owned_def\<close>)
  ultimately have "heap_holds h' D' (ch(loc := ps)) (docs(loc \<mapsto> (i, enc)))" using heap_holdsI p(4) by blast
  moreover have "pages_moved ?v ?v' (owned D ch \<union> set ps) (owned D' (ch(loc := ps)))"
    using pages_moved_union [OF m, of "(\<Union>l. set (ch l)) \<union> set ps"] dl(2) unfolding owned_put [of ch loc, OF dl(2)] by (simp add: owned_def Un_assoc)
  ultimately show ?thesis using p(1,2) dl(1) by blast
qed

lemma in_heap_store: "in_heap h D C \<Longrightarrow> sound s' \<Longrightarrow> (\<And>i. i \<in> D \<Longrightarrow> view s' i = view (heap_store h) i) \<Longrightarrow> in_heap (h\<lparr>heap_store := s'\<rparr>) D C"
  unfolding in_heap_def using cells_heap_cong by auto

lemma owned_used:
  assumes "in_heap h D C" "docs_in (view (heap_store h)) C ch docs" "i \<in> owned D ch" shows "view (heap_store h) i \<noteq> None"
  using in_heap_used [OF assms(1)] docs_in_used [OF assms(2)] assms(3) by (auto simp: owned_def)

lemma insert_record_ok:
  assumes "heap_holds h D ch docs" "length i = 16" "length (encode_stored doc) < 2 ^ 32" "length (overflow_chunks (encode_stored doc)) < room (heap_store h)"
  shows "\<exists>loc h' D' ps. insert_record ops i doc h = (Inr loc, h') \<and> docs loc = None
    \<and> heap_holds h' D' (ch(loc := ps)) (docs(loc \<mapsto> (i, encode_stored doc)))
    \<and> pages_moved (view (heap_store h)) (view (heap_store h')) (owned D ch) (owned D' (ch(loc := ps)))
    \<and> room (heap_store h) \<le> room (heap_store h') + length (overflow_chunks (encode_stored doc)) + 1"
proof -
  let ?v = "view (heap_store h)"
  obtain C where C: "in_heap h D C" "docs_in ?v C ch docs" "chains_apart D ch" using heap_holdsD [OF assms(1)] by blast
  obtain d ps s1 where w: "write_cell ops i doc (heap_store h) = (Inr d, s1)" "sound s1" "stored_as (view s1) i (encode_stored doc) ps d" "distinct ps"
    "\<forall>j \<in> set ps. ?v j = None" "\<forall>j. j \<notin> set ps \<longrightarrow> view s1 j = ?v j" "d \<noteq> []" "17 + length d \<le> 8188"
    "room (heap_store h) \<le> room s1 + length (overflow_chunks (encode_stored doc))"
    using write_cell_ok [OF in_heapD(1) [OF C(1)] assms(2,3)] assms(4) by (metis less_imp_le)
  let ?h1 = "h\<lparr>heap_store := s1\<rparr>"
  have o: "set ps \<inter> owned D ch = {}" using owned_used [OF C(1,2)] w(5) by blast
  have same: "view s1 j = ?v j" if "j \<in> owned D ch" for j using o that w(6) by blast
  have "in_heap ?h1 D C" by (rule in_heap_store [OF C(1) w(2)]) (use same in \<open>simp add: owned_def\<close>)
  moreover have "docs_in (view (heap_store ?h1)) C ch docs" using docs_in_cong [OF C(2), of "view s1"] same by (auto simp: owned_def)
  ultimately obtain loc h' D' where p: "place_record ops d ?h1 = (Inr loc, h')" "docs loc = None" "heap_holds h' D' (ch(loc := ps)) (docs(loc \<mapsto> (i, encode_stored doc)))"
    "pages_moved (view s1) (view (heap_store h')) (owned D ch \<union> set ps) (owned D' (ch(loc := ps)))" "room s1 \<le> room (heap_store h') + 1"
    using placed_docs [of ?h1 D C ch docs i "encode_stored doc" ps d] C(3) w(3,4,7-9) o assms(4) by auto
  have "pages_moved ?v (view s1) (owned D ch) (owned D ch \<union> set ps)" by (rule pages_movedI) (use w(5,6) in auto)
  from pages_moved_trans [OF this p(4)] have "pages_moved ?v (view (heap_store h')) (owned D ch) (owned D' (ch(loc := ps)))" .
  moreover have "insert_record ops i doc h = (Inr loc, h')" using w(1) p(1) by (simp add: insert_record_def)
  moreover have "room (heap_store h) \<le> room (heap_store h') + length (overflow_chunks (encode_stored doc)) + 1" using w(9) p(5) by simp
  ultimately show ?thesis using p(2,3) by blast
qed

text \<open>The chain of the document at \<open>loc\<close> freed; its cell is still there.\<close>

lemma open_record_ok:
  assumes "in_heap h D C" "docs_in (view (heap_store h)) C ch docs" "chains_apart D ch" "docs loc = Some (j, old)"
  shows "\<exists>sp s'. open_record ops loc h = (Inr sp, h\<lparr>heap_store := s'\<rparr>) \<and> data_page (raw sp) \<and> view s' (loc_page loc) = Some (raw sp)
    \<and> loc_page loc \<in> D \<and> recs (raw sp) (loc_slot loc) \<noteq> None \<and> in_heap (h\<lparr>heap_store := s'\<rparr>) D C
    \<and> (\<forall>slot. C \<lparr>loc_page = loc_page loc, loc_slot = slot\<rparr> = recs (raw sp) slot)
    \<and> docs_in (view s') (C(loc := None)) (ch(loc := [])) (docs(loc := None)) \<and> room (heap_store h) \<le> room s'
    \<and> view s' = (\<lambda>i. if i \<in> set (ch loc) then None else view (heap_store h) i)"
proof -
  let ?s = "heap_store h" and ?i = "loc_page loc"
  note ih = in_heapD [OF assms(1)]
  obtain d where d: "C loc = Some d" "stored_as (view ?s) j old (ch loc) d" using docs_in_Some [OF assms(2,4)] by blast
  have iD: "?i \<in> D" using cells_heap_cell [OF ih(2) d(1)] by blast
  obtain b where b: "view ?s ?i = Some b" "data_page b" "\<And>slot. C \<lparr>loc_page = ?i, loc_slot = slot\<rparr> = recs b slot"
    using cells_heapD [OF ih(2) iD] by blast
  have bd: "recs b (loc_slot loc) = Some d" using b(3) [of "loc_slot loc"] d(1) by (cases loc) simp
  obtain sp s1 where r: "read_data_page ops ?i ?s = (Inr sp, s1)" "raw sp = b" "sound s1" "view s1 = view ?s" "room s1 = room ?s"
    using read_data_page_ok [OF ih(1) b(1,2)] by blast
  have inv: "page_inv sp" using data_pageD(1) [of sp] b(2) r(2) by simp
  have live: "live_record sp loc = Inr d" using bd r(2) by (simp add: live_record_def cell_map_get [OF inv])
  have "\<exists>s'. open_record ops loc h = (Inr sp, h\<lparr>heap_store := s'\<rparr>) \<and> sound s' \<and> room ?s \<le> room s'
      \<and> view s' = (\<lambda>i. if i \<in> set (ch loc) then None else view ?s i)"
  proof (rule stored_as_cases [OF d(2)])
    assume "parse_cell d = Inr (Inline j old)" "ch loc = []"
    then show ?thesis using r live by (intro exI [of _ s1]) (simp add: open_record_def cell_chain_def)
  next
    fix first assume c: "parse_cell d = Inr (Overflow j (length old) first)" "old \<noteq> []" "chain_at (view ?s) first (overflow_chunks old) (ch loc)"
    have "distinct (ch loc)" using assms(3) by (simp add: chains_apart_def)
    then obtain s' where "free_overflow_chain ops first (length old) s1 = (Inr (), s')" "sound s'"
      "view s' = (\<lambda>i. if i \<in> set (ch loc) then None else view s1 i)" "room s1 \<le> room s'"
      using free_overflow_chain_ok [OF r(3) c(2), of first "ch loc"] c(3) r(4) by auto
    then show ?thesis using r(1,2,5) live c(1) unfolding r(4) by (intro exI [of _ s']) (simp add: open_record_def cell_chain_def)
  qed
  then obtain s' where o: "open_record ops loc h = (Inr sp, h\<lparr>heap_store := s'\<rparr>)" "sound s'" "room ?s \<le> room s'"
      "view s' = (\<lambda>i. if i \<in> set (ch loc) then None else view ?s i)" by blast
  have apart: "i \<notin> set (ch loc)" if "i \<in> D" for i using assms(3) that unfolding chains_apart_def by blast
  have "in_heap (h\<lparr>heap_store := s'\<rparr>) D C" by (rule in_heap_store [OF assms(1) o(2)]) (use o(4) apart in simp)
  moreover have "docs_in (view s') (C(loc := None)) (ch(loc := [])) (docs(loc := None))"
  proof (rule docs_in_cong [OF docs_in_remove [OF assms(2)]])
    fix l i assume "i \<in> set ((ch(loc := [])) l)"
    then have "l \<noteq> loc" "i \<in> set (ch l)" by (auto split: if_splits)
    then have "i \<notin> set (ch loc)" using assms(3) unfolding chains_apart_def by blast
    then show "view s' i = view ?s i" using o(4) by simp
  qed
  moreover have "view s' ?i = Some (raw sp)" using o(4) apart [OF iD] b(1) r(2) by simp
  ultimately show ?thesis using o b(2,3) r(2) iD bd by blast
qed

text \<open>A page given back with its last cell.\<close>

lemma give_back_ok:
  assumes "in_heap h D C" "loc_page loc \<in> D" "loc_page loc \<noteq> current h"
    and "\<forall>slot. C \<lparr>loc_page = loc_page loc, loc_slot = slot\<rparr> = m slot" "m(loc_slot loc := None) = Map.empty"
  shows "\<exists>s' D'. bindA (modifyA (\<lambda>h. h\<lparr>free_map := free_remove (loc_page loc) (free_map h)\<rparr>)) (\<lambda>_. with_store (free_page ops (loc_page loc))) h
      = (Inr (), h\<lparr>heap_store := s', free_map := free_remove (loc_page loc) (free_map h)\<rparr>)
    \<and> in_heap (h\<lparr>heap_store := s', free_map := free_remove (loc_page loc) (free_map h)\<rparr>) D' (C(loc := None))
    \<and> pages_moved (view (heap_store h)) (view s') D D' \<and> room (heap_store h) \<le> room s'"
proof -
  let ?i = "loc_page loc" and ?v = "view (heap_store h)"
  note ih = in_heapD [OF assms(1)]
  obtain s' where f: "free_page ops ?i (heap_store h) = (Inr (), s')" "sound s'" "view s' = ?v(?i := None)" "room (heap_store h) \<le> room s'"
    using free_law [OF ih(1), of ?i] in_heap_used [OF assms(1,2)] by blast
  have "cells_heap (view s') (current h) (free_remove ?i (free_map h)) (D - {?i}) (C(loc := None))"
  proof (rule cells_heap_drop [OF ih(2) assms(3)])
    fix l :: location assume l: "loc_page l = ?i"
    then have "C l = m (loc_slot l)" using assms(4) by (cases l) simp
    moreover have "loc_slot l = loc_slot loc \<Longrightarrow> l = loc" using l by (cases l, cases loc) simp
    ultimately show "(C(loc := None)) l = None" using fun_cong [OF assms(5), of "loc_slot l"] by (auto split: if_splits)
  qed (use f(3) in auto)
  moreover have "pages_moved ?v (view s') D (D - {?i})" using assms(2) f(3) by (intro pages_movedI) auto
  ultimately show ?thesis using f by (intro exI [of _ s'] exI [of _ "D - {?i}"]) (simp add: in_heap_def)
qed

lemma write_or_free_ok:
  assumes "in_heap h D C" "loc_page loc \<in> D" "view (heap_store h) (loc_page loc) = Some (raw sp)"
    and "\<forall>slot. C \<lparr>loc_page = loc_page loc, loc_slot = slot\<rparr> = recs (raw sp) slot"
    and "data_page (raw sp')" "recs (raw sp') = (recs (raw sp))(loc_slot loc := None)"
  shows "\<exists>h' D'. write_or_free ops (loc_page loc) sp' h = (Inr (), h') \<and> in_heap h' D' (C(loc := None)) \<and> moved h h' D D' \<and> room (heap_store h) \<le> room (heap_store h')"
proof (cases "recs (raw sp') = Map.empty \<and> loc_page loc \<noteq> current h")
  case True
  have inv: "page_inv sp'" using data_pageD(1) [OF assms(5)] .
  have "(recs (raw sp))(loc_slot loc := None) = Map.empty" using True assms(6) by simp
  from give_back_ok [OF assms(1,2) _ assms(4) this] True obtain s' D' where g:
    "bindA (modifyA (\<lambda>h. h\<lparr>free_map := free_remove (loc_page loc) (free_map h)\<rparr>)) (\<lambda>_. with_store (free_page ops (loc_page loc))) h
      = (Inr (), h\<lparr>heap_store := s', free_map := free_remove (loc_page loc) (free_map h)\<rparr>)"
    "in_heap (h\<lparr>heap_store := s', free_map := free_remove (loc_page loc) (free_map h)\<rparr>) D' (C(loc := None))"
    "pages_moved (view (heap_store h)) (view s') D D'" "room (heap_store h) \<le> room s'" by blast
  have "write_or_free ops (loc_page loc) sp' h = (Inr (), h\<lparr>heap_store := s', free_map := free_remove (loc_page loc) (free_map h)\<rparr>)"
    using True g(1) inv by (simp add: write_or_free_def is_empty_data)
  then show ?thesis using g(2-4) unfolding moved_def by (intro exI conjI) (assumption | simp)+
next
  case False
  have inv: "page_inv sp'" using data_pageD(1) [OF assms(5)] .
  let ?fm = "noted (free_map h) (current h) (loc_page loc) (reclaimable (raw sp'))"
  obtain s' where w: "write_page ops (loc_page loc) (into_page sp') (heap_store h) = (Inr (), s')" "sound s'"
    "view s' = (view (heap_store h))(loc_page loc \<mapsto> raw sp')" "room s' = room (heap_store h)"
    using write_data_ok [OF in_heapD(1) [OF assms(1)], of "loc_page loc" sp'] assms(3,5) by auto
  have ne: "loc_page loc = current h \<or> recs (raw sp') \<noteq> Map.empty" using False by blast
  have "in_heap (h\<lparr>heap_store := s', free_map := ?fm\<rparr>) D (C(loc := None))" "moved h (h\<lparr>heap_store := s', free_map := ?fm\<rparr>) D D"
    using put_slot [OF assms(1-3,5,6) ne w(2,3), of ?fm] by simp_all
  moreover have "write_or_free ops (loc_page loc) sp' h = (Inr (), h\<lparr>heap_store := s', free_map := ?fm\<rparr>)"
    using False w(1) inv by (auto simp: write_or_free_def is_empty_data)
  ultimately show ?thesis using w(4) by (intro exI [of _ "h\<lparr>heap_store := s', free_map := ?fm\<rparr>"] exI [of _ D]) simp
qed

text \<open>The documents in cells and chains that did not move.\<close>

lemma docs_kept:
  assumes "docs_in v C ch docs" "chains_apart D ch" "pages_moved v v' D D'"
  shows "docs_in v' C ch docs" "chains_apart D' ch" "pages_moved v v' (owned D ch) (owned D' ch)"
proof -
  have k: "i \<notin> D' \<and> v' i = v i" if "i \<in> set (ch l)" for i l
    using pages_moved_kept [OF assms(3)] docs_in_used [OF assms(1) that] assms(2) that unfolding chains_apart_def by blast
  show "docs_in v' C ch docs" using docs_in_cong [OF assms(1)] k by blast
  show "chains_apart D' ch" using chains_apart_cong [OF assms(2)] k by blast
  show "pages_moved v v' (owned D ch) (owned D' ch)" unfolding owned_def by (rule pages_moved_union [OF assms(3)])
qed

lemma owned_freed:
  assumes "v1 = (\<lambda>i. if i \<in> set (ch loc) then None else v i)"
  shows "pages_moved v v1 (owned D ch) (owned D (ch(loc := [])))"
proof (rule pages_movedI)
  show "i \<in> owned D ch \<or> v i = None" if "i \<in> owned D (ch(loc := []))" for i using that by (auto simp: owned_def split: if_splits)
  show "v1 i = None" if "i \<in> owned D ch" "i \<notin> owned D (ch(loc := []))" for i using that assms by (auto simp: owned_def split: if_splits)
  show "v1 i = v i" if "i \<notin> owned D ch" for i using that assms by (auto simp: owned_def)
qed

lemma delete_record_ok:
  assumes "heap_holds h D ch docs" "docs loc \<noteq> None"
  shows "\<exists>h' D'. delete_record ops loc h = (Inr (), h') \<and> heap_holds h' D' (ch(loc := [])) (docs(loc := None))
    \<and> pages_moved (view (heap_store h)) (view (heap_store h')) (owned D ch) (owned D' (ch(loc := [])))"
proof -
  let ?i = "loc_page loc" and ?slot = "loc_slot loc"
  obtain C where C: "in_heap h D C" "docs_in (view (heap_store h)) C ch docs" "chains_apart D ch" using heap_holdsD [OF assms(1)] by blast
  obtain j old where "docs loc = Some (j, old)" using assms(2) by auto
  from open_record_ok [OF C this] obtain sp s1 where o: "open_record ops loc h = (Inr sp, h\<lparr>heap_store := s1\<rparr>)" "data_page (raw sp)"
    "view s1 ?i = Some (raw sp)" "?i \<in> D" "recs (raw sp) ?slot \<noteq> None" "in_heap (h\<lparr>heap_store := s1\<rparr>) D C"
    "\<forall>slot. C \<lparr>loc_page = ?i, loc_slot = slot\<rparr> = recs (raw sp) slot"
    "docs_in (view s1) (C(loc := None)) (ch(loc := [])) (docs(loc := None))"
    "view s1 = (\<lambda>i. if i \<in> set (ch loc) then None else view (heap_store h) i)" by blast
  let ?h1 = "h\<lparr>heap_store := s1\<rparr>"
  note inv = data_pageD(1) [OF o(2)]
  obtain d where d: "recs (raw sp) ?slot = Some d" using o(5) by blast
  obtain sp' where sp': "delete_cell sp ?slot = Inr sp'" "data_page (raw sp')" "recs (raw sp') = (recs (raw sp))(?slot := None)"
    using delete_data [OF o(2) d] by blast
  obtain n where n: "live_cells sp = Inr n" "n = 1 \<longleftrightarrow> (recs (raw sp))(?slot := None) = Map.empty"
    by (rule live_cells_data [OF inv d]) auto
  have "\<exists>h' D'. delete_record ops loc h = (Inr (), h') \<and> in_heap h' D' (C(loc := None)) \<and> pages_moved (view s1) (view (heap_store h')) D D'"
  proof (cases "n = 1 \<and> ?i \<noteq> current h")
    case True
    then obtain s' D' where g: "bindA (modifyA (\<lambda>h. h\<lparr>free_map := free_remove ?i (free_map h)\<rparr>)) (\<lambda>_. with_store (free_page ops ?i)) ?h1
        = (Inr (), ?h1\<lparr>heap_store := s', free_map := free_remove ?i (free_map ?h1)\<rparr>)"
      "in_heap (?h1\<lparr>heap_store := s', free_map := free_remove ?i (free_map ?h1)\<rparr>) D' (C(loc := None))" "pages_moved (view (heap_store ?h1)) (view s') D D'"
      using give_back_ok [OF o(6,4) _ o(7)] n(2) by auto
    have "delete_record ops loc h = (Inr (), ?h1\<lparr>heap_store := s', free_map := free_remove ?i (free_map ?h1)\<rparr>)"
      using o(1) n(1) True g(1) by (simp add: delete_record_def)
    then show ?thesis using g(2,3) by auto
  next
    case False
    let ?f = "\<lambda>sp fm. bindR (delete_cell sp ?slot) (\<lambda>sp. bindR (note_room fm (current h) ?i sp) (\<lambda>fm. Inr (sp, (), fm)))"
    let ?fm = "noted (free_map h) (current h) ?i (reclaimable (raw sp'))"
    have "?f sp (free_map h) = Inr (sp', (), ?fm)" using sp'(1) data_pageD(1) [OF sp'(2)] by (simp add: note_room_inv)
    then obtain s2 where c: "change_noting ops ?i sp ?f ?h1 = (Inr (), ?h1\<lparr>heap_store := s2, free_map := ?fm\<rparr>)" "sound s2" "view s2 = (view s1)(?i \<mapsto> raw sp')"
      using change_noting_ok [of ?h1 ?i ?f sp sp' "()" ?fm] sp'(2) o(3) in_heapD(1) [OF o(6)] by auto
    have ne: "?i = current ?h1 \<or> recs (raw sp') \<noteq> Map.empty" using False n(2) sp'(3) by auto
    have "in_heap (?h1\<lparr>heap_store := s2, free_map := ?fm\<rparr>) D (C(loc := None))" "moved ?h1 (?h1\<lparr>heap_store := s2, free_map := ?fm\<rparr>) D D"
      using put_slot [OF o(6,4) _ sp'(2,3) ne c(2), of ?fm] o(3) c(3) by simp_all
    moreover have "delete_record ops loc h = (Inr (), ?h1\<lparr>heap_store := s2, free_map := ?fm\<rparr>)"
      using o(1) n(1) False c(1) by (auto simp: delete_record_def)
    ultimately show ?thesis by (intro exI [of _ "?h1\<lparr>heap_store := s2, free_map := ?fm\<rparr>"] exI [of _ D]) (simp add: moved_def)
  qed
  then obtain h' D' where r: "delete_record ops loc h = (Inr (), h')" "in_heap h' D' (C(loc := None))" "pages_moved (view s1) (view (heap_store h')) D D'" by blast
  note k = docs_kept [OF o(8) chains_apart_remove [OF C(3)] r(3)]
  show ?thesis using r(1) heap_holdsI [OF r(2) k(1,2)] pages_moved_trans [OF owned_freed [where ch = ch, OF o(9)] k(3)] by blast
qed

lemma update_record_ok:
  assumes "heap_holds h D ch docs" "docs loc \<noteq> None" "length i = 16" "length (encode_stored doc) < 2 ^ 32"
    and "length (overflow_chunks (encode_stored doc)) < room (heap_store h)"
  shows "\<exists>loc' h' D' ps. update_record ops loc i doc h = (Inr loc', h') \<and> (loc' = loc \<or> docs loc' = None)
    \<and> heap_holds h' D' (ch(loc := [], loc' := ps)) (docs(loc := None, loc' \<mapsto> (i, encode_stored doc)))
    \<and> pages_moved (view (heap_store h)) (view (heap_store h')) (owned D ch) (owned D' (ch(loc := [], loc' := ps)))"
proof -
  let ?i = "loc_page loc" and ?slot = "loc_slot loc" and ?e = "encode_stored doc" and ?v = "view (heap_store h)"
  let ?ch = "ch(loc := [])" and ?docs = "docs(loc := None)"
  obtain C where C: "in_heap h D C" "docs_in ?v C ch docs" "chains_apart D ch" using heap_holdsD [OF assms(1)] by blast
  obtain j old where "docs loc = Some (j, old)" using assms(2) by auto
  from open_record_ok [OF C this] obtain sp s1 where o: "open_record ops loc h = (Inr sp, h\<lparr>heap_store := s1\<rparr>)" "data_page (raw sp)"
    "view s1 ?i = Some (raw sp)" "?i \<in> D" "recs (raw sp) ?slot \<noteq> None" "in_heap (h\<lparr>heap_store := s1\<rparr>) D C"
    "\<forall>slot. C \<lparr>loc_page = ?i, loc_slot = slot\<rparr> = recs (raw sp) slot"
    "docs_in (view s1) (C(loc := None)) ?ch ?docs" "room (heap_store h) \<le> room s1"
    "view s1 = (\<lambda>i. if i \<in> set (ch loc) then None else ?v i)" by blast
  have so: "sound s1" using in_heapD(1) [OF o(6)] by simp
  have rm: "length (overflow_chunks ?e) \<le> room s1" "length (overflow_chunks ?e) < room s1" using assms(5) o(9) by simp_all
  obtain d ps s2 where w: "write_cell ops i doc s1 = (Inr d, s2)" "sound s2" "stored_as (view s2) i ?e ps d" "distinct ps"
    "\<forall>j \<in> set ps. view s1 j = None" "\<forall>j. j \<notin> set ps \<longrightarrow> view s2 j = view s1 j" "d \<noteq> []" "17 + length d \<le> 8188"
    "room s1 \<le> room s2 + length (overflow_chunks ?e)"
    using write_cell_ok [OF so assms(3,4) rm(1)] by blast
  let ?h2 = "h\<lparr>heap_store := s2\<rparr>"
  have usedD: "view s1 k \<noteq> None" if "k \<in> D" for k using in_heap_used [OF o(6) that] by simp
  have fresh: "k \<notin> set ps" if "k \<in> owned D ?ch" for k
    using that usedD docs_in_used [OF o(8)] w(5) unfolding owned_def by blast
  have D: "k \<notin> set ps \<and> view s2 k = view s1 k" if "k \<in> D" for k using usedD [OF that] w(5,6) by metis
  have h2: "in_heap ?h2 D C" using in_heap_store [OF o(6) w(2)] D by simp
  have docs2: "docs_in (view s2) (C(loc := None)) ?ch ?docs"
    using docs_in_cong [OF o(8)] fresh w(6) in_owned by metis
  have vi: "view s2 ?i = Some (raw sp)" using D [OF o(4)] o(3) by simp
  have ca: "chains_apart D ?ch" by (rule chains_apart_remove [OF C(3)])
  have m2: "pages_moved ?v (view s2) (owned D ch) (owned D ?ch \<union> set ps)"
    by (rule pages_moved_trans [OF owned_freed [where ch = ch, OF o(10)]]) (rule pages_movedI, use w(5,6) in auto)
  obtain old where old: "recs (raw sp) ?slot = Some old" using o(5) by blast
  show ?thesis
  proof (rule update_data [OF o(2) old w(7)])
    fix sp' assume u: "update_cell sp ?slot d = Inr (sp', True)" "data_page (raw sp')" "recs (raw sp') = (recs (raw sp))(?slot \<mapsto> d)"
    let ?fm = "noted (free_map h) (current h) ?i (reclaimable (raw sp'))"
    obtain s3 where x: "write_page ops ?i (into_page sp') s2 = (Inr (), s3)" "sound s3" "view s3 = (view s2)(?i \<mapsto> raw sp')"
      using write_data_ok [OF w(2), of ?i sp'] vi u(2) by auto
    let ?h3 = "?h2\<lparr>heap_store := s3, free_map := ?fm\<rparr>"
    have ne: "?i = current ?h2 \<or> recs (raw sp') \<noteq> Map.empty" using u(3) by simp
    have h3: "in_heap ?h3 D (C(loc := Some d))" "moved ?h2 ?h3 D D"
      using put_slot [OF h2 o(4) _ u(2,3) ne x(2), of ?fm] vi x(3) by simp_all
    have m3: "pages_moved (view s2) (view s3) D D" using h3(2) by (simp add: moved_def)
    have "stored_as (view s3) i ?e ps d" by (rule stored_as_cong [OF w(3)]) (use x(3) D [OF o(4)] in auto)
    from docs_in_put [OF docs_kept(1) [OF docs2 ca m3] this, of loc]
    have "docs_in (view s3) (C(loc \<mapsto> d)) (ch(loc := [], loc := ps)) (docs(loc := None, loc \<mapsto> (i, ?e)))" by simp
    moreover have "chains_apart D (ch(loc := [], loc := ps))"
      by (rule chains_apart_put [OF ca w(4)]) (use fresh in_owned [of _ ?ch _ D] in \<open>auto simp only: owned_def\<close>)
    ultimately have "heap_holds ?h3 D (ch(loc := [], loc := ps)) (docs(loc := None, loc \<mapsto> (i, ?e)))"
      using heap_holdsI [OF h3(1)] by simp
    moreover have "owned D (ch(loc := [], loc := ps)) = owned D ?ch \<union> set ps" using owned_put [of ?ch loc D ps] by simp
    then have "pages_moved ?v (view s3) (owned D ch) (owned D (ch(loc := [], loc := ps)))"
      using pages_moved_trans [OF m2, of "view s3" "owned D ?ch \<union> set ps"] pages_moved_union [OF m3, of "(\<Union>l. set (?ch l)) \<union> set ps"]
      by (simp add: owned_def Un_assoc)
    moreover have "update_record ops loc i doc h = (Inr loc, ?h3)"
      using o(1) w(1) u(1) x(1) data_pageD(1) [OF u(2)] by (simp add: update_record_def)
    ultimately show ?thesis by (intro exI [of _ loc] exI [of _ ?h3] exI [of _ D] exI [of _ ps]) simp
  next
    assume u: "update_cell sp ?slot d = Inr (sp, False)"
    obtain sp' where sp': "delete_cell sp ?slot = Inr sp'" "data_page (raw sp')" "recs (raw sp') = (recs (raw sp))(?slot := None)"
      using delete_data [OF o(2) old] by blast
    obtain h3 D3 where f: "write_or_free ops ?i sp' ?h2 = (Inr (), h3)" "in_heap h3 D3 (C(loc := None))" "moved ?h2 h3 D D3" "room s2 \<le> room (heap_store h3)"
      using write_or_free_ok [OF h2 o(4) _ o(7) sp'(2,3)] vi by auto
    have m3: "pages_moved (view s2) (view (heap_store h3)) D D3" using f(3) by (simp add: moved_def)
    note k = docs_kept [OF docs2 ca m3]
    have used: "view s2 k \<noteq> None" if "k \<in> set ps" for k using w(3) that chain_at_used unfolding stored_as_def by fastforce
    have ps3: "k \<notin> D3 \<and> view (heap_store h3) k = view s2 k" if "k \<in> set ps" for k
      using pages_moved_kept [OF m3 _ used [OF that]] fresh that unfolding owned_def by blast
    have "stored_as (view (heap_store h3)) i ?e ps d" by (rule stored_as_cong [OF w(3)]) (use ps3 in simp)
    moreover have "set ps \<inter> owned D3 ?ch = {}" using ps3 fresh unfolding owned_def by blast
    moreover have "0 < room (heap_store h3)" using f(4) w(9) rm(2) by linarith
    ultimately obtain loc' h' D' where p: "place_record ops d h3 = (Inr loc', h')" "?docs loc' = None" "heap_holds h' D' (?ch(loc' := ps)) (?docs(loc' \<mapsto> (i, ?e)))"
      "pages_moved (view (heap_store h3)) (view (heap_store h')) (owned D3 ?ch \<union> set ps) (owned D' (?ch(loc' := ps)))"
      using placed_docs [OF f(2) k(1,2) _ w(4) _ w(7,8), of i ?e] by blast
    have "update_record ops loc i doc h = (Inr loc', h')" using o(1) w(1) u sp'(1) f(1) p(1) by (simp add: update_record_def)
    moreover have "pages_moved ?v (view (heap_store h')) (owned D ch) (owned D' (?ch(loc' := ps)))"
      by (rule pages_moved_trans [OF pages_moved_trans [OF m2 pages_moved_union [OF k(3), of "set ps"]] p(4)])
    ultimately show ?thesis using p(2,3) by (intro exI [of _ loc'] exI [of _ h'] exI [of _ D'] exI [of _ ps]) (auto split: if_splits)
  qed
qed

end

end
