(* ===== verification/Docreads.thy ===== *)
theory Docreads
  imports Docheap
begin

text \<open>
  Reading a collection's documents (\<open>Records\<close> and \<open>Stored\<close> of \<open>src/src/data.rs\<close>), listing and
  freeing its pages, and the properties of the module on the file store.
\<close>

subsection \<open>One document after another\<close>

lemma reading_run [simp]: "m (reader_store rd) = (r, s) \<Longrightarrow> reading m rd = (r, rd\<lparr>reader_store := s\<rparr>)"
  by (simp add: reading_def)

lemma encodes_object_page:
  assumes "chunk_page b nxt (take 8179 enc)" "enc \<noteq> []"
  shows "encodes_object (drop 9 b) = encodes_object enc"
proof -
  have t: "take (length (take 8179 enc)) (drop 9 b) = take 8179 enc" using assms(1) by (simp add: chunk_page_def slice_def)
  obtain x xs where e: "enc = x # xs" using assms(2) by (cases enc) auto
  then show ?thesis using t by (cases "drop 9 b") (simp_all add: encodes_object_def)
qed

context page_store begin

definition kept_true where
  "kept_true rd \<longleftrightarrow> (case kept_page rd of None \<Rightarrow> True | Some (i, sp) \<Rightarrow> view (reader_store rd) i = Some (raw sp) \<and> data_page (raw sp))"

definition reads_heap where
  "reads_heap rd cur fm D ch docs \<longleftrightarrow> sound (reader_store rd) \<and> kept_true rd \<and> heap_at (view (reader_store rd)) cur fm D ch docs"

lemma reader_page_ok:
  assumes "reads_heap rd cur fm D ch docs" "docs loc = Some (j, enc)"
  shows "\<exists>sp rd' d. reader_page ops (loc_page loc) rd = (Inr sp, rd') \<and> reads_heap rd' cur fm D ch docs \<and> view (reader_store rd') = view (reader_store rd)
    \<and> get_cell sp (loc_slot loc) = Inr (Some d) \<and> stored_as (view (reader_store rd)) j enc (ch loc) d"
proof -
  let ?v = "view (reader_store rd)"
  have r: "sound (reader_store rd)" "kept_true rd" "heap_at ?v cur fm D ch docs" using assms(1) by (simp_all add: reads_heap_def)
  obtain C where C: "cells_heap ?v cur fm D C" "docs_in ?v C ch docs" using r(3) unfolding heap_at_def by blast
  obtain d where d: "C loc = Some d" "stored_as ?v j enc (ch loc) d" using docs_in_Some [OF C(2) assms(2)] by blast
  obtain b where b: "?v (loc_page loc) = Some b" "data_page b" "recs b (loc_slot loc) = Some d" using cells_heap_cell [OF C(1) d(1)] by blast
  have got: "get_cell sp (loc_slot loc) = Inr (Some d)" if "raw sp = b" for sp
    using cell_map_get [OF data_pageD(1)] b(2,3) that by simp
  obtain sp s1 where a: "read_data_page ops (loc_page loc) (reader_store rd) = (Inr sp, s1)" "raw sp = b" "sound s1" "view s1 = ?v"
    using read_data_page_ok [OF r(1) b(1,2)] by blast
  let ?rd = "rd\<lparr>reader_store := s1, kept_page := Some (loc_page loc, sp)\<rparr>"
  have again: "reads_heap ?rd cur fm D ch docs" using r(3) a(2-4) b(1,2) by (simp add: reads_heap_def kept_true_def)
  have run: "bindA (reading (read_data_page ops (loc_page loc))) (\<lambda>sp. bindA (modifyA (\<lambda>rd. rd\<lparr>kept_page := Some (loc_page loc, sp)\<rparr>)) (\<lambda>_. retA sp)) rd = (Inr sp, ?rd)"
    using a(1) by simp
  show ?thesis
  proof (cases "\<exists>sp0. kept_page rd = Some (loc_page loc, sp0)")
    case True
    then obtain sp0 where k: "kept_page rd = Some (loc_page loc, sp0)" by blast
    then have "raw sp0 = b" using r(2) b(1) by (simp add: kept_true_def)
    then show ?thesis using k assms(1) got d(2) by (intro exI [of _ sp0] exI [of _ rd] exI [of _ d]) (simp add: reader_page_def)
  next
    case False
    then have "reader_page ops (loc_page loc) rd = (Inr sp, ?rd)" using run by (auto simp: reader_page_def Let_def split: option.splits)
    then show ?thesis using again got [OF a(2)] d(2) a(4) by (intro exI [of _ sp] exI [of _ ?rd] exI [of _ d]) simp
  qed
qed

text \<open>A store read only: what a reader sees of the heap stays.\<close>

lemma reads_heap_store:
  "reads_heap rd cur fm D ch docs \<Longrightarrow> sound s \<Longrightarrow> view s = view (reader_store rd) \<Longrightarrow> reads_heap (rd\<lparr>reader_store := s\<rparr>) cur fm D ch docs"
  by (auto simp: reads_heap_def kept_true_def split: option.splits)

lemma chain_read:
  assumes "reads_heap rd cur fm D ch docs" "enc \<noteq> []" "chain_at (view (reader_store rd)) first (overflow_chunks enc) (ch loc)"
  shows "\<exists>rd' visited. reading (walk_chain ops first (length enc)) rd = (Inr visited, rd') \<and> concat (map snd visited) = enc
    \<and> reads_heap rd' cur fm D ch docs \<and> view (reader_store rd') = view (reader_store rd)"
proof -
  have "distinct (ch loc)" using assms(1) by (simp add: reads_heap_def heap_at_def chains_apart_def)
  moreover have "sound (reader_store rd)" using assms(1) by (simp add: reads_heap_def)
  ultimately obtain s' where w: "walk_chain ops first (length enc) (reader_store rd) = (Inr (zip (ch loc) (overflow_chunks enc)), s')" "sound s'" "view s' = view (reader_store rd)"
    using walk_chain_ok [OF _ assms(2,3)] by blast
  have "map snd (zip (ch loc) (overflow_chunks enc)) = overflow_chunks enc" using chain_at_length [OF assms(3)] by simp
  then show ?thesis using w reads_heap_store [OF assms(1) w(2,3)]
    by (intro exI [of _ "rd\<lparr>reader_store := s'\<rparr>"] exI [of _ "zip (ch loc) (overflow_chunks enc)"]) simp
qed

lemma records_get_ok:
  assumes "reads_heap rd cur fm D ch docs" "docs loc = Some (j, enc)" "decode_document im enc = Inr (doc, rest)"
  shows "\<exists>rd'. records_get ops im loc rd = (Inr (j, with_id im doc j), rd') \<and> reads_heap rd' cur fm D ch docs"
proof -
  obtain sp rd1 d where p: "reader_page ops (loc_page loc) rd = (Inr sp, rd1)" "reads_heap rd1 cur fm D ch docs"
    "view (reader_store rd1) = view (reader_store rd)" "get_cell sp (loc_slot loc) = Inr (Some d)" "stored_as (view (reader_store rd)) j enc (ch loc) d"
    using reader_page_ok [OF assms(1,2)] by blast
  show ?thesis
  proof (rule stored_as_cases [OF p(5)])
    assume "parse_cell d = Inr (Inline j enc)"
    then show ?thesis using p(1,2,4) assms(3) by (intro exI [of _ rd1]) (simp add: records_get_def live_record_def decode_record_def)
  next
    fix first assume c: "parse_cell d = Inr (Overflow j (length enc) first)" "enc \<noteq> []" "chain_at (view (reader_store rd)) first (overflow_chunks enc) (ch loc)"
    obtain rd2 visited where w: "reading (walk_chain ops first (length enc)) rd1 = (Inr visited, rd2)" "concat (map snd visited) = enc" "reads_heap rd2 cur fm D ch docs"
      using chain_read [OF p(2) c(2)] c(3) p(3) by metis
    then show ?thesis using p(1,4) c(1) assms(3) by (intro exI [of _ rd2]) (simp add: records_get_def live_record_def decode_record_def)
  qed
qed

lemma records_stored_ok:
  assumes "reads_heap rd cur fm D ch docs" "docs loc = Some (j, enc)"
  shows "\<exists>st rd'. records_stored ops loc rd = (Inr st, rd') \<and> reads_heap rd' cur fm D ch docs \<and> stored_id st = j \<and> stored_encoded st = Inr enc"
proof -
  obtain sp rd1 d where p: "reader_page ops (loc_page loc) rd = (Inr sp, rd1)" "reads_heap rd1 cur fm D ch docs"
    "view (reader_store rd1) = view (reader_store rd)" "get_cell sp (loc_slot loc) = Inr (Some d)" "stored_as (view (reader_store rd)) j enc (ch loc) d"
    using reader_page_ok [OF assms] by blast
  show ?thesis
  proof (rule stored_as_cases [OF p(5)])
    assume "parse_cell d = Inr (Inline j enc)" "d = INLINE # j @ enc" "length j = 16"
    then show ?thesis using p(1,2,4)
      by (intro exI [of _ "\<lparr>stored_id = j, stored_bytes = InPage sp (loc_slot loc)\<rparr>"] exI [of _ rd1])
        (simp add: records_stored_def live_record_def stored_encoded_def CELL_HEADER_LEN_def)
  next
    fix first assume c: "parse_cell d = Inr (Overflow j (length enc) first)" "enc \<noteq> []" "chain_at (view (reader_store rd)) first (overflow_chunks enc) (ch loc)"
    obtain rd2 visited where w: "reading (walk_chain ops first (length enc)) rd1 = (Inr visited, rd2)" "concat (map snd visited) = enc" "reads_heap rd2 cur fm D ch docs"
      using chain_read [OF p(2) c(2)] c(3) p(3) by metis
    then show ?thesis using p(1,4) c(1)
      by (intro exI [of _ "\<lparr>stored_id = j, stored_bytes = FromChain enc\<rparr>"] exI [of _ rd2]) (simp add: records_stored_def live_record_def stored_encoded_def)
  qed
qed

lemma records_is_object_ok:
  assumes "reads_heap rd cur fm D ch docs" "docs loc = Some (j, enc)"
  shows "\<exists>rd'. records_is_object ops loc rd = (Inr (j, encodes_object enc), rd') \<and> reads_heap rd' cur fm D ch docs"
proof -
  obtain sp rd1 d where p: "reader_page ops (loc_page loc) rd = (Inr sp, rd1)" "reads_heap rd1 cur fm D ch docs"
    "view (reader_store rd1) = view (reader_store rd)" "get_cell sp (loc_slot loc) = Inr (Some d)" "stored_as (view (reader_store rd)) j enc (ch loc) d"
    using reader_page_ok [OF assms] by blast
  show ?thesis
  proof (rule stored_as_cases [OF p(5)])
    assume "parse_cell d = Inr (Inline j enc)"
    then show ?thesis using p(1,2,4) by (intro exI [of _ rd1]) (simp add: records_is_object_def live_record_def)
  next
    fix first assume c: "parse_cell d = Inr (Overflow j (length enc) first)" "enc \<noteq> []" "chain_at (view (reader_store rd)) first (overflow_chunks enc) (ch loc)"
    obtain b nxt where b: "view (reader_store rd1) first = Some b" "chunk_page b nxt (take 8179 enc)"
      using c(3) p(3) by (cases "ch loc") (auto simp: chunks_step [OF c(2)])
    have s1: "sound (reader_store rd1)" using p(2) by (simp add: reads_heap_def)
    obtain q s' where q: "read_page ops first (reader_store rd1) = (Inr q, s')" "page_bytes q = b" "sound s'" "view s' = view (reader_store rd1)"
      using read_law [OF s1 b(1)] by blast
    have "b ! 0 = type_byte POverflow" using b(2) by (simp add: chunk_page_def)
    then have "records_is_object ops loc rd = (Inr (j, encodes_object enc), rd1\<lparr>reader_store := s'\<rparr>)"
      using p(1,4) c(1) q(1,2) encodes_object_page [OF b(2) c(2)] by (simp add: records_is_object_def live_record_def)
    then show ?thesis using reads_heap_store [OF p(2) q(3,4)] by blast
  qed
qed

subsection \<open>A collection's pages\<close>

lemma collect_pages_ok:
  assumes "sound s" "heap_at (view s) cur fm D ch docs" "\<forall>loc \<in> set locs. docs loc \<noteq> None"
  shows "\<exists>s'. collect_pages ops locs ps cs s = (Inr (fold insort_insert (map loc_page locs) ps, cs @ concat (map ch locs)), s') \<and> sound s' \<and> view s' = view s \<and> room s' = room s"
  using assms
proof (induction locs arbitrary: ps cs s)
  case (Cons loc locs)
  obtain C where C: "cells_heap (view s) cur fm D C" "docs_in (view s) C ch docs" using Cons.prems(2) unfolding heap_at_def by blast
  obtain j enc where "docs loc = Some (j, enc)" using Cons.prems(3) by auto
  then obtain d where d: "C loc = Some d" "stored_as (view s) j enc (ch loc) d" using docs_in_Some [OF C(2)] by blast
  obtain b where b: "view s (loc_page loc) = Some b" "data_page b" "recs b (loc_slot loc) = Some d" using cells_heap_cell [OF C(1) d(1)] by blast
  obtain sp s1 where a: "read_data_page ops (loc_page loc) s = (Inr sp, s1)" "raw sp = b" "sound s1" "view s1 = view s" "room s1 = room s"
    using read_data_page_ok [OF Cons.prems(1) b(1,2)] by blast
  have live: "live_record sp loc = Inr d" using b(2,3) a(2) cell_map_get [OF data_pageD(1), of sp] by (simp add: live_record_def)
  have "\<exists>visited s2. (case cell_chain c of Some (amount, first) \<Rightarrow> walk_chain ops first amount | None \<Rightarrow> retA []) s1 = (Inr visited, s2)
      \<and> map fst visited = ch loc \<and> sound s2 \<and> view s2 = view s \<and> room s2 = room s" if c: "parse_cell d = Inr c" for c
  proof (rule stored_as_cases [OF d(2)])
    assume "parse_cell d = Inr (Inline j enc)" "ch loc = []"
    then show ?thesis using c a(3-5) by (intro exI [of _ "[]"] exI [of _ s1]) (simp add: cell_chain_def)
  next
    fix first assume o: "parse_cell d = Inr (Overflow j (length enc) first)" "enc \<noteq> []" "chain_at (view s) first (overflow_chunks enc) (ch loc)"
    have "distinct (ch loc)" using Cons.prems(2) by (simp add: heap_at_def chains_apart_def)
    then obtain s2 where "walk_chain ops first (length enc) s1 = (Inr (zip (ch loc) (overflow_chunks enc)), s2)" "sound s2" "view s2 = view s1" "room s2 = room s1"
      using walk_chain_ok [OF a(3) o(2), of first "ch loc"] o(3) a(4) by auto
    then show ?thesis using c o(1) a(4,5) chain_at_length [OF o(3)]
      by (intro exI [of _ "zip (ch loc) (overflow_chunks enc)"] exI [of _ s2]) (auto simp: cell_chain_def)
  qed
  moreover obtain c where c: "parse_cell d = Inr c" using d(2) by (rule stored_as_cases)
  ultimately obtain visited s2 where v: "(case cell_chain c of Some (amount, first) \<Rightarrow> walk_chain ops first amount | None \<Rightarrow> retA []) s1 = (Inr visited, s2)"
    "map fst visited = ch loc" "sound s2" "view s2 = view s" "room s2 = room s" by blast
  have "heap_at (view s2) cur fm D ch docs" using Cons.prems(2) v(4) by simp
  from Cons.IH [OF v(3) this, of "insort_insert (loc_page loc) ps" "cs @ ch loc"] Cons.prems(3)
  show ?case using a(1) live c v by simp
qed simp

lemma sorted_fold_insort: "sorted ps \<and> distinct ps \<Longrightarrow> sorted (fold insort_insert xs ps) \<and> distinct (fold insort_insert xs ps) \<and> set (fold insort_insert xs ps) = set ps \<union> set xs"
  for ps :: "nat list"
  by (induction xs arbitrary: ps) (auto simp: sorted_insort_insert distinct_insort_insert set_insort_insert)

lemma heap_at_pages:
  assumes "heap_at v cur fm D ch docs"
  shows "D = loc_page ` dom docs \<union> (if cur = 0 then {} else {cur})"
proof -
  obtain C where C: "cells_heap v cur fm D C" "docs_in v C ch docs" using assms unfolding heap_at_def by blast
  have "loc_page loc \<in> D" if "docs loc \<noteq> None" for loc
    using cells_heap_basic(4) [OF C(1), of loc] docs_in_None [OF C(2), of loc] that by simp
  moreover have "i \<in> loc_page ` dom docs \<or> i = cur \<and> cur \<noteq> 0" if iD: "i \<in> D" for i
  proof -
    obtain b where b: "\<And>slot. C \<lparr>loc_page = i, loc_slot = slot\<rparr> = recs b slot" "i = cur \<or> recs b \<noteq> Map.empty"
      using cells_heapD [OF C(1) iD] by blast
    show ?thesis
    proof (cases "i = cur")
      case False
      then obtain slot where "recs b slot \<noteq> None" using b(2) by (auto simp: fun_eq_iff)
      then have "\<lparr>loc_page = i, loc_slot = slot\<rparr> \<in> dom docs" using b(1) docs_in_None [OF C(2), of "\<lparr>loc_page = i, loc_slot = slot\<rparr>"] by auto
      then show ?thesis by force
    qed (use iD cells_heap_basic(3) [OF C(1)] in auto)
  qed
  ultimately show ?thesis using cells_heap_basic(2) [OF C(1)] by (auto dest: domD)
qed

lemma collection_pages_ok:
  assumes "sound s" "heap_at (view s) cur fm D ch docs" "set locs = dom docs" "distinct locs"
  shows "\<exists>ps cs s'. collection_pages ops cur locs s = (Inr (ps, cs), s') \<and> set ps = D \<and> distinct ps \<and> set cs = (\<Union>loc. set (ch loc)) \<and> distinct cs
    \<and> sound s' \<and> view s' = view s \<and> room s' = room s"
proof -
  obtain C where C: "cells_heap (view s) cur fm D C" "docs_in (view s) C ch docs" and apart: "chains_apart D ch" using assms(2) unfolding heap_at_def by blast
  have "\<forall>loc \<in> set locs. docs loc \<noteq> None" using assms(3) by auto
  from collect_pages_ok [OF assms(1,2) this, of "[]" "[]"] obtain s1 where
    r: "collect_pages ops locs [] [] s = (Inr (fold insort_insert (map loc_page locs) [], concat (map ch locs)), s1)" "sound s1" "view s1 = view s" "room s1 = room s"
    by auto
  let ?ps = "fold insort_insert (map loc_page locs) []" and ?cs = "concat (map ch locs)"
  have ps: "sorted ?ps" "distinct ?ps" "set ?ps = loc_page ` dom docs" using sorted_fold_insort [of "[]" "map loc_page locs"] assms(3) by auto
  have "set (ch loc) \<subseteq> set ?cs" for loc using docs_in_no_chain [OF C(2), of loc] assms(3) by (cases "docs loc") auto
  then have cs: "set ?cs = (\<Union>loc. set (ch loc))" by auto
  have dc: "distinct ?cs" using assms(4)
  proof (induction locs)
    case (Cons l ls)
    have "distinct (ch l)" using apart by (simp add: chains_apart_def)
    moreover have "set (ch l) \<inter> set (ch l') = {}" if "l' \<in> set ls" for l'
    proof -
      have "l \<noteq> l'" using that Cons.prems by auto
      then show ?thesis using apart by (simp add: chains_apart_def)
    qed
    ultimately have "distinct (ch l)" "\<forall>l' \<in> set ls. set (ch l) \<inter> set (ch l') = {}" by auto
    then show ?case using Cons by auto
  qed simp
  show ?thesis
  proof (cases "cur = 0")
    case True
    then show ?thesis using r ps(2,3) cs dc heap_at_pages [OF assms(2)]
      by (intro exI [of _ ?ps] exI [of _ ?cs] exI [of _ s1]) (simp add: collection_pages_def)
  next
    case False
    then have cD: "cur \<in> D" using cells_heap_basic(2) [OF C(1)] by simp
    obtain b where b: "view s cur = Some b" "data_page b" using cells_heapD [OF C(1) cD] by blast
    obtain sp s2 where a: "read_data_page ops cur s1 = (Inr sp, s2)" "sound s2" "view s2 = view s1" "room s2 = room s1"
      using read_data_page_ok [OF r(2), of cur b] b r(3) by auto
    then show ?thesis using r False ps(2,3) cs dc heap_at_pages [OF assms(2)]
      by (intro exI [of _ "insort_insert cur ?ps"] exI [of _ ?cs] exI [of _ s2])
        (simp add: collection_pages_def set_insort_insert distinct_insort_insert)
  qed
qed

lemma free_collection_pages_ok:
  assumes "sound s" "heap_at (view s) cur fm D ch docs" "set locs = dom docs" "distinct locs"
  shows "\<exists>s'. free_collection_pages ops cur locs s = (Inr (), s') \<and> sound s' \<and> view s' = (\<lambda>i. if i \<in> owned D ch then None else view s i) \<and> room s \<le> room s'"
proof -
  obtain C where C: "cells_heap (view s) cur fm D C" "docs_in (view s) C ch docs" and apart: "chains_apart D ch" using assms(2) unfolding heap_at_def by blast
  obtain ps cs s1 where c: "collection_pages ops cur locs s = (Inr (ps, cs), s1)" "set ps = D" "distinct ps" "set cs = (\<Union>loc. set (ch loc))" "distinct cs"
    "sound s1" "view s1 = view s" "room s1 = room s"
    using collection_pages_ok [OF assms] by blast
  have d: "distinct (cs @ ps)" using c(2-5) apart unfolding chains_apart_def by auto
  have o: "set (cs @ ps) = owned D ch" using c(2,4) by (auto simp: owned_def)
  have "view s1 i \<noteq> None" if i: "i \<in> set (cs @ ps)" for i
  proof (cases "i \<in> D")
    case True
    obtain b where "view s i = Some b" using cells_heapD [OF C(1) True] by blast
    then show ?thesis using c(7) by simp
  next
    case False
    then show ?thesis using i docs_in_used [OF C(2), of i] c(7) unfolding o owned_def by auto
  qed
  from free_each_ok [OF c(6) d this] obtain s' where "free_each ops (cs @ ps) s1 = (Inr (), s')" "sound s'"
    "view s' = (\<lambda>i. if i \<in> set (cs @ ps) then None else view s1 i)" "room s1 \<le> room s'" by blast
  then show ?thesis using c(1,8) unfolding o c(7) by (intro exI [of _ s']) (simp add: free_collection_pages_def)
qed

end

subsection \<open>On the file store\<close>

definition collection_at :: "fstore heap \<Rightarrow> nat set \<Rightarrow> chains \<Rightarrow> documents \<Rightarrow> bool" where
  "collection_at h D ch docs \<longleftrightarrow> fs_sound (heap_store h) \<and> heap_at (fs_view (heap_store h)) (current h) (free_map h) D ch docs"

text \<open>A reader whose kept page, if it has one, is still what the store holds.\<close>

definition reader_at :: "fstore doc_reader \<Rightarrow> nat \<Rightarrow> room_map \<Rightarrow> nat set \<Rightarrow> chains \<Rightarrow> documents \<Rightarrow> bool" where
  "reader_at rd cur fm D ch docs \<longleftrightarrow> fs_sound (reader_store rd)
     \<and> (case kept_page rd of None \<Rightarrow> True | Some (i, sp) \<Rightarrow> fs_view (reader_store rd) i = Some (raw sp) \<and> data_page (raw sp))
     \<and> heap_at (fs_view (reader_store rd)) cur fm D ch docs"

lemma reader_at_eq: "reader_at = file_pages.reads_heap"
  by (simp add: fun_eq_iff reader_at_def file_pages.reads_heap_def file_pages.kept_true_def)

lemma collection_at_eq: "collection_at = file_pages.heap_holds"
  by (simp add: fun_eq_iff collection_at_def file_pages.heap_holds_def)

lemma empty_collection:
  assumes "fs_sound fs" shows "collection_at \<lparr>heap_store = fs, current = 0, free_map = no_free_space\<rparr> {} (\<lambda>_. []) Map.empty"
proof -
  have "cells_heap (fs_view fs) 0 no_free_space {} Map.empty" by (simp add: cells_heap_def free_true_def)
  moreover have "docs_in (fs_view fs) Map.empty (\<lambda>_. []) Map.empty" by (simp add: docs_in_def)
  moreover have "chains_apart {} (\<lambda>_. [])" by (simp add: chains_apart_def)
  ultimately show ?thesis using assms by (auto simp: collection_at_def heap_at_def)
qed

subsection \<open>Properties\<close>

text \<open>
  C33. On the file store the operations on a collection's documents are those on a map from locations to
  documents: an insertion takes a location that held none, a replacement leaves the document where
  it was or moves it to such a location, a deletion removes it, and no other document changes.
  Every data page but the current one holds a document, the free-space map is exact, the pages in
  use are exactly those of the data pages and overflow chains, and no page of another component
  changes.
\<close>

theorem documents_are_a_map:
  assumes "collection_at h D ch docs" "length i = 16" "length (encode_stored doc) < 2 ^ 32"
    and "length (overflow_chunks (encode_stored doc)) < fs_room (heap_store h)"
  shows "(\<exists>loc h' D' ps. insert_record (file_store hw) i doc h = (Inr loc, h') \<and> docs loc = None
        \<and> collection_at h' D' (ch(loc := ps)) (docs(loc \<mapsto> (i, encode_stored doc)))
        \<and> pages_moved (fs_view (heap_store h)) (fs_view (heap_store h')) (owned D ch) (owned D' (ch(loc := ps))))
    \<and> (docs at \<noteq> None \<longrightarrow> (\<exists>loc h' D' ps. update_record (file_store hw) at i doc h = (Inr loc, h') \<and> (loc = at \<or> docs loc = None)
        \<and> collection_at h' D' (ch(at := [], loc := ps)) (docs(at := None, loc \<mapsto> (i, encode_stored doc)))
        \<and> pages_moved (fs_view (heap_store h)) (fs_view (heap_store h')) (owned D ch) (owned D' (ch(at := [], loc := ps)))))
    \<and> (docs at \<noteq> None \<longrightarrow> (\<exists>h' D'. delete_record (file_store hw) at h = (Inr (), h')
        \<and> collection_at h' D' (ch(at := [])) (docs(at := None))
        \<and> pages_moved (fs_view (heap_store h)) (fs_view (heap_store h')) (owned D ch) (owned D' (ch(at := [])))))"
  unfolding collection_at_eq
  using file_pages.insert_record_ok [OF assms [unfolded collection_at_eq], of hw]
    file_pages.update_record_ok [OF assms(1) [unfolded collection_at_eq] _ assms(2-4), of at hw]
    file_pages.delete_record_ok [OF assms(1) [unfolded collection_at_eq], of at hw] by blast

lemma small_document:
  "length (encode_stored (Object [(ascii ''a'', Null)])) = 11"
  by (simp add: encode_document_simps write_entries_append encode_entry_def encode_str_def write_len_prefixed_eq ID_FIELD_def ascii_def)

lemma collection_with_document:
  "\<exists>h D ch loc. collection_at h D ch [loc \<mapsto> (replicate 16 7, encode_stored (Object [(ascii ''a'', Null)]))] \<and> 100 \<le> fs_room (heap_store h)"
proof -
  let ?h = "\<lparr>heap_store = begun_store, current = 0, free_map = no_free_space\<rparr>" and ?d = "Object [(ascii ''a'', Null)]"
  have "fs_sound begun_store" using begun_store_ok(2) by blast
  then have h: "file_pages.heap_holds ?h {} (\<lambda>_. []) Map.empty" using empty_collection by (simp add: collection_at_eq)
  have r: "200 \<le> fs_room (heap_store ?h)"
    by (simp add: begun_store_def fs_begin_def opened_store_def fs_room_def header_fresh_def MAX_PAGES_def PAGE_SIZE_def)
  have l: "length (encode_stored ?d) < 2 ^ 32" "length (overflow_chunks (encode_stored ?d)) = 1"
    by (simp_all add: small_document length_overflow_chunks del: encode_stored.simps)
  have "length (overflow_chunks (encode_stored ?d)) < fs_room (heap_store ?h)" using r unfolding l(2) by linarith
  moreover have "length (replicate 16 (7 :: byte)) = 16" by simp
  ultimately have "\<exists>loc h' D' ps. insert_record (file_store True) (replicate 16 7) ?d ?h = (Inr loc, h') \<and> Map.empty loc = (None :: (docid \<times> bytes) option)
    \<and> file_pages.heap_holds h' D' ((\<lambda>_. [])(loc := ps)) [loc \<mapsto> (replicate 16 7, encode_stored ?d)]
    \<and> pages_moved (fs_view (heap_store ?h)) (fs_view (heap_store h')) (owned {} (\<lambda>_. [])) (owned D' ((\<lambda>_. [])(loc := ps)))
    \<and> fs_room (heap_store ?h) \<le> fs_room (heap_store h') + length (overflow_chunks (encode_stored ?d)) + 1"
    by (intro file_pages.insert_record_ok [OF h _ l(1)])
  then obtain loc and h' :: "fstore heap" and D ps where
    "file_pages.heap_holds h' D ((\<lambda>_. [])(loc := ps)) [loc \<mapsto> (replicate 16 7, encode_stored ?d)]"
    "fs_room (heap_store ?h) \<le> fs_room (heap_store h') + length (overflow_chunks (encode_stored ?d)) + 1"
    by blast
  moreover then have "100 \<le> fs_room (heap_store h')" using r l(2) by linarith
  ultimately show ?thesis unfolding collection_at_eq by blast
qed

theorem documents_are_a_map_witness:
  "\<exists>h D ch at h' D' loc. collection_at h D ch [at \<mapsto> (replicate 16 7, encode_stored (Object [(ascii ''a'', Null)]))]
    \<and> delete_record (file_store True) at h = (Inr (), h') \<and> collection_at h' D' (ch(at := [])) Map.empty
    \<and> fst (update_record (file_store True) at (replicate 16 8) (Object [(ascii ''a'', Null)]) h) = Inr loc"
proof -
  let ?d = "Object [(ascii ''a'', Null)]"
  obtain h D ch at where h: "collection_at h D ch [at \<mapsto> (replicate 16 7, encode_stored ?d)]" "100 \<le> fs_room (heap_store h)"
    using collection_with_document by blast
  have l: "length (encode_stored ?d) < 2 ^ 32" "length (overflow_chunks (encode_stored ?d)) = 1"
    by (simp_all add: small_document length_overflow_chunks del: encode_stored.simps)
  have r: "length (overflow_chunks (encode_stored ?d)) < fs_room (heap_store h)" using h(2) unfolding l(2) by linarith
  have i: "length (replicate 16 (8 :: byte)) = 16" by simp
  note t = documents_are_a_map [OF h(1) i l(1) r, of True at]
  have some: "[at \<mapsto> (replicate 16 7, encode_stored ?d)] at \<noteq> None" by simp
  obtain h' D' where d: "delete_record (file_store True) at h = (Inr (), h')" "collection_at h' D' (ch(at := [])) (Map.empty(at := None))"
    using conjunct2 [OF conjunct2 [OF t], rule_format, OF some] by auto
  obtain loc h2 where u: "update_record (file_store True) at (replicate 16 8) ?d h = (Inr loc, h2)"
    using conjunct1 [OF conjunct2 [OF t], rule_format, OF some] by blast
  have "fst (update_record (file_store True) at (replicate 16 8) ?d h) = Inr loc" using u by simp
  moreover have "collection_at h' D' (ch(at := [])) Map.empty" using d(2) by simp
  ultimately show ?thesis using h(1) d(1) by blast
qed

text \<open>
  C34. A document inserted is read back, from whatever page the reader kept of the read before it:
  whole, it is the document with its id as its first field; as it is stored, it decodes to that
  and gives the fields asked for; and it is known to be an object without being decoded.
\<close>

theorem document_reads_back:
  assumes "reader_at rd cur fm D ch docs" "docs loc = Some (i, encode_stored (Object m))" "index_map im"
    and "wf_doc (Object m)" "\<not> nests_too_deep (Object m)" "length (encode_stored (Object m)) < 2 ^ 32"
  shows "(\<exists>rd'. records_get (file_store hw) im loc rd = (Inr (i, Object ((ID_FIELD, Id i) # filter (\<lambda>f. fst f \<noteq> ID_FIELD) m)), rd')
        \<and> reader_at rd' cur fm D ch docs)
    \<and> (\<exists>st rd'. records_stored (file_store hw) loc rd = (Inr st, rd') \<and> reader_at rd' cur fm D ch docs \<and> stored_id st = i
        \<and> stored_fields im st None = Inr (Object ((ID_FIELD, Id i) # filter (\<lambda>f. fst f \<noteq> ID_FIELD) m))
        \<and> stored_fields im st (Some names) = Inr (Object (filter (\<lambda>f. fst f \<in> set names) ((ID_FIELD, Id i) # filter (\<lambda>f. fst f \<noteq> ID_FIELD) m))))
    \<and> (\<exists>rd'. records_is_object (file_store hw) loc rd = (Inr (i, True), rd') \<and> reader_at rd' cur fm D ch docs)"
proof -
  have w: "within (Object m) MAX_NESTING" using assms(5) by (simp add: nests_too_deep_def del: within.simps)
  have d: "decode_document im (encode_stored (Object m)) = Inr (Object (without_id m), [])"
    by (rule index_map.decode_stored [OF assms(3,4) w assms(6)])
  have di: "distinct (keys (without_id m))" using assms(4) by (simp add: keys_filter)
  have wi: "with_id im (Object (without_id m)) i = Object ((ID_FIELD, Id i) # without_id m)"
    using index_map.shift_insert_0 [OF assms(3) di, of ID_FIELD "Id i"] by (simp add: with_id_def)
  have f: "decode_fields im (encode_stored (Object m)) i names
      = Inr (Object (filter (\<lambda>f. fst f \<in> set names) ((ID_FIELD, Id i) # without_id m)))"
    using index_map.decode_fields_stored [OF assms(3,4) w assms(6), of i names] by (simp del: encode_stored.simps)
  have o: "encodes_object (encode_stored (Object m))" by (simp add: encode_stored_object encode_document_simps encodes_object_def del: encode_stored.simps)
  note rd = assms(1) [unfolded reader_at_eq]
  show ?thesis
    unfolding reader_at_eq
    using file_pages.records_get_ok [OF rd assms(2) d, of hw] file_pages.records_stored_ok [OF rd assms(2), of hw]
      file_pages.records_is_object_ok [OF rd assms(2), of hw] f d wi o
    by (auto simp: stored_fields_def stored_decode_def decode_record_def simp del: encode_stored.simps)
qed

theorem document_reads_back_witness:
  "\<exists>rd loc rd'. records_get (file_store True) alist_ops loc rd
      = (Inr (replicate 16 7, Object ((ID_FIELD, Id (replicate 16 7)) # filter (\<lambda>f. fst f \<noteq> ID_FIELD) [(ascii ''a'', Null)])), rd')"
proof -
  obtain h D ch loc where h: "collection_at h D ch [loc \<mapsto> (replicate 16 7, encode_stored (Object [(ascii ''a'', Null)]))]"
    using collection_with_document by blast
  let ?rd = "\<lparr>reader_store = heap_store h, kept_page = None\<rparr>"
  have rd: "reader_at ?rd (current h) (free_map h) D ch [loc \<mapsto> (replicate 16 7, encode_stored (Object [(ascii ''a'', Null)]))]"
    using h by (simp add: reader_at_def collection_at_def del: encode_stored.simps)
  have m: "wf_doc (Object [(ascii ''a'', Null)])" "\<not> nests_too_deep (Object [(ascii ''a'', Null)])"
    by (simp_all add: nests_too_deep_def MAX_NESTING_def object_cost_def ID_FIELD_def is_tag_def TAGS_def ascii_def in_range_def utf8_ok.simps(2))
  have l: "length (encode_stored (Object [(ascii ''a'', Null)])) < 2 ^ 32" by (simp add: small_document del: encode_stored.simps)
  have s: "[loc \<mapsto> (replicate 16 7, encode_stored (Object [(ascii ''a'', Null)]))] loc = Some (replicate 16 7, encode_stored (Object [(ascii ''a'', Null)]))"
    by (simp del: encode_stored.simps)
  show ?thesis using document_reads_back [OF rd s alist.index_map_axioms m l, of True] by blast
qed

text \<open>
  C35. Listing a collection's pages gives exactly its data pages and its overflow pages, and dropping
  it frees those and no other page.
\<close>

theorem collection_pages_exact:
  assumes "collection_at h D ch docs" "set locs = dom docs" "distinct locs"
  shows "(\<exists>ps cs s'. collection_pages (file_store hw) (current h) locs (heap_store h) = (Inr (ps, cs), s') \<and> distinct ps \<and> set ps = D
        \<and> distinct cs \<and> set cs = (\<Union>loc. set (ch loc)) \<and> fs_view s' = fs_view (heap_store h))
    \<and> (\<exists>s'. free_collection_pages (file_store hw) (current h) locs (heap_store h) = (Inr (), s') \<and> fs_sound s'
        \<and> fs_view s' = (\<lambda>i. if i \<in> owned D ch then None else fs_view (heap_store h) i))"
proof -
  have s: "fs_sound (heap_store h)" "heap_at (fs_view (heap_store h)) (current h) (free_map h) D ch docs"
    using assms(1) by (simp_all add: collection_at_def)
  show ?thesis
    using file_pages.collection_pages_ok [OF s assms(2,3), of hw] file_pages.free_collection_pages_ok [OF s assms(2,3), of hw] by blast
qed

theorem collection_pages_exact_witness:
  "\<exists>h D ch loc s'. collection_at h D ch [loc \<mapsto> (replicate 16 7, encode_stored (Object [(ascii ''a'', Null)]))]
    \<and> free_collection_pages (file_store False) (current h) [loc] (heap_store h) = (Inr (), s') \<and> fs_view s' (loc_page loc) = None"
proof -
  let ?docs = "\<lambda>loc. [loc \<mapsto> (replicate 16 7, encode_stored (Object [(ascii ''a'', Null)]))]"
  obtain h D ch loc where h: "collection_at h D ch (?docs loc)" using collection_with_document by blast
  have d: "set [loc] = dom (?docs loc)" "distinct [loc]" by simp_all
  obtain s' where f: "free_collection_pages (file_store False) (current h) [loc] (heap_store h) = (Inr (), s')"
    "fs_view s' = (\<lambda>i. if i \<in> owned D ch then None else fs_view (heap_store h) i)"
    using conjunct2 [OF collection_pages_exact [OF h d, of False]] by blast
  have "loc_page loc \<in> D" using file_pages.heap_at_pages [of _ "current h" "free_map h" D ch "?docs loc"] h by (auto simp: collection_at_def)
  then have "fs_view s' (loc_page loc) = None" using f(2) by (simp add: owned_def)
  then show ?thesis using h f(1) by blast
qed

end
