(* ===== verification/Paths.thy ===== *)
theory Paths
  imports Key
begin

text \<open>
  Field paths (\<open>src/src/path.rs\<close>): a path taken apart at its dots, each step a name with any
  number of \<open>[*]\<close> at its end, and the values it reaches in a document. A path is its bytes; \<open>.\<close>,
  \<open>[\<close>, \<open>*\<close> and \<open>]\<close> are bytes of their own in UTF-8.

  The lemmas: a path without \<open>[*]\<close> and without empty names reaches one value, the one
  \<open>value_or_null\<close> gives; a path through the elements of an array reaches what the rest of the path
  reaches in each of them.
\<close>

subsection \<open>Taking a path apart\<close>

definition DOT :: byte where "DOT = 46"
definition BRACKET :: byte where "BRACKET = 91"
definition UNBRACKET :: byte where "UNBRACKET = 93"
definition FAN_OUT :: bytes where "FAN_OUT = ascii ''[*]''"

lemmas path_bytes = DOT_def BRACKET_def UNBRACKET_def

definition SCAN_UP_TO :: nat where "SCAN_UP_TO = 8"

definition get_field :: "im_ops \<Rightarrow> fields \<Rightarrow> bytes \<Rightarrow> document option" where
  "get_field im m name = (if length m \<le> SCAN_UP_TO then map_of m name else im_get im m name)"

record path_step =
  step_raw :: bytes
  step_name :: bytes
  step_fan_outs :: nat

datatype path = Field bytes | Steps "path_step list" bool

text \<open>\<open>path.split('.')\<close> and \<open>trim_end_matches("[*]")\<close>.\<close>

fun split_dots :: "bytes \<Rightarrow> bytes list" where
  "split_dots [] = [[]]"
| "split_dots (b # bs) =
     (if b = DOT then [] # split_dots bs
      else case split_dots bs of s # ss \<Rightarrow> (b # s) # ss | [] \<Rightarrow> [[b]])"

fun trim_fan_outs :: "bytes \<Rightarrow> bytes" where
  "trim_fan_outs s =
     (if 3 \<le> length s \<and> drop (length s - 3) s = FAN_OUT then trim_fan_outs (take (length s - 3) s) else s)"

declare trim_fan_outs.simps [simp del]

definition path_step_of :: "bytes \<Rightarrow> path_step" where
  "path_step_of raw =
     (let name = trim_fan_outs raw
      in \<lparr>step_raw = raw, step_name = name, step_fan_outs = (length raw - length name) div 3\<rparr>)"

definition is_multi :: "bytes \<Rightarrow> bool" where
  "is_multi p \<longleftrightarrow> contains_str p FAN_OUT"

definition path_new :: "bytes \<Rightarrow> path" where
  "path_new p =
     (if p \<noteq> [] \<and> DOT \<notin> set p \<and> \<not> contains_str p FAN_OUT then Field p
      else Steps (map path_step_of (split_dots p)) (contains_str p FAN_OUT))"

fun path_is_multi :: "path \<Rightarrow> bool" where
  "path_is_multi (Field _) \<longleftrightarrow> False"
| "path_is_multi (Steps _ multi) \<longleftrightarrow> multi"

subsection \<open>Following a path\<close>

fun field_of :: "im_ops \<Rightarrow> bytes \<Rightarrow> document \<Rightarrow> document option" where
  "field_of im name (Object m) = get_field im m name"
| "field_of im name _ = None"

fun fold_fields :: "im_ops \<Rightarrow> path_step list \<Rightarrow> document \<Rightarrow> document option" where
  "fold_fields im [] v = Some v"
| "fold_fields im (s # ss) v = (case field_of im (step_raw s) v of None \<Rightarrow> None | Some w \<Rightarrow> fold_fields im ss w)"

fun field_value :: "im_ops \<Rightarrow> path \<Rightarrow> document \<Rightarrow> document option" where
  "field_value im (Field name) d = field_of im name d"
| "field_value im (Steps ss _) d =
     (case ss of
        [only] \<Rightarrow> if step_raw only = [] then Some d else fold_fields im ss d
      | _ \<Rightarrow> fold_fields im ss d)"

definition value_or_null :: "im_ops \<Rightarrow> path \<Rightarrow> document \<Rightarrow> document" where
  "value_or_null im p d = (case field_value im p d of Some v \<Rightarrow> v | None \<Rightarrow> Null)"

text \<open>\<open>walk\<close>: a step with a name goes on with the field, then with the elements of the arrays.\<close>

definition next_fields :: "im_ops \<Rightarrow> document option \<Rightarrow> bytes \<Rightarrow> document list \<Rightarrow> document list" where
  "next_fields im missing name vs =
     List.map_filter (\<lambda>v. case field_of im name v of Some w \<Rightarrow> Some w | None \<Rightarrow> missing) vs"

fun elements :: "document \<Rightarrow> document list" where
  "elements (Array es) = es"
| "elements _ = []"

definition all_elements :: "document list \<Rightarrow> document list" where
  "all_elements vs = concat (map elements vs)"

fun walk_steps :: "im_ops \<Rightarrow> document option \<Rightarrow> nat \<Rightarrow> path_step list \<Rightarrow> document list \<Rightarrow> document list" where
  "walk_steps im missing i [] vs = vs"
| "walk_steps im missing i (s # ss) vs =
     walk_steps im missing (Suc i) ss
       ((all_elements ^^ step_fan_outs s)
         (if i > 0 \<or> step_name s \<noteq> [] then next_fields im missing (step_name s) vs else vs))"

fun path_walk :: "im_ops \<Rightarrow> path \<Rightarrow> document \<Rightarrow> bool \<Rightarrow> document list" where
  "path_walk im (Field name) d missing_is_null =
     (case field_of im name d of Some v \<Rightarrow> [v] | None \<Rightarrow> (if missing_is_null then [Null] else []))"
| "path_walk im (Steps ss _) d missing_is_null =
     walk_steps im (if missing_is_null then Some Null else None) 0 ss [d]"

definition path_values :: "im_ops \<Rightarrow> path \<Rightarrow> document \<Rightarrow> document list" where
  "path_values im p d = path_walk im p d True"

definition path_present :: "im_ops \<Rightarrow> path \<Rightarrow> document \<Rightarrow> document list" where
  "path_present im p d = path_walk im p d False"

subsection \<open>The steps of a path\<close>

text \<open>
  \<open>ensure_index_with\<close>'s check of a path (\<open>src/src/collection.rs\<close>): every step a name without
  brackets, then any number of \<open>[*]\<close>.
\<close>

definition step_ok :: "bytes \<Rightarrow> bool" where
  "step_ok raw \<longleftrightarrow> trim_fan_outs raw \<noteq> [] \<and> BRACKET \<notin> set (trim_fan_outs raw)
     \<and> UNBRACKET \<notin> set (trim_fan_outs raw)"

definition path_ok :: "bytes \<Rightarrow> bool" where
  "path_ok p \<longleftrightarrow> (\<forall>raw \<in> set (split_dots p). step_ok raw)"

abbreviation fans :: "nat \<Rightarrow> bytes" where
  "fans k \<equiv> concat (replicate k FAN_OUT)"

abbreviation steps_of :: "bytes \<Rightarrow> path_step list" where
  "steps_of p \<equiv> map path_step_of (split_dots p)"

lemma FAN_OUT_eq: "FAN_OUT = [BRACKET, 42, UNBRACKET]"
  by (simp add: FAN_OUT_def ascii_def path_bytes)

lemma FAN_OUT_props [simp]: "length FAN_OUT = 3" "FAN_OUT \<noteq> []" "DOT \<notin> set FAN_OUT" "BRACKET \<in> set FAN_OUT"
  by (simp_all add: FAN_OUT_eq path_bytes)

lemma fans_props [simp]: "length (fans k) = 3 * k" "DOT \<notin> set (fans k)"
  by (induction k) auto

lemma fans_snoc: "fans (Suc k) = fans k @ FAN_OUT"
  by (induction k) auto

lemma trim_append [simp]: "trim_fan_outs (s @ FAN_OUT) = trim_fan_outs s"
  by (subst trim_fan_outs.simps) simp

lemma trim_fans [simp]: "trim_fan_outs (s @ fans k) = trim_fan_outs s"
proof (induction k)
  case (Suc k)
  then show ?case unfolding fans_snoc append_assoc [symmetric] trim_append .
qed simp

lemma trim_short: "\<not> (3 \<le> length s \<and> drop (length s - 3) s = FAN_OUT) \<Longrightarrow> trim_fan_outs s = s"
  by (subst trim_fan_outs.simps) (simp only: if_False)

lemma trim_Nil [simp]: "trim_fan_outs [] = []"
  by (rule trim_short) simp

lemma trim_split: "\<exists>k. s = trim_fan_outs s @ fans k"
proof (induction s rule: trim_fan_outs.induct)
  case (1 s)
  show ?case
  proof (cases "3 \<le> length s \<and> drop (length s - 3) s = FAN_OUT")
    case True
    then obtain k where "take (length s - 3) s = trim_fan_outs (take (length s - 3) s) @ fans k"
      using "1.IH" by blast
    moreover have s: "s = take (length s - 3) s @ FAN_OUT" using True by (metis append_take_drop_id)
    moreover have "trim_fan_outs s = trim_fan_outs (take (length s - 3) s)" using True by (subst trim_fan_outs.simps) simp
    ultimately have "s = trim_fan_outs s @ fans (Suc k)" unfolding fans_snoc by (metis append.assoc)
    then show ?thesis by blast
  next
    case False
    then show ?thesis using trim_short [OF False] by (intro exI [of _ 0]) simp
  qed
qed

lemma path_step_of_fans:
  "path_step_of (s @ fans k) = (path_step_of s)\<lparr>step_raw := s @ fans k, step_fan_outs := step_fan_outs (path_step_of s) + k\<rparr>"
proof -
  obtain j where j: "s = trim_fan_outs s @ fans j" using trim_split by blast
  define n where "n = trim_fan_outs s"
  have l: "length s = length n + 3 * j" using arg_cong [OF j, of length] by (simp add: n_def)
  show ?thesis by (simp add: path_step_of_def Let_def l flip: n_def)
qed

lemma path_step_of_all_fans: "step_name (path_step_of (fans k)) = []" "step_fan_outs (path_step_of (fans k)) = k"
  using path_step_of_fans [of "[]" k] by (simp_all add: path_step_of_def)

text \<open>A step with more after a \<open>[*]\<close> than further ones is not one an index may be on.\<close>

lemma fans_middle: "us @ FAN_OUT @ r = fans k \<Longrightarrow> \<exists>j. r = fans j"
proof (induction k arbitrary: us)
  case (Suc k)
  consider "us = []" | a where "us = [a]" | a b where "us = [a, b]" | a b c us' where "us = a # b # c # us'"
    by (metis list.exhaust)
  then show ?case
  proof cases
    case 4
    then have "us' @ FAN_OUT @ r = fans k" using Suc.prems by (simp add: FAN_OUT_eq)
    then show ?thesis using Suc.IH by blast
  qed (use Suc.prems in \<open>auto simp: FAN_OUT_eq path_bytes\<close>)
qed simp

lemma step_ok_fans:
  assumes "step_ok (s @ FAN_OUT @ r)"
  shows "\<exists>k. r = fans k"
proof -
  define n where "n = trim_fan_outs (s @ FAN_OUT @ r)"
  obtain k where k: "s @ FAN_OUT @ r = n @ fans k" unfolding n_def using trim_split by blast
  have no: "BRACKET \<notin> set n" using assms by (simp add: step_ok_def n_def)
  have "\<exists>us. us @ FAN_OUT @ r = fans k"
  proof -
    consider us where "s = n @ us" "us @ FAN_OUT @ r = fans k" | us where "n = s @ us" "FAN_OUT @ r = us @ fans k"
      using k unfolding append_eq_append_conv2 by blast
    then show ?thesis
    proof cases
      case 2
      then have "us = []" using no by (cases us) (auto simp: FAN_OUT_eq)
      then show ?thesis using 2(2) by (intro exI [of _ "[]"]) simp
    qed blast
  qed
  then show ?thesis using fans_middle by blast
qed

lemma split_nonempty [simp]: "split_dots p \<noteq> []"
  by (induction p) (auto split: list.splits)

lemma split_append_dot: "split_dots (p @ DOT # q) = split_dots p @ split_dots q"
  by (induction p) (auto split: list.splits simp: Cons_eq_append_conv)

lemma split_append:
  "split_dots (p @ q) = butlast (split_dots p) @ (last (split_dots p) @ hd (split_dots q)) # tl (split_dots q)"
proof (induction p)
  case (Cons b p)
  obtain s ss where "split_dots p = s # ss" by (cases "split_dots p") auto
  then show ?case using Cons by (cases ss) auto
qed simp

lemma split_no_dot: "DOT \<notin> set p \<Longrightarrow> split_dots p = [p]"
  by (induction p) auto

lemma contains_fans: "contains_str (s @ FAN_OUT @ r) FAN_OUT"
proof (induction s)
  case Nil
  then show ?case unfolding FAN_OUT_eq by simp
qed simp

lemma contains_end: "contains_str (s @ FAN_OUT) FAN_OUT"
  using contains_fans [of s "[]"] by simp

lemma trim_no_fans: "\<not> contains_str p FAN_OUT \<Longrightarrow> trim_fan_outs p = p"
  by (rule trim_short) (metis append_take_drop_id contains_end)

lemma path_step_of_plain: "\<not> contains_str p FAN_OUT \<Longrightarrow> path_step_of p = \<lparr>step_raw = p, step_name = p, step_fan_outs = 0\<rparr>"
  by (simp add: path_step_of_def trim_no_fans)

lemma is_multi_path [simp]: "path_is_multi (path_new p) = is_multi p"
  by (simp add: path_new_def is_multi_def)

subsection \<open>The values of a path\<close>

text \<open>The path of one field is walked as any other is.\<close>

lemma path_walk_steps:
  "path_walk im (path_new p) d b = walk_steps im (if b then Some Null else None) 0 (steps_of p) [d]"
  by (simp add: path_new_def split_no_dot path_step_of_plain next_fields_def map_filter_simps
      split: option.splits)

lemma path_values_steps: "path_values im (path_new p) d = walk_steps im (Some Null) 0 (steps_of p) [d]"
  by (simp add: path_values_def path_walk_steps)

lemma walk_steps_append:
  "walk_steps im mi i (ss @ ts) vs = walk_steps im mi (i + length ss) ts (walk_steps im mi i ss vs)"
  by (induction im mi i ss vs rule: walk_steps.induct) simp_all

lemma walk_steps_later: "0 < i \<Longrightarrow> 0 < j \<Longrightarrow> walk_steps im mi i ss vs = walk_steps im mi j ss vs"
proof (induction ss arbitrary: i j vs)
  case (Cons s ss)
  show ?case using Cons.IH [of "Suc i" "Suc j"] Cons.prems by simp
qed simp

lemma walk_steps_named: "step_name s \<noteq> [] \<Longrightarrow> walk_steps im mi i (s # ss) vs = walk_steps im mi j (s # ss) vs"
  using walk_steps_later [of "Suc i" "Suc j" im mi ss] by simp

lemma next_fields_mono: "set vs \<subseteq> set ws \<Longrightarrow> set (next_fields im mi n vs) \<subseteq> set (next_fields im mi n ws)"
  by (auto simp: next_fields_def map_filter_def)

lemma set_all_elements: "set (all_elements vs) = (\<Union>v \<in> set vs. set (elements v))"
  by (simp add: all_elements_def)

lemma all_elements_mono: "set vs \<subseteq> set ws \<Longrightarrow> set ((all_elements ^^ k) vs) \<subseteq> set ((all_elements ^^ k) ws)"
  by (induction k arbitrary: vs ws) (auto simp: all_elements_def)

lemma walk_steps_mono: "set vs \<subseteq> set ws \<Longrightarrow> set (walk_steps im mi i ss vs) \<subseteq> set (walk_steps im mi i ss ws)"
  by (induction ss arbitrary: i vs ws) (simp_all add: all_elements_mono next_fields_mono)

text \<open>\<open>path_in\<close>: the path of an element's path \<open>inner\<close> from the array at \<open>outer\<close> on.\<close>

definition path_in :: "bytes \<Rightarrow> bytes \<Rightarrow> bytes" where
  "path_in outer inner =
     (if inner = [] \<or> starts_with inner FAN_OUT then outer @ FAN_OUT @ inner
      else outer @ FAN_OUT @ DOT # inner)"

lemma walk_fans:
  assumes "steps_of p = ss @ [s]" and "s' = s\<lparr>step_raw := x, step_fan_outs := step_fan_outs s + Suc k\<rparr>"
  shows "walk_steps im mi 0 (ss @ s' # ts) [d]
    = walk_steps im mi (Suc (length ss)) ts
        ((all_elements ^^ k) (all_elements (walk_steps im mi 0 (steps_of p) [d])))"
proof -
  have "(f ^^ (j + Suc k)) xs = (f ^^ k) (f ((f ^^ j) xs))" for f :: "document list \<Rightarrow> document list" and j xs
    using funpow_add [of k "Suc j" f] by (simp add: add.commute)
  then show ?thesis unfolding assms by (simp add: walk_steps_append del: add_Suc_right)
qed

lemma path_in_ok:
  assumes "path_ok (path_in outer inner)"
  shows "path_ok outer"
    and "e \<in> set (all_elements (path_values im (path_new outer) d)) \<Longrightarrow>
      set (path_values im (path_new inner) e) \<subseteq> set (path_values im (path_new (path_in outer inner)) d)"
proof -
  obtain rs r where rs: "split_dots outer = rs @ [r]" by (metis split_nonempty rev_exhaust)
  define s where "s = path_step_of r"
  have so: "steps_of outer = map path_step_of rs @ [s]" by (simp add: rs s_def)
  have "path_ok outer \<and> (e \<in> set (all_elements (path_values im (path_new outer) d)) \<longrightarrow>
      set (path_values im (path_new inner) e) \<subseteq> set (path_values im (path_new (path_in outer inner)) d))"
  proof (cases "inner = [] \<or> starts_with inner FAN_OUT")
    case True
    define q qs where "q = hd (split_dots inner)" and "qs = tl (split_dots inner)"
    have q: "split_dots inner = q # qs" by (simp add: q_def qs_def)
    have "split_dots (path_in outer inner) = rs @ (r @ FAN_OUT @ q) # qs"
      using True split_append [of outer "FAN_OUT @ inner"] split_append [of FAN_OUT inner]
      by (simp add: path_in_def rs q split_no_dot)
    moreover from this obtain k where k: "q = fans k"
      using assms step_ok_fans [of r q] by (auto simp: path_ok_def)
    ultimately have sp: "split_dots (path_in outer inner) = rs @ (r @ fans (Suc k)) # qs"
      by simp
    have "path_ok outer" using assms sp trim_fans [of r "Suc k"]
      by (auto simp: path_ok_def rs step_ok_def simp del: replicate.simps)
    moreover have "set (path_values im (path_new inner) e) \<subseteq> set (path_values im (path_new (path_in outer inner)) d)"
      if e: "e \<in> set (all_elements (path_values im (path_new outer) d))"
    proof -
      have "path_values im (path_new (path_in outer inner)) d
        = walk_steps im (Some Null) (Suc (length rs)) (map path_step_of qs)
            ((all_elements ^^ k) (all_elements (path_values im (path_new outer) d)))"
        using walk_fans [OF so refl, where im = im and mi = "Some Null" and x = "r @ fans (Suc k)" and k = k]
        unfolding path_values_steps sp by (simp only: path_step_of_fans s_def list.map map_append length_map)
      moreover have "path_values im (path_new inner) e
        = walk_steps im (Some Null) (Suc (length rs)) (map path_step_of qs) ((all_elements ^^ k) [e])"
        unfolding path_values_steps q k
        by (simp add: path_step_of_all_fans walk_steps_later [of "Suc 0" "Suc (length rs)"])
      ultimately show ?thesis
        using e by (simp only:) (intro walk_steps_mono all_elements_mono, simp)
    qed
    ultimately show ?thesis by blast
  next
    case False
    have sp: "split_dots (path_in outer inner) = rs @ (r @ fans (Suc 0)) # split_dots inner"
      using False split_append_dot [of "outer @ FAN_OUT" inner] split_append [of outer FAN_OUT]
      by (simp add: path_in_def rs split_no_dot)
    have "path_ok outer" using assms sp trim_fans [of r "Suc 0"]
      by (auto simp: path_ok_def rs step_ok_def simp del: replicate.simps)
    moreover have "set (path_values im (path_new inner) e) \<subseteq> set (path_values im (path_new (path_in outer inner)) d)"
      if e: "e \<in> set (all_elements (path_values im (path_new outer) d))"
    proof -
      obtain q qs where q: "split_dots inner = q # qs" by (cases "split_dots inner") auto
      have "step_name (path_step_of q) \<noteq> []"
        using assms sp q by (auto simp: path_ok_def step_ok_def path_step_of_def Let_def)
      then have "path_values im (path_new inner) e
        = walk_steps im (Some Null) (Suc (length rs)) (steps_of inner) [e]"
        unfolding path_values_steps q list.map by (rule walk_steps_named)
      moreover have "path_values im (path_new (path_in outer inner)) d
        = walk_steps im (Some Null) (Suc (length rs)) (steps_of inner)
            (all_elements (path_values im (path_new outer) d))"
        using walk_fans [OF so refl, where im = im and mi = "Some Null" and x = "r @ fans (Suc 0)" and k = 0]
        unfolding path_values_steps sp by (simp only: path_step_of_fans s_def list.map map_append length_map funpow_0)
      ultimately show ?thesis using e by (simp only:) (intro walk_steps_mono, simp)
    qed
    ultimately show ?thesis by blast
  qed
  then show "path_ok outer" "e \<in> set (all_elements (path_values im (path_new outer) d)) \<Longrightarrow>
      set (path_values im (path_new inner) e) \<subseteq> set (path_values im (path_new (path_in outer inner)) d)"
    by blast+
qed

lemma path_in_multi [simp]: "is_multi (path_in outer inner)"
  using contains_fans [of outer] by (simp add: is_multi_def path_in_def)

text \<open>A path without \<open>[*]\<close> reaches one value.\<close>

lemma split_contains: "raw \<in> set (split_dots p) \<Longrightarrow> contains_str raw FAN_OUT \<Longrightarrow> contains_str p FAN_OUT"
proof (induction p arbitrary: raw)
  case (Cons b p)
  obtain s ss where sp: "split_dots p = s # ss" by (cases "split_dots p") auto
  have pre: "\<exists>t. p = s @ t" using sp
    by (induction p arbitrary: s ss) (auto split: if_splits list.splits)
  have nil: "\<not> contains_str [] FAN_OUT" by simp
  show ?case
  proof (cases "b = DOT")
    case True
    then have "raw = [] \<or> raw \<in> set (split_dots p)" using Cons.prems(1) by simp
    then show ?thesis using Cons.IH Cons.prems(2) nil by auto
  next
    case False
    consider "raw = b # s" | "raw \<in> set ss" using Cons.prems(1) False sp by auto
    then show ?thesis
    proof cases
      case 1
      then consider "starts_with (b # s) FAN_OUT" | "contains_str s FAN_OUT" using Cons.prems(2) by auto
      then show ?thesis
      proof cases
        case 1
        obtain t where t: "p = s @ t" using pre by blast
        have "take (length FAN_OUT) (b # s) = FAN_OUT" using 1 by (simp add: starts_with_def)
        moreover from this have "length FAN_OUT \<le> length (b # s)" by (metis length_take min.cobounded1)
        ultimately have "take (length FAN_OUT) ((b # s) @ t) = FAN_OUT" by (simp only: take_append) simp
        then have "starts_with (b # p) FAN_OUT" by (simp add: starts_with_def t)
        then show ?thesis by simp
      next
        case 2
        then show ?thesis using Cons.IH [of s] sp by simp
      qed
    next
      case 2
      then show ?thesis using Cons.IH [of raw] sp Cons.prems(2) by simp
    qed
  qed
qed simp

lemma walk_Null: "(\<And>r. r \<in> set rs \<Longrightarrow> \<not> contains_str r FAN_OUT) \<Longrightarrow>
  walk_steps im (Some Null) i (map path_step_of rs) [Null] = [Null]"
  by (induction rs arbitrary: i) (simp_all add: path_step_of_plain next_fields_def map_filter_simps)

lemma fold_fields_Null: "fold_fields im ss Null = Some w \<Longrightarrow> w = Null"
  by (cases ss) simp_all

lemma walk_plain:
  assumes "\<And>r. r \<in> set rs \<Longrightarrow> \<not> contains_str r FAN_OUT \<and> r \<noteq> []"
  shows "walk_steps im (Some Null) i (map path_step_of rs) [v]
    = [case fold_fields im (map path_step_of rs) v of Some w \<Rightarrow> w | None \<Rightarrow> Null]"
  using assms
  by (induction rs arbitrary: i v)
    (auto simp: path_step_of_plain next_fields_def map_filter_simps walk_Null
      dest: fold_fields_Null split: option.splits)

lemma plain_values:
  assumes "\<not> is_multi p" and "path_ok p \<or> p = []"
  shows "path_values im (path_new p) d = [value_or_null im (path_new p) d]"
proof (cases "p = []")
  case True
  then show ?thesis
    unfolding path_values_steps by (simp add: value_or_null_def path_new_def path_step_of_plain FAN_OUT_eq)
next
  case False
  have plain: "\<not> contains_str r FAN_OUT \<and> r \<noteq> []" if "r \<in> set (split_dots p)" for r
    using that split_contains [OF that] assms False by (auto simp: is_multi_def path_ok_def step_ok_def)
  have "value_or_null im (path_new p) d
    = (case fold_fields im (steps_of p) d of Some w \<Rightarrow> w | None \<Rightarrow> Null)"
  proof (cases "DOT \<in> set p")
    case True
    have "step_raw (hd (steps_of p)) \<noteq> []" using plain [of "hd (split_dots p)"]
      by (simp add: hd_map path_step_of_def Let_def)
    then show ?thesis using True by (auto simp: path_new_def value_or_null_def split: list.splits)
  next
    case dot: False
    then show ?thesis using False assms(1)
      by (auto simp: path_new_def is_multi_def value_or_null_def split_no_dot path_step_of_plain split: option.splits)
  qed
  then show ?thesis unfolding path_values_steps using walk_plain [OF plain] by simp
qed

subsection \<open>The values are part of the document\<close>

context index_map begin

lemma get_field_map_of: "distinct (keys m) \<Longrightarrow> get_field im m k = map_of m k"
  by (simp add: get_field_def get_field)

lemma field_of_wf: "wf_doc v \<Longrightarrow> field_of im name v = Some w \<Longrightarrow> wf_doc w"
  by (cases v) (auto simp: get_field_map_of dest!: map_of_SomeD)

lemma fold_fields_wf: "wf_doc v \<Longrightarrow> fold_fields im ss v = Some w \<Longrightarrow> wf_doc w"
  by (induction ss arbitrary: v) (auto dest: field_of_wf split: option.splits)

lemma value_or_null_wf: "wf_doc d \<Longrightarrow> wf_doc (value_or_null im p d)"
  by (cases p) (auto simp: value_or_null_def simp del: fold_fields.simps
      dest: field_of_wf fold_fields_wf split: option.splits list.splits if_splits)

lemma all_elements_wf: "list_all wf_doc vs \<Longrightarrow> list_all wf_doc ((all_elements ^^ k) vs)"
proof (induction k)
  case (Suc k)
  have el: "wf_doc v \<Longrightarrow> w \<in> set (elements v) \<Longrightarrow> wf_doc w" for v w by (cases v) auto
  have "\<forall>v \<in> set ((all_elements ^^ k) vs). wf_doc v" using Suc by (simp add: list_all_iff)
  then show ?case by (auto simp: list_all_iff set_all_elements intro: el)
qed simp

lemma next_fields_wf: "list_all wf_doc vs \<Longrightarrow> list_all wf_doc (next_fields im (Some Null) name vs)"
  by (auto simp: list_all_iff next_fields_def map_filter_def dest: field_of_wf split: option.splits)

lemma walk_steps_wf: "list_all wf_doc vs \<Longrightarrow> list_all wf_doc (walk_steps im (Some Null) i ss vs)"
  by (induction ss arbitrary: i vs) (simp_all add: all_elements_wf next_fields_wf)

lemma path_values_wf: "wf_doc d \<Longrightarrow> v \<in> set (path_values im (path_new p) d) \<Longrightarrow> wf_doc v"
  using walk_steps_wf [of "[d]"] by (auto simp: path_values_steps list_all_iff)

end

end
