(* ===== verification/Conditions.thy ===== *)
theory Conditions
  imports Paths
begin

text \<open>
  Conditions and filters (\<open>src/src/query.rs\<close>, \<open>src/src/pattern.rs\<close>): what a document must meet, a
  condition with its paths parsed (\<open>matcher\<close>), and checking a document against it. A closure of the
  application's is a function that gives \<open>None\<close> when it panics; checking gives \<open>None\<close> then. A regex is
  the function the \<open>regex\<close> crate compiles it to, with the prefix every match begins with. Folding
  case takes the lower-casing of strings, \<open>lower\<close>, as elsewhere.

  The lemmas: a document cut down to the top-level fields a filter names matches as the whole one
  does.
\<close>

subsection \<open>Conditions\<close>

datatype kind = KBool | KInt | KFloat | KNumber | KString | KBinary | KArray | KObject | KId | KDateTime

definition kind_of :: "kind \<Rightarrow> document \<Rightarrow> bool" where
  "kind_of k v =
     (case v of
        Null \<Rightarrow> False
      | Bool _ \<Rightarrow> k = KBool
      | Integer _ \<Rightarrow> k = KInt \<or> k = KNumber
      | Float _ \<Rightarrow> k = KFloat \<or> k = KNumber
      | String _ \<Rightarrow> k = KString
      | Binary _ \<Rightarrow> k = KBinary
      | Array _ \<Rightarrow> k = KArray
      | Object _ \<Rightarrow> k = KObject
      | Id _ \<Rightarrow> k = KId
      | DateTime _ \<Rightarrow> k = KDateTime)"

record regex =
  is_match :: "bytes \<Rightarrow> bool"
  regex_prefix :: "bytes option"

type_synonym closure = "document \<Rightarrow> bool option"

datatype condition =
    Compare bytes op document
  | Exists bytes
  | SizeIs bytes op nat
  | ElemMatch bytes condition
  | AllOf "condition list"
  | AnyOf "condition list"
  | NotOf condition
  | Custom "bytes list" closure
  | IsKind bytes kind
  | Regex bytes regex

text \<open>The top-level field a path starts in; empty for the document itself.\<close>

definition first_name :: "bytes \<Rightarrow> bytes" where
  "first_name p = takeWhile (\<lambda>b. b \<noteq> DOT \<and> b \<noteq> BRACKET) p"

definition add_name :: "bytes \<Rightarrow> bytes list \<Rightarrow> bytes list option" where
  "add_name p names =
     (let first = first_name p
      in if first = [] then None else if first \<in> set names then Some names else Some (names @ [first]))"

fun add_names :: "bytes list \<Rightarrow> bytes list \<Rightarrow> bytes list option" where
  "add_names [] names = Some names"
| "add_names (p # ps) names = (case add_name p names of None \<Rightarrow> None | Some names \<Rightarrow> add_names ps names)"

definition top_names :: "bytes list \<Rightarrow> bytes list option" where
  "top_names fs = add_names fs []"

subsection \<open>Checking a document\<close>

datatype matcher =
    MCompare path op document "bytes option"
  | MExists path
  | MIsKind path kind
  | MSize path op document
  | MElemMatch path matcher
  | MAll "matcher list"
  | MAny "matcher list"
  | MNot matcher
  | MCustom closure "bytes list option"
  | MRegex path regex

fun matcher_of :: "(bytes \<Rightarrow> bytes) \<Rightarrow> condition \<Rightarrow> matcher" where
  "matcher_of lower (Compare f op v) =
     MCompare (path_new f) op v
       (case (op, v) of (Contains, String needle) \<Rightarrow> Some (fold_case lower needle) | _ \<Rightarrow> None)"
| "matcher_of lower (Exists f) = MExists (path_new f)"
| "matcher_of lower (IsKind f k) = MIsKind (path_new f) k"
| "matcher_of lower (SizeIs f op n) = MSize (path_new f) op (Integer (of_nat n))"
| "matcher_of lower (ElemMatch f c) = MElemMatch (path_new f) (matcher_of lower c)"
| "matcher_of lower (AllOf cs) = MAll (map (matcher_of lower) cs)"
| "matcher_of lower (AnyOf cs) = MAny (map (matcher_of lower) cs)"
| "matcher_of lower (NotOf c) = MNot (matcher_of lower c)"
| "matcher_of lower (Custom fs test) = MCustom test (top_names fs)"
| "matcher_of lower (Regex f r) = MRegex (path_new f) r"

text \<open>The loops of an AND and of an OR, which end at the first that decides or panics.\<close>

fun try_all :: "bool option list \<Rightarrow> bool option" where
  "try_all [] = Some True"
| "try_all (r # rs) = (case r of None \<Rightarrow> None | Some False \<Rightarrow> Some False | Some True \<Rightarrow> try_all rs)"

fun try_any :: "bool option list \<Rightarrow> bool option" where
  "try_any [] = Some False"
| "try_any (r # rs) = (case r of None \<Rightarrow> None | Some True \<Rightarrow> Some True | Some False \<Rightarrow> try_any rs)"

text \<open>A closure runs on the document cut down to the fields it names, unless it holds no others.\<close>

definition run_cut :: "im_ops \<Rightarrow> bytes list option \<Rightarrow> document \<Rightarrow> (document \<Rightarrow> 'r option) \<Rightarrow> 'r option" where
  "run_cut im names d run =
     run (case (names, d) of
         (Some ns, Object m) \<Rightarrow>
           if \<not> (\<forall>key \<in> set (keys m). key \<in> set ns)
           then Object (foldl (\<lambda>m (key, v). im_insert im m key v) [] (filter (\<lambda>(key, _). key \<in> set ns) m))
           else d
       | _ \<Rightarrow> d)"

definition compare_holds ::
    "im_ops \<Rightarrow> (bytes \<Rightarrow> bytes) \<Rightarrow> op \<Rightarrow> document \<Rightarrow> bytes option \<Rightarrow> document \<Rightarrow> bool" where
  "compare_holds im lower op value needle v =
     (case (op, needle) of
        (Contains, Some needle) \<Rightarrow>
          (case v of String haystack \<Rightarrow> contains_str (fold_case lower haystack) needle | _ \<Rightarrow> False)
      | _ \<Rightarrow> value_matches im lower op v value)"

definition regex_holds :: "regex \<Rightarrow> document \<Rightarrow> bool" where
  "regex_holds r v = (case v of String s \<Rightarrow> is_match r s | _ \<Rightarrow> False)"

definition array_lengths :: "document list \<Rightarrow> document list" where
  "array_lengths vs =
     List.map_filter (\<lambda>v. case v of Array es \<Rightarrow> Some (Integer (of_nat (length es))) | _ \<Rightarrow> None) vs"

fun matches :: "im_ops \<Rightarrow> (bytes \<Rightarrow> bytes) \<Rightarrow> matcher \<Rightarrow> document \<Rightarrow> bool option" where
  "matches im lower (MCompare p op value needle) d = Some
     (if \<not> path_is_multi p then compare_holds im lower op value needle (value_or_null im p d)
      else if op = Ne then \<not> (\<exists>v \<in> set (path_values im p d). value_matches im lower Eq v value)
      else \<exists>v \<in> set (path_values im p d). compare_holds im lower op value needle v)"
| "matches im lower (MRegex p r) d = Some
     (if \<not> path_is_multi p then regex_holds r (value_or_null im p d)
      else \<exists>v \<in> set (path_values im p d). regex_holds r v)"
| "matches im lower (MExists p) d = Some (path_present im p d \<noteq> [])"
| "matches im lower (MIsKind p k) d = Some (\<exists>v \<in> set (path_present im p d). kind_of k v)"
| "matches im lower (MSize p op n) d =
     Some (any_matches im lower op n (array_lengths (path_values im p d)))"
| "matches im lower (MElemMatch p mt) d =
     try_any (map (matches im lower mt) (all_elements (path_values im p d)))"
| "matches im lower (MAll mts) d = try_all (map (\<lambda>mt. matches im lower mt d) mts)"
| "matches im lower (MAny mts) d = try_any (map (\<lambda>mt. matches im lower mt d) mts)"
| "matches im lower (MNot mt) d = map_option HOL.Not (matches im lower mt d)"
| "matches im lower (MCustom test names) d = run_cut im names d test"

abbreviation meets :: "im_ops \<Rightarrow> (bytes \<Rightarrow> bytes) \<Rightarrow> condition \<Rightarrow> document \<Rightarrow> bool option" where
  "meets im lower c d \<equiv> matches im lower (matcher_of lower c) d"

subsection \<open>Filters\<close>

record key_sort =
  sort_fields :: "bytes list"
  sort_key :: "document \<Rightarrow> f64 option option"
  sort_dir :: sort_dir

datatype hint = HIndex "bytes list" | NoIndex

record query =
  conditions :: "condition list"
  sort_by :: "(bytes \<times> sort_dir) list"
  by_key :: "key_sort option"
  skip_first :: nat
  limit_to :: "nat option"
  select_paths :: "bytes list option"
  except_paths :: "bytes list"
  hinted :: "hint option"

definition query_new :: query where
  "query_new = \<lparr>conditions = [], sort_by = [], by_key = None, skip_first = 0, limit_to = None,
     select_paths = None, except_paths = [], hinted = None\<rparr>"

definition query_and :: "query \<Rightarrow> condition \<Rightarrow> query" where
  "query_and f c = f\<lparr>conditions := conditions f @ [c]\<rparr>"

definition filter_matcher :: "(bytes \<Rightarrow> bytes) \<Rightarrow> query \<Rightarrow> matcher" where
  "filter_matcher lower f = MAll (map (matcher_of lower) (conditions f))"

text \<open>The top-level fields whose values decide whether a document matches, and where it sorts.\<close>

fun condition_names :: "condition \<Rightarrow> bytes list \<Rightarrow> bytes list option" where
  "condition_names (Compare f _ _) names = add_name f names"
| "condition_names (Exists f) names = add_name f names"
| "condition_names (IsKind f _) names = add_name f names"
| "condition_names (SizeIs f _ _) names = add_name f names"
| "condition_names (ElemMatch f _) names = add_name f names"
| "condition_names (Regex f _) names = add_name f names"
| "condition_names (AllOf cs) names =
     fold (\<lambda>c acc. case acc of None \<Rightarrow> None | Some ns \<Rightarrow> condition_names c ns) cs (Some names)"
| "condition_names (AnyOf cs) names =
     fold (\<lambda>c acc. case acc of None \<Rightarrow> None | Some ns \<Rightarrow> condition_names c ns) cs (Some names)"
| "condition_names (NotOf c) names = condition_names c names"
| "condition_names (Custom fs _) names = add_names fs names"

definition fields_with :: "query \<Rightarrow> bool \<Rightarrow> bytes list option" where
  "fields_with f with_sort =
     (case fold (\<lambda>c acc. case acc of None \<Rightarrow> None | Some ns \<Rightarrow> condition_names c ns) (conditions f) (Some []) of
        None \<Rightarrow> None
      | Some names \<Rightarrow>
          if with_sort then
            (case add_names (case by_key f of Some key \<Rightarrow> sort_fields key | None \<Rightarrow> []) names of
               None \<Rightarrow> None
             | Some names \<Rightarrow> add_names (map fst (sort_by f)) names)
          else Some names)"

subsection \<open>The fields a filter looks at\<close>

text \<open>\<open>bracket_free\<close>: the name a path starts with has no bracket but those of its \<open>[*]\<close>.\<close>

definition bracket_free :: "bytes \<Rightarrow> bool" where
  "bracket_free p \<longleftrightarrow> BRACKET \<notin> set (trim_fan_outs (hd (split_dots p)))"

fun names_bracket_free :: "condition \<Rightarrow> bool" where
  "names_bracket_free (Compare f _ _) \<longleftrightarrow> bracket_free f"
| "names_bracket_free (Exists f) \<longleftrightarrow> bracket_free f"
| "names_bracket_free (IsKind f _) \<longleftrightarrow> bracket_free f"
| "names_bracket_free (SizeIs f _ _) \<longleftrightarrow> bracket_free f"
| "names_bracket_free (ElemMatch f _) \<longleftrightarrow> bracket_free f"
| "names_bracket_free (Regex f _) \<longleftrightarrow> bracket_free f"
| "names_bracket_free (AllOf cs) \<longleftrightarrow> (\<forall>c \<in> set cs. names_bracket_free c)"
| "names_bracket_free (AnyOf cs) \<longleftrightarrow> (\<forall>c \<in> set cs. names_bracket_free c)"
| "names_bracket_free (NotOf c) \<longleftrightarrow> names_bracket_free c"
| "names_bracket_free (Custom _ _) \<longleftrightarrow> True"

lemma hd_split: "hd (split_dots p) = takeWhile (\<lambda>b. b \<noteq> DOT) p"
  by (induction p) (auto split: list.splits)

lemma first_name_split: "first_name p = takeWhile (\<lambda>b. b \<noteq> BRACKET) (hd (split_dots p))"
  unfolding hd_split first_name_def by (induction p) auto

lemma takeWhile_fans: "BRACKET \<notin> set n \<Longrightarrow> takeWhile (\<lambda>b. b \<noteq> BRACKET) (n @ fans k) = n"
  by (cases k) (auto simp: FAN_OUT_eq takeWhile_eq_all_conv takeWhile_append)

lemma first_name_step:
  assumes "bracket_free p" shows "step_name (path_step_of (hd (split_dots p))) = first_name p"
proof -
  obtain k where "hd (split_dots p) = trim_fan_outs (hd (split_dots p)) @ fans k" using trim_split by blast
  then have "first_name p = trim_fan_outs (hd (split_dots p))"
    using takeWhile_fans assms unfolding first_name_split bracket_free_def by metis
  then show ?thesis by (simp add: path_step_of_def Let_def)
qed

lemma add_name_some:
  "add_name p ns = Some ns' \<Longrightarrow> first_name p \<noteq> [] \<and> set ns' = insert (first_name p) (set ns)"
  by (auto simp: add_name_def Let_def split: if_splits)

lemma add_names_some:
  "add_names ps ns = Some ns' \<Longrightarrow> (\<forall>p \<in> set ps. first_name p \<noteq> []) \<and> set ns' = set ns \<union> first_name ` set ps"
  by (induction ps ns rule: add_names.induct) (auto dest!: add_name_some split: option.splits)

lemma add_names_total: "\<forall>p \<in> set ps. first_name p \<noteq> [] \<Longrightarrow> \<exists>ns'. add_names ps ns = Some ns'"
  by (induction ps ns rule: add_names.induct) (auto simp: add_name_def Let_def)

abbreviation "names_loop cs ns \<equiv>
  fold (\<lambda>c acc. case acc of None \<Rightarrow> None | Some ns \<Rightarrow> condition_names c ns) cs (Some ns)"

lemma names_loop_None: "fold (\<lambda>c acc. case acc of None \<Rightarrow> None | Some ns \<Rightarrow> condition_names c ns) cs None = None"
  by (induction cs) simp_all

lemma names_loop_some:
  assumes "\<And>c ns ns'. c \<in> set cs \<Longrightarrow> condition_names c ns = Some ns' \<Longrightarrow> set ns \<subseteq> set ns'"
    and "names_loop cs ns = Some ns'"
  shows "set ns \<subseteq> set ns' \<and> (\<forall>c \<in> set cs. \<exists>a b. condition_names c a = Some b \<and> set b \<subseteq> set ns')"
  using assms
proof (induction cs arbitrary: ns)
  case (Cons c cs)
  then obtain b where b: "condition_names c ns = Some b" "names_loop cs b = Some ns'"
    by (cases "condition_names c ns") (auto simp: names_loop_None)
  have "set b \<subseteq> set ns' \<and> (\<forall>c \<in> set cs. \<exists>a b. condition_names c a = Some b \<and> set b \<subseteq> set ns')"
    by (rule Cons.IH [OF _ b(2)], rule Cons.prems(1)) auto
  then show ?case using Cons.prems(1) [of c] b(1) by fastforce
qed simp

lemma condition_names_grow: "condition_names c ns = Some ns' \<Longrightarrow> set ns \<subseteq> set ns'"
proof (induction c arbitrary: ns ns')
  case (AllOf cs)
  then show ?case using names_loop_some [of cs ns ns'] by auto
next
  case (AnyOf cs)
  then show ?case using names_loop_some [of cs ns ns'] by auto
qed (auto dest: add_name_some add_names_some)

text \<open>Two objects that agree on the fields named are the same to a path, and to a closure.\<close>

context index_map begin

abbreviation cut :: "bytes set \<Rightarrow> fields \<Rightarrow> fields" where
  "cut ns m \<equiv> filter (\<lambda>f. fst f \<in> ns) m"

lemma map_of_cut: "k \<in> ns \<Longrightarrow> map_of (cut ns m) k = map_of m k"
  by (induction m) auto

lemma distinct_cut: "distinct (keys m) \<Longrightarrow> distinct (keys (cut ns m))"
  by (induction m) auto

lemma field_of_cut:
  "distinct (keys m) \<Longrightarrow> k \<in> ns \<Longrightarrow> field_of im k (Object (cut ns m)) = field_of im k (Object m)"
  by (simp add: get_field_map_of distinct_cut map_of_cut)

lemma path_walk_cut:
  assumes "distinct (keys m)" "bracket_free p" "first_name p \<noteq> []" "first_name p \<in> ns"
  shows "path_walk im (path_new p) (Object (cut ns m)) b = path_walk im (path_new p) (Object m) b"
proof -
  obtain q qs where q: "split_dots p = q # qs" by (cases "split_dots p") auto
  have "step_name (path_step_of q) = first_name p" using first_name_step [OF assms(2)] q by simp
  moreover have "next_fields im mi (first_name p) [Object (cut ns m)] = next_fields im mi (first_name p) [Object m]" for mi
    using field_of_cut [OF assms(1,4)] by (simp add: next_fields_def map_filter_simps)
  ultimately show ?thesis unfolding path_walk_steps q using assms(3) by simp
qed

lemma value_or_null_cut:
  assumes "distinct (keys m)" "bracket_free p" "first_name p \<noteq> []" "first_name p \<in> ns" "\<not> is_multi p"
  shows "value_or_null im (path_new p) (Object (cut ns m)) = value_or_null im (path_new p) (Object m)"
proof -
  obtain q qs where q: "split_dots p = q # qs" by (cases "split_dots p") auto
  have nc: "\<not> contains_str q FAN_OUT" using split_contains [of q p] q assms(5) by (auto simp: is_multi_def)
  have raw: "step_raw (path_step_of q) = first_name p"
    using first_name_step [OF assms(2)] q path_step_of_plain [OF nc] by simp
  have "field_value im (path_new p) (Object (cut ns m)) = field_value im (path_new p) (Object m)"
  proof (cases "DOT \<in> set p")
    case True
    then show ?thesis using raw q assms(3) field_of_cut [OF assms(1,4)]
      by (auto simp: path_new_def simp del: field_of.simps split: list.splits option.splits)
  next
    case False
    then have "q = p" using q split_no_dot by simp
    then have "first_name p = p" using raw by (simp add: path_step_of_def Let_def)
    then show ?thesis using False assms(3,5) field_of_cut [OF assms(1,4)]
      by (simp add: path_new_def is_multi_def del: field_of.simps)
  qed
  then show ?thesis by (simp add: value_or_null_def)
qed

lemma collect_fields: "distinct (keys (acc @ m)) \<Longrightarrow> foldl (\<lambda>m (key, v). im_insert im m key v) acc m = acc @ m"
  by (induction m arbitrary: acc) (auto simp: insert_new)

lemma run_cut_eq:
  assumes "distinct (keys m)"
  shows "run_cut im (Some names) (Object m) run = run (Object (cut (set names) m))"
proof (cases "\<forall>key \<in> set (keys m). key \<in> set names")
  case True
  then have "cut (set names) m = m" by (auto simp: filter_id_conv)
  then show ?thesis using True by (simp add: run_cut_def)
next
  case False
  then show ?thesis using collect_fields [of "[]" "cut (set names) m"] distinct_cut [OF assms]
    by (simp add: run_cut_def case_prod_unfold)
qed

lemma meets_cut:
  assumes m: "distinct (keys m)" and "condition_names c a = Some b" "set b \<subseteq> ns" "names_bracket_free c"
  shows "meets im lower c (Object (cut ns m)) = meets im lower c (Object m)"
  using assms(2-)
proof (induction c arbitrary: a b)
  case (AllOf cs)
  have "\<exists>a b. condition_names c a = Some b \<and> set b \<subseteq> ns" if "c \<in> set cs" for c
    using names_loop_some [OF condition_names_grow, where cs = cs and ns = a and ns' = b] AllOf.prems that by fastforce
  then have "map (\<lambda>c. meets im lower c (Object (cut ns m))) cs = map (\<lambda>c. meets im lower c (Object m)) cs"
    using AllOf by fastforce
  then show ?case by (simp add: comp_def del: map_eq_conv)
next
  case (AnyOf cs)
  have "\<exists>a b. condition_names c a = Some b \<and> set b \<subseteq> ns" if "c \<in> set cs" for c
    using names_loop_some [OF condition_names_grow, where cs = cs and ns = a and ns' = b] AnyOf.prems that by fastforce
  then have "map (\<lambda>c. meets im lower c (Object (cut ns m))) cs = map (\<lambda>c. meets im lower c (Object m)) cs"
    using AnyOf by fastforce
  then show ?case by (simp add: comp_def del: map_eq_conv)
next
  case (Custom fs test)
  then have fs: "\<forall>p \<in> set fs. first_name p \<noteq> []" "first_name ` set fs \<subseteq> ns" by (auto dest: add_names_some)
  obtain t where t: "add_names fs [] = Some t" using add_names_total [OF fs(1)] by blast
  have "set t \<subseteq> ns" using add_names_some [OF t] fs(2) by auto
  then have "cut (set t) (cut ns m) = cut (set t) m" by (auto intro: filter_cong)
  then show ?case by (simp add: top_names_def t run_cut_eq m distinct_cut)
next
  case (NotOf c)
  then show ?case by simp
qed (auto simp: path_values_def path_present_def path_walk_cut [OF m] value_or_null_cut [OF m] dest!: add_name_some)

lemma decoded_fields_decide:
  assumes "wf_doc (Object m)" and "\<not> nests_too_deep (Object m)"
    and "length (encode_stored (Object m)) < 2 ^ 32"
    and "fields_with f with_sort = Some names"
    and "\<forall>c \<in> set (conditions f). names_bracket_free c" and "\<forall>p \<in> fst ` set (sort_by f). bracket_free p"
  shows "\<exists>d. decode_fields im (encode_stored (Object m)) i names = Inr d
    \<and> matches im lower (filter_matcher lower f) d
        = matches im lower (filter_matcher lower f) (with_id im (Object m) i)
    \<and> (with_sort \<longrightarrow> (\<forall>p \<in> fst ` set (sort_by f). \<not> is_multi p \<longrightarrow>
        value_or_null im (path_new p) d = value_or_null im (path_new p) (with_id im (Object m) i)))"
proof -
  have dm: "distinct (keys m)" using assms(1) by simp
  define w where "w = (ID_FIELD, Id i) # without_id m"
  have whole: "with_id im (Object m) i = Object w" using dm by (simp add: with_id_def shift_insert_0 w_def)
  have dw: "distinct (keys w)" using dm by (auto simp: w_def keys_filter distinct_cut)
  have part: "decode_fields im (encode_stored (Object m)) i names = Inr (Object (cut (set names) w))"
    using decode_fields_stored [OF assms(1) _ assms(3), of i names] assms(2)
    by (simp add: w_def nests_too_deep_def del: encode_stored.simps)
  obtain ns where ns: "names_loop (conditions f) [] = Some ns"
    using assms(4) by (auto simp: fields_with_def split: option.splits)
  define ps where "ps = map fst (sort_by f)"
  have sorts: "set ns \<subseteq> set names"
    "with_sort \<Longrightarrow> p \<in> set ps \<Longrightarrow> first_name p \<noteq> [] \<and> first_name p \<in> set names" for p
    using assms(4) ns unfolding fields_with_def ps_def [symmetric]
    by (auto dest!: add_names_some split: if_splits option.splits)
  have "meets im lower c (Object (cut (set names) w)) = meets im lower c (Object w)"
    if c: "c \<in> set (conditions f)" for c
  proof -
    have "\<forall>c \<in> set (conditions f). \<exists>a b. condition_names c a = Some b \<and> set b \<subseteq> set ns"
      using names_loop_some [OF _ ns] condition_names_grow by blast
    then obtain a b where ab: "condition_names c a = Some b" "set b \<subseteq> set names" using c sorts(1) by blast
    show ?thesis using meets_cut [OF dw ab] assms(5) c by blast
  qed
  then have "map (\<lambda>c. meets im lower c (Object (cut (set names) w))) (conditions f)
    = map (\<lambda>c. meets im lower c (Object w)) (conditions f)" by (rule map_cong [OF refl])
  then have "matches im lower (filter_matcher lower f) (Object (cut (set names) w))
    = matches im lower (filter_matcher lower f) (Object w)"
    by (simp add: filter_matcher_def comp_def del: map_eq_conv)
  moreover have "value_or_null im (path_new p) (Object (cut (set names) w)) = value_or_null im (path_new p) (Object w)"
    if "with_sort" "p \<in> fst ` set (sort_by f)" "\<not> is_multi p" for p
    using value_or_null_cut [OF dw _ _ _ that(3)] sorts(2) [OF that(1), of p] assms(6) that(2)
    by (simp add: ps_def)
  ultimately show ?thesis using part unfolding whole by blast
qed

end

text \<open>
  C14. Checking a stored document on the fields a filter names is checking it whole: the document
  decoded on those top-level fields only meets the filter's conditions exactly when the whole
  document does, closures and their panics included, and the fields sorted by have the same
  values. This is so for paths that begin with a name without brackets.
\<close>

theorem fields_suffice:
  assumes "index_map im" and "wf_doc (Object m)" and "\<not> nests_too_deep (Object m)"
    and "length (encode_stored (Object m)) < 2 ^ 32"
    and "fields_with f with_sort = Some names"
    and "\<forall>c \<in> set (conditions f). names_bracket_free c" and "\<forall>p \<in> fst ` set (sort_by f). bracket_free p"
  shows "\<exists>d. decode_fields im (encode_stored (Object m)) i names = Inr d
    \<and> matches im lower (filter_matcher lower f) d
        = matches im lower (filter_matcher lower f) (with_id im (Object m) i)
    \<and> (with_sort \<longrightarrow> (\<forall>p \<in> fst ` set (sort_by f). \<not> is_multi p \<longrightarrow>
        value_or_null im (path_new p) d = value_or_null im (path_new p) (with_id im (Object m) i)))"
  using index_map.decoded_fields_decide [OF assms] .

text \<open>An \<open>eq\<close> on \<open>n\<close> and an OR on \<open>o[*].x\<close>, and the document with another field beside.\<close>

theorem fields_suffice_witness:
  "\<exists>d. decode_fields alist_ops (encode_stored (Object [(ascii ''z'', Null), (ascii ''n'', Bool True)])) [] [ascii ''n''] = Inr d
    \<and> matches alist_ops (\<lambda>s. s) (filter_matcher (\<lambda>s. s) (query_and query_new (Compare (ascii ''n'') Eq (Bool True)))) d
        = matches alist_ops (\<lambda>s. s) (filter_matcher (\<lambda>s. s) (query_and query_new (Compare (ascii ''n'') Eq (Bool True))))
            (with_id alist_ops (Object [(ascii ''z'', Null), (ascii ''n'', Bool True)]) [])"
  using fields_suffice [of alist_ops "[(ascii ''z'', Null), (ascii ''n'', Bool True)]"
      "query_and query_new (Compare (ascii ''n'') Eq (Bool True))" False "[ascii ''n'']" "[]" "\<lambda>s. s"]
  by (simp add: alist.index_map_axioms nests_too_deep_def MAX_NESTING_def object_cost_def
      ID_FIELD_def is_tag_def TAGS_def ascii_def in_range_def utf8_ok.simps(2)
      encode_document_simps write_entries_append encode_entry_def encode_str_def
      query_and_def query_new_def fields_with_def add_name_def first_name_def bracket_free_def
      path_bytes trim_short FAN_OUT_eq Let_def del: ex_simps)

text \<open>
  A field whose name has a bracket is read wrong. The filter asks for documents whose field
  \<open>a[x]\<close> is true, and the document with that field meets it; but the top-level field the filter
  names is \<open>a\<close>, and the stored document decoded on that field alone does not meet it.
\<close>

theorem bracketed_name_missed:
  "let m = [(ascii ''a[x]'', Bool True)];
       f = query_and query_new (Compare (ascii ''a[x]'') Eq (Bool True))
   in matches alist_ops (\<lambda>s. s) (filter_matcher (\<lambda>s. s) f) (with_id alist_ops (Object m) i) = Some True
      \<and> fields_with f False = Some [ascii ''a'']
      \<and> (\<exists>d. decode_fields alist_ops (encode_stored (Object m)) i [ascii ''a''] = Inr d
          \<and> matches alist_ops (\<lambda>s. s) (filter_matcher (\<lambda>s. s) f) d = Some False)"
proof -
  let ?m = "[(ascii ''a[x]'', Bool True)]"
  have "decode_fields alist_ops (encode_stored (Object ?m)) i [ascii ''a''] = Inr (Object [])"
    using alist.decode_fields_stored [of ?m i "[ascii ''a'']"]
    by (simp add: nests_too_deep_def MAX_NESTING_def object_cost_def
      ID_FIELD_def is_tag_def TAGS_def ascii_def in_range_def utf8_ok.simps(2)
      encode_document_simps write_entries_append encode_entry_def encode_str_def)
  moreover have "path_new (ascii ''a[x]'') = Field (ascii ''a[x]'')"
    by (simp add: path_new_def ascii_def FAN_OUT_eq path_bytes starts_with_def)
  ultimately show ?thesis
    by (simp add: Let_def filter_matcher_def query_and_def query_new_def compare_holds_def value_or_null_def
      get_field_def SCAN_UP_TO_def with_id_def alist_ops_def ascii_def ID_FIELD_def fields_with_def
      add_name_def first_name_def path_bytes value_matches_def is_whole_def compare_def)
qed

end
