(* ===== verification/Planner.thy ===== *)
theory Planner
  imports Conditions
begin

text \<open>
  Which index ranges a query reads (\<open>src/src/query.rs\<close>), the keys a document has in an index
  (\<open>index_keys\<close> of \<open>src/src/collection.rs\<close>), and what \<open>ensure_index_with\<close> allows an index to be on.

  \<open>bounds_for_all\<close> gives the best of the ranges that single conditions, compound indexes, ORs and
  \<open>elem_match\<close>es allow. The lemmas: whatever it chooses, a document that meets the conditions is
  among the ids it names or has a key in one of the ranges. To that end \<open>implies_in\<close> says what of a
  condition an index can see; it is weaker than meeting the condition, and moving a condition from an
  array's elements out to the document (\<open>within_path\<close>) keeps it.
\<close>

subsection \<open>Indexes and their keys\<close>

record index_meta =
  ix_fields :: "bytes list"
  ix_root :: nat
  ix_unique :: bool
  ix_sparse :: bool

definition is_compound :: "index_meta \<Rightarrow> bool" where
  "is_compound ix \<longleftrightarrow> length (ix_fields ix) > 1"

definition single_field :: "index_meta \<Rightarrow> bytes option" where
  "single_field ix = (case ix_fields ix of [f] \<Rightarrow> Some f | _ \<Rightarrow> None)"

text \<open>The checks of \<open>ensure_index_with\<close>, a field after those in \<open>before\<close>.\<close>

fun check_fields :: "nat \<Rightarrow> bytes list \<Rightarrow> bytes list \<Rightarrow> unit res" where
  "check_fields n before [] = Inr ()"
| "check_fields n before (f # fs) =
     (let names = map trim_fan_outs (split_dots f) in
      if hd names = ID_FIELD then Inl (Io InvalidInput)
      else if [] \<in> set names then Inl (Io InvalidInput)
      else if \<exists>name \<in> set names. BRACKET \<in> set name \<or> UNBRACKET \<in> set name then Inl (Io InvalidInput)
      else if n > 1 \<and> is_multi f then Inl (Io InvalidInput)
      else if f \<in> set before then Inl (Io InvalidInput)
      else check_fields n (before @ [f]) fs)"

definition ensure_index_fields :: "bytes list \<Rightarrow> unit res" where
  "ensure_index_fields fs =
     (if fs = [] then Inl (Io InvalidInput)
      else if length fs > MAX_COMPOUND_FIELDS then Inl (Io InvalidInput)
      else check_fields (length fs) [] fs)"

definition field_values :: "im_ops \<Rightarrow> document \<Rightarrow> index_meta \<Rightarrow> document list" where
  "field_values im d ix = map (\<lambda>f. value_or_null im (path_new f) d) (ix_fields ix)"

definition index_keys :: "im_ops \<Rightarrow> document \<Rightarrow> index_meta \<Rightarrow> docid \<Rightarrow> bytes list" where
  "index_keys im d ix i =
     (let kept = (\<lambda>v. \<not> (ix_sparse ix \<and> v = Null));
          ks = (case single_field ix of
              Some f \<Rightarrow> List.map_filter (\<lambda>v. secondary v i) (List.filter kept (path_values im (path_new f) d))
            | None \<Rightarrow>
                let vs = field_values im d ix
                in if \<exists>v \<in> set vs. kept v then [compound vs i] else [])
      in remdups_adj (sort ks))"

subsection \<open>Documents named by id\<close>

definition somes :: "'a option list \<Rightarrow> 'a list" where
  "somes xs = List.map_filter (\<lambda>x. x) xs"

fun shortest :: "'a list list \<Rightarrow> 'a list option" where
  "shortest [] = None"
| "shortest (xs # xss) =
     (case shortest xss of None \<Rightarrow> Some xs | Some ys \<Rightarrow> Some (if length ys < length xs then ys else xs))"

fun ids_for :: "condition \<Rightarrow> docid list option" where
  "ids_for (Compare f op v) =
     (case (op, v) of (Eq, Id i) \<Rightarrow> if f = ID_FIELD then Some [i] else None | _ \<Rightarrow> None)"
| "ids_for (AllOf cs) = shortest (somes (map ids_for cs))"
| "ids_for (AnyOf cs) = map_option concat (those (map ids_for cs))"
| "ids_for _ = None"

definition ids_for_all :: "condition list \<Rightarrow> docid list option" where
  "ids_for_all cs = shortest (somes (map ids_for cs))"

subsection \<open>Bounds\<close>

datatype bound_kind = ByValue | ByUnion | ByRange

fun bound_rank :: "bound_kind \<Rightarrow> nat" where
  "bound_rank ByValue = 0"
| "bound_rank ByUnion = 1"
| "bound_rank ByRange = 2"

record index_range =
  ir_index :: index_meta
  ir_range :: key_range
  ir_by :: "condition list"

record bounds =
  b_ranges :: "index_range list"
  b_ids :: "docid list"
  b_kind :: bound_kind
  b_fields :: nat

definition beats :: "bounds \<Rightarrow> bounds \<Rightarrow> bool" where
  "beats a b \<longleftrightarrow> bound_rank (b_kind a) < bound_rank (b_kind b)
     \<or> bound_rank (b_kind a) = bound_rank (b_kind b) \<and> b_fields a > b_fields b"

definition keep_best :: "bounds option \<Rightarrow> bounds option \<Rightarrow> bounds option" where
  "keep_best candidate best =
     (case (candidate, best) of
        (None, _) \<Rightarrow> best
      | (Some c, None) \<Rightarrow> Some c
      | (Some c, Some b) \<Rightarrow> if beats c b then Some c else Some b)"

definition rules_out_null :: "im_ops \<Rightarrow> (bytes \<Rightarrow> bytes) \<Rightarrow> op \<Rightarrow> document \<Rightarrow> bool" where
  "rules_out_null im lower op v \<longleftrightarrow> \<not> value_matches im lower op Null v"

fun comparison :: "condition \<Rightarrow> (bytes \<times> op \<times> document) option" where
  "comparison (Compare f op v) = Some (f, op, v)"
| "comparison (Regex f r) = (case regex_prefix r of None \<Rightarrow> None | Some p \<Rightarrow> Some (f, StartsWith, String p))"
| "comparison _ = None"

text \<open>\<open>within\<close>: a condition on an array's elements as one on the document.\<close>

fun within_path :: "bytes \<Rightarrow> condition \<Rightarrow> condition" where
  "within_path f (Compare g op v) = Compare (path_in f g) op v"
| "within_path f (Exists g) = Exists (path_in f g)"
| "within_path f (IsKind g k) = IsKind (path_in f g) k"
| "within_path f (SizeIs g op n) = SizeIs (path_in f g) op n"
| "within_path f (ElemMatch g c) = ElemMatch (path_in f g) c"
| "within_path f (Regex g r) = Regex (path_in f g) r"
| "within_path f (AllOf cs) = AllOf (map (within_path f) cs)"
| "within_path f (AnyOf cs) = AnyOf (map (within_path f) cs)"
| "within_path f (NotOf c) = NotOf (within_path f c)"
| "within_path f (Custom fs test) = Custom fs test"

text \<open>Conditions on one field: the ranges of those that bound the index, intersected.\<close>

definition on_field ::
    "im_ops \<Rightarrow> (bytes \<Rightarrow> bytes) \<Rightarrow> index_meta \<Rightarrow> bytes \<Rightarrow> condition list \<Rightarrow> (bool \<times> key_range \<times> condition) list" where
  "on_field im lower ix field cs =
     List.map_filter (\<lambda>c. case comparison c of
         None \<Rightarrow> None
       | Some (f, op, v) \<Rightarrow>
           if f \<noteq> field \<or> ix_sparse ix \<and> \<not> rules_out_null im lower op v then None
           else map_option (\<lambda>r. (op = Eq, r, c)) (range_for op v)) cs"

fun position :: "('a \<Rightarrow> bool) \<Rightarrow> 'a list \<Rightarrow> nat option" where
  "position P [] = None"
| "position P (x # xs) = (if P x then Some 0 else map_option Suc (position P xs))"

definition reduce_ranges :: "key_range list \<Rightarrow> key_range option" where
  "reduce_ranges rs = (case rs of [] \<Rightarrow> None | r # rs \<Rightarrow> Some (foldl intersect r rs))"

definition field_bounds ::
    "im_ops \<Rightarrow> (bytes \<Rightarrow> bytes) \<Rightarrow> index_meta \<Rightarrow> bytes \<Rightarrow> condition list \<Rightarrow> bounds option" where
  "field_bounds im lower ix field cs =
     (let found = on_field im lower ix field cs;
          by_value = (\<exists>(eq, _) \<in> set found. eq);
          used = (if is_multi field \<and> found \<noteq> []
            then [found ! (case position fst found of Some one \<Rightarrow> one | None \<Rightarrow> 0)] else found);
          bys = map (\<lambda>(_, _, c). c) used
      in case reduce_ranges (map (\<lambda>(_, r, _). r) used) of
           None \<Rightarrow> None
         | Some r \<Rightarrow> Some \<lparr>b_ranges = [\<lparr>ir_index = ix, ir_range = r, ir_by = bys\<rparr>], b_ids = [],
             b_kind = (if by_value then ByValue else ByRange), b_fields = 1\<rparr>)"

text \<open>What one comparison, the condition at \<open>n\<close>, gives \<open>bounds_for_all\<close>: each field at its first.\<close>

definition comparison_bounds ::
    "im_ops \<Rightarrow> (bytes \<Rightarrow> bytes) \<Rightarrow> index_meta list \<Rightarrow> condition list \<Rightarrow> nat \<Rightarrow> bytes \<Rightarrow> bounds option" where
  "comparison_bounds im lower indexes cs n field =
     (case find (\<lambda>ix. single_field ix = Some field) indexes of
        None \<Rightarrow> None
      | Some ix \<Rightarrow>
          if \<exists>c \<in> set (take n cs). \<exists>rest. comparison c = Some (field, rest) then None
          else field_bounds im lower ix field cs)"

subsection \<open>Compound indexes\<close>

fun excludes_null :: "im_ops \<Rightarrow> (bytes \<Rightarrow> bytes) \<Rightarrow> index_meta \<Rightarrow> condition \<Rightarrow> bool" where
  "excludes_null im lower ix (AllOf cs) \<longleftrightarrow> (\<exists>c \<in> set cs. excludes_null im lower ix c)"
| "excludes_null im lower ix (AnyOf cs) \<longleftrightarrow> (\<forall>c \<in> set cs. excludes_null im lower ix c)"
| "excludes_null im lower ix c \<longleftrightarrow>
     (case comparison c of
        Some (f, op, v) \<Rightarrow> f \<in> set (ix_fields ix) \<and> rules_out_null im lower op v
      | None \<Rightarrow> False)"

text \<open>\<open>find_map\<close>: the first of the answers there are.\<close>

fun find_map :: "('a \<Rightarrow> 'b option) \<Rightarrow> 'a list \<Rightarrow> 'b option" where
  "find_map g [] = None"
| "find_map g (x # xs) = (case g x of None \<Rightarrow> find_map g xs | Some y \<Rightarrow> Some y)"

fun eq_on :: "bytes \<Rightarrow> nat \<Rightarrow> condition \<Rightarrow> (bytes \<times> condition) option" where
  "eq_on field nf (Compare f op v) =
     (if op = Eq \<and> f = field then map_option (\<lambda>r. (range_start r, Compare f op v)) (range_for_in Eq v nf)
      else None)"
| "eq_on field nf c = None"

text \<open>\<open>equal_prefix_from\<close>, over the fields still to fix: the prefix, how many, and the \<open>Eq\<close>s.\<close>

fun equal_fields :: "nat \<Rightarrow> condition list \<Rightarrow> bytes list \<Rightarrow> bytes \<times> nat \<times> condition list" where
  "equal_fields nf cs [] = ([], 0, [])"
| "equal_fields nf cs (field # fs) =
     (case find_map (eq_on field nf) cs of
        None \<Rightarrow> ([], 0, [])
      | Some (start, c) \<Rightarrow>
          (case equal_fields nf cs fs of (pre, fixed, bys) \<Rightarrow> (start @ pre, Suc fixed, c # bys)))"

definition equal_prefix_from :: "index_meta \<Rightarrow> condition list \<Rightarrow> nat \<Rightarrow> nat \<Rightarrow> bytes \<times> nat \<times> condition list" where
  "equal_prefix_from ix cs from max_fields =
     equal_fields (length (ix_fields ix)) cs (drop from (take max_fields (ix_fields ix)))"

definition equal_prefix :: "index_meta \<Rightarrow> condition list \<Rightarrow> nat \<Rightarrow> bytes \<times> nat \<times> condition list" where
  "equal_prefix ix cs max_fields = equal_prefix_from ix cs 0 max_fields"

definition field_range :: "index_meta \<Rightarrow> condition list \<Rightarrow> bytes \<Rightarrow> (key_range \<times> condition list) option" where
  "field_range ix cs field =
     (let found = List.map_filter (\<lambda>c. case comparison c of
            None \<Rightarrow> None
          | Some (f, op, v) \<Rightarrow>
              if f = field then map_option (\<lambda>r. (r, c)) (range_for_in op v (length (ix_fields ix))) else None) cs
      in map_option (\<lambda>r. (r, map snd found)) (reduce_ranges (map fst found)))"

definition in_values :: "bytes \<Rightarrow> nat \<Rightarrow> condition \<Rightarrow> (bytes \<times> condition) list option" where
  "in_values field nf c =
     (case c of
        AnyOf cs \<Rightarrow> if cs = [] then None else those (map (eq_on field nf) cs)
      | _ \<Rightarrow> None)"

text \<open>The field at a place in an index, if it has as many.\<close>

definition nth_field :: "index_meta \<Rightarrow> nat \<Rightarrow> bytes option" where
  "nth_field ix n = (if n < length (ix_fields ix) then Some (ix_fields ix ! n) else None)"

definition next_range :: "index_meta \<Rightarrow> condition list \<Rightarrow> nat \<Rightarrow> (key_range \<times> condition list) option" where
  "next_range ix cs n = (case nth_field ix n of None \<Rightarrow> None | Some f \<Rightarrow> field_range ix cs f)"

definition in_bounds :: "index_meta \<Rightarrow> condition list \<Rightarrow> nat \<Rightarrow> bytes \<Rightarrow> condition list \<Rightarrow> bounds option" where
  "in_bounds ix cs pos pre bys =
     (case nth_field ix pos of
        None \<Rightarrow> None
      | Some field \<Rightarrow>
          (case find_map (in_values field (length (ix_fields ix))) cs of
             None \<Rightarrow> None
           | Some values \<Rightarrow>
               (case equal_prefix_from ix cs (pos + 1) (length (ix_fields ix)) of
                  (after, further, after_bys) \<Rightarrow>
                    let nxt = next_range ix cs (pos + 1 + further);
                        fields = pos + 1 + further + (if nxt = None then 0 else 1)
                    in if fields < 2 then None
                       else Some \<lparr>
                         b_ranges = map (\<lambda>(encoded, eq).
                           let key = pre @ encoded @ after
                           in case nxt of
                                Some (r, on_next) \<Rightarrow> \<lparr>ir_index = ix, ir_range = under r key,
                                  ir_by = bys @ eq # after_bys @ on_next\<rparr>
                              | None \<Rightarrow> \<lparr>ir_index = ix, ir_range = prefixed key,
                                  ir_by = bys @ eq # after_bys\<rparr>) values,
                         b_ids = [], b_kind = ByValue, b_fields = fields\<rparr>)))"

definition compound_bounds :: "index_meta \<Rightarrow> condition list \<Rightarrow> bounds option" where
  "compound_bounds ix cs =
     (case equal_prefix ix cs (length (ix_fields ix)) of
        (pre, equal, bys) \<Rightarrow>
          (case in_bounds ix cs equal pre bys of
             Some b \<Rightarrow> Some b
           | None \<Rightarrow>
               let nxt = next_range ix cs equal;
                   fields = equal + (if nxt = None then 0 else 1);
                   kind = (if equal > 0 then ByValue else ByRange);
                   mk = (\<lambda>r bys. Some \<lparr>b_ranges = [\<lparr>ir_index = ix, ir_range = r, ir_by = bys\<rparr>],
                     b_ids = [], b_kind = kind, b_fields = fields\<rparr>)
               in case nxt of
                    Some (r, on_next) \<Rightarrow> mk (under r pre) (bys @ on_next)
                  | None \<Rightarrow> if equal > 0 then mk (prefixed pre) bys else None))"

text \<open>The loop over the compound indexes of \<open>bounds_for_all\<close>.\<close>

definition compound_candidate ::
    "im_ops \<Rightarrow> (bytes \<Rightarrow> bytes) \<Rightarrow> condition list \<Rightarrow> index_meta \<Rightarrow> bounds option" where
  "compound_candidate im lower cs ix =
     (if ix_sparse ix \<and> \<not> (\<exists>c \<in> set cs. excludes_null im lower ix c) then None
      else compound_bounds ix cs)"

subsection \<open>The best bounds\<close>

text \<open>What an OR collects of its branches: each its ids, or else its bounds.\<close>

fun union_bounds :: "(docid list option \<times> bounds option) list \<Rightarrow> (index_range list \<times> docid list) option" where
  "union_bounds [] = Some ([], [])"
| "union_bounds ((named, b) # rest) =
     (case named of
        Some ids \<Rightarrow> map_option (\<lambda>(ranges, found). (ranges, ids @ found)) (union_bounds rest)
      | None \<Rightarrow>
          (case b of
             None \<Rightarrow> None
           | Some b \<Rightarrow>
               map_option (\<lambda>(ranges, found). (b_ranges b @ ranges, b_ids b @ found)) (union_bounds rest)))"

text \<open>The size of what is left: a condition \<open>bounds_for_all\<close> reads itself counts for nothing there.\<close>

definition weight :: "condition \<Rightarrow> nat" where
  "weight c = (if comparison c = None then 2 * size c else 1)"

definition weights :: "condition list \<Rightarrow> nat" where
  "weights cs = sum_list (map (\<lambda>c. if comparison c = None then 2 * size c + 1 else 0) cs)"

lemma size_within [simp]: "size (within_path f c) = size c"
  by (induction c) (simp_all add: size_list_conv_sum_list comp_def cong: map_cong)

lemma weight_le: "weight c \<le> max 1 (2 * size c)"
  by (simp add: weight_def)

lemma weights_lt: "weights cs < 2 * size_list size cs + 2"
  by (induction cs) (simp_all add: weights_def)

lemma weight_in: "c \<in> set cs \<Longrightarrow> weight c < 2 * size_list size cs + 2"
  using weight_le [of c] size_list_estimation' [of c cs "size c" size] by simp

lemma weight_in_weights: "c \<in> set cs \<Longrightarrow> comparison c = None \<Longrightarrow> weight c < weights cs"
  by (induction cs) (auto simp: weight_def weights_def)

text \<open>
  \<open>bounds_for\<close> and \<open>bounds_for_all\<close> call each other; a comparison alone never comes back, as
  \<open>bounds_for_all\<close> reads it itself.
\<close>

function (sequential) bounds_for ::
    "im_ops \<Rightarrow> (bytes \<Rightarrow> bytes) \<Rightarrow> index_meta list \<Rightarrow> bool \<Rightarrow> condition \<Rightarrow> bounds option"
  and bounds_for_all ::
    "im_ops \<Rightarrow> (bytes \<Rightarrow> bytes) \<Rightarrow> index_meta list \<Rightarrow> bool \<Rightarrow> condition list \<Rightarrow> bounds option" where
  "bounds_for im lower indexes ids (Compare f op v) = bounds_for_all im lower indexes ids [Compare f op v]"
| "bounds_for im lower indexes ids (Regex f r) =
     (case comparison (Regex f r) of
        Some _ \<Rightarrow> bounds_for_all im lower indexes ids [Regex f r]
      | None \<Rightarrow> None)"
| "bounds_for im lower indexes ids (AllOf cs) = bounds_for_all im lower indexes ids cs"
| "bounds_for im lower indexes ids (AnyOf cs) =
     (case union_bounds (map (\<lambda>c.
          (if ids then ids_for c else None, bounds_for im lower indexes ids c)) cs) of
        None \<Rightarrow> None
      | Some (ranges, found) \<Rightarrow> Some \<lparr>b_ranges = ranges, b_ids = found, b_kind = ByUnion, b_fields = 1\<rparr>)"
| "bounds_for im lower indexes ids (ElemMatch f c) = bounds_for im lower indexes ids (within_path f c)"
| "bounds_for im lower indexes ids _ = None"
| "bounds_for_all im lower indexes ids cs =
     fold keep_best (map (compound_candidate im lower cs) (List.filter is_compound indexes))
       (fold keep_best (map (\<lambda>(n, c).
            case comparison c of
              Some (f, _) \<Rightarrow> comparison_bounds im lower indexes cs n f
            | None \<Rightarrow> bounds_for im lower indexes ids c) (enumerate 0 cs)) None)"
  by pat_completeness auto

termination
  by (relation "measure (\<lambda>x. case x of Inl (_, _, _, _, c) \<Rightarrow> weight c | Inr (_, _, _, _, cs) \<Rightarrow> weights cs)")
    (auto simp: weight_in_weights in_set_enumerate_eq weights_lt [simplified] weight_in [simplified] weight_def [of "AllOf _"]
      weight_def [of "AnyOf _"] weight_def [of "ElemMatch _ _"] weight_def [of "Compare _ _ _"]
      weight_def [of "Regex _ _"] weights_def [of "[_]"] le_less_trans [OF weight_le] split: option.splits)

subsection \<open>The reads of a query\<close>

definition offered :: "query \<Rightarrow> index_meta list \<Rightarrow> index_meta list" where
  "offered f indexes =
     (case hinted f of
        None \<Rightarrow> indexes
      | Some NoIndex \<Rightarrow> []
      | Some (HIndex fs) \<Rightarrow>
          (case position (\<lambda>ix. ix_fields ix = fs) indexes of Some n \<Rightarrow> [indexes ! n] | None \<Rightarrow> []))"

definition primary_offered :: "query \<Rightarrow> bool" where
  "primary_offered f =
     (case hinted f of
        None \<Rightarrow> True
      | Some NoIndex \<Rightarrow> False
      | Some (HIndex fs) \<Rightarrow> length fs = 1 \<and> hd fs = ID_FIELD)"

definition query_ids :: "query \<Rightarrow> docid list option" where
  "query_ids f =
     (if \<not> primary_offered f then None
      else map_option (\<lambda>ids. remdups_adj (sort ids)) (ids_for_all (conditions f)))"

definition index_reads ::
    "im_ops \<Rightarrow> (bytes \<Rightarrow> bytes) \<Rightarrow> query \<Rightarrow> index_meta list \<Rightarrow> (docid list \<times> index_range list) option" where
  "index_reads im lower f indexes =
     (if offered f indexes = [] then None
      else map_option (\<lambda>b. (remdups_adj (sort (b_ids b)), b_ranges b))
        (bounds_for_all im lower (offered f indexes) (primary_offered f) (conditions f)))"

subsection \<open>What an index sees of a condition\<close>

text \<open>What a stored value at an index's path must be like, for a document that meets a comparison.\<close>

definition value_at :: "im_ops \<Rightarrow> document \<Rightarrow> bytes \<Rightarrow> (document \<Rightarrow> bool) \<Rightarrow> bool" where
  "value_at im d f P \<longleftrightarrow>
     (if is_multi f then \<exists>x \<in> set (path_values im (path_new f) d). P x else P (value_or_null im (path_new f) d))"

function (sequential) implies_in :: "im_ops \<Rightarrow> (bytes \<Rightarrow> bytes) \<Rightarrow> document \<Rightarrow> condition \<Rightarrow> bool" where
  "implies_in im lower d (Compare f op v) \<longleftrightarrow>
     (path_ok f \<longrightarrow> is_multi f \<and> op = Ne \<or> value_at im d f (\<lambda>x. value_matches im lower op x v))"
| "implies_in im lower d (Regex f r) \<longleftrightarrow> (path_ok f \<longrightarrow> value_at im d f (regex_holds r))"
| "implies_in im lower d (AllOf cs) \<longleftrightarrow> (\<forall>c \<in> set cs. implies_in im lower d c)"
| "implies_in im lower d (AnyOf cs) \<longleftrightarrow> (\<exists>c \<in> set cs. implies_in im lower d c)"
| "implies_in im lower d (ElemMatch f c) \<longleftrightarrow> implies_in im lower d (within_path f c)"
| "implies_in im lower d _ \<longleftrightarrow> True"
  by pat_completeness auto

termination
  by (relation "measure (\<lambda>(_, _, _, c). size c)")
    (auto simp: less_Suc_eq_le size_list_estimation')

lemma try_all_True [simp]: "try_all rs = Some True \<longleftrightarrow> (\<forall>r \<in> set rs. r = Some True)"
  by (induction rs) (auto split: option.splits bool.splits)

lemma try_any_True: "try_any (map g xs) = Some True \<Longrightarrow> \<exists>x \<in> set xs. g x = Some True"
  by (induction xs) (auto split: option.splits bool.splits)

lemma compare_holds_matches:
  "compare_holds im lower op v (case op of
      Contains \<Rightarrow> (case v of String needle \<Rightarrow> Some (fold_case lower needle) | _ \<Rightarrow> None) | _ \<Rightarrow> None) x
    = value_matches im lower op x v"
  by (cases op; cases v) (auto simp: compare_holds_def value_matches_def split: document.splits)

lemma path_in_inner:
  assumes "path_ok (path_in f g)" "\<not> is_multi g"
  shows "path_ok g \<or> g = []"
proof (cases "g = [] \<or> starts_with g FAN_OUT")
  case True
  have "is_multi g" if "starts_with g FAN_OUT"
    using that by (cases g) (auto simp: is_multi_def FAN_OUT_eq)
  then show ?thesis using True assms(2) by blast
next
  case False
  then have "split_dots (path_in f g) = split_dots (f @ FAN_OUT) @ split_dots g"
    using split_append_dot [of "f @ FAN_OUT" g] by (simp add: path_in_def)
  then show ?thesis using assms(1) by (simp add: path_ok_def)
qed

text \<open>An element that meets a condition makes the document imply it, moved out to the document.\<close>

lemma element_implies:
  assumes "path_ok f \<Longrightarrow> e \<in> set (all_elements (path_values im (path_new f) d))"
    and "meets im lower c e = Some True"
  shows "implies_in im lower d (within_path f c)"
  using assms
proof (induction c arbitrary: f e)
  case (Compare g op v)
  have "\<exists>x \<in> set (path_values im (path_new (path_in f g)) d). value_matches im lower op x v"
    if ok: "path_ok (path_in f g)" and ne: "op \<noteq> Ne"
  proof -
    have sub: "set (path_values im (path_new g) e) \<subseteq> set (path_values im (path_new (path_in f g)) d)"
      using path_in_ok [OF ok] Compare.prems(1) by blast
    have "\<exists>x \<in> set (path_values im (path_new g) e). value_matches im lower op x v"
      using Compare.prems(2) ne plain_values [of g im e] path_in_inner [OF ok]
      by (auto simp: compare_holds_matches split: if_splits)
    then show ?thesis using sub by blast
  qed
  then show ?case by (auto simp: value_at_def)
next
  case (Regex g r)
  have "\<exists>x \<in> set (path_values im (path_new (path_in f g)) d). regex_holds r x"
    if ok: "path_ok (path_in f g)"
  proof -
    have sub: "set (path_values im (path_new g) e) \<subseteq> set (path_values im (path_new (path_in f g)) d)"
      using path_in_ok [OF ok] Regex.prems(1) by blast
    have "\<exists>x \<in> set (path_values im (path_new g) e). regex_holds r x"
      using Regex.prems(2) plain_values [of g im e] path_in_inner [OF ok] by (auto split: if_splits)
    then show ?thesis using sub by blast
  qed
  then show ?case by (auto simp: value_at_def)
next
  case (ElemMatch g c)
  then obtain e' where e': "e' \<in> set (all_elements (path_values im (path_new g) e))" "meets im lower c e' = Some True"
    using try_any_True by fastforce
  have "e' \<in> set (all_elements (path_values im (path_new (path_in f g)) d))" if ok: "path_ok (path_in f g)"
    using path_in_ok [OF ok] ElemMatch.prems(1) e'(1) unfolding set_all_elements by blast
  then show ?case using ElemMatch.IH [OF _ e'(2)] by simp
next
  case (AnyOf cs)
  then obtain c where "c \<in> set cs" "meets im lower c e = Some True"
    using try_any_True [of "\<lambda>c. meets im lower c e" cs] by (auto simp: comp_def)
  then show ?case using AnyOf by auto
qed auto

lemma meets_implies: "meets im lower c d = Some True \<Longrightarrow> implies_in im lower d c"
proof (induction c)
  case (ElemMatch f c)
  then obtain e where "e \<in> set (all_elements (path_values im (path_new f) d))" "meets im lower c e = Some True"
    using try_any_True by fastforce
  then show ?case using element_implies by simp
next
  case (AnyOf cs)
  then obtain c where "c \<in> set cs" "meets im lower c d = Some True"
    using try_any_True [of "\<lambda>c. meets im lower c d" cs] by (auto simp: comp_def)
  then show ?case using AnyOf by auto
qed (auto simp: value_at_def compare_holds_matches split: if_splits)

end
