(* ===== verification/Plansound.thy ===== *)
theory Plansound
  imports Planner
begin

text \<open>
  Why the ranges a query reads miss no document that matches: a document that implies a condition,
  as an index sees it, has a key in the range made of that condition, and so in every range the
  planner puts together from such.
\<close>

subsection \<open>Ranges of keys\<close>

lemma intersect_contains [simp]:
  "range_contains (intersect r q) k \<longleftrightarrow> range_contains r k \<and> range_contains q k"
  by (auto simp: range_contains_def intersect_def split: option.splits)

lemma reduce_contains: "reduce_ranges rs = Some r \<Longrightarrow> (\<forall>q \<in> set rs. range_contains q k) \<Longrightarrow> range_contains r k"
proof -
  have "range_contains (foldl intersect r qs) k \<longleftrightarrow> range_contains r k \<and> (\<forall>q \<in> set qs. range_contains q k)" for r qs
    by (induction qs arbitrary: r) auto
  then show "reduce_ranges rs = Some r \<Longrightarrow> (\<forall>q \<in> set rs. range_contains q k) \<Longrightarrow> range_contains r k"
    by (cases rs) (auto simp: reduce_ranges_def)
qed

lemma append_le_cancel [simp]: "xs @ us \<le> xs @ vs \<longleftrightarrow> us \<le> (vs :: 'a::linorder list)"
  by (auto simp: le_less)

lemma under_contains:
  assumes "range_contains r k" shows "range_contains (under r p) (p @ k)"
proof (cases "range_end r")
  case None
  then show ?thesis using assms prefixed_contains [of p k]
    by (auto simp: range_contains_def under_def prefixed_def)
next
  case (Some e)
  then show ?thesis using assms by (auto simp: range_contains_def under_def)
qed

subsection \<open>What is required of the indexes, the conditions and the documents\<close>

text \<open>Every index is one \<open>ensure_index_with\<close> makes.\<close>

abbreviation index_ok :: "index_meta \<Rightarrow> bool" where
  "index_ok ix \<equiv> ensure_index_fields (ix_fields ix) = Inr ()"

text \<open>
  A condition's values are documents, and a regex keeps its promise: every string it matches begins
  with its prefix.
\<close>

definition regex_ok :: "regex \<Rightarrow> bool" where
  "regex_ok r \<longleftrightarrow> (\<forall>p. regex_prefix r = Some p \<longrightarrow> utf8_ok p \<and> (\<forall>s. is_match r s \<longrightarrow> starts_with s p))"

fun wf_condition :: "condition \<Rightarrow> bool" where
  "wf_condition (Compare _ _ v) \<longleftrightarrow> wf_doc v"
| "wf_condition (Regex _ r) \<longleftrightarrow> regex_ok r"
| "wf_condition (ElemMatch _ c) \<longleftrightarrow> wf_condition c"
| "wf_condition (AllOf cs) \<longleftrightarrow> (\<forall>c \<in> set cs. wf_condition c)"
| "wf_condition (AnyOf cs) \<longleftrightarrow> (\<forall>c \<in> set cs. wf_condition c)"
| "wf_condition (NotOf c) \<longleftrightarrow> wf_condition c"
| "wf_condition _ \<longleftrightarrow> True"

lemma wf_within [simp]: "wf_condition (within_path f c) = wf_condition c"
  by (induction c) auto

text \<open>A stored document has its id as \<open>_id\<close>.\<close>

definition has_id :: "document \<Rightarrow> docid \<Rightarrow> bool" where
  "has_id d i \<longleftrightarrow> (\<exists>m. d = Object m \<and> map_of m ID_FIELD = Some (Id i))"

lemma guards: "(if a then Inl e else if b then Inl e else if c then Inl e else if d then Inl e else
    if g then Inl e else x) = Inr y \<Longrightarrow> \<not> b \<and> \<not> c \<and> \<not> d \<and> x = Inr y"
  by (auto split: if_splits)

lemma check_fields_Cons:
  assumes "check_fields n before (f # fs) = Inr ()"
  shows "path_ok f \<and> (n > 1 \<longrightarrow> \<not> is_multi f) \<and> check_fields n (before @ [f]) fs = Inr ()"
  using guards [OF assms [unfolded check_fields.simps Let_def set_map]]
  by (force simp: path_ok_def step_ok_def)

lemma check_fields_ok:
  "check_fields n before fs = Inr () \<Longrightarrow> f \<in> set fs \<Longrightarrow> path_ok f \<and> (n > 1 \<longrightarrow> \<not> is_multi f)"
proof (induction fs arbitrary: before)
  case (Cons g fs)
  then show ?case using check_fields_Cons [OF Cons.prems(1)] by (cases "f = g") auto
qed simp

lemma index_ok_fields:
  assumes "index_ok ix"
  shows "ix_fields ix \<noteq> []" and "f \<in> set (ix_fields ix) \<Longrightarrow> path_ok f"
    and "is_compound ix \<Longrightarrow> f \<in> set (ix_fields ix) \<Longrightarrow> \<not> is_multi f"
  using assms check_fields_ok [of "length (ix_fields ix)" "[]" "ix_fields ix" f]
  by (auto simp: ensure_index_fields_def is_compound_def split: if_splits)

context index_map begin

text \<open>\<open>found i d b\<close>: the reads \<open>b\<close> come upon the document \<open>d\<close>, whose id is \<open>i\<close>.\<close>

definition found :: "index_meta list \<Rightarrow> docid \<Rightarrow> document \<Rightarrow> bounds \<Rightarrow> bool" where
  "found indexes i d b \<longleftrightarrow> i \<in> set (b_ids b)
     \<or> (\<exists>r \<in> set (b_ranges b). ir_index r \<in> set indexes
          \<and> (\<exists>k \<in> set (index_keys im d (ir_index r) i). range_contains (ir_range r) k))"

lemma value_at_wf: "wf_doc d \<Longrightarrow> value_at im d f P \<Longrightarrow> value_at im d f (\<lambda>x. wf_doc x \<and> P x)"
  using value_or_null_wf path_values_wf by (auto simp: value_at_def split: if_splits)

lemma value_at_mono: "value_at im d f P \<Longrightarrow> (\<And>x. P x \<Longrightarrow> Q x) \<Longrightarrow> value_at im d f Q"
  by (auto simp: value_at_def split: if_splits)

text \<open>A comparison an index can read holds of a value at its path.\<close>

lemma comparison_value:
  assumes "comparison c = Some (f, op, v)" "implies_in im lower d c" "wf_condition c" "path_ok f"
  shows "wf_doc v" and "is_multi f \<and> op = Ne \<or> value_at im d f (\<lambda>x. value_matches im lower op x v)"
proof -
  have "wf_doc v \<and> (is_multi f \<and> op = Ne \<or> value_at im d f (\<lambda>x. value_matches im lower op x v))"
  proof (cases c)
    case (Regex g r)
    then obtain p where p: "regex_prefix r = Some p" "f = g" "op = StartsWith" "v = String p"
      using assms(1) by (auto split: option.splits)
    have "value_matches im lower StartsWith x (String p)" if "regex_holds r x" for x
      using that p(1) assms(3) Regex by (cases x) (auto simp: regex_holds_def value_matches_def regex_ok_def)
    moreover have "value_at im d f (regex_holds r)" using assms(2,4) Regex p(2) by simp
    ultimately show ?thesis using p assms(3) Regex value_at_mono by (auto simp: regex_ok_def)
  qed (use assms in auto)
  then show "wf_doc v" and "is_multi f \<and> op = Ne \<or> value_at im d f (\<lambda>x. value_matches im lower op x v)"
    by blast+
qed

lemma shortest_in: "shortest xss = Some xs \<Longrightarrow> xs \<in> set xss"
  by (induction xss arbitrary: xs) (auto split: option.splits if_splits)

lemma in_somes: "x \<in> set (somes xs) \<longleftrightarrow> Some x \<in> set xs"
  by (force simp: somes_def map_filter_def)

lemma those_concat: "those xs = Some ys \<Longrightarrow> Some y \<in> set xs \<Longrightarrow> y \<in> set ys"
  by (induction xs arbitrary: ys) (auto split: option.splits)

lemma those_all: "those xs = Some ys \<Longrightarrow> x \<in> set xs \<Longrightarrow> \<exists>y. x = Some y"
  by (induction xs arbitrary: ys) (auto split: option.splits)

lemma id_path: "path_ok ID_FIELD" "\<not> is_multi ID_FIELD" "path_new ID_FIELD = Field ID_FIELD"
  by (simp_all add: path_ok_def step_ok_def is_multi_def path_new_def ID_FIELD_def ascii_def path_bytes
      FAN_OUT_eq starts_with_def trim_short)

lemma value_of_id: "wf_doc d \<Longrightarrow> has_id d i \<Longrightarrow> value_or_null im (path_new ID_FIELD) d = Id i"
  by (auto simp: has_id_def id_path value_or_null_def get_field_map_of)

lemma ids_for_named:
  assumes "wf_doc d" "has_id d i"
  shows "ids_for c = Some ids \<Longrightarrow> implies_in im lower d c \<Longrightarrow> i \<in> set ids"
proof (induction c arbitrary: ids)
  case (Compare f op v)
  then obtain j where c: "op = Eq" "v = Id j" "f = ID_FIELD" "ids = [j]"
    by (auto split: op.splits document.splits if_splits)
  have "value_matches im lower Eq (Id i) (Id j)"
    using Compare.prems(2) value_of_id [OF assms] c by (simp add: id_path(1,2) value_at_def)
  then show ?case using c(4) by (simp add: value_matches_def is_whole_def compare_def cmp_def split: if_splits)
next
  case (AllOf cs)
  have "Some ids \<in> ids_for ` set cs"
    using AllOf.prems(1) shortest_in [of "somes (map ids_for cs)" ids] by (simp add: in_somes)
  then show ?case using AllOf by auto
next
  case (AnyOf cs)
  then obtain c idss where c: "c \<in> set cs" "implies_in im lower d c" "those (map ids_for cs) = Some idss" "ids = concat idss"
    by auto
  then obtain is' where "ids_for c = Some is'" using those_all [OF c(3), of "ids_for c"] by auto
  then show ?case using AnyOf.IH [OF c(1) _ c(2)] those_concat [OF c(3), of is'] c by force
qed auto

text \<open>The ids the conditions of a query name.\<close>

lemma ids_for_all_named:
  assumes "wf_doc d" "has_id d i" "ids_for_all cs = Some ids" "\<forall>c \<in> set cs. implies_in im lower d c"
  shows "i \<in> set ids"
  using ids_for_named [OF assms(1,2), of "AllOf cs" ids lower] assms(3,4) by (simp add: ids_for_all_def)

subsection \<open>Ranges of an index on one field\<close>

lemma index_keys_single:
  "single_field ix = Some f \<Longrightarrow> x \<in> set (path_values im (path_new f) d) \<Longrightarrow> \<not> (ix_sparse ix \<and> x = Null)
    \<Longrightarrow> secondary x i = Some k \<Longrightarrow> k \<in> set (index_keys im d ix i)"
  by (force simp: index_keys_def map_filter_def)

lemma on_field_found:
  assumes "(eq, r, c) \<in> set (on_field im lower ix field cs)"
  obtains op v where "c \<in> set cs" "comparison c = Some (field, op, v)" "range_for op v = Some r" "eq \<longleftrightarrow> op = Eq"
    "ix_sparse ix \<longrightarrow> rules_out_null im lower op v"
  using assms by (fastforce simp: on_field_def map_filter_def split: option.splits if_splits)

text \<open>A value that meets a comparison that bounds the index has its key in the comparison's range.\<close>

lemma found_key:
  assumes "(eq, r, c) \<in> set (on_field im lower ix f cs)" "\<forall>c \<in> set cs. implies_in im lower d c \<and> wf_condition c"
    "path_ok f" "wf_doc d"
  shows "value_at im d f (\<lambda>x. \<not> (ix_sparse ix \<and> x = Null)
    \<and> (\<exists>e. encode_value x = Some e \<and> range_contains r (e @ i)))"
proof -
  obtain op v where c: "c \<in> set cs" "comparison c = Some (f, op, v)" "range_for op v = Some r"
    "ix_sparse ix \<longrightarrow> rules_out_null im lower op v"
    using on_field_found [OF assms(1)] by metis
  have imp: "implies_in im lower d c" "wf_condition c" using assms(2) c(1) by blast+
  note cv = comparison_value [OF c(2) imp assms(3)]
  have "op \<noteq> Ne" using c(3) by (auto simp: range_for_def range_for_in_def Let_def split: option.splits)
  then have at: "value_at im d f (\<lambda>x. wf_doc x \<and> value_matches im lower op x v)"
    using cv(2) value_at_wf [OF assms(4)] by blast
  show ?thesis
  proof (rule value_at_mono [OF at])
    fix x assume x: "wf_doc x \<and> value_matches im lower op x v"
    then show "\<not> (ix_sparse ix \<and> x = Null) \<and> (\<exists>e. encode_value x = Some e \<and> range_contains r (e @ i))"
      using range_for_in_matches [of im lower op x v 1 r i] c(3,4) cv(1)
      by (auto simp: range_for_def encode_value_def rules_out_null_def)
  qed
qed

lemma field_bounds_found:
  assumes b: "field_bounds im lower ix f cs = Some b" and ix: "ix \<in> set indexes" "single_field ix = Some f" "path_ok f"
    and cs: "\<forall>c \<in> set cs. implies_in im lower d c \<and> wf_condition c" and d: "wf_doc d"
  shows "found indexes i d b"
proof -
  define fs where "fs = on_field im lower ix f cs"
  define used where "used = (if is_multi f \<and> fs \<noteq> []
    then [fs ! (case position fst fs of Some one \<Rightarrow> one | None \<Rightarrow> 0)] else fs)"
  obtain r where r: "reduce_ranges (map (\<lambda>(_, r, _). r) used) = Some r" and br: "b_ranges b = [\<lparr>ir_index = ix, ir_range = r,
    ir_by = map (\<lambda>(_, _, c). c) used\<rparr>]"
    using b by (auto simp: field_bounds_def Let_def simp flip: fs_def used_def split: option.splits)
  have "\<exists>k \<in> set (index_keys im d ix i). range_contains r k"
  proof (cases "is_multi f")
    case False
    then have u: "used = fs" by (simp add: used_def)
    define x where "x = value_or_null im (path_new f) d"
    have xs: "path_values im (path_new f) d = [x]" using plain_values [OF False] ix(3) by (simp add: x_def)
    have each: "\<not> (ix_sparse ix \<and> x = Null) \<and> (\<exists>e. encode_value x = Some e \<and> range_contains q (e @ i))"
      if "(eq, q, c) \<in> set fs" for eq q c
      using found_key [OF that [unfolded fs_def] cs ix(3) d] False by (simp add: value_at_def x_def)
    have "fs \<noteq> []" using r u by (auto simp: reduce_ranges_def)
    then obtain eq q c where "(eq, q, c) \<in> set fs" by (metis list.set_intros(1) neq_Nil_conv prod_cases3)
    then obtain e where e: "encode_value x = Some e" "\<not> (ix_sparse ix \<and> x = Null)" using each by blast
    have "range_contains r (e @ i)" using r u each e(1) by (intro reduce_contains [OF r]) fastforce
    moreover have "e @ i \<in> set (index_keys im d ix i)"
      using index_keys_single [OF ix(2), of x d] xs e by (simp add: secondary_def)
    ultimately show ?thesis by blast
  next
    case True
    have "fs \<noteq> []" using r True by (auto simp: used_def reduce_ranges_def)
    have "(case position fst fs of Some one \<Rightarrow> one | None \<Rightarrow> 0) < length fs"
    proof -
      have "position P xs = Some n \<Longrightarrow> n < length xs" for P n and xs :: "(bool \<times> key_range \<times> condition) list"
        by (induction xs arbitrary: n) (auto split: if_splits)
      then show ?thesis using \<open>fs \<noteq> []\<close> by (auto split: option.splits)
    qed
    then obtain eq q c where q: "used = [(eq, q, c)]" "(eq, q, c) \<in> set fs"
      using True \<open>fs \<noteq> []\<close> unfolding used_def by (metis nth_mem prod_cases3)
    then have "q = r" using r by (simp add: reduce_ranges_def)
    then show ?thesis using found_key [OF q(2) [unfolded fs_def] cs ix(3) d, of i] True index_keys_single [OF ix(2)]
      by (auto simp: value_at_def secondary_def)
  qed
  then show ?thesis using br ix(1) by (auto simp: found_def)
qed

subsection \<open>Ranges of an index on several fields\<close>

abbreviation vals :: "document \<Rightarrow> bytes list \<Rightarrow> document list" where
  "vals d fs \<equiv> map (\<lambda>f. value_or_null im (path_new f) d) fs"

lemma eq_on_part:
  assumes "eq_on f nf c = Some (s, c')" "implies_in im lower d c" "wf_condition c" "path_ok f" "\<not> is_multi f" "wf_doc d"
  shows "s = part_of nf (value_or_null im (path_new f) d)"
proof -
  obtain v where c: "c = Compare f Eq v" and r: "map_option range_start (range_for_in Eq v nf) = Some s"
    using assms(1) by (cases c) (auto split: if_splits)
  define x where "x = value_or_null im (path_new f) d"
  obtain y where y: "encode_value_in v nf = Some y" "s = y"
    using r by (auto simp: range_for_in_def prefixed_def split: option.splits)
  have m: "value_matches im lower Eq x v" and wf: "wf_doc x" "wf_doc v"
    using assms c value_or_null_wf by (auto simp: value_at_def x_def)
  obtain q where "range_for_in Eq v nf = Some q" using r by auto
  then obtain e where e: "encode_value_in x nf = Some e" using range_for_in_matches [OF m _ wf] by blast
  have "\<not> is_whole v" using y(1) by (cases v) (auto simp: encode_value_in_def is_whole_def)
  then have "holds Eq (compare x v)" using matches_compare [OF m] by simp
  then have "compare x v = Some Equal" by (auto elim: holds.elims)
  then have "e = y" using encode_value_mono [OF e y(1)] by blast
  then show ?thesis using e y(2) by (simp add: part_of_def x_def)
qed

lemma find_map_some: "find_map g xs = Some y \<Longrightarrow> \<exists>x \<in> set xs. g x = Some y"
  by (induction xs) (auto split: option.splits)

lemma equal_fields_parts:
  assumes "\<forall>c \<in> set cs. implies_in im lower d c \<and> wf_condition c" "wf_doc d"
  shows "\<forall>f \<in> set fs. path_ok f \<and> \<not> is_multi f \<Longrightarrow> equal_fields nf cs fs = (pre, fixed, bys) \<Longrightarrow>
    fixed \<le> length fs \<and> pre = concat (map (part_of nf) (vals d (take fixed fs)))"
proof (induction fs arbitrary: pre fixed bys)
  case (Cons f fs)
  show ?case
  proof (cases "find_map (eq_on f nf) cs")
    case None
    then show ?thesis using Cons.prems(2) by simp
  next
    case (Some sc)
    obtain s c where sc: "sc = (s, c)" by (cases sc)
    obtain pre' fixed' bys' where rest: "equal_fields nf cs fs = (pre', fixed', bys')" by (metis prod_cases3)
    have "s = part_of nf (value_or_null im (path_new f) d)"
      using find_map_some [OF Some] eq_on_part assms Cons.prems(1) sc by (metis list.set_intros(1))
    then show ?thesis using Cons.IH [OF _ rest] Cons.prems Some sc rest by auto
  qed
qed simp

lemma equal_prefix_from_parts:
  assumes "equal_prefix_from ix cs n (length (ix_fields ix)) = (pre, fixed, bys)"
    and "\<forall>c \<in> set cs. implies_in im lower d c \<and> wf_condition c" "wf_doc d"
    and "\<forall>f \<in> set (ix_fields ix). path_ok f \<and> \<not> is_multi f"
  shows "fixed \<le> length (ix_fields ix) - n
    \<and> pre = concat (map (part_of (length (ix_fields ix))) (vals d (take fixed (drop n (ix_fields ix)))))"
  using equal_fields_parts [OF assms(2,3), of "drop n (ix_fields ix)" "length (ix_fields ix)" pre fixed bys] assms(1,4)
  by (auto simp: equal_prefix_from_def dest: in_set_dropD)

lemma field_range_part:
  assumes "field_range ix cs f = Some (r, bys)" "\<forall>c \<in> set cs. implies_in im lower d c \<and> wf_condition c"
    "path_ok f" "\<not> is_multi f" "wf_doc d"
  shows "range_contains r (part_of (length (ix_fields ix)) (value_or_null im (path_new f) d) @ rest)"
proof -
  define x where "x = value_or_null im (path_new f) d"
  define found where "found = List.map_filter (\<lambda>c. case comparison c of None \<Rightarrow> None
    | Some (g, op, v) \<Rightarrow> if g = f then map_option (\<lambda>r. (r, c)) (range_for_in op v (length (ix_fields ix))) else None) cs"
  have r: "reduce_ranges (map fst found) = Some r"
    using assms(1) by (auto simp: field_range_def Let_def found_def)
  have "range_contains q (part_of (length (ix_fields ix)) x @ rest)" if q: "q \<in> set (map fst found)" for q
  proof -
    obtain c op v where c: "c \<in> set cs" "comparison c = Some (f, op, v)" "range_for_in op v (length (ix_fields ix)) = Some q"
      using q by (fastforce simp: found_def map_filter_def split: option.splits if_splits)
    have imp: "implies_in im lower d c" "wf_condition c" using assms(2) c(1) by blast+
    have "value_matches im lower op x v" "wf_doc v"
      using comparison_value [OF c(2) imp assms(3)] assms(4) by (auto simp: value_at_def x_def)
    moreover have "wf_doc x" using value_or_null_wf [OF assms(5)] by (simp add: x_def)
    ultimately obtain e where "encode_value_in x (length (ix_fields ix)) = Some e" "range_contains q (e @ rest)"
      using range_for_in_matches c(3) by blast
    then show ?thesis by (simp add: part_of_def)
  qed
  then show ?thesis using reduce_contains [OF r] by (simp add: x_def)
qed

text \<open>The key of the document, from any field on.\<close>

definition key_from :: "index_meta \<Rightarrow> document \<Rightarrow> docid \<Rightarrow> nat \<Rightarrow> bytes" where
  "key_from ix d i n = concat (map (part_of (length (ix_fields ix))) (vals d (drop n (ix_fields ix)))) @ i"

lemma key_from_step:
  "n + k \<le> length (ix_fields ix) \<Longrightarrow>
    key_from ix d i n = concat (map (part_of (length (ix_fields ix))) (vals d (take k (drop n (ix_fields ix))))) @ key_from ix d i (n + k)"
  unfolding key_from_def append_assoc [symmetric] concat_append [symmetric] map_append [symmetric]
  by (subst append_take_drop_id [of k "drop n (ix_fields ix)", symmetric]) (simp add: add.commute)

lemma key_from_nth:
  "n < length (ix_fields ix) \<Longrightarrow> key_from ix d i n
    = part_of (length (ix_fields ix)) (value_or_null im (path_new (ix_fields ix ! n)) d) @ key_from ix d i (Suc n)"
  using key_from_step [of n 1 ix d i] by (simp add: take_Suc_conv_app_nth take_Suc hd_drop_conv_nth)

lemma excludes_null_some:
  assumes "\<forall>f \<in> set (ix_fields ix). path_ok f \<and> \<not> is_multi f"
  shows "excludes_null im lower ix c \<Longrightarrow> implies_in im lower d c \<Longrightarrow> wf_condition c \<Longrightarrow>
    \<exists>v \<in> set (vals d (ix_fields ix)). v \<noteq> Null"
proof (induction c)
  case (Compare f op v)
  then have "value_matches im lower op (value_or_null im (path_new f) d) v" using assms by (auto simp: value_at_def)
  then show ?case using Compare.prems(1) by (auto simp: rules_out_null_def intro!: bexI [of _ f])
next
  case (Regex f r)
  then have "f \<in> set (ix_fields ix)" by (auto split: option.splits)
  moreover from this have "regex_holds r (value_or_null im (path_new f) d)"
    using Regex.prems(2) assms by (auto simp: value_at_def)
  ultimately show ?case by (auto simp: regex_holds_def intro!: bexI [of _ f])
qed auto

lemma index_keys_compound:
  assumes "is_compound ix" "ix_sparse ix \<Longrightarrow> \<exists>v \<in> set (vals d (ix_fields ix)). v \<noteq> Null"
  shows "key_from ix d i 0 \<in> set (index_keys im d ix i)"
proof -
  have "single_field ix = None" "ix_fields ix \<noteq> []"
    using assms(1) by (auto simp: is_compound_def single_field_def split: list.splits)
  moreover have "\<exists>v \<in> set (field_values im d ix). \<not> (ix_sparse ix \<and> v = Null)"
    using assms(2) calculation(2) by (cases "ix_sparse ix"; cases "ix_fields ix") (auto simp: field_values_def)
  ultimately show ?thesis
    by (simp add: index_keys_def Let_def key_from_def compound_def encode_values_parts field_values_def)
qed

lemma next_range_contains:
  assumes "next_range ix cs n = Some (r, bys)" "\<forall>c \<in> set cs. implies_in im lower d c \<and> wf_condition c"
    "\<forall>f \<in> set (ix_fields ix). path_ok f \<and> \<not> is_multi f" "wf_doc d"
  shows "range_contains r (key_from ix d i n)"
proof -
  have n: "n < length (ix_fields ix)" and f: "field_range ix cs (ix_fields ix ! n) = Some (r, bys)"
    using assms(1) by (auto simp: next_range_def nth_field_def split: if_splits)
  then show ?thesis unfolding key_from_nth [OF n]
    using field_range_part [OF f assms(2) _ _ assms(4)] assms(3) nth_mem [OF n] by blast
qed

lemma in_bounds_contains:
  assumes b: "in_bounds ix cs pos pre bys = Some b" and pre: "key_from ix d i 0 = pre @ key_from ix d i pos"
    and cs: "\<forall>c \<in> set cs. implies_in im lower d c \<and> wf_condition c"
    and fs: "\<forall>f \<in> set (ix_fields ix). path_ok f \<and> \<not> is_multi f" and d: "wf_doc d"
  shows "\<exists>r \<in> set (b_ranges b). ir_index r = ix \<and> range_contains (ir_range r) (key_from ix d i 0)"
proof -
  let ?n = "length (ix_fields ix)"
  obtain items where pos: "pos < ?n" and vs: "find_map (in_values (ix_fields ix ! pos) ?n) cs = Some items"
    using b by (auto simp: in_bounds_def nth_field_def split: option.splits if_splits)
  obtain after further after_bys where af: "equal_prefix_from ix cs (pos + 1) ?n = (after, further, after_bys)"
    by (metis prod_cases3)
  define nxt where "nxt = next_range ix cs (pos + 1 + further)"
  have br: "b_ranges b = map (\<lambda>(encoded, eq). case nxt of
      Some (r, on_next) \<Rightarrow> \<lparr>ir_index = ix, ir_range = under r (pre @ encoded @ after), ir_by = bys @ eq # after_bys @ on_next\<rparr>
    | None \<Rightarrow> \<lparr>ir_index = ix, ir_range = prefixed (pre @ encoded @ after), ir_by = bys @ eq # after_bys\<rparr>) items"
    using b pos vs af by (auto simp: in_bounds_def nth_field_def nxt_def Let_def split: if_splits)
  obtain bs where bs: "AnyOf bs \<in> set cs" "those (map (eq_on (ix_fields ix ! pos) ?n) bs) = Some items"
  proof -
    obtain c where c: "c \<in> set cs" "in_values (ix_fields ix ! pos) ?n c = Some items"
      using find_map_some [OF vs] by blast
    show ?thesis by (cases c) (use c that in \<open>auto simp: in_values_def split: if_splits\<close>)
  qed
  then obtain c where c: "c \<in> set bs" "implies_in im lower d c" "wf_condition c" using cs by fastforce
  obtain s eq where s: "eq_on (ix_fields ix ! pos) ?n c = Some (s, eq)"
    using those_all [OF bs(2)] c(1) by (metis imageI list.set_map surj_pair)
  have mem: "(s, eq) \<in> set items" using those_concat [OF bs(2)] c(1) s by (metis imageI list.set_map)
  have f: "path_ok (ix_fields ix ! pos)" "\<not> is_multi (ix_fields ix ! pos)" using fs nth_mem [OF pos] by blast+
  have "s = part_of ?n (value_or_null im (path_new (ix_fields ix ! pos)) d)" using eq_on_part [OF s c(2,3) f d] .
  moreover have "further \<le> ?n - (pos + 1) \<and> after
      = concat (map (part_of ?n) (vals d (take further (drop (pos + 1) (ix_fields ix)))))"
    using equal_prefix_from_parts [OF af cs d fs] .
  moreover from this have le: "(pos + 1) + further \<le> ?n" using pos by linarith
  ultimately have key: "key_from ix d i 0 = (pre @ s @ after) @ key_from ix d i (pos + 1 + further)"
    using key_from_nth [OF pos, of d i] key_from_step [OF le, of d i] pre by simp
  show ?thesis
  proof (cases nxt)
    case None
    then show ?thesis using br mem key prefixed_contains [of "pre @ s @ after"] by (force simp: image_iff)
  next
    case (Some nr)
    obtain r on_next where nr: "nr = (r, on_next)" by (cases nr)
    have "range_contains r (key_from ix d i (pos + 1 + further))"
      using next_range_contains [OF _ cs fs d] Some nr unfolding nxt_def by blast
    then have "range_contains (under r (pre @ s @ after)) (key_from ix d i 0)"
      unfolding key by (rule under_contains)
    then show ?thesis using br mem Some nr by (force simp: image_iff)
  qed
qed

lemma compound_bounds_contains:
  assumes b: "compound_bounds ix cs = Some b"
    and cs: "\<forall>c \<in> set cs. implies_in im lower d c \<and> wf_condition c"
    and fs: "\<forall>f \<in> set (ix_fields ix). path_ok f \<and> \<not> is_multi f" and d: "wf_doc d"
  shows "\<exists>r \<in> set (b_ranges b). ir_index r = ix \<and> range_contains (ir_range r) (key_from ix d i 0)"
proof -
  let ?n = "length (ix_fields ix)"
  obtain pre equal bys where eq: "equal_prefix_from ix cs 0 ?n = (pre, equal, bys)" by (metis prod_cases3)
  have p: "equal \<le> ?n \<and> pre = concat (map (part_of ?n) (vals d (take equal (ix_fields ix))))"
    using equal_prefix_from_parts [OF eq cs d fs] by simp
  then have key: "key_from ix d i 0 = pre @ key_from ix d i equal"
    using key_from_step [of 0 equal ix d i] by simp
  show ?thesis
  proof (cases "in_bounds ix cs equal pre bys")
    case (Some b')
    then have "b' = b" using b eq by (simp add: compound_bounds_def equal_prefix_def)
    then show ?thesis using in_bounds_contains [OF Some key cs fs d] by simp
  next
    case None
    show ?thesis
    proof (cases "next_range ix cs equal")
      case None
      then show ?thesis using b eq \<open>in_bounds ix cs equal pre bys = None\<close> key prefixed_contains [of pre]
        by (auto simp: compound_bounds_def equal_prefix_def Let_def split: if_splits)
    next
      case (Some nr)
      obtain r on_next where nr: "nr = (r, on_next)" by (cases nr)
      have "range_contains (under r pre) (key_from ix d i 0)"
        unfolding key using next_range_contains [OF _ cs fs d] Some nr by (intro under_contains) blast
      then show ?thesis using b eq \<open>in_bounds ix cs equal pre bys = None\<close> Some nr
        by (auto simp: compound_bounds_def equal_prefix_def Let_def)
    qed
  qed
qed

lemma compound_candidate_found:
  assumes b: "compound_candidate im lower cs ix = Some b" and ix: "ix \<in> set indexes" "index_ok ix" "is_compound ix"
    and cs: "\<forall>c \<in> set cs. implies_in im lower d c \<and> wf_condition c" and d: "wf_doc d"
  shows "found indexes i d b"
proof -
  have fs: "\<forall>f \<in> set (ix_fields ix). path_ok f \<and> \<not> is_multi f"
    using index_ok_fields [OF ix(2)] ix(3) by blast
  have "key_from ix d i 0 \<in> set (index_keys im d ix i)"
  proof (rule index_keys_compound [OF ix(3)])
    assume "ix_sparse ix"
    then obtain c where "c \<in> set cs" "excludes_null im lower ix c"
      using b by (auto simp: compound_candidate_def split: if_splits)
    then show "\<exists>v \<in> set (vals d (ix_fields ix)). v \<noteq> Null" using excludes_null_some [OF fs] cs by blast
  qed
  moreover have "compound_bounds ix cs = Some b" using b by (simp add: compound_candidate_def split: if_splits)
  ultimately show ?thesis using compound_bounds_contains [OF _ cs fs d] ix(1) by (force simp: found_def)
qed

subsection \<open>The best bounds\<close>

lemma keep_best_some: "fold keep_best xs acc = Some b \<Longrightarrow> acc = Some b \<or> Some b \<in> set xs"
proof (induction xs arbitrary: acc)
  case (Cons x xs)
  then have "keep_best x acc = Some b \<or> Some b \<in> set xs" by simp
  then show ?case by (auto simp: keep_best_def split: option.splits if_splits)
qed simp

lemma union_bounds_some:
  "union_bounds xs = Some (ranges, ids) \<Longrightarrow> (named, b) \<in> set xs \<Longrightarrow>
    (case named of
       Some is' \<Rightarrow> set is' \<subseteq> set ids
     | None \<Rightarrow> \<exists>b'. b = Some b' \<and> set (b_ranges b') \<subseteq> set ranges \<and> set (b_ids b') \<subseteq> set ids)"
  by (induction xs arbitrary: ranges ids rule: union_bounds.induct) (fastforce split: option.splits)+

lemma bounds_found:
  assumes d: "wf_doc d" "has_id d i"
  shows "im' = im \<Longrightarrow> \<forall>ix \<in> set indexes. index_ok ix \<Longrightarrow> bounds_for im' lower indexes ids c = Some b \<Longrightarrow>
      implies_in im' lower d c \<Longrightarrow> wf_condition c \<Longrightarrow> found indexes i d b"
    and "im' = im \<Longrightarrow> \<forall>ix \<in> set indexes. index_ok ix \<Longrightarrow> bounds_for_all im' lower indexes ids cs = Some b \<Longrightarrow>
      \<forall>c \<in> set cs. implies_in im' lower d c \<and> wf_condition c \<Longrightarrow> found indexes i d b"
proof (induction im' lower indexes ids c and im' lower indexes ids cs arbitrary: b and b
    rule: bounds_for_bounds_for_all.induct)
  case (4 im' lower indexes ids cs)
  define xs where "xs = map (\<lambda>c. (if ids then ids_for c else None, bounds_for im' lower indexes ids c)) cs"
  obtain ranges named where u: "union_bounds xs = Some (ranges, named)"
    and b: "b_ranges b = ranges" "b_ids b = named"
    using "4.prems"(3) by (auto simp: xs_def split: option.splits)
  obtain c where c: "c \<in> set cs" "implies_in im' lower d c" "wf_condition c" using "4.prems" by auto
  have mem: "(if ids then ids_for c else None, bounds_for im' lower indexes ids c) \<in> set xs"
    using c(1) by (auto simp: xs_def)
  show ?case
  proof (cases "if ids then ids_for c else None")
    case (Some is')
    then have "set is' \<subseteq> set named" using union_bounds_some [OF u mem] by simp
    moreover have "i \<in> set is'" using Some ids_for_named [OF d] c(2) "4.prems"(1) by (auto split: if_splits)
    ultimately show ?thesis using b by (auto simp: found_def)
  next
    case None
    then obtain b' where b': "bounds_for im' lower indexes ids c = Some b'" "set (b_ranges b') \<subseteq> set ranges"
      "set (b_ids b') \<subseteq> set named"
      using union_bounds_some [OF u mem] by auto
    have "found indexes i d b'" using "4.IH" [OF c(1) "4.prems"(1,2) b'(1) c(2,3)] .
    then show ?thesis using b b'(2,3) unfolding found_def by blast
  qed
next
  case (7 im' lower indexes ids cs)
  from keep_best_some [OF "7.prems"(3) [unfolded bounds_for_all.simps]] show ?case
  proof
    assume "Some b \<in> set (map (compound_candidate im' lower cs) (List.filter is_compound indexes))"
    then obtain ix where "ix \<in> set indexes" "is_compound ix" "compound_candidate im' lower cs ix = Some b" by auto
    then show ?thesis using compound_candidate_found d "7.prems" by blast
  next
    assume "fold keep_best (map (\<lambda>(n, c). case comparison c of
        Some (f, _) \<Rightarrow> comparison_bounds im' lower indexes cs n f
      | None \<Rightarrow> bounds_for im' lower indexes ids c) (enumerate 0 cs)) None = Some b"
    from keep_best_some [OF this] obtain n c where nc: "(n, c) \<in> set (enumerate 0 cs)"
      "(case comparison c of Some (f, _) \<Rightarrow> comparison_bounds im' lower indexes cs n f
        | None \<Rightarrow> bounds_for im' lower indexes ids c) = Some b"
      by auto
    have c: "c \<in> set cs" using nc(1) by (auto simp: in_set_enumerate_eq)
    show ?thesis
    proof (cases "comparison c")
      case None
      then show ?thesis using "7.IH" [OF nc(1) refl None "7.prems"(1,2)] nc(2) "7.prems"(4) c by simp
    next
      case (Some fov)
      obtain f op v where fov: "fov = (f, op, v)" by (cases fov)
      obtain ix where ix: "List.find (\<lambda>ix. single_field ix = Some f) indexes = Some ix"
        "field_bounds im' lower ix f cs = Some b"
        using nc(2) Some fov by (auto simp: comparison_bounds_def split: option.splits if_splits)
      have "ix \<in> set indexes" "single_field ix = Some f" using ix(1) by (auto simp: find_Some_iff)
      moreover have "path_ok f" using index_ok_fields(2) [of ix f] "7.prems"(2) calculation
        by (auto simp: single_field_def split: list.splits)
      ultimately show ?thesis using field_bounds_found [OF _ _ _ _ _ d(1)] ix(2) "7.prems"(1,4) by blast
    qed
  qed
qed (auto split: option.splits)

lemma reads_found:
  assumes d: "wf_doc d" "has_id d i" and ok: "\<forall>ix \<in> set indexes. index_ok ix" "\<forall>c \<in> set (conditions f). wf_condition c"
    and m: "matches im lower (filter_matcher lower f) d = Some True"
  shows "query_ids f = Some ids \<Longrightarrow> i \<in> set ids"
    and "index_reads im lower f indexes = Some (ids, ranges) \<Longrightarrow> i \<in> set ids
      \<or> (\<exists>r \<in> set ranges. ir_index r \<in> set indexes
          \<and> (\<exists>k \<in> set (index_keys im d (ir_index r) i). range_contains (ir_range r) k))"
proof -
  have imp: "\<forall>c \<in> set (conditions f). implies_in im lower d c"
    using m meets_implies by (auto simp: filter_matcher_def)
  show "i \<in> set ids" if "query_ids f = Some ids"
    using that ids_for_all_named [OF d _ imp] by (auto simp: query_ids_def split: if_splits)
  assume r: "index_reads im lower f indexes = Some (ids, ranges)"
  have off: "set (offered f indexes) \<subseteq> set indexes"
  proof -
    have "position P xs = Some n \<Longrightarrow> n < length xs" for P n and xs :: "index_meta list"
      by (induction xs arbitrary: n) (auto split: if_splits)
    then show ?thesis by (fastforce simp: offered_def split: option.splits hint.splits)
  qed
  obtain b where b: "bounds_for_all im lower (offered f indexes) (primary_offered f) (conditions f) = Some b"
    "ids = remdups_adj (sort (b_ids b))" "ranges = b_ranges b"
    using r by (auto simp: index_reads_def split: if_splits)
  have "found (offered f indexes) i d b"
    using bounds_found(2) [OF d refl _ b(1)] imp ok off by blast
  then show "i \<in> set ids \<or> (\<exists>r \<in> set ranges. ir_index r \<in> set indexes
      \<and> (\<exists>k \<in> set (index_keys im d (ir_index r) i). range_contains (ir_range r) k))"
    using off b(2,3) unfolding found_def by (auto simp: subset_iff)
qed

end

text \<open>
  C15. What a query reads misses no document that matches. Where the planner names documents by id,
  the id of every matching document is among them; where it reads ranges of indexes, every matching
  document has its id among those looked up beside them, or one of its keys in an index lies in the
  range read of that index: whatever the filter, nested as deep as it may, with sparse, compound and
  multikey indexes, regexes, ORs and \<open>elem_match\<close>, with or without a hint.
\<close>

theorem reads_miss_nothing:
  assumes "index_map im" and "wf_doc d" and "has_id d i" and "\<forall>ix \<in> set indexes. index_ok ix"
    and "\<forall>c \<in> set (conditions f). wf_condition c"
    and "matches im lower (filter_matcher lower f) d = Some True"
  shows "(\<forall>ids. query_ids f = Some ids \<longrightarrow> i \<in> set ids)
    \<and> (\<forall>ids ranges. index_reads im lower f indexes = Some (ids, ranges) \<longrightarrow> i \<in> set ids
        \<or> (\<exists>r \<in> set ranges. ir_index r \<in> set indexes
            \<and> (\<exists>k \<in> set (index_keys im d (ir_index r) i). range_contains (ir_range r) k)))"
  using index_map.reads_found [OF assms] by blast

text \<open>An \<open>eq\<close> on an indexed field: the range planned holds a key of the document.\<close>

theorem reads_miss_nothing_witness:
  "\<exists>r. index_reads alist_ops (\<lambda>s. s) (query_and query_new (Compare [98] Eq (Bool True)))
        [\<lparr>ix_fields = [[98]], ix_root = 5, ix_unique = False, ix_sparse = True\<rparr>] = Some ([], [r])
    \<and> (\<exists>k \<in> set (index_keys alist_ops (Object [(ID_FIELD, Id (replicate 16 7)), ([98], Bool True)]) (ir_index r) (replicate 16 7)).
        range_contains (ir_range r) k)"
proof -
  let ?ix = "\<lparr>ix_fields = [[98]], ix_root = 5, ix_unique = False, ix_sparse = True\<rparr>"
  let ?c = "Compare [98] Eq (Bool True)"
  let ?f = "query_and query_new ?c" and ?i = "replicate 16 (7 :: byte)"
  let ?d = "Object [(ID_FIELD, Id ?i), ([98], Bool True)]"
  let ?r = "\<lparr>ir_index = ?ix, ir_range = prefixed [KTAG_BOOL, 1], ir_by = [?c]\<rparr>"
  have m: "\<not> is_multi [98]" by (simp add: is_multi_def FAN_OUT_eq starts_with_def)
  have "bounds_for_all alist_ops (\<lambda>s. s) [?ix] True [?c]
    = Some \<lparr>b_ranges = [?r], b_ids = [], b_kind = ByValue, b_fields = 1\<rparr>"
    by (simp add: bounds_for_all.simps comparison_bounds_def single_field_def field_bounds_def on_field_def
      map_filter_simps rules_out_null_def value_matches_def is_whole_def compare_def range_for_def range_for_in_def
      encode_value_in_def reduce_ranges_def keep_best_def is_compound_def Let_def m)
  then have reads: "index_reads alist_ops (\<lambda>s. s) ?f [?ix] = Some ([], [?r])"
    by (simp add: index_reads_def offered_def primary_offered_def query_and_def query_new_def)
  have "index_ok ?ix"
    by (simp add: ensure_index_fields_def MAX_COMPOUND_FIELDS_def path_bytes trim_short FAN_OUT_eq ID_FIELD_def ascii_def Let_def)
  moreover have "wf_doc ?d" "has_id ?d ?i"
    by (simp_all add: has_id_def ID_FIELD_def ascii_def in_range_def utf8_ok.simps)
  moreover have "matches alist_ops (\<lambda>s. s) (filter_matcher (\<lambda>s. s) ?f) ?d = Some True"
    using m by (simp add: filter_matcher_def query_and_def query_new_def compare_holds_def value_or_null_def path_new_def
      is_multi_def path_bytes get_field_def SCAN_UP_TO_def ID_FIELD_def ascii_def value_matches_def is_whole_def compare_def)
  ultimately have "?i \<in> set [] \<or> (\<exists>r \<in> set [?r]. ir_index r \<in> set [?ix]
      \<and> (\<exists>k \<in> set (index_keys alist_ops ?d (ir_index r) ?i). range_contains (ir_range r) k))"
    using reads_miss_nothing [of alist_ops ?d ?i "[?ix]" ?f "\<lambda>s. s"] reads alist.index_map_axioms
    by (simp add: query_and_def query_new_def)
  then show ?thesis using reads by auto
qed

end
