(* ===== verification/Entries.thy ===== *)
theory Entries
  imports Plansound
begin

text \<open>
  Deciding a filter on the bytes of an index entry (\<open>EntryMatcher\<close> of \<open>src/src/query.rs\<close>): each
  comparison with its value encoded as the key encodes it, an answer where the bytes tell and \<open>None\<close>
  where they do not. An index has at most \<open>MAX_COMPOUND_FIELDS\<close> fields, so the array the code takes
  a key's parts into holds them all.

  The lemmas: what the bytes decide is what the document would have; and of a filter that accepts one
  interval of keys, every entry between two that match on their bytes does.
\<close>

subsection \<open>The filter on bytes\<close>

datatype on_bytes =
    BCompare "nat option" op document "bytes option"
  | BAll "on_bytes list"
  | BAny "on_bytes list"
  | BNot on_bytes

fun on_bytes_of :: "bytes list \<Rightarrow> condition \<Rightarrow> on_bytes option" where
  "on_bytes_of fs (Compare f op v) =
     (if f = ID_FIELD then Some (BCompare None op v None)
      else case position (\<lambda>g. g = f) fs of
             None \<Rightarrow> None
           | Some n \<Rightarrow> Some (BCompare (Some n) op v (encode_for v (length fs))))"
| "on_bytes_of fs (AllOf cs) = map_option BAll (those (map (on_bytes_of fs) cs))"
| "on_bytes_of fs (AnyOf cs) = map_option BAny (those (map (on_bytes_of fs) cs))"
| "on_bytes_of fs (NotOf c) = map_option BNot (on_bytes_of fs c)"
| "on_bytes_of fs _ = None"

text \<open>\<open>is_interval\<close>: the comparisons of nested ANDs, each on a field after fields an \<open>Eq\<close> fixes.\<close>

fun flat_compares :: "on_bytes \<Rightarrow> (nat \<times> op) list option" where
  "flat_compares (BCompare at op _ _) =
     (case at of
        Some n \<Rightarrow> if op = Eq \<or> op = Lt \<or> op = Lte \<or> op = Gt \<or> op = Gte then Some [(n, op)] else None
      | None \<Rightarrow> None)"
| "flat_compares (BAll bs) = map_option concat (those (map flat_compares bs))"
| "flat_compares _ = None"

definition is_interval :: "on_bytes list \<Rightarrow> bool" where
  "is_interval bs =
     (case flat_compares (BAll bs) of
        None \<Rightarrow> False
      | Some compares \<Rightarrow> \<forall>(n, _) \<in> set compares. \<forall>before < n. (before, Eq) \<in> set compares)"

record entry_matcher =
  em_all :: "on_bytes list option"
  em_fields :: nat
  em_interval :: bool

definition entry_matcher_new :: "query \<Rightarrow> bytes list \<Rightarrow> entry_matcher" where
  "entry_matcher_new f fs =
     (let bs = those (map (on_bytes_of fs) (conditions f))
      in \<lparr>em_all = bs, em_fields = length fs,
          em_interval = (case bs of Some bs \<Rightarrow> is_interval bs | None \<Rightarrow> False)\<rparr>)"

record entry =
  entry_parts :: "bytes list"
  entry_key :: bytes
  entry_fields :: nat

text \<open>The loops of an AND and an OR of three values.\<close>

fun all_three :: "bool option list \<Rightarrow> bool option" where
  "all_three [] = Some True"
| "all_three (r # rs) =
     (case r of
        Some False \<Rightarrow> Some False
      | None \<Rightarrow> (if all_three rs = Some False then Some False else None)
      | Some True \<Rightarrow> all_three rs)"

fun any_three :: "bool option list \<Rightarrow> bool option" where
  "any_three [] = Some False"
| "any_three (r # rs) =
     (case r of
        Some True \<Rightarrow> Some True
      | None \<Rightarrow> (if any_three rs = Some True then Some True else None)
      | Some False \<Rightarrow> any_three rs)"

definition part_decides :: "entry \<Rightarrow> bytes \<Rightarrow> op \<Rightarrow> document \<Rightarrow> bytes option \<Rightarrow> bool option" where
  "part_decides e part op v encoded =
     (if (op = Eq \<or> op = Ne) \<and> is_other part \<and> is_whole v then None
      else if op = Contains then
        (if is_string_part part \<and> (\<exists>s. v = String s) then None else Some False)
      else if op = StartsWith then part_starts_with part v (entry_fields e)
      else map_option (holds op) (compare_part part encoded (entry_fields e)))"

definition id_decides :: "entry \<Rightarrow> op \<Rightarrow> document \<Rightarrow> bool" where
  "id_decides e op v \<longleftrightarrow> \<not> (op = Contains \<or> op = StartsWith)
     \<and> holds op (case v of Id i \<Rightarrow> Some (cmp (doc_id (entry_key e)) i) | _ \<Rightarrow> None)"

fun bytes_match :: "entry \<Rightarrow> on_bytes \<Rightarrow> bool option" where
  "bytes_match e (BCompare at op v encoded) =
     (case at of
        None \<Rightarrow> Some (id_decides e op v)
      | Some n \<Rightarrow> part_decides e (entry_parts e ! n) op v encoded)"
| "bytes_match e (BAll bs) = all_three (map (bytes_match e) bs)"
| "bytes_match e (BAny bs) = any_three (map (bytes_match e) bs)"
| "bytes_match e (BNot b) = map_option HOL.Not (bytes_match e b)"

definition entry_matches :: "entry_matcher \<Rightarrow> bytes \<Rightarrow> bool option" where
  "entry_matches em key =
     (case em_all em of
        None \<Rightarrow> None
      | Some bs \<Rightarrow>
          let ps = parts (value_part key)
          in if length ps \<noteq> em_fields em then None
             else bytes_match \<lparr>entry_parts = ps, entry_key = key, entry_fields = em_fields em\<rparr> (BAll bs))"

subsection \<open>What the bytes decide\<close>

lemma is_other_part_of: "is_other (part_of nf v) \<longleftrightarrow> encode_value_in v nf = None"
  by (cases v) (auto simp: is_other_def part_of_def encode_value_in_def encode_number_def encode_escaped_esc
      ktag_defs Let_def)

lemma is_string_part_of: "is_string_part (part_of nf v) \<longleftrightarrow> (\<exists>s. v = String s)"
  by (cases v) (auto simp: is_string_part_def part_of_def encode_value_in_def encode_number_def encode_escaped_esc
      ktag_defs Let_def)

lemma equal_not_whole: "is_whole v \<noteq> is_whole w \<Longrightarrow> \<not> equal_values im v w \<and> compare v w = None"
  by (cases v; cases w) (simp_all add: is_whole_def equal_docs_def compare_def)

lemma whole_no_key: "is_whole v \<Longrightarrow> encode_value_in v nf = None"
  by (cases v) (auto simp: is_whole_def encode_value_in_def)

lemma part_decides_value:
  assumes "part_decides e (part_of nf v) op w (encode_for w nf) = Some b" "entry_fields e = nf" "wf_doc v" "wf_doc w"
  shows "b \<longleftrightarrow> value_matches im lower op v w"
proof -
  consider (contains) "op = Contains" | (starts) "op = StartsWith" | (order) "op \<noteq> Contains" "op \<noteq> StartsWith" by blast
  then show ?thesis
  proof cases
    case contains
    then show ?thesis using assms(1)
      by (cases v; cases w) (auto simp: part_decides_def is_string_part_of value_matches_def split: if_splits)
  next
    case starts
    then show ?thesis using assms(1,2) part_starts_with_part_of [of nf v w b im lower]
      by (simp add: part_decides_def)
  next
    case order
    then obtain c where c: "compare_part (part_of nf v) (encode_for w nf) nf = Some c" "b = holds op c"
      and nw: "\<not> ((op = Eq \<or> op = Ne) \<and> is_other (part_of nf v) \<and> is_whole w)"
      using assms(1,2) by (auto simp: part_decides_def split: if_splits)
    have b: "b = holds op (compare v w)" using compare_part_of [OF assms(3,4) c(1)] c(2) by simp
    consider "is_whole v" "is_whole w" | "is_whole v \<noteq> is_whole w" | "\<not> is_whole v" "\<not> is_whole w" by blast
    then show ?thesis
    proof cases
      case 1
      then have "op \<noteq> Eq" "op \<noteq> Ne" using nw whole_no_key is_other_part_of by blast+
      moreover have "compare v w = None" using 1 by (cases v; cases w) (auto simp: is_whole_def compare_def)
      ultimately show ?thesis using b order 1 by (cases op) (simp_all add: value_matches_def)
    next
      case 2
      then show ?thesis using b order equal_not_whole [OF 2, of im]
        by (cases op) (auto simp: value_matches_def)
    next
      case 3
      then show ?thesis using b order by (simp add: value_matches_def)
    qed
  qed
qed

lemma id_decides_value:
  assumes "doc_id (entry_key e) = i"
  shows "id_decides e op w \<longleftrightarrow> value_matches im lower op (Id i) w"
proof (cases "is_whole w")
  case True
  then have "\<not> equal_values im (Id i) w" "compare (Id i) w = None"
    using equal_not_whole [of "Id i" w im] by (simp_all add: is_whole_def)
  then show ?thesis using True by (cases op; cases w) (auto simp: id_decides_def value_matches_def is_whole_def)
next
  case False
  then show ?thesis using assms
    by (cases op; cases w) (auto simp: id_decides_def value_matches_def is_whole_def compare_def)
qed

text \<open>An answer of three values agrees with one of two where it is one.\<close>

abbreviation agrees :: "bool option \<Rightarrow> bool option \<Rightarrow> bool" where
  "agrees m r \<equiv> \<exists>b. m = Some b \<and> (r = None \<or> r = Some b)"

lemma all_three_agrees: "list_all2 agrees ms rs \<Longrightarrow> agrees (try_all ms) (all_three rs)"
  by (induction rule: list_all2_induct) (auto simp del: try_all_True split: bool.splits)

lemma any_three_agrees: "list_all2 agrees ms rs \<Longrightarrow> agrees (try_any ms) (any_three rs)"
  by (induction rule: list_all2_induct) (auto split: bool.splits)

lemma those_map: "those (map g xs) = Some ys \<Longrightarrow> list_all2 (\<lambda>x y. g x = Some y) xs ys"
  by (induction xs arbitrary: ys) (auto split: option.splits)

lemma those_in:
  assumes "those (map g xs) = Some ys"
  shows "x \<in> set xs \<Longrightarrow> \<exists>y \<in> set ys. g x = Some y" "y \<in> set ys \<Longrightarrow> \<exists>x \<in> set xs. g x = Some y"
proof -
  have "(\<forall>x \<in> set xs. \<exists>y \<in> set ys. g x = Some y) \<and> (\<forall>y \<in> set ys. \<exists>x \<in> set xs. g x = Some y)"
    using assms
  proof (induction xs arbitrary: ys)
    case (Cons a xs)
    then obtain b zs where z: "g a = Some b" "those (map g xs) = Some zs" "ys = b # zs" by (auto split: option.splits)
    then show ?case using Cons.IH [OF z(2)] by simp
  qed simp
  then show "x \<in> set xs \<Longrightarrow> \<exists>y \<in> set ys. g x = Some y" "y \<in> set ys \<Longrightarrow> \<exists>x \<in> set xs. g x = Some y"
    by blast+
qed

lemma those_agrees:
  assumes "those (map g xs) = Some ys" "\<And>x y. x \<in> set xs \<Longrightarrow> g x = Some y \<Longrightarrow> agrees (p x) (q y)"
  shows "list_all2 agrees (map p xs) (map q ys)"
  using those_map [OF assms(1)] assms(2) by (auto simp: list_all2_conv_all_nth)

lemma position_some: "position P xs = Some n \<Longrightarrow> n < length xs \<and> P (xs ! n)"
  by (induction xs arbitrary: n) (auto split: if_splits)

context index_map begin

text \<open>The entry of a document: its parts are the values', and it ends with the document's id.\<close>

lemma bytes_agree:
  assumes e: "entry_parts e = map (part_of (length fs)) (vals d fs)" "doc_id (entry_key e) = i" "entry_fields e = length fs"
    and fs: "\<forall>f \<in> set fs. \<not> is_multi f" and d: "wf_doc d" "has_id d i"
  shows "on_bytes_of fs c = Some b \<Longrightarrow> wf_condition c \<Longrightarrow> agrees (meets im lower c d) (bytes_match e b)"
proof (induction c arbitrary: b)
  case (Compare f op v)
  show ?case
  proof (cases "f = ID_FIELD")
    case True
    then have "b = BCompare None op v None" using Compare.prems(1) by simp
    moreover have "meets im lower (Compare f op v) d = Some (value_matches im lower op (Id i) v)"
      using True value_of_id [OF d] by (simp add: id_path(2) compare_holds_matches)
    ultimately show ?thesis using id_decides_value [OF e(2)] by simp
  next
    case False
    then obtain n where n: "position (\<lambda>g. g = f) fs = Some n" and b: "b = BCompare (Some n) op v (encode_for v (length fs))"
      using Compare.prems(1) by (auto split: option.splits)
    have f: "n < length fs" "fs ! n = f" using position_some [OF n] by simp_all
    then have "\<not> is_multi f" using fs nth_mem by blast
    then have m: "meets im lower (Compare f op v) d = Some (value_matches im lower op (value_or_null im (path_new f) d) v)"
      by (simp add: compare_holds_matches)
    have "entry_parts e ! n = part_of (length fs) (value_or_null im (path_new f) d)" using e(1) f by simp
    then show ?thesis
      using part_decides_value [of e "length fs" "value_or_null im (path_new f) d" op v _ im lower] e(3)
        value_or_null_wf [OF d(1)] Compare.prems(2)
      unfolding b m by (cases "part_decides e (entry_parts e ! n) op v (encode_for v (length fs))") auto
  qed
next
  case (AllOf cs)
  then obtain bs where bs: "those (map (on_bytes_of fs) cs) = Some bs" "b = BAll bs" by auto
  have "list_all2 agrees (map (\<lambda>c. meets im lower c d) cs) (map (bytes_match e) bs)"
    by (rule those_agrees [OF bs(1)]) (use AllOf in auto)
  from all_three_agrees [OF this] show ?case using bs(2) by (simp add: comp_def)
next
  case (AnyOf cs)
  then obtain bs where bs: "those (map (on_bytes_of fs) cs) = Some bs" "b = BAny bs" by auto
  have "list_all2 agrees (map (\<lambda>c. meets im lower c d) cs) (map (bytes_match e) bs)"
    by (rule those_agrees [OF bs(1)]) (use AnyOf in auto)
  from any_three_agrees [OF this] show ?case using bs(2) by (simp add: comp_def)
next
  case (NotOf c)
  then obtain b' where b': "on_bytes_of fs c = Some b'" "b = BNot b'" by auto
  then show ?case using NotOf.IH [OF b'(1)] NotOf.prems(2) by auto
qed auto

text \<open>The key of a document in an index without \<open>[*]\<close>.\<close>

definition document_key :: "bytes list \<Rightarrow> document \<Rightarrow> docid \<Rightarrow> bytes" where
  "document_key fs d i = compound (vals d fs) i"

lemma index_key_document_key:
  assumes "index_ok ix" "\<forall>f \<in> set (ix_fields ix). \<not> is_multi f" "k \<in> set (index_keys im d ix i)"
  shows "k = document_key (ix_fields ix) d i"
proof (cases "single_field ix")
  case None
  then show ?thesis using assms(3)
    by (auto simp: index_keys_def Let_def field_values_def document_key_def split: if_splits)
next
  case (Some f)
  then have f: "ix_fields ix = [f]" by (auto simp: single_field_def split: list.splits)
  then have "path_ok f" using index_ok_fields(2) [OF assms(1)] by simp
  then have "path_values im (path_new f) d = [value_or_null im (path_new f) d]"
    using plain_values assms(2) f by simp
  then show ?thesis using assms(3) Some f
    by (auto simp: index_keys_def Let_def map_filter_simps secondary_def encode_value_def document_key_def compound_def
        encode_values_parts part_of_def split: if_splits option.splits)
qed

lemma document_key_parts:
  assumes d: "wf_doc d" "has_id d i"
  shows "length i = 16" "parts (value_part (document_key fs d i)) = map (part_of (length fs)) (vals d fs)"
    "doc_id (document_key fs d i) = i"
proof -
  show i: "length i = 16" using value_or_null_wf [OF d(1), of "path_new ID_FIELD"] value_of_id [OF d] by simp
  have wf: "list_all wf_doc (vals d fs)" using value_or_null_wf [OF d(1)] by (simp add: list_all_iff)
  have "parts (concat (map (part_of (length fs)) (vals d fs))) = map (part_of (length fs)) (vals d fs)"
    using wf by (intro parts_concat) (auto simp: list_all_iff)
  then show "parts (value_part (document_key fs d i)) = map (part_of (length fs)) (vals d fs)"
    "doc_id (document_key fs d i) = i"
    unfolding document_key_def compound_def encode_values_parts using i
    by (simp_all add: value_part_def doc_id_def Let_def)
qed

lemma entry_decides:
  assumes k: "k = document_key fs d i" and fs: "\<forall>f \<in> set fs. \<not> is_multi f" and d: "wf_doc d" "has_id d i"
    and c: "\<forall>c \<in> set (conditions f). wf_condition c"
    and b: "entry_matches (entry_matcher_new f fs) k = Some b"
  shows "matches im lower (filter_matcher lower f) d = Some b"
proof -
  have ps: "parts (value_part k) = map (part_of (length fs)) (vals d fs)" "doc_id k = i"
    using document_key_parts(2,3) [OF d, of fs] unfolding k by simp_all
  obtain bs where bs: "those (map (on_bytes_of fs) (conditions f)) = Some bs"
    and m: "bytes_match \<lparr>entry_parts = parts (value_part k), entry_key = k, entry_fields = length fs\<rparr> (BAll bs) = Some b"
    using b by (auto simp: entry_matches_def entry_matcher_new_def Let_def split: option.splits if_splits)
  have "on_bytes_of fs (AllOf (conditions f)) = Some (BAll bs)" using bs by simp
  from bytes_agree [OF _ _ _ fs d this, of "\<lparr>entry_parts = parts (value_part k), entry_key = k, entry_fields = length fs\<rparr>" lower]
  have "agrees (meets im lower (AllOf (conditions f)) d) (Some b)"
    using ps c m by simp
  then show ?thesis by (simp add: filter_matcher_def)
qed

end

subsection \<open>One interval of keys\<close>

text \<open>
  Keys are in the order of their parts: a part never begins another, so between two keys that agree
  on their first parts are only keys that agree on them too, their next part between the two.
\<close>

lemma part_of_prefix_free:
  assumes "wf_doc a" "wf_doc b" "part_of nf a @ u = part_of nf b @ v"
  shows "part_of nf a = part_of nf b"
  using part_len_part_of [OF assms(1), of nf u] part_len_part_of [OF assms(2), of nf v] assms(3) by simp

lemma append_less: "ys < xs \<Longrightarrow> (\<And>w. xs \<noteq> ys @ w) \<Longrightarrow> ys @ v < xs @ (u :: bytes)"
proof (induction xs arbitrary: ys)
  case (Cons x xs)
  then show ?case by (cases ys) auto
qed simp

lemma parts_ordered:
  assumes "wf_doc a" "wf_doc b" "part_of nf a @ u \<le> part_of nf b @ v"
  shows "part_of nf a \<le> part_of nf b" "part_of nf a = part_of nf b \<Longrightarrow> u \<le> v"
proof -
  show "part_of nf a \<le> part_of nf b"
  proof (rule ccontr)
    assume "\<not> part_of nf a \<le> part_of nf b"
    moreover have "part_of nf a \<noteq> part_of nf b @ w" if "part_of nf b < part_of nf a" for w
      using part_of_prefix_free [OF assms(1,2), of nf "[]" w] that by auto
    ultimately have "part_of nf b @ v < part_of nf a @ u" using append_less by force
    then show False using assms(3) by simp
  qed
qed (use assms(3) in simp)

lemma parts_between:
  assumes "list_all wf_doc vs1" "list_all wf_doc vs" "list_all wf_doc vs2" "n < length vs1"
    "length vs = length vs1" "length vs2 = length vs1"
    "concat (map (part_of nf) vs1) @ i1 \<le> concat (map (part_of nf) vs) @ i"
    "concat (map (part_of nf) vs) @ i \<le> concat (map (part_of nf) vs2) @ i2"
    "\<And>m. m < n \<Longrightarrow> part_of nf (vs1 ! m) = part_of nf (vs2 ! m)"
  shows "part_of nf (vs1 ! n) \<le> part_of nf (vs ! n) \<and> part_of nf (vs ! n) \<le> part_of nf (vs2 ! n)"
  using assms
proof (induction n arbitrary: vs1 vs vs2)
  case (0 vs1 vs vs2)
  then show ?case using parts_ordered(1) by (cases vs1; cases vs; cases vs2) auto
next
  case (Suc n vs1 vs vs2)
  obtain a vs1' b vs' c vs2' where l: "vs1 = a # vs1'" "vs = b # vs'" "vs2 = c # vs2'"
    using Suc.prems(4-6) by (cases vs1; cases vs; cases vs2) auto
  have w: "wf_doc a" "wf_doc b" "wf_doc c" using Suc.prems(1-3) l by simp_all
  have le: "part_of nf a @ (concat (map (part_of nf) vs1') @ i1) \<le> part_of nf b @ (concat (map (part_of nf) vs') @ i)"
    "part_of nf b @ (concat (map (part_of nf) vs') @ i) \<le> part_of nf c @ (concat (map (part_of nf) vs2') @ i2)"
    using Suc.prems(7,8) l by simp_all
  have "part_of nf a = part_of nf c" using Suc.prems(9) [of 0] l by simp
  then have e: "part_of nf a = part_of nf b" "part_of nf b = part_of nf c"
    using parts_ordered(1) [OF w(1,2) le(1)] parts_ordered(1) [OF w(2,3) le(2)] by simp_all
  have "part_of nf (vs1' ! m) = part_of nf (vs2' ! m)" if "m < n" for m
    using Suc.prems(9) [of "Suc m"] that l by simp
  then show ?case
    using Suc.IH [of vs1' vs' vs2'] Suc.prems(1-6) l parts_ordered(2) [OF w(1,2) le(1) e(1)]
      parts_ordered(2) [OF w(2,3) le(2) e(2)] by simp
qed

text \<open>The comparisons of nested ANDs.\<close>

fun leaves :: "on_bytes \<Rightarrow> on_bytes list" where
  "leaves (BAll bs) = concat (map leaves bs)"
| "leaves b = [b]"

lemma all_three_True [simp]: "all_three rs = Some True \<longleftrightarrow> (\<forall>r \<in> set rs. r = Some True)"
  by (induction rs) (auto split: option.splits bool.splits)

lemma leaves_match: "bytes_match e b = Some True \<longleftrightarrow> (\<forall>l \<in> set (leaves b). bytes_match e l = Some True)"
  by (induction b) auto

lemma flat_leaves:
  "flat_compares b = Some cs \<Longrightarrow> l \<in> set (leaves b) \<Longrightarrow>
    \<exists>n op v enc. l = BCompare (Some n) op v enc \<and> (n, op) \<in> set cs \<and> op \<in> {Eq, Lt, Lte, Gt, Gte}"
proof (induction b arbitrary: cs)
  case (BAll bs)
  then obtain css where css: "those (map flat_compares bs) = Some css" "cs = concat css" by auto
  obtain b where b: "b \<in> set bs" "l \<in> set (leaves b)" using BAll.prems(2) by auto
  obtain c where c: "flat_compares b = Some c" "c \<in> set css"
    using those_in(1) [OF css(1) b(1)] by blast
  show ?case using BAll.IH [OF b(1) c(1) b(2)] c(2) css(2) by auto
qed (auto split: option.splits if_splits)

lemma flat_all:
  "flat_compares b = Some cs \<Longrightarrow> (n, op) \<in> set cs \<Longrightarrow> \<exists>v enc. BCompare (Some n) op v enc \<in> set (leaves b)"
proof (induction b arbitrary: cs)
  case (BAll bs)
  then obtain css where css: "those (map flat_compares bs) = Some css" "cs = concat css" by auto
  obtain c where c: "c \<in> set css" "(n, op) \<in> set c" using BAll.prems(2) css(2) by auto
  obtain b where b: "b \<in> set bs" "flat_compares b = Some c"
    using those_in(2) [OF css(1) c(1)] by blast
  show ?case using BAll.IH [OF b c(2)] b(1) by auto
qed (auto split: option.splits if_splits)

lemma leaves_in_fields:
  "on_bytes_of fs c = Some b \<Longrightarrow> BCompare (Some n) op v enc \<in> set (leaves b) \<Longrightarrow> n < length fs"
proof (induction c arbitrary: b)
  case (AllOf cs)
  then obtain bs where bs: "those (map (on_bytes_of fs) cs) = Some bs" "b = BAll bs" by auto
  then obtain b' where b': "b' \<in> set bs" "BCompare (Some n) op v enc \<in> set (leaves b')" using AllOf.prems(2) by auto
  obtain c where "c \<in> set cs" "on_bytes_of fs c = Some b'"
    using those_in(2) [OF bs(1) b'(1)] by blast
  then show ?case using AllOf.IH b'(2) by blast
qed (auto split: if_splits option.splits dest: position_some)

text \<open>An \<open>Eq\<close> that holds fixes a part; a comparison that holds of two parts holds between them.\<close>

lemma compare_part_answer:
  "compare_part p enc nf = Some (Some c) \<longleftrightarrow>
     (\<exists>b. enc = Some b \<and> p \<noteq> [] \<and> b \<noteq> [] \<and> hd p = hd b \<and> hd b \<noteq> KTAG_OTHER \<and> c = cmp p b
        \<and> (p = b \<longrightarrow> part_is_exact p nf))"
  by (cases p; cases enc) (auto simp: compare_part_def cmp_def)

lemma holds_answer: "op \<noteq> Ne \<Longrightarrow> holds op r \<Longrightarrow> \<exists>c. r = Some c"
  by (cases op; cases r) auto

lemma part_decides_order:
  assumes "op \<in> {Eq, Lt, Lte, Gt, Gte}" "part_decides e p op v enc = Some True"
  shows "\<exists>c. compare_part p enc (entry_fields e) = Some (Some c) \<and> holds op (Some c)"
proof -
  obtain r where r: "compare_part p enc (entry_fields e) = Some r" "holds op r"
    using assms by (auto simp: part_decides_def split: if_splits)
  then show ?thesis using holds_answer [of op r] assms(1) by auto
qed

lemma part_decides_Eq: "part_decides e p Eq v enc = Some True \<Longrightarrow> enc = Some p"
  using part_decides_order [of Eq e p v enc] by (auto simp: compare_part_answer cmp_def split: if_splits)

lemma part_decides_fields: "entry_fields e = entry_fields e' \<Longrightarrow> part_decides e p op v enc = part_decides e' p op v enc"
  by (simp only: part_decides_def)

lemma part_decides_between:
  assumes "part_decides e p1 op v enc = Some True" "part_decides e p2 op v enc = Some True"
    and "p1 \<le> p" "p \<le> p2" "op \<in> {Eq, Lt, Lte, Gt, Gte}"
  shows "part_decides e p op v enc = Some True"
proof (cases "op = Eq")
  case True
  then have "enc = Some p1" "enc = Some p2" using assms(1,2) part_decides_Eq [of e _ v enc] by simp_all
  then have "p = p1" using assms(3,4) by simp
  then show ?thesis using assms(1) by simp
next
  case False
  let ?nf = "entry_fields e"
  have o: "op \<in> {Lt, Lte, Gt, Gte}" using assms(5) False by simp
  obtain c1 c2 where c: "compare_part p1 enc ?nf = Some (Some c1)" "holds op (Some c1)"
    "compare_part p2 enc ?nf = Some (Some c2)" "holds op (Some c2)"
    using part_decides_order [OF assms(5)] assms(1,2) by blast
  obtain b where b: "enc = Some b" "b \<noteq> []" "hd b \<noteq> KTAG_OTHER"
    and q1: "p1 \<noteq> []" "hd p1 = hd b" "c1 = cmp p1 b" "p1 = b \<longrightarrow> part_is_exact p1 ?nf"
    using c(1) by (auto simp: compare_part_answer)
  have q2: "p2 \<noteq> []" "hd p2 = hd b" "c2 = cmp p2 b" "p2 = b \<longrightarrow> part_is_exact p2 ?nf"
    using c(3) b(1) by (auto simp: compare_part_answer)
  have p: "p \<noteq> []" using assms(3) q1(1) by (cases p) auto
  obtain x xs y ys z zs where l: "p1 = x # xs" "p = y # ys" "p2 = z # zs" using q1(1) q2(1) p by (metis neq_Nil_conv)
  have "x \<le> y" "y \<le> z" using assms(3,4) l by auto
  then have hp: "hd p = hd b" using q1(2) q2(2) l by simp
  have ends: "p = b \<Longrightarrow> p1 = b \<or> p2 = b" if "op = Lte \<or> op = Gte"
    using that c(2,4) q1(3) q2(3) assms(3,4) by (auto simp: cmp_def split: if_splits)
  have h: "holds op (Some (cmp p b)) \<and> (p = b \<longrightarrow> part_is_exact p ?nf)"
  proof -
    consider "op = Lt" | "op = Lte" | "op = Gt" | "op = Gte" using o by blast
    then show ?thesis
      using c(2,4) q1(3,4) q2(3,4) assms(3,4) ends by cases (auto simp: cmp_def split: if_splits)
  qed
  then have "compare_part p enc ?nf = Some (Some (cmp p b))" using b p hp by (auto simp: compare_part_answer)
  then show ?thesis using h o by (auto simp: part_decides_def)
qed

context index_map begin

lemma interval_keys:
  assumes em: "em = entry_matcher_new f fs" "em_interval em"
    and d: "wf_doc d1" "has_id d1 i1" "wf_doc d" "has_id d i" "wf_doc d2" "has_id d2 i2"
    and k: "k1 = document_key fs d1 i1" "k = document_key fs d i" "k2 = document_key fs d2 i2"
    and le: "k1 \<le> k" "k \<le> k2" and m: "entry_matches em k1 = Some True" "entry_matches em k2 = Some True"
  shows "entry_matches em k = Some True"
proof -
  let ?nf = "length fs"
  let ?e = "\<lambda>k. \<lparr>entry_parts = parts (value_part k), entry_key = k, entry_fields = ?nf\<rparr>"
  obtain bs where bs: "those (map (on_bytes_of fs) (conditions f)) = Some bs" "is_interval bs"
    using em by (auto simp: entry_matcher_new_def Let_def split: option.splits)
  have of: "on_bytes_of fs (AllOf (conditions f)) = Some (BAll bs)" using bs by simp
  note ps = document_key_parts(2) [OF d(1,2), of fs] document_key_parts(2) [OF d(3,4), of fs] document_key_parts(2) [OF d(5,6), of fs]
  have en: "entry_matches em k = bytes_match (?e k) (BAll bs)" if "length (parts (value_part k)) = ?nf" for k
    using that bs(1) em(1) by (simp add: entry_matches_def entry_matcher_new_def Let_def)
  have m: "bytes_match (?e k1) (BAll bs) = Some True" "bytes_match (?e k2) (BAll bs) = Some True"
    using m en ps k by auto
  obtain cs where cs: "flat_compares (BAll bs) = Some cs" "\<forall>(n, _) \<in> set cs. \<forall>before < n. (before, Eq) \<in> set cs"
    using bs(2) unfolding is_interval_def by (auto split: option.splits)
  have wf: "list_all wf_doc (vals d1 fs)" "list_all wf_doc (vals d fs)" "list_all wf_doc (vals d2 fs)"
    using value_or_null_wf d(1,3,5) by (simp_all add: list_all_iff)
  have "bytes_match (?e k) l = Some True" if l: "l \<in> set (leaves (BAll bs))" for l
  proof -
    obtain n op v enc where b: "l = BCompare (Some n) op v enc" "(n, op) \<in> set cs" "op \<in> {Eq, Lt, Lte, Gt, Gte}"
      using flat_leaves [OF cs(1) l] by blast
    have n: "n < ?nf" using leaves_in_fields [OF of] l b(1) by blast
    have part: "part_decides (?e k1) (part_of ?nf (vals d1 fs ! j)) op' v' enc' = Some True"
      "part_decides (?e k2) (part_of ?nf (vals d2 fs ! j)) op' v' enc' = Some True"
      if "BCompare (Some j) op' v' enc' \<in> set (leaves (BAll bs))" "j < ?nf" for j op' v' enc'
    proof -
      have "bytes_match (?e k1) (BCompare (Some j) op' v' enc') = Some True"
        "bytes_match (?e k2) (BCompare (Some j) op' v' enc') = Some True"
        using m that(1) leaves_match by blast+
      then show "part_decides (?e k1) (part_of ?nf (vals d1 fs ! j)) op' v' enc' = Some True"
        "part_decides (?e k2) (part_of ?nf (vals d2 fs ! j)) op' v' enc' = Some True"
        using ps k that(2) by simp_all
    qed
    have eq: "part_of ?nf (vals d1 fs ! j) = part_of ?nf (vals d2 fs ! j)" if "j < n" for j
    proof -
      have "(j, Eq) \<in> set cs" using cs(2) b(2) that by fast
      from flat_all [OF cs(1) this] obtain v' enc' where l': "BCompare (Some j) Eq v' enc' \<in> set (leaves (BAll bs))" by blast
      have "j < ?nf" using that n by simp
      note eqs = part [OF l' this]
      show ?thesis using part_decides_Eq [OF eqs(1)] part_decides_Eq [OF eqs(2)] by simp
    qed
    have "part_of ?nf (vals d1 fs ! n) \<le> part_of ?nf (vals d fs ! n) \<and> part_of ?nf (vals d fs ! n) \<le> part_of ?nf (vals d2 fs ! n)"
      using parts_between [OF wf, of n ?nf i1 i i2] n eq le k by (simp add: document_key_def compound_def encode_values_parts)
    then have "part_decides (?e k) (part_of ?nf (vals d fs ! n)) op v enc = Some True"
      using part_decides_between [of "?e k" "part_of ?nf (vals d1 fs ! n)" op v enc "part_of ?nf (vals d2 fs ! n)"]
        part [of n op v enc] l b(1,3) n part_decides_fields [of "?e k" "?e k1"] part_decides_fields [of "?e k" "?e k2"]
      by (simp del: leaves.simps)
    then show ?thesis using b(1) ps(2) k(2) n by simp
  qed
  then have "bytes_match (?e k) (BAll bs) = Some True" using leaves_match by blast
  then show ?thesis using en ps(2) k(2) by simp
qed

end

text \<open>
  C16. What the bytes of an index entry decide is what its document would have: where a filter, its
  values encoded as the index's keys, answers on the key a document has in an index without array
  elements, the document answers the same, for every operator, nested in ANDs, ORs and NOTs, on
  every kind of value, and for conditions on the id too.
\<close>

theorem entry_decides_as_document:
  assumes "index_map im" and "index_ok ix" and "\<forall>p \<in> set (ix_fields ix). \<not> is_multi p"
    and "k \<in> set (index_keys im d ix i)" and "wf_doc d" and "has_id d i"
    and "\<forall>c \<in> set (conditions f). wf_condition c"
    and "entry_matches (entry_matcher_new f (ix_fields ix)) k = Some b"
  shows "matches im lower (filter_matcher lower f) d = Some b"
  using index_map.entry_decides [OF assms(1) _ assms(3,5-8)] index_map.index_key_document_key [OF assms(1-4)] by blast

text \<open>An index on one field, a filter on it, and documents whose key is in the range it accepts.\<close>

definition one_index :: index_meta where
  "one_index = \<lparr>ix_fields = [[98]], ix_root = 5, ix_unique = False, ix_sparse = False\<rparr>"

definition over_false :: query where
  "over_false = query_and query_new (Compare [98] Gt (Bool False))"

definition true_document :: "byte \<Rightarrow> document" where
  "true_document b = Object [(ID_FIELD, Id (replicate 16 b)), ([98], Bool True)]"

definition true_key :: "byte \<Rightarrow> bytes" where
  "true_key b = [KTAG_BOOL, 1] @ replicate 16 b"

lemma true_documents:
  "index_ok one_index" "\<forall>p \<in> set (ix_fields one_index). \<not> is_multi p" "\<forall>c \<in> set (conditions over_false). wf_condition c"
  "wf_doc (true_document b)" "has_id (true_document b) (replicate 16 b)"
  "true_key b \<in> set (index_keys alist_ops (true_document b) one_index (replicate 16 b))"
  "entry_matches (entry_matcher_new over_false (ix_fields one_index)) (true_key b) = Some True"
  "em_interval (entry_matcher_new over_false (ix_fields one_index))"
proof -
  have m: "\<not> is_multi [98]" by (simp add: is_multi_def FAN_OUT_eq starts_with_def)
  have p: "path_new [98] = Field [98]" using m by (simp add: path_new_def is_multi_def path_bytes)
  show "index_ok one_index"
    by (simp add: one_index_def ensure_index_fields_def MAX_COMPOUND_FIELDS_def path_bytes trim_short FAN_OUT_eq ID_FIELD_def
      ascii_def Let_def)
  show "\<forall>p \<in> set (ix_fields one_index). \<not> is_multi p" using m by (simp add: one_index_def)
  show "\<forall>c \<in> set (conditions over_false). wf_condition c" by (simp add: over_false_def query_and_def query_new_def)
  show "wf_doc (true_document b)" "has_id (true_document b) (replicate 16 b)"
    by (simp_all add: true_document_def has_id_def ID_FIELD_def ascii_def in_range_def utf8_ok.simps)
  show "true_key b \<in> set (index_keys alist_ops (true_document b) one_index (replicate 16 b))"
    by (simp add: true_key_def true_document_def one_index_def index_keys_def single_field_def Let_def path_values_def p
      get_field_def SCAN_UP_TO_def ID_FIELD_def ascii_def map_filter_simps secondary_def encode_value_def encode_value_in_def)
  have "parts (value_part (true_key b)) = [[KTAG_BOOL, 1]]"
    using parts_concat [of "[Bool True]" 1] by (simp add: true_key_def value_part_def part_of_def encode_value_in_def)
  then show "entry_matches (entry_matcher_new over_false (ix_fields one_index)) (true_key b) = Some True"
    by (simp add: over_false_def one_index_def entry_matches_def entry_matcher_new_def query_and_def query_new_def ID_FIELD_def
      ascii_def Let_def part_decides_def encode_for_def encode_value_in_def is_other_def compare_part_def cmp_def ktag_defs)
  show "em_interval (entry_matcher_new over_false (ix_fields one_index))"
    by (simp add: over_false_def one_index_def entry_matcher_new_def query_and_def query_new_def is_interval_def ID_FIELD_def
      ascii_def Let_def)
qed

text \<open>A key that is too small for the filter, and a document with it.\<close>

theorem entry_decides_as_document_witness:
  "matches alist_ops (\<lambda>s. s) (filter_matcher (\<lambda>s. s) over_false) (true_document 7) = Some True"
  using entry_decides_as_document [OF alist.index_map_axioms true_documents(1,2,6,4,5,3,7)] .

text \<open>
  C17. A filter that accepts one interval of keys matches every entry between two that match: where
  \<open>is_interval\<close> says so of a filter, and the filter answers true on the keys of the documents at the
  two ends of a leaf, it answers true on the key of every document of the index between them, and the
  document meets the filter. So a leaf is taken whole on its two ends.
\<close>

theorem interval_matches_between:
  assumes "index_map im" and "index_ok ix" and "\<forall>p \<in> set (ix_fields ix). \<not> is_multi p"
    and "\<forall>c \<in> set (conditions f). wf_condition c" and "em_interval (entry_matcher_new f (ix_fields ix))"
    and "wf_doc d1" and "has_id d1 i1" and "k1 \<in> set (index_keys im d1 ix i1)"
    and "wf_doc d" and "has_id d i" and "k \<in> set (index_keys im d ix i)"
    and "wf_doc d2" and "has_id d2 i2" and "k2 \<in> set (index_keys im d2 ix i2)"
    and "k1 \<le> k" and "k \<le> k2"
    and "entry_matches (entry_matcher_new f (ix_fields ix)) k1 = Some True"
    and "entry_matches (entry_matcher_new f (ix_fields ix)) k2 = Some True"
  shows "entry_matches (entry_matcher_new f (ix_fields ix)) k = Some True
    \<and> matches im lower (filter_matcher lower f) d = Some True"
proof -
  note key = index_map.index_key_document_key [OF assms(1-3)]
  have e: "entry_matches (entry_matcher_new f (ix_fields ix)) k = Some True"
    using index_map.interval_keys [OF assms(1) refl assms(5-7,9,10,12,13) key [OF assms(8)] key [OF assms(11)]
      key [OF assms(14)] assms(15-18)] .
  then show ?thesis
    using index_map.entry_decides [OF assms(1) key [OF assms(11)] assms(3,9,10,4) e] by blast
qed

theorem interval_matches_between_witness:
  "entry_matches (entry_matcher_new over_false (ix_fields one_index)) (true_key 7) = Some True
    \<and> matches alist_ops (\<lambda>s. s) (filter_matcher (\<lambda>s. s) over_false) (true_document 7) = Some True"
proof -
  have "replicate n b \<le> replicate n c" if "b \<le> c" for n and b c :: byte using that by (induction n) auto
  then have le: "true_key 6 \<le> true_key 7" "true_key 7 \<le> true_key 8" by (simp_all add: true_key_def)
  show ?thesis
    using interval_matches_between [OF alist.index_map_axioms true_documents(1-3,8) true_documents(4-6) true_documents(4-6)
      true_documents(4-6) le true_documents(7) true_documents(7)] by blast
qed

end
