(* ===== verification/Spec2Isabelle.thy ===== *)
theory Spec2Isabelle
  imports Crc32c Document Slotted Key Wal Datetime Filestore Btindex Treepages Walk Ranges Docreads Entries
begin

text \<open>
  A verification of trunkdb, an embedded document database that keeps everything in one file
  (Rust, under \<open>src/src/\<close>).

  The program, from below. A page is 8192 bytes. \<open>storage/\<close> keeps pages in the file, each with a
  checksum, holds committed pages and their older versions in memory so that snapshots read what
  they began with while a writer commits, and stages a batch of changes until it commits.
  \<open>durability/wal.rs\<close> logs a batch before its pages go into the file, so that a crash loses no
  committed batch and shows no other. On a page store \<open>data.rs\<close> keeps documents in slotted pages,
  large ones in chains of overflow pages, and \<open>index/btree.rs\<close> keeps the primary and secondary
  indexes, whose keys \<open>index/key.rs\<close> makes so that their bytes are in the order of the values.
  \<open>document.rs\<close> is the value and its encoding. \<open>query.rs\<close> and \<open>path.rs\<close> check documents against
  a filter, choose which parts of which indexes a read looks at, and decide what they can on the
  bytes of an index entry.

  How the code is modelled. A function that may fail or panic gives \<open>'a res\<close>: \<open>Inr\<close> a value,
  \<open>Inl (Io kind)\<close> an error without its message, \<open>Inl Panic\<close> a panic (a failed assertion, an index
  out of range, an overflow). Bytes are lists of \<open>8 word\<close>; an \<open>i64\<close> is a \<open>64 word\<close>, an \<open>f64\<close> its 64
  bits with IEEE comparison and rounding written out; sizes and page numbers are naturals, cut to
  their width where the code writes them. What the code mutates is passed on, also by calls that
  fail, so that what they changed before stays changed. Code that is not in the repository is a
  parameter: the IndexMap of an object (the record \<open>im_ops\<close>, its documented laws the locale
  \<open>index_map\<close>, interpreted on association lists), Unicode lower-casing (\<open>lower\<close>), compiled regexes
  (\<open>regex\<close>), the operating system's faults (\<open>os\<close> of the log, \<open>ckpt_faults\<close> of a checkpoint), and whether
  the CRC instruction is there (\<open>hw\<close>). A closure of the application is a function that gives \<open>None\<close>
  where it panics.

  The theories, in the order they build on each other, and what they show.

  \<^item> \<open>Prelude\<close>: results, bytes, little- and big-endian integers, slices.
  \<^item> \<open>Crc32c\<close> (\<open>crc32.rs\<close>): the table-driven and the hardware checksum are the bit-by-bit one.
  \<^item> \<open>Decode\<close>, \<open>Document\<close> (\<open>decode.rs\<close>, \<open>document.rs\<close>, \<open>map.rs\<close>): encoding and decoding a document
    with the nesting limit, skipping a value, decoding some fields, a stored document and its id.
    Round trips; skipping and decoding accept the same bytes.
  \<^item> \<open>Values\<close> (\<open>compare\<close>, \<open>int_vs_float\<close>, \<open>sort_order\<close>, \<open>value_matches\<close> of \<open>query.rs\<close>): comparing an
    integer with a float is exact; the sort order, and the one by several keys, is a total preorder
    that follows \<open>compare\<close> within a kind.
  \<^item> \<open>Key\<close> (\<open>index/key.rs\<close>): keys are in the sort order of their values, no encoding begins
    another, ranges hold every value a condition matches, keys split into their parts again, and
    what a part answers the value answers. Keys are at most \<open>MAX_KEY_LEN\<close> bytes.
  \<^item> \<open>Paths\<close> (\<open>path.rs\<close>): a path taken apart and the values it reaches; \<open>Conditions\<close> (\<open>query.rs\<close>,
    \<open>pattern.rs\<close>): conditions, filters, \<open>Matcher\<close>, and the fields a filter looks at: a document decoded
    on them decides as the whole one, unless a field's name has a bracket
    (\<open>bracketed_name_missed\<close>); \<open>Planner\<close>, \<open>Plansound\<close> (\<open>query.rs\<close>, \<open>collection.rs\<close>, \<open>catalog.rs\<close>):
    the ids and index ranges a query reads, and that they miss no document that matches; \<open>Entries\<close>
    (\<open>EntryMatcher\<close>): what an entry's bytes decide the document would, and where a filter accepts
    one interval of keys two entries decide all between.
  \<^item> \<open>Slotted\<close> (\<open>storage/page.rs\<close>, \<open>slotted.rs\<close>): a page's cells as a list of slots; every operation
    keeps the invariant, is an operation on that list, and never panics; the checks of a page from
    the file decide the invariant.
  \<^item> \<open>Wal\<close> (\<open>durability/wal.rs\<close>): the log as its bytes, every fault of the operating system in
    \<open>log\<close>, \<open>undo_failed_log\<close> and \<open>checkpoint\<close>. Over every sequence of them recovery hands out
    exactly the committed batches, if a crash cuts the log short or leaves a record whose checksum
    fails. A crash that leaves eight or more zero bytes makes the open fail instead
    (\<open>wal_zero_tail_is_an_error\<close>).
  \<^item> \<open>Datetime\<close> (\<open>datetime.rs\<close>): civil dates, the text of a date-time and reading it.
  \<^item> \<open>Cache\<close>, \<open>Disk\<close>, \<open>Pages\<close>, \<open>Isolation\<close> (\<open>storage/cache.rs\<close>, \<open>pages.rs\<close>, \<open>scratch.rs\<close>,
    \<open>snapshot.rs\<close>): the cache of committed pages (the locale \<open>page_cache\<close>, interpreted as \<open>clock\<close>),
    pages on disk, versions and checkpoints, and the step relation \<open>pages_step\<close>, in which commits,
    pieces of checkpoints, snapshots and readers without the lock interleave. The invariant
    \<open>sys_inv\<close> gives snapshot isolation, correct reads and cache fills beside a writer, the limit on
    versions, and that a checkpoint that fails anywhere changes no read.
  \<^item> \<open>Store\<close> (\<open>trait PageStore\<close> of \<open>storage/mod.rs\<close>): the contract of a page store, the locales
    \<open>grow_store\<close> and \<open>page_store\<close>. \<open>Filestore\<close> (\<open>storage/file.rs\<close>, \<open>release.rs\<close>): the header, the free
    list, \<open>begin\<close>, \<open>rollback\<close>, \<open>commit\<close>, opening a file; \<open>file_pages\<close> interprets \<open>page_store\<close> on it. A
    commit is a step of \<open>pages_step\<close>; a rollback leaves no trace, in the cache either.
  \<^item> \<open>Node\<close>, \<open>Btree\<close>, \<open>Btshape\<close>, \<open>Btindex\<close> (\<open>index/leaf.rs\<close>, \<open>branch.rs\<close>, \<open>btree.rs\<close>,
    \<open>in_memory.rs\<close>): insertion, removal and lookup on any page store. \<open>tree\<close> abstracts the pages;
    \<open>ordered_index\<close> is the trait's contract, interpreted on the file store (\<open>file_index\<close>) and on the
    reference index (\<open>mem_index\<close>), so the two answer alike.
  \<^item> \<open>Walk\<close>, \<open>Treepages\<close>, \<open>Ranges\<close> (\<open>btree.rs\<close>): ranges both ways and counts are the entries in
    the range; the listing of an index's pages is exact; reading ends on any store.
  \<^item> \<open>Freespace\<close>, \<open>Records\<close>, \<open>Chains\<close>, \<open>Heap\<close>, \<open>Heapops\<close>, \<open>Docheap\<close>, \<open>Docreads\<close>
    (\<open>free_space.rs\<close>, \<open>data.rs\<close>): documents in data pages and overflow chains. Inserting,
    replacing, deleting and reading are operations on a map from locations to documents, on any page
    store and so on the file store; a collection's pages are listed and dropped exactly.

  Bounds and fuel. A B-tree's depth is at most \<open>MAX_DEPTH\<close> = 64, as in the code. Loops whose end
  the code leaves to the data take a number of turns and give \<open>None\<close> when it is too small: \<open>ENOUGH\<close>
  turns suffice for a forward walk or a count on any store, \<open>2 ^ 64 + 2\<close> for listing pages
  (page numbers have 64 bits and no page is visited twice), and on a sound tree the entries plus
  the pages plus three for a walk either way. Room for new pages is a hypothesis (\<open>fs_room\<close>: the page
  count stays below \<open>MAX_PAGES\<close>). Counters of commits and versions are unbounded, and bounded by
  a hypothesis where the code stores them in 64 bits.

  Not modelled: the typed API of collections and the catalog over these parts, the parser of filters
  given as text, aggregates, selections and updates, reading an index in sort order, change
  streams, serde, JSON, export, compaction and statistics, the command line. Threads are the
  interleavings of \<open>pages_step\<close>, whose steps are what the code does under one lock. In the log,
  crashes that leave other bytes than written, zero bytes apart, are not.
\<close>

end
